(* ===== verification/Prelude.thy ===== *)
theory Prelude
  imports Main "HOL-Library.Word"
begin

text \<open>
  Shared vocabulary of the development: the machine integer types, the result type of fallible
  Rust code, slices with their bounds checks, little-endian numbers, bit lengths and the chunked
  traversal of a slice.  A Rust function that returns \<open>Result\<close> becomes a function into
  \<open>fault + 'a\<close>; the error side also has the ways in which the Rust code could fail without
  returning normally: a panic (failed bounds check, \<open>unwrap\<close>, \<open>assert\<close>, \<open>unreachable\<close>, and
  arithmetic overflow as a build with overflow checks reports it), undefined behaviour (an
  unchecked access outside its buffer) and a loop that never ends, so that their absence is a
  theorem and not a convention.
\<close>

named_theorems res_simps \<open>equations that open a chain of fallible calls\<close>

section \<open>Machine integers\<close>

type_synonym u8 = "8 word"
type_synonym u16 = "16 word"
type_synonym u32 = "32 word"
type_synonym u64 = "64 word"

section \<open>Results\<close>

text \<open>The error values of the decoder's modules; one constructor per message of the source.\<close>

datatype fse_error =
    FseAccuracyLog nat nat          \<comment> \<open>Accuracy log {} exceeds max {}\<close>
  | FseUnassigned int nat           \<comment> \<open>FSE counts leave {} of {} cells unassigned\<close>
  | FseTooManySymbols nat           \<comment> \<open>Too many symbols: {}\<close>
  | FsePastInput                    \<comment> \<open>FSE table header extends past its input\<close>
  | FseFewSymbols                   \<comment> \<open>fewer than two symbols of nonzero probability\<close>
  | FseDistribution nat int nat     \<comment> \<open>Invalid FSE distribution: {} counts over {} cells at log {}\<close>
  | FseUninitialized                \<comment> \<open>FSE table is uninitialized\<close>

datatype huf_error =
    HufStreamEmpty | HufNoEndMark | HufWeightsShort | HufTooManyWeights | HufSourceEmpty
  | HufRawWeights nat | HufWeightBytes nat nat | HufWeightMax nat | HufMissingWeights
  | HufMaxBits nat | HufLeftover nat | HufWeightOne nat | HufUninitialized | HufNotConsumed
  | HufFourShort nat | HufJumpTable | HufSegments | HufOverranSegment | HufOverranStart
  | HufTreeless

datatype section_error =
    LiteralsHeader nat nat          \<comment> \<open>Not enough bytes for literals header: have {}, need {}\<close>
  | SequencesEmpty
  | SequencesShort nat nat
  | SequencesModes u8               \<comment> \<open>reserved bits set\<close>
  | RleTableMissing nat
  | RleTableCode nat u8
  | RepeatWithoutTable nat
  | BlockTruncated
  | BlockReserved
  | BlockSizeMax nat nat            \<comment> \<open>Block size {} exceeds Block_Maximum_Size {}\<close>
  | LiteralsSizeMax nat nat
  | MalformedSection nat nat
  | ExtraBits nat
  | BlockDecodesPast nat nat
  | SequenceStreamLeft

text \<open>\<open>enum SeqError\<close> of \<open>decode.rs\<close>.\<close>

datatype seq_error =
    NotEnoughLiterals | BlockTooLarge | OffsetTooFar | OffsetBeforeDict | OffsetPastWindow

datatype frame_error =
    MagicTruncated | SkipSizeTruncated | BadMagic nat | DescriptorTruncated
  | ReservedBit u8 | WindowTruncated | DictIdTruncated | ContentSizeTruncated
  | WindowLogTooLarge nat | WindowTooSmall nat | DictionaryWrong nat nat | DictionaryMissing nat
  | ContentSizeMismatch nat nat | ChecksumMismatch nat nat | ChecksumTruncated
  | InputLeft nat | SkippablePastInput | BlockContentTruncated | ContentTooLarge nat
  | SkippableFrame nat | FcsFlag nat | DictIdFlag nat

datatype dict_error =
    DictNoEntropy | DictRepsTruncated | DictRepOutside nat nat

datatype decode_error =
    FseError fse_error | HufError huf_error | SectionError section_error
  | SeqError seq_error | FrameError frame_error | DictError dict_error

datatype fault = Err decode_error | Panic | Undefined | Diverges

type_synonym 'a res = "fault + 'a"

definition res_bind :: "'a res \<Rightarrow> ('a \<Rightarrow> 'b res) \<Rightarrow> 'b res" where
  "res_bind m f = (case m of Inl e \<Rightarrow> Inl e | Inr x \<Rightarrow> f x)"

lemma res_bind_simps [simp]:
  "res_bind (Inl e) f = Inl e"
  "res_bind (Inr x) f = f x"
  by (simp_all add: res_bind_def)

lemma res_bind_Inr_iff [res_simps]:
  "res_bind m f = Inr y \<longleftrightarrow> (\<exists>x. m = Inr x \<and> f x = Inr y)"
  by (cases m) auto

lemma res_bind_Inl_iff [res_simps]:
  "res_bind m f = Inl e \<longleftrightarrow> m = Inl e \<or> (\<exists>x. m = Inr x \<and> f x = Inl e)"
  by (cases m) auto

lemma res_bind_cong [fundef_cong]:
  "m = m' \<Longrightarrow> (\<And>x. m' = Inr x \<Longrightarrow> f x = g x) \<Longrightarrow> res_bind m f = res_bind m' g"
  by (cases m') auto

text \<open>A result that is a value or one of the errors the source returns: no panic, no undefined
  behaviour, no endless loop.\<close>

definition safe_res :: "'a res \<Rightarrow> bool" where
  "safe_res r \<longleftrightarrow> (case r of Inl (Err _) \<Rightarrow> True | Inl _ \<Rightarrow> False | Inr _ \<Rightarrow> True)"

lemma safe_res_simps [simp]:
  "safe_res (Inr x)" "safe_res (Inl (Err e))" "\<not> safe_res (Inl Panic)" "\<not> safe_res (Inl Undefined)"
  "\<not> safe_res (Inl Diverges)"
  by (simp_all add: safe_res_def)

lemma safe_res_iff: "safe_res r \<longleftrightarrow> r \<noteq> Inl Panic \<and> r \<noteq> Inl Undefined \<and> r \<noteq> Inl Diverges"
  by (auto simp: safe_res_def split: sum.splits fault.splits)

lemma safe_res_bind:
  "safe_res m \<Longrightarrow> (\<And>x. m = Inr x \<Longrightarrow> safe_res (f x)) \<Longrightarrow> safe_res (res_bind m f)"
  by (cases m) (auto simp: safe_res_iff)

section \<open>Slices\<close>

text \<open>\<open>s.get(a..b)\<close>, \<open>&s[a..b]\<close>, \<open>s[i]\<close> and \<open>s[a..a + d.len()].copy_from_slice(d)\<close>.\<close>

definition get_range :: "'a list \<Rightarrow> nat \<Rightarrow> nat \<Rightarrow> 'a list option" where
  "get_range xs a b = (if a \<le> b \<and> b \<le> length xs then Some (take (b - a) (drop a xs)) else None)"

definition slice :: "'a list \<Rightarrow> nat \<Rightarrow> nat \<Rightarrow> 'a list res" where
  "slice xs a b = (case get_range xs a b of None \<Rightarrow> Inl Panic | Some ys \<Rightarrow> Inr ys)"

definition index :: "'a list \<Rightarrow> nat \<Rightarrow> 'a res" where
  "index xs i = (if i < length xs then Inr (xs ! i) else Inl Panic)"

definition put_slice :: "'a list \<Rightarrow> nat \<Rightarrow> 'a list \<Rightarrow> 'a list" where
  "put_slice xs i ys = take i xs @ ys @ drop (i + length ys) xs"

lemma get_range_Some_iff [simp]:
  "get_range xs a b = Some ys \<longleftrightarrow> a \<le> b \<and> b \<le> length xs \<and> ys = take (b - a) (drop a xs)"
  by (auto simp: get_range_def)

lemma get_range_None_iff [simp]:
  "get_range xs a b = None \<longleftrightarrow> \<not> (a \<le> b \<and> b \<le> length xs)"
  by (auto simp: get_range_def)

lemma slice_Inr [simp]:
  "a \<le> b \<Longrightarrow> b \<le> length xs \<Longrightarrow> slice xs a b = Inr (take (b - a) (drop a xs))"
  by (simp add: slice_def get_range_def)

lemma slice_Inr_iff [res_simps]:
  "slice xs a b = Inr ys \<longleftrightarrow> a \<le> b \<and> b \<le> length xs \<and> ys = take (b - a) (drop a xs)"
  by (auto simp: slice_def get_range_def)

lemma index_Inr [simp]: "i < length xs \<Longrightarrow> index xs i = Inr (xs ! i)"
  by (simp add: index_def)

lemma index_Inr_iff [res_simps]: "index xs i = Inr x \<longleftrightarrow> i < length xs \<and> x = xs ! i"
  by (auto simp: index_def)

lemma length_put_slice [simp]:
  "i + length ys \<le> length xs \<Longrightarrow> length (put_slice xs i ys) = length xs"
  by (simp add: put_slice_def)

lemma take_put_slice:
  "i \<le> length xs \<Longrightarrow> take (i + length ys) (put_slice xs i ys) = take i xs @ ys"
  by (simp add: put_slice_def)

section \<open>Little-endian numbers\<close>

text \<open>The value of \<open>uN::from_le_bytes\<close>, before it is given a width.\<close>

fun le_nat :: "u8 list \<Rightarrow> nat" where
  "le_nat [] = 0"
| "le_nat (b # bs) = unat b + 256 * le_nat bs"

lemma le_nat_bound: "le_nat bs < 256 ^ length bs"
proof (induction bs)
  case Nil
  then show ?case by simp
next
  case (Cons b bs)
  have "unat b < 256" using unsigned_less [of b] by simp
  with Cons.IH show ?case by simp
qed

lemma le_nat_append: "le_nat (xs @ ys) = le_nat xs + 256 ^ length xs * le_nat ys"
  by (induction xs) (auto simp: algebra_simps)

section \<open>Bit lengths\<close>

text \<open>\<open>bit_length n\<close> is \<open>BITS - n.leading_zeros()\<close> of an unsigned integer wide enough for
  \<open>n\<close>.\<close>

fun bit_length :: "nat \<Rightarrow> nat" where
  "bit_length n = (if n = 0 then 0 else Suc (bit_length (n div 2)))"

declare bit_length.simps [simp del]

lemma bit_length_0 [simp]: "bit_length 0 = 0"
  by (subst bit_length.simps) simp

lemma bit_length_pos: "0 < n \<Longrightarrow> bit_length n = Suc (bit_length (n div 2))"
  by (subst bit_length.simps) simp

lemma bit_length_eq_0_iff [simp]: "bit_length n = 0 \<longleftrightarrow> n = 0"
  by (subst bit_length.simps) simp

lemma bit_length_upper: "n < 2 ^ bit_length n"
proof (induction n rule: bit_length.induct)
  case (1 n)
  show ?case
  proof (cases "n = 0")
    case False
    then have "n div 2 < 2 ^ bit_length (n div 2)" using 1 by simp
    then have "n < 2 * 2 ^ bit_length (n div 2)" by linarith
    with False show ?thesis by (simp add: bit_length_pos)
  qed simp
qed

lemma bit_length_lower: "0 < n \<Longrightarrow> 2 ^ (bit_length n - 1) \<le> n"
proof (induction n rule: bit_length.induct)
  case (1 n)
  show ?case
  proof (cases "n div 2 = 0")
    case True
    with "1.prems" show ?thesis by (simp add: bit_length_pos)
  next
    case False
    then have IH: "2 ^ (bit_length (n div 2) - 1) \<le> n div 2" using 1 by simp
    from False obtain k where k: "bit_length (n div 2) = Suc k"
      by (cases "bit_length (n div 2)") auto
    from IH k have "2 * 2 ^ k \<le> n" by auto
    with "1.prems" k show ?thesis by (simp add: bit_length_pos)
  qed
qed

lemma bit_length_eqI:
  assumes "2 ^ k \<le> n" and "n < 2 ^ Suc k"
  shows "bit_length n = Suc k"
proof -
  have pos: "0 < n" using assms(1) by (cases n) auto
  have "(2::nat) ^ (bit_length n - 1) < 2 ^ Suc k"
    using bit_length_lower [OF pos] assms(2) by (rule le_less_trans)
  then have "bit_length n - 1 < Suc k" by (rule power_less_imp_less_exp [rotated]) simp
  moreover have "(2::nat) ^ k < 2 ^ bit_length n"
    using assms(1) bit_length_upper [of n] by (rule le_less_trans)
  then have "k < bit_length n" by simp
  ultimately show ?thesis by simp
qed

lemma bit_length_le_iff: "bit_length n \<le> k \<longleftrightarrow> n < 2 ^ k"
proof
  assume "bit_length n \<le> k"
  then have "(2::nat) ^ bit_length n \<le> 2 ^ k" by simp
  with bit_length_upper [of n] show "n < 2 ^ k" by (rule less_le_trans)
next
  assume l: "n < 2 ^ k"
  show "bit_length n \<le> k"
  proof (cases "n = 0")
    case False
    then have "(2::nat) ^ (bit_length n - 1) < 2 ^ k"
      using le_less_trans [OF bit_length_lower l] by simp
    then have "bit_length n - 1 < k" by simp
    then show ?thesis by simp
  qed simp
qed

end
