(* ===== verification/Xxhash.thy ===== *)
theory Xxhash
  imports Prelude
begin

text \<open>
  The content checksum, \<open>src/src/xxhash.rs\<close>: XXH64 with seed 0 as a streaming state.  The model
  has the state record, the lane arithmetic and the operations \<open>new\<close>, \<open>update\<close> and \<open>digest\<close>
  with the source's buffering of a partial stripe.  The theory states what a client of an
  incremental hash relies on as the locale \<open>incremental_hash\<close>, and shows that the streaming
  state implements the one-shot hash of everything fed to it, however the input was cut.
\<close>

unbundle bit_operations_syntax

section \<open>The streaming state\<close>

definition PRIME64_1 :: u64 where "PRIME64_1 = 0x9E3779B185EBCA87"
definition PRIME64_2 :: u64 where "PRIME64_2 = 0xC2B2AE3D27D4EB4F"
definition PRIME64_3 :: u64 where "PRIME64_3 = 0x165667B19E3779F9"
definition PRIME64_4 :: u64 where "PRIME64_4 = 0x85EBCA77C2B2AE63"
definition PRIME64_5 :: u64 where "PRIME64_5 = 0x27D4EB2F165667C5"

definition xxh_round :: "u64 \<Rightarrow> u64 \<Rightarrow> u64" where
  "xxh_round acc input = word_rotl 31 (acc + input * PRIME64_2) * PRIME64_1"

definition merge_round :: "u64 \<Rightarrow> u64 \<Rightarrow> u64" where
  "merge_round acc val = (acc XOR xxh_round 0 val) * PRIME64_1 + PRIME64_4"

text \<open>Every caller passes at least 8 bytes: a stripe has 32 and the finalisation loop tests.\<close>

definition read64 :: "u8 list \<Rightarrow> u64" where
  "read64 b = word_of_nat (le_nat (take 8 b))"

definition stripe :: "u64 list \<Rightarrow> u8 list \<Rightarrow> u64 list" where
  "stripe v s =
     [xxh_round (v ! 0) (read64 s),
      xxh_round (v ! 1) (read64 (drop 8 s)),
      xxh_round (v ! 2) (read64 (drop 16 s)),
      xxh_round (v ! 3) (read64 (drop 24 s))]"

record xxh64 =
  v :: "u64 list"
  total_len :: u64
  mem :: "u8 list"
  mem_size :: nat

definition xxh_new :: xxh64 where
  "xxh_new = \<lparr>v = [PRIME64_1 + PRIME64_2, PRIME64_2, 0, 0 - PRIME64_1],
     total_len = 0, mem = replicate 32 0, mem_size = 0\<rparr>"

text \<open>\<open>for s in stripes { stripe(&mut v, s) }\<close> over \<open>input.as_chunks::<32>()\<close>, with the rest.\<close>

function stripes :: "u64 list \<Rightarrow> u8 list \<Rightarrow> u64 list \<times> u8 list" where
  "stripes vs input =
     (if length input < 32 then (vs, input)
      else stripes (stripe vs (take 32 input)) (drop 32 input))"
  by pat_completeness auto
termination
  by (relation "measure (\<lambda>(vs, input). length input)") auto

declare stripes.simps [simp del]

definition xxh_update :: "xxh64 \<Rightarrow> u8 list \<Rightarrow> xxh64" where
  "xxh_update h input =
     (let h = h\<lparr>total_len := total_len h + word_of_nat (length input)\<rparr> in
      if mem_size h + length input < 32 then
        h\<lparr>mem := put_slice (mem h) (mem_size h) input, mem_size := mem_size h + length input\<rparr>
      else
        let (h, input) =
          (if 0 < mem_size h then
             let n = 32 - mem_size h;
                 m = put_slice (mem h) (mem_size h) (take n input)
             in (h\<lparr>v := stripe (v h) m, mem := m, mem_size := 0\<rparr>, drop n input)
           else (h, input));
            (vs, tail) = stripes (v h) input
        in h\<lparr>v := vs, mem := put_slice (mem h) 0 tail, mem_size := length tail\<rparr>)"

text \<open>\<open>XXH64_finalize\<close>: whole 8-byte words, then one 4-byte word, then single bytes.\<close>

function finalize8 :: "u64 \<Rightarrow> u8 list \<Rightarrow> u64 \<times> u8 list" where
  "finalize8 h tail =
     (if 8 \<le> length tail
      then finalize8 (word_rotl 27 (h XOR xxh_round 0 (read64 tail)) * PRIME64_1 + PRIME64_4)
             (drop 8 tail)
      else (h, tail))"
  by pat_completeness auto
termination
  by (relation "measure (\<lambda>(h, tail). length tail)") auto

declare finalize8.simps [simp del]

definition finalize4 :: "u64 \<Rightarrow> u8 list \<Rightarrow> u64 \<times> u8 list" where
  "finalize4 h tail =
     (if 4 \<le> length tail
      then let k = (word_of_nat (le_nat (take 4 tail)) :: u64) in
        (word_rotl 23 (h XOR (k * PRIME64_1)) * PRIME64_2 + PRIME64_3, drop 4 tail)
      else (h, tail))"

fun finalize1 :: "u64 \<Rightarrow> u8 list \<Rightarrow> u64" where
  "finalize1 h [] = h"
| "finalize1 h (b # bs) = finalize1 (word_rotl 11 (h XOR (ucast b * PRIME64_5)) * PRIME64_1) bs"

definition avalanche :: "u64 \<Rightarrow> u64" where
  "avalanche h =
     (let h = h XOR drop_bit 33 h;
          h = h * PRIME64_2;
          h = h XOR drop_bit 29 h;
          h = h * PRIME64_3
      in h XOR drop_bit 32 h)"

text \<open>\<open>Xxh64::digest\<close> over the fields it reads: the lanes, the length and the buffered tail.\<close>

definition digest_fields :: "u64 list \<Rightarrow> u64 \<Rightarrow> u8 list \<Rightarrow> u64" where
  "digest_fields vs len tail =
     (let h = (if 32 \<le> len then
                 fold (\<lambda>w h. merge_round h w) vs
                   (word_rotl 1 (vs ! 0) + word_rotl 7 (vs ! 1) + word_rotl 12 (vs ! 2)
                    + word_rotl 18 (vs ! 3))
               else vs ! 2 + PRIME64_5);
          h = h + len;
          (h, tail) = finalize8 h tail;
          (h, tail) = finalize4 h tail
      in avalanche (finalize1 h tail))"

definition xxh_digest :: "xxh64 \<Rightarrow> u64" where
  "xxh_digest h = digest_fields (v h) (total_len h) (take (mem_size h) (mem h))"

section \<open>The one-shot hash\<close>

text \<open>XXH64 of a whole byte string: the lanes over its whole stripes, then the rest.\<close>

definition xxh64_hash :: "u8 list \<Rightarrow> u64" where
  "xxh64_hash data =
     (let (vs, tail) = stripes (v xxh_new) data
      in digest_fields vs (word_of_nat (length data)) tail)"

text \<open>The state after feeding \<open>data\<close>, up to the dead bytes of the stripe buffer.\<close>

definition xxh_repr :: "xxh64 \<Rightarrow> u8 list \<Rightarrow> bool" where
  "xxh_repr h data \<longleftrightarrow>
     stripes (v xxh_new) data = (v h, take (mem_size h) (mem h)) \<and>
     mem_size h < 32 \<and> length (mem h) = 32 \<and> total_len h = word_of_nat (length data)"

section \<open>Interface of an incremental hash\<close>

locale incremental_hash =
  fixes init :: 's
    and upd :: "'s \<Rightarrow> 'b list \<Rightarrow> 's"
    and dig :: "'s \<Rightarrow> 'h"
    and repr :: "'s \<Rightarrow> 'b list \<Rightarrow> bool"
    and hash :: "'b list \<Rightarrow> 'h"
  assumes repr_init: "repr init []"
    and repr_upd: "repr s d \<Longrightarrow> repr (upd s x) (d @ x)"
    and dig_repr: "repr s d \<Longrightarrow> dig s = hash d"
begin

lemma repr_foldl: "repr s d \<Longrightarrow> repr (foldl upd s ps) (d @ concat ps)"
proof (induction ps arbitrary: s d)
  case Nil
  then show ?case by simp
next
  case (Cons p ps)
  have "repr (foldl upd (upd s p) ps) ((d @ p) @ concat ps)"
    by (rule Cons.IH) (rule repr_upd [OF Cons.prems])
  then show ?case by simp
qed

lemma dig_foldl: "dig (foldl upd init ps) = hash (concat ps)"
  using dig_repr [OF repr_foldl [OF repr_init]] by simp

end

section \<open>The streaming state implements the hash\<close>

lemma stripes_short: "length input < 32 \<Longrightarrow> stripes vs input = (vs, input)"
  by (subst stripes.simps) simp

lemma stripes_long:
  "\<not> length input < 32 \<Longrightarrow>
     stripes vs input = stripes (stripe vs (take 32 input)) (drop 32 input)"
  by (subst stripes.simps) simp

lemma stripes_tail: "stripes vs input = (ws, tail) \<Longrightarrow> length tail < 32"
proof (induction vs input rule: stripes.induct)
  case (1 vs input)
  then show ?case
    by (cases "length input < 32") (auto simp: stripes_short stripes_long)
qed

text \<open>Striping a concatenation: continue with the rest of the first part in front.\<close>

lemma stripes_append:
  "stripes vs (a @ b) = (case stripes vs a of (ws, tail) \<Rightarrow> stripes ws (tail @ b))"
proof (induction vs a rule: stripes.induct)
  case (1 vs a)
  show ?case
  proof (cases "length a < 32")
    case True
    then show ?thesis by (simp add: stripes_short)
  next
    case False
    with "1.IH" [OF False] show ?thesis by (simp add: stripes_long [of "a @ b"] stripes_long [of a])
  qed
qed

lemma xxh_repr_new: "xxh_repr xxh_new []"
  by (simp add: xxh_repr_def stripes_short xxh_new_def)

lemma xxh_update_short:
  assumes "mem_size h + length x < 32"
  shows "xxh_update h x = h\<lparr>total_len := total_len h + word_of_nat (length x),
    mem := put_slice (mem h) (mem_size h) x, mem_size := mem_size h + length x\<rparr>"
  using assms by (simp add: xxh_update_def Let_def)

text \<open>An update that completes a stripe: the buffered bytes and the input are striped as one.\<close>

lemma xxh_update_long:
  assumes "length (mem h) = 32" and "mem_size h < 32" and "\<not> mem_size h + length x < 32"
    and s: "stripes (v h) (take (mem_size h) (mem h) @ x) = (ws, tail)"
  shows "v (xxh_update h x) = ws \<and> take (mem_size (xxh_update h x)) (mem (xxh_update h x)) = tail
    \<and> mem_size (xxh_update h x) = length tail \<and> length (mem (xxh_update h x)) = 32
    \<and> total_len (xxh_update h x) = total_len h + word_of_nat (length x)"
proof -
  note tail = stripes_tail [OF s]
  show ?thesis
  proof (cases "0 < mem_size h")
    case True
    let ?n = "32 - mem_size h"
    let ?m = "put_slice (mem h) (mem_size h) (take ?n x)"
    have m: "?m = take (mem_size h) (mem h) @ take ?n x"
      using assms(1-3) by (simp add: put_slice_def)
    have "stripes (v h) (take (mem_size h) (mem h) @ x) = stripes (stripe (v h) ?m) (drop ?n x)"
      using assms(1-3) by (simp add: stripes_long m)
    with s have "stripes (stripe (v h) ?m) (drop ?n x) = (ws, tail)" by simp
    with True assms(1-3) tail show ?thesis
      by (simp add: xxh_update_def Let_def put_slice_def)
  next
    case False
    with assms tail show ?thesis
      by (simp add: xxh_update_def Let_def put_slice_def)
  qed
qed

lemma xxh_repr_update:
  assumes r: "xxh_repr h d"
  shows "xxh_repr (xxh_update h x) (d @ x)"
proof (cases "mem_size h + length x < 32")
  case True
  from r have m: "mem_size h < 32" "length (mem h) = 32" by (auto simp: xxh_repr_def)
  with True have "length (take (mem_size h) (mem h) @ x) < 32" by simp
  then have "stripes (v xxh_new) (d @ x) = (v h, take (mem_size h) (mem h) @ x)"
    using r by (simp add: xxh_repr_def stripes_append [of _ d] stripes_short)
  moreover have "take (mem_size h + length x) (put_slice (mem h) (mem_size h) x)
      = take (mem_size h) (mem h) @ x"
    using m by (intro take_put_slice) simp
  ultimately show ?thesis
    using True m r by (simp add: xxh_repr_def xxh_update_short)
next
  case False
  obtain ws tail where s: "stripes (v h) (take (mem_size h) (mem h) @ x) = (ws, tail)"
    by fastforce
  from r have "length (mem h) = 32" and "mem_size h < 32" by (auto simp: xxh_repr_def)
  note u = xxh_update_long [OF this False s]
  from r s have "stripes (v xxh_new) (d @ x) = (ws, tail)"
    by (simp add: xxh_repr_def stripes_append [of _ d])
  with u r stripes_tail [OF s] show ?thesis
    by (auto simp: xxh_repr_def)
qed

lemma xxh_digest_repr: "xxh_repr h d \<Longrightarrow> xxh_digest h = xxh64_hash d"
  by (simp add: xxh_repr_def xxh_digest_def xxh64_hash_def)

interpretation xxh: incremental_hash xxh_new xxh_update xxh_digest xxh_repr xxh64_hash
  by unfold_locales (auto intro: xxh_repr_new xxh_repr_update xxh_digest_repr)

text \<open>C5: streaming equals one-shot.  Whatever pieces the content is fed in, empty ones included,
  the digest of the streaming state is the XXH64 of the pieces' concatenation.\<close>

theorem xxh_digest_pieces:
  "xxh_digest (foldl xxh_update xxh_new pieces) = xxh64_hash (concat pieces)"
  by (rule xxh.dig_foldl)

text \<open>The reference vectors of the source's own test for the empty input and for \<open>abc\<close>.\<close>

theorem xxh_vectors:
  "xxh_digest (xxh_update xxh_new []) = 0xef46db3751d8e999 \<and>
   xxh_digest (xxh_update xxh_new [97, 98, 99]) = 0x44bc2cf5ad770999"
  by code_simp

end
