(* ===== verification/Constants.thy ===== *)
theory Constants
  imports Prelude "HOL-Library.Code_Target_Numeral"
begin

text \<open>
  \<open>src/src/constants.rs\<close>: the format constants, the base and extra-bit tables of the literal
  length and match length codes, and the encoder's maps from a value to its code.  The values are
  \<open>u32\<close> and \<open>u8\<close> in the source; none of the operations leaves its range, so they are natural
  numbers here.  The main facts are that each code owns exactly the interval
  \<open>[BASE, BASE + 2^BITS)\<close> of values: the encoder's code map inverts the tables.
\<close>

section \<open>Constants and tables\<close>

definition ZSTD_MAGIC :: nat where "ZSTD_MAGIC = 0xFD2FB528"
definition ZSTD_BLOCKSIZELOG_MAX :: nat where "ZSTD_BLOCKSIZELOG_MAX = 17"
definition ZSTD_BLOCKSIZE_MAX :: nat where "ZSTD_BLOCKSIZE_MAX = 2 ^ ZSTD_BLOCKSIZELOG_MAX"

text \<open>The target's \<open>usize\<close> has 64 bits (\<open>MEM_32BITS\<close> is false).\<close>

definition ZSTD_WINDOWLOG_MAX :: nat where "ZSTD_WINDOWLOG_MAX = 31"
definition ZSTD_HASHLOG_MIN :: nat where "ZSTD_HASHLOG_MIN = 6"
definition ZSTD_HASHLOG_MAX :: nat where
  "ZSTD_HASHLOG_MAX = (if ZSTD_WINDOWLOG_MAX < 30 then ZSTD_WINDOWLOG_MAX else 30)"
definition ZSTD_MINMATCH :: nat where "ZSTD_MINMATCH = 3"

definition MAX_LL :: nat where "MAX_LL = 35"
definition MAX_ML :: nat where "MAX_ML = 52"
definition MAX_OFF :: nat where "MAX_OFF = 31"

definition LL_BITS :: "nat list" where
  "LL_BITS = [0, 0, 0, 0, 0, 0, 0, 0, 0, 0, 0, 0, 0, 0, 0, 0, 1, 1, 1, 1, 2, 2, 3, 3, 4, 6, 7, 8, 9,
     10, 11, 12, 13, 14, 15, 16]"

definition LL_BASE :: "nat list" where
  "LL_BASE = [0, 1, 2, 3, 4, 5, 6, 7, 8, 9, 10, 11, 12, 13, 14, 15, 16, 18, 20, 22, 24, 28, 32, 40,
     48, 64, 0x80, 0x100, 0x200, 0x400, 0x800, 0x1000, 0x2000, 0x4000, 0x8000, 0x10000]"

definition ML_BITS :: "nat list" where
  "ML_BITS = [0, 0, 0, 0, 0, 0, 0, 0, 0, 0, 0, 0, 0, 0, 0, 0, 0, 0, 0, 0, 0, 0, 0, 0, 0, 0, 0, 0, 0,
     0, 0, 0, 1, 1, 1, 1, 2, 2, 3, 3, 4, 4, 5, 7, 8, 9, 10, 11, 12, 13, 14, 15, 16]"

definition ML_BASE :: "nat list" where
  "ML_BASE = [3, 4, 5, 6, 7, 8, 9, 10, 11, 12, 13, 14, 15, 16, 17, 18, 19, 20, 21, 22, 23, 24, 25,
     26, 27, 28, 29, 30, 31, 32, 33, 34, 35, 37, 39, 41, 43, 47, 51, 59, 67, 83, 99, 0x83, 0x103,
     0x203, 0x403, 0x803, 0x1003, 0x2003, 0x4003, 0x8003, 0x10003]"

definition OF_BITS :: "nat list" where
  "OF_BITS = [0, 1, 2, 3, 4, 5, 6, 7, 8, 9, 10, 11, 12, 13, 14, 15, 16, 17, 18, 19, 20, 21, 22, 23,
     24, 25, 26, 27, 28, 29, 30, 31]"

definition LL_DEFAULT_NORM :: "int list" where
  "LL_DEFAULT_NORM = [4, 3, 2, 2, 2, 2, 2, 2, 2, 2, 2, 2, 2, 1, 1, 1, 2, 2, 2, 2, 2, 2, 2, 2, 2, 3,
     2, 1, 1, 1, 1, 1, -1, -1, -1, -1]"

definition ML_DEFAULT_NORM :: "int list" where
  "ML_DEFAULT_NORM = [1, 4, 3, 2, 2, 2, 2, 2, 2, 1, 1, 1, 1, 1, 1, 1, 1, 1, 1, 1, 1, 1, 1, 1, 1, 1,
     1, 1, 1, 1, 1, 1, 1, 1, 1, 1, 1, 1, 1, 1, 1, 1, 1, 1, 1, 1, -1, -1, -1, -1, -1, -1, -1]"

definition OF_DEFAULT_NORM :: "int list" where
  "OF_DEFAULT_NORM = [1, 1, 1, 1, 1, 1, 2, 2, 2, 1, 1, 1, 1, 1, 1, 1, 1, 1, 1, 1, 1, 1, 1, 1, -1, -1,
     -1, -1, -1]"

definition LL_CODE_TABLE :: "nat list" where
  "LL_CODE_TABLE = [0, 1, 2, 3, 4, 5, 6, 7, 8, 9, 10, 11, 12, 13, 14, 15, 16, 16, 17, 17, 18, 18, 19,
     19, 20, 20, 20, 20, 21, 21, 21, 21, 22, 22, 22, 22, 22, 22, 22, 22, 23, 23, 23, 23, 23, 23, 23,
     23, 24, 24, 24, 24, 24, 24, 24, 24, 24, 24, 24, 24, 24, 24, 24, 24]"

definition ML_CODE_TABLE :: "nat list" where
  "ML_CODE_TABLE = [0, 1, 2, 3, 4, 5, 6, 7, 8, 9, 10, 11, 12, 13, 14, 15, 16, 17, 18, 19, 20, 21, 22,
     23, 24, 25, 26, 27, 28, 29, 30, 31, 32, 32, 33, 33, 34, 34, 35, 35, 36, 36, 36, 36, 37, 37, 37,
     37, 38, 38, 38, 38, 38, 38, 38, 38, 39, 39, 39, 39, 39, 39, 39, 39, 40, 40, 40, 40, 40, 40, 40,
     40, 40, 40, 40, 40, 40, 40, 40, 40, 41, 41, 41, 41, 41, 41, 41, 41, 41, 41, 41, 41, 41, 41, 41,
     41, 42, 42, 42, 42, 42, 42, 42, 42, 42, 42, 42, 42, 42, 42, 42, 42, 42, 42, 42, 42, 42, 42, 42,
     42, 42, 42, 42, 42, 42, 42, 42, 42]"

section \<open>Codes of values\<close>

definition highbit32 :: "nat \<Rightarrow> nat" where
  "highbit32 x = (if x \<le> 1 then 0 else 31 - (32 - bit_length x))"

definition ll_code :: "nat \<Rightarrow> nat" where
  "ll_code litlen = (if litlen \<le> 63 then LL_CODE_TABLE ! litlen else highbit32 litlen + 19)"

definition ml_code :: "nat \<Rightarrow> nat" where
  "ml_code ml_base = (if ml_base \<le> 127 then ML_CODE_TABLE ! ml_base else highbit32 ml_base + 36)"

definition off_code :: "nat \<Rightarrow> nat" where
  "off_code offset = highbit32 offset"

section \<open>Each code owns an interval\<close>

lemma highbit32_eqI:
  assumes "2 ^ k \<le> n" and "n < 2 ^ Suc k" and "k < 32"
  shows "highbit32 n = k"
proof (cases "n \<le> 1")
  case True
  have "k = 0"
  proof (rule ccontr)
    assume "k \<noteq> 0"
    then have "(2::nat) ^ 1 \<le> 2 ^ k" by (intro power_increasing) auto
    with assms(1) True show False by simp
  qed
  with True show ?thesis by (simp add: highbit32_def)
next
  case False
  with bit_length_eqI [OF assms(1,2)] assms(3) show ?thesis by (simp add: highbit32_def)
qed

lemma highbit32_bounds:
  assumes "0 < n" and "n < 2 ^ 32"
  shows "2 ^ highbit32 n \<le> n" and "n < 2 ^ Suc (highbit32 n)" and "highbit32 n < 32"
proof -
  obtain k where k: "bit_length n = Suc k"
    using assms(1) by (cases "bit_length n") auto
  have l: "2 ^ k \<le> n" using bit_length_lower [OF assms(1)] k by simp
  have u: "n < 2 ^ Suc k" using bit_length_upper [of n] k by simp
  have "bit_length n \<le> 32" using assms(2) by (simp add: bit_length_le_iff)
  with k have k32: "k < 32" by simp
  from highbit32_eqI [OF l u k32] l u k32
  show "2 ^ highbit32 n \<le> n" "n < 2 ^ Suc (highbit32 n)" "highbit32 n < 32" by simp_all
qed

text \<open>A code table whose codes tile the values: code \<open>c\<close> owns \<open>[base c, base c + 2^bits c)\<close>.\<close>

definition code_tiles :: "nat list \<Rightarrow> nat list \<Rightarrow> nat \<Rightarrow> bool" where
  "code_tiles base bits n \<longleftrightarrow>
     length base = n \<and> length bits = n \<and>
     (\<forall>c \<in> {0..<n - 1}. base ! Suc c = base ! c + 2 ^ (bits ! c))"

locale value_code =
  fixes base bits :: "nat list" and n :: nat and limit :: nat and code :: "nat \<Rightarrow> nat"
  assumes tiles: "code_tiles base bits n"
    and owns: "x < limit \<Longrightarrow> code x < n \<and> base ! code x \<le> x + base ! 0 \<and>
      x + base ! 0 < base ! code x + 2 ^ (bits ! code x)"
begin

lemma base_mono: "c < d \<Longrightarrow> d < n \<Longrightarrow> base ! c + 2 ^ (bits ! c) \<le> base ! d"
proof (induction d)
  case 0
  then show ?case by simp
next
  case (Suc d)
  from Suc.prems tiles have step: "base ! Suc d = base ! d + 2 ^ (bits ! d)"
    by (auto simp: code_tiles_def)
  show ?case
  proof (cases "c = d")
    case True
    with step show ?thesis by simp
  next
    case False
    with Suc have "base ! c + 2 ^ (bits ! c) \<le> base ! d" by simp
    with step show ?thesis by simp
  qed
qed

lemma code_iff:
  assumes x: "x < limit" and c: "c < n"
  shows "code x = c \<longleftrightarrow> base ! c \<le> x + base ! 0 \<and> x + base ! 0 < base ! c + 2 ^ (bits ! c)"
proof
  assume "code x = c"
  with owns [OF x] show "base ! c \<le> x + base ! 0 \<and> x + base ! 0 < base ! c + 2 ^ (bits ! c)" by simp
next
  assume r: "base ! c \<le> x + base ! 0 \<and> x + base ! 0 < base ! c + 2 ^ (bits ! c)"
  note o = owns [OF x]
  consider "code x < c" | "c < code x" | "code x = c" by linarith
  then show "code x = c"
  proof cases
    case 1
    from base_mono [OF this c] o r show ?thesis by simp
  next
    case 2
    from base_mono [OF this] o r show ?thesis by simp
  qed
qed

end

lemma ll_tiles: "code_tiles LL_BASE LL_BITS 36"
  by code_simp

lemma ml_tiles: "code_tiles ML_BASE ML_BITS 53"
  by code_simp

text \<open>The values the lookup tables cover, checked one by one.\<close>

definition ll_owned :: "nat \<Rightarrow> bool" where
  "ll_owned x = (let c = ll_code x in c < 36 \<and> LL_BASE ! c \<le> x \<and> x < LL_BASE ! c + 2 ^ (LL_BITS ! c))"

definition ml_owned :: "nat \<Rightarrow> bool" where
  "ml_owned x = (let c = ml_code x in
     c < 53 \<and> ML_BASE ! c \<le> x + 3 \<and> x + 3 < ML_BASE ! c + 2 ^ (ML_BITS ! c))"

lemma ll_code_small: "list_all ll_owned [0..<64]"
  by (simp add: LL_CODE_TABLE_def LL_BASE_def LL_BITS_def upt_conv_Cons ll_owned_def ll_code_def)

lemma ml_code_small: "list_all ml_owned [0..<128]"
  by (simp add: ML_CODE_TABLE_def ML_BASE_def ML_BITS_def upt_conv_Cons ml_owned_def ml_code_def)

lemma ll_large: "\<forall>k \<in> {6..<17}. LL_BASE ! (k + 19) = 2 ^ k \<and> LL_BITS ! (k + 19) = k"
  by code_simp

lemma ml_large: "\<forall>k \<in> {7..<17}. ML_BASE ! (k + 36) = 2 ^ k + 3 \<and> ML_BITS ! (k + 36) = k"
  by code_simp

lemma highbit32_range:
  assumes "2 ^ a \<le> x" and "x < 2 ^ b" and "b \<le> 32"
  shows "a \<le> highbit32 x" and "highbit32 x < b"
proof -
  have pos: "0 < x" using assms(1) by (cases x) auto
  have x32: "x < 2 ^ 32"
    using assms(2,3) power_increasing [of b 32 "2::nat"] by simp
  note h = highbit32_bounds [OF pos x32]
  have "(2::nat) ^ a < 2 ^ Suc (highbit32 x)" using assms(1) h(2) by (rule le_less_trans)
  then have "a < Suc (highbit32 x)" by (rule power_less_imp_less_exp [rotated]) simp
  then show "a \<le> highbit32 x" by simp
  have "(2::nat) ^ highbit32 x < 2 ^ b" using h(1) assms(2) by (rule le_less_trans)
  then show "highbit32 x < b" by (rule power_less_imp_less_exp [rotated]) simp
qed

lemma ll_code_owns:
  assumes "x < 2 ^ 17"
  shows "ll_code x < 36 \<and> LL_BASE ! ll_code x \<le> x \<and>
     x < LL_BASE ! ll_code x + 2 ^ (LL_BITS ! ll_code x)"
proof (cases "x < 64")
  case True
  with ll_code_small have "ll_owned x" by (simp add: list_all_iff)
  then show ?thesis by (simp add: ll_owned_def Let_def)
next
  case False
  then have x: "2 ^ 6 \<le> x" "0 < x" "x < 2 ^ 32" using assms by auto
  note r = highbit32_range [OF x(1) assms]
  note b = highbit32_bounds [OF x(2,3)]
  have "LL_BASE ! (highbit32 x + 19) = 2 ^ highbit32 x \<and> LL_BITS ! (highbit32 x + 19) = highbit32 x"
    using ll_large r by simp
  with False r b show ?thesis by (simp add: ll_code_def)
qed

lemma ml_code_owns:
  assumes "x < 2 ^ 17"
  shows "ml_code x < 53 \<and> ML_BASE ! ml_code x \<le> x + 3 \<and>
     x + 3 < ML_BASE ! ml_code x + 2 ^ (ML_BITS ! ml_code x)"
proof (cases "x < 128")
  case True
  with ml_code_small have "ml_owned x" by (simp add: list_all_iff)
  then show ?thesis by (simp add: ml_owned_def Let_def)
next
  case False
  then have x: "2 ^ 7 \<le> x" "0 < x" "x < 2 ^ 32" using assms by auto
  note r = highbit32_range [OF x(1) assms]
  note b = highbit32_bounds [OF x(2,3)]
  have "ML_BASE ! (highbit32 x + 36) = 2 ^ highbit32 x + 3 \<and>
      ML_BITS ! (highbit32 x + 36) = highbit32 x"
    using ml_large r by simp
  with False r b show ?thesis by (simp add: ml_code_def)
qed

lemma LL_BASE_0 [simp]: "LL_BASE ! 0 = 0" and ML_BASE_0 [simp]: "ML_BASE ! 0 = 3"
  by (simp_all add: LL_BASE_def ML_BASE_def)

interpretation ll: value_code LL_BASE LL_BITS 36 "2 ^ 17" ll_code
  using ll_code_owns by unfold_locales (auto intro: ll_tiles)

interpretation ml: value_code ML_BASE ML_BITS 53 "2 ^ 17" ml_code
  using ml_code_owns by unfold_locales (auto intro: ml_tiles)

text \<open>C6: the literal length code map inverts its tables.  For every literal length of a block
  (below 2^17, where the codes end), \<open>ll_code\<close> is exactly the one code whose base value and extra
  bits reach it, so the decoder's \<open>LL_BASE[code] + extra\<close> with \<open>extra < 2^LL_BITS[code]\<close> gives
  the encoder's value back.\<close>

theorem ll_code_iff:
  "litlen < 2 ^ 17 \<Longrightarrow> c < 36 \<Longrightarrow>
     ll_code litlen = c \<longleftrightarrow> LL_BASE ! c \<le> litlen \<and> litlen < LL_BASE ! c + 2 ^ (LL_BITS ! c)"
  using ll.code_iff [of litlen c] by simp

theorem ll_code_iff_witness:
  "ll_code 70000 = 35 \<and> LL_BASE ! 35 \<le> 70000 \<and> 70000 < LL_BASE ! 35 + 2 ^ (LL_BITS ! 35)"
proof -
  have "ll_code 70000 = 35" by code_simp
  with ll_code_iff [of 70000 35] show ?thesis by simp
qed

text \<open>C7: the match length code map inverts its tables, for every match length less 3 below
  2^17.\<close>

theorem ml_code_iff:
  "ml_base < 2 ^ 17 \<Longrightarrow> c < 53 \<Longrightarrow>
     ml_code ml_base = c \<longleftrightarrow>
       ML_BASE ! c \<le> ml_base + 3 \<and> ml_base + 3 < ML_BASE ! c + 2 ^ (ML_BITS ! c)"
  using ml.code_iff [of ml_base c] by simp

theorem ml_code_iff_witness:
  "ml_code 127 = 42 \<and> ML_BASE ! 42 \<le> 130 \<and> 130 < ML_BASE ! 42 + 2 ^ (ML_BITS ! 42)"
proof -
  have "ml_code 127 = 42" by code_simp
  with ml_code_iff [of 127 42] show ?thesis by simp
qed

end
