(* ===== verification/Bitstream.thy ===== *)
theory Bitstream
  imports Prelude
begin

text \<open>
  \<open>src/src/bitstream.rs\<close>: the forward writer \<open>BitWriter\<close> and the backward writer
  \<open>BitCStream\<close> (\<open>BIT_CStream_t\<close>).  What either has written is described by one number and a
  bit count, \<open>(W, T)\<close> with \<open>W < 2^T\<close>: adding the low \<open>n\<close> bits of a value appends
  \<open>2^T * (value mod 2^n)\<close>.  The lemmas show that both writers implement this, that closing a
  \<open>BitCStream\<close> leaves the little-endian bytes of \<open>W + 2^T\<close> in its region, and that it reports
  overflow exactly when the region is too small, which \<open>capacity_for\<close> rules out.
\<close>

unbundle bit_operations_syntax

section \<open>Numbers as bit strings\<close>

lemma nat_or_push:
  fixes a b :: nat
  assumes "a < 2 ^ n"
  shows "a OR push_bit n b = a + 2 ^ n * b"
proof -
  have "a AND push_bit n b = 0"
  proof (rule bit_eqI)
    fix k
    have "take_bit n a = a" using assms by (simp add: take_bit_nat_eq_self)
    then have "bit a k \<Longrightarrow> k < n" by (metis bit_take_bit_iff)
    then show "bit (a AND push_bit n b) k = bit 0 k"
      by (auto simp: bit_and_iff bit_push_bit_iff)
  qed
  then have "a + push_bit n b = a OR push_bit n b" by (rule disjunctive_add_eq_or)
  then show ?thesis by (simp add: push_bit_eq_mult mult.commute)
qed

lemma unat_drop_bit_div: "unat (drop_bit n w) = unat w div 2 ^ n"
  using drop_bit_eq_div [of n "unat w"] by (simp add: unat_drop_bit_eq)

lemma take_bit_bound: "take_bit n (a::nat) < 2 ^ n"
  by (simp add: take_bit_eq_mod)

lemma append_bound: "(W::nat) < 2 ^ T \<Longrightarrow> W + 2 ^ T * take_bit n b < 2 ^ (T + n)"
proof -
  assume W: "W < 2 ^ T"
  have "take_bit n b + 1 \<le> 2 ^ n" by (simp add: Suc_le_eq)
  then have "2 ^ T * (take_bit n b + 1) \<le> 2 ^ T * 2 ^ n" by (rule mult_le_mono2)
  with W show ?thesis by (simp add: power_add)
qed

text \<open>Two consecutive pieces of a value are one longer piece.\<close>

lemma take_bit_split:
  "take_bit m (b::nat) + 2 ^ m * take_bit n (drop_bit m b) = take_bit (m + n) b"
proof -
  have "drop_bit m (take_bit (m + n) b) = take_bit n (drop_bit m b)"
    by (simp add: drop_bit_take_bit)
  moreover have "take_bit m (take_bit (m + n) b) = take_bit m b"
    by (simp add: take_bit_take_bit)
  ultimately show ?thesis
    using bits_ident [of m "take_bit (m + n) b"] by (simp add: push_bit_eq_mult mult.commute)
qed

text \<open>\<open>to_le_bytes\<close>: the \<open>k\<close> low bytes of a number.\<close>

fun le_bytes :: "nat \<Rightarrow> nat \<Rightarrow> u8 list" where
  "le_bytes 0 n = []"
| "le_bytes (Suc k) n = word_of_nat n # le_bytes k (n div 256)"

lemma length_le_bytes [simp]: "length (le_bytes k n) = k"
  by (induction k arbitrary: n) auto

lemma le_nat_le_bytes: "le_nat (le_bytes k n) = n mod 256 ^ k"
proof (induction k arbitrary: n)
  case 0
  then show ?case by simp
next
  case (Suc k)
  have "unat (word_of_nat n :: u8) = n mod 256" by (simp add: unat_of_nat)
  with Suc show ?case by (simp add: mod_mult2_eq)
qed

lemma le_bytes_le_nat: "length bs = k \<Longrightarrow> le_bytes k (le_nat bs) = bs"
proof (induction bs arbitrary: k)
  case Nil
  then show ?case by simp
next
  case (Cons b bs)
  have b: "unat b < 256" using unsigned_less [of b] by simp
  then have "(unat b + 256 * le_nat bs) div 256 = le_nat bs" by simp
  moreover have "(word_of_nat (unat b + 256 * le_nat bs) :: u8) = b"
  proof (rule word_unat_eq_iff [THEN iffD2])
    show "unat (word_of_nat (unat b + 256 * le_nat bs) :: u8) = unat b"
      using b by (subst unat_of_nat) simp
  qed
  ultimately show ?case using Cons by (cases k) auto
qed

lemma le_nat_inj: "length xs = length ys \<Longrightarrow> le_nat xs = le_nat ys \<Longrightarrow> xs = ys"
  by (metis le_bytes_le_nat)

lemma le_bytes_take: "j \<le> k \<Longrightarrow> take j (le_bytes k n) = le_bytes j n"
proof (induction j arbitrary: k n)
  case 0
  then show ?case by simp
next
  case (Suc j)
  then show ?case by (cases k) auto
qed

lemma power_256: "(256::nat) ^ k = 2 ^ (8 * k)"
  by (simp add: power_mult)

section \<open>BitWriter\<close>

record bit_writer =
  bw_buf :: "u8 list"
  bw_pos :: nat
  bw_cur :: u8

definition bw_new :: bit_writer where
  "bw_new = \<lparr>bw_buf = [], bw_pos = 0, bw_cur = 0\<rparr>"

text \<open>One turn of the loop of \<open>write_bits\<close>, and the loop.  A full byte is pushed at once, so
  \<open>bw_pos\<close> is below 8 whenever the loop tests; the guard makes that visible.\<close>

definition bw_step :: "bit_writer \<Rightarrow> u64 \<Rightarrow> nat \<Rightarrow> bit_writer" where
  "bw_step w val tk =
     (let mask = push_bit tk 1 - 1;
          cur = bw_cur w OR push_bit (bw_pos w) (ucast (val AND mask));
          pos = bw_pos w + tk
      in if pos = 8 then w\<lparr>bw_buf := bw_buf w @ [cur], bw_cur := 0, bw_pos := 0\<rparr>
         else w\<lparr>bw_cur := cur, bw_pos := pos\<rparr>)"

function write_bits :: "bit_writer \<Rightarrow> u64 \<Rightarrow> nat \<Rightarrow> bit_writer" where
  "write_bits w val bits =
     (if 0 < bits \<and> bw_pos w < 8 then
        let tk = min (8 - bw_pos w) bits
        in write_bits (bw_step w val tk) (drop_bit tk val) (bits - tk)
      else w)"
  by pat_completeness auto
termination
  by (relation "measure (\<lambda>(w, val, bits). bits)") auto

declare write_bits.simps [simp del]

definition bw_finish :: "bit_writer \<Rightarrow> u8 list" where
  "bw_finish w = (if 0 < bw_pos w then bw_buf w @ [bw_cur w] else bw_buf w)"

definition bw_len :: "bit_writer \<Rightarrow> nat" where
  "bw_len w = length (bw_buf w) * 8 + bw_pos w"

text \<open>The number written so far, and the invariant of the writer.\<close>

definition bw_num :: "bit_writer \<Rightarrow> nat" where
  "bw_num w = le_nat (bw_buf w) + 256 ^ length (bw_buf w) * unat (bw_cur w)"

definition bw_inv :: "bit_writer \<Rightarrow> bool" where
  "bw_inv w \<longleftrightarrow> bw_pos w < 8 \<and> unat (bw_cur w) < 2 ^ bw_pos w"

lemma bw_step_cur:
  assumes "unat (c :: u8) < 2 ^ p" and "p + tk \<le> 8"
  shows "unat (c OR push_bit p (ucast (val AND (push_bit tk 1 - 1 :: u64))))
    = unat c + 2 ^ p * take_bit tk (unat val)"
proof -
  have "tk < 64" using assms(2) by simp
  then have m: "(push_bit tk 1 - 1 :: u64) = mask tk"
    by (simp add: mask_eq_exp_minus_1 push_bit_eq_mult)
  have u: "unat (ucast (take_bit tk val) :: u8) = take_bit tk (unat val)"
    using assms(2) by (simp add: unsigned_ucast_eq unsigned_take_bit_eq take_bit_take_bit min_def)
  have "unat (push_bit p (ucast (take_bit tk val) :: u8)) = push_bit p (take_bit tk (unat val))"
    using assms(2) by (simp add: unsigned_push_bit_eq u take_bit_push_bit take_bit_take_bit
        min.absorb2)
  then show ?thesis
    using nat_or_push [OF assms(1)] by (simp add: m unsigned_or_eq del: push_bit_of_1 flip: take_bit_eq_mask)
qed

lemma bw_step_num:
  assumes i: "bw_inv w" and tk: "bw_pos w + tk \<le> 8"
  shows "bw_num (bw_step w val tk) = bw_num w + 2 ^ bw_len w * take_bit tk (unat val)"
    and "bw_len (bw_step w val tk) = bw_len w + tk"
    and "bw_inv (bw_step w val tk)"
proof -
  let ?c = "bw_cur w OR push_bit (bw_pos w) (ucast (val AND (push_bit tk 1 - 1 :: u64)))"
  have c: "unat ?c = unat (bw_cur w) + 2 ^ bw_pos w * take_bit tk (unat val)"
    using i tk by (intro bw_step_cur) (auto simp: bw_inv_def)
  have b: "unat ?c < 2 ^ (bw_pos w + tk)"
    unfolding c using i by (intro append_bound) (simp add: bw_inv_def)
  show "bw_num (bw_step w val tk) = bw_num w + 2 ^ bw_len w * take_bit tk (unat val)"
    by (simp add: bw_num_def bw_step_def bw_len_def Let_def le_nat_append c power_256 power_add
        algebra_simps del: push_bit_of_1)
  show "bw_len (bw_step w val tk) = bw_len w + tk"
    by (simp add: bw_step_def bw_len_def Let_def)
  show "bw_inv (bw_step w val tk)"
    using b tk by (auto simp: bw_inv_def bw_step_def Let_def simp del: push_bit_of_1)
qed

lemma write_bits_num:
  "bw_inv w \<Longrightarrow> bw_num (write_bits w val bits) = bw_num w + 2 ^ bw_len w * take_bit bits (unat val)
     \<and> bw_len (write_bits w val bits) = bw_len w + bits \<and> bw_inv (write_bits w val bits)"
proof (induction w val bits rule: write_bits.induct)
  case (1 w val bits)
  show ?case
  proof (cases "0 < bits")
    case False
    then show ?thesis using "1.prems" by (simp add: write_bits.simps [of w])
  next
    case True
    from "1.prems" have p: "bw_pos w < 8" by (simp add: bw_inv_def)
    define tk where "tk = min (8 - bw_pos w) bits"
    have tk: "bw_pos w + tk \<le> 8" "tk \<le> bits" using p by (auto simp: tk_def)
    define w' where "w' = bw_step w val tk"
    note s = bw_step_num [OF "1.prems" tk(1), of val, folded w'_def]
    have r: "write_bits w val bits = write_bits w' (drop_bit tk val) (bits - tk)"
      using True p by (simp add: write_bits.simps [of w val bits] Let_def w'_def tk_def)
    have IH: "bw_num (write_bits w' (drop_bit tk val) (bits - tk))
        = bw_num w' + 2 ^ bw_len w' * take_bit (bits - tk) (unat (drop_bit tk val))
      \<and> bw_len (write_bits w' (drop_bit tk val) (bits - tk)) = bw_len w' + (bits - tk)
      \<and> bw_inv (write_bits w' (drop_bit tk val) (bits - tk))"
      unfolding w'_def using True p s(3) by (intro "1.IH") (auto simp: tk_def w'_def)
    have "take_bit tk (unat val) + 2 ^ tk * take_bit (bits - tk) (unat (drop_bit tk val))
        = take_bit bits (unat val)"
      using take_bit_split [of tk "unat val" "bits - tk"] tk by (simp add: unat_drop_bit_eq)
    then have "2 ^ bw_len w * take_bit tk (unat val)
        + 2 ^ bw_len w * (2 ^ tk * take_bit (bits - tk) (unat (drop_bit tk val)))
      = 2 ^ bw_len w * take_bit bits (unat val)"
      by (simp flip: distrib_left)
    with IH s tk show ?thesis by (simp add: r power_add mult.assoc)
  qed
qed

text \<open>C8: the forward writer is a bit string.  From any state the writer can be in, \<open>write_bits\<close>
  appends exactly the low \<open>nbits\<close> bits of the value at bit position \<open>len()\<close> (so nothing
  already written changes and higher bits of the value are dropped), \<open>len()\<close> grows by \<open>nbits\<close>,
  and \<open>finish()\<close> returns the bytes of that number, padded with zero bits to a whole byte.\<close>

theorem write_bits_appends:
  assumes "bw_inv w"
  shows "le_nat (bw_finish (write_bits w val nbits))
      = le_nat (bw_finish w) + 2 ^ bw_len w * take_bit nbits (unat val)
    \<and> bw_len (write_bits w val nbits) = bw_len w + nbits
    \<and> length (bw_finish (write_bits w val nbits)) = (bw_len w + nbits + 7) div 8
    \<and> bw_inv (write_bits w val nbits)"
proof -
  have num: "bw_inv x \<Longrightarrow> le_nat (bw_finish x) = bw_num x" for x
    by (auto simp: bw_finish_def bw_num_def bw_inv_def le_nat_append)
  have len: "bw_inv x \<Longrightarrow> length (bw_finish x) = (bw_len x + 7) div 8" for x
    by (auto simp: bw_finish_def bw_len_def bw_inv_def)
  from write_bits_num [OF assms, of val nbits] num len assms show ?thesis by simp
qed

theorem write_bits_appends_witness:
  "bw_inv (write_bits bw_new 5 3) \<and> bw_len (write_bits bw_new 5 3) = 3 \<and>
   le_nat (bw_finish (write_bits (write_bits bw_new 5 3) 12 4)) = 101"
proof -
  have n: "bw_inv bw_new" by (simp add: bw_inv_def bw_new_def)
  note a = write_bits_appends [OF n, of 5 3]
  then have w: "bw_inv (write_bits bw_new 5 3)" by simp
  from write_bits_appends [OF w, of 12 4] a show ?thesis
    by (simp add: bw_finish_def bw_len_def bw_new_def take_bit_eq_mod)
qed

section \<open>BitCStream\<close>

record bit_cstream =
  bit_container :: u64
  bit_pos :: nat
  cs_buf :: "u8 list"
  cs_ptr :: nat
  end_ptr :: nat

definition cs_new :: "u8 list \<Rightarrow> bit_cstream res" where
  "cs_new b =
     (if 8 < length b
      then Inr \<lparr>bit_container = 0, bit_pos = 0, cs_buf = b, cs_ptr = 0, end_ptr = length b - 8\<rparr>
      else Inl Panic)"

definition capacity_for :: "nat \<Rightarrow> nat" where
  "capacity_for bits = (bits + 7) div 8 + 9"

definition add_bits :: "bit_cstream \<Rightarrow> u64 \<Rightarrow> nat \<Rightarrow> bit_cstream" where
  "add_bits s val nb =
     s\<lparr>bit_container := bit_container s OR push_bit (bit_pos s) (val AND (push_bit nb 1 - 1)),
       bit_pos := bit_pos s + nb\<rparr>"

definition add_bits_fast :: "bit_cstream \<Rightarrow> u64 \<Rightarrow> nat \<Rightarrow> bit_cstream" where
  "add_bits_fast s val nb =
     s\<lparr>bit_container := bit_container s OR push_bit (bit_pos s) val, bit_pos := bit_pos s + nb\<rparr>"

text \<open>The whole container is stored, eight bytes at \<open>cs_ptr\<close>.  The store is unchecked in the source; \<open>cs_inv\<close>, which
  \<open>cs_new\<close> establishes and every operation keeps, has \<open>cs_ptr + 8\<close> within the region, so it never leaves it.\<close>

definition flush_bits :: "bit_cstream \<Rightarrow> bit_cstream" where
  "flush_bits s =
     (let nb_bytes = bit_pos s div 8
      in s\<lparr>cs_buf := put_slice (cs_buf s) (cs_ptr s) (le_bytes 8 (unat (bit_container s))),
           cs_ptr := min (cs_ptr s + nb_bytes) (end_ptr s),
           bit_pos := bit_pos s mod 8,
           bit_container := drop_bit (nb_bytes * 8) (bit_container s)\<rparr>)"

text \<open>\<open>close\<close> returns the size; the region, borrowed mutably in the source, is returned with it.\<close>

definition cs_close :: "bit_cstream \<Rightarrow> nat \<times> u8 list" where
  "cs_close s =
     (let s = flush_bits (add_bits_fast s 1 1)
      in (if end_ptr s \<le> cs_ptr s then 0 else cs_ptr s + (if 0 < bit_pos s then 1 else 0), cs_buf s))"

subsection \<open>The number a stream holds\<close>

definition cs_num :: "bit_cstream \<Rightarrow> nat" where
  "cs_num s = le_nat (take (cs_ptr s) (cs_buf s)) + 256 ^ cs_ptr s * unat (bit_container s)"

definition cs_len :: "bit_cstream \<Rightarrow> nat" where
  "cs_len s = 8 * cs_ptr s + bit_pos s"

definition cs_inv :: "bit_cstream \<Rightarrow> bool" where
  "cs_inv s \<longleftrightarrow> cs_ptr s \<le> end_ptr s \<and> end_ptr s + 8 = length (cs_buf s) \<and> bit_pos s < 64 \<and>
     unat (bit_container s) < 2 ^ bit_pos s"

lemma container_or:
  assumes "unat (c :: u64) < 2 ^ p" and "unat x < 2 ^ n" and "p + n \<le> 64"
  shows "unat (c OR push_bit p x) = unat c + 2 ^ p * unat x"
proof -
  have "(2::nat) ^ n \<le> 2 ^ (64 - p)" using assms(3) by (intro power_increasing) auto
  with assms(2) have "unat x < 2 ^ (64 - p)" by (rule less_le_trans)
  then have "take_bit (64 - p) (unat x) = unat x" by (rule take_bit_nat_eq_self)
  then have "unat (push_bit p x) = push_bit p (unat x)"
    by (simp add: unsigned_push_bit_eq take_bit_push_bit)
  then show ?thesis using nat_or_push [OF assms(1)] by (simp add: unsigned_or_eq)
qed

lemma add_bits_fast_num:
  assumes "cs_inv s" and "bit_pos s + n < 64" and "unat val < 2 ^ n"
  shows "cs_num (add_bits_fast s val n) = cs_num s + 2 ^ cs_len s * unat val"
    and "cs_len (add_bits_fast s val n) = cs_len s + n"
    and "cs_inv (add_bits_fast s val n)"
proof -
  have c: "unat (bit_container s OR push_bit (bit_pos s) val)
      = unat (bit_container s) + 2 ^ bit_pos s * unat val"
    using assms by (intro container_or [where n = n]) (auto simp: cs_inv_def)
  show "cs_num (add_bits_fast s val n) = cs_num s + 2 ^ cs_len s * unat val"
    by (simp add: cs_num_def cs_len_def add_bits_fast_def c power_256 power_add algebra_simps)
  show "cs_len (add_bits_fast s val n) = cs_len s + n"
    by (simp add: cs_len_def add_bits_fast_def)
  have "unat (bit_container s) + 2 ^ bit_pos s * take_bit n (unat val) < 2 ^ (bit_pos s + n)"
    using assms by (intro append_bound) (simp add: cs_inv_def)
  then show "cs_inv (add_bits_fast s val n)"
    using assms by (simp add: cs_inv_def add_bits_fast_def c take_bit_nat_eq_self)
qed

lemma add_bits_fast_eq:
  "n < 64 \<Longrightarrow> add_bits s val n = add_bits_fast s (take_bit n val) n"
  by (simp add: add_bits_def add_bits_fast_def take_bit_eq_mask mask_eq_exp_minus_1)

lemma add_bits_num:
  assumes "cs_inv s" and "bit_pos s + n < 64"
  shows "cs_num (add_bits s val n) = cs_num s + 2 ^ cs_len s * take_bit n (unat val)"
    and "cs_len (add_bits s val n) = cs_len s + n"
    and "cs_inv (add_bits s val n)"
proof -
  have u: "unat (take_bit n val) = take_bit n (unat val)" by (simp add: unsigned_take_bit_eq)
  then have "unat (take_bit n val) < 2 ^ n" by simp
  note f = add_bits_fast_num [OF assms this]
  from assms(2) have e: "add_bits s val n = add_bits_fast s (take_bit n val) n"
    by (intro add_bits_fast_eq) simp
  show "cs_num (add_bits s val n) = cs_num s + 2 ^ cs_len s * take_bit n (unat val)"
    "cs_len (add_bits s val n) = cs_len s + n" "cs_inv (add_bits s val n)"
    using f by (simp_all add: e u)
qed

lemma flush_bits_inv:
  assumes "cs_inv s"
  shows "cs_inv (flush_bits s)" and "bit_pos (flush_bits s) < 8"
    and "end_ptr (flush_bits s) = end_ptr s"
    and "cs_ptr (flush_bits s) = min (cs_ptr s + bit_pos s div 8) (end_ptr s)"
proof -
  have "unat (bit_container s) < 2 ^ (bit_pos s mod 8 + 8 * (bit_pos s div 8))"
    using assms by (simp add: cs_inv_def)
  then have "unat (bit_container s) div 2 ^ (8 * (bit_pos s div 8)) < 2 ^ (bit_pos s mod 8)"
    by (intro less_mult_imp_div_less) (simp only: power_add)
  then show "cs_inv (flush_bits s)"
    using assms
    by (simp add: cs_inv_def flush_bits_def Let_def unat_drop_bit_div mult.commute)
qed (simp_all add: flush_bits_def Let_def)

lemma flush_bits_num:
  assumes "cs_inv s" and room: "cs_ptr s + bit_pos s div 8 \<le> end_ptr s"
  shows "cs_num (flush_bits s) = cs_num s" and "cs_len (flush_bits s) = cs_len s"
proof -
  define k where "k = bit_pos s div 8"
  have "bit_pos s < 64" using assms(1) by (simp add: cs_inv_def)
  then have k: "k \<le> 8" by (simp add: k_def)
  let ?c = "unat (bit_container s)"
  have "take (cs_ptr s + k) (put_slice (cs_buf s) (cs_ptr s) (le_bytes 8 ?c))
      = take (cs_ptr s) (cs_buf s) @ le_bytes k ?c"
    using assms k by (simp add: put_slice_def cs_inv_def le_bytes_take)
  then have "cs_num (flush_bits s) = le_nat (take (cs_ptr s) (cs_buf s))
      + 256 ^ cs_ptr s * (?c mod 256 ^ k) + 256 ^ (cs_ptr s + k) * (?c div 256 ^ k)"
    using room assms(1)
    by (simp add: cs_num_def flush_bits_def Let_def le_nat_append le_nat_le_bytes
        unat_drop_bit_div power_256 cs_inv_def mult.commute flip: k_def)
  also have "\<dots> = le_nat (take (cs_ptr s) (cs_buf s))
      + 256 ^ cs_ptr s * (?c mod 256 ^ k + 256 ^ k * (?c div 256 ^ k))"
    by (simp only: power_add distrib_left mult.assoc add.assoc)
  finally show "cs_num (flush_bits s) = cs_num s" by (simp add: cs_num_def)
  show "cs_len (flush_bits s) = cs_len s"
    using room by (simp add: cs_len_def flush_bits_def Let_def)
qed

subsection \<open>Runs of a stream writer\<close>

text \<open>What an encoder does between \<open>new\<close> and \<open>close\<close>: additions and flushes in any order.
  \<open>cs_valid\<close> is the conjunction of the source's \<open>debug_assert\<close>s, which depend on the number of
  pending bits alone; \<open>pushes\<close> is the bit string the additions describe.\<close>

datatype cs_op = AddBits u64 nat | FlushBits

fun cs_apply :: "bit_cstream \<Rightarrow> cs_op \<Rightarrow> bit_cstream" where
  "cs_apply s (AddBits val n) = add_bits s val n"
| "cs_apply s FlushBits = flush_bits s"

fun cs_valid :: "nat \<Rightarrow> cs_op list \<Rightarrow> bool" where
  "cs_valid pos [] = (pos + 1 < 64)"
| "cs_valid pos (AddBits val n # ops) = (n < 32 \<and> pos + n < 64 \<and> cs_valid (pos + n) ops)"
| "cs_valid pos (FlushBits # ops) = cs_valid (pos mod 8) ops"

fun push_bits :: "nat \<times> nat \<Rightarrow> cs_op \<Rightarrow> nat \<times> nat" where
  "push_bits (W, T) (AddBits val n) = (W + 2 ^ T * take_bit n (unat val), T + n)"
| "push_bits (W, T) FlushBits = (W, T)"

text \<open>The region has taken everything so far, or the writer stands at its end for good.\<close>

definition cs_holds :: "bit_cstream \<Rightarrow> nat \<times> nat \<Rightarrow> bool" where
  "cs_holds s WT \<longleftrightarrow> cs_inv s \<and>
     (cs_num s = fst WT \<and> cs_len s = snd WT \<or> cs_ptr s = end_ptr s \<and> 8 * end_ptr s \<le> snd WT)"

lemma cs_holds_apply:
  assumes h: "cs_holds s WT" and v: "cs_valid (bit_pos s) (op # ops)"
  shows "cs_holds (cs_apply s op) (push_bits WT op)
    \<and> cs_valid (bit_pos (cs_apply s op)) ops \<and> end_ptr (cs_apply s op) = end_ptr s"
proof (cases op)
  case (AddBits val n)
  from h have i: "cs_inv s" by (simp add: cs_holds_def)
  have n: "bit_pos s + n < 64" using v AddBits by simp
  note a = add_bits_num [OF i n, of val]
  show ?thesis
    using h v AddBits a by (cases WT) (auto simp: cs_holds_def add_bits_def)
next
  case FlushBits
  from h have i: "cs_inv s" by (simp add: cs_holds_def)
  note f = flush_bits_inv [OF i]
  have p: "bit_pos (flush_bits s) = bit_pos s mod 8" by (simp add: flush_bits_def Let_def)
  show ?thesis
  proof (cases "cs_ptr s + bit_pos s div 8 \<le> end_ptr s")
    case True
    with flush_bits_num [OF i True] h v FlushBits f p show ?thesis
      by (cases WT) (auto simp: cs_holds_def)
  next
    case False
    with h i have "8 * end_ptr s \<le> snd WT"
      by (auto simp: cs_holds_def cs_len_def)
    with False h v FlushBits f p show ?thesis
      by (cases WT) (auto simp: cs_holds_def)
  qed
qed

lemma cs_holds_run:
  "cs_holds s WT \<Longrightarrow> cs_valid (bit_pos s) ops \<Longrightarrow>
     cs_holds (foldl cs_apply s ops) (foldl push_bits WT ops)
     \<and> bit_pos (foldl cs_apply s ops) + 1 < 64 \<and> end_ptr (foldl cs_apply s ops) = end_ptr s"
proof (induction ops arbitrary: s WT)
  case Nil
  then show ?case by simp
next
  case (Cons op ops)
  from cs_holds_apply [OF Cons.prems] have
    "cs_holds (cs_apply s op) (push_bits WT op)" "cs_valid (bit_pos (cs_apply s op)) ops"
    and e: "end_ptr (cs_apply s op) = end_ptr s" by auto
  from Cons.IH [OF this(1,2)] e show ?case by simp
qed

lemma push_bits_bound: "fst WT < 2 ^ snd WT \<Longrightarrow> fst (push_bits WT op) < 2 ^ snd (push_bits WT op)"
  by (cases WT; cases op) (auto intro: append_bound)

lemma pushes_bound:
  "fst WT < 2 ^ snd WT \<Longrightarrow> fst (foldl push_bits WT ops) < 2 ^ snd (foldl push_bits WT ops)"
proof (induction ops arbitrary: WT)
  case Nil
  then show ?case by simp
next
  case (Cons op ops)
  from Cons.IH [OF push_bits_bound [OF Cons.prems]] show ?case by simp
qed

text \<open>The bytes a flush has stored, the partial last one included.\<close>

lemma flush_bits_bytes:
  assumes i: "cs_inv s" and n: "n = (cs_len s + 7) div 8"
  shows "take n (cs_buf (flush_bits s)) = le_bytes n (cs_num s)"
proof -
  let ?c = "unat (bit_container s)"
  define k where "k = n - cs_ptr s"
  have nk: "n = cs_ptr s + k" using n by (simp add: k_def cs_len_def)
  have p: "bit_pos s < 64" "?c < 2 ^ bit_pos s" using i by (auto simp: cs_inv_def)
  have k: "k \<le> 8" "bit_pos s \<le> 8 * k" using n nk p(1) by (auto simp: cs_len_def)
  have "?c < 256 ^ k"
    unfolding power_256 using p(2) power_increasing [OF k(2), of "2::nat"]
    by (rule less_le_trans) simp
  then have c: "?c mod 256 ^ k = ?c" by simp
  have t: "take n (cs_buf (flush_bits s)) = take (cs_ptr s) (cs_buf s) @ le_bytes k ?c"
    using i k by (simp add: nk flush_bits_def Let_def put_slice_def cs_inv_def le_bytes_take)
  then have "le_nat (take n (cs_buf (flush_bits s))) = cs_num s"
    using i c by (simp add: le_nat_append le_nat_le_bytes cs_num_def cs_inv_def)
  moreover have "length (take n (cs_buf (flush_bits s))) = n"
    using i t nk by (simp add: cs_inv_def)
  ultimately show ?thesis by (metis le_bytes_le_nat)
qed

lemma cs_close_holds:
  assumes h: "cs_holds s (W, T)" and p: "bit_pos s + 1 < 64"
  shows "fst (cs_close s) = (if (T + 1) div 8 < end_ptr s then (T + 8) div 8 else 0)"
    and "(T + 1) div 8 < end_ptr s \<Longrightarrow>
      take ((T + 8) div 8) (snd (cs_close s)) = le_bytes ((T + 8) div 8) (W + 2 ^ T)"
proof -
  from h have i: "cs_inv s" by (simp add: cs_holds_def)
  define a where "a = add_bits_fast s 1 1"
  define f where "f = flush_bits a"
  have an: "cs_num a = cs_num s + 2 ^ cs_len s" "cs_len a = cs_len s + 1" and ai: "cs_inv a"
    using add_bits_fast_num [OF i p, of 1] by (simp_all add: a_def)
  note fi = flush_bits_inv [OF ai, folded f_def]
  have e: "end_ptr a = end_ptr s" and ap: "cs_ptr a = cs_ptr s"
    by (simp_all add: a_def add_bits_fast_def)
  have c: "cs_close s = (if end_ptr f \<le> cs_ptr f then 0
      else cs_ptr f + (if 0 < bit_pos f then 1 else 0), cs_buf f)"
    by (simp add: cs_close_def Let_def f_def a_def)
  have at: "8 * (cs_ptr a + bit_pos a div 8) + bit_pos a mod 8 = cs_len s + 1"
    using an(2) by (simp add: cs_len_def)
  have fb: "bit_pos f = bit_pos a mod 8" by (simp add: f_def flush_bits_def Let_def)
  show "fst (cs_close s) = (if (T + 1) div 8 < end_ptr s then (T + 8) div 8 else 0)"
  proof (cases "(T + 1) div 8 < end_ptr s")
    case True
    then have "cs_len s = T" using h by (auto simp: cs_holds_def)
    with at have q: "8 * (cs_ptr a + bit_pos a div 8) + bit_pos a mod 8 = T + 1" by simp
    have r: "cs_ptr a + bit_pos a div 8 = (T + 1) div 8" unfolding q [symmetric] by simp
    have fb': "bit_pos f = (T + 1) mod 8" unfolding fb q [symmetric] by simp
    from r True have "cs_ptr f = (T + 1) div 8" using fi(4) by (simp add: e)
    note this fb'
    moreover have "(T + 1) div 8 + (if 0 < (T + 1) mod 8 then 1 else 0) = (T + 8) div 8"
      by presburger
    ultimately show ?thesis using True fi(3) by (simp add: c e)
  next
    case False
    with h at have "end_ptr s \<le> cs_ptr f"
      using fi(4) by (auto simp: cs_holds_def e ap)
    with False fi(3) show ?thesis by (simp add: c e)
  qed
  assume "(T + 1) div 8 < end_ptr s"
  then have "cs_num s = W" "cs_len s = T" using h by (auto simp: cs_holds_def)
  with flush_bits_bytes [OF ai refl] an
  show "take ((T + 8) div 8) (snd (cs_close s)) = le_bytes ((T + 8) div 8) (W + 2 ^ T)"
    by (simp add: c f_def add.commute)
qed

lemma cs_new_holds: "cs_new b = Inr s \<Longrightarrow> cs_holds s (0, 0) \<and> bit_pos s = 0 \<and> end_ptr s = length b - 8"
  by (auto simp: cs_new_def cs_holds_def cs_inv_def cs_num_def cs_len_def split: if_splits)

lemma cs_close_run:
  assumes "cs_new b = Inr s" and "cs_valid 0 ops" and "foldl push_bits (0, 0) ops = (W, T)"
  shows "fst (cs_close (foldl cs_apply s ops))
      = (if (T + 1) div 8 < length b - 8 then (T + 8) div 8 else 0)
    \<and> ((T + 1) div 8 < length b - 8 \<longrightarrow>
        take ((T + 8) div 8) (snd (cs_close (foldl cs_apply s ops)))
          = le_bytes ((T + 8) div 8) (W + 2 ^ T))
    \<and> (capacity_for (T + 1) \<le> length b \<longrightarrow> (T + 1) div 8 < length b - 8)"
proof -
  note n = cs_new_holds [OF assms(1)]
  with cs_holds_run [of s "(0, 0)" ops] assms(2,3) have
    h: "cs_holds (foldl cs_apply s ops) (W, T)" and p: "bit_pos (foldl cs_apply s ops) + 1 < 64"
    and e: "end_ptr (foldl cs_apply s ops) = length b - 8" by auto
  have "(T + 1) div 8 \<le> (T + 1 + 7) div 8" by (intro div_le_mono) simp
  then have "capacity_for (T + 1) \<le> length b \<longrightarrow> (T + 1) div 8 < length b - 8"
    unfolding capacity_for_def by linarith
  with cs_close_holds [OF h p] e show ?thesis by simp
qed

text \<open>C4: a closed backward stream holds its bits, or says it overflowed.  After any additions and
  flushes within the writer's \<open>debug_assert\<close>s over a region \<open>b\<close>, with \<open>(W, T)\<close> the bit string
  they describe, \<open>close\<close> returns the size \<open>(T + 8) div 8\<close> and the region starts with the
  little-endian bytes of \<open>W + 2^T\<close> (the bits and the end mark) if that leaves the writer before
  the region's last 8 bytes, and returns 0 otherwise; a region of \<open>capacity_for\<close> the bits and the
  end mark never overflows.\<close>

theorem cs_close_correct:
  assumes "cs_new b = Inr s" and "cs_valid 0 ops" and "foldl push_bits (0, 0) ops = (W, T)"
  shows "fst (cs_close (foldl cs_apply s ops))
      = (if (T + 1) div 8 < length b - 8 then (T + 8) div 8 else 0)
    \<and> ((T + 1) div 8 < length b - 8 \<longrightarrow>
        take ((T + 8) div 8) (snd (cs_close (foldl cs_apply s ops)))
          = le_bytes ((T + 8) div 8) (W + 2 ^ T))
    \<and> (capacity_for (T + 1) \<le> length b \<longrightarrow> (T + 1) div 8 < length b - 8)"
  by (rule cs_close_run [OF assms])

theorem cs_close_correct_witness:
  "fst (cs_close (foldl cs_apply
      \<lparr>bit_container = 0, bit_pos = 0, cs_buf = replicate 12 0, cs_ptr = 0, end_ptr = 4\<rparr>
      [AddBits 0xFF 8, FlushBits, AddBits 0x1AB 8])) = 3"
proof -
  have "cs_new (replicate 12 0)
      = Inr \<lparr>bit_container = 0, bit_pos = 0, cs_buf = replicate 12 0, cs_ptr = 0, end_ptr = 4\<rparr>"
    by (simp add: cs_new_def)
  moreover have "cs_valid 0 [AddBits 0xFF 8, FlushBits, AddBits 0x1AB 8]" by simp
  moreover have "foldl push_bits (0, 0) [AddBits 0xFF 8, FlushBits, AddBits 0x1AB 8] = (0xABFF, 16)"
    by (simp add: take_bit_eq_mod)
  ultimately show ?thesis using cs_close_correct by fastforce
qed

end
