(* ===== verification/Bit_Reader.thy ===== *)
theory Bit_Reader
  imports Bitstream
begin

text \<open>
  The backward bit reader of the decoder, \<open>BitDStream\<close> of \<open>src/src/decode.rs\<close>: the window of
  8 bytes at \<open>ds_ptr\<close>, the bits consumed from its top, and the four reload outcomes.  A reader
  over \<open>src\<close> stands at bit \<open>ds_left\<close> of the number \<open>le_nat src\<close>: a read of \<open>n\<close> bits returns
  the \<open>n\<close> bits below that position, and a reload moves the window without moving the position.
  The unchecked 8-byte load of \<open>reload_internal\<close> is \<open>Undefined\<close> outside the source, and the
  invariant \<open>ds_inv\<close> excludes it.  The last section reads back what a \<open>BitCStream\<close> wrote.
\<close>

unbundle bit_operations_syntax

section \<open>Loads\<close>

definition read_le64 :: "u8 list \<Rightarrow> nat \<Rightarrow> u64 res" where
  "read_le64 src at = res_bind (slice src at (at + 8)) (\<lambda>b. Inr (word_of_nat (le_nat b)))"

definition read_le64_unchecked :: "u8 list \<Rightarrow> nat \<Rightarrow> u64 res" where
  "read_le64_unchecked src at =
     (if at + 8 \<le> length src then Inr (word_of_nat (le_nat (take 8 (drop at src))))
      else Inl Undefined)"

definition table_entry :: "'a list \<Rightarrow> nat \<Rightarrow> 'a res" where
  "table_entry dt i = (if i < length dt then Inr (dt ! i) else Inl Undefined)"

definition read_le_short :: "u8 list \<Rightarrow> u64 res" where
  "read_le_short src =
     (let n = length src in
      if 4 \<le> n then
        res_bind (slice src 0 4) (\<lambda>a.
        res_bind (slice src (n - 4) n) (\<lambda>b.
        Inr (word_of_nat (le_nat a) OR push_bit (8 * (n - 4)) (word_of_nat (le_nat b)))))
      else
        let mid = n div 2 in
        if n = 0 then Inl Panic
        else Inr (ucast (src ! 0) OR push_bit (8 * mid) (ucast (src ! mid))
          OR push_bit (8 * (n - 1)) (ucast (src ! (n - 1)))))"

section \<open>The reader\<close>

datatype huf_stream_status = Unfinished | EndOfBuffer | Completed | Overflow

text \<open>\<open>bits_consumed\<close> is a \<open>u32\<close> in the source and unbounded here: every read adds at most 56, and a stream
  of a block is read for at most 2 ^ 17 symbols or 98047 sequences, so it stays far below 2 ^ 32.\<close>

record bit_dstream =
  ds_src :: "u8 list"
  ds_ptr :: nat
  container :: u64
  bits_consumed :: nat

definition ds_new :: "u8 list \<Rightarrow> bit_dstream res" where
  "ds_new src =
     (if src = [] then Inl (Err (HufError HufStreamEmpty))
      else if last src = 0 then Inl (Err (HufError HufNoEndMark))
      else
        let padding = (8 - bit_length (unat (last src))) + 1 in
        if 8 \<le> length src then
          let ptr = length src - 8 in
          res_bind (read_le64 src ptr) (\<lambda>c.
          Inr \<lparr>ds_src = src, ds_ptr = ptr, container = c, bits_consumed = padding\<rparr>)
        else
          res_bind (read_le_short src) (\<lambda>c.
          Inr \<lparr>ds_src = src, ds_ptr = 0, container = c,
               bits_consumed = padding + (8 - length src) * 8\<rparr>))"

definition look_bits :: "bit_dstream \<Rightarrow> nat \<Rightarrow> nat" where
  "look_bits br n = unat (drop_bit (64 - n) (push_bit (bits_consumed br mod 64) (container br)))"

definition look_bits_any :: "bit_dstream \<Rightarrow> nat \<Rightarrow> nat" where
  "look_bits_any br n =
     unat (drop_bit ((63 - n) mod 64)
       (drop_bit 1 (push_bit (bits_consumed br mod 64) (container br))))"

definition skip_bits :: "bit_dstream \<Rightarrow> nat \<Rightarrow> bit_dstream" where
  "skip_bits br n = br\<lparr>bits_consumed := bits_consumed br + n\<rparr>"

definition read_bits :: "bit_dstream \<Rightarrow> nat \<Rightarrow> nat \<times> bit_dstream" where
  "read_bits br n = (look_bits_any br n, skip_bits br n)"

definition read_bits_fast :: "bit_dstream \<Rightarrow> nat \<Rightarrow> nat \<times> bit_dstream" where
  "read_bits_fast br n = (look_bits br n, skip_bits br n)"

definition reload_internal :: "bit_dstream \<Rightarrow> (huf_stream_status \<times> bit_dstream) res" where
  "reload_internal br =
     (if \<not> (8 \<le> ds_ptr br \<and> bits_consumed br \<le> 64) then Inl Panic
      else
      let ptr = ds_ptr br - bits_consumed br div 8 in
      res_bind (read_le64_unchecked (ds_src br) ptr) (\<lambda>c.
      Inr (Unfinished, br\<lparr>ds_ptr := ptr, bits_consumed := bits_consumed br mod 8, container := c\<rparr>)))"

definition reload_fast :: "bit_dstream \<Rightarrow> (huf_stream_status \<times> bit_dstream) res" where
  "reload_fast br = (if ds_ptr br < 8 then Inr (Overflow, br) else reload_internal br)"

definition reload :: "bit_dstream \<Rightarrow> (huf_stream_status \<times> bit_dstream) res" where
  "reload br =
     (if 64 < bits_consumed br then Inr (Overflow, br)
      else if 8 \<le> ds_ptr br then reload_internal br
      else if ds_ptr br = 0 then
        Inr (if bits_consumed br < 64 then EndOfBuffer else Completed, br)
      else
        let nb = bits_consumed br div 8;
            (nb_bytes, result) =
              (if ds_ptr br < nb then (ds_ptr br, EndOfBuffer) else (nb, Unfinished));
            ptr = ds_ptr br - nb_bytes
        in res_bind (read_le64 (ds_src br) ptr) (\<lambda>c.
           Inr (result, br\<lparr>ds_ptr := ptr, bits_consumed := bits_consumed br - nb_bytes * 8,
             container := c\<rparr>)))"

definition is_finished :: "bit_dstream \<Rightarrow> bool" where
  "is_finished br \<longleftrightarrow> ds_ptr br = 0 \<and> bits_consumed br = 64"

section \<open>Position and invariant\<close>

definition ds_left :: "bit_dstream \<Rightarrow> int" where
  "ds_left br = 8 * int (ds_ptr br) + 64 - int (bits_consumed br)"

definition ds_inv :: "bit_dstream \<Rightarrow> bool" where
  "ds_inv br \<longleftrightarrow>
     (ds_ptr br = 0 \<or> ds_ptr br + 8 \<le> length (ds_src br)) \<and>
     unat (container br) = take_bit 64 (drop_bit (8 * ds_ptr br) (le_nat (ds_src br))) \<and>
     (length (ds_src br) < 8 \<longrightarrow> ds_ptr br = 0)"

text \<open>The bits of a stream below a position, \<open>n\<close> of them.\<close>

definition stream_bits :: "u8 list \<Rightarrow> nat \<Rightarrow> nat \<Rightarrow> nat" where
  "stream_bits src p n = take_bit n (drop_bit p (le_nat src))"

lemma le_nat_take: "le_nat (take k bs) = le_nat bs mod 256 ^ k"
proof (cases "k \<le> length bs")
  case True
  have "le_nat bs = le_nat (take k bs) + 256 ^ k * le_nat (drop k bs)"
    using le_nat_append [of "take k bs" "drop k bs"] True by simp
  moreover have "le_nat (take k bs) < 256 ^ k"
    using le_nat_bound [of "take k bs"] True by simp
  ultimately show ?thesis by simp
next
  case False
  then have "le_nat bs < 256 ^ k"
    using le_nat_bound [of bs] power_increasing [of "length bs" k "256::nat"]
    by (meson less_le_trans nat_le_linear one_le_numeral)
  with False show ?thesis by simp
qed

lemma le_nat_drop: "le_nat (drop k bs) = le_nat bs div 256 ^ k"
proof (cases "k \<le> length bs")
  case True
  have "le_nat bs = le_nat (take k bs) + 256 ^ k * le_nat (drop k bs)"
    using le_nat_append [of "take k bs" "drop k bs"] True by simp
  moreover have "le_nat (take k bs) < 256 ^ k"
    using le_nat_bound [of "take k bs"] True by simp
  ultimately show ?thesis by simp
next
  case False
  then have "le_nat bs < 256 ^ k"
    using le_nat_bound [of bs] power_increasing [of "length bs" k "256::nat"]
    by (meson less_le_trans nat_le_linear one_le_numeral)
  with False show ?thesis by simp
qed

lemma load_window:
  "unat (word_of_nat (le_nat (take 8 (drop p src))) :: u64)
     = take_bit 64 (drop_bit (8 * p) (le_nat src))"
  by (simp add: unat_of_nat le_nat_take le_nat_drop take_bit_eq_mod drop_bit_eq_div power_256)

lemma read_le64_window:
  "p + 8 \<le> length src \<Longrightarrow>
     \<exists>c. read_le64 src p = Inr c \<and> unat c = take_bit 64 (drop_bit (8 * p) (le_nat src))"
  by (simp add: read_le64_def load_window)

text \<open>A look at bits the window holds is a look at the stream.\<close>

lemma window_look:
  assumes "n \<le> 64" and "k < 64" and "k + n \<le> 64"
  shows "drop_bit (64 - n) (take_bit 64 (push_bit k (C::nat))) = take_bit n (drop_bit (64 - k - n) C)"
proof -
  have "drop_bit (64 - n) (push_bit k C) = drop_bit (64 - n - k) C"
    using assms by (simp add: drop_bit_push_bit)
  then show ?thesis using assms(1) by (simp add: drop_bit_take_bit add.commute)
qed

lemma look_bits_stream:
  assumes i: "ds_inv br" and n: "0 < n" "bits_consumed br + n \<le> 64"
  shows "look_bits br n = stream_bits (ds_src br) (nat (ds_left br) - n) n"
proof -
  let ?C = "unat (container br)" and ?k = "bits_consumed br" and ?N = "le_nat (ds_src br)"
  have "look_bits br n = drop_bit (64 - n) (take_bit 64 (push_bit ?k ?C))"
    using n by (simp add: look_bits_def unat_drop_bit_eq unsigned_push_bit_eq)
  also have "\<dots> = take_bit n (drop_bit (64 - ?k - n) ?C)"
    using n by (intro window_look) auto
  also have "\<dots> = take_bit n (drop_bit (64 - ?k - n + 8 * ds_ptr br) ?N)"
    using i n by (simp add: ds_inv_def drop_bit_take_bit take_bit_take_bit min_def)
  also have "64 - ?k - n + 8 * ds_ptr br = nat (ds_left br) - n"
    using n by (simp add: ds_left_def)
  finally show ?thesis by (simp add: stream_bits_def)
qed

lemma look_bits_any_eq:
  assumes "0 < n" and "n < 64"
  shows "look_bits_any br n = look_bits br n"
proof -
  have "Suc (63 - n) = 64 - n" using assms by simp
  then show ?thesis using assms by (simp add: look_bits_any_def look_bits_def unat_drop_bit_eq)
qed

lemma look_bits_any_0: "look_bits_any br 0 = 0"
proof -
  have "unat (push_bit (bits_consumed br mod 64) (container br)) < 2 ^ 64"
    using unsigned_less [of "push_bit (bits_consumed br mod 64) (container br)"] by simp
  then show ?thesis
    by (simp add: look_bits_any_def unat_drop_bit_div flip: div_mult2_eq)
qed

lemma look_bits_any_stream:
  assumes "ds_inv br" and "n < 64" and "bits_consumed br + n \<le> 64"
  shows "look_bits_any br n = stream_bits (ds_src br) (nat (ds_left br) - n) n"
proof (cases "n = 0")
  case True
  then show ?thesis by (simp add: look_bits_any_0 stream_bits_def)
next
  case False
  with assms look_bits_stream [of br n] show ?thesis by (simp add: look_bits_any_eq)
qed

lemma skip_bits_simps [simp]:
  "ds_left (skip_bits br n) = ds_left br - int n" "ds_inv (skip_bits br n) = ds_inv br"
  "ds_src (skip_bits br n) = ds_src br" "ds_ptr (skip_bits br n) = ds_ptr br"
  "bits_consumed (skip_bits br n) = bits_consumed br + n"
  by (simp_all add: skip_bits_def ds_left_def ds_inv_def)

section \<open>Opening and reloading a stream\<close>

lemma bits_of_bounded: "bit (N::nat) j \<Longrightarrow> N < 2 ^ k \<Longrightarrow> j < k"
  by (metis bit_take_bit_iff take_bit_nat_eq_self)

lemma read_le_short_nat:
  assumes "src \<noteq> []" and "length src \<le> 8"
  shows "\<exists>c. read_le_short src = Inr c \<and> unat c = le_nat src"
proof (cases "4 \<le> length src")
  case True
  define n where "n = length src"
  let ?N = "le_nat src"
  have n: "4 \<le> n" "n \<le> 8" using True assms by (auto simp: n_def)
  have N: "?N < 2 ^ (8 * n)" using le_nat_bound [of src] by (simp add: n_def power_256)
  have lo: "unat (word_of_nat (le_nat (take 4 src)) :: u64) = take_bit 32 ?N"
    by (simp add: unat_of_nat le_nat_take take_bit_eq_mod)
  have hi: "unat (word_of_nat (le_nat (drop (n - 4) src)) :: u64) = drop_bit (8 * (n - 4)) ?N"
  proof -
    have "8 * n = 32 + 8 * (n - 4)" using n by simp
    then have "(2::nat) ^ (8 * n) = 2 ^ 32 * 256 ^ (n - 4)" by (simp only: power_add power_256)
    with N have "?N div 256 ^ (n - 4) < 2 ^ 32" by (intro less_mult_imp_div_less) simp
    then show ?thesis
      by (simp add: unat_of_nat le_nat_drop drop_bit_eq_div power_256)
  qed
  have "take_bit 32 ?N OR take_bit 64 (push_bit (8 * (n - 4)) (drop_bit (8 * (n - 4)) ?N)) = ?N"
  proof (rule bit_eqI)
    fix j
    show "bit (take_bit 32 ?N OR take_bit 64 (push_bit (8 * (n - 4)) (drop_bit (8 * (n - 4)) ?N))) j
        = bit ?N j"
      using n bits_of_bounded [of ?N j "8 * n"] N
      by (auto simp: bit_or_iff bit_take_bit_iff bit_push_bit_iff bit_drop_bit_eq)
  qed
  then show ?thesis
    using True lo hi assms
    by (simp add: read_le_short_def Let_def unsigned_or_eq unsigned_push_bit_eq flip: n_def)
next
  case False
  have b: "unat (x::u8) < 2 ^ 8" for x using unsigned_less [of x] by simp
  have u: "unat (push_bit k (ucast (x::u8) :: u64)) = push_bit k (unat x)" if "k \<le> 16" for k x
  proof -
    have "(2::nat) ^ 8 \<le> 2 ^ (64 - k)" using that by (intro power_increasing) auto
    with b [of x] have "unat x < 2 ^ (64 - k)" by (rule less_le_trans)
    then show ?thesis
      by (simp add: unsigned_push_bit_eq unsigned_ucast_eq take_bit_push_bit take_bit_nat_eq_self)
  qed
  consider (1) x where "src = [x]" | (2) x y where "src = [x, y]" | (3) x y z where "src = [x, y, z]"
    using False assms(1)
    by (cases src rule: list.exhaust; cases "tl src"; cases "tl (tl src)") (auto simp: Suc_le_eq)
  then show ?thesis
  proof cases
    case 1
    then show ?thesis using u [of 0 x] by (simp add: read_le_short_def)
  next
    case 2
    then show ?thesis
      using u [of 0 x] u [of 8 y] nat_or_push [OF b [of x], of "unat y"]
      by (simp add: read_le_short_def unsigned_or_eq or.assoc)
  next
    case 3
    have "unat x + 256 * unat y < 2 ^ 16" using b [of x] b [of y] by simp
    from nat_or_push [OF this, of "unat z"] 3 show ?thesis
      using u [of 0 x] u [of 8 y] u [of 16 z] nat_or_push [OF b [of x], of "unat y"]
      by (simp add: read_le_short_def unsigned_or_eq flip: or.assoc)
  qed
qed

text \<open>The position of the end mark: the highest set bit of the stream.\<close>

lemma bit_length_le_nat:
  assumes "src \<noteq> []" and "last src \<noteq> 0"
  shows "bit_length (le_nat src) = 8 * (length src - 1) + bit_length (unat (last src))"
proof -
  define k where "k = length src - 1"
  have s: "src = butlast src @ [last src]" using assms(1) by simp
  have N: "le_nat src = le_nat (butlast src) + 256 ^ k * unat (last src)"
    using le_nat_append [of "butlast src" "[last src]"] assms(1) by (simp add: k_def flip: s)
  have l: "0 < unat (last src)" using assms(2) by (simp add: unat_gt_0)
  have b: "le_nat (butlast src) < 2 ^ (8 * k)"
    using le_nat_bound [of "butlast src"] by (simp add: k_def power_256)
  obtain j where j: "bit_length (unat (last src)) = Suc j"
    using l by (cases "bit_length (unat (last src))") auto
  have lo: "2 ^ j \<le> unat (last src)" using bit_length_lower [OF l] j by simp
  have hi: "unat (last src) + 1 \<le> 2 ^ Suc j" using bit_length_upper [of "unat (last src)"] j by simp
  have "2 ^ (8 * k + j) \<le> le_nat src"
    unfolding N power_add power_256 by (rule trans_le_add2) (rule mult_le_mono2 [OF lo])
  moreover have "2 ^ (8 * k) * (unat (last src) + 1) \<le> 2 ^ (8 * k) * 2 ^ Suc j"
    by (rule mult_le_mono2 [OF hi])
  then have "le_nat src < 2 ^ Suc (8 * k + j)"
    using b unfolding N power_256 by (simp add: power_add)
  ultimately show ?thesis using bit_length_eqI j by (simp add: k_def)
qed

definition ds_ready :: "bit_dstream \<Rightarrow> bool" where
  "ds_ready br \<longleftrightarrow> ds_inv br \<and> (bits_consumed br \<le> 8 \<or> ds_ptr br = 0)"

lemma ds_new_Inr:
  assumes "src \<noteq> []" and "last src \<noteq> 0"
  shows "\<exists>br. ds_new src = Inr br \<and> ds_ready br \<and> ds_src br = src
    \<and> ds_left br = int (bit_length (le_nat src)) - 1 \<and> bits_consumed br \<le> 64"
proof -
  have l: "0 < unat (last src)" using assms(2) by (simp add: unat_gt_0)
  then have b: "0 < bit_length (unat (last src))" by (cases "bit_length (unat (last src))") auto
  have b8: "bit_length (unat (last src)) \<le> 8"
    using unsigned_less [of "last src"] by (simp add: bit_length_le_iff)
  have p: "8 - bit_length (unat (last src)) \<le> 7" using b by linarith
  note N = bit_length_le_nat [OF assms]
  show ?thesis
  proof (cases "8 \<le> length src")
    case True
    then obtain c where "read_le64 src (length src - 8) = Inr c"
      and "unat c = take_bit 64 (drop_bit (8 * (length src - 8)) (le_nat src))"
      using read_le64_window [of "length src - 8" src] by auto
    with True assms N b b8 p show ?thesis
      by (simp add: ds_new_def Let_def ds_ready_def ds_inv_def ds_left_def of_nat_diff)
  next
    case False
    have "le_nat src < 256 ^ length src" by (rule le_nat_bound)
    also have "\<dots> \<le> 2 ^ 64" unfolding power_256 using False by (intro power_increasing) auto
    finally have t: "take_bit 64 (le_nat src) = le_nat src" by (rule take_bit_nat_eq_self)
    from False assms(1) obtain c where "read_le_short src = Inr c" and "unat c = le_nat src"
      using read_le_short_nat [of src] by auto
    with False assms N b b8 p t show ?thesis
      by (simp add: ds_new_def Let_def ds_ready_def ds_inv_def ds_left_def of_nat_diff)
        (cases src; simp)
  qed
qed

lemma ds_new_cases:
  "ds_new src = Inl (Err (HufError HufStreamEmpty)) \<and> src = [] \<or>
   ds_new src = Inl (Err (HufError HufNoEndMark)) \<and> src \<noteq> [] \<and> last src = 0 \<or>
   src \<noteq> [] \<and> last src \<noteq> 0 \<and> (\<exists>br. ds_new src = Inr br)"
  using ds_new_Inr [of src] by (auto simp: ds_new_def)

lemma ds_new_ready:
  assumes "ds_new src = Inr br"
  shows "ds_ready br" and "ds_src br = src" and "bits_consumed br \<le> 64"
    and "ds_left br = int (bit_length (le_nat src)) - 1" and "src \<noteq> []" and "last src \<noteq> 0"
proof -
  show s: "src \<noteq> []" "last src \<noteq> 0" using assms by (auto simp: ds_new_def split: if_splits)
  from ds_new_Inr [OF s] assms
  show "ds_ready br" "ds_src br = src" "bits_consumed br \<le> 64"
    "ds_left br = int (bit_length (le_nat src)) - 1" by auto
qed

lemma reload_internal_ok:
  assumes "ds_inv br" and "8 \<le> ds_ptr br" and "bits_consumed br \<le> 64"
  shows "\<exists>br'. reload_internal br = Inr (Unfinished, br') \<and> ds_ready br' \<and> ds_src br' = ds_src br
    \<and> ds_left br' = ds_left br \<and> bits_consumed br' \<le> 7"
proof -
  define p where "p = ds_ptr br - bits_consumed br div 8"
  have d: "bits_consumed br div 8 \<le> ds_ptr br" using assms by simp
  have q: "p + 8 \<le> length (ds_src br)" using assms by (auto simp: ds_inv_def p_def)
  have l: "8 * int p + 64 - int (bits_consumed br mod 8) = ds_left br"
    using d by (simp add: ds_left_def p_def of_nat_diff) presburger
  from q l load_window [of p "ds_src br"] assms(2,3) show ?thesis
    by (simp add: reload_internal_def Let_def read_le64_unchecked_def ds_ready_def ds_inv_def
        ds_left_def flip: p_def)
qed

text \<open>A reload of a reader that has not run past its start returns, without touching memory outside
  the source, and leaves the position where it was.\<close>

lemma reload_ok:
  assumes i: "ds_inv br" and c: "bits_consumed br \<le> 64"
  shows "\<exists>st br'. reload br = Inr (st, br') \<and> ds_ready br' \<and> ds_src br' = ds_src br
    \<and> ds_left br' = ds_left br \<and> bits_consumed br' \<le> 64 \<and> st \<noteq> Overflow
    \<and> (st = Unfinished \<longrightarrow> bits_consumed br' \<le> 7)
    \<and> (st \<noteq> Unfinished \<longrightarrow> ds_ptr br' = 0) \<and> (st = Completed \<longleftrightarrow> is_finished br')"
proof -
  consider (big) "8 \<le> ds_ptr br" | (zero) "ds_ptr br = 0" | (few) "0 < ds_ptr br" "ds_ptr br < 8"
    by linarith
  then show ?thesis
  proof cases
    case big
    then obtain br' where "reload_internal br = Inr (Unfinished, br')" "ds_ready br'"
      "ds_src br' = ds_src br" "ds_left br' = ds_left br" "bits_consumed br' \<le> 7"
      using reload_internal_ok [OF i big c] by blast
    with big c show ?thesis by (simp add: reload_def is_finished_def)
  next
    case zero
    with i c show ?thesis by (auto simp: reload_def ds_ready_def is_finished_def)
  next
    case few
    define nb where "nb = min (ds_ptr br) (bits_consumed br div 8)"
    define p where "p = ds_ptr br - nb"
    have n: "nb \<le> ds_ptr br" "8 * nb \<le> bits_consumed br" by (auto simp: nb_def)
    have "p + 8 \<le> length (ds_src br)" using i few by (auto simp: ds_inv_def p_def)
    then obtain w where w: "read_le64 (ds_src br) p = Inr w"
      "unat w = take_bit 64 (drop_bit (8 * p) (le_nat (ds_src br)))"
      using read_le64_window by blast
    define br' where
      "br' = br\<lparr>ds_ptr := p, bits_consumed := bits_consumed br - nb * 8, container := w\<rparr>"
    have r: "reload br = Inr (if ds_ptr br < bits_consumed br div 8 then EndOfBuffer else Unfinished, br')"
      using few c w by (auto simp: reload_def Let_def nb_def p_def br'_def min_def)
    have "ds_left br' = ds_left br"
      using n by (simp add: ds_left_def br'_def p_def of_nat_diff)
    moreover have "ds_ready br'"
      using i few w n
      by (auto simp: ds_ready_def ds_inv_def br'_def p_def nb_def min_def split: if_splits)
    ultimately show ?thesis
      using r c few by (auto simp: br'_def p_def nb_def min_def is_finished_def)
  qed
qed

lemma reload_overflow: "64 < bits_consumed br \<Longrightarrow> reload br = Inr (Overflow, br)"
  by (simp add: reload_def)

lemma reload_total:
  assumes "ds_inv br"
  shows "\<exists>st br'. reload br = Inr (st, br') \<and> ds_inv br' \<and> ds_src br' = ds_src br
    \<and> ds_left br' = ds_left br \<and> (st = Overflow \<longleftrightarrow> 64 < bits_consumed br)
    \<and> (st \<noteq> Overflow \<longrightarrow> bits_consumed br' \<le> 64 \<and> (57 \<le> 64 - bits_consumed br' \<or> ds_ptr br' = 0))"
proof (cases "bits_consumed br \<le> 64")
  case True
  from reload_ok [OF assms True] obtain st br' where
    "reload br = Inr (st, br') \<and> ds_ready br' \<and> ds_src br' = ds_src br
      \<and> ds_left br' = ds_left br \<and> bits_consumed br' \<le> 64 \<and> st \<noteq> Overflow
      \<and> (bits_consumed br' \<le> 7 \<or> ds_ptr br' = 0)" by blast
  with True show ?thesis by (auto simp: ds_ready_def)
next
  case False
  with assms reload_overflow [of br] show ?thesis by auto
qed

text \<open>C3: no reload reads outside its stream.  Every reader that \<open>new\<close> opens satisfies the reader
  invariant, which looking and skipping keep; from it \<open>reload\<close> returns (no panic, and the unchecked
  load inside it stays in the source), keeps the invariant, the source and the bit position, reports
  \<open>Overflow\<close> exactly when more than 64 bits of the window were consumed, and otherwise leaves at
  least 57 unread bits in the window or the window at the start of the stream.\<close>

theorem reload_safe:
  assumes "ds_inv br"
  shows "\<exists>st br'. reload br = Inr (st, br') \<and> ds_inv br' \<and> ds_src br' = ds_src br
    \<and> ds_left br' = ds_left br \<and> (st = Overflow \<longleftrightarrow> 64 < bits_consumed br)
    \<and> (st \<noteq> Overflow \<longrightarrow> bits_consumed br' \<le> 64 \<and> (57 \<le> 64 - bits_consumed br' \<or> ds_ptr br' = 0))"
  by (rule reload_total [OF assms])

theorem reload_safe_witness:
  "\<exists>br. ds_new [1, 2, 3, 4, 5, 6, 7, 8, 9] = Inr br \<and> ds_inv br \<and> (\<exists>st br'. reload br = Inr (st, br'))"
proof -
  obtain br where br: "ds_new [1, 2, 3, 4, 5, 6, 7, 8, 9] = Inr br" and "ds_ready br"
    using ds_new_Inr [of "[1, 2, 3, 4, 5, 6, 7, 8, 9]"] by auto
  then have i: "ds_inv br" by (simp add: ds_ready_def)
  from reload_safe [OF i] br i show ?thesis by blast
qed

section \<open>Reading back what a writer wrote\<close>

text \<open>A client that reads fields of the given widths, reloading after each, and the fields it should
  see in a number from a position downwards.\<close>

fun read_fields :: "bit_dstream \<Rightarrow> nat list \<Rightarrow> (nat list \<times> bit_dstream) res" where
  "read_fields br [] = Inr ([], br)"
| "read_fields br (n # ns) =
     (let (x, br) = read_bits br n in
      res_bind (reload br) (\<lambda>(_, br).
      res_bind (read_fields br ns) (\<lambda>(xs, br). Inr (x # xs, br))))"

fun num_fields :: "nat \<Rightarrow> nat \<Rightarrow> nat list \<Rightarrow> nat list" where
  "num_fields N p [] = []"
| "num_fields N p (n # ns) = take_bit n (drop_bit (p - n) N) # num_fields N (p - n) ns"

lemma ds_ready_room:
  assumes "ds_ready br" and "n \<le> 56" and "int n \<le> ds_left br"
  shows "bits_consumed br + n \<le> 64"
  using assms by (auto simp: ds_ready_def ds_left_def)

lemma read_fields_ok:
  "ds_ready br \<Longrightarrow> bits_consumed br \<le> 64 \<Longrightarrow> \<forall>n \<in> set ns. n \<le> 56 \<Longrightarrow> int (sum_list ns) \<le> ds_left br \<Longrightarrow>
   \<exists>br'. read_fields br ns = Inr (num_fields (le_nat (ds_src br)) (nat (ds_left br)) ns, br')
     \<and> ds_ready br' \<and> ds_left br' = ds_left br - int (sum_list ns) \<and> bits_consumed br' \<le> 64"
proof (induction ns arbitrary: br)
  case Nil
  then show ?case by simp
next
  case (Cons n ns)
  have i: "ds_inv br" using Cons.prems by (simp add: ds_ready_def)
  have room: "bits_consumed br + n \<le> 64" using Cons.prems by (intro ds_ready_room) auto
  have x: "look_bits_any br n = take_bit n (drop_bit (nat (ds_left br) - n) (le_nat (ds_src br)))"
    using Cons.prems room look_bits_any_stream [OF i, of n] by (simp add: stream_bits_def)
  obtain st br1 where r: "reload (skip_bits br n) = Inr (st, br1)" and "ds_ready br1"
    and s: "ds_src br1 = ds_src br" and l: "ds_left br1 = ds_left br - int n"
    and "bits_consumed br1 \<le> 64"
    using reload_ok [of "skip_bits br n"] i room by auto
  with Cons.IH [of br1] Cons.prems obtain br2 where
    "read_fields br1 ns = Inr (num_fields (le_nat (ds_src br1)) (nat (ds_left br1)) ns, br2)"
    "ds_ready br2" "ds_left br2 = ds_left br1 - int (sum_list ns)" "bits_consumed br2 \<le> 64"
    by auto
  moreover have "nat (ds_left br1) = nat (ds_left br) - n" using l by (simp add: nat_diff_distrib')
  ultimately show ?case
    using r s l x by (simp add: read_bits_def algebra_simps)
qed

fun op_widths :: "cs_op list \<Rightarrow> nat list" where
  "op_widths [] = []"
| "op_widths (AddBits val n # ops) = n # op_widths ops"
| "op_widths (FlushBits # ops) = op_widths ops"

fun op_values :: "cs_op list \<Rightarrow> nat list" where
  "op_values [] = []"
| "op_values (AddBits val n # ops) = take_bit n (unat val) # op_values ops"
| "op_values (FlushBits # ops) = op_values ops"

lemma op_widths_append [simp]: "op_widths (xs @ ys) = op_widths xs @ op_widths ys"
  by (induction xs rule: op_widths.induct) auto

lemma op_values_append [simp]: "op_values (xs @ ys) = op_values xs @ op_values ys"
  by (induction xs rule: op_values.induct) auto

lemma pushes_len: "snd (foldl push_bits (W, T) ops) = T + sum_list (op_widths ops)"
  by (induction ops arbitrary: W T rule: op_widths.induct) auto

lemma cs_valid_widths: "cs_valid pos ops \<Longrightarrow> \<forall>n \<in> set (op_widths ops). n \<le> 56"
  by (induction pos ops rule: cs_valid.induct) auto

lemma num_fields_pushes:
  "foldl push_bits (0, 0) ops = (W, T) \<Longrightarrow>
     num_fields (W + 2 ^ T * H) T (rev (op_widths ops)) = rev (op_values ops)"
proof (induction ops arbitrary: W T H rule: rev_induct)
  case Nil
  then show ?case by simp
next
  case (snoc op ops)
  obtain V S where f: "foldl push_bits (0, 0) ops = (V, S)" by fastforce
  show ?case
  proof (cases op)
    case FlushBits
    with snoc f show ?thesis by simp
  next
    case (AddBits val n)
    let ?x = "take_bit n (unat val)"
    have V: "V < 2 ^ S" using pushes_bound [of "(0, 0)" ops] f by simp
    have WT: "W = V + 2 ^ S * ?x" "T = S + n" using snoc.prems f AddBits by auto
    have N: "W + 2 ^ T * H = V + 2 ^ S * (?x + 2 ^ n * H)"
      by (simp add: WT power_add algebra_simps)
    have "drop_bit S (W + 2 ^ T * H) = ?x + 2 ^ n * H"
      using V by (simp add: N drop_bit_eq_div)
    then have "take_bit n (drop_bit (T - n) (W + 2 ^ T * H)) = ?x"
      by (simp add: WT take_bit_eq_mod)
    moreover have "num_fields (W + 2 ^ T * H) S (rev (op_widths ops)) = rev (op_values ops)"
      unfolding N by (rule snoc.IH [OF f])
    ultimately show ?thesis using AddBits WT(2) by simp
  qed
qed

text \<open>The number a closed stream stands for: its bits and the end mark above them.\<close>

lemma closed_stream:
  assumes "cs_new b = Inr s" and "cs_valid 0 ops" and "foldl push_bits (0, 0) ops = (W, T)"
    and "capacity_for (T + 1) \<le> length b" and "cs_close (foldl cs_apply s ops) = (sz, region)"
  shows "le_nat (take sz region) = W + 2 ^ T" "bit_length (le_nat (take sz region)) = Suc T"
    "take sz region \<noteq> []" "last (take sz region) \<noteq> 0" "length (take sz region) = sz" "0 < sz"
proof -
  define src where "src = take sz region"
  from cs_close_run [OF assms(1-3)] assms(4,5)
  have sz: "sz = (T + 8) div 8" and src: "src = le_bytes sz (W + 2 ^ T)" by (auto simp: src_def)
  have W: "W < 2 ^ T" using pushes_bound [of "(0, 0)" ops] assms(3) by simp
  have "T < 8 * sz" unfolding sz by presburger
  then have "Suc T \<le> 8 * sz" by simp
  then have "(2::nat) ^ Suc T \<le> 256 ^ sz" unfolding power_256 by (intro power_increasing) auto
  with W show N: "le_nat (take sz region) = W + 2 ^ T" unfolding src_def [symmetric] src le_nat_le_bytes by simp
  show "bit_length (le_nat (take sz region)) = Suc T" using W by (intro bit_length_eqI) (simp_all add: N)
  show sz0: "0 < sz" unfolding sz by (simp add: div_greater_zero_iff)
  then have ne: "src \<noteq> []" unfolding src by (cases sz) auto
  then show "take sz region \<noteq> []" by (simp add: src_def)
  show "length (take sz region) = sz" using src unfolding src_def by simp
  have "last src \<noteq> 0"
  proof
    assume "last src = 0"
    then have "src = butlast src @ [0]" using ne append_butlast_last_id [of src] by simp
    then have "le_nat src = le_nat (butlast src @ [0])" by (rule arg_cong)
    then have "le_nat src = le_nat (butlast src)" by (simp add: le_nat_append)
    also have "\<dots> < 256 ^ (sz - 1)" using le_nat_bound [of "butlast src"] src by simp
    also have "\<dots> \<le> 2 ^ T" unfolding power_256 sz by (intro power_increasing) auto
    finally show False using N by (simp add: src_def)
  qed
  then show "last (take sz region) \<noteq> 0" by (simp add: src_def)
qed

text \<open>C2: the backward stream round trip.  What a writer put into a region large enough for it
  (\<open>capacity_for\<close>), the decoder's reader opens without error and reads back in reverse order of
  writing, every field with its value, until exactly every bit of the stream is consumed.\<close>

theorem bitstream_roundtrip:
  assumes "cs_new b = Inr s" and "cs_valid 0 ops" and "foldl push_bits (0, 0) ops = (W, T)"
    and "capacity_for (T + 1) \<le> length b" and "cs_close (foldl cs_apply s ops) = (sz, region)"
  shows "\<exists>br br'. ds_new (take sz region) = Inr br
    \<and> read_fields br (rev (op_widths ops)) = Inr (rev (op_values ops), br') \<and> is_finished br'"
proof -
  define src where "src = take sz region"
  note c = closed_stream [OF assms, folded src_def]
  from ds_new_Inr [OF c(3,4)] obtain br where br: "ds_new src = Inr br" "ds_ready br"
    "ds_src br = src" "ds_left br = int T" "bits_consumed br \<le> 64" by (auto simp: c(2))
  have T: "sum_list (rev (op_widths ops)) = T"
    using pushes_len [of 0 0 ops] assms(3) by (simp add: sum_list_rev)
  have "\<forall>n \<in> set (rev (op_widths ops)). n \<le> 56" using cs_valid_widths [OF assms(2)] by simp
  from read_fields_ok [OF br(2,5) this] T br obtain br' where
    r: "read_fields br (rev (op_widths ops)) = Inr (num_fields (le_nat src) T (rev (op_widths ops)), br')"
    and "ds_left br' = 0" "bits_consumed br' \<le> 64" by auto
  then have "is_finished br'" by (simp add: is_finished_def ds_left_def)
  with br r num_fields_pushes [OF assms(3), of 1] c(1) show ?thesis by (auto simp: src_def)
qed

theorem bitstream_roundtrip_witness:
  "\<exists>sz region br br'. sz = 3 \<and> ds_new (take sz region) = Inr br
    \<and> read_fields br [8, 8] = Inr ([0xAB, 0xFF], br') \<and> is_finished br'"
proof -
  let ?s = "\<lparr>bit_container = 0, bit_pos = 0, cs_buf = replicate 12 0, cs_ptr = 0, end_ptr = 4\<rparr>"
  let ?ops = "[AddBits 0xFF 8, FlushBits, AddBits 0x1AB 8]"
  have n: "cs_new (replicate 12 0) = Inr ?s" by (simp add: cs_new_def)
  have v: "cs_valid 0 ?ops" by simp
  have p: "foldl push_bits (0, 0) ?ops = (0xABFF, 16)" by (simp add: take_bit_eq_mod)
  have c: "capacity_for (16 + 1) \<le> length (replicate 12 (0::u8))" by (simp add: capacity_for_def)
  obtain sz region where z: "cs_close (foldl cs_apply ?s ?ops) = (sz, region)" by fastforce
  with cs_close_run [OF n v p] have "sz = 3" by simp
  with bitstream_roundtrip [OF n v p c z] show ?thesis by (auto simp: take_bit_eq_mod)
qed

end
