(* ===== verification/Fse_Table.thy ===== *)
theory Fse_Table
  imports Bitstream Constants "HOL-Library.Multiset"
begin

text \<open>
  The FSE decoding tables of \<open>src/src/decode.rs\<close>: \<open>FSETable\<close> with its one-cell RLE form, the
  spreading of symbols over the cells (both the branch with low-probability symbols and the
  branch without) and the derivation of every cell's bit count and next state.  \<open>u16\<close>, \<open>u8\<close>
  and \<open>u32\<close> fields are natural numbers with the casts written out; an \<open>i32\<close> count is an
  integer.  A failed bounds check or an arithmetic overflow is \<open>Panic\<close>, and the inner
  \<open>while\<close> loop that skips the low-probability cells is bounded by the table size, past which it
  would repeat its positions for ever, \<open>Diverges\<close>.  The lemmas show that the stepping visits
  every cell once, that every symbol gets as many cells as its count, and that the state
  intervals of the cells of one symbol partition the states, which is what makes a state a valid
  index and the coding uniquely invertible.
\<close>

section \<open>Tables\<close>

record fse_entry =
  next_state :: nat
  num_bits :: nat
  extra_bits :: nat
  base_value :: nat

definition fse_entry_default :: fse_entry where
  "fse_entry_default = \<lparr>next_state = 0, num_bits = 0, extra_bits = 0, base_value = 0\<rparr>"

definition ACC_LOG_OFFSET :: nat where "ACC_LOG_OFFSET = 5"
definition FSE_MAX_TABLE_LOG :: nat where "FSE_MAX_TABLE_LOG = 9"
definition FSE_MAX_TABLE_SIZE :: nat where "FSE_MAX_TABLE_SIZE = 2 ^ FSE_MAX_TABLE_LOG"

record fse_table =
  max_symbol :: nat
  cells :: "fse_entry list"
  tsize :: nat
  accuracy_log :: nat
  symbol_probabilities :: "int list"
  symbol_next :: "nat list"
  spread :: "u8 list"

definition fse_new :: "nat \<Rightarrow> fse_table" where
  "fse_new ms = \<lparr>max_symbol = ms, cells = [], tsize = 0, accuracy_log = 0,
     symbol_probabilities = [], symbol_next = [], spread = []\<rparr>"

text \<open>\<open>FSETable::decode\<close> slices the built cells.\<close>

definition fse_decode :: "fse_table \<Rightarrow> fse_entry list res" where
  "fse_decode t = slice (cells t) 0 (tsize t)"

definition fse_reset :: "fse_table \<Rightarrow> fse_table" where
  "fse_reset t = t\<lparr>symbol_probabilities := [], tsize := 0, accuracy_log := 0\<rparr>"

text \<open>\<open>Vec::resize\<close>.\<close>

definition resize :: "'a list \<Rightarrow> nat \<Rightarrow> 'a \<Rightarrow> 'a list" where
  "resize xs n x = take n xs @ replicate (n - length xs) x"

definition build_rle :: "fse_table \<Rightarrow> nat \<Rightarrow> nat list \<Rightarrow> nat list \<Rightarrow> fse_table res" where
  "build_rle t symbol base bits =
     (let t = fse_reset t;
          cs = resize (cells t) FSE_MAX_TABLE_SIZE fse_entry_default
      in res_bind (index bits symbol) (\<lambda>xb.
         res_bind (index base symbol) (\<lambda>bv.
         Inr (t\<lparr>cells := cs[0 := \<lparr>next_state = 0, num_bits = 0, extra_bits = xb, base_value = bv\<rparr>],
                tsize := 1\<rparr>))))"

section \<open>Spreading the symbols\<close>

text \<open>\<open>dt[i].base_value = v\<close>.\<close>

definition set_base :: "fse_entry list \<Rightarrow> nat \<Rightarrow> nat \<Rightarrow> fse_entry list res" where
  "set_base dt i v = (if i < length dt then Inr (dt[i := (dt ! i)\<lparr>base_value := v\<rparr>]) else Inl Panic)"

text \<open>The first pass: low-probability symbols occupy the highest cells.\<close>

fun lay_low :: "int list \<Rightarrow> nat \<Rightarrow> nat \<Rightarrow> fse_entry list \<Rightarrow> nat list
    \<Rightarrow> (nat \<times> fse_entry list \<times> nat list) res" where
  "lay_low [] s high dt nxt = Inr (high, dt, nxt)"
| "lay_low (n # ns) s high dt nxt =
     (if length nxt \<le> s then Inr (high, dt, nxt)
      else if n = -1 then
        (if high = 0 then Inl Panic
         else res_bind (set_base dt (high - 1) s) (\<lambda>dt.
              lay_low ns (Suc s) (high - 1) dt (nxt[s := 1])))
      else lay_low ns (Suc s) high dt (nxt[s := nat (n mod 65536)]))"

text \<open>The branch without low-probability symbols: 8-byte writes into \<open>spread\<close>, then the scatter.\<close>

definition write8 :: "u8 list \<Rightarrow> nat \<Rightarrow> u64 \<Rightarrow> u8 list res" where
  "write8 sp at v = (if at + 8 \<le> length sp then Inr (put_slice sp at (le_bytes 8 (unat v))) else Inl Panic)"

function lay_more :: "u64 \<Rightarrow> nat \<Rightarrow> nat \<Rightarrow> nat \<Rightarrow> u8 list \<Rightarrow> u8 list res" where
  "lay_more sv pos n i sp =
     (if i < n then res_bind (write8 sp (pos + i) sv) (lay_more sv pos n (i + 8)) else Inr sp)"
  by auto
termination by (relation "measure (\<lambda>(sv, pos, n, i, sp). n - i)") auto

declare lay_more.simps [simp del]

fun lay_symbols :: "int list \<Rightarrow> nat \<Rightarrow> u64 \<Rightarrow> u8 list \<Rightarrow> u8 list res" where
  "lay_symbols [] pos sv sp = Inr sp"
| "lay_symbols (c # cs) pos sv sp =
     (let n = nat (c mod 2 ^ 64) in
      res_bind (write8 sp pos sv) (\<lambda>sp.
      res_bind (lay_more sv pos n 8 sp) (\<lambda>sp.
      lay_symbols cs (pos + n) (sv + 0x0101010101010101) sp)))"

function scatter :: "u8 list \<Rightarrow> nat \<Rightarrow> nat \<Rightarrow> nat \<Rightarrow> nat \<Rightarrow> nat \<Rightarrow> fse_entry list
    \<Rightarrow> fse_entry list res" where
  "scatter sp table_size step msk s position dt =
     (if s < table_size then
        res_bind (index sp s) (\<lambda>a.
        res_bind (set_base dt position (unat a)) (\<lambda>dt.
        res_bind (index sp (s + 1)) (\<lambda>b.
        res_bind (set_base dt ((position + step) AND msk) (unat b)) (\<lambda>dt.
        scatter sp table_size step msk (s + 2) ((position + 2 * step) AND msk) dt))))
      else Inr dt)"
  by auto
termination by (relation "measure (\<lambda>(sp, sz, st, m, s, p, dt). sz - s)") auto

declare scatter.simps [simp del]

text \<open>The branch with low-probability symbols.  The fuel of the skipping loop is the table size.\<close>

fun skip_high :: "nat \<Rightarrow> nat \<Rightarrow> nat \<Rightarrow> nat \<Rightarrow> nat \<Rightarrow> nat res" where
  "skip_high fuel high step msk position =
     (if position < high then Inr position
      else case fuel of 0 \<Rightarrow> Inl Diverges
        | Suc fuel \<Rightarrow> skip_high fuel high step msk ((position + step) AND msk))"

declare skip_high.simps [simp del]

fun spread_symbol :: "nat \<Rightarrow> nat \<Rightarrow> nat \<Rightarrow> nat \<Rightarrow> nat \<Rightarrow> nat \<Rightarrow> nat \<Rightarrow> fse_entry list
    \<Rightarrow> (nat \<times> fse_entry list) res" where
  "spread_symbol 0 s table_size high step msk position dt = Inr (position, dt)"
| "spread_symbol (Suc k) s table_size high step msk position dt =
     res_bind (set_base dt position s) (\<lambda>dt.
     res_bind (skip_high table_size high step msk ((position + step) AND msk)) (\<lambda>position.
     spread_symbol k s table_size high step msk position dt))"

fun spread_symbols :: "int list \<Rightarrow> nat \<Rightarrow> nat \<Rightarrow> nat \<Rightarrow> nat \<Rightarrow> nat \<Rightarrow> nat \<Rightarrow> fse_entry list
    \<Rightarrow> fse_entry list res" where
  "spread_symbols [] s table_size high step msk position dt = Inr dt"
| "spread_symbols (n # ns) s table_size high step msk position dt =
     res_bind (spread_symbol (nat (max n 0)) s table_size high step msk position dt) (\<lambda>(position, dt).
     spread_symbols ns (Suc s) table_size high step msk position dt)"

section \<open>Cell states\<close>

definition fse_cell_state :: "nat list \<Rightarrow> nat \<Rightarrow> nat \<Rightarrow> ((nat \<times> nat) \<times> nat list) res" where
  "fse_cell_state nxt symbol table_log =
     res_bind (index nxt symbol) (\<lambda>ns.
     if ns + 1 \<ge> 65536 \<or> ns = 0 \<or> table_log < bit_length ns - 1 then Inl Panic
     else let nb = table_log - (bit_length ns - 1) in
          if ns * 2 ^ nb < 2 ^ table_log then Inl Panic
          else Inr ((nb mod 256, (ns * 2 ^ nb - 2 ^ table_log) mod 65536), nxt[symbol := ns + 1]))"

type_synonym codes = "(nat list \<times> nat list) option"

definition fill_cell :: "codes \<Rightarrow> nat \<Rightarrow> nat \<Rightarrow> nat \<Rightarrow> fse_entry \<Rightarrow> fse_entry res" where
  "fill_cell codes symbol nb nst cell =
     (case codes of
        Some (base, bits) \<Rightarrow>
          res_bind (index bits symbol) (\<lambda>xb.
          res_bind (index base symbol) (\<lambda>bv.
          Inr \<lparr>next_state = nst, num_bits = nb, extra_bits = xb, base_value = bv\<rparr>))
      | None \<Rightarrow> Inr (cell\<lparr>next_state := nst, num_bits := nb\<rparr>))"

fun fill_cells :: "codes \<Rightarrow> nat \<Rightarrow> nat list \<Rightarrow> fse_entry list \<Rightarrow> (nat list \<times> fse_entry list) res" where
  "fill_cells codes table_log nxt [] = Inr (nxt, [])"
| "fill_cells codes table_log nxt (cell # cs) =
     (let symbol = base_value cell mod 256 in
      res_bind (fse_cell_state nxt symbol table_log) (\<lambda>((nb, nst), nxt).
      res_bind (fill_cell codes symbol nb nst cell) (\<lambda>cell.
      res_bind (fill_cells codes table_log nxt cs) (\<lambda>(nxt, cs). Inr (nxt, cell # cs)))))"

section \<open>Building\<close>

definition fse_step :: "nat \<Rightarrow> nat" where
  "fse_step table_size = table_size div 2 + table_size div 8 + 3"

definition spread_cells :: "int list \<Rightarrow> nat \<Rightarrow> nat \<Rightarrow> u8 list \<Rightarrow> fse_entry list
    \<Rightarrow> (u8 list \<times> fse_entry list) res" where
  "spread_cells counts table_size high sp dt =
     (let msk = table_size - 1; step = fse_step table_size in
      if high = table_size then
        res_bind (lay_symbols counts 0 0 sp) (\<lambda>sp.
        res_bind (scatter sp table_size step msk 0 0 dt) (\<lambda>dt. Inr (sp, dt)))
      else
        res_bind (spread_symbols counts 0 table_size high step msk 0 dt) (\<lambda>dt. Inr (sp, dt)))"

definition build_decoding_table :: "codes \<Rightarrow> fse_table \<Rightarrow> fse_table res" where
  "build_decoding_table codes t =
     (let table_log = accuracy_log t in
      if FSE_MAX_TABLE_LOG < table_log then Inl Panic
      else
      let table_size = 2 ^ table_log;
          dt = resize (cells t) FSE_MAX_TABLE_SIZE fse_entry_default;
          nxt = resize (symbol_next t) 256 0;
          sp = resize (spread t) (FSE_MAX_TABLE_SIZE + 8) 0;
          counts = symbol_probabilities t
      in
      res_bind (lay_low counts 0 table_size dt nxt) (\<lambda>(high, dt, nxt).
      res_bind (spread_cells counts table_size high sp dt) (\<lambda>(sp, dt).
      res_bind (fill_cells codes table_log nxt (take table_size dt)) (\<lambda>(nxt, cs).
      Inr (t\<lparr>cells := cs @ drop table_size dt, symbol_next := nxt, spread := sp,
             tsize := table_size\<rparr>)))))"

text \<open>\<open>build_from_probabilities\<close>; \<open>p.abs()\<close> of an \<open>i32\<close> overflows on \<open>i32::MIN\<close> only.\<close>

definition build_from_probabilities :: "nat \<Rightarrow> int list \<Rightarrow> codes \<Rightarrow> fse_table \<Rightarrow> fse_table res" where
  "build_from_probabilities acc_log probs codes t =
     (let t = fse_reset t in
      if (\<exists>p \<in> set probs. p = - (2 ^ 31)) then Inl Panic
      else
      let n = (\<Sum>p\<leftarrow>probs. \<bar>p\<bar>) in
      if \<not> (ACC_LOG_OFFSET \<le> acc_log \<and> acc_log \<le> FSE_MAX_TABLE_LOG)
         \<or> max_symbol t + 1 < length probs
         \<or> (\<exists>p \<in> set probs. p < -1)
         \<or> n \<noteq> 2 ^ acc_log
      then Inl (Err (FseError (FseDistribution (length probs) n acc_log)))
      else build_decoding_table codes (t\<lparr>symbol_probabilities := probs, accuracy_log := acc_log\<rparr>))"

section \<open>The stepping visits every cell once\<close>

definition fse_pos :: "nat \<Rightarrow> nat \<Rightarrow> nat \<Rightarrow> nat" where
  "fse_pos n step i = (i * step) mod n"

lemma nat_and_mask: "(a::nat) AND (2 ^ k - 1) = a mod 2 ^ k"
  by (simp add: take_bit_eq_mod take_bit_eq_mask mask_eq_exp_minus_1 flip: take_bit_eq_mod)

lemma fse_pos_0 [simp]: "fse_pos n step 0 = 0"
  by (simp add: fse_pos_def)

lemma fse_pos_end [simp]: "fse_pos n step n = 0"
  by (simp add: fse_pos_def)

lemma fse_pos_less [simp]: "0 < n \<Longrightarrow> fse_pos n step i < n"
  by (simp add: fse_pos_def)

lemma fse_pos_add: "(fse_pos n step i + k * step) mod n = fse_pos n step (i + k)"
  by (simp add: fse_pos_def add_mult_distrib mod_add_left_eq)

lemma fse_pos_Suc: "(fse_pos n step i + step) mod n = fse_pos n step (Suc i)"
  using fse_pos_add [of n step i 1] by simp

lemma fse_step_coprime:
  assumes "4 \<le> log"
  shows "coprime (2 ^ log) (fse_step (2 ^ log))"
proof -
  have "(2::nat) ^ log = 16 * 2 ^ (log - 4)" using assms power_add [of "2::nat" 4 "log - 4"] by simp
  then have "odd (fse_step (2 ^ log))" by (simp add: fse_step_def)
  then show ?thesis by simp
qed

lemma fse_pos_inj:
  assumes "coprime n step" and "i < n" and "j < n" and "fse_pos n step i = fse_pos n step j"
  shows "i = j"
proof -
  have *: "i = j" if "i \<le> j" "j < n" "fse_pos n step i = fse_pos n step j" for i j
  proof -
    have "n dvd j * step - i * step"
      using that mod_eq_dvd_iff_nat [of "i * step" "j * step" n] by (simp add: fse_pos_def)
    then have "n dvd (j - i) * step" by (simp add: diff_mult_distrib)
    then have "n dvd j - i" using assms(1) by (simp add: coprime_dvd_mult_left_iff)
    then show ?thesis using that by (auto dest: dvd_imp_le)
  qed
  show ?thesis using * [of i j] * [of j i] assms by (cases "i \<le> j") auto
qed

lemma fse_pos_image:
  assumes "coprime n step" and "0 < n"
  shows "fse_pos n step ` {..<n} = {..<n}"
proof (rule card_subset_eq)
  have "inj_on (fse_pos n step) {..<n}"
    by (rule inj_onI) (use fse_pos_inj [OF assms(1)] in auto)
  then show "card (fse_pos n step ` {..<n}) = card {..<n}" by (simp add: card_image)
qed (use assms in auto)

lemma skip_high_ok:
  assumes "0 < high" and "n = 2 ^ k" and "n \<le> i + fuel" and "i \<le> n"
  shows "\<exists>j. i \<le> j \<and> j \<le> n \<and> fse_pos n step j < high \<and> (\<forall>l. i \<le> l \<and> l < j \<longrightarrow> high \<le> fse_pos n step l)
    \<and> skip_high fuel high step (n - 1) (fse_pos n step i) = Inr (fse_pos n step j)"
  using assms(3,4)
proof (induction fuel arbitrary: i)
  case 0
  then show ?case using assms by (intro exI [of _ i]) (simp add: skip_high.simps)
next
  case (Suc fuel)
  show ?case
  proof (cases "fse_pos n step i < high")
    case True
    then show ?thesis using Suc.prems by (intro exI [of _ i]) (simp add: skip_high.simps)
  next
    case False
    then have "i \<noteq> n" using assms(1) by (metis fse_pos_end)
    then obtain j where j: "Suc i \<le> j" "j \<le> n" "fse_pos n step j < high"
      "\<forall>l. Suc i \<le> l \<and> l < j \<longrightarrow> high \<le> fse_pos n step l"
      "skip_high fuel high step (n - 1) (fse_pos n step (Suc i)) = Inr (fse_pos n step j)"
      using Suc.IH [of "Suc i"] Suc.prems by auto
    have "(fse_pos n step i + step) AND (n - 1) = fse_pos n step (Suc i)"
      unfolding assms(2) nat_and_mask by (rule fse_pos_Suc)
    then have "skip_high (Suc fuel) high step (n - 1) (fse_pos n step i) = Inr (fse_pos n step j)"
      using j(5) False by (subst skip_high.simps) simp
    moreover have "\<forall>l. i \<le> l \<and> l < j \<longrightarrow> high \<le> fse_pos n step l"
      using j(4) False by (metis Suc_leI le_neq_implies_less not_less)
    ultimately show ?thesis using j by (intro exI [of _ j]) auto
  qed
qed

section \<open>What has been laid down\<close>

text \<open>The cells visited by the first \<open>i\<close> steps, those at or above \<open>high\<close> left out, and their symbols.\<close>

definition visits :: "nat \<Rightarrow> nat \<Rightarrow> nat \<Rightarrow> nat \<Rightarrow> nat list" where
  "visits n step high i = filter (\<lambda>p. p < high) (map (fse_pos n step) [0..<i])"

definition laid :: "fse_entry list \<Rightarrow> nat \<Rightarrow> nat \<Rightarrow> nat \<Rightarrow> nat \<Rightarrow> nat list" where
  "laid dt n step high i = map (\<lambda>p. base_value (dt ! p)) (visits n step high i)"

lemma laid_0 [simp]: "laid dt n step high 0 = []"
  by (simp add: laid_def visits_def)

lemma visits_step:
  assumes "fse_pos n step i < high" and "i < j" and "\<forall>l. i < l \<and> l < j \<longrightarrow> high \<le> fse_pos n step l"
  shows "visits n step high j = visits n step high i @ [fse_pos n step i]"
proof -
  have "[0..<j] = [0..<i] @ i # [Suc i..<j]" using assms(2) upt_add_eq_append [of 0 i "j - i"] upt_conv_Cons [of i j] by simp
  moreover have "filter (\<lambda>p. p < high) (map (fse_pos n step) [Suc i..<j]) = []" using assms(3) by (auto simp: filter_empty_conv not_less)
  ultimately show ?thesis using assms(1) by (simp add: visits_def)
qed

lemma visits_distinct:
  assumes "coprime n step" and "i \<le> n"
  shows "distinct (visits n step high i)"
proof -
  have "inj_on (fse_pos n step) {0..<i}" by (rule inj_onI) (use fse_pos_inj [OF assms(1)] assms(2) in auto)
  then show ?thesis by (simp add: visits_def distinct_map)
qed

lemma visits_all:
  assumes "coprime n step" and "0 < n" and "high \<le> n"
  shows "set (visits n step high n) = {..<high}" and "length (visits n step high n) = high"
proof -
  show s: "set (visits n step high n) = {..<high}"
    using fse_pos_image [OF assms(1,2)] assms(3) by (auto simp: visits_def lessThan_atLeast0)
  show "length (visits n step high n) = high"
    using distinct_card [OF visits_distinct [OF assms(1) order_refl, of high]] s by simp
qed

text \<open>When as many cells are visited as there are below \<open>high\<close>, the rest of the walk visits none.\<close>

lemma visits_end:
  assumes "coprime n step" and "0 < n" and "high \<le> n" and "i \<le> n" and "length (visits n step high i) = high"
  shows "visits n step high n = visits n step high i"
proof -
  have "[0..<n] = [0..<i] @ [i..<n]" using assms(4) upt_add_eq_append [of 0 i "n - i"] by simp
  then have "visits n step high n = visits n step high i @ filter (\<lambda>p. p < high) (map (fse_pos n step) [i..<n])" by (simp add: visits_def)
  moreover have "length (visits n step high n) = length (visits n step high i)" using visits_all(2) [OF assms(1-3)] assms(5) by simp
  ultimately show ?thesis by (metis append_Nil2 append_eq_append_conv)
qed

lemma length_set_base: "set_base dt i v = Inr dt' \<Longrightarrow> length dt' = length dt"
  by (auto simp: set_base_def split: if_splits)

lemma laid_step:
  assumes c: "coprime n step" and i: "i < n" "fse_pos n step i < high" and j: "i < j"
    and sk: "\<forall>l. i < l \<and> l < j \<longrightarrow> high \<le> fse_pos n step l"
    and sb: "set_base dt (fse_pos n step i) s = Inr dt'"
  shows "laid dt' n step high j = laid dt n step high i @ [s]"
proof -
  note v = visits_step [OF i(2) j sk]
  have d: "distinct (visits n step high (Suc i))" using visits_distinct [OF c, of "Suc i"] i(1) by simp
  moreover have "visits n step high (Suc i) = visits n step high i @ [fse_pos n step i]" by (rule visits_step [OF i(2)]) auto
  ultimately have "fse_pos n step i \<notin> set (visits n step high i)" by simp
  then have "base_value (dt' ! x) = base_value (dt ! x)" if "x \<in> set (visits n step high i)" for x
    using sb that by (auto simp: set_base_def nth_list_update split: if_splits)
  then show ?thesis using sb unfolding laid_def v by (auto simp: set_base_def split: if_splits)
qed

lemma laid_full:
  assumes "coprime n step" and "0 < n" and "high \<le> n" and "high \<le> length dt"
    and "length (laid dt n step high i) = high" and "i \<le> n"
  shows "mset (map base_value (take high dt)) = mset (laid dt n step high i)" and "laid dt n step high n = laid dt n step high i"
proof -
  have l: "length (visits n step high i) = high" using assms(5) by (simp add: laid_def)
  note e = visits_end [OF assms(1-3,6) l]
  have "set (visits n step high i) = {..<high}" using visits_all(1) [OF assms(1-3)] e by simp
  then have "mset (visits n step high i) = mset [0..<high]"
    by (intro set_eq_iff_mset_eq_distinct [THEN iffD1]) (use visits_distinct [OF assms(1,6)] in \<open>auto simp: lessThan_atLeast0\<close>)
  then have "mset (laid dt n step high i) = image_mset (\<lambda>p. base_value (dt ! p)) (mset [0..<high])" by (simp add: laid_def)
  moreover have "map (\<lambda>p. base_value (dt ! p)) [0..<high] = map base_value (take high dt)"
    using assms(4) by (intro nth_equalityI) auto
  ultimately show "mset (map base_value (take high dt)) = mset (laid dt n step high i)" by (metis mset_map)
  show "laid dt n step high n = laid dt n step high i" unfolding laid_def e by (rule refl)
qed

text \<open>The symbols of a distribution with their multiplicities.\<close>

definition cell_count :: "int \<Rightarrow> nat" where
  "cell_count c = nat \<bar>c\<bar>"

fun expand :: "nat \<Rightarrow> int list \<Rightarrow> nat list" where
  "expand s [] = []"
| "expand s (c # cs) = replicate (nat (max c 0)) s @ expand (Suc s) cs"

fun lows :: "nat \<Rightarrow> int list \<Rightarrow> nat list" where
  "lows s [] = []"
| "lows s (c # cs) = (if c = -1 then [s] else []) @ lows (Suc s) cs"

lemma length_expand_lows:
  "\<forall>c \<in> set cs. -1 \<le> c \<Longrightarrow> length (expand s cs) + length (lows s cs) = (\<Sum>c\<leftarrow>cs. cell_count c)"
  by (induction cs arbitrary: s) (auto simp: cell_count_def max_def)

lemma count_expand_lows:
  "\<forall>c \<in> set cs. -1 \<le> c \<Longrightarrow> count (mset (expand s cs) + mset (lows s cs)) x
     = (if s \<le> x \<and> x < s + length cs then cell_count (cs ! (x - s)) else 0)"
proof (induction cs arbitrary: s)
  case (Cons c cs)
  then have "count (mset (expand (Suc s) cs) + mset (lows (Suc s) cs)) x
     = (if Suc s \<le> x \<and> x < Suc s + length cs then cell_count (cs ! (x - Suc s)) else 0)" by simp
  moreover have "-1 \<le> c" using Cons.prems by simp
  ultimately show ?case
    by (cases "x = s") (auto simp: cell_count_def max_def nth_Cons' Suc_diff_Suc)
qed simp

lemma laid_size_end:
  assumes "coprime n step" and "0 < n" and "high \<le> n"
  shows "length (laid dt n step high n) = high"
  using visits_all(2) [OF assms] by (simp add: laid_def)

lemma drop_set_base:
  "set_base dt p s = Inr dt' \<Longrightarrow> p < high \<Longrightarrow> map base_value (drop high dt') = map base_value (drop high dt)"
  by (auto simp: set_base_def split: if_splits)

lemma spread_symbol_ok:
  assumes c: "coprime n step" and n: "n = 2 ^ l" and hi: "0 < high" "high \<le> n"
  shows "i \<le> n \<Longrightarrow> fse_pos n step i < high \<Longrightarrow> length (laid dt n step high i) + k \<le> high \<Longrightarrow> n \<le> length dt \<Longrightarrow>
    \<exists>j dt'. spread_symbol k s n high step (n - 1) (fse_pos n step i) dt = Inr (fse_pos n step j, dt')
      \<and> j \<le> n \<and> fse_pos n step j < high \<and> length dt' = length dt
      \<and> laid dt' n step high j = laid dt n step high i @ replicate k s
      \<and> map base_value (drop high dt') = map base_value (drop high dt)"
proof (induction k arbitrary: i dt)
  case 0
  then show ?case by auto
next
  case (Suc k)
  have n0: "0 < n" using n by simp
  have "i \<noteq> n" using laid_size_end [OF c n0 hi(2), of dt] Suc.prems(3) by auto
  with Suc.prems have i: "i < n" by simp
  have "fse_pos n step i < length dt" using Suc.prems hi by simp
  then obtain dt1 where b: "set_base dt (fse_pos n step i) s = Inr dt1" by (simp add: set_base_def)
  have w: "(fse_pos n step i + step) AND (n - 1) = fse_pos n step (Suc i)"
    unfolding n nat_and_mask by (rule fse_pos_Suc)
  from skip_high_ok [OF hi(1) n, of "Suc i" n step] i obtain j where
    j: "Suc i \<le> j" "j \<le> n" "fse_pos n step j < high"
      "\<forall>l. Suc i \<le> l \<and> l < j \<longrightarrow> high \<le> fse_pos n step l"
      "skip_high n high step (n - 1) (fse_pos n step (Suc i)) = Inr (fse_pos n step j)" by auto
  have l1: "laid dt1 n step high j = laid dt n step high i @ [s]"
    using laid_step [OF c i Suc.prems(2) _ _ b, of j] j by (simp add: Suc_le_eq)
  with Suc.IH [OF j(2,3), of dt1] Suc.prems length_set_base [OF b] obtain m dt' where
    "spread_symbol k s n high step (n - 1) (fse_pos n step j) dt1 = Inr (fse_pos n step m, dt')"
    "m \<le> n" "fse_pos n step m < high" "length dt' = length dt1"
    "laid dt' n step high m = laid dt1 n step high j @ replicate k s"
    "map base_value (drop high dt') = map base_value (drop high dt1)" by auto
  with b w j(5) l1 drop_set_base [OF b Suc.prems(2)] length_set_base [OF b] show ?case by auto
qed

lemma spread_symbols_ok:
  assumes c: "coprime n step" and n: "n = 2 ^ l" and hi: "0 < high" "high \<le> n"
  shows "i \<le> n \<Longrightarrow> fse_pos n step i < high \<Longrightarrow> length (laid dt n step high i) + length (expand s cs) \<le> high \<Longrightarrow>
    n \<le> length dt \<Longrightarrow>
    \<exists>j dt'. spread_symbols cs s n high step (n - 1) (fse_pos n step i) dt = Inr dt'
      \<and> j \<le> n \<and> length dt' = length dt
      \<and> laid dt' n step high j = laid dt n step high i @ expand s cs
      \<and> map base_value (drop high dt') = map base_value (drop high dt)"
proof (induction cs arbitrary: s i dt)
  case Nil
  then show ?case by auto
next
  case (Cons x cs)
  let ?k = "nat (max x 0)"
  from spread_symbol_ok [OF c n hi, of i dt ?k s] Cons.prems obtain j dt1 where
    1: "spread_symbol ?k s n high step (n - 1) (fse_pos n step i) dt = Inr (fse_pos n step j, dt1)"
    "j \<le> n" "fse_pos n step j < high" "length dt1 = length dt"
    "laid dt1 n step high j = laid dt n step high i @ replicate ?k s"
    "map base_value (drop high dt1) = map base_value (drop high dt)" by auto
  with Cons.IH [of j dt1 "Suc s"] Cons.prems obtain m dt2 where
    "spread_symbols cs (Suc s) n high step (n - 1) (fse_pos n step j) dt1 = Inr dt2"
    "m \<le> n" "length dt2 = length dt1"
    "laid dt2 n step high m = laid dt1 n step high j @ expand (Suc s) cs"
    "map base_value (drop high dt2) = map base_value (drop high dt1)" by auto
  with 1 show ?case by (intro exI [of _ m] exI [of _ dt2]) simp
qed

lemma lay_low_ok:
  "\<forall>c \<in> set cs. -1 \<le> c \<and> c < 65536 \<Longrightarrow> s + length cs \<le> length nxt \<Longrightarrow> length (lows s cs) \<le> high \<Longrightarrow>
   high \<le> length dt \<Longrightarrow>
   \<exists>dt' nxt'. lay_low cs s high dt nxt = Inr (high - length (lows s cs), dt', nxt')
     \<and> length dt' = length dt \<and> length nxt' = length nxt
     \<and> map base_value (drop (high - length (lows s cs)) dt')
         = rev (lows s cs) @ map base_value (drop high dt)
     \<and> (\<forall>x. nxt' ! x = (if s \<le> x \<and> x < s + length cs then cell_count (cs ! (x - s)) else nxt ! x))"
proof (induction cs arbitrary: s high dt nxt)
  case Nil
  then show ?case by simp
next
  case (Cons c cs)
  show ?case
  proof (cases "c = -1")
    case True
    define dt1 where "dt1 = dt[high - 1 := (dt ! (high - 1))\<lparr>base_value := s\<rparr>]"
    have h: "0 < high" "high - 1 < length dt" using Cons.prems True by auto
    then have sb: "set_base dt (high - 1) s = Inr dt1" by (simp add: set_base_def dt1_def)
    have d: "map base_value (drop (high - 1) dt1) = s # map base_value (drop high dt)"
    proof -
      have "drop (high - 1) dt1 = dt1 ! (high - 1) # drop (Suc (high - 1)) dt1"
        using h by (intro Cons_nth_drop_Suc [symmetric]) (simp add: dt1_def)
      then show ?thesis using h by (simp add: dt1_def)
    qed
    have l1: "length dt1 = length dt" by (simp add: dt1_def)
    have "length (lows (Suc s) cs) \<le> high - 1" "high - 1 \<le> length dt1"
      using Cons.prems True l1 by auto
    from Cons.IH [OF _ _ this, of "nxt[s := 1]"] Cons.prems True
    obtain dt' nxt' where
      "lay_low cs (Suc s) (high - 1) dt1 (nxt[s := 1]) = Inr (high - 1 - length (lows (Suc s) cs), dt', nxt')"
      "length dt' = length dt1" "length nxt' = length nxt"
      "map base_value (drop (high - 1 - length (lows (Suc s) cs)) dt')
         = rev (lows (Suc s) cs) @ map base_value (drop (high - 1) dt1)"
      and nx: "\<forall>x. nxt' ! x = (if Suc s \<le> x \<and> x < Suc s + length cs then cell_count (cs ! (x - Suc s))
        else nxt[s := 1] ! x)"
      by auto
    moreover have "\<forall>x. nxt' ! x = (if s \<le> x \<and> x < s + length (c # cs) then cell_count ((c # cs) ! (x - s)) else nxt ! x)"
      using nx True Cons.prems by (auto simp: cell_count_def nth_Cons' not_less_eq_eq)
    ultimately show ?thesis using True h sb d l1 Cons.prems by auto
  next
    case False
    then have m: "nat (c mod 65536) = cell_count c" using Cons.prems by (simp add: cell_count_def)
    from Cons.IH [of "Suc s" "nxt[s := cell_count c]" high dt] Cons.prems False
    obtain dt' nxt' where
      "lay_low cs (Suc s) high dt (nxt[s := cell_count c]) = Inr (high - length (lows (Suc s) cs), dt', nxt')"
      "length dt' = length dt" "length nxt' = length nxt"
      "map base_value (drop (high - length (lows (Suc s) cs)) dt')
         = rev (lows (Suc s) cs) @ map base_value (drop high dt)"
      and nx: "\<forall>x. nxt' ! x = (if Suc s \<le> x \<and> x < Suc s + length cs then cell_count (cs ! (x - Suc s))
        else nxt[s := cell_count c] ! x)"
      by auto
    moreover have "\<forall>x. nxt' ! x = (if s \<le> x \<and> x < s + length (c # cs) then cell_count ((c # cs) ! (x - s)) else nxt ! x)"
      using nx Cons.prems by (auto simp: nth_Cons' not_less_eq_eq)
    ultimately show ?thesis using False m Cons.prems by auto
  qed
qed

lemma le_bytes_replicate:
  assumes "s < 256"
  shows "le_bytes 8 (s * 0x0101010101010101) = replicate 8 (word_of_nat s)"
proof -
  have r: "replicate 8 x = [x, x, x, x, x, x, x, x]" for x :: u8 by (simp add: numeral_eq_Suc)
  have "unat (word_of_nat s :: u8) = s" using assms by (simp add: unat_of_nat)
  then have "le_nat (replicate 8 (word_of_nat s)) = s * 0x0101010101010101" by (simp add: r)
  then show ?thesis using le_bytes_le_nat [of "replicate 8 (word_of_nat s)" 8] by simp
qed

lemma write8_ok:
  assumes "length pre = at" and "take at sp = pre" and "at + 8 \<le> length sp" and "le_bytes 8 (unat v) = replicate 8 b"
  shows "\<exists>sp'. write8 sp at v = Inr sp' \<and> length sp' = length sp \<and> take (at + 8) sp' = pre @ replicate 8 b"
  using assms take_put_slice [of at sp "replicate 8 b"] by (simp add: write8_def)

lemma lay_more_ok:
  assumes b: "le_bytes 8 (unat sv) = replicate 8 b" and p: "length pre = pos"
  shows "take (pos + i) sp = pre @ replicate i b \<Longrightarrow> pos + n + 8 \<le> length sp \<Longrightarrow>
    \<exists>sp'. lay_more sv pos n i sp = Inr sp' \<and> length sp' = length sp \<and> take (pos + n) sp' = pre @ replicate n b"
proof (induction "n - i" arbitrary: i sp rule: less_induct)
  case less
  show ?case
  proof (cases "i < n")
    case True
    obtain sp1 where s1: "write8 sp (pos + i) sv = Inr sp1" "length sp1 = length sp"
      "take (pos + i + 8) sp1 = (pre @ replicate i b) @ replicate 8 b"
      using write8_ok [of "pre @ replicate i b" "pos + i" sp sv b] less.prems True b p by auto
    then have "take (pos + (i + 8)) sp1 = pre @ replicate (i + 8) b"
      by (simp only: replicate_add append_assoc add.assoc)
    moreover have "n - (i + 8) < n - i" using True by simp
    ultimately obtain sp' where
      "lay_more sv pos n (i + 8) sp1 = Inr sp' \<and> length sp' = length sp1 \<and> take (pos + n) sp' = pre @ replicate n b"
      using less.hyps [of "i + 8" sp1] s1(2) less.prems(2) by auto
    with s1 True show ?thesis by (simp add: lay_more.simps [of sv pos n i sp])
  next
    case False
    then have "take (pos + n) sp = take (pos + n) (take (pos + i) sp)" by (simp add: min_def)
    also have "\<dots> = pre @ replicate n b" using less.prems(1) p False by (simp add: min_def)
    finally show ?thesis using False by (simp add: lay_more.simps)
  qed
qed

lemma lay_symbols_ok:
  "\<forall>c \<in> set cs. 0 \<le> c \<and> c < 65536 \<Longrightarrow> s + length cs \<le> 256 \<Longrightarrow> pos + length (expand s cs) + 8 \<le> length sp \<Longrightarrow>
   \<exists>sp'. lay_symbols cs pos (word_of_nat (s * 0x0101010101010101)) sp = Inr sp' \<and> length sp' = length sp
     \<and> take (pos + length (expand s cs)) sp' = take pos sp @ map word_of_nat (expand s cs)"
proof (induction cs arbitrary: s pos sp)
  case Nil
  then show ?case by simp
next
  case (Cons c cs)
  let ?sv = "word_of_nat (s * 0x0101010101010101) :: u64" and ?b = "word_of_nat s :: u8"
  define n where "n = nat c"
  have n: "nat (c mod 2 ^ 64) = n" "nat (max c 0) = n" using Cons.prems by (auto simp: n_def)
  have "s < 256" using Cons.prems by simp
  then have "unat ?sv = s * 0x0101010101010101" unfolding unat_of_nat by simp
  then have b: "le_bytes 8 (unat ?sv) = replicate 8 ?b" using \<open>s < 256\<close> by (simp only: le_bytes_replicate)
  have sv: "?sv + 0x0101010101010101 = word_of_nat (Suc s * 0x0101010101010101)" by simp
  have room: "pos + n + 8 \<le> length sp" using Cons.prems n by simp
  obtain sp1 where s1: "write8 sp pos ?sv = Inr sp1" "length sp1 = length sp"
    "take (pos + 8) sp1 = take pos sp @ replicate 8 ?b"
    using write8_ok [of "take pos sp" pos sp ?sv ?b] b room by auto
  obtain sp2 where s2: "lay_more ?sv pos n 8 sp1 = Inr sp2" "length sp2 = length sp"
    "take (pos + n) sp2 = take pos sp @ replicate n ?b"
    using lay_more_ok [of ?sv ?b "take pos sp" pos 8 sp1 n] b s1 room by auto
  from Cons.IH [of "Suc s" "pos + n" sp2] Cons.prems n s2 obtain sp' where
    "lay_symbols cs (pos + n) (word_of_nat (Suc s * 0x0101010101010101)) sp2 = Inr sp'"
    "length sp' = length sp2"
    "take (pos + n + length (expand (Suc s) cs)) sp' = take (pos + n) sp2 @ map word_of_nat (expand (Suc s) cs)"
    by (auto simp: add.assoc)
  with s1 s2 n show ?case unfolding lay_symbols.simps expand.simps Let_def n sv by (simp add: add.assoc)
qed

lemma scatter_ok:
  assumes c: "coprime n step" and n: "n = 2 ^ l" "even n"
  shows "s \<le> n \<Longrightarrow> even s \<Longrightarrow> n \<le> length sp \<Longrightarrow> n \<le> length dt \<Longrightarrow>
    laid dt n step n s = map unat (take s sp) \<Longrightarrow>
    \<exists>dt'. scatter sp n step (n - 1) s (fse_pos n step s) dt = Inr dt' \<and> length dt' = length dt
      \<and> laid dt' n step n n = map unat (take n sp)"
proof (induction "n - s" arbitrary: s dt rule: less_induct)
  case less
  have n0: "0 < n" using n by simp
  show ?case
  proof (cases "s < n")
    case True
    then have s1: "Suc s < n" using n(2) less.prems(2) by (metis Suc_lessI even_Suc)
    have w: "(fse_pos n step s + step) AND (n - 1) = fse_pos n step (Suc s)"
      "(fse_pos n step s + 2 * step) AND (n - 1) = fse_pos n step (s + 2)"
      using fse_pos_add [of n step s 2] unfolding n nat_and_mask by (simp_all add: fse_pos_Suc)
    have pl: "fse_pos n step i < length dt" for i using less.prems(4) n0 by (metis fse_pos_less less_le_trans)
    obtain dt1 where b1: "set_base dt (fse_pos n step s) (unat (sp ! s)) = Inr dt1"
      using pl [of s] by (simp add: set_base_def)
    note l1 = length_set_base [OF b1]
    obtain dt2 where b2: "set_base dt1 (fse_pos n step (Suc s)) (unat (sp ! Suc s)) = Inr dt2"
      using pl [of "Suc s"] l1 by (simp add: set_base_def)
    note l2 = length_set_base [OF b2]
    have t: "take (s + 2) sp = take s sp @ [sp ! s, sp ! Suc s]"
      using s1 less.prems(3) by (simp add: take_Suc_conv_app_nth)
    have "laid dt1 n step n (Suc s) = laid dt n step n s @ [unat (sp ! s)]"
      by (rule laid_step [OF c True _ _ _ b1]) (use n0 in auto)
    moreover have "laid dt2 n step n (Suc (Suc s)) = laid dt1 n step n (Suc s) @ [unat (sp ! Suc s)]"
      by (rule laid_step [OF c s1 _ _ _ b2]) (use n0 in auto)
    ultimately have "laid dt2 n step n (s + 2) = map unat (take (s + 2) sp)"
      unfolding t using less.prems(5) by simp
    moreover have "n - (s + 2) < n - s" using True by simp
    ultimately obtain dt' where
      "scatter sp n step (n - 1) (s + 2) (fse_pos n step (s + 2)) dt2 = Inr dt'" "length dt' = length dt"
      "laid dt' n step n n = map unat (take n sp)"
      using less.hyps [of "s + 2" dt2] s1 less.prems l1 l2 by auto
    moreover have "scatter sp n step (n - 1) s (fse_pos n step s) dt
        = scatter sp n step (n - 1) (s + 2) (fse_pos n step (s + 2)) dt2"
      using True s1 less.prems(3) b1 b2 w
      by (subst scatter.simps) simp
    ultimately show ?thesis by auto
  next
    case False
    with less.prems show ?thesis by (simp add: scatter.simps)
  qed
qed

section \<open>The states of one symbol's cells\<close>

definition cell_bits :: "nat \<Rightarrow> nat \<Rightarrow> nat" where
  "cell_bits log k = log - (bit_length k - 1)"

definition cell_next :: "nat \<Rightarrow> nat \<Rightarrow> nat" where
  "cell_next log k = k * 2 ^ cell_bits log k - 2 ^ log"

lemma cell_bits_bounds:
  assumes "0 < k" and "k < 2 ^ Suc log"
  shows "bit_length k - 1 \<le> log" and "2 ^ log \<le> k * 2 ^ cell_bits log k"
    and "(k + 1) * 2 ^ cell_bits log k \<le> 2 ^ Suc log"
proof -
  obtain j where j: "bit_length k = Suc j" using assms(1) by (cases "bit_length k") auto
  have "bit_length k \<le> Suc log" using assms(2) by (simp only: bit_length_le_iff)
  with j show jl: "bit_length k - 1 \<le> log" by simp
  have lo: "2 ^ j \<le> k" using bit_length_lower [OF assms(1)] j by simp
  have hi: "k + 1 \<le> 2 ^ Suc j" using bit_length_upper [of k] j by simp
  have e: "j + cell_bits log k = log" using j jl by (simp add: cell_bits_def)
  have "2 ^ j * 2 ^ cell_bits log k \<le> k * 2 ^ cell_bits log k" using lo by (rule mult_le_mono1)
  then show "2 ^ log \<le> k * 2 ^ cell_bits log k" using e by (simp flip: power_add)
  have "(k + 1) * 2 ^ cell_bits log k \<le> 2 ^ Suc j * 2 ^ cell_bits log k" using hi by (rule mult_le_mono1)
  also have "\<dots> = 2 ^ Suc log" using power_add [of "2::nat" "Suc j" "cell_bits log k"] e by simp
  finally show "(k + 1) * 2 ^ cell_bits log k \<le> 2 ^ Suc log" .
qed

lemma cell_next_bound:
  assumes "0 < k" and "k < 2 ^ Suc log"
  shows "cell_next log k + 2 ^ cell_bits log k \<le> 2 ^ log"
  using cell_bits_bounds [OF assms] by (simp add: cell_next_def)

lemma cell_interval:
  assumes "0 < k" and "k < 2 ^ Suc log"
  shows "cell_next log k \<le> x \<and> x < cell_next log k + 2 ^ cell_bits log k
    \<longleftrightarrow> (x + 2 ^ log) div 2 ^ cell_bits log k = k"
proof -
  have "2 ^ log \<le> k * 2 ^ cell_bits log k" by (rule cell_bits_bounds(2) [OF assms])
  then have "cell_next log k \<le> x \<and> x < cell_next log k + 2 ^ cell_bits log k
    \<longleftrightarrow> k * 2 ^ cell_bits log k \<le> x + 2 ^ log \<and> x + 2 ^ log < Suc k * 2 ^ cell_bits log k"
    by (auto simp: cell_next_def)
  also have "\<dots> \<longleftrightarrow> (x + 2 ^ log) div 2 ^ cell_bits log k = k"
  proof
    assume "k * 2 ^ cell_bits log k \<le> x + 2 ^ log \<and> x + 2 ^ log < Suc k * 2 ^ cell_bits log k"
    then show "(x + 2 ^ log) div 2 ^ cell_bits log k = k" by (intro div_nat_eqI) (auto simp: mult.commute)
  next
    assume e: "(x + 2 ^ log) div 2 ^ cell_bits log k = k"
    have "(x + 2 ^ log) div 2 ^ cell_bits log k * 2 ^ cell_bits log k \<le> x + 2 ^ log"
      by (rule div_times_less_eq_dividend)
    moreover have "x + 2 ^ log < 2 ^ cell_bits log k + 2 ^ cell_bits log k * ((x + 2 ^ log) div 2 ^ cell_bits log k)"
      by (rule dividend_less_times_div) simp
    ultimately show "k * 2 ^ cell_bits log k \<le> x + 2 ^ log \<and> x + 2 ^ log < Suc k * 2 ^ cell_bits log k"
      unfolding e by (simp add: mult.commute)
  qed
  finally show ?thesis .
qed

lemma halving_unique:
  fixes X :: nat
  assumes "X div 2 ^ a = m" "X div 2 ^ b = k" "c \<le> m" "m < 2 * c" "c \<le> k" "k < 2 * c"
  shows "m = k"
proof -
  have *: False if "a < b" "X div 2 ^ a = m" "X div 2 ^ b = k" "m < 2 * c" "c \<le> k" for a b m k
  proof -
    have "(2::nat) ^ b = 2 ^ Suc a * 2 ^ (b - Suc a)" using that(1) power_add [of "2::nat" "Suc a" "b - Suc a"] by simp
    then have "k = X div 2 ^ a div 2 div 2 ^ (b - Suc a)" using that(3) by (simp flip: div_mult2_eq add: ac_simps)
    then have "k \<le> m div 2" using that(2) by (simp add: div_le_dividend)
    with that show False by linarith
  qed
  from * [of a b m k] * [of b a k m] assms show ?thesis by (metis linorder_neqE_nat)
qed

text \<open>The intervals of \<open>c, ..., 2c - 1\<close> partition the states.\<close>

lemma cell_intervals_partition:
  assumes c: "0 < c" "c \<le> 2 ^ log" and x: "x < 2 ^ log"
  shows "\<exists>!k. c \<le> k \<and> k < 2 * c \<and> cell_next log k \<le> x \<and> x < cell_next log k + 2 ^ cell_bits log k"
proof -
  define X where "X = x + 2 ^ log"
  have X: "2 ^ log \<le> X" "X < 2 ^ Suc log" using x by (auto simp: X_def)
  have iff: "cell_next log k \<le> x \<and> x < cell_next log k + 2 ^ cell_bits log k \<longleftrightarrow> X div 2 ^ cell_bits log k = k"
    if "c \<le> k" "k < 2 * c" for k
    unfolding X_def by (rule cell_interval) (use that c in auto)
  define j where "j = (LEAST j. X div 2 ^ j < c)"
  have "X div 2 ^ Suc log < c" using X c by simp
  then have j: "X div 2 ^ j < c" unfolding j_def by (rule LeastI)
  have "j \<noteq> 0"
  proof
    assume "j = 0"
    with j X c show False by simp
  qed
  then obtain i where i: "j = Suc i" by (cases j) auto
  define k where "k = X div 2 ^ i"
  have "\<not> X div 2 ^ i < c" using not_less_Least [of i "\<lambda>j. X div 2 ^ j < c"] i by (simp add: j_def)
  then have k1: "c \<le> k" by (simp add: k_def)
  have "k div 2 < c" using j unfolding k_def i power_Suc by (simp add: div_mult2_eq mult.commute flip: div_mult2_eq)
  then have k2: "k < 2 * c" by linarith
  have il: "i \<le> log"
  proof (rule ccontr)
    assume "\<not> i \<le> log"
    then have "(2::nat) ^ Suc log \<le> 2 ^ i" by (intro power_increasing) auto
    with X have "k = 0" by (simp add: k_def)
    with k1 c show False by simp
  qed
  then have l: "(2::nat) ^ log = 2 ^ i * 2 ^ (log - i)" by (simp flip: power_add)
  have "2 ^ (log - i) \<le> k" unfolding k_def
    using X(1) unfolding l by (simp add: less_eq_div_iff_mult_less_eq mult.commute)
  moreover have "k < 2 ^ Suc (log - i)" unfolding k_def
    by (rule less_mult_imp_div_less) (use X(2) l in \<open>simp add: ac_simps\<close>)
  ultimately have "bit_length k = Suc (log - i)" by (rule bit_length_eqI)
  then have "cell_bits log k = i" using il by (simp add: cell_bits_def)
  then have k3: "X div 2 ^ cell_bits log k = k" by (simp add: k_def)
  show ?thesis
  proof (rule ex1I [of _ k])
    show "c \<le> k \<and> k < 2 * c \<and> cell_next log k \<le> x \<and> x < cell_next log k + 2 ^ cell_bits log k"
      using k1 k2 k3 iff by simp
  next
    fix m
    assume m: "c \<le> m \<and> m < 2 * c \<and> cell_next log m \<le> x \<and> x < cell_next log m + 2 ^ cell_bits log m"
    then have m3: "X div 2 ^ cell_bits log m = m" using iff [of m] by blast
    show "m = k"
      using halving_unique [of X "cell_bits log m" m "cell_bits log k" k c] m m3 k1 k2 k3 by simp
  qed
qed

section \<open>The built table\<close>

definition fse_tiles :: "nat \<Rightarrow> int list \<Rightarrow> bool" where
  "fse_tiles log counts \<longleftrightarrow> (\<forall>c \<in> set counts. -1 \<le> c) \<and> (\<Sum>c\<leftarrow>counts. cell_count c) = 2 ^ log"

definition codes_cover :: "codes \<Rightarrow> nat \<Rightarrow> bool" where
  "codes_cover codes m \<longleftrightarrow>
     (case codes of None \<Rightarrow> True | Some (base, bits) \<Rightarrow> m \<le> length base \<and> m \<le> length bits)"

definition cell_is :: "codes \<Rightarrow> nat \<Rightarrow> nat \<Rightarrow> nat \<Rightarrow> fse_entry \<Rightarrow> bool" where
  "cell_is codes log s k cell \<longleftrightarrow>
     next_state cell = cell_next log k \<and> num_bits cell = cell_bits log k \<and>
     (case codes of None \<Rightarrow> base_value cell = s
      | Some (base, bits) \<Rightarrow> base_value cell = base ! s \<and> extra_bits cell = bits ! s)"

text \<open>The cells \<open>cs\<close> of a table for \<open>counts\<close>, with \<open>syms\<close> the symbol of each.\<close>

definition fse_cells :: "codes \<Rightarrow> nat \<Rightarrow> int list \<Rightarrow> fse_entry list \<Rightarrow> nat list \<Rightarrow> bool" where
  "fse_cells codes log counts cs syms \<longleftrightarrow>
     length cs = 2 ^ log \<and> length syms = 2 ^ log \<and>
     (\<forall>s. count_list syms s = (if s < length counts then cell_count (counts ! s) else 0)) \<and>
     (\<forall>i < 2 ^ log. cell_is codes log (syms ! i)
        (cell_count (counts ! (syms ! i)) + count_list (take i syms) (syms ! i)) (cs ! i))"

lemma fse_cell_state_ok:
  assumes "s < length nxt" and "0 < nxt ! s" and "nxt ! s < 2 ^ Suc log" and "log \<le> 9"
  shows "fse_cell_state nxt s log = Inr ((cell_bits log (nxt ! s), cell_next log (nxt ! s)), nxt[s := nxt ! s + 1])"
proof -
  let ?k = "nxt ! s"
  have p: "(2::nat) ^ log \<le> 2 ^ 9" using assms(4) by (intro power_increasing) auto
  have "cell_bits log ?k < 256" using assms(4) by (simp add: cell_bits_def)
  moreover have "cell_next log ?k < 65536"
  proof -
    have "cell_next log ?k + 2 ^ cell_bits log ?k \<le> 2 ^ log" by (rule cell_next_bound [OF assms(2,3)])
    moreover have "(0::nat) < 2 ^ cell_bits log ?k" by simp
    ultimately show ?thesis using p by simp
  qed
  moreover have "?k + 1 < 65536" using assms(3) p by simp
  ultimately show ?thesis
    using assms(1,2) cell_bits_bounds [OF assms(2,3)]
    by (auto simp: fse_cell_state_def cell_bits_def cell_next_def Let_def)
qed

lemma fill_cell_ok:
  assumes "base_value cell = s" and "s < m" and "codes_cover codes m"
  shows "\<exists>c. fill_cell codes s (cell_bits log k) (cell_next log k) cell = Inr c \<and> cell_is codes log s k c"
  using assms by (auto simp: fill_cell_def cell_is_def codes_cover_def split: option.splits)

lemma fill_cells_ok:
  assumes log: "log \<le> 9" and cc: "codes_cover codes m" and m: "m \<le> 256"
  shows "length nxt = 256 \<Longrightarrow> \<forall>s \<in> set (map base_value cs). s < m \<and> 0 < nxt ! s
      \<and> nxt ! s + count_list (map base_value cs) s \<le> 2 ^ Suc log \<Longrightarrow>
    \<exists>nxt' cs'. fill_cells codes log nxt cs = Inr (nxt', cs') \<and> length nxt' = 256 \<and> length cs' = length cs
      \<and> (\<forall>i < length cs. cell_is codes log (base_value (cs ! i))
           (nxt ! base_value (cs ! i) + count_list (take i (map base_value cs)) (base_value (cs ! i))) (cs' ! i))"
proof (induction cs arbitrary: nxt)
  case Nil
  then show ?case by simp
next
  case (Cons c cs)
  define s where "s = base_value c"
  have s: "s < m" "0 < nxt ! s" "nxt ! s < 2 ^ Suc log" using Cons.prems by (auto simp: s_def)
  have st: "fse_cell_state nxt s log = Inr ((cell_bits log (nxt ! s), cell_next log (nxt ! s)), nxt[s := nxt ! s + 1])"
    using s m Cons.prems(1) log by (intro fse_cell_state_ok) auto
  obtain c' where c': "fill_cell codes s (cell_bits log (nxt ! s)) (cell_next log (nxt ! s)) c = Inr c'"
    "cell_is codes log s (nxt ! s) c'"
    using fill_cell_ok [of c s m codes] s cc by (auto simp: s_def)
  let ?nxt = "nxt[s := nxt ! s + 1]"
  have n: "?nxt ! x = nxt ! x + (if x = s then 1 else 0)" if "x < 256" for x
    using that Cons.prems(1) by simp
  have "\<forall>x \<in> set (map base_value cs). x < m \<and> 0 < ?nxt ! x
      \<and> ?nxt ! x + count_list (map base_value cs) x \<le> 2 ^ Suc log"
    using Cons.prems(2) n m by (auto simp: s_def nth_list_update split: if_splits)
  with Cons.IH [of ?nxt] Cons.prems(1) obtain nxt' cs' where
    f: "fill_cells codes log ?nxt cs = Inr (nxt', cs')" "length nxt' = 256" "length cs' = length cs"
    and i: "\<forall>i < length cs. cell_is codes log (base_value (cs ! i))
           (?nxt ! base_value (cs ! i) + count_list (take i (map base_value cs)) (base_value (cs ! i))) (cs' ! i)"
    by auto
  have "\<forall>i < length (c # cs). cell_is codes log (base_value ((c # cs) ! i))
     (nxt ! base_value ((c # cs) ! i) + count_list (take i (map base_value (c # cs))) (base_value ((c # cs) ! i)))
     ((c' # cs') ! i)"
  proof (intro allI impI)
    fix i
    assume "i < length (c # cs)"
    show "cell_is codes log (base_value ((c # cs) ! i))
     (nxt ! base_value ((c # cs) ! i) + count_list (take i (map base_value (c # cs))) (base_value ((c # cs) ! i)))
     ((c' # cs') ! i)"
    proof (cases i)
      case 0
      then show ?thesis using c' by (simp add: s_def)
    next
      case (Suc j)
      with \<open>i < length (c # cs)\<close> have j: "j < length cs" by simp
      then have "cs ! j \<in> set cs" by simp
      then have "base_value (cs ! j) < m" using Cons.prems(2) by simp
      then have "base_value (cs ! j) < 256" using m by simp
      with i j n Suc show ?thesis by (auto simp: s_def)
    qed
  qed
  moreover have "base_value c mod 256 = s" using s m by (simp add: s_def)
  ultimately show ?case using st c' f by (auto simp: Let_def)
qed

lemma length_resize [simp]: "length (resize xs n x) = n"
  by (simp add: resize_def min_def)

lemma tiles_bounds:
  assumes "fse_tiles log counts" and "log \<le> 9"
  shows "\<forall>c \<in> set counts. -1 \<le> c \<and> c < 65536" and "s < length counts \<Longrightarrow> cell_count (counts ! s) \<le> 2 ^ log"
proof -
  have m: "cell_count c \<le> 2 ^ log" if "c \<in> set counts" for c
    using member_le_sum_list [of "cell_count c" "map cell_count counts"] that assms(1)
    by (auto simp: fse_tiles_def)
  have "(2::nat) ^ log \<le> 2 ^ 9" using assms(2) by (intro power_increasing) auto
  then have "cell_count c \<le> 512" if "c \<in> set counts" for c using m [OF that] by simp
  then show "\<forall>c \<in> set counts. -1 \<le> c \<and> c < 65536"
    using assms(1) by (fastforce simp: fse_tiles_def cell_count_def)
  show "s < length counts \<Longrightarrow> cell_count (counts ! s) \<le> 2 ^ log" by (rule m) simp
qed

lemma expand_no_lows: "\<forall>c \<in> set cs. -1 \<le> c \<Longrightarrow> lows s cs = [] \<Longrightarrow> \<forall>c \<in> set cs. 0 \<le> c"
  by (induction cs arbitrary: s) (auto split: if_splits)

lemma set_expand: "x \<in> set (expand s cs) \<Longrightarrow> s \<le> x \<and> x < s + length cs"
  by (induction cs arbitrary: s) (auto split: if_splits, force+)

text \<open>The symbols of the cells: the low-probability symbols at the end, the others along the walk.\<close>

definition fse_syms :: "nat \<Rightarrow> int list \<Rightarrow> nat list \<Rightarrow> bool" where
  "fse_syms log counts syms \<longleftrightarrow>
     (let n = 2 ^ log; high = n - length (lows 0 counts) in
      length syms = n \<and> map (\<lambda>p. syms ! p) (visits n (fse_step n) high n) = expand 0 counts \<and> drop high syms = rev (lows 0 counts))"

lemma fse_syms_unique:
  assumes "4 \<le> log" and "fse_syms log counts xs" and "fse_syms log counts ys"
  shows "xs = ys"
proof (rule nth_equalityI)
  let ?n = "(2::nat) ^ log" let ?h = "?n - length (lows 0 counts)"
  have l: "length xs = ?n" "length ys = ?n" using assms(2,3) by (auto simp: fse_syms_def Let_def)
  then show "length xs = length ys" by simp
  fix i assume i: "i < length xs"
  show "xs ! i = ys ! i"
  proof (cases "i < ?h")
    case True
    have "set (visits ?n (fse_step ?n) ?h ?n) = {..<?h}" by (rule visits_all(1) [OF fse_step_coprime [OF assms(1)]]) auto
    then have "i \<in> set (visits ?n (fse_step ?n) ?h ?n)" using True by simp
    moreover have "map (\<lambda>p. xs ! p) (visits ?n (fse_step ?n) ?h ?n) = map (\<lambda>p. ys ! p) (visits ?n (fse_step ?n) ?h ?n)"
      using assms(2,3) by (simp add: fse_syms_def Let_def)
    ultimately show ?thesis by (simp add: map_eq_conv)
  next
    case False
    have "drop ?h xs = drop ?h ys" using assms(2,3) by (simp add: fse_syms_def Let_def)
    then have "drop ?h xs ! (i - ?h) = drop ?h ys ! (i - ?h)" by simp
    then show ?thesis using False i l by simp
  qed
qed

text \<open>Both ways of laying the symbols down put them into the same cells.\<close>

lemma spread_branches:
  fixes counts :: "int list" and log :: nat
  defines "n \<equiv> (2::nat) ^ log"
  defines "high \<equiv> n - length (lows 0 counts)"
  assumes tl: "fse_tiles log counts" and lg: "5 \<le> log" "log \<le> 9" and cl: "length counts \<le> 256"
    and dt: "length dt = FSE_MAX_TABLE_SIZE" and sp: "length sp = FSE_MAX_TABLE_SIZE + 8"
    and low: "map base_value (drop high dt) = rev (lows 0 counts) @ R"
  shows "\<exists>sp' dt'. spread_cells counts n high sp dt = Inr (sp', dt')
     \<and> length dt' = FSE_MAX_TABLE_SIZE
     \<and> mset (map base_value (take n dt')) = mset (expand 0 counts) + mset (lows 0 counts)
     \<and> fse_syms log counts (map base_value (take n dt'))"
proof -
  have c: "coprime n (fse_step n)" unfolding n_def using lg by (intro fse_step_coprime) simp
  have n0: "0 < n" and ne: "n = 2 ^ log" by (simp_all add: n_def)
  have n512: "n \<le> 512" using power_increasing [of log 9 "2::nat"] lg by (simp add: n_def)
  have sz: "FSE_MAX_TABLE_SIZE = 512" by (simp add: FSE_MAX_TABLE_SIZE_def FSE_MAX_TABLE_LOG_def)
  have tot: "length (expand 0 counts) + length (lows 0 counts) = n"
    using length_expand_lows [of counts 0] tl by (simp add: fse_tiles_def n_def)
  then have hl: "length (expand 0 counts) = high" by (simp add: high_def)
  note cb = tiles_bounds(1) [OF tl lg(2)]
  have syms: "fse_syms log counts (map base_value (take n dt'))"
    if "length dt' = length dt" "laid dt' n (fse_step n) high n = expand 0 counts" "drop high (map base_value (take n dt')) = rev (lows 0 counts)" for dt'
  proof -
    have "map (\<lambda>p. map base_value (take n dt') ! p) (visits n (fse_step n) high n) = laid dt' n (fse_step n) high n"
      unfolding laid_def by (rule map_cong [OF refl]) (use that(1) dt sz n512 in \<open>auto simp: visits_def high_def\<close>)
    then show ?thesis using that dt sz n512 unfolding fse_syms_def n_def [symmetric] high_def [symmetric] Let_def by simp
  qed
  show ?thesis
  proof (cases "high = n")
    case True
    then have nl: "lows 0 counts = []" using tot hl by simp
    then have "\<forall>c \<in> set counts. 0 \<le> c \<and> c < 65536" using expand_no_lows [of counts 0] cb by auto
    then obtain sp' where sp': "lay_symbols counts 0 0 sp = Inr sp'" "length sp' = length sp"
      "take n sp' = map word_of_nat (expand 0 counts)"
      using lay_symbols_ok [of counts 0 0 sp] cl hl True sp sz n512 by auto
    have "even n" using lg by (simp add: n_def)
    then obtain dt' where dt': "scatter sp' n (fse_step n) (n - 1) 0 0 dt = Inr dt'" "length dt' = length dt"
      "laid dt' n (fse_step n) n n = map unat (take n sp')"
      using scatter_ok [OF c ne, of 0 sp' dt] sp'(2) sp dt sz n512 by auto
    have "map unat (take n sp') = expand 0 counts"
      unfolding sp'(3) map_map
    proof (rule map_idI)
      fix x
      assume "x \<in> set (expand 0 counts)"
      then have "x < 256" using set_expand [of x 0 counts] cl by simp
      then show "(unat \<circ> (word_of_nat :: nat \<Rightarrow> u8)) x = x" by (simp add: unat_of_nat)
    qed
    then have ld: "laid dt' n (fse_step n) n n = expand 0 counts" using dt'(3) by simp
    then have "mset (map base_value (take n dt')) = mset (expand 0 counts)"
      using laid_full(1) [OF c n0, of n dt' n] dt' laid_size_end [OF c n0, of n dt'] dt sz n512 by simp
    moreover have "fse_syms log counts (map base_value (take n dt'))"
      by (rule syms [OF dt'(2)]) (use ld True nl dt'(2) dt n512 sz in simp_all)
    ultimately show ?thesis using True sp' dt' dt nl by (auto simp: spread_cells_def Let_def)
  next
    case False
    have "\<exists>j dt'. spread_symbols counts 0 n high (fse_step n) (n - 1) 0 dt = Inr dt'
      \<and> j \<le> n \<and> length dt' = length dt
      \<and> laid dt' n (fse_step n) high j = expand 0 counts
      \<and> map base_value (drop high dt') = map base_value (drop high dt)"
    proof (cases "high = 0")
      case True
      then have "expand 0 counts = []" using hl by simp
      moreover have "expand s cs = [] \<Longrightarrow> spread_symbols cs s n high st m p d = Inr d" for s cs st m p d
        by (induction cs arbitrary: s) auto
      ultimately show ?thesis by (intro exI [of _ 0] exI [of _ dt]) simp
    next
      case False
      then show ?thesis
        using spread_symbols_ok [OF c ne, of high 0 dt 0 counts] hl n512 dt sz
        by (simp add: high_def)
    qed
    then obtain j dt' where dt': "spread_symbols counts 0 n high (fse_step n) (n - 1) 0 dt = Inr dt'"
      "j \<le> n" "length dt' = length dt" "laid dt' n (fse_step n) high j = expand 0 counts"
      "map base_value (drop high dt') = rev (lows 0 counts) @ R" using low by auto
    have "mset (map base_value (take high dt')) = mset (expand 0 counts)"
      using laid_full(1) [OF c n0, of high dt' j] dt' hl dt sz n512 by (simp add: high_def)
    moreover have "map base_value (take (n - high) (drop high dt')) = rev (lows 0 counts)"
      unfolding take_map [symmetric] dt'(5) using tot hl by simp
    moreover have "take n dt' = take high dt' @ take (n - high) (drop high dt')"
      by (simp add: high_def flip: take_add)
    ultimately have "mset (map base_value (take n dt')) = mset (expand 0 counts) + mset (lows 0 counts)"
      by (metis map_append mset_append mset_rev)
    moreover have "fse_syms log counts (map base_value (take n dt'))"
    proof (rule syms [OF dt'(3)])
      show "laid dt' n (fse_step n) high n = expand 0 counts"
        using laid_full(2) [OF c n0, of high dt' j] dt' hl dt sz n512 by (simp add: high_def)
      show "drop high (map base_value (take n dt')) = rev (lows 0 counts)"
        using \<open>map base_value (take (n - high) (drop high dt')) = rev (lows 0 counts)\<close> by (simp add: drop_map drop_take)
    qed
    ultimately show ?thesis using False dt' dt by (auto simp: spread_cells_def Let_def)
  qed
qed

lemma build_decoding_table_syms:
  assumes tl: "fse_tiles log counts" and lg: "5 \<le> log" "log \<le> 9" and cl: "length counts \<le> 256"
    and cc: "codes_cover codes (length counts)"
    and t: "accuracy_log t = log" "symbol_probabilities t = counts"
  shows "\<exists>cs nxt sp syms. build_decoding_table codes t
      = Inr (t\<lparr>cells := cs, symbol_next := nxt, spread := sp, tsize := 2 ^ log\<rparr>)
    \<and> length cs = FSE_MAX_TABLE_SIZE \<and> fse_cells codes log counts (take (2 ^ log) cs) syms \<and> fse_syms log counts syms"
proof -
  define n where "n = (2::nat) ^ log"
  define dt0 where "dt0 = resize (cells t) FSE_MAX_TABLE_SIZE fse_entry_default"
  define nxt0 where "nxt0 = resize (symbol_next t) 256 0"
  define sp0 where "sp0 = resize (spread t) (FSE_MAX_TABLE_SIZE + 8) 0"
  have n512: "n \<le> 512" using power_increasing [of log 9 "2::nat"] lg by (simp add: n_def)
  have sz: "FSE_MAX_TABLE_SIZE = 512" by (simp add: FSE_MAX_TABLE_SIZE_def FSE_MAX_TABLE_LOG_def)
  note cb = tiles_bounds [OF tl lg(2)]
  have cm: "\<forall>c \<in> set counts. -1 \<le> c" using tl by (simp add: fse_tiles_def)
  have tot: "length (expand 0 counts) + length (lows 0 counts) = n"
    using length_expand_lows [OF cm, of 0] tl by (simp add: fse_tiles_def n_def)
  from lay_low_ok [OF cb(1), of 0 nxt0 n dt0] cl tot n512 sz obtain dt1 nxt1 where
    1: "lay_low counts 0 n dt0 nxt0 = Inr (n - length (lows 0 counts), dt1, nxt1)"
      "length dt1 = FSE_MAX_TABLE_SIZE" "length nxt1 = 256"
      "map base_value (drop (n - length (lows 0 counts)) dt1) = rev (lows 0 counts) @ map base_value (drop n dt0)"
    and nx: "\<forall>x. nxt1 ! x = (if x < length counts then cell_count (counts ! x) else nxt0 ! x)"
    by (auto simp: dt0_def nxt0_def)
  have "length sp0 = FSE_MAX_TABLE_SIZE + 8" by (simp add: sp0_def)
  from spread_branches [OF tl lg cl 1(2) this 1(4) [unfolded n_def], folded n_def] obtain sp2 dt2 where
    2: "spread_cells counts n (n - length (lows 0 counts)) sp0 dt1 = Inr (sp2, dt2)"
      "length dt2 = FSE_MAX_TABLE_SIZE"
      "mset (map base_value (take n dt2)) = mset (expand 0 counts) + mset (lows 0 counts)"
      "fse_syms log counts (map base_value (take n dt2))"
    by blast
  define syms where "syms = map base_value (take n dt2)"
  have cnt: "count_list syms s = (if s < length counts then cell_count (counts ! s) else 0)" for s
    using count_expand_lows [OF cm, of 0 s] 2(3)
    by (simp add: syms_def count_mset [symmetric] del: count_mset)
  have pre: "\<forall>s \<in> set syms. s < length counts \<and> 0 < nxt1 ! s \<and> nxt1 ! s + count_list syms s \<le> 2 ^ Suc log"
  proof
    fix s
    assume "s \<in> set syms"
    then have "count_list syms s \<noteq> 0" by (simp add: count_list_0_iff)
    then have "s < length counts" using cnt [of s] by (auto split: if_splits)
    with \<open>count_list syms s \<noteq> 0\<close> cnt [of s] nx cb(2) [of s]
    show "s < length counts \<and> 0 < nxt1 ! s \<and> nxt1 ! s + count_list syms s \<le> 2 ^ Suc log" by simp
  qed
  from fill_cells_ok [OF lg(2) cc cl, of nxt1 "take n dt2"] 1(3) pre 2(2) n512 sz obtain nxt2 cs where
    3: "fill_cells codes log nxt1 (take n dt2) = Inr (nxt2, cs)" "length cs = n"
    and ci: "\<forall>i < n. cell_is codes log (syms ! i) (nxt1 ! (syms ! i) + count_list (take i syms) (syms ! i)) (cs ! i)"
    by (auto simp: syms_def)
  have len: "length syms = n" using 2(2) n512 sz by (simp add: syms_def)
  have "fse_cells codes log counts cs syms"
    unfolding fse_cells_def
  proof (intro conjI allI impI)
    fix i :: nat
    assume "i < 2 ^ log"
    then have "i < n" by (simp add: n_def)
    with len have "syms ! i \<in> set syms" by simp
    with pre nx have "nxt1 ! (syms ! i) = cell_count (counts ! (syms ! i))" by simp
    then show "cell_is codes log (syms ! i)
        (cell_count (counts ! (syms ! i)) + count_list (take i syms) (syms ! i)) (cs ! i)"
      using ci \<open>i < n\<close> by metis
  qed (use cnt len 3 in \<open>simp_all add: n_def\<close>)
  moreover have "build_decoding_table codes t = Inr (t\<lparr>cells := cs @ drop n dt2, symbol_next := nxt2,
      spread := sp2, tsize := 2 ^ log\<rparr>)"
    using 1(1) 2(1) 3(1) t lg
    by (simp add: build_decoding_table_def Let_def FSE_MAX_TABLE_LOG_def dt0_def nxt0_def sp0_def n_def)
  moreover have "fse_syms log counts syms" using 2(4) by (simp add: syms_def)
  moreover have "length (cs @ drop n dt2) = FSE_MAX_TABLE_SIZE" using 3 2(2) n512 sz by simp
  ultimately show ?thesis
    using 3(2) by (intro exI [of _ "cs @ drop n dt2"] exI [of _ nxt2] exI [of _ sp2] exI [of _ syms])
      (simp add: n_def)
qed

lemma build_decoding_table_ok:
  assumes "fse_tiles log counts" "5 \<le> log" "log \<le> 9" "length counts \<le> 256" "codes_cover codes (length counts)"
    "accuracy_log t = log" "symbol_probabilities t = counts"
  shows "\<exists>cs nxt sp syms. build_decoding_table codes t
      = Inr (t\<lparr>cells := cs, symbol_next := nxt, spread := sp, tsize := 2 ^ log\<rparr>)
    \<and> length cs = FSE_MAX_TABLE_SIZE \<and> fse_cells codes log counts (take (2 ^ log) cs) syms"
  using build_decoding_table_syms [OF assms] by blast

text \<open>The occurrences of a symbol are ranked without gap.\<close>

lemma nth_occurrence:
  "r < count_list xs s \<Longrightarrow> \<exists>!i. i < length xs \<and> xs ! i = s \<and> count_list (take i xs) s = r"
proof (induction xs arbitrary: r)
  case Nil
  then show ?case by simp
next
  case (Cons x xs)
  show ?case
  proof (cases "x = s \<and> r = 0")
    case True
    have "i = 0" if "i < length (x # xs)" "count_list (take i (x # xs)) s = r" for i
      using that True by (cases i) auto
    with True show ?thesis by (intro ex1I [of _ 0]) auto
  next
    case False
    define q where "q = (if x = s then r - 1 else r)"
    have "q < count_list xs s" using Cons.prems False by (auto simp: q_def split: if_splits)
    from Cons.IH [OF this] obtain i where i: "i < length xs" "xs ! i = s" "count_list (take i xs) s = q"
      and u: "\<And>j. j < length xs \<Longrightarrow> xs ! j = s \<Longrightarrow> count_list (take j xs) s = q \<Longrightarrow> j = i" by blast
    have "j = Suc i" if j: "j < length (x # xs)" "(x # xs) ! j = s" "count_list (take j (x # xs)) s = r" for j
    proof (cases j)
      case 0
      with j False show ?thesis by simp
    next
      case (Suc m)
      with j have "count_list (take m xs) s = q" by (auto simp: q_def)
      with j Suc u [of m] show ?thesis by simp
    qed
    moreover have "count_list (take (Suc i) (x # xs)) s = r" using i False by (auto simp: q_def)
    ultimately show ?thesis using i by (intro ex1I [of _ "Suc i"]) auto
  qed
qed

lemma rank_less: "i < length xs \<Longrightarrow> count_list (take i xs) (xs ! i) < count_list xs (xs ! i)"
proof -
  assume i: "i < length xs"
  have "xs = take i xs @ xs ! i # drop (Suc i) xs" using i by (rule id_take_nth_drop)
  then have "count_list xs (xs ! i) = count_list (take i xs @ xs ! i # drop (Suc i) xs) (xs ! i)"
    by (rule arg_cong)
  then show ?thesis by simp
qed

lemma fse_cells_range:
  assumes f: "fse_cells codes log counts cs syms" and b: "\<And>s. s < length counts \<Longrightarrow> cell_count (counts ! s) \<le> 2 ^ log"
    and i: "i < 2 ^ log"
  shows "syms ! i < length counts" and "0 < cell_count (counts ! (syms ! i))"
    and "cell_count (counts ! (syms ! i)) + count_list (take i syms) (syms ! i) < 2 * cell_count (counts ! (syms ! i))"
    and "next_state (cs ! i) + 2 ^ num_bits (cs ! i) \<le> 2 ^ log" and "num_bits (cs ! i) \<le> log"
proof -
  let ?s = "syms ! i"
  have r: "count_list (take i syms) ?s < count_list syms ?s" using f i by (intro rank_less) (simp add: fse_cells_def)
  then have "count_list syms ?s \<noteq> 0" by simp
  then show s: "?s < length counts" using f by (auto simp: fse_cells_def split: if_splits)
  then have c: "count_list syms ?s = cell_count (counts ! ?s)" using f by (simp add: fse_cells_def)
  with r show "0 < cell_count (counts ! ?s)"
    and k: "cell_count (counts ! ?s) + count_list (take i syms) ?s < 2 * cell_count (counts ! ?s)" by auto
  have ci: "cell_is codes log ?s (cell_count (counts ! ?s) + count_list (take i syms) ?s) (cs ! i)"
    using f i by (simp add: fse_cells_def)
  have "cell_count (counts ! ?s) + count_list (take i syms) ?s < 2 ^ Suc log" using k b [OF s] by simp
  then show "next_state (cs ! i) + 2 ^ num_bits (cs ! i) \<le> 2 ^ log"
    using ci r c cell_next_bound [of "cell_count (counts ! ?s) + count_list (take i syms) ?s" log]
    by (simp add: cell_is_def)
  show "num_bits (cs ! i) \<le> log" using ci by (simp add: cell_is_def cell_bits_def)
qed

lemma fse_cells_partition:
  assumes f: "fse_cells codes log counts cs syms" and b: "\<And>s. s < length counts \<Longrightarrow> cell_count (counts ! s) \<le> 2 ^ log"
    and s: "s < length counts" "counts ! s \<noteq> 0" and x: "x < 2 ^ log"
  shows "\<exists>!i. i < 2 ^ log \<and> syms ! i = s \<and> next_state (cs ! i) \<le> x \<and> x < next_state (cs ! i) + 2 ^ num_bits (cs ! i)"
proof -
  let ?c = "cell_count (counts ! s)"
  have c0: "0 < ?c" using s(2) by (simp add: cell_count_def)
  have cnt: "count_list syms s = ?c" and len: "length syms = 2 ^ log" using f s by (auto simp: fse_cells_def)
  have cell: "cell_is codes log s (?c + count_list (take i syms) s) (cs ! i)" if "i < 2 ^ log" "syms ! i = s" for i
    using f that by (auto simp: fse_cells_def)
  from cell_intervals_partition [OF c0 b [OF s(1)] x] obtain k where
    k: "?c \<le> k" "k < 2 * ?c" "cell_next log k \<le> x" "x < cell_next log k + 2 ^ cell_bits log k"
    and ku: "\<And>m. ?c \<le> m \<and> m < 2 * ?c \<and> cell_next log m \<le> x \<and> x < cell_next log m + 2 ^ cell_bits log m \<Longrightarrow> m = k"
    by (auto simp: Ex1_def)
  have "k - ?c < count_list syms s" using k cnt by simp
  from nth_occurrence [OF this] obtain i where
    i: "i < 2 ^ log" "syms ! i = s" "count_list (take i syms) s = k - ?c"
    and iu: "\<And>j. j < 2 ^ log \<and> syms ! j = s \<and> count_list (take j syms) s = k - ?c \<Longrightarrow> j = i"
    unfolding len by (auto simp: Ex1_def)
  show ?thesis
  proof (rule ex1I [of _ i])
    show "i < 2 ^ log \<and> syms ! i = s \<and> next_state (cs ! i) \<le> x \<and> x < next_state (cs ! i) + 2 ^ num_bits (cs ! i)"
      using i k cell [of i] by (simp add: cell_is_def)
  next
    fix j
    assume j: "j < 2 ^ log \<and> syms ! j = s \<and> next_state (cs ! j) \<le> x \<and> x < next_state (cs ! j) + 2 ^ num_bits (cs ! j)"
    let ?m = "?c + count_list (take j syms) s"
    have "?m < 2 * ?c" using j rank_less [of j syms] len cnt by auto
    with j cell [of j] ku [of ?m] have "?m = k" by (simp add: cell_is_def)
    then show "j = i" using j iu [of j] by simp
  qed
qed

text \<open>C9: an FSE decoding table inverts its coding.  For every distribution that tiles a table
  (counts of at least \<open>-1\<close> whose magnitudes add up to the table size) at an accuracy log of 5 to 9,
  \<open>build_decoding_table\<close> returns without panic and without looping, whichever of its two spreading
  branches runs, and with \<open>syms\<close> the symbol of each cell: every symbol has exactly as many cells
  as its count says (one for a low-probability symbol), every cell keeps the next state below the
  table size whatever bits follow, and for each symbol the state intervals of its cells partition
  the states: from each state there is exactly one cell of that symbol that can lead to it.\<close>

theorem fse_table_partition:
  assumes "fse_tiles (accuracy_log t) (symbol_probabilities t)" and "5 \<le> accuracy_log t" and "accuracy_log t \<le> 9"
    and "length (symbol_probabilities t) \<le> 256" and "codes_cover codes (length (symbol_probabilities t))"
  shows "\<exists>t' syms. build_decoding_table codes t = Inr t' \<and> tsize t' = 2 ^ accuracy_log t
    \<and> fse_cells codes (accuracy_log t) (symbol_probabilities t) (take (tsize t') (cells t')) syms
    \<and> (\<forall>s. card {i. i < tsize t' \<and> syms ! i = s}
          = (if s < length (symbol_probabilities t) then nat \<bar>symbol_probabilities t ! s\<bar> else 0))
    \<and> (\<forall>i < tsize t'. next_state (cells t' ! i) + 2 ^ num_bits (cells t' ! i) \<le> tsize t')
    \<and> (\<forall>s < length (symbol_probabilities t). symbol_probabilities t ! s \<noteq> 0 \<longrightarrow>
        (\<forall>x < tsize t'. \<exists>!i. i < tsize t' \<and> syms ! i = s \<and> next_state (cells t' ! i) \<le> x
           \<and> x < next_state (cells t' ! i) + 2 ^ num_bits (cells t' ! i)))"
proof -
  let ?log = "accuracy_log t" and ?counts = "symbol_probabilities t"
  from build_decoding_table_ok [OF assms refl refl] obtain cs nxt sp syms where
    b: "build_decoding_table codes t = Inr (t\<lparr>cells := cs, symbol_next := nxt, spread := sp, tsize := 2 ^ ?log\<rparr>)"
    and f: "fse_cells codes ?log ?counts (take (2 ^ ?log) cs) syms" by auto
  note bd = tiles_bounds(2) [OF assms(1,3)]
  have r: "next_state (cs ! i) + 2 ^ num_bits (cs ! i) \<le> 2 ^ ?log" if "i < 2 ^ ?log" for i
    using fse_cells_range(4) [OF f bd that] that by simp
  have p: "\<exists>!i. i < 2 ^ ?log \<and> syms ! i = s \<and> next_state (cs ! i) \<le> x \<and> x < next_state (cs ! i) + 2 ^ num_bits (cs ! i)"
    if "s < length ?counts" "?counts ! s \<noteq> 0" "x < 2 ^ ?log" for s x
    using fse_cells_partition [OF f bd that] by (simp cong: conj_cong)
  have "card {i. i < 2 ^ ?log \<and> syms ! i = s} = count_list syms s" for s
    using f by (simp add: fse_cells_def count_list_eq_length_filter length_filter_conv_card eq_commute)
  then have c: "card {i. i < 2 ^ ?log \<and> syms ! i = s} = (if s < length ?counts then nat \<bar>?counts ! s\<bar> else 0)" for s
    using f by (simp add: fse_cells_def cell_count_def)
  show ?thesis
    using b f r p c by (intro exI [of _ "t\<lparr>cells := cs, symbol_next := nxt, spread := sp, tsize := 2 ^ ?log\<rparr>"]
      exI [of _ syms]) auto
qed

theorem fse_table_partition_witness:
  "\<exists>t' syms. build_decoding_table None
      ((fse_new 35)\<lparr>symbol_probabilities := LL_DEFAULT_NORM, accuracy_log := 6\<rparr>) = Inr t'
    \<and> tsize t' = 64 \<and> card {i. i < 64 \<and> syms ! i = (0::nat)} = 4"
proof -
  let ?t = "(fse_new 35)\<lparr>symbol_probabilities := LL_DEFAULT_NORM, accuracy_log := 6\<rparr>"
  have "fse_tiles (accuracy_log ?t) (symbol_probabilities ?t)"
    by (simp add: fse_tiles_def LL_DEFAULT_NORM_def cell_count_def)
  moreover have "length (symbol_probabilities ?t) \<le> 256" by (simp add: LL_DEFAULT_NORM_def)
  moreover have "5 \<le> accuracy_log ?t" "accuracy_log ?t \<le> 9" "codes_cover None (length (symbol_probabilities ?t))"
    by (simp_all add: codes_cover_def)
  ultimately obtain t' syms where "build_decoding_table None ?t = Inr t'" and s: "tsize t' = 2 ^ accuracy_log ?t"
    and c: "\<forall>s. card {i. i < tsize t' \<and> syms ! i = s}
      = (if s < length (symbol_probabilities ?t) then nat \<bar>symbol_probabilities ?t ! s\<bar> else 0)"
    using fse_table_partition [of ?t None] by blast
  moreover have "card {i. i < 64 \<and> syms ! i = 0} = 4" using c [rule_format, of 0] s by (simp add: LL_DEFAULT_NORM_def)
  moreover have "tsize t' = 64" using s by simp
  ultimately show ?thesis by blast
qed

section \<open>Well-formed tables\<close>

text \<open>What the decoders that walk a table rely on: a state below the table size leads to a state
  below the table size.\<close>

definition fse_wf :: "fse_table \<Rightarrow> bool" where
  "fse_wf t \<longleftrightarrow> tsize t = 2 ^ accuracy_log t \<and> tsize t \<le> length (cells t) \<and> accuracy_log t \<le> 9 \<and>
     (\<forall>i < tsize t. next_state (cells t ! i) + 2 ^ num_bits (cells t ! i) \<le> tsize t
        \<and> num_bits (cells t ! i) \<le> accuracy_log t)"

lemma fse_wf_built:
  assumes tl: "fse_tiles (accuracy_log t) (symbol_probabilities t)" and lg: "5 \<le> accuracy_log t" "accuracy_log t \<le> 9"
    and l: "length (symbol_probabilities t) \<le> 256" and c: "codes_cover codes (length (symbol_probabilities t))"
  shows "\<exists>t' syms. build_decoding_table codes t = Inr t' \<and> fse_wf t' \<and> max_symbol t' = max_symbol t
    \<and> accuracy_log t' = accuracy_log t \<and> symbol_probabilities t' = symbol_probabilities t
    \<and> fse_cells codes (accuracy_log t) (symbol_probabilities t) (take (tsize t') (cells t')) syms"
proof -
  let ?log = "accuracy_log t"
  from build_decoding_table_ok [OF assms refl refl] obtain cs nxt sp syms where
    b: "build_decoding_table codes t = Inr (t\<lparr>cells := cs, symbol_next := nxt, spread := sp, tsize := 2 ^ ?log\<rparr>)"
    and f: "fse_cells codes ?log (symbol_probabilities t) (take (2 ^ ?log) cs) syms"
    and len: "length cs = FSE_MAX_TABLE_SIZE" by auto
  have "next_state (cs ! i) + 2 ^ num_bits (cs ! i) \<le> 2 ^ ?log \<and> num_bits (cs ! i) \<le> ?log" if "i < 2 ^ ?log" for i
    using fse_cells_range(4,5) [OF f tiles_bounds(2) [OF tl lg(2)] that] that by simp
  moreover have "(2::nat) ^ ?log \<le> length cs"
    unfolding len FSE_MAX_TABLE_SIZE_def FSE_MAX_TABLE_LOG_def using lg by (intro power_increasing) auto
  ultimately show ?thesis using b f lg by (auto simp: fse_wf_def)
qed

lemma build_rle_ok:
  assumes "symbol < length base" and "symbol < length bits"
  shows "\<exists>t'. build_rle t symbol base bits = Inr t' \<and> fse_wf t' \<and> tsize t' = 1 \<and> accuracy_log t' = 0
    \<and> cells t' ! 0 = \<lparr>next_state = 0, num_bits = 0, extra_bits = bits ! symbol, base_value = base ! symbol\<rparr>
    \<and> max_symbol t' = max_symbol t"
  using assms
  by (simp add: build_rle_def fse_reset_def Let_def fse_wf_def FSE_MAX_TABLE_SIZE_def FSE_MAX_TABLE_LOG_def)

lemma sum_cell_count: "int (\<Sum>c\<leftarrow>cs. cell_count c) = (\<Sum>c\<leftarrow>cs. \<bar>c\<bar>)"
  by (induction cs) (auto simp: cell_count_def)

text \<open>C12: \<open>build_from_probabilities\<close> accepts exactly the distributions that tile a table.  For every
  \<open>i32\<close> counts but \<open>i32::MIN\<close> it either reports an invalid distribution, which happens exactly
  when the accuracy log is outside 5 to 9, a symbol exceeds the maximum, a count is below \<open>-1\<close> or the
  counts do not add up to the table size, or it builds a well-formed table for them.\<close>

theorem build_from_probabilities_exact:
  assumes "\<forall>p \<in> set probs. - (2 ^ 31) < p" and "max_symbol t \<le> 255"
    and "codes_cover codes (max_symbol t + 1)"
  shows "if 5 \<le> acc_log \<and> acc_log \<le> 9 \<and> length probs \<le> max_symbol t + 1 \<and> fse_tiles acc_log probs
    then \<exists>t' syms. build_from_probabilities acc_log probs codes t = Inr t' \<and> fse_wf t'
      \<and> fse_cells codes acc_log probs (take (2 ^ acc_log) (cells t')) syms
    else \<exists>n. build_from_probabilities acc_log probs codes t
      = Inl (Err (FseError (FseDistribution (length probs) n acc_log)))"
proof -
  have nm: "\<not> (\<exists>p \<in> set probs. p = - (2 ^ 31))" using assms(1) by auto
  have tl: "fse_tiles acc_log probs \<longleftrightarrow> (\<forall>p \<in> set probs. \<not> p < -1) \<and> (\<Sum>p\<leftarrow>probs. \<bar>p\<bar>) = 2 ^ acc_log"
    unfolding fse_tiles_def sum_cell_count [symmetric]
    by (metis not_le of_nat_eq_iff of_nat_numeral of_nat_power)
  show ?thesis
  proof (cases "5 \<le> acc_log \<and> acc_log \<le> 9 \<and> length probs \<le> max_symbol t + 1 \<and> fse_tiles acc_log probs")
    case True
    let ?t = "(fse_reset t)\<lparr>symbol_probabilities := probs, accuracy_log := acc_log\<rparr>"
    have "build_from_probabilities acc_log probs codes t = build_decoding_table codes ?t"
      using True nm unfolding build_from_probabilities_def tl
      by (auto simp: ACC_LOG_OFFSET_def FSE_MAX_TABLE_LOG_def fse_reset_def Let_def)
    moreover have "codes_cover codes (length probs)"
      using True assms(3) by (auto simp: codes_cover_def split: option.splits)
    ultimately show ?thesis
      using True assms(2) fse_wf_built [of ?t codes] by (auto simp: fse_wf_def)
  next
    case False
    then have "build_from_probabilities acc_log probs codes t
        = Inl (Err (FseError (FseDistribution (length probs) (\<Sum>p\<leftarrow>probs. \<bar>p\<bar>) acc_log)))"
      using nm unfolding build_from_probabilities_def tl
      by (auto simp: ACC_LOG_OFFSET_def FSE_MAX_TABLE_LOG_def fse_reset_def Let_def)
    with False show ?thesis by auto
  qed
qed

theorem build_from_probabilities_exact_witness:
  "\<exists>t' syms. build_from_probabilities 5 OF_DEFAULT_NORM None (fse_new 31) = Inr t' \<and> fse_wf t'
      \<and> fse_cells None 5 OF_DEFAULT_NORM (take 32 (cells t')) syms"
proof -
  have "\<forall>p \<in> set OF_DEFAULT_NORM. - (2 ^ 31) < p" by (simp add: OF_DEFAULT_NORM_def)
  moreover have "fse_tiles 5 OF_DEFAULT_NORM" by (simp add: fse_tiles_def OF_DEFAULT_NORM_def cell_count_def)
  moreover have "length OF_DEFAULT_NORM = 29" by (simp add: OF_DEFAULT_NORM_def)
  ultimately show ?thesis
    using build_from_probabilities_exact [of OF_DEFAULT_NORM "fse_new 31" None 5]
    by (simp add: fse_new_def codes_cover_def)
qed

end
