(* ===== verification/Fse_Header.thy ===== *)
theory Fse_Header
  imports Fse_Table
begin

text \<open>
  The normalized-count header of an FSE table (\<open>FSETable::read_ncount_body\<close>,
  \<open>read_probabilities\<close> and \<open>build_decoder\<close> of \<open>src/src/decode.rs\<close>).  The reader keeps a 32-bit
  window \<open>bit_stream\<close> that is the little-endian word at byte \<open>ip\<close> shifted down by
  \<open>bit_count\<close>, clamped at the last four bytes of the source.  An indexed read outside the source,
  a shift by 32 or more and a write past the counts are \<open>Panic\<close>; the loop over the 24-bit runs of
  repeat codes is given \<open>length src + 8\<close> rounds, more than it can take.  The lemmas show that no
  input makes the reader panic or loop, that it never reports more bytes than it was given, and that
  the counts it accepts tile the table, so that the decoding table built from them is well formed.
\<close>

section \<open>The reader\<close>

definition read32 :: "u8 list \<Rightarrow> nat \<Rightarrow> u32 res" where
  "read32 src at = res_bind (slice src at (at + 4)) (\<lambda>bs. Inr (word_of_nat (le_nat bs)))"

text \<open>\<open>w >> n\<close> on \<open>u32\<close>.\<close>

definition shr32 :: "u32 \<Rightarrow> nat \<Rightarrow> u32 res" where
  "shr32 w n = (if n < 32 then Inr (drop_bit n w) else Inl Panic)"

definition trailing_zeros32 :: "u32 \<Rightarrow> nat" where
  "trailing_zeros32 w = length (takeWhile (\<lambda>i. \<not> bit w i) [0..<32])"

definition highest_bit_set :: "nat \<Rightarrow> nat res" where
  "highest_bit_set x = (if x = 0 then Inl Panic else Inr (bit_length x))"

record nc_state =
  nc_ip :: nat
  nc_bits :: u32
  bit_count :: nat
  nb_bits :: nat
  remaining :: int
  threshold :: int
  charnum :: nat
  counts :: "int list"
  previous0 :: bool

text \<open>The closure \<open>advance\<close> followed by the reload of the window.\<close>

definition advance :: "nat \<Rightarrow> nat \<Rightarrow> nat \<Rightarrow> nat \<times> nat" where
  "advance iend ip bc =
     (if ip + 7 \<le> iend \<or> ip + bc div 8 + 4 \<le> iend then (ip + bc div 8, bc AND 7)
      else (iend - 4, nat ((int bc - 8 * int (iend - 4 - ip)) mod 2 ^ 32) AND 31))"

definition nc_reload :: "u8 list \<Rightarrow> nc_state \<Rightarrow> nc_state res" where
  "nc_reload src st =
     (let (ip, bc) = advance (length src) (nc_ip st) (bit_count st) in
      res_bind (read32 src ip) (\<lambda>w. res_bind (shr32 w bc) (\<lambda>bs.
      Inr (st\<lparr>nc_ip := ip, bit_count := bc, nc_bits := bs\<rparr>))))"

definition repeat_codes :: "u32 \<Rightarrow> nat" where
  "repeat_codes bs = trailing_zeros32 (NOT bs OR 0x80000000) div 2"

text \<open>The loop over runs of twelve or more repeat codes.\<close>

fun nc_repeats :: "nat \<Rightarrow> u8 list \<Rightarrow> nc_state \<Rightarrow> nc_state res" where
  "nc_repeats fuel src st =
     (if repeat_codes (nc_bits st) < 12 then Inr st
      else case fuel of 0 \<Rightarrow> Inl Diverges
      | Suc fuel \<Rightarrow>
        let iend = length src;
            (ip, bc) =
              (if nc_ip st + 7 \<le> iend then (nc_ip st + 3, bit_count st)
               else let back = 8 * (int iend - 7 - int (nc_ip st))
                    in (iend - 4, nat ((int (bit_count st) - back) mod 2 ^ 32) AND 31))
        in res_bind (read32 src ip) (\<lambda>w. res_bind (shr32 w bc) (\<lambda>bs.
           nc_repeats fuel src
             (st\<lparr>charnum := charnum st + 3 * 12, nc_ip := ip, bit_count := bc, nc_bits := bs\<rparr>))))"

declare nc_repeats.simps [simp del]

text \<open>The block under \<open>if previous0\<close>; the flag says that the outer loop is left.\<close>

definition nc_zero_run :: "u8 list \<Rightarrow> nat \<Rightarrow> nc_state \<Rightarrow> (bool \<times> nc_state) res" where
  "nc_zero_run src max_sv1 st =
     (if \<not> previous0 st then Inr (False, st)
      else
      res_bind (nc_repeats (length src + 8) src st) (\<lambda>st.
      let repeats = repeat_codes (nc_bits st);
          bs = drop_bit (2 * repeats) (nc_bits st);
          st = st\<lparr>nc_bits := bs,
                  charnum := charnum st + 3 * repeats + unat (bs AND 3),
                  bit_count := bit_count st + 2 * repeats + 2\<rparr>
      in if max_sv1 \<le> charnum st then Inr (True, st)
         else res_bind (nc_reload src st) (\<lambda>st. Inr (False, st))))"

text \<open>The next count and the bits it took.\<close>

definition nc_value :: "nc_state \<Rightarrow> int \<times> nat" where
  "nc_value st =
     (let mx = 2 * threshold st - 1 - remaining st;
          low = int (unat (nc_bits st AND (word_of_int (threshold st) - 1)))
      in if low < mx then (low, nb_bits st - 1)
         else let count = int (unat (nc_bits st AND (word_of_int (2 * threshold st) - 1)))
              in (if threshold st \<le> count then count - mx else count, nb_bits st))"

definition nc_count :: "u8 list \<Rightarrow> nat \<Rightarrow> nc_state \<Rightarrow> (bool \<times> nc_state) res" where
  "nc_count src max_sv1 st =
     (let (value, used) = nc_value st;
          count = value - 1;
          rem = (if 0 \<le> count then remaining st - count else remaining st + count)
      in if length (counts st) \<le> charnum st then Inl Panic
         else
         let st = st\<lparr>bit_count := bit_count st + used, remaining := rem,
                     counts := (counts st)[charnum st := count], charnum := charnum st + 1,
                     previous0 := (count = 0)\<rparr>
         in if rem < threshold st \<and> rem \<le> 1 then Inr (True, st)
            else
            res_bind
              (if rem < threshold st then
                 res_bind (highest_bit_set (nat (rem mod 2 ^ 32))) (\<lambda>nb.
                 Inr (st\<lparr>nb_bits := nb, threshold := 2 ^ (nb - 1)\<rparr>))
               else Inr st) (\<lambda>st.
            if max_sv1 \<le> charnum st then Inr (True, st)
            else res_bind (nc_reload src st) (\<lambda>st. Inr (False, st))))"

lemma nc_reload_charnum: "nc_reload src st = Inr st' \<Longrightarrow> charnum st' = charnum st"
  by (auto simp: nc_reload_def res_simps split: prod.splits)

lemma nc_repeats_charnum: "nc_repeats fuel src st = Inr st' \<Longrightarrow> charnum st \<le> charnum st'"
proof (induction fuel arbitrary: st)
  case 0
  then show ?case by (simp add: nc_repeats.simps split: if_splits)
next
  case (Suc fuel)
  then show ?case
    by (subst (asm) nc_repeats.simps) (fastforce simp: res_simps Let_def split: if_splits)
qed

lemma nc_zero_run_charnum: "nc_zero_run src m st = Inr (b, st') \<Longrightarrow> charnum st \<le> charnum st'"
  by (auto simp: nc_zero_run_def res_simps Let_def split: if_splits dest!: nc_repeats_charnum nc_reload_charnum)

lemma nc_count_charnum: "nc_count src m st = Inr (False, st') \<Longrightarrow> charnum st' = charnum st + 1 \<and> charnum st' < m"
  by (auto simp: nc_count_def res_simps Let_def split: if_splits prod.splits dest!: nc_reload_charnum)

function nc_loop :: "u8 list \<Rightarrow> nat \<Rightarrow> nc_state \<Rightarrow> nc_state res" where
  "nc_loop src max_sv1 st =
     res_bind (nc_zero_run src max_sv1 st) (\<lambda>(stop, st).
     if stop then Inr st
     else res_bind (nc_count src max_sv1 st) (\<lambda>(stop, st).
          if stop then Inr st else nc_loop src max_sv1 st))"
  by auto
termination
  by (relation "measure (\<lambda>(src, m, st). m - charnum st)")
    (auto dest!: nc_zero_run_charnum nc_count_charnum)

declare nc_loop.simps [simp del]

definition read_ncount_body :: "fse_table \<Rightarrow> u8 list \<Rightarrow> nat \<Rightarrow> (fse_table \<times> nat) res" where
  "read_ncount_body t src max_log =
     (if length src < 8 then Inl Panic
      else
      let max_sv1 = max_symbol t + 1 in
      res_bind (read32 src 0) (\<lambda>w.
      let log = unat (w AND 0xF) + ACC_LOG_OFFSET in
      if max_log < log then Inl (Err (FseError (FseAccuracyLog log max_log)))
      else
      res_bind (nc_loop src max_sv1
        \<lparr>nc_ip = 0, nc_bits = drop_bit 4 w, bit_count = 4, nb_bits = log + 1,
         remaining = 2 ^ log + 1, threshold = 2 ^ log, charnum = 0,
         counts = replicate max_sv1 0, previous0 = False\<rparr>) (\<lambda>st.
      if remaining st \<noteq> 1 then
        Inl (Err (FseError (FseUnassigned (remaining st - 1) (2 ^ log))))
      else if max_sv1 < charnum st then Inl (Err (FseError (FseTooManySymbols (charnum st))))
      else if 32 < bit_count st then Inl (Err (FseError FsePastInput))
      else Inr (t\<lparr>accuracy_log := log, symbol_probabilities := take (charnum st) (counts st)\<rparr>,
                nc_ip st + (bit_count st + 7) div 8))))"

definition read_probabilities :: "fse_table \<Rightarrow> u8 list \<Rightarrow> nat \<Rightarrow> (fse_table \<times> nat) res" where
  "read_probabilities t source max_log =
     (if length source < 8 then
        res_bind (read_ncount_body t (source @ replicate (8 - length source) 0) max_log) (\<lambda>(t, n).
        if length source < n then Inl (Err (FseError FsePastInput)) else Inr (t, n))
      else read_ncount_body t source max_log)"

definition fse_build_decoder :: "fse_table \<Rightarrow> u8 list \<Rightarrow> nat \<Rightarrow> codes \<Rightarrow> (fse_table \<times> nat) res" where
  "fse_build_decoder t source max_log codes =
     res_bind (read_probabilities (fse_reset t) source max_log) (\<lambda>(t, bytes_read).
     if length (filter (\<lambda>c. c \<noteq> 0) (symbol_probabilities t)) < 2
     then Inl (Err (FseError FseFewSymbols))
     else res_bind (build_decoding_table codes t) (\<lambda>t. Inr (t, bytes_read)))"

definition parse_fse_header :: "u8 list \<Rightarrow> nat \<Rightarrow> (nat \<times> int list \<times> nat) res" where
  "parse_fse_header source max_log =
     res_bind (read_probabilities (fse_new 255) source max_log) (\<lambda>(t, bytes).
     Inr (accuracy_log t, symbol_probabilities t, bytes))"

section \<open>The reader stays in its source\<close>

text \<open>The window is the word at \<open>nc_ip\<close> shifted down, and \<open>nc_ip\<close> is at most the last word.\<close>

definition nc_window :: "u8 list \<Rightarrow> nc_state \<Rightarrow> bool" where
  "nc_window src st \<longleftrightarrow> nc_ip st + 4 \<le> length src \<and> bit_count st \<le> 31 \<and>
     (bit_count st \<le> 7 \<or> nc_ip st = length src - 4) \<and>
     nc_bits st = drop_bit (bit_count st) (word_of_nat (le_nat (take 4 (drop (nc_ip st) src))))"

lemma read32_ok: "at + 4 \<le> length src \<Longrightarrow> read32 src at = Inr (word_of_nat (le_nat (take 4 (drop at src))))"
  by (simp add: read32_def)

lemma and_7: "(n::nat) AND 7 = n mod 8" and and_31: "(n::nat) AND 31 = n mod 32"
  using nat_and_mask [of n 3] nat_and_mask [of n 5] by simp_all

lemma advance_ok:
  assumes "8 \<le> iend" and "ip + 4 \<le> iend" and "bc \<le> 31 \<or> ip = iend - 4" and "advance iend ip bc = (ip', bc')"
  shows "ip' + 4 \<le> iend \<and> bc' \<le> 31 \<and> (bc' \<le> 7 \<or> ip' = iend - 4)"
proof (cases "ip + 7 \<le> iend \<or> ip + bc div 8 + 4 \<le> iend")
  case True
  then have "bc div 8 \<le> 3 \<or> ip + bc div 8 + 4 \<le> iend" using assms(1-3) by auto
  with True assms(4) show ?thesis by (auto simp: advance_def and_7)
next
  case False
  with assms show ?thesis by (auto simp: advance_def and_31)
qed

lemma nc_reload_ok:
  assumes "8 \<le> length src" and "nc_ip st + 4 \<le> length src"
    and "bit_count st \<le> 31 \<or> nc_ip st = length src - 4"
  shows "\<exists>ip bc bs. nc_reload src st = Inr (st\<lparr>nc_ip := ip, bit_count := bc, nc_bits := bs\<rparr>)
    \<and> nc_window src (st\<lparr>nc_ip := ip, bit_count := bc, nc_bits := bs\<rparr>)"
proof -
  obtain ip bc where a: "advance (length src) (nc_ip st) (bit_count st) = (ip, bc)" by fastforce
  from advance_ok [OF assms a] a show ?thesis
    by (auto simp: nc_reload_def nc_window_def read32_ok shr32_def)
qed

lemma repeat_codes_bound: "repeat_codes bs \<le> 15"
proof -
  have "trailing_zeros32 (NOT bs OR 0x80000000) \<le> 31"
  proof (rule ccontr)
    let ?P = "\<lambda>i. \<not> bit (NOT bs OR 0x80000000 :: u32) i"
    assume "\<not> trailing_zeros32 (NOT bs OR 0x80000000) \<le> 31"
    then have "31 < length (takeWhile ?P [0..<32])" by (simp add: trailing_zeros32_def)
    then have "?P ([0..<32] ! 31)" by (metis nth_mem set_takeWhileD takeWhile_nth)
    then have "\<not> bit (0x80000000 :: u32) 31" by (simp add: bit_or_iff)
    then show False by simp
  qed
  then show ?thesis by (simp add: repeat_codes_def)
qed

lemma repeat_codes_12: "12 \<le> repeat_codes bs \<Longrightarrow> bit bs 23"
proof -
  let ?P = "\<lambda>i. \<not> bit (NOT bs OR 0x80000000 :: u32) i"
  assume "12 \<le> repeat_codes bs"
  then have "23 < length (takeWhile ?P [0..<32])"
    by (simp add: repeat_codes_def trailing_zeros32_def less_eq_div_iff_mult_less_eq)
  then have "?P ([0..<32] ! 23)" by (metis nth_mem set_takeWhileD takeWhile_nth)
  then show ?thesis by (simp add: bit_or_iff bit_not_iff)
qed

lemma nc_window_12:
  assumes "nc_window src st" and "12 \<le> repeat_codes (nc_bits st)"
  shows "bit_count st \<le> 8"
proof -
  have "bit (nc_bits st) 23" by (rule repeat_codes_12 [OF assms(2)])
  then have "bit (word_of_nat (le_nat (take 4 (drop (nc_ip st) src))) :: u32) (bit_count st + 23)"
    using assms(1) by (simp add: nc_window_def bit_drop_bit_eq)
  then have "bit_count st + 23 < 32" using bit_imp_le_length by fastforce
  then show ?thesis by simp
qed

text \<open>The rounds left of the loop over repeat codes.\<close>

definition nc_rounds :: "u8 list \<Rightarrow> nc_state \<Rightarrow> nat" where
  "nc_rounds src st = length src - nc_ip st + (if bit_count st = 8 then 2 else if bit_count st < 8 then 1 else 0)"

lemma nc_repeats_ok:
  assumes "8 \<le> length src"
  shows "nc_window src st \<Longrightarrow> nc_rounds src st \<le> fuel \<Longrightarrow>
    \<exists>cn ip bc bs. nc_repeats fuel src st = Inr (st\<lparr>charnum := cn, nc_ip := ip, bit_count := bc, nc_bits := bs\<rparr>)
      \<and> nc_window src (st\<lparr>charnum := cn, nc_ip := ip, bit_count := bc, nc_bits := bs\<rparr>)
      \<and> charnum st \<le> cn \<and> repeat_codes bs < 12"
proof (induction fuel arbitrary: st)
  case 0
  then have "nc_ip st + 4 \<le> length src" "length src - nc_ip st = 0" by (auto simp: nc_window_def nc_rounds_def)
  then show ?case by simp
next
  case (Suc fuel)
  note w = Suc.prems(1)
  let ?i = "nc_ip st" and ?b = "bit_count st" and ?n = "length src"
  show ?case
  proof (cases "repeat_codes (nc_bits st) < 12")
    case True
    then show ?thesis using w
      by (intro exI [of _ "charnum st"] exI [of _ "?i"] exI [of _ "?b"] exI [of _ "nc_bits st"])
        (simp add: nc_repeats.simps)
  next
    case False
    then have b8: "?b \<le> 8" using nc_window_12 [OF w] by simp
    define ip where "ip = (if ?i + 7 \<le> ?n then ?i + 3 else ?n - 4)"
    define bc where "bc = (if ?i + 7 \<le> ?n then ?b else (?b + 8 * (?i + 7 - ?n)) mod 32)"
    have i: "?i + 4 \<le> ?n" "?b \<le> 7 \<or> ?i = ?n - 4" using w by (auto simp: nc_window_def)
    have eq: "(if ?i + 7 \<le> ?n then (?i + 3, ?b)
        else let back = 8 * (int ?n - 7 - int ?i) in (?n - 4, nat ((int ?b - back) mod 2 ^ 32) AND 31)) = (ip, bc)"
    proof (cases "?i + 7 \<le> ?n")
      case False
      then have "int ?b - 8 * (int ?n - 7 - int ?i) = int (?b + 8 * (?i + 7 - ?n))" by simp
      moreover have "?b + 8 * (?i + 7 - ?n) < 2 ^ 32" using i b8 by simp
      ultimately have e: "nat ((int ?b - 8 * (int ?n - 7 - int ?i)) mod 2 ^ 32) = ?b + 8 * (?i + 7 - ?n)" by simp
      show ?thesis unfolding Let_def e and_31 ip_def bc_def using False by simp
    qed (simp add: ip_def bc_def)
    have ipn: "ip + 4 \<le> ?n" and bcn: "bc < 32" and near: "bc \<le> 7 \<or> ip = ?n - 4"
      using assms i b8 by (auto simp: ip_def bc_def)
    define bs where "bs = drop_bit bc (word_of_nat (le_nat (take 4 (drop ip src))) :: u32)"
    define st1 where "st1 = st\<lparr>charnum := charnum st + 3 * 12, nc_ip := ip, bit_count := bc, nc_bits := bs\<rparr>"
    have w1: "nc_window src st1" using ipn bcn near by (auto simp: nc_window_def st1_def bs_def)
    have s1: "nc_ip st1 = ip" "bit_count st1 = bc" by (simp_all add: st1_def)
    have "nc_rounds src st1 < nc_rounds src st"
    proof (cases "?i + 7 \<le> ?n")
      case True
      then have "length src - (?i + 3) < length src - ?i" by linarith
      with True show ?thesis by (auto simp: nc_rounds_def s1 ip_def bc_def)
    next
      case False
      with i(1) consider "?i = ?n - 4" "?i + 7 - ?n = 3" | "?i = ?n - 5" "?i + 7 - ?n = 2" | "?i = ?n - 6" "?i + 7 - ?n = 1"
        by linarith
      then show ?thesis
      proof cases
        case 1
        have "?b = 8 \<or> ?b < 8" using b8 by auto
        with 1 False assms show ?thesis
          by (auto simp: nc_rounds_def s1 ip_def bc_def mod_if)
      qed (use False assms i b8 in \<open>auto simp: nc_rounds_def s1 ip_def bc_def mod_if\<close>)
    qed
    then have "nc_rounds src st1 \<le> fuel" using Suc.prems(2) by simp
    from Suc.IH [OF w1 this] obtain cn ip' bc' bs' where
      r: "nc_repeats fuel src st1 = Inr (st1\<lparr>charnum := cn, nc_ip := ip', bit_count := bc', nc_bits := bs'\<rparr>)"
      "nc_window src (st1\<lparr>charnum := cn, nc_ip := ip', bit_count := bc', nc_bits := bs'\<rparr>)"
      "charnum st1 \<le> cn" "repeat_codes bs' < 12" by auto
    have "nc_repeats (Suc fuel) src st = nc_repeats fuel src st1"
      using False eq ipn bcn by (subst nc_repeats.simps) (simp add: read32_ok shr32_def st1_def bs_def Let_def)
    with r show ?thesis
      by (intro exI [of _ cn] exI [of _ ip'] exI [of _ bc'] exI [of _ bs']) (simp add: st1_def)
  qed
qed

section \<open>The counts tile the table\<close>

definition nc_sums :: "nat \<Rightarrow> nat \<Rightarrow> nc_state \<Rightarrow> bool" where
  "nc_sums m log st \<longleftrightarrow> length (counts st) = m \<and> (\<forall>c \<in> set (counts st). -1 \<le> c) \<and>
     (\<forall>i < m. charnum st \<le> i \<longrightarrow> counts st ! i = 0) \<and>
     int (\<Sum>c\<leftarrow>counts st. cell_count c) + remaining st = 2 ^ log + 1"

definition nc_top :: "nat \<Rightarrow> nc_state \<Rightarrow> bool" where
  "nc_top log st \<longleftrightarrow> 2 \<le> remaining st \<and> 1 \<le> nb_bits st \<and> nb_bits st \<le> log + 1 \<and>
     threshold st = 2 ^ (nb_bits st - 1) \<and> threshold st \<le> remaining st \<and> remaining st < 2 * threshold st"

lemma unat_and_mask:
  assumes "k < 32"
  shows "unat (w AND (word_of_int (2 ^ k) - 1) :: u32) = take_bit k (unat w)"
proof -
  have "word_of_int (2 ^ k) - 1 = (mask k :: u32)" by (simp add: mask_eq_exp_minus_1)
  then show ?thesis by (simp add: unsigned_take_bit_eq flip: take_bit_eq_mask)
qed

lemma nc_value_range:
  assumes "nc_top log st" and "log \<le> 20" and "nc_value st = (v, u)"
  shows "0 \<le> v \<and> v \<le> remaining st \<and> u \<le> nb_bits st"
proof -
  define k where "k = nb_bits st - 1"
  have k: "k < 31" "threshold st = 2 ^ k" using assms by (auto simp: nc_top_def k_def)
  then have k2: "2 * threshold st = 2 ^ Suc k" by simp
  have a: "int (unat (nc_bits st AND (word_of_int (threshold st) - 1))) = int (take_bit k (unat (nc_bits st)))"
    "int (unat (nc_bits st AND (word_of_int (2 * threshold st) - 1))) = int (take_bit (Suc k) (unat (nc_bits st)))"
    unfolding k2 unfolding k(2) using k(1) unat_and_mask [of "Suc k"] unat_and_mask [of k] by simp_all
  have b: "int (take_bit k (unat (nc_bits st))) < threshold st"
    "int (take_bit (Suc k) (unat (nc_bits st))) < 2 * threshold st"
    unfolding k2 unfolding k(2) by (metis of_nat_less_iff of_nat_numeral of_nat_power take_bit_bound)+
  have "threshold st \<le> remaining st" "remaining st < 2 * threshold st" using assms(1) by (auto simp: nc_top_def)
  then show ?thesis using assms(3) b unfolding nc_value_def a Let_def by (auto split: if_splits)
qed

lemma sum_cell_count_update:
  "i < length cs \<Longrightarrow> cs ! i = 0 \<Longrightarrow> (\<Sum>c\<leftarrow>cs[i := x]. cell_count c) = (\<Sum>c\<leftarrow>cs. cell_count c) + cell_count x"
  by (simp add: map_update sum_list_update cell_count_def [of 0])

lemma nc_sums_count:
  assumes "nc_sums m log st" and "charnum st < m" and "-1 \<le> cnt" and "cnt \<le> remaining st - 1"
  shows "nc_sums m log (st\<lparr>remaining := if 0 \<le> cnt then remaining st - cnt else remaining st + cnt,
       counts := (counts st)[charnum st := cnt], charnum := charnum st + 1\<rparr>)"
proof -
  let ?cs = "counts st"
  have l: "length ?cs = m" and z: "?cs ! charnum st = 0" using assms by (auto simp: nc_sums_def)
  have "\<forall>c \<in> set (?cs[charnum st := cnt]). -1 \<le> c"
    using assms(1,3) set_update_subset_insert [of ?cs "charnum st" cnt] by (auto simp: nc_sums_def)
  moreover have "int (\<Sum>c\<leftarrow>?cs[charnum st := cnt]. cell_count c)
      + (if 0 \<le> cnt then remaining st - cnt else remaining st + cnt) = 2 ^ log + 1"
    using assms(1,2,3) z l by (auto simp: nc_sums_def sum_cell_count_update cell_count_def [of cnt])
  ultimately show ?thesis using assms(1) by (auto simp: nc_sums_def)
qed

lemma nc_zero_run_ok:
  assumes "8 \<le> length src" and "nc_window src st" and "nc_sums m log st" and "nc_top log st" and "charnum st < m"
  shows "\<exists>b st'. nc_zero_run src m st = Inr (b, st') \<and> nc_sums m log st' \<and> nc_top log st'
    \<and> nc_ip st' + 4 \<le> length src \<and> (\<not> b \<longrightarrow> nc_window src st' \<and> charnum st' < m)"
proof (cases "previous0 st")
  case False
  with assms show ?thesis by (auto simp: nc_zero_run_def nc_window_def)
next
  case True
  have "nc_rounds src st \<le> length src + 8" by (auto simp: nc_rounds_def)
  from nc_repeats_ok [OF assms(1,2) this] obtain cn ip bc bs where
    r: "nc_repeats (length src + 8) src st = Inr (st\<lparr>charnum := cn, nc_ip := ip, bit_count := bc, nc_bits := bs\<rparr>)"
    and w: "nc_window src (st\<lparr>charnum := cn, nc_ip := ip, bit_count := bc, nc_bits := bs\<rparr>)"
    and c: "charnum st \<le> cn" "repeat_codes bs < 12" by auto
  define bs1 where "bs1 = drop_bit (2 * repeat_codes bs) bs"
  define st1 where "st1 = st\<lparr>charnum := cn, nc_ip := ip, bit_count := bc, nc_bits := bs\<rparr>
    \<lparr>nc_bits := bs1, charnum := cn + 3 * repeat_codes bs + unat (bs1 AND 3), bit_count := bc + 2 * repeat_codes bs + 2\<rparr>"
  have z: "nc_zero_run src m st = (if m \<le> charnum st1 then Inr (True, st1)
      else res_bind (nc_reload src st1) (\<lambda>st. Inr (False, st)))"
    using True r by (simp add: nc_zero_run_def Let_def st1_def bs1_def)
  have s1: "nc_sums m log st1" using assms(3) c by (auto simp: nc_sums_def st1_def)
  have t1: "nc_top log st1" using assms(4) by (simp add: nc_top_def st1_def)
  have i1: "nc_ip st1 + 4 \<le> length src" using w by (simp add: nc_window_def st1_def)
  have b1: "bit_count st1 \<le> 31 \<or> nc_ip st1 = length src - 4" using w c by (auto simp: nc_window_def st1_def)
  from nc_reload_ok [OF assms(1) i1 b1] obtain ip2 bc2 bs2 where
    "nc_reload src st1 = Inr (st1\<lparr>nc_ip := ip2, bit_count := bc2, nc_bits := bs2\<rparr>)"
    and w2: "nc_window src (st1\<lparr>nc_ip := ip2, bit_count := bc2, nc_bits := bs2\<rparr>)" by auto
  moreover have "nc_sums m log (st1\<lparr>nc_ip := ip2, bit_count := bc2, nc_bits := bs2\<rparr>)"
    "nc_top log (st1\<lparr>nc_ip := ip2, bit_count := bc2, nc_bits := bs2\<rparr>)"
    using s1 t1 by (simp_all add: nc_sums_def nc_top_def)
  ultimately show ?thesis using z s1 t1 i1 by (auto simp: nc_window_def)
qed

lemma nc_count_ok:
  assumes "8 \<le> length src" and w: "nc_window src st" and s: "nc_sums m log st" and t: "nc_top log st"
    and c: "charnum st < m" and lg: "log \<le> 20"
  shows "\<exists>b st'. nc_count src m st = Inr (b, st') \<and> nc_sums m log st' \<and> nc_ip st' + 4 \<le> length src
    \<and> (\<not> b \<longrightarrow> nc_window src st' \<and> nc_top log st' \<and> charnum st' < m)"
proof -
  obtain v u where v: "nc_value st = (v, u)" by fastforce
  note vr = nc_value_range [OF t lg v]
  define rem where "rem = (if 0 \<le> v - 1 then remaining st - (v - 1) else remaining st + (v - 1))"
  have r1: "1 \<le> rem" and r2: "rem \<le> remaining st" using vr t by (auto simp: rem_def nc_top_def)
  define st1 where "st1 = st\<lparr>bit_count := bit_count st + u, remaining := rem,
    counts := (counts st)[charnum st := v - 1], charnum := charnum st + 1, previous0 := (v - 1 = 0)\<rparr>"
  define st2 where "st2 = (if rem < threshold st
    then st1\<lparr>nb_bits := bit_length (nat rem), threshold := 2 ^ (bit_length (nat rem) - 1)\<rparr> else st1)"
  have s1: "nc_sums m log st1"
    using nc_sums_count [OF s c, of "v - 1"] vr by (simp add: nc_sums_def st1_def rem_def)
  then have s2: "nc_sums m log st2" by (simp add: st2_def nc_sums_def)
  have i2: "nc_ip st2 + 4 \<le> length src" and i1: "nc_ip st1 + 4 \<le> length src"
    using w by (auto simp: nc_window_def st1_def st2_def)
  have "bit_count st1 \<le> 31 \<or> nc_ip st1 = length src - 4"
    using w vr t lg by (auto simp: nc_window_def nc_top_def st1_def)
  then have b2: "bit_count st2 \<le> 31 \<or> nc_ip st2 = length src - 4" by (simp add: st2_def)
  have big: "rem < 2 ^ 32"
  proof -
    have "rem \<le> 2 ^ log + 1" using r2 s by (auto simp: nc_sums_def)
    also have "(2::int) ^ log \<le> 2 ^ 20" using lg by (intro power_increasing) auto
    finally show ?thesis by simp
  qed
  have th2: "2 \<le> threshold st" using t by (auto simp: nc_top_def)
  have t2: "nc_top log st2" if nb: "\<not> (rem < threshold st \<and> rem \<le> 1)"
  proof (cases "rem < threshold st")
    case False
    then show ?thesis using t r2 th2 by (simp add: st2_def st1_def nc_top_def)
  next
    case True
    define nb where "nb = bit_length (nat rem)"
    have rp: "0 < nat rem" using r1 by simp
    have "nat rem < 2 ^ (nb_bits st - 1)" using True t r1 by (simp add: nc_top_def nat_less_iff)
    then have "nb \<le> nb_bits st - 1" by (simp add: nb_def bit_length_le_iff)
    moreover have "nb_bits st - 1 \<le> log" using t by (auto simp: nc_top_def)
    moreover have "0 < nb" using rp by (cases "bit_length (nat rem)") (auto simp: nb_def)
    moreover have "int (2 ^ (nb - 1)) \<le> int (nat rem)" unfolding nb_def of_nat_le_iff by (rule bit_length_lower [OF rp])
    moreover have "int (nat rem) < int (2 ^ nb)" unfolding nb_def of_nat_less_iff by (rule bit_length_upper)
    moreover have "(2::int) ^ nb = 2 * 2 ^ (nb - 1)" using \<open>0 < nb\<close> by (cases nb) auto
    moreover have "st2 = st1\<lparr>nb_bits := nb, threshold := 2 ^ (nb - 1)\<rparr>" using True by (simp add: st2_def nb_def)
    ultimately show ?thesis using t r1 nb True by (simp add: nc_top_def st1_def)
  qed
  have c1: "charnum st1 = charnum st + 1" "charnum st2 = charnum st + 1" by (simp_all add: st1_def st2_def)
  have th1: "threshold st1 = threshold st" by (simp add: st1_def)
  have nb: "(if rem < threshold st1 then
      res_bind (highest_bit_set (nat (rem mod 2 ^ 32))) (\<lambda>nb. Inr (st1\<lparr>nb_bits := nb, threshold := 2 ^ (nb - 1)\<rparr>))
    else Inr st1) = Inr st2"
    using r1 big by (simp add: st2_def highest_bit_set_def) (simp add: st1_def)
  have z: "nc_count src m st = (if rem < threshold st \<and> rem \<le> 1 then Inr (True, st1)
      else if m \<le> charnum st2 then Inr (True, st2) else res_bind (nc_reload src st2) (\<lambda>st. Inr (False, st)))"
    unfolding nc_count_def v Let_def prod.case rem_def [symmetric] st1_def [symmetric] nb res_bind_simps
    using c s th1 by (simp add: nc_sums_def)
  from nc_reload_ok [OF assms(1) i2 b2] obtain ip3 bc3 bs3 where
    "nc_reload src st2 = Inr (st2\<lparr>nc_ip := ip3, bit_count := bc3, nc_bits := bs3\<rparr>)"
    and w3: "nc_window src (st2\<lparr>nc_ip := ip3, bit_count := bc3, nc_bits := bs3\<rparr>)" by auto
  moreover have "nc_sums m log (st2\<lparr>nc_ip := ip3, bit_count := bc3, nc_bits := bs3\<rparr>)"
    "\<not> (rem < threshold st \<and> rem \<le> 1) \<Longrightarrow> nc_top log (st2\<lparr>nc_ip := ip3, bit_count := bc3, nc_bits := bs3\<rparr>)"
    using s2 t2 by (simp_all add: nc_sums_def nc_top_def)
  ultimately show ?thesis using z s1 s2 i1 i2 c1 by (auto simp: nc_window_def)
qed

lemma nc_loop_ok:
  assumes "8 \<le> length src" and "log \<le> 20"
  shows "nc_window src st \<Longrightarrow> nc_sums m log st \<Longrightarrow> nc_top log st \<Longrightarrow> charnum st < m \<Longrightarrow>
    \<exists>st'. nc_loop src m st = Inr st' \<and> nc_sums m log st' \<and> nc_ip st' + 4 \<le> length src"
proof (induction "m - charnum st" arbitrary: st rule: less_induct)
  case less
  from nc_zero_run_ok [OF assms(1) less.prems] obtain b1 st1 where
    1: "nc_zero_run src m st = Inr (b1, st1)" "nc_sums m log st1" "nc_top log st1" "nc_ip st1 + 4 \<le> length src"
    "\<not> b1 \<Longrightarrow> nc_window src st1 \<and> charnum st1 < m" by blast
  show ?case
  proof (cases b1)
    case True
    with 1 show ?thesis by (subst nc_loop.simps) auto
  next
    case False
    with 1 nc_count_ok [OF assms(1) _ 1(2,3) _ assms(2)] obtain b2 st2 where
      2: "nc_count src m st1 = Inr (b2, st2)" "nc_sums m log st2" "nc_ip st2 + 4 \<le> length src"
      "\<not> b2 \<Longrightarrow> nc_window src st2 \<and> nc_top log st2 \<and> charnum st2 < m" by blast
    show ?thesis
    proof (cases b2)
      case True
      with 1 2 False show ?thesis by (subst nc_loop.simps) auto
    next
      case b2: False
      have "m - charnum st2 < m - charnum st"
        using nc_zero_run_charnum [OF 1(1)] nc_count_charnum [of src m st1 st2] 2(1) b2 by auto
      with less.hyps [of st2] 2 b2 obtain st3 where
        "nc_loop src m st2 = Inr st3" "nc_sums m log st3" "nc_ip st3 + 4 \<le> length src" by blast
      with 1(1) 2(1) False b2 show ?thesis by (subst nc_loop.simps) auto
    qed
  qed
qed

lemma sum_take_zeros:
  "(\<forall>i < length cs. n \<le> i \<longrightarrow> cs ! i = 0) \<Longrightarrow> (\<Sum>c\<leftarrow>take n cs. cell_count c) = (\<Sum>c\<leftarrow>cs. cell_count c)"
proof -
  assume a: "\<forall>i < length cs. n \<le> i \<longrightarrow> cs ! i = 0"
  have "\<forall>x \<in> set (drop n cs). x = 0" using a by (auto simp: in_set_conv_nth)
  then have "(\<Sum>c\<leftarrow>drop n cs. cell_count c) = 0" by (simp add: cell_count_def)
  moreover have "(\<Sum>c\<leftarrow>cs. cell_count c) = (\<Sum>c\<leftarrow>take n cs @ drop n cs. cell_count c)" by simp
  ultimately show ?thesis by (simp only: map_append sum_list_append)
qed

definition nc_good :: "fse_table \<Rightarrow> nat \<Rightarrow> nat \<Rightarrow> fse_table \<times> nat \<Rightarrow> bool" where
  "nc_good t len max_log r \<longleftrightarrow> (case r of (t', n) \<Rightarrow>
     n \<le> len \<and> 5 \<le> accuracy_log t' \<and> accuracy_log t' \<le> max_log
     \<and> fse_tiles (accuracy_log t') (symbol_probabilities t')
     \<and> length (symbol_probabilities t') \<le> max_symbol t + 1 \<and> max_symbol t' = max_symbol t)"

lemma read_ncount_body_cases:
  assumes "8 \<le> length src"
  shows "(\<exists>e. read_ncount_body t src max_log = Inl (Err (FseError e))) \<or>
    (\<exists>r. read_ncount_body t src max_log = Inr r \<and> nc_good t (length src) max_log r)"
proof -
  define w where "w = (word_of_nat (le_nat (take 4 src)) :: u32)"
  define log where "log = unat (w AND 0xF) + ACC_LOG_OFFSET"
  define m where "m = max_symbol t + 1"
  define st0 where "st0 = \<lparr>nc_ip = 0, nc_bits = drop_bit 4 w, bit_count = 4, nb_bits = log + 1,
         remaining = 2 ^ log + 1, threshold = 2 ^ log, charnum = 0,
         counts = replicate m 0, previous0 = False\<rparr>"
  have "unat (w AND 0xF) < 16"
    using unat_and_mask [of 4 w] take_bit_bound [of 4 "unat w"] by simp
  then have lg: "5 \<le> log" "log \<le> 20" by (auto simp: log_def ACC_LOG_OFFSET_def)
  have two: "(2::int) \<le> 2 ^ log" using lg power_increasing [of 1 log "2::int"] by simp
  have r: "read32 src 0 = Inr w" using assms by (simp add: read32_ok w_def)
  have "nc_window src st0" using assms by (simp add: nc_window_def st0_def w_def)
  moreover have "nc_sums m log st0" by (simp add: nc_sums_def st0_def cell_count_def sum_list_replicate)
  moreover have "nc_top log st0" using two by (simp add: nc_top_def st0_def)
  moreover have "charnum st0 < m" by (simp add: st0_def m_def)
  ultimately obtain st where st: "nc_loop src m st0 = Inr st" "nc_sums m log st" "nc_ip st + 4 \<le> length src"
    using nc_loop_ok [OF assms lg(2)] by blast
  have body: "read_ncount_body t src max_log = (if max_log < log then Inl (Err (FseError (FseAccuracyLog log max_log)))
      else if remaining st \<noteq> 1 then Inl (Err (FseError (FseUnassigned (remaining st - 1) (2 ^ log))))
      else if m < charnum st then Inl (Err (FseError (FseTooManySymbols (charnum st))))
      else if 32 < bit_count st then Inl (Err (FseError FsePastInput))
      else Inr (t\<lparr>accuracy_log := log, symbol_probabilities := take (charnum st) (counts st)\<rparr>,
                nc_ip st + (bit_count st + 7) div 8))"
    unfolding read_ncount_body_def Let_def r res_bind_simps m_def [symmetric] log_def [symmetric]
      st0_def [symmetric] st(1) using assms by simp
  show ?thesis
  proof (cases "max_log < log \<or> remaining st \<noteq> 1 \<or> m < charnum st \<or> 32 < bit_count st")
    case True
    then show ?thesis unfolding body by auto
  next
    case False
    have "fse_tiles log (take (charnum st) (counts st))"
      unfolding fse_tiles_def
    proof
      show "\<forall>c \<in> set (take (charnum st) (counts st)). -1 \<le> c"
        using st(2) by (auto simp: nc_sums_def dest: in_set_takeD)
      have "int (\<Sum>c\<leftarrow>counts st. cell_count c) = int (2 ^ log)" using st(2) False by (simp add: nc_sums_def)
      then show "(\<Sum>c\<leftarrow>take (charnum st) (counts st). cell_count c) = 2 ^ log"
        using sum_take_zeros [of "counts st" "charnum st"] st(2) by (simp add: nc_sums_def)
    qed
    moreover have "(bit_count st + 7) div 8 \<le> 4" using False by auto
    ultimately show ?thesis unfolding body using False lg st
      by (simp add: nc_good_def m_def nc_sums_def)
  qed
qed

lemma read_probabilities_cases:
  "(\<exists>e. read_probabilities t src max_log = Inl (Err (FseError e))) \<or>
   (\<exists>r. read_probabilities t src max_log = Inr r \<and> nc_good t (length src) max_log r)"
proof (cases "length src < 8")
  case True
  let ?src = "src @ replicate (8 - length src) 0"
  have "8 \<le> length ?src" using True by simp
  from read_ncount_body_cases [OF this, of t max_log] consider
    (err) e where "read_ncount_body t ?src max_log = Inl (Err (FseError e))"
  | (ok) t1 n where "read_ncount_body t ?src max_log = Inr (t1, n)" "nc_good t (length ?src) max_log (t1, n)"
    by auto
  then show ?thesis
  proof cases
    case ok
    with True show ?thesis by (cases "n \<le> length src") (auto simp: read_probabilities_def nc_good_def)
  qed (use True in \<open>simp add: read_probabilities_def\<close>)
next
  case False
  then show ?thesis using read_ncount_body_cases [of src t max_log] by (simp add: read_probabilities_def)
qed

text \<open>C11: reading a table description is total and yields a tiling.  For every source and every
  accuracy-log limit, \<open>read_probabilities\<close> ends without panic in an FSE error, or with a table
  whose accuracy log is between 5 and the limit, whose counts are at least \<open>-1\<close>, cover at most
  the symbols up to the maximum and add up to exactly the table size, and with a header length
  within the source.\<close>

theorem read_probabilities_total:
  "case read_probabilities t src max_log of
     Inl e \<Rightarrow> \<exists>f. e = Err (FseError f)
   | Inr (t', n) \<Rightarrow> n \<le> length src \<and> 5 \<le> accuracy_log t' \<and> accuracy_log t' \<le> max_log
       \<and> fse_tiles (accuracy_log t') (symbol_probabilities t')
       \<and> length (symbol_probabilities t') \<le> max_symbol t + 1 \<and> max_symbol t' = max_symbol t"
  using read_probabilities_cases [of t src max_log] by (auto simp: nc_good_def)

lemma fse_build_decoder_cases:
  assumes "max_log \<le> 9" and "max_symbol t \<le> 255" and "codes_cover codes (max_symbol t + 1)"
  shows "(\<exists>e. fse_build_decoder t src max_log codes = Inl (Err (FseError e))) \<or>
    (\<exists>t' n syms. fse_build_decoder t src max_log codes = Inr (t', n) \<and> n \<le> length src \<and> fse_wf t'
      \<and> max_symbol t' = max_symbol t \<and> accuracy_log t' \<le> max_log
      \<and> length (symbol_probabilities t') \<le> max_symbol t + 1
      \<and> 2 \<le> length (filter (\<lambda>c. c \<noteq> 0) (symbol_probabilities t'))
      \<and> fse_cells codes (accuracy_log t') (symbol_probabilities t') (take (tsize t') (cells t')) syms)"
proof -
  let ?t0 = "fse_reset t"
  have ms: "max_symbol ?t0 = max_symbol t" by (simp add: fse_reset_def)
  from read_probabilities_cases [of ?t0 src max_log] consider
    (err) e where "read_probabilities ?t0 src max_log = Inl (Err (FseError e))"
  | (ok) t1 n where "read_probabilities ?t0 src max_log = Inr (t1, n)" "nc_good ?t0 (length src) max_log (t1, n)"
    by auto
  then show ?thesis
  proof cases
    case err
    then show ?thesis by (simp add: fse_build_decoder_def)
  next
    case ok
    show ?thesis
    proof (cases "length (filter (\<lambda>c. c \<noteq> 0) (symbol_probabilities t1)) < 2")
      case True
      with ok(1) show ?thesis by (simp add: fse_build_decoder_def)
    next
      case False
      have "codes_cover codes (length (symbol_probabilities t1))"
        using assms(3) ok(2) ms by (auto simp: codes_cover_def nc_good_def split: option.splits)
      then obtain t' syms where t': "build_decoding_table codes t1 = Inr t'" "fse_wf t'"
        "max_symbol t' = max_symbol t1" "accuracy_log t' = accuracy_log t1"
        "symbol_probabilities t' = symbol_probabilities t1"
        "fse_cells codes (accuracy_log t1) (symbol_probabilities t1) (take (tsize t') (cells t')) syms"
        using fse_wf_built [of t1 codes] ok(2) assms(1,2) ms by (auto simp: nc_good_def)
      have "fse_build_decoder t src max_log codes = Inr (t', n)"
        using ok(1) False t'(1) by (simp add: fse_build_decoder_def)
      moreover have "n \<le> length src" "max_symbol t' = max_symbol t" "accuracy_log t' \<le> max_log"
        "length (symbol_probabilities t') \<le> max_symbol t + 1"
        using ok(2) t' ms by (auto simp: nc_good_def)
      ultimately show ?thesis using t' False by (metis not_less)
    qed
  qed
qed

text \<open>C10: \<open>FSETable::build_decoder\<close> is total and builds well-formed tables only.  With an accuracy-log
  limit of at most 9 and code tables that cover the symbols, every input either gives one of the FSE
  errors or a table of at least two symbols with nonzero probability whose every state is a valid
  index and whose cells realise the counts read; no input makes it panic or loop.\<close>

theorem fse_build_decoder_total:
  assumes "max_log \<le> 9" and "max_symbol t \<le> 255" and "codes_cover codes (max_symbol t + 1)"
  shows "case fse_build_decoder t src max_log codes of
      Inl e \<Rightarrow> \<exists>f. e = Err (FseError f)
    | Inr (t', n) \<Rightarrow> n \<le> length src \<and> fse_wf t' \<and> accuracy_log t' \<le> max_log
        \<and> 2 \<le> length (filter (\<lambda>c. c \<noteq> 0) (symbol_probabilities t'))
        \<and> (\<exists>syms. fse_cells codes (accuracy_log t') (symbol_probabilities t') (take (tsize t') (cells t')) syms)"
  using fse_build_decoder_cases [OF assms, of src] by (elim disjE exE conjE) auto

theorem fse_build_decoder_total_witness:
  "\<exists>t'. fse_build_decoder (fse_new 12) [0x10, 0xB5, 0x3F, 0x2A] 6 None = Inr (t', 3) \<and> fse_wf t'"
proof -
  have "case fse_build_decoder (fse_new 12) [0x10, 0xB5, 0x3F, 0x2A] 6 None of
      Inl e \<Rightarrow> False | Inr (t', n) \<Rightarrow> n = 3" by code_simp
  then obtain t' where "fse_build_decoder (fse_new 12) [0x10, 0xB5, 0x3F, 0x2A] 6 None = Inr (t', 3)"
    by (auto split: sum.splits)
  with fse_build_decoder_total [of 6 "fse_new 12" None "[0x10, 0xB5, 0x3F, 0x2A]"] show ?thesis
    by (simp add: fse_new_def codes_cover_def)
qed

end
