(* ===== verification/Headers.thy ===== *)
theory Headers
  imports Bitstream Constants
begin

text \<open>
  The headers of the format as \<open>src/src/decode.rs\<close> parses them: frame header
  (\<open>FrameDescriptor\<close>, \<open>FrameHeader\<close>, \<open>parse_frame_header\<close>, \<open>frame_header_len\<close>), block header
  (\<open>parse_block_header\<close>, \<open>locate_block\<close>), literals section header (\<open>LiteralsSection::parse\<close>)
  and sequences section header (\<open>SequencesHeader::parse\<close>, \<open>CompressionModes\<close>).  Shifts and masks
  of single bytes are written as division and remainder of their values.  A parser of the frame
  header can also find a skippable frame, which the source reports through its error type.
\<close>

section \<open>Frame header\<close>

definition MIN_WINDOW_SIZE :: nat where "MIN_WINDOW_SIZE = 1024"
definition SKIPPABLE_FRAME_HEADER_LEN :: nat where "SKIPPABLE_FRAME_HEADER_LEN = 8"
definition FRAME_HEADER_PREFIX_LEN :: nat where "FRAME_HEADER_PREFIX_LEN = 5"

text \<open>A \<open>FrameDescriptor\<close> is its byte.\<close>

type_synonym frame_descriptor = nat

definition frame_content_size_flag :: "frame_descriptor \<Rightarrow> nat" where
  "frame_content_size_flag d = d div 64"

definition single_segment_flag :: "frame_descriptor \<Rightarrow> bool" where
  "single_segment_flag d \<longleftrightarrow> d div 32 mod 2 = 1"

definition content_checksum_flag :: "frame_descriptor \<Rightarrow> bool" where
  "content_checksum_flag d \<longleftrightarrow> d div 4 mod 2 = 1"

definition dict_id_flag :: "frame_descriptor \<Rightarrow> nat" where
  "dict_id_flag d = d mod 4"

definition frame_content_size_bytes :: "frame_descriptor \<Rightarrow> nat res" where
  "frame_content_size_bytes d =
     (let f = frame_content_size_flag d in
      if f = 0 then Inr (if single_segment_flag d then 1 else 0)
      else if f = 1 then Inr 2 else if f = 2 then Inr 4 else if f = 3 then Inr 8
      else Inl (Err (FrameError (FcsFlag f))))"

definition dictionary_id_bytes :: "frame_descriptor \<Rightarrow> nat res" where
  "dictionary_id_bytes d =
     (let f = dict_id_flag d in
      if f = 0 then Inr 0 else if f = 1 then Inr 1 else if f = 2 then Inr 2
      else if f = 3 then Inr 4 else Inl (Err (FrameError (DictIdFlag f))))"

record frame_header =
  fh_descriptor :: frame_descriptor
  window_descriptor :: nat
  frame_content_size :: "nat option"
  fh_dict_id :: nat

definition window_size :: "frame_header \<Rightarrow> nat res" where
  "window_size h =
     (if single_segment_flag (fh_descriptor h) then
        Inr (case frame_content_size h of None \<Rightarrow> 0 | Some n \<Rightarrow> n)
      else
        let exp = window_descriptor h div 8;
            mantissa = window_descriptor h mod 8;
            window_log = 10 + exp
        in if ZSTD_WINDOWLOG_MAX < window_log then Inl (Err (FrameError (WindowLogTooLarge window_log)))
           else
           let window_base = 2 ^ window_log;
               window_add = window_base div 8 * mantissa;
               size = window_base + window_add
           in if size < MIN_WINDOW_SIZE then Inl (Err (FrameError (WindowTooSmall size))) else Inr size)"

text \<open>\<open>FrameDecoderError\<close>: a message, or the size of a skippable frame (whose message is
  \<open>SkippableFrame\<close>).\<close>

datatype frame_decoder_error = HeaderFault fault | Skip nat

definition frame_header_error :: "frame_decoder_error \<Rightarrow> fault" where
  "frame_header_error e = (case e of HeaderFault f \<Rightarrow> f | Skip n \<Rightarrow> Err (FrameError (SkippableFrame n)))"

definition header_bind :: "'a res \<Rightarrow> ('a \<Rightarrow> frame_decoder_error + 'b) \<Rightarrow> frame_decoder_error + 'b" where
  "header_bind m f = (case m of Inl e \<Rightarrow> Inl (HeaderFault e) | Inr x \<Rightarrow> f x)"

text \<open>\<open>src.get(a..b).ok_or_else(...)\<close>.\<close>

definition get_or :: "frame_error \<Rightarrow> u8 list \<Rightarrow> nat \<Rightarrow> nat \<Rightarrow> u8 list res" where
  "get_or e src a b = (case get_range src a b of None \<Rightarrow> Inl (Err (FrameError e)) | Some bs \<Rightarrow> Inr bs)"

definition is_skippable_magic :: "nat \<Rightarrow> bool" where
  "is_skippable_magic m \<longleftrightarrow> 0x184D2A50 \<le> m \<and> m \<le> 0x184D2A5F"

definition parse_frame_header :: "u8 list \<Rightarrow> frame_decoder_error + (frame_header \<times> nat)" where
  "parse_frame_header src =
     header_bind (get_or MagicTruncated src 0 4) (\<lambda>m.
     let magic_num = le_nat m in
     if is_skippable_magic magic_num then
       header_bind (get_or SkipSizeTruncated src 4 8) (\<lambda>n. Inl (Skip (le_nat n)))
     else if magic_num \<noteq> ZSTD_MAGIC then Inl (HeaderFault (Err (FrameError (BadMagic magic_num))))
     else
     header_bind (get_or DescriptorTruncated src 4 5) (\<lambda>db.
     let desc = unat (hd db); pos = 5 in
     if desc div 8 mod 2 \<noteq> 0 then Inl (HeaderFault (Err (FrameError (ReservedBit (hd db)))))
     else
     header_bind (if single_segment_flag desc then Inr (0, pos)
       else res_bind (get_or WindowTruncated src pos (pos + 1)) (\<lambda>w. Inr (unat (hd w), pos + 1)))
       (\<lambda>(window, pos).
     header_bind (dictionary_id_bytes desc) (\<lambda>dict_id_len.
     header_bind (get_or DictIdTruncated src pos (pos + dict_id_len)) (\<lambda>dict_id.
     let pos = pos + dict_id_len;
         did = foldl (\<lambda>i b. (i * 256 + unat b) mod 2 ^ 32) 0 (rev dict_id)
     in
     header_bind (frame_content_size_bytes desc) (\<lambda>fcs_len.
     header_bind
       (if fcs_len \<noteq> 0 then
          res_bind (get_or ContentSizeTruncated src pos (pos + fcs_len)) (\<lambda>bs.
          Inr (Some (le_nat bs + (if fcs_len = 2 then 256 else 0)), pos + fcs_len))
        else Inr (None, pos)) (\<lambda>(fcs, pos).
     Inr (\<lparr>fh_descriptor = desc, window_descriptor = window, frame_content_size = fcs,
           fh_dict_id = did\<rparr>, pos))))))))"

definition frame_header_len :: "u8 list \<Rightarrow> nat" where
  "frame_header_len head =
     (case get_range head 0 FRAME_HEADER_PREFIX_LEN of
        None \<Rightarrow> FRAME_HEADER_PREFIX_LEN
      | Some p \<Rightarrow>
          let magic = le_nat (take 4 p) in
          if is_skippable_magic magic then SKIPPABLE_FRAME_HEADER_LEN
          else if magic \<noteq> ZSTD_MAGIC then FRAME_HEADER_PREFIX_LEN
          else
          let d = unat (p ! 4) in
          FRAME_HEADER_PREFIX_LEN + (if single_segment_flag d then 0 else 1)
            + (case dictionary_id_bytes d of Inr n \<Rightarrow> n | Inl _ \<Rightarrow> 0)
            + (case frame_content_size_bytes d of Inr n \<Rightarrow> n | Inl _ \<Rightarrow> 0))"

section \<open>Block header\<close>

datatype block_type = RawBlock | RleBlock | CompressedBlock | ReservedBlock

record block_header =
  last_block :: bool
  block_type :: block_type
  decompressed_size :: nat
  content_size :: nat

definition BLOCK_HEADER_LEN :: nat where "BLOCK_HEADER_LEN = 3"

definition parse_block_header :: "u8 list \<Rightarrow> nat \<Rightarrow> block_header res" where
  "parse_block_header src block_size_max =
     (case get_range src 0 3 of
        None \<Rightarrow> Inl (Err (SectionError BlockTruncated))
      | Some buf \<Rightarrow>
          let b0 = unat (buf ! 0); b1 = unat (buf ! 1); b2 = unat (buf ! 2);
              last = (b0 mod 2 = 1);
              raw = b0 div 2 mod 4;
              bt = (if raw = 0 then RawBlock else if raw = 1 then RleBlock
                    else if raw = 2 then CompressedBlock else ReservedBlock)
          in if bt = ReservedBlock then Inl (Err (SectionError BlockReserved))
             else
             let block_size = b0 div 8 OR push_bit 5 b1 OR push_bit 13 b2 in
             if block_size_max < block_size
             then Inl (Err (SectionError (BlockSizeMax block_size block_size_max)))
             else Inr \<lparr>last_block = last, block_type = bt,
               decompressed_size = (case bt of RawBlock \<Rightarrow> block_size | RleBlock \<Rightarrow> block_size
                 | CompressedBlock \<Rightarrow> 0 | ReservedBlock \<Rightarrow> 0),
               content_size = (case bt of RawBlock \<Rightarrow> block_size | CompressedBlock \<Rightarrow> block_size
                 | RleBlock \<Rightarrow> 1 | ReservedBlock \<Rightarrow> 0)\<rparr>)"

definition locate_block :: "u8 list \<Rightarrow> nat \<Rightarrow> (block_header \<times> u8 list) option" where
  "locate_block src block_size_max =
     (case get_range src 0 BLOCK_HEADER_LEN of
        None \<Rightarrow> None
      | Some h \<Rightarrow>
        (case parse_block_header h block_size_max of
           Inl _ \<Rightarrow> None
         | Inr block \<Rightarrow>
           (case get_range src BLOCK_HEADER_LEN (BLOCK_HEADER_LEN + content_size block) of
              None \<Rightarrow> None
            | Some content \<Rightarrow> Some (block, content))))"

section \<open>Literals section header\<close>

datatype literals_type = RawLits | RleLits | CompressedLits | TreelessLits

record literals_section =
  regenerated_size :: nat
  ls_content_size :: nat
  ls_type :: literals_type
  four_streams :: bool

definition literals_header_len :: "literals_type \<Rightarrow> nat \<Rightarrow> nat" where
  "literals_header_len ty size_format =
     (if ty = RawLits \<or> ty = RleLits then
        (if size_format = 0 \<or> size_format = 2 then 1 else if size_format = 1 then 2 else 3)
      else if size_format = 0 \<or> size_format = 1 then 3 else if size_format = 2 then 4 else 5)"

definition literals_parse :: "u8 list \<Rightarrow> (literals_section \<times> nat) res" where
  "literals_parse raw =
     (case raw of
        [] \<Rightarrow> Inl (Err (SectionError (LiteralsHeader (length raw) 1)))
      | first # _ \<Rightarrow>
        let f = unat first mod 4;
            ty = (if f = 0 then RawLits else if f = 1 then RleLits
                  else if f = 2 then CompressedLits else TreelessLits);
            size_format = unat first div 4 mod 4;
            len = literals_header_len ty size_format
        in case get_range raw 0 len of
             None \<Rightarrow> Inl (Err (SectionError (LiteralsHeader (length raw) len)))
           | Some h \<Rightarrow>
             let b = (\<lambda>i. unat (h ! i)) in
             if ty = RawLits \<or> ty = RleLits then
               let size = (if len = 1 then b 0 div 8 else if len = 2 then b 0 div 16 + b 1 * 16
                           else b 0 div 16 + b 1 * 16 + b 2 * 4096);
                   content = (if ty = RleLits then 1 else size)
               in Inr (\<lparr>regenerated_size = size, ls_content_size = content, ls_type = ty,
                        four_streams = False\<rparr>, len)
             else
               let (size, compressed) =
                 (if len = 3 then (b 0 div 16 + b 1 mod 64 * 16, b 1 div 64 + b 2 * 4)
                  else if len = 4 then
                    (b 0 div 16 + b 1 * 16 + b 2 mod 4 * 4096, b 2 div 4 + b 3 * 64)
                  else (b 0 div 16 + b 1 * 16 + b 2 mod 64 * 4096, b 2 div 64 + b 3 * 4 + b 4 * 1024))
               in Inr (\<lparr>regenerated_size = size, ls_content_size = compressed, ls_type = ty,
                        four_streams = (size_format \<noteq> 0)\<rparr>, len))"

section \<open>Sequences section header\<close>

datatype mode_type = Predefined | RleMode | FseCompressed | RepeatMode

text \<open>\<open>CompressionModes\<close> is its byte.\<close>

type_synonym compression_modes = nat

definition modes_new :: "u8 \<Rightarrow> compression_modes res" where
  "modes_new byte =
     (if unat byte mod 4 \<noteq> 0 then Inl (Err (SectionError (SequencesModes byte))) else Inr (unat byte))"

definition decode_mode :: "nat \<Rightarrow> mode_type res" where
  "decode_mode m =
     (if m = 0 then Inr Predefined else if m = 1 then Inr RleMode else if m = 2 then Inr FseCompressed
      else if m = 3 then Inr RepeatMode else Inl Panic)"

definition ll_mode :: "compression_modes \<Rightarrow> mode_type res" where
  "ll_mode m = decode_mode (m div 64)"

definition of_mode :: "compression_modes \<Rightarrow> mode_type res" where
  "of_mode m = decode_mode (m div 16 mod 4)"

definition ml_mode :: "compression_modes \<Rightarrow> mode_type res" where
  "ml_mode m = decode_mode (m div 4 mod 4)"

record sequences_header =
  num_sequences :: nat
  sh_modes :: compression_modes

definition sequences_count :: "u8 list \<Rightarrow> (nat \<times> nat) res" where
  "sequences_count source =
     (let short = (\<lambda>need. Inl (Err (SectionError (SequencesShort (length source) need)))) in
      case source of
        [] \<Rightarrow> Inl (Err (SectionError SequencesEmpty))
      | n # rest \<Rightarrow>
        if unat n \<le> 127 then Inr (unat n, 1)
        else if unat n \<le> 254 then
          (case rest of [] \<Rightarrow> short 2
           | low # _ \<Rightarrow> Inr ((unat n - 128) * 256 + unat low, 2))
        else (case rest of
             low # high # _ \<Rightarrow> Inr (unat low + unat high * 256 + 0x7F00, 3)
           | _ \<Rightarrow> short 4))"

definition sequences_parse :: "u8 list \<Rightarrow> (sequences_header \<times> nat) res" where
  "sequences_parse source =
     res_bind (sequences_count source) (\<lambda>(n, len).
     res_bind
       (if n = 0 then Inr 0
        else (case get_range source len (len + 1) of
                None \<Rightarrow> Inl (Err (SectionError (SequencesShort (length source) (len + 1))))
              | Some b \<Rightarrow> modes_new (hd b))) (\<lambda>modes.
     Inr (\<lparr>num_sequences = n, sh_modes = modes\<rparr>, len + (if n \<noteq> 0 then 1 else 0))))"

section \<open>Properties of the frame header parser\<close>

lemma header_bind_simps [simp]:
  "header_bind (Inl e) f = Inl (HeaderFault e)" "header_bind (Inr x) f = f x"
  by (simp_all add: header_bind_def)

lemma get_or_eq:
  "get_or e src a b = (if a \<le> b \<and> b \<le> length src then Inr (take (b - a) (drop a src)) else Inl (Err (FrameError e)))"
  by (simp add: get_or_def get_range_def)

lemma dictionary_id_bytes_Inr: "\<exists>n. dictionary_id_bytes d = Inr n \<and> n \<le> 4"
proof -
  have "d mod 4 = 0 \<or> d mod 4 = 1 \<or> d mod 4 = 2 \<or> d mod 4 = 3" by auto
  then show ?thesis by (auto simp: dictionary_id_bytes_def dict_id_flag_def)
qed

lemma frame_content_size_bytes_Inr: "d < 256 \<Longrightarrow> \<exists>n. frame_content_size_bytes d = Inr n \<and> n \<le> 8"
proof -
  assume "d < 256"
  then have "d div 64 < 4" by auto
  then have "d div 64 = 0 \<or> d div 64 = 1 \<or> d div 64 = 2 \<or> d div 64 = 3" by auto
  then show ?thesis by (auto simp: frame_content_size_bytes_def frame_content_size_flag_def)
qed

lemma unat_u8_less: "unat (b :: u8) < 256"
  using unsigned_less [of b] by simp

definition header_len :: "nat \<Rightarrow> nat" where
  "header_len d = 5 + (if single_segment_flag d then 0 else 1)
     + projr (dictionary_id_bytes d) + projr (frame_content_size_bytes d)"

text \<open>The fields a complete header has.\<close>

definition header_fields :: "u8 list \<Rightarrow> nat \<Rightarrow> frame_header" where
  "header_fields src d =
     (let p = (if single_segment_flag d then 5 else 6);
          dl = projr (dictionary_id_bytes d); fl = projr (frame_content_size_bytes d)
      in \<lparr>fh_descriptor = d,
          window_descriptor = (if single_segment_flag d then 0 else unat (src ! 5)),
          frame_content_size =
            (if fl = 0 then None
             else Some (le_nat (take fl (drop (p + dl) src)) + (if fl = 2 then 256 else 0))),
          fh_dict_id = le_nat (take dl (drop p src))\<rparr>)"

lemma dict_id_fold:
  "length bs \<le> 4 \<Longrightarrow> foldl (\<lambda>i b. (i * 256 + unat b) mod 2 ^ 32) 0 (rev bs) = le_nat (bs :: u8 list)"
proof (induction bs)
  case Nil
  then show ?case by simp
next
  case (Cons b bs)
  have "le_nat (b # bs) < 256 ^ length (b # bs)" by (rule le_nat_bound)
  also have "(256::nat) ^ length (b # bs) \<le> 256 ^ 4" using Cons.prems by (intro power_increasing) auto
  finally have "le_nat bs * 256 + unat b < 2 ^ 32" by simp
  moreover have "foldl (\<lambda>i b. (i * 256 + unat b) mod 2 ^ 32) 0 (rev bs) = le_nat bs" using Cons by simp
  ultimately show ?case by simp
qed

lemma parse_complete:
  assumes "le_nat (take 4 src) = ZSTD_MAGIC" and "d = unat (src ! 4)" and "d div 8 mod 2 = 0" and "5 \<le> length src"
  shows "parse_frame_header src =
    (if header_len d \<le> length src then Inr (header_fields src d, header_len d)
     else if \<not> single_segment_flag d \<and> length src < 6 then Inl (HeaderFault (Err (FrameError WindowTruncated)))
     else if length src < header_len d - projr (frame_content_size_bytes d)
       then Inl (HeaderFault (Err (FrameError DictIdTruncated)))
     else Inl (HeaderFault (Err (FrameError ContentSizeTruncated))))"
proof -
  have "d < 256" unfolding assms(2) by (rule unat_u8_less)
  then obtain dl fl where b: "dictionary_id_bytes d = Inr dl" "dl \<le> 4" "frame_content_size_bytes d = Inr fl"
    using dictionary_id_bytes_Inr frame_content_size_bytes_Inr by metis
  have m: "\<not> is_skippable_magic ZSTD_MAGIC" by (simp add: is_skippable_magic_def ZSTD_MAGIC_def)
  have h: "hd (drop 4 src) = src ! 4" using assms(4) by (simp add: hd_drop_conv_nth)
  have f: "foldl (\<lambda>i b. (i * 256 + unat b) mod 2 ^ 32) 0 (rev (take dl (drop p src))) = le_nat (take dl (drop p src))"
    for p using b(2) by (intro dict_id_fold) simp
  show ?thesis
  proof (cases "single_segment_flag d")
    case True
    then show ?thesis
      using assms b m h
      by (simp add: parse_frame_header_def get_or_eq header_len_def header_fields_def Let_def f [simplified])
  next
    case False
    then show ?thesis
      using assms b m h
      by (simp add: parse_frame_header_def get_or_eq header_len_def header_fields_def Let_def hd_drop_conv_nth f [simplified])
  qed
qed

lemma frame_header_len_magic:
  assumes "le_nat (take 4 src) = ZSTD_MAGIC" and "5 \<le> length src"
  shows "frame_header_len src = header_len (unat (src ! 4))"
proof -
  have m: "\<not> is_skippable_magic ZSTD_MAGIC" by (simp add: is_skippable_magic_def ZSTD_MAGIC_def)
  obtain dl fl where "dictionary_id_bytes (unat (src ! 4)) = Inr dl" "frame_content_size_bytes (unat (src ! 4)) = Inr fl"
    using dictionary_id_bytes_Inr frame_content_size_bytes_Inr [OF unat_u8_less [of "src ! 4"]] by metis
  with assms m show ?thesis
    by (simp add: frame_header_len_def get_range_def FRAME_HEADER_PREFIX_LEN_def header_len_def Let_def)
qed

definition header_truncated :: "frame_decoder_error + 'a \<Rightarrow> bool" where
  "header_truncated r \<longleftrightarrow> r \<in> (\<lambda>e. Inl (HeaderFault (Err (FrameError e)))) `
     {MagicTruncated, SkipSizeTruncated, DescriptorTruncated, WindowTruncated, DictIdTruncated, ContentSizeTruncated}"

lemma frame_header_len_ok:
  "if frame_header_len head \<le> length head
   then \<not> header_truncated (parse_frame_header head) \<and> parse_frame_header (head @ rest) = parse_frame_header head
     \<and> (\<forall>h pos. parse_frame_header head = Inr (h, pos) \<longrightarrow> pos = frame_header_len head)
   else \<forall>h pos. parse_frame_header head \<noteq> Inr (h, pos)"
proof (cases "5 \<le> length head")
  case False
  then have "frame_header_len head = 5" by (simp add: frame_header_len_def get_range_def FRAME_HEADER_PREFIX_LEN_def)
  with False show ?thesis
    by (auto simp: parse_frame_header_def get_or_eq Let_def)
next
  case True
  let ?m = "le_nat (take 4 head)" and ?d = "unat (head ! 4)"
  have ta: "take 4 (head @ rest) = take 4 head" "(head @ rest) ! 4 = head ! 4"
    using True by (simp_all add: nth_append)
  consider (skip) "is_skippable_magic ?m" | (bad) "\<not> is_skippable_magic ?m" "?m \<noteq> ZSTD_MAGIC"
    | (res) "?m = ZSTD_MAGIC" "?d div 8 mod 2 \<noteq> 0" | (ok) "?m = ZSTD_MAGIC" "?d div 8 mod 2 = 0" by blast
  then show ?thesis
  proof cases
    case skip
    then have "frame_header_len head = 8"
      using True by (simp add: frame_header_len_def get_range_def FRAME_HEADER_PREFIX_LEN_def SKIPPABLE_FRAME_HEADER_LEN_def Let_def)
    with skip True ta show ?thesis
      by (auto simp: parse_frame_header_def get_or_eq Let_def header_truncated_def)
  next
    case bad
    with True ta show ?thesis
      by (auto simp: parse_frame_header_def get_or_eq Let_def header_truncated_def)
  next
    case res
    have m: "\<not> is_skippable_magic ZSTD_MAGIC" by (simp add: is_skippable_magic_def ZSTD_MAGIC_def)
    have h: "hd (drop 4 head) = head ! 4" "hd (drop 4 head @ rest) = head ! 4"
      using True by (simp_all add: hd_append hd_drop_conv_nth)
    from res m h True ta show ?thesis
      by (auto simp: parse_frame_header_def get_or_eq Let_def header_truncated_def)
  next
    case ok
    have l: "frame_header_len head = header_len ?d" using ok(1) True by (rule frame_header_len_magic)
    show ?thesis
    proof (cases "header_len ?d \<le> length head")
      case True
      have len: "5 \<le> length head" by fact
      have "header_fields (head @ rest) ?d = header_fields head ?d"
        using True len by (auto simp: header_fields_def header_len_def Let_def nth_append)
      then show ?thesis
        using True l ok len ta parse_complete [OF ok(1) refl ok(2) len]
          parse_complete [of "head @ rest" ?d] by (auto simp: header_truncated_def)
    next
      case False
      then show ?thesis using l parse_complete [OF ok(1) refl ok(2) \<open>5 \<le> length head\<close>] by auto
    qed
  qed
qed

text \<open>C14: \<open>frame_header_len\<close> is exactly what \<open>parse_frame_header\<close> needs.  Once a head has that many bytes,
  the parser no longer reports a truncation and later bytes do not change its result; a header it
  accepts ends exactly there; and with fewer bytes it never accepts.\<close>

theorem frame_header_len_exact:
  "if frame_header_len head \<le> length head
   then \<not> header_truncated (parse_frame_header head) \<and> parse_frame_header (head @ rest) = parse_frame_header head
     \<and> (\<forall>h pos. parse_frame_header head = Inr (h, pos) \<longrightarrow> pos = frame_header_len head)
   else \<forall>h pos. parse_frame_header head \<noteq> Inr (h, pos)"
  by (rule frame_header_len_ok)

theorem frame_header_len_exact_witness:
  "frame_header_len [0x28, 0xB5, 0x2F, 0xFD, 0x24, 100] = 6
    \<and> \<not> header_truncated (parse_frame_header [0x28, 0xB5, 0x2F, 0xFD, 0x24, 100])
    \<and> parse_frame_header ([0x28, 0xB5, 0x2F, 0xFD, 0x24, 100] @ [7])
        = parse_frame_header [0x28, 0xB5, 0x2F, 0xFD, 0x24, 100]"
proof -
  have "frame_header_len [0x28, 0xB5, 0x2F, 0xFD, 0x24, 100] = 6" by code_simp
  with frame_header_len_exact [of "[0x28, 0xB5, 0x2F, 0xFD, 0x24, 100]" "[7]"] show ?thesis by simp
qed

end
