(* ===== verification/Header_Write.thy ===== *)
theory Header_Write
  imports Headers Xxhash
begin

text \<open>
  The encoder's side of the headers: \<open>write_frame_header\<close> (\<open>src/src/compress/mod.rs\<close>), the block
  writers and \<open>is_rle\<close> (\<open>src/src/compress/block.rs\<close>), the literals section writers and the
  Huffman literals header (\<open>src/src/huf.rs\<close>) and the sequence count (\<open>src/src/fse.rs\<close>).  Each
  writer appends to a vector.  The theorems are round trips with the parsers of \<open>Headers\<close>.
\<close>

section \<open>Writers\<close>

definition ZSTD_WINDOWLOG_ABSOLUTEMIN :: nat where "ZSTD_WINDOWLOG_ABSOLUTEMIN = 10"
definition BLOCK_TYPE_RAW :: nat where "BLOCK_TYPE_RAW = 0"
definition BLOCK_TYPE_RLE :: nat where "BLOCK_TYPE_RLE = 1"
definition BLOCK_TYPE_COMPRESSED :: nat where "BLOCK_TYPE_COMPRESSED = 2"
definition LIT_TYPE_RAW :: nat where "LIT_TYPE_RAW = 0"
definition LIT_TYPE_RLE :: nat where "LIT_TYPE_RLE = 1"
definition LIT_TYPE_COMPRESSED :: nat where "LIT_TYPE_COMPRESSED = 2"
definition LIT_TYPE_TREELESS :: nat where "LIT_TYPE_TREELESS = 3"
definition LONGNBSEQ :: nat where "LONGNBSEQ = 0x7F00"

definition write_frame_header :: "u8 list \<Rightarrow> nat option \<Rightarrow> nat \<Rightarrow> bool \<Rightarrow> nat \<Rightarrow> u8 list" where
  "write_frame_header out content window_log checksum dict_id =
     (let window_size = 2 ^ window_log;
          single_segment = (case content of None \<Rightarrow> False | Some n \<Rightarrow> n \<le> window_size);
          fcs_code = (case content of None \<Rightarrow> 0
            | Some n \<Rightarrow> of_bool (256 \<le> n) + of_bool (65536 + 256 \<le> n) + of_bool (0xFFFFFFFF \<le> n));
          n = (case content of None \<Rightarrow> 0 | Some n \<Rightarrow> n);
          dict_id_code = of_bool (0 < dict_id) + of_bool (256 \<le> dict_id) + of_bool (65536 \<le> dict_id);
          descriptor = (dict_id_code OR push_bit 2 (of_bool checksum) OR push_bit 5 (of_bool single_segment)
            OR push_bit 6 fcs_code) mod 256
      in out @ le_bytes 4 ZSTD_MAGIC @ [word_of_nat descriptor]
         @ (if single_segment then []
            else [word_of_nat (push_bit 3 (window_log - ZSTD_WINDOWLOG_ABSOLUTEMIN))])
         @ (if dict_id_code = 0 then [] else if dict_id_code = 1 then [word_of_nat dict_id]
            else if dict_id_code = 2 then le_bytes 2 dict_id else le_bytes 4 dict_id)
         @ (if fcs_code = 0 then (if single_segment then [word_of_nat n] else [])
            else if fcs_code = (1::nat) then le_bytes 2 (n - 256)
            else if fcs_code = 2 then le_bytes 4 n else le_bytes 8 n))"

definition block_header_word :: "nat \<Rightarrow> nat \<Rightarrow> bool \<Rightarrow> nat" where
  "block_header_word ty n is_last =
     (of_bool is_last OR push_bit 1 ty OR push_bit 3 (n mod 2 ^ 32)) mod 2 ^ 32"

definition write_raw_block :: "u8 list \<Rightarrow> u8 list \<Rightarrow> bool \<Rightarrow> u8 list" where
  "write_raw_block out data is_last =
     out @ take 3 (le_bytes 4 (block_header_word BLOCK_TYPE_RAW (length data) is_last)) @ data"

definition write_rle_block :: "u8 list \<Rightarrow> u8 \<Rightarrow> nat \<Rightarrow> bool \<Rightarrow> u8 list" where
  "write_rle_block out byte repeat_count is_last =
     out @ take 3 (le_bytes 4 (block_header_word BLOCK_TYPE_RLE repeat_count is_last)) @ [byte]"

definition write_compressed_block :: "u8 list \<Rightarrow> u8 list \<Rightarrow> bool \<Rightarrow> u8 list" where
  "write_compressed_block out compressed is_last =
     out @ take 3 (le_bytes 4 (block_header_word BLOCK_TYPE_COMPRESSED (length compressed) is_last))
       @ compressed"

text \<open>The header both literals writers share but for the type; \<open>as u8\<close>, \<open>as u16\<close> and \<open>as u32\<close>
  truncate.\<close>

definition plain_literals_header :: "nat \<Rightarrow> nat \<Rightarrow> u8 list" where
  "plain_literals_header ty n =
     (if n \<le> 31 then [word_of_nat (ty OR push_bit 3 (n mod 256))]
      else if n \<le> 4095 then le_bytes 2 (ty OR push_bit 2 1 OR push_bit 4 (n mod 2 ^ 16))
      else take 3 (le_bytes 4 (ty OR push_bit 2 3 OR push_bit 4 (n mod 2 ^ 32))))"

definition encode_literals_raw :: "u8 list \<Rightarrow> u8 list \<Rightarrow> u8 list" where
  "encode_literals_raw out literals =
     out @ plain_literals_header LIT_TYPE_RAW (length literals) @ literals"

definition encode_literals_rle :: "u8 list \<Rightarrow> u8 \<Rightarrow> nat \<Rightarrow> u8 list" where
  "encode_literals_rle out byte n = out @ plain_literals_header LIT_TYPE_RLE n @ [byte]"

definition literals_section_bound :: "nat \<Rightarrow> nat" where
  "literals_section_bound lit_len =
     lit_len + (1 + of_bool (31 < lit_len) + of_bool (4095 < lit_len))"

text \<open>The header \<open>compress_literals_with\<close> builds for a Huffman-coded section.\<close>

definition huf_literals_lh_size :: "nat \<Rightarrow> nat" where
  "huf_literals_lh_size src_size = 3 + of_bool (1024 \<le> src_size) + of_bool (16384 \<le> src_size)"

definition huf_literals_header :: "nat \<Rightarrow> bool \<Rightarrow> nat \<Rightarrow> nat \<Rightarrow> u8 list" where
  "huf_literals_header h_type single_stream src_size c_lit_size =
     (let s = src_size mod 2 ^ 32; c = c_lit_size mod 2 ^ 32 in
      if huf_literals_lh_size src_size = 3 then
        take 3 (le_bytes 4 (h_type OR push_bit 2 (of_bool (\<not> single_stream)) OR push_bit 4 s OR push_bit 14 c))
      else if huf_literals_lh_size src_size = 4 then
        le_bytes 4 (h_type OR push_bit 2 2 OR push_bit 4 s OR push_bit 18 c)
      else le_bytes 4 (h_type OR push_bit 2 3 OR push_bit 4 s OR push_bit 22 c)
        @ [word_of_nat (c_lit_size div 1024)])"

text \<open>The count at the start of a sequences section.\<close>

definition write_sequence_count :: "u8 list \<Rightarrow> nat \<Rightarrow> u8 list" where
  "write_sequence_count out nb_seq =
     (if nb_seq < 128 then out @ [word_of_nat nb_seq]
      else if nb_seq < LONGNBSEQ then out @ [word_of_nat (nb_seq div 256) + 0x80, word_of_nat nb_seq]
      else out @ 0xFF # le_bytes 2 (nb_seq - LONGNBSEQ))"

text \<open>\<open>write_epilogue\<close>.\<close>

definition write_epilogue :: "u8 list \<Rightarrow> xxh64 option \<Rightarrow> u8 list" where
  "write_epilogue out checksum =
     (case checksum of None \<Rightarrow> out | Some h \<Rightarrow> out @ le_bytes 4 (unat (xxh_digest h) mod 2 ^ 32))"

section \<open>Bytes of a number\<close>

lemma le_bytes_nth: "i < k \<Longrightarrow> unat (le_bytes k n ! i) = n div 256 ^ i mod 256"
proof (induction k arbitrary: n i)
  case (Suc k)
  show ?case
  proof (cases i)
    case 0
    then show ?thesis by (simp add: unat_of_nat)
  next
    case (Suc j)
    with Suc.IH [of j "n div 256"] Suc.prems show ?thesis by (simp add: div_mult2_eq)
  qed
qed simp

lemma or_fields:
  fixes a b c :: nat
  assumes "a < 2 ^ i" and "b < 2 ^ (j - i)" and "i \<le> j"
  shows "a OR push_bit i b OR push_bit j c = a + 2 ^ i * b + 2 ^ j * c"
proof -
  have 1: "a OR push_bit i b = a + 2 ^ i * b" by (rule nat_or_push [OF assms(1)])
  have "2 ^ i * (b + 1) \<le> 2 ^ i * (2::nat) ^ (j - i)" using assms(2) by (intro mult_le_mono2) simp
  also have "\<dots> = 2 ^ j" using assms(3) by (simp flip: power_add)
  finally have "a + 2 ^ i * b < 2 ^ j" using assms(1) by simp
  from nat_or_push [OF this, of c] show ?thesis by (simp add: 1 flip: or.assoc)
qed

section \<open>Block headers\<close>

lemma block_header_word_eq:
  assumes "ty < 4" and "n < 2 ^ 21"
  shows "block_header_word ty n is_last = of_bool is_last + 2 * ty + 8 * n"
proof -
  have "of_bool is_last OR push_bit 1 ty OR push_bit 3 n = of_bool is_last + 2 ^ 1 * ty + 2 ^ 3 * n"
    using assms(1) by (intro or_fields) auto
  then show ?thesis using assms by (simp add: block_header_word_def)
qed

text \<open>A number of three bytes from its bytes.\<close>

lemma list_of_length:
  "length xs = 2 \<Longrightarrow> \<exists>a b. xs = [a, b]"
  "length xs = 3 \<Longrightarrow> \<exists>a b c. xs = [a, b, c]"
  "length xs = 4 \<Longrightarrow> \<exists>a b c d. xs = [a, b, c, d]"
  "length xs = 5 \<Longrightarrow> \<exists>a b c d e. xs = [a, b, c, d, e]"
  by (auto simp: numeral_eq_Suc length_Suc_conv)

lemma le_bytes_num: "n < 256 ^ k \<Longrightarrow> le_bytes k n = bs \<Longrightarrow> n = le_nat bs"
  by (auto simp: le_nat_le_bytes)

lemma two_bytes:
  assumes "n < 2 ^ 16"
  shows "\<exists>b0 b1. le_bytes 2 n = [b0, b1] \<and> n = unat b0 + 256 * unat b1"
proof -
  obtain b0 b1 where "le_bytes 2 n = [b0, b1]" using list_of_length(1) [of "le_bytes 2 n"] length_le_bytes by blast
  with le_bytes_num [of n 2] assms show ?thesis by auto
qed

lemma three_bytes:
  assumes "n < 2 ^ 24"
  shows "\<exists>b0 b1 b2. le_bytes 3 n = [b0, b1, b2] \<and> n = unat b0 + 256 * (unat b1 + 256 * unat b2)"
proof -
  obtain b0 b1 b2 where b: "le_bytes 3 n = [b0, b1, b2]" using list_of_length(2) [of "le_bytes 3 n"] length_le_bytes by blast
  have "n = le_nat [b0, b1, b2]" using assms b by (intro le_bytes_num [of n 3]) simp_all
  with b show ?thesis by (intro exI [of _ b0] exI [of _ b1] exI [of _ b2]) simp
qed

lemma four_bytes:
  assumes "n < 2 ^ 32"
  shows "\<exists>b0 b1 b2 b3. le_bytes 4 n = [b0, b1, b2, b3]
    \<and> n = unat b0 + 256 * (unat b1 + 256 * (unat b2 + 256 * unat b3))"
proof -
  obtain b0 b1 b2 b3 where b: "le_bytes 4 n = [b0, b1, b2, b3]"
    using list_of_length(3) [of "le_bytes 4 n"] length_le_bytes by blast
  have "n = le_nat [b0, b1, b2, b3]" using assms b by (intro le_bytes_num [of n 4]) simp_all
  with b show ?thesis by (intro exI [of _ b0] exI [of _ b1] exI [of _ b2] exI [of _ b3]) simp
qed

lemma five_bytes:
  assumes "n < 2 ^ 40"
  shows "\<exists>b0 b1 b2 b3 b4. le_bytes 5 n = [b0, b1, b2, b3, b4]
    \<and> n = unat b0 + 256 * (unat b1 + 256 * (unat b2 + 256 * (unat b3 + 256 * unat b4)))"
proof -
  obtain b0 b1 b2 b3 b4 where b: "le_bytes 5 n = [b0, b1, b2, b3, b4]"
    using list_of_length(4) [of "le_bytes 5 n"] length_le_bytes by blast
  have "n = le_nat [b0, b1, b2, b3, b4]" using assms b by (intro le_bytes_num [of n 5]) simp_all
  with b show ?thesis
    by (intro exI [of _ b0] exI [of _ b1] exI [of _ b2] exI [of _ b3] exI [of _ b4]) simp
qed

lemma le_bytes_snoc: "le_bytes (Suc k) n = le_bytes k n @ [word_of_nat (n div 256 ^ k)]"
  by (induction k arbitrary: n) (simp_all add: div_mult2_eq)

lemma parse_block_header_word:
  assumes t: "ty < 3" and n: "n < 2 ^ 21" and m: "n \<le> block_size_max"
  shows "parse_block_header (take 3 (le_bytes 4 (block_header_word ty n is_last)) @ rest) block_size_max
    = Inr \<lparr>last_block = is_last,
           block_type = (if ty = 0 then RawBlock else if ty = 1 then RleBlock else CompressedBlock),
           decompressed_size = (if ty = 2 then 0 else n), content_size = (if ty = 1 then 1 else n)\<rparr>"
proof -
  define H where "H = of_bool is_last + 2 * ty + 8 * n"
  have H: "block_header_word ty n is_last = H" using t n by (simp add: block_header_word_eq H_def)
  have "H < 2 ^ 24" using n t by (auto simp: H_def)
  then obtain b0 b1 b2 where b: "le_bytes 3 H = [b0, b1, b2]"
    and sum: "H = unat b0 + 256 * (unat b1 + 256 * unat b2)" using three_bytes by blast
  have b0: "unat b0 div 8 < 2 ^ 5" "unat b1 < 2 ^ 8" using unat_u8_less [of b0] unat_u8_less [of b1] by auto
  then have size: "unat b0 div 8 OR push_bit 5 (unat b1) OR push_bit 13 (unat b2)
      = unat b0 div 8 + 2 ^ 5 * unat b1 + 2 ^ 13 * unat b2" by (intro or_fields) auto
  have e: "H = unat b0 + 8 * (32 * unat b1 + 8192 * unat b2)" using sum by simp
  have lt: "of_bool is_last + 2 * ty < (8::nat)" using t by (cases is_last) auto
  have "H div 8 = unat b0 div 8 + (32 * unat b1 + 8192 * unat b2)" unfolding e by simp
  moreover have "H div 8 = n" unfolding H_def using lt by simp
  ultimately have sz: "unat b0 div 8 + 32 * unat b1 + 8192 * unat b2 = n" by simp
  have "H mod 8 = unat b0 mod 8" unfolding e by (rule mod_mult_self2)
  moreover have "H mod 8 = of_bool is_last + 2 * ty" unfolding H_def using lt by simp
  ultimately have r: "unat b0 mod 8 = of_bool is_last + 2 * ty" by simp
  have "unat b0 mod 2 = unat b0 mod 8 mod 2" by (simp add: mod_mod_cancel)
  then have l: "unat b0 mod 2 = of_bool is_last" unfolding r by (cases is_last) auto
  have "unat b0 mod (2 * 4) = 2 * (unat b0 div 2 mod 4) + unat b0 mod 2" by (rule mod_mult2_eq)
  then have ty: "unat b0 div 2 mod 4 = ty" using r l by simp
  show ?thesis
    unfolding H using t m size l ty sz
    by (simp add: parse_block_header_def get_range_def le_bytes_take b Let_def)
qed

text \<open>C16: a block that the encoder writes is the block the decoder locates.  For content of less than
  2 MiB within the frame's maximum, \<open>locate_block\<close> on the output of \<open>write_raw_block\<close>,
  \<open>write_rle_block\<close> or \<open>write_compressed_block\<close>, followed by anything, returns the last-block flag,
  the type, the sizes and the content that were written.\<close>

theorem block_roundtrip:
  assumes "length data < 2 ^ 21" and "length data \<le> block_size_max" and "reps < 2 ^ 21" and "reps \<le> block_size_max"
  shows "locate_block (write_raw_block [] data is_last @ rest) block_size_max
      = Some (\<lparr>last_block = is_last, block_type = RawBlock, decompressed_size = length data,
               content_size = length data\<rparr>, data)
    \<and> locate_block (write_rle_block [] byte reps is_last @ rest) block_size_max
      = Some (\<lparr>last_block = is_last, block_type = RleBlock, decompressed_size = reps,
               content_size = 1\<rparr>, [byte])
    \<and> locate_block (write_compressed_block [] data is_last @ rest) block_size_max
      = Some (\<lparr>last_block = is_last, block_type = CompressedBlock, decompressed_size = 0,
               content_size = length data\<rparr>, data)"
  using assms parse_block_header_word [of BLOCK_TYPE_RAW "length data" block_size_max is_last "[]"]
    parse_block_header_word [of BLOCK_TYPE_RLE reps block_size_max is_last "[]"]
    parse_block_header_word [of BLOCK_TYPE_COMPRESSED "length data" block_size_max is_last "[]"]
  by (simp add: locate_block_def get_range_def BLOCK_HEADER_LEN_def write_raw_block_def write_rle_block_def
      write_compressed_block_def BLOCK_TYPE_RAW_def BLOCK_TYPE_RLE_def BLOCK_TYPE_COMPRESSED_def)

theorem block_roundtrip_witness:
  "locate_block (write_raw_block [] [7, 8, 9] True @ [0]) 1024
      = Some (\<lparr>last_block = True, block_type = RawBlock, decompressed_size = 3, content_size = 3\<rparr>, [7, 8, 9])"
  using block_roundtrip [of "[7, 8, 9]" 1024 5 True "[0]" 0] by simp

section \<open>Literals section headers\<close>

lemma nibble_fields:
  fixes ty :: nat
  assumes "ty < 4" and "f < 4"
  shows "(ty + 4 * f + 16 * N) mod 4 = ty" "(ty + 4 * f + 16 * N) div 4 mod 4 = f" "(ty + 4 * f + 16 * N) div 16 = N"
proof -
  have e: "ty + 4 * f + 16 * N = ty + 4 * (f + 4 * N)" by simp
  show "(ty + 4 * f + 16 * N) mod 4 = ty" unfolding e mod_mult_self2 using assms(1) by simp
  have "(ty + 4 * f + 16 * N) div 4 = f + 4 * N" unfolding e using assms(1) by simp
  then show "(ty + 4 * f + 16 * N) div 4 mod 4 = f" using assms(2) by simp
  have "ty + 4 * f < 16" using assms by simp
  then show "(ty + 4 * f + 16 * N) div 16 = N" by simp
qed

lemma low_byte_fields:
  fixes b :: nat
  shows "(b + 256 * K) mod 4 = b mod 4" "(b + 256 * K) div 4 mod 4 = b div 4 mod 4" "(b + 256 * K) div 16 = b div 16 + 16 * K"
proof -
  have e4: "b + 256 * K = b + 4 * (64 * K)" and e16: "b + 256 * K = b + 16 * (16 * K)" by simp_all
  show "(b + 256 * K) mod 4 = b mod 4" unfolding e4 by (rule mod_mult_self2)
  have "(b + 256 * K) div 4 = b div 4 + 64 * K" unfolding e4 by (subst div_mult_self2) auto
  also have "\<dots> mod 4 = (b div 4 + 4 * (16 * K)) mod 4" by simp
  also have "\<dots> = b div 4 mod 4" by (rule mod_mult_self2)
  finally show "(b + 256 * K) div 4 mod 4 = b div 4 mod 4" .
  show "(b + 256 * K) div 16 = b div 16 + 16 * K" unfolding e16 by (subst div_mult_self2) auto
qed

text \<open>The first byte of a literals header and the number above its four low bits.\<close>

lemma literals_fields:
  fixes ty f N K :: nat
  assumes "ty < 4" and "f < 4" and "ty + 4 * f + 16 * N = b + 256 * K"
  shows "b mod 4 = ty" "b div 4 mod 4 = f" "b div 16 + 16 * K = N"
  using nibble_fields [OF assms(1,2), of N] low_byte_fields [of b K] unfolding assms(3) by simp_all

definition type_of_literals :: "nat \<Rightarrow> literals_type" where
  "type_of_literals ty = (if ty = 0 then RawLits else if ty = 1 then RleLits
     else if ty = 2 then CompressedLits else TreelessLits)"

lemma literals_parse_first:
  assumes "raw = b # rest" and "unat b mod 4 = ty" and "unat b div 4 mod 4 = f"
    and "len = literals_header_len (type_of_literals ty) f" and "len \<le> length raw"
  shows "literals_parse raw =
    (let b = (\<lambda>i. unat (raw ! i)); t = type_of_literals ty in
     if t = RawLits \<or> t = RleLits then
       let size = (if len = 1 then b 0 div 8 else if len = 2 then b 0 div 16 + b 1 * 16
                   else b 0 div 16 + b 1 * 16 + b 2 * 4096)
       in Inr (\<lparr>regenerated_size = size, ls_content_size = (if t = RleLits then 1 else size), ls_type = t,
                four_streams = False\<rparr>, len)
     else
       let (size, compressed) =
         (if len = 3 then (b 0 div 16 + b 1 mod 64 * 16, b 1 div 64 + b 2 * 4)
          else if len = 4 then
            (b 0 div 16 + b 1 * 16 + b 2 mod 4 * 4096, b 2 div 4 + b 3 * 64)
          else (b 0 div 16 + b 1 * 16 + b 2 mod 64 * 4096, b 2 div 64 + b 3 * 4 + b 4 * 1024))
       in Inr (\<lparr>regenerated_size = size, ls_content_size = compressed, ls_type = t,
                four_streams = (f \<noteq> 0)\<rparr>, len))"
proof -
  have l: "len \<in> {1, 2, 3, 4, 5}" unfolding assms(4) literals_header_len_def by auto
  have n: "take len raw ! i = raw ! i" if "i < len" for i using that by simp
  show ?thesis
    unfolding literals_parse_def assms(1) list.case Let_def assms(2,3) type_of_literals_def [symmetric]
      assms(4) [symmetric]
    using assms(5) l by (auto simp: get_range_def assms(1) type_of_literals_def literals_header_len_def assms(4) split: if_splits)
qed

lemma plain_literals_parse:
  assumes t: "ty < 2" and n: "n < 2 ^ 20"
  shows "literals_parse (plain_literals_header ty n @ rest) =
    Inr (\<lparr>regenerated_size = n, ls_content_size = (if ty = 1 then 1 else n), ls_type = type_of_literals ty,
          four_streams = False\<rparr>, length (plain_literals_header ty n))"
proof -
  have tl: "ty = 0 \<or> ty = 1" using t by auto
  consider (a) "n \<le> 31" | (b) "31 < n" "n \<le> 4095" | (c) "4095 < n" by linarith
  then show ?thesis
  proof cases
    case a
    define b where "b = (word_of_nat (ty + 8 * n) :: u8)"
    have "ty OR push_bit 3 n = ty + 2 ^ 3 * n" using t by (intro nat_or_push) simp
    then have h: "plain_literals_header ty n = [b]" using a by (simp add: plain_literals_header_def b_def)
    have u: "unat b = ty + 8 * n" unfolding b_def unat_of_nat using a t by simp
    have e: "ty + 8 * n = ty + 4 * (2 * n)" by simp
    have "unat b mod 4 = ty" unfolding u e mod_mult_self2 using t by simp
    moreover have "(ty + 4 * (2 * n)) div 4 = 2 * n" using t by (subst div_mult_self2) auto
    then have "unat b div 4 mod 4 = 2 * n mod 4" unfolding u e by simp
    moreover have "2 * n mod 4 = 0 \<or> 2 * n mod 4 = 2" by presburger
    moreover have "unat b div 8 = n" unfolding u using t by simp
    ultimately show ?thesis
      using tl literals_parse_first [of "[b] @ rest" b rest ty "2 * n mod 4" 1] unfolding h
      by (auto simp: literals_header_len_def type_of_literals_def)
  next
    case b
    define H where "H = ty + 4 * 1 + 16 * n"
    have "ty OR push_bit 2 1 OR push_bit 4 n = ty + 2 ^ 2 * 1 + 2 ^ 4 * n" using t by (intro or_fields) auto
    then have "plain_literals_header ty n = le_bytes 2 H"
      using b by (simp add: plain_literals_header_def H_def)
    moreover have "H < 2 ^ 16" using b t by (simp add: H_def)
    ultimately obtain b0 b1 where h: "plain_literals_header ty n = [b0, b1]" and H: "H = unat b0 + 256 * unat b1"
      using two_bytes [of H] by metis
    from literals_fields [of ty 1 n "unat b0" "unat b1"] t H
    have f: "unat b0 mod 4 = ty" "unat b0 div 4 mod 4 = 1" "unat b0 div 16 + 16 * unat b1 = n" by (auto simp: H_def)
    show ?thesis
      using tl f literals_parse_first [of "[b0, b1] @ rest" b0 "b1 # rest" ty 1 2] unfolding h
      by (auto simp: literals_header_len_def type_of_literals_def mult.commute)
  next
    case c
    define H where "H = ty + 4 * 3 + 16 * n"
    have "ty OR push_bit 2 3 OR push_bit 4 n = ty + 2 ^ 2 * 3 + 2 ^ 4 * n" using t by (intro or_fields) auto
    then have "plain_literals_header ty n = le_bytes 3 H"
      using c n by (simp add: plain_literals_header_def H_def le_bytes_take)
    moreover have "H < 2 ^ 24" using n t by (simp add: H_def)
    ultimately obtain b0 b1 b2 where h: "plain_literals_header ty n = [b0, b1, b2]"
      and H: "H = unat b0 + 256 * (unat b1 + 256 * unat b2)" using three_bytes [of H] by metis
    from literals_fields [of ty 3 n "unat b0" "unat b1 + 256 * unat b2"] t H
    have f: "unat b0 mod 4 = ty" "unat b0 div 4 mod 4 = 3" "unat b0 div 16 + 16 * (unat b1 + 256 * unat b2) = n"
      by (auto simp: H_def)
    show ?thesis
      using tl f literals_parse_first [of "[b0, b1, b2] @ rest" b0 "[b1, b2] @ rest" ty 3 3] unfolding h
      by (auto simp: literals_header_len_def type_of_literals_def algebra_simps)
  qed
qed

lemma split_low4:
  fixes x y :: nat
  assumes "x < 16"
  shows "(x + 16 * y) mod (16 * m) = x + 16 * (y mod m)" "(x + 16 * y) div (16 * m) = y div m"
  using assms by (simp_all add: mod_mult2_eq div_mult2_eq)

lemma split_byte:
  fixes b c :: nat
  shows "(b + 256 * c) mod 64 = b mod 64" "(b + 256 * c) div 64 = b div 64 + 4 * c"
    "b < 256 \<Longrightarrow> (b + 256 * c) mod 1024 = b + 256 * (c mod 4)" "b < 256 \<Longrightarrow> (b + 256 * c) div 1024 = c div 4"
    "b < 256 \<Longrightarrow> (b + 256 * c) mod 16384 = b + 256 * (c mod 64)" "b < 256 \<Longrightarrow> (b + 256 * c) div 16384 = c div 64"
proof -
  have e: "b + 256 * c = b + 64 * (4 * c)" by simp
  show "(b + 256 * c) mod 64 = b mod 64" unfolding e by (rule mod_mult_self2)
  show "(b + 256 * c) div 64 = b div 64 + 4 * c" unfolding e by (subst div_mult_self2) auto
  assume b: "b < 256"
  show "(b + 256 * c) mod 1024 = b + 256 * (c mod 4)" "(b + 256 * c) div 1024 = c div 4"
    using b mod_mult2_eq [of "b + 256 * c" 256 4] div_mult2_eq [of "b + 256 * c" 256 4] by simp_all
  show "(b + 256 * c) mod 16384 = b + 256 * (c mod 64)" "(b + 256 * c) div 16384 = c div 64"
    using b mod_mult2_eq [of "b + 256 * c" 256 64] div_mult2_eq [of "b + 256 * c" 256 64] by simp_all
qed

lemma or_fields4:
  fixes a b c d :: nat
  assumes "a < 4" and "b < 4" and "c < 2 ^ (k - 4)" and "4 \<le> k"
  shows "a OR push_bit 2 b OR push_bit 4 c OR push_bit k d = a + 4 * b + 16 * c + 2 ^ k * d"
proof -
  have 1: "a OR push_bit 2 b OR push_bit 4 c = a + 2 ^ 2 * b + 2 ^ 4 * c" using assms by (intro or_fields) auto
  have "16 * (c + 1) \<le> 2 ^ 4 * 2 ^ (k - 4)" using assms(3) by simp
  also have "\<dots> = (2::nat) ^ k" using assms(4) power_add [of "2::nat" 4 "k - 4"] by simp
  finally have "a + 2 ^ 2 * b + 2 ^ 4 * c < 2 ^ k" using assms(1,2) by simp
  then have "(a OR push_bit 2 b OR push_bit 4 c) OR push_bit k d = a + 2 ^ 2 * b + 2 ^ 4 * c + 2 ^ k * d"
    unfolding 1 by (rule nat_or_push)
  then show ?thesis by (simp add: or.assoc)
qed

lemma huf_parse_len:
  assumes "ty = 2 \<or> ty = 3" and "unat b0 mod 4 = ty"
  shows "unat b0 div 4 mod 4 = f \<Longrightarrow> f = 0 \<or> f = 1 \<Longrightarrow> literals_parse (b0 # b1 # b2 # rest) =
      Inr (\<lparr>regenerated_size = unat b0 div 16 + unat b1 mod 64 * 16, ls_content_size = unat b1 div 64 + unat b2 * 4,
            ls_type = type_of_literals ty, four_streams = (f \<noteq> 0)\<rparr>, 3)"
    and "unat b0 div 4 mod 4 = 2 \<Longrightarrow> literals_parse (b0 # b1 # b2 # b3 # rest) =
      Inr (\<lparr>regenerated_size = unat b0 div 16 + unat b1 * 16 + unat b2 mod 4 * 4096,
            ls_content_size = unat b2 div 4 + unat b3 * 64,
            ls_type = type_of_literals ty, four_streams = True\<rparr>, 4)"
    and "unat b0 div 4 mod 4 = 3 \<Longrightarrow> literals_parse (b0 # b1 # b2 # b3 # b4 # rest) =
      Inr (\<lparr>regenerated_size = unat b0 div 16 + unat b1 * 16 + unat b2 mod 64 * 4096,
            ls_content_size = unat b2 div 64 + unat b3 * 4 + unat b4 * 1024,
            ls_type = type_of_literals ty, four_streams = True\<rparr>, 5)"
proof -
  have t: "type_of_literals ty \<noteq> RawLits" "type_of_literals ty \<noteq> RleLits" using assms(1) by (auto simp: type_of_literals_def)
  show "unat b0 div 4 mod 4 = f \<Longrightarrow> f = 0 \<or> f = 1 \<Longrightarrow> literals_parse (b0 # b1 # b2 # rest) =
      Inr (\<lparr>regenerated_size = unat b0 div 16 + unat b1 mod 64 * 16, ls_content_size = unat b1 div 64 + unat b2 * 4,
            ls_type = type_of_literals ty, four_streams = (f \<noteq> 0)\<rparr>, 3)"
    by (subst literals_parse_first [OF refl assms(2) _ refl]) (use t in \<open>auto simp: literals_header_len_def\<close>)
  show "unat b0 div 4 mod 4 = 2 \<Longrightarrow> literals_parse (b0 # b1 # b2 # b3 # rest) =
      Inr (\<lparr>regenerated_size = unat b0 div 16 + unat b1 * 16 + unat b2 mod 4 * 4096,
            ls_content_size = unat b2 div 4 + unat b3 * 64,
            ls_type = type_of_literals ty, four_streams = True\<rparr>, 4)"
    by (subst literals_parse_first [OF refl assms(2) _ refl]) (use t in \<open>auto simp: literals_header_len_def\<close>)
  show "unat b0 div 4 mod 4 = 3 \<Longrightarrow> literals_parse (b0 # b1 # b2 # b3 # b4 # rest) =
      Inr (\<lparr>regenerated_size = unat b0 div 16 + unat b1 * 16 + unat b2 mod 64 * 4096,
            ls_content_size = unat b2 div 64 + unat b3 * 4 + unat b4 * 1024,
            ls_type = type_of_literals ty, four_streams = True\<rparr>, 5)"
    by (subst literals_parse_first [OF refl assms(2) _ refl]) (use t in \<open>auto simp: literals_header_len_def\<close>)
qed

lemma huf_literals_parse:
  assumes t: "ty = 2 \<or> ty = 3" and n: "n < 2 ^ 18" and c: "c < n" and s: "single \<longrightarrow> n < 1024"
  shows "literals_parse (huf_literals_header ty single n c @ rest) =
    Inr (\<lparr>regenerated_size = n, ls_content_size = c, ls_type = type_of_literals ty,
          four_streams = (\<not> single)\<rparr>, huf_literals_lh_size n)
    \<and> length (huf_literals_header ty single n c) = huf_literals_lh_size n"
proof -
  have t4: "ty < 4" using t by auto
  have nc: "n mod 2 ^ 32 = n" "c mod 2 ^ 32 = c" using n c by simp_all
  consider (3) "n < 1024" | (4) "1024 \<le> n" "n < 16384" | (5) "16384 \<le> n" by linarith
  then show ?thesis
  proof cases
    case 3
    define f where "f = (of_bool (\<not> single) :: nat)"
    have f4: "f < 4" by (simp add: f_def)
    define H where "H = ty + 4 * f + 16 * (n + 1024 * c)"
    have "ty OR push_bit 2 f OR push_bit 4 n OR push_bit 14 c = H"
      using or_fields4 [of ty f n 14 c] t4 f4 3 by (simp add: H_def)
    then have hd: "huf_literals_header ty single n c = le_bytes 3 H"
      using 3 unfolding huf_literals_header_def nc Let_def f_def by (simp add: huf_literals_lh_size_def le_bytes_take)
    have "H < 2 ^ 24" using t4 f4 3 c by (simp add: H_def)
    then obtain b0 b1 b2 where h: "huf_literals_header ty single n c = [b0, b1, b2]"
      and H: "H = unat b0 + 256 * (unat b1 + 256 * unat b2)" using three_bytes [of H] unfolding hd by blast
    from literals_fields [OF t4 f4 H [unfolded H_def]]
    have F: "unat b0 mod 4 = ty" "unat b0 div 4 mod 4 = f"
      "unat b0 div 16 + 16 * (unat b1 + 256 * unat b2) = n + 1024 * c" .
    have "unat b0 div 16 < 16" using unat_u8_less [of b0] by auto
    from split_low4 [OF this, of "unat b1 + 256 * unat b2" 64] F(3) split_byte(1,2) [of "unat b1" "unat b2"] 3
    have "unat b0 div 16 + unat b1 mod 64 * 16 = n" "unat b1 div 64 + unat b2 * 4 = c" by (simp_all add: mult.commute)
    moreover have f01: "f = 0 \<or> f = 1" by (simp add: f_def)
    ultimately have "literals_parse ([b0, b1, b2] @ rest) = Inr (\<lparr>regenerated_size = n, ls_content_size = c,
        ls_type = type_of_literals ty, four_streams = (f \<noteq> 0)\<rparr>, 3)"
      unfolding append.simps huf_parse_len(1) [OF t F(1,2) f01] by (simp only:)
    moreover have "(f \<noteq> 0) = (\<not> single)" "huf_literals_lh_size n = 3" using 3 by (auto simp: huf_literals_lh_size_def f_def)
    ultimately show ?thesis unfolding h by simp
  next
    case 4
    define H where "H = ty + 4 * 2 + 16 * (n + 16384 * c)"
    have "ty OR push_bit 2 2 OR push_bit 4 n OR push_bit 18 c = H"
      using or_fields4 [of ty 2 n 18 c] t4 4 by (simp add: H_def)
    then have hd: "huf_literals_header ty single n c = le_bytes 4 H"
      using 4 unfolding huf_literals_header_def nc Let_def by (simp add: huf_literals_lh_size_def)
    have "H < 2 ^ 32" using t4 4 c by (simp add: H_def)
    from four_bytes [OF this] obtain b0 b1 b2 b3 where h: "huf_literals_header ty single n c = [b0, b1, b2, b3]"
      and H: "H = unat b0 + 256 * (unat b1 + 256 * (unat b2 + 256 * unat b3))"
      unfolding hd by blast
    from literals_fields [OF t4 _ H [unfolded H_def]]
    have F: "unat b0 mod 4 = ty" "unat b0 div 4 mod 4 = 2"
      "unat b0 div 16 + 16 * (unat b1 + 256 * (unat b2 + 256 * unat b3)) = n + 16384 * c" by simp_all
    have "unat b0 div 16 < 16" using unat_u8_less [of b0] by auto
    from split_low4 [OF this, of "unat b1 + 256 * (unat b2 + 256 * unat b3)" 1024] F(3)
      split_byte(3,4) [OF unat_u8_less, of b1 "unat b2 + 256 * unat b3"] 4
    have "unat b0 div 16 + 16 * (unat b1 + 256 * ((unat b2 + 256 * unat b3) mod 4)) = n"
      "(unat b2 + 256 * unat b3) div 4 = c" by simp_all
    moreover have "(unat b2 + 256 * unat b3) mod 4 = unat b2 mod 4" by (rule low_byte_fields)
    moreover have "(unat b2 + 256 * unat b3) div 4 = unat b2 div 4 + 64 * unat b3"
      using div_mult_self2 [of 4 "unat b2" "64 * unat b3"] by simp
    ultimately have "unat b0 div 16 + unat b1 * 16 + unat b2 mod 4 * 4096 = n" "unat b2 div 4 + unat b3 * 64 = c"
      by (simp_all add: algebra_simps)
    then have "literals_parse ([b0, b1, b2, b3] @ rest) = Inr (\<lparr>regenerated_size = n, ls_content_size = c,
        ls_type = type_of_literals ty, four_streams = True\<rparr>, 4)"
      unfolding append.simps huf_parse_len(2) [OF t F(1,2)] by (simp only:)
    moreover have "\<not> single" "huf_literals_lh_size n = 4" using 4 s by (auto simp: huf_literals_lh_size_def)
    ultimately show ?thesis unfolding h by simp
  next
    case 5
    define H where "H = ty + 4 * 3 + 16 * (n + 262144 * c)"
    have "ty OR push_bit 2 3 OR push_bit 4 n OR push_bit 22 c = H"
      using or_fields4 [of ty 3 n 22 c] t4 n by (simp add: H_def)
    then have hd0: "huf_literals_header ty single n c = le_bytes 4 H @ [word_of_nat (c div 1024)]"
      using 5 unfolding huf_literals_header_def nc Let_def by (simp add: huf_literals_lh_size_def)
    have Hl: "H < 2 ^ 40" using t4 n c by (simp add: H_def)
    have "H div 2 ^ 32 = c div 1024"
    proof -
      have "ty + 4 * 3 + 16 * n < 2 ^ 22" using t4 n by simp
      then have "H div 2 ^ 22 = c" by (simp add: H_def)
      then show ?thesis using div_mult2_eq [of H "2 ^ 22" 1024] by simp
    qed
    then have hd: "huf_literals_header ty single n c = le_bytes 5 H"
      using hd0 le_bytes_snoc [of 4 H] by simp
    from five_bytes [OF Hl] obtain b0 b1 b2 b3 b4 where h: "huf_literals_header ty single n c = [b0, b1, b2, b3, b4]"
      and H: "H = unat b0 + 256 * (unat b1 + 256 * (unat b2 + 256 * (unat b3 + 256 * unat b4)))"
      unfolding hd by blast
    from literals_fields [OF t4 _ H [unfolded H_def]]
    have F: "unat b0 mod 4 = ty" "unat b0 div 4 mod 4 = 3"
      "unat b0 div 16 + 16 * (unat b1 + 256 * (unat b2 + 256 * (unat b3 + 256 * unat b4))) = n + 262144 * c" by simp_all
    have "unat b0 div 16 < 16" using unat_u8_less [of b0] by auto
    note sp = split_low4 [OF this, of "unat b1 + 256 * (unat b2 + 256 * (unat b3 + 256 * unat b4))" 16384, unfolded F(3)]
    note b1 = split_byte(5,6) [OF unat_u8_less, of b1 "unat b2 + 256 * (unat b3 + 256 * unat b4)"]
    note b2 = split_byte(1,2) [of "unat b2" "unat b3 + 256 * unat b4"]
    have "(n + 262144 * c) mod (16 * 16384) = n" "(n + 262144 * c) div (16 * 16384) = c" using n by simp_all
    then have "n = unat b0 div 16 + 16 * (unat b1 + 256 * (unat b2 mod 64))"
      "c = unat b2 div 64 + 4 * (unat b3 + 256 * unat b4)"
      unfolding sp b1 b2 by simp_all
    then have "unat b0 div 16 + unat b1 * 16 + unat b2 mod 64 * 4096 = n"
      "unat b2 div 64 + unat b3 * 4 + unat b4 * 1024 = c" by (simp_all add: algebra_simps)
    then have "literals_parse ([b0, b1, b2, b3, b4] @ rest) = Inr (\<lparr>regenerated_size = n, ls_content_size = c,
        ls_type = type_of_literals ty, four_streams = True\<rparr>, 5)"
      unfolding append.simps huf_parse_len(3) [OF t F(1,2)] by (simp only:)
    moreover have "\<not> single" "huf_literals_lh_size n = 5" using 5 s by (auto simp: huf_literals_lh_size_def)
    ultimately show ?thesis unfolding h by simp
  qed
qed

text \<open>C15: literals section headers round trip.  What \<open>encode_literals_raw\<close> and \<open>encode_literals_rle\<close>
  write for up to 1 MiB of literals, and the header \<open>compress_literals_with\<close> builds for a Huffman
  section of less than 256 KiB that is smaller than its content (a single stream only below 1 KiB),
  parses back to the same type, sizes and stream count, with the section's content right after the
  header; a raw section fills \<open>literals_section_bound\<close> exactly.\<close>

theorem literals_header_roundtrip:
  assumes "length lits < 2 ^ 20" and "reps < 2 ^ 20" and "ty = 2 \<or> ty = 3" and "n < 2 ^ 18" and "c < n"
    and "single \<longrightarrow> n < 1024"
  shows "(\<exists>h. encode_literals_raw [] lits = h @ lits
      \<and> literals_parse (encode_literals_raw [] lits @ rest)
        = Inr (\<lparr>regenerated_size = length lits, ls_content_size = length lits, ls_type = RawLits,
                four_streams = False\<rparr>, length h))
    \<and> length (encode_literals_raw [] lits) = literals_section_bound (length lits)
    \<and> (\<exists>h. encode_literals_rle [] byte reps = h @ [byte]
      \<and> literals_parse (encode_literals_rle [] byte reps @ rest)
        = Inr (\<lparr>regenerated_size = reps, ls_content_size = 1, ls_type = RleLits, four_streams = False\<rparr>, length h))
    \<and> literals_parse (huf_literals_header ty single n c @ rest)
        = Inr (\<lparr>regenerated_size = n, ls_content_size = c,
                ls_type = (if ty = 2 then CompressedLits else TreelessLits), four_streams = (\<not> single)\<rparr>,
               length (huf_literals_header ty single n c))"
proof -
  have "length (plain_literals_header 0 m) = 1 + of_bool (31 < m) + of_bool (4095 < m)" for m
    by (simp add: plain_literals_header_def)
  then show ?thesis
    using plain_literals_parse [of 0 "length lits" "lits @ rest"] plain_literals_parse [of 1 reps "byte # rest"]
      huf_literals_parse [OF assms(3-6), of rest] assms
    by (auto simp: encode_literals_raw_def encode_literals_rle_def LIT_TYPE_RAW_def LIT_TYPE_RLE_def
        type_of_literals_def literals_section_bound_def)
qed

theorem literals_header_roundtrip_witness:
  "literals_parse (huf_literals_header 2 False 20000 1500 @ [0])
    = Inr (\<lparr>regenerated_size = 20000, ls_content_size = 1500, ls_type = CompressedLits, four_streams = True\<rparr>, 5)"
  using literals_header_roundtrip [of "[]" 0 2 20000 1500 False "[0]" 0]
  by (simp add: huf_literals_header_def huf_literals_lh_size_def)

section \<open>Sequence counts\<close>

text \<open>C17: sequence counts round trip.  Every count the encoder can write (up to \<open>LONGNBSEQ + 65535\<close>) is
  read back by the decoder with the length that was written, and a following modes byte with its
  reserved bits clear is returned as such; a zero count has no modes byte.\<close>

theorem sequence_count_roundtrip:
  assumes "nb_seq < LONGNBSEQ + 65536" and "unat modes mod 4 = 0"
  shows "sequences_parse (write_sequence_count [] nb_seq @ (if nb_seq = 0 then rest else modes # rest))
    = Inr (\<lparr>num_sequences = nb_seq, sh_modes = (if nb_seq = 0 then 0 else unat modes)\<rparr>,
        length (write_sequence_count [] nb_seq) + (if nb_seq = 0 then 0 else 1))"
proof -
  have "sequences_count (write_sequence_count [] nb_seq @ tl) = Inr (nb_seq, length (write_sequence_count [] nb_seq))" for tl
  proof -
    consider (a) "nb_seq < 128" | (b) "128 \<le> nb_seq" "nb_seq < LONGNBSEQ" | (c) "LONGNBSEQ \<le> nb_seq" by linarith
    then show ?thesis
    proof cases
      case a
      then have "unat (word_of_nat nb_seq :: u8) = nb_seq" by (simp add: unat_of_nat)
      with a show ?thesis by (simp add: sequences_count_def write_sequence_count_def)
    next
      case b
      then have q: "nb_seq div 256 < 127" by (simp add: LONGNBSEQ_def less_mult_imp_div_less)
      have "(word_of_nat (nb_seq div 256) + 0x80 :: u8) = word_of_nat (nb_seq div 256 + 128)" by simp
      then have "unat (word_of_nat (nb_seq div 256) + 0x80 :: u8) = nb_seq div 256 + 128"
        using q by (simp only: unat_of_nat) simp
      moreover have "unat (word_of_nat nb_seq :: u8) = nb_seq mod 256" by (simp add: unat_of_nat)
      ultimately show ?thesis
        using b q by (simp add: sequences_count_def write_sequence_count_def Let_def)
    next
      case c
      then have "nb_seq - LONGNBSEQ < 2 ^ 16" using assms by simp
      from two_bytes [OF this] obtain b0 b1 where
        "le_bytes 2 (nb_seq - LONGNBSEQ) = [b0, b1]" "nb_seq - LONGNBSEQ = unat b0 + 256 * unat b1" by blast
      with c show ?thesis
        by (simp add: sequences_count_def write_sequence_count_def Let_def LONGNBSEQ_def)
    qed
  qed
  then show ?thesis using assms(2) by (simp add: sequences_parse_def get_range_def modes_new_def)
qed

theorem sequence_count_roundtrip_witness:
  "sequences_parse (write_sequence_count [] 40000 @ [0xA8, 1])
    = Inr (\<lparr>num_sequences = 40000, sh_modes = 0xA8\<rparr>, 4)"
  using sequence_count_roundtrip [of 40000 "0xA8" "[1]"]
  by (simp add: write_sequence_count_def LONGNBSEQ_def)

section \<open>Frame headers\<close>

definition fcs_code :: "nat option \<Rightarrow> nat" where
  "fcs_code content = (case content of None \<Rightarrow> 0
     | Some n \<Rightarrow> of_bool (256 \<le> n) + of_bool (65536 + 256 \<le> n) + of_bool (0xFFFFFFFF \<le> n))"

definition dict_id_code :: "nat \<Rightarrow> nat" where
  "dict_id_code d = of_bool (0 < d) + of_bool (256 \<le> d) + of_bool (65536 \<le> d)"

definition fits_window :: "nat option \<Rightarrow> nat \<Rightarrow> bool" where
  "fits_window content window_log = (case content of None \<Rightarrow> False | Some n \<Rightarrow> n \<le> 2 ^ window_log)"

definition header_descriptor :: "nat \<Rightarrow> bool \<Rightarrow> bool \<Rightarrow> nat \<Rightarrow> nat" where
  "header_descriptor dc checksum single fc = dc + 4 * of_bool checksum + 32 * of_bool single + 64 * fc"

lemma header_descriptor_or:
  assumes "dc < 4" and "fc < 4"
  shows "(dc OR push_bit 2 (of_bool checksum) OR push_bit 5 (of_bool single) OR push_bit 6 fc) mod 256
    = header_descriptor dc checksum single fc"
proof -
  have 1: "dc OR push_bit 2 (of_bool checksum) OR push_bit 5 (of_bool single)
      = dc + 2 ^ 2 * of_bool checksum + 2 ^ 5 * of_bool single" using assms(1) by (intro or_fields) auto
  have "dc + 2 ^ 2 * of_bool checksum + 2 ^ 5 * of_bool single < (2::nat) ^ 6" using assms(1) by (cases checksum; cases single) auto
  then have "(dc OR push_bit 2 (of_bool checksum) OR push_bit 5 (of_bool single)) OR push_bit 6 fc
      = dc + 2 ^ 2 * of_bool checksum + 2 ^ 5 * of_bool single + 2 ^ 6 * fc" unfolding 1 by (rule nat_or_push)
  moreover have "dc + 4 * of_bool checksum + 32 * of_bool single + 64 * fc < (256::nat)"
    using assms by (cases checksum; cases single) auto
  ultimately show ?thesis by (simp add: or.assoc header_descriptor_def)
qed

lemma header_descriptor_fields:
  assumes "dc < 4" and "fc < 4" and "d = header_descriptor dc checksum single fc"
  shows "dict_id_flag d = dc" "content_checksum_flag d = checksum" "single_segment_flag d = single"
    "frame_content_size_flag d = fc" "d div 8 mod 2 = 0" "d < 256"
proof -
  have dc: "dc = 0 \<or> dc = 1 \<or> dc = 2 \<or> dc = 3" and fc: "fc = 0 \<or> fc = 1 \<or> fc = 2 \<or> fc = 3" using assms by auto
  show "dict_id_flag d = dc" "content_checksum_flag d = checksum" "single_segment_flag d = single"
    "frame_content_size_flag d = fc" "d div 8 mod 2 = 0" "d < 256"
    using dc fc assms(3)
    by (cases checksum; cases single;
        auto simp: header_descriptor_def dict_id_flag_def content_checksum_flag_def single_segment_flag_def
          frame_content_size_flag_def)+
qed

definition field_len :: "nat \<Rightarrow> nat" where
  "field_len code = (if code = 0 then 0 else if code = 1 then 1 else if code = 2 then 2 else 4)"

definition fcs_len :: "nat \<Rightarrow> bool \<Rightarrow> nat" where
  "fcs_len code single = (if code = 0 then of_bool single else if code = 1 then 2 else if code = 2 then 4 else 8)"

definition window_bytes :: "bool \<Rightarrow> nat \<Rightarrow> u8 list" where
  "window_bytes single window_log = (if single then [] else [word_of_nat (8 * (window_log - 10))])"

lemma dict_id_code_less: "dict_id_code d < 4"
  by (simp add: dict_id_code_def)

lemma fcs_code_less: "fcs_code c < 4"
  by (simp add: fcs_code_def split: option.split)

lemma le_bytes_1: "le_bytes (Suc 0) n = [word_of_nat n]"
  by simp

lemma write_frame_header_eq:
  fixes content window_log checksum dict_id
  defines "single \<equiv> fits_window content window_log" and "fc \<equiv> fcs_code content" and "dc \<equiv> dict_id_code dict_id"
  defines "n \<equiv> (case content of None \<Rightarrow> 0 | Some n \<Rightarrow> n)"
  shows "write_frame_header out content window_log checksum dict_id =
    out @ le_bytes 4 ZSTD_MAGIC @ [word_of_nat (header_descriptor dc checksum single fc)]
      @ window_bytes single window_log @ le_bytes (field_len dc) dict_id
      @ le_bytes (fcs_len fc single) (n - (if fc = 1 then 256 else 0))"
proof -
  have d: "(dc OR push_bit 2 (of_bool checksum) OR push_bit 5 (of_bool single) OR push_bit 6 fc) mod 256
      = header_descriptor dc checksum single fc"
    unfolding dc_def fc_def by (rule header_descriptor_or [OF dict_id_code_less fcs_code_less])
  have w: "(if single then [] else [word_of_nat (push_bit 3 (window_log - ZSTD_WINDOWLOG_ABSOLUTEMIN))])
      = window_bytes single window_log"
    by (simp add: window_bytes_def ZSTD_WINDOWLOG_ABSOLUTEMIN_def push_bit_eq_mult mult.commute)
  have i: "(if dc = 0 then [] else if dc = 1 then [word_of_nat dict_id] else if dc = 2 then le_bytes 2 dict_id
      else le_bytes 4 dict_id) = le_bytes (field_len dc) dict_id"
    by (simp add: field_len_def)
  have f: "(if fc = 0 then if single then [word_of_nat n] else [] else if fc = 1 then le_bytes 2 (n - 256)
      else if fc = 2 then le_bytes 4 n else le_bytes 8 n)
      = le_bytes (fcs_len fc single) (n - (if fc = 1 then 256 else 0))"
    by (simp add: fcs_len_def)
  show ?thesis
    unfolding write_frame_header_def Let_def single_def [unfolded fits_window_def, symmetric]
      fc_def [unfolded fcs_code_def, symmetric] dc_def [unfolded dict_id_code_def, symmetric] n_def [symmetric]
      d w i f ..
qed

lemma field_bytes:
  assumes "dc < 4" and "fc < 4" and "d = header_descriptor dc checksum single fc"
  shows "dictionary_id_bytes d = Inr (field_len dc)" "frame_content_size_bytes d = Inr (fcs_len fc single)"
  using header_descriptor_fields [OF assms] assms(1,2)
  by (auto simp: dictionary_id_bytes_def frame_content_size_bytes_def field_len_def fcs_len_def Let_def)

lemma le_nat_le_bytes_id: "n < 256 ^ k \<Longrightarrow> le_nat (le_bytes k n) = n"
  by (simp add: le_nat_le_bytes)

lemma parse_written_header:
  fixes dc fc d :: nat and checksum single :: bool
  assumes dc: "dc < 4" and fc: "fc < 4" and d: "d = header_descriptor dc checksum single fc"
    and w: "length w = (if single then 0 else 1)"
    and src: "src = le_bytes 4 ZSTD_MAGIC @ [word_of_nat d] @ w @ le_bytes (field_len dc) i
        @ le_bytes (fcs_len fc single) m @ rest"
    and i: "i < 256 ^ field_len dc" and m: "m < 256 ^ fcs_len fc single"
  shows "parse_frame_header src = Inr (\<lparr>fh_descriptor = d, window_descriptor = (if single then 0 else unat (hd w)),
      frame_content_size = (if fcs_len fc single = 0 then None
        else Some (m + (if fcs_len fc single = 2 then 256 else 0))), fh_dict_id = i\<rparr>,
    5 + length w + field_len dc + fcs_len fc single)"
proof -
  note f = header_descriptor_fields [OF dc fc d]
  note b = field_bytes [OF dc fc d]
  have M: "le_nat (le_bytes 4 ZSTD_MAGIC) = ZSTD_MAGIC" by (rule le_nat_le_bytes_id) (simp add: ZSTD_MAGIC_def)
  have t4: "le_nat (take 4 src) = ZSTD_MAGIC" unfolding src by (simp add: M)
  have n4: "unat (src ! 4) = d" unfolding src using f(6) by (simp add: nth_append unat_of_nat)
  have hl: "header_len d = 5 + length w + field_len dc + fcs_len fc single"
    using w by (simp add: header_len_def f(3) b)
  have len: "header_len d \<le> length src" unfolding hl src by simp
  have w5: "unat (src ! 5) = unat (hd w)" if ns: "\<not> single"
  proof -
    obtain x where "w = [x]" using w ns by (cases w) auto
    then show ?thesis unfolding src by (simp add: nth_append)
  qed
  have di: "take (field_len dc) (drop (5 + length w) src) = le_bytes (field_len dc) i"
    unfolding src by simp
  have fi: "take (fcs_len fc single) (drop (5 + length w + field_len dc) src) = le_bytes (fcs_len fc single) m"
    unfolding src by simp
  have "header_fields src d = \<lparr>fh_descriptor = d, window_descriptor = (if single then 0 else unat (hd w)),
      frame_content_size = (if fcs_len fc single = 0 then None
        else Some (m + (if fcs_len fc single = 2 then 256 else 0))), fh_dict_id = i\<rparr>"
    using w w5 di fi le_nat_le_bytes_id [OF i] le_nat_le_bytes_id [OF m]
    by (cases single) (simp_all add: header_fields_def Let_def f(3) b add.commute)
  then show ?thesis
    using parse_complete [OF t4 n4 [symmetric] f(5)] len hl unfolding src by simp
qed

text \<open>C13: the frame header round trip.  For every pledged content size, window log from 10 to 31, checksum
  flag and dictionary ID, the decoder parses the header the encoder writes, whatever follows it, to
  exactly its length, and reads back the checksum flag, the dictionary ID, the content size (none
  if none was pledged) and a window that is the content itself in a single segment and
  \<open>2 ^ window_log\<close> bytes otherwise.\<close>

theorem frame_header_roundtrip:
  assumes "10 \<le> window_log" and "window_log \<le> 31" and "dict_id < 2 ^ 32"
    and "case content of None \<Rightarrow> True | Some n \<Rightarrow> n < 2 ^ 64"
  shows "\<exists>h. parse_frame_header (write_frame_header [] content window_log checksum dict_id @ rest)
      = Inr (h, length (write_frame_header [] content window_log checksum dict_id))
    \<and> content_checksum_flag (fh_descriptor h) = checksum \<and> fh_dict_id h = dict_id
    \<and> frame_content_size h = content
    \<and> window_size h = Inr (case content of None \<Rightarrow> 2 ^ window_log
        | Some n \<Rightarrow> if n \<le> 2 ^ window_log then n else 2 ^ window_log)"
proof -
  define single where "single = fits_window content window_log"
  define fc where "fc = fcs_code content"
  define dc where "dc = dict_id_code dict_id"
  define n where "n = (case content of None \<Rightarrow> 0 | Some n \<Rightarrow> n)"
  define d where "d = header_descriptor dc checksum single fc"
  define m where "m = n - (if fc = 1 then 256 else 0)"
  define W where "W = write_frame_header [] content window_log checksum dict_id"
  have dc: "dc < 4" unfolding dc_def by (rule dict_id_code_less)
  have fc: "fc < 4" unfolding fc_def by (rule fcs_code_less)
  note f = header_descriptor_fields [OF dc fc d_def]
  have W: "W = le_bytes 4 ZSTD_MAGIC @ [word_of_nat d] @ window_bytes single window_log
      @ le_bytes (field_len dc) dict_id @ le_bytes (fcs_len fc single) m"
    unfolding W_def d_def m_def n_def single_def fc_def dc_def by (simp add: write_frame_header_eq)
  have i: "dict_id < 256 ^ field_len dc" using assms(3) by (auto simp: dc_def dict_id_code_def field_len_def)
  have k10: "(2::nat) ^ 10 \<le> 2 ^ window_log" using assms(1) by (intro power_increasing) auto
  have m: "m < 256 ^ fcs_len fc single"
    using assms(4) k10 by (cases content) (auto simp: m_def n_def fc_def fcs_code_def fcs_len_def single_def fits_window_def)
  have wl: "length (window_bytes single window_log) = (if single then 0 else 1)" by (simp add: window_bytes_def)
  have fcs: "(if fcs_len fc single = 0 then None else Some (m + (if fcs_len fc single = 2 then 256 else 0))) = content"
  proof (cases content)
    case None
    then show ?thesis by (simp add: fc_def fcs_code_def fcs_len_def single_def fits_window_def)
  next
    case (Some k)
    have s: "k < 256 \<Longrightarrow> single"
    proof -
      assume "k < 256"
      then show single using Some k10 by (simp add: single_def fits_window_def)
    qed
    show ?thesis using Some s by (auto simp: fc_def fcs_code_def fcs_len_def m_def n_def)
  qed
  define h where "h = \<lparr>fh_descriptor = d,
      window_descriptor = (if single then 0 else unat (hd (window_bytes single window_log))),
      frame_content_size = content, fh_dict_id = dict_id\<rparr>"
  have p: "parse_frame_header (W @ rest) = Inr (h, length W)"
    unfolding W using parse_written_header [OF dc fc d_def wl _ i m, of _ rest] by (simp add: fcs h_def)
  have "window_size h = Inr (case content of None \<Rightarrow> 2 ^ window_log
        | Some n \<Rightarrow> if n \<le> 2 ^ window_log then n else 2 ^ window_log)"
  proof (cases single)
    case True
    then obtain k where "content = Some k" "k \<le> 2 ^ window_log"
      by (auto simp: single_def fits_window_def split: option.splits)
    then show ?thesis using True by (simp add: window_size_def h_def f(3))
  next
    case False
    have w: "unat (word_of_nat (8 * (window_log - 10)) :: u8) = 8 * (window_log - 10)"
      unfolding unat_of_nat using assms(2) by simp
    have "(2::nat) ^ 10 \<le> 2 ^ window_log" using assms(1) by (intro power_increasing) auto
    moreover have "\<not> (\<exists>k. content = Some k \<and> k \<le> 2 ^ window_log)"
      using False by (auto simp: single_def fits_window_def)
    ultimately show ?thesis
      using False assms(1,2) w
      by (auto simp: window_size_def h_def f(3) window_bytes_def Let_def ZSTD_WINDOWLOG_MAX_def MIN_WINDOW_SIZE_def
          split: option.splits simp del: of_nat_mult)
  qed
  with p f(2) show ?thesis unfolding W_def [symmetric] by (intro exI [of _ h]) (simp add: h_def)
qed

theorem frame_header_roundtrip_witness:
  "\<exists>h. parse_frame_header (write_frame_header [] (Some 100000) 17 True 7 @ [1, 2])
      = Inr (h, length (write_frame_header [] (Some 100000) 17 True 7))
    \<and> content_checksum_flag (fh_descriptor h) \<and> fh_dict_id h = 7 \<and> frame_content_size h = Some 100000
    \<and> window_size h = Inr 100000"
  using frame_header_roundtrip [of 17 7 "Some 100000" True "[1, 2]"] by simp

section \<open>Blocks of one byte\<close>

text \<open>\<open>is_rle\<close>: 32-byte chunks compared as four words each, then the remainder byte by byte.
  \<open>from_ne_bytes\<close> reads both sides in the same order; little-endian here.\<close>

definition word8 :: "u8 list \<Rightarrow> u64" where
  "word8 bs = word_of_nat (le_nat bs)"

fun rle_chunks :: "u64 \<Rightarrow> u8 list \<Rightarrow> bool \<times> u8 list" where
  "rle_chunks splat data =
     (if length data < 32 then (True, data)
      else
      let chunk = take 32 data;
          diff = foldl (\<lambda>diff i. diff OR (word8 (take 8 (drop (8 * i) chunk)) XOR splat)) 0 [0, 1, 2, 3]
      in if diff = 0 then rle_chunks splat (drop 32 data) else (False, []))"

declare rle_chunks.simps [simp del]

definition is_rle :: "u8 list \<Rightarrow> bool" where
  "is_rle data =
     (case data of [] \<Rightarrow> False
      | first # _ \<Rightarrow>
        let (ok, rest) = rle_chunks (word8 (replicate 8 first)) data
        in ok \<and> list_all (\<lambda>b. b = first) rest)"

lemma xor_eq_0_iff: "(a :: u64) XOR b = 0 \<longleftrightarrow> a = b"
  by (auto simp: bit_eq_iff bit_xor_iff)

lemma word8_eq_iff: "length bs = 8 \<Longrightarrow> word8 bs = word8 (replicate 8 b) \<longleftrightarrow> bs = replicate 8 b"
proof -
  assume l: "length bs = 8"
  have u: "unat (word8 xs) = le_nat xs" if "length xs = 8" for xs
    unfolding word8_def unat_of_nat using le_nat_bound [of xs] that by simp
  show ?thesis using u [OF l] u [of "replicate 8 b"] le_nat_inj [of bs "replicate 8 b"] l by auto
qed

lemma chunk_replicate:
  assumes "length c = 32"
  shows "(\<forall>i \<in> {0, 1, 2, 3::nat}. take 8 (drop (8 * i) c) = replicate 8 b) \<longleftrightarrow> c = replicate 32 b"
proof
  assume a: "\<forall>i \<in> {0, 1, 2, 3::nat}. take 8 (drop (8 * i) c) = replicate 8 b"
  show "c = replicate 32 b"
  proof (rule nth_equalityI)
    fix j
    assume "j < length c"
    then have j: "j < 32" using assms by simp
    then have i: "j div 8 \<in> {0, 1, 2, 3}" by auto
    have t: "take 8 (drop (8 * (j div 8)) c) = replicate 8 b" using a i by blast
    have "c ! j = take 8 (drop (8 * (j div 8)) c) ! (j mod 8)" using j assms by simp
    also have "\<dots> = b" unfolding t by simp
    finally show "c ! j = replicate 32 b ! j" using j by simp
  qed (use assms in simp)
qed (use assms in auto)

lemma rle_chunks_correct:
  "rle_chunks (word8 (replicate 8 b)) data = (ok, rest) \<Longrightarrow>
     (ok \<and> list_all (\<lambda>x. x = b) rest) \<longleftrightarrow> (\<forall>x \<in> set data. x = b)"
proof (induction "word8 (replicate 8 b)" data arbitrary: ok rest rule: rle_chunks.induct)
  case (1 data)
  show ?case
  proof (cases "length data < 32")
    case True
    then have "rle_chunks (word8 (replicate 8 b)) data = (True, data)" by (simp add: rle_chunks.simps)
    with "1.prems" have "ok" "rest = data" by simp_all
    then show ?thesis by (simp add: list_all_iff)
  next
    case False
    define c where "c = take 32 data"
    have lc: "length c = 32" using False by (simp add: c_def)
    define diff where "diff = foldl (\<lambda>diff i. diff OR (word8 (take 8 (drop (8 * i) c)) XOR word8 (replicate 8 b))) 0 [0, 1, 2, 3]"
    have "diff = 0 \<longleftrightarrow> (\<forall>i \<in> {0, 1, 2, 3}. word8 (take 8 (drop (8 * i) c)) XOR word8 (replicate 8 b) = 0)"
      by (simp add: diff_def or_eq_0_iff)
    also have "\<dots> \<longleftrightarrow> (\<forall>i \<in> {0, 1, 2, 3}. take 8 (drop (8 * i) c) = replicate 8 b)"
      using lc by (simp add: xor_eq_0_iff word8_eq_iff)
    also have "\<dots> \<longleftrightarrow> c = replicate 32 b" by (rule chunk_replicate [OF lc])
    finally have d: "diff = 0 \<longleftrightarrow> (\<forall>x \<in> set c. x = b)" using lc by (metis in_set_replicate replicate_eqI)
    have s: "set data = set c \<union> set (drop 32 data)"
      unfolding c_def by (metis append_take_drop_id set_append)
    have r: "rle_chunks (word8 (replicate 8 b)) data
        = (if diff = 0 then rle_chunks (word8 (replicate 8 b)) (drop 32 data) else (False, []))"
      using False by (subst rle_chunks.simps) (simp add: Let_def c_def diff_def)
    show ?thesis
    proof (cases "diff = 0")
      case True
      with r "1.prems" have "rle_chunks (word8 (replicate 8 b)) (drop 32 data) = (ok, rest)" by simp
      from "1.hyps" [OF \<open>\<not> length data < 32\<close> c_def diff_def True this] True s d show ?thesis by auto
    next
      case False
      with r "1.prems" have "\<not> ok" by simp
      moreover have "\<not> (\<forall>x \<in> set data. x = b)" using False d s by blast
      ultimately show ?thesis by simp
    qed
  qed
qed

text \<open>C18: \<open>is_rle\<close>, which compares 32 bytes per step as words, decides exactly whether a nonempty
  block consists of one byte repeated.\<close>

theorem is_rle_correct:
  "is_rle data = (data \<noteq> [] \<and> (\<forall>x \<in> set data. x = hd data))"
proof (cases data)
  case (Cons first xs)
  obtain ok rest where r: "rle_chunks (word8 (replicate 8 first)) data = (ok, rest)" by fastforce
  from rle_chunks_correct [OF this] r Cons show ?thesis by (simp add: is_rle_def del: replicate.simps)
qed (simp add: is_rle_def)

theorem is_rle_correct_witness:
  "is_rle (replicate 40 7) \<and> \<not> is_rle (replicate 33 7 @ [8])"
  using is_rle_correct [of "replicate 40 7"] is_rle_correct [of "replicate 33 7 @ [8]"] by simp

end
