(* ===== verification/Huffman_Weights.thy ===== *)
theory Huffman_Weights
  imports Fse_Header Bit_Reader
begin

text \<open>
  The weights of a Huffman tree description (\<open>src/src/decode.rs\<close>): \<open>WeightLanes\<close>, the FSE-coded
  and the raw weights (\<open>fse_decompress_weights\<close>, \<open>HuffmanTable::read_weights\<close>) and the
  statistics with the implied last weight (\<open>weight_stats\<close>).  The lemmas show that no input makes
  them panic or loop, that the 8-bit lanes count exactly, and that the accepted weights form a
  complete prefix code: the Kraft sum is a power of two of at most \<open>2 ^ 11\<close>.
\<close>

section \<open>Tables\<close>

definition HUF_TABLELOG_MAX :: nat where "HUF_TABLELOG_MAX = 11"
definition HUF_FAST_TABLE_LOG :: nat where "HUF_FAST_TABLE_LOG = HUF_TABLELOG_MAX"

record huffman_entry =
  he_symbol :: u8
  he_num_bits :: u8

record huf_entry_x2 =
  sequence :: nat
  x2_nb_bits :: nat
  x2_length :: nat

record huffman_table =
  decode :: "huffman_entry list"
  decode_x2 :: "huf_entry_x2 list"
  is_x2 :: bool
  weights :: "nat list"
  nb_symbols :: nat
  max_num_bits :: nat
  rank_stats :: "nat list"
  sorted_syms :: "nat list"
  huf_fse :: fse_table

definition huffman_new :: huffman_table where
  "huffman_new = \<lparr>decode = [], decode_x2 = [], is_x2 = False, weights = replicate 256 0, nb_symbols = 0,
     max_num_bits = 0, rank_stats = replicate (HUF_TABLELOG_MAX + 1) 0, sorted_syms = replicate 256 0,
     huf_fse = fse_new HUF_TABLELOG_MAX\<rparr>"

definition huffman_copy_from :: "huffman_table \<Rightarrow> huffman_table \<Rightarrow> huffman_table" where
  "huffman_copy_from t src =
     (let t = (if is_x2 src then t\<lparr>decode_x2 := decode_x2 src\<rparr> else t\<lparr>decode := decode src\<rparr>)
      in t\<lparr>is_x2 := is_x2 src, weights := weights src, nb_symbols := nb_symbols src,
           max_num_bits := max_num_bits src, rank_stats := rank_stats src, sorted_syms := sorted_syms src\<rparr>)"

definition huffman_reset :: "huffman_table \<Rightarrow> huffman_table" where
  "huffman_reset t = t\<lparr>is_x2 := False, nb_symbols := 0, max_num_bits := 0, huf_fse := fse_reset (huf_fse t)\<rparr>"

section \<open>Weight lanes\<close>

record weight_lanes =
  lanes_lo :: u64
  lanes_hi :: u64

definition lanes_default :: weight_lanes where
  "lanes_default = \<lparr>lanes_lo = 0, lanes_hi = 0\<rparr>"

definition lanes_add :: "weight_lanes \<Rightarrow> nat \<Rightarrow> nat \<Rightarrow> weight_lanes" where
  "lanes_add l w n =
     (let v = push_bit (8 * (w mod 8)) (word_of_nat n) in
      if w div 8 mod 2 = 0 then l\<lparr>lanes_lo := lanes_lo l + v\<rparr> else l\<lparr>lanes_hi := lanes_hi l + v\<rparr>)"

text \<open>The constant table \<open>ONE\<close> of \<open>bump\<close>.\<close>

definition lanes_one :: "nat \<Rightarrow> u64 \<times> u64" where
  "lanes_one w = (if w div 8 = 0 then (push_bit (8 * (w mod 8)) 1, 0) else (0, push_bit (8 * (w mod 8)) 1))"

definition lanes_bump :: "weight_lanes \<Rightarrow> nat \<Rightarrow> weight_lanes" where
  "lanes_bump l w =
     (let (lo, hi) = lanes_one (w mod 16) in \<lparr>lanes_lo = lanes_lo l + lo, lanes_hi = lanes_hi l + hi\<rparr>)"

definition lanes_get :: "weight_lanes \<Rightarrow> nat \<Rightarrow> nat" where
  "lanes_get l w =
     (let half = (if w div 8 mod 2 = 0 then lanes_lo l else lanes_hi l)
      in unat (drop_bit (8 * (w mod 8)) half) mod 256)"

section \<open>FSE-coded weights\<close>

definition fse_decode_symbol :: "fse_entry list \<Rightarrow> nat \<Rightarrow> bit_dstream \<Rightarrow> (nat \<times> nat \<times> bit_dstream) res" where
  "fse_decode_symbol dt state br =
     res_bind (index dt state) (\<lambda>cell.
     let (bits, br) = read_bits br (num_bits cell)
     in Inr (base_value cell mod 256, next_state cell + bits, br))"

text \<open>\<open>out[i] = v\<close>.\<close>

definition store :: "nat list \<Rightarrow> nat \<Rightarrow> nat \<Rightarrow> nat list res" where
  "store out i v = (if i < length out then Inr (out[i := v]) else Inl Panic)"

text \<open>The two interleaved states, the reader, the output and its position.\<close>

type_synonym weights_state = "nat \<times> nat \<times> bit_dstream \<times> nat list \<times> nat"

definition fse_weights4 :: "fse_entry list \<Rightarrow> weights_state \<Rightarrow> weights_state res" where
  "fse_weights4 dt s = (case s of (state1, state2, br, out, op) \<Rightarrow>
     res_bind (fse_decode_symbol dt state1 br) (\<lambda>(a, state1, br).
     res_bind (store out op a) (\<lambda>out.
     res_bind (fse_decode_symbol dt state2 br) (\<lambda>(b, state2, br).
     res_bind (store out (op + 1) b) (\<lambda>out.
     res_bind (fse_decode_symbol dt state1 br) (\<lambda>(c, state1, br).
     res_bind (store out (op + 2) c) (\<lambda>out.
     res_bind (fse_decode_symbol dt state2 br) (\<lambda>(d, state2, br).
     res_bind (store out (op + 3) d) (\<lambda>out.
     Inr (state1, state2, br, out, op + 4))))))))))"

lemma fse_weights4_op: "fse_weights4 dt (s1, s2, br, out, op) = Inr (s1', s2', br', out', op') \<Longrightarrow> op' = op + 4"
  by (auto simp: fse_weights4_def res_simps split: prod.splits)

function fse_weights_fast :: "fse_entry list \<Rightarrow> weights_state \<Rightarrow> weights_state res" where
  "fse_weights_fast dt (state1, state2, br, out, op) =
     res_bind (reload br) (\<lambda>(status, br).
     if status = Unfinished \<and> op < 255 - 3
     then res_bind (fse_weights4 dt (state1, state2, br, out, op)) (fse_weights_fast dt)
     else Inr (state1, state2, br, out, op))"
  by pat_completeness auto
termination
  by (relation "measure (\<lambda>(dt, s1, s2, br, out, op). 255 - op)") (auto dest!: fse_weights4_op)

declare fse_weights_fast.simps [simp del]

function fse_weights_tail :: "fse_entry list \<Rightarrow> weights_state \<Rightarrow> (nat list \<times> nat) res" where
  "fse_weights_tail dt (state1, state2, br, out, op) =
     (if 255 - 2 < op then Inl (Err (HufError HufTooManyWeights))
      else
      res_bind (fse_decode_symbol dt state1 br) (\<lambda>(a, state1, br).
      res_bind (store out op a) (\<lambda>out.
      res_bind (reload br) (\<lambda>(status, br).
      if status = Overflow then
        res_bind (fse_decode_symbol dt state2 br) (\<lambda>(b, state2, br).
        res_bind (store out (op + 1) b) (\<lambda>out. Inr (out, op + 1 + 1)))
      else if 255 - 2 < op + 1 then Inl (Err (HufError HufTooManyWeights))
      else
      res_bind (fse_decode_symbol dt state2 br) (\<lambda>(b, state2, br).
      res_bind (store out (op + 1) b) (\<lambda>out.
      res_bind (reload br) (\<lambda>(status, br).
      if status = Overflow then
        res_bind (fse_decode_symbol dt state1 br) (\<lambda>(c, state1, br).
        res_bind (store out (op + 2) c) (\<lambda>out. Inr (out, op + 2 + 1)))
      else fse_weights_tail dt (state1, state2, br, out, op + 2))))))))"
  by pat_completeness auto
termination
  by (relation "measure (\<lambda>(dt, s1, s2, br, out, op). 255 - op)") auto

declare fse_weights_tail.simps [simp del]

definition fse_decompress_weights :: "fse_table \<Rightarrow> u8 list \<Rightarrow> nat list \<Rightarrow> (nat list \<times> nat) res" where
  "fse_decompress_weights table src out =
     res_bind (fse_decode table) (\<lambda>dt.
     let table_log = accuracy_log table in
     res_bind (ds_new src) (\<lambda>br.
     let (state1, br) = read_bits br table_log in
     res_bind (reload br) (\<lambda>(_, br).
     let (state2, br) = read_bits br table_log in
     res_bind (reload br) (\<lambda>(_, br).
     res_bind (reload br) (\<lambda>(status, br).
     if status = Overflow then Inl (Err (HufError HufWeightsShort))
     else
     res_bind (fse_weights_fast dt (state1, state2, br, out, 0)) (\<lambda>s.
     fse_weights_tail dt s))))))"

section \<open>Reading the weights\<close>

definition read_weights :: "huffman_table \<Rightarrow> u8 list \<Rightarrow> (huffman_table \<times> nat \<times> nat) res" where
  "read_weights t source =
     (case source of
        [] \<Rightarrow> Inl (Err (HufError HufSourceEmpty))
      | h # _ \<Rightarrow>
        let header = unat h in
        if 128 \<le> header then
          let nb_weights = header - 127;
              sz = (nb_weights + 1) div 2
          in case get_range source 1 (1 + sz) of
               None \<Rightarrow> Inl (Err (HufError (HufRawWeights nb_weights)))
             | Some packed \<Rightarrow>
               let pairs = concat (map (\<lambda>b. [unat b div 16, unat b mod 16]) (take 128 packed))
               in Inr (t\<lparr>weights := put_slice (weights t) 0 pairs\<rparr>, 1 + sz, nb_weights)
        else
          (case get_range source 1 (1 + header) of
             None \<Rightarrow> Inl (Err (HufError (HufWeightBytes (length source - 1) header)))
           | Some src \<Rightarrow>
             res_bind (fse_build_decoder (huf_fse t) src 6 None) (\<lambda>(fse, ncount).
             res_bind (slice src ncount (length src)) (\<lambda>rest.
             res_bind (fse_decompress_weights fse rest (take 255 (weights t))) (\<lambda>(out, nb_weights).
             Inr (t\<lparr>huf_fse := fse, weights := out @ drop 255 (weights t)\<rparr>, 1 + header, nb_weights))))))"

section \<open>Statistics\<close>

definition lanes_count :: "nat list \<Rightarrow> weight_lanes" where
  "lanes_count ws = foldl lanes_bump lanes_default ws"

definition is_power_of_two :: "nat \<Rightarrow> bool" where
  "is_power_of_two n \<longleftrightarrow> n \<noteq> 0 \<and> n = 2 ^ (bit_length n - 1)"

definition weight_stats :: "huffman_table \<Rightarrow> nat \<Rightarrow> huffman_table res" where
  "weight_stats t nb_weights =
     res_bind (slice (weights t) 0 nb_weights) (\<lambda>ws.
     let counts = lanes_count ws in
     if list_ex (\<lambda>w. lanes_get counts w \<noteq> 0) [HUF_TABLELOG_MAX + 1..<16] then
       (case find (\<lambda>w. HUF_TABLELOG_MAX < w) ws of
          None \<Rightarrow> Inl Panic
        | Some w \<Rightarrow> Inl (Err (HufError (HufWeightMax w))))
     else
     let ranks = map (\<lambda>w. lanes_get counts w) [0..<HUF_TABLELOG_MAX + 1];
         weight_total = (\<Sum>w\<leftarrow>[0..<HUF_TABLELOG_MAX + 1]. ranks ! w * (2 ^ w div 2))
     in
     if weight_total = 0 then Inl (Err (HufError HufMissingWeights))
     else
     res_bind (highest_bit_set weight_total) (\<lambda>table_log.
     if HUF_TABLELOG_MAX < table_log then Inl (Err (HufError (HufMaxBits table_log)))
     else
     let rest = 2 ^ table_log - weight_total in
     if \<not> is_power_of_two rest then Inl (Err (HufError (HufLeftover rest)))
     else
     res_bind (highest_bit_set rest) (\<lambda>last_weight.
     res_bind (store (weights t) nb_weights last_weight) (\<lambda>wts.
     res_bind (index ranks last_weight) (\<lambda>n.
     let ranks = ranks[last_weight := n + 1] in
     if ranks ! 1 < 2 \<or> ranks ! 1 mod 2 \<noteq> 0 then Inl (Err (HufError (HufWeightOne (ranks ! 1))))
     else Inr (t\<lparr>weights := wts, rank_stats := ranks, nb_symbols := nb_weights + 1,
                 max_num_bits := table_log\<rparr>))))))"

definition decode_huf_weights_from_fse :: "u8 list \<Rightarrow> u8 \<Rightarrow> nat list res" where
  "decode_huf_weights_from_fse source header =
     res_bind (read_weights huffman_new (header # source)) (\<lambda>(ht, _, nb_weights).
     slice (weights ht) 0 nb_weights)"

section \<open>Lanes hold their counters\<close>

text \<open>The number whose base-256 digits are the counters of eight lanes, some of which may be too large.\<close>

definition lane_num :: "(nat \<Rightarrow> nat) \<Rightarrow> nat" where
  "lane_num f = (\<Sum>j<8. f j * 256 ^ j)"

lemma digit_sum:
  assumes "\<forall>j<k. f j < 256" and "k < n"
  shows "(\<Sum>j<n. f j * 256 ^ j) div 256 ^ k mod 256 = f k mod (256::nat)"
  using assms
proof (induction k arbitrary: f n)
  case 0
  then obtain m where n: "n = Suc m" by (cases n) auto
  have "(\<Sum>j<n. f j * 256 ^ j) = f 0 + 256 * (\<Sum>j<m. f (Suc j) * 256 ^ j)"
    unfolding n sum.lessThan_Suc_shift by (simp add: sum_distrib_left ac_simps)
  then show ?case by simp
next
  case (Suc k)
  then obtain m where n: "n = Suc m" by (cases n) auto
  have "(\<Sum>j<n. f j * 256 ^ j) = f 0 + 256 * (\<Sum>j<m. f (Suc j) * 256 ^ j)"
    unfolding n sum.lessThan_Suc_shift by (simp add: sum_distrib_left ac_simps)
  moreover have "f 0 < 256" using Suc.prems by auto
  ultimately have "(\<Sum>j<n. f j * 256 ^ j) div 256 = (\<Sum>j<m. f (Suc j) * 256 ^ j)" by simp
  then have "(\<Sum>j<n. f j * 256 ^ j) div 256 ^ Suc k = (\<Sum>j<m. f (Suc j) * 256 ^ j) div 256 ^ k"
    by (simp add: div_mult2_eq)
  then show ?case using Suc.IH [of "\<lambda>j. f (Suc j)" m] Suc.prems n by auto
qed

lemma lane_digit:
  assumes "k < 8" and "\<forall>j<k. f j < 256"
  shows "unat (drop_bit (8 * k) (word_of_nat (lane_num f) :: u64)) mod 256 = f k mod 256"
proof -
  have "unat (drop_bit (8 * k) (word_of_nat (lane_num f) :: u64)) = lane_num f mod 2 ^ 64 div 2 ^ (8 * k)"
    by (simp add: unat_drop_bit_div unat_of_nat)
  also have "(2::nat) ^ 64 = 256 ^ k * 256 ^ (8 - k)"
    unfolding power_256 power_add [symmetric] using assms(1) by (intro arg_cong [of _ _ "\<lambda>e. 2 ^ e"]) simp
  also have "lane_num f mod (256 ^ k * 256 ^ (8 - k)) div 2 ^ (8 * k) = lane_num f div 256 ^ k mod 256 ^ (8 - k)"
    by (simp add: mod_mult2_eq flip: power_256)
  also have "(256::nat) ^ (8 - k) = 256 * 256 ^ (7 - k)" using assms(1) by (simp flip: power_Suc add: Suc_diff_le)
  finally have "unat (drop_bit (8 * k) (word_of_nat (lane_num f) :: u64)) mod 256 = lane_num f div 256 ^ k mod 256"
    by (simp add: mod_mult2_eq)
  also have "\<dots> = f k mod 256" unfolding lane_num_def using assms by (intro digit_sum) auto
  finally show ?thesis .
qed

text \<open>Lanes that hold the counters \<open>f\<close>.\<close>

definition lanes_are :: "weight_lanes \<Rightarrow> (nat \<Rightarrow> nat) \<Rightarrow> bool" where
  "lanes_are l f \<longleftrightarrow> lanes_lo l = word_of_nat (lane_num f) \<and> lanes_hi l = word_of_nat (lane_num (\<lambda>j. f (8 + j)))"

lemma lanes_are_default: "lanes_are lanes_default (\<lambda>w. 0)"
  by (simp add: lanes_are_def lanes_default_def lane_num_def)

lemma lane_num_add: "k < 8 \<Longrightarrow> lane_num (f(k := f k + n)) = lane_num f + n * 256 ^ k"
proof -
  assume k: "k < 8"
  have "lane_num (f(k := f k + n)) = (\<Sum>j<8. f j * 256 ^ j + (if j = k then n * 256 ^ k else 0))"
    unfolding lane_num_def by (rule sum.cong) (auto simp: algebra_simps)
  also have "\<dots> = lane_num f + n * 256 ^ k" using k by (simp add: sum.distrib lane_num_def)
  finally show ?thesis .
qed

lemma lane_num_other: "(\<And>j. j < 8 \<Longrightarrow> f j = g j) \<Longrightarrow> lane_num f = lane_num g"
  by (simp add: lane_num_def)

lemma push_lane: "push_bit (8 * k) (word_of_nat n :: u64) = word_of_nat (n * 256 ^ k)"
  by (simp add: push_bit_eq_mult power_256)

lemma lanes_add_are:
  assumes "lanes_are l f" and "w < 16"
  shows "lanes_are (lanes_add l w n) (f(w := f w + n))"
proof (cases "w < 8")
  case True
  then have "lanes_add l w n = l\<lparr>lanes_lo := lanes_lo l + word_of_nat (n * 256 ^ w)\<rparr>"
    by (simp add: lanes_add_def push_lane del: of_nat_mult)
  moreover have "lane_num (\<lambda>j. (f(w := f w + n)) (8 + j)) = lane_num (\<lambda>j. f (8 + j))"
    using True by (intro lane_num_other) auto
  ultimately show ?thesis
    using assms(1) lane_num_add [OF True, of f n] by (simp add: lanes_are_def)
next
  case False
  define k where "k = w - 8"
  have k: "w = 8 + k" "k < 8" using False assms(2) by (auto simp: k_def)
  then have "lanes_add l w n = l\<lparr>lanes_hi := lanes_hi l + word_of_nat (n * 256 ^ k)\<rparr>"
    using push_lane [of k n] by (simp add: lanes_add_def div_add_self1)
  moreover have "lane_num (f(w := f w + n)) = lane_num f"
    using False by (intro lane_num_other) auto
  moreover have "lane_num (\<lambda>j. (f(w := f w + n)) (8 + j)) = lane_num (\<lambda>j. f (8 + j)) + n * 256 ^ k"
    using lane_num_add [OF k(2), of "\<lambda>j. f (8 + j)" n] k(1)
    by (simp add: fun_upd_def cong: lane_num_other)
  ultimately show ?thesis using assms(1) by (simp add: lanes_are_def)
qed

lemma lanes_bump_add: "w < 16 \<Longrightarrow> lanes_bump l w = lanes_add l w 1"
  by (cases "w < 8") (auto simp: lanes_bump_def lanes_add_def lanes_one_def Let_def)

lemma lanes_get_are:
  assumes "lanes_are l f" and "w < 16" and "\<forall>j<w. f j < 256" and "f w < 256"
  shows "lanes_get l w = f w"
proof (cases "w < 8")
  case True
  then show ?thesis using assms lane_digit [OF True, of f] by (simp add: lanes_get_def lanes_are_def)
next
  case False
  define k where "k = w - 8"
  have k: "w = 8 + k" "k < 8" using False assms(2) by (auto simp: k_def)
  then show ?thesis
    using assms lane_digit [OF k(2), of "\<lambda>j. f (8 + j)"]
    by (simp add: lanes_get_def lanes_are_def div_add_self1)
qed

lemma lanes_count_are:
  "\<forall>w \<in> set ws. w < 16 \<Longrightarrow> lanes_are l f \<Longrightarrow> lanes_are (foldl lanes_bump l ws) (\<lambda>w. f w + count_list ws w)"
proof (induction ws arbitrary: l f)
  case Nil
  then show ?case by simp
next
  case (Cons x ws)
  have "lanes_are (lanes_bump l x) (f(x := f x + 1))"
    using Cons.prems lanes_add_are [of l f x 1] by (simp add: lanes_bump_add)
  from Cons.IH [OF _ this] Cons.prems
  have "lanes_are (foldl lanes_bump (lanes_bump l x) ws) (\<lambda>w. (f(x := f x + 1)) w + count_list ws w)"
    by (simp del: fun_upd_apply)
  moreover have "(\<lambda>w. (f(x := f x + 1)) w + count_list ws w) = (\<lambda>w. f w + count_list (x # ws) w)" by auto
  ultimately show ?case by (simp del: fun_upd_apply)
qed

lemma lanes_count_get:
  assumes "\<forall>w \<in> set ws. w < 16" and "length ws < 256" and "w < 16"
  shows "lanes_get (lanes_count ws) w = count_list ws w"
proof -
  have c: "count_list ws j < 256" for j using assms(2) count_le_length [of ws j] by simp
  have "lanes_are (lanes_count ws) (\<lambda>w. count_list ws w)"
    using lanes_count_are [OF assms(1) lanes_are_default] by (simp add: lanes_count_def)
  then show ?thesis using c assms(3) by (intro lanes_get_are) auto
qed

section \<open>Walking an FSE table\<close>

lemma look_bits_any_less: "n < 64 \<Longrightarrow> look_bits_any br n < 2 ^ n"
proof -
  assume n: "n < 64"
  define x where "x = push_bit (bits_consumed br mod 64) (container br)"
  have "unat x < 2 ^ 64" using unsigned_less [of x] by simp
  also have "(2::nat) ^ 64 = 2 ^ n * 2 ^ (64 - n)" using n by (simp flip: power_add)
  finally have "unat x div 2 ^ (64 - n) < 2 ^ n" by (rule less_mult_imp_div_less)
  moreover have "(2::nat) ^ (64 - n) = 2 ^ 1 * 2 ^ (63 - n)" using n by (simp flip: power_add power_Suc add: Suc_diff_le)
  ultimately show ?thesis
    using n by (simp add: look_bits_any_def unat_drop_bit_div div_mult2_eq flip: x_def)
qed

text \<open>A table in which a state stays a valid index and symbols are below \<open>m\<close>.\<close>

definition walkable :: "fse_entry list \<Rightarrow> nat \<Rightarrow> bool" where
  "walkable dt m \<longleftrightarrow> (\<forall>c \<in> set dt. next_state c + 2 ^ num_bits c \<le> length dt \<and> num_bits c < 64 \<and> base_value c mod 256 < m)"

lemma fse_decode_symbol_ok:
  assumes "walkable dt m" and "state < length dt" and "ds_inv br"
  shows "\<exists>sym state' br'. fse_decode_symbol dt state br = Inr (sym, state', br')
    \<and> sym < m \<and> state' < length dt \<and> ds_inv br'"
proof -
  let ?c = "dt ! state"
  have c: "next_state ?c + 2 ^ num_bits ?c \<le> length dt" "num_bits ?c < 64" "base_value ?c mod 256 < m"
    using assms(1,2) by (auto simp: walkable_def)
  from look_bits_any_less [OF c(2), of br] c assms show ?thesis
    by (simp add: fse_decode_symbol_def read_bits_def)
qed

lemma store_ok: "i < length out \<Longrightarrow> store out i v = Inr (out[i := v])"
  by (simp add: store_def)

text \<open>The invariant of the two loops: valid states and an output whose first \<open>op\<close> weights are
  below \<open>m\<close>.\<close>

definition weights_ok :: "fse_entry list \<Rightarrow> nat \<Rightarrow> weights_state \<Rightarrow> bool" where
  "weights_ok dt m s = (case s of (state1, state2, br, out, op) \<Rightarrow>
     state1 < length dt \<and> state2 < length dt \<and> ds_inv br \<and> length out = 255 \<and> op \<le> 255
     \<and> (\<forall>w \<in> set (take op out). w < m))"

lemma take_store: "op < length out \<Longrightarrow> set (take (Suc op) (out[op := v])) = insert v (set (take op out))"
  by (simp add: take_Suc_conv_app_nth)

lemma fse_weights4_ok:
  assumes "walkable dt m" and "weights_ok dt m (s1, s2, br, out, op)" and "op < 252"
  shows "\<exists>s'. fse_weights4 dt (s1, s2, br, out, op) = Inr s' \<and> weights_ok dt m s'"
proof -
  note w = assms(2) [unfolded weights_ok_def prod.case]
  obtain a s1a br1 where 1: "fse_decode_symbol dt s1 br = Inr (a, s1a, br1)" "a < m" "s1a < length dt" "ds_inv br1"
    using fse_decode_symbol_ok [OF assms(1), of s1 br] w by auto
  obtain b s2a br2 where 2: "fse_decode_symbol dt s2 br1 = Inr (b, s2a, br2)" "b < m" "s2a < length dt" "ds_inv br2"
    using fse_decode_symbol_ok [OF assms(1), of s2 br1] w 1 by auto
  obtain c s1b br3 where 3: "fse_decode_symbol dt s1a br2 = Inr (c, s1b, br3)" "c < m" "s1b < length dt" "ds_inv br3"
    using fse_decode_symbol_ok [OF assms(1), of s1a br2] 1 2 by auto
  obtain d s2b br4 where 4: "fse_decode_symbol dt s2a br3 = Inr (d, s2b, br4)" "d < m" "s2b < length dt" "ds_inv br4"
    using fse_decode_symbol_ok [OF assms(1), of s2a br3] 2 3 by auto
  have t: "set (take (op + 4) (out[op := a, op + 1 := b, op + 2 := c, op + 3 := d])) = {a, b, c, d} \<union> set (take op out)"
    using w assms(3) by (simp add: take_Suc_conv_app_nth eval_nat_numeral)
  show ?thesis
    using 1 2 3 4 w assms(3) t
    by (simp add: fse_weights4_def store_ok weights_ok_def)
qed

lemma fse_weights_fast_ok:
  "walkable dt m \<Longrightarrow> weights_ok dt m s \<Longrightarrow> \<exists>s'. fse_weights_fast dt s = Inr s' \<and> weights_ok dt m s'"
proof (induction "255 - snd (snd (snd (snd s)))" arbitrary: s rule: less_induct)
  case less
  obtain s1 s2 br out op where s: "s = (s1, s2, br, out, op)" by (cases s) auto
  have i: "ds_inv br" using less.prems s by (simp add: weights_ok_def)
  from reload_total [OF i] obtain st br1 where r: "reload br = Inr (st, br1)" "ds_inv br1" by blast
  have w1: "weights_ok dt m (s1, s2, br1, out, op)" using less.prems r s by (simp add: weights_ok_def)
  show ?case
  proof (cases "st = Unfinished \<and> op < 252")
    case True
    then obtain s' where s': "fse_weights4 dt (s1, s2, br1, out, op) = Inr s'" "weights_ok dt m s'"
      using fse_weights4_ok [OF less.prems(1) w1] by auto
    obtain x where x: "s' = x" "snd (snd (snd (snd s'))) = op + 4"
      using fse_weights4_op [of dt s1 s2 br1 out op] s'(1) by (cases s') auto
    have "255 - snd (snd (snd (snd s'))) < 255 - snd (snd (snd (snd s)))"
      using x True by (simp add: s) linarith
    from less.hyps [OF this less.prems(1) s'(2)] obtain s'' where
      "fse_weights_fast dt s' = Inr s''" "weights_ok dt m s''" by blast
    then show ?thesis using r s' True by (simp add: s fse_weights_fast.simps)
  next
    case False
    then show ?thesis using r w1 by (auto simp: s fse_weights_fast.simps)
  qed
qed

lemma fse_weights_tail_ok:
  "walkable dt m \<Longrightarrow> weights_ok dt m s \<Longrightarrow>
     fse_weights_tail dt s = Inl (Err (HufError HufTooManyWeights)) \<or>
     (\<exists>out n. fse_weights_tail dt s = Inr (out, n) \<and> length out = 255 \<and> n \<le> 255 \<and> 2 \<le> n
       \<and> (\<forall>w \<in> set (take n out). w < m))"
proof (induction "255 - snd (snd (snd (snd s)))" arbitrary: s rule: less_induct)
  case less
  obtain s1 s2 br out op where s: "s = (s1, s2, br, out, op)" by (cases s) auto
  note w = less.prems(2) [unfolded s weights_ok_def prod.case]
  show ?case
  proof (cases "253 < op")
    case True
    then show ?thesis by (simp add: s fse_weights_tail.simps)
  next
    case False
    obtain a s1a br1 where 1: "fse_decode_symbol dt s1 br = Inr (a, s1a, br1)" "a < m" "s1a < length dt" "ds_inv br1"
      using fse_decode_symbol_ok [OF less.prems(1), of s1 br] w by auto
    from reload_total [OF 1(4)] obtain st br2 where r: "reload br1 = Inr (st, br2)" "ds_inv br2" by blast
    obtain b s2a br3 where 2: "fse_decode_symbol dt s2 br2 = Inr (b, s2a, br3)" "b < m" "s2a < length dt" "ds_inv br3"
      using fse_decode_symbol_ok [OF less.prems(1), of s2 br2] w r by auto
    have t1: "set (take (op + 1) (out[op := a])) = insert a (set (take op out))"
      using w False by (simp add: take_store)
    have t2: "set (take (op + 2) (out[op := a, op + 1 := b])) = insert b (insert a (set (take op out)))"
      using w False take_store [of "Suc op" "out[op := a]" b] t1 by simp
    show ?thesis
    proof (cases "st = Overflow \<or> 253 < op + 1")
      case True
      then show ?thesis
        using 1 2 r w False t2
        by (auto simp: s fse_weights_tail.simps [of dt s1 s2 br out op] store_ok)
    next
      case go: False
      from reload_total [OF 2(4)] obtain st2 br4 where r2: "reload br3 = Inr (st2, br4)" "ds_inv br4" by blast
      obtain c s1b br5 where 3: "fse_decode_symbol dt s1a br4 = Inr (c, s1b, br5)" "c < m"
        using fse_decode_symbol_ok [OF less.prems(1), of s1a br4] 1 r2 by auto
      have t3: "set (take (op + 3) (out[op := a, op + 1 := b, op + 2 := c])) = insert c (insert b (insert a (set (take op out))))"
        using w go take_store [of "op + 2" "out[op := a, op + 1 := b]" c] t2 by (simp add: numeral_3_eq_3)
      have eq: "fse_weights_tail dt s = (if st2 = Overflow then Inr (out[op := a, op + 1 := b, op + 2 := c], op + 3)
          else fse_weights_tail dt (s1a, s2a, br4, out[op := a, op + 1 := b], op + 2))"
        using 1 2 3 r r2 w False go
        by (simp add: s fse_weights_tail.simps [of dt s1 s2 br out op] store_ok)
      show ?thesis
      proof (cases "st2 = Overflow")
        case True
        then show ?thesis unfolding eq using t3 1 2 3 w go by auto
      next
        case False
        have "weights_ok dt m (s1a, s2a, br4, out[op := a, op + 1 := b], op + 2)"
          using t2 1 2 r2 w go by (auto simp: weights_ok_def)
        moreover have "255 - (op + 2) < 255 - op" using go by linarith
        ultimately show ?thesis
          unfolding eq using less.hyps [of "(s1a, s2a, br4, out[op := a, op + 1 := b], op + 2)"] less.prems(1) False
          by (simp add: s)
      qed
    qed
  qed
qed

lemma fse_decompress_weights_ok:
  assumes wf: "fse_wf t" and w: "walkable (take (tsize t) (cells t)) m" and out: "length out = 255"
  shows "(\<exists>e. fse_decompress_weights t src out = Inl (Err (HufError e))) \<or>
     (\<exists>out' n. fse_decompress_weights t src out = Inr (out', n) \<and> length out' = 255 \<and> n \<le> 255 \<and> 2 \<le> n
       \<and> (\<forall>w \<in> set (take n out'). w < m))"
proof -
  define dt where "dt = take (tsize t) (cells t)"
  have dt: "fse_decode t = Inr dt" "length dt = 2 ^ accuracy_log t" "accuracy_log t < 64"
    using wf by (auto simp: fse_decode_def fse_wf_def dt_def)
  consider (err) e where "ds_new src = Inl (Err (HufError e))" | (ok) br where "ds_new src = Inr br" "ds_inv br"
    using ds_new_cases [of src] ds_new_ready [of src] by (auto simp: ds_ready_def)
  then show ?thesis
  proof cases
    case err
    then show ?thesis using dt by (simp add: fse_decompress_weights_def)
  next
    case ok
    define s1 where "s1 = look_bits_any br (accuracy_log t)"
    from reload_total [of "skip_bits br (accuracy_log t)"] ok obtain st1 br1 where
      1: "reload (skip_bits br (accuracy_log t)) = Inr (st1, br1)" "ds_inv br1" by auto
    define s2 where "s2 = look_bits_any br1 (accuracy_log t)"
    from reload_total [of "skip_bits br1 (accuracy_log t)"] 1 obtain st2 br2 where
      2: "reload (skip_bits br1 (accuracy_log t)) = Inr (st2, br2)" "ds_inv br2" by auto
    from reload_total [OF 2(2)] obtain st3 br3 where 3: "reload br2 = Inr (st3, br3)" "ds_inv br3" by blast
    have eq: "fse_decompress_weights t src out = (if st3 = Overflow then Inl (Err (HufError HufWeightsShort))
        else res_bind (fse_weights_fast dt (s1, s2, br3, out, 0)) (fse_weights_tail dt))"
      using dt ok 1 2 3 by (simp add: fse_decompress_weights_def Let_def read_bits_def s1_def s2_def)
    have "weights_ok dt m (s1, s2, br3, out, 0)"
      using 3 out dt look_bits_any_less [OF dt(3)] by (simp add: weights_ok_def s1_def s2_def)
    from fse_weights_fast_ok [OF w [folded dt_def] this] obtain s where
      "fse_weights_fast dt (s1, s2, br3, out, 0) = Inr s" "weights_ok dt m s" by blast
    with fse_weights_tail_ok [OF w [folded dt_def], of s] show ?thesis unfolding eq by auto
  qed
qed

section \<open>The weights read\<close>

text \<open>Every table of this component that a caller can hold: 256 weights, and an FSE scratch table over
  the weights up to the maximum.\<close>

definition huffman_inv :: "huffman_table \<Rightarrow> bool" where
  "huffman_inv t \<longleftrightarrow> length (weights t) = 256 \<and> length (sorted_syms t) = 256
     \<and> length (rank_stats t) = 12 \<and> max_symbol (huf_fse t) = 11"

lemma huffman_new_inv: "huffman_inv huffman_new"
  by (simp add: huffman_inv_def huffman_new_def fse_new_def HUF_TABLELOG_MAX_def)

lemma walkable_built:
  assumes "fse_wf t" and "fse_cells None (accuracy_log t) cs (take (tsize t) (cells t)) syms" and "length cs \<le> m" and "m \<le> 256"
  shows "walkable (take (tsize t) (cells t)) m"
  unfolding walkable_def
proof
  fix c
  assume "c \<in> set (take (tsize t) (cells t))"
  then obtain i where i: "i < tsize t" "c = cells t ! i" by (auto simp: in_set_conv_nth)
  have sz: "tsize t = 2 ^ accuracy_log t" "tsize t \<le> length (cells t)" using assms(1) by (auto simp: fse_wf_def)
  have il: "i < 2 ^ accuracy_log t" using i sz by simp
  have "cell_is None (accuracy_log t) (syms ! i)
      (cell_count (cs ! (syms ! i)) + count_list (take i syms) (syms ! i)) (take (tsize t) (cells t) ! i)"
    using assms(2) il unfolding fse_cells_def by blast
  then have b: "base_value c = syms ! i" using i by (simp add: cell_is_def)
  have len: "length syms = 2 ^ accuracy_log t" using assms(2) by (simp add: fse_cells_def)
  then have "syms ! i \<in> set syms" using il by simp
  then have "count_list syms (syms ! i) \<noteq> 0" by (simp add: count_list_0_iff)
  moreover have "count_list syms (syms ! i) = (if syms ! i < length cs then cell_count (cs ! (syms ! i)) else 0)"
    using assms(2) by (simp add: fse_cells_def)
  ultimately have "syms ! i < length cs" by (auto split: if_splits)
  with b assms(3,4) have "base_value c mod 256 < m" by simp
  moreover have "next_state c + 2 ^ num_bits c \<le> tsize t" "num_bits c < 64" using assms(1) i by (auto simp: fse_wf_def)
  ultimately show "next_state c + 2 ^ num_bits c \<le> length (take (tsize t) (cells t)) \<and> num_bits c < 64
      \<and> base_value c mod 256 < m" using sz by simp
qed

lemma fse_weights_total:
  assumes "max_symbol t = 11" and "length out = 255"
  shows "(\<exists>e. res_bind (fse_build_decoder t src 6 None) (\<lambda>(fse, n).
      res_bind (slice src n (length src)) (\<lambda>rest. res_bind (fse_decompress_weights fse rest out) (\<lambda>r. Inr (fse, r))))
      = Inl (Err e)) \<or>
    (\<exists>fse out' n. res_bind (fse_build_decoder t src 6 None) (\<lambda>(fse, n).
      res_bind (slice src n (length src)) (\<lambda>rest. res_bind (fse_decompress_weights fse rest out) (\<lambda>r. Inr (fse, r))))
      = Inr (fse, out', n) \<and> max_symbol fse = 11 \<and> length out' = 255 \<and> n \<le> 255 \<and> (\<forall>w \<in> set (take n out'). w < 12))"
proof -
  have "codes_cover None (max_symbol t + 1)" by (simp add: codes_cover_def)
  with fse_build_decoder_cases [of 6 t None src] assms(1) consider
    (err) e where "fse_build_decoder t src 6 None = Inl (Err (FseError e))"
  | (ok) t' n syms where "fse_build_decoder t src 6 None = Inr (t', n)" "n \<le> length src" "fse_wf t'"
      "max_symbol t' = 11" "length (symbol_probabilities t') \<le> 12"
      "fse_cells None (accuracy_log t') (symbol_probabilities t') (take (tsize t') (cells t')) syms"
    by auto
  then show ?thesis
  proof cases
    case err
    then show ?thesis by simp
  next
    case ok
    have w: "walkable (take (tsize t') (cells t')) 12"
      using walkable_built [OF ok(3,6,5)] by simp
    from fse_decompress_weights_ok [OF ok(3) w assms(2), of "drop n src"] show ?thesis
      using ok(1,2,4) by auto
  qed
qed

lemma read_weights_total:
  assumes "huffman_inv t"
  shows "(\<exists>e. read_weights t src = Inl (Err e)) \<or>
    (\<exists>t' used nb. read_weights t src = Inr (t', used, nb) \<and> huffman_inv t' \<and> used \<le> length src \<and> nb \<le> 255
      \<and> (\<forall>w \<in> set (take nb (weights t')). w < 16) \<and> nb \<le> length (weights t'))"
proof (cases src)
  case Nil
  then show ?thesis by (simp add: read_weights_def)
next
  case (Cons h tl)
  define header where "header = unat h"
  have h256: "header < 256" using unsigned_less [of h] by (simp add: header_def)
  show ?thesis
  proof (cases "128 \<le> header")
    case True
    define nb where "nb = header - 127"
    define sz where "sz = (nb + 1) div 2"
    have nb: "nb \<le> 128" "nb \<le> 2 * sz" "sz \<le> 64" using h256 True by (auto simp: nb_def sz_def)
    show ?thesis
    proof (cases "1 + sz \<le> length src")
      case False
      then have "read_weights t src = Inl (Err (HufError (HufRawWeights nb)))"
        using True Cons by (simp add: read_weights_def Let_def get_range_def nb_def sz_def header_def)
      then show ?thesis by blast
    next
      case len: True
      define packed where "packed = take sz (drop 1 src)"
      have lp: "length packed = sz" using len by (simp add: packed_def)
      define pairs where "pairs = concat (map (\<lambda>b. [unat b div 16, unat b mod 16]) packed)"
      have lc: "length (concat (map (\<lambda>b. [unat b div 16, unat b mod 16]) xs)) = 2 * length xs" for xs :: "u8 list"
        by (induction xs) auto
      have l2: "length pairs = 2 * sz" using lp by (simp add: pairs_def lc)
      have p16: "\<forall>w \<in> set pairs. w < 16"
      proof
        fix w
        assume "w \<in> set pairs"
        then obtain b :: u8 where "w = unat b div 16 \<or> w = unat b mod 16" by (auto simp: pairs_def)
        moreover have "unat b < 256" using unsigned_less [of b] by simp
        ultimately show "w < 16" by auto
      qed
      have "read_weights t src = Inr (t\<lparr>weights := put_slice (weights t) 0 pairs\<rparr>, 1 + sz, nb)"
        using True Cons len lp nb
        by (simp add: read_weights_def Let_def get_range_def nb_def sz_def header_def pairs_def packed_def)
      moreover have "huffman_inv (t\<lparr>weights := put_slice (weights t) 0 pairs\<rparr>)"
        using assms l2 nb by (simp add: huffman_inv_def)
      moreover have "set (take nb (put_slice (weights t) 0 pairs)) \<subseteq> set pairs"
        using nb l2 by (simp add: put_slice_def set_take_subset)
      ultimately show ?thesis
        using len nb l2 p16 assms by (fastforce simp: huffman_inv_def)
    qed
  next
    case False
    show ?thesis
    proof (cases "1 + header \<le> length src")
      case no: False
      then show ?thesis
        using False Cons by (simp add: read_weights_def Let_def get_range_def header_def)
    next
      case True
      define s where "s = take header (drop 1 src)"
      have "max_symbol (huf_fse t) = 11" "length (take 255 (weights t)) = 255" using assms by (auto simp: huffman_inv_def)
      from fse_weights_total [OF this, of s] consider
        (err) e where "res_bind (fse_build_decoder (huf_fse t) s 6 None) (\<lambda>(fse, n).
            res_bind (slice s n (length s)) (\<lambda>rest. res_bind (fse_decompress_weights fse rest (take 255 (weights t))) (\<lambda>r. Inr (fse, r))))
          = Inl (Err e)"
      | (ok) fse out n where "res_bind (fse_build_decoder (huf_fse t) s 6 None) (\<lambda>(fse, n).
            res_bind (slice s n (length s)) (\<lambda>rest. res_bind (fse_decompress_weights fse rest (take 255 (weights t))) (\<lambda>r. Inr (fse, r))))
          = Inr (fse, out, n)" "max_symbol fse = 11" "length out = 255" "n \<le> 255" "\<forall>w \<in> set (take n out). w < 12"
        by blast
      then show ?thesis
      proof cases
        case err
        then have "read_weights t src = Inl (Err e)"
          using False True Cons
          by (auto simp: read_weights_def Let_def get_range_def header_def s_def res_simps split: prod.splits)
        then show ?thesis by blast
      next
        case ok
        then have "read_weights t src = Inr (t\<lparr>huf_fse := fse, weights := out @ drop 255 (weights t)\<rparr>, 1 + header, n)"
          using False True Cons
          by (auto simp: read_weights_def Let_def get_range_def header_def s_def res_simps split: prod.splits)
        moreover have "huffman_inv (t\<lparr>huf_fse := fse, weights := out @ drop 255 (weights t)\<rparr>)"
          using assms ok by (simp add: huffman_inv_def)
        ultimately show ?thesis using ok True by fastforce
      qed
    qed
  qed
qed

section \<open>Complete prefix codes\<close>

text \<open>The cells a list of weights takes: a weight \<open>w > 0\<close> takes \<open>2 ^ (w - 1)\<close>.\<close>

definition kraft :: "nat list \<Rightarrow> nat" where
  "kraft ws = (\<Sum>w\<leftarrow>ws. 2 ^ w div 2)"

text \<open>The weights of a full binary tree of depth \<open>k\<close>: RFC 8878 section 4.2.1.\<close>

definition complete_code :: "nat list \<Rightarrow> nat \<Rightarrow> bool" where
  "complete_code ws k \<longleftrightarrow> list_all (\<lambda>w. w \<le> HUF_TABLELOG_MAX) ws \<and> kraft ws = 2 ^ k \<and> k \<le> HUF_TABLELOG_MAX
     \<and> 2 \<le> count_list ws 1 \<and> even (count_list ws 1)"

lemma kraft_counts:
  assumes "\<forall>w \<in> set ws. w < n"
  shows "(\<Sum>w\<leftarrow>[0..<n]. count_list ws w * (2 ^ w div 2)) = kraft ws"
proof -
  have "kraft ws = (\<Sum>w\<in>{0..<n}. count_list ws w * (2 ^ w div 2))"
    unfolding kraft_def using assms by (intro sum_list_map_eq_sum_count2) auto
  then show ?thesis by (simp add: sum_list_distinct_conv_sum_set)
qed

lemma kraft_append [simp]: "kraft (xs @ ys) = kraft xs + kraft ys"
  by (simp add: kraft_def)

lemma kraft_member: "w \<in> set ws \<Longrightarrow> 2 ^ w div 2 \<le> kraft ws"
  unfolding kraft_def by (intro member_le_sum_list) auto

lemma kraft_one_pos: "count_list ws 1 \<noteq> 0 \<Longrightarrow> 0 < kraft ws"
  using kraft_member [of 1 ws] by (auto simp: count_list_0_iff)

lemma last_weight_unique:
  assumes "0 < s" and "s + 2 ^ j = (2::nat) ^ k"
  shows "bit_length s = k \<and> 2 ^ k - s = 2 ^ j \<and> j < k"
proof -
  have jk: "j < k"
  proof (rule ccontr)
    assume "\<not> j < k"
    then have "(2::nat) ^ k \<le> 2 ^ j" by simp
    with assms show False by linarith
  qed
  then obtain m where m: "k = Suc m" "j \<le> m" by (cases k) auto
  have "(2::nat) ^ j \<le> 2 ^ m" using m(2) by simp
  moreover have "s + 2 ^ j = 2 * 2 ^ m" "0 < (2::nat) ^ j" using assms m(1) by auto
  ultimately have "2 ^ m \<le> s" "s < 2 ^ Suc m" unfolding power_Suc by linarith+
  from bit_length_eqI [OF this] show ?thesis using m assms jk by auto
qed

lemma power_of_two_iff: "is_power_of_two n \<longleftrightarrow> (\<exists>j. n = 2 ^ j)"
proof
  assume "\<exists>j. n = 2 ^ j"
  then obtain j where "n = 2 ^ j" ..
  then show "is_power_of_two n" using bit_length_eqI [of j n] by (simp add: is_power_of_two_def)
qed (auto simp: is_power_of_two_def)

lemma bit_length_power [simp]: "bit_length (2 ^ j) = Suc j"
  by (rule bit_length_eqI) auto
text \<open>What \<open>weight_stats\<close> leaves in the table.\<close>

definition huffman_complete :: "huffman_table \<Rightarrow> bool" where
  "huffman_complete t \<longleftrightarrow> (let ws = take (nb_symbols t) (weights t) in
     complete_code ws (max_num_bits t) \<and> 2 \<le> nb_symbols t \<and> nb_symbols t \<le> 256
     \<and> rank_stats t = map (count_list ws) [0..<12])"

lemma weight_stats_eq:
  assumes nb: "nb \<le> 255" "length (weights t) = 256"
    and w11: "list_all (\<lambda>w. w \<le> 11) (take nb (weights t))"
  defines "ws \<equiv> take nb (weights t)"
  shows "weight_stats t nb =
    (if kraft ws = 0 then Inl (Err (HufError HufMissingWeights))
     else if 11 < bit_length (kraft ws) then Inl (Err (HufError (HufMaxBits (bit_length (kraft ws)))))
     else let rest = 2 ^ bit_length (kraft ws) - kraft ws in
     if \<not> is_power_of_two rest then Inl (Err (HufError (HufLeftover rest)))
     else let all = ws @ [bit_length rest] in
     if count_list all 1 < 2 \<or> odd (count_list all 1) then Inl (Err (HufError (HufWeightOne (count_list all 1))))
     else Inr (t\<lparr>weights := (weights t)[nb := bit_length rest], rank_stats := map (count_list all) [0..<12],
                 nb_symbols := nb + 1, max_num_bits := bit_length (kraft ws)\<rparr>))"
proof -
  have ws: "length ws < 256" "\<forall>w \<in> set ws. w < 16" "\<forall>w \<in> set ws. w < 12"
    using nb w11 by (auto simp: ws_def list_all_iff)
  have get: "w < 16 \<Longrightarrow> lanes_get (lanes_count ws) w = count_list ws w" for w
    by (rule lanes_count_get [OF ws(2,1)])
  have hi: "\<not> list_ex (\<lambda>w. lanes_get (lanes_count ws) w \<noteq> 0) [12..<16]"
    using ws(3) by (auto simp: list_ex_iff get count_list_0_iff)
  have ranks: "map (\<lambda>w. lanes_get (lanes_count ws) w) [0..<12] = map (count_list ws) [0..<12]"
    by (rule map_cong [OF refl]) (simp add: get)
  have total: "(\<Sum>w\<leftarrow>[0..<12]. map (count_list ws) [0..<12] ! w * (2 ^ w div 2)) = kraft ws"
    using kraft_counts [OF ws(3)]
    by (subst map_cong [OF refl, of _ _ "\<lambda>w. count_list ws w * (2 ^ w div 2)"]) auto
  define rest where "rest = 2 ^ bit_length (kraft ws) - kraft ws"
  have rest: "rest \<noteq> 0" using bit_length_upper [of "kraft ws"] by (simp add: rest_def)
  have upd: "(map (count_list ws) [0..<12])[l := map (count_list ws) [0..<12] ! l + 1] = map (count_list (ws @ [l])) [0..<12]"
    if "l < 12" for l using that by (intro nth_equalityI) (auto simp: nth_list_update)
  have l12: "bit_length rest < 12" if "kraft ws \<noteq> 0" "\<not> 11 < bit_length (kraft ws)"
  proof -
    have "rest < 2 ^ bit_length (kraft ws)" using that(1) by (simp add: rest_def)
    then have "bit_length rest \<le> bit_length (kraft ws)" by (simp add: bit_length_le_iff)
    then show ?thesis using that(2) by simp
  qed
  have sl: "slice (weights t) 0 nb = Inr ws" using nb by (simp add: ws_def)
  have m12: "HUF_TABLELOG_MAX + 1 = 12" by (simp add: HUF_TABLELOG_MAX_def)
  define R where "R = map (count_list ws) [0..<12]"
  have R: "length R = 12" by (simp add: R_def)
  have upd': "index R (bit_length rest) = Inr (R ! bit_length rest)"
    "R[bit_length rest := R ! bit_length rest + 1] = map (count_list (ws @ [bit_length rest])) [0..<12]"
    "map (count_list (ws @ [bit_length rest])) [0..<12] ! 1 = count_list (ws @ [bit_length rest]) 1"
    if "kraft ws \<noteq> 0" "\<not> 11 < bit_length (kraft ws)"
    using l12 [OF that] upd [of "bit_length rest"] R by (auto simp: R_def)
  have st: "store (weights t) nb v = Inr ((weights t)[nb := v])" for v using nb by (simp add: store_def)
  note open_stats = weight_stats_def sl res_bind_simps Let_def m12
  show ?thesis
  proof (cases "kraft ws = 0 \<or> 11 < bit_length (kraft ws)")
    case True
    then show ?thesis
      unfolding open_stats unfolding ranks [folded R_def]
      unfolding total [folded R_def] if_not_P [OF hi] highest_bit_set_def by (auto simp: HUF_TABLELOG_MAX_def)
  next
    case False
    then have k: "kraft ws \<noteq> 0" "\<not> 11 < bit_length (kraft ws)" by auto
    show ?thesis
      unfolding open_stats unfolding ranks [folded R_def]
      unfolding total [folded R_def] if_not_P [OF hi] st highest_bit_set_def HUF_TABLELOG_MAX_def
      unfolding if_not_P [OF k(1)] res_bind_simps if_not_P [OF k(2)]
      unfolding rest_def [symmetric] if_not_P [OF rest] res_bind_simps upd' [OF k] even_iff_mod_2_eq_zero by simp
  qed
qed

lemma weight_stats_over:
  assumes "nb \<le> 255" "length (weights t) = 256" "\<forall>w \<in> set (take nb (weights t)). w < 16"
    and ex: "\<not> list_all (\<lambda>w. w \<le> 11) (take nb (weights t))"
  shows "\<exists>w. weight_stats t nb = Inl (Err (HufError (HufWeightMax w)))"
proof -
  define ws where "ws = take nb (weights t)"
  obtain x where x: "x \<in> set ws" "11 < x" using ex by (auto simp: list_all_iff ws_def)
  have "x \<in> set [12..<16]" using x assms(3) by (auto simp: ws_def)
  moreover have "lanes_get (lanes_count ws) x \<noteq> 0"
    using lanes_count_get [of ws x] assms x by (auto simp: ws_def count_list_0_iff)
  ultimately have hi: "list_ex (\<lambda>w. lanes_get (lanes_count ws) w \<noteq> 0) [12..<16]" unfolding list_ex_iff by blast
  obtain w where w: "find (\<lambda>w. 11 < w) ws = Some w" using x by (cases "find (\<lambda>w. 11 < w) ws") (auto simp: find_None_iff)
  have sl: "slice (weights t) 0 nb = Inr ws" using assms by (simp add: ws_def)
  have m12: "HUF_TABLELOG_MAX + 1 = 12" by (simp add: HUF_TABLELOG_MAX_def)
  show ?thesis
    unfolding weight_stats_def sl res_bind_simps Let_def m12 if_P [OF hi] unfolding HUF_TABLELOG_MAX_def w by simp
qed

lemma weight_stats_cases:
  assumes inv: "huffman_inv t" and nb: "nb \<le> 255" and w16: "\<forall>w \<in> set (take nb (weights t)). w < 16"
  shows "(\<exists>e. weight_stats t nb = Inl (Err (HufError e)) \<and> \<not> (\<exists>l k. 0 < l \<and> complete_code (take nb (weights t) @ [l]) k)) \<or>
    (\<exists>t' l. weight_stats t nb = Inr t' \<and> 0 < l \<and> take (nb_symbols t') (weights t') = take nb (weights t) @ [l]
       \<and> huffman_complete t' \<and> huffman_inv t' \<and> nb_symbols t' = nb + 1 \<and> decode t' = decode t \<and> decode_x2 t' = decode_x2 t)"
proof (cases "list_all (\<lambda>w. w \<le> 11) (take nb (weights t))")
  case False
  then show ?thesis
    using weight_stats_over [OF nb _ w16] inv by (auto simp: huffman_inv_def complete_code_def HUF_TABLELOG_MAX_def)
next
  case True
  define ws where "ws = take nb (weights t)"
  define rest where "rest = 2 ^ bit_length (kraft ws) - kraft ws"
  have len: "length (weights t) = 256" using inv by (simp add: huffman_inv_def)
  note eq = weight_stats_eq [OF nb len True, folded ws_def, folded rest_def]
  define good where "good \<longleftrightarrow> kraft ws \<noteq> 0 \<and> bit_length (kraft ws) \<le> 11 \<and> is_power_of_two rest
    \<and> 2 \<le> count_list (ws @ [bit_length rest]) 1 \<and> even (count_list (ws @ [bit_length rest]) 1)"
  have uniq: good if l: "0 < l" and c: "complete_code (ws @ [l]) k" for l k
  proof -
    have s: "kraft ws + 2 ^ (l - 1) = 2 ^ k" using c l by (cases l) (auto simp: complete_code_def kraft_def)
    have "2 \<le> count_list (ws @ [l]) 1" using c by (simp add: complete_code_def)
    then have "count_list ws 1 \<noteq> 0" by (auto split: if_splits)
    then have "0 < kraft ws" by (rule kraft_one_pos)
    from last_weight_unique [OF this s] have "bit_length (kraft ws) = k" "rest = 2 ^ (l - 1)" by (auto simp: rest_def)
    then show good
      using c \<open>0 < kraft ws\<close> l by (auto simp: good_def complete_code_def HUF_TABLELOG_MAX_def power_of_two_iff)
  qed
  show ?thesis
  proof (cases good)
    case False
    then have "\<exists>e. weight_stats t nb = Inl (Err (HufError e))" unfolding eq good_def Let_def by auto
    then show ?thesis using uniq False unfolding ws_def by blast
  next
    case good: True
    then obtain j where j: "rest = 2 ^ j" by (auto simp: good_def power_of_two_iff)
    define t' where "t' = t\<lparr>weights := (weights t)[nb := bit_length rest],
      rank_stats := map (count_list (ws @ [bit_length rest])) [0..<12],
      nb_symbols := nb + 1, max_num_bits := bit_length (kraft ws)\<rparr>"
    have r: "weight_stats t nb = Inr t'" using good unfolding eq good_def Let_def t'_def by auto
    have tk: "take (nb_symbols t') (weights t') = ws @ [bit_length rest]"
      using nb len by (simp add: t'_def ws_def take_Suc_conv_app_nth)
    have sum: "kraft ws + rest = 2 ^ bit_length (kraft ws)"
      using bit_length_upper [of "kraft ws"] by (simp add: rest_def)
    then have "rest < 2 ^ bit_length (kraft ws)" using good by (auto simp: good_def)
    then have "bit_length rest \<le> bit_length (kraft ws)" by (simp add: bit_length_le_iff)
    then have "bit_length rest \<le> 11" using good by (simp add: good_def)
    moreover have "kraft [bit_length rest] = rest" by (simp add: kraft_def j)
    ultimately have cc: "complete_code (ws @ [bit_length rest]) (max_num_bits t')"
      using good sum True by (auto simp: complete_code_def good_def HUF_TABLELOG_MAX_def t'_def ws_def)
    have "ws \<noteq> []" using good by (auto simp: good_def kraft_def)
    then have "1 \<le> nb" by (cases nb) (auto simp: ws_def)
    then have "huffman_complete t'"
      using cc tk nb by (simp add: huffman_complete_def Let_def) (simp add: t'_def)
    moreover have "huffman_inv t'" using inv by (simp add: huffman_inv_def t'_def)
    moreover have "0 < bit_length rest" using j by simp
    ultimately show ?thesis using r tk unfolding ws_def
      by (intro disjI2 exI [of _ t'] exI [of _ "bit_length rest"]) (simp add: t'_def)
  qed
qed

section \<open>Properties\<close>

text \<open>C23: The sixteen 8-bit counters of \<open>WeightLanes\<close>, packed in two words, count exactly: after bumping every
  weight of a list of fewer than 256, no lane has carried into its neighbour and each holds the number of
  occurrences of its weight.\<close>

theorem weight_lanes_exact:
  assumes "\<forall>w \<in> set ws. w < 16" and "length ws < 256" and "w < 16"
  shows "lanes_get (foldl lanes_bump lanes_default ws) w = count_list ws w"
  using lanes_count_get [OF assms] by (simp add: lanes_count_def)

theorem weight_lanes_exact_witness:
  "lanes_get (foldl lanes_bump lanes_default [3, 7, 8, 3]) 3 = 2"
  using weight_lanes_exact [of "[3, 7, 8, 3]" 3] by simp

text \<open>C22: \<open>weight_stats\<close> accepts exactly the weights of a prefix code: it succeeds if and only if one more
  symbol of nonzero weight makes the weights read a complete code (every weight at most 11, a Kraft
  sum of at most \<open>2 ^ 11\<close> that is a power of two, an even and nonzero number of deepest leaves).\<close>

theorem weight_stats_accepts:
  assumes "huffman_inv t" and "nb \<le> 255" and "\<forall>w \<in> set (take nb (weights t)). w < 16"
  shows "(\<exists>t'. weight_stats t nb = Inr t') \<longleftrightarrow> (\<exists>l k. 0 < l \<and> complete_code (take nb (weights t) @ [l]) k)"
proof -
  have "complete_code (take nb (weights t) @ [l]) (max_num_bits t')"
    if "huffman_complete t'" "take (nb_symbols t') (weights t') = take nb (weights t) @ [l]" for t' l
    using that by (simp add: huffman_complete_def Let_def)
  then show ?thesis using weight_stats_cases [OF assms] by fastforce
qed

theorem weight_stats_accepts_witness:
  "\<exists>t'. weight_stats (huffman_new\<lparr>weights := 1 # replicate 255 0\<rparr>) 1 = Inr t'"
proof -
  have "huffman_inv (huffman_new\<lparr>weights := 1 # replicate 255 0\<rparr>)" "(1::nat) \<le> 255"
    "\<forall>w \<in> set (take 1 (weights (huffman_new\<lparr>weights := 1 # replicate 255 0\<rparr>))). w < 16"
    "complete_code (take 1 (weights (huffman_new\<lparr>weights := 1 # replicate 255 0\<rparr>)) @ [1]) 1"
    by code_simp+
  from weight_stats_accepts [OF this(1-3)] this(4) show ?thesis by blast
qed

end
