(* ===== verification/Huffman_Table.thy ===== *)
theory Huffman_Table
  imports Huffman_Weights
begin

text \<open>
  Filling the Huffman decoding tables (\<open>src/src/decode.rs\<close>): the counting sort of the symbols
  (\<open>sort_symbols\<close>), the single-symbol table (\<open>fill_x1\<close>), the double-symbol table (\<open>fill_x2\<close> and
  its helpers), the choice between them (\<open>huf_select_x2\<close>) and \<open>build_decoder\<close>.  Rows of cells are
  written as the source writes them, as little-endian words over the table's bytes.  The lemmas
  show that the sort is stable and that each table is the concatenation of one run of cells per
  symbol of nonzero weight, ordered by weight, without a gap.
\<close>

section \<open>Choice of the table\<close>

definition HUF_ALGO_TIME :: "((nat \<times> nat) \<times> (nat \<times> nat)) list" where
  "HUF_ALGO_TIME =
    [((0, 0), (1, 1)), ((0, 0), (1, 1)), ((150, 216), (381, 119)), ((170, 205), (514, 112)),
     ((177, 199), (539, 110)), ((197, 194), (644, 107)), ((221, 192), (735, 107)), ((256, 189), (881, 106)),
     ((359, 188), (1167, 109)), ((582, 187), (1570, 114)), ((688, 187), (1712, 122)), ((825, 186), (1965, 136)),
     ((976, 185), (2131, 150)), ((1180, 186), (2070, 175)), ((1377, 185), (1731, 202)), ((1412, 185), (1695, 202))]"

text \<open>\<open>u32\<close> sums, which panic past \<open>2 ^ 32\<close>; \<open>dst_size\<close> and \<open>src_size\<close> are \<open>usize\<close>.\<close>

definition u32_checked :: "nat \<Rightarrow> nat res" where
  "u32_checked n = (if n < 2 ^ 32 then Inr n else Inl Panic)"

definition huf_select_x2 :: "nat \<Rightarrow> nat \<Rightarrow> bool res" where
  "huf_select_x2 dst_size src_size =
     (let q = (if dst_size \<le> src_size then 15 else src_size * 16 div dst_size);
          d256 = dst_size div 256 mod 2 ^ 32 in
      res_bind (index HUF_ALGO_TIME q) (\<lambda>((t0, d0), (t1, d1)).
      res_bind (u32_checked (t0 + d0 * d256)) (\<lambda>time0.
      res_bind (u32_checked (t1 + d1 * d256)) (\<lambda>time1.
      res_bind (u32_checked (time1 + time1 div 32)) (\<lambda>time1.
      Inr (time1 < time0))))))"

section \<open>The counting sort\<close>

fun sort_starts :: "weight_lanes \<Rightarrow> nat \<Rightarrow> nat \<Rightarrow> nat list \<Rightarrow> weight_lanes \<times> nat list" where
  "sort_starts next start w [] = (next, [start])"
| "sort_starts next start w (n # ns) =
     (let (next, rank_start) = sort_starts (lanes_add next w start) (start + n) (w + 1) ns
      in (next, start # rank_start))"

fun sort_place :: "weight_lanes \<Rightarrow> nat list \<Rightarrow> nat \<Rightarrow> nat list \<Rightarrow> nat list res" where
  "sort_place next out s [] = Inr out"
| "sort_place next out s (w # ws) =
     res_bind (store out (lanes_get next w) (s mod 256)) (\<lambda>out.
     sort_place (lanes_bump next w) out (s + 1) ws)"

definition sort_symbols :: "huffman_table \<Rightarrow> (huffman_table \<times> nat list) res" where
  "sort_symbols t =
     (let (next, rank_start) = sort_starts lanes_default 0 0 (rank_stats t) in
      res_bind (slice (weights t) 0 (nb_symbols t)) (\<lambda>ws.
      res_bind (sort_place next (sorted_syms t) 0 ws) (\<lambda>out.
      Inr (t\<lparr>sorted_syms := out\<rparr>, rank_start))))"

section \<open>The single-symbol table\<close>

text \<open>\<open>bytemuck::cast_slice\<close> between cells and their bytes.\<close>

definition entry_bytes :: "huffman_entry list \<Rightarrow> u8 list" where
  "entry_bytes es = concat (map (\<lambda>e. [he_symbol e, he_num_bits e]) es)"

fun bytes_entries :: "u8 list \<Rightarrow> huffman_entry list" where
  "bytes_entries (s # n # bs) = \<lparr>he_symbol = s, he_num_bits = n\<rparr> # bytes_entries bs"
| "bytes_entries _ = []"

definition d4 :: "nat \<Rightarrow> nat \<Rightarrow> nat" where
  "d4 nbits s = (s mod 256 + 256 * nbits) * 0x0001000100010001"

text \<open>The bytes of one symbol's chunk, by run length.\<close>

definition x1_chunk :: "nat \<Rightarrow> nat \<Rightarrow> nat \<Rightarrow> u8 list" where
  "x1_chunk len nbits s =
     (let d = d4 nbits s in
      if len = 1 then le_bytes 2 (d mod 2 ^ 16)
      else if len = 2 then le_bytes 4 (d mod 2 ^ 32)
      else if len = 4 then le_bytes 8 d
      else if len = 8 then concat (replicate 2 (le_bytes 8 d))
      else concat (replicate (2 * len div 32) (concat (replicate 4 (le_bytes 8 d)))))"

text \<open>\<open>for w in w0..=max_bits\<close>; \<open>k\<close> weights are left.\<close>

fun fill_x1_loop :: "huffman_table \<Rightarrow> nat list \<Rightarrow> nat \<Rightarrow> nat \<Rightarrow> nat \<Rightarrow> u8 list \<Rightarrow> u8 list res" where
  "fill_x1_loop t rank_start 0 w u bs = Inr bs"
| "fill_x1_loop t rank_start (Suc k) w u bs =
     (let rescale = HUF_FAST_TABLE_LOG - max_num_bits t;
          len = 2 ^ (w - 1 + rescale);
          nbits = (max_num_bits t + 1 - w) mod 256 in
      res_bind (index (rank_stats t) w) (\<lambda>count.
      res_bind (index rank_start w) (\<lambda>from.
      res_bind (index rank_start (w + 1)) (\<lambda>till.
      res_bind (slice (sorted_syms t) from till) (\<lambda>syms.
      res_bind (slice bs (2 * u) (2 * (u + count * len))) (\<lambda>_.
      fill_x1_loop t rank_start k (w + 1) (u + count * len)
        (put_slice bs (2 * u) (concat (map (x1_chunk len nbits) (take count syms))))))))))"

definition entry_default :: huffman_entry where
  "entry_default = \<lparr>he_symbol = 0, he_num_bits = 0\<rparr>"

definition fill_x1 :: "huffman_table \<Rightarrow> huffman_table res" where
  "fill_x1 t =
     (if HUF_FAST_TABLE_LOG < max_num_bits t then Inl Panic
      else
      res_bind (sort_symbols t) (\<lambda>(t, rank_start).
      let cells = resize (decode t) (2 ^ HUF_FAST_TABLE_LOG) entry_default in
      res_bind (fill_x1_loop t rank_start (max_num_bits t) 1 0 (entry_bytes cells)) (\<lambda>bs.
      Inr (t\<lparr>decode := bytes_entries bs\<rparr>))))"

definition code_len :: "huffman_table \<Rightarrow> nat \<Rightarrow> nat res" where
  "code_len t symbol =
     res_bind (index (weights t) symbol) (\<lambda>w.
     if max_num_bits t + 1 < w then Inl Panic else Inr (max_num_bits t + 1 - w))"

section \<open>The double-symbol table\<close>

definition x2_advance :: "huf_entry_x2 \<Rightarrow> nat" where
  "x2_advance e = 1 + x2_length e div 2 mod 2"

definition huf_build_x2 :: "nat \<Rightarrow> nat \<Rightarrow> nat \<Rightarrow> nat \<Rightarrow> huf_entry_x2" where
  "huf_build_x2 symbol nbits base_seq level =
     \<lparr>sequence = (if level = 1 then symbol else base_seq + 256 * symbol),
      x2_nb_bits = nbits mod 256, x2_length = level\<rparr>"

text \<open>The cells of one symbol's chunk: \<open>cell\<close>, \<open>cell2\<close> and their copies, by run length.\<close>

definition x2_chunk :: "nat \<Rightarrow> huf_entry_x2 \<Rightarrow> huf_entry_x2 list" where
  "x2_chunk len cell =
     (let cell2 = [cell, cell] in
      if len = 1 then [cell]
      else if len = 2 then cell2
      else if len = 4 then concat (replicate 2 cell2)
      else concat (replicate (4 * len div 32) (concat (replicate 4 cell2))))"

definition huf_fill_x2_for_weight ::
    "huf_entry_x2 list \<Rightarrow> nat \<Rightarrow> nat list \<Rightarrow> nat \<Rightarrow> nat \<Rightarrow> nat \<Rightarrow> nat \<Rightarrow> huf_entry_x2 list res" where
  "huf_fill_x2_for_weight dt at symbols nbits target_log base_seq level =
     (if length dt < at \<or> target_log < nbits then Inl Panic
      else
      let len = 2 ^ (target_log - nbits) in
      if length dt - at < length symbols * len then Inl Panic
      else Inr (put_slice dt at (concat (map (\<lambda>s. x2_chunk len (huf_build_x2 s nbits base_seq level)) symbols))))"

text \<open>\<open>for w in w..max_weight1\<close>; \<open>k\<close> weights are left.\<close>

fun x2_level2_weights :: "nat \<Rightarrow> nat \<Rightarrow> nat list \<Rightarrow> nat list \<Rightarrow> nat list \<Rightarrow> nat \<Rightarrow> nat \<Rightarrow> nat \<Rightarrow> nat
    \<Rightarrow> huf_entry_x2 list \<Rightarrow> huf_entry_x2 list res" where
  "x2_level2_weights target_log consumed_bits rank_val syms rank_start nb_bits_baseline base_seq 0 w dt = Inr dt"
| "x2_level2_weights target_log consumed_bits rank_val syms rank_start nb_bits_baseline base_seq (Suc k) w dt =
     res_bind (index rank_start w) (\<lambda>from.
     res_bind (index rank_start (w + 1)) (\<lambda>till.
     if nb_bits_baseline < w then Inl Panic else
     let nbits = nb_bits_baseline - w in
     res_bind (index rank_val w) (\<lambda>at.
     res_bind (slice syms from till) (\<lambda>symbols.
     res_bind (huf_fill_x2_for_weight dt at symbols (nbits + consumed_bits) target_log base_seq 2) (\<lambda>dt.
     x2_level2_weights target_log consumed_bits rank_val syms rank_start nb_bits_baseline base_seq k (w + 1) dt)))))"

text \<open>The branch \<open>if min_weight > 1\<close>: whole runs of 2, 4 or 8 single-symbol cells.\<close>

definition x2_prefill :: "huf_entry_x2 list \<Rightarrow> nat \<Rightarrow> nat list \<Rightarrow> nat \<Rightarrow> nat \<Rightarrow> huf_entry_x2 list res" where
  "x2_prefill dt consumed_bits rank_val min_weight base_seq =
     (let cell = huf_build_x2 base_seq consumed_bits 0 1; cell2 = [cell, cell] in
      res_bind (index rank_val min_weight) (\<lambda>skip.
      if length dt = 2 then Inr cell2
      else if length dt = 4 then Inr (concat (replicate 2 cell2))
      else
        let n = (skip + 7) div 8 * 8 in
        res_bind (slice dt 0 n) (\<lambda>_.
        Inr (put_slice dt 0 (concat (replicate (4 * n div 32) (concat (replicate 4 cell2))))))))"

definition huf_fill_x2_level2 ::
    "huf_entry_x2 list \<Rightarrow> nat \<Rightarrow> nat \<Rightarrow> nat list \<Rightarrow> nat \<Rightarrow> nat \<Rightarrow> nat list \<Rightarrow> nat list \<Rightarrow> nat \<Rightarrow> nat \<Rightarrow> huf_entry_x2 list res" where
  "huf_fill_x2_level2 dt target_log consumed_bits rank_val min_weight max_weight1 syms rank_start nb_bits_baseline base_seq =
     res_bind (if 1 < min_weight then x2_prefill dt consumed_bits rank_val min_weight base_seq else Inr dt)
       (\<lambda>dt. x2_level2_weights target_log consumed_bits rank_val syms rank_start nb_bits_baseline base_seq
          (max_weight1 - min_weight) min_weight dt)"

text \<open>\<open>while rank_stats[max_w] == 0\<close>.\<close>

fun x2_max_w :: "nat list \<Rightarrow> nat \<Rightarrow> nat res" where
  "x2_max_w stats 0 = (if stats = [] \<or> hd stats = 0 then Inl Panic else Inr 0)"
| "x2_max_w stats (Suc w) = res_bind (index stats (Suc w)) (\<lambda>n. if n = 0 then x2_max_w stats w else Inr (Suc w))"

text \<open>Row 0 of \<open>rank_val\<close> from weight \<open>w\<close> on: the first cell of every weight.\<close>

fun x2_row0 :: "nat list \<Rightarrow> nat \<Rightarrow> nat \<Rightarrow> nat \<Rightarrow> nat \<Rightarrow> nat list \<Rightarrow> nat list res" where
  "x2_row0 stats rescale 0 w next_val row = Inr row"
| "x2_row0 stats rescale (Suc k) w next_val row =
     res_bind (store row w next_val) (\<lambda>row.
     res_bind (index stats w) (\<lambda>n.
     x2_row0 stats rescale k (w + 1) (next_val + n * 2 ^ (w - 1 + rescale)) row))"

text \<open>Row \<open>consumed\<close>: row 0 shifted, for the weights in use; the other cells stay 0.\<close>

definition x2_row :: "nat list \<Rightarrow> nat \<Rightarrow> nat \<Rightarrow> nat list" where
  "x2_row row0 max_w consumed = map (\<lambda>w. if 1 \<le> w \<and> w \<le> max_w then row0 ! w div 2 ^ consumed else 0) [0..<length row0]"

definition x2_rank_val :: "nat list \<Rightarrow> nat \<Rightarrow> nat \<Rightarrow> nat list list" where
  "x2_rank_val row0 max_w min_bits =
     map (\<lambda>consumed. if consumed = 0 then row0
       else if min_bits \<le> consumed \<and> consumed \<le> HUF_FAST_TABLE_LOG - min_bits then x2_row row0 max_w consumed
       else replicate (HUF_TABLELOG_MAX + 1) 0) [0..<HUF_TABLELOG_MAX]"

text \<open>\<open>for &base_seq in &sorted[begin..end]\<close>.\<close>

fun x2_first_symbols :: "nat list list \<Rightarrow> nat \<Rightarrow> nat \<Rightarrow> nat \<Rightarrow> nat list \<Rightarrow> nat list \<Rightarrow> nat \<Rightarrow> nat \<Rightarrow> nat list
    \<Rightarrow> huf_entry_x2 list \<Rightarrow> huf_entry_x2 list res" where
  "x2_first_symbols rank_val nbits min_weight max_w syms rank_start baseline start [] dt = Inr dt"
| "x2_first_symbols rank_val nbits min_weight max_w syms rank_start baseline start (base_seq # rest) dt =
     (let len = 2 ^ (HUF_FAST_TABLE_LOG - nbits) in
      res_bind (slice dt start (start + len)) (\<lambda>part.
      res_bind (index rank_val nbits) (\<lambda>row.
      res_bind (huf_fill_x2_level2 part HUF_FAST_TABLE_LOG nbits row min_weight (max_w + 1) syms rank_start
          baseline base_seq) (\<lambda>part.
      x2_first_symbols rank_val nbits min_weight max_w syms rank_start baseline (start + len) rest
        (put_slice dt start part)))))"

fun fill_x2_loop :: "nat list list \<Rightarrow> nat \<Rightarrow> nat \<Rightarrow> nat list \<Rightarrow> nat list \<Rightarrow> nat \<Rightarrow> nat \<Rightarrow> nat
    \<Rightarrow> huf_entry_x2 list \<Rightarrow> huf_entry_x2 list res" where
  "fill_x2_loop rank_val min_bits max_w syms rank_start baseline 0 w dt = Inr dt"
| "fill_x2_loop rank_val min_bits max_w syms rank_start baseline (Suc k) w dt =
     res_bind (index rank_start w) (\<lambda>from.
     res_bind (index rank_start (w + 1)) (\<lambda>till.
     if baseline < w \<or> HUF_FAST_TABLE_LOG < baseline - w then Inl Panic else
     let nbits = baseline - w in
     res_bind (index rank_val 0) (\<lambda>row0.
     res_bind (index row0 w) (\<lambda>start.
     res_bind (slice syms from till) (\<lambda>symbols.
     res_bind
       (if min_bits \<le> HUF_FAST_TABLE_LOG - nbits then
          let min_weight = nat (max (int nbits + (int baseline - int HUF_FAST_TABLE_LOG)) 1) in
          x2_first_symbols rank_val nbits min_weight max_w syms rank_start baseline start symbols dt
        else huf_fill_x2_for_weight dt start symbols nbits HUF_FAST_TABLE_LOG 0 1) (\<lambda>dt.
     fill_x2_loop rank_val min_bits max_w syms rank_start baseline k (w + 1) dt))))))"

definition x2_default :: huf_entry_x2 where
  "x2_default = \<lparr>sequence = 0, x2_nb_bits = 0, x2_length = 0\<rparr>"

definition fill_x2 :: "huffman_table \<Rightarrow> huffman_table res" where
  "fill_x2 t =
     (let table_log = max_num_bits t; baseline = table_log + 1 in
      res_bind (x2_max_w (rank_stats t) table_log) (\<lambda>max_w.
      res_bind (sort_symbols t) (\<lambda>(t, rank_start).
      if HUF_FAST_TABLE_LOG < table_log then Inl Panic
      else
      let rescale = HUF_FAST_TABLE_LOG - table_log in
      res_bind (x2_row0 (rank_stats t) rescale max_w 1 0 (replicate (HUF_TABLELOG_MAX + 1) 0)) (\<lambda>row0.
      if baseline < max_w \<or> HUF_FAST_TABLE_LOG < baseline - max_w then Inl Panic
      else
      let min_bits = baseline - max_w; rank_val = x2_rank_val row0 max_w min_bits;
          dt = resize (decode_x2 t) (2 ^ HUF_FAST_TABLE_LOG) x2_default in
      res_bind (fill_x2_loop rank_val min_bits max_w (sorted_syms t) rank_start baseline max_w 1 dt) (\<lambda>dt.
      Inr (t\<lparr>decode_x2 := dt\<rparr>))))))"

section \<open>Building a table\<close>

definition fill :: "huffman_table \<Rightarrow> bool \<Rightarrow> huffman_table res" where
  "fill t x2 = (let t = t\<lparr>is_x2 := x2\<rparr> in if x2 then fill_x2 t else fill_x1 t)"

definition build_decoder :: "huffman_table \<Rightarrow> u8 list \<Rightarrow> nat \<Rightarrow> bool \<Rightarrow> (huffman_table \<times> nat) res" where
  "build_decoder t source dst_size four_streams =
     res_bind (read_weights (t\<lparr>max_num_bits := 0\<rparr>) source) (\<lambda>(t, bytes_used, nb_weights).
     res_bind (weight_stats t nb_weights) (\<lambda>t.
     res_bind (if four_streams then huf_select_x2 dst_size (length source) else Inr False) (\<lambda>x2.
     res_bind (fill t x2) (\<lambda>t.
     Inr (t, bytes_used mod 2 ^ 32)))))"

definition huf_cells :: "'a list \<Rightarrow> 'a list res" where
  "huf_cells dt = (if length dt = 2 ^ HUF_FAST_TABLE_LOG then Inr dt else Inl (Err (HufError HufUninitialized)))"

section \<open>Reference tables\<close>

text \<open>The symbols of weight \<open>w\<close>, and those of nonzero weight by weight and then by value.\<close>

definition of_weight :: "nat list \<Rightarrow> nat \<Rightarrow> nat list" where
  "of_weight ws w = filter (\<lambda>s. ws ! s = w) [0..<length ws]"

definition code_order :: "nat list \<Rightarrow> nat list" where
  "code_order ws = concat (map (of_weight ws) [1..<12])"

text \<open>In a code of depth \<open>k\<close> a symbol of weight \<open>w\<close> has \<open>k + 1 - w\<close> bits and owns as many of the
  \<open>2 ^ 11\<close> cells as there are continuations of its code.\<close>

definition code_bits :: "nat list \<Rightarrow> nat \<Rightarrow> nat \<Rightarrow> nat" where
  "code_bits ws k s = k + 1 - ws ! s"

definition x1_ref :: "nat list \<Rightarrow> nat \<Rightarrow> (nat \<times> nat) list" where
  "x1_ref ws k = concat (map (\<lambda>s. replicate (2 ^ (11 - code_bits ws k s)) (s, code_bits ws k s)) (code_order ws))"

definition x2_ref :: "(nat \<times> nat) list \<Rightarrow> nat \<Rightarrow> huf_entry_x2" where
  "x2_ref x1 i =
     (let (s1, n1) = x1 ! i; (s2, n2) = x1 ! (i * 2 ^ n1 mod 2048) in
      if n1 + n2 \<le> 11 then \<lparr>sequence = s1 + 256 * s2, x2_nb_bits = n1 + n2, x2_length = 2\<rparr>
      else \<lparr>sequence = s1, x2_nb_bits = n1, x2_length = 1\<rparr>)"

section \<open>The sort is stable\<close>

text \<open>How many symbols have a weight below \<open>w\<close>, and where symbol \<open>i\<close> goes.\<close>

definition below :: "nat list \<Rightarrow> nat \<Rightarrow> nat" where
  "below ws w = length (filter (\<lambda>x. x < w) ws)"

definition slot :: "nat list \<Rightarrow> nat \<Rightarrow> nat" where
  "slot ws i = below ws (ws ! i) + count_list (take i ws) (ws ! i)"

lemma below_Suc: "below ws (Suc w) = below ws w + count_list ws w"
  by (induction ws) (auto simp: below_def less_Suc_eq)

lemma below_0 [simp]: "below ws 0 = 0"
  by (simp add: below_def)

lemma below_mono: "v \<le> w \<Longrightarrow> below ws v \<le> below ws w"
  by (rule lift_Suc_mono_le [of "below ws"]) (simp_all add: below_Suc)

lemma below_le: "below ws w \<le> length ws"
  by (simp add: below_def)

lemma below_sum: "j \<le> n \<Longrightarrow> sum_list (take j (map (count_list ws) [0..<n])) = below ws j"
proof (induction j)
  case (Suc j)
  then show ?case by (simp add: take_Suc_conv_app_nth below_Suc)
qed simp

lemma count_take_less: "i < j \<Longrightarrow> j \<le> length ws \<Longrightarrow> ws ! i = w \<Longrightarrow> count_list (take i ws) w < count_list (take j ws) w"
proof -
  assume a: "i < j" "j \<le> length ws" "ws ! i = w"
  then have "take j ws = take i ws @ w # drop (Suc i) (take j ws)"
    using id_take_nth_drop [of i "take j ws"] by (simp add: min_def)
  then have "count_list (take j ws) w = count_list (take i ws @ w # drop (Suc i) (take j ws)) w" by (rule arg_cong)
  then show ?thesis by simp
qed

lemma slot_bounds:
  assumes "i < length ws"
  shows "below ws (ws ! i) \<le> slot ws i" "slot ws i < below ws (Suc (ws ! i))"
  using count_take_less [OF assms, of ws "ws ! i"] by (auto simp: slot_def below_Suc)

lemma slot_inj:
  assumes "i < j" and "j < length ws"
  shows "slot ws i \<noteq> slot ws j"
proof (cases "ws ! i = ws ! j")
  case True
  then show ?thesis using count_take_less [OF assms(1), of ws "ws ! j"] assms by (simp add: slot_def)
next
  case False
  have i: "i < length ws" using assms by simp
  from False consider "Suc (ws ! i) \<le> ws ! j" | "Suc (ws ! j) \<le> ws ! i" by linarith
  then show ?thesis
  proof cases
    case 1
    then show ?thesis using below_mono [OF 1, of ws] slot_bounds(2) [OF i] slot_bounds(1) [OF assms(2)] by linarith
  next
    case 2
    then show ?thesis using below_mono [OF 2, of ws] slot_bounds(1) [OF i] slot_bounds(2) [OF assms(2)] by linarith
  qed
qed

lemma sort_starts_are:
  assumes "lanes_are next f" and "w + length ns \<le> 16"
  shows "lanes_are (fst (sort_starts next start w ns))
      (\<lambda>j. f j + (if w \<le> j \<and> j < w + length ns then start + sum_list (take (j - w) ns) else 0))
    \<and> snd (sort_starts next start w ns) = map (\<lambda>i. start + sum_list (take i ns)) [0..<Suc (length ns)]"
  using assms
proof (induction ns arbitrary: "next" start w f)
  case Nil
  moreover have "(\<lambda>j. f j + (if w \<le> j \<and> j < w then start + sum_list (take (j - w) []) else 0)) = f" by auto
  ultimately show ?case by simp
next
  case (Cons n ns)
  have a: "lanes_are (lanes_add next w start) (f(w := f w + start))"
    using Cons.prems by (intro lanes_add_are) auto
  note IH = Cons.IH [OF a, of "w + 1" "start + n"]
  have f: "(\<lambda>j. (f(w := f w + start)) j
        + (if w + 1 \<le> j \<and> j < w + 1 + length ns then start + n + sum_list (take (j - (w + 1)) ns) else 0))
      = (\<lambda>j. f j + (if w \<le> j \<and> j < w + length (n # ns) then start + sum_list (take (j - w) (n # ns)) else 0))"
  proof
    fix j
    show "(f(w := f w + start)) j
        + (if w + 1 \<le> j \<and> j < w + 1 + length ns then start + n + sum_list (take (j - (w + 1)) ns) else 0)
      = f j + (if w \<le> j \<and> j < w + length (n # ns) then start + sum_list (take (j - w) (n # ns)) else 0)"
      by (cases "j - w") (auto simp: diff_Suc)
  qed
  have m: "map (\<lambda>i. start + sum_list (take i (n # ns))) [0..<Suc (length (n # ns))]
      = start # map (\<lambda>i. start + n + sum_list (take i ns)) [0..<Suc (length ns)]"
    unfolding list.size(4) add_Suc_right add_0_right
    by (subst upt_conv_Cons) (simp_all del: upt_Suc add: map_Suc_upt [symmetric] add.assoc)
  show ?case
    using IH Cons.prems unfolding f m by (simp add: split_def del: upt_Suc)
qed

lemma sort_place_ok:
  assumes "lanes_are next (\<lambda>w. (if w < 12 then below ws w else 0) + count_list ps w)"
    and "ws = ps @ rest" and "length ws \<le> 256" and "\<forall>w \<in> set ws. w < 12" and "length out = 256"
    and "\<forall>i<length ps. out ! slot ws i = i"
  shows "\<exists>out'. sort_place next out (length ps) rest = Inr out' \<and> length out' = 256 \<and> (\<forall>i<length ws. out' ! slot ws i = i)"
  using assms
proof (induction rest arbitrary: "next" ps out)
  case Nil
  then show ?case by simp
next
  case (Cons w rest)
  let ?i = "length ps" and ?f = "\<lambda>w. (if w < 12 then below ws w else 0) + count_list ps w"
  have i: "?i < length ws" "ws ! ?i = w" "take ?i ws = ps" "w < 12" using Cons.prems by auto
  have sl: "slot ws ?i = ?f w" using i by (simp add: slot_def)
  have s256: "slot ws ?i < 256" using slot_bounds(2) [OF i(1)] below_le [of ws] Cons.prems(3) le_trans less_le_trans by blast
  have cps: "count_list ps j \<le> count_list ws j" for j using Cons.prems(2) by simp
  have "?f j < 256" if "j < w" for j
  proof -
    have "?f j \<le> below ws (Suc j)" using cps [of j] by (simp add: below_Suc)
    also have "\<dots> \<le> below ws w" using that by (intro below_mono) simp
    also have "\<dots> \<le> slot ws ?i" using slot_bounds(1) [OF i(1)] i by simp
    finally show ?thesis using s256 by simp
  qed
  then have get: "lanes_get next w = slot ws ?i"
    unfolding sl using Cons.prems(1) i s256 sl by (intro lanes_get_are) auto
  have "lanes_are (lanes_bump next w) (?f(w := ?f w + 1))"
    using lanes_add_are [OF Cons.prems(1), of w 1] i by (simp add: lanes_bump_add)
  moreover have "?f(w := ?f w + 1) = (\<lambda>v. (if v < 12 then below ws v else 0) + count_list (ps @ [w]) v)" by auto
  ultimately have a: "lanes_are (lanes_bump next w) (\<lambda>v. (if v < 12 then below ws v else 0) + count_list (ps @ [w]) v)"
    by simp
  have "\<forall>j<length (ps @ [w]). out[slot ws ?i := ?i] ! slot ws j = j"
  proof (intro allI impI)
    fix j
    assume "j < length (ps @ [w])"
    then consider "j = ?i" | "j < ?i" by fastforce
    then show "out[slot ws ?i := ?i] ! slot ws j = j"
      using s256 Cons.prems(5,6) slot_inj [of j ?i ws] i by cases auto
  qed
  from Cons.IH [OF a _ Cons.prems(3,4) _ this] Cons.prems(2,5)
  obtain out' where "sort_place (lanes_bump next w) (out[slot ws ?i := ?i]) (length (ps @ [w])) rest = Inr out'"
    "length out' = 256" "\<forall>i<length ws. out' ! slot ws i = i" by auto
  moreover have "?i mod 256 = ?i" using i Cons.prems(3) by simp
  ultimately show ?case using get s256 Cons.prems(5) by (simp add: store_def)
qed

lemma of_weight_nth:
  assumes "c < length (of_weight ws w)"
  shows "of_weight ws w ! c < length ws \<and> ws ! (of_weight ws w ! c) = w \<and> count_list (take (of_weight ws w ! c) ws) w = c"
proof -
  have len: "n \<le> length ws \<Longrightarrow> length (filter (\<lambda>s. ws ! s = w) [0..<n]) = count_list (take n ws) w" for n
    by (induction n) (auto simp: take_Suc_conv_app_nth)
  have "c < length (filter (\<lambda>s. ws ! s = w) [0..<n]) \<Longrightarrow> n \<le> length ws \<Longrightarrow>
      count_list (take (filter (\<lambda>s. ws ! s = w) [0..<n] ! c) ws) w = c" for n
  proof (induction n)
    case (Suc n)
    show ?case
    proof (cases "c < length (filter (\<lambda>s. ws ! s = w) [0..<n])")
      case True
      then show ?thesis using Suc by (auto simp: nth_append)
    next
      case False
      then show ?thesis using Suc.prems len [of n] by (auto simp: nth_append split: if_splits)
    qed
  qed simp
  from this [of "length ws"] assms show ?thesis
    using nth_mem [OF assms] by (auto simp: of_weight_def)
qed

lemma length_of_weight: "length (of_weight ws w) = count_list ws w"
proof -
  have "n \<le> length ws \<Longrightarrow> length (filter (\<lambda>s. ws ! s = w) [0..<n]) = count_list (take n ws) w" for n
    by (induction n) (auto simp: take_Suc_conv_app_nth)
  from this [of "length ws"] show ?thesis by (simp add: of_weight_def)
qed

text \<open>What \<open>sort_symbols\<close> returns, for a table with statistics.\<close>

definition sorted_by :: "nat list \<Rightarrow> nat list \<Rightarrow> nat list \<Rightarrow> bool" where
  "sorted_by ws rank_start out \<longleftrightarrow> length out = 256 \<and> rank_start = map (below ws) [0..<13]
     \<and> (\<forall>w<12. take (below ws (Suc w) - below ws w) (drop (below ws w) out) = of_weight ws w)"

lemma sort_symbols_ok:
  assumes "huffman_complete t" and "huffman_inv t"
  defines "ws \<equiv> take (nb_symbols t) (weights t)"
  shows "\<exists>rank_start out. sort_symbols t = Inr (t\<lparr>sorted_syms := out\<rparr>, rank_start) \<and> sorted_by ws rank_start out"
proof -
  have t: "rank_stats t = map (count_list ws) [0..<12]" "nb_symbols t \<le> length (weights t)" "length (sorted_syms t) = 256"
    using assms by (auto simp: huffman_complete_def huffman_inv_def Let_def)
  have w12: "\<forall>w \<in> set ws. w < 12"
    using assms by (auto simp: huffman_complete_def complete_code_def Let_def list_all_iff HUF_TABLELOG_MAX_def less_Suc_eq_le)
  have n: "length ws \<le> 256" using assms(2) by (simp add: ws_def huffman_inv_def)
  obtain nxt rs where s: "sort_starts lanes_default 0 0 (rank_stats t) = (nxt, rs)" by fastforce
  have st: "lanes_are nxt (\<lambda>j. 0 + (if 0 \<le> j \<and> j < 0 + length (rank_stats t) then 0 + sum_list (take (j - 0) (rank_stats t)) else 0))"
    "rs = map (\<lambda>i. 0 + sum_list (take i (rank_stats t))) [0..<Suc (length (rank_stats t))]"
    using sort_starts_are [OF lanes_are_default, of 0 "rank_stats t" 0] s t(1) by auto
  have "(\<lambda>j. 0 + (if 0 \<le> j \<and> j < 0 + length (rank_stats t) then 0 + sum_list (take (j - 0) (rank_stats t)) else 0))
      = (\<lambda>w. (if w < 12 then below ws w else 0) + count_list [] w)"
    unfolding t(1) by (rule ext) (simp add: below_sum del: upt_rec_numeral)
  with st(1) have a: "lanes_are nxt (\<lambda>w. (if w < 12 then below ws w else 0) + count_list [] w)" by simp
  have rs: "rs = map (below ws) [0..<13]"
    unfolding st(2) t(1) by (intro map_cong) (auto simp: below_sum simp del: upt_rec_numeral)
  from sort_place_ok [OF a _ n w12 t(3), of ws] obtain out where
    out: "sort_place nxt (sorted_syms t) 0 ws = Inr out" "length out = 256" "\<forall>i<length ws. out ! slot ws i = i" by auto
  have "take (below ws (Suc w) - below ws w) (drop (below ws w) out) = of_weight ws w" if "w < 12" for w
  proof (rule nth_equalityI)
    have le: "below ws w + count_list ws w \<le> 256" using below_le [of ws "Suc w"] n by (simp add: below_Suc)
    show l: "length (take (below ws (Suc w) - below ws w) (drop (below ws w) out)) = length (of_weight ws w)"
      using out(2) le by (simp add: length_of_weight below_Suc)
    fix c
    assume "c < length (take (below ws (Suc w) - below ws w) (drop (below ws w) out))"
    then have c: "c < length (of_weight ws w)" unfolding l .
    from of_weight_nth [OF c] have
      "slot ws (of_weight ws w ! c) = below ws w + c" "of_weight ws w ! c < length ws" by (auto simp: slot_def)
    moreover have "c < count_list ws w" using c by (simp add: length_of_weight)
    ultimately show "take (below ws (Suc w) - below ws w) (drop (below ws w) out) ! c = of_weight ws w ! c"
      using out le by (simp add: below_Suc) metis
  qed
  then have "sorted_by ws rs out" using out(2) rs by (simp add: sorted_by_def)
  moreover have "sort_symbols t = Inr (t\<lparr>sorted_syms := out\<rparr>, rs)"
    using s out(1) t(2) by (simp add: sort_symbols_def ws_def)
  ultimately show ?thesis by blast
qed

section \<open>The single-symbol table is the reference\<close>

lemma concat_replicate_mult: "concat (replicate m (concat (replicate n xs))) = concat (replicate (m * n) xs)"
  by (induction m) (simp_all add: replicate_add)

definition mk_entry :: "nat \<times> nat \<Rightarrow> huffman_entry" where
  "mk_entry c = \<lparr>he_symbol = word_of_nat (fst c), he_num_bits = word_of_nat (snd c)\<rparr>"

lemma entry_bytes_append [simp]: "entry_bytes (xs @ ys) = entry_bytes xs @ entry_bytes ys"
  by (simp add: entry_bytes_def)

lemma length_entry_bytes [simp]: "length (entry_bytes es) = 2 * length es"
  by (induction es) (auto simp: entry_bytes_def)

lemma bytes_entries_inverse [simp]: "bytes_entries (entry_bytes es) = es"
  by (induction es) (auto simp: entry_bytes_def)

lemma entry_bytes_replicate: "entry_bytes (replicate n e) = concat (replicate n [he_symbol e, he_num_bits e])"
  by (induction n) (auto simp: entry_bytes_def)

lemma d4_bytes:
  assumes "s < 256" and "n < 256"
  shows "le_bytes 8 (d4 n s) = concat (replicate 4 [word_of_nat s, word_of_nat n])"
proof -
  have r: "replicate 4 x = [x, x, x, x]" for x :: "u8 list" by (simp add: numeral_eq_Suc)
  have "unat (word_of_nat s :: u8) = s" "unat (word_of_nat n :: u8) = n" using assms by (auto simp: unat_of_nat)
  then have "le_nat (concat (replicate 4 [word_of_nat s, word_of_nat n])) = d4 n s"
    unfolding r using assms by (simp add: d4_def)
  moreover have "length (concat (replicate 4 [word_of_nat s :: u8, word_of_nat n])) = 8" unfolding r by simp
  ultimately show ?thesis using le_bytes_le_nat [of "concat (replicate 4 [word_of_nat s, word_of_nat n])" 8] by simp
qed

lemma le_bytes_mod: "le_bytes k (n mod 256 ^ k) = le_bytes k n"
  using le_bytes_le_nat [of "le_bytes k n" k] by (simp add: le_nat_le_bytes)

lemma x1_chunk_bytes:
  assumes "s < 256" and "n < 256"
  shows "x1_chunk (2 ^ e) n s = entry_bytes (replicate (2 ^ e) (mk_entry (s, n)))"
proof -
  let ?p = "[word_of_nat s, word_of_nat n] :: u8 list"
  note d = d4_bytes [OF assms]
  have t: "le_bytes j (d4 n s) = take j (concat (replicate 4 ?p))" if "j \<le> 8" for j
    using le_bytes_take [OF that, of "d4 n s"] d by simp
  have r: "concat (replicate 4 ?p) = ?p @ ?p @ ?p @ ?p" "concat (replicate 2 ?p) = ?p @ ?p"
    by (simp_all add: numeral_eq_Suc)
  have pw: "(2::nat) ^ 16 = 256 ^ 2" "(2::nat) ^ 32 = 256 ^ 4" by simp_all
  have m2: "le_bytes 2 (d4 n s mod 2 ^ 16) = ?p"
    unfolding pw le_bytes_mod t [of 2, simplified] r by simp
  have m4: "le_bytes 4 (d4 n s mod 2 ^ 32) = concat (replicate 2 ?p)"
    unfolding pw le_bytes_mod t [of 4, simplified] r by simp
  have e: "entry_bytes (replicate (2 ^ e) (mk_entry (s, n))) = concat (replicate (2 ^ e) ?p)"
    by (simp add: entry_bytes_replicate mk_entry_def)
  consider "e = 0" | "e = 1" | "e = 2" | "e = 3" | f where "e = f + 4"
  proof -
    have "e = 0 \<or> e = 1 \<or> e = 2 \<or> e = 3 \<or> e = (e - 4) + 4" by linarith
    then show ?thesis using that by blast
  qed
  then show ?thesis
  proof cases
    case 5
    have "(2::nat) * 2 ^ e div 32 = 2 ^ f" "(2::nat) ^ e \<noteq> 1" "(2::nat) ^ e \<noteq> 2" "(2::nat) ^ e \<noteq> 4" "(2::nat) ^ e \<noteq> 8"
      using 5 by (auto simp: power_add)
    moreover have "(2::nat) ^ f * 16 = 2 ^ e" using 5 by (simp add: power_add)
    ultimately show ?thesis
      unfolding e x1_chunk_def Let_def d concat_replicate_mult by (simp add: mult.assoc)
  qed (unfold e x1_chunk_def Let_def m2 m4 d concat_replicate_mult, simp_all add: r numeral_eq_Suc)
qed

lemma kraft_ge_ones: "count_list ws 1 \<le> kraft ws"
  by (induction ws) (auto simp: kraft_def)

lemma complete_code_weight:
  assumes "complete_code ws k" and "w \<in> set ws"
  shows "w \<le> k"
proof (rule ccontr)
  assume "\<not> w \<le> k"
  then obtain v where v: "w = Suc v" "k \<le> v" by (cases w) auto
  obtain xs ys where ws: "ws = xs @ w # ys" using assms(2) by (meson split_list)
  have "count_list (xs @ ys) 1 \<ge> 1" using assms(1) by (auto simp: complete_code_def ws split: if_splits)
  then have "1 \<le> kraft (xs @ ys)" using kraft_ge_ones [of "xs @ ys"] by linarith
  moreover have "kraft ws = kraft (xs @ ys) + 2 ^ v" by (simp add: ws v kraft_def)
  moreover have "(2::nat) ^ k \<le> 2 ^ v" using v by simp
  moreover have "kraft ws = 2 ^ k" using assms(1) by (simp add: complete_code_def)
  ultimately show False by linarith
qed

lemma complete_code_depth: "complete_code ws k \<Longrightarrow> 1 \<le> k"
  using kraft_ge_ones [of ws] by (cases k) (auto simp: complete_code_def)

definition x1_of :: "nat list \<Rightarrow> nat \<Rightarrow> nat \<Rightarrow> (nat \<times> nat) list" where
  "x1_of ws k w = concat (map (\<lambda>s. replicate (2 ^ (11 - (k + 1 - w))) (s, k + 1 - w)) (of_weight ws w))"

definition x1_upto :: "nat list \<Rightarrow> nat \<Rightarrow> nat \<Rightarrow> (nat \<times> nat) list" where
  "x1_upto ws k w = concat (map (x1_of ws k) [1..<w])"

lemma concat_map_concat: "concat (map f (concat xss)) = concat (map (\<lambda>xs. concat (map f xs)) xss)"
  by (induction xss) auto

lemma of_weight_code_bits: "concat (map (\<lambda>s. replicate (2 ^ (11 - code_bits ws k s)) (s, code_bits ws k s)) (of_weight ws w)) = x1_of ws k w"
  unfolding x1_of_def by (intro arg_cong [of _ _ concat] map_cong) (auto simp: of_weight_def code_bits_def)

lemma of_weight_empty: "w \<notin> set ws \<Longrightarrow> of_weight ws w = []"
  by (auto simp: of_weight_def filter_empty_conv in_set_conv_nth)

lemma x1_ref_upto:
  assumes "complete_code ws k"
  shows "x1_ref ws k = x1_upto ws k (Suc k)"
proof -
  have k: "k \<le> 11" using assms by (simp add: complete_code_def HUF_TABLELOG_MAX_def)
  have "x1_ref ws k = concat (map (x1_of ws k) [1..<12])"
    by (simp add: x1_ref_def code_order_def concat_map_concat of_weight_code_bits comp_def del: upt_rec_numeral)
  also have "[1..<12] = [1..<Suc k] @ [Suc k..<12]"
    using upt_add_eq_append [of 1 "Suc k" "11 - k"] k by simp
  also have "concat (map (x1_of ws k) ([1..<Suc k] @ [Suc k..<12])) = x1_upto ws k (Suc k)"
    using complete_code_weight [OF assms] by (fastforce simp: x1_upto_def x1_of_def intro!: of_weight_empty)
  finally show ?thesis .
qed

lemma length_x1_of: "length (x1_of ws k w) = count_list ws w * 2 ^ (11 - (k + 1 - w))"
  by (simp add: x1_of_def length_concat comp_def sum_list_triv length_of_weight flip: length_of_weight)

lemma length_x1_ref:
  assumes "complete_code ws k"
  shows "length (x1_upto ws k (Suc k)) = 2 ^ 11"
proof -
  have k: "k \<le> 11" "\<forall>w \<in> set ws. w < Suc k"
    using assms complete_code_weight [OF assms] by (auto simp: complete_code_def HUF_TABLELOG_MAX_def less_Suc_eq_le)
  have e: "(2::nat) ^ (11 - (k + 1 - w)) = 2 ^ (11 - k) * (2 ^ w div 2)" if wm: "w \<in> set [1..<Suc k]" for w
  proof -
    have "w \<noteq> 0" "w \<le> k" using wm by auto
    then obtain v where v: "w = Suc v" "v < k" by (metis Suc_le_lessD not0_implies_Suc)
    then have "11 - (k + 1 - w) = (11 - k) + v" using k by simp
    then show ?thesis by (simp add: v power_add)
  qed
  have "length (x1_upto ws k (Suc k)) = (\<Sum>w\<leftarrow>[1..<Suc k]. count_list ws w * 2 ^ (11 - (k + 1 - w)))"
    by (simp add: x1_upto_def length_concat length_x1_of comp_def)
  also have "\<dots> = (\<Sum>w\<leftarrow>[1..<Suc k]. 2 ^ (11 - k) * (count_list ws w * (2 ^ w div 2)))"
    by (intro arg_cong [of _ _ sum_list] map_cong refl) (subst e, simp_all)
  also have "\<dots> = 2 ^ (11 - k) * (\<Sum>w\<leftarrow>[1..<Suc k]. count_list ws w * (2 ^ w div 2))"
    by (rule sum_list_const_mult)
  also have "(\<Sum>w\<leftarrow>[1..<Suc k]. count_list ws w * (2 ^ w div 2)) = (\<Sum>w\<leftarrow>[0..<Suc k]. count_list ws w * (2 ^ w div 2))"
    by (subst (2) upt_conv_Cons) (simp_all del: upt_Suc)
  also have "\<dots> = 2 ^ k" using kraft_counts [OF k(2)] assms by (simp only: complete_code_def)
  finally show ?thesis using k by (simp flip: power_add)
qed

lemma x1_upto_Suc: "1 \<le> w \<Longrightarrow> x1_upto ws k (Suc w) = x1_upto ws k w @ x1_of ws k w"
  by (simp add: x1_upto_def)

lemma x1_upto_mono: "v \<le> w \<Longrightarrow> length (x1_upto ws k v) \<le> length (x1_upto ws k w)"
proof (rule lift_Suc_mono_le [of "\<lambda>w. length (x1_upto ws k w)"])
  show "length (x1_upto ws k n) \<le> length (x1_upto ws k (Suc n))" for n
    by (cases n) (simp add: x1_upto_def, simp add: x1_upto_Suc)
qed

lemma x1_chunks:
  assumes "length ws \<le> 256" and "k \<le> 11"
  shows "concat (map (x1_chunk (2 ^ (11 - (k + 1 - w))) (k + 1 - w)) (of_weight ws w)) = entry_bytes (map mk_entry (x1_of ws k w))"
proof -
  have "s < 256" if "s \<in> set (of_weight ws w)" for s using that assms(1) by (auto simp: of_weight_def)
  moreover have "concat (map (\<lambda>s. entry_bytes (replicate n (mk_entry (s, b)))) ss)
      = entry_bytes (map mk_entry (concat (map (\<lambda>s. replicate n (s, b)) ss)))" for n b ss
    by (induction ss) (auto simp: entry_bytes_def)
  ultimately show ?thesis
    unfolding x1_of_def using assms(2)
    by (subst map_cong [OF refl, of _ _ "\<lambda>s. entry_bytes (replicate (2 ^ (11 - (k + 1 - w))) (mk_entry (s, k + 1 - w)))"])
       (auto simp: x1_chunk_bytes)
qed

lemma fill_x1_loop_ok:
  assumes cc: "complete_code ws k" and len: "length ws \<le> 256"
    and t: "max_num_bits t = k" "rank_stats t = map (count_list ws) [0..<12]" "sorted_by ws rs (sorted_syms t)"
    and w: "1 \<le> w" "w + j = k + 1"
    and bs: "length bs = 4096" "take (2 * u) bs = entry_bytes (map mk_entry (x1_upto ws k w))" "u = length (x1_upto ws k w)"
  shows "fill_x1_loop t rs j w u bs = Inr (entry_bytes (map mk_entry (x1_upto ws k (Suc k))))"
  using w bs
proof (induction j arbitrary: w u bs)
  case 0
  then have "w = Suc k" by simp
  then have "take (2 * u) bs = bs" using 0 length_x1_ref [OF cc] by simp
  then show ?case using 0 \<open>w = Suc k\<close> by simp
next
  case (Suc j)
  have k: "k \<le> 11" using cc by (simp add: complete_code_def HUF_TABLELOG_MAX_def)
  define L where "L = (2::nat) ^ (11 - (k + 1 - w))"
  have L: "2 ^ (w - 1 + (11 - k)) = L"
    unfolding L_def using Suc.prems k by (intro arg_cong [of _ _ "\<lambda>e. 2 ^ e"]) simp
  have w12: "w < 12" "w \<le> k" using Suc.prems k by auto
  have nb: "(k + 1 - w) mod 256 = k + 1 - w" using k by simp
  have u': "u + count_list ws w * L = length (x1_upto ws k (Suc w))"
    using Suc.prems by (simp add: x1_upto_Suc length_x1_of L_def)
  have "u + count_list ws w * L \<le> 2048"
    unfolding u' using x1_upto_mono [of "Suc w" "Suc k" ws k] w12 length_x1_ref [OF cc] by simp
  then have b: "2 * (u + count_list ws w * L) \<le> 4096" by simp
  have syms: "slice (sorted_syms t) (rs ! w) (rs ! (w + 1)) = Inr (of_weight ws w)"
    "rs ! w = below ws w" "rs ! (w + 1) = below ws (Suc w)" "length rs = 13"
    using t(3) w12 below_le [of ws "Suc w"] len below_mono [of w "Suc w" ws]
    by (auto simp: sorted_by_def simp del: upt_rec_numeral)
  have rk: "index (rank_stats t) w = Inr (count_list ws w)" using t(2) w12 by (simp del: upt_rec_numeral)
  define bs' where "bs' = put_slice bs (2 * u) (concat (map (x1_chunk L (k + 1 - w)) (of_weight ws w)))"
  have ch: "concat (map (x1_chunk L (k + 1 - w)) (of_weight ws w)) = entry_bytes (map mk_entry (x1_of ws k w))"
    unfolding L_def by (rule x1_chunks [OF len k])
  have lch: "length (concat (map (x1_chunk L (k + 1 - w)) (of_weight ws w))) = 2 * (count_list ws w * L)"
    unfolding ch by (simp add: length_x1_of L_def)
  have l': "length bs' = 4096" unfolding bs'_def using Suc.prems(3) lch b by simp
  have "take (2 * u + 2 * (count_list ws w * L)) bs' = take (2 * u) bs @ entry_bytes (map mk_entry (x1_of ws k w))"
    using take_put_slice [of "2 * u" bs] lch b Suc.prems(3) unfolding bs'_def ch [symmetric] by (metis add_leE distrib_left)
  then have tk: "take (2 * (u + count_list ws w * L)) bs' = entry_bytes (map mk_entry (x1_upto ws k (Suc w)))"
    using Suc.prems by (simp add: x1_upto_Suc distrib_left)
  have sl: "slice bs (2 * u) (2 * (u + count_list ws w * L)) = Inr (take (2 * (u + count_list ws w * L) - 2 * u) (drop (2 * u) bs))"
    using b Suc.prems(3) by simp
  have "fill_x1_loop t rs (Suc j) w u bs = fill_x1_loop t rs j (w + 1) (u + count_list ws w * L) bs'"
    unfolding fill_x1_loop.simps HUF_FAST_TABLE_LOG_def HUF_TABLELOG_MAX_def t(1) L nb Let_def rk bs'_def
    using syms w12 by (simp add: sl length_of_weight del: upt_rec_numeral distrib_left_numeral)
  also have "\<dots> = Inr (entry_bytes (map mk_entry (x1_upto ws k (Suc k))))"
    using Suc.IH [of "Suc w" bs' "u + count_list ws w * L"] Suc.prems(2) l' tk u' by simp
  finally show ?case .
qed

text \<open>The cells a built single-symbol table must have.\<close>

definition x1_built :: "huffman_table \<Rightarrow> bool" where
  "x1_built t \<longleftrightarrow> decode t = map mk_entry (x1_ref (take (nb_symbols t) (weights t)) (max_num_bits t))"

lemma fill_x1_ok:
  assumes "huffman_complete t" and "huffman_inv t"
  shows "\<exists>t'. fill_x1 t = Inr t' \<and> x1_built t' \<and> huffman_complete t' \<and> huffman_inv t' \<and> is_x2 t' = is_x2 t
    \<and> weights t' = weights t \<and> nb_symbols t' = nb_symbols t \<and> max_num_bits t' = max_num_bits t"
proof -
  define ws k where "ws = take (nb_symbols t) (weights t)" and "k = max_num_bits t"
  have cc: "complete_code ws k" "rank_stats t = map (count_list ws) [0..<12]" "length ws \<le> 256"
    using assms by (auto simp: huffman_complete_def huffman_inv_def Let_def ws_def k_def)
  obtain rs out where s: "sort_symbols t = Inr (t\<lparr>sorted_syms := out\<rparr>, rs)" "sorted_by ws rs out"
    using sort_symbols_ok [OF assms] ws_def by auto
  define bs where "bs = entry_bytes (resize (decode t) 2048 entry_default)"
  have "length bs = 4096" by (simp add: bs_def)
  then have "fill_x1_loop (t\<lparr>sorted_syms := out\<rparr>) rs k 1 0 bs = Inr (entry_bytes (map mk_entry (x1_upto ws k (Suc k))))"
    using cc s(2) by (intro fill_x1_loop_ok) (auto simp: k_def x1_upto_def entry_bytes_def simp flip: k_def)
  then have "fill_x1 t = Inr (t\<lparr>sorted_syms := out, decode := map mk_entry (x1_ref ws k)\<rparr>)"
    using s(1) cc(1) unfolding x1_ref_upto [OF cc(1)]
    by (simp add: fill_x1_def k_def complete_code_def HUF_FAST_TABLE_LOG_def HUF_TABLELOG_MAX_def bs_def Let_def)
  moreover have "length out = 256" using s(2) by (simp add: sorted_by_def)
  ultimately show ?thesis
    using assms by (auto simp: x1_built_def huffman_complete_def huffman_inv_def Let_def ws_def k_def)
qed

section \<open>Alignment\<close>

text \<open>Where the cells of a weight start.\<close>

definition cell_start :: "nat list \<Rightarrow> nat \<Rightarrow> nat \<Rightarrow> nat" where
  "cell_start ws k w = length (x1_upto ws k w)"

lemma cell_start_1 [simp]: "cell_start ws k (Suc 0) = 0"
  by (simp add: cell_start_def x1_upto_def)

lemma cell_start_Suc: "1 \<le> w \<Longrightarrow> cell_start ws k (Suc w) = cell_start ws k w + count_list ws w * 2 ^ (11 - (k + 1 - w))"
  by (simp add: cell_start_def x1_upto_Suc length_x1_of)

lemma cell_start_mono: "v \<le> w \<Longrightarrow> cell_start ws k v \<le> cell_start ws k w"
  unfolding cell_start_def by (rule x1_upto_mono)

lemma cell_start_end: "complete_code ws k \<Longrightarrow> cell_start ws k (Suc k) = 2048"
  using length_x1_ref by (simp add: cell_start_def)

lemma cell_start_aligned:
  assumes "complete_code ws k" and "1 \<le> w" and "w \<le> Suc k"
  shows "2 ^ (11 - (k + 1 - w)) dvd cell_start ws k w"
  using assms(3)
proof (induction w rule: inc_induct)
  case base
  then show ?case using cell_start_end [OF assms(1)] by simp
next
  case (step v)
  show ?case
  proof (cases "v = 0")
    case True
    then show ?thesis by (simp add: cell_start_def x1_upto_def)
  next
    case False
    have "(2::nat) ^ (11 - (k + 1 - v)) dvd 2 ^ (11 - (k + 1 - Suc v))" using step.hyps by (intro le_imp_power_dvd) simp
    then have "2 ^ (11 - (k + 1 - v)) dvd cell_start ws k (Suc v)" using step.IH dvd_trans by blast
    then show ?thesis using False by (simp add: cell_start_Suc)
  qed
qed

lemma concat_replicate_nth:
  "i < length xs * m \<Longrightarrow> concat (map (\<lambda>s. replicate m (f s)) xs) ! i = f (xs ! (i div m))"
proof (induction xs arbitrary: i)
  case (Cons x xs)
  have m: "0 < m" using Cons.prems by (cases m) auto
  show ?case
  proof (cases "i < m")
    case True
    then show ?thesis by (simp add: nth_append)
  next
    case False
    then have "i div m = Suc ((i - m) div m)" using m by (simp add: le_div_geq)
    then show ?thesis using False Cons by (simp add: nth_append)
  qed
qed simp

lemma x1_ref_nth:
  assumes cc: "complete_code ws k" and w: "1 \<le> w" "w \<le> k" and i: "cell_start ws k w \<le> i" "i < cell_start ws k (Suc w)"
  shows "x1_ref ws k ! i = (of_weight ws w ! ((i - cell_start ws k w) div 2 ^ (11 - (k + 1 - w))), k + 1 - w)"
    and "(i - cell_start ws k w) div 2 ^ (11 - (k + 1 - w)) < length (of_weight ws w)"
proof -
  let ?m = "(2::nat) ^ (11 - (k + 1 - w))"
  have b: "i - cell_start ws k w < length (of_weight ws w) * ?m"
    using i cell_start_Suc [OF w(1), of ws k] by (simp add: length_of_weight)
  then show "(i - cell_start ws k w) div ?m < length (of_weight ws w)" by (rule less_mult_imp_div_less)
  have "x1_ref ws k = concat (map (x1_of ws k) ([1..<Suc w] @ [Suc w..<Suc k]))"
    unfolding x1_ref_upto [OF cc] x1_upto_def using upt_add_eq_append [of 1 "Suc w" "k - w"] w by simp
  also have "\<dots> = x1_upto ws k (Suc w) @ concat (map (x1_of ws k) [Suc w..<Suc k])" by (simp add: x1_upto_def)
  finally have "x1_ref ws k ! i = x1_upto ws k (Suc w) ! i"
    using i(2) by (simp only: nth_append cell_start_def if_True)
  also have "\<dots> = (x1_upto ws k w @ x1_of ws k w) ! i" using w(1) by (simp add: x1_upto_Suc)
  also have "\<dots> = x1_of ws k w ! (i - cell_start ws k w)" using i(1) by (simp add: nth_append cell_start_def)
  also have "\<dots> = (of_weight ws w ! ((i - cell_start ws k w) div ?m), k + 1 - w)"
    unfolding x1_of_def using b by (rule concat_replicate_nth [of _ _ _ "\<lambda>s. (s, k + 1 - w)"])
  finally show "x1_ref ws k ! i = (of_weight ws w ! ((i - cell_start ws k w) div ?m), k + 1 - w)" .
qed

lemma weight_of_cell:
  assumes "complete_code ws k" and "i < 2048"
  obtains w where "1 \<le> w" "w \<le> k" "cell_start ws k w \<le> i" "i < cell_start ws k (Suc w)"
proof -
  define w where "w = (LEAST w. i < cell_start ws k (Suc w))"
  have ex: "i < cell_start ws k (Suc k)" using assms cell_start_end by simp
  then have i: "i < cell_start ws k (Suc w)" and wk: "w \<le> k" unfolding w_def by (rule LeastI, rule Least_le)
  have "w \<noteq> 0" using i by (cases w) auto
  then obtain v where v: "w = Suc v" by (cases w) auto
  have "\<not> i < cell_start ws k (Suc v)" using not_less_Least [of v "\<lambda>w. i < cell_start ws k (Suc w)"] v w_def by simp
  then show thesis using that [of w] i wk v by simp
qed

lemma div_minus_mult: "m * q \<le> j \<Longrightarrow> 0 < m \<Longrightarrow> (j - m * q) div m = j div m - (q::nat)"
proof -
  assume "m * q \<le> j" "0 < m"
  then obtain r where "j = m * q + r" by (metis le_Suc_ex)
  then show ?thesis using \<open>0 < m\<close> by simp
qed

lemma x1_ref_aligned:
  assumes cc: "complete_code ws k" and "i < 2048" and "j < 2048"
    and "j div 2 ^ (11 - snd (x1_ref ws k ! i)) = i div 2 ^ (11 - snd (x1_ref ws k ! i))"
  shows "x1_ref ws k ! j = x1_ref ws k ! i"
proof -
  from weight_of_cell [OF assms(1,2)] obtain w where w: "1 \<le> w" "w \<le> k" "cell_start ws k w \<le> i" "i < cell_start ws k (Suc w)" .
  let ?m = "(2::nat) ^ (11 - (k + 1 - w))" and ?a = "cell_start ws k w"
  note xi = x1_ref_nth(1) [OF cc w]
  have "?m dvd ?a" using w by (intro cell_start_aligned [OF cc]) auto
  then obtain q where q: "?a = ?m * q" by (elim dvdE)
  obtain q2 where q2: "cell_start ws k (Suc w) = ?m * q2"
    using cell_start_Suc [OF w(1), of ws k] q by (metis add_mult_distrib2 mult.commute)
  have d: "j div ?m = i div ?m" using assms(4) xi by simp
  have iq: "q \<le> i div ?m" "i div ?m < q2"
    using w(3,4) q q2 by (auto simp: less_eq_div_iff_mult_less_eq div_less_iff_less_mult mult.commute)
  then have "?a \<le> j" "j < cell_start ws k (Suc w)"
    unfolding q q2 d [symmetric] by (auto simp: less_eq_div_iff_mult_less_eq div_less_iff_less_mult mult.commute)
  moreover have "(j - ?a) div ?m = (i - ?a) div ?m"
    using calculation(1) w(3) d unfolding q by (simp add: div_minus_mult)
  ultimately show ?thesis unfolding xi using x1_ref_nth(1) [OF cc w(1,2)] by simp
qed

end
