(* ===== verification/Huffman_X2.thy ===== *)
theory Huffman_X2
  imports Huffman_Table
begin

text \<open>
  The double-symbol table of \<open>fill_x2\<close> (\<open>src/src/decode.rs\<close>) against its specification: the cell at
  an 11-bit lookup holds what one or two lookups in the single-symbol table give, two whenever both
  codes fit.  On top of it \<open>HuffmanTable::build_decoder\<close> never panics, and a table it returns is one
  of the two reference tables of a complete prefix code.
\<close>

section \<open>Chunks\<close>

lemma x2_chunk_replicate: "x2_chunk (2 ^ e) c = replicate (2 ^ e) c"
proof -
  have r: "concat (replicate 4 [c, c]) = replicate 8 c" "concat (replicate 2 [c, c]) = replicate 4 c" "[c, c] = replicate 2 c"
    by (simp_all add: numeral_eq_Suc)
  have rr: "concat (replicate m (replicate n c)) = replicate (m * n) c" for m n
    by (induction m) (simp_all add: replicate_add)
  have "e = 0 \<or> e = 1 \<or> e = 2 \<or> e = (e - 3) + 3" by linarith
  then consider "e = 0" | "e = 1" | "e = 2" | f where "e = f + 3" by blast
  then show ?thesis
  proof cases
    case 4
    have "(4::nat) * 2 ^ e div 32 = 2 ^ f" "(2::nat) ^ e \<noteq> 1" "(2::nat) ^ e \<noteq> 2" "(2::nat) ^ e \<noteq> 4"
      using 4 by (auto simp: power_add)
    moreover have "(2::nat) ^ f * 8 = 2 ^ e" using 4 by (simp add: power_add)
    ultimately show ?thesis unfolding x2_chunk_def Let_def r(1) rr by simp
  qed (unfold x2_chunk_def Let_def r(2), simp_all add: numeral_eq_Suc)
qed

lemma put_slice_nth:
  assumes "at + length ys \<le> length xs" and "i < length xs"
  shows "put_slice xs at ys ! i = (if i < at then xs ! i else if i < at + length ys then ys ! (i - at) else xs ! i)"
  using assms by (auto simp: put_slice_def nth_append)

lemma length_chunks: "length (concat (map (\<lambda>s. replicate m (f s)) xs)) = length xs * m"
  by (induction xs) auto

lemma fill_for_weight_ok:
  assumes "nb \<le> target" and "at + length syms * 2 ^ (target - nb) \<le> length dt"
  defines "m \<equiv> 2 ^ (target - nb)"
  shows "\<exists>dt'. huf_fill_x2_for_weight dt at syms nb target base level = Inr dt' \<and> length dt' = length dt
    \<and> (\<forall>i<length dt. dt' ! i = (if at \<le> i \<and> i < at + length syms * m
          then huf_build_x2 (syms ! ((i - at) div m)) nb base level else dt ! i))"
proof -
  let ?c = "\<lambda>s. huf_build_x2 s nb base level"
  let ?ys = "concat (map (\<lambda>s. replicate m (?c s)) syms)"
  have eq: "huf_fill_x2_for_weight dt at syms nb target base level = Inr (put_slice dt at ?ys)"
    using assms(1,2) by (simp add: huf_fill_x2_for_weight_def Let_def m_def x2_chunk_replicate)
  have l: "length ?ys = length syms * m" by (rule length_chunks)
  have "put_slice dt at ?ys ! i = (if at \<le> i \<and> i < at + length syms * m
          then ?c (syms ! ((i - at) div m)) else dt ! i)" if "i < length dt" for i
  proof (cases "at \<le> i \<and> i < at + length syms * m")
    case True
    then have "i - at < length syms * m" by linarith
    then show ?thesis
      using put_slice_nth [of at ?ys dt i] assms(2) [folded m_def] that True concat_replicate_nth [of "i - at" syms m ?c]
      unfolding l by simp
  next
    case False
    then show ?thesis using put_slice_nth [of at ?ys dt i] assms(2) [folded m_def] that unfolding l by auto
  qed
  then show ?thesis using eq l assms(2) [folded m_def] by (intro exI [of _ "put_slice dt at ?ys"]) simp
qed

section \<open>Cells of a first symbol\<close>

lemma cells_left: "n \<le> 11 \<Longrightarrow> (2048::nat) div 2 ^ n = 2 ^ (11 - n)"
proof -
  assume "n \<le> 11"
  then have "(2048::nat) = 2 ^ (11 - n) * 2 ^ n" unfolding power_add [symmetric] by simp
  then show ?thesis by (metis nonzero_mult_div_cancel_right power_not_zero zero_neq_numeral)
qed

text \<open>The cell that follows first symbol \<open>s1\<close> of \<open>n1\<close> bits when the next \<open>11 - n1\<close> bits are \<open>r\<close>.\<close>

definition second_ref :: "(nat \<times> nat) list \<Rightarrow> nat \<Rightarrow> nat \<Rightarrow> nat \<Rightarrow> huf_entry_x2" where
  "second_ref x1 s1 n1 r =
     (let (s2, n2) = x1 ! (r * 2 ^ n1) in
      if n1 + n2 \<le> 11 then \<lparr>sequence = s1 + 256 * s2, x2_nb_bits = n1 + n2, x2_length = 2\<rparr>
      else \<lparr>sequence = s1, x2_nb_bits = n1, x2_length = 1\<rparr>)"

text \<open>The row of \<open>rank_val\<close> that \<open>n1\<close> consumed bits select.\<close>

definition row_ok :: "nat list \<Rightarrow> nat \<Rightarrow> nat \<Rightarrow> nat \<Rightarrow> nat list \<Rightarrow> bool" where
  "row_ok ws k max_w n1 row \<longleftrightarrow> length row = 12 \<and> (\<forall>w. 1 \<le> w \<and> w \<le> max_w \<longrightarrow> row ! w = cell_start ws k w div 2 ^ n1)"

lemma sorted_by_slice:
  assumes "sorted_by ws rs out" and "w < 12" and "length ws \<le> 256"
  shows "index rs w = Inr (below ws w)" "index rs (w + 1) = Inr (below ws (Suc w))"
    "slice out (below ws w) (below ws (Suc w)) = Inr (of_weight ws w)"
  using assms below_le [of ws "Suc w"] below_mono [of w "Suc w" ws]
  by (auto simp: sorted_by_def simp del: upt_rec_numeral)

lemma level2_cell:
  assumes cc: "complete_code ws k" and w: "1 \<le> w" "w \<le> k" and fit: "n1 + (k + 1 - w) \<le> 11"
    and r: "cell_start ws k w div 2 ^ n1 \<le> r" "r < cell_start ws k (Suc w) div 2 ^ n1"
  defines "a \<equiv> cell_start ws k w div 2 ^ n1" and "m \<equiv> 2 ^ (11 - (k + 1 - w + n1))"
  shows "second_ref (x1_ref ws k) s1 n1 r = huf_build_x2 (of_weight ws w ! ((r - a) div m)) (k + 1 - w + n1) s1 2"
    and "cell_start ws k (Suc w) div 2 ^ n1 = a + length (of_weight ws w) * m"
proof -
  let ?M = "(2::nat) ^ (11 - (k + 1 - w))"
  have M: "?M = m * 2 ^ n1"
    unfolding m_def power_add [symmetric] using fit by (intro arg_cong [of _ _ "\<lambda>e. 2 ^ e"]) simp
  have "?M dvd cell_start ws k w" using w by (intro cell_start_aligned [OF cc]) auto
  then have A: "cell_start ws k w = a * 2 ^ n1"
    unfolding a_def M by (metis dvd_div_mult_self dvd_mult_right)
  have S: "cell_start ws k (Suc w) = (a + length (of_weight ws w) * m) * 2 ^ n1"
    unfolding cell_start_Suc [OF w(1)] A M by (simp add: length_of_weight algebra_simps)
  show B: "cell_start ws k (Suc w) div 2 ^ n1 = a + length (of_weight ws w) * m" unfolding S by simp
  have i: "cell_start ws k w \<le> r * 2 ^ n1" "r * 2 ^ n1 < cell_start ws k (Suc w)"
    using r unfolding B A S a_def [symmetric] by auto
  have "(r * 2 ^ n1 - cell_start ws k w) div ?M = (r - a) div m"
    unfolding A M by (simp add: diff_mult_distrib [symmetric] mult.commute)
  then have x: "x1_ref ws k ! (r * 2 ^ n1) = (of_weight ws w ! ((r - a) div m), k + 1 - w)"
    using x1_ref_nth(1) [OF cc w i] by simp
  show "second_ref (x1_ref ws k) s1 n1 r = huf_build_x2 (of_weight ws w ! ((r - a) div m)) (k + 1 - w + n1) s1 2"
    using fit by (simp add: second_ref_def x huf_build_x2_def add.commute)
qed

lemma level2_weights_ok:
  assumes cc: "complete_code ws k" and len: "length ws \<le> 256" and srt: "sorted_by ws rs out" and row: "row_ok ws k max_w n1 row"
    and mw: "max_w \<le> k" and n1: "n1 \<le> 11"
    and w: "1 \<le> w" "w + j = Suc max_w" "n1 + (k + 1 - w) \<le> 11"
    and dt: "length dt = 2 ^ (11 - n1)" "\<forall>r < cell_start ws k w div 2 ^ n1. dt ! r = second_ref (x1_ref ws k) s1 n1 r"
    and total: "cell_start ws k (Suc max_w) = 2048"
  shows "\<exists>dt'. x2_level2_weights 11 n1 row out rs (k + 1) s1 j w dt = Inr dt' \<and> length dt' = 2 ^ (11 - n1)
    \<and> (\<forall>r < 2 ^ (11 - n1). dt' ! r = second_ref (x1_ref ws k) s1 n1 r)"
  using w dt
proof (induction j arbitrary: w dt)
  case 0
  then show ?case using total cells_left [OF n1] by simp
next
  case (Suc j)
  define a m where "a = cell_start ws k w div 2 ^ n1" and "m = (2::nat) ^ (11 - (k + 1 - w + n1))"
  have wk: "w \<le> k" "w < 12" "w \<le> max_w" using Suc.prems mw cc by (auto simp: complete_code_def HUF_TABLELOG_MAX_def)
  note cell = level2_cell [OF cc Suc.prems(1) wk(1) Suc.prems(3), folded a_def m_def]
  have B: "cell_start ws k (Suc w) div 2 ^ n1 = a + length (of_weight ws w) * m"
  proof (cases "length (of_weight ws w) = 0")
    case True
    then show ?thesis using cell_start_Suc [OF Suc.prems(1), of ws k] by (simp add: a_def length_of_weight)
  next
    case False
    define M where "M = (2::nat) ^ (11 - (k + 1 - w))"
    have "M = m * 2 ^ n1" unfolding m_def M_def power_add [symmetric] using Suc.prems(3)
      by (intro arg_cong [of _ _ "\<lambda>e. 2 ^ e"]) simp
    then have "cell_start ws k (Suc w) = cell_start ws k w + (length (of_weight ws w) * m) * 2 ^ n1"
      using cell_start_Suc [OF Suc.prems(1), of ws k] by (simp add: length_of_weight M_def)
    then show ?thesis by (simp add: a_def)
  qed
  have le: "cell_start ws k (Suc w) \<le> 2048"
    using cell_start_mono [of "Suc w" "Suc max_w" ws k] total wk by simp
  then have "cell_start ws k (Suc w) div 2 ^ n1 \<le> 2 ^ (11 - n1)"
    using div_le_mono [OF le, of "2 ^ n1"] cells_left [OF n1] by simp
  then have room: "a + length (of_weight ws w) * m \<le> length dt" using B Suc.prems(4) by simp
  from fill_for_weight_ok [OF _ room [unfolded m_def], of s1 2] Suc.prems(3)
  obtain dt1 where dt1: "huf_fill_x2_for_weight dt a (of_weight ws w) (k + 1 - w + n1) 11 s1 2 = Inr dt1" "length dt1 = length dt"
    "\<forall>i<length dt. dt1 ! i = (if a \<le> i \<and> i < a + length (of_weight ws w) * m
       then huf_build_x2 (of_weight ws w ! ((i - a) div m)) (k + 1 - w + n1) s1 2 else dt ! i)"
    by (auto simp: m_def)
  have "\<forall>r < cell_start ws k (Suc w) div 2 ^ n1. dt1 ! r = second_ref (x1_ref ws k) s1 n1 r"
  proof (intro allI impI)
    fix r
    assume r: "r < cell_start ws k (Suc w) div 2 ^ n1"
    show "dt1 ! r = second_ref (x1_ref ws k) s1 n1 r"
    proof (cases "a \<le> r")
      case True
      then show ?thesis using dt1(3) r room cell(1) [of r s1] unfolding B by auto
    next
      case False
      then show ?thesis using dt1(3) Suc.prems(5) room by (auto simp: a_def)
    qed
  qed
  moreover have fit': "n1 + (k + 1 - Suc w) \<le> 11" using Suc.prems(3) by linarith
  ultimately obtain dt' where "x2_level2_weights 11 n1 row out rs (k + 1) s1 j (Suc w) dt1 = Inr dt'" "length dt' = 2 ^ (11 - n1)"
    "\<forall>r < 2 ^ (11 - n1). dt' ! r = second_ref (x1_ref ws k) s1 n1 r"
    using Suc.IH [of "Suc w" dt1] Suc.prems dt1(2) fit' by auto
  moreover have "index row w = Inr a" using row wk Suc.prems(1) by (simp add: row_ok_def a_def)
  ultimately show ?case
    using sorted_by_slice [OF srt wk(2) len] dt1(1) wk by (simp add: Let_def)
qed

text \<open>A first symbol that leaves no room for the codes of the weights below \<open>v\<close>.\<close>

lemma second_single:
  assumes cc: "complete_code ws k" and v: "1 \<le> v" "v \<le> Suc k" "\<And>u. 1 \<le> u \<Longrightarrow> u < v \<Longrightarrow> 11 < n1 + (k + 1 - u)"
    and r: "r * 2 ^ n1 < cell_start ws k v" and n1: "n1 < 256"
  shows "second_ref (x1_ref ws k) s1 n1 r = huf_build_x2 s1 n1 0 1"
proof -
  have "r * 2 ^ n1 < 2048" using r cell_start_mono [OF v(2), of ws k] cell_start_end [OF cc] by simp
  from weight_of_cell [OF cc this] obtain w where
    w: "1 \<le> w" "w \<le> k" "cell_start ws k w \<le> r * 2 ^ n1" "r * 2 ^ n1 < cell_start ws k (Suc w)" .
  have "w < v"
  proof (rule ccontr)
    assume "\<not> w < v"
    then have "cell_start ws k v \<le> cell_start ws k w" by (intro cell_start_mono) simp
    then show False using w r by simp
  qed
  then show ?thesis
    using x1_ref_nth(1) [OF cc w] v(3) [OF w(1)] n1 by (simp add: second_ref_def huf_build_x2_def)
qed

lemma less_div_mult: "r < a div m \<Longrightarrow> r * m < (a::nat)"
  by (metis div_times_less_eq_dividend le_less_trans less_le_trans mult_less_mono1 neq0_conv mult_0_right div_by_0 not_less_zero)

lemma replicate_pairs: "concat (replicate n (concat (replicate 4 [c, c]))) = replicate (8 * n) c"
proof -
  have "concat (replicate 4 [c, c]) = replicate 8 c" by (simp add: numeral_eq_Suc)
  then show ?thesis by (induction n) (simp_all add: replicate_add)
qed

lemma level2_ok:
  assumes cc: "complete_code ws k" and len: "length ws \<le> 256" and srt: "sorted_by ws rs out" and row: "row_ok ws k max_w n1 row"
    and mw: "max_w \<le> k" and n1: "n1 < 11" and total: "cell_start ws k (Suc max_w) = 2048"
    and v: "1 \<le> v" "v \<le> max_w" "n1 + (k + 1 - v) \<le> 11" "\<And>u. 1 \<le> u \<Longrightarrow> u < v \<Longrightarrow> 11 < n1 + (k + 1 - u)"
    and dt: "length dt = 2 ^ (11 - n1)"
  shows "\<exists>dt'. huf_fill_x2_level2 dt 11 n1 row v (max_w + 1) out rs (k + 1) s1 = Inr dt' \<and> length dt' = 2 ^ (11 - n1)
    \<and> (\<forall>r < 2 ^ (11 - n1). dt' ! r = second_ref (x1_ref ws k) s1 n1 r)"
proof -
  let ?c = "huf_build_x2 s1 n1 0 1"
  define skip where "skip = cell_start ws k v div 2 ^ n1"
  have skip: "index row v = Inr skip" using row v mw cc by (simp add: row_ok_def skip_def complete_code_def HUF_TABLELOG_MAX_def)
  have single: "second_ref (x1_ref ws k) s1 n1 r = ?c" if "r < skip" for r
    using less_div_mult [OF that [unfolded skip_def]] v mw n1 by (intro second_single [OF cc v(1) _ v(4)]) auto
  have "cell_start ws k v \<le> 2048" using cell_start_mono [of v "Suc max_w" ws k] total v by simp
  then have "skip \<le> 2048 div 2 ^ n1" unfolding skip_def by (rule div_le_mono)
  then have skip_le: "skip \<le> 2 ^ (11 - n1)" using cells_left [of n1] n1 by simp
  have "\<exists>dt1. (if 1 < v then x2_prefill dt n1 row v s1 else Inr dt) = Inr dt1 \<and> length dt1 = length dt
      \<and> (\<forall>r. r < skip \<longrightarrow> dt1 ! r = ?c)"
  proof (cases "1 < v")
    case False
    then have "v = Suc 0" using v by simp
    then have "skip = 0" by (simp add: skip_def)
    then show ?thesis using False by simp
  next
    case True
    obtain e where e: "11 - n1 = Suc e" using n1 by (cases "11 - n1") auto
    consider "e = 0" | "e = 1" | f where "e = f + 2" by (metis One_nat_def add.commute add_2_eq_Suc not0_implies_Suc)
    then show ?thesis
    proof cases
      case 1
      have "[?c, ?c] = replicate 2 ?c" by (simp add: numeral_eq_Suc)
      then show ?thesis using True skip dt e 1 skip_le by (auto simp: x2_prefill_def Let_def intro!: exI [of _ "replicate 2 ?c"])
    next
      case 2
      have "concat (replicate 2 [?c, ?c]) = replicate 4 ?c" by (simp add: numeral_eq_Suc)
      then show ?thesis using True skip dt e 2 skip_le by (auto simp: x2_prefill_def intro!: exI [of _ "replicate 4 ?c"])
    next
      case 3
      define n where "n = (skip + 7) div 8 * 8"
      have l8: "length dt = 8 * 2 ^ f" using dt e 3 by (simp add: power_add)
      have "(skip + 7) div 8 \<le> (8 * 2 ^ f + 7) div 8" using skip_le l8 dt by (intro div_le_mono) simp
      then have n: "n \<le> length dt" "skip \<le> n" unfolding l8 n_def by auto
      have n8: "4 * n div 32 = (skip + 7) div 8" "8 * ((skip + 7) div 8) = n" by (simp_all add: n_def)
      have put: "put_slice dt 0 (replicate n ?c) ! r = ?c" if "r < skip" for r
        using put_slice_nth [of 0 "replicate n ?c" dt r] n that by simp
      have "length dt \<noteq> 2" "length dt \<noteq> 4" using l8 by (auto simp: power_eq_if)
      then show ?thesis
        using True skip n put
        by (auto simp: x2_prefill_def Let_def replicate_pairs n8 simp flip: n_def intro!: exI [of _ "put_slice dt 0 (replicate n ?c)"])
    qed
  qed
  then obtain dt1 where dt1: "(if 1 < v then x2_prefill dt n1 row v s1 else Inr dt) = Inr dt1"
    "length dt1 = length dt" "\<And>r. r < skip \<Longrightarrow> dt1 ! r = ?c" by blast
  have n11: "n1 \<le> 11" using n1 by simp
  have "\<exists>dt'. x2_level2_weights 11 n1 row out rs (k + 1) s1 (max_w + 1 - v) v dt1 = Inr dt' \<and> length dt' = 2 ^ (11 - n1)
      \<and> (\<forall>r < 2 ^ (11 - n1). dt' ! r = second_ref (x1_ref ws k) s1 n1 r)"
    using v dt dt1 single by (intro level2_weights_ok [OF cc len srt row mw n11 v(1) _ v(3) _ _ total]) (auto simp: skip_def)
  then show ?thesis unfolding huf_fill_x2_level2_def dt1(1) by simp
qed

section \<open>The whole table\<close>

lemma x2_ref_second:
  assumes cc: "complete_code ws k" and w: "1 \<le> w" "w \<le> k" and c: "c < length (of_weight ws w)" and r: "r < 2 ^ (11 - (k + 1 - w))"
  shows "x2_ref (x1_ref ws k) (cell_start ws k w + c * 2 ^ (11 - (k + 1 - w)) + r)
    = second_ref (x1_ref ws k) (of_weight ws w ! c) (k + 1 - w) r"
proof -
  define L n1 where "L = (2::nat) ^ (11 - (k + 1 - w))" and "n1 = k + 1 - w"
  define i where "i = cell_start ws k w + c * L + r"
  have "k \<le> 11" using cc by (simp add: complete_code_def HUF_TABLELOG_MAX_def)
  then have n1: "n1 \<le> 11" using w by (simp add: n1_def)
  have LL: "L * 2 ^ n1 = 2048" unfolding L_def n1_def [symmetric] power_add [symmetric] using n1 by simp
  have rL: "r < L" using r by (simp add: L_def)
  have "Suc c * L \<le> length (of_weight ws w) * L" using c by (intro mult_le_mono1) simp
  then have i: "cell_start ws k w \<le> i" "i < cell_start ws k (Suc w)"
    using rL cell_start_Suc [OF w(1), of ws k] by (auto simp: i_def length_of_weight L_def)
  have "(i - cell_start ws k w) div L = c" using rL by (simp add: i_def)
  then have x: "x1_ref ws k ! i = (of_weight ws w ! c, n1)" using x1_ref_nth(1) [OF cc w i] by (simp add: L_def n1_def)
  have "L dvd cell_start ws k w" unfolding L_def using w by (intro cell_start_aligned [OF cc]) auto
  then obtain q where q: "cell_start ws k w = L * q" by (elim dvdE)
  have "i * 2 ^ n1 = (q + c) * 2048 + r * 2 ^ n1" unfolding i_def q LL [symmetric] by (simp add: algebra_simps)
  moreover have "r * 2 ^ n1 < 2048" unfolding LL [symmetric] using rL by simp
  ultimately have "i * 2 ^ n1 mod 2048 = r * 2 ^ n1" by (simp only: mod_mult_self3 mod_less)
  then show ?thesis
    unfolding L_def [symmetric] unfolding n1_def [symmetric] i_def [symmetric] by (simp add: x2_ref_def x second_ref_def)
qed

lemma first_symbols_ok:
  assumes cc: "complete_code ws k" and len: "length ws \<le> 256" and srt: "sorted_by ws rs out"
    and mw: "max_w \<le> k" and total: "cell_start ws k (Suc max_w) = 2048"
    and w: "1 \<le> w" "w \<le> k" and n1: "n1 = k + 1 - w" "n1 < 11"
    and row: "index rv n1 = Inr row" "row_ok ws k max_w n1 row"
    and v: "1 \<le> v" "v \<le> max_w" "n1 + (k + 1 - v) \<le> 11" "\<And>u. 1 \<le> u \<Longrightarrow> u < v \<Longrightarrow> 11 < n1 + (k + 1 - u)"
    and dt: "length dt = 2048" "\<forall>i < start. dt ! i = x2_ref (x1_ref ws k) i"
    and st: "start = cell_start ws k w + c * 2 ^ (11 - n1)" "ss = drop c (of_weight ws w)"
  shows "\<exists>dt'. x2_first_symbols rv n1 v max_w out rs (k + 1) start ss dt = Inr dt' \<and> length dt' = 2048
    \<and> (\<forall>i < cell_start ws k (Suc w). dt' ! i = x2_ref (x1_ref ws k) i)"
  using dt st
proof (induction ss arbitrary: c start dt)
  case Nil
  then have "length (of_weight ws w) \<le> c" by simp
  then have "cell_start ws k (Suc w) \<le> start"
    using cell_start_Suc [OF w(1), of ws k] Nil n1 by (simp add: length_of_weight)
  then show ?case using Nil by simp
next
  case (Cons s1 ss)
  define L where "L = (2::nat) ^ (11 - n1)"
  have "c < length (of_weight ws w)" using Cons.prems(4) by (metis drop_all list.distinct(1) not_le)
  then have c: "c < length (of_weight ws w)" "s1 = of_weight ws w ! c" "ss = drop (Suc c) (of_weight ws w)"
    using Cons.prems(4) Cons_nth_drop_Suc [of c "of_weight ws w"] by (metis list.inject)+
  have "Suc c * L \<le> length (of_weight ws w) * L" using c by (intro mult_le_mono1) simp
  then have "start + L \<le> cell_start ws k (Suc w)"
    using cell_start_Suc [OF w(1), of ws k] Cons.prems(3) n1 by (simp add: length_of_weight L_def)
  also have "\<dots> \<le> 2048" using cell_start_mono [of "Suc w" "Suc k" ws k] cell_start_end [OF cc] w by simp
  finally have room: "start + L \<le> 2048" .
  have "length (take L (drop start dt)) = 2 ^ (11 - n1)" using room Cons.prems(1) by (simp add: L_def)
  from level2_ok [OF cc len srt row(2) mw n1(2) total v this]
  obtain part where part: "huf_fill_x2_level2 (take L (drop start dt)) 11 n1 row v (max_w + 1) out rs (k + 1) s1 = Inr part"
    "length part = L" "\<forall>r < L. part ! r = second_ref (x1_ref ws k) s1 n1 r" unfolding L_def by blast
  have "\<forall>i < start + L. put_slice dt start part ! i = x2_ref (x1_ref ws k) i"
  proof (intro allI impI)
    fix i
    assume i: "i < start + L"
    show "put_slice dt start part ! i = x2_ref (x1_ref ws k) i"
    proof (cases "i < start")
      case True
      then show ?thesis using put_slice_nth [of start part dt i] part(2) room Cons.prems(1,2) by simp
    next
      case False
      then obtain r where r: "i = start + r" "r < L" using i by (metis add_less_cancel_left le_Suc_ex not_le)
      have "x2_ref (x1_ref ws k) i = second_ref (x1_ref ws k) s1 n1 r"
        using x2_ref_second [OF cc w c(1), of r] r Cons.prems(3) c(2) n1 by (simp add: L_def)
      then show ?thesis using put_slice_nth [of start part dt i] part room Cons.prems(1) r False i by simp
    qed
  qed
  moreover have "length (put_slice dt start part) = 2048" using part(2) room Cons.prems(1) by simp
  ultimately obtain dt' where "x2_first_symbols rv n1 v max_w out rs (k + 1) (start + L) ss (put_slice dt start part) = Inr dt'"
    "length dt' = 2048" "\<forall>i < cell_start ws k (Suc w). dt' ! i = x2_ref (x1_ref ws k) i"
    using Cons.IH [of "put_slice dt start part" "start + L" "Suc c"] Cons.prems(3) c(3) by (auto simp: L_def)
  moreover have "slice dt start (start + L) = Inr (take L (drop start dt))" using room Cons.prems(1) by simp
  ultimately show ?case using row(1) part(1) by (simp add: HUF_FAST_TABLE_LOG_def HUF_TABLELOG_MAX_def L_def)
qed

lemma fill_x2_loop_ok:
  assumes cc: "complete_code ws k" and len: "length ws \<le> 256" and srt: "sorted_by ws rs out"
    and mw: "1 \<le> max_w" "max_w \<le> k" and total: "cell_start ws k (Suc max_w) = 2048"
    and rv0: "index rv 0 = Inr row0" "length row0 = 12" "\<And>w. 1 \<le> w \<Longrightarrow> w \<le> max_w \<Longrightarrow> row0 ! w = cell_start ws k w"
    and rvn: "\<And>n. k + 1 - max_w \<le> n \<Longrightarrow> n \<le> 11 - (k + 1 - max_w) \<Longrightarrow> \<exists>row. index rv n = Inr row \<and> row_ok ws k max_w n row"
    and w: "1 \<le> w" "w + j = Suc max_w"
    and dt: "length dt = 2048" "\<forall>i < cell_start ws k w. dt ! i = x2_ref (x1_ref ws k) i"
  shows "\<exists>dt'. fill_x2_loop rv (k + 1 - max_w) max_w out rs (k + 1) j w dt = Inr dt' \<and> length dt' = 2048
    \<and> (\<forall>i < 2048. dt' ! i = x2_ref (x1_ref ws k) i)"
  using w dt
proof (induction j arbitrary: w dt)
  case 0
  then show ?case using total by simp
next
  case (Suc j)
  have k: "k \<le> 11" using cc by (simp add: complete_code_def HUF_TABLELOG_MAX_def)
  define n1 where "n1 = k + 1 - w"
  have w: "w \<le> k" "w \<le> max_w" "w < 12" "n1 \<le> 11" using Suc.prems mw k by (auto simp: n1_def)
  define v where "v = nat (max (int n1 + (int (k + 1) - 11)) 1)"
  let ?ss = "of_weight ws w"
  let ?step = "if k + 1 - max_w \<le> 11 - n1 then x2_first_symbols rv n1 v max_w out rs (k + 1) (cell_start ws k w) ?ss dt
    else huf_fill_x2_for_weight dt (cell_start ws k w) ?ss n1 11 0 1"
  have "\<exists>dt1. ?step = Inr dt1 \<and> length dt1 = 2048 \<and> (\<forall>i < cell_start ws k (Suc w). dt1 ! i = x2_ref (x1_ref ws k) i)"
  proof (cases "k + 1 - max_w \<le> 11 - n1")
    case True
    have n: "n1 < 11" "k + 1 - max_w \<le> n1" "n1 \<le> 11 - (k + 1 - max_w)" using True mw w k Suc.prems by (auto simp: n1_def)
    from rvn [OF n(2,3)] obtain row where row: "index rv n1 = Inr row" "row_ok ws k max_w n1 row" by blast
    have v: "1 \<le> v" "v \<le> max_w" "n1 + (k + 1 - v) \<le> 11" "\<And>u. 1 \<le> u \<Longrightarrow> u < v \<Longrightarrow> 11 < n1 + (k + 1 - u)"
      unfolding v_def using True mw k w n by (auto simp: max_def split: if_splits)
    show ?thesis
      using first_symbols_ok [OF cc len srt mw(2) total Suc.prems(1) w(1) n1_def n(1) row v Suc.prems(3), of "cell_start ws k w" 0 ?ss]
        Suc.prems(4) True by simp
  next
    case False
    define L where "L = (2::nat) ^ (11 - n1)"
    have S: "cell_start ws k (Suc w) = cell_start ws k w + length ?ss * L"
      using cell_start_Suc [OF Suc.prems(1), of ws k] by (simp add: length_of_weight L_def n1_def)
    have "cell_start ws k (Suc w) \<le> 2048" using cell_start_mono [of "Suc w" "Suc max_w" ws k] total w by simp
    then have room: "cell_start ws k w + length ?ss * 2 ^ (11 - n1) \<le> length dt" using S Suc.prems(3) by (simp add: L_def)
    from fill_for_weight_ok [OF w(4) room, of 0 1] obtain dt1 where
      dt1: "huf_fill_x2_for_weight dt (cell_start ws k w) ?ss n1 11 0 1 = Inr dt1" "length dt1 = 2048"
      "\<forall>i < 2048. dt1 ! i = (if cell_start ws k w \<le> i \<and> i < cell_start ws k w + length ?ss * L
          then huf_build_x2 (?ss ! ((i - cell_start ws k w) div L)) n1 0 1 else dt ! i)"
      using Suc.prems(3) by (auto simp: L_def)
    have "dt1 ! i = x2_ref (x1_ref ws k) i" if i: "i < cell_start ws k (Suc w)" for i
    proof (cases "i < cell_start ws k w")
      case True
      then show ?thesis using dt1(3) Suc.prems(4) room Suc.prems(3) by simp
    next
      case ge: False
      define c r where "c = (i - cell_start ws k w) div L" and "r = (i - cell_start ws k w) mod L"
      have L0: "0 < L" by (simp add: L_def)
      have ieq: "i = cell_start ws k w + c * L + r" using ge by (simp add: c_def r_def)
      have r: "r < L" using L0 by (simp add: r_def)
      have c: "c < length ?ss" unfolding c_def using i ge S by (intro less_mult_imp_div_less) simp
      have "r * 2 ^ n1 < L * 2 ^ n1" using r by simp
      also have "L * 2 ^ n1 = 2048" unfolding L_def power_add [symmetric] using w(4) by simp
      finally have "r * 2 ^ n1 < cell_start ws k (Suc max_w)" using total by simp
      then have "second_ref (x1_ref ws k) (?ss ! c) n1 r = huf_build_x2 (?ss ! c) n1 0 1"
        using False mw w by (intro second_single [OF cc, of "Suc max_w"]) auto
      moreover have "x2_ref (x1_ref ws k) i = second_ref (x1_ref ws k) (?ss ! c) n1 r"
        using x2_ref_second [OF cc Suc.prems(1) w(1) c, of r] r unfolding ieq by (simp add: L_def n1_def)
      ultimately show ?thesis using dt1(3) i ge S room Suc.prems(3) by (simp add: c_def L_def)
    qed
    then show ?thesis using dt1(1,2) False by auto
  qed
  then obtain dt1 where dt1: "?step = Inr dt1" "length dt1 = 2048" "\<forall>i < cell_start ws k (Suc w). dt1 ! i = x2_ref (x1_ref ws k) i"
    by blast
  obtain dt' where "fill_x2_loop rv (k + 1 - max_w) max_w out rs (k + 1) j (Suc w) dt1 = Inr dt'" "length dt' = 2048"
    "\<forall>i < 2048. dt' ! i = x2_ref (x1_ref ws k) i"
    using Suc.IH [of "Suc w" dt1] Suc.prems(2) dt1(2,3) by auto
  moreover have "index row0 w = Inr (cell_start ws k w)" using rv0(2,3) Suc.prems(1) w by simp
  moreover have "fill_x2_loop rv (k + 1 - max_w) max_w out rs (k + 1) (Suc j) w dt
      = res_bind ?step (\<lambda>dt. fill_x2_loop rv (k + 1 - max_w) max_w out rs (k + 1) j (w + 1) dt)"
    using sorted_by_slice [OF srt w(3) len] rv0(1) calculation(4) w
    by (simp add: HUF_FAST_TABLE_LOG_def HUF_TABLELOG_MAX_def Let_def v_def n1_def)
  ultimately show ?case using dt1(1) by simp
qed

lemma x2_max_w_ok:
  assumes "w < length stats" and "stats ! 1 \<noteq> 0" and "1 \<le> w"
  shows "\<exists>m. x2_max_w stats w = Inr m \<and> 1 \<le> m \<and> m \<le> w \<and> (\<forall>v. m < v \<longrightarrow> v \<le> w \<longrightarrow> stats ! v = 0)"
  using assms
proof (induction w)
  case (Suc w)
  show ?case
  proof (cases "stats ! Suc w = 0")
    case True
    then have "1 \<le> w" using Suc.prems by (cases w) auto
    with Suc obtain m where "x2_max_w stats w = Inr m" "1 \<le> m" "m \<le> w" "\<forall>v. m < v \<longrightarrow> v \<le> w \<longrightarrow> stats ! v = 0" by auto
    then show ?thesis using True Suc.prems(1) by (auto simp: le_Suc_eq)
  next
    case False
    then show ?thesis using Suc.prems(1) by auto
  qed
qed simp

lemma cell_start_unused:
  assumes "1 \<le> m" and "m \<le> k" and "\<forall>v. m < v \<longrightarrow> v \<le> k \<longrightarrow> count_list ws v = 0"
  shows "cell_start ws k (Suc m) = cell_start ws k (Suc k)"
proof -
  have "j \<le> k \<Longrightarrow> cell_start ws k (Suc m) = cell_start ws k (Suc j)" if "m \<le> j" for j
    using that
  proof (induction j rule: dec_induct)
    case (step n)
    then show ?case using assms(1,3) by (simp add: cell_start_Suc [of "Suc n"])
  qed simp
  then show ?thesis using assms(2) by simp
qed

lemma x2_row0_ok:
  assumes cc: "complete_code ws k" and stats: "stats = map (count_list ws) [0..<12]" and m: "max_w \<le> k"
    and w: "1 \<le> w" "w + j = Suc max_w" and nv: "nv = cell_start ws k w"
    and row: "length row = 12" "\<forall>v. 1 \<le> v \<longrightarrow> v < w \<longrightarrow> row ! v = cell_start ws k v"
  shows "\<exists>row'. x2_row0 stats (11 - k) j w nv row = Inr row' \<and> length row' = 12
    \<and> (\<forall>v. 1 \<le> v \<longrightarrow> v \<le> max_w \<longrightarrow> row' ! v = cell_start ws k v)"
  using w nv row
proof (induction j arbitrary: w nv row)
  case 0
  then show ?case by simp
next
  case (Suc j)
  have k: "k \<le> 11" using cc by (simp add: complete_code_def HUF_TABLELOG_MAX_def)
  have w: "w < 12" "w \<le> k" using Suc.prems m k by auto
  have "w - 1 + (11 - k) = 11 - (k + 1 - w)" using Suc.prems(1) w k by simp
  then have nv: "nv + count_list ws w * 2 ^ (w - 1 + (11 - k)) = cell_start ws k (Suc w)"
    using Suc.prems(1,3) by (simp add: cell_start_Suc)
  have "index stats w = Inr (count_list ws w)" using w by (simp add: stats del: upt_rec_numeral)
  moreover have "store row w nv = Inr (row[w := nv])" using Suc.prems(4) w by (simp add: store_def)
  moreover have "\<forall>v. 1 \<le> v \<longrightarrow> v < Suc w \<longrightarrow> row[w := nv] ! v = cell_start ws k v"
    using Suc.prems w by (auto simp: less_Suc_eq nth_list_update)
  ultimately show ?case
    using Suc.IH [of "Suc w" "cell_start ws k (Suc w)" "row[w := nv]"] Suc.prems(2,4) nv by simp
qed

definition x2_built :: "huffman_table \<Rightarrow> bool" where
  "x2_built t \<longleftrightarrow> decode_x2 t = map (x2_ref (x1_ref (take (nb_symbols t) (weights t)) (max_num_bits t))) [0..<2048]"

lemma fill_x2_ok:
  assumes "huffman_complete t" and "huffman_inv t"
  shows "\<exists>t'. fill_x2 t = Inr t' \<and> x2_built t' \<and> huffman_complete t' \<and> huffman_inv t' \<and> is_x2 t' = is_x2 t
    \<and> weights t' = weights t \<and> nb_symbols t' = nb_symbols t \<and> max_num_bits t' = max_num_bits t"
proof -
  define ws k where "ws = take (nb_symbols t) (weights t)" and "k = max_num_bits t"
  have cc: "complete_code ws k" and stats: "rank_stats t = map (count_list ws) [0..<12]" and len: "length ws \<le> 256"
    using assms by (auto simp: huffman_complete_def huffman_inv_def Let_def ws_def k_def)
  have k: "k \<le> 11" "1 \<le> k" using cc complete_code_depth [OF cc] by (auto simp: complete_code_def HUF_TABLELOG_MAX_def)
  have one: "rank_stats t ! 1 \<noteq> 0" using cc by (simp add: stats complete_code_def)
  from x2_max_w_ok [OF _ one k(2)] k(1) obtain m where
    m: "x2_max_w (rank_stats t) k = Inr m" "1 \<le> m" "m \<le> k" "\<forall>v. m < v \<longrightarrow> v \<le> k \<longrightarrow> rank_stats t ! v = 0"
    by (auto simp: stats)
  have "\<forall>v. m < v \<longrightarrow> v \<le> k \<longrightarrow> count_list ws v = 0" using m(4) k(1) by (auto simp: stats simp del: upt_rec_numeral)
  then have total: "cell_start ws k (Suc m) = 2048" using cell_start_unused [OF m(2,3)] cell_start_end [OF cc] by simp
  obtain rs out where s: "sort_symbols t = Inr (t\<lparr>sorted_syms := out\<rparr>, rs)" "sorted_by ws rs out"
    using sort_symbols_ok [OF assms] ws_def by auto
  obtain row0 where row0: "x2_row0 (rank_stats t) (11 - k) m 1 0 (replicate 12 0) = Inr row0" "length row0 = 12"
    "\<forall>v. 1 \<le> v \<longrightarrow> v \<le> m \<longrightarrow> row0 ! v = cell_start ws k v"
    using x2_row0_ok [OF cc stats m(3), of 1 m 0 "replicate 12 0"] by auto
  define rv where "rv = x2_rank_val row0 m (k + 1 - m)"
  have rv0: "index rv 0 = Inr row0" by (simp add: rv_def x2_rank_val_def HUF_TABLELOG_MAX_def)
  have rvn: "\<exists>row. index rv n = Inr row \<and> row_ok ws k m n row" if "k + 1 - m \<le> n" "n \<le> 11 - (k + 1 - m)" for n
  proof -
    have "n < 11" "n \<noteq> 0" using that m by auto
    then have "index rv n = Inr (x2_row row0 m n)"
      using that by (simp add: rv_def x2_rank_val_def HUF_TABLELOG_MAX_def HUF_FAST_TABLE_LOG_def del: upt_rec_numeral)
    moreover have "row_ok ws k m n (x2_row row0 m n)" using row0 m k by (auto simp: row_ok_def x2_row_def simp del: upt_rec_numeral)
    ultimately show ?thesis by blast
  qed
  define dt where "dt = resize (decode_x2 t) 2048 x2_default"
  from fill_x2_loop_ok [OF cc len s(2) m(2,3) total rv0 row0(2) _ rvn, of 1 m dt] row0(3)
  obtain dt' where dt': "fill_x2_loop rv (k + 1 - m) m out rs (k + 1) m 1 dt = Inr dt'" "length dt' = 2048"
    "\<forall>i < 2048. dt' ! i = x2_ref (x1_ref ws k) i" by (auto simp: dt_def)
  have "dt' = map (x2_ref (x1_ref ws k)) [0..<2048]" using dt' by (intro nth_equalityI) (auto simp del: upt_rec_numeral)
  moreover have "fill_x2 t = Inr (t\<lparr>sorted_syms := out, decode_x2 := dt'\<rparr>)"
    using m s(1) row0(1) dt'(1) k
    by (simp add: fill_x2_def HUF_FAST_TABLE_LOG_def HUF_TABLELOG_MAX_def Let_def rv_def dt_def flip: k_def)
  moreover have "length out = 256" using s(2) by (simp add: sorted_by_def)
  ultimately show ?thesis
    using assms by (auto simp: x2_built_def huffman_complete_def huffman_inv_def Let_def ws_def k_def)
qed

section \<open>Building a decoder\<close>

text \<open>A table that decodes: a complete code with the cells of its kind.\<close>

definition huffman_ready :: "huffman_table \<Rightarrow> bool" where
  "huffman_ready t \<longleftrightarrow> huffman_complete t \<and> (if is_x2 t then x2_built t else x1_built t)"

lemma algo_time_small: "list_all (\<lambda>((t0, d0), (t1, d1)). t0 \<le> 2131 \<and> d0 \<le> 216 \<and> t1 \<le> 2131 \<and> d1 \<le> 216) HUF_ALGO_TIME"
  by code_simp

lemma huf_select_x2_total:
  assumes "dst_size < 2 ^ 32"
  shows "\<exists>b. huf_select_x2 dst_size src_size = Inr b"
proof -
  define q where "q = (if dst_size \<le> src_size then 15 else src_size * 16 div dst_size)"
  define d where "d = dst_size div 256 mod 2 ^ 32"
  have "src_size * 16 div dst_size < 16" if "\<not> dst_size \<le> src_size"
    using that by (intro less_mult_imp_div_less) simp
  then have "q < length HUF_ALGO_TIME" by (auto simp: q_def HUF_ALGO_TIME_def)
  moreover obtain t0 d0 t1 d1 where x: "HUF_ALGO_TIME ! q = ((t0, d0), (t1, d1))" by (metis prod.exhaust)
  ultimately have b: "t0 \<le> 2131" "d0 \<le> 216" "t1 \<le> 2131" "d1 \<le> 216" "index HUF_ALGO_TIME q = Inr ((t0, d0), (t1, d1))"
    using algo_time_small by (auto simp: list_all_length)
  have "d < 2 ^ 24" using assms by (simp add: d_def)
  then have "d0 * d \<le> 216 * 2 ^ 24" "d1 * d \<le> 216 * 2 ^ 24" using b by (meson less_imp_le mult_le_mono)+
  then have "t0 + d0 * d < 2 ^ 32" "t1 + d1 * d < 2 ^ 32" "t1 + d1 * d + (t1 + d1 * d) div 32 < 2 ^ 32"
    using b by auto
  then show ?thesis
    unfolding huf_select_x2_def Let_def q_def [symmetric] d_def [symmetric] using b(5) by (simp add: u32_checked_def)
qed

lemma fill_ok:
  assumes "huffman_complete t" and "huffman_inv t"
  shows "\<exists>t'. fill t x2 = Inr t' \<and> huffman_ready t' \<and> huffman_inv t' \<and> is_x2 t' = x2"
proof -
  have a: "huffman_complete (t\<lparr>is_x2 := x2\<rparr>)" "huffman_inv (t\<lparr>is_x2 := x2\<rparr>)"
    using assms by (auto simp: huffman_complete_def huffman_inv_def)
  show ?thesis
    using fill_x1_ok [OF a] fill_x2_ok [OF a] by (cases x2) (auto simp: fill_def Let_def huffman_ready_def)
qed

lemma build_decoder_cases:
  assumes inv: "huffman_inv t" and size: "dst_size < 2 ^ 32"
  shows "(\<exists>e. build_decoder t src dst_size four = Inl (Err e)) \<or>
    (\<exists>t' n. build_decoder t src dst_size four = Inr (t', n) \<and> n \<le> length src \<and> huffman_inv t' \<and> huffman_ready t'
       \<and> (is_x2 t' \<longrightarrow> four))"
proof -
  have i0: "huffman_inv (t\<lparr>max_num_bits := 0\<rparr>)" using inv by (simp add: huffman_inv_def)
  from read_weights_total [OF i0, of src] consider
    (err) e where "read_weights (t\<lparr>max_num_bits := 0\<rparr>) src = Inl (Err e)"
  | (ok) t1 used nb where "read_weights (t\<lparr>max_num_bits := 0\<rparr>) src = Inr (t1, used, nb)" "huffman_inv t1"
      "used \<le> length src" "nb \<le> 255" "\<forall>w \<in> set (take nb (weights t1)). w < 16" by blast
  then show ?thesis
  proof cases
    case err
    then show ?thesis by (simp add: build_decoder_def)
  next
    case ok
    from weight_stats_cases [OF ok(2,4,5)] consider
      (bad) e where "weight_stats t1 nb = Inl (Err e)"
    | (good) t2 where "weight_stats t1 nb = Inr t2" "huffman_complete t2" "huffman_inv t2" by blast
    then show ?thesis
    proof cases
      case bad
      then show ?thesis using ok by (simp add: build_decoder_def)
    next
      case good
      obtain b where b: "(if four then huf_select_x2 dst_size (length src) else Inr False) = Inr b" "b \<longrightarrow> four"
        using huf_select_x2_total [OF size, of "length src"] by (cases four) auto
      from fill_ok [OF good(2,3), of b] obtain t3 where
        "fill t2 b = Inr t3" "huffman_ready t3" "huffman_inv t3" "is_x2 t3 = b" by blast
      then show ?thesis
        using ok(1,3) good(1) b by (auto simp: build_decoder_def intro: le_trans [OF mod_less_eq_dividend])
    qed
  qed
qed

lemma copy_from_ready:
  assumes "huffman_inv t" and "huffman_inv src" and "huffman_ready src"
  shows "huffman_inv (huffman_copy_from t src) \<and> huffman_ready (huffman_copy_from t src)"
  using assms by (auto simp: huffman_inv_def huffman_ready_def huffman_copy_from_def Let_def huffman_complete_def x1_built_def x2_built_def)

lemma reset_inv: "huffman_inv t \<Longrightarrow> huffman_inv (huffman_reset t)"
  by (simp add: huffman_inv_def huffman_reset_def fse_reset_def)

lemma x1_ref_entry:
  assumes cc: "complete_code ws k" and i: "i < 2048"
  obtains s n where "x1_ref ws k ! i = (s, n)" "s < length ws" "1 \<le> ws ! s" "n = k + 1 - ws ! s" "1 \<le> n" "n \<le> 11"
proof -
  from weight_of_cell [OF cc i] obtain w where w: "1 \<le> w" "w \<le> k" "cell_start ws k w \<le> i" "i < cell_start ws k (Suc w)" .
  have "k \<le> 11" using cc by (simp add: complete_code_def HUF_TABLELOG_MAX_def)
  then show thesis
    using that [OF x1_ref_nth(1) [OF cc w]] of_weight_nth [OF x1_ref_nth(2) [OF cc w]] w by auto
qed

lemma x1_cell:
  assumes cc: "complete_code ws k" and len: "length ws \<le> 256" and i: "i < 2048"
  shows "unat (he_symbol (map mk_entry (x1_ref ws k) ! i)) = fst (x1_ref ws k ! i)
    \<and> unat (he_num_bits (map mk_entry (x1_ref ws k) ! i)) = snd (x1_ref ws k ! i)"
proof -
  from x1_ref_entry [OF cc i] obtain s n where e: "x1_ref ws k ! i = (s, n)" "s < length ws" "n \<le> 11" by metis
  have "length (x1_ref ws k) = 2048" using length_x1_ref [OF cc] x1_ref_upto [OF cc] by simp
  then show ?thesis using e len i by (simp add: mk_entry_def unat_of_nat)
qed

section \<open>Properties\<close>

text \<open>C19: \<open>HuffmanTable::build_decoder\<close> returns on every input: an error of its own, or a table whose weights
  form a complete prefix code and whose 2048 cells are the reference cells of that code; it never panics,
  also not in the indexed writes of the two fill routines.\<close>

theorem huffman_build_total:
  assumes "huffman_inv t" and "dst_size < 2 ^ 32"
  shows "case build_decoder t src dst_size four of
      Inl f \<Rightarrow> (\<exists>e. f = Err e)
    | Inr (t', n) \<Rightarrow> n \<le> length src \<and> huffman_inv t' \<and> huffman_ready t'"
  using build_decoder_cases [OF assms, of src four] by auto

theorem huffman_build_total_witness:
  "case build_decoder huffman_new [130, 0x32, 0x10] 100 True of
      Inl f \<Rightarrow> (\<exists>e. f = Err e)
    | Inr (t', n) \<Rightarrow> n \<le> length ([130, 0x32, 0x10] :: u8 list) \<and> huffman_inv t' \<and> huffman_ready t'"
  by (rule huffman_build_total [OF huffman_new_inv]) simp

text \<open>C20: A lookup in the double-symbol table gives what one or two lookups in the single-symbol table
  of the same weights give: the first symbol, and the second when both codes fit in the eleven bits
  (\<open>fill_x2\<close> against \<open>fill_x1\<close>).\<close>

theorem fill_x2_is_two_lookups:
  assumes "huffman_complete t" and "huffman_inv t"
  shows "\<exists>a b. fill_x1 t = Inr a \<and> fill_x2 t = Inr b \<and> length (decode a) = 2048 \<and> length (decode_x2 b) = 2048 \<and>
    (\<forall>i < 2048.
      let e1 = decode a ! i; n1 = unat (he_num_bits e1);
          e2 = decode a ! (i * 2 ^ n1 mod 2048); n2 = unat (he_num_bits e2)
      in decode_x2 b ! i =
        (if n1 + n2 \<le> 11
         then \<lparr>sequence = unat (he_symbol e1) + 256 * unat (he_symbol e2), x2_nb_bits = n1 + n2, x2_length = 2\<rparr>
         else \<lparr>sequence = unat (he_symbol e1), x2_nb_bits = n1, x2_length = 1\<rparr>))"
proof -
  define ws k where "ws = take (nb_symbols t) (weights t)" and "k = max_num_bits t"
  have cc: "complete_code ws k" and len: "length ws \<le> 256"
    using assms by (auto simp: huffman_complete_def huffman_inv_def Let_def ws_def k_def)
  obtain a where a: "fill_x1 t = Inr a" "decode a = map mk_entry (x1_ref ws k)"
    using fill_x1_ok [OF assms] by (auto simp: x1_built_def ws_def k_def)
  obtain b where b: "fill_x2 t = Inr b" "decode_x2 b = map (x2_ref (x1_ref ws k)) [0..<2048]"
    using fill_x2_ok [OF assms] by (auto simp: x2_built_def ws_def k_def)
  have l: "length (x1_ref ws k) = 2048" using length_x1_ref [OF cc] x1_ref_upto [OF cc] by simp
  show ?thesis
  proof (intro exI conjI allI impI)
    fix i :: nat
    assume i: "i < 2048"
    note c1 = x1_cell [OF cc len i]
    have j: "i * 2 ^ snd (x1_ref ws k ! i) mod 2048 < 2048" by simp
    note c2 = x1_cell [OF cc len j]
    show "let e1 = decode a ! i; n1 = unat (he_num_bits e1);
          e2 = decode a ! (i * 2 ^ n1 mod 2048); n2 = unat (he_num_bits e2)
      in decode_x2 b ! i =
        (if n1 + n2 \<le> 11
         then \<lparr>sequence = unat (he_symbol e1) + 256 * unat (he_symbol e2), x2_nb_bits = n1 + n2, x2_length = 2\<rparr>
         else \<lparr>sequence = unat (he_symbol e1), x2_nb_bits = n1, x2_length = 1\<rparr>)"
      unfolding a(2) b(2) Let_def c1 [THEN conjunct1] c1 [THEN conjunct2] c2 [THEN conjunct1] c2 [THEN conjunct2]
      using i by (simp add: x2_ref_def split_beta Let_def del: upt_rec_numeral)
  qed (use a b l in \<open>simp_all del: upt_rec_numeral\<close>)
qed

text \<open>The table with the two weights 2 and 1 read, the third implied.\<close>

definition demo_table :: huffman_table where
  "demo_table = huffman_new\<lparr>weights := [2, 1, 1] @ replicate 253 0, nb_symbols := 3, max_num_bits := 2,
     rank_stats := [0, 2, 1, 0, 0, 0, 0, 0, 0, 0, 0, 0]\<rparr>"

lemma demo_table_ok: "huffman_complete demo_table" "huffman_inv demo_table"
  by code_simp+

theorem fill_x2_is_two_lookups_witness:
  "\<exists>a b. fill_x1 demo_table = Inr a \<and> fill_x2 demo_table = Inr b \<and> length (decode a) = 2048 \<and> length (decode_x2 b) = 2048"
  using fill_x2_is_two_lookups [OF demo_table_ok] by blast

text \<open>C21: The single-symbol table is a prefix code (\<open>fill_x1\<close>): the cell at an eleven-bit lookup names a symbol
  of nonzero weight with its code length, between 1 and 11 bits, and every lookup with the same leading
  bits finds the same cell.\<close>

theorem fill_x1_prefix_code:
  assumes "huffman_complete t" and "huffman_inv t" and "fill_x1 t = Inr a" and "i < 2048"
  shows "let s = unat (he_symbol (decode a ! i)); n = unat (he_num_bits (decode a ! i)) in
    s < nb_symbols t \<and> 1 \<le> weights t ! s \<and> code_len t s = Inr n \<and> 1 \<le> n \<and> n \<le> 11 \<and>
    (\<forall>j < 2048. j div 2 ^ (11 - n) = i div 2 ^ (11 - n) \<longrightarrow> decode a ! j = decode a ! i)"
proof -
  define ws k where "ws = take (nb_symbols t) (weights t)" and "k = max_num_bits t"
  have cc: "complete_code ws k" and len: "length ws \<le> 256" and nb: "length ws = nb_symbols t"
    using assms by (auto simp: huffman_complete_def huffman_inv_def Let_def ws_def k_def)
  have a: "decode a = map mk_entry (x1_ref ws k)"
    using fill_x1_ok [OF assms(1,2)] assms(3) by (auto simp: x1_built_def ws_def k_def)
  have l: "length (x1_ref ws k) = 2048" using length_x1_ref [OF cc] x1_ref_upto [OF cc] by simp
  from x1_ref_entry [OF cc assms(4)] obtain s n where
    e: "x1_ref ws k ! i = (s, n)" "s < length ws" "1 \<le> ws ! s" "n = k + 1 - ws ! s" "1 \<le> n" "n \<le> 11" .
  have d: "unat (he_symbol (decode a ! i)) = s" "unat (he_num_bits (decode a ! i)) = n"
    using x1_cell [OF cc len assms(4)] e by (auto simp: a)
  have w: "ws ! s = weights t ! s" using e(2) by (simp add: ws_def)
  have "ws ! s \<le> k" using complete_code_weight [OF cc nth_mem [OF e(2)]] .
  then have "code_len t s = Inr n"
    using e(2,4) w assms(2) len nb by (simp add: code_len_def huffman_inv_def k_def)
  moreover have "decode a ! j = decode a ! i" if j: "j < 2048" "j div 2 ^ (11 - n) = i div 2 ^ (11 - n)" for j
  proof -
    have "x1_ref ws k ! j = x1_ref ws k ! i" by (rule x1_ref_aligned [OF cc assms(4) j(1)]) (simp only: e(1) j(2) snd_conv)
    then show ?thesis using l assms(4) j(1) by (simp add: a)
  qed
  ultimately show ?thesis using e(2,3,5,6) unfolding Let_def d nb w by blast
qed

theorem fill_x1_prefix_code_witness:
  "\<exists>a. fill_x1 demo_table = Inr a \<and> 1 \<le> unat (he_num_bits (decode a ! 5)) \<and> unat (he_num_bits (decode a ! 5)) \<le> 11"
proof -
  obtain a where a: "fill_x1 demo_table = Inr a" using fill_x1_ok [OF demo_table_ok] by blast
  have "(5::nat) < 2048" by simp
  from fill_x1_prefix_code [OF demo_table_ok a this] a show ?thesis unfolding Let_def by blast
qed

end
