(* ===== verification/Huffman_Stream.thy ===== *)
theory Huffman_Stream
  imports Huffman_X2
begin

text \<open>
  Decoding one Huffman stream (\<open>src/src/decode.rs\<close>): the single-symbol and double-symbol decoders
  \<open>huf_decompress_1x1\<close> and \<open>huf_decompress_1x2\<close>, and their specification: read the codes from the
  end of the stream one symbol at a time, from a table of code lengths, until exactly the requested
  symbols and exactly the bits of the stream are consumed.
\<close>

section \<open>Single-symbol decoding\<close>

text \<open>\<open>out[p..p + ys.len()].copy_from_slice(ys)\<close>.\<close>

definition copy_into :: "'a list \<Rightarrow> nat \<Rightarrow> 'a list \<Rightarrow> 'a list res" where
  "copy_into out p ys = (if p + length ys \<le> length out then Inr (put_slice out p ys) else Inl Panic)"

lemma copy_into_length: "copy_into out p ys = Inr out' \<Longrightarrow> length out' = length out"
  by (auto simp: copy_into_def split: if_splits)

definition huf_decode_symbol_x1 :: "bit_dstream \<Rightarrow> huffman_entry list \<Rightarrow> (u8 \<times> bit_dstream) res" where
  "huf_decode_symbol_x1 br dt =
     res_bind (index dt (look_bits br HUF_FAST_TABLE_LOG)) (\<lambda>entry.
     Inr (he_symbol entry, skip_bits br (unat (he_num_bits entry))))"

function stream_x1_quads :: "huffman_entry list \<Rightarrow> bit_dstream \<Rightarrow> u8 list \<Rightarrow> nat \<Rightarrow> (bit_dstream \<times> u8 list \<times> nat) res" where
  "stream_x1_quads dt br out p =
     res_bind (reload br) (\<lambda>(status, br).
     if status = Unfinished \<and> p < length out - 3 then
       res_bind (huf_decode_symbol_x1 br dt) (\<lambda>(a, br).
       res_bind (huf_decode_symbol_x1 br dt) (\<lambda>(b, br).
       res_bind (huf_decode_symbol_x1 br dt) (\<lambda>(c, br).
       res_bind (huf_decode_symbol_x1 br dt) (\<lambda>(d, br).
       res_bind (copy_into out p [a, b, c, d]) (\<lambda>out.
       stream_x1_quads dt br out (p + 4))))))
     else Inr (br, out, p))"
  by pat_completeness auto
termination
  by (relation "measure (\<lambda>(dt, br, out, p). length out - p)") (auto dest: copy_into_length)

declare stream_x1_quads.simps [simp del]

text \<open>\<open>out[i] = b\<close> for bytes.\<close>

definition set_byte :: "u8 list \<Rightarrow> nat \<Rightarrow> u8 \<Rightarrow> u8 list res" where
  "set_byte out i b = (if i < length out then Inr (out[i := b]) else Inl Panic)"

function stream_x1_tail :: "huffman_entry list \<Rightarrow> bit_dstream \<Rightarrow> u8 list \<Rightarrow> nat \<Rightarrow> (bit_dstream \<times> u8 list) res" where
  "stream_x1_tail dt br out p =
     (if p < length out then
        res_bind (huf_decode_symbol_x1 br dt) (\<lambda>(a, br).
        res_bind (set_byte out p a) (\<lambda>out.
        stream_x1_tail dt br out (p + 1)))
      else Inr (br, out))"
  by pat_completeness auto
termination
  by (relation "measure (\<lambda>(dt, br, out, p). length out - p)") (auto simp: set_byte_def split: if_splits)

declare stream_x1_tail.simps [simp del]

definition huf_decode_stream_x1 :: "u8 list \<Rightarrow> bit_dstream \<Rightarrow> huffman_entry list \<Rightarrow> (bit_dstream \<times> u8 list) res" where
  "huf_decode_stream_x1 out br dt =
     res_bind (if 3 < length out then stream_x1_quads dt br out 0
               else res_bind (reload br) (\<lambda>(_, br). Inr (br, out, 0)))
       (\<lambda>(br, out, p). stream_x1_tail dt br out p)"

definition huf_decompress_1x1 :: "u8 list \<Rightarrow> u8 list \<Rightarrow> huffman_table \<Rightarrow> u8 list res" where
  "huf_decompress_1x1 out src table =
     res_bind (huf_cells (decode table)) (\<lambda>dt.
     res_bind (ds_new src) (\<lambda>br.
     res_bind (huf_decode_stream_x1 out br dt) (\<lambda>(br, out).
     if \<not> is_finished br then Inl (Err (HufError HufNotConsumed)) else Inr out)))"

section \<open>Double-symbol decoding\<close>

text \<open>\<open>n\<close> cells into the window \<open>w\<close> at \<open>o\<close>.\<close>

fun cells_x2 :: "nat \<Rightarrow> huf_entry_x2 list \<Rightarrow> bit_dstream \<Rightarrow> u8 list \<Rightarrow> nat \<Rightarrow> (u8 list \<times> nat \<times> bit_dstream) res" where
  "cells_x2 0 dt br w pos = Inr (w, pos, br)"
| "cells_x2 (Suc n) dt br w pos =
     res_bind (index dt (look_bits br HUF_FAST_TABLE_LOG)) (\<lambda>entry.
     res_bind (copy_into w pos (le_bytes 2 (sequence entry))) (\<lambda>w.
     cells_x2 n dt (skip_bits br (x2_nb_bits entry)) w (pos + x2_advance entry)))"

text \<open>\<open>huf_decode_cells_x2::<N>\<close> on the window of \<open>N\<close> bytes of \<open>out\<close> at \<open>op\<close>.\<close>

definition huf_decode_cells_x2 :: "nat \<Rightarrow> u8 list \<Rightarrow> nat \<Rightarrow> bit_dstream \<Rightarrow> huf_entry_x2 list \<Rightarrow> (u8 list \<times> nat \<times> bit_dstream) res" where
  "huf_decode_cells_x2 N out op br dt =
     res_bind (slice out op (op + N)) (\<lambda>w.
     res_bind (cells_x2 (N div 2) dt br w 0) (\<lambda>(w, n, br).
     res_bind (copy_into out op w) (\<lambda>out.
     Inr (out, n, br))))"

definition huf_decode_last_symbol_x2 :: "u8 list \<Rightarrow> nat \<Rightarrow> bit_dstream \<Rightarrow> huf_entry_x2 list \<Rightarrow> huffman_table \<Rightarrow> (u8 list \<times> bit_dstream) res" where
  "huf_decode_last_symbol_x2 out op br dt table =
     res_bind (index dt (look_bits br HUF_FAST_TABLE_LOG)) (\<lambda>entry.
     let symbol = sequence entry mod 256 in
     res_bind (set_byte out op (word_of_nat symbol)) (\<lambda>out.
     res_bind (code_len table symbol) (\<lambda>n.
     Inr (out, skip_bits br n))))"

lemma cells_x2_grow: "cells_x2 n dt br w pos = Inr (w', pos', br') \<Longrightarrow> length w' = length w \<and> pos + n \<le> pos' \<and> pos' \<le> pos + 2 * n"
proof (induction n arbitrary: br w pos)
  case (Suc n)
  then obtain e w1 where 1: "copy_into w pos (le_bytes 2 (sequence e)) = Inr w1"
    "cells_x2 n dt (skip_bits br (x2_nb_bits e)) w1 (pos + x2_advance e) = Inr (w', pos', br')"
    by (auto simp: res_simps)
  have "x2_advance e = 1 \<or> x2_advance e = 2" unfolding x2_advance_def by presburger
  then show ?case using Suc.IH [OF 1(2)] copy_into_length [OF 1(1)] by auto
qed simp

text \<open>Behind the last symbol, at most one byte of the window changes.\<close>

lemma cells_x2_frame: "cells_x2 n dt br w pos = Inr (w', pos', br') \<Longrightarrow> pos' < i \<Longrightarrow> w' ! i = w ! i"
proof (induction n arbitrary: br w pos)
  case (Suc n)
  then obtain e w1 where 1: "copy_into w pos (le_bytes 2 (sequence e)) = Inr w1"
    "cells_x2 n dt (skip_bits br (x2_nb_bits e)) w1 (pos + x2_advance e) = Inr (w', pos', br')"
    by (auto simp: res_simps)
  have "x2_advance e = 1 \<or> x2_advance e = 2" unfolding x2_advance_def by presburger
  then have "pos + 2 \<le> i" using cells_x2_grow [OF 1(2)] Suc.prems(2) by auto
  then obtain d where "i = pos + 2 + d" using le_Suc_ex by blast
  then have "w1 ! i = w ! i" using 1(1) by (auto simp: copy_into_def put_slice_def nth_append split: if_splits)
  then show ?case using Suc.IH [OF 1(2) Suc.prems(2)] by simp
qed simp

lemma decode_cells_x2_grow:
  "huf_decode_cells_x2 N out op br dt = Inr (out', n, br') \<Longrightarrow>
    length out' = length out \<and> op + N \<le> length out \<and> N div 2 \<le> n \<and> n \<le> 2 * (N div 2)"
  by (auto simp: huf_decode_cells_x2_def res_simps copy_into_def split: if_splits dest!: cells_x2_grow)

text \<open>\<open>while br.reload() == Unfinished\<close> with \<open>N\<close>-byte windows.\<close>

function stream_x2_loop :: "nat \<Rightarrow> huf_entry_x2 list \<Rightarrow> bit_dstream \<Rightarrow> u8 list \<Rightarrow> nat \<Rightarrow> (bit_dstream \<times> u8 list \<times> nat) res" where
  "stream_x2_loop N dt br out op =
     (if N < 2 then Inl Panic else
      res_bind (reload br) (\<lambda>(status, br).
      if status = Unfinished then
        if length out < op then Inl Panic
        else if length out - op < N then Inr (br, out, op)
        else res_bind (huf_decode_cells_x2 N out op br dt) (\<lambda>(out, n, br). stream_x2_loop N dt br out (op + n))
      else Inr (br, out, op)))"
  by pat_completeness auto
termination
  by (relation "measure (\<lambda>(N, dt, br, out, op). length out - op)") (auto dest!: decode_cells_x2_grow simp: div_greater_zero_iff)

declare stream_x2_loop.simps [simp del]

text \<open>\<open>while let Some(w) = out[op..].first_chunk_mut()\<close>.\<close>

function stream_x2_tail :: "huf_entry_x2 list \<Rightarrow> bit_dstream \<Rightarrow> u8 list \<Rightarrow> nat \<Rightarrow> (bit_dstream \<times> u8 list \<times> nat) res" where
  "stream_x2_tail dt br out op =
     (if length out < op then Inl Panic
      else if length out - op < 2 then Inr (br, out, op)
      else res_bind (huf_decode_cells_x2 2 out op br dt) (\<lambda>(out, n, br). stream_x2_tail dt br out (op + n)))"
  by pat_completeness auto
termination
  by (relation "measure (\<lambda>(dt, br, out, op). length out - op)") (auto dest!: decode_cells_x2_grow)

declare stream_x2_tail.simps [simp del]

definition huf_decode_stream_x2 :: "u8 list \<Rightarrow> bit_dstream \<Rightarrow> huf_entry_x2 list \<Rightarrow> huffman_table \<Rightarrow> (bit_dstream \<times> u8 list) res" where
  "huf_decode_stream_x2 out br dt table =
     res_bind (if 8 \<le> length out then stream_x2_loop 10 dt br out 0
               else res_bind (reload br) (\<lambda>(_, br). Inr (br, out, 0))) (\<lambda>(br, out, op).
     res_bind (if 2 \<le> length out - op then
                 res_bind (stream_x2_loop 2 dt br out op) (\<lambda>(br, out, op). stream_x2_tail dt br out op)
               else Inr (br, out, op)) (\<lambda>(br, out, op).
     if op < length out then
       res_bind (huf_decode_last_symbol_x2 out op br dt table) (\<lambda>(out, br). Inr (br, out))
     else Inr (br, out)))"

definition huf_decompress_1x2 :: "u8 list \<Rightarrow> u8 list \<Rightarrow> huffman_table \<Rightarrow> u8 list res" where
  "huf_decompress_1x2 out src table =
     res_bind (huf_cells (decode_x2 table)) (\<lambda>dt.
     res_bind (ds_new src) (\<lambda>br.
     res_bind (huf_decode_stream_x2 out br dt table) (\<lambda>(br, out).
     if \<not> is_finished br then Inl (Err (HufError HufNotConsumed)) else Inr out)))"

section \<open>Specification\<close>

text \<open>The eleven bits below position \<open>p\<close> of a stream's number, zeros below the start.\<close>

definition peek :: "nat \<Rightarrow> nat \<Rightarrow> nat" where
  "peek N p = N * 2 ^ 11 div 2 ^ p mod 2 ^ 11"

text \<open>Decode \<open>n\<close> symbols from position \<open>p\<close> downwards, to end exactly at 0.\<close>

fun huf_ref :: "(nat \<times> nat) list \<Rightarrow> nat \<Rightarrow> nat \<Rightarrow> nat \<Rightarrow> nat list option" where
  "huf_ref X N p 0 = (if p = 0 then Some [] else None)"
| "huf_ref X N p (Suc n) =
     (let (s, b) = X ! peek N p in
      if b \<le> p then map_option ((#) s) (huf_ref X N (p - b) n) else None)"

text \<open>The same from a position that may be past the start.\<close>

definition ref_at :: "(nat \<times> nat) list \<Rightarrow> nat \<Rightarrow> int \<Rightarrow> nat \<Rightarrow> nat list option" where
  "ref_at X N l n = (if l < 0 then None else huf_ref X N (nat l) n)"

text \<open>Going from one position to another decodes \<open>syms\<close>.\<close>

definition decodes :: "(nat \<times> nat) list \<Rightarrow> nat \<Rightarrow> int \<Rightarrow> u8 list \<Rightarrow> int \<Rightarrow> bool" where
  "decodes X N l syms l' \<longleftrightarrow>
     (\<forall>m. ref_at X N l (length syms + m) = map_option ((@) (map unat syms)) (ref_at X N l' m))"

lemma decodes_Nil [simp]: "decodes X N l [] l"
  by (simp add: decodes_def option.map_ident_strong)

lemma decodes_trans: "decodes X N a xs b \<Longrightarrow> decodes X N b ys c \<Longrightarrow> decodes X N a (xs @ ys) c"
  unfolding decodes_def length_append add.assoc by (simp add: option.map_comp comp_def append_assoc [symmetric] del: append_assoc)

lemma decodes_end:
  assumes "decodes X N l syms l'"
  shows "ref_at X N l (length syms) = (if l' = 0 then Some (map unat syms) else None)"
  using assms [unfolded decodes_def, rule_format, of 0] by (auto simp: ref_at_def)

text \<open>Every prefix of the symbols is decoded at a position that is not behind the last one.\<close>

definition decodes_pre :: "(nat \<times> nat) list \<Rightarrow> nat \<Rightarrow> int \<Rightarrow> u8 list \<Rightarrow> int \<Rightarrow> bool" where
  "decodes_pre X N l syms l' \<longleftrightarrow> l' \<le> l \<and> (\<forall>n \<le> length syms. \<exists>lp \<ge> l'. decodes X N l (take n syms) lp)"

lemma decodes_pre_Nil [simp]: "decodes_pre X N l [] l"
  by (auto simp: decodes_pre_def)

lemma decodes_pre_single: "decodes X N l [x] l' \<Longrightarrow> l' \<le> l \<Longrightarrow> decodes_pre X N l [x] l'"
  unfolding decodes_pre_def by (auto simp: le_Suc_eq)

lemma decodes_pre_trans:
  assumes "decodes X N a xs b" and "decodes_pre X N a xs b" and "decodes_pre X N b ys c"
  shows "decodes_pre X N a (xs @ ys) c"
  unfolding decodes_pre_def
proof (intro conjI allI impI)
  show "c \<le> a" using assms(2,3) by (simp add: decodes_pre_def)
  fix n
  assume n: "n \<le> length (xs @ ys)"
  show "\<exists>lp \<ge> c. decodes X N a (take n (xs @ ys)) lp"
  proof (cases "n \<le> length xs")
    case True
    then obtain lp where "b \<le> lp" "decodes X N a (take n xs) lp" using assms(2) by (auto simp: decodes_pre_def)
    moreover have "c \<le> b" using assms(3) by (simp add: decodes_pre_def)
    ultimately show ?thesis using True by (intro exI [of _ lp]) simp
  next
    case False
    then have "n - length xs \<le> length ys" using n by simp
    then obtain lp where "c \<le> lp" "decodes X N b (take (n - length xs) ys) lp" using assms(3) by (auto simp: decodes_pre_def)
    then show ?thesis using decodes_trans [OF assms(1)] False by auto
  qed
qed

lemma peek_less: "peek N p < 2048"
  by (simp add: peek_def)

lemma peek_shift:
  assumes "b \<le> p" and "b \<le> 11"
  shows "peek N p * 2 ^ b mod 2048 div 2 ^ b = peek N (p - b) div 2 ^ b"
proof -
  define A where "A = N * 2 ^ 11"
  have pw: "(2048::nat) = 2 ^ b * 2 ^ (11 - b)" unfolding power_add [symmetric] using assms(2) by simp
  have "A div 2 ^ (p - b) mod 2048 div 2 ^ b = A div 2 ^ (p - b) div 2 ^ b mod 2 ^ (11 - b)"
    unfolding pw mod_mult2_eq by simp
  also have "A div 2 ^ (p - b) div 2 ^ b = A div 2 ^ p" using assms(1) by (simp flip: div_mult2_eq power_add)
  finally have r: "peek N (p - b) div 2 ^ b = A div 2 ^ p mod 2 ^ (11 - b)" by (simp add: peek_def A_def)
  have "peek N p * 2 ^ b mod 2048 = peek N p mod 2 ^ (11 - b) * 2 ^ b"
    unfolding pw using mult_mod_right [of "2 ^ b" "peek N p" "2 ^ (11 - b)"] by (simp add: mult.commute)
  then have "peek N p * 2 ^ b mod 2048 div 2 ^ b = peek N p mod 2 ^ (11 - b)" by simp
  also have "\<dots> = A div 2 ^ p mod 2048 mod 2 ^ (11 - b)" by (simp add: peek_def A_def)
  also have "\<dots> = A div 2 ^ p mod 2 ^ (11 - b)" by (rule mod_mod_cancel) (simp add: pw)
  finally show ?thesis using r by simp
qed

text \<open>A lookup that agrees with the stream on the bits the stream still has decodes one symbol.\<close>

lemma div_pow_mono: "a \<le> b \<Longrightarrow> x div 2 ^ a = y div 2 ^ a \<Longrightarrow> x div 2 ^ b = y div (2::nat) ^ b"
proof -
  assume "a \<le> b" and e: "x div 2 ^ a = y div 2 ^ a"
  then obtain c where "b = a + c" by (metis le_Suc_ex)
  then show ?thesis using e by (simp add: power_add div_mult2_eq)
qed

definition agrees :: "nat \<Rightarrow> int \<Rightarrow> nat \<Rightarrow> nat \<Rightarrow> bool" where
  "agrees N l V q \<longleftrightarrow>
     (0 \<le> l \<longrightarrow> V div 2 ^ (11 - min (nat l) q) = peek N (nat l) div 2 ^ (11 - min (nat l) q))"

lemma ref_step:
  assumes cc: "complete_code ws k" and V: "V < 2048" "x1_ref ws k ! V = (s, b)" and agree: "agrees N l V q" and q: "b \<le> q"
  shows "ref_at (x1_ref ws k) N l (Suc m) = map_option ((#) s) (ref_at (x1_ref ws k) N (l - int b) m)"
proof (cases "l < 0")
  case True
  then show ?thesis by (simp add: ref_at_def)
next
  case False
  define p where "p = nat l"
  have lp: "l = int p" using False by (simp add: p_def)
  obtain s' b' where e': "x1_ref ws k ! peek N p = (s', b')" by fastforce
  have ag: "V div 2 ^ (11 - min p q) = peek N p div 2 ^ (11 - min p q)" using agree False by (simp add: p_def agrees_def)
  have same: "x1_ref ws k ! V = x1_ref ws k ! peek N p" if "b \<le> p \<or> b' \<le> p"
  proof (cases "b \<le> p")
    case True
    then have "11 - min p q \<le> 11 - b" using q by simp
    from x1_ref_aligned [OF cc V(1) peek_less [of N p]] div_pow_mono [OF this ag] V(2) show ?thesis by simp
  next
    case False
    then have "11 - min p q \<le> 11 - b'" using that q by (simp add: min_def)
    from x1_ref_aligned [OF cc peek_less [of N p] V(1)] div_pow_mono [OF this ag] e' show ?thesis by simp
  qed
  show ?thesis
  proof (cases "b \<le> p")
    case True
    then have "x1_ref ws k ! peek N p = (s, b)" using same V(2) by simp
    then show ?thesis using True by (simp add: ref_at_def lp nat_diff_distrib)
  next
    case False
    then have "\<not> b' \<le> p" using same V(2) e' by auto
    then show ?thesis using False e' by (simp add: ref_at_def lp)
  qed
qed

lemma decodes_symbol:
  assumes cc: "complete_code ws k" and "length ws \<le> 256" and V: "V < 2048" "x1_ref ws k ! V = (s, b)" and "agrees N l V q" and "b \<le> q"
  shows "decodes (x1_ref ws k) N l [word_of_nat s] (l - int b)"
proof -
  have "s < 256" using x1_ref_entry [OF cc V(1)] assms(2) V(2) by fastforce
  then have "unat (word_of_nat s :: u8) = s" "(@) [s] = (#) s" by (auto simp: unat_of_nat)
  then show ?thesis using ref_step [OF cc V assms(5,6)] by (simp add: decodes_def)
qed

text \<open>The bits after a first code of \<open>b\<close> bits.\<close>

lemma shift_div:
  assumes "b \<le> p" and "p \<le> 11"
  shows "V * 2 ^ b mod 2048 div 2 ^ (11 - p + b) = V div 2 ^ (11 - p) mod (2::nat) ^ (p - b)"
proof -
  have pw: "(2048::nat) = 2 ^ b * 2 ^ (11 - b)" "(2::nat) ^ (11 - b) = 2 ^ (11 - p) * 2 ^ (p - b)"
    unfolding power_add [symmetric] using assms by simp_all
  have "V * 2 ^ b mod 2048 = V mod 2 ^ (11 - b) * 2 ^ b"
    unfolding pw(1) using mult_mod_right [of "2 ^ b" V "2 ^ (11 - b)"] by (simp add: mult.commute)
  then have "V * 2 ^ b mod 2048 div 2 ^ (11 - p + b) = V mod 2 ^ (11 - b) div 2 ^ (11 - p)"
    by (simp add: power_add div_mult_mult2)
  also have "\<dots> = V div 2 ^ (11 - p) mod 2 ^ (p - b)" unfolding pw(2) mod_mult2_eq by simp
  finally show ?thesis .
qed

lemma agrees_shift:
  assumes "agrees N l V 11" and "b \<le> 11"
  shows "agrees N (l - int b) (V * 2 ^ b mod 2048) (11 - b)"
  unfolding agrees_def
proof
  assume l: "0 \<le> l - int b"
  define p where "p = nat l"
  have lp: "l = int p" and bp: "b \<le> p" using l by (auto simp: p_def)
  have p': "nat (l - int b) = p - b" using lp by (simp add: nat_diff_distrib)
  have ag: "V div 2 ^ (11 - min p 11) = peek N p div 2 ^ (11 - min p 11)" using assms(1) lp by (simp add: agrees_def)
  note sh = peek_shift [OF bp assms(2), of N]
  have "V * 2 ^ b mod 2048 div 2 ^ (11 - min (p - b) (11 - b)) = peek N p * 2 ^ b mod 2048 div 2 ^ (11 - min (p - b) (11 - b))"
  proof (cases "11 \<le> p")
    case True
    then show ?thesis using ag by (simp add: min_def)
  next
    case False
    then have e: "11 - min (p - b) (11 - b) = 11 - p + b" using bp by (simp add: min_def)
    show ?thesis unfolding e using shift_div [OF bp, of V] shift_div [OF bp, of "peek N p"] ag False by simp
  qed
  also have "\<dots> = peek N (p - b) div 2 ^ (11 - min (p - b) (11 - b))"
    by (rule div_pow_mono [OF _ sh]) (use assms(2) in auto)
  finally show "V * 2 ^ b mod 2048 div 2 ^ (11 - min (nat (l - int b)) (11 - b))
      = peek N (nat (l - int b)) div 2 ^ (11 - min (nat (l - int b)) (11 - b))" unfolding p' .
qed

lemma decodes_cell:
  assumes cc: "complete_code ws k" and len: "length ws \<le> 256" and V: "V < 2048" and ag: "agrees N l V 11"
  defines "e \<equiv> x2_ref (x1_ref ws k) V"
  shows "decodes (x1_ref ws k) N l (take (x2_advance e) (le_bytes 2 (sequence e))) (l - int (x2_nb_bits e))"
    and "1 \<le> x2_nb_bits e" and "x2_nb_bits e \<le> 11" and "x2_length e = x2_advance e" and "x2_advance e = 1 \<or> x2_advance e = 2"
    and "sequence e mod 256 = fst (x1_ref ws k ! V)"
    and "decodes_pre (x1_ref ws k) N l (take (x2_advance e) (le_bytes 2 (sequence e))) (l - int (x2_nb_bits e))"
proof -
  from x1_ref_entry [OF cc V] obtain s1 b1 where
    1: "x1_ref ws k ! V = (s1, b1)" "s1 < length ws" "1 \<le> b1" "b1 \<le> 11" by metis
  define V2 where "V2 = V * 2 ^ b1 mod 2048"
  have V2: "V2 < 2048" by (simp add: V2_def)
  from x1_ref_entry [OF cc V2] obtain s2 b2 where
    2: "x1_ref ws k ! V2 = (s2, b2)" "s2 < length ws" "1 \<le> b2" by metis
  have e: "e = (if b1 + b2 \<le> 11 then \<lparr>sequence = s1 + 256 * s2, x2_nb_bits = b1 + b2, x2_length = 2\<rparr>
      else \<lparr>sequence = s1, x2_nb_bits = b1, x2_length = 1\<rparr>)"
    using 1 2 by (simp add: e_def x2_ref_def V2_def)
  have s: "s1 < 256" "s2 < 256" using 1(2) 2(2) len by auto
  note d1 = decodes_symbol [OF cc len V 1(1) ag 1(4)]
  have p1: "decodes_pre (x1_ref ws k) N l [word_of_nat s1] (l - int b1)" using d1 by (rule decodes_pre_single) simp
  have both: "decodes (x1_ref ws k) N l (take (x2_advance e) (le_bytes 2 (sequence e))) (l - int (x2_nb_bits e))
    \<and> decodes_pre (x1_ref ws k) N l (take (x2_advance e) (le_bytes 2 (sequence e))) (l - int (x2_nb_bits e))"
  proof (cases "b1 + b2 \<le> 11")
    case True
    have b2: "b2 \<le> 11 - b1" using True by simp
    note d2 = decodes_symbol [OF cc len V2 2(1) agrees_shift [OF ag 1(4), folded V2_def] b2]
    have p2: "decodes_pre (x1_ref ws k) N (l - int b1) [word_of_nat s2] (l - int b1 - int b2)"
      using d2 by (rule decodes_pre_single) simp
    have w: "word_of_nat (s1 + 256 * s2) = (word_of_nat s1 :: u8)"
      by (simp add: word_arith_nat_mult)
    have "take (x2_advance e) (le_bytes 2 (sequence e)) = [word_of_nat s1, word_of_nat s2]"
      using True s w by (simp add: e x2_advance_def numeral_2_eq_2)
    then show ?thesis using decodes_trans [OF d1 d2] decodes_pre_trans [OF d1 p1 p2] True by (simp add: e algebra_simps)
  next
    case False
    then have "take (x2_advance e) (le_bytes 2 (sequence e)) = [word_of_nat s1]"
      by (simp add: e x2_advance_def numeral_2_eq_2)
    then show ?thesis using d1 p1 False by (simp add: e)
  qed
  then show "decodes (x1_ref ws k) N l (take (x2_advance e) (le_bytes 2 (sequence e))) (l - int (x2_nb_bits e))" ..
  show "decodes_pre (x1_ref ws k) N l (take (x2_advance e) (le_bytes 2 (sequence e))) (l - int (x2_nb_bits e))" using both ..
  show "1 \<le> x2_nb_bits e" "x2_nb_bits e \<le> 11" "x2_length e = x2_advance e" "x2_advance e = 1 \<or> x2_advance e = 2"
    "sequence e mod 256 = fst (x1_ref ws k ! V)"
    using 1 s by (auto simp: e x2_advance_def)
qed

section \<open>Lookups of the reader\<close>

lemma look_bits_less: "look_bits br 11 < 2048"
  using look_bits_any_less [of 11 br] look_bits_any_eq [of 11 br] by simp

lemma peek_high: "11 \<le> p \<Longrightarrow> peek N p = take_bit 11 (drop_bit (p - 11) N)"
proof -
  assume "11 \<le> p"
  then have "(2::nat) ^ p = 2 ^ 11 * 2 ^ (p - 11)" unfolding power_add [symmetric] by simp
  then have "N * 2 ^ 11 div 2 ^ p = N div 2 ^ (p - 11)" by (simp add: mult.commute)
  then show ?thesis by (simp add: peek_def take_bit_eq_mod drop_bit_eq_div)
qed

lemma peek_low: "p \<le> 11 \<Longrightarrow> peek N p = N mod 2 ^ p * 2 ^ (11 - p)"
proof -
  assume p: "p \<le> 11"
  have pw: "(2::nat) ^ 11 = 2 ^ p * 2 ^ (11 - p)" unfolding power_add [symmetric] using p by simp
  have "N * 2 ^ 11 div 2 ^ p = N * 2 ^ (11 - p)" unfolding pw by (simp add: mult.left_commute)
  then have "peek N p = N * 2 ^ (11 - p) mod (2 ^ p * 2 ^ (11 - p))" unfolding peek_def pw by simp
  also have "\<dots> = N mod 2 ^ p * 2 ^ (11 - p)" by (rule mult_mod_left [symmetric])
  finally show ?thesis .
qed

lemma look_bits_peek:
  assumes i: "ds_inv br" and c: "bits_consumed br + 11 \<le> 64 \<or> ds_ptr br = 0" and l: "0 \<le> ds_left br"
  shows "look_bits br 11 div 2 ^ (11 - nat (ds_left br))
    = peek (le_nat (ds_src br)) (nat (ds_left br)) div 2 ^ (11 - nat (ds_left br))"
proof (cases "bits_consumed br + 11 \<le> 64")
  case True
  then have "11 \<le> nat (ds_left br)" by (simp add: ds_left_def)
  then show ?thesis using look_bits_stream [OF i, of 11] True by (simp add: peek_high stream_bits_def)
next
  case False
  then have z: "ds_ptr br = 0" using c by simp
  define p where "p = nat (ds_left br)"
  let ?C = "unat (container br)" and ?k = "bits_consumed br"
  have k: "?k = 64 - p" "p \<le> 10" using l z False by (auto simp: p_def ds_left_def)
  show ?thesis
  proof (cases "p = 0")
    case True
    then show ?thesis using look_bits_less [of br] peek_less by (simp add: p_def)
  next
    case p0: False
    have "look_bits br 11 = drop_bit 53 (take_bit 64 (push_bit ?k ?C))"
      using p0 k by (simp add: look_bits_def unat_drop_bit_eq unsigned_push_bit_eq)
    also have "\<dots> = ?C * 2 ^ ?k mod (2 ^ p * 2 ^ ?k) div 2 ^ 53"
      using k by (simp add: take_bit_eq_mod push_bit_eq_mult drop_bit_eq_div flip: power_add)
    also have "?C * 2 ^ ?k mod (2 ^ p * 2 ^ ?k) = ?C mod 2 ^ p * 2 ^ ?k" by (rule mult_mod_left [symmetric])
    also have "(2::nat) ^ ?k = 2 ^ (11 - p) * 2 ^ 53" unfolding power_add [symmetric] using k p0 by simp
    also have "?C mod 2 ^ p * (2 ^ (11 - p) * 2 ^ 53) div 2 ^ 53 = ?C mod 2 ^ p * 2 ^ (11 - p)"
      unfolding mult.assoc [symmetric] by simp
    also have "?C mod 2 ^ p = le_nat (ds_src br) mod 2 ^ p"
    proof -
      have "?C = le_nat (ds_src br) mod 2 ^ 64" using i z by (simp add: ds_inv_def take_bit_eq_mod)
      then show ?thesis using k by (simp add: mod_mod_cancel le_imp_power_dvd del: power_numeral)
    qed
    finally show ?thesis using peek_low [of p "le_nat (ds_src br)"] k by (simp add: p_def)
  qed
qed

text \<open>The state of a reader between symbols.\<close>

definition ds_room :: "nat \<Rightarrow> bit_dstream \<Rightarrow> bool" where
  "ds_room n br \<longleftrightarrow> ds_inv br \<and> (bits_consumed br + n \<le> 64 \<or> ds_ptr br = 0)"

lemma look_bits_agrees: "ds_room 11 br \<Longrightarrow> agrees (le_nat (ds_src br)) (ds_left br) (look_bits br 11) 11"
  using look_bits_peek [of br] by (auto simp: agrees_def ds_room_def min_def)

lemma symbol_x1_ok:
  assumes cc: "complete_code ws k" and len: "length ws \<le> 256" and r: "ds_room (11 + n) br"
  shows "\<exists>a br'. huf_decode_symbol_x1 br (map mk_entry (x1_ref ws k)) = Inr (a, br') \<and> ds_room n br' \<and> ds_src br' = ds_src br
    \<and> decodes (x1_ref ws k) (le_nat (ds_src br)) (ds_left br) [a] (ds_left br')"
proof -
  obtain s b where e: "x1_ref ws k ! look_bits br 11 = (s, b)" "b \<le> 11"
    using x1_ref_entry [OF cc look_bits_less, of br] by metis
  have l: "length (x1_ref ws k) = 2048" using length_x1_ref [OF cc] x1_ref_upto [OF cc] by simp
  have r11: "ds_room 11 br" using r by (auto simp: ds_room_def)
  have "huf_decode_symbol_x1 br (map mk_entry (x1_ref ws k)) = Inr (word_of_nat s, skip_bits br b)"
    using e l look_bits_less [of br]
    by (simp add: huf_decode_symbol_x1_def HUF_FAST_TABLE_LOG_def HUF_TABLELOG_MAX_def mk_entry_def unat_of_nat)
  moreover have "ds_room n (skip_bits br b)" using r e(2) by (auto simp: ds_room_def)
  ultimately show ?thesis using decodes_symbol [OF cc len look_bits_less e(1) look_bits_agrees [OF r11] e(2)] by auto
qed

lemma reload_room:
  assumes "ds_room 0 br"
  shows "\<exists>st br'. reload br = Inr (st, br') \<and> ds_room 0 br' \<and> ds_src br' = ds_src br \<and> ds_left br' = ds_left br
    \<and> (st = Unfinished \<longrightarrow> bits_consumed br' \<le> 7) \<and> (st \<noteq> Unfinished \<longrightarrow> ds_ptr br' = 0)"
proof (cases "bits_consumed br \<le> 64")
  case True
  have "ds_inv br" using assms by (simp add: ds_room_def)
  from reload_ok [OF this True] show ?thesis by (auto simp: ds_room_def ds_ready_def)
next
  case False
  then show ?thesis using assms reload_overflow [of br] by (auto simp: ds_room_def)
qed

lemma ds_room_less: "ds_room n br \<Longrightarrow> m \<le> n \<Longrightarrow> ds_room m br"
  by (auto simp: ds_room_def)

lemma ds_room_full: "ds_room 0 br \<Longrightarrow> bits_consumed br \<le> 7 \<or> ds_ptr br = 0 \<Longrightarrow> ds_room 57 br"
  by (auto simp: ds_room_def)

section \<open>Single-symbol streams meet the specification\<close>

lemma copy_into_ok: "p + length ys \<le> length out \<Longrightarrow> copy_into out p ys = Inr (put_slice out p ys)"
  by (simp add: copy_into_def)

lemma stream_x1_quads_ok:
  assumes cc: "complete_code ws k" and len: "length ws \<le> 256" and "ds_room 0 br" and "p \<le> length out"
  shows "\<exists>br' out' p' syms. stream_x1_quads (map mk_entry (x1_ref ws k)) br out p = Inr (br', out', p')
    \<and> ds_room 0 br' \<and> ds_src br' = ds_src br \<and> length out' = length out \<and> p' \<le> length out
    \<and> take p' out' = take p out @ syms \<and> decodes (x1_ref ws k) (le_nat (ds_src br)) (ds_left br) syms (ds_left br')
    \<and> (ds_ptr br' = 0 \<or> bits_consumed br' \<le> 7 \<and> length out \<le> p' + 3)"
  using assms(3,4)
proof (induction "length out - p" arbitrary: br out p rule: less_induct)
  case less
  let ?X = "x1_ref ws k" and ?dt = "map mk_entry (x1_ref ws k)" and ?N = "le_nat (ds_src br)"
  from reload_room [OF less.prems(1)] obtain st b0 where
    r: "reload br = Inr (st, b0)" "ds_room 0 b0" "ds_src b0 = ds_src br" "ds_left b0 = ds_left br"
    "st = Unfinished \<longrightarrow> bits_consumed b0 \<le> 7" "st \<noteq> Unfinished \<longrightarrow> ds_ptr b0 = 0" by blast
  show ?case
  proof (cases "st = Unfinished \<and> p < length out - 3")
    case False
    then show ?thesis
      using r less.prems by (auto simp: stream_x1_quads.simps [of ?dt br out p] intro!: exI [of _ "[]"])
  next
    case True
    then have "ds_room 57 b0" using ds_room_full [OF r(2)] r(5) by blast
    then have room: "ds_room (11 + (11 + (11 + (11 + 0)))) b0" by (rule ds_room_less) simp
    from symbol_x1_ok [OF cc len room] obtain a b1 where
      1: "huf_decode_symbol_x1 b0 ?dt = Inr (a, b1)" "ds_room (11 + (11 + (11 + 0))) b1" "ds_src b1 = ds_src b0" "decodes ?X ?N (ds_left b0) [a] (ds_left b1)"
      unfolding r(3) by blast
    from symbol_x1_ok [OF cc len 1(2)] obtain b b2 where
      2: "huf_decode_symbol_x1 b1 ?dt = Inr (b, b2)" "ds_room (11 + (11 + 0)) b2" "ds_src b2 = ds_src b0" "decodes ?X ?N (ds_left b1) [b] (ds_left b2)"
      unfolding 1(3) r(3) by blast
    from symbol_x1_ok [OF cc len 2(2)] obtain c b3 where
      3: "huf_decode_symbol_x1 b2 ?dt = Inr (c, b3)" "ds_room (11 + 0) b3" "ds_src b3 = ds_src b0" "decodes ?X ?N (ds_left b2) [c] (ds_left b3)"
      unfolding 2(3) r(3) by blast
    from symbol_x1_ok [OF cc len 3(2)] obtain d b4 where
      4: "huf_decode_symbol_x1 b3 ?dt = Inr (d, b4)" "ds_room 0 b4" "ds_src b4 = ds_src b0" "decodes ?X ?N (ds_left b3) [d] (ds_left b4)"
      unfolding 3(3) r(3) by blast
    have four: "decodes ?X ?N (ds_left br) [a, b, c, d] (ds_left b4)"
      using decodes_trans [OF 1(4) decodes_trans [OF 2(4) decodes_trans [OF 3(4) 4(4)]]] r(4) by simp
    define out1 where "out1 = put_slice out p [a, b, c, d]"
    have p4: "p + 4 \<le> length out" using True by arith
    then have cp: "copy_into out p [a, b, c, d] = Inr out1" unfolding out1_def by (intro copy_into_ok) simp
    have o1: "length out1 = length out" "take (p + 4) out1 = take p out @ [a, b, c, d]"
      using p4 take_put_slice [of p out "[a, b, c, d]"] by (auto simp: out1_def eval_nat_numeral)
    have step: "stream_x1_quads ?dt br out p = stream_x1_quads ?dt b4 out1 (p + 4)"
      using True r(1) 1(1) 2(1) 3(1) 4(1) cp by (simp add: stream_x1_quads.simps [of ?dt br out p])
    have "length out1 - (p + 4) < length out - p" "p + 4 \<le> length out1" using p4 o1 by auto
    from less.hyps [OF this(1) 4(2) this(2)] obtain br' out' p' syms where
      "stream_x1_quads ?dt b4 out1 (p + 4) = Inr (br', out', p')" "ds_room 0 br'" "ds_src br' = ds_src br"
      "length out' = length out" "p' \<le> length out" "take p' out' = take p out @ ([a, b, c, d] @ syms)"
      "decodes ?X ?N (ds_left b4) syms (ds_left br')" "ds_ptr br' = 0 \<or> bits_consumed br' \<le> 7 \<and> length out \<le> p' + 3"
      unfolding o1 4(3) r(3) append_assoc by blast
    then show ?thesis unfolding step using decodes_trans [OF four] by blast
  qed
qed

lemma stream_x1_tail_ok:
  assumes cc: "complete_code ws k" and len: "length ws \<le> 256" and "ds_room (11 * (length out - p)) br" and "p \<le> length out"
  shows "\<exists>br' out' syms. stream_x1_tail (map mk_entry (x1_ref ws k)) br out p = Inr (br', out')
    \<and> ds_room 0 br' \<and> ds_src br' = ds_src br \<and> length out' = length out \<and> out' = take p out @ syms
    \<and> decodes (x1_ref ws k) (le_nat (ds_src br)) (ds_left br) syms (ds_left br')"
  using assms(3,4)
proof (induction "length out - p" arbitrary: br out p)
  case 0
  then show ?case by (auto simp: stream_x1_tail.simps intro!: exI [of _ "[]"])
next
  case (Suc n)
  let ?X = "x1_ref ws k" and ?dt = "map mk_entry (x1_ref ws k)" and ?N = "le_nat (ds_src br)"
  have room: "ds_room (11 + 11 * n) br" using Suc.prems(1) unfolding Suc.hyps(2) [symmetric] by simp
  from symbol_x1_ok [OF cc len room] obtain a b1 where
    1: "huf_decode_symbol_x1 br ?dt = Inr (a, b1)" "ds_room (11 * n) b1" "ds_src b1 = ds_src br" "decodes ?X ?N (ds_left br) [a] (ds_left b1)"
    by blast
  have p: "p < length out" using Suc.hyps(2) by linarith
  have n: "n = length (out[p := a]) - (p + 1)" using Suc.hyps(2) by simp
  have "ds_room (11 * (length (out[p := a]) - (p + 1))) b1" "p + 1 \<le> length (out[p := a])" using 1(2) p n by auto
  from Suc.hyps(1) [OF n this] obtain br' out' syms where
    2: "stream_x1_tail ?dt b1 (out[p := a]) (p + 1) = Inr (br', out')" "ds_room 0 br'" "ds_src br' = ds_src br"
    "length out' = length out" "out' = take (p + 1) (out[p := a]) @ syms" "decodes ?X ?N (ds_left b1) syms (ds_left br')"
    unfolding 1(3) by auto
  have "out' = take p out @ ([a] @ syms)" using 2(5) p by (simp add: take_Suc_conv_app_nth)
  moreover have "stream_x1_tail ?dt br out p = Inr (br', out')"
    using 1(1) 2(1) p by (simp add: stream_x1_tail.simps [of ?dt br out p] set_byte_def)
  ultimately show ?case using decodes_trans [OF 1(4) 2(6)] 2(2,3,4) by blast
qed

lemma stream_x1_ok:
  assumes cc: "complete_code ws k" and len: "length ws \<le> 256" and "ds_room 0 br"
  shows "\<exists>br' out'. huf_decode_stream_x1 out br (map mk_entry (x1_ref ws k)) = Inr (br', out')
    \<and> ds_room 0 br' \<and> ds_src br' = ds_src br \<and> length out' = length out
    \<and> decodes (x1_ref ws k) (le_nat (ds_src br)) (ds_left br) out' (ds_left br')"
proof -
  let ?X = "x1_ref ws k" and ?dt = "map mk_entry (x1_ref ws k)" and ?N = "le_nat (ds_src br)"
  have "\<exists>b1 out1 p syms. (if 3 < length out then stream_x1_quads ?dt br out 0
               else res_bind (reload br) (\<lambda>(_, br). Inr (br, out, 0))) = Inr (b1, out1, p)
      \<and> ds_room (11 * (length out1 - p)) b1 \<and> ds_src b1 = ds_src br \<and> length out1 = length out \<and> p \<le> length out
      \<and> take p out1 = syms \<and> decodes ?X ?N (ds_left br) syms (ds_left b1)"
  proof (cases "3 < length out")
    case True
    from stream_x1_quads_ok [OF cc len assms(3), of 0 out] obtain b1 out1 p syms where
      q: "stream_x1_quads ?dt br out 0 = Inr (b1, out1, p)" "ds_room 0 b1" "ds_src b1 = ds_src br" "length out1 = length out"
      "p \<le> length out" "take p out1 = syms" "decodes ?X ?N (ds_left br) syms (ds_left b1)"
      "ds_ptr b1 = 0 \<or> bits_consumed b1 \<le> 7 \<and> length out \<le> p + 3" by auto
    have "ds_room (11 * (length out1 - p)) b1"
      using q(2,4,8) by (auto simp: ds_room_def)
    then show ?thesis using q True by auto
  next
    case False
    from reload_room [OF assms(3)] obtain st b1 where
      r: "reload br = Inr (st, b1)" "ds_room 0 b1" "ds_src b1 = ds_src br" "ds_left b1 = ds_left br"
      "bits_consumed b1 \<le> 7 \<or> ds_ptr b1 = 0" by blast
    have "ds_room (11 * length out) b1" by (rule ds_room_less [OF ds_room_full [OF r(2,5)]]) (use False in simp)
    then show ?thesis using r False by simp
  qed
  then obtain b1 out1 p where q: "(if 3 < length out then stream_x1_quads ?dt br out 0
               else res_bind (reload br) (\<lambda>(_, br). Inr (br, out, 0))) = Inr (b1, out1, p)"
      "ds_room (11 * (length out1 - p)) b1" "ds_src b1 = ds_src br" "length out1 = length out" "p \<le> length out1"
      "decodes ?X ?N (ds_left br) (take p out1) (ds_left b1)" by auto
  from stream_x1_tail_ok [OF cc len q(2,5)] obtain br' out' syms where
    t: "stream_x1_tail ?dt b1 out1 p = Inr (br', out')" "ds_room 0 br'" "ds_src br' = ds_src br" "length out' = length out"
    "out' = take p out1 @ syms" "decodes ?X ?N (ds_left b1) syms (ds_left br')" unfolding q(3,4) by blast
  have "decodes ?X ?N (ds_left br) out' (ds_left br')" unfolding t(5) by (rule decodes_trans [OF q(6) t(6)])
  then show ?thesis unfolding huf_decode_stream_x1_def q(1) using t by simp
qed

lemma finished_iff: "ds_room 0 br \<Longrightarrow> is_finished br \<longleftrightarrow> ds_left br = 0"
  by (auto simp: ds_room_def is_finished_def ds_left_def)

section \<open>Double-symbol streams meet the specification\<close>

lemma ds_room_skip: "ds_room (n + m) br \<Longrightarrow> b \<le> n \<Longrightarrow> ds_room m (skip_bits br b)"
  by (auto simp: ds_room_def)

lemma cells_x2_ok:
  assumes cc: "complete_code ws k" and len: "length ws \<le> 256" and "ds_room (11 * n + m) br" and "pos + 2 * n \<le> length w"
  shows "\<exists>w' br' syms. cells_x2 n (map (x2_ref (x1_ref ws k)) [0..<2048]) br w pos = Inr (w', pos + length syms, br')
    \<and> ds_room m br' \<and> ds_src br' = ds_src br \<and> length w' = length w \<and> n \<le> length syms \<and> length syms \<le> 2 * n
    \<and> take (pos + length syms) w' = take pos w @ syms
    \<and> decodes (x1_ref ws k) (le_nat (ds_src br)) (ds_left br) syms (ds_left br')
    \<and> decodes_pre (x1_ref ws k) (le_nat (ds_src br)) (ds_left br) syms (ds_left br') \<and> ds_left br \<le> ds_left br' + 11 * int n"
  using assms(3,4)
proof (induction n arbitrary: br w pos)
  case 0
  then show ?case by (auto intro!: exI [of _ "[]"])
next
  case (Suc n)
  let ?X = "x1_ref ws k" and ?dt = "map (x2_ref (x1_ref ws k)) [0..<2048]" and ?N = "le_nat (ds_src br)" and ?V = "look_bits br 11"
  define e where "e = x2_ref ?X ?V"
  have r11: "ds_room 11 br" using Suc.prems(1) by (rule ds_room_less) simp
  note c = decodes_cell [OF cc len look_bits_less look_bits_agrees [OF r11], folded e_def]
  define a w1 where "a = x2_advance e" and "w1 = put_slice w pos (le_bytes 2 (sequence e))"
  have cp: "copy_into w pos (le_bytes 2 (sequence e)) = Inr w1" using Suc.prems(2) by (simp add: copy_into_ok w1_def)
  have l1: "length w1 = length w" by (rule copy_into_length [OF cp])
  have a: "a = 1 \<or> a = 2" using c(5) by (simp add: a_def)
  have "take (pos + 2) w1 = take pos w @ le_bytes 2 (sequence e)"
    using take_put_slice [of pos w "le_bytes 2 (sequence e)"] Suc.prems(2) by (simp add: w1_def)
  then have "take (pos + a) (take (pos + 2) w1) = take (pos + a) (take pos w @ le_bytes 2 (sequence e))" by simp
  then have t1: "take (pos + a) w1 = take pos w @ take a (le_bytes 2 (sequence e))"
    using a Suc.prems(2) by (auto simp: min_def)
  have la: "length (take a (le_bytes 2 (sequence e))) = a" using a by auto
  have "ds_room (11 + (11 * n + m)) br" using Suc.prems(1) by (simp add: add.assoc)
  then have "ds_room (11 * n + m) (skip_bits br (x2_nb_bits e))" using c(3) by (rule ds_room_skip)
  moreover have "pos + a + 2 * n \<le> length w1" using Suc.prems(2) a l1 by auto
  ultimately obtain w' br' syms where
    2: "cells_x2 n ?dt (skip_bits br (x2_nb_bits e)) w1 (pos + a) = Inr (w', pos + a + length syms, br')" "ds_room m br'"
    "ds_src br' = ds_src br" "length w' = length w" "n \<le> length syms" "length syms \<le> 2 * n"
    "take (pos + a + length syms) w' = take (pos + a) w1 @ syms"
    "decodes ?X ?N (ds_left br - int (x2_nb_bits e)) syms (ds_left br')"
    "decodes_pre ?X ?N (ds_left br - int (x2_nb_bits e)) syms (ds_left br')"
    "ds_left br - int (x2_nb_bits e) \<le> ds_left br' + 11 * int n"
    using Suc.IH [of "skip_bits br (x2_nb_bits e)" "pos + a" w1] l1 by auto
  have "index ?dt ?V = Inr e" using look_bits_less [of br] by (simp add: e_def del: upt_rec_numeral)
  then have "cells_x2 (Suc n) ?dt br w pos = Inr (w', pos + length (take a (le_bytes 2 (sequence e)) @ syms), br')"
    using 2(1) cp la by (simp add: HUF_FAST_TABLE_LOG_def HUF_TABLELOG_MAX_def a_def add.assoc)
  moreover have "decodes ?X ?N (ds_left br) (take a (le_bytes 2 (sequence e)) @ syms) (ds_left br')"
    using decodes_trans [OF c(1) 2(8)] by (simp add: a_def)
  moreover have "decodes_pre ?X ?N (ds_left br) (take a (le_bytes 2 (sequence e)) @ syms) (ds_left br')"
    using decodes_pre_trans [OF c(1,7) 2(9)] by (simp add: a_def)
  moreover have "ds_left br \<le> ds_left br' + 11 * int (Suc n)" using 2(10) c(3) by simp
  moreover have "take (pos + length (take a (le_bytes 2 (sequence e)) @ syms)) w' = take pos w @ (take a (le_bytes 2 (sequence e)) @ syms)"
    using 2(7) t1 la by (simp add: add.assoc)
  ultimately show ?case using 2(2-6) a la by (intro exI conjI) auto
qed

lemma decode_cells_x2_ok:
  assumes cc: "complete_code ws k" and len: "length ws \<le> 256" and room: "ds_room (11 * (N div 2) + m) br" and op: "op + N \<le> length out"
  shows "\<exists>out' br' syms. huf_decode_cells_x2 N out op br (map (x2_ref (x1_ref ws k)) [0..<2048]) = Inr (out', length syms, br')
    \<and> ds_room m br' \<and> ds_src br' = ds_src br \<and> length out' = length out \<and> N div 2 \<le> length syms \<and> length syms \<le> 2 * (N div 2)
    \<and> take (op + length syms) out' = take op out @ syms \<and> drop (op + N) out' = drop (op + N) out
    \<and> decodes (x1_ref ws k) (le_nat (ds_src br)) (ds_left br) syms (ds_left br')
    \<and> decodes_pre (x1_ref ws k) (le_nat (ds_src br)) (ds_left br) syms (ds_left br') \<and> ds_left br \<le> ds_left br' + 11 * int (N div 2)
    \<and> (\<forall>i. op + length syms < i \<longrightarrow> out' ! i = out ! i)"
proof -
  define w where "w = take N (drop op out)"
  have w: "length w = N" "slice out op (op + N) = Inr w" using op by (auto simp: w_def)
  from cells_x2_ok [OF cc len room, of 0 w] w obtain w' br' syms where
    1: "cells_x2 (N div 2) (map (x2_ref (x1_ref ws k)) [0..<2048]) br w 0 = Inr (w', length syms, br')" "ds_room m br'"
    "ds_src br' = ds_src br" "length w' = N" "N div 2 \<le> length syms" "length syms \<le> 2 * (N div 2)" "take (length syms) w' = syms"
    "decodes (x1_ref ws k) (le_nat (ds_src br)) (ds_left br) syms (ds_left br')"
    "decodes_pre (x1_ref ws k) (le_nat (ds_src br)) (ds_left br) syms (ds_left br')" "ds_left br \<le> ds_left br' + 11 * int (N div 2)" by auto
  have "put_slice out op w' ! i = out ! i" if "op + length syms < i" for i
    using cells_x2_frame [OF 1(1), of "i - op"] that 1(4) op w(1) by (auto simp: put_slice_def w_def nth_append)
  moreover have "take (op + length syms) (put_slice out op w') = take op out @ syms"
    using 1(4,6,7) op by (simp add: put_slice_def)
  moreover have "drop (op + N) (put_slice out op w') = drop (op + N) out" using 1(4) op by (simp add: put_slice_def)
  ultimately show ?thesis
    using 1 w(2) op by (intro exI [of _ "put_slice out op w'"] exI [of _ br'] exI [of _ syms]) (simp add: huf_decode_cells_x2_def copy_into_ok)
qed

lemma stream_x2_loop_ok:
  assumes cc: "complete_code ws k" and len: "length ws \<le> 256" and N: "2 \<le> N" "N \<le> 10" and "ds_room 0 br" and "op \<le> length out"
  shows "\<exists>br' out' op' syms. stream_x2_loop N (map (x2_ref (x1_ref ws k)) [0..<2048]) br out op = Inr (br', out', op')
    \<and> ds_room 0 br' \<and> ds_src br' = ds_src br \<and> length out' = length out \<and> op' \<le> length out
    \<and> take op' out' = take op out @ syms \<and> decodes (x1_ref ws k) (le_nat (ds_src br)) (ds_left br) syms (ds_left br')
    \<and> (ds_ptr br' = 0 \<or> bits_consumed br' \<le> 7 \<and> length out - op' < N)"
  using assms(5,6)
proof (induction "length out - op" arbitrary: br out op rule: less_induct)
  case less
  let ?X = "x1_ref ws k" and ?dt = "map (x2_ref (x1_ref ws k)) [0..<2048]" and ?N = "le_nat (ds_src br)"
  from reload_room [OF less.prems(1)] obtain st b0 where
    r: "reload br = Inr (st, b0)" "ds_room 0 b0" "ds_src b0 = ds_src br" "ds_left b0 = ds_left br"
    "st = Unfinished \<longrightarrow> bits_consumed b0 \<le> 7" "st \<noteq> Unfinished \<longrightarrow> ds_ptr b0 = 0" by blast
  show ?case
  proof (cases "st = Unfinished \<and> N \<le> length out - op")
    case False
    then have "stream_x2_loop N ?dt br out op = Inr (b0, out, op)"
      using r(1) less.prems N by (auto simp: stream_x2_loop.simps [of N ?dt br out op])
    then show ?thesis using r less.prems False by (intro exI [of _ b0] exI [of _ out] exI [of _ op] exI [of _ "[]"]) auto
  next
    case True
    then have "ds_room 57 b0" using ds_room_full [OF r(2)] r(5) by blast
    then have room: "ds_room (11 * (N div 2) + 0) b0" by (rule ds_room_less) (use N in linarith)
    have opN: "op + N \<le> length out" using True less.prems by linarith
    from decode_cells_x2_ok [OF cc len room opN] obtain out1 b1 s1 where
      1: "huf_decode_cells_x2 N out op b0 ?dt = Inr (out1, length s1, b1)" "ds_room 0 b1" "ds_src b1 = ds_src br" "length out1 = length out"
      "N div 2 \<le> length s1" "length s1 \<le> 2 * (N div 2)" "take (op + length s1) out1 = take op out @ s1"
      "decodes ?X ?N (ds_left br) s1 (ds_left b1)" unfolding r(3,4) by blast
    have step: "stream_x2_loop N ?dt br out op = stream_x2_loop N ?dt b1 out1 (op + length s1)"
      using True r(1) 1(1) N opN by (simp add: stream_x2_loop.simps [of N ?dt br out op])
    have "1 \<le> N div 2" using N by linarith
    then have "length out1 - (op + length s1) < length out - op" "op + length s1 \<le> length out1" using 1(4,5,6) opN N by auto
    from less.hyps [OF this(1) 1(2) this(2)] obtain br' out' op' syms where
      "stream_x2_loop N ?dt b1 out1 (op + length s1) = Inr (br', out', op')" "ds_room 0 br'" "ds_src br' = ds_src br"
      "length out' = length out" "op' \<le> length out" "take op' out' = take op out @ (s1 @ syms)"
      "decodes ?X ?N (ds_left b1) syms (ds_left br')" "ds_ptr br' = 0 \<or> bits_consumed br' \<le> 7 \<and> length out - op' < N"
      unfolding 1(3,4,7) append_assoc by blast
    then show ?thesis unfolding step using decodes_trans [OF 1(8)] by blast
  qed
qed

lemma stream_x2_tail_ok:
  assumes cc: "complete_code ws k" and len: "length ws \<le> 256" and "ds_inv br"
    and "ds_ptr br = 0 \<or> bits_consumed br \<le> 7 \<and> length out - op < 2" and "op \<le> length out"
  shows "\<exists>br' out' op' syms. stream_x2_tail (map (x2_ref (x1_ref ws k)) [0..<2048]) br out op = Inr (br', out', op')
    \<and> ds_room 57 br' \<and> ds_src br' = ds_src br \<and> length out' = length out \<and> op' \<le> length out \<and> length out - op' < 2
    \<and> take op' out' = take op out @ syms \<and> decodes (x1_ref ws k) (le_nat (ds_src br)) (ds_left br) syms (ds_left br')"
  using assms(3-5)
proof (induction "length out - op" arbitrary: br out op rule: less_induct)
  case less
  let ?X = "x1_ref ws k" and ?dt = "map (x2_ref (x1_ref ws k)) [0..<2048]" and ?N = "le_nat (ds_src br)"
  show ?case
  proof (cases "length out - op < 2")
    case True
    then have "stream_x2_tail ?dt br out op = Inr (br, out, op)"
      using less.prems by (auto simp: stream_x2_tail.simps [of ?dt br out op])
    moreover have "ds_room 57 br" using less.prems by (auto simp: ds_room_def)
    ultimately show ?thesis using less.prems True by (intro exI [of _ br] exI [of _ out] exI [of _ op] exI [of _ "[]"]) auto
  next
    case False
    then have z: "ds_ptr br = 0" using less.prems(2) by simp
    then have room: "ds_room (11 * (2 div 2) + 0) br" using less.prems(1) by (simp add: ds_room_def)
    have op2: "op + 2 \<le> length out" using False by linarith
    from decode_cells_x2_ok [OF cc len room op2] obtain out1 b1 s1 where
      1: "huf_decode_cells_x2 2 out op br ?dt = Inr (out1, length s1, b1)" "ds_room 0 b1" "ds_src b1 = ds_src br" "length out1 = length out"
      "1 \<le> length s1" "length s1 \<le> 2" "take (op + length s1) out1 = take op out @ s1"
      "decodes ?X ?N (ds_left br) s1 (ds_left b1)" by auto
    have "ds_ptr b1 = 0" using 1(1) z by (auto simp: huf_decode_cells_x2_def res_simps numeral_2_eq_2)
    moreover have "length out1 - (op + length s1) < length out - op" "op + length s1 \<le> length out1" using 1(4,5,6) op2 by auto
    moreover have "ds_inv b1" using 1(2) by (simp add: ds_room_def)
    ultimately obtain br' out' op' syms where
      "stream_x2_tail ?dt b1 out1 (op + length s1) = Inr (br', out', op')" "ds_room 57 br'" "ds_src br' = ds_src br"
      "length out' = length out" "op' \<le> length out" "length out - op' < 2" "take op' out' = take op out @ (s1 @ syms)"
      "decodes ?X ?N (ds_left b1) syms (ds_left br')"
      using less.hyps [of out1 "op + length s1" b1] unfolding 1(3,4,7) append_assoc by blast
    moreover have "stream_x2_tail ?dt br out op = stream_x2_tail ?dt b1 out1 (op + length s1)"
      using 1(1) op2 False by (simp add: stream_x2_tail.simps [of ?dt br out op])
    ultimately show ?thesis using decodes_trans [OF 1(8)] by simp
  qed
qed

lemma last_symbol_x2_ok:
  assumes cc: "complete_code ws k" and len: "length ws \<le> 256" and room: "ds_room 11 br" and op: "Suc op = length out"
    and t: "ws = take (nb_symbols t) (weights t)" "k = max_num_bits t" "length (weights t) = 256"
  shows "\<exists>a br'. huf_decode_last_symbol_x2 out op br (map (x2_ref (x1_ref ws k)) [0..<2048]) t = Inr (take op out @ [a], br')
    \<and> ds_room 0 br' \<and> ds_src br' = ds_src br \<and> decodes (x1_ref ws k) (le_nat (ds_src br)) (ds_left br) [a] (ds_left br')"
proof -
  let ?X = "x1_ref ws k" and ?V = "look_bits br 11"
  note ag = look_bits_agrees [OF room]
  from x1_ref_entry [OF cc look_bits_less, of br] obtain s b where
    e: "?X ! ?V = (s, b)" "s < length ws" "1 \<le> ws ! s" "b = k + 1 - ws ! s" "b \<le> 11" by metis
  have q: "sequence (x2_ref ?X ?V) mod 256 = s" using decodes_cell(6) [OF cc len look_bits_less ag] e(1) by simp
  have w: "weights t ! s = ws ! s" "s < 256" using e(2) len t by auto
  have "code_len t s = Inr b"
    using w t(2,3) e(4) complete_code_weight [OF cc nth_mem [OF e(2)]] by (simp add: code_len_def)
  moreover have "index (map (x2_ref ?X) [0..<2048]) ?V = Inr (x2_ref ?X ?V)" using look_bits_less [of br] by (simp del: upt_rec_numeral)
  moreover have "out[op := word_of_nat s] = take op out @ [word_of_nat s]" using op by (simp add: upd_conv_take_nth_drop)
  ultimately have "huf_decode_last_symbol_x2 out op br (map (x2_ref ?X) [0..<2048]) t = Inr (take op out @ [word_of_nat s], skip_bits br b)"
    using op q by (simp add: huf_decode_last_symbol_x2_def HUF_FAST_TABLE_LOG_def HUF_TABLELOG_MAX_def set_byte_def Let_def)
  moreover have "ds_room 0 (skip_bits br b)" using ds_room_skip [of 11 0 br b] room e(5) by simp
  ultimately show ?thesis using decodes_symbol [OF cc len look_bits_less e(1) ag e(5)] by auto
qed

lemma stream_x2_ok:
  assumes cc: "complete_code ws k" and len: "length ws \<le> 256" and "ds_room 0 br"
    and t: "ws = take (nb_symbols t) (weights t)" "k = max_num_bits t" "length (weights t) = 256"
  shows "\<exists>br' out'. huf_decode_stream_x2 out br (map (x2_ref (x1_ref ws k)) [0..<2048]) t = Inr (br', out')
    \<and> ds_room 0 br' \<and> ds_src br' = ds_src br \<and> length out' = length out
    \<and> decodes (x1_ref ws k) (le_nat (ds_src br)) (ds_left br) out' (ds_left br')"
proof -
  let ?X = "x1_ref ws k" and ?dt = "map (x2_ref (x1_ref ws k)) [0..<2048]" and ?N = "le_nat (ds_src br)"
  have "\<exists>b1 out1 op. (if 8 \<le> length out then stream_x2_loop 10 ?dt br out 0
               else res_bind (reload br) (\<lambda>(_, br). Inr (br, out, 0))) = Inr (b1, out1, op)
      \<and> ds_room 0 b1 \<and> ds_room 57 b1 \<and> ds_src b1 = ds_src br \<and> length out1 = length out \<and> op \<le> length out
      \<and> decodes ?X ?N (ds_left br) (take op out1) (ds_left b1)"
  proof (cases "8 \<le> length out")
    case True
    from stream_x2_loop_ok [OF cc len _ _ assms(3), of 10 0 out] obtain b1 out1 op where
      q: "stream_x2_loop 10 ?dt br out 0 = Inr (b1, out1, op)" "ds_room 0 b1" "ds_src b1 = ds_src br" "length out1 = length out"
      "op \<le> length out" "decodes ?X ?N (ds_left br) (take op out1) (ds_left b1)"
      "ds_ptr b1 = 0 \<or> bits_consumed b1 \<le> 7 \<and> length out - op < 10" by auto
    then show ?thesis using True ds_room_full [OF q(2)] by auto
  next
    case False
    from reload_room [OF assms(3)] obtain st b1 where
      r: "reload br = Inr (st, b1)" "ds_room 0 b1" "ds_src b1 = ds_src br" "ds_left b1 = ds_left br"
      "bits_consumed b1 \<le> 7 \<or> ds_ptr b1 = 0" by blast
    then show ?thesis using False ds_room_full [OF r(2,5)] by simp
  qed
  then obtain b1 out1 op where q: "(if 8 \<le> length out then stream_x2_loop 10 ?dt br out 0
               else res_bind (reload br) (\<lambda>(_, br). Inr (br, out, 0))) = Inr (b1, out1, op)"
    "ds_room 0 b1" "ds_room 57 b1" "ds_src b1 = ds_src br" "length out1 = length out" "op \<le> length out"
    "decodes ?X ?N (ds_left br) (take op out1) (ds_left b1)" by blast
  have "\<exists>b2 out2 op2. (if 2 \<le> length out1 - op then
                 res_bind (stream_x2_loop 2 ?dt b1 out1 op) (\<lambda>(br, out, op). stream_x2_tail ?dt br out op)
               else Inr (b1, out1, op)) = Inr (b2, out2, op2)
      \<and> ds_room 57 b2 \<and> ds_src b2 = ds_src br \<and> length out2 = length out \<and> op2 \<le> length out \<and> length out - op2 < 2
      \<and> decodes ?X ?N (ds_left br) (take op2 out2) (ds_left b2)"
  proof (cases "2 \<le> length out1 - op")
    case False
    then show ?thesis using q by auto
  next
    case True
    from stream_x2_loop_ok [OF cc len _ _ q(2), of 2 op out1] q(4,5,6) obtain b3 out3 op3 s3 where
      3: "stream_x2_loop 2 ?dt b1 out1 op = Inr (b3, out3, op3)" "ds_room 0 b3" "ds_src b3 = ds_src br" "length out3 = length out"
      "op3 \<le> length out3" "take op3 out3 = take op out1 @ s3" "decodes ?X ?N (ds_left b1) s3 (ds_left b3)"
      "ds_ptr b3 = 0 \<or> bits_consumed b3 \<le> 7 \<and> length out3 - op3 < 2" by auto
    have i3: "ds_inv b3" using 3(2) by (simp add: ds_room_def)
    from stream_x2_tail_ok [OF cc len i3 3(8,5)] obtain b2 out2 op2 s2 where
      2: "stream_x2_tail ?dt b3 out3 op3 = Inr (b2, out2, op2)" "ds_room 57 b2" "ds_src b2 = ds_src br" "length out2 = length out"
      "op2 \<le> length out" "length out - op2 < 2" "take op2 out2 = take op3 out3 @ s2" "decodes ?X ?N (ds_left b3) s2 (ds_left b2)"
      unfolding 3(3,4) by blast
    have "decodes ?X ?N (ds_left br) (take op2 out2) (ds_left b2)"
      unfolding 2(7) 3(6) by (rule decodes_trans [OF decodes_trans [OF q(7) 3(7)] 2(8)])
    then show ?thesis using True 3(1) 2 by simp
  qed
  then obtain b2 out2 op2 where 2: "(if 2 \<le> length out1 - op then
                 res_bind (stream_x2_loop 2 ?dt b1 out1 op) (\<lambda>(br, out, op). stream_x2_tail ?dt br out op)
               else Inr (b1, out1, op)) = Inr (b2, out2, op2)"
      "ds_room 57 b2" "ds_src b2 = ds_src br" "length out2 = length out" "op2 \<le> length out" "length out - op2 < 2"
      "decodes ?X ?N (ds_left br) (take op2 out2) (ds_left b2)" by blast
  have eq: "huf_decode_stream_x2 out br ?dt t = (if op2 < length out2 then
       res_bind (huf_decode_last_symbol_x2 out2 op2 b2 ?dt t) (\<lambda>(out, br). Inr (br, out)) else Inr (b2, out2))"
    unfolding huf_decode_stream_x2_def q(1) using 2(1) by simp
  show ?thesis
  proof (cases "op2 < length out2")
    case True
    then have op: "Suc op2 = length out2" using 2(4-6) by linarith
    have room: "ds_room 11 b2" using 2(2) by (rule ds_room_less) simp
    from last_symbol_x2_ok [OF cc len room op t] obtain a br' where
      4: "huf_decode_last_symbol_x2 out2 op2 b2 ?dt t = Inr (take op2 out2 @ [a], br')" "ds_room 0 br'" "ds_src br' = ds_src b2"
      "decodes ?X ?N (ds_left b2) [a] (ds_left br')" unfolding 2(3) by blast
    then show ?thesis unfolding eq using True op 2(3,4) decodes_trans [OF 2(7) 4(4)] by simp
  next
    case False
    then have "op2 = length out2" using 2(4,5) by simp
    then show ?thesis unfolding eq using 2 ds_room_less [OF 2(2), of 0] by simp
  qed
qed

section \<open>One stream against the specification\<close>

text \<open>The symbols of a stream by its specification: \<open>None\<close> when it is empty, has no end mark, or does not
  hold exactly \<open>n\<close> codes.\<close>

definition huf_spec :: "(nat \<times> nat) list \<Rightarrow> u8 list \<Rightarrow> nat \<Rightarrow> u8 list option" where
  "huf_spec X src n =
     (if src = [] \<or> last src = 0 then None
      else map_option (map word_of_nat) (huf_ref X (le_nat src) (bit_length (le_nat src) - 1) n))"

text \<open>A decoder result that is the specified one, or an error when there is none.\<close>

definition implements :: "u8 list res \<Rightarrow> u8 list option \<Rightarrow> bool" where
  "implements r spec \<longleftrightarrow> (case spec of Some syms \<Rightarrow> r = Inr syms | None \<Rightarrow> \<exists>e. r = Inl (Err (HufError e)))"

lemma huf_spec_decodes:
  assumes "ds_new src = Inr br" and "decodes X (le_nat src) (ds_left br) out (ds_left br')" and "ds_room 0 br'" and "length out = n"
  shows "huf_spec X src n = (if is_finished br' then Some out else None)"
proof -
  note n = ds_new_ready [OF assms(1)]
  have "unat (last src) \<noteq> 0" using n(6) by (simp add: unat_gt_0)
  then have "bit_length (unat (last src)) \<noteq> 0" by simp
  then have "0 < bit_length (le_nat src)" using bit_length_le_nat [OF n(5,6)] by linarith
  then have l: "ds_left br = int (bit_length (le_nat src) - 1)" using n(4) by simp
  have "map (word_of_nat :: nat \<Rightarrow> u8) (map unat out) = out" by (simp add: comp_def)
  then show ?thesis
    using decodes_end [OF assms(2)] n(5,6) assms(4) finished_iff [OF assms(3)]
    by (simp add: huf_spec_def l ref_at_def)
qed

lemma ds_new_room: "ds_new src = Inr br \<Longrightarrow> ds_room 0 br"
  using ds_new_ready [of src br] by (simp add: ds_ready_def ds_room_def)

lemma decompress_1x1_ok:
  assumes "huffman_complete t" and "huffman_inv t" and "x1_built t"
  shows "implements (huf_decompress_1x1 out src t)
    (huf_spec (x1_ref (take (nb_symbols t) (weights t)) (max_num_bits t)) src (length out))"
proof -
  define ws k where "ws = take (nb_symbols t) (weights t)" and "k = max_num_bits t"
  have cc: "complete_code ws k" and len: "length ws \<le> 256"
    using assms by (auto simp: huffman_complete_def huffman_inv_def Let_def ws_def k_def)
  have l: "length (x1_ref ws k) = 2048" using length_x1_ref [OF cc] x1_ref_upto [OF cc] by simp
  have dt: "huf_cells (decode t) = Inr (map mk_entry (x1_ref ws k))"
    using assms(3) l by (simp add: x1_built_def huf_cells_def HUF_FAST_TABLE_LOG_def HUF_TABLELOG_MAX_def ws_def k_def)
  consider (err) e where "ds_new src = Inl (Err (HufError e))" "src = [] \<or> last src = 0" | (ok) br where "ds_new src = Inr br"
    using ds_new_cases [of src] by auto
  then show ?thesis
  proof cases
    case err
    then show ?thesis using dt by (simp add: huf_decompress_1x1_def implements_def huf_spec_def)
  next
    case ok
    from stream_x1_ok [OF cc len ds_new_room [OF ok], of out] obtain br' out' where
      s: "huf_decode_stream_x1 out br (map mk_entry (x1_ref ws k)) = Inr (br', out')" "ds_room 0 br'" "length out' = length out"
      "decodes (x1_ref ws k) (le_nat src) (ds_left br) out' (ds_left br')" using ds_new_ready(2) [OF ok] by auto
    from huf_spec_decodes [OF ok s(4,2,3)] show ?thesis
      using dt ok s(1) by (simp add: huf_decompress_1x1_def implements_def ws_def k_def)
  qed
qed

lemma decompress_1x2_ok:
  assumes "huffman_complete t" and "huffman_inv t" and "x2_built t"
  shows "implements (huf_decompress_1x2 out src t)
    (huf_spec (x1_ref (take (nb_symbols t) (weights t)) (max_num_bits t)) src (length out))"
proof -
  define ws k where "ws = take (nb_symbols t) (weights t)" and "k = max_num_bits t"
  have cc: "complete_code ws k" and len: "length ws \<le> 256" and w: "length (weights t) = 256"
    using assms by (auto simp: huffman_complete_def huffman_inv_def Let_def ws_def k_def)
  have dt: "huf_cells (decode_x2 t) = Inr (map (x2_ref (x1_ref ws k)) [0..<2048])"
    using assms(3) by (simp add: x2_built_def huf_cells_def HUF_FAST_TABLE_LOG_def HUF_TABLELOG_MAX_def ws_def k_def del: upt_rec_numeral)
  consider (err) e where "ds_new src = Inl (Err (HufError e))" "src = [] \<or> last src = 0" | (ok) br where "ds_new src = Inr br"
    using ds_new_cases [of src] by auto
  then show ?thesis
  proof cases
    case err
    then show ?thesis using dt by (simp add: huf_decompress_1x2_def implements_def huf_spec_def)
  next
    case ok
    from stream_x2_ok [OF cc len ds_new_room [OF ok] ws_def k_def w, of out] obtain br' out' where
      s: "huf_decode_stream_x2 out br (map (x2_ref (x1_ref ws k)) [0..<2048]) t = Inr (br', out')" "ds_room 0 br'" "length out' = length out"
      "decodes (x1_ref ws k) (le_nat src) (ds_left br) out' (ds_left br')" using ds_new_ready(2) [OF ok] by auto
    from huf_spec_decodes [OF ok s(4,2,3)] show ?thesis
      using dt ok s(1) by (simp add: huf_decompress_1x2_def implements_def ws_def k_def del: upt_rec_numeral)
  qed
qed

section \<open>Properties\<close>

text \<open>C24: The single-stream decoders of both table kinds meet one specification: for a table that
  \<open>build_decoder\<close> made, \<open>huf_decompress_1x1\<close> and \<open>huf_decompress_1x2\<close> return exactly the symbols that
  reading the codes one by one from the end of the stream gives, when these consume the stream exactly,
  and an error of their own otherwise; neither panics.\<close>

theorem huf_one_stream_correct:
  assumes "huffman_inv t" and "huffman_ready t"
  shows "implements (if is_x2 t then huf_decompress_1x2 out src t else huf_decompress_1x1 out src t)
    (huf_spec (x1_ref (take (nb_symbols t) (weights t)) (max_num_bits t)) src (length out))"
  using decompress_1x1_ok [OF _ assms(1)] decompress_1x2_ok [OF _ assms(1)] assms(2) by (auto simp: huffman_ready_def)

theorem huf_one_stream_correct_witness:
  "\<exists>t X. huffman_ready t \<and> is_x2 t \<and> implements (huf_decompress_1x2 [0, 0] [0x2D] t) (huf_spec X [0x2D] (length [0 :: nat, 0]))"
proof -
  obtain t where t: "huffman_ready t" "huffman_inv t" "is_x2 t" using fill_ok [OF demo_table_ok, of True] by blast
  from huf_one_stream_correct [OF t(2,1), of "[0, 0]" "[0x2D]"] t show ?thesis by auto
qed

end
