(* ===== verification/Huffman_Four.thy ===== *)
theory Huffman_Four
  imports Huffman_Stream
begin

text \<open>
  Four-stream Huffman sections (\<open>src/src/decode.rs\<close>): the layout (\<open>HufStreams\<close>), the unsafe fast loops
  over the raw section bytes (\<open>huf_4x1_fast_loop\<close>, \<open>huf_4x2_fast_loop\<close>), the hand-over to the plain
  reader (\<open>huf_remaining_dstream\<close>) and the plain loops (\<open>huf_decompress_4x1\<close>, \<open>huf_decompress_4x2\<close>).  An
  unchecked access outside its buffer is the fault \<open>Undefined\<close>, so its absence is part of what is proved.
\<close>

section \<open>Four streams\<close>

record huf_streams =
  istart :: "nat list"
  iend :: "nat list"
  segment :: nat

definition streams_split :: "u8 list \<Rightarrow> nat \<Rightarrow> huf_streams res" where
  "streams_split src dst_size =
     (if length src < 10 then Inl (Err (HufError (HufFourShort (length src))))
      else
      let len1 = le_nat (take 2 src); len2 = le_nat (take 2 (drop 2 src)); len3 = le_nat (take 2 (drop 4 src)) in
      if length src < 6 + len1 + len2 + len3 then Inl (Err (HufError HufJumpTable))
      else
      let seg = (dst_size + 3) div 4 in
      if dst_size < 3 * seg then Inl (Err (HufError HufSegments))
      else Inr \<lparr>istart = [6, 6 + len1, 6 + len1 + len2, 6 + len1 + len2 + len3],
                iend = [6 + len1, 6 + len1 + len2, 6 + len1 + len2 + len3, length src], segment = seg\<rparr>)"

definition stream_of :: "huf_streams \<Rightarrow> u8 list \<Rightarrow> nat \<Rightarrow> u8 list res" where
  "stream_of st src s = res_bind (index (istart st) s) (\<lambda>a. res_bind (index (iend st) s) (\<lambda>b. slice src a b))"

definition segment_end :: "huf_streams \<Rightarrow> nat \<Rightarrow> nat \<Rightarrow> nat" where
  "segment_end st s dst_size = min ((s + 1) * segment st) dst_size"

text \<open>One stream of \<open>HufFastArgs\<close>; the arrays of four are functions of the stream number 0 to 3.\<close>

record fast_stream =
  fs_ip :: nat
  fs_op :: nat
  fs_bits :: u64

type_synonym fast_args = "nat \<Rightarrow> fast_stream"

definition trailing_zeros :: "u64 \<Rightarrow> nat" where
  "trailing_zeros w = length (takeWhile (\<lambda>i. \<not> bit w i) [0..<64])"

text \<open>The loop \<open>for s in 0..4\<close> over the streams still to set up.\<close>

fun fast_init_streams :: "huf_streams \<Rightarrow> u8 list \<Rightarrow> nat list \<Rightarrow> fast_args \<Rightarrow> fast_args option res" where
  "fast_init_streams st src [] a = Inr (Some a)"
| "fast_init_streams st src (s # ss) a =
     res_bind (index (istart st) s) (\<lambda>from.
     res_bind (index (iend st) s) (\<lambda>till.
     if till - from < 8 then Inr None
     else
     res_bind (index src (till - 1)) (\<lambda>l.
     if l = 0 then Inl (Err (HufError HufNoEndMark))
     else
     res_bind (read_le64 src (till - 8)) (\<lambda>w.
     fast_init_streams st src ss
       (a(s := (a s)\<lparr>fs_ip := till - 8, fs_bits := push_bit (8 - bit_length (unat l) + 1) (w OR 1)\<rparr>))))))"

definition huf_fast_args_init :: "huf_streams \<Rightarrow> u8 list \<Rightarrow> nat \<Rightarrow> fast_args option res" where
  "huf_fast_args_init st src dst_size =
     (if dst_size \<le> 3 * segment st then Inr None
      else fast_init_streams st src [0, 1, 2, 3] (\<lambda>s. \<lparr>fs_ip = 0, fs_op = s * segment st, fs_bits = 0\<rparr>))"

definition huf_remaining_dstream :: "fast_args \<Rightarrow> huf_streams \<Rightarrow> nat \<Rightarrow> u8 list \<Rightarrow> bit_dstream res" where
  "huf_remaining_dstream a st s src =
     res_bind (index (istart st) s) (\<lambda>start.
     res_bind (stream_of st src s) (\<lambda>stream.
     let ip = fs_ip (a s) in
     if ip + 8 < start then Inl (Err (HufError HufOverranStart))
     else
     let (ptr, below) = (if start \<le> ip then (ip - start, 0) else (0, start - ip));
         consumed = trailing_zeros (fs_bits (a s)) + below * 8
     in if 64 < consumed then Inl (Err (HufError HufOverranStart))
     else res_bind (read_le64 stream ptr) (\<lambda>c.
       Inr \<lparr>ds_src = stream, ds_ptr = ptr, container = c, bits_consumed = consumed\<rparr>)))"

section \<open>The fast single-symbol loop\<close>

fun fold_res :: "('x \<Rightarrow> 's \<Rightarrow> 's res) \<Rightarrow> 'x list \<Rightarrow> 's \<Rightarrow> 's res" where
  "fold_res f [] s = Inr s"
| "fold_res f (x # xs) s = res_bind (f x s) (fold_res f xs)"

text \<open>\<open>*o.add(i) = b\<close>, unchecked.\<close>

definition poke :: "u8 list \<Rightarrow> nat \<Rightarrow> u8 \<Rightarrow> u8 list res" where
  "poke out i b = (if i < length out then Inr (out[i := b]) else Inl Undefined)"

type_synonym fast_state = "fast_args \<times> u8 list"

text \<open>\<open>decode!(s, k)\<close>.\<close>

definition fast_decode_x1 :: "huffman_entry list \<Rightarrow> nat \<times> nat \<Rightarrow> fast_state \<Rightarrow> fast_state res" where
  "fast_decode_x1 dt sk st = (case (sk, st) of ((s, k), (a, out)) \<Rightarrow>
     res_bind (table_entry dt (unat (drop_bit (64 - HUF_FAST_TABLE_LOG) (fs_bits (a s))))) (\<lambda>entry.
     res_bind (poke out (fs_op (a s) + k) (he_symbol entry)) (\<lambda>out.
     Inr (a(s := (a s)\<lparr>fs_bits := push_bit (unat (he_num_bits entry)) (fs_bits (a s))\<rparr>), out))))"

text \<open>The part of \<open>reload!(s)\<close> both loops share.\<close>

definition fast_refill :: "u8 list \<Rightarrow> nat \<Rightarrow> fast_state \<Rightarrow> fast_state res" where
  "fast_refill src s st = (case st of (a, out) \<Rightarrow>
     let ctz = trailing_zeros (fs_bits (a s)) in
     if fs_ip (a s) < ctz div 8 then Inl Panic
     else
     let ip = fs_ip (a s) - ctz div 8 in
     res_bind (read_le64_unchecked src ip) (\<lambda>w.
     Inr (a(s := (a s)\<lparr>fs_ip := ip, fs_bits := push_bit (ctz mod 8) (w OR 1)\<rparr>), out)))"

definition fast_reload_x1 :: "u8 list \<Rightarrow> nat \<Rightarrow> fast_state \<Rightarrow> fast_state res" where
  "fast_reload_x1 src s st = (case st of (a, out) \<Rightarrow> fast_refill src s (a(s := (a s)\<lparr>fs_op := fs_op (a s) + 5\<rparr>), out))"

definition fast_x1_order :: "(nat \<times> nat) list" where
  "fast_x1_order =
     [(0, 0), (1, 0), (2, 0), (3, 0), (0, 1), (1, 1), (2, 1), (3, 1), (0, 2), (1, 2), (2, 2), (3, 2),
      (0, 3), (1, 3), (2, 3), (3, 3), (0, 4), (1, 4), (2, 4), (3, 4)]"

definition fast_x1_iter :: "u8 list \<Rightarrow> huffman_entry list \<Rightarrow> fast_state \<Rightarrow> fast_state res" where
  "fast_x1_iter src dt st =
     res_bind (fold_res (fast_decode_x1 dt) fast_x1_order st) (fold_res (fast_reload_x1 src) [0, 1, 2, 3])"

lemma fast_decodes_op: "fold_res (fast_decode_x1 dt) sks st = Inr st' \<Longrightarrow> fs_op (fst st' j) = fs_op (fst st j) \<and> length (snd st') = length (snd st)"
proof (induction sks arbitrary: st)
  case (Cons sk sks)
  then obtain st1 where 1: "fast_decode_x1 dt sk st = Inr st1" "fold_res (fast_decode_x1 dt) sks st1 = Inr st'"
    by (auto simp: res_simps)
  have "fs_op (fst st1 j) = fs_op (fst st j) \<and> length (snd st1) = length (snd st)"
    using 1(1) by (auto simp: fast_decode_x1_def poke_def res_simps split: prod.splits if_splits)
  then show ?case using Cons.IH [OF 1(2)] by simp
qed simp

lemma fast_reload_op: "fast_reload_x1 src s st = Inr st' \<Longrightarrow>
    fs_op (fst st' j) = (if j = s then fs_op (fst st j) + 5 else fs_op (fst st j)) \<and> snd st' = snd st"
  by (auto simp: fast_reload_x1_def fast_refill_def res_simps Let_def split: prod.splits if_splits)

lemma fast_x1_iter_op: "fast_x1_iter src dt st = Inr st' \<Longrightarrow> fs_op (fst st' 3) = fs_op (fst st 3) + 5 \<and> length (snd st') = length (snd st)"
  by (auto simp: fast_x1_iter_def res_simps dest!: fast_decodes_op [of _ _ _ _ 3] fast_reload_op [of _ _ _ _ 3])

function fast_x1_inner :: "u8 list \<Rightarrow> huffman_entry list \<Rightarrow> nat \<Rightarrow> fast_state \<Rightarrow> fast_state res" where
  "fast_x1_inner src dt olimit st =
     res_bind (fast_x1_iter src dt st) (\<lambda>st. if olimit \<le> fs_op (fst st 3) then Inr st else fast_x1_inner src dt olimit st)"
  by pat_completeness auto
termination
  by (relation "measure (\<lambda>(src, dt, olimit, st). olimit - fs_op (fst st 3))") (auto dest!: fast_x1_iter_op)

declare fast_x1_inner.simps [simp del]

lemma fast_x1_inner_op: "fast_x1_inner src dt olimit st = Inr st' \<Longrightarrow> fs_op (fst st 3) + 5 \<le> fs_op (fst st' 3) \<and> length (snd st') = length (snd st)"
proof (induction src dt olimit st rule: fast_x1_inner.induct)
  case (1 src dt olimit st)
  from "1.prems" obtain st1 where s: "fast_x1_iter src dt st = Inr st1"
    "(if olimit \<le> fs_op (fst st1 3) then Inr st1 else fast_x1_inner src dt olimit st1) = Inr st'"
    by (subst (asm) fast_x1_inner.simps) (auto simp: res_simps)
  note o = fast_x1_iter_op [OF s(1)]
  show ?case
  proof (cases "olimit \<le> fs_op (fst st1 3)")
    case True
    then show ?thesis using s(2) o by simp
  next
    case False
    then show ?thesis using "1.IH" [OF s(1) False] s(2) o by simp
  qed
qed

function fast_x1_loop :: "u8 list \<Rightarrow> huffman_entry list \<Rightarrow> fast_state \<Rightarrow> fast_state res" where
  "fast_x1_loop src dt st =
     (let a = fst st; oend = length (snd st) in
      if oend < fs_op (a 3) then Inl Panic
      else
      let oiters = (oend - fs_op (a 3)) div 5; iiters = fs_ip (a 0) div 7;
          olimit = fs_op (a 3) + min oiters iiters * 5
      in if fs_op (a 3) = olimit then Inr st
      else if fs_ip (a 1) < fs_ip (a 0) \<or> fs_ip (a 2) < fs_ip (a 1) \<or> fs_ip (a 3) < fs_ip (a 2) then Inr st
      else res_bind (fast_x1_inner src dt olimit st) (fast_x1_loop src dt))"
  by pat_completeness auto
termination
proof (relation "measure (\<lambda>(src, dt, st). length (snd st) - fs_op (fst st 3))", goal_cases)
  case (2 src dt st a oend oiters iiters olimit st')
  then have "0 < oend - fs_op (a 3)" by (auto simp: div_greater_zero_iff)
  then show ?case using fast_x1_inner_op [OF 2(9)] 2(1,2) by auto
qed auto

declare fast_x1_loop.simps [simp del]

definition huf_4x1_fast_loop :: "fast_args \<Rightarrow> u8 list \<Rightarrow> u8 list \<Rightarrow> huffman_entry list \<Rightarrow> (fast_args \<times> u8 list) res" where
  "huf_4x1_fast_loop args out src dt = fast_x1_loop src dt (args, out)"

section \<open>The fast double-symbol loop\<close>

text \<open>\<open>decode!(s)\<close>: a two-byte store, unchecked.\<close>

definition poke2 :: "u8 list \<Rightarrow> nat \<Rightarrow> u8 list \<Rightarrow> u8 list res" where
  "poke2 out i bs = (if i + length bs \<le> length out then Inr (put_slice out i bs) else Inl Undefined)"

definition fast_decode_x2 :: "huf_entry_x2 list \<Rightarrow> nat \<Rightarrow> fast_state \<Rightarrow> fast_state res" where
  "fast_decode_x2 dt s st = (case st of (a, out) \<Rightarrow>
     res_bind (table_entry dt (unat (drop_bit (64 - HUF_FAST_TABLE_LOG) (fs_bits (a s))))) (\<lambda>entry.
     res_bind (poke2 out (fs_op (a s)) (le_bytes 2 (sequence entry))) (\<lambda>out.
     Inr (a(s := (a s)\<lparr>fs_bits := push_bit (x2_nb_bits entry) (fs_bits (a s)), fs_op := fs_op (a s) + x2_length entry\<rparr>), out))))"

definition fast_reload_x2 :: "u8 list \<Rightarrow> huf_entry_x2 list \<Rightarrow> nat \<Rightarrow> fast_state \<Rightarrow> fast_state res" where
  "fast_reload_x2 src dt s st = res_bind (fast_decode_x2 dt 3 st) (fast_refill src s)"

definition fast_x2_order :: "nat list" where
  "fast_x2_order = [0, 1, 2, 0, 1, 2, 0, 1, 2, 0, 1, 2, 0, 1, 2, 3]"

definition fast_x2_iter :: "u8 list \<Rightarrow> huf_entry_x2 list \<Rightarrow> fast_state \<Rightarrow> fast_state res" where
  "fast_x2_iter src dt st =
     res_bind (fold_res (fast_decode_x2 dt) fast_x2_order st) (fold_res (fast_reload_x2 src dt) [0, 1, 2, 3])"

text \<open>The two nested loops.  A cell of length 0 would not advance, so they run on fuel.\<close>

fun fast_x2_inner :: "nat \<Rightarrow> u8 list \<Rightarrow> huf_entry_x2 list \<Rightarrow> nat \<Rightarrow> fast_state \<Rightarrow> fast_state res" where
  "fast_x2_inner 0 src dt olimit st = Inl Diverges"
| "fast_x2_inner (Suc n) src dt olimit st =
     res_bind (fast_x2_iter src dt st) (\<lambda>st. if olimit \<le> fs_op (fst st 3) then Inr st else fast_x2_inner n src dt olimit st)"

text \<open>\<open>iters = iters.min((oend[s] - op[s]) / 10)\<close> for the four streams.\<close>

definition fast_x2_iters :: "(nat \<Rightarrow> nat) \<Rightarrow> fast_args \<Rightarrow> nat res" where
  "fast_x2_iters oend a =
     fold_res (\<lambda>s iters. if oend s < fs_op (a s) then Inl Panic else Inr (min iters ((oend s - fs_op (a s)) div 10)))
       [0, 1, 2, 3] (fs_ip (a 0) div 7)"

fun fast_x2_loop :: "nat \<Rightarrow> u8 list \<Rightarrow> huf_entry_x2 list \<Rightarrow> (nat \<Rightarrow> nat) \<Rightarrow> fast_state \<Rightarrow> fast_state res" where
  "fast_x2_loop 0 src dt oend st = Inl Diverges"
| "fast_x2_loop (Suc n) src dt oend st =
     (let a = fst st in
      res_bind (fast_x2_iters oend a) (\<lambda>iters.
      let olimit = fs_op (a 3) + iters * 5 in
      if fs_op (a 3) = olimit then Inr st
      else if fs_ip (a 1) < fs_ip (a 0) \<or> fs_ip (a 2) < fs_ip (a 1) \<or> fs_ip (a 3) < fs_ip (a 2) then Inr st
      else res_bind (fast_x2_inner (length (snd st) + 1) src dt olimit st) (fast_x2_loop n src dt oend)))"

definition huf_4x2_fast_loop :: "fast_args \<Rightarrow> u8 list \<Rightarrow> u8 list \<Rightarrow> huf_entry_x2 list \<Rightarrow> (fast_args \<times> u8 list) res" where
  "huf_4x2_fast_loop args out src dt =
     fast_x2_loop (length out + 1) src dt
       (\<lambda>s. if s = 0 then fs_op (args 1) else if s = 1 then fs_op (args 2) else if s = 2 then fs_op (args 3) else length out)
       (args, out)"

section \<open>Four single-symbol streams\<close>

text \<open>\<open>for s in 0..4\<close> after a fast loop: the rest of every stream with the plain decoder.\<close>

fun finish_x1 :: "huf_streams \<Rightarrow> u8 list \<Rightarrow> huffman_entry list \<Rightarrow> fast_args \<Rightarrow> nat list \<Rightarrow> u8 list \<Rightarrow> u8 list res" where
  "finish_x1 st src dt args [] out = Inr out"
| "finish_x1 st src dt args (s # ss) out =
     (let till = segment_end st s (length out) in
      if till < fs_op (args s) then Inl (Err (HufError HufOverranSegment))
      else
      res_bind (huf_remaining_dstream args st s src) (\<lambda>br.
      res_bind (slice out (fs_op (args s)) till) (\<lambda>w.
      res_bind (huf_decode_stream_x1 w br dt) (\<lambda>(br, w).
      if \<not> is_finished br then Inl (Err (HufError HufNotConsumed))
      else res_bind (copy_into out (fs_op (args s)) w) (finish_x1 st src dt args ss)))))"

text \<open>\<open>split_at_mut\<close>.\<close>

definition split_at :: "'a list \<Rightarrow> nat \<Rightarrow> ('a list \<times> 'a list) res" where
  "split_at xs n = (if n \<le> length xs then Inr (take n xs, drop n xs) else Inl Panic)"

text \<open>A reader with the segment it writes.\<close>

type_synonym lane = "bit_dstream \<times> u8 list"

text \<open>Row \<open>i\<close> of the plain loop: one symbol from each of the four readers into its window.\<close>

definition plain_x1_symbol :: "huffman_entry list \<Rightarrow> lane \<Rightarrow> lane res" where
  "plain_x1_symbol dt l = (case l of (br, w) \<Rightarrow>
     res_bind (huf_decode_symbol_x1 br dt) (\<lambda>(a, br). Inr (br, w @ [a])))"

definition plain_x1_row :: "huffman_entry list \<Rightarrow> lane \<times> lane \<times> lane \<times> lane \<Rightarrow> (lane \<times> lane \<times> lane \<times> lane) res" where
  "plain_x1_row dt ls = (case ls of (l1, l2, l3, l4) \<Rightarrow>
     res_bind (plain_x1_symbol dt l1) (\<lambda>l1.
     res_bind (plain_x1_symbol dt l2) (\<lambda>l2.
     res_bind (plain_x1_symbol dt l3) (\<lambda>l3.
     res_bind (plain_x1_symbol dt l4) (\<lambda>l4.
     Inr (l1, l2, l3, l4))))))"

text \<open>The window of a lane goes to its segment; then the reader reloads.\<close>

definition plain_x1_store :: "nat \<Rightarrow> lane \<Rightarrow> u8 list \<Rightarrow> lane res" where
  "plain_x1_store p l seg = (case l of (br, w) \<Rightarrow> res_bind (copy_into seg p w) (\<lambda>seg. Inr (br, seg)))"

definition plain_x1_iter :: "huffman_entry list \<Rightarrow> nat \<Rightarrow> lane \<times> lane \<times> lane \<times> lane
    \<Rightarrow> (bool \<times> lane \<times> lane \<times> lane \<times> lane) res" where
  "plain_x1_iter dt p ls = (case ls of ((b1, o1), (b2, o2), (b3, o3), (b4, o4)) \<Rightarrow>
     res_bind (fold_res (\<lambda>_. plain_x1_row dt) [0 :: nat, 1, 2, 3] ((b1, []), (b2, []), (b3, []), (b4, []))) (\<lambda>(w1, w2, w3, w4).
     res_bind (plain_x1_store p w1 o1) (\<lambda>(b1, o1).
     res_bind (plain_x1_store p w2 o2) (\<lambda>(b2, o2).
     res_bind (plain_x1_store p w3 o3) (\<lambda>(b3, o3).
     res_bind (plain_x1_store p w4 o4) (\<lambda>(b4, o4).
     res_bind (reload_fast b1) (\<lambda>(s1, b1).
     res_bind (reload_fast b2) (\<lambda>(s2, b2).
     res_bind (reload_fast b3) (\<lambda>(s3, b3).
     res_bind (reload_fast b4) (\<lambda>(s4, b4).
     Inr (s1 = Unfinished \<and> s2 = Unfinished \<and> s3 = Unfinished \<and> s4 = Unfinished,
          (b1, o1), (b2, o2), (b3, o3), (b4, o4))))))))))))"

lemma plain_x1_iter_length:
  assumes "plain_x1_iter dt p (l1, l2, l3, l4) = Inr (g, m1, m2, m3, m4)"
  shows "length (snd m4) = length (snd l4)"
  using assms by (auto simp: plain_x1_iter_def plain_x1_store_def res_simps dest!: copy_into_length split: prod.splits)

function plain_x1_loop :: "huffman_entry list \<Rightarrow> bool \<Rightarrow> nat \<Rightarrow> lane \<times> lane \<times> lane \<times> lane
    \<Rightarrow> (nat \<times> lane \<times> lane \<times> lane \<times> lane) res" where
  "plain_x1_loop dt end_signal p (l1, l2, l3, l4) =
     (if end_signal \<and> p + 4 \<le> length (snd l4) then
        res_bind (plain_x1_iter dt p (l1, l2, l3, l4)) (\<lambda>(g, ls). plain_x1_loop dt g (p + 4) ls)
      else Inr (p, l1, l2, l3, l4))"
  by pat_completeness auto
termination
  by (relation "measure (\<lambda>(dt, e, p, (l1, l2, l3, l4)). length (snd l4) - p)") (auto dest!: plain_x1_iter_length)

declare plain_x1_loop.simps [simp del]

definition plain_x1_finish :: "huffman_entry list \<Rightarrow> nat \<Rightarrow> lane \<Rightarrow> lane res" where
  "plain_x1_finish dt p l = (case l of (br, seg) \<Rightarrow>
     res_bind (slice seg p (length seg)) (\<lambda>w.
     res_bind (huf_decode_stream_x1 w br dt) (\<lambda>(br, w).
     res_bind (copy_into seg p w) (\<lambda>seg. Inr (br, seg)))))"

definition huf_decompress_4x1 :: "u8 list \<Rightarrow> u8 list \<Rightarrow> huffman_table \<Rightarrow> u8 list res" where
  "huf_decompress_4x1 out src table =
     res_bind (huf_cells (decode table)) (\<lambda>dt.
     let dst_size = length out in
     res_bind (streams_split src dst_size) (\<lambda>st.
     res_bind (huf_fast_args_init st src dst_size) (\<lambda>fast.
     case fast of
       Some args \<Rightarrow>
         res_bind (huf_4x1_fast_loop args out src dt) (\<lambda>(args, out). finish_x1 st src dt args [0, 1, 2, 3] out)
     | None \<Rightarrow>
         res_bind (split_at out (segment st)) (\<lambda>(o1, rest).
         res_bind (split_at rest (segment st)) (\<lambda>(o2, rest).
         res_bind (split_at rest (segment st)) (\<lambda>(o3, o4).
         res_bind (res_bind (stream_of st src 0) ds_new) (\<lambda>b1.
         res_bind (res_bind (stream_of st src 1) ds_new) (\<lambda>b2.
         res_bind (res_bind (stream_of st src 2) ds_new) (\<lambda>b3.
         res_bind (res_bind (stream_of st src 3) ds_new) (\<lambda>b4.
         res_bind (plain_x1_loop dt (8 \<le> length o4) 0 ((b1, o1), (b2, o2), (b3, o3), (b4, o4))) (\<lambda>(p, l1, l2, l3, l4).
         res_bind (plain_x1_finish dt p l1) (\<lambda>(b1, o1).
         res_bind (plain_x1_finish dt p l2) (\<lambda>(b2, o2).
         res_bind (plain_x1_finish dt p l3) (\<lambda>(b3, o3).
         res_bind (plain_x1_finish dt p l4) (\<lambda>(b4, o4).
         if \<not> (is_finished b1 \<and> is_finished b2 \<and> is_finished b3 \<and> is_finished b4)
         then Inl (Err (HufError HufNotConsumed))
         else Inr (o1 @ o2 @ o3 @ o4))))))))))))))))"

section \<open>Four double-symbol streams\<close>

fun finish_x2 :: "huf_streams \<Rightarrow> u8 list \<Rightarrow> huf_entry_x2 list \<Rightarrow> huffman_table \<Rightarrow> fast_args \<Rightarrow> nat list \<Rightarrow> u8 list \<Rightarrow> u8 list res" where
  "finish_x2 st src dt table args [] out = Inr out"
| "finish_x2 st src dt table args (s # ss) out =
     (let till = segment_end st s (length out) in
      if till < fs_op (args s) then Inl (Err (HufError HufOverranSegment))
      else
      res_bind (huf_remaining_dstream args st s src) (\<lambda>br.
      res_bind (slice out (fs_op (args s)) till) (\<lambda>w.
      res_bind (huf_decode_stream_x2 w br dt table) (\<lambda>(br, w).
      if \<not> is_finished br then Inl (Err (HufError HufNotConsumed))
      else res_bind (copy_into out (fs_op (args s)) w) (finish_x2 st src dt table args ss)))))"

text \<open>A reader with its write position in the shared output.\<close>

type_synonym cursor = "bit_dstream \<times> nat"

definition plain_x2_cells :: "huf_entry_x2 list \<Rightarrow> cursor \<Rightarrow> u8 list \<Rightarrow> (cursor \<times> u8 list) res" where
  "plain_x2_cells dt c out = (case c of (br, op) \<Rightarrow>
     res_bind (huf_decode_cells_x2 8 out op br dt) (\<lambda>(out, n, br). Inr ((br, op + n), out)))"

definition plain_x2_reload :: "cursor \<Rightarrow> (bool \<times> cursor) res" where
  "plain_x2_reload c = (case c of (br, op) \<Rightarrow> res_bind (reload_fast br) (\<lambda>(st, br). Inr (st = Unfinished, (br, op))))"

definition plain_x2_iter :: "huf_entry_x2 list \<Rightarrow> cursor \<times> cursor \<times> cursor \<times> cursor \<Rightarrow> u8 list
    \<Rightarrow> (bool \<times> (cursor \<times> cursor \<times> cursor \<times> cursor) \<times> u8 list) res" where
  "plain_x2_iter dt cs out = (case cs of (c1, c2, c3, c4) \<Rightarrow>
     res_bind (plain_x2_cells dt c1 out) (\<lambda>(c1, out).
     res_bind (plain_x2_cells dt c2 out) (\<lambda>(c2, out).
     res_bind (plain_x2_reload c1) (\<lambda>(g1, c1).
     res_bind (plain_x2_reload c2) (\<lambda>(g2, c2).
     res_bind (plain_x2_cells dt c3 out) (\<lambda>(c3, out).
     res_bind (plain_x2_cells dt c4 out) (\<lambda>(c4, out).
     res_bind (plain_x2_reload c3) (\<lambda>(g3, c3).
     res_bind (plain_x2_reload c4) (\<lambda>(g4, c4).
     Inr (g1 \<and> g2 \<and> g3 \<and> g4, (c1, c2, c3, c4), out))))))))))"

lemma plain_x2_cells_grow: "plain_x2_cells dt c out = Inr (c', out') \<Longrightarrow> length out' = length out \<and> snd c + 4 \<le> snd c' \<and> snd c + 8 \<le> length out"
  by (cases c) (auto simp: plain_x2_cells_def res_simps dest!: decode_cells_x2_grow)

lemma plain_x2_reload_op: "plain_x2_reload c = Inr (g, c') \<Longrightarrow> snd c' = snd c"
  by (cases c) (auto simp: plain_x2_reload_def res_simps)

lemma plain_x2_iter_grow:
  "plain_x2_iter dt (c1, c2, c3, c4) out = Inr (g, (e1, e2, e3, e4), out') \<Longrightarrow> length out' = length out \<and> snd c4 + 4 \<le> snd e4"
  unfolding plain_x2_iter_def prod.case res_bind_Inr_iff
  by (fastforce split: prod.splits dest!: plain_x2_cells_grow plain_x2_reload_op simp: res_bind_Inr_iff)

function plain_x2_loop :: "huf_entry_x2 list \<Rightarrow> bool \<Rightarrow> cursor \<times> cursor \<times> cursor \<times> cursor \<Rightarrow> u8 list
    \<Rightarrow> ((cursor \<times> cursor \<times> cursor \<times> cursor) \<times> u8 list) res" where
  "plain_x2_loop dt end_signal (c1, c2, c3, c4) out =
     (if end_signal \<and> snd c4 + 8 \<le> length out then
        res_bind (plain_x2_iter dt (c1, c2, c3, c4) out) (\<lambda>(g, cs, out). plain_x2_loop dt g cs out)
      else Inr ((c1, c2, c3, c4), out))"
  by pat_completeness auto
termination
  by (relation "measure (\<lambda>(dt, e, (c1, c2, c3, c4), out). length out - snd c4)") (auto dest!: plain_x2_iter_grow)

declare plain_x2_loop.simps [simp del]

definition plain_x2_finish :: "huf_entry_x2 list \<Rightarrow> huffman_table \<Rightarrow> cursor \<Rightarrow> nat \<Rightarrow> u8 list \<Rightarrow> (bit_dstream \<times> u8 list) res" where
  "plain_x2_finish dt table c till out = (case c of (br, op) \<Rightarrow>
     res_bind (slice out op till) (\<lambda>w.
     res_bind (huf_decode_stream_x2 w br dt table) (\<lambda>(br, w).
     res_bind (copy_into out op w) (\<lambda>out. Inr (br, out)))))"

definition huf_decompress_4x2 :: "u8 list \<Rightarrow> u8 list \<Rightarrow> huffman_table \<Rightarrow> u8 list res" where
  "huf_decompress_4x2 out src table =
     res_bind (huf_cells (decode_x2 table)) (\<lambda>dt.
     let oend = length out in
     res_bind (streams_split src oend) (\<lambda>st.
     res_bind (huf_fast_args_init st src oend) (\<lambda>fast.
     case fast of
       Some args \<Rightarrow>
         res_bind (huf_4x2_fast_loop args out src dt) (\<lambda>(args, out). finish_x2 st src dt table args [0, 1, 2, 3] out)
     | None \<Rightarrow>
         let op2 = segment st; op3 = 2 * segment st; op4 = 3 * segment st in
         res_bind (res_bind (stream_of st src 0) ds_new) (\<lambda>b1.
         res_bind (res_bind (stream_of st src 1) ds_new) (\<lambda>b2.
         res_bind (res_bind (stream_of st src 2) ds_new) (\<lambda>b3.
         res_bind (res_bind (stream_of st src 3) ds_new) (\<lambda>b4.
         res_bind (plain_x2_loop dt (8 \<le> oend - op4) ((b1, 0), (b2, op2), (b3, op3), (b4, op4)) out) (\<lambda>((c1, c2, c3, c4), out).
         if op2 < snd c1 \<or> op3 < snd c2 \<or> op4 < snd c3 then Inl (Err (HufError HufOverranSegment))
         else
         res_bind (plain_x2_finish dt table c1 op2 out) (\<lambda>(b1, out).
         res_bind (plain_x2_finish dt table c2 op3 out) (\<lambda>(b2, out).
         res_bind (plain_x2_finish dt table c3 op4 out) (\<lambda>(b3, out).
         res_bind (plain_x2_finish dt table c4 (length out) out) (\<lambda>(b4, out).
         if \<not> (is_finished b1 \<and> is_finished b2 \<and> is_finished b3 \<and> is_finished b4)
         then Inl (Err (HufError HufNotConsumed))
         else Inr out))))))))))))"

section \<open>Containers with a sentinel\<close>

text \<open>The container of a fast stream that has consumed \<open>c\<close> bits of the eight bytes at \<open>ip\<close>.\<close>

definition fast_word :: "u8 list \<Rightarrow> nat \<Rightarrow> nat \<Rightarrow> u64" where
  "fast_word src ip c = push_bit c (word_of_nat (le_nat (take 8 (drop ip src))) OR 1)"

lemma trailing_zeros_fast: "c < 64 \<Longrightarrow> trailing_zeros (fast_word src ip c) = c"
proof -
  assume c: "c < 64"
  let ?w = "fast_word src ip c"
  define v :: u64 where "v = word_of_nat (le_nat (take 8 (drop ip src))) OR 1"
  have v: "?w = push_bit c v" "bit v 0" by (simp_all only: fast_word_def v_def, simp add: bit_or_iff)
  have l: "\<not> bit ?w i" if "i < c" for i using that unfolding v by (simp add: bit_push_bit_iff)
  have b: "bit ?w c" using c v(2) unfolding v by (simp add: bit_push_bit_iff)
  have "[0..<64] = [0..<c] @ c # [Suc c..<64]"
    using c upt_add_eq_append [of 0 c "64 - c"] upt_conv_Cons [of c 64] by simp
  moreover have "takeWhile (\<lambda>i. \<not> bit ?w i) ([0..<c] @ c # [Suc c..<64]) = [0..<c] @ takeWhile (\<lambda>i. \<not> bit ?w i) (c # [Suc c..<64])"
    by (rule takeWhile_append2) (use l in auto)
  ultimately have "takeWhile (\<lambda>i. \<not> bit ?w i) [0..<64] = [0..<c]"
    using b by (simp del: upt_rec_numeral)
  then show ?thesis by (simp add: trailing_zeros_def del: upt_rec_numeral)
qed

lemma fast_word_push: "push_bit b (fast_word src ip c) = fast_word src ip (c + b)"
  unfolding fast_word_def push_bit_push_bit by (simp only: add.commute)

lemma drop_bit_or1: "0 < k \<Longrightarrow> drop_bit k (n OR 1) = drop_bit k (n::nat)"
proof -
  assume "0 < k"
  then have "drop_bit k (1::nat) = 0" by (cases k) (simp_all add: drop_bit_Suc)
  then show ?thesis by (simp add: drop_bit_or)
qed

lemma fast_lookup:
  assumes "c \<le> 52"
  shows "unat (drop_bit 53 (fast_word src ip c)) = take_bit 11 (drop_bit (8 * ip + 53 - c) (le_nat src))"
proof -
  let ?w = "word_of_nat (le_nat (take 8 (drop ip src))) :: u64"
  have "unat (drop_bit 53 (fast_word src ip c)) = drop_bit (64 - 11) (take_bit 64 (push_bit c (unat (?w OR 1))))"
    unfolding fast_word_def unat_drop_bit_eq unsigned_push_bit_eq by simp
  also have "\<dots> = take_bit 11 (drop_bit (64 - c - 11) (unat (?w OR 1)))"
    using assms by (intro window_look) auto
  also have "drop_bit (64 - c - 11) (unat (?w OR 1)) = drop_bit (64 - c - 11) (unat ?w)"
    unfolding unsigned_or_eq using drop_bit_or1 [of "64 - c - 11" "unat ?w"] assms by simp
  also have "take_bit 11 (drop_bit (64 - c - 11) (unat ?w)) = take_bit 11 (drop_bit (64 - c - 11 + 8 * ip) (le_nat src))"
    unfolding load_window using assms by (simp add: drop_bit_take_bit take_bit_take_bit min_def)
  also have "64 - c - 11 + 8 * ip = 8 * ip + 53 - c" using assms by simp
  finally show ?thesis .
qed

text \<open>Such a lookup agrees with the stream \<open>src[a..b]\<close> on the bits the stream still has.\<close>

lemma le_nat_slice: "le_nat (take n (drop a src)) = take_bit (8 * n) (drop_bit (8 * a) (le_nat src))"
  by (simp add: le_nat_take le_nat_drop take_bit_eq_mod drop_bit_eq_div power_256)

lemma fast_agrees:
  assumes c: "c \<le> 52" and ip: "ip + 8 \<le> b" and ab: "a \<le> b"
  shows "agrees (le_nat (take (b - a) (drop a src))) (8 * int ip + 64 - int c - 8 * int a)
    (unat (drop_bit 53 (fast_word src ip c))) 11"
  unfolding agrees_def
proof
  let ?NS = "le_nat src" and ?N = "le_nat (take (b - a) (drop a src))" and ?l = "8 * int ip + 64 - int c - 8 * int a"
  assume l: "0 \<le> ?l"
  define p where "p = nat ?l"
  have pa: "p + 8 * a = 8 * ip + 64 - c" using l c by (simp add: p_def)
  have pb: "p \<le> 8 * (b - a)" using pa ip ab c by linarith
  let ?V = "unat (drop_bit 53 (fast_word src ip c))"
  have V: "?V = take_bit 11 (drop_bit (p + 8 * a - 11) ?NS)"
    unfolding fast_lookup [OF c] pa using c by (simp add: add.commute)
  show "?V div 2 ^ (11 - min (nat ?l) 11) = peek ?N (nat ?l) div 2 ^ (11 - min (nat ?l) 11)"
  proof (cases "11 \<le> p")
    case True
    then have "peek ?N p = take_bit 11 (drop_bit (p - 11) (take_bit (8 * (b - a)) (drop_bit (8 * a) ?NS)))"
      by (simp add: peek_high le_nat_slice)
    also have "\<dots> = take_bit 11 (drop_bit (p - 11 + 8 * a) ?NS)"
    proof -
      have "min (8 * (b - a) - (p - 11)) 11 = 11" using True pb by linarith
      then show ?thesis by (simp add: drop_bit_take_bit take_bit_take_bit min.commute)
    qed
    finally have "peek ?N p = ?V" unfolding V using True by simp
    then show ?thesis by (simp add: p_def)
  next
    case False
    have "peek ?N p div 2 ^ (11 - p) = take_bit p ?N" using False by (simp add: peek_low take_bit_eq_mod)
    also have "\<dots> = take_bit p (drop_bit (8 * a) ?NS)" unfolding le_nat_slice take_bit_take_bit using pb by (simp add: min_def)
    finally have P: "peek ?N p div 2 ^ (11 - p) = take_bit p (drop_bit (8 * a) ?NS)" .
    have a11: "11 \<le> p + 8 * a" using pa c by linarith
    have "?V div 2 ^ (11 - p) = drop_bit (11 - p) (take_bit 11 (drop_bit (p + 8 * a - 11) ?NS))"
      unfolding V by (simp add: drop_bit_eq_div)
    also have "\<dots> = take_bit p (drop_bit (11 - p + (p + 8 * a - 11)) ?NS)" using False by (simp add: drop_bit_take_bit)
    also have "11 - p + (p + 8 * a - 11) = 8 * a" using a11 False by simp
    finally show ?thesis using P False by (simp add: p_def min_def)
  qed
qed

section \<open>A lane of the fast loops\<close>

text \<open>Section layouts \<open>streams_split\<close> returns.\<close>

definition layout :: "u8 list \<Rightarrow> nat \<Rightarrow> huf_streams \<Rightarrow> bool" where
  "layout src n st \<longleftrightarrow> length (istart st) = 4 \<and> length (iend st) = 4 \<and> segment st = (n + 3) div 4 \<and> 3 * segment st \<le> n
     \<and> (\<forall>s < 4. istart st ! s \<le> iend st ! s \<and> iend st ! s \<le> length src)"

lemma all4: "(\<forall>s < (4::nat). P s) \<longleftrightarrow> P 0 \<and> P 1 \<and> P 2 \<and> P 3"
  by (auto simp: numeral_eq_Suc less_Suc_eq)

lemma streams_split_layout: "streams_split src n = Inr st \<Longrightarrow> layout src n st"
  unfolding streams_split_def layout_def all4 Let_def by (auto split: if_splits)

definition bytes_of :: "huf_streams \<Rightarrow> u8 list \<Rightarrow> nat \<Rightarrow> u8 list" where
  "bytes_of st src s = take (iend st ! s - istart st ! s) (drop (istart st ! s) src)"

lemma stream_of_ok: "layout src n st \<Longrightarrow> s < 4 \<Longrightarrow> stream_of st src s = Inr (bytes_of st src s)"
  by (simp add: layout_def stream_of_def bytes_of_def)

text \<open>Where the segment of a stream ends.\<close>

definition seg_end :: "huf_streams \<Rightarrow> nat \<Rightarrow> nat \<Rightarrow> nat" where
  "seg_end st n s = (if s < 3 then (s + 1) * segment st else n)"

lemma segment_end_eq:
  assumes "layout src n st" and "s < 4"
  shows "segment_end st s n = seg_end st n s" and "s * segment st \<le> seg_end st n s" and "seg_end st n s \<le> n"
proof -
  have b: "3 * segment st \<le> n" "n \<le> 4 * segment st" using assms(1) by (auto simp: layout_def)
  have "s = 0 \<or> s = 1 \<or> s = 2 \<or> s = 3" using assms(2) by linarith
  then show "segment_end st s n = seg_end st n s" "s * segment st \<le> seg_end st n s" "seg_end st n s \<le> n"
    using b by (auto simp: segment_end_def seg_end_def)
qed

text \<open>The position of a fast stream within its bytes, after \<open>c\<close> bits of the container.\<close>

definition lane_left :: "huf_streams \<Rightarrow> nat \<Rightarrow> fast_stream \<Rightarrow> nat \<Rightarrow> int" where
  "lane_left st s f c = 8 * int (fs_ip f) + 64 - int c - 8 * int (istart st ! s)"

text \<open>Stream \<open>s\<close> has decoded its segment up to \<open>q\<close> and at most \<open>m\<close> bits of its container.\<close>

definition lane_ok :: "(nat \<times> nat) list \<Rightarrow> huf_streams \<Rightarrow> u8 list \<Rightarrow> nat \<Rightarrow> fast_stream \<Rightarrow> u8 list \<Rightarrow> nat \<Rightarrow> nat \<Rightarrow> bool" where
  "lane_ok X st src s f out m q \<longleftrightarrow>
     (\<exists>c \<le> m. fs_bits f = fast_word src (fs_ip f) c \<and> fs_ip f + 8 \<le> iend st ! s
        \<and> s * segment st \<le> q \<and> q \<le> seg_end st (length out) s
        \<and> decodes X (le_nat (bytes_of st src s)) (int (bit_length (le_nat (bytes_of st src s))) - 1)
            (take (q - s * segment st) (drop (s * segment st) out)) (lane_left st s f c))"

text \<open>Writes to other segments do not matter.\<close>

lemma lane_ok_frame:
  assumes "lane_ok X st src s f out m q" and "length out' = length out"
    and "\<And>i. s * segment st \<le> i \<Longrightarrow> i < q \<Longrightarrow> out' ! i = out ! i" and "q \<le> length out"
  shows "lane_ok X st src s f out' m q"
proof -
  have "take (q - s * segment st) (drop (s * segment st) out') = take (q - s * segment st) (drop (s * segment st) out)"
    using assms(2,3,4) by (intro nth_equalityI) auto
  then show ?thesis using assms(1,2) by (simp add: lane_ok_def)
qed

lemma segments_apart:
  assumes lay: "layout src n st" and "s < 4" "j < 4" "s \<noteq> j" and i: "j * segment st \<le> i" "i < seg_end st n j"
  shows "i < s * segment st \<or> seg_end st n s \<le> i"
proof (cases "j < s")
  case True
  then have "j < 3" using assms(2) by simp
  then have "i < (j + 1) * segment st" using i(2) by (simp add: seg_end_def)
  also have "\<dots> \<le> s * segment st" using True by (intro mult_le_mono1) simp
  finally show ?thesis ..
next
  case False
  then have "s < 3" "s + 1 \<le> j" using assms(3,4) by auto
  then have "seg_end st n s \<le> j * segment st" unfolding seg_end_def using mult_le_mono1 [of "s + 1" j "segment st"] by simp
  then show ?thesis using i(1) by simp
qed

lemma lane_ok_other:
  assumes lay: "layout src (length out) st" and ok: "lane_ok X st src s f out m q" and "s < 4" "j < 4" "s \<noteq> j"
    and out': "length out' = length out" "\<And>i. i < j * segment st \<or> seg_end st (length out) j \<le> i \<Longrightarrow> out' ! i = out ! i"
  shows "lane_ok X st src s f out' m q"
proof (rule lane_ok_frame [OF ok out'(1)])
  have q: "q \<le> seg_end st (length out) s" using ok by (auto simp: lane_ok_def)
  then show "q \<le> length out" using segment_end_eq(3) [OF lay assms(3)] by simp
  show "out' ! i = out ! i" if "s * segment st \<le> i" "i < q" for i
    using segments_apart [OF lay assms(4,3)] assms(5) that q by (intro out'(2)) auto
qed

lemma lane_symbol_x1:
  assumes cc: "complete_code ws k" and len: "length ws \<le> 256" and lay: "layout src (length out) st" and s: "s < 4"
    and ok: "lane_ok (x1_ref ws k) st src s f out m q" and m: "m \<le> 52" and q: "q < seg_end st (length out) s"
  shows "\<exists>a b. table_entry (map mk_entry (x1_ref ws k)) (unat (drop_bit 53 (fs_bits f))) = Inr \<lparr>he_symbol = a, he_num_bits = b\<rparr>
    \<and> lane_ok (x1_ref ws k) st src s (f\<lparr>fs_bits := push_bit (unat b) (fs_bits f)\<rparr>) (out[q := a]) (m + 11) (q + 1)"
proof -
  let ?X = "x1_ref ws k" and ?N = "le_nat (bytes_of st src s)"
  from ok obtain c where c: "c \<le> m" "fs_bits f = fast_word src (fs_ip f) c" "fs_ip f + 8 \<le> iend st ! s" "s * segment st \<le> q"
    "decodes ?X ?N (int (bit_length ?N) - 1) (take (q - s * segment st) (drop (s * segment st) out)) (lane_left st s f c)"
    by (auto simp: lane_ok_def)
  let ?V = "unat (drop_bit 53 (fs_bits f))"
  have V: "?V < 2048" using fast_lookup [of c src "fs_ip f"] c m by (simp add: take_bit_eq_mod)
  have ag: "agrees ?N (lane_left st s f c) ?V 11"
    unfolding c(2) lane_left_def bytes_of_def using c m lay s by (intro fast_agrees) (auto simp: layout_def)
  from x1_ref_entry [OF cc V] obtain x b where e: "?X ! ?V = (x, b)" "b \<le> 11" by metis
  have l: "length ?X = 2048" using length_x1_ref [OF cc] x1_ref_upto [OF cc] by simp
  have "q < length out" using q segment_end_eq(3) [OF lay s] by simp
  then have "take (q + 1 - s * segment st) (drop (s * segment st) (out[q := word_of_nat x]))
      = take (q - s * segment st) (drop (s * segment st) out) @ [word_of_nat x]"
    using c(4) by (simp add: Suc_diff_le take_Suc_conv_app_nth drop_update_swap)
  then have d: "decodes ?X ?N (int (bit_length ?N) - 1) (take (q + 1 - s * segment st) (drop (s * segment st) (out[q := word_of_nat x])))
      (lane_left st s f c - int b)"
    using decodes_trans [OF c(5) decodes_symbol [OF cc len V e(1) ag e(2)]] by simp
  have "unat (word_of_nat b :: u8) = b" using e(2) by (simp add: unat_of_nat)
  then have "lane_ok ?X st src s (f\<lparr>fs_bits := push_bit (unat (word_of_nat b :: u8)) (fs_bits f)\<rparr>) (out[q := word_of_nat x]) (m + 11) (q + 1)"
    unfolding lane_ok_def using c d e(2) q
    by (intro exI [of _ "c + b"]) (auto simp: fast_word_push lane_left_def algebra_simps)
  then show ?thesis using V l e(1) by (intro exI) (auto simp: table_entry_def mk_entry_def)
qed

text \<open>A refill keeps the position and leaves at most seven bits consumed.\<close>

lemma lane_refill:
  assumes lay: "layout src (length out) st" and s: "s < 4"
    and ok: "lane_ok X st src s (a s) out m q" and m: "m \<le> 63" and ip: "7 \<le> fs_ip (a s)"
  shows "\<exists>f. fast_refill src s (a, out) = Inr (a(s := f), out) \<and> fs_op f = fs_op (a s) \<and> fs_ip (a s) \<le> fs_ip f + 7 \<and> lane_ok X st src s f out 7 q"
proof -
  let ?N = "le_nat (bytes_of st src s)"
  from ok obtain c where c: "c \<le> m" "fs_bits (a s) = fast_word src (fs_ip (a s)) c" "fs_ip (a s) + 8 \<le> iend st ! s" "s * segment st \<le> q"
    "q \<le> seg_end st (length out) s"
    "decodes X ?N (int (bit_length ?N) - 1) (take (q - s * segment st) (drop (s * segment st) out)) (lane_left st s (a s) c)"
    by (auto simp: lane_ok_def)
  have tz: "trailing_zeros (fs_bits (a s)) = c" using c(1,2) m trailing_zeros_fast by simp
  have c7: "c div 8 \<le> 7" using c(1) m by linarith
  define ip where "ip = fs_ip (a s) - c div 8"
  define f where "f = (a s)\<lparr>fs_ip := ip, fs_bits := fast_word src ip (c mod 8)\<rparr>"
  have "ip + 8 \<le> length src" using c(3) lay s unfolding ip_def layout_def by (metis (no_types, lifting) add_le_mono1 diff_le_self le_trans)
  then have r: "fast_refill src s (a, out) = Inr (a(s := f), out)"
    using tz c7 ip by (simp add: fast_refill_def Let_def read_le64_unchecked_def f_def fast_word_def flip: ip_def)
  have "lane_left st s f (c mod 8) = lane_left st s (a s) c"
    using c7 ip by (simp add: lane_left_def f_def ip_def of_nat_diff) presburger
  moreover have "c mod 8 < 8" by simp
  ultimately have "lane_ok X st src s f out 7 q"
    unfolding lane_ok_def using c by (intro exI [of _ "c mod 8"]) (auto simp: f_def ip_def)
  then show ?thesis using r c7 by (auto simp: f_def ip_def)
qed

section \<open>The fast single-symbol loop\<close>

text \<open>All lanes have written \<open>d\<close> symbols in whole iterations and lane \<open>j\<close> another \<open>K j\<close>.\<close>

definition lanes_x1 :: "(nat \<times> nat) list \<Rightarrow> huf_streams \<Rightarrow> u8 list \<Rightarrow> nat \<Rightarrow> (nat \<Rightarrow> nat) \<Rightarrow> fast_state \<Rightarrow> bool" where
  "lanes_x1 X st src d K fs = (case fs of (a, out) \<Rightarrow> \<forall>j < 4. fs_op (a j) = j * segment st + d
     \<and> lane_ok X st src j (a j) out (8 + 11 * K j) (j * segment st + d + K j))"

text \<open>A schedule that continues every lane where it is.\<close>

fun order_ok :: "(nat \<Rightarrow> nat) \<Rightarrow> (nat \<times> nat) list \<Rightarrow> bool" where
  "order_ok K [] \<longleftrightarrow> (\<forall>j < 4. K j = 5)"
| "order_ok K ((s, i) # r) \<longleftrightarrow> s < 4 \<and> i = K s \<and> i < 5 \<and> order_ok (K(s := i + 1)) r"

lemma fast_x1_order_ok: "order_ok (\<lambda>_. 0) fast_x1_order"
  by (simp add: fast_x1_order_def all4)

lemma seg_room:
  assumes "layout src n st" and "j < 4" and "d + 5 \<le> n - 3 * segment st" and "i < 5"
  shows "j * segment st + d + i < seg_end st n j"
proof -
  have "n \<le> 4 * segment st" "3 * segment st \<le> n" using assms(1) by (auto simp: layout_def)
  moreover have "j < 3 \<or> j = 3" using assms(2) by linarith
  ultimately show ?thesis using assms(3,4) by (auto simp: seg_end_def)
qed

lemma fast_decodes_ok:
  assumes cc: "complete_code ws k" and len: "length ws \<le> 256"
    and "layout src (length out) st" and "d + 5 \<le> length out - 3 * segment st"
    and "lanes_x1 (x1_ref ws k) st src d K (a, out)" and "order_ok K sks"
  shows "\<exists>a' out'. fold_res (fast_decode_x1 (map mk_entry (x1_ref ws k))) sks (a, out) = Inr (a', out') \<and> length out' = length out
    \<and> (\<forall>j. fs_ip (a' j) = fs_ip (a j)) \<and> lanes_x1 (x1_ref ws k) st src d (\<lambda>_. 5) (a', out')"
  using assms(3-6)
proof (induction sks arbitrary: K a out)
  case Nil
  then show ?case by (simp add: lanes_x1_def)
next
  case (Cons sk sks)
  let ?X = "x1_ref ws k"
  obtain s i where sk: "sk = (s, i)" by (cases sk)
  have s: "s < 4" "i = K s" "i < 5" "order_ok (K(s := i + 1)) sks" using Cons.prems(4) by (auto simp: sk)
  define q where "q = s * segment st + d + i"
  have q: "q < seg_end st (length out) s" unfolding q_def by (rule seg_room [OF Cons.prems(1) s(1) Cons.prems(2) s(3)])
  have op: "fs_op (a s) = s * segment st + d" and ok: "lane_ok ?X st src s (a s) out (8 + 11 * i) q"
    using Cons.prems(3) s by (auto simp: lanes_x1_def q_def)
  have "8 + 11 * i \<le> 52" using s(3) by simp
  from lane_symbol_x1 [OF cc len Cons.prems(1) s(1) ok this q] obtain x b where
    e: "table_entry (map mk_entry ?X) (unat (drop_bit 53 (fs_bits (a s)))) = Inr \<lparr>he_symbol = x, he_num_bits = b\<rparr>"
    "lane_ok ?X st src s ((a s)\<lparr>fs_bits := push_bit (unat b) (fs_bits (a s))\<rparr>) (out[q := x]) (8 + 11 * i + 11) (q + 1)" by blast
  define a1 out1 where "a1 = a(s := (a s)\<lparr>fs_bits := push_bit (unat b) (fs_bits (a s))\<rparr>)" and "out1 = out[q := x]"
  have ql: "q < length out" using q segment_end_eq(3) [OF Cons.prems(1) s(1)] by simp
  have step: "fast_decode_x1 (map mk_entry ?X) sk (a, out) = Inr (a1, out1)"
    using e(1) ql op by (simp add: fast_decode_x1_def sk HUF_FAST_TABLE_LOG_def HUF_TABLELOG_MAX_def poke_def a1_def out1_def q_def)
  have "lanes_x1 ?X st src d (K(s := i + 1)) (a1, out1)"
    unfolding lanes_x1_def prod.case
  proof (intro allI impI)
    fix j :: nat
    assume j: "j < 4"
    show "fs_op (a1 j) = j * segment st + d \<and> lane_ok ?X st src j (a1 j) out1 (8 + 11 * (K(s := i + 1)) j) (j * segment st + d + (K(s := i + 1)) j)"
    proof (cases "j = s")
      case True
      then show ?thesis using e(2) op by (simp add: a1_def out1_def q_def algebra_simps)
    next
      case False
      have "lane_ok ?X st src j (a j) out (8 + 11 * K j) (j * segment st + d + K j)" "fs_op (a j) = j * segment st + d"
        using Cons.prems(3) j by (auto simp: lanes_x1_def)
      moreover have "out1 ! x = out ! x" if "x < s * segment st \<or> seg_end st (length out) s \<le> x" for x
        using that q by (auto simp: out1_def q_def nth_list_update)
      ultimately show ?thesis
        using lane_ok_other [OF Cons.prems(1) _ j s(1) False, of ?X "a j" "8 + 11 * K j" "j * segment st + d + K j" out1] False
        by (simp add: a1_def out1_def)
    qed
  qed
  moreover have "layout src (length out1) st" "d + 5 \<le> length out1 - 3 * segment st" using Cons.prems(1,2) by (auto simp: out1_def)
  ultimately obtain a' out' where
    "fold_res (fast_decode_x1 (map mk_entry ?X)) sks (a1, out1) = Inr (a', out')" "length out' = length out1"
    "\<forall>j. fs_ip (a' j) = fs_ip (a1 j)" "lanes_x1 ?X st src d (\<lambda>_. 5) (a', out')"
    using Cons.IH [of out1 "K(s := i + 1)" a1] s(4) by blast
  then show ?case using step by (simp add: out1_def a1_def)
qed

text \<open>After the symbols of an iteration, the lanes in \<open>todo\<close> still have to reload.\<close>

definition lanes_reload :: "(nat \<times> nat) list \<Rightarrow> huf_streams \<Rightarrow> u8 list \<Rightarrow> nat \<Rightarrow> nat set \<Rightarrow> fast_state \<Rightarrow> bool" where
  "lanes_reload X st src d todo fs = (case fs of (a, out) \<Rightarrow> \<forall>j < 4.
     if j \<in> todo then fs_op (a j) = j * segment st + d \<and> lane_ok X st src j (a j) out 63 (j * segment st + d + 5)
     else fs_op (a j) = j * segment st + d + 5 \<and> lane_ok X st src j (a j) out 7 (j * segment st + d + 5))"

lemma lane_ok_op: "lane_ok X st src s (f\<lparr>fs_op := x\<rparr>) out m q = lane_ok X st src s f out m q"
  by (simp add: lane_ok_def lane_left_def)

lemma fast_reloads_ok:
  assumes lay: "layout src (length out) st" and "lanes_reload X st src d (set ss) (a, out)" and "distinct ss" and "set ss \<subseteq> {..<4}"
    and "\<forall>j \<in> set ss. 7 \<le> fs_ip (a j)"
  shows "\<exists>a'. fold_res (fast_reload_x1 src) ss (a, out) = Inr (a', out) \<and> lanes_reload X st src d {} (a', out)
    \<and> (\<forall>j. fs_ip (a j) \<le> fs_ip (a' j) + (if j \<in> set ss then 7 else 0))"
  using assms(2-5)
proof (induction ss arbitrary: a)
  case Nil
  then show ?case by simp
next
  case (Cons s ss)
  define a0 where "a0 = a(s := (a s)\<lparr>fs_op := fs_op (a s) + 5\<rparr>)"
  have s: "s < 4" using Cons.prems(3) by simp
  have l: "fs_op (a s) = s * segment st + d" "lane_ok X st src s (a s) out 63 (s * segment st + d + 5)"
    using Cons.prems(1) s by (auto simp: lanes_reload_def)
  have "lane_ok X st src s (a0 s) out 63 (s * segment st + d + 5)" "7 \<le> fs_ip (a0 s)"
    using l(2) Cons.prems(4) by (auto simp: a0_def lane_ok_op)
  from lane_refill [where a = a0, OF lay s this(1) _ this(2)] obtain f where
    f: "fast_refill src s (a0, out) = Inr (a0(s := f), out)" "fs_op f = fs_op (a0 s)" "fs_ip (a0 s) \<le> fs_ip f + 7"
    "lane_ok X st src s f out 7 (s * segment st + d + 5)" by auto
  have step: "fast_reload_x1 src s (a, out) = Inr (a(s := f), out)"
    using f(1) by (simp add: fast_reload_x1_def a0_def)
  have "lanes_reload X st src d (set ss) (a(s := f), out)"
    unfolding lanes_reload_def prod.case
  proof (intro allI impI)
    fix j :: nat
    assume "j < 4"
    then show "if j \<in> set ss then fs_op ((a(s := f)) j) = j * segment st + d \<and> lane_ok X st src j ((a(s := f)) j) out 63 (j * segment st + d + 5)
        else fs_op ((a(s := f)) j) = j * segment st + d + 5 \<and> lane_ok X st src j ((a(s := f)) j) out 7 (j * segment st + d + 5)"
      using Cons.prems(1,2) f l by (auto simp: lanes_reload_def a0_def)
  qed
  moreover have "\<forall>j \<in> set ss. 7 \<le> fs_ip ((a(s := f)) j)" using Cons.prems(2,4) by auto
  ultimately obtain a' where
    "fold_res (fast_reload_x1 src) ss (a(s := f), out) = Inr (a', out)" "lanes_reload X st src d {} (a', out)"
    "\<forall>j. fs_ip ((a(s := f)) j) \<le> fs_ip (a' j) + (if j \<in> set ss then 7 else 0)"
    using Cons.IH [of "a(s := f)"] Cons.prems(2,3) unfolding distinct.simps list.simps insert_subset by blast
  moreover have "fs_ip (a j) \<le> fs_ip (a' j) + (if j \<in> set (s # ss) then 7 else 0)" for j
    using spec [OF calculation(3), of j] f(3) Cons.prems(2) by (cases "j = s") (auto simp: a0_def)
  ultimately show ?case using step by auto
qed

lemma lane_ok_mono: "lane_ok X st src s f out m q \<Longrightarrow> m \<le> m' \<Longrightarrow> lane_ok X st src s f out m' q"
  unfolding lane_ok_def by (meson le_trans)

lemma fast_x1_iter_ok:
  assumes cc: "complete_code ws k" and len: "length ws \<le> 256" and lay: "layout src (length out) st"
    and d: "d + 5 \<le> length out - 3 * segment st" and inv: "lanes_x1 (x1_ref ws k) st src d (\<lambda>_. 0) (a, out)"
    and ip: "\<forall>j < 4. 7 \<le> fs_ip (a j)"
  shows "\<exists>a' out'. fast_x1_iter src (map mk_entry (x1_ref ws k)) (a, out) = Inr (a', out') \<and> length out' = length out
    \<and> lanes_x1 (x1_ref ws k) st src (d + 5) (\<lambda>_. 0) (a', out') \<and> (\<forall>j < 4. fs_ip (a j) \<le> fs_ip (a' j) + 7)"
proof -
  let ?X = "x1_ref ws k"
  from fast_decodes_ok [OF cc len lay d inv fast_x1_order_ok] obtain a1 out1 where
    1: "fold_res (fast_decode_x1 (map mk_entry ?X)) fast_x1_order (a, out) = Inr (a1, out1)" "length out1 = length out"
    "\<forall>j. fs_ip (a1 j) = fs_ip (a j)" "lanes_x1 ?X st src d (\<lambda>_. 5) (a1, out1)" by blast
  have s4: "set [0, 1, 2, 3] = {..<4::nat}" by auto
  have "lanes_reload ?X st src d (set [0, 1, 2, 3]) (a1, out1)"
    unfolding s4 using 1(4) by (auto simp: lanes_x1_def lanes_reload_def)
  then obtain a2 where 2: "fold_res (fast_reload_x1 src) [0, 1, 2, 3] (a1, out1) = Inr (a2, out1)" "lanes_reload ?X st src d {} (a2, out1)"
    "\<forall>j. fs_ip (a1 j) \<le> fs_ip (a2 j) + (if j \<in> set [0, 1, 2, 3] then 7 else 0)"
    using fast_reloads_ok [of src out1 st ?X d "[0, 1, 2, 3]" a1] lay ip 1(2,3) by (fastforce simp: s4)
  have "lanes_x1 ?X st src (d + 5) (\<lambda>_. 0) (a2, out1)"
    using 2(2) by (auto simp: lanes_reload_def lanes_x1_def add.assoc intro: lane_ok_mono)
  moreover have "\<forall>j < 4. fs_ip (a j) \<le> fs_ip (a2 j) + 7" using 2(3) 1(3) unfolding s4 by (metis lessThan_iff)
  ultimately show ?thesis using 1(1,2) 2(1) by (simp add: fast_x1_iter_def)
qed

lemma fast_x1_inner_ok:
  assumes cc: "complete_code ws k" and len: "length ws \<le> 256" and "layout src (length out) st"
    and "lanes_x1 (x1_ref ws k) st src d (\<lambda>_. 0) (a, out)"
    and "d + 5 * Suc r \<le> length out - 3 * segment st" and "\<forall>j < 4. 7 * Suc r \<le> fs_ip (a j)" and "olimit = 3 * segment st + d + 5 * Suc r"
  shows "\<exists>a' out'. fast_x1_inner src (map mk_entry (x1_ref ws k)) olimit (a, out) = Inr (a', out') \<and> length out' = length out
    \<and> lanes_x1 (x1_ref ws k) st src (d + 5 * Suc r) (\<lambda>_. 0) (a', out')"
  using assms(3-7)
proof (induction r arbitrary: d a out)
  case 0
  have "d + 5 \<le> length out - 3 * segment st" "\<forall>j < 4. 7 \<le> fs_ip (a j)" using 0 by auto
  from fast_x1_iter_ok [OF cc len 0(1) this(1) 0(2) this(2)] obtain a' out' where
    "fast_x1_iter src (map mk_entry (x1_ref ws k)) (a, out) = Inr (a', out')" "length out' = length out"
    "lanes_x1 (x1_ref ws k) st src (d + 5) (\<lambda>_. 0) (a', out')" by blast
  moreover have "fs_op (a' 3) = 3 * segment st + d + 5" using calculation(3) by (simp add: lanes_x1_def)
  ultimately show ?case using 0 by (simp add: fast_x1_inner.simps)
next
  case (Suc r)
  have "d + 5 \<le> length out - 3 * segment st" "\<forall>j < 4. 7 \<le> fs_ip (a j)" using Suc.prems(3,4) by auto
  from fast_x1_iter_ok [OF cc len Suc.prems(1) this(1) Suc.prems(2) this(2)] obtain a1 out1 where
    1: "fast_x1_iter src (map mk_entry (x1_ref ws k)) (a, out) = Inr (a1, out1)" "length out1 = length out"
    "lanes_x1 (x1_ref ws k) st src (d + 5) (\<lambda>_. 0) (a1, out1)" "\<forall>j < 4. fs_ip (a j) \<le> fs_ip (a1 j) + 7" by blast
  have op: "fs_op (a1 3) = 3 * segment st + d + 5" using 1(3) by (simp add: lanes_x1_def)
  have "\<forall>j < 4. 7 * Suc r \<le> fs_ip (a1 j)" using Suc.prems(4) 1(4) by fastforce
  then obtain a' out' where 2: "fast_x1_inner src (map mk_entry (x1_ref ws k)) olimit (a1, out1) = Inr (a', out')" "length out' = length out"
    "lanes_x1 (x1_ref ws k) st src (d + 5 + 5 * Suc r) (\<lambda>_. 0) (a', out')"
    using Suc.IH [of out1 "d + 5" a1] Suc.prems(1,3,5) 1 by auto
  have "fast_x1_inner src (map mk_entry (x1_ref ws k)) olimit (a, out) = fast_x1_inner src (map mk_entry (x1_ref ws k)) olimit (a1, out1)"
    using 1(1) op Suc.prems(5) by (subst fast_x1_inner.simps) simp
  moreover have "d + 5 + 5 * Suc r = d + 5 * Suc (Suc r)" by simp
  ultimately show ?case using 2 by metis
qed

lemma fast_x1_loop_ok:
  assumes cc: "complete_code ws k" and len: "length ws \<le> 256" and "layout src (length out) st"
    and "lanes_x1 (x1_ref ws k) st src d (\<lambda>_. 0) (a, out)" and "d \<le> length out - 3 * segment st"
  shows "\<exists>a' out' d'. fast_x1_loop src (map mk_entry (x1_ref ws k)) (a, out) = Inr (a', out') \<and> length out' = length out
    \<and> d' \<le> length out - 3 * segment st \<and> lanes_x1 (x1_ref ws k) st src d' (\<lambda>_. 0) (a', out')"
  using assms(3-5)
proof (induction "length out - d" arbitrary: d a out rule: less_induct)
  case less
  let ?dt = "map mk_entry (x1_ref ws k)"
  have seg: "3 * segment st \<le> length out" using less.prems(1) by (simp add: layout_def)
  have op: "fs_op (a 3) = 3 * segment st + d" using less.prems(2) by (simp add: lanes_x1_def)
  define it where "it = min ((length out - fs_op (a 3)) div 5) (fs_ip (a 0) div 7)"
  have eq: "fast_x1_loop src ?dt (a, out) =
    (if it = 0 then Inr (a, out)
     else if fs_ip (a 1) < fs_ip (a 0) \<or> fs_ip (a 2) < fs_ip (a 1) \<or> fs_ip (a 3) < fs_ip (a 2) then Inr (a, out)
     else res_bind (fast_x1_inner src ?dt (fs_op (a 3) + it * 5) (a, out)) (fast_x1_loop src ?dt))"
  proof -
    have "\<not> length out < fs_op (a 3)" using op less.prems(3) seg by simp
    moreover have "fs_op (a 3) = fs_op (a 3) + it * 5 \<longleftrightarrow> it = 0" by simp
    ultimately show ?thesis
      unfolding fast_x1_loop.simps [of src ?dt "(a, out)"] Let_def fst_conv snd_conv it_def [symmetric] by simp
  qed
  show ?case
  proof (cases "it = 0 \<or> fs_ip (a 1) < fs_ip (a 0) \<or> fs_ip (a 2) < fs_ip (a 1) \<or> fs_ip (a 3) < fs_ip (a 2)")
    case True
    then have "fast_x1_loop src ?dt (a, out) = Inr (a, out)" unfolding eq by auto
    then show ?thesis using less.prems by blast
  next
    case False
    then obtain r where r: "it = Suc r" by (cases it) auto
    have "it * 5 \<le> (length out - fs_op (a 3)) div 5 * 5" "it * 7 \<le> fs_ip (a 0) div 7 * 7" unfolding it_def by auto
    then have b: "it * 5 \<le> length out - fs_op (a 3)" "it * 7 \<le> fs_ip (a 0)"
      by (meson div_times_less_eq_dividend le_trans)+
    have d1: "d + 5 * Suc r \<le> length out - 3 * segment st" using b(1) op r seg less.prems(3) by simp
    have ip: "\<forall>j < 4. 7 * Suc r \<le> fs_ip (a j)" unfolding all4 using b(2) False r by auto
    from fast_x1_inner_ok [OF cc len less.prems(1,2) d1 ip refl] obtain a1 out1 where
      1: "fast_x1_inner src ?dt (3 * segment st + d + 5 * Suc r) (a, out) = Inr (a1, out1)" "length out1 = length out"
      "lanes_x1 (x1_ref ws k) st src (d + 5 * Suc r) (\<lambda>_. 0) (a1, out1)" by blast
    have "length out1 - (d + 5 * Suc r) < length out - d" "layout src (length out1) st" "d + 5 * Suc r \<le> length out1 - 3 * segment st"
      using 1(2) d1 less.prems(1) seg by auto
    from less.hyps [OF this(1,2) 1(3) this(3)] obtain a' out' d' where
      "fast_x1_loop src ?dt (a1, out1) = Inr (a', out')" "length out' = length out" "d' \<le> length out - 3 * segment st"
      "lanes_x1 (x1_ref ws k) st src d' (\<lambda>_. 0) (a', out')" unfolding 1(2) by blast
    moreover have "fast_x1_loop src ?dt (a, out) = fast_x1_loop src ?dt (a1, out1)"
      unfolding eq using False 1(1) op r by (simp add: mult.commute add.assoc)
    ultimately show ?thesis by metis
  qed
qed

section \<open>Handing over to the plain reader\<close>

text \<open>The specification of a section: four streams, each for its segment.\<close>

fun specs :: "(nat \<times> nat) list \<Rightarrow> huf_streams \<Rightarrow> u8 list \<Rightarrow> nat \<Rightarrow> nat list \<Rightarrow> u8 list option" where
  "specs X st src n [] = Some []"
| "specs X st src n (s # ss) =
     (case huf_spec X (bytes_of st src s) (seg_end st n s - s * segment st) of
        None \<Rightarrow> None
      | Some x \<Rightarrow> map_option ((@) x) (specs X st src n ss))"

definition huf_spec4 :: "(nat \<times> nat) list \<Rightarrow> u8 list \<Rightarrow> nat \<Rightarrow> u8 list option" where
  "huf_spec4 X src n = (case streams_split src n of Inl _ \<Rightarrow> None | Inr st \<Rightarrow> specs X st src n [0, 1, 2, 3])"

text \<open>A stream with an end mark.\<close>

definition marked :: "u8 list \<Rightarrow> bool" where
  "marked src \<longleftrightarrow> src \<noteq> [] \<and> last src \<noteq> 0"

lemma huf_spec_from:
  assumes m: "marked src" and d: "decodes X (le_nat src) (int (bit_length (le_nat src)) - 1) syms l" and n: "length syms \<le> n"
  shows "huf_spec X src n = map_option (\<lambda>r. syms @ map word_of_nat r) (ref_at X (le_nat src) l (n - length syms))"
proof -
  have "unat (last src) \<noteq> 0" using m by (simp add: marked_def unat_gt_0)
  then have "bit_length (unat (last src)) \<noteq> 0" by simp
  then have "0 < bit_length (le_nat src)" using bit_length_le_nat [of src] m unfolding marked_def by linarith
  then have l: "int (bit_length (le_nat src)) - 1 = int (bit_length (le_nat src) - 1)" by simp
  have "map (word_of_nat :: nat \<Rightarrow> u8) (map unat syms) = syms" by (simp add: comp_def)
  moreover have "huf_ref X (le_nat src) (bit_length (le_nat src) - 1) n = ref_at X (le_nat src) (int (bit_length (le_nat src) - 1)) n"
    by (simp add: ref_at_def)
  ultimately show ?thesis
    using d [unfolded decodes_def l, rule_format, of "n - length syms"] n m
    by (simp add: huf_spec_def marked_def option.map_comp comp_def)
qed

lemma remaining_ok:
  assumes lay: "layout src (length out) st" and s: "s < 4" and ok: "lane_ok X st src s (a s) out 63 q"
    and big: "8 \<le> iend st ! s - istart st ! s"
  shows "\<exists>l. decodes X (le_nat (bytes_of st src s)) (int (bit_length (le_nat (bytes_of st src s))) - 1)
        (take (q - s * segment st) (drop (s * segment st) out)) l
    \<and> (l < 0 \<and> huf_remaining_dstream a st s src = Inl (Err (HufError HufOverranStart))
       \<or> (\<exists>br. huf_remaining_dstream a st s src = Inr br \<and> ds_room 0 br \<and> ds_src br = bytes_of st src s \<and> ds_left br = l))"
proof -
  let ?N = "le_nat (bytes_of st src s)" and ?A = "istart st ! s" and ?B = "iend st ! s" and ?ip = "fs_ip (a s)"
  from ok obtain c where c: "c \<le> 63" "fs_bits (a s) = fast_word src ?ip c" "?ip + 8 \<le> ?B"
    "decodes X ?N (int (bit_length ?N) - 1) (take (q - s * segment st) (drop (s * segment st) out)) (lane_left st s (a s) c)"
    by (auto simp: lane_ok_def)
  have tz: "trailing_zeros (fs_bits (a s)) = c" using c(1,2) trailing_zeros_fast by simp
  have i: "index (istart st) s = Inr ?A" "stream_of st src s = Inr (bytes_of st src s)" "?B \<le> length src" "?A \<le> ?B"
    using lay s stream_of_ok [OF lay s] by (auto simp: layout_def)
  have lb: "length (bytes_of st src s) = ?B - ?A" using i(3,4) by (simp add: bytes_of_def)
  define ptr consumed where "ptr = (if ?A \<le> ?ip then ?ip - ?A else 0)" and "consumed = c + (if ?A \<le> ?ip then 0 else ?A - ?ip) * 8"
  have rem: "huf_remaining_dstream a st s src = (if ?ip + 8 < ?A \<or> 64 < consumed then Inl (Err (HufError HufOverranStart))
      else res_bind (read_le64 (bytes_of st src s) ptr) (\<lambda>w.
       Inr \<lparr>ds_src = bytes_of st src s, ds_ptr = ptr, container = w, bits_consumed = consumed\<rparr>))"
    unfolding huf_remaining_dstream_def i res_bind_simps Let_def tz by (auto simp: ptr_def consumed_def)
  have left: "lane_left st s (a s) c = 8 * int ptr + 64 - int consumed"
    by (auto simp: lane_left_def ptr_def consumed_def of_nat_diff)
  show ?thesis
  proof (intro exI [of _ "lane_left st s (a s) c"] conjI c(4))
    show "lane_left st s (a s) c < 0 \<and> huf_remaining_dstream a st s src = Inl (Err (HufError HufOverranStart)) \<or>
      (\<exists>br. huf_remaining_dstream a st s src = Inr br \<and> ds_room 0 br \<and> ds_src br = bytes_of st src s \<and> ds_left br = lane_left st s (a s) c)"
    proof (cases "?ip + 8 < ?A \<or> 64 < consumed")
      case True
      then have "lane_left st s (a s) c < 0"
      proof
        assume "64 < consumed"
        then show ?thesis using c(1) unfolding left by (auto simp: ptr_def consumed_def split: if_splits)
      next
        assume "?ip + 8 < ?A"
        then show ?thesis by (simp add: lane_left_def)
      qed
      then show ?thesis using rem True by simp
    next
      case False
      have "ptr + 8 \<le> length (bytes_of st src s)" using c(3) big by (auto simp: lb ptr_def)
      from read_le64_window [OF this] obtain w where
        w: "read_le64 (bytes_of st src s) ptr = Inr w" "unat w = take_bit 64 (drop_bit (8 * ptr) ?N)" by blast
      then show ?thesis
        using rem False \<open>ptr + 8 \<le> _\<close> unfolding left by (simp add: ds_room_def ds_inv_def ds_left_def)
    qed
  qed
qed

section \<open>Finishing the lanes\<close>

text \<open>The table's code as the specification sees it.\<close>

definition code_cells :: "huffman_table \<Rightarrow> (nat \<times> nat) list" where
  "code_cells t = x1_ref (take (nb_symbols t) (weights t)) (max_num_bits t)"

text \<open>A decoder of one stream: what the four-stream drivers rely on.\<close>

locale stream_decoder =
  fixes built :: "huffman_table \<Rightarrow> bool"
    and dec :: "huffman_table \<Rightarrow> u8 list \<Rightarrow> bit_dstream \<Rightarrow> (bit_dstream \<times> u8 list) res"
  assumes dec_ok: "built t \<Longrightarrow> ds_room 0 br \<Longrightarrow>
    \<exists>br' out'. dec t out br = Inr (br', out') \<and> ds_room 0 br' \<and> ds_src br' = ds_src br \<and> length out' = length out
      \<and> decodes (code_cells t) (le_nat (ds_src br)) (ds_left br) out' (ds_left br')"
begin

text \<open>Decoding the rest of a segment from a reader that stands where the segment's symbols so far lead.\<close>

lemma dec_rest:
  assumes "built t" and "ds_room 0 br" and "ds_src br = src" and "marked src"
    and d: "decodes (code_cells t) (le_nat src) (int (bit_length (le_nat src)) - 1) syms (ds_left br)"
  shows "\<exists>br' out'. dec t out br = Inr (br', out') \<and> ds_room 0 br' \<and> length out' = length out
    \<and> huf_spec (code_cells t) src (length syms + length out) = (if is_finished br' then Some (syms @ out') else None)"
proof -
  from dec_ok [OF assms(1,2), of out] obtain br' out' where
    1: "dec t out br = Inr (br', out')" "ds_room 0 br'" "length out' = length out"
    "decodes (code_cells t) (le_nat src) (ds_left br) out' (ds_left br')" unfolding assms(3) by blast
  have "map (word_of_nat :: nat \<Rightarrow> u8) (map unat out') = out'" by (simp add: comp_def)
  then have "huf_spec (code_cells t) src (length syms + length out) = (if is_finished br' then Some (syms @ out') else None)"
    using huf_spec_from [OF assms(4) d, of "length syms + length out"] decodes_end [OF 1(4)] 1(3) finished_iff [OF 1(2)] by simp
  then show ?thesis using 1 by blast
qed

end

text \<open>Both stream decoders are such decoders.\<close>

definition x1_ready :: "huffman_table \<Rightarrow> bool" where
  "x1_ready t \<longleftrightarrow> huffman_complete t \<and> huffman_inv t \<and> x1_built t"

definition x2_ready :: "huffman_table \<Rightarrow> bool" where
  "x2_ready t \<longleftrightarrow> huffman_complete t \<and> huffman_inv t \<and> x2_built t"

lemma ready_code:
  assumes "huffman_complete t" and "huffman_inv t"
  shows "complete_code (take (nb_symbols t) (weights t)) (max_num_bits t)" "length (take (nb_symbols t) (weights t)) \<le> 256"
  using assms by (auto simp: huffman_complete_def huffman_inv_def Let_def)

interpretation dec1: stream_decoder x1_ready "\<lambda>t out br. huf_decode_stream_x1 out br (decode t)"
proof
  fix t br out
  assume t: "x1_ready t" and r: "ds_room 0 br"
  then have c: "huffman_complete t" "huffman_inv t" "decode t = map mk_entry (code_cells t)"
    by (auto simp: x1_ready_def x1_built_def code_cells_def)
  show "\<exists>br' out'. huf_decode_stream_x1 out br (decode t) = Inr (br', out') \<and> ds_room 0 br' \<and> ds_src br' = ds_src br
      \<and> length out' = length out \<and> decodes (code_cells t) (le_nat (ds_src br)) (ds_left br) out' (ds_left br')"
    unfolding c(3) code_cells_def by (rule stream_x1_ok [OF ready_code [OF c(1,2)] r])
qed

interpretation dec2: stream_decoder x2_ready "\<lambda>t out br. huf_decode_stream_x2 out br (decode_x2 t) t"
proof
  fix t br out
  assume t: "x2_ready t" and r: "ds_room 0 br"
  then have c: "huffman_complete t" "huffman_inv t" "decode_x2 t = map (x2_ref (code_cells t)) [0..<2048]" "length (weights t) = 256"
    by (auto simp: x2_ready_def x2_built_def code_cells_def huffman_inv_def)
  show "\<exists>br' out'. huf_decode_stream_x2 out br (decode_x2 t) t = Inr (br', out') \<and> ds_room 0 br' \<and> ds_src br' = ds_src br
      \<and> length out' = length out \<and> decodes (code_cells t) (le_nat (ds_src br)) (ds_left br) out' (ds_left br')"
    unfolding c(3) code_cells_def by (rule stream_x2_ok [OF ready_code [OF c(1,2)] r refl refl c(4)])
qed

end
