(* ===== verification/Huffman_Four_Correct.thy ===== *)
theory Huffman_Four_Correct
  imports Huffman_Four
begin

text \<open>
  Four-stream Huffman sections meet their specification: each of the four streams decodes its segment, as
  if it were decoded alone symbol by symbol.  First the part after a fast loop, which both table kinds share
  through the interface of a stream decoder; then the single-symbol driver.
\<close>

section \<open>Finishing the lanes\<close>

text \<open>The segment of stream \<open>s\<close>.\<close>

definition seg_of :: "huf_streams \<Rightarrow> u8 list \<Rightarrow> nat \<Rightarrow> u8 list" where
  "seg_of st out s = take (seg_end st (length out) s - s * segment st) (drop (s * segment st) out)"

text \<open>The two finishing loops differ in the stream decoder only.\<close>

fun finish_with :: "(u8 list \<Rightarrow> bit_dstream \<Rightarrow> (bit_dstream \<times> u8 list) res) \<Rightarrow> huf_streams \<Rightarrow> u8 list \<Rightarrow> fast_args \<Rightarrow> nat list
    \<Rightarrow> u8 list \<Rightarrow> u8 list res" where
  "finish_with dec st src args [] out = Inr out"
| "finish_with dec st src args (s # ss) out =
     (let till = segment_end st s (length out) in
      if till < fs_op (args s) then Inl (Err (HufError HufOverranSegment))
      else
      res_bind (huf_remaining_dstream args st s src) (\<lambda>br.
      res_bind (slice out (fs_op (args s)) till) (\<lambda>w.
      res_bind (dec w br) (\<lambda>(br, w).
      if \<not> is_finished br then Inl (Err (HufError HufNotConsumed))
      else res_bind (copy_into out (fs_op (args s)) w) (finish_with dec st src args ss)))))"

lemma finish_x1_with: "finish_x1 st src dt args ss = finish_with (\<lambda>w br. huf_decode_stream_x1 w br dt) st src args ss"
proof (induction ss)
  case (Cons s ss)
  show ?case unfolding finish_x1.simps finish_with.simps Cons.IH fun_eq_iff by simp
qed (simp add: fun_eq_iff)

lemma finish_x2_with: "finish_x2 st src dt t args ss = finish_with (\<lambda>w br. huf_decode_stream_x2 w br dt t) st src args ss"
proof (induction ss)
  case (Cons s ss)
  show ?case unfolding finish_x2.simps finish_with.simps Cons.IH fun_eq_iff by simp
qed (simp add: fun_eq_iff)

lemma seg_of_put:
  assumes "s * segment st \<le> q" and "q + length w = seg_end st (length out) s" and "seg_end st (length out) s \<le> length out"
  shows "seg_of st (put_slice out q w) s = take (q - s * segment st) (drop (s * segment st) out) @ w"
proof -
  have "length (put_slice out q w) = length out" using assms by simp
  then have "seg_of st (put_slice out q w) s = drop (s * segment st) (take (q + length w) (put_slice out q w))"
    unfolding seg_of_def assms(2) by (simp add: drop_take)
  also have "\<dots> = drop (s * segment st) (take q out @ w)" using take_put_slice [of q out w] assms by simp
  finally show ?thesis using assms by (simp add: drop_take)
qed

lemma put_slice_outside:
  assumes "q + length w \<le> length out" and "i < q \<or> q + length w \<le> i"
  shows "put_slice out q w ! i = out ! i"
  using assms by (auto simp: put_slice_def nth_append)

text \<open>The streams of a section each lane of which stands somewhere in its segment.\<close>

definition lanes_at :: "(nat \<times> nat) list \<Rightarrow> huf_streams \<Rightarrow> u8 list \<Rightarrow> fast_args \<Rightarrow> u8 list \<Rightarrow> nat set \<Rightarrow> bool" where
  "lanes_at X st src args out S \<longleftrightarrow> (\<forall>s \<in> S. s < 4 \<and> 8 \<le> iend st ! s - istart st ! s \<and> marked (bytes_of st src s)
     \<and> lane_ok X st src s (args s) out 63 (fs_op (args s)))"

definition seg_spec :: "(nat \<times> nat) list \<Rightarrow> huf_streams \<Rightarrow> u8 list \<Rightarrow> nat \<Rightarrow> nat \<Rightarrow> u8 list option" where
  "seg_spec X st src n s = huf_spec X (bytes_of st src s) (seg_end st n s - s * segment st)"

context stream_decoder
begin

lemma finish_lane:
  assumes t: "built t" and lay: "layout src (length out) st" and ok: "lanes_at (code_cells t) st src args out {s}"
  shows "seg_spec (code_cells t) st src (length out) s = None
      \<and> (\<exists>e. \<forall>ss. finish_with (dec t) st src args (s # ss) out = Inl (Err (HufError e)))
    \<or> (\<exists>out'. length out' = length out \<and> seg_spec (code_cells t) st src (length out) s = Some (seg_of st out' s)
        \<and> (\<forall>i. i < s * segment st \<or> seg_end st (length out) s \<le> i \<longrightarrow> out' ! i = out ! i)
        \<and> (\<forall>ss. finish_with (dec t) st src args (s # ss) out = finish_with (dec t) st src args ss out'))"
proof -
  let ?X = "code_cells t" and ?b = "bytes_of st src s" and ?q = "fs_op (args s)" and ?A = "s * segment st"
  let ?E = "seg_end st (length out) s" and ?pre = "take (?q - ?A) (drop ?A out)"
  from ok have o: "s < 4" "8 \<le> iend st ! s - istart st ! s" "marked ?b" "lane_ok ?X st src s (args s) out 63 ?q"
    by (auto simp: lanes_at_def)
  from o(4) have q: "?A \<le> ?q" "?q \<le> ?E" by (auto simp: lane_ok_def)
  note e = segment_end_eq [OF lay o(1)]
  have pl: "length ?pre = ?q - ?A" using q e by simp
  have n: "?E - ?A = length ?pre + (?E - ?q)" using q pl by simp
  from remaining_ok [where a = args, OF lay o(1) o(4) o(2)] obtain l where
    d: "decodes ?X (le_nat ?b) (int (bit_length (le_nat ?b)) - 1) ?pre l" and
    r: "l < 0 \<and> huf_remaining_dstream args st s src = Inl (Err (HufError HufOverranStart))
       \<or> (\<exists>br. huf_remaining_dstream args st s src = Inr br \<and> ds_room 0 br \<and> ds_src br = ?b \<and> ds_left br = l)" by blast
  show ?thesis
  proof (cases "l < 0 \<and> huf_remaining_dstream args st s src = Inl (Err (HufError HufOverranStart))")
    case True
    then have "seg_spec ?X st src (length out) s = None"
      using huf_spec_from [OF o(3) d, of "?E - ?A"] pl n by (simp add: seg_spec_def ref_at_def)
    then show ?thesis using True q(2) e(1) by (auto simp: Let_def)
  next
    case False
    then obtain br where br: "huf_remaining_dstream args st s src = Inr br" "ds_room 0 br" "ds_src br = ?b" "ds_left br = l" using r by blast
    define w0 where "w0 = take (?E - ?q) (drop ?q out)"
    have w0: "slice out ?q ?E = Inr w0" "length w0 = ?E - ?q" using q e by (auto simp: w0_def)
    from dec_rest [OF t br(2,3) o(3) d [folded br(4)], of w0] obtain br' w where
      w: "dec t w0 br = Inr (br', w)" "length w = length w0"
      "huf_spec ?X ?b (length ?pre + length w0) = (if is_finished br' then Some (?pre @ w) else None)" by blast
    have fin: "finish_with (dec t) st src args (s # ss) out =
        (if \<not> is_finished br' then Inl (Err (HufError HufNotConsumed)) else finish_with (dec t) st src args ss (put_slice out ?q w))" for ss
      using br(1) w0 w(1,2) q(2) e by (simp add: copy_into_ok)
    have qw: "?q + length w = ?E" using w(2) w0(2) q by simp
    have spec: "seg_spec ?X st src (length out) s = (if is_finished br' then Some (?pre @ w) else None)"
      using w(3) unfolding seg_spec_def n w0(2) by simp
    show ?thesis
    proof (cases "is_finished br'")
      case True
      have "seg_of st (put_slice out ?q w) s = ?pre @ w" using q(1) qw e(3) by (rule seg_of_put)
      moreover have "length (put_slice out ?q w) = length out" using qw e(3) by simp
      moreover have "\<forall>i. i < ?A \<or> ?E \<le> i \<longrightarrow> put_slice out ?q w ! i = out ! i"
        using put_slice_outside [of ?q w out] qw e(3) q(1) by auto
      ultimately show ?thesis using spec fin True by (intro disjI2 exI [of _ "put_slice out ?q w"]) simp
    next
      case False
      then show ?thesis using spec fin by simp
    qed
  qed
qed

lemma finish_ok:
  assumes t: "built t" and "layout src (length out) st" and "lanes_at (code_cells t) st src args out (set ss)" and "distinct ss"
  shows "(\<exists>e. finish_with (dec t) st src args ss out = Inl (Err (HufError e)) \<and> (\<exists>s \<in> set ss. seg_spec (code_cells t) st src (length out) s = None))
    \<or> (\<exists>out'. finish_with (dec t) st src args ss out = Inr out' \<and> length out' = length out
        \<and> (\<forall>s \<in> set ss. seg_spec (code_cells t) st src (length out) s = Some (seg_of st out' s))
        \<and> (\<forall>i. (\<forall>s \<in> set ss. i < s * segment st \<or> seg_end st (length out) s \<le> i) \<longrightarrow> out' ! i = out ! i))"
  using assms(2-4)
proof (induction ss arbitrary: out)
  case Nil
  then show ?case by simp
next
  case (Cons s ss)
  have s: "s < 4" "lanes_at (code_cells t) st src args out {s}" "\<forall>j \<in> set ss. j < 4 \<and> j \<noteq> s" using Cons.prems(2,3) by (auto simp: lanes_at_def)
  from finish_lane [OF t Cons.prems(1) s(2)] show ?case
  proof
    assume "seg_spec (code_cells t) st src (length out) s = None
      \<and> (\<exists>e. \<forall>ss. finish_with (dec t) st src args (s # ss) out = Inl (Err (HufError e)))"
    then show ?thesis by (metis list.set_intros(1))
  next
    assume "\<exists>out'. length out' = length out \<and> seg_spec (code_cells t) st src (length out) s = Some (seg_of st out' s)
        \<and> (\<forall>i. i < s * segment st \<or> seg_end st (length out) s \<le> i \<longrightarrow> out' ! i = out ! i)
        \<and> (\<forall>ss. finish_with (dec t) st src args (s # ss) out = finish_with (dec t) st src args ss out')"
    then obtain out1 where 1: "length out1 = length out" "seg_spec (code_cells t) st src (length out) s = Some (seg_of st out1 s)"
      "\<And>i. i < s * segment st \<or> seg_end st (length out) s \<le> i \<Longrightarrow> out1 ! i = out ! i"
      "finish_with (dec t) st src args (s # ss) out = finish_with (dec t) st src args ss out1" by blast
    have "lane_ok (code_cells t) st src j (args j) out1 63 (fs_op (args j))" if "j \<in> set ss" for j
    proof (rule lane_ok_other [OF Cons.prems(1) _ _ s(1) _ 1(1,3)])
      show "lane_ok (code_cells t) st src j (args j) out 63 (fs_op (args j))" "j < 4" "j \<noteq> s"
        using Cons.prems(2) s(3) that by (auto simp: lanes_at_def)
    qed auto
    then have "lanes_at (code_cells t) st src args out1 (set ss)" using Cons.prems(2) by (auto simp: lanes_at_def)
    moreover have "layout src (length out1) st" "distinct ss" using Cons.prems(1,3) 1(1) by auto
    ultimately consider (err) e where "finish_with (dec t) st src args ss out1 = Inl (Err (HufError e))"
        "\<exists>s \<in> set ss. seg_spec (code_cells t) st src (length out) s = None"
      | (ok) out' where "finish_with (dec t) st src args ss out1 = Inr out'" "length out' = length out"
        "\<forall>s \<in> set ss. seg_spec (code_cells t) st src (length out) s = Some (seg_of st out' s)"
        "\<forall>i. (\<forall>s \<in> set ss. i < s * segment st \<or> seg_end st (length out) s \<le> i) \<longrightarrow> out' ! i = out1 ! i"
      using Cons.IH [of out1] unfolding 1(1) by blast
    then show ?thesis
    proof cases
      case err
      then show ?thesis unfolding 1(4) by auto
    next
      case ok
      have "out' ! i = out1 ! i" if "s * segment st \<le> i" "i < seg_end st (length out) s" for i
        using ok(4) segments_apart [OF Cons.prems(1) _ s(1) _ that] s(3) by blast
      then have "seg_of st out' s = seg_of st out1 s"
        using ok(2) 1(1) segment_end_eq [OF Cons.prems(1) s(1)] unfolding seg_of_def by (intro nth_equalityI) auto
      then have "\<forall>j \<in> set (s # ss). seg_spec (code_cells t) st src (length out) j = Some (seg_of st out' j)" using ok(3) 1(2) by simp
      moreover have "out' ! i = out ! i" if "\<forall>s \<in> set (s # ss). i < s * segment st \<or> seg_end st (length out) s \<le> i" for i
        using that ok(4) 1(3) by simp
      ultimately show ?thesis unfolding 1(4) using ok(1,2) by blast
    qed
  qed
qed

end

section \<open>The specification of a section\<close>

lemma specs_None: "specs X st src n ss = None \<longleftrightarrow> (\<exists>s \<in> set ss. seg_spec X st src n s = None)"
  by (induction ss) (auto simp: seg_spec_def split: option.splits)

lemma specs_Some: "\<forall>s \<in> set ss. seg_spec X st src n s = Some (f s) \<Longrightarrow> specs X st src n ss = Some (concat (map f ss))"
  by (induction ss) (auto simp: seg_spec_def)

lemma segs_concat:
  assumes "layout src (length out) st"
  shows "concat (map (seg_of st out) [0, 1, 2, 3]) = out"
proof -
  define g where "g = segment st"
  have g: "3 * g \<le> length out" using assms by (simp add: layout_def g_def)
  have "out = take g out @ take g (drop g out) @ take g (drop g (drop g out)) @ drop g (drop g (drop g out))" by (simp only: append_take_drop_id)
  moreover have "take (length out - 3 * g) (drop (3 * g) out) = drop (3 * g) out" by simp
  ultimately show ?thesis
    by (simp add: seg_of_def seg_end_def g_def [symmetric] add.commute mult_2 eval_nat_numeral)
qed

lemma implements_specs:
  assumes "streams_split src (length out) = Inr st"
    and "(\<exists>e. r = Inl (Err (HufError e)) \<and> (\<exists>s < 4. seg_spec X st src (length out) s = None))
      \<or> (\<exists>out'. r = Inr out' \<and> length out' = length out \<and> (\<forall>s < 4. seg_spec X st src (length out) s = Some (seg_of st out' s)))"
  shows "implements r (huf_spec4 X src (length out))"
proof -
  have lay: "layout src (length out) st" using assms(1) by (rule streams_split_layout)
  have s4: "set [0, 1, 2, 3] = {..<4::nat}" by auto
  have spec: "huf_spec4 X src (length out) = specs X st src (length out) [0, 1, 2, 3]" using assms(1) by (simp add: huf_spec4_def del: specs.simps)
  from assms(2) show ?thesis
  proof
    assume "\<exists>e. r = Inl (Err (HufError e)) \<and> (\<exists>s < 4. seg_spec X st src (length out) s = None)"
    then show ?thesis using specs_None [of X st src "length out" "[0, 1, 2, 3]"] unfolding spec s4 by (auto simp: implements_def)
  next
    assume "\<exists>out'. r = Inr out' \<and> length out' = length out \<and> (\<forall>s < 4. seg_spec X st src (length out) s = Some (seg_of st out' s))"
    then obtain out' where o: "r = Inr out'" "length out' = length out" "\<forall>s < 4. seg_spec X st src (length out) s = Some (seg_of st out' s)" by blast
    have "specs X st src (length out) [0, 1, 2, 3] = Some out'"
      using specs_Some [of "[0, 1, 2, 3]" X st src "length out" "seg_of st out'"] segs_concat [of src out' st] o(2,3) lay unfolding s4 by simp
    then show ?thesis unfolding spec using o(1) by (simp add: implements_def)
  qed
qed

section \<open>Setting up the fast loops\<close>

lemma bit_length_byte: "1 \<le> bit_length (unat b)" "bit_length (unat b) \<le> 8" if "b \<noteq> 0" for b :: u8
proof -
  have "bit_length (unat b) \<noteq> 0" using that by (simp add: unat_eq_zero)
  then show "1 \<le> bit_length (unat b)" by linarith
  show "bit_length (unat b) \<le> 8" using unsigned_less [of b] by (simp add: bit_length_le_iff)
qed

lemma init_streams_ok:
  assumes "layout src n st" and "set ss \<subseteq> {..<4}" and "distinct ss"
  shows "fast_init_streams st src ss a = Inr None
    \<or> (\<exists>s \<in> set ss. \<not> marked (bytes_of st src s)) \<and> fast_init_streams st src ss a = Inl (Err (HufError HufNoEndMark))
    \<or> (\<exists>a'. fast_init_streams st src ss a = Inr (Some a')
        \<and> (\<forall>s. a' s = (if s \<in> set ss then \<lparr>fs_ip = iend st ! s - 8, fs_op = fs_op (a s),
             fs_bits = fast_word src (iend st ! s - 8) (9 - bit_length (unat (last (bytes_of st src s))))\<rparr> else a s))
        \<and> (\<forall>s \<in> set ss. 8 \<le> iend st ! s - istart st ! s \<and> marked (bytes_of st src s)))"
  using assms(2,3)
proof (induction ss arbitrary: a)
  case Nil
  then show ?case by simp
next
  case (Cons s ss)
  let ?A = "istart st ! s" and ?B = "iend st ! s" and ?l = "last (bytes_of st src s)"
  have s: "s < 4" "index (istart st) s = Inr ?A" "index (iend st) s = Inr ?B" "?A \<le> ?B" "?B \<le> length src"
    using Cons.prems(1) assms(1) by (auto simp: layout_def)
  show ?case
  proof (cases "?B - ?A < 8")
    case True
    then show ?thesis using s by simp
  next
    case False
    have bl: "length (bytes_of st src s) = ?B - ?A" using s by (simp add: bytes_of_def)
    then have ne: "bytes_of st src s \<noteq> []" using False by auto
    have "?l = bytes_of st src s ! (?B - ?A - 1)" using last_conv_nth [OF ne] bl by simp
    with ne have b: "bytes_of st src s \<noteq> []" "?l = src ! (?B - 1)" "index src (?B - 1) = Inr (src ! (?B - 1))"
      using False s by (auto simp: bytes_of_def)
    define a1 where "a1 = a(s := (a s)\<lparr>fs_ip := ?B - 8, fs_bits := fast_word src (?B - 8) (9 - bit_length (unat ?l))\<rparr>)"
    note bl = bit_length_byte [of ?l]
    have "fast_init_streams st src (s # ss) a = (if ?l = 0 then Inl (Err (HufError HufNoEndMark)) else fast_init_streams st src ss a1)"
    proof (cases "?l = 0")
      case nz: False
      have "8 - bit_length (unat ?l) + 1 = 9 - bit_length (unat ?l)" using bl [OF nz] by simp
      then have "fast_word src (?B - 8) (9 - bit_length (unat ?l))
          = push_bit (8 - bit_length (unat (src ! (?B - 1))) + 1) (word_of_nat (le_nat (take 8 (drop (?B - 8) src))) OR 1)"
        unfolding fast_word_def b(2) by simp
      moreover have "read_le64 src (?B - 8) = Inr (word_of_nat (le_nat (take 8 (drop (?B - 8) src))))"
        using False s by (simp add: read_le64_def)
      ultimately show ?thesis using s False b nz unfolding fast_init_streams.simps a1_def by simp
    qed (use s False b in simp)
    note step = this
    have m: "marked (bytes_of st src s) \<longleftrightarrow> ?l \<noteq> 0" using b by (simp add: marked_def)
    have ss: "set ss \<subseteq> {..<4}" "distinct ss" "s \<notin> set ss" using Cons.prems by auto
    have a1: "fs_op (a1 j) = fs_op (a j)" "a1 s = \<lparr>fs_ip = ?B - 8, fs_op = fs_op (a s), fs_bits = fast_word src (?B - 8) (9 - bit_length (unat ?l))\<rparr>"
      "j \<noteq> s \<Longrightarrow> a1 j = a j" for j by (auto simp: a1_def)
    show ?thesis
    proof (cases "?l = 0")
      case True
      then show ?thesis using step m by simp
    next
      case nz: False
      from Cons.IH [OF ss(1,2), of a1] consider
          "fast_init_streams st src ss a1 = Inr None"
        | "\<exists>s \<in> set ss. \<not> marked (bytes_of st src s)" "fast_init_streams st src ss a1 = Inl (Err (HufError HufNoEndMark))"
        | a' where "fast_init_streams st src ss a1 = Inr (Some a')"
            "\<forall>s. a' s = (if s \<in> set ss then \<lparr>fs_ip = iend st ! s - 8, fs_op = fs_op (a s),
             fs_bits = fast_word src (iend st ! s - 8) (9 - bit_length (unat (last (bytes_of st src s))))\<rparr> else a1 s)"
            "\<forall>s \<in> set ss. 8 \<le> iend st ! s - istart st ! s \<and> marked (bytes_of st src s)"
        unfolding a1(1) by blast
      then show ?thesis
      proof cases
        case 3
        have "fast_init_streams st src (s # ss) a = Inr (Some a')" using step nz 3(1) by simp
        moreover have "\<forall>j. a' j = (if j \<in> set (s # ss) then \<lparr>fs_ip = iend st ! j - 8, fs_op = fs_op (a j),
             fs_bits = fast_word src (iend st ! j - 8) (9 - bit_length (unat (last (bytes_of st src j))))\<rparr> else a j)"
          using 3(2) a1 ss(3) by auto
        moreover have "\<forall>j \<in> set (s # ss). 8 \<le> iend st ! j - istart st ! j \<and> marked (bytes_of st src j)"
          using 3(3) m nz False by simp
        ultimately show ?thesis by blast
      qed (use step nz in simp_all)
    qed
  qed
qed

lemma fast_init_ok:
  assumes lay: "layout src (length out) st"
  shows "huf_fast_args_init st src (length out) = Inr None
    \<or> (\<exists>s < 4. seg_spec X st src (length out) s = None) \<and> huf_fast_args_init st src (length out) = Inl (Err (HufError HufNoEndMark))
    \<or> (\<exists>a. huf_fast_args_init st src (length out) = Inr (Some a) \<and> (\<forall>s < 4. fs_op (a s) = s * segment st
          \<and> 8 \<le> iend st ! s - istart st ! s \<and> marked (bytes_of st src s) \<and> lane_ok X st src s (a s) out 8 (s * segment st)))"
proof (cases "length out \<le> 3 * segment st")
  case True
  then show ?thesis by (simp add: huf_fast_args_init_def)
next
  case False
  define a0 where "a0 = (\<lambda>s. \<lparr>fs_ip = 0, fs_op = s * segment st, fs_bits = (0 :: u64)\<rparr>)"
  have s4: "set [0, 1, 2, 3] = {..<4::nat}" by auto
  have i: "huf_fast_args_init st src (length out) = fast_init_streams st src [0, 1, 2, 3] a0"
    using False by (simp add: huf_fast_args_init_def a0_def)
  have none: "seg_spec X st src (length out) s = None" if "\<not> marked (bytes_of st src s)" for s
    using that by (auto simp: seg_spec_def huf_spec_def marked_def)
  have lane: "lane_ok X st src s \<lparr>fs_ip = iend st ! s - 8, fs_op = s * segment st,
      fs_bits = fast_word src (iend st ! s - 8) (9 - bit_length (unat (last (bytes_of st src s))))\<rparr> out 8 (s * segment st)"
    if s: "s < 4" "8 \<le> iend st ! s - istart st ! s" "marked (bytes_of st src s)" for s
  proof -
    let ?b = "bytes_of st src s" let ?k = "bit_length (unat (last ?b))"
    have m: "?b \<noteq> []" "last ?b \<noteq> 0" using s(3) by (auto simp: marked_def)
    note k = bit_length_byte [OF m(2)]
    have "length ?b = iend st ! s - istart st ! s" using lay s(1) by (auto simp: bytes_of_def layout_def)
    then have "lane_left st s \<lparr>fs_ip = iend st ! s - 8, fs_op = s * segment st, fs_bits = w\<rparr> (9 - ?k) = int (bit_length (le_nat ?b)) - 1" for w
      using bit_length_le_nat [OF m] k s(2) by (simp add: lane_left_def of_nat_diff)
    then show ?thesis
      unfolding lane_ok_def using k s(2) segment_end_eq(2) [OF lay s(1)] by (intro exI [of _ "9 - ?k"]) auto
  qed
  from init_streams_ok [OF lay, of "[0, 1, 2, 3]" a0] consider
      (none) "fast_init_streams st src [0, 1, 2, 3] a0 = Inr None"
    | (err) s where "s < 4" "\<not> marked (bytes_of st src s)" "fast_init_streams st src [0, 1, 2, 3] a0 = Inl (Err (HufError HufNoEndMark))"
    | (ok) a where "fast_init_streams st src [0, 1, 2, 3] a0 = Inr (Some a)"
        "\<forall>s < 4. a s = \<lparr>fs_ip = iend st ! s - 8, fs_op = s * segment st,
             fs_bits = fast_word src (iend st ! s - 8) (9 - bit_length (unat (last (bytes_of st src s))))\<rparr>"
        "\<forall>s < 4. 8 \<le> iend st ! s - istart st ! s \<and> marked (bytes_of st src s)"
    unfolding s4 by (auto simp: a0_def)
  then show ?thesis
  proof cases
    case err
    then show ?thesis using i none by auto
  next
    case ok
    then show ?thesis unfolding i using lane by simp
  qed (use i in simp)
qed

section \<open>The single-symbol driver after the fast loop\<close>

lemma fast_x1_correct:
  assumes t: "x1_ready t" and sp: "streams_split src (length out) = Inr st"
    and a: "huf_fast_args_init st src (length out) = Inr (Some a)"
  shows "\<exists>a' out'. huf_4x1_fast_loop a out src (decode t) = Inr (a', out') \<and> length out' = length out
    \<and> lanes_at (code_cells t) st src a' out' {..<4}"
proof -
  let ?ws = "take (nb_symbols t) (weights t)" and ?k = "max_num_bits t"
  have c: "complete_code ?ws ?k" "length ?ws \<le> 256" using t ready_code by (auto simp: x1_ready_def)
  have dt: "decode t = map mk_entry (x1_ref ?ws ?k)" using t by (simp add: x1_ready_def x1_built_def)
  note lay = streams_split_layout [OF sp]
  have i: "\<forall>s < 4. fs_op (a s) = s * segment st \<and> 8 \<le> iend st ! s - istart st ! s \<and> marked (bytes_of st src s)
      \<and> lane_ok (x1_ref ?ws ?k) st src s (a s) out 8 (s * segment st)"
    using fast_init_ok [OF lay, of "x1_ref ?ws ?k"] a by auto
  then have "lanes_x1 (x1_ref ?ws ?k) st src 0 (\<lambda>_. 0) (a, out)" by (simp add: lanes_x1_def)
  from fast_x1_loop_ok [OF c lay this] obtain a' out' d where
    f: "fast_x1_loop src (map mk_entry (x1_ref ?ws ?k)) (a, out) = Inr (a', out')" "length out' = length out"
    "lanes_x1 (x1_ref ?ws ?k) st src d (\<lambda>_. 0) (a', out')" by auto
  have "lanes_at (code_cells t) st src a' out' {..<4}"
    unfolding lanes_at_def code_cells_def using f(3) i by (auto simp: lanes_x1_def intro: lane_ok_mono)
  then show ?thesis using f(1,2) by (simp add: huf_4x1_fast_loop_def dt)
qed

section \<open>The plain single-symbol loop\<close>

lemma ds_new_room_full: "ds_new src = Inr br \<Longrightarrow> ds_room 56 br"
proof -
  assume n: "ds_new src = Inr br"
  have "bit_length (unat (last src)) \<noteq> 0" using ds_new_ready(6) [OF n] by (simp add: unat_eq_zero)
  then have "8 - bit_length (unat (last src)) + 1 \<le> 8" by linarith
  then show ?thesis
    using n ds_new_room [OF n] by (auto simp: ds_new_def ds_room_def Let_def res_simps split: if_splits)
qed

lemma reload_fast_room:
  assumes "ds_room 0 br"
  shows "\<exists>st br'. reload_fast br = Inr (st, br') \<and> ds_room 0 br' \<and> ds_src br' = ds_src br \<and> ds_left br' = ds_left br
    \<and> (st = Unfinished \<longrightarrow> ds_room 57 br' \<and> 0 < ds_left br' - 56)"
proof (cases "ds_ptr br < 8")
  case True
  then show ?thesis using assms by (simp add: reload_fast_def)
next
  case False
  then have "ds_inv br" "8 \<le> ds_ptr br" "bits_consumed br \<le> 64" using assms by (auto simp: ds_room_def)
  from reload_internal_ok [OF this] show ?thesis
    using False by (auto simp: reload_fast_def ds_ready_def ds_room_def ds_left_def)
qed

text \<open>A reader that has decoded \<open>w\<close> of the stream \<open>b\<close>.\<close>

definition reads :: "(nat \<times> nat) list \<Rightarrow> u8 list \<Rightarrow> nat \<Rightarrow> u8 list \<Rightarrow> bit_dstream \<Rightarrow> bool" where
  "reads X b n w br \<longleftrightarrow> ds_room n br \<and> ds_src br = b \<and> marked b
     \<and> decodes X (le_nat b) (int (bit_length (le_nat b)) - 1) w (ds_left br)"

lemma reads_new:
  assumes "ds_new b = Inr br"
  shows "reads X b 56 [] br"
  using ds_new_ready [OF assms] ds_new_room_full [OF assms] by (simp add: reads_def marked_def)

lemma reads_less: "reads X b n w br \<Longrightarrow> m \<le> n \<Longrightarrow> reads X b m w br"
  by (auto simp: reads_def intro: ds_room_less)

lemma reads_reload:
  assumes "reads X b 0 w br"
  shows "\<exists>st br'. reload_fast br = Inr (st, br') \<and> reads X b 0 w br' \<and> (st = Unfinished \<longrightarrow> reads X b 57 w br')"
  using reload_fast_room [of br] assms by (auto simp: reads_def)

text \<open>A lane of the plain loop: its reader has decoded the first \<open>p\<close> bytes of its segment, and the
  symbols of the window on top.\<close>

definition lane_reads :: "(nat \<times> nat) list \<Rightarrow> u8 list \<Rightarrow> nat \<Rightarrow> u8 list \<Rightarrow> nat \<Rightarrow> lane \<Rightarrow> bool" where
  "lane_reads X b n w m l = (case l of (br, x) \<Rightarrow> length x = m \<and> reads X b n (w @ x) br)"

lemma plain_x1_symbol_ok:
  assumes cc: "complete_code ws k" and len: "length ws \<le> 256" and l: "lane_reads (x1_ref ws k) b (11 + n) w m l"
  shows "\<exists>l'. plain_x1_symbol (map mk_entry (x1_ref ws k)) l = Inr l' \<and> lane_reads (x1_ref ws k) b n w (m + 1) l'"
proof -
  obtain br x where lx: "l = (br, x)" by (cases l)
  have r: "ds_room (11 + n) br" "ds_src br = b" "marked b" "length x = m"
    "decodes (x1_ref ws k) (le_nat b) (int (bit_length (le_nat b)) - 1) (w @ x) (ds_left br)"
    using l by (auto simp: lane_reads_def reads_def lx)
  from symbol_x1_ok [OF cc len r(1)] obtain a br' where
    "huf_decode_symbol_x1 br (map mk_entry (x1_ref ws k)) = Inr (a, br')" "ds_room n br'" "ds_src br' = b"
    "decodes (x1_ref ws k) (le_nat b) (ds_left br) [a] (ds_left br')" using r(2) by auto
  then show ?thesis
    using decodes_trans [OF r(5)] r(3,4) by (auto simp: lane_reads_def reads_def lx plain_x1_symbol_def)
qed

text \<open>The four lanes of a row.\<close>

definition row_reads :: "(nat \<times> nat) list \<Rightarrow> (nat \<Rightarrow> u8 list) \<Rightarrow> nat \<Rightarrow> (nat \<Rightarrow> u8 list) \<Rightarrow> nat \<Rightarrow> lane \<times> lane \<times> lane \<times> lane \<Rightarrow> bool" where
  "row_reads X b n w m ls = (case ls of (l1, l2, l3, l4) \<Rightarrow>
     lane_reads X (b 0) n (w 0) m l1 \<and> lane_reads X (b 1) n (w 1) m l2
     \<and> lane_reads X (b 2) n (w 2) m l3 \<and> lane_reads X (b 3) n (w 3) m l4)"

lemma plain_x1_row_ok:
  assumes cc: "complete_code ws k" and len: "length ws \<le> 256" and "row_reads (x1_ref ws k) b (11 + n) w m ls"
  shows "\<exists>ls'. plain_x1_row (map mk_entry (x1_ref ws k)) ls = Inr ls' \<and> row_reads (x1_ref ws k) b n w (m + 1) ls'"
proof -
  obtain l1 l2 l3 l4 where ls: "ls = (l1, l2, l3, l4)" by (cases ls)
  note sym = plain_x1_symbol_ok [OF cc len]
  have "lane_reads (x1_ref ws k) (b 0) (11 + n) (w 0) m l1" "lane_reads (x1_ref ws k) (b 1) (11 + n) (w 1) m l2"
    "lane_reads (x1_ref ws k) (b 2) (11 + n) (w 2) m l3" "lane_reads (x1_ref ws k) (b 3) (11 + n) (w 3) m l4"
    using assms(3) by (auto simp: row_reads_def ls)
  then obtain m1 m2 m3 m4 where
    "plain_x1_symbol (map mk_entry (x1_ref ws k)) l1 = Inr m1" "lane_reads (x1_ref ws k) (b 0) n (w 0) (m + 1) m1"
    "plain_x1_symbol (map mk_entry (x1_ref ws k)) l2 = Inr m2" "lane_reads (x1_ref ws k) (b 1) n (w 1) (m + 1) m2"
    "plain_x1_symbol (map mk_entry (x1_ref ws k)) l3 = Inr m3" "lane_reads (x1_ref ws k) (b 2) n (w 2) (m + 1) m3"
    "plain_x1_symbol (map mk_entry (x1_ref ws k)) l4 = Inr m4" "lane_reads (x1_ref ws k) (b 3) n (w 3) (m + 1) m4"
    using sym by metis
  then show ?thesis by (simp add: plain_x1_row_def row_reads_def ls)
qed

lemma plain_x1_rows_ok:
  assumes cc: "complete_code ws k" and len: "length ws \<le> 256" and "row_reads (x1_ref ws k) b (11 * length is + n) w m ls"
  shows "\<exists>ls'. fold_res (\<lambda>_. plain_x1_row (map mk_entry (x1_ref ws k))) is ls = Inr ls' \<and> row_reads (x1_ref ws k) b n w (m + length is) ls'"
  using assms(3)
proof (induction "is" arbitrary: m ls)
  case (Cons i "is")
  have "row_reads (x1_ref ws k) b (11 + (11 * length is + n)) w m ls" using Cons.prems by (simp add: add.assoc)
  from plain_x1_row_ok [OF cc len this] obtain ls1 where
    "plain_x1_row (map mk_entry (x1_ref ws k)) ls = Inr ls1" "row_reads (x1_ref ws k) b (11 * length is + n) w (m + 1) ls1" by blast
  then show ?case using Cons.IH [of "m + 1" ls1] by simp
qed simp

text \<open>A lane between iterations.\<close>

definition lane_pos :: "(nat \<times> nat) list \<Rightarrow> u8 list \<Rightarrow> nat \<Rightarrow> nat \<Rightarrow> nat \<Rightarrow> lane \<Rightarrow> bool" where
  "lane_pos X b n p sz l = (case l of (br, seg) \<Rightarrow> length seg = sz \<and> reads X b n (take p seg) br)"

definition row_pos :: "(nat \<times> nat) list \<Rightarrow> (nat \<Rightarrow> u8 list) \<Rightarrow> nat \<Rightarrow> nat \<Rightarrow> (nat \<Rightarrow> nat) \<Rightarrow> lane \<times> lane \<times> lane \<times> lane \<Rightarrow> bool" where
  "row_pos X b n p sz ls = (case ls of (l1, l2, l3, l4) \<Rightarrow>
     lane_pos X (b 0) n p (sz 0) l1 \<and> lane_pos X (b 1) n p (sz 1) l2
     \<and> lane_pos X (b 2) n p (sz 2) l3 \<and> lane_pos X (b 3) n p (sz 3) l4)"

lemma row_pos_less: "row_pos X b n p sz ls \<Longrightarrow> m \<le> n \<Longrightarrow> row_pos X b m p sz ls"
  by (auto simp: row_pos_def lane_pos_def intro: reads_less)

lemma plain_x1_lane_ok:
  assumes "lane_reads X b 0 (take p seg) 4 l" and "p + 4 \<le> length seg"
  shows "\<exists>br seg' st br'. plain_x1_store p l seg = Inr (br, seg') \<and> reload_fast br = Inr (st, br')
    \<and> lane_pos X b 0 (p + 4) (length seg) (br', seg') \<and> (st = Unfinished \<longrightarrow> lane_pos X b 57 (p + 4) (length seg) (br', seg'))"
proof -
  obtain br x where l: "l = (br, x)" by (cases l)
  have x: "length x = 4" "reads X b 0 (take p seg @ x) br" using assms(1) by (auto simp: lane_reads_def l)
  have "plain_x1_store p l seg = Inr (br, put_slice seg p x)" using x(1) assms(2) by (simp add: plain_x1_store_def l copy_into_ok)
  moreover have "take (p + 4) (put_slice seg p x) = take p seg @ x" "length (put_slice seg p x) = length seg"
    using take_put_slice [of p seg x] x(1) assms(2) by auto
  ultimately show ?thesis using reads_reload [OF x(2)] by (auto simp: lane_pos_def)
qed

lemma plain_x1_iter_ok:
  assumes cc: "complete_code ws k" and len: "length ws \<le> 256" and ls: "row_pos (x1_ref ws k) b 44 p sz ls" and room: "\<forall>s < 4. p + 4 \<le> sz s"
  shows "\<exists>g ls'. plain_x1_iter (map mk_entry (x1_ref ws k)) p ls = Inr (g, ls') \<and> row_pos (x1_ref ws k) b 0 (p + 4) sz ls'
    \<and> (g \<longrightarrow> row_pos (x1_ref ws k) b 57 (p + 4) sz ls')"
proof -
  let ?X = "x1_ref ws k"
  obtain b1 o1 b2 o2 b3 o3 b4 o4 where l: "ls = ((b1, o1), (b2, o2), (b3, o3), (b4, o4))" by (metis surj_pair)
  define w where "w = (\<lambda>s. take p ([o1, o2, o3, o4] ! s))"
  have o: "sz 0 = length o1" "sz 1 = length o2" "sz 2 = length o3" "sz 3 = length o4"
    "w 0 = take p o1" "w 1 = take p o2" "w 2 = take p o3" "w 3 = take p o4"
    using ls by (auto simp: l row_pos_def lane_pos_def w_def eval_nat_numeral)
  have "row_reads ?X b (11 * length [0 :: nat, 1, 2, 3] + 0) w 0 ((b1, []), (b2, []), (b3, []), (b4, []))"
    using ls by (auto simp: row_reads_def lane_reads_def row_pos_def lane_pos_def l o o [simplified])
  moreover have "0 + length [0 :: nat, 1, 2, 3] = 4" by simp
  ultimately obtain ls' where
    ls': "fold_res (\<lambda>_. plain_x1_row (map mk_entry ?X)) [0 :: nat, 1, 2, 3] ((b1, []), (b2, []), (b3, []), (b4, [])) = Inr ls'"
    "row_reads ?X b 0 w 4 ls'" using plain_x1_rows_ok [OF cc len] by metis
  obtain w1 w2 w3 w4 where lw: "ls' = (w1, w2, w3, w4)" by (cases ls')
  have r: "fold_res (\<lambda>_. plain_x1_row (map mk_entry ?X)) [0 :: nat, 1, 2, 3] ((b1, []), (b2, []), (b3, []), (b4, [])) = Inr (w1, w2, w3, w4)"
    "lane_reads ?X (b 0) 0 (take p o1) 4 w1" "lane_reads ?X (b 1) 0 (take p o2) 4 w2"
    "lane_reads ?X (b 2) 0 (take p o3) 4 w3" "lane_reads ?X (b 3) 0 (take p o4) 4 w4"
    using ls' unfolding row_reads_def lw o by auto
  have p: "p + 4 \<le> length o1" "p + 4 \<le> length o2" "p + 4 \<le> length o3" "p + 4 \<le> length o4" using room unfolding all4 o by auto
  from plain_x1_lane_ok [OF r(2) p(1)] obtain c1 q1 s1 d1 where 1: "plain_x1_store p w1 o1 = Inr (c1, q1)" "reload_fast c1 = Inr (s1, d1)"
    "lane_pos ?X (b 0) 0 (p + 4) (sz 0) (d1, q1)" "s1 = Unfinished \<longrightarrow> lane_pos ?X (b 0) 57 (p + 4) (sz 0) (d1, q1)" unfolding o by blast
  from plain_x1_lane_ok [OF r(3) p(2)] obtain c2 q2 s2 d2 where 2: "plain_x1_store p w2 o2 = Inr (c2, q2)" "reload_fast c2 = Inr (s2, d2)"
    "lane_pos ?X (b 1) 0 (p + 4) (sz 1) (d2, q2)" "s2 = Unfinished \<longrightarrow> lane_pos ?X (b 1) 57 (p + 4) (sz 1) (d2, q2)" unfolding o by blast
  from plain_x1_lane_ok [OF r(4) p(3)] obtain c3 q3 s3 d3 where 3: "plain_x1_store p w3 o3 = Inr (c3, q3)" "reload_fast c3 = Inr (s3, d3)"
    "lane_pos ?X (b 2) 0 (p + 4) (sz 2) (d3, q3)" "s3 = Unfinished \<longrightarrow> lane_pos ?X (b 2) 57 (p + 4) (sz 2) (d3, q3)" unfolding o by blast
  from plain_x1_lane_ok [OF r(5) p(4)] obtain c4 q4 s4 d4 where 4: "plain_x1_store p w4 o4 = Inr (c4, q4)" "reload_fast c4 = Inr (s4, d4)"
    "lane_pos ?X (b 3) 0 (p + 4) (sz 3) (d4, q4)" "s4 = Unfinished \<longrightarrow> lane_pos ?X (b 3) 57 (p + 4) (sz 3) (d4, q4)" unfolding o by blast
  have "plain_x1_iter (map mk_entry ?X) p ls = Inr (s1 = Unfinished \<and> s2 = Unfinished \<and> s3 = Unfinished \<and> s4 = Unfinished,
      (d1, q1), (d2, q2), (d3, q3), (d4, q4))"
    unfolding plain_x1_iter_def l prod.case r(1) res_bind_simps 1(1,2) 2(1,2) 3(1,2) 4(1,2) by (rule refl)
  then show ?thesis using 1(3,4) 2(3,4) 3(3,4) 4(3,4) by (simp add: row_pos_def)
qed

lemma plain_x1_loop_ok:
  assumes cc: "complete_code ws k" and len: "length ws \<le> 256" and "\<forall>s < 4. sz 3 \<le> sz s"
    and "row_pos (x1_ref ws k) b 0 p sz ls" and "e \<longrightarrow> row_pos (x1_ref ws k) b 44 p sz ls" and "p \<le> sz 3"
  shows "\<exists>p' ls'. plain_x1_loop (map mk_entry (x1_ref ws k)) e p ls = Inr (p', ls') \<and> row_pos (x1_ref ws k) b 0 p' sz ls' \<and> p' \<le> sz 3"
  using assms(4-6)
proof (induction "sz 3 - p" arbitrary: p ls e rule: less_induct)
  case less
  obtain l1 l2 l3 l4 where ls: "ls = (l1, l2, l3, l4)" by (cases ls)
  have sz: "length (snd l4) = sz 3" using less.prems(1) by (auto simp: ls row_pos_def lane_pos_def split: prod.splits)
  show ?case
  proof (cases "e \<and> p + 4 \<le> sz 3")
    case True
    then have "row_pos (x1_ref ws k) b 44 p sz ls" "\<forall>s < 4. p + 4 \<le> sz s" using less.prems(2) assms(3) by auto
    from plain_x1_iter_ok [OF cc len this] obtain g ls1 where
      i: "plain_x1_iter (map mk_entry (x1_ref ws k)) p ls = Inr (g, ls1)" "row_pos (x1_ref ws k) b 0 (p + 4) sz ls1"
      "g \<longrightarrow> row_pos (x1_ref ws k) b 57 (p + 4) sz ls1" by blast
    have "sz 3 - (p + 4) < sz 3 - p" "g \<longrightarrow> row_pos (x1_ref ws k) b 44 (p + 4) sz ls1" "p + 4 \<le> sz 3"
      using True i(3) row_pos_less [of "x1_ref ws k" b 57 "p + 4" sz ls1 44] by auto
    moreover have "plain_x1_loop (map mk_entry (x1_ref ws k)) e p ls = plain_x1_loop (map mk_entry (x1_ref ws k)) g (p + 4) ls1"
      using True sz i(1) unfolding ls by (subst plain_x1_loop.simps) simp
    ultimately show ?thesis using less.hyps [of "p + 4" ls1 g] i(2) by simp
  next
    case False
    then have "plain_x1_loop (map mk_entry (x1_ref ws k)) e p ls = Inr (p, ls)"
      using sz unfolding ls by (subst plain_x1_loop.simps) auto
    then show ?thesis using less.prems by blast
  qed
qed

lemma plain_x1_finish_ok:
  assumes t: "x1_ready t" and l: "lane_pos (code_cells t) b 0 p sz l" and p: "p \<le> sz"
  shows "\<exists>br seg. plain_x1_finish (decode t) p l = Inr (br, seg) \<and> length seg = sz
    \<and> huf_spec (code_cells t) b sz = (if is_finished br then Some seg else None)"
proof -
  obtain br seg where lx: "l = (br, seg)" by (cases l)
  have r: "length seg = sz" "ds_room 0 br" "ds_src br = b" "marked b"
    "decodes (code_cells t) (le_nat b) (int (bit_length (le_nat b)) - 1) (take p seg) (ds_left br)"
    using l by (auto simp: lane_pos_def reads_def lx)
  from dec1.dec_rest [OF t r(2-5), of "drop p seg"] obtain br' w where
    d: "huf_decode_stream_x1 (drop p seg) br (decode t) = Inr (br', w)" "length w = sz - p"
    "huf_spec (code_cells t) b sz = (if is_finished br' then Some (take p seg @ w) else None)"
    using r(1) p by auto
  have "put_slice seg p w = take p seg @ w" using d(2) r(1) p by (simp add: put_slice_def)
  then show ?thesis using d r(1) p by (simp add: plain_x1_finish_def lx copy_into_ok)
qed

section \<open>The single-symbol driver\<close>

lemma stream_new:
  assumes "layout src n st" and "s < 4"
  shows "(\<exists>e. res_bind (stream_of st src s) ds_new = Inl (Err (HufError e))) \<and> seg_spec X st src n s = None
    \<or> (\<exists>br. res_bind (stream_of st src s) ds_new = Inr br \<and> reads X (bytes_of st src s) 56 [] br)"
  using ds_new_cases [of "bytes_of st src s"] reads_new [of "bytes_of st src s"] stream_of_ok [OF assms]
  by (auto simp: seg_spec_def huf_spec_def)

lemma streams_new:
  assumes lay: "layout src n st"
  shows "(\<exists>e. \<forall>K. res_bind (res_bind (stream_of st src 0) ds_new) (\<lambda>b1. res_bind (res_bind (stream_of st src 1) ds_new) (\<lambda>b2.
       res_bind (res_bind (stream_of st src 2) ds_new) (\<lambda>b3. res_bind (res_bind (stream_of st src 3) ds_new) (K b1 b2 b3))))
       = (Inl (Err (HufError e)) :: u8 list res)) \<and> (\<exists>s < 4. seg_spec X st src n s = None)
    \<or> (\<exists>b1 b2 b3 b4. res_bind (stream_of st src 0) ds_new = Inr b1 \<and> res_bind (stream_of st src 1) ds_new = Inr b2
        \<and> res_bind (stream_of st src 2) ds_new = Inr b3 \<and> res_bind (stream_of st src 3) ds_new = Inr b4
        \<and> reads X (bytes_of st src 0) 56 [] b1 \<and> reads X (bytes_of st src 1) 56 [] b2
        \<and> reads X (bytes_of st src 2) 56 [] b3 \<and> reads X (bytes_of st src 3) 56 [] b4)"
proof -
  define f where "f = (\<lambda>s. res_bind (stream_of st src s) ds_new)"
  have s: "(\<exists>e. f s = Inl (Err (HufError e))) \<and> seg_spec X st src n s = None
      \<or> (\<exists>br. f s = Inr br \<and> reads X (bytes_of st src s) 56 [] br)" if "s < 4" for s
    unfolding f_def by (rule stream_new [OF lay that])
  have fs: "res_bind (stream_of st src s) ds_new = f s" for s by (simp add: f_def)
  have n: "(0::nat) < 4" "(1::nat) < 4" "(2::nat) < 4" "(3::nat) < 4" by auto
  have e: "(\<exists>b. f s = Inr b \<and> reads X (bytes_of st src s) 56 [] b) \<or> (\<exists>e. f s = Inl (Err (HufError e))) \<and> (\<exists>s < 4. seg_spec X st src n s = None)"
    if "s < 4" for s using s [OF that] that by blast
  show ?thesis
    unfolding fs
    by (rule disjE [OF e [OF n(1)]], rule disjE [OF e [OF n(2)]], rule disjE [OF e [OF n(3)]], rule disjE [OF e [OF n(4)]]) auto
qed

lemma split_segments:
  assumes "layout src (length out) st"
  shows "split_at out (segment st) = Inr (take (segment st) out, drop (segment st) out)"
    and "split_at (drop (segment st) out) (segment st) = Inr (take (segment st) (drop (segment st) out), drop (2 * segment st) out)"
    and "split_at (drop (2 * segment st) out) (segment st) = Inr (take (segment st) (drop (2 * segment st) out), drop (3 * segment st) out)"
proof -
  define g where "g = segment st"
  have "3 * g \<le> length out" using assms by (simp add: layout_def g_def)
  moreover have "drop g (drop g out) = drop (2 * g) out" "drop g (drop (2 * g) out) = drop (3 * g) out"
    by (simp_all add: mult_2 numeral_3_eq_3 add.assoc)
  ultimately show "split_at out g = Inr (take g out, drop g out)"
    "split_at (drop g out) g = Inr (take g (drop g out), drop (2 * g) out)"
    "split_at (drop (2 * g) out) g = Inr (take g (drop (2 * g) out), drop (3 * g) out)" by (simp_all add: split_at_def)
qed

lemma ex4: "(\<exists>s < (4::nat). P s) \<longleftrightarrow> P 0 \<or> P 1 \<or> P 2 \<or> P 3"
  using all4 [of "\<lambda>s. \<not> P s"] by blast

lemma plain_x1_correct:
  assumes t: "x1_ready t" and sp: "streams_split src (length out) = Inr st"
    and a: "huf_fast_args_init st src (length out) = Inr None" and dt: "huf_cells (decode t) = Inr (decode t)"
  shows "implements (huf_decompress_4x1 out src t) (huf_spec4 (code_cells t) src (length out))"
proof (rule implements_specs [OF sp])
  let ?X = "code_cells t" and ?ws = "take (nb_symbols t) (weights t)" and ?k = "max_num_bits t" and ?n = "length out"
  let ?r = "huf_decompress_4x1 out src t"
  have c: "complete_code ?ws ?k" "length ?ws \<le> 256" using t ready_code by (auto simp: x1_ready_def)
  have de: "decode t = map mk_entry ?X" using t by (simp add: x1_ready_def x1_built_def code_cells_def)
  note lay = streams_split_layout [OF sp]
  define g where "g = segment st"
  have g: "3 * g \<le> ?n" "?n \<le> 4 * g" using lay by (auto simp: layout_def g_def)
  define o1 o2 o3 o4 where "o1 = take g out" and "o2 = take g (drop g out)" and "o3 = take g (drop (2 * g) out)" and "o4 = drop (3 * g) out"
  define sz where "sz = (\<lambda>s. seg_end st ?n s - s * segment st)"
  have sz: "sz 0 = g" "sz 1 = g" "sz 2 = g" "sz 3 = ?n - 3 * g" by (auto simp: sz_def seg_end_def g_def)
  have lo: "length o1 = sz 0" "length o2 = sz 1" "length o3 = sz 2" "length o4 = sz 3"
    using g unfolding sz by (auto simp: o1_def o2_def o3_def o4_def)
  note sps = split_segments [OF lay, folded g_def, folded o1_def o2_def o3_def o4_def]
  have r: "?r = res_bind (res_bind (stream_of st src 0) ds_new) (\<lambda>b1. res_bind (res_bind (stream_of st src 1) ds_new) (\<lambda>b2.
       res_bind (res_bind (stream_of st src 2) ds_new) (\<lambda>b3. res_bind (res_bind (stream_of st src 3) ds_new) (\<lambda>b4.
         res_bind (plain_x1_loop (decode t) (8 \<le> length o4) 0 ((b1, o1), (b2, o2), (b3, o3), (b4, o4))) (\<lambda>(p, l1, l2, l3, l4).
         res_bind (plain_x1_finish (decode t) p l1) (\<lambda>(b1, o1).
         res_bind (plain_x1_finish (decode t) p l2) (\<lambda>(b2, o2).
         res_bind (plain_x1_finish (decode t) p l3) (\<lambda>(b3, o3).
         res_bind (plain_x1_finish (decode t) p l4) (\<lambda>(b4, o4).
         if \<not> (is_finished b1 \<and> is_finished b2 \<and> is_finished b3 \<and> is_finished b4)
         then Inl (Err (HufError HufNotConsumed))
         else Inr (o1 @ o2 @ o3 @ o4))))))))))"
    unfolding huf_decompress_4x1_def dt res_bind_simps Let_def sp a option.case g_def [symmetric] sps prod.case by (rule refl)
  from streams_new [OF lay, of ?X] show "(\<exists>e. ?r = Inl (Err (HufError e)) \<and> (\<exists>s < 4. seg_spec ?X st src ?n s = None))
      \<or> (\<exists>out'. ?r = Inr out' \<and> length out' = ?n \<and> (\<forall>s < 4. seg_spec ?X st src ?n s = Some (seg_of st out' s)))"
  proof
    assume "\<exists>b1 b2 b3 b4. res_bind (stream_of st src 0) ds_new = Inr b1 \<and> res_bind (stream_of st src 1) ds_new = Inr b2
        \<and> res_bind (stream_of st src 2) ds_new = Inr b3 \<and> res_bind (stream_of st src 3) ds_new = Inr b4
        \<and> reads ?X (bytes_of st src 0) 56 [] b1 \<and> reads ?X (bytes_of st src 1) 56 [] b2
        \<and> reads ?X (bytes_of st src 2) 56 [] b3 \<and> reads ?X (bytes_of st src 3) 56 [] b4"
    then obtain b1 b2 b3 b4 where b: "res_bind (stream_of st src 0) ds_new = Inr b1" "res_bind (stream_of st src 1) ds_new = Inr b2"
      "res_bind (stream_of st src 2) ds_new = Inr b3" "res_bind (stream_of st src 3) ds_new = Inr b4"
      "reads ?X (bytes_of st src 0) 56 [] b1" "reads ?X (bytes_of st src 1) 56 [] b2"
      "reads ?X (bytes_of st src 2) 56 [] b3" "reads ?X (bytes_of st src 3) 56 [] b4" by blast
    have p: "row_pos ?X (bytes_of st src) n 0 sz ((b1, o1), (b2, o2), (b3, o3), (b4, o4))" if "n \<le> 56" for n
      using b(5-8) lo reads_less [OF _ that] by (auto simp: row_pos_def lane_pos_def)
    have "\<forall>s < 4. sz 3 \<le> sz s" using g unfolding all4 sz by auto
    from plain_x1_loop_ok [OF c this, of "bytes_of st src" 0 "((b1, o1), (b2, o2), (b3, o3), (b4, o4))" "8 \<le> length o4"] p
    obtain q l1 l2 l3 l4 where l: "plain_x1_loop (decode t) (8 \<le> length o4) 0 ((b1, o1), (b2, o2), (b3, o3), (b4, o4)) = Inr (q, l1, l2, l3, l4)"
      "row_pos ?X (bytes_of st src) 0 q sz (l1, l2, l3, l4)" "q \<le> sz 3"
      unfolding de code_cells_def [symmetric] by fastforce
    have lp: "lane_pos ?X (bytes_of st src 0) 0 q (sz 0) l1" "lane_pos ?X (bytes_of st src 1) 0 q (sz 1) l2"
      "lane_pos ?X (bytes_of st src 2) 0 q (sz 2) l3" "lane_pos ?X (bytes_of st src 3) 0 q (sz 3) l4"
      "q \<le> sz 0" "q \<le> sz 1" "q \<le> sz 2" using l(2,3) g unfolding row_pos_def sz by auto
    from plain_x1_finish_ok [OF t lp(1,5)] obtain c1 p1 where 1: "plain_x1_finish (decode t) q l1 = Inr (c1, p1)" "length p1 = sz 0"
      "seg_spec ?X st src ?n 0 = (if is_finished c1 then Some p1 else None)" unfolding seg_spec_def sz_def by blast
    from plain_x1_finish_ok [OF t lp(2,6)] obtain c2 p2 where 2: "plain_x1_finish (decode t) q l2 = Inr (c2, p2)" "length p2 = sz 1"
      "seg_spec ?X st src ?n 1 = (if is_finished c2 then Some p2 else None)" unfolding seg_spec_def sz_def by blast
    from plain_x1_finish_ok [OF t lp(3,7)] obtain c3 p3 where 3: "plain_x1_finish (decode t) q l3 = Inr (c3, p3)" "length p3 = sz 2"
      "seg_spec ?X st src ?n 2 = (if is_finished c3 then Some p3 else None)" unfolding seg_spec_def sz_def by blast
    from plain_x1_finish_ok [OF t lp(4) l(3)] obtain c4 p4 where 4: "plain_x1_finish (decode t) q l4 = Inr (c4, p4)" "length p4 = sz 3"
      "seg_spec ?X st src ?n 3 = (if is_finished c4 then Some p4 else None)" unfolding seg_spec_def sz_def by blast
    have res: "?r = (if \<not> (is_finished c1 \<and> is_finished c2 \<and> is_finished c3 \<and> is_finished c4)
         then Inl (Err (HufError HufNotConsumed)) else Inr (p1 @ p2 @ p3 @ p4))"
      unfolding r b(1-4) res_bind_simps l(1) prod.case 1(1) 2(1) 3(1) 4(1) by (rule refl)
    have len: "length (p1 @ p2 @ p3 @ p4) = ?n" using 1(2) 2(2) 3(2) 4(2) g sz by simp
    have seg: "seg_of st (p1 @ p2 @ p3 @ p4) 0 = p1" "seg_of st (p1 @ p2 @ p3 @ p4) 1 = p2"
      "seg_of st (p1 @ p2 @ p3 @ p4) 2 = p3" "seg_of st (p1 @ p2 @ p3 @ p4) 3 = p4"
      using 1(2) 2(2) 3(2) 4(2) sz unfolding seg_of_def len by (auto simp: sz_def g_def seg_end_def)
    show ?thesis
    proof (cases "is_finished c1 \<and> is_finished c2 \<and> is_finished c3 \<and> is_finished c4")
      case True
      then show ?thesis using res len seg 1(3) 2(3) 3(3) 4(3) by (auto simp: all4)
    next
      case False
      then have "\<exists>s < 4. seg_spec ?X st src ?n s = None" unfolding ex4 using 1(3) 2(3) 3(3) 4(3) by auto
      then show ?thesis using res False by auto
    qed
  qed (use r in metis)
qed

lemma streams_split_err: "streams_split src n = Inl f \<Longrightarrow> \<exists>e. f = Err (HufError e)"
  by (auto simp: streams_split_def Let_def split: if_splits)

lemma decompress_4x1_ok:
  assumes t: "x1_ready t"
  shows "implements (huf_decompress_4x1 out src t) (huf_spec4 (code_cells t) src (length out))"
proof -
  let ?ws = "take (nb_symbols t) (weights t)" and ?k = "max_num_bits t"
  have c: "complete_code ?ws ?k" using t ready_code by (auto simp: x1_ready_def)
  have "length (x1_ref ?ws ?k) = 2048" using length_x1_ref [OF c] x1_ref_upto [OF c] by simp
  then have dt: "huf_cells (decode t) = Inr (decode t)"
    using t by (simp add: x1_ready_def x1_built_def huf_cells_def HUF_FAST_TABLE_LOG_def HUF_TABLELOG_MAX_def)
  show ?thesis
  proof (cases "streams_split src (length out)")
    case (Inl f)
    then show ?thesis
      using streams_split_err [OF Inl] dt by (auto simp: huf_decompress_4x1_def implements_def huf_spec4_def)
  next
    case st: (Inr st)
    note lay = streams_split_layout [OF st]
    from fast_init_ok [OF lay, of "code_cells t"] consider
        (plain) "huf_fast_args_init st src (length out) = Inr None"
      | (err) "\<exists>s < 4. seg_spec (code_cells t) st src (length out) s = None" "huf_fast_args_init st src (length out) = Inl (Err (HufError HufNoEndMark))"
      | (fast) a where "huf_fast_args_init st src (length out) = Inr (Some a)" by blast
    then show ?thesis
    proof cases
      case plain
      then show ?thesis by (rule plain_x1_correct [OF t st _ dt])
    next
      case err
      show ?thesis by (rule implements_specs [OF st]) (use err dt st in \<open>auto simp: huf_decompress_4x1_def\<close>)
    next
      case fast
      have s4: "set [0, 1, 2, 3] = {..<4::nat}" by auto
      from fast_x1_correct [OF t st fast] obtain a' out' where
        f: "huf_4x1_fast_loop a out src (decode t) = Inr (a', out')" "length out' = length out"
        "lanes_at (code_cells t) st src a' out' (set [0, 1, 2, 3])" unfolding s4 by blast
      have r: "huf_decompress_4x1 out src t = finish_with (\<lambda>w br. huf_decode_stream_x1 w br (decode t)) st src a' [0, 1, 2, 3] out'"
        using dt st fast f(1) by (simp add: huf_decompress_4x1_def finish_x1_with del: finish_x1.simps finish_with.simps)
      have l': "layout src (length out') st" using lay f(2) by simp
      show ?thesis
        by (rule implements_specs [OF st]) (use dec1.finish_ok [OF t l' f(3)] in \<open>unfold s4 f(2) r, auto\<close>)
    qed
  qed
qed

end
