(* ===== verification/Huffman_Four_X2.thy ===== *)
theory Huffman_Four_X2
  imports Huffman_Four_Correct
begin

text \<open>
  Four double-symbol streams: the fast loop never leaves a segment, so it is memory safe and its loops end;
  what it leaves is finished by the plain decoder.
\<close>

section \<open>A cell of a lane\<close>

lemma put_slice_take:
  assumes "q + length bs \<le> length out" and "a \<le> length bs" and "p \<le> q"
  shows "take (q + a - p) (drop p (put_slice out q bs)) = take (q - p) (drop p out) @ take a bs"
proof -
  have "take (q + a - p) (drop p (put_slice out q bs)) = drop p (take (q + a) (put_slice out q bs))" by (simp add: drop_take)
  also have "take (q + a) (put_slice out q bs) = take q out @ take a bs" using assms by (simp add: put_slice_def)
  finally show ?thesis using assms by (simp add: drop_take)
qed

lemma lane_cell_x2:
  assumes cc: "complete_code ws k" and len: "length ws \<le> 256" and lay: "layout src (length out) st" and s: "s < 4"
    and ok: "lane_ok (x1_ref ws k) st src s f out m q" and m: "m \<le> 52" and q: "q + 2 \<le> seg_end st (length out) s"
  shows "\<exists>e. table_entry (map (x2_ref (x1_ref ws k)) [0..<2048]) (unat (drop_bit 53 (fs_bits f))) = Inr e
    \<and> 1 \<le> x2_length e \<and> x2_length e \<le> 2
    \<and> lane_ok (x1_ref ws k) st src s (f\<lparr>fs_bits := push_bit (x2_nb_bits e) (fs_bits f), fs_op := fs_op f + x2_length e\<rparr>)
        (put_slice out q (le_bytes 2 (sequence e))) (m + 11) (q + x2_length e)"
proof -
  let ?X = "x1_ref ws k" and ?N = "le_nat (bytes_of st src s)"
  from ok obtain c where c: "c \<le> m" "fs_bits f = fast_word src (fs_ip f) c" "fs_ip f + 8 \<le> iend st ! s" "s * segment st \<le> q"
    "decodes ?X ?N (int (bit_length ?N) - 1) (take (q - s * segment st) (drop (s * segment st) out)) (lane_left st s f c)"
    by (auto simp: lane_ok_def)
  let ?V = "unat (drop_bit 53 (fs_bits f))"
  have V: "?V < 2048" using fast_lookup [of c src "fs_ip f"] c m by (simp add: take_bit_eq_mod)
  have ag: "agrees ?N (lane_left st s f c) ?V 11"
    unfolding c(2) lane_left_def bytes_of_def using c m lay s by (intro fast_agrees) (auto simp: layout_def)
  define e where "e = x2_ref ?X ?V"
  note d = decodes_cell [OF cc len V ag, folded e_def]
  let ?out = "put_slice out q (le_bytes 2 (sequence e))"
  have ql: "q + 2 \<le> length out" using q segment_end_eq(3) [OF lay s] by simp
  have "take (q + x2_length e - s * segment st) (drop (s * segment st) ?out)
      = take (q - s * segment st) (drop (s * segment st) out) @ take (x2_advance e) (le_bytes 2 (sequence e))"
    using put_slice_take [of q "le_bytes 2 (sequence e)" out "x2_length e" "s * segment st"] ql c(4) d(4,5) by auto
  then have "decodes ?X ?N (int (bit_length ?N) - 1) (take (q + x2_length e - s * segment st) (drop (s * segment st) ?out))
      (lane_left st s f c - int (x2_nb_bits e))"
    using decodes_trans [OF c(5) d(1)] by simp
  moreover have "length ?out = length out" using ql by simp
  ultimately have "lane_ok ?X st src s (f\<lparr>fs_bits := push_bit (x2_nb_bits e) (fs_bits f), fs_op := fs_op f + x2_length e\<rparr>) ?out (m + 11) (q + x2_length e)"
    unfolding lane_ok_def using c d(3,4,5) q
    by (intro exI [of _ "c + x2_nb_bits e"]) (auto simp: fast_word_push lane_left_def algebra_simps)
  moreover have "table_entry (map (x2_ref ?X) [0..<2048]) ?V = Inr e"
    using V by (simp add: table_entry_def e_def del: upt_rec_numeral)
  ultimately show ?thesis using d(4,5) by auto
qed

section \<open>The lanes of an iteration\<close>

text \<open>Lane \<open>j\<close> has decoded \<open>K j\<close> of the five cells of the iteration, the lanes in \<open>R\<close> have reloaded, and
  \<open>r\<close> more iterations fit behind this one.\<close>

definition lanes_x2 :: "(nat \<times> nat) list \<Rightarrow> huf_streams \<Rightarrow> u8 list \<Rightarrow> nat \<Rightarrow> (nat \<Rightarrow> nat) \<Rightarrow> nat set \<Rightarrow> nat \<Rightarrow> fast_state \<Rightarrow> bool" where
  "lanes_x2 X st src r K R lo fs = (case fs of (a, out) \<Rightarrow> lo + K 3 \<le> fs_op (a 3) \<and> (\<forall>j < 4.
     lane_ok X st src j (a j) out (if j \<in> R then 8 else 8 + 11 * K j) (fs_op (a j))
     \<and> fs_op (a j) + 2 * (5 - K j) + 10 * r \<le> seg_end st (length out) j
     \<and> 7 * r + (if j \<in> R then 0 else 7) \<le> fs_ip (a j)))"

lemma fast_decode_x2_ok:
  assumes cc: "complete_code ws k" and len: "length ws \<le> 256" and lay: "layout src (length out) st"
    and inv: "lanes_x2 (x1_ref ws k) st src r K R lo (a, out)" and j: "j < 4" "K j < 5" "j \<notin> R"
  shows "\<exists>a' out'. fast_decode_x2 (map (x2_ref (x1_ref ws k)) [0..<2048]) j (a, out) = Inr (a', out') \<and> length out' = length out
    \<and> lanes_x2 (x1_ref ws k) st src r (K(j := K j + 1)) R lo (a', out')"
proof -
  let ?X = "x1_ref ws k" and ?q = "fs_op (a j)"
  have l: "lane_ok ?X st src j (a j) out (8 + 11 * K j) ?q" "?q + 2 * (5 - K j) + 10 * r \<le> seg_end st (length out) j"
    using inv j(1,3) by (auto simp: lanes_x2_def)
  have q: "8 + 11 * K j \<le> 52" "?q + 2 \<le> seg_end st (length out) j" using l(2) j(2) by auto
  from lane_cell_x2 [OF cc len lay j(1) l(1) q] obtain e where
    e: "table_entry (map (x2_ref ?X) [0..<2048]) (unat (drop_bit 53 (fs_bits (a j)))) = Inr e" "1 \<le> x2_length e" "x2_length e \<le> 2"
    "lane_ok ?X st src j ((a j)\<lparr>fs_bits := push_bit (x2_nb_bits e) (fs_bits (a j)), fs_op := fs_op (a j) + x2_length e\<rparr>)
        (put_slice out ?q (le_bytes 2 (sequence e))) (8 + 11 * K j + 11) (?q + x2_length e)" by blast
  define f out1 where "f = (a j)\<lparr>fs_bits := push_bit (x2_nb_bits e) (fs_bits (a j)), fs_op := fs_op (a j) + x2_length e\<rparr>"
    and "out1 = put_slice out ?q (le_bytes 2 (sequence e))"
  have ql: "?q + 2 \<le> length out" using q(2) segment_end_eq(3) [OF lay j(1)] by simp
  have o1: "length out1 = length out" using ql by (simp add: out1_def)
  have qs: "j * segment st \<le> ?q" using l(1) by (auto simp: lane_ok_def)
  have out1: "out1 ! i = out ! i" if "i < j * segment st \<or> seg_end st (length out) j \<le> i" for i
    using that q(2) qs ql put_slice_outside [of ?q "le_bytes 2 (sequence e)" out i] by (auto simp: out1_def)
  have "fast_decode_x2 (map (x2_ref ?X) [0..<2048]) j (a, out) = Inr (a(j := f), out1)"
    using e(1) ql by (simp add: fast_decode_x2_def HUF_FAST_TABLE_LOG_def HUF_TABLELOG_MAX_def poke2_def f_def out1_def del: upt_rec_numeral)
  moreover have "lanes_x2 ?X st src r (K(j := K j + 1)) R lo (a(j := f), out1)"
    unfolding lanes_x2_def prod.case
  proof (intro conjI allI impI)
    show "lo + (K(j := K j + 1)) 3 \<le> fs_op ((a(j := f)) 3)" using inv e(2) by (auto simp: lanes_x2_def f_def)
    fix i :: nat
    assume i: "i < 4"
    show "lane_ok ?X st src i ((a(j := f)) i) out1 (if i \<in> R then 8 else 8 + 11 * (K(j := K j + 1)) i) (fs_op ((a(j := f)) i))"
    proof (cases "i = j")
      case True
      then show ?thesis using e(4) j(3) by (simp add: f_def out1_def add.commute)
    next
      case False
      then have "lane_ok ?X st src i (a i) out (if i \<in> R then 8 else 8 + 11 * K i) (fs_op (a i))" using inv i by (simp add: lanes_x2_def)
      from lane_ok_other [OF lay this i j(1) False o1 out1] show ?thesis using False by (simp split: if_splits)
    qed
    show "fs_op ((a(j := f)) i) + 2 * (5 - (K(j := K j + 1)) i) + 10 * r \<le> seg_end st (length out1) i"
      using inv i j(2) e(3) by (auto simp: lanes_x2_def f_def o1)
    show "7 * r + (if i \<in> R then 0 else 7) \<le> fs_ip ((a(j := f)) i)" using inv i by (auto simp: lanes_x2_def f_def)
  qed
  ultimately show ?thesis using o1 by blast
qed

lemma fast_refill_x2_ok:
  assumes lay: "layout src (length out) st" and inv: "lanes_x2 X st src r K R lo (a, out)" and j: "j < 4" "K j = 5" "j \<notin> R"
  shows "\<exists>a'. fast_refill src j (a, out) = Inr (a', out) \<and> lanes_x2 X st src r K (insert j R) lo (a', out)"
proof -
  have l: "lane_ok X st src j (a j) out 63 (fs_op (a j))" "7 \<le> fs_ip (a j)" using inv j by (auto simp: lanes_x2_def)
  from lane_refill [where a = a, OF lay j(1) l(1) _ l(2)] obtain f where
    f: "fast_refill src j (a, out) = Inr (a(j := f), out)" "fs_op f = fs_op (a j)" "fs_ip (a j) \<le> fs_ip f + 7"
    "lane_ok X st src j f out 7 (fs_op (a j))" by auto
  have "lanes_x2 X st src r K (insert j R) lo (a(j := f), out)"
    unfolding lanes_x2_def prod.case
  proof (intro conjI allI impI)
    show "lo + K 3 \<le> fs_op ((a(j := f)) 3)" using inv f(2) by (auto simp: lanes_x2_def)
    fix i :: nat
    assume i: "i < 4"
    show "lane_ok X st src i ((a(j := f)) i) out (if i \<in> insert j R then 8 else 8 + 11 * K i) (fs_op ((a(j := f)) i))"
      using inv i f(2,4) by (auto simp: lanes_x2_def intro: lane_ok_mono)
    show "fs_op ((a(j := f)) i) + 2 * (5 - K i) + 10 * r \<le> seg_end st (length out) i"
      using inv i f(2) by (auto simp: lanes_x2_def)
    show "7 * r + (if i \<in> insert j R then 0 else 7) \<le> fs_ip ((a(j := f)) i)"
      using inv i f(3) j(3) by (auto simp: lanes_x2_def)
  qed
  then show ?thesis using f(1) by blast
qed

lemma fast_decodes_x2_ok:
  assumes cc: "complete_code ws k" and len: "length ws \<le> 256" and "layout src (length out) st"
    and "lanes_x2 (x1_ref ws k) st src r K {} lo (a, out)" and "set js \<subseteq> {..<4}" and "\<forall>j < 4. K j + count_list js j \<le> 5"
  shows "\<exists>a' out'. fold_res (fast_decode_x2 (map (x2_ref (x1_ref ws k)) [0..<2048])) js (a, out) = Inr (a', out') \<and> length out' = length out
    \<and> lanes_x2 (x1_ref ws k) st src r (\<lambda>j. K j + count_list js j) {} lo (a', out')"
  using assms(3-6)
proof (induction js arbitrary: K a out)
  case Nil
  then show ?case by simp
next
  case (Cons j js)
  have j: "j < 4" "K j < 5" using Cons.prems(3,4) by (auto dest: spec [of _ j])
  from fast_decode_x2_ok [OF cc len Cons.prems(1,2) j] obtain a1 out1 where
    1: "fast_decode_x2 (map (x2_ref (x1_ref ws k)) [0..<2048]) j (a, out) = Inr (a1, out1)" "length out1 = length out"
    "lanes_x2 (x1_ref ws k) st src r (K(j := K j + 1)) {} lo (a1, out1)" by auto
  have c: "(\<lambda>i. (K(j := K j + 1)) i + count_list js i) = (\<lambda>i. K i + count_list (j # js) i)" by auto
  have "\<forall>i < 4. (K(j := K j + 1)) i + count_list js i \<le> 5" using Cons.prems(4) fun_cong [OF c] by metis
  from Cons.IH [OF _ 1(3) _ this] show ?case using 1(1,2) Cons.prems(1,3) unfolding c by (simp del: upt_rec_numeral count_list.simps)
qed

lemma fast_reload_x2_ok:
  assumes cc: "complete_code ws k" and len: "length ws \<le> 256" and lay: "layout src (length out) st"
    and inv: "lanes_x2 (x1_ref ws k) st src r K R lo (a, out)" and s: "s < 4" "s \<notin> R" "3 \<notin> R" "K 3 < 5" "K s + (if s = 3 then 1 else 0) = 5"
  shows "\<exists>a' out'. fast_reload_x2 src (map (x2_ref (x1_ref ws k)) [0..<2048]) s (a, out) = Inr (a', out') \<and> length out' = length out
    \<and> lanes_x2 (x1_ref ws k) st src r (K(3 := K 3 + 1)) (insert s R) lo (a', out')"
proof -
  have 3: "(3::nat) < 4" by simp
  from fast_decode_x2_ok [OF cc len lay inv 3 s(4,3)] obtain a1 out1 where
    1: "fast_decode_x2 (map (x2_ref (x1_ref ws k)) [0..<2048]) 3 (a, out) = Inr (a1, out1)" "length out1 = length out"
    "lanes_x2 (x1_ref ws k) st src r (K(3 := K 3 + 1)) R lo (a1, out1)" by auto
  have "layout src (length out1) st" "(K(3 := K 3 + 1)) s = 5" using lay 1(2) s(5) by (auto split: if_splits)
  from fast_refill_x2_ok [OF this(1) 1(3) s(1) this(2) s(2)] show ?thesis
    unfolding fast_reload_x2_def 1(1) res_bind_simps using 1(2) by blast
qed

lemma fast_x2_iter_ok:
  assumes cc: "complete_code ws k" and len: "length ws \<le> 256" and lay: "layout src (length out) st"
    and inv: "lanes_x2 (x1_ref ws k) st src r (\<lambda>_. 0) {} lo (a, out)"
  shows "\<exists>a' out'. fast_x2_iter src (map (x2_ref (x1_ref ws k)) [0..<2048]) (a, out) = Inr (a', out') \<and> length out' = length out
    \<and> lanes_x2 (x1_ref ws k) st src r (\<lambda>_. 5) {..<4} lo (a', out')"
proof -
  let ?X = "x1_ref ws k" and ?dt = "map (x2_ref (x1_ref ws k)) [0..<2048]"
  define K where "K = (\<lambda>j. 0 + count_list fast_x2_order j)"
  have K: "K 0 = 5" "K 1 = 5" "K 2 = 5" "K 3 = 1" by (simp_all add: K_def fast_x2_order_def)
  have "\<forall>j < 4. K j \<le> 5" unfolding all4 K by simp
  then have "\<forall>j < 4. 0 + count_list fast_x2_order j \<le> 5" by (simp add: K_def)
  moreover have "set fast_x2_order \<subseteq> {..<4}" by (simp add: fast_x2_order_def)
  ultimately obtain a0 out0 where 0: "fold_res (fast_decode_x2 ?dt) fast_x2_order (a, out) = Inr (a0, out0)" "length out0 = length out"
    "lanes_x2 ?X st src r K {} lo (a0, out0)" using fast_decodes_x2_ok [OF cc len lay inv] unfolding K_def by blast
  obtain a1 out1 where 1: "fast_reload_x2 src ?dt 0 (a0, out0) = Inr (a1, out1)" "length out1 = length out"
    "lanes_x2 ?X st src r (K(3 := 2)) {0} lo (a1, out1)"
    using fast_reload_x2_ok [OF cc len _ 0(3), of 0] lay 0(2) K by (auto simp del: upt_rec_numeral One_nat_def)
  obtain a2 out2 where 2: "fast_reload_x2 src ?dt 1 (a1, out1) = Inr (a2, out2)" "length out2 = length out"
    "lanes_x2 ?X st src r (K(3 := 3)) {0, 1} lo (a2, out2)"
    using fast_reload_x2_ok [OF cc len _ 1(3), of 1] lay 1(2) K by (auto simp: insert_commute simp del: upt_rec_numeral One_nat_def)
  obtain a3 out3 where 3: "fast_reload_x2 src ?dt 2 (a2, out2) = Inr (a3, out3)" "length out3 = length out"
    "lanes_x2 ?X st src r (K(3 := 4)) {0, 1, 2} lo (a3, out3)"
    using fast_reload_x2_ok [OF cc len _ 2(3), of 2] lay 2(2) K by (auto simp: insert_commute simp del: upt_rec_numeral One_nat_def)
  obtain a4 out4 where 4: "fast_reload_x2 src ?dt 3 (a3, out3) = Inr (a4, out4)" "length out4 = length out"
    "lanes_x2 ?X st src r (K(3 := 5)) {0, 1, 2, 3} lo (a4, out4)"
    using fast_reload_x2_ok [OF cc len _ 3(3), of 3] lay 3(2) K by (auto simp: insert_commute simp del: upt_rec_numeral One_nat_def)
  have s4: "{0, 1, 2, 3} = {..<4::nat}" by auto
  have "(K(3 := 5)) j = 5" if "j < 4" for j using that K by (cases "j = 3") (auto simp: numeral_eq_Suc less_Suc_eq)
  then have "lanes_x2 ?X st src r (\<lambda>_. 5) {..<4} lo (a4, out4)" using 4(3) unfolding s4 lanes_x2_def by auto
  then show ?thesis
    unfolding fast_x2_iter_def 0(1) res_bind_simps fold_res.simps 1(1) 2(1) 3(1) 4(1) using 4(2) by simp
qed

text \<open>Between iterations.\<close>

definition lanes_idle :: "(nat \<times> nat) list \<Rightarrow> huf_streams \<Rightarrow> u8 list \<Rightarrow> fast_state \<Rightarrow> bool" where
  "lanes_idle X st src fs = (case fs of (a, out) \<Rightarrow> \<forall>j < 4. lane_ok X st src j (a j) out 8 (fs_op (a j)))"

lemma fast_x2_inner_ok:
  assumes cc: "complete_code ws k" and len: "length ws \<le> 256" and "layout src (length out) st"
    and "lanes_x2 (x1_ref ws k) st src r (\<lambda>_. 0) {} lo (a, out)" and "olimit \<le> lo + 5 * Suc r" and "r < n"
  shows "\<exists>a' out'. fast_x2_inner n src (map (x2_ref (x1_ref ws k)) [0..<2048]) olimit (a, out) = Inr (a', out') \<and> length out' = length out
    \<and> lanes_idle (x1_ref ws k) st src (a', out') \<and> olimit \<le> fs_op (a' 3)"
  using assms(3-6)
proof (induction n arbitrary: r lo a out)
  case (Suc n)
  let ?X = "x1_ref ws k" and ?dt = "map (x2_ref (x1_ref ws k)) [0..<2048]"
  from fast_x2_iter_ok [OF cc len Suc.prems(1,2)] obtain a1 out1 where
    1: "fast_x2_iter src ?dt (a, out) = Inr (a1, out1)" "length out1 = length out" "lanes_x2 ?X st src r (\<lambda>_. 5) {..<4} lo (a1, out1)" by blast
  show ?case
  proof (cases "olimit \<le> fs_op (a1 3)")
    case True
    moreover have "lanes_idle ?X st src (a1, out1)" using 1(3) by (auto simp: lanes_x2_def lanes_idle_def)
    ultimately show ?thesis using 1(1,2) by (simp del: upt_rec_numeral)
  next
    case False
    have lo: "lo + 5 \<le> fs_op (a1 3)" using 1(3) by (simp add: lanes_x2_def)
    then obtain r' where r: "r = Suc r'" using False Suc.prems(3) by (cases r) auto
    have "lanes_x2 ?X st src r' (\<lambda>_. 0) {} (lo + 5) (a1, out1)"
      using 1(3) unfolding lanes_x2_def r by (auto dest!: spec)
    moreover have "layout src (length out1) st" "olimit \<le> lo + 5 + 5 * Suc r'" "r' < n"
      using Suc.prems(1,3,4) 1(2) r by auto
    ultimately obtain a' out' where "fast_x2_inner n src ?dt olimit (a1, out1) = Inr (a', out')" "length out' = length out1"
      "lanes_idle ?X st src (a', out')" "olimit \<le> fs_op (a' 3)" using Suc.IH [of out1 r' "lo + 5" a1] by blast
    then show ?thesis using 1(1,2) False by (simp del: upt_rec_numeral)
  qed
qed simp

lemma min5: "m = min (min (min (min a b) c) d) e \<Longrightarrow> m \<le> a \<and> m \<le> b \<and> m \<le> c \<and> m \<le> d \<and> m \<le> (e :: nat)"
  by (auto simp: min_def)

lemma fast_x2_iters_ok:
  assumes "\<forall>j < 4. fs_op (a j) \<le> oend j"
  shows "\<exists>it. fast_x2_iters oend a = Inr it \<and> it \<le> fs_ip (a 0) div 7 \<and> (\<forall>j < 4. 10 * it \<le> oend j - fs_op (a j))"
proof -
  define it where "it = min (min (min (min (fs_ip (a 0) div 7) ((oend 0 - fs_op (a 0)) div 10)) ((oend 1 - fs_op (a 1)) div 10))
    ((oend 2 - fs_op (a 2)) div 10)) ((oend 3 - fs_op (a 3)) div 10)"
  have n: "(oend 0 < fs_op (a 0)) = False" "(oend 1 < fs_op (a 1)) = False" "(oend 2 < fs_op (a 2)) = False" "(oend 3 < fs_op (a 3)) = False"
    using assms unfolding all4 by simp_all
  have "fast_x2_iters oend a = Inr it" unfolding fast_x2_iters_def fold_res.simps n if_False res_bind_simps it_def by (rule refl)
  moreover have "10 * it \<le> oend j - fs_op (a j)" if "it \<le> (oend j - fs_op (a j)) div 10" for j
    using le_trans [OF mult_le_mono2 [OF that, of 10]] by simp
  then have "\<forall>j < 4. 10 * it \<le> oend j - fs_op (a j)" unfolding all4 using min5 [OF it_def] by blast
  moreover have "it \<le> fs_ip (a 0) div 7" using min5 [OF it_def] by blast
  ultimately show ?thesis by blast
qed

lemma fast_x2_loop_ok:
  assumes cc: "complete_code ws k" and len: "length ws \<le> 256" and "layout src (length out) st"
    and "lanes_idle (x1_ref ws k) st src (a, out)" and "length out - fs_op (a 3) < n" and oe: "\<forall>j < 4. oend j = seg_end st (length out) j"
  shows "\<exists>a' out'. fast_x2_loop n src (map (x2_ref (x1_ref ws k)) [0..<2048]) oend (a, out) = Inr (a', out') \<and> length out' = length out
    \<and> lanes_idle (x1_ref ws k) st src (a', out')"
  using assms(3-6)
proof (induction n arbitrary: a out)
  case (Suc n)
  let ?X = "x1_ref ws k" and ?dt = "map (x2_ref (x1_ref ws k)) [0..<2048]"
  have op: "\<forall>j < 4. fs_op (a j) \<le> oend j" using Suc.prems(2,4) by (auto simp: lanes_idle_def lane_ok_def)
  from fast_x2_iters_ok [OF this] obtain it where
    it: "fast_x2_iters oend a = Inr it" "it \<le> fs_ip (a 0) div 7" "\<forall>j < 4. 10 * it \<le> oend j - fs_op (a j)" by blast
  have eq: "fast_x2_loop (Suc n) src ?dt oend (a, out) =
    (if it = 0 then Inr (a, out)
     else if fs_ip (a 1) < fs_ip (a 0) \<or> fs_ip (a 2) < fs_ip (a 1) \<or> fs_ip (a 3) < fs_ip (a 2) then Inr (a, out)
     else res_bind (fast_x2_inner (length out + 1) src ?dt (fs_op (a 3) + it * 5) (a, out)) (fast_x2_loop n src ?dt oend))"
    using it(1) by (simp del: upt_rec_numeral fast_x2_inner.simps)
  show ?case
  proof (cases "it = 0 \<or> fs_ip (a 1) < fs_ip (a 0) \<or> fs_ip (a 2) < fs_ip (a 1) \<or> fs_ip (a 3) < fs_ip (a 2)")
    case True
    then have "fast_x2_loop (Suc n) src ?dt oend (a, out) = Inr (a, out)" unfolding eq by auto
    then show ?thesis using Suc.prems(2) by blast
  next
    case False
    then obtain r where r: "it = Suc r" by (cases it) auto
    have "7 * it \<le> fs_ip (a 0)" using le_trans [OF mult_le_mono2 [OF it(2), of 7]] by simp
    then have ip: "\<forall>j < 4. 7 * Suc r \<le> fs_ip (a j)" unfolding all4 using False r by auto
    have room: "\<forall>j < 4. fs_op (a j) + 10 * Suc r \<le> oend j"
    proof (intro allI impI)
      fix j :: nat assume j: "j < 4"
      have "10 * it \<le> oend j - fs_op (a j)" "fs_op (a j) \<le> oend j" using it(3) op j by auto
      then show "fs_op (a j) + 10 * Suc r \<le> oend j" unfolding r by arith
    qed
    have inv: "lanes_x2 ?X st src r (\<lambda>_. 0) {} (fs_op (a 3)) (a, out)"
      unfolding lanes_x2_def prod.case
    proof (intro conjI allI impI)
      fix j :: nat assume j: "j < 4"
      show "lane_ok ?X st src j (a j) out (if j \<in> {} then 8 else 8 + 11 * 0) (fs_op (a j))" using Suc.prems(2) j by (simp add: lanes_idle_def)
      show "fs_op (a j) + 2 * (5 - 0) + 10 * r \<le> seg_end st (length out) j" using room Suc.prems(4) j by (auto dest!: spec [of _ j])
      show "7 * r + (if j \<in> {} then 0 else 7) \<le> fs_ip (a j)" using ip j by (auto dest!: spec [of _ j])
    qed simp
    have "oend 3 = length out" using Suc.prems(4) by (simp add: seg_end_def)
    then have rl: "r < length out + 1" using room by (auto dest!: spec [of _ 3])
    have ol: "fs_op (a 3) + it * 5 \<le> fs_op (a 3) + 5 * Suc r" using r by simp
    from fast_x2_inner_ok [OF cc len Suc.prems(1) inv ol rl] obtain a1 out1 where
      1: "fast_x2_inner (length out + 1) src ?dt (fs_op (a 3) + it * 5) (a, out) = Inr (a1, out1)" "length out1 = length out"
      "lanes_idle ?X st src (a1, out1)" "fs_op (a 3) + it * 5 \<le> fs_op (a1 3)" by blast
    have "layout src (length out1) st" "\<forall>j < 4. oend j = seg_end st (length out1) j" using 1(2) Suc.prems(1,4) by auto
    moreover have "length out1 - fs_op (a1 3) < n"
      using 1(2,4) Suc.prems(3) r room \<open>oend 3 = length out\<close> by (auto dest!: spec [of _ 3])
    ultimately obtain a' out' where "fast_x2_loop n src ?dt oend (a1, out1) = Inr (a', out')" "length out' = length out"
      "lanes_idle ?X st src (a', out')" using Suc.IH [of out1 a1] 1(2,3) by auto
    then show ?thesis unfolding eq using False 1(1) by (simp del: upt_rec_numeral fast_x2_inner.simps)
  qed
qed simp

lemma fast_x2_correct:
  assumes t: "x2_ready t" and sp: "streams_split src (length out) = Inr st"
    and a: "huf_fast_args_init st src (length out) = Inr (Some a)"
  shows "\<exists>a' out'. huf_4x2_fast_loop a out src (decode_x2 t) = Inr (a', out') \<and> length out' = length out
    \<and> lanes_at (code_cells t) st src a' out' {..<4}"
proof -
  let ?ws = "take (nb_symbols t) (weights t)" and ?k = "max_num_bits t"
  have c: "complete_code ?ws ?k" "length ?ws \<le> 256" using t ready_code by (auto simp: x2_ready_def)
  have dt: "decode_x2 t = map (x2_ref (x1_ref ?ws ?k)) [0..<2048]" using t by (simp add: x2_ready_def x2_built_def)
  note lay = streams_split_layout [OF sp]
  have i: "\<forall>s < 4. fs_op (a s) = s * segment st \<and> 8 \<le> iend st ! s - istart st ! s \<and> marked (bytes_of st src s)
      \<and> lane_ok (x1_ref ?ws ?k) st src s (a s) out 8 (s * segment st)"
    using fast_init_ok [OF lay, of "x1_ref ?ws ?k"] a by auto
  then have idle: "lanes_idle (x1_ref ?ws ?k) st src (a, out)" by (simp add: lanes_idle_def)
  define oe where "oe = (\<lambda>j :: nat. if j = 0 then fs_op (a 1) else if j = 1 then fs_op (a 2) else if j = 2 then fs_op (a 3) else length out)"
  have oe: "\<forall>j < 4. oe j = seg_end st (length out) j" using i unfolding all4 by (simp add: seg_end_def oe_def)
  have n: "length out - fs_op (a 3) < length out + 1" by simp
  from fast_x2_loop_ok [OF c lay idle n oe] obtain a' out' where
    f: "huf_4x2_fast_loop a out src (decode_x2 t) = Inr (a', out')" "length out' = length out" "lanes_idle (x1_ref ?ws ?k) st src (a', out')"
    unfolding huf_4x2_fast_loop_def dt oe_def by blast
  have "lanes_at (code_cells t) st src a' out' {..<4}"
    unfolding lanes_at_def code_cells_def using f(3) i by (auto simp: lanes_idle_def intro: lane_ok_mono)
  then show ?thesis using f(1,2) by simp
qed

section \<open>Segments filled in parts\<close>

text \<open>Every segment starts with the symbols \<open>S s\<close> and has room for them.\<close>

definition filled :: "huf_streams \<Rightarrow> u8 list \<Rightarrow> (nat \<Rightarrow> u8 list) \<Rightarrow> bool" where
  "filled st out S \<longleftrightarrow> (\<forall>s < 4. s * segment st + length (S s) \<le> seg_end st (length out) s
     \<and> take (length (S s)) (drop (s * segment st) out) = S s)"

lemma filled_step:
  assumes lay: "layout src (length out) st" and j: "j < 4" and len: "length out1 = length out" and f: "filled st out S"
    and t: "take (j * segment st + length (S j) + length nw) out1 = take (j * segment st + length (S j)) out @ nw"
    and fit: "j * segment st + length (S j) + length nw \<le> seg_end st (length out) j"
    and up: "\<And>i. seg_end st (length out) j \<le> i \<Longrightarrow> out1 ! i = out ! i"
  shows "filled st out1 (S(j := S j @ nw))"
  unfolding filled_def
proof (intro allI impI)
  fix s :: nat
  assume s: "s < 4"
  let ?A = "j * segment st" and ?m = "j * segment st + length (S j)"
  have S: "s * segment st + length (S s) \<le> seg_end st (length out) s" "take (length (S s)) (drop (s * segment st) out) = S s"
    and Sj: "take (length (S j)) (drop ?A out) = S j" using f s j by (auto simp: filled_def)
  have e: "seg_end st (length out) i \<le> length out" if "i < 4" for i using segment_end_eq(3) [OF lay that] .
  show "s * segment st + length ((S(j := S j @ nw)) s) \<le> seg_end st (length out1) s
      \<and> take (length ((S(j := S j @ nw)) s)) (drop (s * segment st) out1) = (S(j := S j @ nw)) s"
  proof (cases "s = j")
    case True
    have "take (length (S j @ nw)) (drop ?A out1) = drop ?A (take (?m + length nw) out1)" by (simp add: drop_take)
    also have "\<dots> = S j @ nw" unfolding t using Sj fit e [OF j] by (simp add: drop_take)
    finally show ?thesis using True fit len by simp
  next
    case False
    have low: "out1 ! i = out ! i" if "i < ?A" for i
    proof -
      have "take ?A out1 = take ?A (take (?m + length nw) out1)" by simp
      also have "\<dots> = take ?A out" unfolding t using fit e [OF j] by simp
      finally show ?thesis using that by (metis nth_take)
    qed
    have "out1 ! i = out ! i" if "s * segment st \<le> i" "i < s * segment st + length (S s)" for i
      using segments_apart [OF lay j s] False that S(1) low up by fastforce
    then have "take (length (S s)) (drop (s * segment st) out1) = take (length (S s)) (drop (s * segment st) out)"
      using len S(1) e [OF s] by (intro nth_equalityI) auto
    then show ?thesis using False S len by simp
  qed
qed

lemma filled_seg_of: "filled st out S \<Longrightarrow> s < 4 \<Longrightarrow> s * segment st + length (S s) = seg_end st (length out) s \<Longrightarrow> seg_of st out s = S s"
  unfolding filled_def seg_of_def by (metis diff_add_inverse)

section \<open>Cursors of the plain loop\<close>

definition cur_ok :: "(nat \<times> nat) list \<Rightarrow> huf_streams \<Rightarrow> u8 list \<Rightarrow> nat \<Rightarrow> nat \<Rightarrow> u8 list \<Rightarrow> cursor \<Rightarrow> bool" where
  "cur_ok X st src s n sy c \<longleftrightarrow> reads X (bytes_of st src s) n sy (fst c) \<and> snd c = s * segment st + length sy
     \<and> decodes_pre X (le_nat (bytes_of st src s)) (int (bit_length (le_nat (bytes_of st src s))) - 1) sy (ds_left (fst c))"

lemma cur_less: "cur_ok X st src s n sy c \<Longrightarrow> m \<le> n \<Longrightarrow> cur_ok X st src s m sy c"
  by (auto simp: cur_ok_def intro: reads_less)

text \<open>A reader with bits left at the end of its segment cannot consume its stream there.\<close>

lemma cur_overrun:
  assumes c: "cur_ok X st src s n sy c" and o: "seg_end st k s \<le> snd c" and l: "0 < ds_left (fst c)"
  shows "seg_spec X st src k s = None"
proof -
  let ?b = "bytes_of st src s" and ?m = "seg_end st k s - s * segment st"
  have m: "?m \<le> length sy" using o c by (auto simp: cur_ok_def)
  then obtain lp where lp: "ds_left (fst c) \<le> lp" "decodes X (le_nat ?b) (int (bit_length (le_nat ?b)) - 1) (take ?m sy) lp"
    using c unfolding cur_ok_def decodes_pre_def by blast
  have "marked ?b" using c by (simp add: cur_ok_def reads_def)
  from huf_spec_from [OF this lp(2), of ?m] show ?thesis
    using m l lp(1) by (simp add: seg_spec_def ref_at_def)
qed

lemma plain_x2_cells_ok:
  assumes cc: "complete_code ws k" and len: "length ws \<le> 256" and lay: "layout src (length out) st" and j: "j < 4"
    and c: "cur_ok (x1_ref ws k) st src j 44 (S j) c" and room: "snd c + 8 \<le> length out"
  shows "\<exists>c' out' nw. plain_x2_cells (map (x2_ref (x1_ref ws k)) [0..<2048]) c out = Inr (c', out') \<and> length out' = length out
    \<and> cur_ok (x1_ref ws k) st src j 0 (S j @ nw) c' \<and> 4 \<le> length nw \<and> length nw \<le> 8 \<and> ds_left (fst c) \<le> ds_left (fst c') + 44
    \<and> (snd c' < seg_end st (length out) j \<or> snd c + 8 \<le> seg_end st (length out) j \<longrightarrow> filled st out S
       \<longrightarrow> filled st out' (S(j := S j @ nw)))"
proof -
  let ?X = "x1_ref ws k" and ?b = "bytes_of st src j" and ?dt = "map (x2_ref (x1_ref ws k)) [0..<2048]"
  obtain br op where cx: "c = (br, op)" by (cases c)
  have r: "ds_room (11 * (8 div 2) + 0) br" "ds_src br = ?b" "marked ?b" "op = j * segment st + length (S j)"
    "decodes ?X (le_nat ?b) (int (bit_length (le_nat ?b)) - 1) (S j) (ds_left br)"
    "decodes_pre ?X (le_nat ?b) (int (bit_length (le_nat ?b)) - 1) (S j) (ds_left br)"
    using c by (auto simp: cur_ok_def reads_def cx)
  have op: "op + 8 \<le> length out" using room cx by simp
  from decode_cells_x2_ok [OF cc len r(1) op] obtain out' br' nw where
    d: "huf_decode_cells_x2 8 out op br ?dt = Inr (out', length nw, br')" "ds_room 0 br'" "ds_src br' = ?b" "length out' = length out"
    "4 \<le> length nw" "length nw \<le> 8" "take (op + length nw) out' = take op out @ nw" "drop (op + 8) out' = drop (op + 8) out"
    "decodes ?X (le_nat ?b) (ds_left br) nw (ds_left br')" "decodes_pre ?X (le_nat ?b) (ds_left br) nw (ds_left br')"
    "ds_left br \<le> ds_left br' + 44" "\<forall>i. op + length nw < i \<longrightarrow> out' ! i = out ! i"
    unfolding r(2) by auto
  have "plain_x2_cells ?dt c out = Inr ((br', op + length nw), out')" using d(1) by (simp add: plain_x2_cells_def cx del: upt_rec_numeral)
  moreover have "cur_ok ?X st src j 0 (S j @ nw) (br', op + length nw)"
    using d(2,3) r(3,4) decodes_trans [OF r(5) d(9)] decodes_pre_trans [OF r(5,6) d(10)] by (simp add: cur_ok_def reads_def)
  moreover have "filled st out' (S(j := S j @ nw))"
    if fit: "op + length nw < seg_end st (length out) j \<or> op + 8 \<le> seg_end st (length out) j" and f: "filled st out S"
  proof (rule filled_step [OF lay j d(4) f])
    show "take (j * segment st + length (S j) + length nw) out' = take (j * segment st + length (S j)) out @ nw"
      using d(7) unfolding r(4) .
    show "j * segment st + length (S j) + length nw \<le> seg_end st (length out) j" using fit d(6) r(4) by auto
    fix i
    assume i: "seg_end st (length out) j \<le> i"
    show "out' ! i = out ! i"
    proof (cases "op + 8 \<le> i")
      case True
      then obtain q where "i = op + 8 + q" using le_Suc_ex by blast
      then show ?thesis using arg_cong [OF d(8), of "\<lambda>xs. xs ! q"] op d(4) by simp
    next
      case False
      then show ?thesis using d(12) fit i by auto
    qed
  qed
  ultimately show ?thesis
    using d(4,5,6,11) unfolding cx fst_conv snd_conv
    by (intro exI [of _ "(br', op + length nw)"] exI [of _ out'] exI [of _ nw]) auto
qed

lemma plain_x2_reload_ok:
  assumes "cur_ok X st src s 0 sy c"
  shows "\<exists>g c'. plain_x2_reload c = Inr (g, c') \<and> cur_ok X st src s 0 sy c' \<and> snd c' = snd c \<and> ds_left (fst c') = ds_left (fst c)
    \<and> (g \<longrightarrow> cur_ok X st src s 44 sy c' \<and> 57 \<le> ds_left (fst c'))"
proof -
  obtain br op where cx: "c = (br, op)" by (cases c)
  have "ds_room 0 br" using assms by (simp add: cur_ok_def reads_def cx)
  from reload_fast_room [OF this] obtain t br' where
    r: "reload_fast br = Inr (t, br')" "ds_room 0 br'" "ds_src br' = ds_src br" "ds_left br' = ds_left br"
    "t = Unfinished \<longrightarrow> ds_room 57 br' \<and> 0 < ds_left br' - 56" by blast
  have "cur_ok X st src s n sy (br', op)" if "ds_room n br'" for n
    using assms r(3,4) that by (simp add: cur_ok_def reads_def cx)
  then show ?thesis using r ds_room_less [of 57 br' 44] by (auto simp: plain_x2_reload_def cx)
qed

text \<open>One of four.\<close>

definition nth4 :: "'a \<times> 'a \<times> 'a \<times> 'a \<Rightarrow> nat \<Rightarrow> 'a" where
  "nth4 cs s = (case cs of (c1, c2, c3, c4) \<Rightarrow> if s = 0 then c1 else if s = 1 then c2 else if s = 2 then c3 else c4)"

lemma nth4_simps [simp]: "nth4 (c1, c2, c3, c4) 0 = c1" "nth4 (c1, c2, c3, c4) (Suc 0) = c2" "nth4 (c1, c2, c3, c4) 1 = c2"
  "nth4 (c1, c2, c3, c4) 2 = c3" "nth4 (c1, c2, c3, c4) 3 = c4"
  by (auto simp: nth4_def)

lemma plain_x2_iter_ok:
  assumes cc: "complete_code ws k" and len: "length ws \<le> 256" and lay: "layout src (length out) st"
    and c: "\<forall>s < 4. cur_ok (x1_ref ws k) st src s 44 (S s) (nth4 cs s)" and room: "\<forall>s < 4. snd (nth4 cs s) + 8 \<le> length out"
  shows "\<exists>g cs' out' nw. plain_x2_iter (map (x2_ref (x1_ref ws k)) [0..<2048]) cs out = Inr (g, cs', out') \<and> length out' = length out
    \<and> (\<forall>s < 4. cur_ok (x1_ref ws k) st src s 0 (S s @ nw s) (nth4 cs' s) \<and> 4 \<le> length (nw s) \<and> length (nw s) \<le> 8
        \<and> ds_left (fst (nth4 cs s)) \<le> ds_left (fst (nth4 cs' s)) + 44
        \<and> (g \<longrightarrow> cur_ok (x1_ref ws k) st src s 44 (S s @ nw s) (nth4 cs' s) \<and> 57 \<le> ds_left (fst (nth4 cs' s))))
    \<and> ((\<forall>s < 4. snd (nth4 cs' s) < seg_end st (length out) s \<or> snd (nth4 cs s) + 8 \<le> seg_end st (length out) s)
        \<longrightarrow> filled st out S \<longrightarrow> filled st out' (\<lambda>s. S s @ nw s))"
proof -
  let ?X = "x1_ref ws k" and ?dt = "map (x2_ref (x1_ref ws k)) [0..<2048]" and ?E = "seg_end st (length out)"
  obtain c1 c2 c3 c4 where cs: "cs = (c1, c2, c3, c4)" by (cases cs)
  have k: "cur_ok ?X st src 0 44 (S 0) c1" "cur_ok ?X st src 1 44 (S 1) c2" "cur_ok ?X st src 2 44 (S 2) c3" "cur_ok ?X st src 3 44 (S 3) c4"
    "snd c1 + 8 \<le> length out" "snd c2 + 8 \<le> length out" "snd c3 + 8 \<le> length out" "snd c4 + 8 \<le> length out"
    using c room unfolding all4 cs by auto
  note step = plain_x2_cells_ok [OF cc len]
  have n: "(0::nat) < 4" "(1::nat) < 4" "(2::nat) < 4" "(3::nat) < 4" by auto
  from step [where S = S, OF lay n(1) k(1,5)] obtain d1 o1 n1 where
    1: "plain_x2_cells ?dt c1 out = Inr (d1, o1)" "length o1 = length out" "cur_ok ?X st src 0 0 (S 0 @ n1) d1" "4 \<le> length n1" "length n1 \<le> 8"
    "ds_left (fst c1) \<le> ds_left (fst d1) + 44"
    "snd d1 < ?E 0 \<or> snd c1 + 8 \<le> ?E 0 \<longrightarrow> filled st out S \<longrightarrow> filled st o1 (S(0 := S 0 @ n1))" by blast
  define S1 where "S1 = S(0 := S 0 @ n1)"
  have 2: "layout src (length o1) st" "cur_ok ?X st src 1 44 (S1 1) c2" "snd c2 + 8 \<le> length o1"
    using lay 1(2) k(2,6) by (auto simp: S1_def)
  from step [where S = S1, OF 2(1) n(2) 2(2,3)] obtain d2 o2 n2 where
    2: "plain_x2_cells ?dt c2 o1 = Inr (d2, o2)" "length o2 = length out" "cur_ok ?X st src 1 0 (S1 1 @ n2) d2" "4 \<le> length n2" "length n2 \<le> 8"
    "ds_left (fst c2) \<le> ds_left (fst d2) + 44"
    "snd d2 < ?E 1 \<or> snd c2 + 8 \<le> ?E 1 \<longrightarrow> filled st o1 S1 \<longrightarrow> filled st o2 (S1(1 := S1 1 @ n2))" unfolding 1(2) by blast
  define S2 where "S2 = S1(1 := S1 1 @ n2)"
  have 3: "layout src (length o2) st" "cur_ok ?X st src 2 44 (S2 2) c3" "snd c3 + 8 \<le> length o2"
    using lay 2(2) k(3,7) by (auto simp: S1_def S2_def)
  from step [where S = S2, OF 3(1) n(3) 3(2,3)] obtain d3 o3 n3 where
    3: "plain_x2_cells ?dt c3 o2 = Inr (d3, o3)" "length o3 = length out" "cur_ok ?X st src 2 0 (S2 2 @ n3) d3" "4 \<le> length n3" "length n3 \<le> 8"
    "ds_left (fst c3) \<le> ds_left (fst d3) + 44"
    "snd d3 < ?E 2 \<or> snd c3 + 8 \<le> ?E 2 \<longrightarrow> filled st o2 S2 \<longrightarrow> filled st o3 (S2(2 := S2 2 @ n3))" unfolding 2(2) by blast
  define S3 where "S3 = S2(2 := S2 2 @ n3)"
  have 4: "layout src (length o3) st" "cur_ok ?X st src 3 44 (S3 3) c4" "snd c4 + 8 \<le> length o3"
    using lay 3(2) k(4,8) by (auto simp: S1_def S2_def S3_def)
  from step [where S = S3, OF 4(1) n(4) 4(2,3)] obtain d4 o4 n4 where
    4: "plain_x2_cells ?dt c4 o3 = Inr (d4, o4)" "length o4 = length out" "cur_ok ?X st src 3 0 (S3 3 @ n4) d4" "4 \<le> length n4" "length n4 \<le> 8"
    "ds_left (fst c4) \<le> ds_left (fst d4) + 44"
    "snd d4 < ?E 3 \<or> snd c4 + 8 \<le> ?E 3 \<longrightarrow> filled st o3 S3 \<longrightarrow> filled st o4 (S3(3 := S3 3 @ n4))" unfolding 3(2) by blast
  define nw where "nw = nth4 (n1, n2, n3, n4)"
  have S: "S1 1 = S 1" "S2 2 = S 2" "S3 3 = S 3" "nw 0 = n1" "nw 1 = n2" "nw 2 = n3" "nw 3 = n4" by (auto simp: S1_def S2_def S3_def nw_def)
  have fill: "filled st o4 (\<lambda>s. S s @ nw s)" if "filled st o4 (S3(3 := S3 3 @ n4))"
    using that unfolding filled_def all4 S1_def S2_def S3_def by (simp add: S S [simplified])
  from plain_x2_reload_ok [OF 1(3)] obtain g1 e1 where r1: "plain_x2_reload d1 = Inr (g1, e1)" "cur_ok ?X st src 0 0 (S 0 @ nw 0) e1" "snd e1 = snd d1"
    "ds_left (fst e1) = ds_left (fst d1)" "g1 \<longrightarrow> cur_ok ?X st src 0 44 (S 0 @ nw 0) e1 \<and> 57 \<le> ds_left (fst e1)" unfolding S by blast
  from plain_x2_reload_ok [OF 2(3)] obtain g2 e2 where r2: "plain_x2_reload d2 = Inr (g2, e2)" "cur_ok ?X st src 1 0 (S 1 @ nw 1) e2" "snd e2 = snd d2"
    "ds_left (fst e2) = ds_left (fst d2)" "g2 \<longrightarrow> cur_ok ?X st src 1 44 (S 1 @ nw 1) e2 \<and> 57 \<le> ds_left (fst e2)" unfolding S by blast
  from plain_x2_reload_ok [OF 3(3)] obtain g3 e3 where r3: "plain_x2_reload d3 = Inr (g3, e3)" "cur_ok ?X st src 2 0 (S 2 @ nw 2) e3" "snd e3 = snd d3"
    "ds_left (fst e3) = ds_left (fst d3)" "g3 \<longrightarrow> cur_ok ?X st src 2 44 (S 2 @ nw 2) e3 \<and> 57 \<le> ds_left (fst e3)" unfolding S by blast
  from plain_x2_reload_ok [OF 4(3)] obtain g4 e4 where r4: "plain_x2_reload d4 = Inr (g4, e4)" "cur_ok ?X st src 3 0 (S 3 @ nw 3) e4" "snd e4 = snd d4"
    "ds_left (fst e4) = ds_left (fst d4)" "g4 \<longrightarrow> cur_ok ?X st src 3 44 (S 3 @ nw 3) e4 \<and> 57 \<le> ds_left (fst e4)" unfolding S by blast
  have it: "plain_x2_iter ?dt cs out = Inr (g1 \<and> g2 \<and> g3 \<and> g4, (e1, e2, e3, e4), o4)"
    unfolding plain_x2_iter_def cs prod.case 1(1) 2(1) 3(1) 4(1) r1(1) r2(1) r3(1) r4(1) res_bind_simps by (rule refl)
  have "filled st o4 (\<lambda>s. S s @ nw s)"
    if "\<forall>s < 4. snd (nth4 (e1, e2, e3, e4) s) < ?E s \<or> snd (nth4 cs s) + 8 \<le> ?E s" "filled st out S"
    using that(1) 1(7) 2(7) 3(7) 4(7) that(2) fill unfolding all4 cs nth4_simps r1(3) r2(3) r3(3) r4(3) S1_def [symmetric] S2_def [symmetric] S3_def [symmetric] by blast
  then show ?thesis
    using it 4(2) 1(4-6) 2(4-6) 3(4-6) 4(4-6) r1(2,4,5) r2(2,4,5) r3(2,4,5) r4(2,4,5) unfolding cs
    by (intro exI [of _ "g1 \<and> g2 \<and> g3 \<and> g4"] exI [of _ "(e1, e2, e3, e4)"] exI [of _ o4] exI [of _ nw] conjI)
      (simp_all add: all4 S S [simplified] del: upt_rec_numeral)
qed

section \<open>The plain loop\<close>

text \<open>The state after \<open>i\<close> iterations: no stream can outrun the last one by more than a factor of two, and
  either the segments hold what was decoded or some stream cannot end where its segment does.\<close>

definition plain_x2_inv :: "(nat \<times> nat) list \<Rightarrow> huf_streams \<Rightarrow> u8 list \<Rightarrow> nat \<Rightarrow> (nat \<Rightarrow> u8 list) \<Rightarrow> cursor \<times> cursor \<times> cursor \<times> cursor
    \<Rightarrow> u8 list \<Rightarrow> bool" where
  "plain_x2_inv X st src i S cs out \<longleftrightarrow>
     (\<forall>s < 4. cur_ok X st src s 0 (S s) (nth4 cs s) \<and> length (S s) \<le> 8 * i) \<and> 4 * i \<le> length (S 3) \<and> snd (nth4 cs 3) \<le> length out
     \<and> ((\<exists>s < 4. seg_spec X st src (length out) s = None) \<or> filled st out S)"

lemma plain_x2_room:
  assumes lay: "layout src (length out) st" and inv: "plain_x2_inv X st src i S cs out" and last: "snd (nth4 cs 3) + 8 \<le> length out" and s: "s < 4"
  shows "snd (nth4 cs s) + 8 \<le> length out"
proof (cases "s = 3")
  case False
  have b: "3 * segment st \<le> length out" "length out \<le> 4 * segment st" using lay by (auto simp: layout_def)
  have "snd (nth4 cs 3) = 3 * segment st + length (S 3)" "4 * i \<le> length (S 3)"
    "snd (nth4 cs s) = s * segment st + length (S s)" "length (S s) \<le> 8 * i"
    using inv s by (auto simp: plain_x2_inv_def cur_ok_def)
  moreover have "s * segment st \<le> 2 * segment st" using s False by (intro mult_le_mono1) simp
  ultimately show ?thesis using last b by linarith
qed (use last in simp)

lemma plain_x2_loop_ok:
  assumes cc: "complete_code ws k" and len: "length ws \<le> 256" and "layout src (length out) st"
    and "plain_x2_inv (x1_ref ws k) st src i S cs out"
    and "e \<longrightarrow> (\<forall>s < 4. cur_ok (x1_ref ws k) st src s 44 (S s) (nth4 cs s) \<and> (i = 0 \<and> 8 \<le> length out - 3 * segment st \<or> 57 \<le> ds_left (fst (nth4 cs s))))"
  shows "\<exists>cs' out' S' i'. plain_x2_loop (map (x2_ref (x1_ref ws k)) [0..<2048]) e cs out = Inr (cs', out') \<and> length out' = length out
    \<and> plain_x2_inv (x1_ref ws k) st src i' S' cs' out'"
  using assms(3-5)
proof (induction "length out - 4 * i" arbitrary: i S cs out e rule: less_induct)
  case less
  let ?X = "x1_ref ws k" and ?dt = "map (x2_ref (x1_ref ws k)) [0..<2048]" and ?E = "seg_end st (length out)"
  obtain c1 c2 c3 c4 where cs: "cs = (c1, c2, c3, c4)" by (cases cs)
  show ?case
  proof (cases "e \<and> snd c4 + 8 \<le> length out")
    case False
    then have "plain_x2_loop ?dt e cs out = Inr (cs, out)" unfolding cs by (subst plain_x2_loop.simps) auto
    then show ?thesis using less.prems(2) by blast
  next
    case True
    have k: "\<forall>s < 4. cur_ok ?X st src s 44 (S s) (nth4 cs s)" using less.prems(3) True by blast
    have last: "snd (nth4 cs 3) + 8 \<le> length out" using True by (simp add: cs)
    have room: "\<forall>s < 4. snd (nth4 cs s) + 8 \<le> length out" using plain_x2_room [OF less.prems(1,2) last] by blast
    from plain_x2_iter_ok [OF cc len less.prems(1) k room] obtain g cs1 out1 nw where
      1: "plain_x2_iter ?dt cs out = Inr (g, cs1, out1)" "length out1 = length out"
      "\<forall>s < 4. cur_ok ?X st src s 0 (S s @ nw s) (nth4 cs1 s) \<and> 4 \<le> length (nw s) \<and> length (nw s) \<le> 8
        \<and> ds_left (fst (nth4 cs s)) \<le> ds_left (fst (nth4 cs1 s)) + 44
        \<and> (g \<longrightarrow> cur_ok ?X st src s 44 (S s @ nw s) (nth4 cs1 s) \<and> 57 \<le> ds_left (fst (nth4 cs1 s)))"
      "(\<forall>s < 4. snd (nth4 cs1 s) < ?E s \<or> snd (nth4 cs s) + 8 \<le> ?E s) \<longrightarrow> filled st out S \<longrightarrow> filled st out1 (\<lambda>s. S s @ nw s)"
      by blast
    have over: "seg_spec ?X st src (length out) s = None" if s: "s < 4" "\<not> (snd (nth4 cs1 s) < ?E s \<or> snd (nth4 cs s) + 8 \<le> ?E s)" for s
    proof -
      have "57 \<le> ds_left (fst (nth4 cs s))"
      proof (rule ccontr)
        assume "\<not> 57 \<le> ds_left (fst (nth4 cs s))"
        then have i0: "i = 0" "8 \<le> length out - 3 * segment st" using less.prems(3) True s(1) by auto
        then have "S s = []" "snd (nth4 cs s) = s * segment st + length (S s)" using less.prems(2) s(1) by (auto simp: plain_x2_inv_def cur_ok_def)
        moreover have "s * segment st + 8 \<le> ?E s"
          using i0(2) less.prems(1) s(1) by (auto simp: seg_end_def layout_def) (cases "s = 3", auto)
        ultimately show False using s(2) by simp
      qed
      then have "0 < ds_left (fst (nth4 cs1 s))" using 1(3) s(1) by fastforce
      moreover have "cur_ok ?X st src s 0 (S s @ nw s) (nth4 cs1 s)" "?E s \<le> snd (nth4 cs1 s)" using 1(3) s by auto
      ultimately show ?thesis by (intro cur_overrun) auto
    qed
    have "plain_x2_inv ?X st src (i + 1) (\<lambda>s. S s @ nw s) cs1 out1"
      unfolding plain_x2_inv_def
    proof (intro conjI)
      show "\<forall>s < 4. cur_ok ?X st src s 0 (S s @ nw s) (nth4 cs1 s) \<and> length (S s @ nw s) \<le> 8 * (i + 1)"
        using 1(3) less.prems(2) unfolding plain_x2_inv_def by fastforce
      show "4 * (i + 1) \<le> length (S 3 @ nw 3)" using 1(3) less.prems(2) unfolding plain_x2_inv_def all4 by simp
      have "snd (nth4 cs 3) = 3 * segment st + length (S 3)" "snd (nth4 cs1 3) = 3 * segment st + length (S 3 @ nw 3)" "length (nw 3) \<le> 8"
        using 1(3) k unfolding all4 cur_ok_def by auto
      then show "snd (nth4 cs1 3) \<le> length out1" using last 1(2) by simp
      show "(\<exists>s < 4. seg_spec ?X st src (length out1) s = None) \<or> filled st out1 (\<lambda>s. S s @ nw s)"
        using less.prems(2) 1(2,4) over unfolding plain_x2_inv_def by metis
    qed
    moreover have "g \<longrightarrow> (\<forall>s < 4. cur_ok ?X st src s 44 (S s @ nw s) (nth4 cs1 s)
        \<and> (i + 1 = 0 \<and> 8 \<le> length out1 - 3 * segment st \<or> 57 \<le> ds_left (fst (nth4 cs1 s))))" using 1(3) by blast
    moreover have "length out1 - 4 * (i + 1) < length out - 4 * i"
    proof -
      have "4 * i \<le> length (S 3)" "snd (nth4 cs 3) = 3 * segment st + length (S 3)" using less.prems(2) by (auto simp: plain_x2_inv_def cur_ok_def)
      then have "4 * i + 8 \<le> length out" using last by linarith
      then show ?thesis using 1(2) by simp
    qed
    moreover have "layout src (length out1) st" using less.prems(1) 1(2) by simp
    ultimately obtain cs' out' S' i' where "plain_x2_loop ?dt g cs1 out1 = Inr (cs', out')" "length out' = length out1"
      "plain_x2_inv ?X st src i' S' cs' out'" using less.hyps [of out1 "i + 1" "\<lambda>s. S s @ nw s" cs1 g] by blast
    moreover have "plain_x2_loop ?dt e cs out = plain_x2_loop ?dt g cs1 out1"
      using 1(1) True unfolding cs by (subst plain_x2_loop.simps) (simp del: upt_rec_numeral)
    ultimately show ?thesis using 1(2) by (metis (no_types))
  qed
qed

section \<open>The double-symbol driver\<close>

lemma plain_x2_finish_ok:
  assumes t: "x2_ready t" and lay: "layout src (length out) st" and s: "s < 4"
    and c: "cur_ok (code_cells t) st src s 0 (S s) c" and o: "snd c \<le> seg_end st (length out) s"
  shows "\<exists>br out' w. plain_x2_finish (decode_x2 t) t c (seg_end st (length out) s) out = Inr (br, out') \<and> length out' = length out
    \<and> s * segment st + length (S s @ w) = seg_end st (length out) s
    \<and> seg_spec (code_cells t) st src (length out) s = (if is_finished br then Some (S s @ w) else None)
    \<and> (filled st out S \<longrightarrow> filled st out' (S(s := S s @ w)))"
proof -
  let ?X = "code_cells t" and ?b = "bytes_of st src s" and ?E = "seg_end st (length out) s"
  obtain br op where cx: "c = (br, op)" by (cases c)
  have r: "ds_room 0 br" "ds_src br = ?b" "marked ?b" "op = s * segment st + length (S s)"
    "decodes ?X (le_nat ?b) (int (bit_length (le_nat ?b)) - 1) (S s) (ds_left br)"
    using c by (auto simp: cur_ok_def reads_def cx)
  have E: "op \<le> ?E" "?E \<le> length out" using o cx segment_end_eq(3) [OF lay s] by auto
  define w0 where "w0 = take (?E - op) (drop op out)"
  have w0: "slice out op ?E = Inr w0" "length w0 = ?E - op" using E by (auto simp: w0_def)
  from dec2.dec_rest [OF t r(1,2,3,5), of w0] obtain br' w where
    w: "huf_decode_stream_x2 w0 br (decode_x2 t) t = Inr (br', w)" "length w = ?E - op"
    "huf_spec ?X ?b (length (S s) + (?E - op)) = (if is_finished br' then Some (S s @ w) else None)" using w0(2) by auto
  have n: "length (S s) + (?E - op) = ?E - s * segment st" using E(1) r(4) by simp
  have "plain_x2_finish (decode_x2 t) t c ?E out = Inr (br', put_slice out op w)"
    using w0(1) w(1,2) E by (simp add: plain_x2_finish_def cx copy_into_ok)
  moreover have "filled st (put_slice out op w) (S(s := S s @ w))" if "filled st out S"
    using w(2) E r(4) take_put_slice [of op out w] put_slice_outside [of op w out]
    by (intro filled_step [OF lay s _ that]) auto
  moreover have "length (put_slice out op w) = length out" using w(2) E by simp
  moreover have "s * segment st + length (S s @ w) = ?E" using w(2) E(1) r(4) by simp
  ultimately show ?thesis using w(3) unfolding n seg_spec_def by blast
qed

lemma cur_new:
  assumes "layout src n st" and "s < 4" and "res_bind (stream_of st src s) ds_new = Inr br"
  shows "cur_ok X st src s 56 [] (br, s * segment st)"
proof -
  have "ds_new (bytes_of st src s) = Inr br" using assms(3) stream_of_ok [OF assms(1,2)] by simp
  then show ?thesis using reads_new ds_new_ready(4) by (simp add: cur_ok_def)
qed

lemma plain_x2_correct:
  assumes t: "x2_ready t" and sp: "streams_split src (length out) = Inr st"
    and a: "huf_fast_args_init st src (length out) = Inr None" and dt: "huf_cells (decode_x2 t) = Inr (decode_x2 t)"
  shows "implements (huf_decompress_4x2 out src t) (huf_spec4 (code_cells t) src (length out))"
proof (rule implements_specs [OF sp])
  let ?X = "code_cells t" and ?ws = "take (nb_symbols t) (weights t)" and ?k = "max_num_bits t" and ?n = "length out" and ?E = "seg_end st (length out)"
  let ?r = "huf_decompress_4x2 out src t"
  have c: "complete_code ?ws ?k" "length ?ws \<le> 256" using t ready_code by (auto simp: x2_ready_def)
  have de: "decode_x2 t = map (x2_ref ?X) [0..<2048]" using t by (simp add: x2_ready_def x2_built_def code_cells_def)
  note lay = streams_split_layout [OF sp]
  have g: "3 * segment st \<le> ?n" "?n \<le> 4 * segment st" using lay by (auto simp: layout_def)
  have E: "?E 0 = segment st" "?E 1 = 2 * segment st" "?E 2 = 3 * segment st" "?E 3 = ?n" by (auto simp: seg_end_def)
  define K where "K = (\<lambda>b1 b2 b3 b4.
         res_bind (plain_x2_loop (decode_x2 t) (8 \<le> ?n - 3 * segment st) ((b1, 0), (b2, segment st), (b3, 2 * segment st), (b4, 3 * segment st)) out)
           (\<lambda>((c1, c2, c3, c4), out).
         if segment st < snd c1 \<or> 2 * segment st < snd c2 \<or> 3 * segment st < snd c3 then Inl (Err (HufError HufOverranSegment))
         else
         res_bind (plain_x2_finish (decode_x2 t) t c1 (segment st) out) (\<lambda>(b1, out).
         res_bind (plain_x2_finish (decode_x2 t) t c2 (2 * segment st) out) (\<lambda>(b2, out).
         res_bind (plain_x2_finish (decode_x2 t) t c3 (3 * segment st) out) (\<lambda>(b3, out).
         res_bind (plain_x2_finish (decode_x2 t) t c4 (length out) out) (\<lambda>(b4, out).
         if \<not> (is_finished b1 \<and> is_finished b2 \<and> is_finished b3 \<and> is_finished b4)
         then Inl (Err (HufError HufNotConsumed))
         else (Inr out :: u8 list res)))))))"
  have r: "?r = res_bind (res_bind (stream_of st src 0) ds_new) (\<lambda>b1. res_bind (res_bind (stream_of st src 1) ds_new) (\<lambda>b2.
       res_bind (res_bind (stream_of st src 2) ds_new) (\<lambda>b3. res_bind (res_bind (stream_of st src 3) ds_new) (K b1 b2 b3))))"
    unfolding huf_decompress_4x2_def dt res_bind_simps Let_def sp a option.case K_def by (rule refl)
  from streams_new [OF lay, of ?X] show "(\<exists>e. ?r = Inl (Err (HufError e)) \<and> (\<exists>s < 4. seg_spec ?X st src ?n s = None))
      \<or> (\<exists>out'. ?r = Inr out' \<and> length out' = ?n \<and> (\<forall>s < 4. seg_spec ?X st src ?n s = Some (seg_of st out' s)))"
  proof
    assume "\<exists>b1 b2 b3 b4. res_bind (stream_of st src 0) ds_new = Inr b1 \<and> res_bind (stream_of st src 1) ds_new = Inr b2
        \<and> res_bind (stream_of st src 2) ds_new = Inr b3 \<and> res_bind (stream_of st src 3) ds_new = Inr b4
        \<and> reads ?X (bytes_of st src 0) 56 [] b1 \<and> reads ?X (bytes_of st src 1) 56 [] b2
        \<and> reads ?X (bytes_of st src 2) 56 [] b3 \<and> reads ?X (bytes_of st src 3) 56 [] b4"
    then obtain b1 b2 b3 b4 where b: "res_bind (stream_of st src 0) ds_new = Inr b1" "res_bind (stream_of st src 1) ds_new = Inr b2"
      "res_bind (stream_of st src 2) ds_new = Inr b3" "res_bind (stream_of st src 3) ds_new = Inr b4"
      "reads ?X (bytes_of st src 0) 56 [] b1" "reads ?X (bytes_of st src 1) 56 [] b2"
      "reads ?X (bytes_of st src 2) 56 [] b3" "reads ?X (bytes_of st src 3) 56 [] b4" by blast
    let ?cs = "((b1, 0), (b2, segment st), (b3, 2 * segment st), (b4, 3 * segment st))"
    have k: "\<forall>s < 4. cur_ok ?X st src s m [] (nth4 ?cs s)" if "m \<le> 56" for m
    proof -
      have "cur_ok ?X st src 0 56 [] (b1, 0 * segment st)" "cur_ok ?X st src 1 56 [] (b2, 1 * segment st)"
        "cur_ok ?X st src 2 56 [] (b3, 2 * segment st)" "cur_ok ?X st src 3 56 [] (b4, 3 * segment st)"
        by (rule cur_new [OF lay _ b(1)] cur_new [OF lay _ b(2)] cur_new [OF lay _ b(3)] cur_new [OF lay _ b(4)]; simp)+
      then have "cur_ok ?X st src 0 m [] (b1, 0)" "cur_ok ?X st src 1 m [] (b2, segment st)"
        "cur_ok ?X st src 2 m [] (b3, 2 * segment st)" "cur_ok ?X st src 3 m [] (b4, 3 * segment st)"
        using cur_less [OF _ that] by auto
      then show ?thesis unfolding all4 nth4_simps by blast
    qed
    have "filled st out (\<lambda>_. [])" using segment_end_eq(2) [OF lay] by (simp add: filled_def)
    then have inv: "plain_x2_inv ?X st src 0 (\<lambda>_. []) ?cs out" using k [of 0] g(1) by (simp add: plain_x2_inv_def)
    from plain_x2_loop_ok [OF c lay inv [unfolded code_cells_def], of "8 \<le> ?n - 3 * segment st"] k [of 44]
    obtain cs out1 S i where l: "plain_x2_loop (decode_x2 t) (8 \<le> ?n - 3 * segment st) ?cs out = Inr (cs, out1)" "length out1 = ?n"
      "plain_x2_inv ?X st src i S cs out1" unfolding de code_cells_def [symmetric] by auto
    obtain c1 c2 c3 c4 where cs: "cs = (c1, c2, c3, c4)" by (cases cs)
    have k1: "cur_ok ?X st src 0 0 (S 0) c1" "cur_ok ?X st src 1 0 (S 1) c2" "cur_ok ?X st src 2 0 (S 2) c3" "cur_ok ?X st src 3 0 (S 3) c4"
      "snd c4 \<le> ?n" "(\<exists>s < 4. seg_spec ?X st src ?n s = None) \<or> filled st out1 S"
      using l(2,3) unfolding plain_x2_inv_def all4 cs by auto
    show ?thesis
    proof (cases "segment st < snd c1 \<or> 2 * segment st < snd c2 \<or> 3 * segment st < snd c3")
      case True
      have "\<not> filled st out1 S" using True k1(1-3) E l(2) unfolding filled_def all4 cur_ok_def by auto
      then show ?thesis using k1(6) True unfolding r b(1-4) res_bind_simps K_def l(1) cs prod.case by auto
    next
      case False
      have n: "(0::nat) < 4" "(1::nat) < 4" "(2::nat) < 4" "(3::nat) < 4" by auto
      note fin = plain_x2_finish_ok [OF t]
      have 1: "layout src (length out1) st" "snd c1 \<le> seg_end st (length out1) 0" using lay l(2) False E by auto
      from fin [where S = S, OF 1(1) n(1) k1(1) 1(2)] obtain e1 o1 w1 where
        1: "plain_x2_finish (decode_x2 t) t c1 (segment st) out1 = Inr (e1, o1)" "length o1 = ?n" "0 * segment st + length (S 0 @ w1) = ?E 0"
        "seg_spec ?X st src ?n 0 = (if is_finished e1 then Some (S 0 @ w1) else None)"
        "filled st out1 S \<longrightarrow> filled st o1 (S(0 := S 0 @ w1))" unfolding l(2) E by blast
      define S1 where "S1 = S(0 := S 0 @ w1)"
      have 2: "layout src (length o1) st" "cur_ok ?X st src 1 0 (S1 1) c2" "snd c2 \<le> seg_end st (length o1) 1"
        using lay 1(2) k1(2) False E by (auto simp: S1_def)
      from fin [where S = S1, OF 2(1) n(2) 2(2,3)] obtain e2 o2 w2 where
        2: "plain_x2_finish (decode_x2 t) t c2 (2 * segment st) o1 = Inr (e2, o2)" "length o2 = ?n" "1 * segment st + length (S1 1 @ w2) = ?E 1"
        "seg_spec ?X st src ?n 1 = (if is_finished e2 then Some (S1 1 @ w2) else None)"
        "filled st o1 S1 \<longrightarrow> filled st o2 (S1(1 := S1 1 @ w2))" unfolding 1(2) E by blast
      define S2 where "S2 = S1(1 := S1 1 @ w2)"
      have 3: "layout src (length o2) st" "cur_ok ?X st src 2 0 (S2 2) c3" "snd c3 \<le> seg_end st (length o2) 2"
        using lay 2(2) k1(3) False E by (auto simp: S1_def S2_def)
      from fin [where S = S2, OF 3(1) n(3) 3(2,3)] obtain e3 o3 w3 where
        3: "plain_x2_finish (decode_x2 t) t c3 (3 * segment st) o2 = Inr (e3, o3)" "length o3 = ?n" "2 * segment st + length (S2 2 @ w3) = ?E 2"
        "seg_spec ?X st src ?n 2 = (if is_finished e3 then Some (S2 2 @ w3) else None)"
        "filled st o2 S2 \<longrightarrow> filled st o3 (S2(2 := S2 2 @ w3))" unfolding 2(2) E by blast
      define S3 where "S3 = S2(2 := S2 2 @ w3)"
      have 4: "layout src (length o3) st" "cur_ok ?X st src 3 0 (S3 3) c4" "snd c4 \<le> seg_end st (length o3) 3"
        using lay 3(2) k1(4,5) E by (auto simp: S1_def S2_def S3_def)
      from fin [where S = S3, OF 4(1) n(4) 4(2,3)] obtain e4 o4 w4 where
        4: "plain_x2_finish (decode_x2 t) t c4 ?n o3 = Inr (e4, o4)" "length o4 = ?n" "3 * segment st + length (S3 3 @ w4) = ?E 3"
        "seg_spec ?X st src ?n 3 = (if is_finished e4 then Some (S3 3 @ w4) else None)"
        "filled st o3 S3 \<longrightarrow> filled st o4 (S3(3 := S3 3 @ w4))" unfolding 3(2) E by blast
      have res: "?r = (if \<not> (is_finished e1 \<and> is_finished e2 \<and> is_finished e3 \<and> is_finished e4)
         then Inl (Err (HufError HufNotConsumed)) else Inr o4)"
        unfolding r b(1-4) res_bind_simps K_def l(1) cs prod.case if_not_P [OF False] 1(1) 2(1) 3(1) 3(2) 4(1) by (rule refl)
      show ?thesis
      proof (cases "is_finished e1 \<and> is_finished e2 \<and> is_finished e3 \<and> is_finished e4")
        case True
        then have all: "\<forall>s < 4. seg_spec ?X st src ?n s \<noteq> None" unfolding all4 using 1(4) 2(4) 3(4) 4(4) by auto
        define S4 where "S4 = S3(3 := S3 3 @ w4)"
        have S4: "S4 0 = S 0 @ w1" "S4 1 = S1 1 @ w2" "S4 2 = S2 2 @ w3" "S4 3 = S3 3 @ w4" by (auto simp: S1_def S2_def S3_def S4_def)
        have f: "filled st o4 S4"
          using k1(6) all 1(5) 2(5) 3(5) 4(5) unfolding S1_def [symmetric] S2_def [symmetric] S3_def [symmetric] S4_def [symmetric] by blast
        have "\<forall>s < 4. s * segment st + length (S4 s) = ?E s" unfolding all4 S4 using 1(3) 2(3) 3(3) 4(3) by blast
        then have "\<forall>s < 4. seg_of st o4 s = S4 s" using filled_seg_of [OF f] unfolding 4(2) by blast
        moreover have "\<forall>s < 4. seg_spec ?X st src ?n s = Some (S4 s)" unfolding all4 S4 using True 1(4) 2(4) 3(4) 4(4) by simp
        ultimately show ?thesis using True 4(2) by (simp add: res)
      next
        case False
        then have "\<exists>s < 4. seg_spec ?X st src ?n s = None" unfolding ex4 using 1(4) 2(4) 3(4) 4(4) by auto
        then show ?thesis using False by (simp add: res)
      qed
    qed
  qed (use r in metis)
qed

lemma decompress_4x2_ok:
  assumes t: "x2_ready t"
  shows "implements (huf_decompress_4x2 out src t) (huf_spec4 (code_cells t) src (length out))"
proof -
  have dt: "huf_cells (decode_x2 t) = Inr (decode_x2 t)"
    using t by (simp add: x2_ready_def x2_built_def huf_cells_def HUF_FAST_TABLE_LOG_def HUF_TABLELOG_MAX_def del: upt_rec_numeral)
  show ?thesis
  proof (cases "streams_split src (length out)")
    case (Inl f)
    then show ?thesis
      using streams_split_err [OF Inl] dt by (auto simp: huf_decompress_4x2_def implements_def huf_spec4_def)
  next
    case st: (Inr st)
    note lay = streams_split_layout [OF st]
    from fast_init_ok [OF lay, of "code_cells t"] consider
        (plain) "huf_fast_args_init st src (length out) = Inr None"
      | (err) "\<exists>s < 4. seg_spec (code_cells t) st src (length out) s = None" "huf_fast_args_init st src (length out) = Inl (Err (HufError HufNoEndMark))"
      | (fast) a where "huf_fast_args_init st src (length out) = Inr (Some a)" by blast
    then show ?thesis
    proof cases
      case plain
      then show ?thesis by (rule plain_x2_correct [OF t st _ dt])
    next
      case err
      show ?thesis by (rule implements_specs [OF st]) (use err dt st in \<open>auto simp: huf_decompress_4x2_def\<close>)
    next
      case fast
      have s4: "set [0, 1, 2, 3] = {..<4::nat}" by auto
      from fast_x2_correct [OF t st fast] obtain a' out' where
        f: "huf_4x2_fast_loop a out src (decode_x2 t) = Inr (a', out')" "length out' = length out"
        "lanes_at (code_cells t) st src a' out' (set [0, 1, 2, 3])" unfolding s4 by blast
      have r: "huf_decompress_4x2 out src t = finish_with (\<lambda>w br. huf_decode_stream_x2 w br (decode_x2 t) t) st src a' [0, 1, 2, 3] out'"
        using dt st fast f(1) by (simp add: huf_decompress_4x2_def finish_x2_with del: finish_x2.simps finish_with.simps)
      have l': "layout src (length out') st" using lay f(2) by simp
      show ?thesis
        by (rule implements_specs [OF st]) (use dec2.finish_ok [OF t l' f(3)] in \<open>unfold s4 f(2) r, auto\<close>)
    qed
  qed
qed

end
