(* ===== verification/Literals.thy ===== *)
theory Literals
  imports Huffman_Four_X2 Headers
begin

text \<open>
  The literals section (\<open>src/src/decode.rs\<close>): \<open>huf_decompress\<close> picks the decoder for the table kind and the
  number of streams, \<open>decompress_literals\<close> builds or repeats the table, \<open>decode_literals\<close> handles the four
  section types.  \<open>HuffmanScratch\<close> is its table; the decoder returns it with the bytes it appended.
\<close>

section \<open>Decoding\<close>

definition huf_decompress :: "u8 list \<Rightarrow> u8 list \<Rightarrow> bool \<Rightarrow> huffman_table \<Rightarrow> u8 list res" where
  "huf_decompress out source four t =
     (if four then if is_x2 t then huf_decompress_4x2 out source t else huf_decompress_4x1 out source t
      else if is_x2 t then huf_decompress_1x2 out source t else huf_decompress_1x1 out source t)"

definition decompress_literals :: "literals_section \<Rightarrow> huffman_table \<Rightarrow> huffman_table option \<Rightarrow> u8 list \<Rightarrow> u8 list
    \<Rightarrow> (huffman_table \<times> u8 list \<times> nat) res" where
  "decompress_literals section scratch repeat source target =
     res_bind (slice source 0 (ls_content_size section)) (\<lambda>source.
     res_bind (if ls_type section = CompressedLits
        then res_bind (build_decoder scratch source (regenerated_size section) (four_streams section)) (\<lambda>(t, n). Inr (t, t, n))
        else Inr (scratch, (case repeat of Some t \<Rightarrow> t | None \<Rightarrow> scratch), 0)) (\<lambda>(scratch, table, bytes_read).
     if max_num_bits table = 0 then Inl (Err (HufError HufTreeless))
     else
     res_bind (slice source bytes_read (length source)) (\<lambda>source.
     res_bind (huf_decompress (replicate (regenerated_size section) 0) source (four_streams section) table) (\<lambda>lits.
     Inr (scratch, target @ lits, bytes_read + length source)))))"

definition decode_literals :: "literals_section \<Rightarrow> huffman_table \<Rightarrow> huffman_table option \<Rightarrow> u8 list \<Rightarrow> u8 list
    \<Rightarrow> (huffman_table \<times> u8 list \<times> nat) res" where
  "decode_literals section scratch repeat source target = (case ls_type section of
     RawLits \<Rightarrow> res_bind (slice source 0 (regenerated_size section)) (\<lambda>lits.
       Inr (scratch, target @ lits, regenerated_size section))
   | RleLits \<Rightarrow> res_bind (index source 0) (\<lambda>b. Inr (scratch, target @ replicate (regenerated_size section) b, 1))
   | _ \<Rightarrow> decompress_literals section scratch repeat source target)"

section \<open>Specification\<close>

text \<open>A table kept between blocks: empty, or built.\<close>

definition scratch_ok :: "huffman_table \<Rightarrow> bool" where
  "scratch_ok t \<longleftrightarrow> huffman_inv t \<and> (max_num_bits t \<noteq> 0 \<longrightarrow> huffman_ready t)"

lemma scratch_new: "scratch_ok huffman_new"
  using huffman_new_inv by (simp add: scratch_ok_def) (simp add: huffman_new_def)

text \<open>The literals a section stands for, given the table its streams use.\<close>

definition streams_spec :: "huffman_table \<Rightarrow> bool \<Rightarrow> u8 list \<Rightarrow> nat \<Rightarrow> u8 list option" where
  "streams_spec t four src n = (if four then huf_spec4 (code_cells t) src n else huf_spec (code_cells t) src n)"

lemma huf_decompress_ok:
  assumes "huffman_inv t" and "huffman_ready t"
  shows "implements (huf_decompress out src four t) (streams_spec t four src (length out))"
  using assms decompress_4x2_ok [of t out src] decompress_4x1_ok [of t out src] decompress_1x1_ok [of t out src] decompress_1x2_ok [of t out src]
  by (auto simp: huf_decompress_def streams_spec_def huffman_ready_def x1_ready_def x2_ready_def code_cells_def)

lemma ready_bits: "huffman_ready t \<Longrightarrow> max_num_bits t \<noteq> 0"
  using complete_code_depth by (fastforce simp: huffman_ready_def huffman_complete_def Let_def)

lemma huf_ref_length: "huf_ref X N p n = Some xs \<Longrightarrow> length xs = n"
  by (induction X N p n arbitrary: xs rule: huf_ref.induct) (auto simp: Let_def split: if_splits prod.splits)

lemma huf_spec_length: "huf_spec X src n = Some xs \<Longrightarrow> length xs = n"
  by (auto simp: huf_spec_def split: if_splits dest: huf_ref_length)

lemma specs_length: "specs X st src n ss = Some xs \<Longrightarrow> length xs = (\<Sum>s\<leftarrow>ss. seg_end st n s - s * segment st)"
  by (induction ss arbitrary: xs) (auto split: option.splits dest: huf_spec_length)

lemma streams_spec_length: "streams_spec t four src n = Some xs \<Longrightarrow> length xs = n"
proof (cases four)
  case True
  assume "streams_spec t four src n = Some xs"
  then obtain st where st: "streams_split src n = Inr st" "specs (code_cells t) st src n [0, 1, 2, 3] = Some xs"
    using True by (auto simp: streams_spec_def huf_spec4_def split: sum.splits simp del: specs.simps)
  have "3 * segment st \<le> n" using streams_split_layout [OF st(1)] by (simp add: layout_def)
  then show ?thesis using specs_length [OF st(2)] by (simp add: seg_end_def)
qed (auto simp: streams_spec_def dest: huf_spec_length)

text \<open>What the literals of a section are, with the table \<open>t\<close> that the section leaves in the scratch.\<close>

definition literals_spec :: "literals_section \<Rightarrow> huffman_table \<Rightarrow> huffman_table option \<Rightarrow> u8 list \<Rightarrow> u8 list \<Rightarrow> bool" where
  "literals_spec sec t repeat source lits = (let n = regenerated_size sec; body = take (ls_content_size sec) source in
     case ls_type sec of
       RawLits \<Rightarrow> lits = take n source
     | RleLits \<Rightarrow> lits = replicate n (hd source)
     | CompressedLits \<Rightarrow> \<exists>k \<le> length body. streams_spec t (four_streams sec) (drop k body) n = Some lits
     | TreelessLits \<Rightarrow> streams_spec (case repeat of Some r \<Rightarrow> r | None \<Rightarrow> t) (four_streams sec) body n = Some lits)"

text \<open>A section that the caller has checked against its source.\<close>

definition section_fits :: "literals_section \<Rightarrow> u8 list \<Rightarrow> bool" where
  "section_fits sec source \<longleftrightarrow> ls_content_size sec \<le> length source \<and> regenerated_size sec < 2 ^ 32
     \<and> (ls_type sec = RawLits \<longrightarrow> regenerated_size sec = ls_content_size sec)
     \<and> (ls_type sec = RleLits \<longrightarrow> ls_content_size sec = 1)"

lemma huf_decompress_cases:
  assumes "scratch_ok t" and "max_num_bits t \<noteq> 0"
  shows "(\<exists>e. huf_decompress out src four t = Inl (Err (HufError e)) \<and> streams_spec t four src (length out) = None)
    \<or> (\<exists>lits. huf_decompress out src four t = Inr lits \<and> streams_spec t four src (length out) = Some lits)"
  using huf_decompress_ok [of t out src four] assms by (auto simp: scratch_ok_def implements_def split: option.splits)

lemma decompress_literals_cases:
  assumes t: "scratch_ok scratch" and rep: "\<And>r. repeat = Some r \<Longrightarrow> scratch_ok r" and fits: "section_fits sec source"
    and ty: "ls_type sec = CompressedLits \<or> ls_type sec = TreelessLits"
  shows "(\<exists>e. decompress_literals sec scratch repeat source target = Inl (Err e)) \<or>
    (\<exists>t' lits. decompress_literals sec scratch repeat source target = Inr (t', target @ lits, ls_content_size sec) \<and> scratch_ok t'
      \<and> length lits = regenerated_size sec \<and> literals_spec sec t' repeat source lits)"
proof -
  define body where "body = take (ls_content_size sec) source"
  let ?n = "regenerated_size sec" and ?four = "four_streams sec"
  have b: "slice source 0 (ls_content_size sec) = Inr body" "length body = ls_content_size sec" using fits by (auto simp: body_def section_fits_def)
  show ?thesis
  proof (cases "ls_type sec = CompressedLits")
    case True
    have "huffman_inv scratch" "?n < 2 ^ 32" using t fits by (auto simp: scratch_ok_def section_fits_def)
    from build_decoder_cases [OF this, of body ?four] consider
      (err) e where "build_decoder scratch body ?n ?four = Inl (Err e)"
    | (ok) t' k where "build_decoder scratch body ?n ?four = Inr (t', k)" "k \<le> length body" "huffman_inv t'" "huffman_ready t'" by blast
    then show ?thesis
    proof cases
      case err
      then show ?thesis using b True by (simp add: decompress_literals_def)
    next
      case ok
      have t': "scratch_ok t'" "max_num_bits t' \<noteq> 0" using ok ready_bits by (auto simp: scratch_ok_def)
      have "decompress_literals sec scratch repeat source target =
          res_bind (huf_decompress (replicate ?n 0) (drop k body) ?four t') (\<lambda>lits. Inr (t', target @ lits, ls_content_size sec))"
        using b True ok(1,2) t'(2) by (simp add: decompress_literals_def)
      moreover have "literals_spec sec t' repeat source lits" if "streams_spec t' ?four (drop k body) ?n = Some lits" for lits
        using that True ok(2) by (auto simp: literals_spec_def Let_def body_def [symmetric])
      ultimately show ?thesis
        using huf_decompress_cases [OF t', of "replicate ?n 0" "drop k body" ?four] t'(1) streams_spec_length by fastforce
    qed
  next
    case False
    then have tl: "ls_type sec = TreelessLits" using ty by blast
    define r where "r = (case repeat of Some r \<Rightarrow> r | None \<Rightarrow> scratch)"
    have r: "scratch_ok r" using t rep by (auto simp: r_def split: option.splits)
    have d: "decompress_literals sec scratch repeat source target = (if max_num_bits r = 0 then Inl (Err (HufError HufTreeless)) else
        res_bind (huf_decompress (replicate ?n 0) body ?four r) (\<lambda>lits. Inr (scratch, target @ lits, ls_content_size sec)))"
      using b tl by (simp add: decompress_literals_def r_def)
    have sp: "literals_spec sec scratch repeat source lits" if "streams_spec r ?four body ?n = Some lits" for lits
      using that tl by (simp add: literals_spec_def Let_def body_def [symmetric] r_def)
    show ?thesis
    proof (cases "max_num_bits r = 0")
      case True
      then show ?thesis using d by simp
    next
      case False
      then show ?thesis
        using huf_decompress_cases [OF r False, of "replicate ?n 0" body ?four] t d sp streams_spec_length by fastforce
    qed
  qed
qed

section \<open>Properties\<close>

text \<open>C25: For every table that \<open>build_decoder\<close> made and every source, \<open>huf_decompress\<close> (one or four streams,
  single- or double-symbol table, fast loops, plain loops and the hand-over between them) returns exactly the
  literals that decoding each stream symbol by symbol gives, and an error when some stream does not end with
  its segment; no path panics, reads or writes outside its buffers, or runs forever.\<close>

theorem huf_decompress_correct:
  assumes "huffman_inv t" and "huffman_ready t"
  shows "implements (huf_decompress out src four t) (streams_spec t four src (length out))"
  by (rule huf_decompress_ok [OF assms])

theorem huf_decompress_correct_witness:
  "\<exists>t. huffman_inv t \<and> huffman_ready t \<and> is_x2 t
     \<and> implements (huf_decompress [0, 0, 0, 0, 0, 0] [1, 0, 1, 0, 1, 0, 5, 5, 5, 5] True t) (streams_spec t True [1, 0, 1, 0, 1, 0, 5, 5, 5, 5] 6)"
proof -
  obtain t where t: "huffman_ready t" "huffman_inv t" "is_x2 t" using fill_ok [OF demo_table_ok, of True] by blast
  from huf_decompress_correct [OF t(2,1), of "[0, 0, 0, 0, 0, 0]" "[1, 0, 1, 0, 1, 0, 5, 5, 5, 5]" True] t show ?thesis
    by (intro exI [of _ t]) (simp add: eval_nat_numeral)
qed

lemma decode_literals_ok:
  assumes "scratch_ok scratch" and "\<forall>r. repeat = Some r \<longrightarrow> scratch_ok r" and "section_fits sec source"
  shows "case decode_literals sec scratch repeat source target of
      Inl f \<Rightarrow> \<exists>e. f = Err e
    | Inr (t', target', n) \<Rightarrow> scratch_ok t' \<and> n = ls_content_size sec
        \<and> (\<exists>lits. target' = target @ lits \<and> length lits = regenerated_size sec \<and> literals_spec sec t' repeat source lits)"
proof (cases "ls_type sec = CompressedLits \<or> ls_type sec = TreelessLits")
  case True
  then show ?thesis
    using decompress_literals_cases [OF assms(1) _ assms(3) True, of repeat target] assms(2) by (fastforce simp: decode_literals_def)
next
  case False
  then consider (raw) "ls_type sec = RawLits" | (rle) "ls_type sec = RleLits" by (cases "ls_type sec") auto
  then show ?thesis
  proof cases
    case raw
    then show ?thesis using assms by (auto simp: decode_literals_def section_fits_def literals_spec_def Let_def)
  next
    case rle
    then have "source \<noteq> []" using assms(3) by (auto simp: section_fits_def)
    then show ?thesis using assms rle by (simp add: decode_literals_def section_fits_def literals_spec_def Let_def hd_conv_nth)
  qed
qed

text \<open>C26: \<open>decode_literals\<close> on a section the caller has checked against its source either reports an error
  or appends \<open>Regenerated_Size\<close> bytes that are the literals of the section, consumes exactly the section's
  content and leaves a Huffman table that the next block may repeat.\<close>

theorem decode_literals_correct:
  assumes "scratch_ok scratch" and "\<forall>r. repeat = Some r \<longrightarrow> scratch_ok r" and "section_fits sec source"
  shows "case decode_literals sec scratch repeat source target of
      Inl f \<Rightarrow> \<exists>e. f = Err e
    | Inr (t', target', n) \<Rightarrow> scratch_ok t' \<and> n = ls_content_size sec
        \<and> (\<exists>lits. target' = target @ lits \<and> length lits = regenerated_size sec \<and> literals_spec sec t' repeat source lits)"
  by (rule decode_literals_ok [OF assms])

theorem decode_literals_correct_witness:
  "case decode_literals \<lparr>regenerated_size = 3, ls_content_size = 1, ls_type = RleLits, four_streams = False\<rparr> huffman_new None [7] [1, 2] of
      Inl f \<Rightarrow> \<exists>e. f = Err e
    | Inr (t', target', n) \<Rightarrow> scratch_ok t' \<and> n = 1 \<and> (\<exists>lits. target' = [1, 2] @ lits \<and> length lits = 3
        \<and> literals_spec \<lparr>regenerated_size = 3, ls_content_size = 1, ls_type = RleLits, four_streams = False\<rparr> t' None [7] lits)"
proof -
  let ?sec = "\<lparr>regenerated_size = 3, ls_content_size = 1, ls_type = RleLits, four_streams = False\<rparr>"
  have fits: "section_fits ?sec [7]" by (simp add: section_fits_def)
  have none: "\<forall>r. None = Some r \<longrightarrow> scratch_ok r" by simp
  from decode_literals_correct [OF scratch_new none fits, of "[1, 2]"] show ?thesis
    unfolding literals_section.simps .
qed

end
