(* ===== verification/Sequence_Tables.thy ===== *)
theory Sequence_Tables
  imports Fse_Header Headers Constants
begin

text \<open>
  The tables of the sequences section (\<open>src/src/decode.rs\<close>): \<open>SEQ_TABLES\<close>, the predefined tables,
  \<open>FSEScratch\<close> with the table each code is decoded with, and \<open>build_sequence_tables\<close>, which reads the
  descriptions of a block.  The invariant \<open>fse_scratch_ok\<close> is what \<open>run_sequences\<close> relies on for its unchecked
  lookups: a table in use is well formed and its cells carry bases and extra bits of its code.
\<close>

section \<open>The three kinds of code\<close>

definition OF_BASE :: "nat list" where
  "OF_BASE = [0, 1, 1, 5, 13, 29, 61, 125, 253, 509, 1021, 2045, 4093, 8189, 16381, 32765, 65533, 131069,
     262141, 524285, 1048573, 2097149, 4194301, 8388605, 16777213, 33554429, 67108861, 134217725,
     268435453, 536870909, 1073741821, 2147483645]"

definition LITERALS_LENGTH_DEFAULT_DISTRIBUTION :: "int list" where
  "LITERALS_LENGTH_DEFAULT_DISTRIBUTION =
     [4, 3, 2, 2, 2, 2, 2, 2, 2, 2, 2, 2, 2, 1, 1, 1, 2, 2, 2, 2, 2, 2, 2, 2, 2, 3, 2, 1, 1, 1, 1, 1,
      -1, -1, -1, -1]"

definition MATCH_LENGTH_DEFAULT_DISTRIBUTION :: "int list" where
  "MATCH_LENGTH_DEFAULT_DISTRIBUTION =
     [1, 4, 3, 2, 2, 2, 2, 2, 2, 1, 1, 1, 1, 1, 1, 1, 1, 1, 1, 1, 1, 1, 1, 1, 1, 1, 1, 1, 1, 1, 1, 1,
      1, 1, 1, 1, 1, 1, 1, 1, 1, 1, 1, 1, 1, 1, -1, -1, -1, -1, -1, -1, -1]"

definition OFFSET_DEFAULT_DISTRIBUTION :: "int list" where
  "OFFSET_DEFAULT_DISTRIBUTION =
     [1, 1, 1, 1, 1, 1, 2, 2, 2, 1, 1, 1, 1, 1, 1, 1, 1, 1, 1, 1, 1, 1, 1, 1, -1, -1, -1, -1, -1]"

record seq_table_kind =
  k_max_log :: nat
  k_max_code :: nat
  k_default_log :: nat
  k_default_distribution :: "int list"
  k_base :: "nat list"
  k_bits :: "nat list"

text \<open>\<open>SEQ_TABLES\<close>, in the order LL, OF, ML; the names are only for messages.\<close>

definition SEQ_TABLES :: "seq_table_kind list" where
  "SEQ_TABLES =
     [\<lparr>k_max_log = 9, k_max_code = 35, k_default_log = 6, k_default_distribution = LITERALS_LENGTH_DEFAULT_DISTRIBUTION,
       k_base = LL_BASE, k_bits = LL_BITS\<rparr>,
      \<lparr>k_max_log = 8, k_max_code = 31, k_default_log = 5, k_default_distribution = OFFSET_DEFAULT_DISTRIBUTION,
       k_base = OF_BASE, k_bits = OF_BITS\<rparr>,
      \<lparr>k_max_log = 9, k_max_code = 52, k_default_log = 6, k_default_distribution = MATCH_LENGTH_DEFAULT_DISTRIBUTION,
       k_base = ML_BASE, k_bits = ML_BITS\<rparr>]"

definition kind_codes :: "seq_table_kind \<Rightarrow> codes" where
  "kind_codes k = Some (k_base k, k_bits k)"

section \<open>The tables in use\<close>

datatype seq_table_source = OwnTable | PredefinedTable | DictTable

record fse_scratch =
  fs_offsets :: fse_table
  fs_literal_lengths :: fse_table
  fs_match_lengths :: fse_table
  fs_source :: "seq_table_source list"

definition fse_scratch_new :: fse_scratch where
  "fse_scratch_new =
     \<lparr>fs_offsets = fse_new 31, fs_literal_lengths = fse_new 35, fs_match_lengths = fse_new 52,
      fs_source = [OwnTable, OwnTable, OwnTable]\<rparr>"

definition fse_scratch_reset :: "fse_scratch \<Rightarrow> fse_scratch" where
  "fse_scratch_reset sc =
     sc\<lparr>fs_literal_lengths := fse_reset (fs_literal_lengths sc), fs_match_lengths := fse_reset (fs_match_lengths sc),
        fs_offsets := fse_reset (fs_offsets sc), fs_source := [OwnTable, OwnTable, OwnTable]\<rparr>"

definition predefined_table :: "nat \<Rightarrow> fse_table res" where
  "predefined_table t =
     (let kind = SEQ_TABLES ! t in
      case build_from_probabilities (k_default_log kind) (k_default_distribution kind) (kind_codes kind) (fse_new (k_max_code kind)) of
        Inr table \<Rightarrow> Inr table
      | Inl (Err e) \<Rightarrow> Inl Panic
      | Inl f \<Rightarrow> Inl f)"

definition own_table :: "fse_scratch \<Rightarrow> nat \<Rightarrow> fse_table" where
  "own_table sc t = (if t = 0 then fs_literal_lengths sc else if t = 1 then fs_offsets sc else fs_match_lengths sc)"

definition set_own_table :: "fse_scratch \<Rightarrow> nat \<Rightarrow> fse_table \<Rightarrow> fse_scratch" where
  "set_own_table sc t tab =
     (if t = 0 then sc\<lparr>fs_literal_lengths := tab\<rparr> else if t = 1 then sc\<lparr>fs_offsets := tab\<rparr> else sc\<lparr>fs_match_lengths := tab\<rparr>)"

definition scratch_table :: "fse_scratch \<Rightarrow> nat \<Rightarrow> fse_scratch option \<Rightarrow> fse_table res" where
  "scratch_table sc t dict =
     (case (fs_source sc ! t, dict) of
        (OwnTable, _) \<Rightarrow> Inr (own_table sc t)
      | (PredefinedTable, _) \<Rightarrow> predefined_table t
      | (DictTable, Some d) \<Rightarrow> Inr (own_table d t)
      | (DictTable, None) \<Rightarrow> Inl Panic)"

definition scratch_tables :: "fse_scratch \<Rightarrow> fse_scratch option \<Rightarrow> (fse_table \<times> fse_table \<times> fse_table) res" where
  "scratch_tables sc dict =
     res_bind (scratch_table sc 0 dict) (\<lambda>ll.
     res_bind (scratch_table sc 1 dict) (\<lambda>of_t.
     res_bind (scratch_table sc 2 dict) (\<lambda>ml.
     Inr (ll, of_t, ml))))"

definition repeatable :: "fse_scratch \<Rightarrow> nat \<Rightarrow> bool res" where
  "repeatable sc t =
     (if fs_source sc ! t \<noteq> OwnTable then Inr True
      else res_bind (fse_decode (own_table sc t)) (\<lambda>dt. Inr (dt \<noteq> [])))"

section \<open>Reading the descriptions\<close>

definition build_sequence_table :: "mode_type \<Rightarrow> u8 list \<Rightarrow> fse_scratch \<Rightarrow> nat \<Rightarrow> (fse_scratch \<times> nat) res" where
  "build_sequence_table mode source sc t =
     (let kind = SEQ_TABLES ! t in
      case mode of
        FseCompressed \<Rightarrow>
          let sc = sc\<lparr>fs_source := (fs_source sc)[t := OwnTable]\<rparr> in
          res_bind (fse_build_decoder (own_table sc t) source (k_max_log kind) (kind_codes kind)) (\<lambda>(tab, n).
          Inr (set_own_table sc t tab, n))
      | RleMode \<Rightarrow>
          (case source of
             [] \<Rightarrow> Inl (Err (SectionError (RleTableMissing t)))
           | code # _ \<Rightarrow>
               if k_max_code kind < unat code then Inl (Err (SectionError (RleTableCode t code)))
               else
                 let sc = sc\<lparr>fs_source := (fs_source sc)[t := OwnTable]\<rparr> in
                 res_bind (build_rle (own_table sc t) (unat code) (k_base kind) (k_bits kind)) (\<lambda>tab.
                 Inr (set_own_table sc t tab, 1)))
      | Predefined \<Rightarrow> Inr (sc\<lparr>fs_source := (fs_source sc)[t := PredefinedTable]\<rparr>, 0)
      | RepeatMode \<Rightarrow>
          res_bind (repeatable sc t) (\<lambda>r.
          if r then Inr (sc, 0) else Inl (Err (SectionError (RepeatWithoutTable t)))))"

definition modes_all :: "compression_modes \<Rightarrow> mode_type list res" where
  "modes_all m =
     res_bind (ll_mode m) (\<lambda>l. res_bind (of_mode m) (\<lambda>f. res_bind (ml_mode m) (\<lambda>k. Inr [l, f, k])))"

fun sequence_table_loop :: "mode_type list \<Rightarrow> nat \<Rightarrow> u8 list \<Rightarrow> nat \<Rightarrow> fse_scratch \<Rightarrow> (fse_scratch \<times> nat) res" where
  "sequence_table_loop [] t source bytes_read sc = Inr (sc, bytes_read)"
| "sequence_table_loop (mode # modes) t source bytes_read sc =
     (if length source < bytes_read then Inl Panic
      else
        res_bind (build_sequence_table mode (drop bytes_read source) sc t) (\<lambda>(sc, n).
        sequence_table_loop modes (Suc t) source (bytes_read + n) sc))"

definition build_sequence_tables :: "sequences_header \<Rightarrow> u8 list \<Rightarrow> fse_scratch \<Rightarrow> (fse_scratch \<times> nat) res" where
  "build_sequence_tables hdr source sc =
     res_bind (modes_all (sh_modes hdr)) (\<lambda>modes. sequence_table_loop modes 0 source 0 sc)"

definition SHORT_OFFSET_SHARE_MIN :: nat where
  "SHORT_OFFSET_SHARE_MIN = 32"

definition short_offset_share :: "fse_table \<Rightarrow> nat res" where
  "short_offset_share table =
     res_bind (fse_decode table) (\<lambda>dt.
     let short =
       (if accuracy_log table = 0 then (case dt of [] \<Rightarrow> 0 | e # _ \<Rightarrow> if 2 \<le> extra_bits e \<and> extra_bits e \<le> 4 then 1 else 0)
        else (\<Sum>p\<leftarrow>drop 2 (take 5 (symbol_probabilities table)). nat \<bar>p\<bar>)) in
     if 8 < accuracy_log table then Inl Panic
     else Inr (short * 2 ^ (8 - accuracy_log table)))"

section \<open>Tables that sequences may be decoded with\<close>

definition seq_table_ok :: "nat \<Rightarrow> fse_table \<Rightarrow> bool" where
  "seq_table_ok t tab \<longleftrightarrow>
     fse_wf tab \<and> accuracy_log tab \<le> k_max_log (SEQ_TABLES ! t) \<and>
     (\<forall>i < tsize tab. \<exists>s \<le> k_max_code (SEQ_TABLES ! t).
        base_value (cells tab ! i) = k_base (SEQ_TABLES ! t) ! s \<and> extra_bits (cells tab ! i) = k_bits (SEQ_TABLES ! t) ! s)"

text \<open>An own table is empty, as after a reset, or usable; a dictionary's tables are all built.\<close>

definition own_ok :: "fse_scratch \<Rightarrow> nat \<Rightarrow> bool" where
  "own_ok sc t \<longleftrightarrow> max_symbol (own_table sc t) = k_max_code (SEQ_TABLES ! t) \<and> (tsize (own_table sc t) = 0 \<or> seq_table_ok t (own_table sc t))"

definition dict_tables_ok :: "fse_scratch option \<Rightarrow> bool" where
  "dict_tables_ok dict \<longleftrightarrow> (case dict of None \<Rightarrow> True | Some d \<Rightarrow> \<forall>t < 3. seq_table_ok t (own_table d t))"

definition fse_scratch_ok :: "fse_scratch \<Rightarrow> fse_scratch option \<Rightarrow> bool" where
  "fse_scratch_ok sc dict \<longleftrightarrow>
     length (fs_source sc) = 3 \<and> dict_tables_ok dict \<and>
     (\<forall>t < 3. own_ok sc t \<and> (fs_source sc ! t = DictTable \<longrightarrow> dict \<noteq> None))"

text \<open>The table of code \<open>t\<close> may be used.\<close>

definition usable :: "fse_scratch \<Rightarrow> fse_scratch option \<Rightarrow> nat \<Rightarrow> bool" where
  "usable sc dict t \<longleftrightarrow> (\<exists>tab. scratch_table sc t dict = Inr tab \<and> seq_table_ok t tab)"

lemma all3: "(\<forall>t < (3::nat). P t) \<longleftrightarrow> P 0 \<and> P 1 \<and> P 2"
  by (auto simp: numeral_3_eq_3 less_Suc_eq numeral_2_eq_2)

lemma kind_facts:
  assumes "t < 3"
  shows "k_max_log (SEQ_TABLES ! t) \<le> 9" "k_max_code (SEQ_TABLES ! t) \<le> 255"
    "length (k_base (SEQ_TABLES ! t)) = k_max_code (SEQ_TABLES ! t) + 1" "length (k_bits (SEQ_TABLES ! t)) = k_max_code (SEQ_TABLES ! t) + 1"
proof -
  have "\<forall>t < 3. k_max_log (SEQ_TABLES ! t) \<le> 9 \<and> k_max_code (SEQ_TABLES ! t) \<le> 255 \<and>
    length (k_base (SEQ_TABLES ! t)) = k_max_code (SEQ_TABLES ! t) + 1 \<and> length (k_bits (SEQ_TABLES ! t)) = k_max_code (SEQ_TABLES ! t) + 1"
    unfolding all3 by (simp add: SEQ_TABLES_def LL_BASE_def LL_BITS_def OF_BASE_def OF_BITS_def ML_BASE_def ML_BITS_def)
  then show "k_max_log (SEQ_TABLES ! t) \<le> 9" "k_max_code (SEQ_TABLES ! t) \<le> 255"
    "length (k_base (SEQ_TABLES ! t)) = k_max_code (SEQ_TABLES ! t) + 1" "length (k_bits (SEQ_TABLES ! t)) = k_max_code (SEQ_TABLES ! t) + 1"
    using assms by blast+
qed

lemma kind_cover: "t < 3 \<Longrightarrow> m \<le> k_max_code (SEQ_TABLES ! t) + 1 \<Longrightarrow> codes_cover (kind_codes (SEQ_TABLES ! t)) m"
  using kind_facts [of t] by (simp add: codes_cover_def kind_codes_def)

lemma seq_table_ok_cells:
  assumes t: "t < 3" and wf: "fse_wf tab" "accuracy_log tab \<le> k_max_log (SEQ_TABLES ! t)"
    and l: "length (symbol_probabilities tab) \<le> k_max_code (SEQ_TABLES ! t) + 1"
    and f: "fse_cells (kind_codes (SEQ_TABLES ! t)) (accuracy_log tab) (symbol_probabilities tab) (take (tsize tab) (cells tab)) syms"
  shows "seq_table_ok t tab"
proof -
  let ?k = "SEQ_TABLES ! t"
  have "\<exists>s \<le> k_max_code ?k. base_value (cells tab ! i) = k_base ?k ! s \<and> extra_bits (cells tab ! i) = k_bits ?k ! s" if i: "i < tsize tab" for i
  proof -
    have ts: "tsize tab = 2 ^ accuracy_log tab" using wf(1) by (simp add: fse_wf_def)
    have "syms ! i \<in> set syms" using f i ts by (auto simp: fse_cells_def)
    then have "count_list syms (syms ! i) \<noteq> 0" by (simp add: count_list_0_iff)
    moreover have "count_list syms (syms ! i) =
        (if syms ! i < length (symbol_probabilities tab) then cell_count (symbol_probabilities tab ! (syms ! i)) else 0)"
      using f unfolding fse_cells_def by blast
    ultimately have "syms ! i < length (symbol_probabilities tab)" by (auto split: if_splits)
    then have "syms ! i \<le> k_max_code ?k" using l by simp
    moreover have "base_value (cells tab ! i) = k_base ?k ! (syms ! i) \<and> extra_bits (cells tab ! i) = k_bits ?k ! (syms ! i)"
      using f i ts by (auto simp: fse_cells_def cell_is_def kind_codes_def)
    ultimately show ?thesis by blast
  qed
  then show ?thesis using wf by (simp add: seq_table_ok_def)
qed

lemma predefined_ok:
  assumes t: "t < 3"
  shows "\<exists>tab. predefined_table t = Inr tab \<and> seq_table_ok t tab"
proof -
  define k where "k = SEQ_TABLES ! t"
  let ?t = "(fse_reset (fse_new (k_max_code k)))\<lparr>symbol_probabilities := k_default_distribution k, accuracy_log := k_default_log k\<rparr>"
  have "\<forall>t < 3. let k = SEQ_TABLES ! t in fse_tiles (k_default_log k) (k_default_distribution k) \<and> 5 \<le> k_default_log k \<and> k_default_log k \<le> k_max_log k
      \<and> length (k_default_distribution k) \<le> k_max_code k + 1
      \<and> (\<forall>p \<in> set (k_default_distribution k). p \<noteq> - (2 ^ 31) \<and> \<not> p < -1) \<and> (\<Sum>p\<leftarrow>k_default_distribution k. \<bar>p\<bar>) = 2 ^ k_default_log k"
    unfolding all3 by (simp add: SEQ_TABLES_def fse_tiles_def cell_count_def
        LITERALS_LENGTH_DEFAULT_DISTRIBUTION_def OFFSET_DEFAULT_DISTRIBUTION_def MATCH_LENGTH_DEFAULT_DISTRIBUTION_def)
  then have d: "fse_tiles (k_default_log k) (k_default_distribution k)" "5 \<le> k_default_log k" "k_default_log k \<le> k_max_log k"
      "length (k_default_distribution k) \<le> k_max_code k + 1"
      "\<forall>p \<in> set (k_default_distribution k). p \<noteq> - (2 ^ 31) \<and> \<not> p < -1" "(\<Sum>p\<leftarrow>k_default_distribution k. \<bar>p\<bar>) = 2 ^ k_default_log k"
    using t unfolding Let_def k_def by blast+
  note kf = kind_facts [OF t, folded k_def]
  have "build_from_probabilities (k_default_log k) (k_default_distribution k) (kind_codes k) (fse_new (k_max_code k)) = build_decoding_table (kind_codes k) ?t"
    using d kf unfolding build_from_probabilities_def
    by (auto simp: ACC_LOG_OFFSET_def FSE_MAX_TABLE_LOG_def fse_reset_def fse_new_def Let_def)
  moreover obtain tab syms where tab: "build_decoding_table (kind_codes k) ?t = Inr tab" "fse_wf tab" "accuracy_log tab = k_default_log k"
      "symbol_probabilities tab = k_default_distribution k"
      "fse_cells (kind_codes k) (k_default_log k) (k_default_distribution k) (take (tsize tab) (cells tab)) syms"
    using fse_wf_built [of ?t "kind_codes k"] d kf kind_cover [OF t, folded k_def, of "length (k_default_distribution k)"] by auto
  ultimately have "predefined_table t = Inr tab" by (simp add: predefined_table_def k_def [symmetric])
  moreover have "seq_table_ok t tab"
    by (rule seq_table_ok_cells [OF t tab(2)]) (use tab d in \<open>simp_all add: k_def\<close>)
  ultimately show ?thesis by blast
qed

lemma own_set_own: "t < 3 \<Longrightarrow> t' < 3 \<Longrightarrow> own_table (set_own_table sc t tab) t' = (if t' = t then tab else own_table sc t')"
  by (auto simp: own_table_def set_own_table_def)

lemma set_own_source [simp]: "fs_source (set_own_table sc t tab) = fs_source sc"
  by (simp add: set_own_table_def)

lemma own_table_source [simp]: "own_table (sc\<lparr>fs_source := ss\<rparr>) t = own_table sc t"
  by (simp add: own_table_def)

lemma usable_simps:
  assumes "t < 3"
  shows "fs_source sc ! t = OwnTable \<Longrightarrow> usable sc dict t \<longleftrightarrow> seq_table_ok t (own_table sc t)"
    and "fs_source sc ! t = PredefinedTable \<Longrightarrow> usable sc dict t"
    and "fs_source sc ! t = DictTable \<Longrightarrow> dict = Some d \<Longrightarrow> dict_tables_ok dict \<Longrightarrow> usable sc dict t"
  using assms predefined_ok [OF assms] by (auto simp: usable_def scratch_table_def dict_tables_ok_def)

text \<open>A description gives an error or makes its table usable; the other tables stay as they are.\<close>

lemma build_sequence_table_cases:
  assumes ok: "fse_scratch_ok sc dict" and t: "t < 3"
  shows "(\<exists>e. build_sequence_table mode source sc t = Inl (Err e)) \<or>
    (\<exists>sc' n. build_sequence_table mode source sc t = Inr (sc', n) \<and> n \<le> length source \<and> fse_scratch_ok sc' dict \<and> usable sc' dict t
      \<and> (\<forall>t' < 3. t' \<noteq> t \<longrightarrow> usable sc dict t' \<longrightarrow> usable sc' dict t'))"
proof -
  let ?k = "SEQ_TABLES ! t" and ?s = "sc\<lparr>fs_source := (fs_source sc)[t := OwnTable]\<rparr>"
  note kf = kind_facts [OF t]
  have own: "own_ok sc t'" "fs_source sc ! t' = DictTable \<Longrightarrow> dict \<noteq> None" if "t' < 3" for t' using ok that by (auto simp: fse_scratch_ok_def)
  have l: "length (fs_source sc) = 3" and dok: "dict_tables_ok dict" using ok by (auto simp: fse_scratch_ok_def)
  have other: "usable sc' dict t'" if "t' < 3" "t' \<noteq> t" "usable sc dict t'" "fs_source sc' ! t' = fs_source sc ! t'" "own_table sc' t' = own_table sc t'" for sc' t'
    using that(3) unfolding usable_def scratch_table_def that(4,5) .
  have built: "fse_scratch_ok (set_own_table ?s t tab) dict" "usable (set_own_table ?s t tab) dict t"
      "\<forall>t' < 3. t' \<noteq> t \<longrightarrow> usable sc dict t' \<longrightarrow> usable (set_own_table ?s t tab) dict t'"
    if tab: "seq_table_ok t tab" "max_symbol tab = k_max_code ?k" for tab
  proof -
    show "fse_scratch_ok (set_own_table ?s t tab) dict"
      using own l dok tab t by (auto simp: fse_scratch_ok_def own_ok_def own_set_own nth_list_update)
    show "usable (set_own_table ?s t tab) dict t" using usable_simps(1) [OF t] tab l t by (simp add: own_set_own)
    show "\<forall>t' < 3. t' \<noteq> t \<longrightarrow> usable sc dict t' \<longrightarrow> usable (set_own_table ?s t tab) dict t'"
      using other [of _ "set_own_table ?s t tab"] t by (auto simp: own_set_own)
  qed
  show ?thesis
  proof (cases mode)
    case FseCompressed
    have ms: "max_symbol (own_table sc t) = k_max_code ?k" using own(1) [OF t] by (simp add: own_ok_def)
    have pre: "k_max_log ?k \<le> 9" "max_symbol (own_table sc t) \<le> 255" "codes_cover (kind_codes ?k) (max_symbol (own_table sc t) + 1)"
      using kf ms kind_cover [OF t, of "k_max_code ?k + 1"] by simp_all
    from fse_build_decoder_cases [OF pre, of source] show ?thesis
    proof (elim disjE exE conjE)
      fix tab n syms
      assume b: "fse_build_decoder (own_table sc t) source (k_max_log ?k) (kind_codes ?k) = Inr (tab, n)" "n \<le> length source" "fse_wf tab"
        "max_symbol tab = max_symbol (own_table sc t)" "accuracy_log tab \<le> k_max_log ?k"
        "length (symbol_probabilities tab) \<le> max_symbol (own_table sc t) + 1"
        "fse_cells (kind_codes ?k) (accuracy_log tab) (symbol_probabilities tab) (take (tsize tab) (cells tab)) syms"
      have "seq_table_ok t tab" by (rule seq_table_ok_cells [OF t b(3,5) _ b(7)]) (use b(6) ms in simp)
      then show ?thesis using built [of tab] b(1,2,4) ms FseCompressed by (auto simp: build_sequence_table_def Let_def)
    qed (auto simp: build_sequence_table_def FseCompressed Let_def)
  next
    case RleMode
    show ?thesis
    proof (cases "source = [] \<or> k_max_code ?k < unat (hd source)")
      case True
      then show ?thesis using RleMode by (cases source) (auto simp: build_sequence_table_def Let_def)
    next
      case False
      then obtain code rest where src: "source = code # rest" "unat code \<le> k_max_code ?k" by (cases source) auto
      obtain tab where b: "build_rle (own_table sc t) (unat code) (k_base ?k) (k_bits ?k) = Inr tab" "fse_wf tab" "tsize tab = 1" "accuracy_log tab = 0"
        "cells tab ! 0 = \<lparr>next_state = 0, num_bits = 0, extra_bits = k_bits ?k ! unat code, base_value = k_base ?k ! unat code\<rparr>"
        "max_symbol tab = max_symbol (own_table sc t)"
        using build_rle_ok [of "unat code" "k_base ?k" "k_bits ?k" "own_table sc t"] kf src(2) by auto
      have "seq_table_ok t tab" using b src(2) by (auto simp: seq_table_ok_def)
      then show ?thesis using built [of tab] b(1,6) own(1) [OF t] src RleMode
        by (auto simp: build_sequence_table_def Let_def own_ok_def)
    qed
  next
    case Predefined
    let ?p = "sc\<lparr>fs_source := (fs_source sc)[t := PredefinedTable]\<rparr>"
    have "fse_scratch_ok ?p dict" using own l dok t by (auto simp: fse_scratch_ok_def own_ok_def nth_list_update)
    moreover have "usable ?p dict t" using usable_simps(2) [OF t, of ?p dict] l t by simp
    moreover have "\<forall>t' < 3. t' \<noteq> t \<longrightarrow> usable sc dict t' \<longrightarrow> usable ?p dict t'" using other [of _ ?p] by simp
    ultimately show ?thesis using Predefined by (auto simp: build_sequence_table_def Let_def)
  next
    case RepeatMode
    have u: "usable sc dict t" if "fs_source sc ! t \<noteq> OwnTable \<or> tsize (own_table sc t) \<noteq> 0"
      using that own [OF t] usable_simps [OF t, of sc dict] dok by (cases "fs_source sc ! t") (auto simp: own_ok_def)
    have "fse_decode (own_table sc t) = Inr (take (tsize (own_table sc t)) (cells (own_table sc t)))"
      using own(1) [OF t] by (auto simp: fse_decode_def own_ok_def seq_table_ok_def fse_wf_def)
    then show ?thesis using u ok RepeatMode by (auto simp: build_sequence_table_def repeatable_def Let_def)
  qed
qed

lemma sequence_table_loop_cases:
  assumes "fse_scratch_ok sc dict" and "t + length modes \<le> 3" and "n \<le> length source" and "\<forall>t' < t. usable sc dict t'"
  shows "(\<exists>e. sequence_table_loop modes t source n sc = Inl (Err e)) \<or>
    (\<exists>sc' n'. sequence_table_loop modes t source n sc = Inr (sc', n') \<and> n' \<le> length source \<and> fse_scratch_ok sc' dict
      \<and> (\<forall>t' < t + length modes. usable sc' dict t'))"
  using assms
proof (induction modes arbitrary: t n sc)
  case Nil
  then show ?case by simp
next
  case (Cons mode modes)
  have t: "t < 3" using Cons.prems(2) by simp
  from build_sequence_table_cases [OF Cons.prems(1) t, of mode "drop n source"] show ?case
  proof (elim disjE exE conjE)
    fix e
    assume "build_sequence_table mode (drop n source) sc t = Inl (Err e)"
    then show ?thesis using Cons.prems(3) by simp
  next
    fix sc' k
    assume b: "build_sequence_table mode (drop n source) sc t = Inr (sc', k)" "k \<le> length (drop n source)" "fse_scratch_ok sc' dict" "usable sc' dict t"
      "\<forall>t' < 3. t' \<noteq> t \<longrightarrow> usable sc dict t' \<longrightarrow> usable sc' dict t'"
    have "\<forall>t' < Suc t. usable sc' dict t'" using b(4,5) Cons.prems(4) t by (auto simp: less_Suc_eq)
    then show ?thesis using Cons.IH [OF b(3), of "Suc t" "n + k"] b(1,2) Cons.prems(2,3) by simp
  qed
qed

lemma modes_all_ok: "m < 256 \<Longrightarrow> \<exists>l f k. modes_all m = Inr [l, f, k]"
proof -
  have d: "\<exists>x. decode_mode i = Inr x" if "i < 4" for i using that by (auto simp: decode_mode_def)
  assume "m < 256"
  then have "m div 64 < 4" by (simp add: div_less_iff_less_mult)
  then show ?thesis using d [of "m div 64"] d [of "m div 16 mod 4"] d [of "m div 4 mod 4"]
    by (auto simp: modes_all_def ll_mode_def of_mode_def ml_mode_def)
qed

lemma scratch_tables_ok:
  assumes "\<forall>t < 3. usable sc dict t"
  shows "\<exists>ll of_t ml. scratch_tables sc dict = Inr (ll, of_t, ml) \<and> seq_table_ok 0 ll \<and> seq_table_ok 1 of_t \<and> seq_table_ok 2 ml"
  using assms unfolding all3 usable_def scratch_tables_def by auto

lemma build_sequence_tables_cases:
  assumes "fse_scratch_ok sc dict" and "sh_modes hdr < 256"
  shows "(\<exists>e. build_sequence_tables hdr source sc = Inl (Err e)) \<or>
    (\<exists>sc' n. build_sequence_tables hdr source sc = Inr (sc', n) \<and> n \<le> length source \<and> fse_scratch_ok sc' dict \<and> (\<forall>t < 3. usable sc' dict t))"
proof -
  obtain l f k where m: "modes_all (sh_modes hdr) = Inr [l, f, k]" using modes_all_ok [OF assms(2)] by blast
  show ?thesis using sequence_table_loop_cases [OF assms(1), of 0 "[l, f, k]" 0 source]
    by (simp add: build_sequence_tables_def m eval_nat_numeral)
qed

lemma scratch_new_ok: "fse_scratch_ok fse_scratch_new None"
  unfolding fse_scratch_ok_def all3
  by (simp add: fse_scratch_new_def own_ok_def own_table_def fse_new_def SEQ_TABLES_def dict_tables_ok_def numeral_2_eq_2)

lemma scratch_reset_ok: "fse_scratch_ok sc dict \<Longrightarrow> fse_scratch_ok (fse_scratch_reset sc) None"
  unfolding fse_scratch_ok_def all3
  by (simp add: fse_scratch_reset_def own_ok_def own_table_def fse_reset_def dict_tables_ok_def numeral_2_eq_2)

text \<open>C29: the tables of every block are safe to walk.  From a scratch in its invariant, whatever the modes and
  the bytes, \<open>build_sequence_tables\<close> reports an error or consumes at most the bytes given and leaves the
  invariant, with three tables in use (own, predefined or the dictionary's) that are well formed, within the
  log of their kind, and whose cells carry a base and extra bits of their code.\<close>

theorem build_sequence_tables_total:
  assumes "fse_scratch_ok sc dict" and "sh_modes hdr < 256"
  shows "case build_sequence_tables hdr source sc of
      Inl f \<Rightarrow> \<exists>e. f = Err e
    | Inr (sc', n) \<Rightarrow> n \<le> length source \<and> fse_scratch_ok sc' dict \<and>
        (\<exists>ll of_t ml. scratch_tables sc' dict = Inr (ll, of_t, ml) \<and> seq_table_ok 0 ll \<and> seq_table_ok 1 of_t \<and> seq_table_ok 2 ml)"
  using build_sequence_tables_cases [OF assms, of source] scratch_tables_ok [of _ dict] by (auto split: sum.splits)

theorem build_sequence_tables_total_witness:
  "\<exists>sc' n. build_sequence_tables \<lparr>num_sequences = 1, sh_modes = 16\<rparr> [2, 9] fse_scratch_new = Inr (sc', n) \<and> n = 1 \<and> fse_scratch_ok sc' None"
proof -
  have "case build_sequence_tables \<lparr>num_sequences = 1, sh_modes = 16\<rparr> [2, 9] fse_scratch_new of Inl f \<Rightarrow> False | Inr (sc', n) \<Rightarrow> n = 1"
    by code_simp
  then show ?thesis
    using build_sequence_tables_total [OF scratch_new_ok, of "\<lparr>num_sequences = 1, sh_modes = 16\<rparr>" "[2, 9]"] by (auto split: sum.splits)
qed

lemma short_offset_share_ok: "seq_table_ok 1 tab \<Longrightarrow> \<exists>n. short_offset_share tab = Inr n"
  by (auto simp: short_offset_share_def seq_table_ok_def fse_wf_def fse_decode_def SEQ_TABLES_def Let_def)

end
