(* ===== verification/Dictionary.thy ===== *)
theory Dictionary
  imports Literals Sequence_Tables
begin

text \<open>
  Decoder dictionaries (\<open>src/src/decode/dict.rs\<close>): \<open>DecodeDict::new\<close> takes a formatted dictionary apart
  (\<open>load_entropy\<close>: a Huffman table, three sequence tables, three repeat offsets) or keeps any other bytes as raw
  content.  What decoding relies on of the result is \<open>decode_dict_ok\<close>.
\<close>

section \<open>The code\<close>

definition DICT_MAGIC :: nat where
  "DICT_MAGIC = 0xEC30A437"

record dict_entropy =
  de_huf :: huffman_table
  de_fse :: fse_scratch
  de_rep :: "nat list"

record decode_dict =
  dd_id :: nat
  dd_content :: "u8 list"
  dd_entropy :: "dict_entropy option"

text \<open>The descriptions of the OF, ML and LL tables, in this order.\<close>

fun load_tables :: "nat list \<Rightarrow> u8 list \<Rightarrow> nat \<Rightarrow> fse_scratch \<Rightarrow> (fse_scratch \<times> nat) res" where
  "load_tables [] dict pos fse = Inr (fse, pos)"
| "load_tables (t # ts) dict pos fse =
     (if length dict < pos then Inl Panic
      else
        res_bind (build_sequence_table FseCompressed (drop pos dict) fse t) (\<lambda>(fse, n).
        load_tables ts dict (pos + n) fse))"

text \<open>The repeat offsets of the content, four bytes each.\<close>

fun load_reps :: "u8 list \<Rightarrow> nat \<Rightarrow> nat \<Rightarrow> nat list res" where
  "load_reps reps content_len 0 = Inr []"
| "load_reps reps content_len (Suc n) =
     (let r = le_nat (take 4 reps) in
      if r = 0 \<or> content_len < r then Inl (Err (DictError (DictRepOutside r content_len)))
      else res_bind (load_reps (drop 4 reps) content_len n) (\<lambda>rs. Inr (r # rs)))"

definition load_entropy :: "u8 list \<Rightarrow> (dict_entropy \<times> nat) res" where
  "load_entropy dict =
     (if length dict \<le> 8 then Inl (Err (DictError DictNoEntropy))
      else
        res_bind (read_weights huffman_new (drop 8 dict)) (\<lambda>(huf, huf_len, nb_weights).
        res_bind (weight_stats huf nb_weights) (\<lambda>huf.
        res_bind (fill huf True) (\<lambda>huf.
        res_bind (load_tables [1, 2, 0] dict (8 + huf_len) fse_scratch_new) (\<lambda>(fse, pos).
        case get_range dict pos (pos + 12) of
          None \<Rightarrow> Inl (Err (DictError DictRepsTruncated))
        | Some reps \<Rightarrow>
            res_bind (load_reps reps (length dict - (pos + 12)) 3) (\<lambda>rep.
            Inr (\<lparr>de_huf = huf, de_fse = fse, de_rep = rep\<rparr>, pos + 12)))))))"

definition decode_dict_new :: "u8 list \<Rightarrow> decode_dict res" where
  "decode_dict_new dict =
     (if length dict < 8 \<or> map_option le_nat (get_range dict 0 4) \<noteq> Some DICT_MAGIC
      then Inr \<lparr>dd_id = 0, dd_content = dict, dd_entropy = None\<rparr>
      else
        res_bind (load_entropy dict) (\<lambda>(entropy, used).
        Inr \<lparr>dd_id = le_nat (take 4 (drop 4 dict)), dd_content = drop used dict, dd_entropy = Some entropy\<rparr>))"

section \<open>Loaded dictionaries\<close>

definition entropy_ok :: "dict_entropy \<Rightarrow> nat \<Rightarrow> bool" where
  "entropy_ok e content_len \<longleftrightarrow>
     scratch_ok (de_huf e) \<and> max_num_bits (de_huf e) \<noteq> 0 \<and> is_x2 (de_huf e) \<and> dict_tables_ok (Some (de_fse e)) \<and>
     length (de_rep e) = 3 \<and> (\<forall>r \<in> set (de_rep e). 1 \<le> r \<and> r \<le> content_len \<and> r < 2 ^ 32)"

definition decode_dict_ok :: "decode_dict \<Rightarrow> bool" where
  "decode_dict_ok d \<longleftrightarrow> dd_id d < 2 ^ 32 \<and> (\<forall>e. dd_entropy d = Some e \<longrightarrow> entropy_ok e (length (dd_content d)))"

lemma load_reps_cases:
  "(\<exists>e. load_reps reps n k = Inl (Err e)) \<or>
   (\<exists>rs. load_reps reps n k = Inr rs \<and> length rs = k \<and> (\<forall>r \<in> set rs. 1 \<le> r \<and> r \<le> n \<and> r < 2 ^ 32))"
proof (induction k arbitrary: reps)
  case (Suc k)
  have "le_nat (take 4 reps) < 256 ^ length (take 4 reps)" by (rule le_nat_bound)
  also have "\<dots> \<le> 256 ^ 4" by (intro power_increasing) auto
  finally have b: "le_nat (take 4 reps) < 2 ^ 32" by simp
  show ?case using Suc [of "drop 4 reps"] b by (auto simp: Let_def)
qed simp

text \<open>Each description leaves its own table usable, and the tables of earlier ones as they are.\<close>

lemma load_tables_cases:
  assumes "fse_scratch_ok sc None" and "pos \<le> length dict" and "set ts \<subseteq> {0, 1, 2}" and "\<forall>t \<in> A. t < 3 \<and> fs_source sc ! t = OwnTable \<and> usable sc None t"
    and "\<forall>t < 3. fs_source sc ! t = OwnTable"
  shows "(\<exists>e. load_tables ts dict pos sc = Inl (Err e)) \<or>
    (\<exists>sc' pos'. load_tables ts dict pos sc = Inr (sc', pos') \<and> pos' \<le> length dict \<and> fse_scratch_ok sc' None
      \<and> (\<forall>t \<in> A \<union> set ts. t < 3 \<and> seq_table_ok t (own_table sc' t)))"
  using assms
proof (induction ts arbitrary: pos sc A)
  case Nil
  then show ?case using usable_simps(1) by auto
next
  case (Cons t ts)
  have t: "t < 3" using Cons.prems(3) by auto
  from build_sequence_table_cases [OF Cons.prems(1) t, of FseCompressed "drop pos dict"] show ?case
  proof (elim disjE exE conjE)
    fix e
    assume "build_sequence_table FseCompressed (drop pos dict) sc t = Inl (Err e)"
    then show ?thesis using Cons.prems(2) by simp
  next
    fix sc' n
    assume b: "build_sequence_table FseCompressed (drop pos dict) sc t = Inr (sc', n)" "n \<le> length (drop pos dict)" "fse_scratch_ok sc' None"
      "usable sc' None t" "\<forall>t' < 3. t' \<noteq> t \<longrightarrow> usable sc None t' \<longrightarrow> usable sc' None t'"
    have src: "fs_source sc' = fs_source sc"
      using b(1) Cons.prems(5) t by (auto simp: build_sequence_table_def Let_def res_bind_def list_update_same_conv split: sum.splits)
        (metis list_update_id)
    have "\<forall>t' \<in> insert t A. t' < 3 \<and> fs_source sc' ! t' = OwnTable \<and> usable sc' None t'"
      using b(4,5) Cons.prems(4,5) t src by auto
    from Cons.IH [OF b(3) _ _ this] b(1,2) Cons.prems(2,3,5) src show ?thesis by auto
  qed
qed

lemma scratch_new_own: "\<forall>t < 3. fs_source fse_scratch_new ! t = OwnTable"
  unfolding all3 by (simp add: fse_scratch_new_def numeral_2_eq_2)

lemma load_entropy_cases:
  "(\<exists>e. load_entropy dict = Inl (Err e)) \<or>
   (\<exists>e n. load_entropy dict = Inr (e, n) \<and> n \<le> length dict \<and> entropy_ok e (length dict - n))"
proof (cases "length dict \<le> 8")
  case True
  then show ?thesis by (simp add: load_entropy_def)
next
  case big: False
  from read_weights_total [OF huffman_new_inv, of "drop 8 dict"] show ?thesis
  proof (elim disjE exE conjE)
    fix e
    assume "read_weights huffman_new (drop 8 dict) = Inl (Err e)"
    then show ?thesis using big by (simp add: load_entropy_def)
  next
    fix t1 used nb
    assume w: "read_weights huffman_new (drop 8 dict) = Inr (t1, used, nb)" "huffman_inv t1" "used \<le> length (drop 8 dict)" "nb \<le> 255"
      "\<forall>w \<in> set (take nb (weights t1)). w < 16"
    show ?thesis
    proof (cases "\<exists>e. weight_stats t1 nb = Inl (Err e)")
      case True
      then show ?thesis using big w(1) by (auto simp: load_entropy_def)
    next
      case False
      then obtain t2 where t2: "weight_stats t1 nb = Inr t2" "huffman_complete t2" "huffman_inv t2" using weight_stats_cases [OF w(2,4,5)] by blast
      obtain t3 where t3: "fill t2 True = Inr t3" "huffman_ready t3" "huffman_inv t3" "is_x2 t3" using fill_ok [OF t2(2,3), of True] by auto
      have pos: "8 + used \<le> length dict" using w(3) big by simp
      have eq: "load_entropy dict = res_bind (load_tables [1, 2, 0] dict (8 + used) fse_scratch_new) (\<lambda>(fse, pos).
          case get_range dict pos (pos + 12) of None \<Rightarrow> Inl (Err (DictError DictRepsTruncated))
          | Some reps \<Rightarrow> res_bind (load_reps reps (length dict - (pos + 12)) 3) (\<lambda>rep. Inr (\<lparr>de_huf = t3, de_fse = fse, de_rep = rep\<rparr>, pos + 12)))"
        using big w(1) t2(1) t3(1) by (simp add: load_entropy_def)
      show ?thesis
      proof (cases "\<exists>e. load_tables [1, 2, 0] dict (8 + used) fse_scratch_new = Inl (Err e)")
        case True
        then show ?thesis unfolding eq by auto
      next
        case False
        then obtain fse p where lt: "load_tables [1, 2, 0] dict (8 + used) fse_scratch_new = Inr (fse, p)" "p \<le> length dict" "\<forall>t \<in> {1, 2, 0}. t < 3 \<and> seq_table_ok t (own_table fse t)"
          using load_tables_cases [OF scratch_new_ok pos, of "[1, 2, 0]" "{}"] scratch_new_own by auto
        have tabs: "dict_tables_ok (Some fse)" using lt(3) unfolding dict_tables_ok_def option.case all3 by auto
        show ?thesis
        proof (cases "p + 12 \<le> length dict")
          case True
          then have g: "get_range dict p (p + 12) = Some (take 12 (drop p dict))" by (simp add: get_range_def)
          have "scratch_ok t3" "max_num_bits t3 \<noteq> 0" using t3(2,3) ready_bits by (auto simp: scratch_ok_def)
          then show ?thesis unfolding eq lt(1) res_bind_simps case_prod_conv g option.case
            using load_reps_cases [of "take 12 (drop p dict)" "length dict - (p + 12)" 3] tabs t3(4) True
            by (elim disjE exE conjE) (simp_all add: entropy_ok_def)
        next
          case False
          then show ?thesis unfolding eq lt(1) by (simp add: get_range_def)
        qed
      qed
    qed
  qed
qed

lemma decode_dict_new_cases:
  "(\<exists>e. decode_dict_new dict = Inl (Err e)) \<or> (\<exists>d n. decode_dict_new dict = Inr d \<and> decode_dict_ok d \<and> dd_content d = drop n dict)"
proof (cases "length dict < 8 \<or> map_option le_nat (get_range dict 0 4) \<noteq> Some DICT_MAGIC")
  case True
  then show ?thesis by (intro disjI2 exI [of _ "\<lparr>dd_id = 0, dd_content = dict, dd_entropy = None\<rparr>"] exI [of _ 0]) (auto simp: decode_dict_new_def decode_dict_ok_def)
next
  case False
  have "le_nat (take 4 (drop 4 dict)) < 256 ^ length (take 4 (drop 4 dict))" by (rule le_nat_bound)
  also have "\<dots> \<le> 256 ^ 4" by (intro power_increasing) auto
  finally have "le_nat (take 4 (drop 4 dict)) < 2 ^ 32" by simp
  then show ?thesis using False load_entropy_cases [of dict] by (auto simp: decode_dict_new_def decode_dict_ok_def)
qed

text \<open>C32: every dictionary that loads is fit for use.  Whatever the bytes, \<open>DecodeDict::new\<close> reports an error or
  gives a dictionary whose content is a suffix of the bytes and whose entropy section, if it has one, has a complete
  double-symbol Huffman table, three usable sequence tables and three repeat offsets inside the content.\<close>

theorem decode_dict_new_total:
  "case decode_dict_new dict of
      Inl f \<Rightarrow> \<exists>e. f = Err e
    | Inr d \<Rightarrow> decode_dict_ok d \<and> (\<exists>n. dd_content d = drop n dict)"
  using decode_dict_new_cases [of dict] by (elim disjE exE conjE) auto

end
