(* ===== verification/Wildcopy.thy ===== *)
theory Wildcopy
  imports Prelude
begin

text \<open>
  The copies of sequence execution (\<open>src/src/decode.rs\<close>): raw pointers, the chunked copies that overshoot
  (\<open>wildcopy\<close> and its variants), and the four implementations of the trait \<open>WildCopy\<close>.

  A pointer is an allocation with an index, memory maps allocations to their bytes.  An access outside its
  allocation and a \<open>copy_nonoverlapping\<close> of overlapping ranges are \<open>Undefined\<close>.  The trait is the record of
  its operations; its contract is the locale \<open>wild_copy\<close>, which the four implementations interpret.
\<close>

unbundle bit_operations_syntax

section \<open>Raw memory\<close>

type_synonym ptr = "nat \<times> nat"
type_synonym mem = "nat \<Rightarrow> u8 list"

definition padd :: "ptr \<Rightarrow> nat \<Rightarrow> ptr" where
  "padd p n = (fst p, snd p + n)"

definition psub :: "ptr \<Rightarrow> nat \<Rightarrow> ptr res" where
  "psub p n = (if n \<le> snd p then Inr (fst p, snd p - n) else Inl Undefined)"

definition load :: "mem \<Rightarrow> ptr \<Rightarrow> nat \<Rightarrow> u8 list res" where
  "load m p n = (if snd p + n \<le> length (m (fst p)) then Inr (take n (drop (snd p) (m (fst p)))) else Inl Undefined)"

definition store :: "mem \<Rightarrow> ptr \<Rightarrow> u8 list \<Rightarrow> mem res" where
  "store m p bs =
     (if snd p + length bs \<le> length (m (fst p)) then Inr (m(fst p := put_slice (m (fst p)) (snd p) bs)) else Inl Undefined)"

text \<open>\<open>ptr::copy\<close>: overlap allowed.\<close>

definition ptr_copy :: "mem \<Rightarrow> ptr \<Rightarrow> ptr \<Rightarrow> nat \<Rightarrow> mem res" where
  "ptr_copy m src dst n = res_bind (load m src n) (store m dst)"

definition overlapping :: "ptr \<Rightarrow> ptr \<Rightarrow> nat \<Rightarrow> bool" where
  "overlapping p q n \<longleftrightarrow> fst p = fst q \<and> snd p < snd q + n \<and> snd q < snd p + n"

definition copy_nonoverlapping :: "mem \<Rightarrow> ptr \<Rightarrow> ptr \<Rightarrow> nat \<Rightarrow> mem res" where
  "copy_nonoverlapping m src dst n = (if overlapping src dst n then Inl Undefined else ptr_copy m src dst n)"

section \<open>Chunked copies\<close>

definition copy16 :: "mem \<Rightarrow> ptr \<Rightarrow> ptr \<Rightarrow> mem res" where
  "copy16 m dst src = copy_nonoverlapping m src dst 16"

function wildcopy_loop :: "mem \<Rightarrow> ptr \<Rightarrow> ptr \<Rightarrow> nat \<Rightarrow> mem res" where
  "wildcopy_loop m dst src till =
     res_bind (copy16 m dst src) (\<lambda>m.
     res_bind (copy16 m (padd dst 16) (padd src 16)) (\<lambda>m.
     if till \<le> snd (padd dst 32) then Inr m else wildcopy_loop m (padd dst 32) (padd src 32) till))"
  by pat_completeness auto
termination
  by (relation "measure (\<lambda>(m, dst, src, till). till - snd dst)") (auto simp: padd_def)

declare wildcopy_loop.simps [simp del]

definition wildcopy :: "mem \<Rightarrow> ptr \<Rightarrow> ptr \<Rightarrow> nat \<Rightarrow> mem res" where
  "wildcopy m dst src len =
     res_bind (copy16 m dst src) (\<lambda>m.
     if len \<le> 16 then Inr m
     else wildcopy_loop m (padd dst 16) (padd src 16) (snd (padd dst len)))"

text \<open>One AVX2 load and store per chunk.\<close>

function wildcopy32_loop :: "mem \<Rightarrow> ptr \<Rightarrow> ptr \<Rightarrow> nat \<Rightarrow> mem res" where
  "wildcopy32_loop m dst src till =
     res_bind (load m src 32) (\<lambda>v.
     res_bind (store m dst v) (\<lambda>m.
     if till \<le> snd (padd dst 32) then Inr m else wildcopy32_loop m (padd dst 32) (padd src 32) till))"
  by pat_completeness auto
termination
  by (relation "measure (\<lambda>(m, dst, src, till). till - snd dst)") (auto simp: padd_def)

declare wildcopy32_loop.simps [simp del]

definition wildcopy32 :: "mem \<Rightarrow> ptr \<Rightarrow> ptr \<Rightarrow> nat \<Rightarrow> mem res" where
  "wildcopy32 m dst src len = wildcopy32_loop m dst src (snd (padd dst len))"

function wildcopy8_loop :: "mem \<Rightarrow> ptr \<Rightarrow> ptr \<Rightarrow> nat \<Rightarrow> mem res" where
  "wildcopy8_loop m dst src till =
     res_bind (copy_nonoverlapping m src dst 8) (\<lambda>m.
     if till \<le> snd (padd dst 8) then Inr m else wildcopy8_loop m (padd dst 8) (padd src 8) till)"
  by pat_completeness auto
termination
  by (relation "measure (\<lambda>(m, dst, src, till). till - snd dst)") (auto simp: padd_def)

declare wildcopy8_loop.simps [simp del]

definition wildcopy_overlap8 :: "mem \<Rightarrow> ptr \<Rightarrow> ptr \<Rightarrow> nat \<Rightarrow> mem res" where
  "wildcopy_overlap8 m dst src len = wildcopy8_loop m dst src (snd (padd dst len))"

text \<open>Four bytes one by one, then four more from \<open>src + dec32\<close>: the start of \<open>ZSTD_overlapCopy8\<close>.\<close>

definition overlap_head :: "mem \<Rightarrow> ptr \<Rightarrow> ptr \<Rightarrow> nat \<Rightarrow> mem res" where
  "overlap_head m dst src dec32 =
     res_bind (ptr_copy m src dst 1) (\<lambda>m.
     res_bind (ptr_copy m (padd src 1) (padd dst 1) 1) (\<lambda>m.
     res_bind (ptr_copy m (padd src 2) (padd dst 2) 1) (\<lambda>m.
     res_bind (ptr_copy m (padd src 3) (padd dst 3) 1) (\<lambda>m.
     copy_nonoverlapping m (padd src dec32) (padd dst 4) 4))))"

text \<open>The tables of \<open>FallbackShortOffsets\<close>; \<open>overlap_copy8\<close> has the same without their last row.\<close>

definition DEC32 :: "nat list" where
  "DEC32 = [0, 1, 2, 1, 4, 4, 4, 4, 4]"

definition DEC64 :: "nat list" where
  "DEC64 = [8, 8, 8, 7, 8, 9, 10, 11, 4]"

definition overlap_copy8 :: "mem \<Rightarrow> ptr \<Rightarrow> ptr \<Rightarrow> nat \<Rightarrow> (mem \<times> ptr \<times> ptr) res" where
  "overlap_copy8 m dst src offset =
     (if offset < 8 then
        res_bind (overlap_head m dst src (DEC32 ! offset)) (\<lambda>m.
        res_bind (psub (padd (padd src (DEC32 ! offset)) 8) (DEC64 ! offset)) (\<lambda>s.
        Inr (m, padd dst 8, s)))
      else
        res_bind (copy_nonoverlapping m src dst 8) (\<lambda>m.
        Inr (m, padd dst 8, padd src 8)))"

section \<open>The copies of a match\<close>

definition fallback_copy_match :: "mem \<Rightarrow> ptr \<Rightarrow> nat \<Rightarrow> nat \<Rightarrow> nat \<Rightarrow> mem res" where
  "fallback_copy_match m dst offset ml avail =
     res_bind (psub dst offset) (\<lambda>src.
     if 16 \<le> offset then
       res_bind (copy16 m dst src) (\<lambda>m.
       let s2 = (if 16 < ml then padd src 16 else src) in
       res_bind (copy16 m (padd dst 16) s2) (\<lambda>m.
       if 32 < ml then wildcopy m (padd dst 32) (padd src 32) (ml - 32) else Inr m))
     else
       res_bind (overlap_copy8 m dst src offset) (\<lambda>(m, dst, src).
       if 8 < ml then wildcopy_overlap8 m dst src (ml - 8) else Inr m))"

definition fallback_short_copy_match :: "mem \<Rightarrow> ptr \<Rightarrow> nat \<Rightarrow> nat \<Rightarrow> nat \<Rightarrow> mem res" where
  "fallback_short_copy_match m dst offset ml avail =
     res_bind (psub dst offset) (\<lambda>src.
     let r = min offset 8 in
     res_bind (overlap_head m dst src (DEC32 ! r)) (\<lambda>m.
     res_bind (psub (padd (padd src (DEC32 ! r)) 8) (DEC64 ! r)) (\<lambda>src.
     let dst = padd dst 8 in
     res_bind (copy_nonoverlapping m src dst 8) (\<lambda>m.
     if 16 < ml then wildcopy_overlap8 m (padd dst 8) (padd src 8) (ml - 16) else Inr m))))"

definition wide_chunks :: "nat \<Rightarrow> bool" where
  "wide_chunks dist \<longleftrightarrow> 128 < dist \<and> dist mod 32 \<noteq> 16"

definition wildcopy_periodic :: "mem \<Rightarrow> ptr \<Rightarrow> nat \<Rightarrow> nat \<Rightarrow> mem res" where
  "wildcopy_periodic m dst dist len =
     res_bind (psub dst dist) (\<lambda>src. if wide_chunks dist then wildcopy32 m dst src len else wildcopy m dst src len)"

definition wildcopy_periodic_outlined :: "mem \<Rightarrow> ptr \<Rightarrow> nat \<Rightarrow> nat \<Rightarrow> mem res" where
  "wildcopy_periodic_outlined m dst dist len = wildcopy_periodic m dst dist len"

definition WILDCOPY_VECLEN :: nat where
  "WILDCOPY_VECLEN = 16"

definition avx2_copy_match :: "mem \<Rightarrow> ptr \<Rightarrow> nat \<Rightarrow> nat \<Rightarrow> nat \<Rightarrow> mem res" where
  "avx2_copy_match m dst offset ml avail =
     res_bind (psub dst offset) (\<lambda>src.
     if 32 \<le> offset then
       res_bind (copy_nonoverlapping m src dst 32) (\<lambda>m.
       if 32 < ml then wildcopy_periodic_outlined m (padd dst 32) offset (ml - 32) else Inr m)
     else if WILDCOPY_VECLEN \<le> offset then wildcopy m dst src ml
     else
       res_bind (overlap_copy8 m dst src offset) (\<lambda>(m, dst, src).
       if 8 < ml then wildcopy_overlap8 m dst src (ml - 8) else Inr m))"

text \<open>Row \<open>r\<close> of \<open>MATCH_MASKS\<close>, its two masks.\<close>

definition match_mask :: "nat \<Rightarrow> nat \<Rightarrow> u8 list" where
  "match_mask r half = map (\<lambda>i. let idx = 32 - r + i mod r in
     if idx < 16 then (if half = 0 then word_of_nat idx else 0x80) else (if half = 0 then 0x80 else word_of_nat (idx - 16))) [0..<32]"

definition PERIOD_SPREAD :: "nat \<Rightarrow> nat" where
  "PERIOD_SPREAD o' = o' * ((16 + o' - 1) div o')"

text \<open>\<open>vpshufb\<close> of sixteen bytes broadcast to both lanes.\<close>

definition shuffle_epi8 :: "u8 list \<Rightarrow> u8 list \<Rightarrow> u8 list" where
  "shuffle_epi8 v bs = map (\<lambda>b. if 128 \<le> unat b then 0 else v ! (unat b mod 16)) bs"

definition copy_match_short :: "mem \<Rightarrow> ptr \<Rightarrow> nat \<Rightarrow> nat \<Rightarrow> mem res" where
  "copy_match_short m dst offset ml =
     res_bind (psub dst (max offset 32)) (\<lambda>src.
     res_bind (load m src 16) (\<lambda>lo.
     res_bind (load m (padd src 16) 16) (\<lambda>hi.
     let r = min offset 32;
         head = map2 (OR) (shuffle_epi8 lo (match_mask r 0)) (shuffle_epi8 hi (match_mask r 1)) in
     res_bind (store m dst head) (\<lambda>m.
     if 32 < ml then
       wildcopy_periodic m (padd dst 32) (if 16 \<le> offset then offset else PERIOD_SPREAD offset) (ml - 32)
     else Inr m))))"

definition avx2_short_copy_match :: "mem \<Rightarrow> ptr \<Rightarrow> nat \<Rightarrow> nat \<Rightarrow> nat \<Rightarrow> mem res" where
  "avx2_short_copy_match m dst offset ml avail =
     (if avail < 32 then avx2_copy_match m dst offset ml avail else copy_match_short m dst offset ml)"

record wild_ops =
  wc_width :: nat
  wc_wildcopy :: "mem \<Rightarrow> ptr \<Rightarrow> ptr \<Rightarrow> nat \<Rightarrow> mem res"
  wc_copy_match :: "mem \<Rightarrow> ptr \<Rightarrow> nat \<Rightarrow> nat \<Rightarrow> nat \<Rightarrow> mem res"

definition Fallback :: wild_ops where
  "Fallback = \<lparr>wc_width = 16, wc_wildcopy = wildcopy, wc_copy_match = fallback_copy_match\<rparr>"

definition FallbackShortOffsets :: wild_ops where
  "FallbackShortOffsets = \<lparr>wc_width = 16, wc_wildcopy = wildcopy, wc_copy_match = fallback_short_copy_match\<rparr>"

definition Avx2 :: wild_ops where
  "Avx2 = \<lparr>wc_width = 32, wc_wildcopy = wildcopy32, wc_copy_match = avx2_copy_match\<rparr>"

definition Avx2ShortOffsets :: wild_ops where
  "Avx2ShortOffsets = \<lparr>wc_width = 32, wc_wildcopy = wildcopy32, wc_copy_match = avx2_short_copy_match\<rparr>"

section \<open>Byte by byte\<close>

text \<open>The reference: bytes copied one by one, forward.\<close>

fun byte_copy :: "mem \<Rightarrow> ptr \<Rightarrow> ptr \<Rightarrow> nat \<Rightarrow> mem" where
  "byte_copy m dst src 0 = m"
| "byte_copy m dst src (Suc n) =
     (let m' = byte_copy m dst src n in m'(fst dst := (m' (fst dst))[snd dst + n := m' (fst src) ! (snd src + n)]))"

lemma padd_simps [simp]: "fst (padd p n) = fst p" "snd (padd p n) = snd p + n" "padd p 0 = p" "padd (padd p n) k = padd p (n + k)"
  by (auto simp: padd_def)

lemma padd_pair: "padd (a, i) n = (a, i + n)"
  by (simp add: padd_def)

lemma psub_ok: "n \<le> i \<Longrightarrow> psub (a, i) n = Inr (a, i - n)"
  by (simp add: psub_def)

lemma byte_copy_length [simp]: "length (byte_copy m dst src n b) = length (m b)"
  by (induction n) (auto simp: Let_def)

lemma byte_copy_other: "b \<noteq> fst dst \<Longrightarrow> byte_copy m dst src n b = m b"
  by (induction n) (auto simp: Let_def)

lemma byte_copy_add: "byte_copy m dst src (a + n) = byte_copy (byte_copy m dst src a) (padd dst a) (padd src a) n"
  by (induction n) (auto simp: Let_def add.assoc)

lemma byte_copy_same:
  "i < snd dst \<or> snd dst + n \<le> i \<Longrightarrow> byte_copy m dst src n (fst dst) ! i = m (fst dst) ! i"
  by (induction n) (auto simp: Let_def nth_list_update)

text \<open>Copies of separate ranges.\<close>

definition apart :: "nat \<Rightarrow> ptr \<Rightarrow> ptr \<Rightarrow> bool" where
  "apart n p q \<longleftrightarrow> fst p \<noteq> fst q \<or> snd p + n \<le> snd q \<or> snd q + n \<le> snd p"

lemma byte_copy_apart:
  assumes "apart n dst src" and "snd src + n \<le> length (m (fst src))" and "snd dst + n \<le> length (m (fst dst))" and "k \<le> n"
  shows "byte_copy m dst src k = m(fst dst := put_slice (m (fst dst)) (snd dst) (take k (drop (snd src) (m (fst src)))))"
  using assms(4)
proof (induction k)
  case 0
  then show ?case using assms by (auto simp: put_slice_def)
next
  case (Suc k)
  let ?b = "m (fst dst)" and ?s = "take k (drop (snd src) (m (fst src)))"
  have IH: "byte_copy m dst src k = m(fst dst := put_slice ?b (snd dst) ?s)"
    using Suc.IH Suc_leD [OF Suc.prems] by blast
  have "byte_copy m dst src k (fst src) ! (snd src + k) = m (fst src) ! (snd src + k)"
  proof (cases "fst src = fst dst")
    case True
    then have "snd src + k < snd dst \<or> snd dst + k \<le> snd src + k" using assms(1) Suc.prems by (auto simp: apart_def)
    then show ?thesis using byte_copy_same [of "snd src + k" dst k m src] True by simp
  qed (simp add: byte_copy_other)
  then have "byte_copy m dst src (Suc k) = m(fst dst := (put_slice ?b (snd dst) ?s)[snd dst + k := m (fst src) ! (snd src + k)])"
    by (simp add: Let_def IH)
  also have "(put_slice ?b (snd dst) ?s)[snd dst + k := m (fst src) ! (snd src + k)]
      = put_slice ?b (snd dst) (take (Suc k) (drop (snd src) (m (fst src))))"
    using assms(2,3) Suc.prems
    by (intro nth_equalityI) (auto simp: put_slice_def nth_append nth_list_update take_Suc_conv_app_nth min_def)
  finally show ?case .
qed

text \<open>Range conditions of a copy.\<close>

definition room :: "mem \<Rightarrow> ptr \<Rightarrow> ptr \<Rightarrow> nat \<Rightarrow> bool" where
  "room m dst src n \<longleftrightarrow> snd src + n \<le> length (m (fst src)) \<and> snd dst + n \<le> length (m (fst dst))"

lemma room_byte_copy [simp]: "room (byte_copy m d s k) dst src n = room m dst src n"
  by (simp add: room_def)

lemma ptr_copy_apart:
  assumes "apart n dst src" and "room m dst src n"
  shows "ptr_copy m src dst n = Inr (byte_copy m dst src n)"
  using assms byte_copy_apart [of n dst src m n] by (auto simp: room_def ptr_copy_def load_def store_def)

lemma copy_nonoverlapping_ok:
  assumes "apart n dst src" and "room m dst src n"
  shows "copy_nonoverlapping m src dst n = Inr (byte_copy m dst src n)"
  using assms ptr_copy_apart [OF assms] by (auto simp: copy_nonoverlapping_def overlapping_def apart_def)

lemma load_store_apart:
  assumes "apart n dst src" and "room m dst src n"
  shows "res_bind (load m src n) (store m dst) = Inr (byte_copy m dst src n)"
  using ptr_copy_apart [OF assms] by (simp add: ptr_copy_def)

lemma apart_padd [simp]: "apart n (padd dst k) (padd src k) = apart n dst src"
  by (auto simp: apart_def)

lemma apart_less: "apart n dst src \<Longrightarrow> k \<le> n \<Longrightarrow> apart k dst src"
  by (auto simp: apart_def)

lemma room_padd: "room m dst src (k + n) \<Longrightarrow> room m (padd dst k) (padd src k) n"
  by (simp add: room_def add.assoc)

lemma room_less: "room m dst src n \<Longrightarrow> k \<le> n \<Longrightarrow> room m dst src k"
  by (auto simp: room_def)

lemma copy16_ok: "apart 16 dst src \<Longrightarrow> room m dst src 16 \<Longrightarrow> copy16 m dst src = Inr (byte_copy m dst src 16)"
  by (simp add: copy16_def copy_nonoverlapping_ok)

text \<open>Chunk loops copy byte by byte, up to the end of a chunk.\<close>

lemma wildcopy_loop_ok:
  assumes "apart 16 dst src" and "room m dst src (len + 31)" and "till = snd dst + len" and "1 \<le> len"
  shows "\<exists>T. wildcopy_loop m dst src till = Inr (byte_copy m dst src T) \<and> len \<le> T \<and> T \<le> len + 31"
  using assms
proof (induction "len" arbitrary: m dst src rule: less_induct)
  case (less len)
  have r: "room m dst src 32" "room m (padd dst 16) (padd src 16) 16" using less.prems(2,4) by (auto simp: room_def)
  have s: "wildcopy_loop m dst src till = (if len \<le> 32 then Inr (byte_copy m dst src 32)
      else wildcopy_loop (byte_copy m dst src 32) (padd dst 32) (padd src 32) till)"
    using less.prems r by (subst wildcopy_loop.simps) (simp add: copy16_ok room_less [OF r(1)] flip: byte_copy_add)
  show ?case
  proof (cases "len \<le> 32")
    case True
    then show ?thesis using s less.prems(4) by auto
  next
    case False
    have "room (byte_copy m dst src 32) (padd dst 32) (padd src 32) (len - 32 + 31)"
      using less.prems(2) False by (auto simp: room_def)
    moreover have "till = snd (padd dst 32) + (len - 32)" using less.prems(3) False by simp
    moreover have "1 \<le> len - 32" "len - 32 < len" "apart 16 (padd dst 32) (padd src 32)" using False less.prems(1) by simp_all
    ultimately obtain T where "wildcopy_loop (byte_copy m dst src 32) (padd dst 32) (padd src 32) till
        = Inr (byte_copy (byte_copy m dst src 32) (padd dst 32) (padd src 32) T)" "len - 32 \<le> T" "T \<le> len - 32 + 31"
      using less.IH [of "len - 32" "padd dst 32" "padd src 32" "byte_copy m dst src 32"] by blast
    then show ?thesis using s False byte_copy_add [of m dst src 32 T] by (intro exI [of _ "32 + T"]) auto
  qed
qed

lemma wildcopy_ok:
  assumes "apart 16 dst src" and "room m dst src (len + 31)"
  shows "\<exists>T. wildcopy m dst src len = Inr (byte_copy m dst src T) \<and> len \<le> T \<and> T \<le> len + 31"
proof (cases "len \<le> 16")
  case True
  then show ?thesis using assms room_less [OF assms(2), of 16] by (intro exI [of _ 16]) (simp add: wildcopy_def copy16_ok)
next
  case False
  have r: "room (byte_copy m dst src 16) (padd dst 16) (padd src 16) (len - 16 + 31)" using assms(2) False by (auto simp: room_def)
  have t: "snd dst + len = snd (padd dst 16) + (len - 16)" "1 \<le> len - 16" "apart 16 (padd dst 16) (padd src 16)" using False assms(1) by auto
  from wildcopy_loop_ok [OF t(3) r t(1,2)] obtain T where
    T: "wildcopy_loop (byte_copy m dst src 16) (padd dst 16) (padd src 16) (snd dst + len)
      = Inr (byte_copy (byte_copy m dst src 16) (padd dst 16) (padd src 16) T)" "len - 16 \<le> T" "T \<le> len - 16 + 31" by blast
  have "wildcopy m dst src len = Inr (byte_copy m dst src (16 + T))"
    using T(1) False assms room_less [OF assms(2), of 16] by (simp add: wildcopy_def copy16_ok byte_copy_add)
  then show ?thesis using T False by (intro exI [of _ "16 + T"]) auto
qed

lemma wildcopy32_loop_ok:
  assumes "apart 32 dst src" and "room m dst src (len + 31)" and "till = snd dst + len" and "1 \<le> len"
  shows "\<exists>T. wildcopy32_loop m dst src till = Inr (byte_copy m dst src T) \<and> len \<le> T \<and> T \<le> len + 31"
  using assms
proof (induction "len" arbitrary: m dst src rule: less_induct)
  case (less len)
  have r: "room m dst src 32" using less.prems(2,4) by (auto simp: room_def)
  obtain v where v: "load m src 32 = Inr v" "store m dst v = Inr (byte_copy m dst src 32)"
    using load_store_apart [OF less.prems(1) r] by (auto simp: res_simps)
  have s: "wildcopy32_loop m dst src till = (if len \<le> 32 then Inr (byte_copy m dst src 32)
      else wildcopy32_loop (byte_copy m dst src 32) (padd dst 32) (padd src 32) till)"
    using less.prems v by (subst wildcopy32_loop.simps) simp
  show ?case
  proof (cases "len \<le> 32")
    case True
    then show ?thesis using s less.prems(4) by auto
  next
    case False
    have "room (byte_copy m dst src 32) (padd dst 32) (padd src 32) (len - 32 + 31)"
      using less.prems(2) False by (auto simp: room_def)
    moreover have "till = snd (padd dst 32) + (len - 32)" using less.prems(3) False by simp
    moreover have "1 \<le> len - 32" "len - 32 < len" "apart 32 (padd dst 32) (padd src 32)" using False less.prems(1) by simp_all
    ultimately obtain T where "wildcopy32_loop (byte_copy m dst src 32) (padd dst 32) (padd src 32) till
        = Inr (byte_copy (byte_copy m dst src 32) (padd dst 32) (padd src 32) T)" "len - 32 \<le> T" "T \<le> len - 32 + 31"
      using less.IH [of "len - 32" "padd dst 32" "padd src 32" "byte_copy m dst src 32"] by blast
    then show ?thesis using s False byte_copy_add [of m dst src 32 T] by (intro exI [of _ "32 + T"]) auto
  qed
qed

lemma wildcopy32_ok:
  assumes "apart 32 dst src" and "room m dst src (len + 31)" and "1 \<le> len"
  shows "\<exists>T. wildcopy32 m dst src len = Inr (byte_copy m dst src T) \<and> len \<le> T \<and> T \<le> len + 31"
  unfolding wildcopy32_def using wildcopy32_loop_ok [OF assms(1,2) _ assms(3)] by simp

lemma wildcopy_overlap8_ok:
  assumes "apart 8 dst src" and "room m dst src (len + 7)" and "1 \<le> len"
  shows "\<exists>T. wildcopy_overlap8 m dst src len = Inr (byte_copy m dst src T) \<and> len \<le> T \<and> T \<le> len + 7"
  using assms unfolding wildcopy_overlap8_def
proof (induction "len" arbitrary: m dst src rule: less_induct)
  case (less len)
  have r: "room m dst src 8" using less.prems(2,3) by (auto simp: room_def)
  have s: "wildcopy8_loop m dst src (snd (padd dst len)) = (if len \<le> 8 then Inr (byte_copy m dst src 8)
      else wildcopy8_loop (byte_copy m dst src 8) (padd dst 8) (padd src 8) (snd (padd dst len)))"
    using less.prems r by (subst wildcopy8_loop.simps) (simp add: copy_nonoverlapping_ok)
  show ?case
  proof (cases "len \<le> 8")
    case True
    then show ?thesis using s less.prems(3) by auto
  next
    case False
    have "room (byte_copy m dst src 8) (padd dst 8) (padd src 8) (len - 8 + 7)"
      using less.prems(2) False by (auto simp: room_def)
    moreover have "snd (padd dst len) = snd (padd (padd dst 8) (len - 8))" using False by simp
    moreover have "1 \<le> len - 8" "len - 8 < len" "apart 8 (padd dst 8) (padd src 8)" using False less.prems(1) by simp_all
    ultimately obtain T where "wildcopy8_loop (byte_copy m dst src 8) (padd dst 8) (padd src 8) (snd (padd dst len))
        = Inr (byte_copy (byte_copy m dst src 8) (padd dst 8) (padd src 8) T)" "len - 8 \<le> T" "T \<le> len - 8 + 7"
      using less.IH [of "len - 8" "padd dst 8" "padd src 8" "byte_copy m dst src 8"] by metis
    then show ?thesis using s False byte_copy_add [of m dst src 8 T] by (intro exI [of _ "8 + T"]) auto
  qed
qed

section \<open>Periodic matches\<close>

text \<open>The bytes of a match of \<open>offset\<close> \<open>p\<close> at \<open>d\<close>: progress of \<open>n\<close> bytes, with nothing touched before \<open>d\<close> or
  from \<open>d + u\<close> on.\<close>

definition mprog :: "u8 list \<Rightarrow> u8 list \<Rightarrow> nat \<Rightarrow> nat \<Rightarrow> nat \<Rightarrow> nat \<Rightarrow> bool" where
  "mprog buf b d p n u \<longleftrightarrow> length b = length buf \<and> (\<forall>k < d. b ! k = buf ! k)
     \<and> (\<forall>k. d \<le> k \<and> k < d + n \<longrightarrow> b ! k = b ! (k - p)) \<and> (\<forall>k \<ge> d + u. b ! k = buf ! k)"

definition match_done :: "u8 list \<Rightarrow> u8 list \<Rightarrow> nat \<Rightarrow> nat \<Rightarrow> nat \<Rightarrow> bool" where
  "match_done buf b d p ml \<longleftrightarrow> mprog buf b d p ml (ml + 31)"

lemma mprog_length: "mprog buf b d p n u \<Longrightarrow> length b = length buf"
  by (simp add: mprog_def)

lemma mprog_refl: "mprog buf buf d p 0 0"
  by (auto simp: mprog_def)

lemma mprog_weaken: "mprog buf b d p n u \<Longrightarrow> n' \<le> n \<Longrightarrow> u \<le> u' \<Longrightarrow> mprog buf b d p n' u'"
  by (auto simp: mprog_def)

lemma byte_copy_within:
  assumes "p \<le> d" and "d + n \<le> length (m a)" and "d \<le> k" and "k < d + n" and "1 \<le> p"
  shows "byte_copy m (a, d) (a, d - p) n a ! k = byte_copy m (a, d) (a, d - p) n a ! (k - p)"
  using assms(2,4)
proof (induction n)
  case (Suc n)
  have "d - p + n = d + n - p" using assms(1) by simp
  then show ?case using Suc assms(1,3,5) by (auto simp: Let_def nth_list_update)
qed (use assms(3) in simp)

lemma byte_copy_upd: "byte_copy m dst src n = m(fst dst := byte_copy m dst src n (fst dst))"
  by (rule ext) (simp add: byte_copy_other)

text \<open>Copying on from a distance that is a multiple of the period.\<close>

lemma spread:
  assumes "\<forall>k < d + n. b1 ! k = b ! k" and "\<forall>k. d \<le> k \<and> k < d + n \<longrightarrow> b ! k = b ! (k - p)"
    and "\<forall>k. d + n \<le> k \<and> k < d + n + T \<longrightarrow> b1 ! k = b1 ! (k - c * p)" and p: "1 \<le> p" and c: "1 \<le> c" "c * p \<le> n + p"
    and "d \<le> k" and "k < d + n + T"
  shows "b1 ! k = b1 ! (k - p)"
  using assms(7,8)
proof (induction k rule: less_induct)
  case (less k)
  show ?case
  proof (cases "k < d + n")
    case True
    then show ?thesis using assms(1,2) less.prems by simp
  next
    case False
    have "b1 ! (k - p) = b1 ! (k - j * p)" if "1 \<le> j" "j \<le> c" for j
      using that
    proof (induction j)
      case (Suc j)
      show ?case
      proof (cases "j = 0")
        case False
        have "j * p \<le> (c - 1) * p" using Suc.prems by (intro mult_le_mono1) simp
        also have "\<dots> = c * p - p" by (simp add: diff_mult_distrib)
        moreover have "p \<le> c * p" using c(1) by (cases c) auto
        ultimately have jp: "j * p + p \<le> c * p" by linarith
        have "p \<le> j * p" using False by (cases j) auto
        then have jk: "j * p + d \<le> k" "0 < j * p" using jp c(2) \<open>\<not> k < d + n\<close> p by linarith+
        then have "d \<le> k - j * p" "k - j * p < k" "k - j * p < d + n + T" using less.prems by linarith+
        then have "b1 ! (k - j * p) = b1 ! (k - j * p - p)" using less.IH by blast
        then show ?thesis using Suc False by (simp add: add.commute)
      qed simp
    qed simp
    then show ?thesis using assms(3) False less.prems c(1) by auto
  qed
qed

lemma mprog_step:
  assumes b: "mprog (m a) b d p n u" and p: "1 \<le> p" "p \<le> d" and c: "1 \<le> c" "c * p \<le> n + p" and l: "d + n + T \<le> length (m a)"
  shows "\<exists>b1. byte_copy (m(a := b)) (a, d + n) (a, d + n - c * p) T = m(a := b1) \<and> mprog (m a) b1 d p (n + T) (max u (n + T))"
proof -
  let ?M = "byte_copy (m(a := b)) (a, d + n) (a, d + n - c * p) T"
  define b1 where "b1 = ?M a"
  have cp: "c * p \<le> d + n" using c(2) p(2) by linarith
  have lb: "length b = length (m a)" using b by (simp add: mprog_def)
  have len: "length b1 = length (m a)" using lb by (simp add: b1_def)
  have out: "b1 ! k = b ! k" if "k < d + n \<or> d + n + T \<le> k" for k
    using that byte_copy_same [of k "(a, d + n)" T "m(a := b)" "(a, d + n - c * p)"] by (simp add: b1_def)
  have "1 \<le> c * p" using c(1) p(1) by (metis mult_le_mono nat_mult_1)
  then have "b1 ! k = b1 ! (k - c * p)" if "d + n \<le> k" "k < d + n + T" for k
    unfolding b1_def using that l lb by (intro byte_copy_within [OF cp]) auto
  then have per: "b1 ! k = b1 ! (k - p)" if "d \<le> k" "k < d + n + T" for k
    using that b out p(1) c by (intro spread [of d n b1 b p T c]) (auto simp: mprog_def)
  have "mprog (m a) b1 d p (n + T) (max u (n + T))"
    unfolding mprog_def
  proof (intro conjI allI impI)
    show "b1 ! k = m a ! k" if "k < d" for k using out that b by (simp add: mprog_def)
    show "b1 ! k = m a ! k" if "d + max u (n + T) \<le> k" for k
    proof -
      have "d + n + T \<le> k" "d + u \<le> k" using that by linarith+
      then show ?thesis using out b by (simp add: mprog_def)
    qed
    show "b1 ! k = b1 ! (k - p)" if "d \<le> k \<and> k < d + (n + T)" for k using per that by simp
  qed (rule len)
  moreover have "?M = m(a := b1)" using byte_copy_upd [of "m(a := b)" "(a, d + n)"] by (simp add: b1_def)
  ultimately show ?thesis by blast
qed

text \<open>Bytes written past the match.\<close>

lemma mprog_over:
  assumes b: "mprog (m a) b d p n u" and n: "n \<le> n'"
  shows "\<exists>b1. byte_copy (m(a := b)) (a, d + n') src T = m(a := b1) \<and> mprog (m a) b1 d p n (max u (n' + T))"
proof -
  let ?M = "byte_copy (m(a := b)) (a, d + n') src T"
  define b1 where "b1 = ?M a"
  have out: "b1 ! k = b ! k" if "k < d + n' \<or> d + n' + T \<le> k" for k
    using that byte_copy_same [of k "(a, d + n')" T "m(a := b)" src] by (simp add: b1_def)
  have "length b1 = length (m a)" using b by (simp add: b1_def mprog_def)
  moreover have "b1 ! k = m a ! k" if "d + max u (n' + T) \<le> k" for k
  proof -
    have "d + n' + T \<le> k" "d + u \<le> k" using that by linarith+
    then show ?thesis using out b by (simp add: mprog_def)
  qed
  moreover have "b1 ! k = b1 ! (k - p)" if "d \<le> k" "k < d + n" for k
  proof -
    have "k - p < d + n'" "k < d + n'" using that n by linarith+
    then have "b1 ! k = b ! k" "b1 ! (k - p) = b ! (k - p)" using out by auto
    then show ?thesis using b that by (simp add: mprog_def)
  qed
  ultimately have "mprog (m a) b1 d p n (max u (n' + T))" using b n out by (simp add: mprog_def)
  moreover have "?M = m(a := b1)" using byte_copy_upd [of "m(a := b)" "(a, d + n')"] by (simp add: b1_def)
  ultimately show ?thesis by blast
qed

section \<open>The contract of a match copy\<close>

text \<open>\<open>WildCopy\<close>'s contract: the wide copy is a byte-by-byte copy that may run on by 31 bytes, and a match
  copy writes the match, whose bytes repeat those \<open>offset\<close> before, and nothing but the 31 bytes behind it.\<close>

locale wild_copy =
  fixes w :: wild_ops
  assumes width: "16 \<le> wc_width w" "wc_width w \<le> 32"
    and wildcopy_law: "apart (wc_width w) dst src \<Longrightarrow> room m dst src (len + 31) \<Longrightarrow> 1 \<le> len \<Longrightarrow>
      \<exists>T. wc_wildcopy w m dst src len = Inr (byte_copy m dst src T) \<and> len \<le> T \<and> T \<le> len + 31"
    and copy_match_law: "1 \<le> offset \<Longrightarrow> offset \<le> avail \<Longrightarrow> avail \<le> d \<Longrightarrow> 1 \<le> ml \<Longrightarrow> d + ml + 31 \<le> length (m a) \<Longrightarrow>
      \<exists>b. wc_copy_match w m (a, d) offset ml avail = Inr (m(a := b)) \<and> match_done (m a) b d offset ml"

text \<open>A step of a match copy: the next \<open>T\<close> bytes at distance \<open>D\<close>.\<close>

lemma apart_same: "apart n (a, x) (a, y) \<longleftrightarrow> x + n \<le> y \<or> y + n \<le> x"
  by (auto simp: apart_def)

lemma room_same: "room m (a, x) (a, y) n \<longleftrightarrow> y + n \<le> length (m a) \<and> x + n \<le> length (m a)"
  by (simp add: room_def)

lemma chunk_step:
  assumes b: "mprog (m a) b d p n u" and p: "1 \<le> p" "p \<le> d" and c: "1 \<le> c" "c * p \<le> n + p" and l: "d + n + T \<le> length (m a)" and T: "T \<le> c * p"
  shows "\<exists>b1. copy_nonoverlapping (m(a := b)) (a, d + n - c * p) (a, d + n) T = Inr (m(a := b1)) \<and> mprog (m a) b1 d p (n + T) (max u (n + T))"
proof -
  have "c * p \<le> d + n" using c(2) p(2) by linarith
  then have "apart T (a, d + n) (a, d + n - c * p)" "room (m(a := b)) (a, d + n) (a, d + n - c * p) T"
    using T l by (auto simp: apart_same room_same mprog_length [OF b])
  from copy_nonoverlapping_ok [OF this] show ?thesis using mprog_step [where m = m and a = a, OF b p c l] by metis
qed

lemma wild_step:
  assumes b: "mprog (m a) b d p n u" and p: "1 \<le> p" "p \<le> d" and c: "1 \<le> c" "c * p \<le> n + p"
    and f: "\<And>M. apart W (a, d + n) (a, d + n - c * p) \<Longrightarrow> room M (a, d + n) (a, d + n - c * p) (len + r) \<Longrightarrow>
      \<exists>T. f M (a, d + n) (a, d + n - c * p) len = Inr (byte_copy M (a, d + n) (a, d + n - c * p) T) \<and> len \<le> T \<and> T \<le> len + r"
    and W: "W \<le> c * p" and l: "d + n + len + r \<le> length (m a)"
  shows "\<exists>b1. f (m(a := b)) (a, d + n) (a, d + n - c * p) len = Inr (m(a := b1)) \<and> mprog (m a) b1 d p (n + len) (max u (n + len + r))"
proof -
  have cp: "c * p \<le> d + n" using c(2) p(2) by linarith
  have "apart W (a, d + n) (a, d + n - c * p)" "room (m(a := b)) (a, d + n) (a, d + n - c * p) (len + r)"
    using W cp l by (auto simp: apart_same room_same mprog_length [OF b])
  from f [OF this] obtain T where T: "f (m(a := b)) (a, d + n) (a, d + n - c * p) len = Inr (byte_copy (m(a := b)) (a, d + n) (a, d + n - c * p) T)"
    "len \<le> T" "T \<le> len + r" by blast
  have "d + n + T \<le> length (m a)" using l T(3) by simp
  from mprog_step [where m = m and a = a, OF b p c this] obtain b1 where b1: "byte_copy (m(a := b)) (a, d + n) (a, d + n - c * p) T = m(a := b1)"
    "mprog (m a) b1 d p (n + T) (max u (n + T))" by blast
  have "mprog (m a) b1 d p (n + len) (max u (n + len + r))" using b1(2) by (rule mprog_weaken) (use T in auto)
  then show ?thesis using T(1) b1(1) by metis
qed

lemma byte_step:
  assumes b: "mprog (m a) b d p n u" and p: "1 \<le> p" "p \<le> d" and l: "d + n + 1 \<le> length (m a)"
  shows "\<exists>b1. ptr_copy (m(a := b)) (a, d - p + n) (a, d + n) 1 = Inr (m(a := b1)) \<and> mprog (m a) b1 d p (n + 1) (max u (n + 1))"
proof -
  have e: "d - p + n = d + n - 1 * p" using p(2) by simp
  have "apart 1 (a, d + n) (a, d + n - 1 * p)" "room (m(a := b)) (a, d + n) (a, d + n - 1 * p) 1"
    using p l by (auto simp: apart_same room_same mprog_length [OF b])
  from ptr_copy_apart [OF this] show ?thesis using mprog_step [where m = m and a = a and c = 1, OF b p _ _ l] unfolding e by simp
qed

text \<open>The table of \<open>ZSTD_overlapCopy8\<close>: both distances it makes are multiples of the offset.\<close>

lemma dec_rows:
  assumes "1 \<le> r" and "r < 8"
  shows "\<exists>c. 1 \<le> c \<and> c * r = 4 + r - DEC32 ! r \<and> DEC32 ! r \<le> 4 \<and> 4 \<le> c * r"
    and "\<exists>c. 1 \<le> c \<and> c * r = r + DEC64 ! r - DEC32 ! r \<and> 8 \<le> c * r \<and> c * r \<le> 8 + r \<and> DEC64 ! r \<le> 8 + DEC32 ! r + r"
proof -
  have "r \<in> {1, 2, 3, 4, 5, 6, 7}" using assms by auto
  then show "\<exists>c. 1 \<le> c \<and> c * r = 4 + r - DEC32 ! r \<and> DEC32 ! r \<le> 4 \<and> 4 \<le> c * r"
    by (elim insertE emptyE; simp add: DEC32_def; presburger)
  from \<open>r \<in> _\<close> show "\<exists>c. 1 \<le> c \<and> c * r = r + DEC64 ! r - DEC32 ! r \<and> 8 \<le> c * r \<and> c * r \<le> 8 + r \<and> DEC64 ! r \<le> 8 + DEC32 ! r + r"
    by (elim insertE emptyE; simp add: DEC32_def DEC64_def; presburger)
qed

lemma overlap_head_ok:
  assumes p: "1 \<le> p" "p \<le> d" and l: "d + 8 \<le> length (m a)" and c: "1 \<le> c" "c * p = 4 + p - dec" "dec \<le> 4" "4 \<le> c * p"
  shows "\<exists>b. overlap_head m (a, d) (a, d - p) dec = Inr (m(a := b)) \<and> mprog (m a) b d p 8 8"
proof -
  have m0: "m(a := m a) = m" by simp
  note step = byte_step [where m = m and a = a, OF _ p]
  from step [OF mprog_refl] obtain b1 where 1: "ptr_copy m (a, d - p) (a, d) 1 = Inr (m(a := b1))" "mprog (m a) b1 d p 1 1"
    using l by auto
  from step [OF 1(2)] obtain b2 where 2: "ptr_copy (m(a := b1)) (a, d - p + 1) (a, d + 1) 1 = Inr (m(a := b2))" "mprog (m a) b2 d p 2 2"
    using l by (auto simp: numeral_2_eq_2)
  from step [OF 2(2)] obtain b3 where 3: "ptr_copy (m(a := b2)) (a, d - p + 2) (a, d + 2) 1 = Inr (m(a := b3))" "mprog (m a) b3 d p 3 3"
    using l by auto
  from step [OF 3(2)] obtain b4 where 4: "ptr_copy (m(a := b3)) (a, d - p + 3) (a, d + 3) 1 = Inr (m(a := b4))" "mprog (m a) b4 d p 4 4"
    using l by auto
  have s: "d + 4 - c * p = d - p + dec" using c(2,3) p(2) by simp
  have "c * p \<le> 4 + p" "d + 4 + 4 \<le> length (m a)" using c(2) l by auto
  from chunk_step [where m = m and a = a, OF 4(2) p c(1) this c(4)] obtain b5 where
    5: "copy_nonoverlapping (m(a := b4)) (a, d - p + dec) (a, d + 4) 4 = Inr (m(a := b5))" "mprog (m a) b5 d p 8 8" unfolding s by auto
  show ?thesis
    using 1(1) 2(1) 3(1) 4(1) 5 by (intro exI [of _ b5]) (simp add: overlap_head_def padd_def)
qed

lemma overlap_copy8_ok:
  assumes p: "1 \<le> p" "p \<le> d" "p < 16" and l: "d + 8 \<le> length (m a)"
  shows "\<exists>b c. overlap_copy8 m (a, d) (a, d - p) p = Inr (m(a := b), (a, d + 8), (a, d + 8 - c * p)) \<and> mprog (m a) b d p 8 8
    \<and> 1 \<le> c \<and> c * p \<le> 8 + p \<and> 8 \<le> c * p"
proof (cases "p < 8")
  case True
  from dec_rows(1) [OF p(1) True] obtain c where c: "1 \<le> c" "c * p = 4 + p - DEC32 ! p" "DEC32 ! p \<le> 4" "4 \<le> c * p" by blast
  from overlap_head_ok [where m = m and a = a, OF p(1,2) l c] obtain b where
    b: "overlap_head m (a, d) (a, d - p) (DEC32 ! p) = Inr (m(a := b))" "mprog (m a) b d p 8 8" by blast
  from dec_rows(2) [OF p(1) True] obtain e where e: "1 \<le> e" "e * p = p + DEC64 ! p - DEC32 ! p" "8 \<le> e * p" "e * p \<le> 8 + p"
    "DEC64 ! p \<le> 8 + DEC32 ! p + p" by blast
  have "psub (padd (padd (a, d - p) (DEC32 ! p)) 8) (DEC64 ! p) = Inr (a, d + 8 - e * p)"
    using e c(3) p(2) by (auto simp: psub_def padd_def)
  then have "overlap_copy8 m (a, d) (a, d - p) p = Inr (m(a := b), (a, d + 8), (a, d + 8 - e * p))"
    using b(1) True by (simp add: overlap_copy8_def padd_def)
  then show ?thesis using b(2) e by blast
next
  case False
  from chunk_step [where m = m and a = a and c = 1, OF mprog_refl p(1,2), of 8] False l p obtain b where
    b: "copy_nonoverlapping m (a, d - p) (a, d) 8 = Inr (m(a := b))" "mprog (m a) b d p 8 8" by auto
  then have "overlap_copy8 m (a, d) (a, d - p) p = Inr (m(a := b), (a, d + 8), (a, d + 8 - 1 * p))"
    using False p(2) by (simp add: overlap_copy8_def padd_def)
  then show ?thesis using b(2) False by (intro exI [of _ b] exI [of _ 1]) auto
qed

text \<open>Matches of short offset: eight bytes, then eight-byte chunks from the spread distance.\<close>

lemma overlap_match_ok:
  assumes p: "1 \<le> p" "p \<le> d" "p < 16" and ml: "1 \<le> ml" and l: "d + ml + 31 \<le> length (m a)"
  shows "\<exists>b. res_bind (overlap_copy8 m (a, d) (a, d - p) p) (\<lambda>(m, dst, src). if 8 < ml then wildcopy_overlap8 m dst src (ml - 8) else Inr m)
      = Inr (m(a := b)) \<and> match_done (m a) b d p ml"
proof -
  have "d + 8 \<le> length (m a)" using l ml by simp
  from overlap_copy8_ok [where m = m and a = a, OF p this] obtain b c where
    b: "overlap_copy8 m (a, d) (a, d - p) p = Inr (m(a := b), (a, d + 8), (a, d + 8 - c * p))" "mprog (m a) b d p 8 8"
    and c: "1 \<le> c" "c * p \<le> 8 + p" "8 \<le> c * p" by blast
  show ?thesis
  proof (cases "8 < ml")
    case True
    have r: "d + 8 + (ml - 8) + 7 \<le> length (m a)" using l True by simp
    have n: "1 \<le> ml - 8" using True by simp
    from wild_step [where m = m and a = a and f = wildcopy_overlap8 and len = "ml - 8", OF b(2) p(1,2) c(1,2) wildcopy_overlap8_ok [OF _ _ n] c(3) r]
    obtain b1 where 1: "wildcopy_overlap8 (m(a := b)) (a, d + 8) (a, d + 8 - c * p) (ml - 8) = Inr (m(a := b1))"
      "mprog (m a) b1 d p (8 + (ml - 8)) (max 8 (8 + (ml - 8) + 7))" by blast
    have "match_done (m a) b1 d p ml" unfolding match_done_def using 1(2) by (rule mprog_weaken) (use True in auto)
    then show ?thesis using b(1) 1(1) True by (intro exI [of _ b1]) simp
  next
    case False
    have "match_done (m a) b d p ml" unfolding match_done_def using b(2) by (rule mprog_weaken) (use False ml in auto)
    then show ?thesis using b(1) False by (intro exI [of _ b]) simp
  qed
qed

section \<open>The portable copies\<close>

lemma fallback_copy_match_ok:
  assumes p: "1 \<le> p" "p \<le> d" and ml: "1 \<le> ml" and l: "d + ml + 31 \<le> length (m a)"
  shows "\<exists>b. fallback_copy_match m (a, d) p ml avail = Inr (m(a := b)) \<and> match_done (m a) b d p ml"
proof (cases "16 \<le> p")
  case False
  then show ?thesis using overlap_match_ok [where m = m and a = a, OF p _ ml l] p(2) by (simp add: fallback_copy_match_def psub_def)
next
  case True
  have m0: "m(a := m a) = m" by simp
  have l16: "d + 0 + 16 \<le> length (m a)" using l ml by simp
  from chunk_step [where m = m and a = a and c = 1, OF mprog_refl p _ _ l16] True obtain b1 where
    1: "copy16 m (a, d) (a, d - p) = Inr (m(a := b1))" "mprog (m a) b1 d p 16 16" by (auto simp: copy16_def)
  have eq: "fallback_copy_match m (a, d) p ml avail =
      res_bind (copy16 (m(a := b1)) (a, d + 16) (if 16 < ml then (a, d - p + 16) else (a, d - p))) (\<lambda>m.
        if 32 < ml then wildcopy m (a, d + 32) (a, d - p + 32) (ml - 32) else Inr m)"
    unfolding fallback_copy_match_def psub_ok [OF p(2)] res_bind_simps if_P [OF True] 1(1) Let_def padd_pair by (rule refl)
  show ?thesis
  proof (cases "16 < ml")
    case False
    have "apart 16 (a, d + 16) (a, d - p)" "room (m(a := b1)) (a, d + 16) (a, d - p) 16"
      using True l ml by (auto simp: apart_same room_same mprog_length [OF 1(2)])
    note cp = copy16_ok [OF this]
    from mprog_over [where m = m and a = a, OF 1(2) le_refl, of "(a, d - p)" 16] obtain b2 where
      2: "byte_copy (m(a := b1)) (a, d + 16) (a, d - p) 16 = m(a := b2)" "mprog (m a) b2 d p 16 32" by auto
    have "match_done (m a) b2 d p ml" unfolding match_done_def using 2(2) by (rule mprog_weaken) (use False ml in auto)
    then show ?thesis unfolding eq using False cp 2(1) by (intro exI [of _ b2]) simp
  next
    case big: True
    have l32: "d + 16 + 16 \<le> length (m a)" using l big by simp
    have s: "d + 16 - 1 * p = d - p + 16" using p(2) by simp
    from chunk_step [where m = m and a = a and c = 1, OF 1(2) p _ _ l32] True obtain b2 where
      2: "copy16 (m(a := b1)) (a, d + 16) (a, d - p + 16) = Inr (m(a := b2))" "mprog (m a) b2 d p 32 32" unfolding s by (auto simp: copy16_def)
    show ?thesis
    proof (cases "32 < ml")
      case False
      have "match_done (m a) b2 d p ml" unfolding match_done_def using 2(2) by (rule mprog_weaken) (use False big in auto)
      then show ?thesis unfolding eq using False big 2(1) by (intro exI [of _ b2]) simp
    next
      case more: True
      have r: "d + 32 + (ml - 32) + 31 \<le> length (m a)" using l more by simp
      have s: "d + 32 - 1 * p = d - p + 32" using p(2) by simp
      have c1: "(1::nat) \<le> 1" "1 * p \<le> 32 + p" "16 \<le> 1 * p" using True by auto
      from wild_step [where m = m and a = a and f = wildcopy and len = "ml - 32", OF 2(2) p c1(1,2) wildcopy_ok c1(3) r]
      obtain b3 where 3: "wildcopy (m(a := b2)) (a, d + 32) (a, d - p + 32) (ml - 32) = Inr (m(a := b3))"
        "mprog (m a) b3 d p (32 + (ml - 32)) (max 32 (32 + (ml - 32) + 31))" unfolding s by blast
      have "match_done (m a) b3 d p ml" unfolding match_done_def using 3(2) by (rule mprog_weaken) (use more in auto)
      then show ?thesis unfolding eq using more 2(1) 3(1) by (intro exI [of _ b3]) simp
    qed
  qed
qed

lemma short_rows:
  assumes p: "1 \<le> p" "p \<le> d"
  shows "\<exists>c. 1 \<le> c \<and> c * p = 4 + p - DEC32 ! min p 8 \<and> DEC32 ! min p 8 \<le> 4 \<and> 4 \<le> c * p"
    and "\<exists>c. psub (padd (padd (a, d - p) (DEC32 ! min p 8)) 8) (DEC64 ! min p 8) = Inr (a, d + 8 - c * p) \<and> 1 \<le> c \<and> c * p \<le> 8 + p \<and> 8 \<le> c * p"
proof -
  show "\<exists>c. 1 \<le> c \<and> c * p = 4 + p - DEC32 ! min p 8 \<and> DEC32 ! min p 8 \<le> 4 \<and> 4 \<le> c * p"
  proof (cases "p < 8")
    case True
    then show ?thesis using dec_rows(1) [OF p(1) True] by (simp add: min_def)
  next
    case False
    then show ?thesis by (intro exI [of _ 1]) (simp add: DEC32_def min_def)
  qed
  show "\<exists>c. psub (padd (padd (a, d - p) (DEC32 ! min p 8)) 8) (DEC64 ! min p 8) = Inr (a, d + 8 - c * p) \<and> 1 \<le> c \<and> c * p \<le> 8 + p \<and> 8 \<le> c * p"
  proof (cases "p < 8")
    case True
    then have r: "min p 8 = p" by simp
    from dec_rows(2) [OF p(1) True] obtain e where e: "1 \<le> e" "e * p = p + DEC64 ! p - DEC32 ! p" "8 \<le> e * p" "e * p \<le> 8 + p"
      "DEC64 ! p \<le> 8 + DEC32 ! p + p" by blast
    moreover have "DEC32 ! p \<le> 4" using dec_rows(1) [OF p(1) True] by blast
    ultimately show ?thesis using p(2) unfolding r by (intro exI [of _ e]) (auto simp: psub_def padd_def)
  next
    case False
    then show ?thesis using p(2) by (intro exI [of _ 1]) (auto simp: DEC32_def DEC64_def min_def psub_def padd_def)
  qed
qed

lemma fallback_short_copy_match_ok:
  assumes p: "1 \<le> p" "p \<le> d" and ml: "1 \<le> ml" and l: "d + ml + 31 \<le> length (m a)"
  shows "\<exists>b. fallback_short_copy_match m (a, d) p ml avail = Inr (m(a := b)) \<and> match_done (m a) b d p ml"
proof -
  from short_rows(1) [OF p] obtain c where c: "1 \<le> c" "c * p = 4 + p - DEC32 ! min p 8" "DEC32 ! min p 8 \<le> 4" "4 \<le> c * p" by blast
  have l8: "d + 8 \<le> length (m a)" using l ml by simp
  from overlap_head_ok [where m = m and a = a, OF p l8 c] obtain b where
    b: "overlap_head m (a, d) (a, d - p) (DEC32 ! min p 8) = Inr (m(a := b))" "mprog (m a) b d p 8 8" by blast
  from short_rows(2) [OF p] obtain e where e: "psub (padd (padd (a, d - p) (DEC32 ! min p 8)) 8) (DEC64 ! min p 8) = Inr (a, d + 8 - e * p)"
    "1 \<le> e" "e * p \<le> 8 + p" "8 \<le> e * p" by blast
  have l16: "d + 8 + 8 \<le> length (m a)" using l ml by simp
  from chunk_step [where m = m and a = a, OF b(2) p e(2,3) l16 e(4)] obtain b1 where
    1: "copy_nonoverlapping (m(a := b)) (a, d + 8 - e * p) (a, d + 8) 8 = Inr (m(a := b1))" "mprog (m a) b1 d p 16 16" by auto
  have ed: "e * p \<le> d + 8" using e(3) p(2) by linarith
  have eq: "fallback_short_copy_match m (a, d) p ml avail =
      (if 16 < ml then wildcopy_overlap8 (m(a := b1)) (a, d + 16) (a, d + 16 - e * p) (ml - 16) else Inr (m(a := b1)))"
    unfolding fallback_short_copy_match_def psub_ok [OF p(2)] res_bind_simps Let_def b(1) e(1)
    unfolding padd_pair 1(1) res_bind_simps using ed by (simp add: add.commute)
  show ?thesis
  proof (cases "16 < ml")
    case True
    have r: "d + 16 + (ml - 16) + 7 \<le> length (m a)" using l True by simp
    have n: "1 \<le> ml - 16" and ep: "e * p \<le> 16 + p" using True e(3) by simp_all
    from wild_step [where m = m and a = a and f = wildcopy_overlap8 and len = "ml - 16", OF 1(2) p e(2) ep wildcopy_overlap8_ok [OF _ _ n] e(4) r]
    obtain b2 where 2: "wildcopy_overlap8 (m(a := b1)) (a, d + 16) (a, d + 16 - e * p) (ml - 16) = Inr (m(a := b2))"
      "mprog (m a) b2 d p (16 + (ml - 16)) (max 16 (16 + (ml - 16) + 7))" by blast
    have "match_done (m a) b2 d p ml" unfolding match_done_def using 2(2) by (rule mprog_weaken) (use True in auto)
    then show ?thesis unfolding eq using True 2(1) by (intro exI [of _ b2]) simp
  next
    case False
    have "match_done (m a) b1 d p ml" unfolding match_done_def using 1(2) by (rule mprog_weaken) (use False ml in auto)
    then show ?thesis unfolding eq using False by (intro exI [of _ b1]) simp
  qed
qed

interpretation fallback: wild_copy Fallback
proof unfold_locales
  fix offset avail d ml :: nat and m :: mem and a
  assume "1 \<le> offset" "offset \<le> avail" "avail \<le> d" "1 \<le> ml" "d + ml + 31 \<le> length (m a)"
  then show "\<exists>b. wc_copy_match Fallback m (a, d) offset ml avail = Inr (m(a := b)) \<and> match_done (m a) b d offset ml"
    using fallback_copy_match_ok [where m = m and a = a and d = d, of offset ml avail] by (simp add: Fallback_def)
qed (auto simp: Fallback_def wildcopy_ok)

interpretation fallback_short: wild_copy FallbackShortOffsets
proof unfold_locales
  fix offset avail d ml :: nat and m :: mem and a
  assume "1 \<le> offset" "offset \<le> avail" "avail \<le> d" "1 \<le> ml" "d + ml + 31 \<le> length (m a)"
  then show "\<exists>b. wc_copy_match FallbackShortOffsets m (a, d) offset ml avail = Inr (m(a := b)) \<and> match_done (m a) b d offset ml"
    using fallback_short_copy_match_ok [where m = m and a = a and d = d, of offset ml avail] by (simp add: FallbackShortOffsets_def)
qed (auto simp: FallbackShortOffsets_def wildcopy_ok)

section \<open>The AVX2 copies\<close>

lemma wildcopy_periodic_ok:
  assumes b: "mprog (m a) b d p n u" and p: "1 \<le> p" "p \<le> d" and c: "1 \<le> c" "c * p \<le> n + p" "16 \<le> c * p" and len: "1 \<le> len"
    and l: "d + n + len + 31 \<le> length (m a)"
  shows "\<exists>b1. wildcopy_periodic (m(a := b)) (a, d + n) (c * p) len = Inr (m(a := b1)) \<and> mprog (m a) b1 d p (n + len) (max u (n + len + 31))"
proof -
  have cp: "c * p \<le> d + n" using c(2) p(2) by linarith
  show ?thesis
  proof (cases "wide_chunks (c * p)")
    case True
    then have "32 \<le> c * p" by (simp add: wide_chunks_def)
    from wild_step [where m = m and a = a and f = wildcopy32, OF b p c(1,2) wildcopy32_ok [OF _ _ len] this l] show ?thesis
      using True unfolding wildcopy_periodic_def psub_ok [OF cp] by simp
  next
    case False
    from wild_step [where m = m and a = a and f = wildcopy, OF b p c(1,2) wildcopy_ok c(3) l] show ?thesis
      using False unfolding wildcopy_periodic_def psub_ok [OF cp] by simp
  qed
qed

lemma avx2_copy_match_ok:
  assumes p: "1 \<le> p" "p \<le> d" and ml: "1 \<le> ml" and l: "d + ml + 31 \<le> length (m a)"
  shows "\<exists>b. avx2_copy_match m (a, d) p ml avail = Inr (m(a := b)) \<and> match_done (m a) b d p ml"
proof -
  consider (far) "32 \<le> p" | (mid) "16 \<le> p" "p < 32" | (near) "p < 16" by linarith
  then show ?thesis
  proof cases
    case far
    have l32: "d + 0 + 32 \<le> length (m a)" using l ml by simp
    from chunk_step [where m = m and a = a and c = 1, OF mprog_refl p _ _ l32] far obtain b where
      b: "copy_nonoverlapping m (a, d - p) (a, d) 32 = Inr (m(a := b))" "mprog (m a) b d p 32 32" by auto
    have eq: "avx2_copy_match m (a, d) p ml avail = (if 32 < ml then wildcopy_periodic (m(a := b)) (a, d + 32) p (ml - 32) else Inr (m(a := b)))"
      using far b(1) by (simp add: avx2_copy_match_def wildcopy_periodic_outlined_def psub_ok [OF p(2)] padd_pair)
    show ?thesis
    proof (cases "32 < ml")
      case True
      have r: "d + 32 + (ml - 32) + 31 \<le> length (m a)" "1 \<le> ml - 32" "(1::nat) \<le> 1" "1 * p \<le> 32 + p" "16 \<le> 1 * p" using l True far by simp_all
      from wildcopy_periodic_ok [where m = m and a = a, OF b(2) p r(3,4,5,2,1)] obtain b1 where
        1: "wildcopy_periodic (m(a := b)) (a, d + 32) p (ml - 32) = Inr (m(a := b1))" "mprog (m a) b1 d p (32 + (ml - 32)) (max 32 (32 + (ml - 32) + 31))"
        by auto
      have "match_done (m a) b1 d p ml" unfolding match_done_def using 1(2) by (rule mprog_weaken) (use True in auto)
      then show ?thesis unfolding eq using True 1(1) by (intro exI [of _ b1]) simp
    next
      case False
      have "match_done (m a) b d p ml" unfolding match_done_def using b(2) by (rule mprog_weaken) (use False ml in auto)
      then show ?thesis unfolding eq using False by (intro exI [of _ b]) simp
    qed
  next
    case mid
    have c1: "(1::nat) \<le> 1" "1 * p \<le> 0 + p" "16 \<le> 1 * p" using mid by auto
    have r: "d + 0 + ml + 31 \<le> length (m a)" using l by simp
    from wild_step [where m = m and a = a and f = wildcopy, OF mprog_refl p c1(1,2) wildcopy_ok c1(3) r] obtain b where
      b: "wildcopy m (a, d) (a, d - p) ml = Inr (m(a := b))" "mprog (m a) b d p ml (ml + 31)" by auto
    then show ?thesis using mid
      by (intro exI [of _ b]) (simp add: avx2_copy_match_def WILDCOPY_VECLEN_def psub_ok [OF p(2)] match_done_def)
  next
    case near
    then show ?thesis
      using overlap_match_ok [where m = m and a = a, OF p near ml l] by (simp add: avx2_copy_match_def WILDCOPY_VECLEN_def psub_ok [OF p(2)])
  qed
qed

text \<open>The shuffle of \<open>copy_match_short\<close> picks the byte of the period.\<close>

lemma shuffle_head:
  assumes "i < 32" and "1 \<le> r" and "r \<le> 32" and "length lo = 16" and "length hi = 16"
  shows "map2 (OR) (shuffle_epi8 lo (match_mask r 0)) (shuffle_epi8 hi (match_mask r 1)) ! i = (lo @ hi) ! (32 - r + i mod r)"
proof -
  define idx where "idx = 32 - r + i mod r"
  have "i mod r < r" using assms(2) by simp
  then have idx: "idx < 32" using assms(3) unfolding idx_def by linarith
  define A B where "A = match_mask r 0" and "B = match_mask r 1"
  have m: "A ! i = (if idx < 16 then word_of_nat idx else 0x80)" "B ! i = (if idx < 16 then 0x80 else word_of_nat (idx - 16))"
    using assms(1) by (simp_all add: A_def B_def match_mask_def idx_def Let_def del: upt_rec_numeral)
  have l: "length A = 32" "length B = 32" by (simp_all add: A_def B_def match_mask_def del: upt_rec_numeral)
  have u: "unat (word_of_nat n :: u8) = n" if "n < 32" for n using that by (simp add: unat_of_nat)
  have "map2 (OR) (shuffle_epi8 lo A) (shuffle_epi8 hi B) ! i = (shuffle_epi8 lo A ! i) OR (shuffle_epi8 hi B ! i)"
    using assms(1) l by (simp add: shuffle_epi8_def)
  also have "\<dots> = (lo @ hi) ! idx"
  proof (cases "idx < 16")
    case True
    then show ?thesis using assms(1,4) l u [of idx] by (simp add: shuffle_epi8_def m nth_append)
  next
    case False
    then show ?thesis using assms(1,4,5) l u [of "idx - 16"] idx by (auto simp: shuffle_epi8_def m nth_append)
  qed
  finally show ?thesis unfolding idx_def A_def B_def .
qed

lemma short_head_ok:
  assumes p: "1 \<le> p" "p \<le> d" "32 \<le> d" and l: "d + 32 \<le> length (m a)"
  shows "\<exists>b lo hi. load m (a, d - max p 32) 16 = Inr lo \<and> load m (padd (a, d - max p 32) 16) 16 = Inr hi
    \<and> store m (a, d) (map2 (OR) (shuffle_epi8 lo (match_mask (min p 32) 0)) (shuffle_epi8 hi (match_mask (min p 32) 1))) = Inr (m(a := b))
    \<and> mprog (m a) b d p 32 32"
proof -
  define s where "s = d - max p 32"
  define lo hi where "lo = take 16 (drop s (m a))" and "hi = take 16 (drop (s + 16) (m a))"
  define r where "r = min p 32"
  have s: "s + 32 \<le> d" "s + max p 32 = d" using p by (auto simp: s_def)
  have lh: "length lo = 16" "length hi = 16" "load m (a, s) 16 = Inr lo" "load m (padd (a, s) 16) 16 = Inr hi"
    using s l by (auto simp: lo_def hi_def load_def padd_def)
  have at: "(lo @ hi) ! j = m a ! (s + j)" if "j < 32" for j
    using that s l lh by (simp add: nth_append lo_def hi_def)
  define h where "h = map2 (OR) (shuffle_epi8 lo (match_mask r 0)) (shuffle_epi8 hi (match_mask r 1))"
  have len: "length h = 32" by (simp add: h_def shuffle_epi8_def match_mask_def del: upt_rec_numeral)
  have r: "1 \<le> r" "r \<le> 32" using p by (auto simp: r_def)
  have hi: "h ! i = m a ! (d - p + i mod r)" if "i < 32" for i
  proof -
    have "i mod r < r" using r by simp
    then have "32 - r + i mod r < 32" using r by linarith
    then have "h ! i = m a ! (s + (32 - r + i mod r))" unfolding h_def shuffle_head [OF that r lh(1,2)] by (rule at)
    also have "s + (32 - r + i mod r) = d - p + i mod r" using s(2) p r by (auto simp: r_def max_def min_def split: if_splits)
    finally show ?thesis .
  qed
  define b where "b = put_slice (m a) d h"
  have bn: "b ! k = (if d \<le> k \<and> k < d + 32 then h ! (k - d) else m a ! k)" for k
    using l len unfolding b_def put_slice_def by (auto simp: nth_append)
  have "b ! k = b ! (k - p)" if k: "d \<le> k" "k < d + 32" for k
  proof (cases "k - d < p")
    case True
    have "(k - d) mod r = k - d" using True k by (auto simp: r_def min_def split: if_splits)
    then have "b ! k = m a ! (d - p + (k - d))" using bn hi k by simp
    moreover have "d - p + (k - d) = k - p" using k p(2) by simp
    moreover have "\<not> d \<le> k - p" using True k p by arith
    ultimately show ?thesis using bn [of "k - p"] by simp
  next
    case False
    then have pr: "r = p" using k by (simp add: r_def)
    have "(k - d) mod p = (k - d - p) mod p" using False by (simp add: le_mod_geq)
    moreover have "d \<le> k - p" "k - p < d + 32" using False k by arith+
    then have "b ! (k - p) = h ! (k - p - d)" using bn [of "k - p"] by simp
    moreover have "k - p - d = k - d - p" by simp
    ultimately show ?thesis using bn [of k] hi [of "k - d"] hi [of "k - d - p"] k pr by simp
  qed
  moreover have "length b = length (m a)" using l len by (simp add: b_def put_slice_def)
  ultimately have "mprog (m a) b d p 32 32" using bn unfolding mprog_def by auto
  moreover have "store m (a, d) h = Inr (m(a := b))" using l len by (simp add: store_def b_def)
  ultimately show ?thesis using lh(3,4) unfolding s_def h_def r_def by blast
qed

lemma period_spread: "1 \<le> q \<Longrightarrow> q < 16 \<Longrightarrow> \<exists>c. PERIOD_SPREAD q = c * q \<and> 1 \<le> c \<and> 16 \<le> c * q \<and> c * q \<le> 32"
proof -
  assume q: "1 \<le> q" "q < 16"
  define c where "c = (16 + q - 1) div q"
  have "c * q + (15 + q) mod q = 15 + q" using q div_mult_mod_eq [of "15 + q" q] by (simp add: c_def del: mod_add_self2)
  moreover have "(15 + q) mod q < q" using q by simp
  ultimately have "16 \<le> c * q" "c * q \<le> 32" using q by linarith+
  moreover from this(1) have "1 \<le> c" by (cases c) auto
  ultimately show ?thesis by (auto simp: PERIOD_SPREAD_def c_def mult.commute)
qed

lemma copy_match_short_ok:
  assumes p: "1 \<le> p" "p \<le> d" "32 \<le> d" and ml: "1 \<le> ml" and l: "d + ml + 31 \<le> length (m a)"
  shows "\<exists>b. copy_match_short m (a, d) p ml = Inr (m(a := b)) \<and> match_done (m a) b d p ml"
proof -
  have "d + 32 \<le> length (m a)" using l ml by simp
  from short_head_ok [where m = m and a = a, OF p this] obtain b lo hi where
    b: "load m (a, d - max p 32) 16 = Inr lo" "load m (padd (a, d - max p 32) 16) 16 = Inr hi"
    "store m (a, d) (map2 (OR) (shuffle_epi8 lo (match_mask (min p 32) 0)) (shuffle_epi8 hi (match_mask (min p 32) 1))) = Inr (m(a := b))"
    "mprog (m a) b d p 32 32" by blast
  have mx: "max p 32 \<le> d" using p by simp
  obtain c where c: "(if 16 \<le> p then p else PERIOD_SPREAD p) = c * p" "1 \<le> c" "c * p \<le> 32 + p" "16 \<le> c * p"
    using period_spread [of p] p(1) by (cases "16 \<le> p") (auto intro: that [of 1])
  have eq: "copy_match_short m (a, d) p ml = (if 32 < ml then wildcopy_periodic (m(a := b)) (a, d + 32) (c * p) (ml - 32) else Inr (m(a := b)))"
    unfolding copy_match_short_def psub_ok [OF mx] res_bind_simps b(1,2) Let_def b(3) c(1) unfolding padd_pair by (rule refl)
  show ?thesis
  proof (cases "32 < ml")
    case True
    have r: "d + 32 + (ml - 32) + 31 \<le> length (m a)" "1 \<le> ml - 32" using l True by simp_all
    from wildcopy_periodic_ok [where m = m and a = a, OF b(4) p(1,2) c(2,3,4) r(2,1)] obtain b1 where
      1: "wildcopy_periodic (m(a := b)) (a, d + 32) (c * p) (ml - 32) = Inr (m(a := b1))" "mprog (m a) b1 d p (32 + (ml - 32)) (max 32 (32 + (ml - 32) + 31))"
      by auto
    have "match_done (m a) b1 d p ml" unfolding match_done_def using 1(2) by (rule mprog_weaken) (use True in auto)
    then show ?thesis unfolding eq using True 1(1) by (intro exI [of _ b1]) simp
  next
    case False
    have "match_done (m a) b d p ml" unfolding match_done_def using b(4) by (rule mprog_weaken) (use False ml in auto)
    then show ?thesis unfolding eq using False by (intro exI [of _ b]) simp
  qed
qed

interpretation avx2: wild_copy Avx2
proof unfold_locales
  fix offset avail d ml :: nat and m :: mem and a
  assume "1 \<le> offset" "offset \<le> avail" "avail \<le> d" "1 \<le> ml" "d + ml + 31 \<le> length (m a)"
  then show "\<exists>b. wc_copy_match Avx2 m (a, d) offset ml avail = Inr (m(a := b)) \<and> match_done (m a) b d offset ml"
    using avx2_copy_match_ok [where m = m and a = a and d = d, of offset ml avail] by (simp add: Avx2_def)
qed (auto simp: Avx2_def wildcopy32_ok)

interpretation avx2_short: wild_copy Avx2ShortOffsets
proof unfold_locales
  fix offset avail d ml :: nat and m :: mem and a
  assume "1 \<le> offset" "offset \<le> avail" "avail \<le> d" "1 \<le> ml" "d + ml + 31 \<le> length (m a)"
  then show "\<exists>b. wc_copy_match Avx2ShortOffsets m (a, d) offset ml avail = Inr (m(a := b)) \<and> match_done (m a) b d offset ml"
    using avx2_copy_match_ok [where m = m and a = a and d = d, of offset ml avail]
      copy_match_short_ok [where m = m and a = a and d = d, of offset ml]
    by (simp add: Avx2ShortOffsets_def avx2_short_copy_match_def)
qed (auto simp: Avx2ShortOffsets_def wildcopy32_ok)

section \<open>LZ77 matches\<close>

text \<open>What a match means: \<open>n\<close> times, the byte \<open>p\<close> back is appended.\<close>

fun lz_copy :: "u8 list \<Rightarrow> nat \<Rightarrow> nat \<Rightarrow> u8 list" where
  "lz_copy out p 0 = out"
| "lz_copy out p (Suc n) = lz_copy (out @ [out ! (length out - p)]) p n"

lemma lz_copy_length [simp]: "length (lz_copy out p n) = length out + n"
  by (induction n arbitrary: out) auto

lemma lz_copy_prefix: "k < length out \<Longrightarrow> lz_copy out p n ! k = out ! k"
  by (induction n arbitrary: out) (auto simp: nth_append)

lemma lz_copy_period:
  "1 \<le> p \<Longrightarrow> p \<le> length out \<Longrightarrow> length out \<le> k \<Longrightarrow> k < length out + n \<Longrightarrow> lz_copy out p n ! k = lz_copy out p n ! (k - p)"
proof (induction n arbitrary: out)
  case (Suc n)
  show ?case
  proof (cases "k = length out")
    case True
    then have "lz_copy out p (Suc n) ! k = out ! (length out - p)" by (simp add: lz_copy_prefix)
    moreover have "lz_copy out p (Suc n) ! (k - p) = out ! (length out - p)"
      using True Suc.prems by (simp add: lz_copy_prefix nth_append)
    ultimately show ?thesis by simp
  next
    case False
    then show ?thesis using Suc.IH [of "out @ [out ! (length out - p)]"] Suc.prems by simp
  qed
qed simp

lemma lz_copy_unique:
  assumes "1 \<le> p" and "p \<le> length out" and "length xs = length out + n" and "\<And>k. k < length out \<Longrightarrow> xs ! k = out ! k"
    and "\<And>k. length out \<le> k \<Longrightarrow> k < length out + n \<Longrightarrow> xs ! k = xs ! (k - p)"
  shows "xs = lz_copy out p n"
proof (rule nth_equalityI)
  show "length xs = length (lz_copy out p n)" using assms(3) by simp
  fix i assume "i < length xs"
  then show "xs ! i = lz_copy out p n ! i"
  proof (induction i rule: less_induct)
    case (less i)
    show ?case
    proof (cases "i < length out")
      case True
      then show ?thesis using assms(4) lz_copy_prefix by simp
    next
      case False
      then have "xs ! i = xs ! (i - p)" using assms(5) [of i] less.prems assms(3) by simp
      also have "\<dots> = lz_copy out p n ! (i - p)" using less.IH [of "i - p"] less.prems False assms(1,2) by simp
      also have "\<dots> = lz_copy out p n ! i" using lz_copy_period [of p out i n] False less.prems assms(1-3) by simp
      finally show ?thesis .
    qed
  qed
qed

lemma match_done_lz:
  assumes b: "match_done buf b d p ml" and p: "1 \<le> p" "p \<le> d" and l: "d + ml \<le> length buf"
  shows "take (d + ml) b = lz_copy (take d buf) p ml"
proof (rule lz_copy_unique)
  have b': "length b = length buf" "\<And>k. k < d \<Longrightarrow> b ! k = buf ! k" "\<And>k. d \<le> k \<Longrightarrow> k < d + ml \<Longrightarrow> b ! k = b ! (k - p)"
    using b unfolding match_done_def mprog_def by blast+
  show "length (take (d + ml) b) = length (take d buf) + ml" using b'(1) l by simp
  show "take (d + ml) b ! k = take d buf ! k" if "k < length (take d buf)" for k using that b'(2) by simp
  show "take (d + ml) b ! k = take (d + ml) b ! (k - p)" if "length (take d buf) \<le> k" "k < length (take d buf) + ml" for k
    using that l p b'(3) [of k] by simp
qed (use p l in simp_all)

lemma match_done_outside: "match_done buf b d p ml \<Longrightarrow> length b = length buf \<and> drop (d + ml + 31) b = drop (d + ml + 31) buf"
  by (auto simp: match_done_def mprog_def intro!: nth_equalityI)

text \<open>C27: every match copy of the trait writes exactly the LZ77 match.  For an offset inside the bytes
  already written, and room for the match and 31 bytes more, each of the four implementations returns
  without undefined behaviour; the bytes up to the match's end are the old ones with the match appended
  byte by byte, at most 31 bytes after it are overwritten, and no other allocation changes.\<close>

theorem copy_match_correct:
  assumes "w = Fallback \<or> w = FallbackShortOffsets \<or> w = Avx2 \<or> w = Avx2ShortOffsets"
    and "1 \<le> offset" and "offset \<le> avail" and "avail \<le> d" and "1 \<le> ml" and "d + ml + 31 \<le> length (m a)"
  shows "\<exists>b. wc_copy_match w m (a, d) offset ml avail = Inr (m(a := b)) \<and> length b = length (m a)
    \<and> take (d + ml) b = lz_copy (take d (m a)) offset ml \<and> drop (d + ml + 31) b = drop (d + ml + 31) (m a)"
proof -
  obtain b where b: "wc_copy_match w m (a, d) offset ml avail = Inr (m(a := b))" "match_done (m a) b d offset ml"
    using assms(1) fallback.copy_match_law [where m = m and a = a, OF assms(2-6)] fallback_short.copy_match_law [where m = m and a = a, OF assms(2-6)]
      avx2.copy_match_law [where m = m and a = a, OF assms(2-6)] avx2_short.copy_match_law [where m = m and a = a, OF assms(2-6)] by blast
  then show ?thesis
    using match_done_lz [OF b(2)] match_done_outside [OF b(2)] assms by auto
qed

theorem copy_match_correct_witness:
  "\<exists>b. wc_copy_match Avx2ShortOffsets (\<lambda>_. replicate 100 7) (0, 40) 3 9 40 = Inr ((\<lambda>_. replicate 100 7)(0 := b)) \<and> length b = 100
    \<and> take 49 b = lz_copy (replicate 40 7) 3 9 \<and> drop 80 b = replicate 20 7"
  using copy_match_correct [of Avx2ShortOffsets 3 40 40 9 "\<lambda>_. replicate 100 7" 0] by simp

end
