(* ===== verification/Sequence_Exec.thy ===== *)
theory Sequence_Exec
  imports Wildcopy
begin

text \<open>
  Executing a sequence (\<open>src/src/decode.rs\<close>): \<open>exec_sequence\<close> copies the literals and the match of one
  sequence into the current segment of the frame's output, with the history before the segment
  (\<open>ExtHistory\<close>: a dictionary, or the older part of a round buffer) and the window as bounds.

  The code works on raw pointers and lets copies overshoot.  Its specification is \<open>seq_result\<close>, on lists of
  bytes: what LZ77 says of a sequence, or the error.  The proofs are done once, in the contract \<open>wild_copy\<close> of
  the copies, and hold of the four implementations by its interpretations.
\<close>

section \<open>Destination, history, cursor and limits\<close>

definition WILDCOPY_OVERLENGTH :: nat where
  "WILDCOPY_OVERLENGTH = 32"

definition wrapping_sub :: "nat \<Rightarrow> nat \<Rightarrow> nat" where
  "wrapping_sub x y = (x + (2 ^ 64 - y)) mod 2 ^ 64"

record ext_history =
  eh_end :: ptr
  eh_len :: nat
  eh_dict :: bool

text \<open>\<open>ExtHistory::NONE\<close>: the null pointer stands for no bytes and is never read.\<close>

definition ExtHistory_NONE :: ext_history where
  "ExtHistory_NONE = \<lparr>eh_end = (0, 0), eh_len = 0, eh_dict = False\<rparr>"

text \<open>\<open>ExtHistory::dict\<close> of the slice of \<open>n\<close> bytes at \<open>content\<close>.\<close>

definition ExtHistory_dict :: "ptr \<Rightarrow> nat \<Rightarrow> ext_history" where
  "ExtHistory_dict content n = \<lparr>eh_end = padd content n, eh_len = n, eh_dict = True\<rparr>"

record seq_cursor =
  sc_op :: ptr
  sc_lit :: ptr

record seq_limits =
  sl_oend_w :: ptr
  sl_lit_limit :: ptr
  sl_prefix :: ptr
  sl_ext :: ext_history
  sl_window :: nat

section \<open>The code\<close>

definition copy_literals :: "wild_ops \<Rightarrow> mem \<Rightarrow> ptr \<Rightarrow> ptr \<Rightarrow> nat \<Rightarrow> mem res" where
  "copy_literals w m op lit ll =
     res_bind (copy16 m op lit) (\<lambda>m.
     if 16 < ll then wc_wildcopy w m (padd op 16) (padd lit 16) (ll - 16) else Inr m)"

definition seq_fail :: "seq_error \<Rightarrow> 'a res" where
  "seq_fail e = Inl (Err (SeqError e))"

definition exec_sequence_ext :: "wild_ops \<Rightarrow> mem \<Rightarrow> ptr \<Rightarrow> ptr \<Rightarrow> nat \<times> nat \<times> nat \<Rightarrow> nat \<Rightarrow> ext_history \<Rightarrow> mem res" where
  "exec_sequence_ext w m op lit sq avail ext =
     (let (ll, ml, offset) = sq in
      if offset = 0 then seq_fail OffsetTooFar
      else if offset < avail then Inl Panic
      else if eh_len ext < offset - avail then
        seq_fail (if eh_dict ext then OffsetBeforeDict else OffsetTooFar)
      else
        res_bind (copy_literals w m op lit ll) (\<lambda>m.
        let dst = padd op ll; back = offset - avail; head = min back ml in
        res_bind (psub (eh_end ext) back) (\<lambda>src.
        res_bind (ptr_copy m src dst head) (\<lambda>m.
        if head < ml then wc_copy_match w m (padd dst head) offset (ml - head) offset else Inr m))))"

text \<open>\<open>exec_sequence\<close> after its window check.\<close>

definition exec_sequence_checked :: "wild_ops \<Rightarrow> bool \<Rightarrow> mem \<Rightarrow> seq_cursor \<Rightarrow> seq_limits \<Rightarrow> nat \<Rightarrow> nat \<Rightarrow> nat \<Rightarrow> (mem \<times> seq_cursor) res" where
  "exec_sequence_checked w EXT m cur lim ll ml offset =
     (let op = sc_op cur; lit = sc_lit cur;
          o_lit_end = snd op + ll; o_match_end = o_lit_end + ml;
          next = \<lparr>sc_op = padd op (ll + ml), sc_lit = padd lit ll\<rparr> in
      if snd (sl_lit_limit lim) < snd lit + ll then seq_fail NotEnoughLiterals
      else if snd (sl_oend_w lim) < o_match_end then seq_fail BlockTooLarge
      else if o_lit_end < snd (sl_prefix lim) then Inl Panic
      else
        let avail = o_lit_end - snd (sl_prefix lim) in
        if avail \<le> wrapping_sub offset 1 then
          if \<not> EXT then seq_fail OffsetTooFar
          else
            let back = wrapping_sub offset avail in
            if back \<le> eh_len (sl_ext lim) \<and> ml + WILDCOPY_OVERLENGTH \<le> back then
              res_bind (copy_literals w m op lit ll) (\<lambda>m.
              res_bind (psub (eh_end (sl_ext lim)) back) (\<lambda>src.
              res_bind (wc_wildcopy w m (padd op ll) src ml) (\<lambda>m. Inr (m, next))))
            else
              res_bind (exec_sequence_ext w m op lit (ll, ml, offset) avail (sl_ext lim)) (\<lambda>m. Inr (m, next))
        else
          res_bind (copy_literals w m op lit ll) (\<lambda>m.
          res_bind (wc_copy_match w m (padd op ll) offset ml avail) (\<lambda>m. Inr (m, next))))"

text \<open>The call of \<open>exec_sequence\<close> with the window \<open>usize::MAX\<close> passes its window check: no \<open>usize\<close> is larger.\<close>

definition exec_sequence_past_window :: "wild_ops \<Rightarrow> mem \<Rightarrow> seq_cursor \<Rightarrow> seq_limits \<Rightarrow> nat \<Rightarrow> nat \<Rightarrow> nat \<Rightarrow> (mem \<times> seq_cursor) res" where
  "exec_sequence_past_window w m cur lim ll ml offset =
     (if snd (sc_op cur) + ll < snd (sl_prefix lim) then Inl Panic
      else if \<not> eh_dict (sl_ext lim) \<or> sl_window lim < snd (sc_op cur) + ll - snd (sl_prefix lim) then seq_fail OffsetPastWindow
      else exec_sequence_checked w True m cur (lim\<lparr>sl_window := 2 ^ 64 - 1\<rparr>) ll ml offset)"

definition exec_sequence :: "wild_ops \<Rightarrow> bool \<Rightarrow> mem \<Rightarrow> seq_cursor \<Rightarrow> seq_limits \<Rightarrow> nat \<Rightarrow> nat \<Rightarrow> nat \<Rightarrow> (mem \<times> seq_cursor) res" where
  "exec_sequence w EXT m cur lim ll ml offset =
     (if sl_window lim < offset then
        if \<not> EXT then seq_fail OffsetPastWindow
        else exec_sequence_past_window w m cur lim ll ml offset
      else exec_sequence_checked w EXT m cur lim ll ml offset)"

section \<open>What a sequence means\<close>

text \<open>
  On bytes: the history \<open>hist\<close> before the segment, the segment \<open>out\<close>, of at most \<open>limit\<close> bytes, and the
  literals left.  A sequence takes literals, then the match; it may reach into the history only with \<open>EXT\<close>.
\<close>

definition seq_result :: "bool \<Rightarrow> bool \<Rightarrow> nat \<Rightarrow> u8 list \<Rightarrow> nat \<Rightarrow> u8 list \<times> u8 list \<Rightarrow> nat \<times> nat \<times> nat \<Rightarrow> seq_error + (u8 list \<times> u8 list)" where
  "seq_result EXT dict window hist limit s sq =
     (let (out, lits) = s; (ll, ml, offset) = sq; avail = length out + ll in
      if window < offset \<and> \<not> (EXT \<and> dict \<and> avail \<le> window) then Inl OffsetPastWindow
      else if length lits < ll then Inl NotEnoughLiterals
      else if limit < avail + ml then Inl BlockTooLarge
      else if offset = 0 then Inl OffsetTooFar
      else if \<not> EXT then
        if avail < offset then Inl OffsetTooFar
        else Inr (lz_copy (out @ take ll lits) offset ml, drop ll lits)
      else if avail + length hist < offset then Inl (if dict then OffsetBeforeDict else OffsetTooFar)
      else Inr (drop (length hist) (lz_copy (hist @ out @ take ll lits) offset ml), drop ll lits))"

text \<open>The limits of a block: room past the segment and past the literals, which are apart.\<close>

definition limits_ok :: "mem \<Rightarrow> seq_limits \<Rightarrow> bool" where
  "limits_ok m lim \<longleftrightarrow>
     (let a = fst (sl_prefix lim); l = fst (sl_lit_limit lim) in
      fst (sl_oend_w lim) = a \<and> l \<noteq> a \<and> snd (sl_oend_w lim) + 32 \<le> length (m a) \<and> snd (sl_lit_limit lim) + 32 \<le> length (m l)
      \<and> snd (sl_oend_w lim) < 2 ^ 63)"

text \<open>The contract of \<open>ExtHistory\<close>: its bytes exist; they are of another allocation, or every match that the
  window lets reach them starts more than \<open>WILDCOPY_OVERLENGTH\<close> bytes ahead of where it is written.\<close>

definition ext_ok :: "mem \<Rightarrow> seq_limits \<Rightarrow> bool" where
  "ext_ok m lim \<longleftrightarrow>
     (let e = sl_ext lim in
      eh_len e \<le> snd (eh_end e) \<and> snd (eh_end e) \<le> length (m (fst (eh_end e))) \<and> eh_len e < 2 ^ 63
      \<and> (fst (eh_end e) \<noteq> fst (sl_prefix lim) \<or> \<not> eh_dict e \<and> snd (sl_prefix lim) + sl_window lim + 32 < snd (eh_end e)))"

definition cursor_ok :: "seq_limits \<Rightarrow> seq_cursor \<Rightarrow> bool" where
  "cursor_ok lim cur \<longleftrightarrow> fst (sc_op cur) = fst (sl_prefix lim) \<and> snd (sl_prefix lim) \<le> snd (sc_op cur) \<and> snd (sc_op cur) \<le> snd (sl_oend_w lim)
     \<and> fst (sc_lit cur) = fst (sl_lit_limit lim) \<and> snd (sc_lit cur) \<le> snd (sl_lit_limit lim)"

text \<open>The bytes between two indices of an allocation; the segment and the literals under a cursor.\<close>

definition bytes :: "u8 list \<Rightarrow> nat \<Rightarrow> nat \<Rightarrow> u8 list" where
  "bytes xs i j = take (j - i) (drop i xs)"

definition cursor_bytes :: "mem \<Rightarrow> seq_limits \<Rightarrow> seq_cursor \<Rightarrow> u8 list \<times> u8 list" where
  "cursor_bytes m lim cur =
     (bytes (m (fst (sl_prefix lim))) (snd (sl_prefix lim)) (snd (sc_op cur)),
      bytes (m (fst (sl_lit_limit lim))) (snd (sc_lit cur)) (snd (sl_lit_limit lim)))"

text \<open>The history is still in memory, except where the segment may have overwritten it.\<close>

definition hist_at :: "mem \<Rightarrow> seq_limits \<Rightarrow> seq_cursor \<Rightarrow> u8 list \<Rightarrow> bool" where
  "hist_at m lim cur hist \<longleftrightarrow>
     (let e = sl_ext lim; s = snd (eh_end e) - eh_len e in
      length hist = eh_len e \<and>
      (\<forall>i < eh_len e. fst (eh_end e) \<noteq> fst (sl_prefix lim) \<or> snd (sc_op cur) + 31 \<le> s + i \<longrightarrow> hist ! i = m (fst (eh_end e)) ! (s + i)))"

text \<open>Memory after writing the bytes \<open>d..e\<close> of an allocation: they and at most 31 more have changed.\<close>

definition wrote :: "mem \<Rightarrow> mem \<Rightarrow> nat \<Rightarrow> nat \<Rightarrow> nat \<Rightarrow> bool" where
  "wrote m m' a d e \<longleftrightarrow> m' = m(a := m' a) \<and> length (m' a) = length (m a) \<and> (\<forall>k < d. m' a ! k = m a ! k)
     \<and> (\<forall>k \<ge> e + 31. m' a ! k = m a ! k)"

lemma bytes_length [simp]: "j \<le> length xs \<Longrightarrow> length (bytes xs i j) = j - i"
  by (simp add: bytes_def)

lemma bytes_nth [simp]: "k < j - i \<Longrightarrow> j \<le> length xs \<Longrightarrow> bytes xs i j ! k = xs ! (i + k)"
  by (simp add: bytes_def)

lemma wrote_trans: "wrote m m1 a d e1 \<Longrightarrow> wrote m1 m2 a d' e2 \<Longrightarrow> d \<le> d' \<Longrightarrow> e1 \<le> e2 \<Longrightarrow> wrote m m2 a d e2"
  unfolding wrote_def by (metis (no_types, opaque_lifting) add_le_mono1 fun_upd_upd less_le_trans order_trans)

text \<open>A forward copy whose source is apart or ahead moves the original bytes.\<close>

lemma byte_copy_ahead:
  assumes "a \<noteq> c \<or> d \<le> s" and "k < n" and "d + n \<le> length (m a)"
  shows "byte_copy m (a, d) (c, s) n a ! (d + k) = m c ! (s + k)"
  using assms(2,3)
proof (induction n)
  case (Suc n)
  have "byte_copy m (a, d) (c, s) n c ! (s + n) = m c ! (s + n)"
    using assms(1) byte_copy_other [of c "(a, d)" m "(c, s)" n] byte_copy_same [of "s + n" "(a, d)" n m "(c, s)"]
    by (cases "a = c") auto
  then show ?case using Suc by (auto simp: Let_def nth_list_update less_Suc_eq)
qed simp

lemma byte_copy_wrote:
  assumes "n \<le> T" and "T \<le> n + 31"
  shows "wrote m (byte_copy m (a, d) src T) a d (d + n)"
  using assms byte_copy_same [of _ "(a, d)" T m src] byte_copy_upd [of m "(a, d)" src T] unfolding wrote_def by simp

lemma match_done_wrote:
  assumes "match_done (m a) b d p ml"
  shows "wrote m (m(a := b)) a d (d + ml)"
  using assms unfolding match_done_def mprog_def wrote_def by (auto simp: add.assoc)

text \<open>The literals and the match, put together.\<close>

lemma seq_assemble:
  assumes base: "base \<le> d" and len: "length b2 = length b" and e: "d + ll + ml \<le> length b"
    and old: "\<And>k. k < d \<Longrightarrow> b2 ! k = b ! k"
    and lit: "\<And>k. k < ll \<Longrightarrow> b2 ! (d + k) = lits ! k" and ll: "ll \<le> length lits"
    and p: "1 \<le> p" "p \<le> length hist + (d + ll - base)"
    and step: "\<And>k. d + ll \<le> k \<Longrightarrow> k < d + ll + ml \<Longrightarrow>
      b2 ! k = (if p \<le> k - base then b2 ! (k - p) else hist ! (length hist + (k - base) - p))"
  shows "hist @ bytes b2 base (d + ll + ml) = lz_copy (hist @ bytes b base d @ take ll lits) p ml"
proof (rule lz_copy_unique)
  let ?h = "length hist" and ?T = "hist @ bytes b2 base (d + ll + ml)" and ?S = "hist @ bytes b base d @ take ll lits"
  have l: "length ?S = ?h + (d + ll - base)" using base e ll by simp
  have at: "?T ! k = (if k < ?h then hist ! k else b2 ! (base + (k - ?h)))" if "k < ?h + (d + ll + ml - base)" for k
    using that e len by (auto simp: nth_append)
  show "length ?T = length ?S + ml" using l base e len by simp
  show "p \<le> length ?S" using p(2) l by simp
  show "?T ! k = ?S ! k" if k: "k < length ?S" for k
  proof -
    consider "k < ?h" | i where "k = ?h + i" "i < d - base" | i where "k = ?h + (d - base + i)" "i < ll"
      using k l base by (metis add_diff_inverse_nat add_less_cancel_left diff_add_assoc2)
    then show ?thesis
    proof cases
      case 1
      then show ?thesis by (simp add: nth_append)
    next
      case 2
      then show ?thesis using e len old [of "base + i"] by (simp add: nth_append)
    next
      case (3 i)
      have "\<not> k < ?h" "base + (k - ?h) = d + i" "k < ?h + (d + ll + ml - base)" using 3 base by simp_all
      then have "?T ! k = b2 ! (d + i)" using at [of k] by simp
      then show ?thesis using 3 lit [of i] e by (simp add: nth_append)
    qed
  qed
  show "?T ! k = ?T ! (k - p)" if k: "length ?S \<le> k" "k < length ?S + ml" for k
  proof -
    define j where "j = base + (k - ?h)"
    have j: "d + ll \<le> j" "j < d + ll + ml" "\<not> k < ?h" "k = ?h + (j - base)" "base \<le> j" using k l base by (auto simp: j_def)
    have "?T ! k = b2 ! j" using at [of k] j by simp
    also have "\<dots> = (if p \<le> j - base then b2 ! (j - p) else hist ! (?h + (j - base) - p))" using step [of j] j by blast
    also have "\<dots> = ?T ! (k - p)" using at [of "k - p"] j p base by auto
    finally show ?thesis .
  qed
qed (rule p(1))

section \<open>The copies of a sequence\<close>

lemma wrote_at: "wrote m m' a d e \<Longrightarrow> m' = m(a := m' a) \<and> length (m' a) = length (m a)"
  by (simp add: wrote_def)

lemma wrote_before: "wrote m m' a d e \<Longrightarrow> k < d \<Longrightarrow> m' a ! k = m a ! k"
  by (simp add: wrote_def)

lemma wrote_after: "wrote m m' a d e \<Longrightarrow> e + 31 \<le> k \<Longrightarrow> m' a ! k = m a ! k"
  by (simp add: wrote_def)

lemma wrote_other: "wrote m m' a d e \<Longrightarrow> c \<noteq> a \<Longrightarrow> m' c = m c"
  unfolding wrote_def by (metis fun_upd_other)

lemma wrote_length: "wrote m m' a d e \<Longrightarrow> length (m' c) = length (m c)"
  by (cases "c = a") (auto simp: wrote_at wrote_other)

text \<open>A copy of the bytes \<open>c..\<close> to \<open>d..\<close>.\<close>

definition moved :: "mem \<Rightarrow> mem \<Rightarrow> nat \<Rightarrow> nat \<Rightarrow> nat \<Rightarrow> nat \<Rightarrow> nat \<Rightarrow> bool" where
  "moved m m' a d c s n \<longleftrightarrow> wrote m m' a d (d + n) \<and> (\<forall>k < n. m' a ! (d + k) = m c ! (s + k))"

lemma byte_copy_moved:
  assumes "a \<noteq> c \<or> d \<le> s" and "n \<le> T" and "T \<le> n + 31" and "d + n + 31 \<le> length (m a)"
  shows "moved m (byte_copy m (a, d) (c, s) T) a d c s n"
  using assms byte_copy_ahead [of a c d s _ T m] byte_copy_wrote [OF assms(2,3)] unfolding moved_def by simp

lemma ptr_copy_moved:
  assumes "d + n \<le> length (m a)" and "s + n \<le> length (m c)"
  shows "\<exists>m'. ptr_copy m (c, s) (a, d) n = Inr m' \<and> moved m m' a d c s n"
proof -
  define m' where "m' = m(a := put_slice (m a) d (take n (drop s (m c))))"
  have "ptr_copy m (c, s) (a, d) n = Inr m'" using assms by (simp add: ptr_copy_def load_def store_def m'_def)
  moreover have "moved m m' a d c s n"
  proof (cases "n = 0")
    case True
    then show ?thesis by (simp add: moved_def wrote_def m'_def put_slice_def)
  next
    case False
    then show ?thesis using assms by (auto simp: moved_def wrote_def m'_def put_slice_def nth_append)
  qed
  ultimately show ?thesis by blast
qed

context wild_copy
begin

lemma copy_literals_ok:
  assumes "a \<noteq> l" and "d + ll + 31 \<le> length (m a)" and "s + ll + 31 \<le> length (m l)"
  shows "\<exists>m'. copy_literals w m (a, d) (l, s) ll = Inr m' \<and> moved m m' a d l s ll"
proof -
  have ap: "apart n (a, d) (l, s)" for n using assms(1) by (simp add: apart_def)
  have r: "room m (a, d) (l, s) (ll + 31)" using assms by (simp add: room_def)
  have c: "copy16 m (a, d) (l, s) = Inr (byte_copy m (a, d) (l, s) 16)" by (rule copy16_ok [OF ap room_less [OF r]]) simp
  have "\<exists>T. copy_literals w m (a, d) (l, s) ll = Inr (byte_copy m (a, d) (l, s) T) \<and> ll \<le> T \<and> T \<le> ll + 31"
  proof (cases "16 < ll")
    case True
    let ?m = "byte_copy m (a, d) (l, s) 16"
    have "room m (a, d) (l, s) (16 + (ll - 16 + 31))" using r True by (simp add: add.commute)
    then have "room ?m (padd (a, d) 16) (padd (l, s) 16) (ll - 16 + 31)" by (simp add: room_padd)
    moreover have "apart (wc_width w) (padd (a, d) 16) (padd (l, s) 16)" using ap by simp
    moreover have "1 \<le> ll - 16" using True by simp
    ultimately obtain T where "wc_wildcopy w ?m (padd (a, d) 16) (padd (l, s) 16) (ll - 16) = Inr (byte_copy ?m (padd (a, d) 16) (padd (l, s) 16) T)"
      "ll - 16 \<le> T" "T \<le> ll - 16 + 31" using wildcopy_law [of "padd (a, d) 16" "padd (l, s) 16" ?m "ll - 16"] by blast
    then show ?thesis using True c by (intro exI [of _ "16 + T"]) (auto simp: copy_literals_def byte_copy_add)
  next
    case False
    then show ?thesis using c by (intro exI [of _ 16]) (simp add: copy_literals_def)
  qed
  then obtain T where T: "copy_literals w m (a, d) (l, s) ll = Inr (byte_copy m (a, d) (l, s) T)" "ll \<le> T" "T \<le> ll + 31" by blast
  then show ?thesis using byte_copy_moved [of a l d s ll T m] assms by auto
qed

text \<open>The match inside the segment.\<close>

lemma segment_match_ok:
  assumes "1 \<le> p" and "p \<le> avail" and "avail \<le> d" and "1 \<le> ml" and "d + ml + 31 \<le> length (m a)"
  shows "\<exists>m'. wc_copy_match w m (a, d) p ml avail = Inr m' \<and> wrote m m' a d (d + ml) \<and> (\<forall>k. d \<le> k \<and> k < d + ml \<longrightarrow> m' a ! k = m' a ! (k - p))"
proof -
  obtain b where b: "wc_copy_match w m (a, d) p ml avail = Inr (m(a := b))" "match_done (m a) b d p ml"
    using copy_match_law [where m = m and a = a, OF assms] by blast
  have "\<forall>k. d \<le> k \<and> k < d + ml \<longrightarrow> b ! k = b ! (k - p)" using b(2) unfolding match_done_def mprog_def by blast
  then show ?thesis using b(1) match_done_wrote [where m = m and a = a, OF b(2)] by (intro exI [of _ "m(a := b)"]) simp
qed

text \<open>The match that ends inside the history, by \<open>wildcopy\<close>.\<close>

lemma history_match_ok:
  assumes "a \<noteq> c \<or> d + 32 \<le> s" and "1 \<le> ml" and "d + ml + 31 \<le> length (m a)" and "s + ml + 31 \<le> length (m c)"
  shows "\<exists>m'. wc_wildcopy w m (a, d) (c, s) ml = Inr m' \<and> moved m m' a d c s ml"
proof -
  have "apart (wc_width w) (a, d) (c, s)" using assms(1) width by (auto simp: apart_def)
  moreover have "room m (a, d) (c, s) (ml + 31)" using assms by (simp add: room_def)
  ultimately obtain T where "wc_wildcopy w m (a, d) (c, s) ml = Inr (byte_copy m (a, d) (c, s) T)" "ml \<le> T" "T \<le> ml + 31"
    using wildcopy_law assms(2) by blast
  then show ?thesis using byte_copy_moved [of a c d s ml T m] assms by auto
qed

text \<open>The match that starts in the history and may run on into the segment.\<close>

lemma straddling_match_ok:
  assumes c: "c \<noteq> a \<or> d \<le> s" and head: "1 \<le> back" "h = min back ml" and s: "s + back \<le> length (m c)"
    and p: "p = back + (d - base)" "base \<le> d" and ml: "1 \<le> ml" and l: "d + ml + 31 \<le> length (m a)"
  shows "\<exists>m'. res_bind (ptr_copy m (c, s) (a, d) h) (\<lambda>m. if h < ml then wc_copy_match w m (padd (a, d) h) p (ml - h) p else Inr m) = Inr m'
    \<and> wrote m m' a d (d + ml) \<and> (\<forall>k < h. m' a ! (d + k) = m c ! (s + k)) \<and> (\<forall>k. d + h \<le> k \<and> k < d + ml \<longrightarrow> m' a ! k = m' a ! (k - p))"
proof -
  have h: "h \<le> back" "h \<le> ml" using head by auto
  obtain m1 where m1: "ptr_copy m (c, s) (a, d) h = Inr m1" "moved m m1 a d c s h"
    using ptr_copy_moved [of d h m a s c] h l s by auto
  have w1: "wrote m m1 a d (d + h)" "\<forall>k < h. m1 a ! (d + k) = m c ! (s + k)" using m1(2) by (auto simp: moved_def)
  show ?thesis
  proof (cases "h < ml")
    case True
    then have hb: "h = back" using head(2) by simp
    have r: "1 \<le> p" "p \<le> p" "p \<le> d + h" "1 \<le> ml - h" "d + h + (ml - h) + 31 \<le> length (m1 a)"
      using p head hb True l wrote_length [OF w1(1)] by auto
    obtain m2 where m2: "wc_copy_match w m1 (a, d + h) p (ml - h) p = Inr m2" "wrote m1 m2 a (d + h) (d + h + (ml - h))"
      "\<forall>k. d + h \<le> k \<and> k < d + h + (ml - h) \<longrightarrow> m2 a ! k = m2 a ! (k - p)"
      using segment_match_ok [where m = m1 and a = a, OF r] by blast
    have "wrote m m2 a d (d + ml)" using wrote_trans [OF w1(1) m2(2)] True by simp
    moreover have "\<forall>k < h. m2 a ! (d + k) = m c ! (s + k)" using w1(2) wrote_before [OF m2(2)] by simp
    ultimately show ?thesis using m1(1) m2 True by (intro exI [of _ m2]) (simp add: padd_pair)
  next
    case False
    then have "h = ml" using h by simp
    then show ?thesis using m1(1) w1 by (intro exI [of _ m1]) auto
  qed
qed

end

section \<open>A sequence does what it means\<close>

definition exec_refines :: "mem \<Rightarrow> seq_limits \<Rightarrow> seq_cursor \<Rightarrow> (mem \<times> seq_cursor) res \<Rightarrow> seq_error + (u8 list \<times> u8 list) \<Rightarrow> bool" where
  "exec_refines m lim cur r spec \<longleftrightarrow>
     (case spec of
        Inl e \<Rightarrow> r = Inl (Err (SeqError e))
      | Inr s \<Rightarrow> \<exists>m' cur'. r = Inr (m', cur') \<and> cursor_ok lim cur' \<and> cursor_bytes m' lim cur' = s
          \<and> snd (sc_op cur) \<le> snd (sc_op cur') \<and> snd (sc_lit cur) \<le> snd (sc_lit cur')
          \<and> wrote m m' (fst (sl_prefix lim)) (snd (sc_op cur)) (snd (sc_op cur')))"

lemma sub_one_iff: "offset < 2 ^ 64 \<Longrightarrow> avail < 2 ^ 63 \<Longrightarrow> avail \<le> wrapping_sub offset 1 \<longleftrightarrow> offset = 0 \<or> avail < offset"
  by (cases offset) (auto simp: wrapping_sub_def)

lemma wrapping_sub_ge: "y \<le> x \<Longrightarrow> x < 2 ^ 64 \<Longrightarrow> wrapping_sub x y = x - y"
proof -
  assume "y \<le> x" "x < 2 ^ 64"
  then have "x + (2 ^ 64 - y) = x - y + 2 ^ 64" by simp
  then show ?thesis using \<open>x < 2 ^ 64\<close> unfolding wrapping_sub_def by (simp only: mod_add_self2) simp
qed

lemma wrapping_sub_zero: "y < 2 ^ 63 \<Longrightarrow> wrapping_sub 0 y = 0 \<or> 2 ^ 63 < wrapping_sub 0 y"
  by (cases "y = 0") (auto simp: wrapping_sub_def)

lemma bytes_drop: "bytes xs (i + n) j = drop n (bytes xs i j)"
  by (simp add: bytes_def drop_take add.commute)

text \<open>The bytes under the advanced cursor.\<close>

lemma exec_done:
  assumes lim: "limits_ok m lim" and cur: "cursor_ok lim cur" "cursor_bytes m lim cur = (out, lits)"
    and a: "a = fst (sl_prefix lim)" "base = snd (sl_prefix lim)" "d = snd (sc_op cur)" "s = snd (sc_lit cur)" "l = fst (sl_lit_limit lim)"
    and ll: "ll \<le> length lits" and fit: "d + ll + ml \<le> snd (sl_oend_w lim)"
    and w: "wrote m m' a d (d + ll + ml)" and lit: "\<forall>k < ll. m' a ! (d + k) = m l ! (s + k)"
    and p: "1 \<le> p" "p \<le> length hist + (length out + ll)"
    and step: "\<And>k. d + ll \<le> k \<Longrightarrow> k < d + ll + ml \<Longrightarrow>
      m' a ! k = (if p \<le> k - base then m' a ! (k - p) else hist ! (length hist + (k - base) - p))"
    and r: "r = Inr (m', \<lparr>sc_op = padd (sc_op cur) (ll + ml), sc_lit = padd (sc_lit cur) ll\<rparr>)"
  shows "exec_refines m lim cur r (Inr (drop (length hist) (lz_copy (hist @ out @ take ll lits) p ml), drop ll lits))"
proof -
  let ?c = "\<lparr>sc_op = padd (sc_op cur) (ll + ml), sc_lit = padd (sc_lit cur) ll\<rparr>"
  have o: "out = bytes (m a) base d" "lits = bytes (m l) s (snd (sl_lit_limit lim))"
    using cur(2) a by (auto simp: cursor_bytes_def)
  have b: "base \<le> d" "s \<le> snd (sl_lit_limit lim)" "snd (sl_lit_limit lim) \<le> length (m l)" "l \<noteq> a" "snd (sl_oend_w lim) \<le> length (m a)"
    using cur(1) lim a by (auto simp: cursor_ok_def limits_ok_def Let_def)
  have ol: "length out = d - base" "length lits = snd (sl_lit_limit lim) - s" using o b fit by auto
  have "hist @ bytes (m' a) base (d + ll + ml) = lz_copy (hist @ bytes (m a) base d @ take ll lits) p ml"
  proof (rule seq_assemble [OF b(1)])
    show "length (m' a) = length (m a)" using w by (rule wrote_length)
    show "d + ll + ml \<le> length (m a)" using fit b by simp
    show "m' a ! k = m a ! k" if "k < d" for k using wrote_before [OF w that] .
    show "m' a ! (d + k) = lits ! k" if "k < ll" for k using that lit o(2) ol(2) ll b by simp
    show "p \<le> length hist + (d + ll - base)" using p(2) ol b by simp
  qed (fact ll p(1) step)+
  then have "bytes (m' a) base (d + ll + ml) = drop (length hist) (lz_copy (hist @ out @ take ll lits) p ml)"
    unfolding o(1) [symmetric] by (metis append_eq_conv_conj)
  moreover have "bytes (m' l) (s + ll) (snd (sl_lit_limit lim)) = drop ll lits"
    using wrote_other [OF w b(4)] by (simp add: o(2) bytes_drop)
  ultimately have "cursor_bytes m' lim ?c = (drop (length hist) (lz_copy (hist @ out @ take ll lits) p ml), drop ll lits)"
    using a by (simp add: cursor_bytes_def add.assoc)
  moreover have "cursor_ok lim ?c" using cur(1) fit ll ol b a by (auto simp: cursor_ok_def)
  ultimately show ?thesis using w r a by (auto simp: exec_refines_def add.assoc)
qed

lemma exec_setup:
  assumes "limits_ok m lim" and "cursor_ok lim cur" and "cursor_bytes m lim cur = (out, lits)"
    and ab: "a = fst (sl_prefix lim)" "base = snd (sl_prefix lim)" "d = snd (sc_op cur)" "s = snd (sc_lit cur)" "l = fst (sl_lit_limit lim)"
    and ok: "ll \<le> length lits" "length out + ll + ml \<le> snd (sl_oend_w lim) - snd (sl_prefix lim)"
  shows "sc_op cur = (a, d)" "sc_lit cur = (l, s)" "base \<le> d" "l \<noteq> a" "length out = d - base"
    "d + ll + ml \<le> snd (sl_oend_w lim)" "s + ll \<le> snd (sl_lit_limit lim)" "d + ll - base < 2 ^ 63"
    "d + ll + ml + 31 \<le> length (m a)" "d + ll + 31 \<le> length (m a)" "s + ll + 31 \<le> length (m l)"
proof -
  show c: "sc_op cur = (a, d)" "sc_lit cur = (l, s)" "base \<le> d"
    using assms(2) unfolding cursor_ok_def by (simp_all add: ab prod_eq_iff)
  have c': "d \<le> snd (sl_oend_w lim)" "s \<le> snd (sl_lit_limit lim)" using assms(2) unfolding cursor_ok_def by (simp_all add: ab)
  show la: "l \<noteq> a" using assms(1) by (simp add: limits_ok_def Let_def ab)
  have li: "snd (sl_oend_w lim) + 32 \<le> length (m a)" "snd (sl_lit_limit lim) + 32 \<le> length (m l)" "snd (sl_oend_w lim) < 2 ^ 63"
    using assms(1) by (simp_all add: limits_ok_def Let_def ab)
  show out: "length out = d - base"
    using assms(3) li(1) c' unfolding cursor_bytes_def ab [symmetric] by auto
  have "length lits = snd (sl_lit_limit lim) - s"
    using assms(3) li(2) c' unfolding cursor_bytes_def ab [symmetric] by auto
  then show fit: "d + ll + ml \<le> snd (sl_oend_w lim)" "s + ll \<le> snd (sl_lit_limit lim)" "d + ll - base < 2 ^ 63"
    using ok out c(3) c' li unfolding ab(2) [symmetric] by arith+
  show "d + ll + ml + 31 \<le> length (m a)" "d + ll + 31 \<le> length (m a)" "s + ll + 31 \<le> length (m l)" using li fit by auto
qed

context wild_copy
begin

lemma exec_checked_segment:
  assumes lim: "limits_ok m lim" and cur: "cursor_ok lim cur" "cursor_bytes m lim cur = (out, lits)" and ml: "1 \<le> ml"
    and ok: "ll \<le> length lits" "length out + ll + ml \<le> snd (sl_oend_w lim) - snd (sl_prefix lim)" "1 \<le> p" "p \<le> length out + ll"
    and p: "p < 2 ^ 64"
  shows "exec_refines m lim cur (exec_sequence_checked w EXT m cur lim ll ml p)
    (Inr (drop (length hist) (lz_copy (hist @ out @ take ll lits) p ml), drop ll lits))"
proof -
  define a base d s l where ab: "a = fst (sl_prefix lim)" "base = snd (sl_prefix lim)" "d = snd (sc_op cur)" "s = snd (sc_lit cur)"
    "l = fst (sl_lit_limit lim)"
  note c = exec_setup [OF lim cur ab ok(1,2)]
  obtain m1 where m1: "copy_literals w m (a, d) (l, s) ll = Inr m1" "moved m m1 a d l s ll"
    using copy_literals_ok [where m = m and a = a and l = l, OF c(4) [symmetric] c(10,11)] by blast
  have w1: "wrote m m1 a d (d + ll)" "\<forall>k < ll. m1 a ! (d + k) = m l ! (s + k)" using m1(2) by (auto simp: moved_def)
  have r: "p \<le> d + ll - base" "d + ll - base \<le> d + ll" "d + ll + ml + 31 \<le> length (m1 a)"
    using c(3,5,9) ok(4) wrote_length [OF w1(1)] by auto
  obtain m2 where m2: "wc_copy_match w m1 (a, d + ll) p ml (d + ll - base) = Inr m2" "wrote m1 m2 a (d + ll) (d + ll + ml)"
      "\<forall>k. d + ll \<le> k \<and> k < d + ll + ml \<longrightarrow> m2 a ! k = m2 a ! (k - p)"
    using segment_match_ok [where m = m1 and a = a, OF ok(3) r(1,2) ml r(3)] by blast
  have "\<not> d + ll - base \<le> wrapping_sub p 1" using sub_one_iff [OF p c(8)] r(1) ok(3) by simp
  then have eq: "exec_sequence_checked w EXT m cur lim ll ml p = Inr (m2, \<lparr>sc_op = padd (sc_op cur) (ll + ml), sc_lit = padd (sc_lit cur) ll\<rparr>)"
    using m1(1) m2(1) c(3,6,7) unfolding exec_sequence_checked_def Let_def c(1,2) by (simp add: ab(2) [symmetric] padd_pair)
  show ?thesis
  proof (rule exec_done [OF lim cur ab ok(1) c(6) _ _ ok(3) _ _ eq])
    show "wrote m m2 a d (d + ll + ml)" using wrote_trans [OF w1(1) m2(2)] by simp
    show "\<forall>k < ll. m2 a ! (d + k) = m l ! (s + k)" using w1(2) wrote_before [OF m2(2)] by simp
    show "p \<le> length hist + (length out + ll)" using ok(4) by simp
    show "m2 a ! k = (if p \<le> k - base then m2 a ! (k - p) else hist ! (length hist + (k - base) - p))" if k: "d + ll \<le> k" "k < d + ll + ml" for k
    proof -
      have pk: "p \<le> k - base" using k r(1) by simp
      show ?thesis unfolding if_P [OF pk] using m2(3) k by blast
    qed
  qed
qed

text \<open>The history under a match that starts \<open>back\<close> bytes before its end.\<close>

lemma history_bytes:
  assumes ext: "ext_ok m lim" "hist_at m lim cur hist" and off: "p \<le> sl_window lim \<or> eh_dict (sl_ext lim)"
    and c: "c = fst (eh_end (sl_ext lim))" "s = snd (eh_end (sl_ext lim)) - back" and bk: "1 \<le> back" "back \<le> length hist" "p = back + avail"
    and d: "d = snd (sl_prefix lim) + avail" "snd (sc_op cur) \<le> d" and w: "wrote m m' (fst (sl_prefix lim)) b d"
  shows "psub (eh_end (sl_ext lim)) back = Inr (c, s)" "s + back \<le> length (m' c)" "c \<noteq> fst (sl_prefix lim) \<or> d + 32 \<le> s"
    "\<And>k. k < back \<Longrightarrow> m' c ! (s + k) = hist ! (length hist - back + k)"
proof -
  let ?e = "sl_ext lim" and ?a = "fst (sl_prefix lim)"
  have e: "eh_len ?e \<le> snd (eh_end ?e)" "snd (eh_end ?e) \<le> length (m c)" "c \<noteq> ?a \<or> \<not> eh_dict ?e \<and> snd (sl_prefix lim) + sl_window lim + 32 < snd (eh_end ?e)"
    using ext(1) c(1) by (auto simp: ext_ok_def Let_def)
  have h: "length hist = eh_len ?e" "\<And>i. i < eh_len ?e \<Longrightarrow> c \<noteq> ?a \<or> snd (sc_op cur) + 31 \<le> snd (eh_end ?e) - eh_len ?e + i \<Longrightarrow>
      hist ! i = m c ! (snd (eh_end ?e) - eh_len ?e + i)"
    using ext(2) c(1) by (auto simp: hist_at_def Let_def)
  show "psub (eh_end ?e) back = Inr (c, s)" using bk e(1) h(1) c by (simp add: psub_def)
  show "s + back \<le> length (m' c)" using wrote_length [OF w, of c] e(1,2) bk h(1) c(2) by simp
  show far: "c \<noteq> ?a \<or> d + 32 \<le> s" using e(3) off bk d(1) c(2) by auto
  show "m' c ! (s + k) = hist ! (length hist - back + k)" if k: "k < back" for k
  proof -
    have i: "snd (eh_end ?e) - eh_len ?e + (length hist - back + k) = s + k" "length hist - back + k < eh_len ?e"
      using bk(1,2) e(1) h(1) c(2) k by auto
    have "m' c ! (s + k) = m c ! (s + k)"
      using far wrote_other [OF w, of c] wrote_after [OF w, of "s + k"] by (cases "c = ?a") auto
    also have "\<dots> = hist ! (length hist - back + k)" using h(2) [OF i(2)] far d(2) unfolding i(1) by auto
    finally show ?thesis .
  qed
qed


lemma exec_checked_history:
  assumes lim: "limits_ok m lim" and cur: "cursor_ok lim cur" "cursor_bytes m lim cur = (out, lits)" and ml: "1 \<le> ml"
    and ext: "ext_ok m lim" "hist_at m lim cur hist" and off: "p \<le> sl_window lim \<or> eh_dict (sl_ext lim)"
    and ok: "ll \<le> length lits" "length out + ll + ml \<le> snd (sl_oend_w lim) - snd (sl_prefix lim)"
    and p: "length out + ll < p" "p \<le> length out + ll + length hist" "p < 2 ^ 64"
  shows "exec_refines m lim cur (exec_sequence_checked w True m cur lim ll ml p)
    (Inr (drop (length hist) (lz_copy (hist @ out @ take ll lits) p ml), drop ll lits))"
proof -
  define a base d s l where ab: "a = fst (sl_prefix lim)" "base = snd (sl_prefix lim)" "d = snd (sc_op cur)" "s = snd (sc_lit cur)"
    "l = fst (sl_lit_limit lim)"
  note c = exec_setup [OF lim cur ab ok]
  obtain m1 where m1: "copy_literals w m (a, d) (l, s) ll = Inr m1" "moved m m1 a d l s ll"
    using copy_literals_ok [where m = m and a = a and l = l, OF c(4) [symmetric] c(10,11)] by blast
  have w1: "wrote m m1 a d (d + ll)" "\<forall>k < ll. m1 a ! (d + k) = m l ! (s + k)" using m1(2) by (auto simp: moved_def)
  define avail bk e es where "avail = d + ll - base" and "bk = p - avail" and e: "e = fst (eh_end (sl_ext lim))" "es = snd (eh_end (sl_ext lim)) - bk"
  have av: "avail = length out + ll" "base \<le> d + ll" "d + ll = snd (sl_prefix lim) + avail" using c(3,5) by (auto simp: avail_def ab(2))
  have bk: "1 \<le> bk" "bk \<le> length hist" "p = bk + avail" using p av by (auto simp: bk_def)
  have hb: "psub (eh_end (sl_ext lim)) bk = Inr (e, es)" "es + bk \<le> length (m1 e)" "e \<noteq> a \<or> d + ll + 32 \<le> es"
    "\<And>k. k < bk \<Longrightarrow> m1 e ! (es + k) = hist ! (length hist - bk + k)"
    using history_bytes [where m = m and m' = m1 and b = d, OF ext off e bk av(3)] w1(1) unfolding ab(1,3) [symmetric] by auto
  have elen: "eh_len (sl_ext lim) = length hist" using ext(2) by (simp add: hist_at_def Let_def)
  have l1: "d + ll + ml + 31 \<le> length (m1 a)" using c(9) wrote_length [OF w1(1)] by simp
  have "wrapping_sub p avail = bk" using wrapping_sub_ge [OF _ p(3), of avail] bk(3) by simp
  moreover have "avail \<le> wrapping_sub p 1" using sub_one_iff [OF p(3) c(8)] bk(1,3) by (simp add: avail_def)
  moreover have "p \<noteq> 0" "\<not> p < avail" using bk by auto
  ultimately have sub: "wrapping_sub p avail = bk" "avail \<le> wrapping_sub p 1" "p \<noteq> 0" "\<not> p < avail" by blast+
  let ?next = "\<lparr>sc_op = padd (sc_op cur) (ll + ml), sc_lit = padd (sc_lit cur) ll\<rparr>"
  have step: "m2 a ! k = (if p \<le> k - base then m2 a ! (k - p) else hist ! (length hist + (k - base) - p))"
    if "\<forall>j < min bk ml. m2 a ! (d + ll + j) = m1 e ! (es + j)"
      "\<forall>j. d + ll + min bk ml \<le> j \<and> j < d + ll + ml \<longrightarrow> m2 a ! j = m2 a ! (j - p)" and k: "d + ll \<le> k" "k < d + ll + ml" for m2 k
  proof (cases "p \<le> k - base")
    case True
    then have "d + ll + bk \<le> k" using bk(3) k(1) av(2) unfolding avail_def by arith
    then have "d + ll + min bk ml \<le> k" by simp
    then show ?thesis unfolding if_P [OF True] using that(2) k by blast
  next
    case False
    then have j: "k - (d + ll) < min bk ml" using bk(3) k av(2) by (auto simp: avail_def)
    then have "m2 a ! k = hist ! (length hist - bk + (k - (d + ll)))" using that(1) hb(4) [of "k - (d + ll)"] k by auto
    also have "length hist - bk + (k - (d + ll)) = length hist + (k - base) - p" using bk k av(2) by (auto simp: avail_def)
    finally show ?thesis using False by simp
  qed
  have "\<exists>m2. exec_sequence_checked w True m cur lim ll ml p = Inr (m2, ?next) \<and> wrote m1 m2 a (d + ll) (d + ll + ml)
    \<and> (\<forall>j < min bk ml. m2 a ! (d + ll + j) = m1 e ! (es + j))
    \<and> (\<forall>j. d + ll + min bk ml \<le> j \<and> j < d + ll + ml \<longrightarrow> m2 a ! j = m2 a ! (j - p))"
  proof (cases "ml + 32 \<le> bk")
    case True
    then have "es + ml + 31 \<le> length (m1 e)" using hb(2) by simp
    then obtain m2 where "wc_wildcopy w m1 (a, d + ll) (e, es) ml = Inr m2" "moved m1 m2 a (d + ll) e es ml"
      using history_match_ok [of a e "d + ll" es ml m1] hb(3) ml l1 by auto
    moreover have "exec_sequence_checked w True m cur lim ll ml p = res_bind (wc_wildcopy w m1 (a, d + ll) (e, es) ml) (\<lambda>m. Inr (m, ?next))"
      using m1(1) c(6,7) True bk(2) hb(1) sub av(2) elen unfolding exec_sequence_checked_def Let_def c(1,2) ab(2) [symmetric] WILDCOPY_OVERLENGTH_def
      by (simp add: padd_pair avail_def)
    moreover have "min bk ml = ml" using True by simp
    ultimately show ?thesis by (intro exI [of _ m2]) (auto simp: moved_def)
  next
    case False
    have ext_eq: "exec_sequence_ext w m (a, d) (l, s) (ll, ml, p) avail (sl_ext lim) = res_bind (ptr_copy m1 (e, es) (a, d + ll) (min bk ml))
        (\<lambda>m. if min bk ml < ml then wc_copy_match w m (padd (a, d + ll) (min bk ml)) p (ml - min bk ml) p else Inr m)"
      using m1(1) hb(1) sub(3,4) bk(2) elen unfolding exec_sequence_ext_def Let_def bk_def padd_pair by simp
    have "\<exists>m2. res_bind (ptr_copy m1 (e, es) (a, d + ll) (min bk ml))
        (\<lambda>m. if min bk ml < ml then wc_copy_match w m (padd (a, d + ll) (min bk ml)) p (ml - min bk ml) p else Inr m) = Inr m2
      \<and> wrote m1 m2 a (d + ll) (d + ll + ml) \<and> (\<forall>j < min bk ml. m2 a ! (d + ll + j) = m1 e ! (es + j))
      \<and> (\<forall>j. d + ll + min bk ml \<le> j \<and> j < d + ll + ml \<longrightarrow> m2 a ! j = m2 a ! (j - p))"
      using straddling_match_ok [where m = m1 and a = a and c = e, OF _ bk(1) refl hb(2) _ av(2) ml l1] hb(3) bk(3) by (auto simp: avail_def)
    then obtain m2 where m2: "exec_sequence_ext w m (a, d) (l, s) (ll, ml, p) avail (sl_ext lim) = Inr m2" "wrote m1 m2 a (d + ll) (d + ll + ml)"
      "\<forall>j < min bk ml. m2 a ! (d + ll + j) = m1 e ! (es + j)"
      "\<forall>j. d + ll + min bk ml \<le> j \<and> j < d + ll + ml \<longrightarrow> m2 a ! j = m2 a ! (j - p)"
      unfolding ext_eq by blast
    then show ?thesis using False c(6,7) sub av(2) elen m2(2-4)
      unfolding exec_sequence_checked_def Let_def c(1,2) ab(2) [symmetric] WILDCOPY_OVERLENGTH_def
      by (intro exI [of _ m2]) (simp add: avail_def)
  qed
  then obtain m2 where eq: "exec_sequence_checked w True m cur lim ll ml p = Inr (m2, ?next)" and w2: "wrote m1 m2 a (d + ll) (d + ll + ml)"
    and st: "\<forall>j < min bk ml. m2 a ! (d + ll + j) = m1 e ! (es + j)"
      "\<forall>j. d + ll + min bk ml \<le> j \<and> j < d + ll + ml \<longrightarrow> m2 a ! j = m2 a ! (j - p)" by blast
  show ?thesis
  proof (rule exec_done [OF lim cur ab ok(1) c(6) _ _ _ _ step [of m2, OF st] eq])
    show "wrote m m2 a d (d + ll + ml)" using wrote_trans [OF w1(1) w2] by simp
    show "\<forall>k < ll. m2 a ! (d + k) = m l ! (s + k)" using w1(2) wrote_before [OF w2] by simp
  qed (use p bk in auto)
qed


lemma exec_checked_error:
  assumes lim: "limits_ok m lim" and cur: "cursor_ok lim cur" "cursor_bytes m lim cur = (out, lits)"
    and ext: "EXT \<Longrightarrow> ext_ok m lim \<and> hist_at m lim cur hist" and p: "p < 2 ^ 64"
    and e: "seq_result EXT (eh_dict (sl_ext lim)) (2 ^ 64) hist (snd (sl_oend_w lim) - snd (sl_prefix lim)) (out, lits) (ll, ml, p) = Inl e"
  shows "exec_sequence_checked w EXT m cur lim ll ml p = Inl (Err (SeqError e))"
proof -
  define a base d s l where ab: "a = fst (sl_prefix lim)" "base = snd (sl_prefix lim)" "d = snd (sc_op cur)" "s = snd (sc_lit cur)"
    "l = fst (sl_lit_limit lim)"
  have li: "s \<le> snd (sl_lit_limit lim)" "d \<le> snd (sl_oend_w lim)" "base \<le> d"
    using cur(1) unfolding cursor_ok_def by (simp_all add: ab)
  have limit: "snd (sl_oend_w lim) < 2 ^ 63" "snd (sl_oend_w lim) \<le> length (m a)" "snd (sl_lit_limit lim) \<le> length (m l)"
    using lim by (simp_all add: limits_ok_def Let_def ab)
  have out: "length out = d - base" "length lits = snd (sl_lit_limit lim) - s"
    using cur(2) limit(2,3) li unfolding cursor_bytes_def ab [symmetric] by auto
  have c: "sc_op cur = (a, d)" "sc_lit cur = (l, s)"
    using cur(1) unfolding cursor_ok_def by (simp_all add: ab prod_eq_iff)
  show ?thesis
  proof (cases "snd (sl_lit_limit lim) < s + ll \<or> snd (sl_oend_w lim) < d + ll + ml")
    case True
    then have big: "length lits < ll \<or> \<not> length lits < ll \<and> snd (sl_oend_w lim) - base < length out + ll + ml" using li out by auto
    then have "e = (if length lits < ll then NotEnoughLiterals else BlockTooLarge)"
      using e p unfolding seq_result_def Let_def ab(2) [symmetric] by auto
    moreover have "length lits < ll \<longleftrightarrow> snd (sl_lit_limit lim) < s + ll" using li out by auto
    ultimately show ?thesis using True unfolding exec_sequence_checked_def Let_def c
      by (cases "snd (sl_lit_limit lim) < s + ll") (simp_all add: seq_fail_def)
  next
    case False
    then have av: "d + ll - base < 2 ^ 63" "\<not> length lits < ll" "\<not> snd (sl_oend_w lim) - base < length out + ll + ml" "d + ll - base = length out + ll"
      using limit li out by auto
    have bad: "p = 0 \<or> length out + ll < p" "EXT \<Longrightarrow> p = 0 \<or> length out + ll + length hist < p"
      "e = (if p \<noteq> 0 \<and> EXT \<and> eh_dict (sl_ext lim) then OffsetBeforeDict else OffsetTooFar)"
      using e p av(2,3) unfolding seq_result_def Let_def ab(2) [symmetric] by (auto split: if_splits)
    have cond: "d + ll - base \<le> wrapping_sub p 1" using sub_one_iff [OF p av(1)] bad(1) av(4) by auto
    show ?thesis
    proof (cases EXT)
      case False
      then show ?thesis using \<open>\<not> (_ \<or> _)\<close> cond bad(3) li
        unfolding exec_sequence_checked_def Let_def c(1,2) ab(2) [symmetric] by (simp add: seq_fail_def)
    next
      case True
      have len: "eh_len (sl_ext lim) = length hist" "length hist < 2 ^ 63"
        using ext True by (auto simp: hist_at_def ext_ok_def Let_def)
      have far: "\<not> (wrapping_sub p (d + ll - base) \<le> length hist \<and> ml + 32 \<le> wrapping_sub p (d + ll - base))"
      proof (cases "p = 0")
        case True
        then show ?thesis using wrapping_sub_zero [OF av(1)] len by auto
      next
        case False
        then show ?thesis using bad(2) [OF \<open>EXT\<close>] wrapping_sub_ge [OF _ p, of "d + ll - base"] av(4) by auto
      qed
      have "exec_sequence_ext w m (a, d) (l, s) (ll, ml, p) (d + ll - base) (sl_ext lim) = Inl (Err (SeqError e))"
        using bad True av(4) len unfolding exec_sequence_ext_def Let_def by (auto simp: seq_fail_def)
      then show ?thesis using True \<open>\<not> (_ \<or> _)\<close> cond li far len
        unfolding exec_sequence_checked_def Let_def c(1,2) ab(2) [symmetric] WILDCOPY_OVERLENGTH_def by auto
    qed
  qed
qed

lemma exec_checked_ok:
  assumes lim: "limits_ok m lim" and cur: "cursor_ok lim cur" and ml: "1 \<le> ml" and p: "p < 2 ^ 64"
    and ext: "EXT \<Longrightarrow> ext_ok m lim \<and> hist_at m lim cur hist"
    and off: "p \<le> sl_window lim \<or> EXT \<and> eh_dict (sl_ext lim)"
  shows "exec_refines m lim cur (exec_sequence_checked w EXT m cur lim ll ml p)
    (seq_result EXT (eh_dict (sl_ext lim)) (2 ^ 64) hist (snd (sl_oend_w lim) - snd (sl_prefix lim)) (cursor_bytes m lim cur) (ll, ml, p))"
proof -
  obtain out lits where b: "cursor_bytes m lim cur = (out, lits)" by (cases "cursor_bytes m lim cur")
  let ?r = "seq_result EXT (eh_dict (sl_ext lim)) (2 ^ 64) hist (snd (sl_oend_w lim) - snd (sl_prefix lim)) (out, lits) (ll, ml, p)"
  show ?thesis
  proof (cases ?r)
    case (Inl e)
    then show ?thesis using exec_checked_error [OF lim cur b ext p Inl] by (simp add: b exec_refines_def)
  next
    case (Inr s)
    then have ok: "ll \<le> length lits" "length out + ll + ml \<le> snd (sl_oend_w lim) - snd (sl_prefix lim)" "1 \<le> p"
      and reach: "p \<le> length out + ll \<or> EXT \<and> p \<le> length out + ll + length hist"
      using p unfolding seq_result_def Let_def by (auto simp: Suc_le_eq split: if_splits)
    define h where "h = (if EXT then hist else [])"
    have r: "?r = Inr (drop (length h) (lz_copy (h @ out @ take ll lits) p ml), drop ll lits)"
      using ok reach p unfolding seq_result_def Let_def h_def by auto
    show ?thesis
    proof (cases "p \<le> length out + ll")
      case True
      from exec_checked_segment [OF lim cur b ml ok this p, of EXT h] show ?thesis unfolding b r .
    next
      case False
      then have "EXT" "length out + ll < p" "p \<le> length out + ll + length hist" using reach by auto
      then show ?thesis
        using exec_checked_history [OF lim cur b ml _ _ _ ok(1,2) _ _ p] ext off r unfolding b h_def by auto
    qed
  qed
qed

lemma exec_sequence_ok:
  assumes lim: "limits_ok m lim" and cur: "cursor_ok lim cur" and ml: "1 \<le> ml" and p: "p < 2 ^ 64"
    and ext: "EXT \<Longrightarrow> ext_ok m lim \<and> hist_at m lim cur hist"
  shows "exec_refines m lim cur (exec_sequence w EXT m cur lim ll ml p)
    (seq_result EXT (eh_dict (sl_ext lim)) (sl_window lim) hist (snd (sl_oend_w lim) - snd (sl_prefix lim)) (cursor_bytes m lim cur) (ll, ml, p))"
proof -
  obtain out lits where b: "cursor_bytes m lim cur = (out, lits)" by (cases "cursor_bytes m lim cur")
  have c: "snd (sl_prefix lim) \<le> snd (sc_op cur)" "snd (sc_op cur) \<le> snd (sl_oend_w lim)" using cur by (auto simp: cursor_ok_def)
  have "snd (sl_oend_w lim) \<le> length (m (fst (sl_prefix lim)))" using lim by (simp add: limits_ok_def Let_def)
  then have av: "snd (sc_op cur) + ll - snd (sl_prefix lim) = length out + ll" using b c by (auto simp: cursor_bytes_def)
  have any: "exec_sequence_checked w True m cur (lim\<lparr>sl_window := x\<rparr>) ll ml p = exec_sequence_checked w True m cur lim ll ml p" for x
    unfolding exec_sequence_checked_def Let_def by simp
  have wide: "seq_result EXT dict W hist n (out, lits) (ll, ml, p) = seq_result EXT dict (2 ^ 64) hist n (out, lits) (ll, ml, p)"
    if "p \<le> W \<or> EXT \<and> dict \<and> length out + ll \<le> W" for dict n W
    using that p by (auto simp: seq_result_def)
  show ?thesis
  proof (cases "p \<le> sl_window lim \<or> EXT \<and> eh_dict (sl_ext lim) \<and> length out + ll \<le> sl_window lim")
    case True
    then have eq: "exec_sequence w EXT m cur lim ll ml p = exec_sequence_checked w EXT m cur lim ll ml p"
      using c av any by (auto simp: exec_sequence_def exec_sequence_past_window_def)
    show ?thesis using exec_checked_ok [OF lim cur ml p ext, where ll = ll] True unfolding b wide [OF True] eq by blast
  next
    case False
    then show ?thesis using c av b
      by (auto simp: exec_refines_def seq_result_def exec_sequence_def exec_sequence_past_window_def seq_fail_def)
  qed
qed

end

text \<open>C28: executing a sequence refines LZ77.  With any of the four implementations of the copies, under the
  contracts of the limits, the cursor and the history, \<open>exec_sequence\<close> returns exactly what the sequence
  means on bytes: the error of \<open>seq_result\<close>, or the advanced cursor under which the segment has the literals
  and the match appended and the literals left are the rest.  Nothing before the old cursor changes, and at
  most 31 bytes past the new one; a match may start in the history and run on into the segment.\<close>

theorem exec_sequence_correct:
  assumes "w = Fallback \<or> w = FallbackShortOffsets \<or> w = Avx2 \<or> w = Avx2ShortOffsets"
    and "limits_ok m lim" and "cursor_ok lim cur" and "1 \<le> ml" and "offset < 2 ^ 64"
    and "EXT \<Longrightarrow> ext_ok m lim \<and> hist_at m lim cur hist"
  shows "case seq_result EXT (eh_dict (sl_ext lim)) (sl_window lim) hist (snd (sl_oend_w lim) - snd (sl_prefix lim))
      (cursor_bytes m lim cur) (ll, ml, offset) of
      Inl e \<Rightarrow> exec_sequence w EXT m cur lim ll ml offset = Inl (Err (SeqError e))
    | Inr s \<Rightarrow> \<exists>m' cur'. exec_sequence w EXT m cur lim ll ml offset = Inr (m', cur') \<and> cursor_ok lim cur' \<and> cursor_bytes m' lim cur' = s
        \<and> snd (sc_op cur) \<le> snd (sc_op cur') \<and> snd (sc_lit cur) \<le> snd (sc_lit cur')
          \<and> wrote m m' (fst (sl_prefix lim)) (snd (sc_op cur)) (snd (sc_op cur'))"
  using assms(1) fallback.exec_sequence_ok [OF assms(2-6)] fallback_short.exec_sequence_ok [OF assms(2-6)]
    avx2.exec_sequence_ok [OF assms(2-6)] avx2_short.exec_sequence_ok [OF assms(2-6)]
  unfolding exec_refines_def by blast

definition exec_example :: seq_limits where
  "exec_example = \<lparr>sl_oend_w = (0, 100), sl_lit_limit = (1, 50), sl_prefix = (0, 0), sl_ext = ExtHistory_dict (2, 0) 20, sl_window = 12\<rparr>"

lemma exec_example_simps:
  "sl_oend_w exec_example = (0, 100)" "sl_prefix exec_example = (0, 0)" "sl_ext exec_example = ExtHistory_dict (2, 0) 20" "sl_window exec_example = 12"
  "eh_dict (ExtHistory_dict (2, 0) 20)" "limits_ok (\<lambda>_. replicate 200 7) exec_example" "ext_ok (\<lambda>_. replicate 200 7) exec_example"
  "cursor_ok exec_example \<lparr>sc_op = (0, 10), sc_lit = (1, 0)\<rparr>"
  "hist_at (\<lambda>_. replicate 200 7) exec_example \<lparr>sc_op = (0, 10), sc_lit = (1, 0)\<rparr> (replicate 20 7)"
  "cursor_bytes (\<lambda>_. replicate 200 7) exec_example \<lparr>sc_op = (0, 10), sc_lit = (1, 0)\<rparr> = (replicate 10 7, replicate 50 7)"
  by (simp_all add: exec_example_def limits_ok_def cursor_ok_def ext_ok_def hist_at_def cursor_bytes_def bytes_def ExtHistory_dict_def padd_def)

theorem exec_sequence_correct_witness:
  "case seq_result True True 12 (replicate 20 7) 100
      (replicate 10 7, replicate 50 7) (2, 5, 30) of
      Inl e \<Rightarrow> exec_sequence Avx2ShortOffsets True (\<lambda>_. replicate 200 7) \<lparr>sc_op = (0, 10), sc_lit = (1, 0)\<rparr> exec_example 2 5 30 = Inl (Err (SeqError e))
    | Inr s \<Rightarrow> \<exists>m' cur'. exec_sequence Avx2ShortOffsets True (\<lambda>_. replicate 200 7) \<lparr>sc_op = (0, 10), sc_lit = (1, 0)\<rparr> exec_example 2 5 30 = Inr (m', cur')
        \<and> cursor_ok exec_example cur' \<and> cursor_bytes m' exec_example cur' = s \<and> 10 \<le> snd (sc_op cur')
        \<and> wrote (\<lambda>_. replicate 200 7) m' 0 10 (snd (sc_op cur'))"
  using exec_sequence_correct [where w = Avx2ShortOffsets and m = "\<lambda>_. replicate 200 7" and lim = exec_example and EXT = True
      and cur = "\<lparr>sc_op = (0, 10), sc_lit = (1, 0)\<rparr>" and ll = 2 and ml = 5 and offset = 30 and hist = "replicate 20 7"]
  by (auto simp: exec_example_simps [unfolded One_nat_def] split: sum.splits)

end
