(* ===== verification/Sequence_Decode.thy ===== *)
theory Sequence_Decode
  imports Sequence_Exec Sequence_Tables Bit_Reader
begin

text \<open>
  Decoding and executing a block's sequences (\<open>src/src/decode.rs\<close>): \<open>decode_sequence\<close>, the loop
  \<open>run_sequences\<close>, and \<open>execute_with\<close>, which picks the copies.

  The specification reads the fields of RFC 8878 one after the other from the end of the bit stream
  (\<open>spec_sequence\<close>), resolves offsets by the repeat-offset rules (\<open>rfc_offset\<close>) and executes each sequence
  on bytes (\<open>seq_result\<close>).  The code reads through a 64-bit window and checks for an overrun only at the end;
  the proofs carry the position as an option that is lost once the stream is overrun.
\<close>

section \<open>The code\<close>

definition MAX_BLOCK_SIZE :: nat where
  "MAX_BLOCK_SIZE = 128 * 1024"

record seq_state =
  ss_ll :: nat
  ss_ml :: nat
  ss_of :: nat
  ss_hist :: "nat list"

text \<open>The offset and the repeat-offset history, an array of three.\<close>

definition decode_offset :: "fse_entry \<Rightarrow> nat \<Rightarrow> nat list \<Rightarrow> bit_dstream \<Rightarrow> nat \<times> nat list \<times> bit_dstream" where
  "decode_offset of_e ll hist br =
     (if 1 < extra_bits of_e then
        let (v, br) = read_bits_fast br (extra_bits of_e);
            o' = base_value of_e + v in
        (o', [o', hist ! 0, hist ! 1], br)
      else
        let ll0 = (if ll = 0 then 1 else 0) in
        if extra_bits of_e = 0 then
          let o' = hist ! ll0 in (o', [o', hist ! (1 - ll0), hist ! 2], br)
        else
          let (v, br) = read_bits_fast br 1;
              o' = 1 + ll0 + v;
              temp = (if o' = 3 then wrapping_sub (hist ! 0) 1 else hist ! o');
              temp = (if temp = 0 then 2 ^ 64 - 1 else temp) in
          (temp, [temp, hist ! 0, if o' \<noteq> 1 then hist ! 1 else hist ! 2], br))"

definition reload_ds :: "bit_dstream \<Rightarrow> bit_dstream res" where
  "reload_ds br = res_bind (reload br) (\<lambda>(status, br). Inr br)"

text \<open>The bits added to a base: none when the code has none.\<close>

definition add_extra :: "nat \<Rightarrow> nat \<Rightarrow> bit_dstream \<Rightarrow> nat \<times> bit_dstream" where
  "add_extra x n br = (if 0 < n then let (v, br) = read_bits_fast br n in (x + v, br) else (x, br))"

text \<open>Offset, match length, literals length; the reload keeps 26 bits for the state updates.\<close>

definition decode_values :: "bit_dstream \<Rightarrow> fse_entry \<Rightarrow> fse_entry \<Rightarrow> fse_entry \<Rightarrow> nat list \<Rightarrow> ((nat \<times> nat \<times> nat) \<times> nat list \<times> bit_dstream) res" where
  "decode_values br ll_e ml_e of_e hist =
     (let total_bits = extra_bits ll_e + extra_bits ml_e + extra_bits of_e;
          (offset, hist, br) = decode_offset of_e (base_value ll_e) hist br;
          (ml, br) = add_extra (base_value ml_e) (extra_bits ml_e) br in
      res_bind (if 57 - 26 \<le> total_bits then reload_ds br else Inr br) (\<lambda>br.
      let (ll, br) = add_extra (base_value ll_e) (extra_bits ll_e) br in
      Inr ((ll, ml, offset), hist, br)))"

definition next_states :: "bit_dstream \<Rightarrow> fse_entry \<Rightarrow> fse_entry \<Rightarrow> fse_entry \<Rightarrow> ((nat \<times> nat \<times> nat) \<times> bit_dstream) res" where
  "next_states br ll_e ml_e of_e =
     (let (vl, br) = read_bits br (num_bits ll_e);
          (vm, br) = read_bits br (num_bits ml_e);
          (vo, br) = read_bits br (num_bits of_e) in
      res_bind (reload_ds br) (\<lambda>br.
      Inr ((next_state ll_e + vl, next_state ml_e + vm, next_state of_e + vo), br)))"

definition decode_sequence :: "bit_dstream \<Rightarrow> seq_state \<Rightarrow> fse_entry list \<Rightarrow> fse_entry list \<Rightarrow> fse_entry list \<Rightarrow> bool
    \<Rightarrow> ((nat \<times> nat \<times> nat) \<times> bit_dstream \<times> seq_state) res" where
  "decode_sequence br st ll_dt ml_dt of_dt is_last =
     res_bind (table_entry ll_dt (ss_ll st)) (\<lambda>ll_e.
     res_bind (table_entry ml_dt (ss_ml st)) (\<lambda>ml_e.
     res_bind (table_entry of_dt (ss_of st)) (\<lambda>of_e.
     res_bind (decode_values br ll_e ml_e of_e (ss_hist st)) (\<lambda>(sq, hist, br).
     if is_last then Inr (sq, br, st\<lparr>ss_hist := hist\<rparr>)
     else
       res_bind (next_states br ll_e ml_e of_e) (\<lambda>((ll, ml, f), br).
       Inr (sq, br, \<lparr>ss_ll = ll, ss_ml = ml, ss_of = f, ss_hist = hist\<rparr>))))))"

text \<open>\<open>Dst\<close> and \<open>SeqInput\<close>: the literals are a slice of memory, \<open>WILDCOPY_OVERLENGTH\<close> bytes of slack included.\<close>

record dst =
  d_base :: ptr
  d_op :: nat
  d_window :: nat

record seq_input =
  si_num_sequences :: nat
  si_bit_stream :: "u8 list"
  si_fse :: "fse_table \<times> fse_table \<times> fse_table"
  si_literals :: ptr
  si_literals_len :: nat

text \<open>The sequences of a block: \<open>n\<close> of them, the last one without a state update.\<close>

fun sequence_loop :: "wild_ops \<Rightarrow> bool \<Rightarrow> seq_limits \<Rightarrow> fse_entry list \<times> fse_entry list \<times> fse_entry list \<Rightarrow> nat
    \<Rightarrow> mem \<Rightarrow> bit_dstream \<Rightarrow> seq_state \<Rightarrow> seq_cursor \<Rightarrow> (mem \<times> bit_dstream \<times> seq_state \<times> seq_cursor) res" where
  "sequence_loop w EXT lim dts 0 m br st cur = Inr (m, br, st, cur)"
| "sequence_loop w EXT lim (ll_dt, of_dt, ml_dt) (Suc n) m br st cur =
     res_bind (decode_sequence br st ll_dt ml_dt of_dt (n = 0)) (\<lambda>((ll, ml, offset), br, st).
     res_bind (exec_sequence w EXT m cur lim ll ml offset) (\<lambda>(m, cur).
     sequence_loop w EXT lim (ll_dt, of_dt, ml_dt) n m br st cur))"

text \<open>The limits and the cursor of a block.\<close>

definition run_limits :: "seq_input \<Rightarrow> ext_history \<Rightarrow> dst \<Rightarrow> seq_limits" where
  "run_limits seqs ext d =
     \<lparr>sl_oend_w = padd (d_base d) (d_op d + MAX_BLOCK_SIZE), sl_lit_limit = padd (si_literals seqs) (si_literals_len seqs - WILDCOPY_OVERLENGTH),
      sl_prefix = d_base d, sl_ext = ext, sl_window = d_window d\<rparr>"

definition run_cursor :: "seq_input \<Rightarrow> dst \<Rightarrow> seq_cursor" where
  "run_cursor seqs d = \<lparr>sc_op = padd (d_base d) (d_op d), sc_lit = si_literals seqs\<rparr>"

text \<open>The states at the start of the stream, in the order LL, OF, ML, each followed by a reload.\<close>

definition init_states :: "u8 list \<Rightarrow> nat \<Rightarrow> nat \<Rightarrow> nat \<Rightarrow> ((nat \<times> nat \<times> nat) \<times> bit_dstream) res" where
  "init_states src a b c =
     res_bind (ds_new src) (\<lambda>br.
      let (x, br) = read_bits br a in
      res_bind (reload_ds br) (\<lambda>br.
      let (y, br) = read_bits br b in
      res_bind (reload_ds br) (\<lambda>br.
      let (z, br) = read_bits br c in
      res_bind (reload_ds br) (\<lambda>br. Inr ((x, y, z), br)))))"

text \<open>The end of a block: all bits used, and the literals left copied.\<close>

definition finish_block :: "seq_input \<Rightarrow> dst \<Rightarrow> mem \<times> bit_dstream \<times> seq_state \<times> seq_cursor \<Rightarrow> (mem \<times> nat \<times> nat list) res" where
  "finish_block seqs d r =
     (let (m, br, st, cur) = r; op = snd (sc_op cur) - snd (d_base d); lit_pos = snd (sc_lit cur) - snd (si_literals seqs) in
      if \<not> is_finished br then Inl (Err (SectionError SequenceStreamLeft))
      else
        let rest = si_literals_len seqs - WILDCOPY_OVERLENGTH - lit_pos in
        if d_op d + MAX_BLOCK_SIZE < op + rest then seq_fail BlockTooLarge
        else
          res_bind (copy_nonoverlapping m (padd (si_literals seqs) lit_pos) (padd (d_base d) op) rest) (\<lambda>m.
          Inr (m, op + rest, map (\<lambda>h. h mod 2 ^ 32) (ss_hist st))))"

text \<open>\<open>for _ in 1..num_sequences\<close> and the last sequence after it: one sequence at least.\<close>

definition run_sequences :: "wild_ops \<Rightarrow> bool \<Rightarrow> seq_input \<Rightarrow> ext_history \<Rightarrow> nat list \<Rightarrow> dst \<Rightarrow> mem \<Rightarrow> (mem \<times> nat \<times> nat list) res" where
  "run_sequences w EXT seqs ext offset_hist d m =
     (let (ll_t, of_t, ml_t) = si_fse seqs in
      res_bind (fse_decode ll_t) (\<lambda>ll_dt.
      res_bind (fse_decode of_t) (\<lambda>of_dt.
      res_bind (fse_decode ml_t) (\<lambda>ml_dt.
      if length ll_dt \<noteq> 2 ^ accuracy_log ll_t \<or> length of_dt \<noteq> 2 ^ accuracy_log of_t \<or> length ml_dt \<noteq> 2 ^ accuracy_log ml_t
      then Inl (Err (FseError FseUninitialized))
      else if si_literals_len seqs < WILDCOPY_OVERLENGTH then Inl Panic
      else
        res_bind (init_states (si_bit_stream seqs) (accuracy_log ll_t) (accuracy_log of_t) (accuracy_log ml_t)) (\<lambda>((ll, f, ml), br).
        res_bind (sequence_loop w EXT (run_limits seqs ext d) (ll_dt, of_dt, ml_dt) (max 1 (si_num_sequences seqs)) m br
            \<lparr>ss_ll = ll, ss_ml = ml, ss_of = f, ss_hist = offset_hist\<rparr> (run_cursor seqs d))
          (finish_block seqs d))))))"

text \<open>\<open>BlockSequences::execute\<close> of \<open>SeqInput\<close> and of \<open>ExtSeqInput\<close>; \<open>execute_portable\<close> and \<open>execute_avx2\<close> only
  compile it for their target.\<close>

datatype block_sequences = SeqInput seq_input | ExtSeqInput seq_input ext_history

fun execute :: "block_sequences \<Rightarrow> wild_ops \<Rightarrow> nat list \<Rightarrow> dst \<Rightarrow> mem \<Rightarrow> (mem \<times> nat \<times> nat list) res" where
  "execute (SeqInput seqs) w offset_hist d m = run_sequences w False seqs ExtHistory_NONE offset_hist d m"
| "execute (ExtSeqInput seqs ext) w offset_hist d m = run_sequences w True seqs ext offset_hist d m"

datatype simd_level = LevelAvx2 | LevelOther

definition execute_with :: "simd_level \<Rightarrow> bool \<Rightarrow> block_sequences \<Rightarrow> nat list \<Rightarrow> nat \<Rightarrow> dst \<Rightarrow> mem \<Rightarrow> (mem \<times> nat \<times> nat list) res" where
  "execute_with simd short seqs offset_hist block_size_max d m =
     (let w = (case simd of
         LevelAvx2 \<Rightarrow> if short then Avx2ShortOffsets else Avx2
       | LevelOther \<Rightarrow> if short then FallbackShortOffsets else Fallback) in
      res_bind (execute seqs w offset_hist d m) (\<lambda>(m, e, hist).
      if block_size_max < e - d_op d then Inl (Err (SectionError (BlockDecodesPast (e - d_op d) block_size_max)))
      else Inr (m, e, hist)))"

definition execute_with_copies :: "simd_level \<Rightarrow> fse_table \<Rightarrow> block_sequences \<Rightarrow> nat list \<Rightarrow> nat \<Rightarrow> dst \<Rightarrow> mem \<Rightarrow> (mem \<times> nat \<times> nat list) res" where
  "execute_with_copies simd offsets seqs offset_hist block_size_max d m =
     res_bind (short_offset_share offsets) (\<lambda>share.
     execute_with simd (SHORT_OFFSET_SHARE_MIN \<le> share) seqs offset_hist block_size_max d m)"

section \<open>What the sequences of a block mean\<close>

text \<open>The offset of an Offset_Value (RFC 8878, 3.1.1.5): new offsets above 3, repeat offsets up to 3, shifted by
  one when there are no literals.\<close>

definition rfc_offset :: "nat \<Rightarrow> nat \<Rightarrow> nat list \<Rightarrow> nat \<times> nat list" where
  "rfc_offset v ll hist =
     (if 3 < v then (v - 3, [v - 3, hist ! 0, hist ! 1])
      else
        let i = v - 1 + (if ll = 0 then 1 else 0) in
        if i = 0 then (hist ! 0, hist)
        else let o' = (if i < 3 then hist ! i else hist ! 0 - 1) in
             (o', [o', hist ! 0, if i = 1 then hist ! 2 else hist ! 1]))"

text \<open>One sequence from the bits below \<open>P\<close>: offset, match length, literals length, then the next states; nothing
  when the stream has fewer bits.\<close>

definition spec_sequence :: "u8 list \<Rightarrow> fse_entry list \<times> fse_entry list \<times> fse_entry list \<Rightarrow> bool \<Rightarrow> nat \<Rightarrow> seq_state
    \<Rightarrow> ((nat \<times> nat \<times> nat) \<times> nat \<times> seq_state) option" where
  "spec_sequence src dts is_last P st =
     (let (ll_dt, of_dt, ml_dt) = dts; l = ll_dt ! ss_ll st; m = ml_dt ! ss_ml st; f = of_dt ! ss_of st;
          need = extra_bits f + extra_bits m + extra_bits l + (if is_last then 0 else num_bits l + num_bits m + num_bits f) in
      if P < need then None
      else
        let P1 = P - extra_bits f; P2 = P1 - extra_bits m; P3 = P2 - extra_bits l;
            P4 = P3 - num_bits l; P5 = P4 - num_bits m; P6 = P5 - num_bits f;
            ll = base_value l + stream_bits src P3 (extra_bits l);
            ml = base_value m + stream_bits src P2 (extra_bits m);
            (offset, hist) = rfc_offset (2 ^ extra_bits f + stream_bits src P1 (extra_bits f)) ll (ss_hist st) in
        Some ((ll, ml, offset),
          if is_last then (P3, st\<lparr>ss_hist := hist\<rparr>)
          else (P6, \<lparr>ss_ll = next_state l + stream_bits src P4 (num_bits l), ss_ml = next_state m + stream_bits src P5 (num_bits m),
                     ss_of = next_state f + stream_bits src P6 (num_bits f), ss_hist = hist\<rparr>)))"

text \<open>The sequences of a block, executed one after the other on the segment and the literals.\<close>

fun spec_sequences :: "(u8 list \<times> u8 list \<Rightarrow> nat \<times> nat \<times> nat \<Rightarrow> seq_error + (u8 list \<times> u8 list)) \<Rightarrow> u8 list
    \<Rightarrow> fse_entry list \<times> fse_entry list \<times> fse_entry list \<Rightarrow> nat \<Rightarrow> nat \<Rightarrow> seq_state \<Rightarrow> u8 list \<times> u8 list
    \<Rightarrow> (nat \<times> seq_state \<times> u8 list \<times> u8 list) option" where
  "spec_sequences ex src dts 0 P st s = Some (P, st, s)"
| "spec_sequences ex src dts (Suc n) P st s =
     (case spec_sequence src dts (n = 0) P st of
        None \<Rightarrow> None
      | Some (sq, P', st') \<Rightarrow> (case ex s sq of Inl e \<Rightarrow> None | Inr s' \<Rightarrow> spec_sequences ex src dts n P' st' s'))"

definition table_cells :: "fse_table \<Rightarrow> fse_entry list" where
  "table_cells t = take (tsize t) (cells t)"

text \<open>The block: the initial states, the sequences, all bits used, then the literals left.\<close>

definition spec_block :: "(u8 list \<times> u8 list \<Rightarrow> nat \<times> nat \<times> nat \<Rightarrow> seq_error + (u8 list \<times> u8 list)) \<Rightarrow> u8 list
    \<Rightarrow> fse_table \<times> fse_table \<times> fse_table \<Rightarrow> nat \<Rightarrow> nat \<Rightarrow> nat list \<Rightarrow> u8 list \<times> u8 list \<Rightarrow> (u8 list \<times> nat list) option" where
  "spec_block ex src fse n limit offset_hist s =
     (let (ll_t, of_t, ml_t) = fse; P0 = bit_length (le_nat src) - 1;
          P1 = P0 - accuracy_log ll_t; P2 = P1 - accuracy_log of_t; P3 = P2 - accuracy_log ml_t in
      if src = [] \<or> last src = 0 \<or> P0 < accuracy_log ll_t + accuracy_log of_t + accuracy_log ml_t then None
      else
        case spec_sequences ex src (table_cells ll_t, table_cells of_t, table_cells ml_t) n P3
          \<lparr>ss_ll = stream_bits src P1 (accuracy_log ll_t), ss_ml = stream_bits src P3 (accuracy_log ml_t),
           ss_of = stream_bits src P2 (accuracy_log of_t), ss_hist = offset_hist\<rparr> s of
          None \<Rightarrow> None
        | Some (P, st, out, lits) \<Rightarrow>
            if P \<noteq> 0 \<or> limit < length out + length lits then None
            else Some (out @ lits, map (\<lambda>h. h mod 2 ^ 32) (ss_hist st)))"

section \<open>Reading through the window\<close>

text \<open>The position after \<open>n\<close> more bits, lost for good once the stream is overrun.\<close>

fun eat :: "nat \<Rightarrow> nat option \<Rightarrow> nat option" where
  "eat n (Some P) = (if n \<le> P then Some (P - n) else None)"
| "eat n None = None"

lemma eat_Some: "eat n p = Some Q \<longleftrightarrow> p = Some (Q + n)"
  by (cases p) auto

lemma eat_add: "eat a (eat b p) = eat (b + a) p"
  by (cases p) auto

lemma eat_0 [simp]: "eat 0 p = p"
  by (cases p) auto

text \<open>The reader at a position, with at least \<open>k\<close> bits before the next reload or its window at the start.\<close>

definition rds :: "nat \<Rightarrow> bit_dstream \<Rightarrow> u8 list \<Rightarrow> nat option \<Rightarrow> bool" where
  "rds k br src p \<longleftrightarrow> ds_inv br \<and> ds_src br = src \<and>
     (case p of None \<Rightarrow> 64 < bits_consumed br
      | Some P \<Rightarrow> bits_consumed br \<le> 64 \<and> ds_left br = int P \<and> (bits_consumed br + k \<le> 64 \<or> ds_ptr br = 0))"

lemma rds_skip:
  assumes "rds k br src p" and "n \<le> k"
  shows "rds (k - n) (skip_bits br n) src (eat n p)"
  using assms by (cases p) (auto simp: rds_def ds_left_def)

lemma rds_fits:
  assumes "rds k br src p" and "n \<le> k" and "eat n p = Some Q"
  shows "ds_inv br" "ds_src br = src" "bits_consumed br + n \<le> 64" "nat (ds_left br) - n = Q"
  using assms by (auto simp: rds_def ds_left_def eat_Some)

lemma rds_any:
  assumes "rds k br src p" and "n \<le> k" and "n < 64" and "eat n p = Some Q"
  shows "look_bits_any br n = stream_bits src Q n"
  using look_bits_any_stream [of br n] rds_fits [OF assms(1,2,4)] assms(3) by simp

lemma rds_look:
  assumes "rds k br src p" and "n \<le> k" and "0 < n" and "eat n p = Some Q"
  shows "look_bits br n = stream_bits src Q n"
  using look_bits_stream [of br n] rds_fits [OF assms(1,2,4)] assms(3) by simp

lemma rds_reload:
  assumes "rds k br src p"
  shows "\<exists>br'. reload_ds br = Inr br' \<and> rds 56 br' src p"
proof (cases p)
  case None
  then show ?thesis using assms by (simp add: rds_def reload_ds_def reload_overflow)
next
  case (Some P)
  then have i: "ds_inv br" "bits_consumed br \<le> 64" "ds_src br = src" "ds_left br = int P" using assms by (auto simp: rds_def)
  from reload_ok [OF i(1,2)] obtain st br' where "reload br = Inr (st, br')" "ds_ready br'" "ds_src br' = src"
    "ds_left br' = int P" "bits_consumed br' \<le> 64" "st \<noteq> Overflow" using i by auto
  then show ?thesis using Some by (auto simp: reload_ds_def rds_def ds_ready_def)
qed

lemma rds_weaken: "rds k br src p \<Longrightarrow> k' \<le> k \<Longrightarrow> rds k' br src p"
  by (auto simp: rds_def split: option.splits)

lemma rds_finished: "rds k br src p \<Longrightarrow> is_finished br \<longleftrightarrow> p = Some 0"
  by (auto simp: rds_def is_finished_def ds_left_def split: option.splits)

lemma look_bits_bound: "look_bits br n < 2 ^ n"
proof (cases "n \<le> 64")
  case True
  have "unat (push_bit (bits_consumed br mod 64) (container br)) < 2 ^ 64"
    using unsigned_less [of "push_bit (bits_consumed br mod 64) (container br)"] by simp
  then have "unat (push_bit (bits_consumed br mod 64) (container br)) < 2 ^ (64 - n) * 2 ^ n"
    using True by (simp flip: power_add)
  then show ?thesis by (simp add: look_bits_def unat_drop_bit_div div_less_iff_less_mult mult.commute)
next
  case False
  have "look_bits br n < 2 ^ 64"
    using unsigned_less [of "push_bit (bits_consumed br mod 64) (container br)"] False by (simp add: look_bits_def)
  also have "(2::nat) ^ 64 \<le> 2 ^ n" using False by (intro power_increasing) auto
  finally show ?thesis .
qed

lemma look_bits_any_bound: "n < 64 \<Longrightarrow> look_bits_any br n < 2 ^ n"
  by (cases "n = 0") (simp_all add: look_bits_any_0 look_bits_any_eq look_bits_bound)

section \<open>A sequence is decoded as the RFC says\<close>

lemma of_base: "s \<le> 31 \<Longrightarrow> 2 \<le> s \<Longrightarrow> OF_BASE ! s = 2 ^ s - 3" "s \<le> 31 \<Longrightarrow> OF_BASE ! s + 2 ^ s \<le> 2 ^ 32"
proof -
  have a: "\<forall>s \<in> set [0..<32]. (2 \<le> s \<longrightarrow> OF_BASE ! s = 2 ^ s - 3) \<and> OF_BASE ! s + 2 ^ s \<le> 2 ^ 32" by code_simp
  then show "s \<le> 31 \<Longrightarrow> 2 \<le> s \<Longrightarrow> OF_BASE ! s = 2 ^ s - 3" "s \<le> 31 \<Longrightarrow> OF_BASE ! s + 2 ^ s \<le> 2 ^ 32" by simp_all
qed

definition hist_ok :: "nat list \<Rightarrow> bool" where
  "hist_ok hist \<longleftrightarrow> length hist = 3 \<and> (\<forall>h \<in> set hist. h < 2 ^ 64)"

lemma hist_ok_nth: "hist_ok hist \<Longrightarrow> i < 3 \<Longrightarrow> hist ! i < 2 ^ 64"
  by (simp add: hist_ok_def)

lemma hist_ok_list: "hist_ok [x, y, z] \<longleftrightarrow> x < 2 ^ 64 \<and> y < 2 ^ 64 \<and> z < 2 ^ 64"
  by (simp add: hist_ok_def)

lemma hist_three: "hist_ok hist \<Longrightarrow> [hist ! 0, hist ! 1, hist ! 2] = hist"
  by (auto simp: hist_ok_def numeral_3_eq_3 length_Suc_conv)

lemma wrapping_sub_less: "wrapping_sub x y < 2 ^ 64"
  by (simp add: wrapping_sub_def)

lemma decode_offset_ok:
  assumes f: "extra_bits f = s" "s \<le> 31" "base_value f = OF_BASE ! s" and r: "rds 56 br src p" and h: "hist_ok hist" and ll: "lb = 0 \<longleftrightarrow> ll = 0"
  shows "\<exists>off hist' br'. decode_offset f lb hist br = (off, hist', br') \<and> rds (56 - s) br' src (eat s p) \<and> off < 2 ^ 64 \<and> hist_ok hist'
    \<and> (\<forall>Q. eat s p = Some Q \<longrightarrow> rfc_offset (2 ^ s + stream_bits src Q s) ll hist = (off, hist') \<or>
        fst (rfc_offset (2 ^ s + stream_bits src Q s) ll hist) = 0 \<and> off = 2 ^ 64 - 1)"
proof -
  note hs = hist_ok_nth [OF h]
  have sk: "rds (56 - s) (skip_bits br s) src (eat s p)" by (rule rds_skip [OF r]) (use f in simp)
  have look: "look_bits br s = stream_bits src Q s" if "0 < s" "eat s p = Some Q" for Q by (rule rds_look [OF r _ that]) (use f in simp)
  have lt: "look_bits br s < 2 ^ s" by (rule look_bits_bound)
  consider (new) "2 \<le> s" | (rep0) "s = 0" | (rep1) "s = 1" by linarith
  then show ?thesis
  proof cases
    case new
    define o' where "o' = OF_BASE ! s + look_bits br s"
    have eq: "decode_offset f lb hist br = (o', [o', hist ! 0, hist ! 1], skip_bits br s)"
      using new f by (simp add: decode_offset_def read_bits_fast_def o'_def Let_def)
    have "o' < 2 ^ 64" using of_base(2) [OF f(2)] lt by (simp add: o'_def)
    moreover have "rfc_offset (2 ^ s + stream_bits src Q s) ll hist = (o', [o', hist ! 0, hist ! 1])" if "eat s p = Some Q" for Q
    proof -
      have "(2::nat) ^ 2 \<le> 2 ^ s" using new by (intro power_increasing) auto
      moreover have "o' = 2 ^ s - 3 + stream_bits src Q s" using of_base(1) [OF f(2) new] look [OF _ that] new by (simp add: o'_def)
      ultimately show ?thesis by (simp add: rfc_offset_def)
    qed
    ultimately show ?thesis using sk hs [of 0] hs [of 1] unfolding eq by (simp add: hist_ok_list)
  next
    case rep0
    then have "stream_bits src Q s = 0" for Q by (simp add: stream_bits_def)
    then show ?thesis using rep0 f r h ll hs hist_three [OF h]
      by (cases "lb = 0") (simp_all add: decode_offset_def rfc_offset_def hist_ok_list Let_def)
  next
    case rep1
    define i temp where "i = 1 + (if lb = 0 then 1 else 0) + look_bits br 1"
      and "temp = (if i = 3 then wrapping_sub (hist ! 0) 1 else hist ! i)"
    let ?t = "if temp = 0 then 2 ^ 64 - 1 else temp" and ?h = "if i \<noteq> 1 then hist ! 1 else hist ! 2"
    have eq: "decode_offset f lb hist br = (?t, [?t, hist ! 0, ?h], skip_bits br s)"
      using rep1 f by (simp add: decode_offset_def read_bits_fast_def i_def temp_def Let_def)
    have i: "1 \<le> i" "i \<le> 3" using lt rep1 by (auto simp: i_def)
    have tl: "?t < 2 ^ 64" using hs [of i] i wrapping_sub_less by (auto simp: temp_def)
    have "rfc_offset (2 ^ s + stream_bits src Q s) ll hist = (?t, [?t, hist ! 0, ?h]) \<or>
        fst (rfc_offset (2 ^ s + stream_bits src Q s) ll hist) = 0 \<and> ?t = 2 ^ 64 - 1" if "eat s p = Some Q" for Q
    proof -
      have v: "stream_bits src Q s = look_bits br 1" using look [OF _ that] rep1 by simp
      have "rfc_offset (2 ^ s + stream_bits src Q s) ll hist = (let o' = (if i < 3 then hist ! i else hist ! 0 - 1) in (o', [o', hist ! 0, if i = 1 then hist ! 2 else hist ! 1]))"
        using lt rep1 ll i unfolding v rfc_offset_def by (auto simp: i_def Let_def)
      moreover have "wrapping_sub (hist ! 0) 1 = hist ! 0 - 1" if "hist ! 0 \<noteq> 0" using that wrapping_sub_ge [of 1 "hist ! 0"] hs [of 0] by simp
      moreover have "wrapping_sub 0 1 = 2 ^ 64 - 1" by (simp add: wrapping_sub_def)
      ultimately show ?thesis using i by (cases "hist ! 0 = 0") (auto simp: temp_def Let_def)
    qed
    then show ?thesis using sk tl hs [of 0] hs [of 1] hs [of 2] unfolding eq by (auto simp: hist_ok_list)
  qed
qed

text \<open>The cells of the three tables.\<close>

definition ll_cell :: "fse_entry \<Rightarrow> nat \<Rightarrow> bool" where
  "ll_cell e n \<longleftrightarrow> extra_bits e \<le> 16 \<and> (base_value e = 0 \<longrightarrow> extra_bits e = 0) \<and> num_bits e \<le> 9 \<and> next_state e + 2 ^ num_bits e \<le> n"

definition ml_cell :: "fse_entry \<Rightarrow> nat \<Rightarrow> bool" where
  "ml_cell e n \<longleftrightarrow> extra_bits e \<le> 16 \<and> 3 \<le> base_value e \<and> num_bits e \<le> 9 \<and> next_state e + 2 ^ num_bits e \<le> n"

definition of_cell :: "fse_entry \<Rightarrow> nat \<Rightarrow> bool" where
  "of_cell e n \<longleftrightarrow> extra_bits e \<le> 31 \<and> base_value e = OF_BASE ! extra_bits e \<and> num_bits e \<le> 8 \<and> next_state e + 2 ^ num_bits e \<le> n"

definition all_cells :: "(fse_entry \<Rightarrow> nat \<Rightarrow> bool) \<Rightarrow> fse_entry list \<Rightarrow> bool" where
  "all_cells P dt \<longleftrightarrow> (\<forall>e \<in> set dt. P e (length dt))"

lemma all_cellsD: "all_cells P dt \<Longrightarrow> i < length dt \<Longrightarrow> P (dt ! i) (length dt)"
  by (simp add: all_cells_def)

lemma kind_cells:
  "\<forall>s \<in> {0..35}. LL_BITS ! s \<le> 16 \<and> (LL_BASE ! s = 0 \<longrightarrow> LL_BITS ! s = 0)"
  "\<forall>s \<in> {0..31}. OF_BITS ! s = s"
  "\<forall>s \<in> {0..52}. ML_BITS ! s \<le> 16 \<and> 3 \<le> ML_BASE ! s"
  by code_simp+

lemma table_all_cells:
  assumes "\<And>i. i < tsize tab \<Longrightarrow> P (cells tab ! i) (tsize tab)" and "fse_wf tab"
  shows "all_cells P (table_cells tab) \<and> length (table_cells tab) = tsize tab \<and> fse_decode tab = Inr (table_cells tab)"
  using assms by (auto simp: all_cells_def table_cells_def fse_wf_def fse_decode_def in_set_conv_nth)

lemma seq_table_cells:
  "seq_table_ok 0 tab \<Longrightarrow> all_cells ll_cell (table_cells tab) \<and> length (table_cells tab) = tsize tab \<and> fse_decode tab = Inr (table_cells tab)"
  "seq_table_ok 1 tab \<Longrightarrow> all_cells of_cell (table_cells tab) \<and> length (table_cells tab) = tsize tab \<and> fse_decode tab = Inr (table_cells tab)"
  "seq_table_ok 2 tab \<Longrightarrow> all_cells ml_cell (table_cells tab) \<and> length (table_cells tab) = tsize tab \<and> fse_decode tab = Inr (table_cells tab)"
proof -
  have wf: "fse_wf tab \<Longrightarrow> i < tsize tab \<Longrightarrow> num_bits (cells tab ! i) \<le> accuracy_log tab \<and> next_state (cells tab ! i) + 2 ^ num_bits (cells tab ! i) \<le> tsize tab" for i
    unfolding fse_wf_def by blast
  show "seq_table_ok 0 tab \<Longrightarrow> all_cells ll_cell (table_cells tab) \<and> length (table_cells tab) = tsize tab \<and> fse_decode tab = Inr (table_cells tab)"
    using kind_cells(1) wf by (intro table_all_cells) (fastforce simp: seq_table_ok_def SEQ_TABLES_def ll_cell_def)+
  show "seq_table_ok 1 tab \<Longrightarrow> all_cells of_cell (table_cells tab) \<and> length (table_cells tab) = tsize tab \<and> fse_decode tab = Inr (table_cells tab)"
    using kind_cells(2) wf by (intro table_all_cells) (fastforce simp: seq_table_ok_def SEQ_TABLES_def of_cell_def)+
  show "seq_table_ok 2 tab \<Longrightarrow> all_cells ml_cell (table_cells tab) \<and> length (table_cells tab) = tsize tab \<and> fse_decode tab = Inr (table_cells tab)"
    using kind_cells(3) wf by (intro table_all_cells) (fastforce simp: seq_table_ok_def SEQ_TABLES_def ml_cell_def)+
qed

lemma add_extra_ok:
  assumes "rds k br src p" and "n \<le> k"
  shows "\<exists>v br'. add_extra x n br = (x + v, br') \<and> v < 2 ^ n \<and> rds (k - n) br' src (eat n p) \<and> (\<forall>Q. eat n p = Some Q \<longrightarrow> v = stream_bits src Q n)"
proof (cases "n = 0")
  case True
  then show ?thesis using assms by (intro exI [of _ 0] exI [of _ br]) (simp add: add_extra_def stream_bits_def)
next
  case False
  then show ?thesis using rds_skip [OF assms] rds_look [OF assms] look_bits_bound [of br n]
    by (intro exI [of _ "look_bits br n"] exI [of _ "skip_bits br n"]) (simp add: add_extra_def read_bits_fast_def)
qed

lemma read_bits_ok:
  assumes "rds k br src p" and "n \<le> k" and "n < 64"
  shows "\<exists>v br'. read_bits br n = (v, br') \<and> v < 2 ^ n \<and> rds (k - n) br' src (eat n p) \<and> (\<forall>Q. eat n p = Some Q \<longrightarrow> v = stream_bits src Q n)"
  using rds_skip [OF assms(1,2)] rds_any [OF assms] look_bits_any_bound [OF assms(3), of br] by (simp add: read_bits_def)

definition state_ok :: "fse_entry list \<times> fse_entry list \<times> fse_entry list \<Rightarrow> seq_state \<Rightarrow> bool" where
  "state_ok dts st \<longleftrightarrow> (let (ll_dt, of_dt, ml_dt) = dts in
     ss_ll st < length ll_dt \<and> ss_of st < length of_dt \<and> ss_ml st < length ml_dt \<and> hist_ok (ss_hist st))"

definition dts_ok :: "fse_entry list \<times> fse_entry list \<times> fse_entry list \<Rightarrow> bool" where
  "dts_ok dts \<longleftrightarrow> (let (ll_dt, of_dt, ml_dt) = dts in all_cells ll_cell ll_dt \<and> all_cells of_cell of_dt \<and> all_cells ml_cell ml_dt)"

text \<open>Between two reloads at most 56 bits are read: up to 47 for offset and match length, then at most 16 for the
  literals length and 26 for the states, or up to 30 for all three and 26.\<close>

lemma decode_values_ok:
  assumes cl: "ll_cell l nl" "ml_cell m nm" "of_cell f nf" and h: "hist_ok hist" and r: "rds 56 br src p"
  shows "\<exists>ll ml off hist' br'. decode_values br l m f hist = Inr ((ll, ml, off), hist', br') \<and> 1 \<le> ml \<and> off < 2 ^ 64 \<and> hist_ok hist'
    \<and> rds 26 br' src (eat (extra_bits f + extra_bits m + extra_bits l) p)
    \<and> (\<forall>P. p = Some P \<longrightarrow> extra_bits f + extra_bits m + extra_bits l \<le> P \<longrightarrow>
        ml = base_value m + stream_bits src (P - extra_bits f - extra_bits m) (extra_bits m) \<and>
        ll = base_value l + stream_bits src (P - extra_bits f - extra_bits m - extra_bits l) (extra_bits l) \<and>
        (rfc_offset (2 ^ extra_bits f + stream_bits src (P - extra_bits f) (extra_bits f)) ll hist = (off, hist') \<or>
         fst (rfc_offset (2 ^ extra_bits f + stream_bits src (P - extra_bits f) (extra_bits f)) ll hist) = 0 \<and> off = 2 ^ 64 - 1))"
proof -
  let ?a = "extra_bits f" and ?b = "extra_bits m" and ?c = "extra_bits l"
  let ?p1 = "eat ?a p" and ?p2 = "eat ?b (eat ?a p)" and ?p3 = "eat ?c (eat ?b (eat ?a p))"
  have bits: "?a \<le> 31" "?b \<le> 16" "?c \<le> 16" "?b \<le> 56 - ?a" and fb: "base_value f = OF_BASE ! ?a"
    using cl by (auto simp: ll_cell_def ml_cell_def of_cell_def)
  obtain off hist' br1 where o: "decode_offset f (base_value l) hist br = (off, hist', br1)" "rds (56 - ?a) br1 src ?p1" "off < 2 ^ 64" "hist_ok hist'"
    "\<And>Q. ?p1 = Some Q \<Longrightarrow> rfc_offset (2 ^ ?a + stream_bits src Q ?a) (base_value l) hist = (off, hist') \<or>
        fst (rfc_offset (2 ^ ?a + stream_bits src Q ?a) (base_value l) hist) = 0 \<and> off = 2 ^ 64 - 1"
    using decode_offset_ok [OF refl bits(1) fb r h refl] by blast
  obtain vm br2 where mm: "add_extra (base_value m) ?b br1 = (base_value m + vm, br2)" "rds (56 - ?a - ?b) br2 src ?p2" "\<And>Q. ?p2 = Some Q \<Longrightarrow> vm = stream_bits src Q ?b"
    using add_extra_ok [OF o(2) bits(4)] by blast
  obtain br3 where b3: "(if 57 - 26 \<le> ?c + ?b + ?a then reload_ds br2 else Inr br2) = Inr br3" "rds (?c + 26) br3 src ?p2"
  proof (cases "57 - 26 \<le> ?c + ?b + ?a")
    case True
    obtain br' where "reload_ds br2 = Inr br'" "rds 56 br' src ?p2" using rds_reload [OF mm(2)] by blast
    then show thesis using that [of br'] True rds_weaken [of 56 br' src ?p2 "?c + 26"] bits(3) by simp
  next
    case False
    then show thesis using that [of br2] rds_weaken [OF mm(2), of "?c + 26"] by simp
  qed
  obtain vl br4 where lll: "add_extra (base_value l) ?c br3 = (base_value l + vl, br4)" "vl < 2 ^ ?c" "rds 26 br4 src ?p3" "\<And>Q. ?p3 = Some Q \<Longrightarrow> vl = stream_bits src Q ?c"
    using add_extra_ok [OF b3(2) le_add1] unfolding add_diff_cancel_left' by blast
  have eq: "decode_values br l m f hist = Inr ((base_value l + vl, base_value m + vm, off), hist', br4)"
    unfolding decode_values_def Let_def o(1) case_prod_conv mm(1) b3(1) res_bind_simps lll(1) by (rule refl)
  have rd: "rds 26 br4 src (eat (?a + ?b + ?c) p)" using lll(3) by (simp only: eat_add add.assoc)
  have "base_value l = 0 \<longleftrightarrow> base_value l + vl = 0" using lll(2) cl(1) by (auto simp: ll_cell_def)
  then have same: "rfc_offset x (base_value l + vl) y = rfc_offset x (base_value l) y" for x y by (simp add: rfc_offset_def)
  have "vm = stream_bits src (P - ?a - ?b) ?b \<and> vl = stream_bits src (P - ?a - ?b - ?c) ?c \<and>
      (rfc_offset (2 ^ ?a + stream_bits src (P - ?a) ?a) (base_value l + vl) hist = (off, hist') \<or>
      fst (rfc_offset (2 ^ ?a + stream_bits src (P - ?a) ?a) (base_value l + vl) hist) = 0 \<and> off = 2 ^ 64 - 1)" if "p = Some P" "?a + ?b + ?c \<le> P" for P
    using that o(5) [of "P - ?a"] mm(3) [of "P - ?a - ?b"] lll(4) [of "P - ?a - ?b - ?c"] unfolding same eat_Some by simp
  moreover have "1 \<le> base_value m + vm" using cl(2) by (simp add: ml_cell_def)
  ultimately show ?thesis unfolding eq using o(3,4) rd by blast
qed

lemma next_states_ok:
  assumes cl: "ll_cell l nl" "ml_cell m nm" "of_cell f nf" and r: "rds 26 br src p"
  shows "\<exists>x y z br'. next_states br l m f = Inr ((x, y, z), br') \<and> x < nl \<and> y < nm \<and> z < nf
    \<and> rds 56 br' src (eat (num_bits l + num_bits m + num_bits f) p)
    \<and> (\<forall>P. p = Some P \<longrightarrow> num_bits l + num_bits m + num_bits f \<le> P \<longrightarrow>
        x = next_state l + stream_bits src (P - num_bits l) (num_bits l) \<and>
        y = next_state m + stream_bits src (P - num_bits l - num_bits m) (num_bits m) \<and>
        z = next_state f + stream_bits src (P - num_bits l - num_bits m - num_bits f) (num_bits f))"
proof -
  let ?a = "num_bits l" and ?b = "num_bits m" and ?c = "num_bits f"
  have bits: "?a \<le> 26" "?a < 64" "?b \<le> 26 - ?a" "?b < 64" "?c \<le> 26 - ?a - ?b" "?c < 64"
    using cl by (auto simp: ll_cell_def ml_cell_def of_cell_def)
  obtain x br1 where x: "read_bits br ?a = (x, br1)" "x < 2 ^ ?a" "rds (26 - ?a) br1 src (eat ?a p)" "\<And>Q. eat ?a p = Some Q \<Longrightarrow> x = stream_bits src Q ?a"
    using read_bits_ok [OF r bits(1,2)] by blast
  obtain y br2 where y: "read_bits br1 ?b = (y, br2)" "y < 2 ^ ?b" "rds (26 - ?a - ?b) br2 src (eat ?b (eat ?a p))"
      "\<And>Q. eat ?b (eat ?a p) = Some Q \<Longrightarrow> y = stream_bits src Q ?b"
    using read_bits_ok [OF x(3) bits(3,4)] by blast
  obtain z br3 where z: "read_bits br2 ?c = (z, br3)" "z < 2 ^ ?c" "rds (26 - ?a - ?b - ?c) br3 src (eat ?c (eat ?b (eat ?a p)))"
      "\<And>Q. eat ?c (eat ?b (eat ?a p)) = Some Q \<Longrightarrow> z = stream_bits src Q ?c"
    using read_bits_ok [OF y(3) bits(5,6)] by blast
  obtain br4 where b4: "reload_ds br3 = Inr br4" "rds 56 br4 src (eat ?c (eat ?b (eat ?a p)))" using rds_reload [OF z(3)] by blast
  have eq: "next_states br l m f = Inr ((next_state l + x, next_state m + y, next_state f + z), br4)"
    unfolding next_states_def Let_def x(1) y(1) z(1) case_prod_conv b4(1) res_bind_simps by (rule refl)
  have "rds 56 br4 src (eat (?a + ?b + ?c) p)" using b4(2) by (simp only: eat_add add.assoc)
  moreover have "next_state l + x < nl" "next_state m + y < nm" "next_state f + z < nf"
    using cl x(2) y(2) z(2) by (auto simp: ll_cell_def ml_cell_def of_cell_def)
  moreover have "x = stream_bits src (P - ?a) ?a \<and> y = stream_bits src (P - ?a - ?b) ?b \<and> z = stream_bits src (P - ?a - ?b - ?c) ?c"
    if "p = Some P" "?a + ?b + ?c \<le> P" for P
    using that x(4) [of "P - ?a"] y(4) [of "P - ?a - ?b"] z(4) [of "P - ?a - ?b - ?c"] unfolding eat_Some by simp
  ultimately show ?thesis unfolding eq by blast
qed

text \<open>The decoded fields, and the reader after them.\<close>

lemma decode_sequence_ok:
  assumes dts: "dts_ok (ll_dt, of_dt, ml_dt)" and st: "state_ok (ll_dt, of_dt, ml_dt) st" and r: "rds 56 br src p"
  shows "\<exists>ll ml off br' st'. decode_sequence br st ll_dt ml_dt of_dt is_last = Inr ((ll, ml, off), br', st')
    \<and> 1 \<le> ml \<and> off < 2 ^ 64 \<and> state_ok (ll_dt, of_dt, ml_dt) st'
    \<and> (case (case p of None \<Rightarrow> None | Some P \<Rightarrow> spec_sequence src (ll_dt, of_dt, ml_dt) is_last P st) of
         None \<Rightarrow> rds (if is_last then 0 else 56) br' src None
       | Some ((ll', ml', off'), P', st'') \<Rightarrow> rds (if is_last then 0 else 56) br' src (Some P') \<and> ll' = ll \<and> ml' = ml
           \<and> (off' = off \<and> st'' = st' \<or> off' = 0 \<and> off = 2 ^ 64 - 1))"
proof -
  define l m f where lmf: "l = ll_dt ! ss_ll st" "m = ml_dt ! ss_ml st" "f = of_dt ! ss_of st"
  have cl: "ll_cell l (length ll_dt)" "ml_cell m (length ml_dt)" "of_cell f (length of_dt)"
    and h: "hist_ok (ss_hist st)" and en: "table_entry ll_dt (ss_ll st) = Inr l" "table_entry ml_dt (ss_ml st) = Inr m" "table_entry of_dt (ss_of st) = Inr f"
    using dts st by (auto simp: dts_ok_def state_ok_def lmf table_entry_def intro: all_cellsD)
  let ?x = "extra_bits f + extra_bits m + extra_bits l" and ?n = "num_bits l + num_bits m + num_bits f"
  obtain ll ml off hist br1 where v: "decode_values br l m f (ss_hist st) = Inr ((ll, ml, off), hist, br1)" "1 \<le> ml" "off < 2 ^ 64" "hist_ok hist"
      "rds 26 br1 src (eat ?x p)"
    and val: "\<And>P. p = Some P \<Longrightarrow> ?x \<le> P \<Longrightarrow>
        ml = base_value m + stream_bits src (P - extra_bits f - extra_bits m) (extra_bits m) \<and>
        ll = base_value l + stream_bits src (P - extra_bits f - extra_bits m - extra_bits l) (extra_bits l) \<and>
        (rfc_offset (2 ^ extra_bits f + stream_bits src (P - extra_bits f) (extra_bits f)) ll (ss_hist st) = (off, hist) \<or>
         fst (rfc_offset (2 ^ extra_bits f + stream_bits src (P - extra_bits f) (extra_bits f)) ll (ss_hist st)) = 0 \<and> off = 2 ^ 64 - 1)"
    using decode_values_ok [OF cl h r] by blast
  note spec = spec_sequence_def Let_def case_prod_conv lmf [symmetric]
  show ?thesis
  proof (cases is_last)
    case True
    have eq: "decode_sequence br st ll_dt ml_dt of_dt is_last = Inr ((ll, ml, off), br1, st\<lparr>ss_hist := hist\<rparr>)"
      unfolding decode_sequence_def en res_bind_simps v(1) using True by simp
    have r0: "rds 0 br1 src (eat ?x p)" using rds_weaken [OF v(5)] by simp
    have "state_ok (ll_dt, of_dt, ml_dt) (st\<lparr>ss_hist := hist\<rparr>)" using st v(4) by (simp add: state_ok_def)
    then show ?thesis using eq v(2,3) True r0 val unfolding spec by (auto split: option.splits prod.splits if_splits)
  next
    case False
    obtain x y z br2 where n: "next_states br1 l m f = Inr ((x, y, z), br2)" "x < length ll_dt" "y < length ml_dt" "z < length of_dt" "rds 56 br2 src (eat ?n (eat ?x p))"
      and nval: "\<And>P. eat ?x p = Some P \<Longrightarrow> ?n \<le> P \<Longrightarrow> x = next_state l + stream_bits src (P - num_bits l) (num_bits l) \<and>
        y = next_state m + stream_bits src (P - num_bits l - num_bits m) (num_bits m) \<and>
        z = next_state f + stream_bits src (P - num_bits l - num_bits m - num_bits f) (num_bits f)"
      using next_states_ok [OF cl v(5)] by blast
    let ?st = "\<lparr>ss_ll = x, ss_ml = y, ss_of = z, ss_hist = hist\<rparr>"
    have eq: "decode_sequence br st ll_dt ml_dt of_dt is_last = Inr ((ll, ml, off), br2, ?st)"
      unfolding decode_sequence_def en res_bind_simps v(1) using False n(1) by simp
    have sok: "state_ok (ll_dt, of_dt, ml_dt) ?st" using n(2-4) v(4) by (simp add: state_ok_def)
    show ?thesis
    proof (cases "\<exists>P. p = Some P \<and> ?x + ?n \<le> P")
      case True
      then obtain P where P: "p = Some P" "?x + ?n \<le> P" by blast
      define P3 where "P3 = P - extra_bits f - extra_bits m - extra_bits l"
      have e: "eat ?x p = Some P3" "?n \<le> P3" "eat ?n (eat ?x p) = Some (P3 - num_bits l - num_bits m - num_bits f)" "?x \<le> P" "\<not> P < ?x + ?n"
        using P unfolding eat_Some by (auto simp: P3_def)
      have sp: "spec_sequence src (ll_dt, of_dt, ml_dt) is_last P st = (let (o', h) = rfc_offset (2 ^ extra_bits f + stream_bits src (P - extra_bits f) (extra_bits f)) ll (ss_hist st) in
          Some ((ll, ml, o'), P3 - num_bits l - num_bits m - num_bits f, \<lparr>ss_ll = x, ss_ml = y, ss_of = z, ss_hist = h\<rparr>))"
        using val [OF P(1) e(4)] nval [OF e(1,2)] False e(5) unfolding spec P3_def by (simp add: split_def)
      obtain o' h where oh: "rfc_offset (2 ^ extra_bits f + stream_bits src (P - extra_bits f) (extra_bits f)) ll (ss_hist st) = (o', h)" by (meson surj_pair)
      then have "o' = off \<and> h = hist \<or> o' = 0 \<and> off = 2 ^ 64 - 1" using val [OF P(1) e(4)] by auto
      moreover have "rds 56 br2 src (Some (P3 - num_bits l - num_bits m - num_bits f))" using n(5) unfolding e(3) .
      ultimately show ?thesis using eq v(2,3) sok False P(1) sp unfolding oh by auto
    next
      case none: False
      then have "eat ?n (eat ?x p) = None" by (cases p) (auto simp: eat_add)
      moreover have "(case p of None \<Rightarrow> None | Some P \<Rightarrow> spec_sequence src (ll_dt, of_dt, ml_dt) is_last P st) = None"
        using none False unfolding spec by (auto split: option.splits)
      ultimately show ?thesis using eq v(2,3) sok False n(5) by simp
    qed
  qed
qed

section \<open>The loop over the sequences\<close>

definition block_exec :: "bool \<Rightarrow> seq_limits \<Rightarrow> u8 list \<Rightarrow> u8 list \<times> u8 list \<Rightarrow> nat \<times> nat \<times> nat \<Rightarrow> seq_error + (u8 list \<times> u8 list)" where
  "block_exec EXT lim hist = seq_result EXT (eh_dict (sl_ext lim)) (sl_window lim) hist (snd (sl_oend_w lim) - snd (sl_prefix lim))"

text \<open>What holds of memory before and after every sequence.\<close>

definition block_inv :: "bool \<Rightarrow> seq_limits \<Rightarrow> u8 list \<Rightarrow> mem \<Rightarrow> seq_cursor \<Rightarrow> bool" where
  "block_inv EXT lim hist m cur \<longleftrightarrow> limits_ok m lim \<and> cursor_ok lim cur \<and> (EXT \<longrightarrow> ext_ok m lim \<and> hist_at m lim cur hist)"

lemma block_inv_step:
  assumes i: "block_inv EXT lim hist m cur" and c: "cursor_ok lim cur'" "snd (sc_op cur) \<le> snd (sc_op cur')"
    and w: "wrote m m' (fst (sl_prefix lim)) (snd (sc_op cur)) (snd (sc_op cur'))"
  shows "block_inv EXT lim hist m' cur'"
proof -
  have "limits_ok m' lim" using i wrote_length [OF w] by (simp add: block_inv_def limits_ok_def Let_def)
  moreover have "ext_ok m' lim" if EXT using that i wrote_length [OF w] by (simp add: block_inv_def ext_ok_def Let_def)
  moreover have "hist_at m' lim cur' hist" if EXT
  proof -
    have h: "hist_at m lim cur hist" using that i by (simp add: block_inv_def)
    have same: "m' e ! k = m e ! k" if "e \<noteq> fst (sl_prefix lim) \<or> snd (sc_op cur') + 31 \<le> k" for e k
      using that wrote_other [OF w, of e] wrote_after [OF w, of k] by (cases "e = fst (sl_prefix lim)") auto
    show ?thesis unfolding hist_at_def Let_def
    proof (intro conjI allI impI)
      show "length hist = eh_len (sl_ext lim)" using h by (simp add: hist_at_def Let_def)
      fix i assume i: "i < eh_len (sl_ext lim)" "fst (eh_end (sl_ext lim)) \<noteq> fst (sl_prefix lim) \<or> snd (sc_op cur') + 31 \<le> snd (eh_end (sl_ext lim)) - eh_len (sl_ext lim) + i"
      then have "hist ! i = m (fst (eh_end (sl_ext lim))) ! (snd (eh_end (sl_ext lim)) - eh_len (sl_ext lim) + i)"
        using h c(2) by (auto simp: hist_at_def Let_def)
      then show "hist ! i = m' (fst (eh_end (sl_ext lim))) ! (snd (eh_end (sl_ext lim)) - eh_len (sl_ext lim) + i)" using same [OF i(2)] by simp
    qed
  qed
  ultimately show ?thesis using c(1) by (simp add: block_inv_def)
qed

text \<open>The offset that the code forces for a repeat offset of 0 is rejected too.\<close>

lemma forced_offset:
  assumes "block_inv EXT lim hist m cur"
  shows "\<exists>e. block_exec EXT lim hist s (ll, ml, 0) = Inl e" "\<exists>e. block_exec EXT lim hist s (ll, ml, 2 ^ 64 - 1) = Inl e"
proof -
  obtain out lits where s: "s = (out, lits)" by (cases s)
  show "\<exists>e. block_exec EXT lim hist s (ll, ml, 0) = Inl e" by (simp add: block_exec_def seq_result_def s Let_def)
  have a: "snd (sl_oend_w lim) < 2 ^ 63" using assms by (simp add: block_inv_def limits_ok_def Let_def)
  have "length hist < 2 ^ 63" if EXT using that assms by (simp add: block_inv_def ext_ok_def hist_at_def Let_def)
  then have "length out + ll < 2 ^ 64 - 1 \<and> (EXT \<longrightarrow> length out + ll + length hist < 2 ^ 64 - 1)"
    if "length out + ll + ml \<le> snd (sl_oend_w lim) - snd (sl_prefix lim)" using that a by auto
  then show "\<exists>e. block_exec EXT lim hist s (ll, ml, 2 ^ 64 - 1) = Inl e"
    unfolding block_exec_def seq_result_def s Let_def case_prod_conv by (auto simp: not_less)
qed

lemma rds_None: "rds k br src None \<Longrightarrow> rds k' br src None"
  by (simp add: rds_def)

context wild_copy
begin

lemma sequence_loop_ok:
  assumes "dts_ok dts" and "state_ok dts st" and "rds (if n = 0 then 0 else 56) br src p" and "block_inv EXT lim hist m cur"
  shows "case (case p of None \<Rightarrow> None | Some P \<Rightarrow> spec_sequences (block_exec EXT lim hist) src dts n P st (cursor_bytes m lim cur)) of
      Some (P', st', s') \<Rightarrow> \<exists>m' br' cur'. sequence_loop w EXT lim dts n m br st cur = Inr (m', br', st', cur') \<and> rds 0 br' src (Some P')
        \<and> cursor_bytes m' lim cur' = s' \<and> block_inv EXT lim hist m' cur' \<and> snd (sc_op cur) \<le> snd (sc_op cur') \<and> snd (sc_lit cur) \<le> snd (sc_lit cur')
        \<and> wrote m m' (fst (sl_prefix lim)) (snd (sc_op cur)) (snd (sc_op cur'))
    | None \<Rightarrow> (\<exists>e. sequence_loop w EXT lim dts n m br st cur = Inl (Err e)) \<or>
        (\<exists>m' br' st' cur'. sequence_loop w EXT lim dts n m br st cur = Inr (m', br', st', cur') \<and> rds 0 br' src None)"
  using assms
proof (induction n arbitrary: st br p m cur)
  case 0
  have "wrote m m a d d" for a d by (simp add: wrote_def)
  then show ?case using 0 by (cases p) auto
next
  case (Suc n)
  obtain ll_dt of_dt ml_dt where dts: "dts = (ll_dt, of_dt, ml_dt)" by (cases dts)
  let ?ex = "block_exec EXT lim hist" and ?s = "cursor_bytes m lim cur"
  have r: "rds 56 br src p" using Suc.prems(3) by simp
  from decode_sequence_ok [OF Suc.prems(1,2) [unfolded dts] r, of "n = 0"] obtain ll ml off br' st' where
    d: "decode_sequence br st ll_dt ml_dt of_dt (n = 0) = Inr ((ll, ml, off), br', st')" "1 \<le> ml" "off < 2 ^ 64" "state_ok dts st'"
    and sp: "case (case p of None \<Rightarrow> None | Some P \<Rightarrow> spec_sequence src dts (n = 0) P st) of
         None \<Rightarrow> rds (if n = 0 then 0 else 56) br' src None
       | Some ((ll', ml', off'), P', st'') \<Rightarrow> rds (if n = 0 then 0 else 56) br' src (Some P') \<and> ll' = ll \<and> ml' = ml
           \<and> (off' = off \<and> st'' = st' \<or> off' = 0 \<and> off = 2 ^ 64 - 1)" unfolding dts by blast
  have inv: "limits_ok m lim" "cursor_ok lim cur" "EXT \<Longrightarrow> ext_ok m lim \<and> hist_at m lim cur hist" using Suc.prems(4) by (auto simp: block_inv_def)
  have ex: "exec_refines m lim cur (exec_sequence w EXT m cur lim ll ml off) (?ex ?s (ll, ml, off))"
    using exec_sequence_ok [OF inv(1,2) d(2,3) inv(3)] unfolding block_exec_def by blast
  have loop: "sequence_loop w EXT lim dts (Suc n) m br st cur =
      res_bind (exec_sequence w EXT m cur lim ll ml off) (\<lambda>(m, cur). sequence_loop w EXT lim dts n m br' st' cur)"
    using d(1) unfolding dts by simp
  show ?case
  proof (cases "?ex ?s (ll, ml, off)")
    case (Inl e)
    then have err: "sequence_loop w EXT lim dts (Suc n) m br st cur = Inl (Err (SeqError e))" using ex unfolding loop by (simp add: exec_refines_def)
    have "(case p of None \<Rightarrow> None | Some P \<Rightarrow> spec_sequences ?ex src dts (Suc n) P st ?s) = None"
      using sp Inl forced_offset(1) [OF Suc.prems(4), of ?s ll ml] by (auto split: option.splits sum.splits)
    then show ?thesis using err by simp
  next
    case (Inr s')
    then obtain m1 cur1 where e: "exec_sequence w EXT m cur lim ll ml off = Inr (m1, cur1)" "cursor_ok lim cur1" "cursor_bytes m1 lim cur1 = s'"
      "snd (sc_op cur) \<le> snd (sc_op cur1)" "wrote m m1 (fst (sl_prefix lim)) (snd (sc_op cur)) (snd (sc_op cur1))" "snd (sc_lit cur) \<le> snd (sc_lit cur1)"
      using ex by (auto simp: exec_refines_def)
    have off: "off \<noteq> 2 ^ 64 - 1" using Inr forced_offset(2) [OF Suc.prems(4), of ?s ll ml] by auto
    have inv1: "block_inv EXT lim hist m1 cur1" by (rule block_inv_step [OF Suc.prems(4) e(2,4,5)])
    have l1: "sequence_loop w EXT lim dts (Suc n) m br st cur = sequence_loop w EXT lim dts n m1 br' st' cur1" unfolding loop e(1) by simp
    show ?thesis
    proof (cases "case p of None \<Rightarrow> None | Some P \<Rightarrow> spec_sequence src dts (n = 0) P st")
      case None
      then have "rds (if n = 0 then 0 else 56) br' src None" using sp by simp
      moreover have "(case p of None \<Rightarrow> None | Some P \<Rightarrow> spec_sequences ?ex src dts (Suc n) P st ?s) = None"
        using None by (auto split: option.splits)
      ultimately show ?thesis using Suc.IH [OF Suc.prems(1) d(4) _ inv1, of br' None] unfolding l1 by simp
    next
      case (Some r)
      then obtain P' where r: "r = ((ll, ml, off), P', st')" "rds (if n = 0 then 0 else 56) br' src (Some P')"
        using sp off by (auto split: prod.splits)
      have "(case p of None \<Rightarrow> None | Some P \<Rightarrow> spec_sequences ?ex src dts (Suc n) P st ?s) = spec_sequences ?ex src dts n P' st' s'"
        using Some Inr unfolding r(1) by (auto split: option.splits)
      then show ?thesis
        using Suc.IH [OF Suc.prems(1) d(4) r(2) inv1] e(3-6) wrote_trans [OF e(5), of _ "snd (sc_op cur1)"] unfolding l1
        by (auto split: option.splits)
    qed
  qed
qed

end

section \<open>A block's sequences\<close>

text \<open>What \<open>run_sequences\<close> requires of memory: the \<open>Dst\<close> contract, the slack after the literals, and the
  \<open>ExtHistory\<close> contract when matches may reach into it.\<close>

definition run_ok :: "bool \<Rightarrow> seq_input \<Rightarrow> ext_history \<Rightarrow> dst \<Rightarrow> u8 list \<Rightarrow> mem \<Rightarrow> bool" where
  "run_ok EXT seqs ext d hist m \<longleftrightarrow>
     WILDCOPY_OVERLENGTH \<le> si_literals_len seqs \<and> block_inv EXT (run_limits seqs ext d) hist m (run_cursor seqs d)"

definition tables_ok :: "fse_table \<times> fse_table \<times> fse_table \<Rightarrow> bool" where
  "tables_ok fse \<longleftrightarrow> (let (ll_t, of_t, ml_t) = fse in seq_table_ok 0 ll_t \<and> seq_table_ok 1 of_t \<and> seq_table_ok 2 ml_t)"

definition run_spec :: "bool \<Rightarrow> seq_input \<Rightarrow> ext_history \<Rightarrow> u8 list \<Rightarrow> nat list \<Rightarrow> dst \<Rightarrow> mem \<Rightarrow> (u8 list \<times> nat list) option" where
  "run_spec EXT seqs ext hist offset_hist d m =
     spec_block (block_exec EXT (run_limits seqs ext d) hist) (si_bit_stream seqs) (si_fse seqs) (si_num_sequences seqs)
       (d_op d + MAX_BLOCK_SIZE) offset_hist (cursor_bytes m (run_limits seqs ext d) (run_cursor seqs d))"

lemma table_size:
  assumes "seq_table_ok t tab" and "t < 3"
  shows "tsize tab = 2 ^ accuracy_log tab" "accuracy_log tab \<le> 9"
  using assms kind_facts(1) [OF assms(2)] by (auto simp: seq_table_ok_def fse_wf_def)

lemma init_states_cases:
  assumes a: "a \<le> 9" "b \<le> 9" "c \<le> 9"
  shows "(src = [] \<or> last src = 0) \<and> (\<exists>e. init_states src a b c = Inl (Err e)) \<or>
    src \<noteq> [] \<and> last src \<noteq> 0 \<and> (\<exists>x y z br. init_states src a b c = Inr ((x, y, z), br) \<and> x < 2 ^ a \<and> y < 2 ^ b \<and> z < 2 ^ c \<and>
      (let P = bit_length (le_nat src) - 1 in
       rds 56 br src (eat (a + b + c) (Some P)) \<and> (a + b + c \<le> P \<longrightarrow>
        x = stream_bits src (P - a) a \<and> y = stream_bits src (P - a - b) b \<and> z = stream_bits src (P - a - b - c) c)))"
proof (cases "src = [] \<or> last src = 0")
  case True
  then show ?thesis using ds_new_cases [of src] by (auto simp: init_states_def)
next
  case False
  then obtain br where br: "ds_new src = Inr br" "ds_ready br" "ds_src br = src" "ds_left br = int (bit_length (le_nat src)) - 1" "bits_consumed br \<le> 64"
    using ds_new_Inr [of src] by blast
  define P where "P = bit_length (le_nat src) - 1"
  have "bit_length (le_nat src) \<noteq> 0"
  proof -
    have "0 < unat (last src)" using False by (simp add: unat_gt_0)
    then show ?thesis using bit_length_le_nat [of src] False by (cases "bit_length (unat (last src))") auto
  qed
  then obtain n where "bit_length (le_nat src) = Suc n" using not0_implies_Suc by blast
  then have "ds_left br = int P" using br(4) by (simp add: P_def)
  then have r0: "rds 56 br src (Some P)" using br by (auto simp: rds_def ds_ready_def)
  obtain x br1 where x: "read_bits br a = (x, br1)" "x < 2 ^ a" "rds (56 - a) br1 src (eat a (Some P))" "\<And>Q. eat a (Some P) = Some Q \<Longrightarrow> x = stream_bits src Q a"
    using read_bits_ok [OF r0, of a] a(1) by auto
  obtain br2 where b2: "reload_ds br1 = Inr br2" "rds 56 br2 src (eat a (Some P))" using rds_reload [OF x(3)] by blast
  obtain y br3 where y: "read_bits br2 b = (y, br3)" "y < 2 ^ b" "rds (56 - b) br3 src (eat b (eat a (Some P)))"
      "\<And>Q. eat b (eat a (Some P)) = Some Q \<Longrightarrow> y = stream_bits src Q b"
    using read_bits_ok [OF b2(2), of b] a(2) by auto
  obtain br4 where b4: "reload_ds br3 = Inr br4" "rds 56 br4 src (eat b (eat a (Some P)))" using rds_reload [OF y(3)] by blast
  obtain z br5 where z: "read_bits br4 c = (z, br5)" "z < 2 ^ c" "rds (56 - c) br5 src (eat c (eat b (eat a (Some P))))"
      "\<And>Q. eat c (eat b (eat a (Some P))) = Some Q \<Longrightarrow> z = stream_bits src Q c"
    using read_bits_ok [OF b4(2), of c] a(3) by auto
  obtain br6 where b6: "reload_ds br5 = Inr br6" "rds 56 br6 src (eat c (eat b (eat a (Some P))))" using rds_reload [OF z(3)] by blast
  have "init_states src a b c = Inr ((x, y, z), br6)" using br(1) x(1) b2(1) y(1) b4(1) z(1) b6(1) by (simp add: init_states_def)
  moreover have "rds 56 br6 src (eat (a + b + c) (Some P))" using b6(2) by (simp only: eat_add)
  moreover have "x = stream_bits src (P - a) a \<and> y = stream_bits src (P - a - b) b \<and> z = stream_bits src (P - a - b - c) c" if "a + b + c \<le> P"
    using x(4) [of "P - a"] y(4) [of "P - a - b"] z(4) [of "P - a - b - c"] that unfolding eat_Some by simp
  ultimately show ?thesis using False x(2) y(2) z(2) unfolding Let_def P_def [symmetric] by blast
qed

text \<open>\<open>run_sequences\<close> on usable tables.\<close>

lemma run_sequences_eq:
  assumes f: "si_fse seqs = (ll_t, of_t, ml_t)" and t: "tables_ok (si_fse seqs)" and n: "1 \<le> si_num_sequences seqs" and l: "WILDCOPY_OVERLENGTH \<le> si_literals_len seqs"
  shows "run_sequences w EXT seqs ext offset_hist d m =
    res_bind (init_states (si_bit_stream seqs) (accuracy_log ll_t) (accuracy_log of_t) (accuracy_log ml_t)) (\<lambda>((x, y, z), br).
    res_bind (sequence_loop w EXT (run_limits seqs ext d) (table_cells ll_t, table_cells of_t, table_cells ml_t) (si_num_sequences seqs) m br
        \<lparr>ss_ll = x, ss_ml = z, ss_of = y, ss_hist = offset_hist\<rparr> (run_cursor seqs d)) (finish_block seqs d))"
proof -
  have ok: "seq_table_ok 0 ll_t" "seq_table_ok 1 of_t" "seq_table_ok 2 ml_t" using t f by (auto simp: tables_ok_def)
  note c = seq_table_cells(1) [OF ok(1)] seq_table_cells(2) [OF ok(2)] seq_table_cells(3) [OF ok(3)]
  have sz: "length (table_cells ll_t) = 2 ^ accuracy_log ll_t" "length (table_cells of_t) = 2 ^ accuracy_log of_t" "length (table_cells ml_t) = 2 ^ accuracy_log ml_t"
    using c table_size(1) [OF ok(1)] table_size(1) [OF ok(2)] table_size(1) [OF ok(3)] by auto
  have mx: "max 1 (si_num_sequences seqs) = si_num_sequences seqs" using n by simp
  show ?thesis using c sz l unfolding run_sequences_def f Let_def mx by simp
qed

lemma copy_rest_ok:
  assumes i: "block_inv EXT lim hist m cur" and b: "cursor_bytes m lim cur = (out, lits)" and fit: "length out + length lits \<le> snd (sl_oend_w lim) - snd (sl_prefix lim)"
  shows "\<exists>m'. copy_nonoverlapping m (sc_lit cur) (sc_op cur) (length lits) = Inr m'
    \<and> wrote m m' (fst (sl_prefix lim)) (snd (sc_op cur)) (snd (sc_op cur) + length lits)
    \<and> bytes (m' (fst (sl_prefix lim))) (snd (sl_prefix lim)) (snd (sl_prefix lim) + (length out + length lits)) = out @ lits"
proof -
  define a base d s l where ab: "a = fst (sl_prefix lim)" "base = snd (sl_prefix lim)" "d = snd (sc_op cur)" "s = snd (sc_lit cur)" "l = fst (sl_lit_limit lim)"
  have io: "limits_ok m lim" "cursor_ok lim cur" using i by (auto simp: block_inv_def)
  note c = exec_setup [where ll = "length lits" and ml = 0, OF io b ab order_refl] 
  have f0: "length out + length lits + 0 \<le> snd (sl_oend_w lim) - snd (sl_prefix lim)" using fit by simp
  note c = c [OF f0]
  have o: "out = bytes (m a) base d" "lits = bytes (m l) s (snd (sl_lit_limit lim))" using b by (auto simp: cursor_bytes_def ab)
  have "snd (sl_lit_limit lim) \<le> length (m l)" using io(1) by (simp add: limits_ok_def Let_def ab)
  then have le: "length lits = snd (sl_lit_limit lim) - s" using o(2) by simp
  have li: "d + length lits \<le> length (m a)" "s + length lits \<le> length (m l)" using c(10,11) by auto
  have "ptr_copy m (l, s) (a, d) (length lits) = copy_nonoverlapping m (l, s) (a, d) (length lits)"
    using c(4) by (simp add: copy_nonoverlapping_def overlapping_def)
  then obtain m' where m': "copy_nonoverlapping m (l, s) (a, d) (length lits) = Inr m'" "moved m m' a d l s (length lits)"
    using ptr_copy_moved [of d "length lits" m a s l] li by auto
  then have w: "wrote m m' a d (d + length lits)" "\<And>k. k < length lits \<Longrightarrow> m' a ! (d + k) = m l ! (s + k)" by (auto simp: moved_def)
  have "bytes (m' a) base (base + (length out + length lits)) = out @ lits"
  proof (rule nth_equalityI)
    have al: "base + (length out + length lits) \<le> length (m' a)" using li(1) c(3,5) wrote_length [OF w(1)] by simp
    show "length (bytes (m' a) base (base + (length out + length lits))) = length (out @ lits)" using al by simp
    fix k assume "k < length (bytes (m' a) base (base + (length out + length lits)))"
    then have k: "k < length out + length lits" using al by simp
    then have "bytes (m' a) base (base + (length out + length lits)) ! k = m' a ! (base + k)" using al by simp
    also have "\<dots> = (out @ lits) ! k"
    proof (cases "k < length out")
      case True
      then have kd: "base + k < d" using c(5) by simp
      show ?thesis using True wrote_before [OF w(1) kd] o(1) c(5) li(1) by (simp add: nth_append)
    next
      case False
      define j where "j = k - length out"
      have j: "j < length lits" "base + k = d + j" using False k c(3,5) by (auto simp: j_def)
      have "m l ! (s + j) = lits ! j" using o(2) j(1) le li(2) \<open>snd (sl_lit_limit lim) \<le> length (m l)\<close> by simp
      then show ?thesis using w(2) [OF j(1)] j False by (simp add: nth_append j_def)
    qed
    finally show "bytes (m' a) base (base + (length out + length lits)) ! k = (out @ lits) ! k" .
  qed
  then show ?thesis using m'(1) w(1) unfolding c(1,2) ab(1,2) [symmetric] snd_conv by blast
qed

lemma finish_block_ok:
  assumes i: "block_inv EXT (run_limits seqs ext d) hist m cur" and b: "cursor_bytes m (run_limits seqs ext d) cur = (out, lits)"
    and r: "rds 0 br src (Some P)" and l: "WILDCOPY_OVERLENGTH \<le> si_literals_len seqs" and le: "snd (si_literals seqs) \<le> snd (sc_lit cur)"
  shows "if P \<noteq> 0 \<or> d_op d + MAX_BLOCK_SIZE < length out + length lits then \<exists>e. finish_block seqs d (m, br, st, cur) = Inl (Err e)
    else \<exists>m'. finish_block seqs d (m, br, st, cur) = Inr (m', length (out @ lits), map (\<lambda>h. h mod 2 ^ 32) (ss_hist st))
      \<and> bytes (m' (fst (d_base d))) (snd (d_base d)) (snd (d_base d) + length (out @ lits)) = out @ lits
      \<and> wrote m m' (fst (d_base d)) (snd (sc_op cur)) (snd (d_base d) + length (out @ lits)) \<and> snd (sc_op cur) \<le> snd (d_base d) + length (out @ lits)"
proof -
  let ?lim = "run_limits seqs ext d"
  have lim: "sl_prefix ?lim = d_base d" "snd (sl_oend_w ?lim) = snd (d_base d) + (d_op d + MAX_BLOCK_SIZE)"
    "snd (sl_lit_limit ?lim) = snd (si_literals seqs) + (si_literals_len seqs - WILDCOPY_OVERLENGTH)" "fst (sl_lit_limit ?lim) = fst (si_literals seqs)"
    by (simp_all add: run_limits_def)
  have io: "limits_ok m ?lim" "cursor_ok ?lim cur" using i by (auto simp: block_inv_def)
  have c: "fst (sc_op cur) = fst (d_base d)" "snd (d_base d) \<le> snd (sc_op cur)" "fst (sc_lit cur) = fst (si_literals seqs)"
      "snd (sc_lit cur) \<le> snd (si_literals seqs) + (si_literals_len seqs - WILDCOPY_OVERLENGTH)" "snd (sc_op cur) \<le> snd (sl_oend_w ?lim)"
    using io(2) lim by (auto simp: cursor_ok_def)
  have m: "snd (sl_oend_w ?lim) \<le> length (m (fst (d_base d)))" "snd (sl_lit_limit ?lim) \<le> length (m (fst (si_literals seqs)))"
    using io(1) lim by (auto simp: limits_ok_def Let_def)
  have op: "snd (sc_op cur) - snd (d_base d) = length out" using b m(1) c(2,5) lim by (auto simp: cursor_bytes_def)
  have rest: "si_literals_len seqs - WILDCOPY_OVERLENGTH - (snd (sc_lit cur) - snd (si_literals seqs)) = length lits"
    using b m(2) c(4) le unfolding lim by (auto simp: cursor_bytes_def lim)
  have ptr: "padd (si_literals seqs) (snd (sc_lit cur) - snd (si_literals seqs)) = sc_lit cur" "padd (d_base d) (length out) = sc_op cur"
    using c le op by (auto simp: prod_eq_iff)
  have eq: "finish_block seqs d (m, br, st, cur) = (if P \<noteq> 0 then Inl (Err (SectionError SequenceStreamLeft))
      else if d_op d + MAX_BLOCK_SIZE < length out + length lits then seq_fail BlockTooLarge
      else res_bind (copy_nonoverlapping m (sc_lit cur) (sc_op cur) (length lits)) (\<lambda>m. Inr (m, length out + length lits, map (\<lambda>h. h mod 2 ^ 32) (ss_hist st))))"
    using rds_finished [OF r] unfolding finish_block_def Let_def case_prod_conv op rest ptr by simp
  show ?thesis
  proof (cases "P \<noteq> 0 \<or> d_op d + MAX_BLOCK_SIZE < length out + length lits")
    case True
    then show ?thesis unfolding eq by (auto simp: seq_fail_def)
  next
    case False
    then have fit: "length out + length lits \<le> snd (sl_oend_w ?lim) - snd (sl_prefix ?lim)" using lim by simp
    have e: "snd (sc_op cur) + length lits = snd (d_base d) + length (out @ lits)" using op c(2) by simp
    have "snd (sc_op cur) \<le> snd (d_base d) + length (out @ lits)" using op c(2) by simp
    with copy_rest_ok [OF i b fit] False show ?thesis unfolding eq lim(1) e by auto
  qed
qed

context wild_copy
begin

lemma run_sequences_ok:
  assumes t: "tables_ok (si_fse seqs)" and n: "1 \<le> si_num_sequences seqs" and h: "hist_ok offset_hist" and r: "run_ok EXT seqs ext d hist m"
  shows "case run_spec EXT seqs ext hist offset_hist d m of
      None \<Rightarrow> \<exists>e. run_sequences w EXT seqs ext offset_hist d m = Inl (Err e)
    | Some (out, hist') \<Rightarrow> \<exists>m'. run_sequences w EXT seqs ext offset_hist d m = Inr (m', length out, hist')
        \<and> bytes (m' (fst (d_base d))) (snd (d_base d)) (snd (d_base d) + length out) = out
        \<and> wrote m m' (fst (d_base d)) (snd (d_base d) + d_op d) (snd (d_base d) + length out)"
proof -
  obtain ll_t of_t ml_t where f: "si_fse seqs = (ll_t, of_t, ml_t)" by (cases "si_fse seqs")
  have ok: "seq_table_ok 0 ll_t" "seq_table_ok 1 of_t" "seq_table_ok 2 ml_t" using t f by (auto simp: tables_ok_def)
  note tc = seq_table_cells(1) [OF ok(1)] seq_table_cells(2) [OF ok(2)] seq_table_cells(3) [OF ok(3)]
  note sz = table_size [OF ok(1)] table_size [OF ok(2)] table_size [OF ok(3)]
  let ?a = "accuracy_log ll_t" and ?b = "accuracy_log of_t" and ?c = "accuracy_log ml_t" and ?src = "si_bit_stream seqs"
  let ?dts = "(table_cells ll_t, table_cells of_t, table_cells ml_t)" and ?lim = "run_limits seqs ext d" and ?cur = "run_cursor seqs d"
  define P where "P = bit_length (le_nat ?src) - 1"
  have l: "WILDCOPY_OVERLENGTH \<le> si_literals_len seqs" and inv: "block_inv EXT ?lim hist m ?cur" using r by (auto simp: run_ok_def)
  note eq = run_sequences_eq [OF f t n l, of w EXT ext offset_hist d m]
  have logs: "?a \<le> 9" "?b \<le> 9" "?c \<le> 9" using sz by auto
  from init_states_cases [OF logs, of ?src] show ?thesis
  proof (elim disjE conjE exE)
    fix e assume "?src = []" "init_states ?src ?a ?b ?c = Inl (Err e)"
    then show ?thesis unfolding eq run_spec_def spec_block_def f Let_def by simp
  next
    fix e assume "last ?src = 0" "init_states ?src ?a ?b ?c = Inl (Err e)"
    then show ?thesis unfolding eq run_spec_def spec_block_def f Let_def by simp
  next
    fix x y z br
    assume src: "?src \<noteq> []" "last ?src \<noteq> 0" and ini: "init_states ?src ?a ?b ?c = Inr ((x, y, z), br)" and xyz: "x < 2 ^ ?a" "y < 2 ^ ?b" "z < 2 ^ ?c"
      and rd': "let P = bit_length (le_nat ?src) - 1 in rds 56 br ?src (eat (?a + ?b + ?c) (Some P)) \<and> (?a + ?b + ?c \<le> P \<longrightarrow>
        x = stream_bits ?src (P - ?a) ?a \<and> y = stream_bits ?src (P - ?a - ?b) ?b \<and> z = stream_bits ?src (P - ?a - ?b - ?c) ?c)"
    define p where "p = eat (?a + ?b + ?c) (Some P)"
    let ?st = "\<lparr>ss_ll = x, ss_ml = z, ss_of = y, ss_hist = offset_hist\<rparr>"
    have rd: "rds 56 br ?src p" and vals: "?a + ?b + ?c \<le> P \<Longrightarrow>
        x = stream_bits ?src (P - ?a) ?a \<and> y = stream_bits ?src (P - ?a - ?b) ?b \<and> z = stream_bits ?src (P - ?a - ?b - ?c) ?c"
      using rd' unfolding Let_def P_def [symmetric] p_def by blast+
    have "dts_ok ?dts" "state_ok ?dts ?st" using tc sz xyz h by (auto simp: dts_ok_def state_ok_def)
    from sequence_loop_ok [OF this _ inv, of "si_num_sequences seqs" br ?src p] rd n
    have loop: "case (case p of None \<Rightarrow> None | Some P \<Rightarrow> spec_sequences (block_exec EXT ?lim hist) ?src ?dts (si_num_sequences seqs) P ?st (cursor_bytes m ?lim ?cur)) of
      Some (P', st', s') \<Rightarrow> \<exists>m' br' cur'. sequence_loop w EXT ?lim ?dts (si_num_sequences seqs) m br ?st ?cur = Inr (m', br', st', cur') \<and> rds 0 br' ?src (Some P')
        \<and> cursor_bytes m' ?lim cur' = s' \<and> block_inv EXT ?lim hist m' cur' \<and> snd (sc_op ?cur) \<le> snd (sc_op cur') \<and> snd (sc_lit ?cur) \<le> snd (sc_lit cur')
        \<and> wrote m m' (fst (sl_prefix ?lim)) (snd (sc_op ?cur)) (snd (sc_op cur'))
    | None \<Rightarrow> (\<exists>e. sequence_loop w EXT ?lim ?dts (si_num_sequences seqs) m br ?st ?cur = Inl (Err e)) \<or>
        (\<exists>m' br' st' cur'. sequence_loop w EXT ?lim ?dts (si_num_sequences seqs) m br ?st ?cur = Inr (m', br', st', cur') \<and> rds 0 br' ?src None)" by simp
    have spec: "run_spec EXT seqs ext hist offset_hist d m =
        (case (case p of None \<Rightarrow> None | Some P \<Rightarrow> spec_sequences (block_exec EXT ?lim hist) ?src ?dts (si_num_sequences seqs) P ?st (cursor_bytes m ?lim ?cur)) of
          None \<Rightarrow> None
        | Some (P, st, out, lits) \<Rightarrow> if P \<noteq> 0 \<or> d_op d + MAX_BLOCK_SIZE < length out + length lits then None else Some (out @ lits, map (\<lambda>h. h mod 2 ^ 32) (ss_hist st)))"
    proof (cases "?a + ?b + ?c \<le> P")
      case True
      have p1: "p = Some (P - ?a - ?b - ?c)" using True by (simp add: p_def)
      have c0: "\<not> (?src = [] \<or> last ?src = 0 \<or> P < ?a + ?b + ?c)" using src True by simp
      show ?thesis unfolding run_spec_def spec_block_def f Let_def case_prod_conv P_def [symmetric] if_not_P [OF c0] p1 option.case using vals [OF True] by simp
    next
      case False
      then show ?thesis unfolding run_spec_def spec_block_def f Let_def case_prod_conv P_def [symmetric] by (simp add: p_def)
    qed
    show ?thesis
    proof (cases "case p of None \<Rightarrow> None | Some P \<Rightarrow> spec_sequences (block_exec EXT ?lim hist) ?src ?dts (si_num_sequences seqs) P ?st (cursor_bytes m ?lim ?cur)")
      case None
      then have sn: "run_spec EXT seqs ext hist offset_hist d m = None" using spec by simp
      from loop None have "(\<exists>e. sequence_loop w EXT ?lim ?dts (si_num_sequences seqs) m br ?st ?cur = Inl (Err e)) \<or>
        (\<exists>m' br' st' cur'. sequence_loop w EXT ?lim ?dts (si_num_sequences seqs) m br ?st ?cur = Inr (m', br', st', cur') \<and> rds 0 br' ?src None)" by simp
      then show ?thesis unfolding sn eq ini using rds_finished by (auto simp: finish_block_def)
    next
      case (Some q)
      obtain P' st' out lits where q: "q = (P', st', out, lits)" by (cases q)
      from loop Some obtain m1 br1 cur1 where l1: "sequence_loop w EXT ?lim ?dts (si_num_sequences seqs) m br ?st ?cur = Inr (m1, br1, st', cur1)"
        "rds 0 br1 ?src (Some P')" "cursor_bytes m1 ?lim cur1 = (out, lits)" "block_inv EXT ?lim hist m1 cur1" "snd (sc_op ?cur) \<le> snd (sc_op cur1)"
        "wrote m m1 (fst (sl_prefix ?lim)) (snd (sc_op ?cur)) (snd (sc_op cur1))" "snd (sc_lit ?cur) \<le> snd (sc_lit cur1)" unfolding q by auto
      have sp: "run_spec EXT seqs ext hist offset_hist d m = (if P' \<noteq> 0 \<or> d_op d + MAX_BLOCK_SIZE < length out + length lits then None
          else Some (out @ lits, map (\<lambda>h. h mod 2 ^ 32) (ss_hist st')))" using spec Some q by simp
      have ge: "snd (si_literals seqs) \<le> snd (sc_lit cur1)" using l1(7) by (simp add: run_cursor_def)
      have e: "run_sequences w EXT seqs ext offset_hist d m = finish_block seqs d (m1, br1, st', cur1)" unfolding eq ini using l1(1) by simp
      have w: "wrote m m1 (fst (d_base d)) (snd (d_base d) + d_op d) (snd (sc_op cur1))" using l1(6) by (simp add: run_limits_def run_cursor_def)
      from finish_block_ok [OF l1(4,3,2) l ge, of st'] show ?thesis unfolding sp e using wrote_trans [OF w] l1(5)
        by (auto simp: run_cursor_def split: if_splits)
    qed
  qed
qed

end

text \<open>The parts of a \<open>BlockSequences\<close>, its contract and its meaning.\<close>

fun seqs_input :: "block_sequences \<Rightarrow> seq_input" where
  "seqs_input (SeqInput i) = i"
| "seqs_input (ExtSeqInput i ext) = i"

fun seqs_ext :: "block_sequences \<Rightarrow> ext_history" where
  "seqs_ext (SeqInput i) = ExtHistory_NONE"
| "seqs_ext (ExtSeqInput i ext) = ext"

fun reaches_ext :: "block_sequences \<Rightarrow> bool" where
  "reaches_ext (SeqInput i) = False"
| "reaches_ext (ExtSeqInput i ext) = True"

definition sequences_ok :: "block_sequences \<Rightarrow> nat list \<Rightarrow> dst \<Rightarrow> u8 list \<Rightarrow> mem \<Rightarrow> bool" where
  "sequences_ok seqs offset_hist d hist m \<longleftrightarrow>
     tables_ok (si_fse (seqs_input seqs)) \<and> 1 \<le> si_num_sequences (seqs_input seqs) \<and> hist_ok offset_hist \<and>
     run_ok (reaches_ext seqs) (seqs_input seqs) (seqs_ext seqs) d hist m"

definition sequences_spec :: "block_sequences \<Rightarrow> u8 list \<Rightarrow> nat list \<Rightarrow> dst \<Rightarrow> mem \<Rightarrow> (u8 list \<times> nat list) option" where
  "sequences_spec seqs hist offset_hist d m = run_spec (reaches_ext seqs) (seqs_input seqs) (seqs_ext seqs) hist offset_hist d m"

lemma execute_eq: "execute seqs w offset_hist d m = run_sequences w (reaches_ext seqs) (seqs_input seqs) (seqs_ext seqs) offset_hist d m"
  by (cases seqs) simp_all

lemma execute_with_ok:
  assumes "sequences_ok seqs offset_hist d hist m"
  shows "case sequences_spec seqs hist offset_hist d m of
      None \<Rightarrow> \<exists>e. execute_with simd short seqs offset_hist block_size_max d m = Inl (Err e)
    | Some (out, hist') \<Rightarrow>
        if block_size_max < length out - d_op d
        then execute_with simd short seqs offset_hist block_size_max d m = Inl (Err (SectionError (BlockDecodesPast (length out - d_op d) block_size_max)))
        else \<exists>m'. execute_with simd short seqs offset_hist block_size_max d m = Inr (m', length out, hist')
          \<and> bytes (m' (fst (d_base d))) (snd (d_base d)) (snd (d_base d) + length out) = out
          \<and> wrote m m' (fst (d_base d)) (snd (d_base d) + d_op d) (snd (d_base d) + length out)"
proof -
  define w where "w = (case simd of LevelAvx2 \<Rightarrow> if short then Avx2ShortOffsets else Avx2 | LevelOther \<Rightarrow> if short then FallbackShortOffsets else Fallback)"
  have a: "tables_ok (si_fse (seqs_input seqs))" "1 \<le> si_num_sequences (seqs_input seqs)" "hist_ok offset_hist"
    "run_ok (reaches_ext seqs) (seqs_input seqs) (seqs_ext seqs) d hist m" using assms by (auto simp: sequences_ok_def)
  have "w = Fallback \<or> w = FallbackShortOffsets \<or> w = Avx2 \<or> w = Avx2ShortOffsets" by (auto simp: w_def split: simd_level.splits)
  then have "case sequences_spec seqs hist offset_hist d m of
      None \<Rightarrow> \<exists>e. execute seqs w offset_hist d m = Inl (Err e)
    | Some (out, hist') \<Rightarrow> \<exists>m'. execute seqs w offset_hist d m = Inr (m', length out, hist')
        \<and> bytes (m' (fst (d_base d))) (snd (d_base d)) (snd (d_base d) + length out) = out
        \<and> wrote m m' (fst (d_base d)) (snd (d_base d) + d_op d) (snd (d_base d) + length out)"
    using fallback.run_sequences_ok [OF a] fallback_short.run_sequences_ok [OF a] avx2.run_sequences_ok [OF a] avx2_short.run_sequences_ok [OF a]
    unfolding execute_eq sequences_spec_def by blast
  then show ?thesis unfolding execute_with_def w_def [symmetric] by (auto split: option.splits)
qed

text \<open>C30: a block's sequences decode to exactly what RFC 8878 says.  For usable tables, any bit stream and every
  choice of copies, under the contracts of \<open>Dst\<close>, the literals and \<open>ExtHistory\<close>, \<open>execute_with\<close> returns an error
  exactly when the stream is malformed, ends early or late, a sequence is invalid or the block too large, and
  otherwise the segment extended by the sequences and the literals left, with the new repeat offsets.  It never
  panics, never leaves its buffers, and touches nothing before the block and at most 31 bytes after it.\<close>

theorem execute_with_correct:
  assumes "sequences_ok seqs offset_hist d hist m"
  shows "case sequences_spec seqs hist offset_hist d m of
      None \<Rightarrow> \<exists>e. execute_with simd short seqs offset_hist block_size_max d m = Inl (Err e)
    | Some (out, hist') \<Rightarrow>
        if block_size_max < length out - d_op d
        then execute_with simd short seqs offset_hist block_size_max d m = Inl (Err (SectionError (BlockDecodesPast (length out - d_op d) block_size_max)))
        else \<exists>m'. execute_with simd short seqs offset_hist block_size_max d m = Inr (m', length out, hist')
          \<and> bytes (m' (fst (d_base d))) (snd (d_base d)) (snd (d_base d) + length out) = out
          \<and> wrote m m' (fst (d_base d)) (snd (d_base d) + d_op d) (snd (d_base d) + length out)"
  by (rule execute_with_ok [OF assms])

definition rle_table :: "nat \<Rightarrow> nat \<Rightarrow> nat \<Rightarrow> fse_table" where
  "rle_table ms b x = (fse_new ms)\<lparr>cells := [\<lparr>next_state = 0, num_bits = 0, extra_bits = x, base_value = b\<rparr>], tsize := 1\<rparr>"

definition seqs_example :: block_sequences where
  "seqs_example = SeqInput \<lparr>si_num_sequences = 1, si_bit_stream = [1], si_fse = (rle_table 35 4 0, rle_table 31 0 0, rle_table 52 3 0),
     si_literals = (1, 0), si_literals_len = 38\<rparr>"

lemma seqs_example_ok:
  "sequences_ok seqs_example [1, 4, 8] \<lparr>d_base = (0, 0), d_op = 2, d_window = 1024\<rparr> [] (\<lambda>a. if a = 0 then replicate 200000 7 else replicate 38 9)"
proof -
  have "seq_table_ok 0 (rle_table 35 4 0)" "seq_table_ok 1 (rle_table 31 0 0)" "seq_table_ok 2 (rle_table 52 3 0)"
    by (auto simp: seq_table_ok_def rle_table_def fse_new_def fse_wf_def SEQ_TABLES_def LL_BASE_def LL_BITS_def ML_BASE_def ML_BITS_def OF_BASE_def OF_BITS_def
        intro: exI [of _ 4] exI [of _ 0])
  then show ?thesis
    by (simp add: sequences_ok_def seqs_example_def tables_ok_def hist_ok_def run_ok_def block_inv_def limits_ok_def cursor_ok_def run_limits_def
        run_cursor_def WILDCOPY_OVERLENGTH_def MAX_BLOCK_SIZE_def padd_def Let_def)
qed

theorem execute_with_correct_witness:
  "\<exists>m'. execute_with LevelOther False seqs_example [1, 4, 8] 131072 \<lparr>d_base = (0, 0), d_op = 2, d_window = 1024\<rparr>
      (\<lambda>a. if a = 0 then replicate 200000 7 else replicate 38 9) = Inr (m', 11, [1, 4, 8])
    \<and> bytes (m' 0) 0 11 = [7, 7, 9, 9, 9, 9, 9, 9, 9, 9, 9]"
proof -
  let ?m = "\<lambda>a. if a = (0::nat) then replicate 200000 (7::u8) else replicate 38 9" and ?d = "\<lparr>d_base = (0, 0), d_op = 2, d_window = 1024\<rparr>"
  define o' where "o' = [7, 7, 9, 9, 9, 9, 9, 9, 9, 9, 9 :: u8]"
  have len: "length o' = 11" by (simp add: o'_def)
  have "sequences_spec seqs_example [] [1, 4, 8] ?d ?m = Some (o', [1, 4, 8])"
  proof -
    let ?lim = "run_limits (seqs_input seqs_example) ExtHistory_NONE ?d"
    have "cursor_bytes ?m ?lim (run_cursor (seqs_input seqs_example) ?d) = ([7, 7], replicate 6 9)"
      by (simp add: cursor_bytes_def run_limits_def run_cursor_def seqs_example_def bytes_def padd_def WILDCOPY_OVERLENGTH_def)
    then have cb: "cursor_bytes ?m ?lim (run_cursor (seqs_input seqs_example) ?d) = ([7, 7], [9, 9, 9, 9, 9, 9])" by (simp add: numeral_eq_Suc)
    have ex: "block_exec False ?lim [] ([7, 7], [9, 9, 9, 9, 9, 9]) (4, 3, 1) = Inr ([7, 7, 9, 9, 9, 9, 9, 9, 9], [9, 9])"
      by (simp add: block_exec_def seq_result_def run_limits_def padd_def MAX_BLOCK_SIZE_def Let_def numeral_3_eq_3)
    have "bit_length (Suc 0) = 1" by code_simp
    then show ?thesis using cb ex
      by (simp add: sequences_spec_def run_spec_def spec_block_def seqs_example_def rle_table_def fse_new_def table_cells_def spec_sequence_def
          rfc_offset_def stream_bits_def MAX_BLOCK_SIZE_def Let_def o'_def)
  qed
  then show ?thesis
    using execute_with_correct [OF seqs_example_ok, of LevelOther False 131072] len unfolding o'_def [symmetric] by auto
qed

text \<open>C31: \<open>decode_sequence\<close> reads a sequence as RFC 8878 defines it.  From states below the sizes of usable tables and a
  reader at position \<open>P\<close> just reloaded, it returns without an out-of-range lookup; the literals length and the
  match length are base plus extra bits, the offset follows the repeat-offset rules (a repeat offset of 0 becomes
  one that execution rejects), and the next states are again below the sizes.  When the stream has fewer bits than
  the sequence needs, the reader is overrun and stays so.\<close>

theorem decode_sequence_correct:
  assumes "dts_ok (ll_dt, of_dt, ml_dt)" and "state_ok (ll_dt, of_dt, ml_dt) st" and "rds 56 br src (Some P)"
  shows "\<exists>ll ml off br' st'. decode_sequence br st ll_dt ml_dt of_dt is_last = Inr ((ll, ml, off), br', st')
    \<and> 1 \<le> ml \<and> off < 2 ^ 64 \<and> state_ok (ll_dt, of_dt, ml_dt) st'
    \<and> (case spec_sequence src (ll_dt, of_dt, ml_dt) is_last P st of
         None \<Rightarrow> rds (if is_last then 0 else 56) br' src None
       | Some ((ll', ml', off'), P', st'') \<Rightarrow> rds (if is_last then 0 else 56) br' src (Some P') \<and> ll' = ll \<and> ml' = ml
           \<and> (off' = off \<and> st'' = st' \<or> off' = 0 \<and> off = 2 ^ 64 - 1))"
  using decode_sequence_ok [OF assms] by simp

theorem decode_sequence_correct_witness:
  "\<exists>br ll ml off br' st'. ds_new [1] = Inr br
    \<and> decode_sequence br \<lparr>ss_ll = 0, ss_ml = 0, ss_of = 0, ss_hist = [1, 4, 8]\<rparr> (table_cells (rle_table 35 4 0)) (table_cells (rle_table 52 3 0))
        (table_cells (rle_table 31 0 0)) True = Inr ((ll, ml, off), br', st')"
proof -
  obtain br where br: "ds_new [1] = Inr br" "ds_ready br" "ds_src br = [1]" "ds_left br = int (bit_length (le_nat [1])) - 1" "bits_consumed br \<le> 64"
    using ds_new_Inr [of "[1]"] by auto
  have "bit_length (Suc 0) = 1" by code_simp
  then have rd: "rds 56 br [1] (Some 0)" using br by (auto simp: rds_def ds_ready_def)
  have ok: "dts_ok (table_cells (rle_table 35 4 0), table_cells (rle_table 31 0 0), table_cells (rle_table 52 3 0))"
    by (simp add: dts_ok_def table_cells_def rle_table_def fse_new_def all_cells_def ll_cell_def of_cell_def ml_cell_def OF_BASE_def)
  have st: "state_ok (table_cells (rle_table 35 4 0), table_cells (rle_table 31 0 0), table_cells (rle_table 52 3 0))
      \<lparr>ss_ll = 0, ss_ml = 0, ss_of = 0, ss_hist = [1, 4, 8]\<rparr>"
    by (simp add: state_ok_def table_cells_def rle_table_def fse_new_def hist_ok_def)
  from decode_sequence_correct [OF ok st rd, of True] br(1) show ?thesis by blast
qed

end
