(* ===== verification/Block_Decoder.thy ===== *)
theory Block_Decoder
  imports Dictionary Sequence_Decode Xxhash
begin

text \<open>
  Blocks (\<open>src/src/decode.rs\<close>): \<open>DecoderScratch\<close>, the sections of a compressed block, \<open>decompress_block\<close>, and
  \<open>decode_block\<close>, which decodes a block of any type into a \<open>FrameOut\<close>; \<open>VecOut\<close> is the one-shot decoder's.

  Memory has one allocation for the output \<open>Vec\<close>, one for the literals buffer and one for the dictionary content.
  The reference \<open>ref_block\<close> has no memory: it appends to the list of the bytes decoded so far.
\<close>

section \<open>Scratch space\<close>

definition OUT :: nat where "OUT = 0"
definition LIT :: nat where "LIT = 1"
definition DICT :: nat where "DICT = 2"

record decoder_scratch =
  ws_huf :: huffman_table
  ws_fse :: fse_scratch
  ws_offset_hist :: "nat list"
  ws_literals_buffer :: "u8 list"
  ws_huf_from_dict :: bool

definition decoder_scratch_new :: decoder_scratch where
  "decoder_scratch_new =
     \<lparr>ws_huf = huffman_new, ws_fse = fse_scratch_new, ws_offset_hist = [1, 4, 8], ws_literals_buffer = [], ws_huf_from_dict = False\<rparr>"

definition decoder_scratch_reset :: "decoder_scratch \<Rightarrow> decoder_scratch" where
  "decoder_scratch_reset ws =
     ws\<lparr>ws_offset_hist := [1, 4, 8], ws_literals_buffer := [], ws_huf_from_dict := False,
        ws_fse := fse_scratch_reset (ws_fse ws), ws_huf := huffman_reset (ws_huf ws)\<rparr>"

definition load_dict :: "decoder_scratch \<Rightarrow> dict_entropy \<Rightarrow> decoder_scratch" where
  "load_dict ws e =
     ws\<lparr>ws_huf_from_dict := True, ws_fse := (ws_fse ws)\<lparr>fs_source := [DictTable, DictTable, DictTable]\<rparr>, ws_offset_hist := de_rep e\<rparr>"

section \<open>Compressed blocks\<close>

record block_parts =
  bp_literals :: literals_section
  bp_literals_src :: "u8 list"
  bp_sequences :: sequences_header
  bp_sequences_src :: "u8 list"

definition split_block :: "u8 list \<Rightarrow> nat \<Rightarrow> block_parts res" where
  "split_block raw block_size_max =
     res_bind (literals_parse raw) (\<lambda>(section, n).
     if block_size_max < regenerated_size section
     then Inl (Err (SectionError (LiteralsSizeMax (regenerated_size section) block_size_max)))
     else
     res_bind (slice raw n (length raw)) (\<lambda>raw.
     let upper = ls_content_size section in
     if length raw < upper then Inl (Err (SectionError (MalformedSection upper (length raw))))
     else
       let literals_src = take upper raw; raw = drop upper raw in
       res_bind (sequences_parse raw) (\<lambda>(sequences, k).
       res_bind (slice raw k (length raw)) (\<lambda>rest.
       Inr \<lparr>bp_literals = section, bp_literals_src = literals_src, bp_sequences = sequences, bp_sequences_src = rest\<rparr>))))"

text \<open>The literals with their slack; the buffer is cleared first.\<close>

definition decode_block_literals :: "block_parts \<Rightarrow> huffman_table \<Rightarrow> huffman_table option \<Rightarrow> (huffman_table \<times> u8 list) res" where
  "decode_block_literals parts huf repeat =
     res_bind (decode_literals (bp_literals parts) huf repeat (bp_literals_src parts) []) (\<lambda>(huf, target, used).
     if regenerated_size (bp_literals parts) \<noteq> length target mod 2 ^ 32 then Inl Panic
     else if used \<noteq> length (bp_literals_src parts) then Inl Panic
     else Inr (huf, target @ replicate WILDCOPY_OVERLENGTH 0))"

definition decompress_block :: "u8 list \<Rightarrow> nat \<Rightarrow> decoder_scratch \<Rightarrow> dict_entropy option \<Rightarrow> dst \<Rightarrow> ext_history \<Rightarrow> simd_level \<Rightarrow> mem
    \<Rightarrow> (mem \<times> decoder_scratch \<times> nat) res" where
  "decompress_block raw block_size_max ws dict d ext simd m =
     res_bind (split_block raw block_size_max) (\<lambda>parts.
     let repeat = (if ws_huf_from_dict ws then map_option de_huf dict else None) in
     res_bind (decode_block_literals parts (ws_huf ws) repeat) (\<lambda>(huf, buf).
     let ws = ws\<lparr>ws_huf := huf, ws_literals_buffer := buf,
                 ws_huf_from_dict := (ws_huf_from_dict ws \<and> ls_type (bp_literals parts) \<noteq> CompressedLits)\<rparr>;
         m = m(LIT := buf); literals_len = length buf - WILDCOPY_OVERLENGTH;
         hdr = bp_sequences parts; raw = bp_sequences_src parts in
     if num_sequences hdr \<noteq> 0 then
       res_bind (build_sequence_tables hdr raw (ws_fse ws)) (\<lambda>(fse, table_bytes).
       let ws = ws\<lparr>ws_fse := fse\<rparr> in
       res_bind (scratch_tables fse (map_option de_fse dict)) (\<lambda>tabs.
       res_bind (slice raw table_bytes (length raw)) (\<lambda>bits.
       let seqs = \<lparr>si_num_sequences = num_sequences hdr, si_bit_stream = bits, si_fse = tabs, si_literals = (LIT, 0), si_literals_len = length buf\<rparr> in
       res_bind (execute_with_copies simd (fst (snd tabs)) (if eh_len ext = 0 then SeqInput seqs else ExtSeqInput seqs ext)
          (ws_offset_hist ws) block_size_max d m) (\<lambda>(m, e, hist).
       Inr (m, ws\<lparr>ws_offset_hist := hist\<rparr>, e)))))
     else if raw \<noteq> [] then Inl (Err (SectionError (ExtraBits (8 * length raw))))
     else
       res_bind (copy_nonoverlapping m (LIT, 0) (padd (d_base d) (d_op d)) literals_len) (\<lambda>m.
       Inr (m, ws, d_op d + literals_len))))"

section \<open>Frames and their output\<close>

record frame =
  fr_window :: nat
  fr_block_size_max :: nat
  fr_content_size :: "nat option"
  fr_decoded :: nat
  fr_checksum :: "xxh64 option"

text \<open>\<open>Frame::new\<close>; a 64-bit Window_Size always fits \<open>usize\<close>.\<close>

definition frame_new :: "frame_header \<Rightarrow> frame res" where
  "frame_new header =
     res_bind (window_size header) (\<lambda>w.
     Inr \<lparr>fr_window = w, fr_block_size_max = min w MAX_BLOCK_SIZE, fr_content_size = frame_content_size header,
          fr_decoded = 0, fr_checksum = (if content_checksum_flag (fh_descriptor header) then Some xxh_new else None)\<rparr>)"

definition block_decoded :: "frame \<Rightarrow> u8 list \<Rightarrow> frame res" where
  "block_decoded fr bytes' =
     (if 2 ^ 64 \<le> fr_decoded fr + length bytes' then Inl Panic
      else
        let fr = fr\<lparr>fr_decoded := fr_decoded fr + length bytes', fr_checksum := map_option (\<lambda>h. xxh_update h bytes') (fr_checksum fr)\<rparr> in
        case fr_content_size fr of
          Some fcs \<Rightarrow> if fcs < fr_decoded fr then Inl (Err (FrameError (ContentSizeMismatch fcs (fr_decoded fr)))) else Inr fr
        | None \<Rightarrow> Inr fr)"

definition fits_one_block :: "frame \<Rightarrow> bool" where
  "fits_one_block fr = (case fr_content_size fr of Some fcs \<Rightarrow> fcs \<le> fr_block_size_max fr | None \<Rightarrow> False)"

text \<open>The trait \<open>FrameOut\<close>, on memory.\<close>

record 'o frame_out =
  fo_start :: "nat \<Rightarrow> nat option \<Rightarrow> 'o \<Rightarrow> 'o"
  fo_block_dst :: "mem \<Rightarrow> 'o \<Rightarrow> (mem \<times> 'o \<times> dst \<times> ext_history) res"
  fo_commit :: "nat \<Rightarrow> mem \<Rightarrow> 'o \<Rightarrow> 'o \<times> u8 list"

definition decode_block :: "'o frame_out \<Rightarrow> block_header \<Rightarrow> u8 list \<Rightarrow> frame \<Rightarrow> decoder_scratch \<Rightarrow> dict_entropy option \<Rightarrow> simd_level \<Rightarrow> mem \<Rightarrow> 'o
    \<Rightarrow> (mem \<times> 'o \<times> decoder_scratch \<times> frame) res" where
  "decode_block ops block content fr ws dict simd m out =
     res_bind (fo_block_dst ops m out) (\<lambda>(m, out, d, ext).
     let at = padd (d_base d) (d_op d) in
     res_bind
       (case block_type block of
          RawBlock \<Rightarrow> res_bind (store m at content) (\<lambda>m. Inr (m, ws, d_op d + length content))
        | RleBlock \<Rightarrow> res_bind (index content 0) (\<lambda>b.
            res_bind (store m at (replicate (decompressed_size block) b)) (\<lambda>m. Inr (m, ws, d_op d + decompressed_size block)))
        | CompressedBlock \<Rightarrow> decompress_block content (fr_block_size_max fr) ws dict d ext simd m
        | ReservedBlock \<Rightarrow> Inl (Err (SectionError BlockReserved))) (\<lambda>(m, ws, e).
     let (out, bytes') = fo_commit ops e m out in
     res_bind (block_decoded fr bytes') (\<lambda>fr. Inr (m, out, ws, fr))))"

text \<open>\<open>VecOut\<close>: the output \<open>Vec\<close> is the allocation \<open>OUT\<close>, its capacity the allocation's length.  \<open>Vec::try_reserve\<close> grows
  it at least to twice its capacity and fails past \<open>isize::MAX\<close>, where \<open>Vec::reserve\<close> panics (a failing allocator is not
  modelled); the bytes of new capacity are unspecified, here 0.\<close>

record vec_out =
  vo_len :: nat
  vo_start :: nat
  vo_window :: nat
  vo_dict_len :: nat

definition vec_try_reserve :: "mem \<Rightarrow> nat \<Rightarrow> nat \<Rightarrow> mem option" where
  "vec_try_reserve m len n =
     (let cap = max (max (len + n) (2 * length (m OUT))) 8 in
      if len + n \<le> length (m OUT) then Some m
      else if 2 ^ 63 \<le> cap then None
      else Some (m(OUT := take len (m OUT) @ replicate (cap - len) 0)))"

definition vec_reserve :: "mem \<Rightarrow> nat \<Rightarrow> nat \<Rightarrow> mem res" where
  "vec_reserve m len n = (case vec_try_reserve m len n of None \<Rightarrow> Inl Panic | Some m \<Rightarrow> Inr m)"

definition prefix_dst :: "vec_out \<Rightarrow> mem \<Rightarrow> nat \<Rightarrow> (mem \<times> dst) res" where
  "prefix_dst out m n =
     res_bind (vec_reserve m (vo_len out) n) (\<lambda>m.
     Inr (m, \<lparr>d_base = (OUT, vo_start out), d_op = vo_len out - vo_start out, d_window = vo_window out\<rparr>))"

definition VecOut :: "vec_out frame_out" where
  "VecOut =
     \<lparr>fo_start = (\<lambda>window content_size out. out\<lparr>vo_start := vo_len out, vo_window := window\<rparr>),
      fo_block_dst = (\<lambda>m out.
        res_bind (prefix_dst out m (MAX_BLOCK_SIZE + WILDCOPY_OVERLENGTH)) (\<lambda>(m, d).
        Inr (m, out, d, ExtHistory_dict (DICT, 0) (vo_dict_len out)))),
      fo_commit = (\<lambda>e m out.
        let out' = out\<lparr>vo_len := vo_start out + e\<rparr> in (out', bytes (m OUT) (vo_len out) (vo_len out')))\<rparr>"

definition block_bound :: "block_header \<Rightarrow> nat \<Rightarrow> nat" where
  "block_bound block block_size_max = (if block_type block = CompressedBlock then block_size_max else decompressed_size block)"

text \<open>Every located block is at least its header long, so the walk over the blocks ends.\<close>

function blocks_decoded_bound :: "u8 list \<Rightarrow> nat \<Rightarrow> nat \<Rightarrow> nat" where
  "blocks_decoded_bound rest block_size_max bound =
     (case locate_block rest block_size_max of
        None \<Rightarrow> bound
      | Some (block, content) \<Rightarrow>
          let bound = min (bound + block_bound block block_size_max) (2 ^ 64 - 1) in
          if last_block block then bound
          else blocks_decoded_bound (drop (BLOCK_HEADER_LEN + length content) rest) block_size_max bound)"
  by pat_completeness auto
termination
  by (relation "measure (\<lambda>(rest, n, b). length rest)")
    (auto simp: locate_block_def get_range_def BLOCK_HEADER_LEN_def split: option.splits sum.splits if_splits)

declare blocks_decoded_bound.simps [simp del]

definition reserve_frame :: "mem \<Rightarrow> nat \<Rightarrow> frame \<Rightarrow> u8 list \<Rightarrow> mem res" where
  "reserve_frame m len fr blocks =
     (case fr_content_size fr of
        None \<Rightarrow> Inr m
      | Some fcs \<Rightarrow>
          let content = (if fits_one_block fr then fcs else min fcs (blocks_decoded_bound blocks (fr_block_size_max fr) 0));
              want = content + (MAX_BLOCK_SIZE + WILDCOPY_OVERLENGTH) in
          if 2 ^ 64 \<le> want then Inl (Err (FrameError (ContentTooLarge fcs)))
          else
            case vec_try_reserve m len want of
              None \<Rightarrow> Inl (Err (FrameError (ContentTooLarge fcs)))
            | Some m \<Rightarrow> Inr m)"

section \<open>A block without memory\<close>

text \<open>The invariant of the scratch between blocks; \<open>dict\<close> is the entropy section the frame started from.\<close>

definition ws_ok :: "decoder_scratch \<Rightarrow> dict_entropy option \<Rightarrow> bool" where
  "ws_ok ws dict \<longleftrightarrow>
     scratch_ok (ws_huf ws) \<and> fse_scratch_ok (ws_fse ws) (map_option de_fse dict) \<and>
     hist_ok (ws_offset_hist ws) \<and>
     (\<forall>e. dict = Some e \<longrightarrow> scratch_ok (de_huf e))"

text \<open>A compressed block: its sections, the tables, and the sequences as \<open>spec_block\<close> defines them, after the segment
  \<open>seg\<close> and the dictionary content \<open>hist\<close>.\<close>

definition ref_compressed :: "u8 list \<Rightarrow> nat \<Rightarrow> decoder_scratch \<Rightarrow> dict_entropy option \<Rightarrow> nat \<Rightarrow> u8 list \<Rightarrow> u8 list \<Rightarrow> (decoder_scratch \<times> u8 list) option" where
  "ref_compressed raw block_size_max ws dict window hist seg =
     (case split_block raw block_size_max of
        Inl e \<Rightarrow> None
      | Inr parts \<Rightarrow>
        (case decode_block_literals parts (ws_huf ws) (if ws_huf_from_dict ws then map_option de_huf dict else None) of
           Inl e \<Rightarrow> None
         | Inr (huf, buf) \<Rightarrow>
           (let ws = ws\<lparr>ws_huf := huf, ws_literals_buffer := buf,
                        ws_huf_from_dict := (ws_huf_from_dict ws \<and> ls_type (bp_literals parts) \<noteq> CompressedLits)\<rparr>;
                lits = take (length buf - WILDCOPY_OVERLENGTH) buf; hdr = bp_sequences parts; raw = bp_sequences_src parts in
            if num_sequences hdr \<noteq> 0 then
              (case build_sequence_tables hdr raw (ws_fse ws) of
                 Inl e \<Rightarrow> None
               | Inr (fse, n) \<Rightarrow>
                 (case scratch_tables fse (map_option de_fse dict) of
                    Inl e \<Rightarrow> None
                  | Inr tabs \<Rightarrow>
                    (case spec_block (seq_result (hist \<noteq> []) True window hist (length seg + MAX_BLOCK_SIZE)) (drop n raw) tabs (num_sequences hdr)
                        (length seg + MAX_BLOCK_SIZE) (ws_offset_hist ws) (seg, lits) of
                       None \<Rightarrow> None
                     | Some (out, reps) \<Rightarrow> if block_size_max < length out - length seg then None
                                         else Some (ws\<lparr>ws_fse := fse, ws_offset_hist := reps\<rparr>, out))))
            else if raw \<noteq> [] then None
            else Some (ws, seg @ lits))))"

lemma literals_parse_cases:
  "(\<exists>e. literals_parse raw = Inl (Err e)) \<or>
   (\<exists>sec n. literals_parse raw = Inr (sec, n) \<and> n \<le> length raw
     \<and> (ls_type sec = RawLits \<longrightarrow> regenerated_size sec = ls_content_size sec) \<and> (ls_type sec = RleLits \<longrightarrow> ls_content_size sec = 1))"
proof (cases raw)
  case (Cons b bs)
  show ?thesis
    unfolding literals_parse_def Cons list.case Let_def get_range_def by (auto simp: split_def split: if_splits)
qed (simp add: literals_parse_def)

lemma sequences_count_cases: "(\<exists>e. sequences_count raw = Inl (Err e)) \<or> (\<exists>n k. sequences_count raw = Inr (n, k) \<and> k \<le> length raw)"
  unfolding sequences_count_def Let_def by (auto split: list.splits)

lemma sequences_parse_cases:
  "(\<exists>e. sequences_parse raw = Inl (Err e)) \<or> (\<exists>hdr k. sequences_parse raw = Inr (hdr, k) \<and> k \<le> length raw \<and> sh_modes hdr < 256)"
proof -
  have m: "(\<exists>e. modes_new b = Inl (Err e)) \<or> (\<exists>x. modes_new b = Inr x \<and> x < 256)" for b :: u8
    using unat_u8_less [of b] by (simp add: modes_new_def)
  show ?thesis using sequences_count_cases [of raw]
  proof (elim disjE exE conjE)
    fix n k assume c: "sequences_count raw = Inr (n, k)" "k \<le> length raw"
    show ?thesis using c m [of "hd (take 1 (drop k raw))"]
      by (cases "n = 0") (auto simp: sequences_parse_def get_range_def)
  qed (simp add: sequences_parse_def)
qed

text \<open>Sections that fit the block they come from.\<close>

definition parts_ok :: "block_parts \<Rightarrow> nat \<Rightarrow> bool" where
  "parts_ok parts block_size_max \<longleftrightarrow>
     section_fits (bp_literals parts) (bp_literals_src parts) \<and> ls_content_size (bp_literals parts) = length (bp_literals_src parts) \<and>
     regenerated_size (bp_literals parts) \<le> block_size_max \<and> sh_modes (bp_sequences parts) < 256"

lemma split_block_cases:
  assumes "block_size_max < 2 ^ 32"
  shows "(\<exists>e. split_block raw block_size_max = Inl (Err e)) \<or> (\<exists>parts. split_block raw block_size_max = Inr parts \<and> parts_ok parts block_size_max)"
  using literals_parse_cases [of raw]
proof (elim disjE exE conjE)
  fix sec n
  assume l: "literals_parse raw = Inr (sec, n)" "n \<le> length raw" "ls_type sec = RawLits \<longrightarrow> regenerated_size sec = ls_content_size sec"
    "ls_type sec = RleLits \<longrightarrow> ls_content_size sec = 1"
  show ?thesis
  proof (cases "block_size_max < regenerated_size sec \<or> length (drop n raw) < ls_content_size sec")
    case True
    then show ?thesis using l(1,2) by (auto simp: split_block_def Let_def)
  next
    case False
    from sequences_parse_cases [of "drop (ls_content_size sec) (drop n raw)"] show ?thesis
    proof (elim disjE exE conjE)
      fix e assume "sequences_parse (drop (ls_content_size sec) (drop n raw)) = Inl (Err e)"
      then show ?thesis using l(1,2) False by (auto simp: split_block_def Let_def)
    next
      fix hdr k assume "sequences_parse (drop (ls_content_size sec) (drop n raw)) = Inr (hdr, k)" "k \<le> length (drop (ls_content_size sec) (drop n raw))" "sh_modes hdr < 256"
      then show ?thesis using l False assms by (auto simp: split_block_def Let_def parts_ok_def section_fits_def)
    qed
  qed
qed (simp add: split_block_def)

lemma decode_block_literals_cases:
  assumes ok: "scratch_ok huf" "\<forall>r. repeat = Some r \<longrightarrow> scratch_ok r" and p: "parts_ok parts n"
  shows "(\<exists>e. decode_block_literals parts huf repeat = Inl (Err e)) \<or>
    (\<exists>huf' lits. decode_block_literals parts huf repeat = Inr (huf', lits @ replicate 32 0) \<and> scratch_ok huf' \<and> length lits = regenerated_size (bp_literals parts))"
proof -
  have f: "section_fits (bp_literals parts) (bp_literals_src parts)" "ls_content_size (bp_literals parts) = length (bp_literals_src parts)"
    using p by (auto simp: parts_ok_def)
  have "regenerated_size (bp_literals parts) < 2 ^ 32" using f(1) by (simp add: section_fits_def)
  then show ?thesis using decode_literals_ok [OF ok f(1), of "[]"] f(2)
    by (auto simp: decode_block_literals_def WILDCOPY_OVERLENGTH_def split: sum.splits)
qed

section \<open>The reference only appends\<close>

lemma lz_copy_extends: "\<exists>ys. lz_copy out p n = out @ ys"
proof (induction n arbitrary: out)
  case (Suc n)
  from Suc [of "out @ [out ! (length out - p)]"] show ?case by auto
qed simp

lemma seq_result_extends: "seq_result EXT dict window hist limit s sq = Inr s' \<Longrightarrow> \<exists>ys. fst s' = fst s @ ys"
  using lz_copy_extends [of "fst s @ take (fst sq) (snd s)" "snd (snd sq)" "fst (snd sq)"]
    lz_copy_extends [of "hist @ fst s @ take (fst sq) (snd s)" "snd (snd sq)" "fst (snd sq)"]
  by (auto simp: seq_result_def Let_def split: prod.splits if_splits)

lemma rfc_offset_length: "length hist = 3 \<Longrightarrow> length (snd (rfc_offset k ll hist)) = 3"
  by (simp add: rfc_offset_def Let_def)

lemma spec_sequence_hist: "spec_sequence src dts is_last P st = Some (sq, P', st') \<Longrightarrow> length (ss_hist st) = 3 \<Longrightarrow> length (ss_hist st') = 3"
  using rfc_offset_length [of "ss_hist st"]
  by (auto simp: spec_sequence_def Let_def split: prod.splits if_splits) (metis snd_conv)+

lemma spec_sequences_extends:
  assumes "\<And>s sq s'. ex s sq = Inr s' \<Longrightarrow> \<exists>ys. fst s' = fst s @ ys"
    and "spec_sequences ex src dts n P st s = Some (P', st', s')" and "length (ss_hist st) = 3"
  shows "(\<exists>ys. fst s' = fst s @ ys) \<and> length (ss_hist st') = 3"
  using assms(2,3)
proof (induction n arbitrary: P st s)
  case (Suc n)
  then obtain sq P1 st1 s1 where q: "spec_sequence src dts (n = 0) P st = Some (sq, P1, st1)" "ex s sq = Inr s1"
    "spec_sequences ex src dts n P1 st1 s1 = Some (P', st', s')" by (auto split: option.splits sum.splits)
  from Suc.IH [OF q(3) spec_sequence_hist [OF q(1) Suc.prems(2)]] assms(1) [OF q(2)] show ?case by auto
qed auto

lemma spec_block_extends:
  assumes "spec_block (seq_result EXT dict window hist limit) src fse n limit' reps s = Some (out, reps')" and "length reps = 3"
  shows "(\<exists>ys. out = fst s @ ys) \<and> hist_ok reps'"
proof -
  obtain ll_t of_t ml_t where f: "fse = (ll_t, of_t, ml_t)" by (cases fse)
  from assms(1) obtain P st out' lits dts P0 st0 where
    q: "spec_sequences (seq_result EXT dict window hist limit) src dts n P0 st0 s = Some (P, st, out', lits)" "ss_hist st0 = reps"
      "out = out' @ lits" "reps' = map (\<lambda>h. h mod 2 ^ 32) (ss_hist st)"
    by (auto simp: spec_block_def f Let_def split: option.splits if_splits)
  have "(\<exists>ys. out' = fst s @ ys) \<and> length (ss_hist st) = 3"
    using spec_sequences_extends [of "seq_result EXT dict window hist limit", OF _ q(1)] seq_result_extends [of EXT dict window hist limit] assms(2) q(2)
    by simp
  then show ?thesis using q(3,4)
    by (auto simp: hist_ok_def intro: less_trans [OF mod_less_divisor])
qed

section \<open>The block decoder implements the reference\<close>

text \<open>The memory of a frame being decoded: the segment decoded so far at \<open>start\<close> of the output, room for a block and its
  slack after it, and the dictionary content.\<close>

definition out_ok :: "mem \<Rightarrow> nat \<Rightarrow> u8 list \<Rightarrow> u8 list \<Rightarrow> bool" where
  "out_ok m start seg hist \<longleftrightarrow>
     bytes (m OUT) start (start + length seg) = seg \<and> start + length seg + MAX_BLOCK_SIZE + WILDCOPY_OVERLENGTH \<le> length (m OUT) \<and>
     start + length seg + MAX_BLOCK_SIZE < 2 ^ 63 \<and> take (length hist) (m DICT) = hist \<and> length hist < 2 ^ 63"

definition seg_dst :: "nat \<Rightarrow> u8 list \<Rightarrow> nat \<Rightarrow> dst" where
  "seg_dst start seg window = \<lparr>d_base = (OUT, start), d_op = length seg, d_window = window\<rparr>"

definition lit_seqs :: "nat \<Rightarrow> u8 list \<Rightarrow> fse_table \<times> fse_table \<times> fse_table \<Rightarrow> nat \<Rightarrow> seq_input" where
  "lit_seqs n bits tabs len = \<lparr>si_num_sequences = n, si_bit_stream = bits, si_fse = tabs, si_literals = (LIT, 0), si_literals_len = len\<rparr>"

lemma take_hist: "take (length hist) xs = hist \<Longrightarrow> i < length hist \<Longrightarrow> xs ! i = hist ! i"
  by (metis nth_take)

lemma hist_len: "take (length hist) xs = hist \<Longrightarrow> length hist \<le> length xs"
  by (metis length_take min.cobounded1)

lemma block_inv_out:
  assumes o: "out_ok m start seg hist" and l: "length lits + 32 = len" and ext: "EXT \<Longrightarrow> ext = ExtHistory_dict (DICT, 0) (length hist)"
  shows "block_inv EXT (run_limits (lit_seqs n bits tabs len) ext (seg_dst start seg window)) hist (m(LIT := lits @ replicate 32 0))
      (run_cursor (lit_seqs n bits tabs len) (seg_dst start seg window))"
    "cursor_bytes (m(LIT := lits @ replicate 32 0)) (run_limits (lit_seqs n bits tabs len) ext (seg_dst start seg window))
      (run_cursor (lit_seqs n bits tabs len) (seg_dst start seg window)) = (seg, lits)"
proof -
  have h: "length hist \<le> length (m DICT)" "\<And>i. i < length hist \<Longrightarrow> m DICT ! i = hist ! i" "length hist < 2 ^ 63"
    using o hist_len take_hist by (auto simp: out_ok_def)
  show "block_inv EXT (run_limits (lit_seqs n bits tabs len) ext (seg_dst start seg window)) hist (m(LIT := lits @ replicate 32 0))
      (run_cursor (lit_seqs n bits tabs len) (seg_dst start seg window))"
    using o l ext h
    by (auto simp: block_inv_def limits_ok_def cursor_ok_def ext_ok_def hist_at_def out_ok_def run_limits_def run_cursor_def lit_seqs_def seg_dst_def
      ExtHistory_dict_def OUT_def LIT_def DICT_def WILDCOPY_OVERLENGTH_def Let_def padd_def)
  show "cursor_bytes (m(LIT := lits @ replicate 32 0)) (run_limits (lit_seqs n bits tabs len) ext (seg_dst start seg window))
      (run_cursor (lit_seqs n bits tabs len) (seg_dst start seg window)) = (seg, lits)"
    using o l by (auto simp: cursor_bytes_def out_ok_def run_limits_def run_cursor_def lit_seqs_def seg_dst_def
      OUT_def LIT_def DICT_def WILDCOPY_OVERLENGTH_def padd_def bytes_def)
qed

text \<open>Without a dictionary content, a match cannot reach it.\<close>

lemma seq_result_no_hist: "seq_result False dict window hist limit = seq_result False dict' window hist' limit"
  by (intro ext) (simp add: seq_result_def Let_def split: prod.splits)

lemma exec_block_ok:
  fixes start seg window n bits tabs lits hist simd
  defines "seqs \<equiv> lit_seqs n bits tabs (length lits + 32)" and "d \<equiv> seg_dst start seg window" and "ext \<equiv> ExtHistory_dict (DICT, 0) (length hist)"
  assumes o: "out_ok m start seg hist" and t: "tables_ok tabs" and n: "1 \<le> n" and r: "hist_ok reps"
  shows "case spec_block (seq_result (hist \<noteq> []) True window hist (length seg + MAX_BLOCK_SIZE)) bits tabs n (length seg + MAX_BLOCK_SIZE) reps (seg, lits) of
      None \<Rightarrow> \<exists>e. execute_with_copies simd (fst (snd tabs)) (if eh_len ext = 0 then SeqInput seqs else ExtSeqInput seqs ext) reps bsm d
          (m(LIT := lits @ replicate 32 0)) = Inl (Err e)
    | Some (out, reps') \<Rightarrow>
        if bsm < length out - length seg
        then \<exists>e. execute_with_copies simd (fst (snd tabs)) (if eh_len ext = 0 then SeqInput seqs else ExtSeqInput seqs ext) reps bsm d
          (m(LIT := lits @ replicate 32 0)) = Inl (Err e)
        else \<exists>m'. execute_with_copies simd (fst (snd tabs)) (if eh_len ext = 0 then SeqInput seqs else ExtSeqInput seqs ext) reps bsm d
          (m(LIT := lits @ replicate 32 0)) = Inr (m', length out, reps')
          \<and> bytes (m' OUT) start (start + length out) = out
          \<and> wrote (m(LIT := lits @ replicate 32 0)) m' OUT (start + length seg) (start + length out)"
proof -
  define B where "B = (if eh_len ext = 0 then SeqInput seqs else ExtSeqInput seqs ext)"
  let ?m = "m(LIT := lits @ replicate 32 0)"
  have B: "seqs_input B = seqs" "reaches_ext B \<longleftrightarrow> hist \<noteq> []" "reaches_ext B \<Longrightarrow> seqs_ext B = ext"
    by (auto simp: B_def ext_def ExtHistory_dict_def)
  have s: "si_fse seqs = tabs" "si_num_sequences seqs = n" "si_bit_stream seqs = bits" "WILDCOPY_OVERLENGTH \<le> si_literals_len seqs"
    by (simp_all add: seqs_def lit_seqs_def WILDCOPY_OVERLENGTH_def)
  have d: "fst (d_base d) = OUT" "snd (d_base d) = start" "d_op d = length seg" by (simp_all add: d_def seg_dst_def)
  have inv: "block_inv (reaches_ext B) (run_limits seqs (seqs_ext B) d) hist ?m (run_cursor seqs d)"
    "cursor_bytes ?m (run_limits seqs (seqs_ext B) d) (run_cursor seqs d) = (seg, lits)"
    unfolding seqs_def d_def using block_inv_out [OF o refl, of "reaches_ext B" "seqs_ext B"] B(3) unfolding ext_def by blast+
  have ok: "sequences_ok B reps d hist ?m" unfolding sequences_ok_def run_ok_def B(1) using t n r s inv(1) by simp
  have be: "block_exec (reaches_ext B) (run_limits seqs (seqs_ext B) d) hist = seq_result (hist \<noteq> []) True window hist (length seg + MAX_BLOCK_SIZE)"
  proof -
    have l: "sl_window (run_limits seqs (seqs_ext B) d) = window" "sl_ext (run_limits seqs (seqs_ext B) d) = seqs_ext B"
      "snd (sl_oend_w (run_limits seqs (seqs_ext B) d)) - snd (sl_prefix (run_limits seqs (seqs_ext B) d)) = length seg + MAX_BLOCK_SIZE"
      by (simp_all add: run_limits_def d_def seg_dst_def padd_def)
    show ?thesis unfolding block_exec_def l B(2)
      using B seq_result_no_hist [of "eh_dict (seqs_ext B)" window hist "length seg + MAX_BLOCK_SIZE" True hist]
      by (cases "hist = []") (simp_all add: ext_def ExtHistory_dict_def)
  qed
  have sp: "sequences_spec B hist reps d ?m
      = spec_block (seq_result (hist \<noteq> []) True window hist (length seg + MAX_BLOCK_SIZE)) bits tabs n (length seg + MAX_BLOCK_SIZE) reps (seg, lits)"
    unfolding sequences_spec_def run_spec_def B(1) be s inv(2) d by simp
  obtain sh where sh: "short_offset_share (fst (snd tabs)) = Inr sh" using short_offset_share_ok t by (fastforce simp: tables_ok_def split: prod.splits)
  show ?thesis using execute_with_ok [OF ok, of simd "SHORT_OFFSET_SHARE_MIN \<le> sh" bsm]
    unfolding sp d B_def [symmetric] execute_with_copies_def sh res_bind_simps by (auto split: option.splits)
qed

text \<open>The literals alone, when the block has no sequences.\<close>

lemma copy_block_ok:
  assumes o: "out_ok m start seg hist" and l: "length lits \<le> MAX_BLOCK_SIZE"
  shows "\<exists>m'. copy_nonoverlapping (m(LIT := lits @ replicate 32 0)) (LIT, 0) (OUT, start + length seg) (length lits) = Inr m'
    \<and> bytes (m' OUT) start (start + length (seg @ lits)) = seg @ lits
    \<and> wrote (m(LIT := lits @ replicate 32 0)) m' OUT (start + length seg) (start + length (seg @ lits))"
proof -
  let ?s = "lit_seqs 0 [] undefined (length lits + 32)" and ?d = "seg_dst start seg 0"
  have i: "block_inv False (run_limits ?s ExtHistory_NONE ?d) hist (m(LIT := lits @ replicate 32 0)) (run_cursor ?s ?d)"
    "cursor_bytes (m(LIT := lits @ replicate 32 0)) (run_limits ?s ExtHistory_NONE ?d) (run_cursor ?s ?d) = (seg, lits)"
    using block_inv_out [OF o refl, of False] by auto
  have "length seg + length lits \<le> snd (sl_oend_w (run_limits ?s ExtHistory_NONE ?d)) - snd (sl_prefix (run_limits ?s ExtHistory_NONE ?d))"
    using l by (simp add: run_limits_def seg_dst_def padd_def)
  from copy_rest_ok [OF i this] show ?thesis
    by (auto simp: run_limits_def run_cursor_def seg_dst_def lit_seqs_def padd_def add.assoc)
qed

text \<open>What a compressed block leaves: its bytes after the segment, nothing changed before them or more than 31 bytes after
  them, and a scratch that is still usable.\<close>

definition block_done :: "mem \<Rightarrow> mem \<Rightarrow> nat \<Rightarrow> u8 list \<Rightarrow> u8 list \<Rightarrow> bool" where
  "block_done m m' start seg out \<longleftrightarrow>
     bytes (m' OUT) start (start + length out) = out \<and>
     (\<exists>buf. wrote (m(LIT := buf)) m' OUT (start + length seg) (start + length out))"

lemma ref_compressed_ok:
  assumes ws: "ws_ok ws dict" and b: "bsm \<le> MAX_BLOCK_SIZE" and r: "ref_compressed raw bsm ws dict window hist seg = Some (ws', out)"
  shows "ws_ok ws' dict \<and> (\<exists>ys. out = seg @ ys \<and> length ys \<le> bsm)"
proof -
  have b32: "bsm < 2 ^ 32" using b by (simp add: MAX_BLOCK_SIZE_def)
  define repeat where "repeat = (if ws_huf_from_dict ws then map_option de_huf dict else None)"
  have ok: "scratch_ok (ws_huf ws)" "\<forall>t. repeat = Some t \<longrightarrow> scratch_ok t" using ws by (auto simp: ws_ok_def repeat_def)
  obtain parts where p: "split_block raw bsm = Inr parts" "parts_ok parts bsm"
    using split_block_cases [OF b32, of raw] r by (auto simp: ref_compressed_def)
  obtain huf lits where l: "decode_block_literals parts (ws_huf ws) repeat = Inr (huf, lits @ replicate 32 0)" "scratch_ok huf"
      "length lits = regenerated_size (bp_literals parts)"
    using decode_block_literals_cases [OF ok p(2)] r p(1) unfolding ref_compressed_def repeat_def [symmetric] by auto
  have ll: "length lits \<le> bsm" using l(3) p(2) by (simp add: parts_ok_def)
  show ?thesis
  proof (cases "num_sequences (bp_sequences parts) = 0")
    case True
    then show ?thesis using r ws ll l(2) unfolding ref_compressed_def repeat_def [symmetric] p(1) sum.case l(1) case_prod_conv
      by (auto simp: Let_def ws_ok_def WILDCOPY_OVERLENGTH_def split: if_splits)
  next
    case False
    have m: "sh_modes (bp_sequences parts) < 256" "fse_scratch_ok (ws_fse ws) (map_option de_fse dict)" "length (ws_offset_hist ws) = 3"
      using p(2) ws by (auto simp: parts_ok_def ws_ok_def hist_ok_def)
    from False r obtain fse n tabs out' reps where q: "build_sequence_tables (bp_sequences parts) (bp_sequences_src parts) (ws_fse ws) = Inr (fse, n)"
        "spec_block (seq_result (hist \<noteq> []) True window hist (length seg + MAX_BLOCK_SIZE)) (drop n (bp_sequences_src parts)) tabs (num_sequences (bp_sequences parts))
          (length seg + MAX_BLOCK_SIZE) (ws_offset_hist ws) (seg, lits) = Some (out, reps)" "length out - length seg \<le> bsm"
        "ws' = ws\<lparr>ws_huf := huf, ws_literals_buffer := lits @ replicate 32 0,
               ws_huf_from_dict := (ws_huf_from_dict ws \<and> ls_type (bp_literals parts) \<noteq> CompressedLits), ws_fse := fse, ws_offset_hist := reps\<rparr>"
      unfolding ref_compressed_def repeat_def [symmetric] p(1) sum.case l(1) case_prod_conv
      by (auto simp: Let_def WILDCOPY_OVERLENGTH_def split: if_splits sum.splits option.splits prod.splits)
    from spec_block_extends [OF q(2) m(3)] q(3) build_sequence_tables_cases [OF m(2,1), of "bp_sequences_src parts"] q(1) ws l(2) show ?thesis
      unfolding q(4) by (auto simp: ws_ok_def)
  qed
qed

lemma decompress_block_ok:
  assumes ws: "ws_ok ws dict" and b: "bsm \<le> MAX_BLOCK_SIZE" and o: "out_ok m start seg hist"
  shows "case ref_compressed raw bsm ws dict window hist seg of
      None \<Rightarrow> \<exists>e. decompress_block raw bsm ws dict (seg_dst start seg window) (ExtHistory_dict (DICT, 0) (length hist)) simd m = Inl (Err e)
    | Some (ws', out) \<Rightarrow> \<exists>m'. decompress_block raw bsm ws dict (seg_dst start seg window) (ExtHistory_dict (DICT, 0) (length hist)) simd m = Inr (m', ws', length out)
        \<and> block_done m m' start seg out"
proof -
  have b32: "bsm < 2 ^ 32" using b by (simp add: MAX_BLOCK_SIZE_def)
  define repeat where "repeat = (if ws_huf_from_dict ws then map_option de_huf dict else None)"
  have ok: "scratch_ok (ws_huf ws)" "\<forall>t. repeat = Some t \<longrightarrow> scratch_ok t" using ws by (auto simp: ws_ok_def repeat_def)
  note dd = decompress_block_def [of raw bsm ws dict "seg_dst start seg window" "ExtHistory_dict (DICT, 0) (length hist)" simd m, folded repeat_def]
  note rd = ref_compressed_def [of raw bsm ws dict window hist seg, folded repeat_def]
  from split_block_cases [OF b32, of raw] show ?thesis
  proof (elim disjE exE conjE)
    fix e assume "split_block raw bsm = Inl (Err e)"
    then show ?thesis unfolding dd rd by simp
  next
    fix parts assume p: "split_block raw bsm = Inr parts" "parts_ok parts bsm"
    from decode_block_literals_cases [OF ok p(2)] show ?thesis
    proof (elim disjE exE conjE)
      fix e assume "decode_block_literals parts (ws_huf ws) repeat = Inl (Err e)"
      then show ?thesis unfolding dd rd using p(1) by simp
    next
      fix huf lits
      assume l: "decode_block_literals parts (ws_huf ws) repeat = Inr (huf, lits @ replicate 32 0)" "length lits = regenerated_size (bp_literals parts)"
      define ws1 where "ws1 = ws\<lparr>ws_huf := huf, ws_literals_buffer := lits @ replicate 32 0,
               ws_huf_from_dict := (ws_huf_from_dict ws \<and> ls_type (bp_literals parts) \<noteq> CompressedLits)\<rparr>"
      have w1: "ws_fse ws1 = ws_fse ws" "ws_offset_hist ws1 = ws_offset_hist ws" by (simp_all add: ws1_def)
      have ll: "length lits \<le> bsm" using l(2) p(2) by (simp add: parts_ok_def)
      let ?hdr = "bp_sequences parts" and ?src = "bp_sequences_src parts" and ?m = "m(LIT := lits @ replicate 32 0)"
      show ?thesis
      proof (cases "num_sequences ?hdr = 0")
        case True
        then show ?thesis
          using copy_block_ok [OF o, of lits] ll b
          unfolding dd rd p(1) res_bind_simps sum.case Let_def l(1) case_prod_conv
          by (auto simp: WILDCOPY_OVERLENGTH_def seg_dst_def padd_def block_done_def)
      next
        case False
        have m: "sh_modes ?hdr < 256" "fse_scratch_ok (ws_fse ws) (map_option de_fse dict)" "hist_ok (ws_offset_hist ws)"
          using p(2) ws by (auto simp: parts_ok_def ws_ok_def)
        from build_sequence_tables_cases [OF m(2,1), of ?src] show ?thesis
        proof (elim disjE exE conjE)
          fix e assume "build_sequence_tables ?hdr ?src (ws_fse ws) = Inl (Err e)"
          then show ?thesis unfolding dd rd using p(1) l(1) False by (simp add: Let_def)
        next
          fix fse n assume t: "build_sequence_tables ?hdr ?src (ws_fse ws) = Inr (fse, n)" "n \<le> length ?src" "\<forall>t < 3. usable fse (map_option de_fse dict) t"
          obtain tabs where tabs: "scratch_tables fse (map_option de_fse dict) = Inr tabs" "tables_ok tabs"
            using scratch_tables_ok [OF t(3)] by (auto simp: tables_ok_def)
          have n1: "1 \<le> num_sequences ?hdr" using False by simp
          have eq: "decompress_block raw bsm ws dict (seg_dst start seg window) (ExtHistory_dict (DICT, 0) (length hist)) simd m =
              res_bind (execute_with_copies simd (fst (snd tabs)) (if eh_len (ExtHistory_dict (DICT, 0) (length hist)) = 0
                then SeqInput (lit_seqs (num_sequences ?hdr) (drop n ?src) tabs (length lits + 32))
                else ExtSeqInput (lit_seqs (num_sequences ?hdr) (drop n ?src) tabs (length lits + 32)) (ExtHistory_dict (DICT, 0) (length hist)))
                (ws_offset_hist ws) bsm (seg_dst start seg window) ?m) (\<lambda>(m, e, reps). Inr (m, ws1\<lparr>ws_fse := fse, ws_offset_hist := reps\<rparr>, e))"
            unfolding dd p(1) res_bind_simps Let_def l(1) case_prod_conv lit_seqs_def using False t(1,2) tabs(1) by (simp add: Let_def ws1_def)
          have rf: "ref_compressed raw bsm ws dict window hist seg =
              (case spec_block (seq_result (hist \<noteq> []) True window hist (length seg + MAX_BLOCK_SIZE)) (drop n ?src) tabs (num_sequences ?hdr)
                  (length seg + MAX_BLOCK_SIZE) (ws_offset_hist ws) (seg, lits) of
                 None \<Rightarrow> None
               | Some (out, reps) \<Rightarrow> if bsm < length out - length seg then None else Some (ws1\<lparr>ws_fse := fse, ws_offset_hist := reps\<rparr>, out))"
            unfolding rd p(1) sum.case l(1) case_prod_conv Let_def ws1_def using False t(1) tabs(1) by (simp add: Let_def ws1_def WILDCOPY_OVERLENGTH_def)
          show ?thesis using exec_block_ok [OF o tabs(2) n1 m(3), where window = window and bits = "drop n ?src" and lits = lits and simd = simd and bsm = bsm]
            unfolding eq rf block_done_def by (auto split: option.splits if_splits)
        qed
      qed
    qed
  qed
qed

section \<open>Blocks in the output vector\<close>

definition ref_bytes :: "block_header \<Rightarrow> u8 list \<Rightarrow> nat \<Rightarrow> nat \<Rightarrow> decoder_scratch \<Rightarrow> dict_entropy option \<Rightarrow> u8 list \<Rightarrow> u8 list
    \<Rightarrow> (decoder_scratch \<times> u8 list) option" where
  "ref_bytes block content block_size_max window ws dict hist seg =
     (case block_type block of
        RawBlock \<Rightarrow> Some (ws, seg @ content)
      | RleBlock \<Rightarrow> if content = [] then None else Some (ws, seg @ replicate (decompressed_size block) (hd content))
      | CompressedBlock \<Rightarrow> ref_compressed content block_size_max ws dict window hist seg
      | ReservedBlock \<Rightarrow> None)"

definition ref_block :: "block_header \<Rightarrow> u8 list \<Rightarrow> frame \<Rightarrow> decoder_scratch \<Rightarrow> dict_entropy option \<Rightarrow> u8 list \<Rightarrow> u8 list
    \<Rightarrow> (decoder_scratch \<times> frame \<times> u8 list) option" where
  "ref_block block content fr ws dict hist seg =
     (case ref_bytes block content (fr_block_size_max fr) (fr_window fr) ws dict hist seg of
        None \<Rightarrow> None
      | Some (ws, out) \<Rightarrow>
          (case block_decoded fr (drop (length seg) out) of Inl e \<Rightarrow> None | Inr fr \<Rightarrow> Some (ws, fr, out)))"

text \<open>A block within the bounds that \<open>parse_block_header\<close> sets.\<close>

definition block_fits :: "block_header \<Rightarrow> u8 list \<Rightarrow> nat \<Rightarrow> bool" where
  "block_fits block content bsm \<longleftrightarrow>
     (block_type block = RawBlock \<longrightarrow> decompressed_size block = length content \<and> length content \<le> bsm) \<and>
     (block_type block = RleBlock \<longrightarrow> content \<noteq> [] \<and> decompressed_size block \<le> bsm)"

definition vec_ok :: "nat \<Rightarrow> mem \<Rightarrow> vec_out \<Rightarrow> u8 list \<Rightarrow> u8 list \<Rightarrow> u8 list \<Rightarrow> bool" where
  "vec_ok N m out done seg hist \<longleftrightarrow>
     take (vo_len out) (m OUT) = done @ seg \<and> vo_start out = length done \<and> vo_len out = length done + length seg \<and>
     vo_len out \<le> length (m OUT) \<and> length (m OUT) \<le> 2 * N \<and>
     vo_dict_len out = length hist \<and> take (length hist) (m DICT) = hist \<and> length hist < 2 ^ 63"

lemma vec_try_reserve_ok:
  assumes "len + n \<le> N" "2 * N < 2 ^ 63" "8 \<le> N" "length (m OUT) \<le> 2 * N" "len \<le> length (m OUT)"
  shows "\<exists>m'. vec_try_reserve m len n = Some m' \<and> take len (m' OUT) = take len (m OUT) \<and> len + n \<le> length (m' OUT)
    \<and> length (m' OUT) \<le> 2 * N \<and> m' = m(OUT := m' OUT) \<and> length (m OUT) \<le> length (m' OUT)"
proof (cases "len + n \<le> length (m OUT)")
  case False
  then have c: "max (max (len + n) (2 * length (m OUT))) 8 \<le> 2 * N" using assms by simp
  then show ?thesis using False assms unfolding vec_try_reserve_def Let_def by (auto simp: min_def)
qed (use assms in \<open>simp add: vec_try_reserve_def\<close>)

lemma vec_ok_out_ok:
  assumes "vec_ok N m out done seg hist" and "vo_len out + MAX_BLOCK_SIZE + WILDCOPY_OVERLENGTH \<le> length (m OUT)" and "2 * N < 2 ^ 63"
  shows "out_ok m (length done) seg hist"
proof -
  have "bytes (m OUT) (length done) (length done + length seg) = drop (length done) (take (length done + length seg) (m OUT))"
    by (simp add: bytes_def drop_take)
  then show ?thesis using assms by (auto simp: vec_ok_def out_ok_def WILDCOPY_OVERLENGTH_def)
qed

text \<open>The bytes of a block written after the segment.\<close>

lemma vec_ok_commit:
  assumes v: "vec_ok N m out done seg hist" and d: "block_done m m' (length done) seg (seg @ ys)" and l: "length done + length (seg @ ys) \<le> length (m OUT)"
  shows "vec_ok N m' (out\<lparr>vo_len := vo_start out + length (seg @ ys)\<rparr>) done (seg @ ys) hist"
    and "bytes (m' OUT) (vo_len out) (vo_start out + length (seg @ ys)) = ys"
proof -
  obtain buf where w: "wrote (m(LIT := buf)) m' OUT (length done + length seg) (length done + length (seg @ ys))"
    and b: "bytes (m' OUT) (length done) (length done + length (seg @ ys)) = seg @ ys" using d by (auto simp: block_done_def)
  have len: "length (m' OUT) = length (m OUT)" using wrote_length [OF w, of OUT] by (simp add: OUT_def LIT_def)
  have dict: "m' DICT = m DICT" using wrote_other [OF w, of DICT] by (simp add: OUT_def LIT_def DICT_def)
  have before: "m' OUT ! k = m OUT ! k" if "k < length done + length seg" for k
    using wrote_before [OF w that] by (simp add: OUT_def LIT_def)
  have t: "take (length done) (m' OUT) = done"
  proof (rule nth_equalityI)
    show "length (take (length done) (m' OUT)) = length done" using l len by simp
    fix i assume i: "i < length (take (length done) (m' OUT))"
    then have "m' OUT ! i = m OUT ! i" "i < length done" using before [of i] by auto
    moreover have "take (vo_len out) (m OUT) ! i = (done @ seg) ! i" using v unfolding vec_ok_def by metis
    ultimately show "take (length done) (m' OUT) ! i = done ! i" using v i by (simp add: vec_ok_def nth_append)
  qed
  have "take (length done + length (seg @ ys)) (m' OUT) = take (length done) (m' OUT) @ bytes (m' OUT) (length done) (length done + length (seg @ ys))"
    by (simp add: bytes_def take_add)
  then have all: "take (length done + length (seg @ ys)) (m' OUT) = done @ seg @ ys" unfolding t b .
  then show "vec_ok N m' (out\<lparr>vo_len := vo_start out + length (seg @ ys)\<rparr>) done (seg @ ys) hist"
    using v l len dict by (simp add: vec_ok_def)
  have "bytes (m' OUT) (vo_len out) (vo_start out + length (seg @ ys)) = drop (vo_len out) (take (length done + length (seg @ ys)) (m' OUT))"
    using v by (simp add: bytes_def drop_take vec_ok_def)
  then show "bytes (m' OUT) (vo_len out) (vo_start out + length (seg @ ys)) = ys" unfolding all using v by (simp add: vec_ok_def)
qed

lemma store_block_done:
  assumes o: "out_ok m start seg hist" and l: "length ys \<le> MAX_BLOCK_SIZE"
  shows "\<exists>m'. store m (OUT, start + length seg) ys = Inr m' \<and> block_done m m' start seg (seg @ ys)"
proof -
  define m' where "m' = m(OUT := put_slice (m OUT) (start + length seg) ys)"
  have len: "start + length seg + length ys + 32 \<le> length (m OUT)" and seg: "bytes (m OUT) start (start + length seg) = seg"
    using o l by (auto simp: out_ok_def WILDCOPY_OVERLENGTH_def)
  have st: "store m (OUT, start + length seg) ys = Inr m'" using len by (simp add: store_def m'_def)
  have w: "wrote (m(LIT := m LIT)) m' OUT (start + length seg) (start + length (seg @ ys))"
    using len unfolding wrote_def m'_def by (auto simp: put_slice_def nth_append)
  have "bytes (m' OUT) start (start + length (seg @ ys)) = drop start (take (start + length seg + length ys) (m' OUT))"
    by (simp add: bytes_def drop_take add.assoc)
  also have "\<dots> = drop start (take (start + length seg) (m OUT)) @ ys"
    using len take_put_slice [of "start + length seg" "m OUT" ys] by (simp add: m'_def)
  also have "\<dots> = seg @ ys" using seg by (simp add: bytes_def drop_take)
  finally show ?thesis using st w unfolding block_done_def by blast
qed

lemma block_decoded_fr:
  assumes "block_decoded fr ys = Inr fr'"
  shows "fr_decoded fr' = fr_decoded fr + length ys" "fr_window fr' = fr_window fr" "fr_block_size_max fr' = fr_block_size_max fr"
    "fr_content_size fr' = fr_content_size fr" "\<And>fcs. fr_content_size fr = Some fcs \<Longrightarrow> fr_decoded fr' \<le> fcs"
    "fr_checksum fr' = map_option (\<lambda>h. xxh_update h ys) (fr_checksum fr)"
  using assms by (auto simp: block_decoded_def Let_def split: if_splits option.splits)

text \<open>What a block of the reference keeps.\<close>

lemma ref_bytes_ok:
  assumes ws: "ws_ok ws dict" and b: "bsm \<le> MAX_BLOCK_SIZE" and f: "block_fits block content bsm"
    and r: "ref_bytes block content bsm window ws dict hist seg = Some (ws', out)"
  shows "ws_ok ws' dict \<and> (\<exists>ys. out = seg @ ys \<and> length ys \<le> block_bound block bsm \<and> length ys \<le> bsm)"
proof (cases "block_type block")
  case CompressedBlock
  then show ?thesis using ref_compressed_ok [OF ws b, of content window hist seg ws' out] r by (auto simp: ref_bytes_def block_bound_def)
qed (use r ws f in \<open>auto simp: ref_bytes_def block_fits_def block_bound_def split: if_splits\<close>)

lemma decode_block_ok:
  assumes ws: "ws_ok ws dict" and b: "fr_block_size_max fr \<le> MAX_BLOCK_SIZE" and f: "block_fits block content (fr_block_size_max fr)"
    and v: "vec_ok N m out done seg hist" "vo_window out = fr_window fr" and n: "vo_len out + MAX_BLOCK_SIZE + WILDCOPY_OVERLENGTH \<le> N" "2 * N < 2 ^ 63"
    and dec: "fr_decoded fr = length seg"
  shows "case ref_block block content fr ws dict hist seg of
      None \<Rightarrow> \<exists>e. decode_block VecOut block content fr ws dict simd m out = Inl (Err e)
    | Some (ws', fr', seg') \<Rightarrow> \<exists>m' out'. decode_block VecOut block content fr ws dict simd m out = Inr (m', out', ws', fr')
        \<and> vec_ok N m' out' done seg' hist \<and> vo_window out' = fr_window fr'"
proof -
  have n8: "8 \<le> N" using n(1) by (simp add: WILDCOPY_OVERLENGTH_def)
  obtain m1 where r: "vec_try_reserve m (vo_len out) (MAX_BLOCK_SIZE + WILDCOPY_OVERLENGTH) = Some m1" and t: "take (vo_len out) (m1 OUT) = take (vo_len out) (m OUT)"
    and l: "vo_len out + (MAX_BLOCK_SIZE + WILDCOPY_OVERLENGTH) \<le> length (m1 OUT)" "length (m1 OUT) \<le> 2 * N" and same: "m1 = m(OUT := m1 OUT)"
    using vec_try_reserve_ok [of "vo_len out" "MAX_BLOCK_SIZE + WILDCOPY_OVERLENGTH" N m] n n8 v(1) by (auto simp: vec_ok_def)
  have "m1 DICT = m DICT" using fun_cong [OF same, of DICT] by (simp add: OUT_def DICT_def)
  then have v1: "vec_ok N m1 out done seg hist" using v(1) t l unfolding vec_ok_def by (elim conjE) simp
  have o: "out_ok m1 (length done) seg hist" by (rule vec_ok_out_ok [OF v1 _ n(2)]) (use l(1) in simp)
  have dst: "fo_block_dst VecOut m out = Inr (m1, out, seg_dst (length done) seg (fr_window fr), ExtHistory_dict (DICT, 0) (length hist))"
    using v r by (simp add: VecOut_def prefix_dst_def vec_reserve_def seg_dst_def vec_ok_def)
  define at where "at = padd (d_base (seg_dst (length done) seg (fr_window fr))) (length seg)"
  define code where "code = (case block_type block of
          RawBlock \<Rightarrow> res_bind (store m1 at content) (\<lambda>m. Inr (m, ws, length seg + length content))
        | RleBlock \<Rightarrow> res_bind (index content 0) (\<lambda>b.
            res_bind (store m1 at (replicate (decompressed_size block) b)) (\<lambda>m. Inr (m, ws, length seg + decompressed_size block)))
        | CompressedBlock \<Rightarrow> decompress_block content (fr_block_size_max fr) ws dict (seg_dst (length done) seg (fr_window fr))
            (ExtHistory_dict (DICT, 0) (length hist)) simd m1
        | ReservedBlock \<Rightarrow> Inl (Err (SectionError BlockReserved)))"
  have at: "at = (OUT, length done + length seg)" by (simp add: at_def seg_dst_def padd_def)
  have op: "d_op (seg_dst (length done) seg (fr_window fr)) = length seg" by (simp add: seg_dst_def)
  have eq: "decode_block VecOut block content fr ws dict simd m out =
      res_bind code (\<lambda>(m, ws, e). let (out, bytes') = fo_commit VecOut e m out in res_bind (block_decoded fr bytes') (\<lambda>fr. Inr (m, out, ws, fr)))"
    unfolding decode_block_def dst res_bind_simps case_prod_conv Let_def op at_def [symmetric] code_def by (rule refl)
  define q where "q = ref_bytes block content (fr_block_size_max fr) (fr_window fr) ws dict hist seg"
  have sim: "case q of None \<Rightarrow> \<exists>e. code = Inl (Err e)
    | Some (ws', seg') \<Rightarrow> \<exists>m' ys. seg' = seg @ ys \<and> length ys \<le> MAX_BLOCK_SIZE \<and> code = Inr (m', ws', length seg') \<and> block_done m1 m' (length done) seg seg'"
  proof (cases "block_type block")
    case RawBlock
    have "length content \<le> MAX_BLOCK_SIZE" using f b RawBlock by (simp add: block_fits_def)
    then show ?thesis using store_block_done [OF o, of content] RawBlock by (auto simp: q_def ref_bytes_def code_def at)
  next
    case RleBlock
    have "decompressed_size block \<le> MAX_BLOCK_SIZE" "content \<noteq> []" using f b RleBlock by (auto simp: block_fits_def)
    then show ?thesis using store_block_done [OF o, of "replicate (decompressed_size block) (hd content)"] RleBlock
      by (auto simp: q_def ref_bytes_def code_def at index_def hd_conv_nth)
  next
    case CompressedBlock
    then show ?thesis using decompress_block_ok [OF ws b o, of content "fr_window fr" simd] ref_compressed_ok [OF ws b, of content "fr_window fr" hist seg] b
      unfolding q_def ref_bytes_def code_def by (fastforce split: option.splits)
  next
    case ReservedBlock
    then show ?thesis by (simp add: q_def ref_bytes_def code_def)
  qed
  have rb: "ref_block block content fr ws dict hist seg = (case q of None \<Rightarrow> None | Some (ws, out) \<Rightarrow>
      (case block_decoded fr (drop (length seg) out) of Inl e \<Rightarrow> None | Inr fr \<Rightarrow> Some (ws, fr, out)))"
    unfolding ref_block_def q_def by (rule refl)
  show ?thesis
  proof (cases q)
    case None
    then show ?thesis using sim unfolding eq rb by auto
  next
    case (Some p)
    then obtain ws' m' ys where p: "q = Some (ws', seg @ ys)" "length ys \<le> MAX_BLOCK_SIZE" "code = Inr (m', ws', length (seg @ ys))"
      "block_done m1 m' (length done) seg (seg @ ys)" using sim by auto
    have le: "length done + length (seg @ ys) \<le> length (m1 OUT)" using l(1) p(2) v(1) by (simp add: vec_ok_def)
    note c = vec_ok_commit [OF v1 p(4) le]
    have e: "decode_block VecOut block content fr ws dict simd m out
        = res_bind (block_decoded fr ys) (\<lambda>fr. Inr (m', out\<lparr>vo_len := vo_start out + length (seg @ ys)\<rparr>, ws', fr))"
      unfolding eq p(3) res_bind_simps case_prod_conv using c(2) by (simp add: VecOut_def Let_def)
    have "fr_decoded fr + length ys < 2 ^ 63" using dec p(2) n(1,2) v(1) unfolding vec_ok_def by linarith
    then have "(\<exists>e. block_decoded fr ys = Inl (Err e)) \<or> (\<exists>fr'. block_decoded fr ys = Inr fr')" by (auto simp: block_decoded_def Let_def split: option.splits)
    moreover have "ref_block block content fr ws dict hist seg = (case block_decoded fr ys of Inl e \<Rightarrow> None | Inr fr \<Rightarrow> Some (ws', fr, seg @ ys))"
      unfolding rb p(1) by simp
    moreover have "vo_window (out\<lparr>vo_len := vo_start out + length (seg @ ys)\<rparr>) = fr_window fr'" if "block_decoded fr ys = Inr fr'" for fr'
      using v(2) block_decoded_fr(2) [OF that] by simp
    ultimately show ?thesis using c(1) unfolding e by (elim disjE exE) (simp del: length_append)+
  qed
qed

lemma huffman_reset_ok: "scratch_ok t \<Longrightarrow> scratch_ok (huffman_reset t)"
  by (simp add: scratch_ok_def huffman_reset_def huffman_inv_def fse_reset_def)

lemma ws_ok_new: "ws_ok decoder_scratch_new None"
  using scratch_new scratch_new_ok by (simp add: ws_ok_def decoder_scratch_new_def hist_ok_def)

lemma ws_ok_reset: "ws_ok ws dict \<Longrightarrow> ws_ok (decoder_scratch_reset ws) None"
  using huffman_reset_ok scratch_reset_ok by (auto simp: ws_ok_def decoder_scratch_reset_def hist_ok_def)

text \<open>A frame that starts from a dictionary uses its tables and its repeat offsets.\<close>

lemma ws_ok_load_dict:
  assumes "ws_ok ws None" and e: "entropy_ok e n"
  shows "ws_ok (load_dict ws e) (Some e)"
proof -
  have "own_ok (ws_fse ws) t \<Longrightarrow> own_ok ((ws_fse ws)\<lparr>fs_source := ss\<rparr>) t" for t ss by (simp add: own_ok_def)
  then have "fse_scratch_ok (ws_fse (load_dict ws e)) (Some (de_fse e))" using assms by (simp add: ws_ok_def load_dict_def fse_scratch_ok_def entropy_ok_def)
  moreover have "hist_ok (de_rep e)" using e by (fastforce simp: entropy_ok_def hist_ok_def)
  ultimately show ?thesis using assms by (simp add: ws_ok_def load_dict_def entropy_ok_def)
qed

text \<open>C33: a block of any type decodes to exactly what the reference says.  For a scratch in use, a block within the bounds of
  its header and an output vector that holds the frames \<open>done\<close> and the segment \<open>seg\<close>, \<open>decode_block\<close> into \<open>VecOut\<close>
  reports an error exactly where the reference has no result, and otherwise leaves the vector, the scratch and the frame
  as the reference says.  It never panics, even when the vector grows, and never leaves its buffers.\<close>

theorem decode_block_correct:
  assumes "ws_ok ws dict" and "fr_block_size_max fr \<le> MAX_BLOCK_SIZE" and "block_fits block content (fr_block_size_max fr)"
    and "vec_ok N m out done seg hist" and "vo_window out = fr_window fr" and "vo_len out + MAX_BLOCK_SIZE + WILDCOPY_OVERLENGTH \<le> N" and "2 * N < 2 ^ 63"
    and "fr_decoded fr = length seg"
  shows "case ref_block block content fr ws dict hist seg of
      None \<Rightarrow> \<exists>e. decode_block VecOut block content fr ws dict simd m out = Inl (Err e)
    | Some (ws', fr', seg') \<Rightarrow> \<exists>m' out'. decode_block VecOut block content fr ws dict simd m out = Inr (m', out', ws', fr')
        \<and> vec_ok N m' out' done seg' hist \<and> vo_window out' = fr_window fr'"
  by (rule decode_block_ok [OF assms])

definition frame_example :: frame where
  "frame_example = \<lparr>fr_window = 1024, fr_block_size_max = 1024, fr_content_size = Some 10, fr_decoded = 0, fr_checksum = None\<rparr>"

definition rle_example :: block_header where
  "rle_example = \<lparr>last_block = True, block_type = RleBlock, decompressed_size = 5, content_size = 1\<rparr>"

theorem decode_block_correct_witness:
  "\<exists>m' out'. decode_block VecOut rle_example [7] frame_example decoder_scratch_new None LevelOther (\<lambda>_. [])
      \<lparr>vo_len = 0, vo_start = 0, vo_window = 1024, vo_dict_len = 0\<rparr> = Inr (m', out', decoder_scratch_new, frame_example\<lparr>fr_decoded := 5\<rparr>)
    \<and> vec_ok 200000 m' out' [] (replicate 5 7) []"
proof -
  have r: "ref_block rle_example [7] frame_example decoder_scratch_new None [] [] = Some (decoder_scratch_new, frame_example\<lparr>fr_decoded := 5\<rparr>, replicate 5 7)"
    by (simp add: ref_block_def ref_bytes_def rle_example_def frame_example_def block_decoded_def)
  have "case ref_block rle_example [7] frame_example decoder_scratch_new None [] [] of
      None \<Rightarrow> \<exists>e. decode_block VecOut rle_example [7] frame_example decoder_scratch_new None LevelOther (\<lambda>_. []) \<lparr>vo_len = 0, vo_start = 0, vo_window = 1024, vo_dict_len = 0\<rparr> = Inl (Err e)
    | Some (ws', fr', seg') \<Rightarrow> \<exists>m' out'. decode_block VecOut rle_example [7] frame_example decoder_scratch_new None LevelOther (\<lambda>_. [])
        \<lparr>vo_len = 0, vo_start = 0, vo_window = 1024, vo_dict_len = 0\<rparr> = Inr (m', out', ws', fr')
        \<and> vec_ok 200000 m' out' [] seg' [] \<and> vo_window out' = fr_window fr'"
    by (rule decode_block_correct [OF ws_ok_new])
      (simp_all add: frame_example_def rle_example_def block_fits_def vec_ok_def MAX_BLOCK_SIZE_def WILDCOPY_OVERLENGTH_def)
  then show ?thesis unfolding r by auto
qed

end
