(* ===== verification/Frame_Decoder.thy ===== *)
theory Frame_Decoder
  imports Block_Decoder
begin

text \<open>
  Frames (\<open>src/src/decode.rs\<close>): \<open>FrameDecoder\<close>, the state machine that takes the input one unit at a time, and the
  one-shot driver \<open>decompress_frames\<close> with its entry points.

  The \<open>parallel\<close> feature is off.  The reference \<open>ref_frames\<close> has no stages and no memory: it decodes one frame after
  the other by recursion.  The driver ends on every input, never panics and implements the reference.
\<close>

section \<open>The state machine\<close>

datatype stage =
    StageFrameHeader
  | StageSkip nat
  | StageBlock frame "block_header option"
  | StageChecksum nat

datatype event = FrameStarted | Continue | FrameEnded

record frame_decoder =
  fd_stage :: stage
  fd_scratch :: "decoder_scratch option"
  fd_simd :: simd_level

definition frame_decoder_new :: "simd_level \<Rightarrow> frame_decoder" where
  "frame_decoder_new simd = \<lparr>fd_stage = StageFrameHeader, fd_scratch = None, fd_simd = simd\<rparr>"

definition leave_frame :: "frame_decoder \<Rightarrow> frame_decoder \<times> stage" where
  "leave_frame dec = (dec\<lparr>fd_stage := StageFrameHeader\<rparr>, fd_stage dec)"

definition skipping :: "frame_decoder \<Rightarrow> bool" where
  "skipping dec = (case fd_stage dec of StageSkip left \<Rightarrow> True | _ \<Rightarrow> False)"

definition frame_start :: "frame_decoder \<Rightarrow> (frame \<times> decoder_scratch) res" where
  "frame_start dec =
     (case (fd_stage dec, fd_scratch dec) of
        (StageBlock fr header, Some ws) \<Rightarrow> Inr (fr, ws)
      | _ \<Rightarrow> Inl Panic)"

definition CHECKSUM_LEN :: nat where "CHECKSUM_LEN = 4"

definition unit_len :: "frame_decoder \<Rightarrow> u8 list \<Rightarrow> nat" where
  "unit_len dec head =
     (case fd_stage dec of
        StageFrameHeader \<Rightarrow> frame_header_len head
      | StageSkip left \<Rightarrow> left
      | StageBlock fr None \<Rightarrow> BLOCK_HEADER_LEN
      | StageBlock fr (Some block) \<Rightarrow> content_size block
      | StageChecksum computed \<Rightarrow> CHECKSUM_LEN)"

definition skip :: "frame_decoder \<Rightarrow> nat \<Rightarrow> frame_decoder \<times> nat \<times> bool" where
  "skip dec avail =
     (case fd_stage dec of
        StageSkip left \<Rightarrow>
          let n = min left avail in
          if left - n \<noteq> 0 then (dec\<lparr>fd_stage := StageSkip (left - n)\<rparr>, n, False)
          else (dec\<lparr>fd_stage := StageFrameHeader\<rparr>, n, True)
      | _ \<Rightarrow> (dec, 0, False))"

definition get_scratch :: "frame_decoder \<Rightarrow> decoder_scratch" where
  "get_scratch dec = (case fd_scratch dec of None \<Rightarrow> decoder_scratch_new | Some ws \<Rightarrow> ws)"

text \<open>The \<open>dictionary_wrong\<close> check.\<close>

definition dict_id_check :: "nat \<Rightarrow> decode_dict option \<Rightarrow> unit res" where
  "dict_id_check did dict =
     (if did = 0 then Inr ()
      else case dict of
        Some d \<Rightarrow> if did = dd_id d then Inr () else Inl (Err (FrameError (DictionaryWrong did (dd_id d))))
      | None \<Rightarrow> Inl (Err (FrameError (DictionaryMissing did))))"

definition dict_entropy_of :: "decode_dict option \<Rightarrow> dict_entropy option" where
  "dict_entropy_of dict = (case dict of None \<Rightarrow> None | Some d \<Rightarrow> dd_entropy d)"

text \<open>The scratch a frame starts with.\<close>

definition start_scratch :: "decoder_scratch \<Rightarrow> decode_dict option \<Rightarrow> decoder_scratch" where
  "start_scratch ws dict =
     (case dict_entropy_of dict of
        None \<Rightarrow> decoder_scratch_reset ws
      | Some e \<Rightarrow> load_dict (decoder_scratch_reset ws) e)"

definition process_frame_header :: "'o frame_out \<Rightarrow> frame_decoder \<Rightarrow> u8 list \<Rightarrow> 'o \<Rightarrow> decode_dict option \<Rightarrow> ('o \<times> frame_decoder \<times> event) res" where
  "process_frame_header ops dec unit out dict =
     (case parse_frame_header unit of
        Inl (Skip n) \<Rightarrow> Inr (out, dec\<lparr>fd_stage := StageSkip n\<rparr>, Continue)
      | Inl e \<Rightarrow> Inl (frame_header_error e)
      | Inr (header, n) \<Rightarrow>
          res_bind (frame_new header) (\<lambda>fr.
          res_bind (dict_id_check (fh_dict_id header) dict) (\<lambda>_.
          Inr (fo_start ops (fr_window fr) (fr_content_size fr) out,
               dec\<lparr>fd_scratch := Some (start_scratch (get_scratch dec) dict), fd_stage := StageBlock fr None\<rparr>, FrameStarted))))"

definition blocks_ended :: "frame_decoder \<Rightarrow> (frame_decoder \<times> event) res" where
  "blocks_ended dec =
     (case leave_frame dec of
        (dec, StageBlock fr header) \<Rightarrow>
          res_bind (case fr_content_size fr of
             Some fcs \<Rightarrow> if fr_decoded fr \<noteq> fcs then Inl (Err (FrameError (ContentSizeMismatch fcs (fr_decoded fr)))) else Inr ()
           | None \<Rightarrow> Inr ()) (\<lambda>_.
          case fr_checksum fr of
             Some h \<Rightarrow> Inr (dec\<lparr>fd_stage := StageChecksum (unat (xxh_digest h) mod 2 ^ 32)\<rparr>, Continue)
           | None \<Rightarrow> Inr (dec, FrameEnded))
      | _ \<Rightarrow> Inl Panic)"


definition process :: "'o frame_out \<Rightarrow> frame_decoder \<Rightarrow> u8 list \<Rightarrow> mem \<Rightarrow> 'o \<Rightarrow> decode_dict option \<Rightarrow> (mem \<times> 'o \<times> frame_decoder \<times> event) res" where
  "process ops dec unit m out dict =
     (case fd_stage dec of
        StageFrameHeader \<Rightarrow> res_bind (process_frame_header ops dec unit out dict) (\<lambda>(out, dec, ev). Inr (m, out, dec, ev))
      | StageSkip left \<Rightarrow> Inl Panic
      | StageBlock fr None \<Rightarrow>
          res_bind (parse_block_header unit (fr_block_size_max fr)) (\<lambda>block.
          Inr (m, out, dec\<lparr>fd_stage := StageBlock fr (Some block)\<rparr>, Continue))
      | StageBlock fr (Some block) \<Rightarrow>
          res_bind (decode_block ops block unit fr (get_scratch dec) (dict_entropy_of dict) (fd_simd dec) m out) (\<lambda>(m, out, ws, fr).
          let dec = dec\<lparr>fd_stage := StageBlock fr None, fd_scratch := Some ws\<rparr> in
          if \<not> last_block block then Inr (m, out, dec, Continue)
          else res_bind (blocks_ended dec) (\<lambda>(dec, ev). Inr (m, out, dec, ev)))
      | StageChecksum computed \<Rightarrow>
          if length unit \<noteq> 4 then Inl Panic
          else if le_nat unit \<noteq> computed then Inl (Err (FrameError (ChecksumMismatch (le_nat unit) computed)))
          else Inr (m, out, dec\<lparr>fd_stage := StageFrameHeader\<rparr>, FrameEnded))"

definition end_of_input :: "frame_decoder \<Rightarrow> u8 list \<Rightarrow> unit res" where
  "end_of_input dec partial =
     (case fd_stage dec of
        StageFrameHeader \<Rightarrow>
          if partial = [] then Inr ()
          else if length partial < FRAME_HEADER_PREFIX_LEN then Inl (Err (FrameError (InputLeft (length partial))))
          else (case parse_frame_header partial of Inl e \<Rightarrow> Inl (frame_header_error e) | Inr _ \<Rightarrow> Inl Panic)
      | StageSkip left \<Rightarrow> Inl (Err (FrameError SkippablePastInput))
      | StageBlock fr None \<Rightarrow> (case parse_block_header partial (fr_block_size_max fr) of Inl e \<Rightarrow> Inl e | Inr _ \<Rightarrow> Inl Panic)
      | StageBlock fr (Some block) \<Rightarrow> Inl (Err (FrameError BlockContentTruncated))
      | StageChecksum computed \<Rightarrow> Inl (Err (FrameError ChecksumTruncated)))"

section \<open>The one-shot driver\<close>

text \<open>Stages in which the machine may move without taking input.\<close>

definition stage_rank :: "frame_decoder \<Rightarrow> nat" where
  "stage_rank dec = (case fd_stage dec of StageBlock fr (Some block) \<Rightarrow> 1 | _ \<Rightarrow> 0)"

lemma frame_header_len_pos: "0 < frame_header_len head"
  by (simp add: frame_header_len_def FRAME_HEADER_PREFIX_LEN_def SKIPPABLE_FRAME_HEADER_LEN_def Let_def split: option.splits)

text \<open>Only a block's content may be empty; taking it leaves the stage that waits for it.\<close>

lemma process_empty_unit:
  assumes "process ops dec unit m out dict = Inr (m', out', dec', ev)" and "unit_len dec rest = 0"
  shows "stage_rank dec = 1 \<and> stage_rank dec' = 0 \<and> \<not> skipping dec \<and> \<not> skipping dec'"
proof -
  obtain fr block where st: "fd_stage dec = StageBlock fr (Some block)"
    using assms frame_header_len_pos [of rest]
    by (auto simp: unit_len_def BLOCK_HEADER_LEN_def CHECKSUM_LEN_def process_def split: stage.splits option.splits)
  then have "stage_rank dec' = 0 \<and> \<not> skipping dec'" using assms(1)
    by (auto simp: process_def stage_rank_def skipping_def blocks_ended_def leave_frame_def Let_def res_simps split: if_splits option.splits stage.splits)
  then show ?thesis using st by (simp add: stage_rank_def skipping_def)
qed

lemma stage_rank_le: "stage_rank dec \<le> 1"
  by (simp add: stage_rank_def split: stage.splits option.splits)

lemma process_rank:
  assumes "process ops dec (take len rest) m out dict = Inr (m', out', dec', ev)" and "len = unit_len dec rest" and "len \<le> length rest"
  shows "2 * length (drop len rest) + stage_rank dec' < 2 * length rest + stage_rank dec"
  using process_empty_unit [OF assms(1), of rest] assms(2,3) stage_rank_le [of dec'] by (cases "0 < len") auto

lemma skip_cases:
  "skip dec n = (dec', k, fin) \<Longrightarrow>
     (\<forall>left. fd_stage dec \<noteq> StageSkip left) \<and> dec' = dec \<and> k = 0
     \<or> (\<exists>left. fd_stage dec = StageSkip left \<and> left \<le> n \<and> k = left \<and> dec' = dec\<lparr>fd_stage := StageFrameHeader\<rparr>)
     \<or> (\<exists>left. fd_stage dec = StageSkip left \<and> n < left \<and> k = n \<and> dec' = dec\<lparr>fd_stage := StageSkip (left - n)\<rparr>)"
  by (auto simp: skip_def Let_def min_def split: stage.splits if_splits)

lemma skip_rank: "skip dec n = (dec', k, fin) \<Longrightarrow> stage_rank dec' \<le> stage_rank dec"
  using skip_cases [of dec n dec' k fin] by (auto simp: stage_rank_def)

lemma decompress_loop_decreases:
  assumes "skip dec (length rest) = (dec1, k, fin)" and "len = unit_len dec1 (drop k rest)" and "\<not> length (drop k rest) < len"
    and "process VecOut dec1 (take len (drop k rest)) m out dict = Inr (m', out', dec', ev)"
  shows "2 * length (drop len (drop k rest)) + stage_rank dec' < 2 * length rest + stage_rank dec"
  using process_rank [OF assms(4,2)] assms(3) skip_rank [OF assms(1)] by simp

function decompress_loop :: "u8 list \<Rightarrow> frame_decoder \<Rightarrow> decode_dict option \<Rightarrow> mem \<Rightarrow> vec_out \<Rightarrow> (mem \<times> vec_out \<times> frame_decoder) res" where
  "decompress_loop rest dec dict m out =
     (let (dec, skipped, ended) = skip dec (length rest); rest = drop skipped rest; len = unit_len dec rest in
      if length rest < len then res_bind (end_of_input dec rest) (\<lambda>_. Inr (m, out, dec))
      else
        res_bind (process VecOut dec (take len rest) m out dict) (\<lambda>(m, out, dec, ev).
        if ev \<noteq> FrameStarted then decompress_loop (drop len rest) dec dict m out
        else
          res_bind (frame_start dec) (\<lambda>(fr, ws).
          res_bind (reserve_frame m (vo_len out) fr (drop len rest)) (\<lambda>m.
          decompress_loop (drop len rest) dec dict m out))))"
  by pat_completeness auto

termination
proof (relation "measure (\<lambda>(rest, dec, _). 2 * length rest + stage_rank dec)", goal_cases)
  case 1
  then show ?case by simp
next
  case (2 rest dec dict m out a dec1 b k fin rest' len p m' r out' r' dec' ev)
  then show ?case using decompress_loop_decreases [of dec rest dec1 k fin len m out dict m' out' dec' ev] by simp
next
  case (3 rest dec dict m out a dec1 b k fin rest' len p m' r out' r' dec' ev q fr ws m'')
  then show ?case using decompress_loop_decreases [of dec rest dec1 k fin len m out dict m' out' dec' ev] by simp
qed

declare decompress_loop.simps [simp del]

text \<open>\<open>decompress_frames\<close> appends to the vector of length \<open>len\<close>; the dictionary content is the allocation \<open>DICT\<close>.\<close>

definition decompress_frames :: "frame_decoder \<Rightarrow> u8 list \<Rightarrow> decode_dict option \<Rightarrow> mem \<Rightarrow> nat \<Rightarrow> (mem \<times> nat \<times> frame_decoder) res" where
  "decompress_frames dec data dict m len =
     (let content = (case dict of None \<Rightarrow> [] | Some d \<Rightarrow> dd_content d) in
      res_bind (decompress_loop data dec dict (m(DICT := content)) \<lparr>vo_len = len, vo_start = 0, vo_window = 0, vo_dict_len = length content\<rparr>)
        (\<lambda>(m, out, dec). Inr (m, vo_len out, dec)))"

definition COPY_OUT_MAX :: nat where "COPY_OUT_MAX = 1024"

text \<open>The vector returned, and the buffer left with its length.\<close>

definition take_output :: "u8 list \<Rightarrow> nat \<Rightarrow> u8 list \<times> u8 list \<times> nat" where
  "take_output buf len = (if COPY_OUT_MAX < len then (take len buf, [], 0) else (take len buf, buf, 0))"

definition decompress_with_dict_options :: "u8 list \<Rightarrow> decode_dict option \<Rightarrow> simd_level \<Rightarrow> u8 list res" where
  "decompress_with_dict_options data dict simd =
     res_bind (decompress_frames (frame_decoder_new simd) data dict (\<lambda>_. []) 0) (\<lambda>(m, len, dec).
     Inr (fst (take_output (m OUT) len)))"

definition decompress :: "u8 list \<Rightarrow> simd_level \<Rightarrow> u8 list res" where
  "decompress data simd = decompress_with_dict_options data None simd"

definition decompress_with_dict :: "u8 list \<Rightarrow> decode_dict \<Rightarrow> simd_level \<Rightarrow> u8 list res" where
  "decompress_with_dict data dict simd = decompress_with_dict_options data (Some dict) simd"

section \<open>Decoding without stages and memory\<close>

text \<open>The blocks of a frame after the segment \<open>seg\<close>, up to the last one.\<close>

function ref_blocks :: "u8 list \<Rightarrow> nat \<Rightarrow> nat \<Rightarrow> decoder_scratch \<Rightarrow> dict_entropy option \<Rightarrow> u8 list \<Rightarrow> u8 list
    \<Rightarrow> (u8 list \<times> decoder_scratch \<times> u8 list) option" where
  "ref_blocks rest bsm window ws dict hist seg =
     (case locate_block rest bsm of
        None \<Rightarrow> None
      | Some (block, content) \<Rightarrow>
          (case ref_bytes block content bsm window ws dict hist seg of
             None \<Rightarrow> None
           | Some (ws, seg) \<Rightarrow>
               let rest = drop (BLOCK_HEADER_LEN + length content) rest in
               if last_block block then Some (rest, ws, seg) else ref_blocks rest bsm window ws dict hist seg))"
  by pat_completeness auto
termination
  by (relation "measure (\<lambda>(rest, _). length rest)")
    (auto simp: locate_block_def get_range_def BLOCK_HEADER_LEN_def split: option.splits sum.splits if_splits)

declare ref_blocks.simps [simp del]

lemma ref_blocks_length: "ref_blocks rest bsm window ws dict hist seg = Some (rest', ws', out) \<Longrightarrow> length rest' \<le> length rest"
proof (induction rest bsm window ws dict hist seg rule: ref_blocks.induct)
  case (1 rest bsm window ws dict hist seg)
  from "1.prems" obtain block content ws1 seg1 where q: "locate_block rest bsm = Some (block, content)" "ref_bytes block content bsm window ws dict hist seg = Some (ws1, seg1)"
    by (subst (asm) ref_blocks.simps) (auto split: option.splits prod.splits)
  show ?case
  proof (cases "last_block block")
    case True
    then show ?thesis using "1.prems" q by (subst (asm) ref_blocks.simps) auto
  next
    case False
    then show ?thesis using "1.IH" [OF q(1) refl q(2) refl refl False] "1.prems" q by (subst (asm) (2) ref_blocks.simps) auto
  qed
qed

text \<open>A frame's end: the content size and the checksum of the content.\<close>

definition ref_finish :: "nat option \<Rightarrow> bool \<Rightarrow> u8 list \<times> decoder_scratch \<times> u8 list \<Rightarrow> (u8 list \<times> decoder_scratch \<times> u8 list) option" where
  "ref_finish fcs checksum r =
     (let (rest, ws, content) = r in
      if (case fcs of Some n \<Rightarrow> length content \<noteq> n | None \<Rightarrow> False) then None
      else if \<not> checksum then Some (rest, ws, content)
      else if length rest < 4 \<or> le_nat (take 4 rest) \<noteq> unat (xxh64_hash content) mod 2 ^ 32 then None
      else Some (drop 4 rest, ws, content))"

definition ref_frame :: "decode_dict option \<Rightarrow> frame_header \<Rightarrow> u8 list \<Rightarrow> decoder_scratch \<Rightarrow> (u8 list \<times> decoder_scratch \<times> u8 list) option" where
  "ref_frame dict header rest ws =
     (case window_size header of
        Inl e \<Rightarrow> None
      | Inr window \<Rightarrow>
          if fh_dict_id header \<noteq> 0 \<and> map_option dd_id dict \<noteq> Some (fh_dict_id header) then None
          else
            Option.bind (ref_blocks rest (min window MAX_BLOCK_SIZE) window (start_scratch ws dict) (dict_entropy_of dict)
                (case dict of None \<Rightarrow> [] | Some d \<Rightarrow> dd_content d) [])
              (ref_finish (frame_content_size header) (content_checksum_flag (fh_descriptor header))))"

lemma ref_finish_length: "ref_finish fcs c (rest, ws, content) = Some (rest', ws', content') \<Longrightarrow> length rest' \<le> length rest"
  by (auto simp: ref_finish_def Let_def split: if_splits)

lemma ref_frame_length: "ref_frame dict header rest ws = Some (rest', ws', content) \<Longrightarrow> length rest' \<le> length rest"
  using ref_blocks_length ref_finish_length
  by (fastforce simp: ref_frame_def bind_eq_Some_conv intro: order_trans split: sum.splits if_splits)


section \<open>Headers\<close>

lemma frame_header_len_ge: "5 \<le> frame_header_len head"
  by (simp add: frame_header_len_def FRAME_HEADER_PREFIX_LEN_def SKIPPABLE_FRAME_HEADER_LEN_def Let_def split: option.splits)

lemma frame_header_len_take: "5 \<le> n \<Longrightarrow> frame_header_len (take n data) = frame_header_len data"
  by (simp add: frame_header_len_def get_range_def FRAME_HEADER_PREFIX_LEN_def min_def Let_def split: option.splits)

lemma parse_take_header:
  assumes "frame_header_len data \<le> length data"
  shows "parse_frame_header (take (frame_header_len data) data) = parse_frame_header data"
    "parse_frame_header data = Inr (h, k) \<Longrightarrow> k = frame_header_len data"
proof -
  let ?n = "frame_header_len data"
  have n: "frame_header_len (take ?n data) = ?n" "length (take ?n data) = ?n" using frame_header_len_take [OF frame_header_len_ge] assms by auto
  then show p: "parse_frame_header (take ?n data) = parse_frame_header data" using frame_header_len_ok [of "take ?n data" "drop ?n data"] by simp
  show "parse_frame_header data = Inr (h, k) \<Longrightarrow> k = ?n" using frame_header_len_ok [of "take ?n data" "[]"] n unfolding p by auto
qed

lemma dictionary_id_bytes_faults: "dictionary_id_bytes d = Inl f \<Longrightarrow> \<exists>e. f = Err e"
  by (auto simp: dictionary_id_bytes_def Let_def split: if_splits)

lemma content_size_bytes_faults: "frame_content_size_bytes d = Inl f \<Longrightarrow> \<exists>e. f = Err e"
  by (auto simp: frame_content_size_bytes_def Let_def split: if_splits)

lemma parse_frame_header_faults: "parse_frame_header data = Inl (HeaderFault f) \<Longrightarrow> \<exists>e. f = Err e"
  using dictionary_id_bytes_faults content_size_bytes_faults
  by (auto simp: parse_frame_header_def header_bind_def get_or_def Let_def split_def split: sum.splits option.splits if_splits)

lemma parse_frame_header_skip: "parse_frame_header data = Inl (Skip n) \<Longrightarrow> frame_header_len data = 8 \<and> 8 \<le> length data"
  by (auto simp: parse_frame_header_def header_bind_def get_or_def frame_header_len_def get_range_def FRAME_HEADER_PREFIX_LEN_def
    SKIPPABLE_FRAME_HEADER_LEN_def Let_def split_def min_def split: sum.splits option.splits if_splits)

lemma parse_frame_header_short:
  assumes "length data < frame_header_len data"
  shows "\<exists>e. parse_frame_header data = Inl (HeaderFault (Err e))"
proof (cases "parse_frame_header data")
  case (Inl e)
  show ?thesis
  proof (cases e)
    case (HeaderFault f)
    then show ?thesis using Inl parse_frame_header_faults [of data f] by auto
  next
    case (Skip n)
    then show ?thesis using Inl parse_frame_header_skip [of data n] assms by simp
  qed
next
  case (Inr p)
  then show ?thesis using frame_header_len_ok [of data "[]"] assms by (cases p) auto
qed

lemma window_size_faults: "window_size h = Inl f \<Longrightarrow> \<exists>e. f = Err e"
  by (auto simp: window_size_def Let_def split: if_splits)

lemma parse_block_header_cases:
  "(\<exists>e. parse_block_header src bsm = Inl (Err e)) \<or>
   (\<exists>block. parse_block_header src bsm = Inr block \<and> 3 \<le> length src
      \<and> (block_type block = RawBlock \<longrightarrow> content_size block = decompressed_size block)
      \<and> (block_type block = RleBlock \<longrightarrow> content_size block = 1) \<and> (block_type block \<noteq> CompressedBlock \<longrightarrow> decompressed_size block \<le> bsm))"
  unfolding parse_block_header_def by (auto simp: Let_def get_range_def split: option.splits if_splits)

lemma parse_frame_header_pos: "parse_frame_header data = Inr (h, k) \<Longrightarrow> k = frame_header_len data \<and> 5 \<le> k \<and> k \<le> length data"
  using parse_take_header(2) [of data h k] parse_frame_header_short [of data] frame_header_len_ge [of data] by (cases "frame_header_len data \<le> length data") auto

text \<open>The frames of an input, whole.\<close>

function ref_frames :: "decode_dict option \<Rightarrow> u8 list \<Rightarrow> decoder_scratch \<Rightarrow> u8 list option" where
  "ref_frames dict data ws =
     (if data = [] then Some []
      else case parse_frame_header data of
        Inl (HeaderFault f) \<Rightarrow> None
      | Inl (Skip n) \<Rightarrow> if length data < 8 + n then None else ref_frames dict (drop (8 + n) data) ws
      | Inr (header, k) \<Rightarrow>
          (case ref_frame dict header (drop k data) ws of
             None \<Rightarrow> None
           | Some (rest, ws, content) \<Rightarrow> map_option (\<lambda>xs. content @ xs) (ref_frames dict rest ws)))"
  by pat_completeness auto
termination
proof (relation "measure (\<lambda>(dict, data, ws). length data)", goal_cases)
  case 1
  then show ?case by simp
next
  case (2 dict data ws e n)
  then show ?case by simp
next
  case (3 dict data ws p header k r rest q ws' content)
  then have "5 \<le> k" "k \<le> length data" "length rest \<le> length (drop k data)"
    using parse_frame_header_pos [of data header k] ref_frame_length [of dict header "drop k data" ws rest ws' content] by auto
  then have "length rest < length data" by simp
  then show ?case by simp
qed

declare ref_frames.simps [simp del]

section \<open>The driver implements the reference\<close>

text \<open>What the reference makes of the input left, in every stage; \<open>seg\<close> is what the frame has decoded to.\<close>

definition ref_rest :: "decode_dict option \<Rightarrow> (u8 list \<times> decoder_scratch \<times> u8 list) option \<Rightarrow> u8 list option" where
  "ref_rest dict r = Option.bind r (\<lambda>(rest, ws, content). map_option (\<lambda>xs. content @ xs) (ref_frames dict rest ws))"

definition dict_hist :: "decode_dict option \<Rightarrow> u8 list" where
  "dict_hist dict = (case dict of None \<Rightarrow> [] | Some d \<Rightarrow> dd_content d)"

definition ref_from :: "decode_dict option \<Rightarrow> u8 list \<Rightarrow> frame_decoder \<Rightarrow> u8 list \<Rightarrow> u8 list option" where
  "ref_from dict rest dec seg =
     (let ws = get_scratch dec; de = dict_entropy_of dict; hist = dict_hist dict in
      case fd_stage dec of
        StageFrameHeader \<Rightarrow> ref_frames dict rest ws
      | StageSkip left \<Rightarrow> if length rest < left then None else ref_frames dict (drop left rest) ws
      | StageBlock fr None \<Rightarrow>
          ref_rest dict (Option.bind (ref_blocks rest (fr_block_size_max fr) (fr_window fr) ws de hist seg)
            (ref_finish (fr_content_size fr) (fr_checksum fr \<noteq> None)))
      | StageBlock fr (Some block) \<Rightarrow>
          if length rest < content_size block then None
          else ref_rest dict (Option.bind (Option.bind (ref_bytes block (take (content_size block) rest) (fr_block_size_max fr) (fr_window fr) ws de hist seg)
            (\<lambda>(ws, seg). if last_block block then Some (drop (content_size block) rest, ws, seg)
              else ref_blocks (drop (content_size block) rest) (fr_block_size_max fr) (fr_window fr) ws de hist seg))
            (ref_finish (fr_content_size fr) (fr_checksum fr \<noteq> None)))
      | StageChecksum computed \<Rightarrow>
          if length rest < 4 \<or> le_nat (take 4 rest) \<noteq> computed then None else ref_frames dict (drop 4 rest) ws)"

text \<open>The invariant of a stage.\<close>

definition stage_ok :: "decode_dict option \<Rightarrow> frame_decoder \<Rightarrow> vec_out \<Rightarrow> u8 list \<Rightarrow> bool" where
  "stage_ok dict dec out seg \<longleftrightarrow>
     (case fd_stage dec of
        StageBlock fr header \<Rightarrow>
          ws_ok (get_scratch dec) (dict_entropy_of dict) \<and> fr_block_size_max fr \<le> MAX_BLOCK_SIZE \<and> vo_window out = fr_window fr \<and>
          fr_decoded fr = length seg \<and> (\<forall>fcs. fr_content_size fr = Some fcs \<longrightarrow> length seg \<le> fcs) \<and>
          (\<forall>h. fr_checksum fr = Some h \<longrightarrow> xxh_repr h seg) \<and>
          (\<forall>block. header = Some block \<longrightarrow> (\<forall>content. length content = content_size block \<longrightarrow> block_fits block content (fr_block_size_max fr)))
      | _ \<Rightarrow> (\<exists>d. ws_ok (get_scratch dec) d) \<and> seg = [])"

definition vec_all :: "nat \<Rightarrow> mem \<Rightarrow> vec_out \<Rightarrow> frame_decoder \<Rightarrow> u8 list \<Rightarrow> u8 list \<Rightarrow> u8 list \<Rightarrow> bool" where
  "vec_all N m out dec done seg hist \<longleftrightarrow>
     (case fd_stage dec of
        StageBlock fr header \<Rightarrow> vec_ok N m out done seg hist
      | _ \<Rightarrow> \<exists>d s. d @ s = done @ seg \<and> vec_ok N m out d s hist)"


definition loop_inv :: "nat \<Rightarrow> decode_dict option \<Rightarrow> u8 list \<Rightarrow> frame_decoder \<Rightarrow> mem \<Rightarrow> vec_out \<Rightarrow> u8 list \<Rightarrow> u8 list \<Rightarrow> bool" where
  "loop_inv N dict rest dec m out done seg \<longleftrightarrow>
     stage_ok dict dec out seg \<and> vec_all N m out dec done seg (dict_hist dict) \<and>
     vo_len out + MAX_BLOCK_SIZE * (length rest + stage_rank dec) + 2 * MAX_BLOCK_SIZE + 32 \<le> N \<and> 2 * N < 2 ^ 63 \<and>
     (\<forall>d. dict = Some d \<longrightarrow> decode_dict_ok d)"

text \<open>A step of the machine: an error where the reference has no result, or a state that means the same.\<close>

definition step_ok :: "nat \<Rightarrow> decode_dict option \<Rightarrow> u8 list \<Rightarrow> frame_decoder \<Rightarrow> u8 list \<Rightarrow> u8 list \<Rightarrow> nat
    \<Rightarrow> (mem \<times> vec_out \<times> frame_decoder \<times> event) res \<Rightarrow> bool" where
  "step_ok N dict rest dec done seg len r \<longleftrightarrow>
     (case r of
        Inl f \<Rightarrow> (\<exists>e. f = Err e) \<and> ref_from dict rest dec seg = None
      | Inr (m, out, dec', ev) \<Rightarrow>
          (\<exists>done' seg'. loop_inv N dict (drop len rest) dec' m out done' seg' \<and>
             map_option (\<lambda>xs. done @ xs) (ref_from dict rest dec seg) = map_option (\<lambda>xs. done' @ xs) (ref_from dict (drop len rest) dec' seg')) \<and>
          (ev = FrameStarted \<longrightarrow> (\<exists>fr ws. fd_stage dec' = StageBlock fr None \<and> fd_scratch dec' = Some ws)))"

lemma stage_rank_simps [simp]:
  "stage_rank (dec\<lparr>fd_stage := StageFrameHeader\<rparr>) = 0" "stage_rank (dec\<lparr>fd_stage := StageSkip n\<rparr>) = 0" "stage_rank (dec\<lparr>fd_stage := StageChecksum c\<rparr>) = 0"
  "stage_rank (dec\<lparr>fd_stage := StageBlock fr None\<rparr>) = 0" "stage_rank (dec\<lparr>fd_stage := StageBlock fr (Some b)\<rparr>) = 1"
  by (simp_all add: stage_rank_def)

lemma get_scratch_simps [simp]:
  "get_scratch (dec\<lparr>fd_stage := s\<rparr>) = get_scratch dec" "get_scratch (dec\<lparr>fd_scratch := Some ws\<rparr>) = ws"
  by (simp_all add: get_scratch_def)

lemma ws_ok_start:
  assumes "ws_ok ws d" and "\<forall>d. dict = Some d \<longrightarrow> decode_dict_ok d"
  shows "ws_ok (start_scratch ws dict) (dict_entropy_of dict)"
  using ws_ok_reset [OF assms(1)] ws_ok_load_dict [of "decoder_scratch_reset ws"] assms(2)
  by (fastforce simp: start_scratch_def dict_entropy_of_def decode_dict_ok_def split: option.splits)

lemma dict_id_check_cases:
  "\<not> (n \<noteq> 0 \<and> map_option dd_id dict \<noteq> Some n) \<Longrightarrow> dict_id_check n dict = Inr ()"
  "n \<noteq> 0 \<and> map_option dd_id dict \<noteq> Some n \<Longrightarrow> \<exists>e. dict_id_check n dict = Inl (Err e)"
  by (auto simp: dict_id_check_def split: option.splits)

text \<open>A frame's header, or a skippable frame's.\<close>

lemma step_frame_header:
  assumes i: "loop_inv N dict rest dec m out done seg" and st: "fd_stage dec = StageFrameHeader"
    and len: "len = unit_len dec rest" "len \<le> length rest"
  shows "step_ok N dict rest dec done seg len (process VecOut dec (take len rest) m out dict)"
proof -
  have l: "len = frame_header_len rest" using len(1) st by (simp add: unit_len_def)
  have l5: "5 \<le> len" "rest \<noteq> []" using frame_header_len_ge [of rest] len(2) l by auto
  have p: "parse_frame_header (take len rest) = parse_frame_header rest" using parse_take_header(1) [of rest] len(2) l by simp
  let ?ws = "get_scratch dec"
  have rf: "ref_from dict rest dec seg = ref_frames dict rest ?ws" using st by (simp add: ref_from_def Let_def)
  have seg: "seg = []" and ws: "\<exists>d. ws_ok ?ws d" using i st by (auto simp: loop_inv_def stage_ok_def)
  have dict: "\<forall>d. dict = Some d \<longrightarrow> decode_dict_ok d" using i by (simp add: loop_inv_def)
  have v: "\<exists>d s. d @ s = done \<and> vec_ok N m out d s (dict_hist dict)" using i st seg by (simp add: loop_inv_def vec_all_def)
  have bnd: "vo_len out + MAX_BLOCK_SIZE * (length (drop len rest) + 1) + 2 * MAX_BLOCK_SIZE + 32 \<le> N" "2 * N < 2 ^ 63"
  proof -
    have "length (drop len rest) + 1 \<le> length rest" using l5 len(2) by simp
    then have "MAX_BLOCK_SIZE * (length (drop len rest) + 1) \<le> MAX_BLOCK_SIZE * (length rest + stage_rank dec)" by (intro mult_le_mono) auto
    then show "vo_len out + MAX_BLOCK_SIZE * (length (drop len rest) + 1) + 2 * MAX_BLOCK_SIZE + 32 \<le> N" "2 * N < 2 ^ 63"
      using i unfolding loop_inv_def by linarith+
  qed
  note pr = process_def [of VecOut dec "take len rest" m out dict, unfolded st stage.case process_frame_header_def p]
  show ?thesis
  proof (cases "parse_frame_header rest")
    case (Inl e)
    show ?thesis
    proof (cases e)
      case (HeaderFault f)
      then obtain e' where "f = Err e'" using Inl parse_frame_header_faults [of rest f] by auto
      then show ?thesis unfolding step_ok_def pr rf using HeaderFault Inl l5(2) by (simp add: frame_header_error_def ref_frames.simps [of dict rest])
    next
      case (Skip n)
      have l8: "len = 8" using parse_frame_header_skip [of rest n] Inl Skip l by simp
      have "ref_frames dict rest ?ws = ref_from dict (drop len rest) (dec\<lparr>fd_stage := StageSkip n\<rparr>) []"
        using Inl Skip l5(2) l8 len(2) by (auto simp: ref_from_def ref_frames.simps [of dict rest] Let_def add.commute)
      moreover have "loop_inv N dict (drop len rest) (dec\<lparr>fd_stage := StageSkip n\<rparr>) m out done []"
        using bnd v ws dict by (simp add: loop_inv_def stage_ok_def vec_all_def)
      ultimately show ?thesis unfolding step_ok_def pr rf using Inl Skip by auto
    qed
  next
    case (Inr q)
    obtain h k where q: "q = (h, k)" by (cases q)
    have k: "k = len" using parse_take_header(2) [of rest h k] len(2) l Inr q by simp
    have rr: "ref_frames dict rest ?ws = (case ref_frame dict h (drop len rest) ?ws of None \<Rightarrow> None
        | Some (rest, ws, content) \<Rightarrow> map_option (\<lambda>xs. content @ xs) (ref_frames dict rest ws))"
      using Inr q k l5(2) by (simp add: ref_frames.simps [of dict rest])
    show ?thesis
    proof (cases "window_size h")
      case (Inl f)
      then obtain e where "f = Err e" using window_size_faults by blast
      then show ?thesis unfolding step_ok_def pr rf rr using Inl Inr q by (simp add: frame_new_def ref_frame_def)
    next
      case (Inr w)
      note w = this
      define fr where "fr = \<lparr>fr_window = w, fr_block_size_max = min w MAX_BLOCK_SIZE, fr_content_size = frame_content_size h,
          fr_decoded = 0, fr_checksum = (if content_checksum_flag (fh_descriptor h) then Some xxh_new else None)\<rparr>"
      have fn: "frame_new h = Inr fr" using w by (simp add: frame_new_def fr_def)
      show ?thesis
      proof (cases "fh_dict_id h \<noteq> 0 \<and> map_option dd_id dict \<noteq> Some (fh_dict_id h)")
        case True
        then obtain e where "dict_id_check (fh_dict_id h) dict = Inl (Err e)" using dict_id_check_cases(2) by blast
        then show ?thesis unfolding step_ok_def pr rf rr using w True \<open>parse_frame_header rest = Inr q\<close> q fn by (simp add: ref_frame_def)
      next
        case False
        let ?dec = "dec\<lparr>fd_scratch := Some (start_scratch ?ws dict), fd_stage := StageBlock fr None\<rparr>"
        let ?out = "out\<lparr>vo_start := vo_len out, vo_window := w\<rparr>"
        have "dict_id_check (fh_dict_id h) dict = Inr ()" by (rule dict_id_check_cases(1) [OF False])
        then have r: "process VecOut dec (take len rest) m out dict = Inr (m, ?out, ?dec, FrameStarted)"
          unfolding pr using \<open>parse_frame_header rest = Inr q\<close> q fn by (simp add: VecOut_def fr_def)
        have c: "(fr_checksum fr \<noteq> None) = content_checksum_flag (fh_descriptor h)" by (simp add: fr_def)
        have "ref_frame dict h (drop len rest) ?ws = Option.bind (ref_blocks (drop len rest) (min w MAX_BLOCK_SIZE) w (start_scratch ?ws dict) (dict_entropy_of dict)
            (dict_hist dict) []) (ref_finish (frame_content_size h) (content_checksum_flag (fh_descriptor h)))"
          unfolding ref_frame_def dict_hist_def w sum.case if_not_P [OF False] by (rule refl)
        moreover have "ref_frames dict rest ?ws = ref_rest dict (ref_frame dict h (drop len rest) ?ws)"
          unfolding rr ref_rest_def by (auto split: option.split)
        moreover have "ref_from dict (drop len rest) ?dec [] = ref_rest dict (Option.bind (ref_blocks (drop len rest) (min w MAX_BLOCK_SIZE) w (start_scratch ?ws dict)
            (dict_entropy_of dict) (dict_hist dict) []) (ref_finish (frame_content_size h) (content_checksum_flag (fh_descriptor h))))"
          unfolding c [symmetric] by (simp add: ref_from_def Let_def) (simp add: fr_def)
        ultimately have "ref_frames dict rest ?ws = ref_from dict (drop len rest) ?dec []" by simp
        moreover have "loop_inv N dict (drop len rest) ?dec m ?out done []"
        proof -
          have "vec_ok N m ?out done [] (dict_hist dict)" using v by (auto simp: vec_ok_def)
          moreover have "xxh_repr xxh_new []" by (rule xxh.repr_init)
          moreover have "ws_ok (start_scratch ?ws dict) (dict_entropy_of dict)" using ws ws_ok_start [OF _ dict] by blast
          ultimately show ?thesis using bnd dict by (simp add: loop_inv_def stage_ok_def vec_all_def fr_def)
        qed
        ultimately show ?thesis unfolding step_ok_def r rf by auto
      qed
    qed
  qed
qed

text \<open>A block's header.\<close>

lemma step_block_header:
  assumes i: "loop_inv N dict rest dec m out done seg" and st: "fd_stage dec = StageBlock fr None"
    and len: "len = unit_len dec rest" "len \<le> length rest"
  shows "step_ok N dict rest dec done seg len (process VecOut dec (take len rest) m out dict)"
proof -
  have l: "len = 3" using len(1) st by (simp add: unit_len_def BLOCK_HEADER_LEN_def)
  let ?ws = "get_scratch dec" and ?de = "dict_entropy_of dict" and ?hist = "dict_hist dict" and ?b = "fr_block_size_max fr" and ?w = "fr_window fr"
  have rf: "ref_from dict rest dec seg = ref_rest dict (Option.bind (ref_blocks rest ?b ?w ?ws ?de ?hist seg) (ref_finish (fr_content_size fr) (fr_checksum fr \<noteq> None)))"
    using st by (simp add: ref_from_def Let_def)
  have gr: "get_range rest 0 BLOCK_HEADER_LEN = Some (take 3 rest)" using len(2) l by (simp add: BLOCK_HEADER_LEN_def)
  note pr = process_def [of VecOut dec "take len rest" m out dict, unfolded st stage.case option.case l]
  from parse_block_header_cases [of "take 3 rest" ?b] show ?thesis
  proof (elim disjE exE conjE)
    fix e assume e: "parse_block_header (take 3 rest) ?b = Inl (Err e)"
    then have "ref_blocks rest ?b ?w ?ws ?de ?hist seg = None" by (subst ref_blocks.simps) (simp add: locate_block_def gr)
    then show ?thesis unfolding step_ok_def l pr rf using e by (simp add: ref_rest_def)
  next
    fix block
    assume b: "parse_block_header (take 3 rest) ?b = Inr block" "block_type block = RawBlock \<longrightarrow> content_size block = decompressed_size block"
      "block_type block = RleBlock \<longrightarrow> content_size block = 1" "block_type block \<noteq> CompressedBlock \<longrightarrow> decompressed_size block \<le> ?b"
    let ?dec = "dec\<lparr>fd_stage := StageBlock fr (Some block)\<rparr>" and ?c = "content_size block"
    have loc: "locate_block rest ?b = (if length rest < 3 + ?c then None else Some (block, take ?c (drop 3 rest)))"
      using b(1) by (simp add: locate_block_def gr get_range_def BLOCK_HEADER_LEN_def)
    have "ref_from dict rest dec seg = ref_from dict (drop 3 rest) ?dec seg"
    proof (cases "length rest < 3 + ?c")
      case True
      then show ?thesis unfolding rf using len(2) l by (subst ref_blocks.simps) (simp add: loc ref_from_def Let_def ref_rest_def, arith?)
    next
      case False
      then have c: "length (take ?c (drop 3 rest)) = ?c" "\<not> length (drop 3 rest) < ?c" by auto
      have "ref_blocks rest ?b ?w ?ws ?de ?hist seg = Option.bind (ref_bytes block (take ?c (drop 3 rest)) ?b ?w ?ws ?de ?hist seg)
          (\<lambda>(ws, seg). if last_block block then Some (drop ?c (drop 3 rest), ws, seg) else ref_blocks (drop ?c (drop 3 rest)) ?b ?w ws ?de ?hist seg)"
        using loc False c(1) by (subst ref_blocks.simps) (auto simp: BLOCK_HEADER_LEN_def add.commute split: option.split)
      then show ?thesis unfolding rf using c(2) by (simp add: ref_from_def Let_def)
    qed
    moreover have "loop_inv N dict (drop 3 rest) ?dec m out done seg"
    proof -
      have "length (drop 3 rest) + 1 \<le> length rest + stage_rank dec" using len(2) l by simp
      then have "MAX_BLOCK_SIZE * (length (drop 3 rest) + 1) \<le> MAX_BLOCK_SIZE * (length rest + stage_rank dec)" by (rule mult_le_mono2)
      then have "vo_len out + MAX_BLOCK_SIZE * (length (drop 3 rest) + 1) + 2 * MAX_BLOCK_SIZE + 32 \<le> N" using i unfolding loop_inv_def by linarith
      moreover have "block_fits block content ?b" if "length content = content_size block" for content
        using that b by (auto simp: block_fits_def)
      ultimately show ?thesis using i st unfolding loop_inv_def stage_ok_def vec_all_def by simp
    qed
    ultimately show ?thesis unfolding step_ok_def l pr using b(1) by auto
  qed
qed

text \<open>The checksum.\<close>

lemma step_checksum:
  assumes i: "loop_inv N dict rest dec m out done seg" and st: "fd_stage dec = StageChecksum c"
    and len: "len = unit_len dec rest" "len \<le> length rest"
  shows "step_ok N dict rest dec done seg len (process VecOut dec (take len rest) m out dict)"
proof -
  have l: "len = 4" using len(1) st by (simp add: unit_len_def CHECKSUM_LEN_def)
  note pr = process_def [of VecOut dec "take len rest" m out dict, unfolded st stage.case l]
  have "loop_inv N dict (drop 4 rest) (dec\<lparr>fd_stage := StageFrameHeader\<rparr>) m out done seg"
  proof -
    have "MAX_BLOCK_SIZE * (length (drop 4 rest) + 0) \<le> MAX_BLOCK_SIZE * (length rest + stage_rank dec)" by (intro mult_le_mono2) simp
    then have "vo_len out + MAX_BLOCK_SIZE * (length (drop 4 rest) + 0) + 2 * MAX_BLOCK_SIZE + 32 \<le> N" using i unfolding loop_inv_def by linarith
    moreover have "seg = []" using i st by (simp add: loop_inv_def stage_ok_def)
    ultimately show ?thesis using i st unfolding loop_inv_def stage_ok_def vec_all_def by simp
  qed
  then show ?thesis unfolding step_ok_def l pr using len(2) l st by (auto simp: ref_from_def Let_def)
qed

text \<open>Decoding only appends, so a frame past its content size stays past it.\<close>

lemma ref_blocks_extends:
  assumes "ref_blocks rest bsm window ws dict hist seg = Some (rest', ws', out)" and "bsm \<le> MAX_BLOCK_SIZE" and "ws_ok ws dict"
  shows "\<exists>ys. out = seg @ ys"
  using assms
proof (induction rest bsm window ws dict hist seg rule: ref_blocks.induct)
  case (1 rest bsm window ws dict hist seg)
  from "1.prems"(1) obtain block content ws1 seg1 where q: "locate_block rest bsm = Some (block, content)" "ref_bytes block content bsm window ws dict hist seg = Some (ws1, seg1)"
    by (subst (asm) ref_blocks.simps) (auto split: option.splits prod.splits)
  have "block_fits block content bsm"
  proof -
    from q(1) have p: "parse_block_header (take 3 rest) bsm = Inr block" "length content = content_size block"
      by (auto simp: locate_block_def BLOCK_HEADER_LEN_def split: option.splits sum.splits)
    then show ?thesis using parse_block_header_cases [of "take 3 rest" bsm] by (auto simp: block_fits_def)
  qed
  from ref_bytes_ok [OF "1.prems"(3,2) this q(2)] obtain ys where r: "ws_ok ws1 dict" "seg1 = seg @ ys" by auto
  show ?case
  proof (cases "last_block block")
    case True
    then show ?thesis using "1.prems"(1) q r by (subst (asm) ref_blocks.simps) auto
  next
    case False
    then have "ref_blocks (drop (BLOCK_HEADER_LEN + length content) rest) bsm window ws1 dict hist seg1 = Some (rest', ws', out)"
      using "1.prems"(1) q by (subst (asm) ref_blocks.simps) auto
    then show ?thesis using "1.IH" [OF q(1) refl q(2) refl refl False _ "1.prems"(2) r(1)] r(2) by auto
  qed
qed

lemma ref_finish_past: "fcs < length content \<Longrightarrow> ref_finish (Some fcs) c (rest, ws, content @ ys) = None"
  by (simp add: ref_finish_def)

lemma loop_inv_leave:
  assumes "loop_inv N dict rest dec m out done seg" and "fd_stage dec = StageBlock fr None"
  shows "loop_inv N dict rest (dec\<lparr>fd_stage := StageFrameHeader\<rparr>) m out (done @ seg) []"
    "loop_inv N dict rest (dec\<lparr>fd_stage := StageChecksum c\<rparr>) m out (done @ seg) []"
  using assms unfolding loop_inv_def stage_ok_def vec_all_def by (auto simp: stage_rank_def)

text \<open>After the last block.\<close>

lemma step_blocks_ended:
  assumes i: "loop_inv N dict rest dec m out done seg" and st: "fd_stage dec = StageBlock fr None"
    and rf: "R = ref_rest dict (ref_finish (fr_content_size fr) (fr_checksum fr \<noteq> None) (rest, get_scratch dec, seg))"
  shows "case blocks_ended dec of
      Inl f \<Rightarrow> (\<exists>e. f = Err e) \<and> R = None
    | Inr (dec', ev) \<Rightarrow> ev \<noteq> FrameStarted \<and> (\<exists>done' seg'. loop_inv N dict rest dec' m out done' seg' \<and>
        map_option (\<lambda>xs. done @ xs) R = map_option (\<lambda>xs. done' @ xs) (ref_from dict rest dec' seg'))"
proof -
  let ?mis = "case fr_content_size fr of Some n \<Rightarrow> length seg \<noteq> n | None \<Rightarrow> False"
  have dec: "fr_decoded fr = length seg" "\<And>h. fr_checksum fr = Some h \<Longrightarrow> xxh_repr h seg" using i st by (auto simp: loop_inv_def stage_ok_def)
  note be = blocks_ended_def [of dec, unfolded leave_frame_def st case_prod_conv stage.case]
  show ?thesis
  proof (cases ?mis)
    case True
    then show ?thesis unfolding be rf using dec(1) by (auto simp: ref_rest_def ref_finish_def split: option.splits)
  next
    case False
    have fin: "ref_finish (fr_content_size fr) (fr_checksum fr \<noteq> None) (rest, get_scratch dec, seg) =
        (if fr_checksum fr = None then Some (rest, get_scratch dec, seg)
         else if length rest < 4 \<or> le_nat (take 4 rest) \<noteq> unat (xxh64_hash seg) mod 2 ^ 32 then None else Some (drop 4 rest, get_scratch dec, seg))"
      using False by (auto simp: ref_finish_def)
    have be': "blocks_ended dec = (case fr_checksum fr of
             Some h \<Rightarrow> Inr (dec\<lparr>fd_stage := StageChecksum (unat (xxh_digest h) mod 2 ^ 32)\<rparr>, Continue)
           | None \<Rightarrow> Inr (dec\<lparr>fd_stage := StageFrameHeader\<rparr>, FrameEnded))"
      unfolding be using False dec(1) by (auto split: option.splits)
    show ?thesis
    proof (cases "fr_checksum fr")
      case None
      have "ref_from dict rest (dec\<lparr>fd_stage := StageFrameHeader\<rparr>) [] = ref_frames dict rest (get_scratch dec)" by (simp add: ref_from_def Let_def)
      then have "map_option (\<lambda>xs. done @ xs) R = map_option (\<lambda>xs. (done @ seg) @ xs) (ref_from dict rest (dec\<lparr>fd_stage := StageFrameHeader\<rparr>) [])"
        unfolding rf fin using None by (simp add: ref_rest_def option.map_comp comp_def)
      then show ?thesis unfolding be' None option.case sum.case case_prod_conv using loop_inv_leave(1) [OF i st] by blast
    next
      case (Some h)
      let ?dec = "dec\<lparr>fd_stage := StageChecksum (unat (xxh_digest h) mod 2 ^ 32)\<rparr>"
      have hash: "xxh_digest h = xxh64_hash seg" by (rule xxh.dig_repr [OF dec(2) [OF Some]])
      have "map_option (\<lambda>xs. done @ xs) R = map_option (\<lambda>xs. (done @ seg) @ xs) (ref_from dict rest ?dec [])"
        unfolding rf fin using Some by (auto simp: hash ref_from_def Let_def ref_rest_def option.map_comp comp_def)
      then show ?thesis unfolding be' Some option.case sum.case case_prod_conv using loop_inv_leave(2) [OF i st] by blast
    qed
  qed
qed

text \<open>A block's content.\<close>

lemma block_decoded_past:
  assumes "block_decoded fr ys = Inl f" and "fr_decoded fr + length ys < 2 ^ 64"
  shows "\<exists>fcs. fr_content_size fr = Some fcs \<and> fcs < fr_decoded fr + length ys"
  using assms by (auto simp: block_decoded_def Let_def split: option.splits if_splits)

lemma step_block_content:
  assumes i: "loop_inv N dict rest dec m out done seg" and st: "fd_stage dec = StageBlock fr (Some block)"
    and len: "len = unit_len dec rest" "len \<le> length rest"
  shows "step_ok N dict rest dec done seg len (process VecOut dec (take len rest) m out dict)"
proof -
  let ?ws = "get_scratch dec" and ?de = "dict_entropy_of dict" and ?hist = "dict_hist dict" and ?b = "fr_block_size_max fr" and ?w = "fr_window fr"
  let ?rest = "drop len rest" and ?fin = "ref_finish (fr_content_size fr) (fr_checksum fr \<noteq> None)"
  have l: "len = content_size block" using len(1) st by (simp add: unit_len_def)
  have inv: "ws_ok ?ws ?de" "?b \<le> MAX_BLOCK_SIZE" "vo_window out = ?w" "fr_decoded fr = length seg" "\<And>h. fr_checksum fr = Some h \<Longrightarrow> xxh_repr h seg"
      "block_fits block (take len rest) ?b" "vec_ok N m out done seg ?hist" "\<forall>d. dict = Some d \<longrightarrow> decode_dict_ok d"
    using i st len(2) l unfolding loop_inv_def stage_ok_def vec_all_def by auto
  have bnd: "vo_len out + MAX_BLOCK_SIZE * (length rest + 1) + 2 * MAX_BLOCK_SIZE + 32 \<le> N" "2 * N < 2 ^ 63"
    using i st by (auto simp: loop_inv_def stage_rank_def)
  have n: "vo_len out + MAX_BLOCK_SIZE + WILDCOPY_OVERLENGTH \<le> N" using bnd(1) by (simp add: WILDCOPY_OVERLENGTH_def)
  note D = decode_block_ok [OF inv(1,2,6,7,3) n bnd(2) inv(4), of "fd_simd dec"]
  note pr = process_def [of VecOut dec "take len rest" m out dict, unfolded st stage.case option.case]
  have rf: "ref_from dict rest dec seg = ref_rest dict (Option.bind (Option.bind (ref_bytes block (take len rest) ?b ?w ?ws ?de ?hist seg)
      (\<lambda>(ws, seg). if last_block block then Some (?rest, ws, seg) else ref_blocks ?rest ?b ?w ws ?de ?hist seg)) ?fin)"
    using st len(2) unfolding l by (simp add: ref_from_def Let_def)
  show ?thesis
  proof (cases "ref_bytes block (take len rest) ?b ?w ?ws ?de ?hist seg")
    case None
    then show ?thesis using D unfolding step_ok_def pr rf by (auto simp: ref_block_def ref_rest_def)
  next
    case (Some p)
    then obtain ws' ys where p: "ref_bytes block (take len rest) ?b ?w ?ws ?de ?hist seg = Some (ws', seg @ ys)" "ws_ok ws' ?de" "length ys \<le> MAX_BLOCK_SIZE"
      using ref_bytes_ok [OF inv(1,2,6), of ?w ?hist seg] inv(2) by (cases p) fastforce
    have rb: "ref_block block (take len rest) fr ?ws ?de ?hist seg = (case block_decoded fr ys of Inl e \<Rightarrow> None | Inr fr' \<Rightarrow> Some (ws', fr', seg @ ys))"
      unfolding ref_block_def p(1) by simp
    have rf': "ref_from dict rest dec seg = ref_rest dict (Option.bind
        (if last_block block then Some (?rest, ws', seg @ ys) else ref_blocks ?rest ?b ?w ws' ?de ?hist (seg @ ys)) ?fin)" unfolding rf p(1) by simp
    show ?thesis
    proof (cases "block_decoded fr ys")
      case (Inl f)
      have "length seg \<le> vo_len out" using inv(7) by (simp add: vec_ok_def)
      then have "fr_decoded fr + length ys < 2 ^ 64" using p(3) bnd unfolding inv(4) by simp
      then obtain fcs where f: "fr_content_size fr = Some fcs" "fcs < length (seg @ ys)" using block_decoded_past [OF Inl] inv(4) by auto
      have "Option.bind (if last_block block then Some (?rest, ws', seg @ ys) else ref_blocks ?rest ?b ?w ws' ?de ?hist (seg @ ys)) ?fin = None"
      proof (cases "last_block block")
        case True
        then show ?thesis using ref_finish_past [OF f(2), of _ _ _ "[]"] unfolding f(1) by simp
      next
        case False
        then show ?thesis using ref_blocks_extends [OF _ inv(2) p(2), of ?rest ?w ?hist "seg @ ys"] ref_finish_past [OF f(2)]
          unfolding f(1) by (cases "ref_blocks ?rest ?b ?w ws' ?de ?hist (seg @ ys)") auto
      qed
      then show ?thesis using D unfolding step_ok_def pr rf' rb Inl sum.case option.case by (auto simp: ref_rest_def)
    next
      case (Inr fr')
      note fr' = block_decoded_fr [OF Inr]
      from D obtain m' out' where d: "decode_block VecOut block (take len rest) fr ?ws ?de (fd_simd dec) m out = Inr (m', out', ws', fr')"
          "vec_ok N m' out' done (seg @ ys) ?hist" "vo_window out' = fr_window fr'" unfolding rb Inr by auto
      define dec1 where "dec1 = dec\<lparr>fd_stage := StageBlock fr' None, fd_scratch := Some ws'\<rparr>"
      have d1: "fd_stage dec1 = StageBlock fr' None" "get_scratch dec1 = ws'" "stage_rank dec1 = 0" by (simp_all add: dec1_def stage_rank_def get_scratch_def)
      have inv1: "loop_inv N dict ?rest dec1 m' out' done (seg @ ys)"
      proof -
        have v: "vo_len out' \<le> vo_len out + MAX_BLOCK_SIZE" using d(2) inv(7) p(3) by (simp add: vec_ok_def)
        have "MAX_BLOCK_SIZE * (length ?rest + 0) + MAX_BLOCK_SIZE \<le> MAX_BLOCK_SIZE * (length rest + 1)" by simp
        then have "vo_len out' + MAX_BLOCK_SIZE * (length ?rest + 0) + 2 * MAX_BLOCK_SIZE + 32 \<le> N" using v bnd(1) by linarith
        moreover have "\<forall>h. fr_checksum fr' = Some h \<longrightarrow> xxh_repr h (seg @ ys)" using fr'(6) inv(5) xxh.repr_upd by auto
        moreover have "\<forall>fcs. fr_content_size fr' = Some fcs \<longrightarrow> length (seg @ ys) \<le> fcs" using fr'(1,4,5) inv(4) by auto
        ultimately show ?thesis unfolding loop_inv_def stage_ok_def vec_all_def d1
          using bnd(2) d(2,3) p(2) inv(2,4,8) fr' by simp
      qed
      have c: "(fr_checksum fr' \<noteq> None) = (fr_checksum fr \<noteq> None)" using fr'(6) by simp
      have code: "process VecOut dec (take len rest) m out dict = (if \<not> last_block block then Inr (m', out', dec1, Continue)
          else res_bind (blocks_ended dec1) (\<lambda>(dec, ev). Inr (m', out', dec, ev)))"
        unfolding pr d(1) dec1_def by (simp add: Let_def)
      show ?thesis
      proof (cases "last_block block")
        case False
        have "ref_from dict rest dec seg = ref_from dict ?rest dec1 (seg @ ys)"
          unfolding rf' ref_from_def [of _ _ dec1] d1 Let_def stage.case option.case fr'(2-4) c using False by simp
        then show ?thesis using False inv1 unfolding step_ok_def code by auto
      next
        case True
        have "ref_from dict rest dec seg = ref_rest dict (ref_finish (fr_content_size fr') (fr_checksum fr' \<noteq> None) (?rest, get_scratch dec1, seg @ ys))"
          unfolding rf' d1 fr'(4) c using True by simp
        from step_blocks_ended [OF inv1 d1(1) this] show ?thesis using True unfolding step_ok_def code by (cases "blocks_ended dec1") auto
      qed
    qed
  qed
qed

section \<open>The whole input\<close>

lemma locate_block_ok:
  assumes "locate_block rest bsm = Some (block, content)"
  shows "block_bound block bsm \<le> bsm" "length (drop (BLOCK_HEADER_LEN + length content) rest) + 1 \<le> length rest" "block_fits block content bsm"
proof -
  from assms have p: "parse_block_header (take 3 rest) bsm = Inr block" "3 \<le> length rest" "length content = content_size block"
    by (auto simp: locate_block_def BLOCK_HEADER_LEN_def split: option.splits sum.splits)
  then show "block_bound block bsm \<le> bsm" "block_fits block content bsm"
    using parse_block_header_cases [of "take 3 rest" bsm] by (auto simp: block_bound_def block_fits_def)
  show "length (drop (BLOCK_HEADER_LEN + length content) rest) + 1 \<le> length rest" using p(2) by (simp add: BLOCK_HEADER_LEN_def)
qed

lemma blocks_decoded_bound_le: "bsm \<le> MAX_BLOCK_SIZE \<Longrightarrow> blocks_decoded_bound rest bsm b \<le> b + MAX_BLOCK_SIZE * length rest"
proof (induction rest bsm b rule: blocks_decoded_bound.induct)
  case (1 rest bsm b)
  show ?case
  proof (cases "locate_block rest bsm")
    case None
    then show ?thesis by (subst blocks_decoded_bound.simps) simp
  next
    case (Some p)
    then obtain block content where p: "locate_block rest bsm = Some (block, content)" by (cases p) auto
    define b' where "b' = min (b + block_bound block bsm) (2 ^ 64 - 1)"
    define r where "r = drop (BLOCK_HEADER_LEN + length content) rest"
    have b': "b' \<le> b + MAX_BLOCK_SIZE" using locate_block_ok(1) [OF p] "1.prems" by (simp add: b'_def)
    have "MAX_BLOCK_SIZE * (length r + 1) \<le> MAX_BLOCK_SIZE * length rest" using locate_block_ok(2) [OF p] unfolding r_def by (rule mult_le_mono2)
    moreover have "blocks_decoded_bound r bsm b' \<le> b' + MAX_BLOCK_SIZE * length r" if "\<not> last_block block"
      using "1.IH" [OF p refl refl that "1.prems"] unfolding b'_def r_def .
    moreover have "blocks_decoded_bound rest bsm b = (if last_block block then b' else blocks_decoded_bound r bsm b')"
      by (subst blocks_decoded_bound.simps) (simp add: p Let_def b'_def r_def)
    ultimately show ?thesis using b' by (cases "last_block block") auto
  qed
qed

lemma reserve_frame_ok:
  assumes i: "loop_inv N dict rest dec m out done seg" and st: "fd_stage dec = StageBlock fr None"
  shows "\<exists>m'. reserve_frame m (vo_len out) fr rest = Inr m' \<and> loop_inv N dict rest dec m' out done seg"
proof (cases "fr_content_size fr")
  case None
  then show ?thesis using i by (simp add: reserve_frame_def)
next
  case (Some fcs)
  define content where "content = (if fits_one_block fr then fcs else min fcs (blocks_decoded_bound rest (fr_block_size_max fr) 0))"
  have b: "fr_block_size_max fr \<le> MAX_BLOCK_SIZE" and v: "vec_ok N m out done seg (dict_hist dict)"
    and bnd: "vo_len out + MAX_BLOCK_SIZE * length rest + 2 * MAX_BLOCK_SIZE + 32 \<le> N" "2 * N < 2 ^ 63"
    using i st by (auto simp: loop_inv_def stage_ok_def vec_all_def stage_rank_def)
  have c: "content \<le> MAX_BLOCK_SIZE + MAX_BLOCK_SIZE * length rest"
    using blocks_decoded_bound_le [OF b, of rest 0] b Some by (auto simp: content_def fits_one_block_def)
  define want where "want = content + (MAX_BLOCK_SIZE + WILDCOPY_OVERLENGTH)"
  have w: "vo_len out + want \<le> N" using c bnd(1) by (simp add: want_def WILDCOPY_OVERLENGTH_def)
  then have w64: "\<not> 2 ^ 64 \<le> want" using bnd(2) by simp
  have n8: "8 \<le> N" using bnd(1) by simp
  have vl: "length (m OUT) \<le> 2 * N" "vo_len out \<le> length (m OUT)" using v by (auto simp: vec_ok_def)
  from vec_try_reserve_ok [where m = m, OF w bnd(2) n8 vl] obtain m' where m': "vec_try_reserve m (vo_len out) want = Some m'"
    "take (vo_len out) (m' OUT) = take (vo_len out) (m OUT)" "vo_len out + want \<le> length (m' OUT)" "length (m' OUT) \<le> 2 * N" "m' = m(OUT := m' OUT)" by blast
  have "m' DICT = m DICT" using fun_cong [OF m'(5), of DICT] by (simp add: OUT_def DICT_def)
  then have "vec_ok N m' out done seg (dict_hist dict)" using v m'(2-4) unfolding vec_ok_def by (elim conjE) simp
  then have "loop_inv N dict rest dec m' out done seg" using i st unfolding loop_inv_def vec_all_def by simp
  moreover have "reserve_frame m (vo_len out) fr rest = Inr m'"
    unfolding reserve_frame_def Some option.case Let_def content_def [symmetric] want_def [symmetric] using w64 m'(1) by simp
  ultimately show ?thesis by blast
qed

lemma loop_inv_skip:
  assumes i: "loop_inv N dict rest dec m out done seg" and sk: "skip dec (length rest) = (dec', k, fin)"
  shows "loop_inv N dict (drop k rest) dec' m out done seg" "ref_from dict rest dec seg = ref_from dict (drop k rest) dec' seg"
    "fd_stage dec' = StageSkip left \<Longrightarrow> 0 < left \<and> drop k rest = []"
proof -
  from skip_cases [OF sk] have *: "loop_inv N dict (drop k rest) dec' m out done seg \<and> ref_from dict rest dec seg = ref_from dict (drop k rest) dec' seg
     \<and> (\<forall>left. fd_stage dec' = StageSkip left \<longrightarrow> 0 < left \<and> drop k rest = [])"
  proof (elim disjE exE conjE)
    assume "\<forall>left. fd_stage dec \<noteq> StageSkip left" "dec' = dec" "k = 0"
    then show ?thesis using i by simp
  next
    fix left assume "fd_stage dec = StageSkip left" "left \<le> length rest" "k = left" "dec' = dec\<lparr>fd_stage := StageFrameHeader\<rparr>"
    moreover have "vo_len out + MAX_BLOCK_SIZE * (length rest - left) + 2 * MAX_BLOCK_SIZE + 32 \<le> N"
    proof -
      have "MAX_BLOCK_SIZE * (length rest - left) \<le> MAX_BLOCK_SIZE * (length rest + stage_rank dec)" by (intro mult_le_mono2) simp
      then show ?thesis using i unfolding loop_inv_def by linarith
    qed
    ultimately show ?thesis using i by (auto simp: loop_inv_def stage_ok_def vec_all_def ref_from_def Let_def stage_rank_def) blast
  next
    fix left assume "fd_stage dec = StageSkip left" "length rest < left" "k = length rest" "dec' = dec\<lparr>fd_stage := StageSkip (left - length rest)\<rparr>"
    then show ?thesis using i by (auto simp: loop_inv_def stage_ok_def vec_all_def ref_from_def Let_def stage_rank_def) blast
  qed
  then show "loop_inv N dict (drop k rest) dec' m out done seg" "ref_from dict rest dec seg = ref_from dict (drop k rest) dec' seg"
    "fd_stage dec' = StageSkip left \<Longrightarrow> 0 < left \<and> drop k rest = []" by blast+
qed

text \<open>The end of the input: between frames, or an error.\<close>

lemma end_of_input_ok:
  assumes "length rest < unit_len dec rest" and "loop_inv N dict rest dec m out done seg"
  shows "if fd_stage dec = StageFrameHeader \<and> rest = [] then end_of_input dec rest = Inr () \<and> ref_from dict rest dec seg = Some []
    else (\<exists>e. end_of_input dec rest = Inl (Err e)) \<and> ref_from dict rest dec seg = None"
proof (cases "fd_stage dec")
  case StageFrameHeader
  then show ?thesis using assms parse_frame_header_short [of rest]
    by (auto simp: unit_len_def end_of_input_def ref_from_def Let_def ref_frames.simps [of dict rest] ref_frames.simps [of dict "[]"] frame_header_error_def)
next
  case (StageSkip n)
  then show ?thesis using assms by (simp add: unit_len_def end_of_input_def ref_from_def Let_def)
next
  case (StageBlock fr header)
  show ?thesis
  proof (cases header)
    case None
    then have l: "length rest < 3" using assms StageBlock by (simp add: unit_len_def BLOCK_HEADER_LEN_def)
    then have "ref_blocks rest b w ws de hist seg = None" for b w ws de hist
      by (subst ref_blocks.simps) (simp add: locate_block_def get_range_def BLOCK_HEADER_LEN_def)
    then show ?thesis using StageBlock None l parse_block_header_cases [of rest "fr_block_size_max fr"]
      by (auto simp: end_of_input_def ref_from_def Let_def ref_rest_def)
  next
    case (Some block)
    then show ?thesis using assms StageBlock by (simp add: unit_len_def end_of_input_def ref_from_def Let_def)
  qed
next
  case (StageChecksum c)
  then show ?thesis using assms by (simp add: unit_len_def CHECKSUM_LEN_def end_of_input_def ref_from_def Let_def)
qed

lemma process_ok:
  assumes "loop_inv N dict rest dec m out done seg" and "len = unit_len dec rest" and "len \<le> length rest" and "\<And>left. fd_stage dec \<noteq> StageSkip left"
  shows "step_ok N dict rest dec done seg len (process VecOut dec (take len rest) m out dict)"
proof (cases "fd_stage dec")
  case (StageBlock fr header)
  then show ?thesis using step_block_header [OF assms(1) _ assms(2,3)] step_block_content [OF assms(1) _ assms(2,3)] by (cases header) auto
qed (use assms step_frame_header [OF assms(1) _ assms(2,3)] step_checksum [OF assms(1) _ assms(2,3)] in auto)

lemma decompress_loop_ok:
  assumes "loop_inv N dict rest dec m out done seg"
  shows "case ref_from dict rest dec seg of
      None \<Rightarrow> \<exists>e. decompress_loop rest dec dict m out = Inl (Err e)
    | Some xs \<Rightarrow> \<exists>m' out' dec'. decompress_loop rest dec dict m out = Inr (m', out', dec') \<and> take (vo_len out') (m' OUT) = done @ xs
        \<and> vo_len out' \<le> length (m' OUT) \<and> fd_stage dec' = StageFrameHeader \<and> (\<exists>d. ws_ok (get_scratch dec') d)"
  using assms
proof (induction "2 * length rest + stage_rank dec" arbitrary: rest dec m out "done" seg rule: less_induct)
  case less
  obtain dec1 k fin where sk: "skip dec (length rest) = (dec1, k, fin)" by (cases "skip dec (length rest)")
  note i1 = loop_inv_skip [OF less.prems sk]
  define rest1 len where "rest1 = drop k rest" and "len = unit_len dec1 rest1"
  have eq: "decompress_loop rest dec dict m out =
      (if length rest1 < len then res_bind (end_of_input dec1 rest1) (\<lambda>_. Inr (m, out, dec1))
      else
        res_bind (process VecOut dec1 (take len rest1) m out dict) (\<lambda>(m, out, dec, ev).
        if ev \<noteq> FrameStarted then decompress_loop (drop len rest1) dec dict m out
        else
          res_bind (frame_start dec) (\<lambda>(fr, ws).
          res_bind (reserve_frame m (vo_len out) fr (drop len rest1)) (\<lambda>m.
          decompress_loop (drop len rest1) dec dict m out))))"
    by (subst decompress_loop.simps) (simp only: sk case_prod_conv Let_def rest1_def [symmetric] len_def [symmetric])
  show ?case
  proof (cases "length rest1 < len")
    case True
    have e: "decompress_loop rest dec dict m out = res_bind (end_of_input dec1 rest1) (\<lambda>_. Inr (m, out, dec1))" using eq True by simp
    note E = end_of_input_ok [OF True [unfolded len_def] i1(1) [folded rest1_def]]
    have "take (vo_len out) (m OUT) = done \<and> vo_len out \<le> length (m OUT) \<and> (\<exists>d. ws_ok (get_scratch dec1) d)" if "fd_stage dec1 = StageFrameHeader"
      using i1(1) that by (auto simp: loop_inv_def stage_ok_def vec_all_def vec_ok_def)
    then show ?thesis using E unfolding e i1(2) rest1_def [symmetric] by (auto split: if_splits)
  next
    case False
    then have le: "len \<le> length rest1" by simp
    have ns: "fd_stage dec1 \<noteq> StageSkip left" for left using i1(3) [of left] le by (auto simp: len_def unit_len_def rest1_def)
    note S = process_ok [OF i1(1) [folded rest1_def] len_def le ns]
    show ?thesis
    proof (cases "process VecOut dec1 (take len rest1) m out dict")
      case (Inl f)
      then show ?thesis using S False unfolding eq i1(2) rest1_def [symmetric] step_ok_def by auto
    next
      case (Inr q)
      obtain m2 out2 dec2 ev where q: "process VecOut dec1 (take len rest1) m out dict = Inr (m2, out2, dec2, ev)" using Inr by (cases q) auto
      from S obtain done2 seg2 where i2: "loop_inv N dict (drop len rest1) dec2 m2 out2 done2 seg2"
        and rf: "map_option (\<lambda>xs. done @ xs) (ref_from dict rest1 dec1 seg) = map_option (\<lambda>xs. done2 @ xs) (ref_from dict (drop len rest1) dec2 seg2)"
        and ev: "ev = FrameStarted \<longrightarrow> (\<exists>fr ws. fd_stage dec2 = StageBlock fr None \<and> fd_scratch dec2 = Some ws)"
        unfolding step_ok_def q by auto
      have lt: "2 * length (drop len rest1) + stage_rank dec2 < 2 * length rest + stage_rank dec"
        unfolding rest1_def by (rule decompress_loop_decreases [OF sk _ _ q [unfolded rest1_def]]) (use le len_def rest1_def in auto)
      obtain m3 where m3: "decompress_loop rest dec dict m out = decompress_loop (drop len rest1) dec2 dict m3 out2" "loop_inv N dict (drop len rest1) dec2 m3 out2 done2 seg2"
      proof (cases "ev = FrameStarted")
        case True
        then obtain fr ws where fr: "fd_stage dec2 = StageBlock fr None" "fd_scratch dec2 = Some ws" using ev by blast
        have "frame_start dec2 = Inr (fr, ws)" using fr by (simp add: frame_start_def)
        with reserve_frame_ok [OF i2 fr(1)] True show ?thesis using that unfolding eq q using False by auto
      next
        case False
        then show ?thesis using that i2 le unfolding eq q by auto
      qed
      from less.hyps [OF lt m3(2)] rf show ?thesis unfolding m3(1) i1(2) rest1_def [symmetric]
        by (cases "ref_from dict rest1 dec1 seg"; cases "ref_from dict (drop len rest1) dec2 seg2") auto
    qed
  qed
qed

lemma loop_inv_start:
  assumes d: "\<forall>d. dict = Some d \<longrightarrow> decode_dict_ok d \<and> length (dd_content d) < 2 ^ 63" and l: "length data < 2 ^ 44"
  shows "loop_inv (MAX_BLOCK_SIZE * (length data + 2) + 32) dict data (frame_decoder_new simd) ((\<lambda>_. [])(DICT := dict_hist dict))
    \<lparr>vo_len = 0, vo_start = 0, vo_window = 0, vo_dict_len = length (dict_hist dict)\<rparr> [] []"
proof -
  have "length (dict_hist dict) < 2 ^ 63" using d by (simp add: dict_hist_def split: option.splits)
  moreover have "get_scratch (frame_decoder_new simd) = decoder_scratch_new" by (simp add: get_scratch_def frame_decoder_new_def)
  moreover have "2 * (MAX_BLOCK_SIZE * (length data + 2) + 32) < 2 ^ 63" using l by (simp add: MAX_BLOCK_SIZE_def)
  ultimately show ?thesis using d ws_ok_new
    by (auto simp: loop_inv_def stage_ok_def vec_all_def vec_ok_def frame_decoder_new_def stage_rank_def OUT_def DICT_def algebra_simps)
qed

text \<open>C1: decompression gives exactly what the reference decoder gives.  For every input shorter than 16 TiB, with a loaded
  dictionary or without, the one-shot decoder returns the content of the frames where the reference accepts them and an
  error where it does not: its stages, its growing output vector and its overshooting copies do not show, and it neither
  panics, nor leaves a buffer, nor runs forever.\<close>

theorem decompress_correct:
  assumes "\<forall>d. dict = Some d \<longrightarrow> decode_dict_ok d \<and> length (dd_content d) < 2 ^ 63" and "length data < 2 ^ 44"
  shows "case ref_frames dict data decoder_scratch_new of
      None \<Rightarrow> \<exists>e. decompress_with_dict_options data dict simd = Inl (Err e)
    | Some content \<Rightarrow> decompress_with_dict_options data dict simd = Inr content"
proof -
  let ?m = "(\<lambda>_. [])(DICT := dict_hist dict)" and ?out = "\<lparr>vo_len = 0, vo_start = 0, vo_window = 0, vo_dict_len = length (dict_hist dict)\<rparr>"
  have rf: "ref_from dict data (frame_decoder_new simd) [] = ref_frames dict data decoder_scratch_new"
    by (simp add: ref_from_def frame_decoder_new_def get_scratch_def Let_def)
  have "decompress_with_dict_options data dict simd = res_bind (decompress_loop data (frame_decoder_new simd) dict ?m ?out) (\<lambda>(m, out, dec). Inr (take (vo_len out) (m OUT)))"
    unfolding decompress_with_dict_options_def decompress_frames_def dict_hist_def [symmetric] Let_def
    by (cases "decompress_loop data (frame_decoder_new simd) dict ?m ?out") (auto simp: take_output_def)
  then show ?thesis using decompress_loop_ok [OF loop_inv_start [OF assms, of simd]] unfolding rf by (auto split: option.splits)
qed

definition frame_bytes_example :: "u8 list" where
  "frame_bytes_example = [0x50, 0x2A, 0x4D, 0x18, 2, 0, 0, 0, 9, 9, 0x28, 0xB5, 0x2F, 0xFD, 0x20, 6, 24, 0, 0, 1, 2, 3, 27, 0, 0, 7]"

theorem decompress_correct_witness: "decompress_with_dict_options frame_bytes_example None LevelAvx2 = Inr [1, 2, 3, 7, 7, 7]"
proof -
  have r: "ref_frames None frame_bytes_example decoder_scratch_new = Some [1, 2, 3, 7, 7, 7]" by code_simp
  have "case ref_frames None frame_bytes_example decoder_scratch_new of
      None \<Rightarrow> \<exists>e. decompress_with_dict_options frame_bytes_example None LevelAvx2 = Inl (Err e)
    | Some content \<Rightarrow> decompress_with_dict_options frame_bytes_example None LevelAvx2 = Inr content"
    by (rule decompress_correct) (simp_all add: frame_bytes_example_def)
  then show ?thesis unfolding r by simp
qed

section \<open>The machine's runs\<close>

text \<open>The steps the driver takes: skipping, taking a unit, and taking a frame's header, after which it reserves room.\<close>

inductive fd_step :: "decode_dict option \<Rightarrow> u8 list \<times> frame_decoder \<times> mem \<times> vec_out \<Rightarrow> u8 list \<times> frame_decoder \<times> mem \<times> vec_out \<Rightarrow> bool"
  for dict where
  step_skip: "skipping dec \<Longrightarrow> skip dec (length rest) = (dec', n, True) \<Longrightarrow> fd_step dict (rest, dec, m, out) (drop n rest, dec', m, out)"
| step_unit: "\<not> skipping dec \<Longrightarrow> len = unit_len dec rest \<Longrightarrow> len \<le> length rest \<Longrightarrow>
    process VecOut dec (take len rest) m out dict = Inr (m', out', dec', ev) \<Longrightarrow> ev \<noteq> FrameStarted \<Longrightarrow>
    fd_step dict (rest, dec, m, out) (drop len rest, dec', m', out')"
| step_start: "\<not> skipping dec \<Longrightarrow> len = unit_len dec rest \<Longrightarrow> len \<le> length rest \<Longrightarrow>
    process VecOut dec (take len rest) m out dict = Inr (m', out', dec', FrameStarted) \<Longrightarrow>
    frame_start dec' = Inr (fr, ws) \<Longrightarrow> reserve_frame m' (vo_len out') fr (drop len rest) = Inr m'' \<Longrightarrow>
    fd_step dict (rest, dec, m, out) (drop len rest, dec', m'', out')"

inductive_cases fd_stepE: "fd_step dict (rest, dec, m, out) s'"

inductive fd_reachable :: "decode_dict option \<Rightarrow> u8 list \<Rightarrow> simd_level \<Rightarrow> nat \<Rightarrow> u8 list \<times> frame_decoder \<times> mem \<times> vec_out \<Rightarrow> bool"
  for dict data simd where
  reach_init: "fd_reachable dict data simd 0 (data, frame_decoder_new simd, (\<lambda>_. [])(DICT := dict_hist dict),
    \<lparr>vo_len = 0, vo_start = 0, vo_window = 0, vo_dict_len = length (dict_hist dict)\<rparr>)"
| reach_step: "fd_reachable dict data simd n s \<Longrightarrow> fd_step dict s s' \<Longrightarrow> fd_reachable dict data simd (Suc n) s'"

lemma skipping_iff: "skipping dec \<longleftrightarrow> (\<exists>left. fd_stage dec = StageSkip left)"
  by (cases "fd_stage dec") (auto simp: skipping_def)

text \<open>A step keeps the invariant and the meaning of the state.\<close>

definition means :: "nat \<Rightarrow> decode_dict option \<Rightarrow> u8 list option \<Rightarrow> u8 list \<times> frame_decoder \<times> mem \<times> vec_out \<Rightarrow> bool" where
  "means N dict R s \<longleftrightarrow>
     (case s of (rest, dec, m, out) \<Rightarrow>
        \<exists>done seg. loop_inv N dict rest dec m out done seg \<and> R = map_option (\<lambda>xs. done @ xs) (ref_from dict rest dec seg))"

lemma fd_step_means:
  assumes "fd_step dict s s'" and "means N dict R s"
  shows "means N dict R s'"
  using assms(1)
proof (cases rule: fd_step.cases)
  case (step_skip dec rest dec' n m out)
  then show ?thesis using assms(2) loop_inv_skip [of N dict rest dec m out _ _ dec' n True] by (fastforce simp: means_def)
next
  case (step_unit dec len rest m out m' out' dec' ev)
  obtain "done" seg where i: "loop_inv N dict rest dec m out done seg" "R = map_option (\<lambda>xs. done @ xs) (ref_from dict rest dec seg)"
    using assms(2) step_unit by (auto simp: means_def)
  have ns: "fd_stage dec \<noteq> StageSkip left" for left using step_unit by (auto simp: skipping_iff)
  show ?thesis using process_ok [OF i(1) step_unit(4,5) ns] i(2) step_unit by (auto simp: step_ok_def means_def)
next
  case (step_start dec len rest m out m' out' dec' fr ws m'')
  obtain "done" seg where i: "loop_inv N dict rest dec m out done seg" "R = map_option (\<lambda>xs. done @ xs) (ref_from dict rest dec seg)"
    using assms(2) step_start by (auto simp: means_def)
  have ns: "fd_stage dec \<noteq> StageSkip left" for left using step_start by (auto simp: skipping_iff)
  from process_ok [OF i(1) step_start(4,5) ns] obtain done' seg' fr' ws' where i': "loop_inv N dict (drop len rest) dec' m' out' done' seg'"
    "R = map_option (\<lambda>xs. done' @ xs) (ref_from dict (drop len rest) dec' seg')" "fd_stage dec' = StageBlock fr' None" "fd_scratch dec' = Some ws'"
    unfolding step_start(6) step_ok_def i(2) by auto
  have "fr = fr'" using step_start(7) i'(3,4) by (simp add: frame_start_def)
  then show ?thesis using reserve_frame_ok [OF i'(1,3)] i'(2) step_start by (auto simp: means_def)
qed

lemma map_option_Nil: "map_option (\<lambda>xs. [] @ xs) r = r"
  by (cases r) auto

lemma fd_reachable_means:
  assumes "fd_reachable dict data simd n s" and "\<forall>d. dict = Some d \<longrightarrow> decode_dict_ok d \<and> length (dd_content d) < 2 ^ 63" and "length data < 2 ^ 44"
  shows "means (MAX_BLOCK_SIZE * (length data + 2) + 32) dict (ref_frames dict data decoder_scratch_new) s"
  using assms(1)
proof (induction rule: fd_reachable.induct)
  case reach_init
  have "ref_from dict data (frame_decoder_new simd) [] = ref_frames dict data decoder_scratch_new"
    by (simp add: ref_from_def frame_decoder_new_def get_scratch_def Let_def)
  then show ?case using loop_inv_start [OF assms(2,3), of simd] by (auto simp: means_def map_option_Nil intro!: exI [of _ "[]"])
next
  case (reach_step n s s')
  then show ?case using fd_step_means by blast
qed

text \<open>Every step takes input or leaves a stage that waits for none.\<close>

definition fd_measure :: "u8 list \<times> frame_decoder \<times> mem \<times> vec_out \<Rightarrow> nat" where
  "fd_measure s = (case s of (rest, dec, m, out) \<Rightarrow> 3 * length rest + (if skipping dec then 2 else stage_rank dec))"

lemma process_measure:
  assumes "process VecOut dec (take len rest) m out dict = Inr (m', out', dec', ev)" and "len = unit_len dec rest" and "len \<le> length rest" and "\<not> skipping dec"
  shows "fd_measure (drop len rest, dec', m'', out') < fd_measure (rest, dec, m, out)"
  using process_empty_unit [OF assms(1), of rest] assms(2-4) stage_rank_le [of dec'] by (cases "0 < len") (auto simp: fd_measure_def)

lemma fd_step_measure: "fd_step dict s s' \<Longrightarrow> fd_measure s' < fd_measure s"
proof (induction rule: fd_step.induct)
  case (step_skip dec rest dec' n m out)
  have "fd_stage dec' = StageFrameHeader" using step_skip by (auto simp: skip_def Let_def split: stage.splits if_splits)
  then show ?case using step_skip(1) by (simp add: fd_measure_def skipping_def stage_rank_def)
qed (use process_measure in blast)+

lemma fd_reachable_measure: "fd_reachable dict data simd n s \<Longrightarrow> n + fd_measure s \<le> 3 * length data"
proof (induction rule: fd_reachable.induct)
  case reach_init
  show ?case by (simp add: fd_measure_def skipping_def stage_rank_def frame_decoder_new_def)
next
  case (reach_step n s s')
  then show ?case using fd_step_measure [of dict s s'] by simp
qed

text \<open>C34: the decoder's state is consistent at every moment.  In every state that the machine reaches, the output vector
  holds the frames decoded whole and the segment of the current one, the frame has counted and hashed exactly that
  segment, its tables are usable, there is room left for all that the input can decode to, and decoding the input left
  from this state completes the output to that of the whole input.\<close>

theorem fd_reachable_inv:
  assumes "fd_reachable dict data simd n (rest, dec, m, out)" and "\<forall>d. dict = Some d \<longrightarrow> decode_dict_ok d \<and> length (dd_content d) < 2 ^ 63" and "length data < 2 ^ 44"
  shows "\<exists>done seg. loop_inv (MAX_BLOCK_SIZE * (length data + 2) + 32) dict rest dec m out done seg
    \<and> ref_frames dict data decoder_scratch_new = map_option (\<lambda>xs. done @ xs) (ref_from dict rest dec seg)"
  using fd_reachable_means [OF assms] by (simp add: means_def)

theorem fd_reachable_inv_witness:
  "\<exists>done seg. loop_inv (MAX_BLOCK_SIZE * (length frame_bytes_example + 2) + 32) None frame_bytes_example (frame_decoder_new LevelOther) ((\<lambda>_. [])(DICT := []))
      \<lparr>vo_len = 0, vo_start = 0, vo_window = 0, vo_dict_len = 0\<rparr> done seg
    \<and> ref_frames None frame_bytes_example decoder_scratch_new = map_option (\<lambda>xs. done @ xs) (ref_from None frame_bytes_example (frame_decoder_new LevelOther) seg)"
  by (rule fd_reachable_inv [OF reach_init [of None frame_bytes_example LevelOther, simplified dict_hist_def, simplified]])
    (simp_all add: frame_bytes_example_def)

lemma unit_progress:
  assumes i: "loop_inv N dict rest dec m out done seg" and le: "len \<le> length rest" "len = unit_len dec rest" and ns: "\<not> skipping dec"
  shows "(\<exists>s'. fd_step dict (rest, dec, m, out) s') \<or> (\<exists>e. process VecOut dec (take len rest) m out dict = Inl (Err e))"
proof -
  have "fd_stage dec \<noteq> StageSkip left" for left using ns by (auto simp: skipping_iff)
  note S = process_ok [OF i le(2,1) this]
  show ?thesis
  proof (cases "process VecOut dec (take len rest) m out dict")
    case (Inl f)
    then show ?thesis using S by (auto simp: step_ok_def)
  next
    case (Inr q)
    obtain m2 out2 dec2 ev where q: "process VecOut dec (take len rest) m out dict = Inr (m2, out2, dec2, ev)" using Inr by (cases q) auto
    from S obtain done2 seg2 where i2: "loop_inv N dict (drop len rest) dec2 m2 out2 done2 seg2"
      and ev: "ev = FrameStarted \<longrightarrow> (\<exists>fr ws. fd_stage dec2 = StageBlock fr None \<and> fd_scratch dec2 = Some ws)" unfolding step_ok_def q by auto
    show ?thesis
    proof (cases "ev = FrameStarted")
      case True
      then obtain fr ws where fr: "fd_stage dec2 = StageBlock fr None" "fd_scratch dec2 = Some ws" using ev by blast
      moreover have "frame_start dec2 = Inr (fr, ws)" using fr by (simp add: frame_start_def)
      ultimately show ?thesis using reserve_frame_ok [OF i2 fr(1)] step_start [OF ns le(2,1), of m out dict m2 out2 dec2 fr ws] q True by blast
    next
      case False
      then show ?thesis using step_unit [OF ns le(2,1) q] by blast
    qed
  qed
qed

lemma skip_progress:
  assumes "skipping dec" and "unit_len dec rest \<le> length rest"
  shows "\<exists>s'. fd_step dict (rest, dec, m, out) s'"
proof -
  from assms(1) obtain left where l: "fd_stage dec = StageSkip left" by (auto simp: skipping_iff)
  then have "skip dec (length rest) = (dec\<lparr>fd_stage := StageFrameHeader\<rparr>, left, True)" using assms(2) by (simp add: skip_def unit_len_def Let_def min_def)
  then show ?thesis using step_skip [OF assms(1)] by blast
qed

text \<open>C35: the decoder makes progress.  In every state that it reaches, and it reaches none after more than three steps per
  byte, the machine takes a step, or the input ends within the current unit, or the unit is rejected with an error: it
  never hangs, panics or gets stuck.\<close>

theorem fd_progress:
  assumes "fd_reachable dict data simd n (rest, dec, m, out)" and "\<forall>d. dict = Some d \<longrightarrow> decode_dict_ok d \<and> length (dd_content d) < 2 ^ 63" and "length data < 2 ^ 44"
  shows "n \<le> 3 * length data \<and>
    ((\<exists>s'. fd_step dict (rest, dec, m, out) s') \<or> length rest < unit_len dec rest
     \<or> (\<exists>e. process VecOut dec (take (unit_len dec rest) rest) m out dict = Inl (Err e)))"
proof -
  obtain "done" seg where "loop_inv (MAX_BLOCK_SIZE * (length data + 2) + 32) dict rest dec m out done seg"
    using fd_reachable_means [OF assms] by (auto simp: means_def)
  then show ?thesis using fd_reachable_measure [OF assms(1)] unit_progress [of _ dict rest dec m out "done" seg "unit_len dec rest"]
      skip_progress [of dec rest dict m out] by (cases "length rest < unit_len dec rest"; cases "skipping dec") auto
qed

theorem fd_progress_witness:
  "(\<exists>s'. fd_step None (frame_bytes_example, frame_decoder_new LevelOther, (\<lambda>_. [])(DICT := []), \<lparr>vo_len = 0, vo_start = 0, vo_window = 0, vo_dict_len = 0\<rparr>) s')
    \<or> (\<exists>e. process VecOut (frame_decoder_new LevelOther) (take (unit_len (frame_decoder_new LevelOther) frame_bytes_example) frame_bytes_example) ((\<lambda>_. [])(DICT := []))
          \<lparr>vo_len = 0, vo_start = 0, vo_window = 0, vo_dict_len = 0\<rparr> None = Inl (Err e))"
proof -
  have "unit_len (frame_decoder_new LevelOther) frame_bytes_example = 8" by code_simp
  then have "\<not> length frame_bytes_example < unit_len (frame_decoder_new LevelOther) frame_bytes_example" by (simp add: frame_bytes_example_def)
  moreover have "fd_reachable None frame_bytes_example LevelOther 0 (frame_bytes_example, frame_decoder_new LevelOther, (\<lambda>_. [])(DICT := []),
      \<lparr>vo_len = 0, vo_start = 0, vo_window = 0, vo_dict_len = 0\<rparr>)"
    using reach_init [of None frame_bytes_example LevelOther] by (simp add: dict_hist_def)
  moreover have "length frame_bytes_example < 2 ^ 44" by (simp add: frame_bytes_example_def)
  ultimately show ?thesis using fd_progress [of None frame_bytes_example LevelOther 0 frame_bytes_example] by blast
qed

section \<open>Room for a frame\<close>

lemma blocks_decoded_bound_ge:
  assumes "ref_blocks rest bsm window ws dict hist seg = Some (rest', ws', out)" and "bsm \<le> MAX_BLOCK_SIZE" and "ws_ok ws dict"
  shows "min (b + (length out - length seg)) (2 ^ 64 - 1) \<le> blocks_decoded_bound rest bsm b"
  using assms
proof (induction rest bsm window ws dict hist seg arbitrary: b rule: ref_blocks.induct)
  case (1 rest bsm window ws dict hist seg)
  from "1.prems"(1) obtain block content ws1 seg1 where q: "locate_block rest bsm = Some (block, content)" "ref_bytes block content bsm window ws dict hist seg = Some (ws1, seg1)"
    by (subst (asm) ref_blocks.simps) (auto split: option.splits prod.splits)
  from ref_bytes_ok [OF "1.prems"(3,2) locate_block_ok(3) [OF q(1)] q(2)] obtain ys where r: "ws_ok ws1 dict" "seg1 = seg @ ys" "length ys \<le> block_bound block bsm" by auto
  define b' where "b' = min (b + block_bound block bsm) (2 ^ 64 - 1)"
  let ?r = "drop (BLOCK_HEADER_LEN + length content) rest"
  have bd: "blocks_decoded_bound rest bsm b = (if last_block block then b' else blocks_decoded_bound ?r bsm b')"
    by (subst blocks_decoded_bound.simps) (simp add: q(1) Let_def b'_def)
  show ?case
  proof (cases "last_block block")
    case True
    then have "out = seg1" using "1.prems"(1) q by (subst (asm) ref_blocks.simps) auto
    then show ?thesis unfolding bd b'_def using True r by (auto simp: min_def)
  next
    case False
    have s: "ref_blocks ?r bsm window ws1 dict hist seg1 = Some (rest', ws', out)" using "1.prems"(1) q False by (subst (asm) ref_blocks.simps) auto
    obtain zs where z: "out = seg1 @ zs" using ref_blocks_extends [OF s "1.prems"(2) r(1)] by blast
    from "1.IH" [OF q(1) refl q(2) refl refl False s "1.prems"(2) r(1), of b'] show ?thesis
      unfolding bd z r(2) b'_def using False r(3) by (auto simp: min_def split: if_splits)
  qed
qed

text \<open>C36: \<open>blocks_decoded_bound\<close> is an upper bound.  The blocks of a frame never decode to more than the bound that
  \<open>reserve_frame\<close> computes from their headers alone, saturation at \<open>u64::MAX\<close> included, and the bound is at most one
  block per byte of input.\<close>

theorem blocks_decoded_bound_sound:
  assumes "ref_blocks rest bsm window ws dict hist [] = Some (rest', ws', out)" and "bsm \<le> MAX_BLOCK_SIZE" and "ws_ok ws dict"
  shows "min (length out) (2 ^ 64 - 1) \<le> blocks_decoded_bound rest bsm 0 \<and> blocks_decoded_bound rest bsm 0 \<le> MAX_BLOCK_SIZE * length rest"
  using blocks_decoded_bound_ge [OF assms, of 0] blocks_decoded_bound_le [OF assms(2), of rest 0] by simp

theorem blocks_decoded_bound_sound_witness:
  "6 \<le> blocks_decoded_bound [24, 0, 0, 1, 2, 3, 27, 0, 0, 7] 100 0"
proof -
  have "ref_blocks [24, 0, 0, 1, 2, 3, 27, 0, 0, 7] 100 100 decoder_scratch_new None [] [] = Some ([], decoder_scratch_new, [1, 2, 3, 7, 7, 7])" by code_simp
  from blocks_decoded_bound_sound [OF this _ ws_ok_new] show ?thesis by (simp add: MAX_BLOCK_SIZE_def)
qed

end
