(* ===== verification/Fse_Encode.thy ===== *)
theory Fse_Encode
  imports Bitstream Fse_Table
begin

text \<open>
  The FSE encoder's tables and states of \<open>src/src/fse.rs\<close>: \<open>FseCTable\<close> with its two builders, the
  state transitions, and the \<open>debug_assert\<close>ed bit writes.  \<open>u16\<close>, \<open>u32\<close> and \<open>usize\<close>
  values are natural numbers with the wrap-around written out, an \<open>i16\<close> count and an \<open>i32\<close> delta
  are integers; a failed assertion, bounds check or overflow is \<open>Panic\<close>, the unchecked table read
  outside the table \<open>Undefined\<close>.  The lemmas show that a table built from a distribution inverts
  the decoder's table for the same distribution (\<open>enc_pair\<close>): from every state and for every symbol of
  nonzero count the encoder writes exactly the bits with which the decoder returns to that state,
  and lands on a cell the decoder reads as that symbol.
\<close>

section \<open>Tables\<close>

definition MAX_SEQ :: nat where "MAX_SEQ = MAX_ML"
definition FSE_CTABLE_MAX_LOG :: nat where "FSE_CTABLE_MAX_LOG = 9"

record symbol_tt =
  delta_find_state :: int
  delta_nb_bits :: nat

definition symbol_tt_default :: symbol_tt where
  "symbol_tt_default = \<lparr>delta_find_state = 0, delta_nb_bits = 0\<rparr>"

record fse_ctable =
  ct_log :: nat
  ct_state_table :: "nat list"
  ct_symbol_tt :: "symbol_tt list"
  ct_max_symbol :: nat

definition ctable_default :: fse_ctable where
  "ctable_default = \<lparr>ct_log = 0, ct_state_table = replicate (2 ^ FSE_CTABLE_MAX_LOG) 0,
     ct_symbol_tt = replicate (MAX_SEQ + 1) symbol_tt_default, ct_max_symbol = 0\<rparr>"

text \<open>\<open>xs[i] = v\<close> with its bounds check, and \<open>u16\<close> addition with its overflow check.\<close>

definition put_at :: "'a list \<Rightarrow> nat \<Rightarrow> 'a \<Rightarrow> 'a list res" where
  "put_at xs i v = (if i < length xs then Inr (xs[i := v]) else Inl Panic)"

definition add_u16 :: "nat \<Rightarrow> nat \<Rightarrow> nat res" where
  "add_u16 a b = (if a + b < 65536 then Inr (a + b) else Inl Panic)"

text \<open>\<open>highest_bit\<close> of a \<open>u32\<close>.\<close>

definition highest_bit :: "nat \<Rightarrow> nat" where
  "highest_bit v = (if v = 0 then 0 else 31 - (32 - bit_length v))"

subsection \<open>Building from a distribution\<close>

text \<open>The cumulative counts, and the low-probability symbols in the highest cells.\<close>

fun ct_low :: "int list \<Rightarrow> nat list \<Rightarrow> nat list \<Rightarrow> nat \<Rightarrow> nat list \<Rightarrow> (nat list \<times> nat \<times> nat list) res" where
  "ct_low norm [] cumul high ts = Inr (cumul, high, ts)"
| "ct_low norm (s # ss) cumul high ts =
     res_bind (index norm s) (\<lambda>n.
     res_bind (index cumul s) (\<lambda>c.
     if n = -1 then
       res_bind (add_u16 c 1) (\<lambda>c.
       res_bind (put_at cumul (s + 1) c) (\<lambda>cumul.
       res_bind (put_at ts high (s mod 256)) (\<lambda>ts.
       ct_low norm ss cumul ((high + 2 ^ 32 - 1) mod 2 ^ 32) ts)))
     else
       res_bind (add_u16 c (nat (n mod 65536))) (\<lambda>c.
       res_bind (put_at cumul (s + 1) c) (\<lambda>cumul.
       ct_low norm ss cumul high ts))))"

text \<open>The walk over the remaining cells.  The fuel of the skipping loop is the table size.\<close>

fun ct_skip :: "nat \<Rightarrow> nat \<Rightarrow> nat \<Rightarrow> nat \<Rightarrow> nat \<Rightarrow> nat res" where
  "ct_skip fuel high step msk pos =
     (if high < pos then
        (case fuel of 0 \<Rightarrow> Inl Diverges | Suc fuel \<Rightarrow> ct_skip fuel high step msk ((pos + step) AND msk))
      else Inr pos)"

declare ct_skip.simps [simp del]

fun ct_spread_symbol :: "nat \<Rightarrow> nat \<Rightarrow> nat \<Rightarrow> nat \<Rightarrow> nat \<Rightarrow> nat \<Rightarrow> nat \<Rightarrow> nat list \<Rightarrow> (nat \<times> nat list) res" where
  "ct_spread_symbol 0 s table_size high step msk pos ts = Inr (pos, ts)"
| "ct_spread_symbol (Suc k) s table_size high step msk pos ts =
     res_bind (put_at ts pos (s mod 256)) (\<lambda>ts.
     res_bind (ct_skip table_size high step msk ((pos + step) AND msk)) (\<lambda>pos.
     ct_spread_symbol k s table_size high step msk pos ts))"

fun ct_spread :: "int list \<Rightarrow> nat list \<Rightarrow> nat \<Rightarrow> nat \<Rightarrow> nat \<Rightarrow> nat \<Rightarrow> nat \<Rightarrow> nat list \<Rightarrow> (nat \<times> nat list) res" where
  "ct_spread norm [] table_size high step msk pos ts = Inr (pos, ts)"
| "ct_spread norm (s # ss) table_size high step msk pos ts =
     res_bind (index norm s) (\<lambda>n.
     let cnt = (if n \<le> 0 then 0 else nat n) in
     res_bind (ct_spread_symbol cnt s table_size high step msk pos ts) (\<lambda>(pos, ts).
     ct_spread norm ss table_size high step msk pos ts))"

text \<open>The states sorted by symbol: cell \<open>u\<close> is the next state of its symbol.\<close>

fun ct_states :: "nat list \<Rightarrow> nat \<Rightarrow> nat \<Rightarrow> nat list \<Rightarrow> nat list \<Rightarrow> nat list res" where
  "ct_states [] u table_size cumul st = Inr st"
| "ct_states (s # ss) u table_size cumul st =
     res_bind (index cumul s) (\<lambda>idx.
     res_bind (put_at st idx ((table_size + u) mod 65536)) (\<lambda>st.
     res_bind (add_u16 idx 1) (\<lambda>c.
     ct_states ss (Suc u) table_size (cumul[s := c]) st)))"

text \<open>The transform of a symbol of count \<open>prob\<close> whose states start at \<open>start\<close>.\<close>

definition ct_transform :: "nat \<Rightarrow> nat \<Rightarrow> nat \<Rightarrow> symbol_tt res" where
  "ct_transform table_log start prob =
     (let table_size = 2 ^ table_log in
      if prob = 0 then Inr \<lparr>delta_find_state = 0, delta_nb_bits = (table_log + 1) * 65536 - table_size\<rparr>
      else if prob = 1 then
        (if table_log * 65536 < table_size then Inl Panic
         else Inr \<lparr>delta_find_state = int start - 1, delta_nb_bits = table_log * 65536 - table_size\<rparr>)
      else if table_log < highest_bit (prob - 1) then Inl Panic
      else
        let max_bits_out = table_log - highest_bit (prob - 1);
            min_state_plus = (prob * 2 ^ max_bits_out) mod 2 ^ 32 in
        Inr \<lparr>delta_find_state = int start - int prob,
             delta_nb_bits = (max_bits_out * 65536 + 2 ^ 32 - min_state_plus) mod 2 ^ 32\<rparr>)"

fun ct_transforms :: "int list \<Rightarrow> nat \<Rightarrow> nat list \<Rightarrow> nat \<Rightarrow> symbol_tt list res" where
  "ct_transforms norm table_log [] start = Inr []"
| "ct_transforms norm table_log (s # ss) start =
     (let prob = (if s < length norm then (if norm ! s = -1 then 1 else nat (max (norm ! s) 0)) else 0) in
      res_bind (ct_transform table_log start prob) (\<lambda>tt.
      res_bind (ct_transforms norm table_log ss (start + prob)) (\<lambda>tts. Inr (tt # tts))))"

definition ct_build :: "fse_ctable \<Rightarrow> int list \<Rightarrow> nat \<Rightarrow> nat \<Rightarrow> fse_ctable res" where
  "ct_build ct norm max_sym table_log =
     (if \<not> (table_log \<le> FSE_CTABLE_MAX_LOG \<and> max_sym \<le> MAX_SEQ) then Inl Panic
      else
      let table_size = 2 ^ table_log; table_mask = table_size - 1; ss = [0..<max_sym + 1] in
      res_bind (ct_low norm ss (replicate (MAX_SEQ + 2) 0) (table_size - 1) (replicate (2 ^ FSE_CTABLE_MAX_LOG) 0)) (\<lambda>(cumul, high, ts).
      res_bind (put_at cumul (max_sym + 1) ((table_size + 1) mod 65536)) (\<lambda>cumul.
      res_bind (ct_spread norm ss table_size high (fse_step table_size) table_mask 0 ts) (\<lambda>(pos, ts).
      if pos \<noteq> 0 then Inl Panic
      else
      res_bind (slice ts 0 table_size) (\<lambda>syms.
      res_bind (ct_states syms 0 table_size cumul (ct_state_table ct)) (\<lambda>st.
      res_bind (slice norm 0 (max_sym + 1)) (\<lambda>norm.
      res_bind (ct_transforms norm table_log [0..<length (ct_symbol_tt ct)] 0) (\<lambda>tts.
      Inr \<lparr>ct_log = table_log, ct_state_table = st, ct_symbol_tt = tts, ct_max_symbol = max_sym\<rparr>))))))))"

text \<open>A one-symbol table.\<close>

definition ct_build_rle :: "fse_ctable \<Rightarrow> nat \<Rightarrow> fse_ctable res" where
  "ct_build_rle ct symbol =
     res_bind (put_at (ct_state_table ct) 0 0) (\<lambda>st.
     Inr \<lparr>ct_log = 0, ct_state_table = st, ct_symbol_tt = map (\<lambda>t. symbol_tt_default) (ct_symbol_tt ct), ct_max_symbol = symbol\<rparr>)"

section \<open>States\<close>

definition ct_next_state :: "fse_ctable \<Rightarrow> nat \<Rightarrow> int \<Rightarrow> nat res" where
  "ct_next_state ct shifted delta =
     (let idx = nat ((int shifted + delta) mod 2 ^ 32) in
      if \<not> idx < 2 ^ ct_log ct then Inl Panic
      else if \<not> idx < length (ct_state_table ct) then Inl Undefined
      else Inr (ct_state_table ct ! idx))"

definition ct_init_state :: "fse_ctable \<Rightarrow> nat \<Rightarrow> nat res" where
  "ct_init_state ct symbol =
     res_bind (index (ct_symbol_tt ct) symbol) (\<lambda>stt.
     let nb = (delta_nb_bits stt + 2 ^ 15) div 2 ^ 16;
         base_val = (nb * 65536 mod 2 ^ 32 + 2 ^ 32 - delta_nb_bits stt) mod 2 ^ 32 in
     if 32 \<le> nb then Inl Panic
     else ct_next_state ct (base_val div 2 ^ nb) (delta_find_state stt))"

record fse_cstate =
  cst_value :: nat
  cst_table :: fse_ctable

definition cst_new :: "fse_ctable \<Rightarrow> nat \<Rightarrow> fse_cstate res" where
  "cst_new ct symbol = res_bind (ct_init_state ct symbol) (\<lambda>v. Inr \<lparr>cst_value = v, cst_table = ct\<rparr>)"

text \<open>\<open>BitCStream::add_bits\<close> and \<open>close\<close> with their \<open>debug_assert\<close>s.\<close>

definition add_bits_checked :: "bit_cstream \<Rightarrow> nat \<Rightarrow> nat \<Rightarrow> bit_cstream res" where
  "add_bits_checked bw val nb = (if nb < 32 \<and> bit_pos bw + nb < 64 then Inr (add_bits bw (word_of_nat val) nb) else Inl Panic)"

definition cs_close_checked :: "bit_cstream \<Rightarrow> (nat \<times> u8 list) res" where
  "cs_close_checked bw = (if bit_pos bw + 1 < 64 then Inr (cs_close bw) else Inl Panic)"

definition cst_encode :: "fse_cstate \<Rightarrow> bit_cstream \<Rightarrow> nat \<Rightarrow> (fse_cstate \<times> bit_cstream) res" where
  "cst_encode st bw symbol =
     res_bind (index (ct_symbol_tt (cst_table st)) symbol) (\<lambda>stt.
     let nb = (cst_value st + delta_nb_bits stt) mod 2 ^ 32 div 2 ^ 16 in
     res_bind (add_bits_checked bw (cst_value st) nb) (\<lambda>bw.
     res_bind (ct_next_state (cst_table st) (cst_value st div 2 ^ nb) (delta_find_state stt)) (\<lambda>v.
     Inr (st\<lparr>cst_value := v\<rparr>, bw))))"

definition cst_flush :: "fse_cstate \<Rightarrow> bit_cstream \<Rightarrow> bit_cstream res" where
  "cst_flush st bw =
     res_bind (add_bits_checked bw (cst_value st) (ct_log (cst_table st))) (\<lambda>bw. Inr (flush_bits bw))"

section \<open>Laying out the symbols\<close>

text \<open>The first state of each symbol.\<close>

definition count_sum :: "int list \<Rightarrow> nat \<Rightarrow> nat" where
  "count_sum counts s = (\<Sum>c\<leftarrow>take s counts. cell_count c)"

lemma count_sum_Suc: "s < length counts \<Longrightarrow> count_sum counts (Suc s) = count_sum counts s + cell_count (counts ! s)"
  by (simp add: count_sum_def take_Suc_conv_app_nth)

lemma count_sum_mono: "s \<le> t \<Longrightarrow> count_sum counts s \<le> count_sum counts t"
proof -
  assume "s \<le> t"
  then have "take t counts = take s counts @ take (t - s) (drop s counts)" by (metis le_add_diff_inverse take_add)
  then show ?thesis by (simp add: count_sum_def)
qed

lemma count_sum_all: "fse_tiles log counts \<Longrightarrow> length counts \<le> s \<Longrightarrow> count_sum counts s = 2 ^ log"
  by (simp add: count_sum_def fse_tiles_def)

lemma count_sum_le: "fse_tiles log counts \<Longrightarrow> count_sum counts s \<le> 2 ^ log"
  using count_sum_mono [of s "max s (length counts)" counts] count_sum_all [of log counts "max s (length counts)"] by simp

lemma put_at_ok [simp]: "i < length xs \<Longrightarrow> put_at xs i v = Inr (xs[i := v])"
  by (simp add: put_at_def)

lemma add_u16_ok [simp]: "a + b < 65536 \<Longrightarrow> add_u16 a b = Inr (a + b)"
  by (simp add: add_u16_def)

text \<open>The inclusive threshold of the encoder against the exclusive one of the decoder.\<close>

definition below :: "nat \<Rightarrow> nat" where
  "below H = (H + 2 ^ 32 - 1) mod 2 ^ 32"

lemma below_pos: "0 < H \<Longrightarrow> H < 2 ^ 32 \<Longrightarrow> below H = H - 1"
proof -
  assume H: "0 < H" "H < 2 ^ 32"
  then have "H + 2 ^ 32 - 1 = (H - 1) + 2 ^ 32" by simp
  then have "below H = (H - 1) mod 2 ^ 32" by (simp only: below_def mod_add_self2)
  then show ?thesis using H by simp
qed

lemma ct_low_ok:
  assumes tl: "fse_tiles log counts" "log \<le> 9" and m: "length counts \<le> 53" and nm: "take (length counts) norm = counts"
  shows "s \<le> length counts \<Longrightarrow> length cumul = 54 \<Longrightarrow> cumul ! s = count_sum counts s \<Longrightarrow>
    length (lows s (drop s counts)) \<le> H \<Longrightarrow> H \<le> length ts \<Longrightarrow> length ts = 512 \<Longrightarrow>
    \<exists>cumul' ts'. ct_low norm [s..<length counts] cumul (below H) ts
        = Inr (cumul', below (H - length (lows s (drop s counts))), ts')
      \<and> length cumul' = 54 \<and> length ts' = length ts
      \<and> (\<forall>j \<le> length counts. cumul' ! j = (if j \<le> s then cumul ! j else count_sum counts j))
      \<and> drop (H - length (lows s (drop s counts))) ts' = rev (lows s (drop s counts)) @ drop H ts"
proof (induction "length counts - s" arbitrary: s cumul H ts)
  case 0
  then show ?case by simp
next
  case (Suc k)
  have s: "s < length counts" using Suc.hyps(2) by simp
  have d: "drop s counts = counts ! s # drop (Suc s) counts" using s by (rule Cons_nth_drop_Suc [symmetric])
  have u: "[s..<length counts] = s # [Suc s..<length counts]" using s by (rule upt_conv_Cons)
  have sn: "s < length norm" "norm ! s = counts ! s" using s nm
    by (metis length_take min_less_iff_conj, metis nth_take)
  have p: "(2::nat) ^ log \<le> 2 ^ 9" using tl(2) by (intro power_increasing) auto
  have le: "count_sum counts (Suc s) \<le> 512" using count_sum_le [OF tl(1), of "Suc s"] p by simp
  note cs = count_sum_Suc [OF s]
  define cumul1 where "cumul1 = cumul[Suc s := count_sum counts (Suc s)]"
  have c1: "length cumul1 = 54" "cumul1 ! Suc s = count_sum counts (Suc s)"
    using Suc.prems m s by (auto simp: cumul1_def)
  have cu: "cumul1 ! j = (if j = Suc s then count_sum counts (Suc s) else cumul ! j)" for j
    using Suc.prems(2) m s by (auto simp: cumul1_def nth_list_update)
  have k: "k = length counts - Suc s" using Suc.hyps(2) by simp
  show ?case
  proof (cases "counts ! s = -1")
    case True
    then have H: "0 < H" "H - 1 < length ts" using Suc.prems d by auto
    define ts1 where "ts1 = ts[H - 1 := s]"
    have dr: "drop (H - 1) ts1 = s # drop H ts"
      using H Cons_nth_drop_Suc [of "H - 1" ts1] by (simp add: ts1_def)
    have hl: "length (lows (Suc s) (drop (Suc s) counts)) \<le> H - 1" using Suc.prems(4) True d by simp
    from Suc.hyps(1) [OF k, of cumul1 "H - 1" ts1] Suc.prems(5,6) c1 H hl s obtain cumul' ts' where
      r: "ct_low norm [Suc s..<length counts] cumul1 (below (H - 1)) ts1
        = Inr (cumul', below (H - 1 - length (lows (Suc s) (drop (Suc s) counts))), ts')"
      "length cumul' = 54" "length ts' = length ts"
      "\<forall>j \<le> length counts. cumul' ! j = (if j \<le> Suc s then cumul1 ! j else count_sum counts j)"
      "drop (H - 1 - length (lows (Suc s) (drop (Suc s) counts))) ts' = rev (lows (Suc s) (drop (Suc s) counts)) @ drop (H - 1) ts1"
      by (auto simp: ts1_def)
    have b: "below H = H - 1" "below (H - 1) = (below H + 2 ^ 32 - 1) mod 2 ^ 32"
      using below_pos [OF H(1)] Suc.prems by (auto simp: below_def)
    have "ct_low norm [s..<length counts] cumul (below H) ts
        = ct_low norm [Suc s..<length counts] cumul1 (below (H - 1)) ts1"
      unfolding u ct_low.simps b(2) using sn Suc.prems True cs le H m s b(1)
      by (simp add: cumul1_def ts1_def cell_count_def)
    then show ?thesis using r True d cu dr by (auto simp: le_Suc_eq)
  next
    case False
    have "-1 \<le> counts ! s \<and> counts ! s < 65536" using tiles_bounds(1) [OF tl] s by simp
    with False have n: "nat (counts ! s mod 65536) = cell_count (counts ! s)" by (simp add: cell_count_def)
    from Suc.hyps(1) [OF k, of cumul1 H ts] Suc.prems c1 False d s obtain cumul' ts' where
      r: "ct_low norm [Suc s..<length counts] cumul1 (below H) ts
        = Inr (cumul', below (H - length (lows (Suc s) (drop (Suc s) counts))), ts')"
      "length cumul' = 54" "length ts' = length ts"
      "\<forall>j \<le> length counts. cumul' ! j = (if j \<le> Suc s then cumul1 ! j else count_sum counts j)"
      "drop (H - length (lows (Suc s) (drop (Suc s) counts))) ts' = rev (lows (Suc s) (drop (Suc s) counts)) @ drop H ts"
      by auto
    have "ct_low norm [s..<length counts] cumul (below H) ts = ct_low norm [Suc s..<length counts] cumul1 (below H) ts"
      unfolding u ct_low.simps using sn Suc.prems False cs le m s n by (simp add: cumul1_def)
    then show ?thesis using r False d cu by (auto simp: le_Suc_eq)
  qed
qed

text \<open>The encoder's walk is the decoder's walk on cells that hold only symbols.\<close>

definition sym_cell :: "nat \<Rightarrow> fse_entry" where
  "sym_cell s = fse_entry_default\<lparr>base_value := s\<rparr>"

lemma sym_cell_simps [simp]: "base_value (sym_cell s) = s" "(sym_cell s)\<lparr>base_value := t\<rparr> = sym_cell t"
  by (simp_all add: sym_cell_def)

lemma base_sym_cell [simp]: "base_value \<circ> sym_cell = id"
  by (simp add: comp_def id_def)

lemma ct_skip_eq: "ct_skip fuel high step msk pos = skip_high fuel (Suc high) step msk pos"
proof (induction fuel arbitrary: pos)
  case 0
  then show ?case by (simp add: ct_skip.simps skip_high.simps not_less less_Suc_eq_le)
next
  case (Suc fuel)
  then show ?case by (simp add: ct_skip.simps [of "Suc fuel"] skip_high.simps [of "Suc fuel"] not_less less_Suc_eq_le)
qed

lemma ct_spread_symbol_eq:
  "s < 256 \<Longrightarrow> spread_symbol k s n (Suc high) step msk pos (map sym_cell ts) = Inr (p, dt) \<Longrightarrow>
    ct_spread_symbol k s n high step msk pos ts = Inr (p, map base_value dt) \<and> dt = map sym_cell (map base_value dt)"
proof (induction k arbitrary: pos ts)
  case 0
  then show ?case by auto
next
  case (Suc k)
  have sb: "set_base (map sym_cell ts) pos s = (if pos < length ts then Inr (map sym_cell (ts[pos := s])) else Inl Panic)"
    by (simp add: set_base_def map_update)
  from Suc.prems(2) have pos: "pos < length ts" by (auto simp: sb split: if_splits)
  from Suc.prems(2) pos obtain q where
    q: "skip_high n (Suc high) step msk ((pos + step) AND msk) = Inr q"
    "spread_symbol k s n (Suc high) step msk q (map sym_cell (ts[pos := s])) = Inr (p, dt)"
    by (auto simp: sb res_simps)
  from Suc.IH [OF Suc.prems(1) q(2)] q(1) pos Suc.prems(1) show ?case by (simp add: ct_skip_eq)
qed

lemma ct_spread_ok:
  fixes n :: nat
  assumes c: "coprime n step" and n: "n = 2 ^ l" and hi: "0 < H" "H \<le> n" and m: "length counts \<le> 53" and nm: "take (length counts) norm = counts"
  shows "s \<le> length counts \<Longrightarrow> i \<le> n \<Longrightarrow> fse_pos n step i < H \<Longrightarrow>
    length (laid (map sym_cell ts) n step H i) + length (expand s (drop s counts)) \<le> H \<Longrightarrow> n \<le> length ts \<Longrightarrow>
    \<exists>j ts'. ct_spread norm [s..<length counts] n (H - 1) step (n - 1) (fse_pos n step i) ts = Inr (fse_pos n step j, ts')
      \<and> j \<le> n \<and> fse_pos n step j < H \<and> length ts' = length ts
      \<and> laid (map sym_cell ts') n step H j = laid (map sym_cell ts) n step H i @ expand s (drop s counts)
      \<and> drop H ts' = drop H ts"
proof (induction "length counts - s" arbitrary: s i ts)
  case 0
  then show ?case by auto
next
  case (Suc k)
  have s: "s < length counts" using Suc.hyps(2) by simp
  have d: "drop s counts = counts ! s # drop (Suc s) counts" using s by (rule Cons_nth_drop_Suc [symmetric])
  have u: "[s..<length counts] = s # [Suc s..<length counts]" using s by (rule upt_conv_Cons)
  have sn: "s < length norm" "norm ! s = counts ! s" using s nm
    by (metis length_take min_less_iff_conj, metis nth_take)
  let ?k = "nat (max (counts ! s) 0)"
  have kk: "(if counts ! s \<le> 0 then 0 else nat (counts ! s)) = ?k" by auto
  from spread_symbol_ok [OF c n hi, of i "map sym_cell ts" ?k s] Suc.prems d obtain j dt where
    1: "spread_symbol ?k s n H step (n - 1) (fse_pos n step i) (map sym_cell ts) = Inr (fse_pos n step j, dt)"
    "j \<le> n" "fse_pos n step j < H" "length dt = length ts"
    "laid dt n step H j = laid (map sym_cell ts) n step H i @ replicate ?k s"
    "map base_value (drop H dt) = drop H ts" by (auto simp: drop_map comp_def)
  define ts1 where "ts1 = map base_value dt"
  have 2: "ct_spread_symbol ?k s n (H - 1) step (n - 1) (fse_pos n step i) ts = Inr (fse_pos n step j, ts1)" "dt = map sym_cell ts1"
    using ct_spread_symbol_eq [of s ?k n "H - 1" step "n - 1" "fse_pos n step i" ts "fse_pos n step j" dt] 1(1) hi s m
    by (auto simp: ts1_def)
  have t1: "drop H ts1 = drop H ts" "length ts1 = length ts" using 1 by (auto simp: ts1_def drop_map)
  have kl: "k = length counts - Suc s" using Suc.hyps(2) by simp
  from Suc.hyps(1) [OF kl, of j ts1] 1 2 Suc.prems s d t1 obtain j' ts' where
    "ct_spread norm [Suc s..<length counts] n (H - 1) step (n - 1) (fse_pos n step j) ts1 = Inr (fse_pos n step j', ts')"
    "j' \<le> n" "fse_pos n step j' < H" "length ts' = length ts1"
    "laid (map sym_cell ts') n step H j' = laid (map sym_cell ts1) n step H j @ expand (Suc s) (drop (Suc s) counts)"
    "drop H ts' = drop H ts1" by auto
  with 1 2 sn d t1 show ?case unfolding u by (intro exI [of _ j'] exI [of _ ts']) (simp add: kk Let_def)
qed

section \<open>The states of the symbols\<close>

text \<open>The place in the state table of cell \<open>i\<close>: after the earlier cells of its symbol.\<close>

definition slot_of :: "(nat \<Rightarrow> nat) \<Rightarrow> nat list \<Rightarrow> nat \<Rightarrow> nat" where
  "slot_of first ss i = first (ss ! i) + count_list (take i ss) (ss ! i)"

lemma slot_of_Cons: "slot_of f (s # ss) (Suc i) = slot_of (f(s := Suc (f s))) ss i"
  by (simp add: slot_of_def)

lemma ct_states_ok:
  "\<forall>s \<in> set ss. s < length cumul \<Longrightarrow> (\<forall>i < length ss. slot_of ((!) cumul) ss i < length st) \<Longrightarrow> length st < 65536 \<Longrightarrow>
   inj_on (slot_of ((!) cumul) ss) {..<length ss} \<Longrightarrow> n + u + length ss \<le> 65536 \<Longrightarrow>
   \<exists>st'. ct_states ss u n cumul st = Inr st' \<and> length st' = length st
     \<and> (\<forall>i < length ss. st' ! slot_of ((!) cumul) ss i = n + u + i)
     \<and> (\<forall>j. (\<forall>i < length ss. j \<noteq> slot_of ((!) cumul) ss i) \<longrightarrow> st' ! j = st ! j)"
proof (induction ss arbitrary: u cumul st)
  case Nil
  then show ?case by simp
next
  case (Cons s ss)
  let ?c = "cumul[s := cumul ! s + 1]" let ?st = "st[cumul ! s := n + u]"
  have s: "s < length cumul" using Cons.prems(1) by simp
  have z: "slot_of ((!) cumul) (s # ss) 0 = cumul ! s" by (simp add: slot_of_def)
  have f: "(!) ?c x = (((!) cumul)(s := Suc (cumul ! s))) x" for x using s by (simp add: nth_list_update)
  have sl: "slot_of ((!) cumul) (s # ss) (Suc i) = slot_of ((!) ?c) ss i" for i
    unfolding slot_of_Cons using f by (simp add: slot_of_def)
  have lt: "cumul ! s < length st" using Cons.prems(2) z by auto
  have sls: "\<forall>i < length ss. slot_of ((!) ?c) ss i < length ?st" using Cons.prems(2) sl by fastforce
  have inj: "inj_on (slot_of ((!) ?c) ss) {..<length ss}"
  proof (rule inj_onI)
    fix i j assume "i \<in> {..<length ss}" "j \<in> {..<length ss}" "slot_of ((!) ?c) ss i = slot_of ((!) ?c) ss j"
    then show "i = j" using inj_onD [OF Cons.prems(4), of "Suc i" "Suc j"] sl by simp
  qed
  have ne: "slot_of ((!) ?c) ss i \<noteq> cumul ! s" if "i < length ss" for i
    using Cons.prems(4) that sl [of i] z by (auto dest: inj_onD [of _ _ "Suc i" 0])
  obtain st' where r: "ct_states ss (Suc u) n ?c ?st = Inr st'" "length st' = length ?st"
    "\<forall>i < length ss. st' ! slot_of ((!) ?c) ss i = n + Suc u + i"
    "\<forall>j. (\<forall>i < length ss. j \<noteq> slot_of ((!) ?c) ss i) \<longrightarrow> st' ! j = ?st ! j"
    using Cons.IH [of ?c ?st "Suc u"] Cons.prems sls inj by auto
  have e: "ct_states (s # ss) u n cumul st = Inr st'"
    using r(1) s lt Cons.prems(3,5) by simp
  have v: "st' ! slot_of ((!) cumul) (s # ss) i = n + u + i" if "i < length (s # ss)" for i
  proof (cases i)
    case 0
    have "st' ! (cumul ! s) = ?st ! (cumul ! s)" using r(4) ne by metis
    then show ?thesis using 0 z lt by simp
  next
    case (Suc i')
    then show ?thesis using r(3) that sl by simp
  qed
  have o: "st' ! j = st ! j" if "\<forall>i < length (s # ss). j \<noteq> slot_of ((!) cumul) (s # ss) i" for j
  proof -
    have "\<forall>i < length ss. j \<noteq> slot_of ((!) ?c) ss i" using that sl by (metis Suc_less_eq length_Cons)
    moreover have "j \<noteq> cumul ! s" using that z by (metis length_Cons zero_less_Suc)
    ultimately show ?thesis using r(4) by simp
  qed
  from e v o r(2) show ?case by auto
qed

text \<open>The slots of a distribution's cells are a bijection.\<close>

lemma slot_of_bounds:
  assumes cnt: "\<forall>s. count_list syms s = (if s < length counts then cell_count (counts ! s) else 0)" and i: "i < length syms"
  shows "syms ! i < length counts" "count_sum counts (syms ! i) \<le> slot_of (count_sum counts) syms i"
    "slot_of (count_sum counts) syms i < count_sum counts (Suc (syms ! i))"
proof -
  note r = rank_less [OF i]
  with cnt show s: "syms ! i < length counts" by (metis less_nat_zero_code)
  show "count_sum counts (syms ! i) \<le> slot_of (count_sum counts) syms i" by (simp add: slot_of_def)
  show "slot_of (count_sum counts) syms i < count_sum counts (Suc (syms ! i))"
    using r cnt s by (simp add: slot_of_def count_sum_Suc)
qed

lemma slot_of_inj:
  assumes cnt: "\<forall>s. count_list syms s = (if s < length counts then cell_count (counts ! s) else 0)"
  shows "inj_on (slot_of (count_sum counts) syms) {..<length syms}"
proof (rule inj_onI)
  fix i j assume "i \<in> {..<length syms}" "j \<in> {..<length syms}"
    and e: "slot_of (count_sum counts) syms i = slot_of (count_sum counts) syms j"
  then have ij: "i < length syms" "j < length syms" by auto
  note bi = slot_of_bounds [OF cnt ij(1)] and bj = slot_of_bounds [OF cnt ij(2)]
  have "\<not> Suc (syms ! i) \<le> syms ! j" "\<not> Suc (syms ! j) \<le> syms ! i"
    using bi bj e count_sum_mono [of "Suc (syms ! i)" "syms ! j" counts] count_sum_mono [of "Suc (syms ! j)" "syms ! i" counts] by linarith+
  then have s: "syms ! i = syms ! j" by simp
  with e have r: "count_list (take i syms) (syms ! i) = count_list (take j syms) (syms ! i)" by (simp add: slot_of_def)
  have "count_list (take i syms) (syms ! i) < count_list syms (syms ! i)" using rank_less [OF ij(1)] .
  from nth_occurrence [OF this] ij s r show "i = j" by metis
qed

section \<open>The transforms\<close>

lemma highest_bit_bounds:
  assumes "0 < v" and "v < 2 ^ 32"
  shows "2 ^ highest_bit v \<le> v" and "v < 2 ^ Suc (highest_bit v)"
proof -
  have "highest_bit v = highbit32 v" using assms(1) bit_length_pos [of 1] by (cases "v = 1") (auto simp: highest_bit_def highbit32_def)
  then show "2 ^ highest_bit v \<le> v" "v < 2 ^ Suc (highest_bit v)" using highbit32_bounds [OF assms] by auto
qed

text \<open>A transform of a symbol of count \<open>c\<close>: from the state \<open>X\<close> it writes \<open>nb\<close> bits and
  leaves \<open>X div 2^nb\<close> in \<open>c, ..., 2c - 1\<close>, and the first state leaves \<open>c\<close>.\<close>

definition tt_step :: "nat \<Rightarrow> nat \<Rightarrow> symbol_tt \<Rightarrow> bool" where
  "tt_step log c tt \<longleftrightarrow>
     (\<forall>X. 2 ^ log \<le> X \<and> X < 2 ^ Suc log \<longrightarrow>
        (let nb = (X + delta_nb_bits tt) mod 2 ^ 32 div 2 ^ 16 in
         c \<le> X div 2 ^ nb \<and> X div 2 ^ nb < 2 * c \<and> nb = cell_bits log (X div 2 ^ nb)))
     \<and> (let nb = (delta_nb_bits tt + 2 ^ 15) div 2 ^ 16 in
         nb < 32 \<and> (nb * 65536 mod 2 ^ 32 + 2 ^ 32 - delta_nb_bits tt) mod 2 ^ 32 div 2 ^ nb = c)"

lemma cell_bits_eqI: "2 ^ h \<le> k \<Longrightarrow> k < 2 ^ Suc h \<Longrightarrow> cell_bits log k = log - h"
  using bit_length_eqI [of h k] by (simp add: cell_bits_def)

text \<open>A transform that adds \<open>b\<close> bits from \<open>c 2^b\<close> on, and one bit less below.\<close>

lemma tt_step_intro:
  assumes d: "delta_nb_bits tt = b * 65536 - c * 2 ^ b" and b: "0 < b" "b \<le> 9" "log \<le> 9" and c: "c * 2 ^ b \<le> 2 ^ Suc log"
    and up: "\<And>X. c * 2 ^ b \<le> X \<Longrightarrow> X < 2 ^ Suc log \<Longrightarrow> c \<le> X div 2 ^ b \<and> X div 2 ^ b < 2 * c \<and> b = cell_bits log (X div 2 ^ b)"
    and dn: "\<And>X. 2 ^ log \<le> X \<Longrightarrow> X < c * 2 ^ b \<Longrightarrow> c \<le> X div 2 ^ (b - 1) \<and> X div 2 ^ (b - 1) < 2 * c \<and> b - 1 = cell_bits log (X div 2 ^ (b - 1))"
  shows "tt_step log c tt"
proof -
  have p: "(2::nat) ^ Suc log \<le> 2 ^ Suc 9" using b(3) by (intro power_increasing) auto
  then have c1: "c * 2 ^ b \<le> 1024" using c by simp
  obtain b' where b': "b = Suc b'" using b(1) by (cases b) auto
  have nb: "(X + delta_nb_bits tt) mod 2 ^ 32 div 2 ^ 16 = (if c * 2 ^ b \<le> X then b else b - 1)" if X: "X < 2 ^ Suc log" for X
  proof (cases "c * 2 ^ b \<le> X")
    case True
    then have "X + delta_nb_bits tt = b * 65536 + (X - c * 2 ^ b)" using d b c1 by simp
    moreover have "X - c * 2 ^ b < 65536" using X p by simp
    ultimately show ?thesis using True b by simp
  next
    case False
    then have "X + delta_nb_bits tt = b' * 65536 + (65536 + X - c * 2 ^ b)" using d b' c1 by simp
    moreover have "65536 + X - c * 2 ^ b < 65536" using False by simp
    ultimately show ?thesis using False b b' by simp
  qed
  have "(delta_nb_bits tt + 2 ^ 15) div 2 ^ 16 = b"
  proof -
    have "delta_nb_bits tt + 2 ^ 15 = b * 65536 + (32768 - c * 2 ^ b)" using d b c1 by simp
    then show ?thesis using c1 by simp
  qed
  moreover have "(b * 65536 mod 2 ^ 32 + 2 ^ 32 - delta_nb_bits tt) mod 2 ^ 32 div 2 ^ b = c"
  proof -
    have "b * 65536 mod 2 ^ 32 + 2 ^ 32 - delta_nb_bits tt = c * 2 ^ b + 2 ^ 32" using d b b' c1 by simp
    then show ?thesis using c1 by (simp only: mod_add_self2) simp
  qed
  ultimately show ?thesis using up dn nb b by (simp add: tt_step_def Let_def)
qed

lemma ct_transform_ok:
  assumes c: "0 < c" "c \<le> 2 ^ log" and log: "0 < log" "log \<le> 9"
  shows "\<exists>tt. ct_transform log start c = Inr tt \<and> delta_find_state tt = int start - int c \<and> tt_step log c tt"
proof (cases "c = 1")
  case True
  have p: "(2::nat) ^ log \<le> 2 ^ 9" using log by (intro power_increasing) auto
  let ?tt = "\<lparr>delta_find_state = int start - 1, delta_nb_bits = log * 65536 - 2 ^ log\<rparr>"
  have "ct_transform log start c = Inr ?tt" using True p log by (simp add: ct_transform_def)
  moreover have "tt_step log c ?tt"
  proof (rule tt_step_intro [where b = log])
    fix X :: nat assume "c * 2 ^ log \<le> X" "X < 2 ^ Suc log"
    then have "X div 2 ^ log = 1" using True by (intro div_nat_eqI) auto
    then show "c \<le> X div 2 ^ log \<and> X div 2 ^ log < 2 * c \<and> log = cell_bits log (X div 2 ^ log)"
      using True cell_bits_eqI [of 0 1 log] by simp
  qed (use True log in auto)
  ultimately show ?thesis using True by simp
next
  case False
  have p: "(2::nat) ^ log \<le> 2 ^ 9" using log by (intro power_increasing) auto
  define h where "h = highest_bit (c - 1)"
  have c2: "0 < c - 1" "c - 1 < 2 ^ 32" using False c p by auto
  have h: "2 ^ h < c" "c \<le> 2 ^ Suc h"
    using highest_bit_bounds [OF c2] False c(1) unfolding h_def by linarith+
  have "(2::nat) ^ h < 2 ^ log" using h(1) c(2) by (rule less_le_trans)
  then have hl: "h < log" by (rule power_less_imp_less_exp [rotated]) simp
  define b where "b = log - h"
  have b: "0 < b" "b \<le> 9" "h + b = log" using hl log by (auto simp: b_def)
  have pw: "(2::nat) ^ h * 2 ^ b = 2 ^ log" using b(3) by (simp flip: power_add)
  have "c * 2 ^ b \<le> 2 ^ Suc h * 2 ^ b" using h(2) by (rule mult_le_mono1)
  also have "\<dots> = 2 ^ Suc log" using pw by simp
  finally have cb: "c * 2 ^ b \<le> 2 ^ Suc log" .
  let ?tt = "\<lparr>delta_find_state = int start - int c, delta_nb_bits = b * 65536 - c * 2 ^ b\<rparr>"
  have c1: "c * 2 ^ b \<le> 1024" using cb p by simp
  have "(b * 65536 + 2 ^ 32 - c * 2 ^ b) mod 2 ^ 32 = b * 65536 - c * 2 ^ b"
  proof -
    have "b * 65536 + 2 ^ 32 - c * 2 ^ b = (b * 65536 - c * 2 ^ b) + 2 ^ 32" using b c1 by simp
    then show ?thesis using b by (simp only: mod_add_self2) simp
  qed
  then have "ct_transform log start c = Inr ?tt"
    using False c hl c1 by (simp add: ct_transform_def Let_def h_def b_def not_less)
  moreover have "tt_step log c ?tt"
  proof (rule tt_step_intro [where b = b, OF _ b(1,2) log(2) cb])
    fix X :: nat assume X: "c * 2 ^ b \<le> X" "X < 2 ^ Suc log"
    have k: "c \<le> X div 2 ^ b" using X(1) by (simp add: less_eq_div_iff_mult_less_eq)
    have "X < 2 ^ Suc h * 2 ^ b" using X(2) pw by simp
    then have k2: "X div 2 ^ b < 2 ^ Suc h" by (simp add: less_mult_imp_div_less)
    have "cell_bits log (X div 2 ^ b) = b" using cell_bits_eqI [of h "X div 2 ^ b" log] k k2 h(1) by (simp add: b_def)
    then show "c \<le> X div 2 ^ b \<and> X div 2 ^ b < 2 * c \<and> b = cell_bits log (X div 2 ^ b)" using k k2 h by simp
  next
    fix X :: nat assume X: "2 ^ log \<le> X" "X < c * 2 ^ b"
    obtain b' where b': "b = Suc b'" using b(1) by (cases b) auto
    have pw': "(2::nat) ^ Suc h * 2 ^ b' = 2 ^ log" using pw b' by simp
    have k: "2 ^ Suc h \<le> X div 2 ^ b'" using X(1) pw' by (simp add: less_eq_div_iff_mult_less_eq)
    have "X < (2 * c) * 2 ^ b'" using X(2) b' by simp
    then have k2: "X div 2 ^ b' < 2 * c" by (rule less_mult_imp_div_less)
    have "cell_bits log (X div 2 ^ b') = log - Suc h"
      by (rule cell_bits_eqI) (use k k2 h in auto)
    then show "c \<le> X div 2 ^ (b - 1) \<and> X div 2 ^ (b - 1) < 2 * c \<and> b - 1 = cell_bits log (X div 2 ^ (b - 1))"
      using k k2 h b' by (simp add: b_def)
  qed simp
  ultimately show ?thesis by simp
qed

lemma ct_transform_0 [simp]: "ct_transform log start 0 = Inr \<lparr>delta_find_state = 0, delta_nb_bits = (log + 1) * 65536 - 2 ^ log\<rparr>"
  by (simp add: ct_transform_def)

lemma ct_transforms_ok:
  assumes tl: "fse_tiles log counts" and log: "0 < log" "log \<le> 9"
  shows "\<exists>tts. ct_transforms counts log [s..<m] (count_sum counts s) = Inr tts \<and> length tts = m - s
    \<and> (\<forall>x. s \<le> x \<and> x < m \<and> x < length counts \<and> counts ! x \<noteq> 0 \<longrightarrow>
        delta_find_state (tts ! (x - s)) = int (count_sum counts x) - int (cell_count (counts ! x))
        \<and> tt_step log (cell_count (counts ! x)) (tts ! (x - s)))"
proof (induction "m - s" arbitrary: s)
  case 0
  then show ?case by auto
next
  case (Suc k)
  have u: "[s..<m] = s # [Suc s..<m]" using Suc.hyps(2) by (intro upt_conv_Cons) simp
  define p where "p = (if s < length counts then cell_count (counts ! s) else 0)"
  have pr: "(if s < length counts then (if counts ! s = -1 then 1 else nat (max (counts ! s) 0)) else 0) = p"
    using tl by (auto simp: p_def fse_tiles_def cell_count_def max_def dest!: nth_mem)
  have cs: "count_sum counts s + p = count_sum counts (Suc s)"
    using count_sum_Suc [of s counts] by (simp add: p_def count_sum_def)
  have pl: "p \<le> 2 ^ log" using tiles_bounds(2) [OF tl log(2), of s] by (simp add: p_def)
  have t: "\<exists>tt. ct_transform log (count_sum counts s) p = Inr tt
      \<and> (0 < p \<longrightarrow> delta_find_state tt = int (count_sum counts s) - int p \<and> tt_step log p tt)" if "p \<le> 2 ^ log" for p
    using ct_transform_ok [OF _ that log] by (cases "p = 0") auto
  from t [OF pl] obtain tt where tt: "ct_transform log (count_sum counts s) p = Inr tt"
    "0 < p \<longrightarrow> delta_find_state tt = int (count_sum counts s) - int p \<and> tt_step log p tt" by blast
  have k: "k = m - Suc s" using Suc.hyps(2) by simp
  from Suc.hyps(1) [OF k] obtain tts where r: "ct_transforms counts log [Suc s..<m] (count_sum counts (Suc s)) = Inr tts" "length tts = m - Suc s"
    "\<forall>x. Suc s \<le> x \<and> x < m \<and> x < length counts \<and> counts ! x \<noteq> 0 \<longrightarrow>
        delta_find_state (tts ! (x - Suc s)) = int (count_sum counts x) - int (cell_count (counts ! x))
        \<and> tt_step log (cell_count (counts ! x)) (tts ! (x - Suc s))" by blast
  have "ct_transforms counts log [s..<m] (count_sum counts s) = Inr (tt # tts)"
    unfolding u ct_transforms.simps pr Let_def tt(1) res_bind_simps cs r(1) by (rule refl)
  moreover have "delta_find_state ((tt # tts) ! (x - s)) = int (count_sum counts x) - int (cell_count (counts ! x))
        \<and> tt_step log (cell_count (counts ! x)) ((tt # tts) ! (x - s))"
    if x: "s \<le> x \<and> x < m \<and> x < length counts \<and> counts ! x \<noteq> 0" for x
  proof (cases "x = s")
    case True
    then show ?thesis using x tt(2) by (simp add: p_def cell_count_def)
  next
    case False
    then have "x - s = Suc (x - Suc s)" using x by linarith
    then show ?thesis using r(3) x False by auto
  qed
  ultimately show ?case using r(2) Suc.hyps(2) by (intro exI [of _ "tt # tts"]) auto
qed

section \<open>What building gives\<close>

lemma expand_empty: "expand s cs = [] \<longleftrightarrow> (\<forall>i < length cs. cs ! i \<le> 0)"
  by (induction cs arbitrary: s) (auto simp: less_Suc_eq_0_disj)

lemma ct_spread_none: "\<forall>s \<in> set ss. s < length norm \<and> norm ! s \<le> 0 \<Longrightarrow> ct_spread norm ss n high step msk pos ts = Inr (pos, ts)"
  by (induction ss) auto

text \<open>The symbols' cells are laid out as the decoder lays them out.\<close>

lemma ct_layout:
  fixes counts :: "int list" and log :: nat
  defines "n \<equiv> (2::nat) ^ log" and "H \<equiv> (2::nat) ^ log - length (lows 0 counts)"
  assumes tl: "fse_tiles log counts" and lg: "5 \<le> log" "log \<le> 9" and m: "length counts \<le> 53" and nm: "take (length counts) norm = counts"
    and ts: "length ts = 512" "drop H ts = rev (lows 0 counts) @ R"
  shows "\<exists>ts'. ct_spread norm [0..<length counts] n (below H) (fse_step n) (n - 1) 0 ts = Inr (0, ts') \<and> length ts' = 512
    \<and> fse_syms log counts (take n ts')"
proof -
  have n: "n = 2 ^ log" by (simp add: n_def)
  have n0: "0 < n" "n \<le> 512" using lg power_increasing [of log 9 "2::nat"] by (auto simp: n_def)
  have c: "coprime n (fse_step n)" unfolding n using lg by (intro fse_step_coprime) simp
  have sum: "length (expand 0 counts) + length (lows 0 counts) = n"
    using length_expand_lows [of counts 0] tl by (simp add: fse_tiles_def n_def)
  then have H: "H = length (expand 0 counts)" "H \<le> n" by (auto simp: H_def n)
  have lo: "drop H (take n xs) = rev (lows 0 counts)" if "drop H xs = drop H ts" "length xs = 512" for xs
  proof -
    have "drop H (take n xs) = take (n - H) (rev (lows 0 counts) @ R)" using that ts(2) by (simp add: drop_take)
    then show ?thesis using sum H by simp
  qed
  show ?thesis
  proof (cases "H = 0")
    case True
    then have "expand 0 counts = []" using H by simp
    then have z: "\<forall>s < length counts. counts ! s \<le> 0" by (simp add: expand_empty)
    have "s < length norm \<and> norm ! s = counts ! s" if "s < length counts" for s
      using that nm by (metis length_take min_less_iff_conj nth_take)
    then have "ct_spread norm [0..<length counts] n (below H) (fse_step n) (n - 1) 0 ts = Inr (0, ts)"
      using z by (intro ct_spread_none) auto
    moreover have "fse_syms log counts (take n ts)"
      using lo [OF refl ts(1)] True \<open>expand 0 counts = []\<close> ts(1) n0 sum by (simp add: fse_syms_def Let_def visits_def n H_def)
    ultimately show ?thesis using ts(1) by auto
  next
    case False
    then have H0: "0 < H" by simp
    from ct_spread_ok [OF c n H0 H(2) m nm, of 0 0 ts] H H0 ts n0 obtain j ts' where
      r: "ct_spread norm [0..<length counts] n (H - 1) (fse_step n) (n - 1) 0 ts = Inr (fse_pos n (fse_step n) j, ts')"
      "j \<le> n" "fse_pos n (fse_step n) j < H" "length ts' = length ts"
      "laid (map sym_cell ts') n (fse_step n) H j = expand 0 counts" "drop H ts' = drop H ts" by auto
    have l: "length (laid (map sym_cell ts') n (fse_step n) H j) = H" using r(5) H by simp
    have "j = n"
    proof (rule ccontr)
      assume "j \<noteq> n"
      then have j: "Suc j \<le> n" using r(2) by simp
      have "visits n (fse_step n) H (Suc j) = visits n (fse_step n) H j @ [fse_pos n (fse_step n) j]"
        by (rule visits_step [OF r(3)]) auto
      moreover have "length (visits n (fse_step n) H j) = H" using l by (simp add: laid_def)
      moreover have "length (visits n (fse_step n) H (Suc j)) \<le> H"
      proof -
        have "set (visits n (fse_step n) H (Suc j)) \<subseteq> {..<H}" by (auto simp: visits_def)
        then have "card (set (visits n (fse_step n) H (Suc j))) \<le> H" using card_mono [of "{..<H}"] by fastforce
        then show ?thesis using distinct_card [OF visits_distinct [OF c j, of H]] by simp
      qed
      ultimately show False by simp
    qed
    have "fse_syms log counts (take n ts')"
    proof -
      have "map (\<lambda>p. take n ts' ! p) (visits n (fse_step n) H n) = laid (map sym_cell ts') n (fse_step n) H n"
        unfolding laid_def using r(4) ts(1) n0 H(2) by (intro map_cong) (auto simp: visits_def dest: less_le_trans)
      then have "map (\<lambda>p. take n ts' ! p) (visits n (fse_step n) H n) = expand 0 counts" using r(5) \<open>j = n\<close> by simp
      then show ?thesis using lo [OF r(6)] r(4) ts(1) n0 by (simp add: fse_syms_def Let_def H_def n)
    qed
    then show ?thesis using r \<open>j = n\<close> H0 H(2) n0 ts(1) below_pos [of H] by (intro exI [of _ ts']) simp
  qed
qed

text \<open>A built table: the states of cell \<open>i\<close> at its slot, and every used symbol's transform.\<close>

definition ct_states_of :: "nat \<Rightarrow> int list \<Rightarrow> nat list \<Rightarrow> fse_ctable \<Rightarrow> bool" where
  "ct_states_of log counts syms ct \<longleftrightarrow> ct_log ct = log \<and> length (ct_state_table ct) = 512 \<and> length (ct_symbol_tt ct) = 53
     \<and> (\<forall>i < 2 ^ log. ct_state_table ct ! slot_of (count_sum counts) syms i = 2 ^ log + i)
     \<and> (\<forall>s < length counts. counts ! s \<noteq> 0 \<longrightarrow>
          delta_find_state (ct_symbol_tt ct ! s) = int (count_sum counts s) - int (cell_count (counts ! s))
          \<and> tt_step log (cell_count (counts ! s)) (ct_symbol_tt ct ! s))"

definition ctable_wf :: "fse_ctable \<Rightarrow> bool" where
  "ctable_wf ct \<longleftrightarrow> length (ct_state_table ct) = 512 \<and> length (ct_symbol_tt ct) = 53"

lemma ctable_default_wf: "ctable_wf ctable_default"
  by (simp add: ctable_wf_def ctable_default_def FSE_CTABLE_MAX_LOG_def MAX_SEQ_def MAX_ML_def)

lemma ct_build_ok:
  assumes tl: "fse_tiles log counts" and lg: "5 \<le> log" "log \<le> 9" and m: "length counts = Suc max_sym" "max_sym \<le> 52"
    and nm: "take (Suc max_sym) norm = counts" and syms: "fse_syms log counts syms"
    and cnt: "\<forall>s. count_list syms s = (if s < length counts then cell_count (counts ! s) else 0)" and wf: "ctable_wf ct"
  shows "\<exists>ct'. ct_build ct norm max_sym log = Inr ct' \<and> ct_states_of log counts syms ct' \<and> ct_max_symbol ct' = max_sym"
proof -
  let ?n = "(2::nat) ^ log"
  have n512: "?n \<le> 512" "32 \<le> ?n" using lg power_increasing [of log 9 "2::nat"] power_increasing [of 5 log "2::nat"] by auto
  have nm': "take (length counts) norm = counts" using nm m by simp
  have ln: "Suc max_sym \<le> length norm" using nm m by (metis length_take min.cobounded1 min.commute)
  have lo: "length (lows 0 counts) \<le> ?n" using length_expand_lows [of counts 0] tl by (auto simp: fse_tiles_def)
  obtain cumul ts where 1: "ct_low norm [0..<length counts] (replicate 54 0) (below ?n) (replicate 512 0)
      = Inr (cumul, below (?n - length (lows 0 counts)), ts)" "length cumul = 54" "length ts = 512"
    "\<forall>j \<le> length counts. cumul ! j = (if j \<le> 0 then replicate 54 0 ! j else count_sum counts j)"
    "drop (?n - length (lows 0 counts)) ts = rev (lows 0 counts) @ drop ?n (replicate 512 0)"
    using ct_low_ok [OF tl lg(2) _ nm', of 0 "replicate 54 0" ?n "replicate 512 0"] m lo n512 by (auto simp: count_sum_def)
  obtain ts' where 2: "ct_spread norm [0..<length counts] ?n (below (?n - length (lows 0 counts))) (fse_step ?n) (?n - 1) 0 ts = Inr (0, ts')"
    "length ts' = 512" "fse_syms log counts (take ?n ts')"
    using ct_layout [OF tl lg _ nm' 1(3,5)] m by auto
  have sy: "take ?n ts' = syms" using fse_syms_unique [OF _ 2(3) syms] lg by simp
  have lsy: "length syms = ?n" using syms by (simp add: fse_syms_def Let_def)
  define cumul1 where "cumul1 = cumul[Suc max_sym := (?n + 1) mod 65536]"
  have cs: "cumul1 ! s = count_sum counts s" if "s < length counts" for s
    using 1(2,4) that m by (auto simp: cumul1_def count_sum_def)
  have sl: "slot_of ((!) cumul1) syms i = slot_of (count_sum counts) syms i" if "i < length syms" for i
    using cs slot_of_bounds(1) [OF cnt that] by (simp add: slot_of_def)
  have b: "slot_of (count_sum counts) syms i < ?n" if "i < length syms" for i
    using slot_of_bounds [OF cnt that] count_sum_le [OF tl, of "Suc (syms ! i)"] by simp
  have "s < length cumul1" if s: "s \<in> set syms" for s
  proof -
    obtain i where "i < length syms" "s = syms ! i" using s by (auto simp: in_set_conv_nth)
    then have "s < length counts" using slot_of_bounds(1) [OF cnt, of i] by simp
    then show ?thesis using m 1(2) by (simp add: cumul1_def)
  qed
  then have "\<forall>s \<in> set syms. s < length cumul1" by blast
  moreover have "\<forall>i < length syms. slot_of ((!) cumul1) syms i < length (ct_state_table ct)"
    using b sl wf n512 by (fastforce simp: ctable_wf_def)
  moreover have "inj_on (slot_of ((!) cumul1) syms) {..<length syms}"
    using slot_of_inj [OF cnt] inj_on_cong [of "{..<length syms}" "slot_of ((!) cumul1) syms" "slot_of (count_sum counts) syms"] sl by auto
  ultimately obtain st where 3: "ct_states syms 0 ?n cumul1 (ct_state_table ct) = Inr st" "length st = 512"
    "\<forall>i < length syms. st ! slot_of ((!) cumul1) syms i = ?n + i"
    using ct_states_ok [of syms cumul1 "ct_state_table ct" ?n 0] wf n512 lsy by (auto simp: ctable_wf_def)
  obtain tts where 4: "ct_transforms counts log [0..<53] (count_sum counts 0) = Inr tts" "length tts = 53"
    "\<forall>x. x < 53 \<and> x < length counts \<and> counts ! x \<noteq> 0 \<longrightarrow>
        delta_find_state (tts ! x) = int (count_sum counts x) - int (cell_count (counts ! x))
        \<and> tt_step log (cell_count (counts ! x)) (tts ! x)"
    using ct_transforms_ok [OF tl _ lg(2), of 0 53] lg by auto
  let ?ct = "\<lparr>ct_log = log, ct_state_table = st, ct_symbol_tt = tts, ct_max_symbol = max_sym\<rparr>"
  have up: "[0..<max_sym + 1] = [0..<length counts]" and bn: "?n - 1 = below ?n" using m n512 below_pos [of ?n] by simp_all
  have c0: "count_sum counts 0 = 0" by (simp add: count_sum_def)
  have e: "(log \<le> FSE_CTABLE_MAX_LOG \<and> max_sym \<le> MAX_SEQ) = True" "(2::nat) ^ FSE_CTABLE_MAX_LOG = 512" "MAX_SEQ + 2 = 54"
    using lg m by (simp_all add: FSE_CTABLE_MAX_LOG_def MAX_SEQ_def MAX_ML_def)
  have e2: "put_at cumul (max_sym + 1) ((?n + 1) mod 65536) = Inr cumul1" "slice ts' 0 ?n = Inr syms"
    "slice norm 0 (max_sym + 1) = Inr counts" "length (ct_symbol_tt ct) = 53"
    using 1(2) 2(2) m sy n512 ln nm wf by (simp_all add: cumul1_def ctable_wf_def)
  have "ct_build ct norm max_sym log = Inr ?ct"
    unfolding ct_build_def up Let_def e 1(1) [folded bn] 2(1) e2 3(1) 4(1) [unfolded c0] res_bind_simps prod.case by simp
  moreover have "ct_states_of log counts syms ?ct"
    using 3 4 sl lsy m by (simp add: ct_states_of_def)
  ultimately show ?thesis by auto
qed

section \<open>The encoder's table inverts the decoder's\<close>

text \<open>The cell is one of the code \<open>s\<close>.\<close>

definition codes_as :: "nat list \<Rightarrow> nat list \<Rightarrow> nat \<Rightarrow> fse_entry \<Rightarrow> bool" where
  "codes_as base bits s cell \<longleftrightarrow> base_value cell = base ! s \<and> extra_bits cell = bits ! s"

text \<open>The encoder's state that stands for the decoder's cell \<open>x\<close>: the table size is added, except in the one-symbol table.\<close>

definition cst_at :: "fse_ctable \<Rightarrow> nat \<Rightarrow> fse_cstate" where
  "cst_at ct x = \<lparr>cst_value = (if ct_log ct = 0 then 0 else 2 ^ ct_log ct) + x, cst_table = ct\<rparr>"

text \<open>An encoder's table and a decoder's cells that belong together, for the codes in \<open>S\<close>.  The first state of a code is a cell of that code.  Encoding the code \<open>s\<close> in state
  \<open>x\<close> moves to a cell \<open>i\<close> of \<open>s\<close> and writes the low bits of \<open>x\<close>, as many as that cell reads, which lead the decoder
  from \<open>i\<close> back to \<open>x\<close>.\<close>

definition enc_pair :: "nat list \<Rightarrow> nat list \<Rightarrow> nat set \<Rightarrow> fse_ctable \<Rightarrow> fse_entry list \<Rightarrow> bool" where
  "enc_pair base bits S ct dt \<longleftrightarrow>
     length dt = 2 ^ ct_log ct \<and> ct_log ct \<le> 9 \<and>
     (\<forall>s \<in> S.
        (\<exists>i < length dt. cst_new ct s = Inr (cst_at ct i) \<and> codes_as base bits s (dt ! i)) \<and>
        (\<forall>x < length dt. \<exists>i < length dt.
           (\<forall>bw. bit_pos bw + num_bits (dt ! i) < 64 \<longrightarrow>
              cst_encode (cst_at ct x) bw s
                = Inr (cst_at ct i, add_bits bw (word_of_nat (cst_value (cst_at ct x))) (num_bits (dt ! i)))) \<and>
           codes_as base bits s (dt ! i) \<and> num_bits (dt ! i) \<le> ct_log ct \<and>
           next_state (dt ! i) + cst_value (cst_at ct x) mod 2 ^ num_bits (dt ! i) = x))"

text \<open>The state of the \<open>r\<close>-th cell of a symbol.\<close>

lemma ct_next_state_ok:
  assumes ct: "ct_states_of log counts syms ct" and tl: "fse_tiles log counts" and log: "log \<le> 9" and len: "length syms = 2 ^ log"
    and cnt: "\<forall>s. count_list syms s = (if s < length counts then cell_count (counts ! s) else 0)"
    and s: "s < length counts" "counts ! s \<noteq> 0" and k: "cell_count (counts ! s) \<le> k" "k < 2 * cell_count (counts ! s)"
  shows "\<exists>i < 2 ^ log. ct_next_state ct k (delta_find_state (ct_symbol_tt ct ! s)) = Inr (2 ^ log + i)
    \<and> syms ! i = s \<and> cell_count (counts ! s) + count_list (take i syms) s = k"
proof -
  let ?c = "cell_count (counts ! s)"
  have p: "(2::nat) ^ log \<le> 2 ^ 9" using log by (intro power_increasing) auto
  have "k - ?c < count_list syms s" using cnt s k by simp
  from nth_occurrence [OF this] len obtain i where i: "i < 2 ^ log" "syms ! i = s" "count_list (take i syms) s = k - ?c" by auto
  have sl: "slot_of (count_sum counts) syms i = count_sum counts s + (k - ?c)" using i by (simp add: slot_of_def)
  have lt: "count_sum counts s + (k - ?c) < 2 ^ log"
    using slot_of_bounds(3) [OF cnt, of i] count_sum_le [OF tl, of "Suc s"] i len sl by simp
  have "int k + delta_find_state (ct_symbol_tt ct ! s) = int (count_sum counts s + (k - ?c))"
    using ct s k by (simp add: ct_states_of_def)
  then have "nat ((int k + delta_find_state (ct_symbol_tt ct ! s)) mod 2 ^ 32) = count_sum counts s + (k - ?c)"
    using lt p by (simp add: zmod_int)
  then have "ct_next_state ct k (delta_find_state (ct_symbol_tt ct ! s)) = Inr (ct_state_table ct ! (count_sum counts s + (k - ?c)))"
    using lt p ct by (simp add: ct_next_state_def ct_states_of_def)
  also have "ct_state_table ct ! (count_sum counts s + (k - ?c)) = 2 ^ log + i"
    using ct i(1) sl unfolding ct_states_of_def by metis
  finally show ?thesis using i k by auto
qed

lemma enc_pair_built:
  assumes ct: "ct_states_of log counts syms ct" and tl: "fse_tiles log counts" and log: "log \<le> 9" "0 < log" and m: "length counts \<le> 53"
    and f: "fse_cells (Some (base, bits)) log counts dt syms"
  shows "enc_pair base bits {s. s < length counts \<and> counts ! s \<noteq> 0} ct dt"
proof -
  have cnt: "\<forall>s. count_list syms s = (if s < length counts then cell_count (counts ! s) else 0)"
    and len: "length syms = 2 ^ log" "length dt = 2 ^ log" using f by (auto simp: fse_cells_def)
  have lg: "ct_log ct = log" "length (ct_symbol_tt ct) = 53" using ct by (auto simp: ct_states_of_def)
  have 1: "\<exists>i < 2 ^ log. cst_new ct s = Inr \<lparr>cst_value = 2 ^ log + i, cst_table = ct\<rparr> \<and> codes_as base bits s (dt ! i)"
    if s: "s < length counts" "counts ! s \<noteq> 0" for s
  proof -
    let ?c = "cell_count (counts ! s)"
    have tt: "tt_step log ?c (ct_symbol_tt ct ! s)" using ct s by (simp add: ct_states_of_def)
    have c0: "0 < ?c" using s by (simp add: cell_count_def)
    from ct_next_state_ok [OF ct tl log(1) len(1) cnt s, of ?c] c0 obtain i where
      i: "i < 2 ^ log" "ct_next_state ct ?c (delta_find_state (ct_symbol_tt ct ! s)) = Inr (2 ^ log + i)" "syms ! i = s" by auto
    have "ct_init_state ct s = Inr (2 ^ log + i)"
      using tt i(2) s m lg by (auto simp: ct_init_state_def tt_step_def Let_def)
    then show ?thesis using i f by (auto simp: cst_new_def fse_cells_def cell_is_def codes_as_def)
  qed
  have 2: "\<exists>i < 2 ^ log. (\<forall>bw. bit_pos bw + num_bits (dt ! i) < 64 \<longrightarrow>
              cst_encode \<lparr>cst_value = 2 ^ log + x, cst_table = ct\<rparr> bw s
                = Inr (\<lparr>cst_value = 2 ^ log + i, cst_table = ct\<rparr>, add_bits bw (word_of_nat (2 ^ log + x)) (num_bits (dt ! i)))) \<and>
           codes_as base bits s (dt ! i) \<and> num_bits (dt ! i) \<le> log \<and>
           next_state (dt ! i) + (2 ^ log + x) mod 2 ^ num_bits (dt ! i) = x"
    if s: "s < length counts" "counts ! s \<noteq> 0" and x: "x < 2 ^ log" for s x
  proof -
    let ?c = "cell_count (counts ! s)" and ?X = "2 ^ log + x"
    have tt: "tt_step log ?c (ct_symbol_tt ct ! s)" using ct s by (simp add: ct_states_of_def)
    define nb where "nb = (?X + delta_nb_bits (ct_symbol_tt ct ! s)) mod 2 ^ 32 div 2 ^ 16"
    define k where "k = ?X div 2 ^ nb"
    have k: "?c \<le> k" "k < 2 * ?c" "nb = cell_bits log k"
      using tt x unfolding tt_step_def Let_def nb_def [symmetric] k_def by (auto simp: nb_def)
    from ct_next_state_ok [OF ct tl log(1) len(1) cnt s k(1,2)] obtain i where
      i: "i < 2 ^ log" "ct_next_state ct k (delta_find_state (ct_symbol_tt ct ! s)) = Inr (2 ^ log + i)" "syms ! i = s"
        "?c + count_list (take i syms) s = k" by auto
    have cell: "cell_is (Some (base, bits)) log s k (dt ! i)" using f i unfolding fse_cells_def by metis
    then have nbi: "num_bits (dt ! i) = nb" and nx: "next_state (dt ! i) = k * 2 ^ nb - 2 ^ log"
      using k(3) by (simp_all add: cell_is_def cell_next_def)
    have nbl: "nb \<le> log" using k(3) by (simp add: cell_bits_def)
    have "k * 2 ^ nb + ?X mod 2 ^ nb = ?X" unfolding k_def by (rule div_mult_mod_eq)
    moreover have "2 ^ log \<le> k * 2 ^ nb"
      using cell_bits_bounds(2) [of k log] k tiles_bounds(2) [OF tl log(1) s(1)] s by (auto simp: cell_count_def)
    ultimately have b: "next_state (dt ! i) + ?X mod 2 ^ num_bits (dt ! i) = x" by (simp add: nbi nx)
    have "cst_encode \<lparr>cst_value = ?X, cst_table = ct\<rparr> bw s
                = Inr (\<lparr>cst_value = 2 ^ log + i, cst_table = ct\<rparr>, add_bits bw (word_of_nat ?X) (num_bits (dt ! i)))"
      if "bit_pos bw + num_bits (dt ! i) < 64" for bw
    proof -
      have "add_bits_checked bw ?X nb = Inr (add_bits bw (word_of_nat ?X) nb)"
        using that nbl log nbi by (simp add: add_bits_checked_def)
      moreover have "index (ct_symbol_tt ct) s = Inr (ct_symbol_tt ct ! s)" using s m lg by simp
      moreover have "(?X + delta_nb_bits (ct_symbol_tt ct ! s)) mod 4294967296 div 65536 = nb" by (simp add: nb_def)
      ultimately show ?thesis using i(2) nbi
        by (simp add: cst_encode_def Let_def del: of_nat_add flip: k_def)
    qed
    then show ?thesis using i(1) b cell nbl nbi by (auto simp: codes_as_def cell_is_def)
  qed
  show ?thesis using 1 2 len lg log unfolding enc_pair_def cst_at_def by (simp del: of_nat_add)
qed

text \<open>A one-symbol table against the decoder's one-cell table, for any code.\<close>

lemma enc_pair_rle:
  assumes wf: "ctable_wf ct" and ct: "ct_build_rle ct symbol = Inr ct'" and c: "\<forall>s \<in> S. s \<le> MAX_SEQ \<and> base ! s = base_value cell \<and> bits ! s = extra_bits cell"
    and cell: "next_state cell = 0" "num_bits cell = 0"
  shows "enc_pair base bits S ct' [cell]"
proof -
  have e: "ct_log ct' = 0" "ct_state_table ct' ! 0 = 0" "length (ct_state_table ct') = 512"
    "s \<le> MAX_SEQ \<Longrightarrow> index (ct_symbol_tt ct') s = Inr symbol_tt_default" for s
    using wf ct by (auto simp: ct_build_rle_def ctable_wf_def MAX_SEQ_def MAX_ML_def)
  then show ?thesis using c cell
    by (auto simp: enc_pair_def cst_at_def cst_new_def ct_init_state_def ct_next_state_def cst_encode_def add_bits_checked_def
        symbol_tt_default_def codes_as_def)
qed

lemma ct_build_inverts:
  assumes tl: "fse_tiles log counts" and lg: "5 \<le> log" "log \<le> 9" and m: "length counts = Suc max_sym" "max_sym \<le> 52"
    and nm: "take (Suc max_sym) norm = counts" and wf: "ctable_wf ct" and cc: "codes_cover (Some (base, bits)) (Suc max_sym)"
    and t: "accuracy_log t = log" "symbol_probabilities t = counts"
  shows "\<exists>ct' t'. ct_build ct norm max_sym log = Inr ct' \<and> build_decoding_table (Some (base, bits)) t = Inr t'
    \<and> tsize t' = 2 ^ log \<and> accuracy_log t' = log \<and> ctable_wf ct' \<and> ct_log ct' = log
    \<and> enc_pair base bits {s. s < length counts \<and> counts ! s \<noteq> 0} ct' (take (tsize t') (cells t'))"
proof -
  from build_decoding_table_syms [OF tl lg _ _ t, of "Some (base, bits)"] m cc obtain cs nxt sp syms where
    d: "build_decoding_table (Some (base, bits)) t = Inr (t\<lparr>cells := cs, symbol_next := nxt, spread := sp, tsize := 2 ^ log\<rparr>)"
    "fse_cells (Some (base, bits)) log counts (take (2 ^ log) cs) syms" "fse_syms log counts syms" by auto
  then have cnt: "\<forall>s. count_list syms s = (if s < length counts then cell_count (counts ! s) else 0)" by (simp add: fse_cells_def)
  from ct_build_ok [OF tl lg m nm d(3) cnt wf] obtain ct' where
    b: "ct_build ct norm max_sym log = Inr ct'" "ct_states_of log counts syms ct'" by auto
  from enc_pair_built [OF b(2) tl lg(2) _ _ d(2)] lg m b d t show ?thesis by (auto simp: ct_states_of_def ctable_wf_def)
qed

text \<open>C37: the encoder's table inverts the decoder's.  For a distribution that tiles a table of log 5 to 9, over at most
  53 symbols, \<open>FseCTable::build\<close> and the decoder's \<open>build_decoding_table\<close> both succeed, and their tables
  belong together: every symbol of nonzero count has a first state, from every state \<open>x\<close> it is encoded without
  fault into a cell that the decoder reads as that symbol, and the bits written (the low bits of the state, as many
  as that cell reads) lead the decoder from that cell back to \<open>x\<close>.\<close>

theorem ctable_inverts_decoder:
  assumes "fse_tiles log counts" and "5 \<le> log" and "log \<le> 9" and "length counts = Suc max_sym" and "max_sym \<le> 52"
    and "take (Suc max_sym) norm = counts" and "ctable_wf ct" and "codes_cover (Some (base, bits)) (Suc max_sym)"
    and "accuracy_log t = log" and "symbol_probabilities t = counts"
  shows "\<exists>ct' t'. ct_build ct norm max_sym log = Inr ct' \<and> build_decoding_table (Some (base, bits)) t = Inr t'
    \<and> enc_pair base bits {s. s < length counts \<and> counts ! s \<noteq> 0} ct' (take (tsize t') (cells t'))"
  using ct_build_inverts [OF assms] by blast

theorem ctable_inverts_decoder_witness:
  "\<exists>ct' t'. ct_build ctable_default LL_DEFAULT_NORM 35 6 = Inr ct'
    \<and> build_decoding_table (Some (LL_BASE, LL_BITS)) ((fse_new 35)\<lparr>symbol_probabilities := LL_DEFAULT_NORM, accuracy_log := 6\<rparr>) = Inr t'
    \<and> enc_pair LL_BASE LL_BITS {s. s < length LL_DEFAULT_NORM \<and> LL_DEFAULT_NORM ! s \<noteq> 0} ct' (take (tsize t') (cells t'))"
proof -
  have "fse_tiles 6 LL_DEFAULT_NORM" "length LL_DEFAULT_NORM = Suc 35" "codes_cover (Some (LL_BASE, LL_BITS)) (Suc 35)"
    by (simp_all add: fse_tiles_def LL_DEFAULT_NORM_def cell_count_def codes_cover_def LL_BASE_def LL_BITS_def)
  then show ?thesis
    using ctable_inverts_decoder [of 6 LL_DEFAULT_NORM 35 LL_DEFAULT_NORM ctable_default LL_BASE LL_BITS
        "(fse_new 35)\<lparr>symbol_probabilities := LL_DEFAULT_NORM, accuracy_log := 6\<rparr>"] ctable_default_wf by simp
qed

end
