(* ===== verification/Sequence_Encode.thy ===== *)
theory Sequence_Encode
  imports Fse_Encode Sequence_Decode
begin

text \<open>
  The sequences bit stream of \<open>src/src/fse.rs\<close>: \<open>seq_to_codes\<close> and \<open>encode_sequences\<close>, which runs three
  \<open>FseCState\<close>s over the sequences from the last to the first.  The theorem is the round trip with the decoder:
  the stream \<open>encode_sequences\<close> appends is well formed, and decoding it with the matching tables (\<open>spec_block\<close>,
  which the decoder implements) executes exactly the encoder's sequences and uses every bit.
\<close>

section \<open>Sequences and their codes\<close>

definition LL_FSE_LOG :: nat where "LL_FSE_LOG = 9"
definition OFF_FSE_LOG :: nat where "OFF_FSE_LOG = 8"
definition ML_FSE_LOG :: nat where "ML_FSE_LOG = 9"

record seq =
  lit_len :: nat
  off_base :: nat
  ml_base :: nat

definition pad_bits :: "nat list \<Rightarrow> nat list" where
  "pad_bits bits = map (\<lambda>i. if i < length bits then bits ! i else 0) [0..<256]"

definition LL_BITS_BY_CODE :: "nat list" where "LL_BITS_BY_CODE = pad_bits LL_BITS"
definition ML_BITS_BY_CODE :: "nat list" where "ML_BITS_BY_CODE = pad_bits ML_BITS"

text \<open>The three code slices share one buffer; the slicing panics when it is too short.\<close>

definition seq_to_codes :: "seq list \<Rightarrow> nat list \<Rightarrow> (nat list \<times> nat list \<times> nat list) res" where
  "seq_to_codes sequences codes =
     (if length codes < 3 * length sequences then Inl Panic
      else Inr (map (\<lambda>q. ll_code (lit_len q)) sequences, map (\<lambda>q. off_code (off_base q)) sequences,
                map (\<lambda>q. ml_code (ml_base q)) sequences))"

section \<open>The bit stream\<close>

record seq_cstates =
  state_ll :: fse_cstate
  state_of :: fse_cstate
  state_ml :: fse_cstate

text \<open>The last sequence: its codes seed the states, its values are written whole.\<close>

definition encode_first :: "fse_ctable \<Rightarrow> fse_ctable \<Rightarrow> fse_ctable \<Rightarrow> nat \<Rightarrow> nat \<Rightarrow> nat \<Rightarrow> seq \<Rightarrow> bit_cstream
    \<Rightarrow> (seq_cstates \<times> bit_cstream) res" where
  "encode_first ll_table of_table ml_table ll of' ml q bw =
     res_bind (cst_new ml_table ml) (\<lambda>state_ml.
     res_bind (cst_new of_table of') (\<lambda>state_of.
     res_bind (cst_new ll_table ll) (\<lambda>state_ll.
     res_bind (index LL_BITS_BY_CODE ll) (\<lambda>ll_bits.
     res_bind (add_bits_checked bw (lit_len q) ll_bits) (\<lambda>bw.
     res_bind (index ML_BITS_BY_CODE ml) (\<lambda>ml_bits.
     res_bind (add_bits_checked bw (ml_base q) ml_bits) (\<lambda>bw.
     res_bind (add_bits_checked bw (off_base q) of') (\<lambda>bw.
     Inr (\<lparr>state_ll = state_ll, state_of = state_of, state_ml = state_ml\<rparr>, flush_bits bw)))))))))"

text \<open>One turn of the loop.\<close>

definition encode_sequence :: "seq_cstates \<Rightarrow> nat \<Rightarrow> nat \<Rightarrow> nat \<Rightarrow> seq \<Rightarrow> bit_cstream \<Rightarrow> (seq_cstates \<times> bit_cstream) res" where
  "encode_sequence st ll of_bits ml q bw =
     res_bind (index LL_BITS_BY_CODE ll) (\<lambda>ll_bits.
     res_bind (index ML_BITS_BY_CODE ml) (\<lambda>ml_bits.
     res_bind (cst_encode (state_of st) bw of_bits) (\<lambda>(s_of, bw).
     res_bind (cst_encode (state_ml st) bw ml) (\<lambda>(s_ml, bw).
     res_bind (cst_encode (state_ll st) bw ll) (\<lambda>(s_ll, bw).
     let bw = (if 64 - 7 - (LL_FSE_LOG + ML_FSE_LOG + OFF_FSE_LOG) \<le> of_bits + ml_bits + ll_bits then flush_bits bw else bw) in
     res_bind (add_bits_checked bw (lit_len q) ll_bits) (\<lambda>bw.
     res_bind (add_bits_checked bw (ml_base q) ml_bits) (\<lambda>bw.
     let bw = (if 56 < of_bits + ml_bits + ll_bits then flush_bits bw else bw) in
     res_bind (add_bits_checked bw (off_base q) of_bits) (\<lambda>bw.
     Inr (\<lparr>state_ll = s_ll, state_of = s_of, state_ml = s_ml\<rparr>, flush_bits bw)))))))))"

text \<open>The loop over the sequences below \<open>n\<close>, from the last to the first.\<close>

fun encode_loop :: "nat \<Rightarrow> nat list \<Rightarrow> nat list \<Rightarrow> nat list \<Rightarrow> seq list \<Rightarrow> seq_cstates \<Rightarrow> bit_cstream
    \<Rightarrow> (seq_cstates \<times> bit_cstream) res" where
  "encode_loop 0 lls ofs mls sequences st bw = Inr (st, bw)"
| "encode_loop (Suc n) lls ofs mls sequences st bw =
     res_bind (index lls n) (\<lambda>ll. res_bind (index ofs n) (\<lambda>of'. res_bind (index mls n) (\<lambda>ml. res_bind (index sequences n) (\<lambda>q.
     res_bind (encode_sequence st ll of' ml q bw) (\<lambda>(st, bw).
     encode_loop n lls ofs mls sequences st bw)))))"

text \<open>The states are flushed, and the stream is closed.\<close>

definition encode_finish :: "seq_cstates \<Rightarrow> bit_cstream \<Rightarrow> (nat \<times> u8 list) res" where
  "encode_finish st bw =
     res_bind (cst_flush (state_ml st) bw) (\<lambda>bw.
     res_bind (cst_flush (state_of st) bw) (\<lambda>bw.
     res_bind (cst_flush (state_ll st) bw) (\<lambda>bw.
     res_bind (cs_close_checked bw) (\<lambda>(sz, region).
     if sz = 0 then Inl Panic else Inr (sz, region)))))"

text \<open>\<open>out\<close> grows by the region and is cut to the size of the stream.\<close>

definition encode_sequences_body :: "u8 list \<Rightarrow> fse_ctable \<Rightarrow> fse_ctable \<Rightarrow> fse_ctable \<Rightarrow> nat list \<Rightarrow> nat list \<Rightarrow> nat list
    \<Rightarrow> seq list \<Rightarrow> nat \<Rightarrow> (u8 list \<times> nat) res" where
  "encode_sequences_body out ll_table of_table ml_table ll_codes of_codes ml_codes sequences extra =
     (let nb_seq = length sequences in
      if nb_seq = 0 then Inl Panic
      else if \<not> (length ll_codes = nb_seq \<and> length of_codes = nb_seq \<and> length ml_codes = nb_seq) then Inl Panic
      else
      let max_bits = extra + nb_seq * (LL_FSE_LOG + OFF_FSE_LOG + ML_FSE_LOG) + 1; lst = nb_seq - 1 in
      res_bind (cs_new (replicate (capacity_for max_bits) 0)) (\<lambda>bw.
      res_bind (encode_first ll_table of_table ml_table (ll_codes ! lst) (of_codes ! lst) (ml_codes ! lst) (sequences ! lst) bw) (\<lambda>(st, bw).
      res_bind (encode_loop lst (take lst ll_codes) (take lst of_codes) (take lst ml_codes) (take lst sequences) st bw) (\<lambda>(st, bw).
      res_bind (encode_finish st bw) (\<lambda>(sz, region).
      Inr (out @ take sz region, sz))))))"

definition encode_sequences_bmi2 :: "u8 list \<Rightarrow> fse_ctable \<Rightarrow> fse_ctable \<Rightarrow> fse_ctable \<Rightarrow> nat list \<Rightarrow> nat list \<Rightarrow> nat list
    \<Rightarrow> seq list \<Rightarrow> nat \<Rightarrow> (u8 list \<times> nat) res" where
  "encode_sequences_bmi2 = encode_sequences_body"

definition encode_sequences :: "bool \<Rightarrow> u8 list \<Rightarrow> fse_ctable \<Rightarrow> fse_ctable \<Rightarrow> fse_ctable \<Rightarrow> nat list \<Rightarrow> nat list \<Rightarrow> nat list
    \<Rightarrow> seq list \<Rightarrow> nat \<Rightarrow> (u8 list \<times> nat) res" where
  "encode_sequences bmi2 out ll_table of_table ml_table ll_codes of_codes ml_codes sequences extra =
     (if bmi2 then encode_sequences_bmi2 out ll_table of_table ml_table ll_codes of_codes ml_codes sequences extra
      else encode_sequences_body out ll_table of_table ml_table ll_codes of_codes ml_codes sequences extra)"

section \<open>Sequences of writes\<close>

text \<open>The writer's assertions over a list of writes, and the number of pending bits after them.\<close>

fun cs_pos :: "nat \<Rightarrow> cs_op list \<Rightarrow> nat" where
  "cs_pos p [] = p"
| "cs_pos p (AddBits val n # ops) = cs_pos (p + n) ops"
| "cs_pos p (FlushBits # ops) = cs_pos (p mod 8) ops"

fun cs_ok :: "nat \<Rightarrow> cs_op list \<Rightarrow> bool" where
  "cs_ok p [] = True"
| "cs_ok p (AddBits val n # ops) = (n < 32 \<and> p + n < 64 \<and> cs_ok (p + n) ops)"
| "cs_ok p (FlushBits # ops) = cs_ok (p mod 8) ops"

lemma cs_pos_append: "cs_pos p (xs @ ys) = cs_pos (cs_pos p xs) ys"
  by (induction p xs rule: cs_pos.induct) auto

lemma cs_ok_append: "cs_ok p (xs @ ys) \<longleftrightarrow> cs_ok p xs \<and> cs_ok (cs_pos p xs) ys"
  by (induction p xs rule: cs_pos.induct) auto

lemma cs_valid_ok: "cs_valid p ops \<longleftrightarrow> cs_ok p ops \<and> cs_pos p ops + 1 < 64"
  by (induction p ops rule: cs_pos.induct) auto

lemma bit_pos_add [simp]: "bit_pos (add_bits bw val n) = bit_pos bw + n"
  by (simp add: add_bits_def)

lemma bit_pos_flush [simp]: "bit_pos (flush_bits bw) = bit_pos bw mod 8"
  by (simp add: flush_bits_def Let_def)

lemma bit_pos_run: "bit_pos (foldl cs_apply bw ops) = cs_pos (bit_pos bw) ops"
  by (induction ops arbitrary: bw) (simp, case_tac a, auto)

lemma add_checked [simp]: "n < 32 \<Longrightarrow> bit_pos bw + n < 64 \<Longrightarrow> add_bits_checked bw val n = Inr (add_bits bw (word_of_nat val) n)"
  by (simp add: add_bits_checked_def)

text \<open>The fields of what was pushed, read from the top, and the bits below.\<close>

lemma num_fields_append: "num_fields N p (xs @ ys) = num_fields N p xs @ num_fields N (p - sum_list xs) ys"
  by (induction xs arbitrary: p) auto

lemma pushes_fields:
  "foldl push_bits (W, T) ops = (W', T') \<Longrightarrow> W < 2 ^ T \<Longrightarrow>
   T' = T + sum_list (op_widths ops) \<and> (\<exists>H'. W' + 2 ^ T' * H = W + 2 ^ T * H')
   \<and> num_fields (W' + 2 ^ T' * H) T' (rev (op_widths ops)) = rev (op_values ops)"
proof (induction ops arbitrary: W T)
  case Nil
  then show ?case by auto
next
  case (Cons op ops)
  show ?case
  proof (cases op)
    case FlushBits
    then have "foldl push_bits (W, T) ops = (W', T')" using Cons.prems(1) by simp
    from Cons.IH [OF this Cons.prems(2)] FlushBits show ?thesis by auto
  next
    case (AddBits val n)
    let ?x = "take_bit n (unat val)"
    have b: "W + 2 ^ T * ?x < 2 ^ (T + n)" using Cons.prems(2) by (intro append_bound) simp
    from Cons.IH [of "W + 2 ^ T * ?x" "T + n"] Cons.prems(1) AddBits b obtain H' where
      i: "T' = T + n + sum_list (op_widths ops)" "W' + 2 ^ T' * H = W + 2 ^ T * ?x + 2 ^ (T + n) * H'"
      "num_fields (W' + 2 ^ T' * H) T' (rev (op_widths ops)) = rev (op_values ops)" by auto
    have e: "W' + 2 ^ T' * H = W + 2 ^ T * (?x + 2 ^ n * H')" unfolding i(2) by (simp add: power_add algebra_simps)
    have "take_bit n (drop_bit T (W' + 2 ^ T' * H)) = ?x"
      unfolding e using Cons.prems(2) by (simp add: drop_bit_eq_div take_bit_eq_mod)
    moreover have "T' - sum_list (op_widths ops) - n = T" using i(1) by simp
    ultimately show ?thesis using AddBits i(1,3) e
      by (auto simp: num_fields_append sum_list_rev simp del: num_fields.simps(2)) (simp)
  qed
qed

section \<open>Values of codes\<close>

lemma code_multiples:
  "c < 36 \<Longrightarrow> LL_BASE ! c mod 2 ^ (LL_BITS ! c) = 0 \<and> LL_BITS ! c \<le> 16"
  "c < 53 \<Longrightarrow> (ML_BASE ! c - 3) mod 2 ^ (ML_BITS ! c) = 0 \<and> 3 \<le> ML_BASE ! c \<and> ML_BITS ! c \<le> 16"
  "c < 32 \<Longrightarrow> OF_BITS ! c = c"
proof -
  have "list_all (\<lambda>c. LL_BASE ! c mod 2 ^ (LL_BITS ! c) = 0 \<and> LL_BITS ! c \<le> 16) [0..<36]"
    by (simp add: LL_BASE_def LL_BITS_def upt_conv_Cons)
  then show "c < 36 \<Longrightarrow> LL_BASE ! c mod 2 ^ (LL_BITS ! c) = 0 \<and> LL_BITS ! c \<le> 16" by (simp add: list_all_iff)
  have "list_all (\<lambda>c. (ML_BASE ! c - 3) mod 2 ^ (ML_BITS ! c) = 0 \<and> 3 \<le> ML_BASE ! c \<and> ML_BITS ! c \<le> 16) [0..<53]"
    by (simp add: ML_BASE_def ML_BITS_def upt_conv_Cons)
  then show "c < 53 \<Longrightarrow> (ML_BASE ! c - 3) mod 2 ^ (ML_BITS ! c) = 0 \<and> 3 \<le> ML_BASE ! c \<and> ML_BITS ! c \<le> 16" by (simp add: list_all_iff)
  show "c < 32 \<Longrightarrow> OF_BITS ! c = c" using kind_cells(2) by simp
qed

lemma base_plus_mod:
  fixes x B k :: nat
  assumes "B mod 2 ^ k = 0" and "B \<le> x" and "x < B + 2 ^ k"
  shows "B + x mod 2 ^ k = x"
proof -
  obtain q where q: "B = q * 2 ^ k" using assms(1) by (metis mod_0_imp_dvd dvd_def mult.commute)
  obtain d where d: "x = B + d" using assms(2) le_Suc_ex by blast
  have "d < 2 ^ k" using assms(3) d by simp
  then have "x mod 2 ^ k = d" unfolding d q by simp
  then show ?thesis using d by simp
qed

lemma ll_value:
  assumes "x < 2 ^ 17"
  shows "LL_BASE ! ll_code x + x mod 2 ^ (LL_BITS ! ll_code x) = x" "ll_code x < 36" "LL_BITS ! ll_code x \<le> 16"
  using ll_code_owns [OF assms] code_multiples(1) [of "ll_code x"] base_plus_mod [of "LL_BASE ! ll_code x" "LL_BITS ! ll_code x" x] by auto

lemma ml_value:
  assumes "x < 2 ^ 17"
  shows "ML_BASE ! ml_code x + x mod 2 ^ (ML_BITS ! ml_code x) = x + 3" "ml_code x < 53" "ML_BITS ! ml_code x \<le> 16"
proof -
  note o = ml_code_owns [OF assms]
  then show "ml_code x < 53" "ML_BITS ! ml_code x \<le> 16" using code_multiples(2) [of "ml_code x"] by auto
  have m: "(ML_BASE ! ml_code x - 3) mod 2 ^ (ML_BITS ! ml_code x) = 0" "3 \<le> ML_BASE ! ml_code x" using o code_multiples(2) [of "ml_code x"] by auto
  obtain B where "ML_BASE ! ml_code x = B + 3" using m(2) by (metis add.commute le_Suc_ex)
  with base_plus_mod [of B "ML_BITS ! ml_code x" x] o m(1) show "ML_BASE ! ml_code x + x mod 2 ^ (ML_BITS ! ml_code x) = x + 3" by auto
qed

lemma off_value:
  assumes "0 < x" "x < 2 ^ 32"
  shows "2 ^ off_code x + x mod 2 ^ off_code x = x" "off_code x < 32" "OF_BITS ! off_code x = off_code x"
  using highbit32_bounds [OF assms] base_plus_mod [of "2 ^ off_code x" "off_code x" x] code_multiples(3) [of "off_code x"] by (auto simp: off_code_def)

lemma bits_by_code:
  "c < 36 \<Longrightarrow> index LL_BITS_BY_CODE c = Inr (LL_BITS ! c)" "c < 53 \<Longrightarrow> index ML_BITS_BY_CODE c = Inr (ML_BITS ! c)"
  by (simp_all add: LL_BITS_BY_CODE_def ML_BITS_BY_CODE_def pad_bits_def LL_BITS_def ML_BITS_def)

section \<open>One sequence, encoded and decoded\<close>

text \<open>Tables that belong together, in the order LL, OF, ML, for the codes in three sets.\<close>

definition enc_tables :: "fse_ctable \<times> fse_ctable \<times> fse_ctable \<Rightarrow> fse_entry list \<times> fse_entry list \<times> fse_entry list
    \<Rightarrow> nat set \<times> nat set \<times> nat set \<Rightarrow> bool" where
  "enc_tables cts dts S \<longleftrightarrow>
     (let (ll_ct, of_ct, ml_ct) = cts; (ll_dt, of_dt, ml_dt) = dts; (ll_S, of_S, ml_S) = S in
      enc_pair LL_BASE LL_BITS ll_S ll_ct ll_dt \<and> enc_pair OF_BASE OF_BITS of_S of_ct of_dt \<and> ct_log of_ct \<le> 8 \<and>
      enc_pair ML_BASE ML_BITS ml_S ml_ct ml_dt)"

text \<open>A sequence the tables can code: its lengths are those of a block, its codes are in the sets.\<close>

definition seq_codable :: "nat set \<times> nat set \<times> nat set \<Rightarrow> seq \<Rightarrow> bool" where
  "seq_codable S q \<longleftrightarrow>
     (let (ll_S, of_S, ml_S) = S in
      lit_len q < 2 ^ 17 \<and> ml_base q < 2 ^ 17 \<and> 0 < off_base q \<and> off_base q < 2 ^ 32 \<and>
      ll_code (lit_len q) \<in> ll_S \<and> off_code (off_base q) \<in> of_S \<and> ml_code (ml_base q) \<in> ml_S)"

definition seq_bits :: "seq \<Rightarrow> nat" where
  "seq_bits q = LL_BITS ! ll_code (lit_len q) + ML_BITS ! ml_code (ml_base q) + off_code (off_base q)"

definition at_cells :: "fse_ctable \<times> fse_ctable \<times> fse_ctable \<Rightarrow> seq_state \<Rightarrow> seq_cstates" where
  "at_cells cts st =
     (let (ll_ct, of_ct, ml_ct) = cts in
      \<lparr>state_ll = cst_at ll_ct (ss_ll st), state_of = cst_at of_ct (ss_of st), state_ml = cst_at ml_ct (ss_ml st)\<rparr>)"

definition cells_in :: "fse_entry list \<times> fse_entry list \<times> fse_entry list \<Rightarrow> seq_state \<Rightarrow> bool" where
  "cells_in dts st \<longleftrightarrow>
     (let (ll_dt, of_dt, ml_dt) = dts in ss_ll st < length ll_dt \<and> ss_of st < length of_dt \<and> ss_ml st < length ml_dt)"

text \<open>The cells of \<open>st\<close> are cells of the codes of \<open>q\<close>.\<close>

definition cells_code :: "fse_entry list \<times> fse_entry list \<times> fse_entry list \<Rightarrow> seq_state \<Rightarrow> seq \<Rightarrow> bool" where
  "cells_code dts st q \<longleftrightarrow>
     (let (ll_dt, of_dt, ml_dt) = dts in
      codes_as LL_BASE LL_BITS (ll_code (lit_len q)) (ll_dt ! ss_ll st) \<and> codes_as OF_BASE OF_BITS (off_code (off_base q)) (of_dt ! ss_of st) \<and>
      codes_as ML_BASE ML_BITS (ml_code (ml_base q)) (ml_dt ! ss_ml st))"

text \<open>The writes of one sequence from pending bits below 8, with the flushes the source decides on.\<close>

definition seq_ops :: "fse_entry list \<times> fse_entry list \<times> fse_entry list \<Rightarrow> fse_ctable \<times> fse_ctable \<times> fse_ctable \<Rightarrow> seq_state \<Rightarrow> seq_state \<Rightarrow> seq \<Rightarrow> cs_op list" where
  "seq_ops dts cts st st' q =
     (let (ll_dt, of_dt, ml_dt) = dts; (ll_ct, of_ct, ml_ct) = cts; wide = seq_bits q in
      [AddBits (word_of_nat (cst_value (cst_at of_ct (ss_of st)))) (num_bits (of_dt ! ss_of st')),
       AddBits (word_of_nat (cst_value (cst_at ml_ct (ss_ml st)))) (num_bits (ml_dt ! ss_ml st')),
       AddBits (word_of_nat (cst_value (cst_at ll_ct (ss_ll st)))) (num_bits (ll_dt ! ss_ll st'))] @
      (if 31 \<le> wide then [FlushBits] else []) @
      [AddBits (word_of_nat (lit_len q)) (LL_BITS ! ll_code (lit_len q)), AddBits (word_of_nat (ml_base q)) (ML_BITS ! ml_code (ml_base q))] @
      (if 56 < wide then [FlushBits] else []) @
      [AddBits (word_of_nat (off_base q)) (off_code (off_base q)), FlushBits])"

text \<open>The next state of the decoder in the cells \<open>st'\<close>, after reading the low bits of the encoder's state.\<close>

definition back_to :: "fse_entry list \<times> fse_entry list \<times> fse_entry list \<Rightarrow> fse_ctable \<times> fse_ctable \<times> fse_ctable \<Rightarrow> seq_state \<Rightarrow> seq_state \<Rightarrow> bool" where
  "back_to dts cts st st' \<longleftrightarrow>
     (let (ll_dt, of_dt, ml_dt) = dts; (ll_ct, of_ct, ml_ct) = cts in
      num_bits (ll_dt ! ss_ll st') \<le> 9 \<and> num_bits (of_dt ! ss_of st') \<le> 8 \<and> num_bits (ml_dt ! ss_ml st') \<le> 9 \<and>
      next_state (ll_dt ! ss_ll st') + cst_value (cst_at ll_ct (ss_ll st)) mod 2 ^ num_bits (ll_dt ! ss_ll st') = ss_ll st \<and>
      next_state (of_dt ! ss_of st') + cst_value (cst_at of_ct (ss_of st)) mod 2 ^ num_bits (of_dt ! ss_of st') = ss_of st \<and>
      next_state (ml_dt ! ss_ml st') + cst_value (cst_at ml_ct (ss_ml st)) mod 2 ^ num_bits (ml_dt ! ss_ml st') = ss_ml st)"

lemma enc_pair_step:
  assumes "enc_pair base bits S ct dt" and "s \<in> S" and "x < length dt"
  shows "\<exists>i < length dt. (\<forall>bw. bit_pos bw + num_bits (dt ! i) < 64 \<longrightarrow>
      cst_encode (cst_at ct x) bw s = Inr (cst_at ct i, add_bits bw (word_of_nat (cst_value (cst_at ct x))) (num_bits (dt ! i)))) \<and>
    codes_as base bits s (dt ! i) \<and> num_bits (dt ! i) \<le> ct_log ct \<and>
    next_state (dt ! i) + cst_value (cst_at ct x) mod 2 ^ num_bits (dt ! i) = x"
  using assms unfolding enc_pair_def by blast

lemma fse_logs [simp]: "LL_FSE_LOG = 9" "OFF_FSE_LOG = 8" "ML_FSE_LOG = 9"
  by (simp_all add: LL_FSE_LOG_def OFF_FSE_LOG_def ML_FSE_LOG_def)

lemma seq_codes_small:
  assumes "seq_codable S q"
  shows "ll_code (lit_len q) < 36" "ml_code (ml_base q) < 53" "off_code (off_base q) < 32"
    "LL_BITS ! ll_code (lit_len q) \<le> 16" "ML_BITS ! ml_code (ml_base q) \<le> 16"
  using assms ll_value [of "lit_len q"] ml_value [of "ml_base q"] off_value [of "off_base q"] by (auto simp: seq_codable_def Let_def)

lemma encode_sequence_ok:
  assumes t: "enc_tables cts dts S" and q: "seq_codable S q" and st: "cells_in dts st" and bw: "bit_pos bw < 8"
  shows "\<exists>st'. encode_sequence (at_cells cts st) (ll_code (lit_len q)) (off_code (off_base q)) (ml_code (ml_base q)) q bw
      = Inr (at_cells cts st', foldl cs_apply bw (seq_ops dts cts st st' q))
    \<and> cs_ok (bit_pos bw) (seq_ops dts cts st st' q) \<and> cs_pos (bit_pos bw) (seq_ops dts cts st st' q) < 8
    \<and> cells_in dts st' \<and> cells_code dts st' q \<and> back_to dts cts st st'"
proof -
  obtain ll_ct of_ct ml_ct ll_dt of_dt ml_dt ll_S of_S ml_S where
    e: "cts = (ll_ct, of_ct, ml_ct)" "dts = (ll_dt, of_dt, ml_dt)" "S = (ll_S, of_S, ml_S)" by (metis prod_cases3)
  have p: "enc_pair LL_BASE LL_BITS ll_S ll_ct ll_dt" "enc_pair OF_BASE OF_BITS of_S of_ct of_dt" "ct_log of_ct \<le> 8"
    "enc_pair ML_BASE ML_BITS ml_S ml_ct ml_dt" and lg: "ct_log ll_ct \<le> 9" "ct_log ml_ct \<le> 9"
    using t by (auto simp: enc_tables_def e enc_pair_def)
  let ?l = "ll_code (lit_len q)" and ?f = "off_code (off_base q)" and ?m = "ml_code (ml_base q)"
  have c: "?l \<in> ll_S" "?f \<in> of_S" "?m \<in> ml_S" using q by (auto simp: seq_codable_def e)
  have x: "ss_ll st < length ll_dt" "ss_of st < length of_dt" "ss_ml st < length ml_dt" using st by (auto simp: cells_in_def e)
  note sm = seq_codes_small [OF q]
  obtain i where i: "i < length ll_dt" "\<And>bw. bit_pos bw + num_bits (ll_dt ! i) < 64 \<Longrightarrow>
      cst_encode (cst_at ll_ct (ss_ll st)) bw ?l = Inr (cst_at ll_ct i, add_bits bw (word_of_nat (cst_value (cst_at ll_ct (ss_ll st)))) (num_bits (ll_dt ! i)))"
    "codes_as LL_BASE LL_BITS ?l (ll_dt ! i)" "num_bits (ll_dt ! i) \<le> ct_log ll_ct"
    "next_state (ll_dt ! i) + cst_value (cst_at ll_ct (ss_ll st)) mod 2 ^ num_bits (ll_dt ! i) = ss_ll st"
    using enc_pair_step [OF p(1) c(1) x(1)] by blast
  obtain j where j: "j < length of_dt" "\<And>bw. bit_pos bw + num_bits (of_dt ! j) < 64 \<Longrightarrow>
      cst_encode (cst_at of_ct (ss_of st)) bw ?f = Inr (cst_at of_ct j, add_bits bw (word_of_nat (cst_value (cst_at of_ct (ss_of st)))) (num_bits (of_dt ! j)))"
    "codes_as OF_BASE OF_BITS ?f (of_dt ! j)" "num_bits (of_dt ! j) \<le> ct_log of_ct"
    "next_state (of_dt ! j) + cst_value (cst_at of_ct (ss_of st)) mod 2 ^ num_bits (of_dt ! j) = ss_of st"
    using enc_pair_step [OF p(2) c(2) x(2)] by blast
  obtain k where k: "k < length ml_dt" "\<And>bw. bit_pos bw + num_bits (ml_dt ! k) < 64 \<Longrightarrow>
      cst_encode (cst_at ml_ct (ss_ml st)) bw ?m = Inr (cst_at ml_ct k, add_bits bw (word_of_nat (cst_value (cst_at ml_ct (ss_ml st)))) (num_bits (ml_dt ! k)))"
    "codes_as ML_BASE ML_BITS ?m (ml_dt ! k)" "num_bits (ml_dt ! k) \<le> ct_log ml_ct"
    "next_state (ml_dt ! k) + cst_value (cst_at ml_ct (ss_ml st)) mod 2 ^ num_bits (ml_dt ! k) = ss_ml st"
    using enc_pair_step [OF p(4) c(3) x(3)] by blast
  define st' where "st' = st\<lparr>ss_ll := i, ss_of := j, ss_ml := k\<rparr>"
  have nb: "num_bits (ll_dt ! i) \<le> 9" "num_bits (of_dt ! j) \<le> 8" "num_bits (ml_dt ! k) \<le> 9" using i(4) j(4) k(4) lg p(3) by auto
  have w: "of_bits + ml_bits + ll_bits = ll_bits + ml_bits + of_bits" for of_bits ml_bits ll_bits :: nat by simp
  have "cs_ok (bit_pos bw) (seq_ops dts cts st st' q) \<and> cs_pos (bit_pos bw) (seq_ops dts cts st st' q) < 8"
    using nb sm bw by (auto simp: seq_ops_def e Let_def st'_def seq_bits_def cs_ok_append cs_pos_append)
  moreover have "encode_sequence (at_cells cts st) ?l ?f ?m q bw = Inr (at_cells cts st', foldl cs_apply bw (seq_ops dts cts st st' q))"
    using nb sm bw i(2) j(2) k(2) bits_by_code(1) [OF sm(1)] bits_by_code(2) [OF sm(2)]
    by (simp add: encode_sequence_def at_cells_def e st'_def seq_ops_def Let_def seq_bits_def w)
  moreover have "cells_in dts st' \<and> cells_code dts st' q \<and> back_to dts cts st st'"
    using i j k nb by (simp add: cells_in_def cells_code_def back_to_def e st'_def)
  ultimately show ?thesis by blast
qed

lemma field_value: "n \<le> 64 \<Longrightarrow> take_bit n (unat (word_of_nat v :: u64)) = v mod 2 ^ n"
  by (simp add: unat_of_nat take_bit_eq_mod mod_mod_cancel le_imp_power_dvd flip: power_numeral)

lemma stream_field: "le_nat src = N \<Longrightarrow> stream_bits src p n = take_bit n (drop_bit p N)"
  by (simp add: stream_bits_def)

text \<open>What the values of a sequence become, its offset and the history.\<close>

abbreviation seq_offset :: "seq \<Rightarrow> nat list \<Rightarrow> nat \<times> nat list" where
  "seq_offset q hist \<equiv> rfc_offset (off_base q) (lit_len q) hist"

lemma seq_values:
  assumes q: "seq_codable S q" and c: "cells_code (ll_dt, of_dt, ml_dt) st q"
  shows "base_value (ll_dt ! ss_ll st) + lit_len q mod 2 ^ extra_bits (ll_dt ! ss_ll st) = lit_len q"
    "base_value (ml_dt ! ss_ml st) + ml_base q mod 2 ^ extra_bits (ml_dt ! ss_ml st) = ml_base q + 3"
    "2 ^ extra_bits (of_dt ! ss_of st) + off_base q mod 2 ^ extra_bits (of_dt ! ss_of st) = off_base q"
    "extra_bits (ll_dt ! ss_ll st) = LL_BITS ! ll_code (lit_len q)" "extra_bits (ml_dt ! ss_ml st) = ML_BITS ! ml_code (ml_base q)"
    "extra_bits (of_dt ! ss_of st) = off_code (off_base q)"
  using q c ll_value [of "lit_len q"] ml_value [of "ml_base q"] off_value [of "off_base q"]
  by (auto simp: seq_codable_def cells_code_def codes_as_def Let_def split: prod.splits)

lemma seq_state_hist:
  "ss_ll (st\<lparr>ss_hist := h\<rparr>) = ss_ll st" "ss_of (st\<lparr>ss_hist := h\<rparr>) = ss_of st" "ss_ml (st\<lparr>ss_hist := h\<rparr>) = ss_ml st" "ss_hist (st\<lparr>ss_hist := h\<rparr>) = h"
  by simp_all

lemma decode_step:
  assumes t: "back_to dts cts st st'" "cells_code dts st' q" and q: "seq_codable S q"
    and w: "foldl push_bits (W, T) (seq_ops dts cts st st' q) = (W', T')" "W < 2 ^ T" and src: "le_nat src = W' + 2 ^ T' * H"
  shows "spec_sequence src dts False T' (st'\<lparr>ss_hist := hist\<rparr>)
      = Some ((lit_len q, ml_base q + 3, fst (seq_offset q hist)), T, st\<lparr>ss_hist := snd (seq_offset q hist)\<rparr>)
    \<and> (\<exists>H'. le_nat src = W + 2 ^ T * H')"
proof -
  obtain ll_ct of_ct ml_ct ll_dt of_dt ml_dt where
    e: "cts = (ll_ct, of_ct, ml_ct)" "dts = (ll_dt, of_dt, ml_dt)" by (metis prod_cases3)
  let ?l = "ll_dt ! ss_ll st'" and ?f = "of_dt ! ss_of st'" and ?m = "ml_dt ! ss_ml st'"
  note sm = seq_codes_small [OF q] and v = seq_values [OF q t(2) [unfolded e(2)]]
  have nb: "num_bits ?l \<le> 9" "num_bits ?f \<le> 8" "num_bits ?m \<le> 9" using t(1) by (auto simp: back_to_def e)
  have wd: "op_widths (seq_ops dts cts st st' q) = [num_bits ?f, num_bits ?m, num_bits ?l, extra_bits ?l, extra_bits ?m, extra_bits ?f]"
    using v by (simp add: seq_ops_def e Let_def)
  have vl: "op_values (seq_ops dts cts st st' q) = [cst_value (cst_at of_ct (ss_of st)) mod 2 ^ num_bits ?f,
      cst_value (cst_at ml_ct (ss_ml st)) mod 2 ^ num_bits ?m, cst_value (cst_at ll_ct (ss_ll st)) mod 2 ^ num_bits ?l,
      lit_len q mod 2 ^ extra_bits ?l, ml_base q mod 2 ^ extra_bits ?m, off_base q mod 2 ^ extra_bits ?f]"
    using v sm nb by (simp add: seq_ops_def e Let_def field_value)
  note pf = pushes_fields [OF w, of H]
  have T: "T' = T + num_bits ?f + num_bits ?m + num_bits ?l + extra_bits ?l + extra_bits ?m + extra_bits ?f" using pf wd by simp
  have fl: "stream_bits src (T' - extra_bits ?f) (extra_bits ?f) = off_base q mod 2 ^ extra_bits ?f"
    "stream_bits src (T' - extra_bits ?f - extra_bits ?m) (extra_bits ?m) = ml_base q mod 2 ^ extra_bits ?m"
    "stream_bits src (T' - extra_bits ?f - extra_bits ?m - extra_bits ?l) (extra_bits ?l) = lit_len q mod 2 ^ extra_bits ?l"
    "stream_bits src (T' - extra_bits ?f - extra_bits ?m - extra_bits ?l - num_bits ?l) (num_bits ?l) = cst_value (cst_at ll_ct (ss_ll st)) mod 2 ^ num_bits ?l"
    "stream_bits src (T' - extra_bits ?f - extra_bits ?m - extra_bits ?l - num_bits ?l - num_bits ?m) (num_bits ?m) = cst_value (cst_at ml_ct (ss_ml st)) mod 2 ^ num_bits ?m"
    "stream_bits src (T' - extra_bits ?f - extra_bits ?m - extra_bits ?l - num_bits ?l - num_bits ?m - num_bits ?f) (num_bits ?f) = cst_value (cst_at of_ct (ss_of st)) mod 2 ^ num_bits ?f"
    using pf [THEN conjunct2, THEN conjunct2, unfolded wd vl] unfolding stream_field [OF src] by simp_all
  have bk: "next_state ?l + cst_value (cst_at ll_ct (ss_ll st)) mod 2 ^ num_bits ?l = ss_ll st"
    "next_state ?f + cst_value (cst_at of_ct (ss_of st)) mod 2 ^ num_bits ?f = ss_of st"
    "next_state ?m + cst_value (cst_at ml_ct (ss_ml st)) mod 2 ^ num_bits ?m = ss_ml st" using t(1) by (auto simp: back_to_def e)
  have P: "T' - extra_bits ?f - extra_bits ?m - extra_bits ?l - num_bits ?l - num_bits ?m - num_bits ?f = T"
    and nd: "(T' < extra_bits ?f + extra_bits ?m + extra_bits ?l + (num_bits ?l + num_bits ?m + num_bits ?f)) = False" using T by simp_all
  note sel = seq_state_hist
  have "spec_sequence src dts False T' (st'\<lparr>ss_hist := hist\<rparr>)
      = Some ((lit_len q, ml_base q + 3, fst (seq_offset q hist)), T, st\<lparr>ss_hist := snd (seq_offset q hist)\<rparr>)"
    unfolding spec_sequence_def e Let_def prod.case sel if_False fl fl [unfolded P] v(1-3) bk nd P by (simp split: prod.split)
  moreover have "\<exists>H'. le_nat src = W + 2 ^ T * H'" using pf src by auto
  ultimately show ?thesis by blast
qed

lemma seq_ops_width: "back_to dts cts st st' \<Longrightarrow> sum_list (op_widths (seq_ops dts cts st st' q)) \<le> 26 + seq_bits q"
  by (auto simp: seq_ops_def back_to_def seq_bits_def Let_def split: prod.splits)

text \<open>The last sequence.\<close>

definition first_ops :: "seq \<Rightarrow> cs_op list" where
  "first_ops q = [AddBits (word_of_nat (lit_len q)) (LL_BITS ! ll_code (lit_len q)),
     AddBits (word_of_nat (ml_base q)) (ML_BITS ! ml_code (ml_base q)), AddBits (word_of_nat (off_base q)) (off_code (off_base q)), FlushBits]"

lemma encode_first_ok:
  assumes t: "enc_tables (ll_ct, of_ct, ml_ct) dts S" and q: "seq_codable S q" and bw: "bit_pos bw = 0"
  shows "\<exists>st. encode_first ll_ct of_ct ml_ct (ll_code (lit_len q)) (off_code (off_base q)) (ml_code (ml_base q)) q bw
      = Inr (at_cells (ll_ct, of_ct, ml_ct) st, foldl cs_apply bw (first_ops q))
    \<and> cs_ok 0 (first_ops q) \<and> cs_pos 0 (first_ops q) < 8 \<and> cells_in dts st \<and> cells_code dts st q"
proof -
  obtain ll_dt of_dt ml_dt ll_S of_S ml_S where e: "dts = (ll_dt, of_dt, ml_dt)" "S = (ll_S, of_S, ml_S)" by (metis prod_cases3)
  have p: "enc_pair LL_BASE LL_BITS ll_S ll_ct ll_dt" "enc_pair OF_BASE OF_BITS of_S of_ct of_dt"
    "enc_pair ML_BASE ML_BITS ml_S ml_ct ml_dt" using t by (auto simp: enc_tables_def e)
  have c: "ll_code (lit_len q) \<in> ll_S" "off_code (off_base q) \<in> of_S" "ml_code (ml_base q) \<in> ml_S" using q by (auto simp: seq_codable_def e)
  note sm = seq_codes_small [OF q]
  obtain i where i: "i < length ll_dt" "cst_new ll_ct (ll_code (lit_len q)) = Inr (cst_at ll_ct i)"
    "codes_as LL_BASE LL_BITS (ll_code (lit_len q)) (ll_dt ! i)" using p(1) c(1) unfolding enc_pair_def by blast
  obtain j where j: "j < length of_dt" "cst_new of_ct (off_code (off_base q)) = Inr (cst_at of_ct j)"
    "codes_as OF_BASE OF_BITS (off_code (off_base q)) (of_dt ! j)" using p(2) c(2) unfolding enc_pair_def by blast
  obtain k where k: "k < length ml_dt" "cst_new ml_ct (ml_code (ml_base q)) = Inr (cst_at ml_ct k)"
    "codes_as ML_BASE ML_BITS (ml_code (ml_base q)) (ml_dt ! k)" using p(3) c(3) unfolding enc_pair_def by blast
  let ?st = "\<lparr>ss_ll = i, ss_ml = k, ss_of = j, ss_hist = []\<rparr>"
  have "encode_first ll_ct of_ct ml_ct (ll_code (lit_len q)) (off_code (off_base q)) (ml_code (ml_base q)) q bw
      = Inr (at_cells (ll_ct, of_ct, ml_ct) ?st, foldl cs_apply bw (first_ops q))"
    using i j k sm bw bits_by_code(1) [OF sm(1)] bits_by_code(2) [OF sm(2)]
    by (simp add: encode_first_def at_cells_def first_ops_def)
  moreover have "cs_ok 0 (first_ops q) \<and> cs_pos 0 (first_ops q) < 8" using sm by (simp add: first_ops_def)
  ultimately show ?thesis using i j k by (intro exI [of _ ?st]) (simp add: cells_in_def cells_code_def e)
qed

lemma decode_last:
  assumes c: "cells_code dts st q" and q: "seq_codable S q"
    and w: "foldl push_bits (0, 0) (first_ops q) = (W, T)" and src: "le_nat src = W + 2 ^ T * H"
  shows "spec_sequence src dts True T (st\<lparr>ss_hist := hist\<rparr>)
      = Some ((lit_len q, ml_base q + 3, fst (seq_offset q hist)), 0, st\<lparr>ss_hist := snd (seq_offset q hist)\<rparr>)"
proof -
  obtain ll_dt of_dt ml_dt where e: "dts = (ll_dt, of_dt, ml_dt)" by (metis prod_cases3)
  let ?l = "ll_dt ! ss_ll st" and ?f = "of_dt ! ss_of st" and ?m = "ml_dt ! ss_ml st"
  note sm = seq_codes_small [OF q] and v = seq_values [OF q c [unfolded e]]
  have wd: "op_widths (first_ops q) = [extra_bits ?l, extra_bits ?m, extra_bits ?f]"
    and vl: "op_values (first_ops q) = [lit_len q mod 2 ^ extra_bits ?l, ml_base q mod 2 ^ extra_bits ?m, off_base q mod 2 ^ extra_bits ?f]"
    using v sm by (simp_all add: first_ops_def field_value)
  note pf = pushes_fields [OF w, of H]
  have T: "T = extra_bits ?l + extra_bits ?m + extra_bits ?f" using pf wd by simp
  have fl: "stream_bits src (T - extra_bits ?f) (extra_bits ?f) = off_base q mod 2 ^ extra_bits ?f"
    "stream_bits src (T - extra_bits ?f - extra_bits ?m) (extra_bits ?m) = ml_base q mod 2 ^ extra_bits ?m"
    "stream_bits src (T - extra_bits ?f - extra_bits ?m - extra_bits ?l) (extra_bits ?l) = lit_len q mod 2 ^ extra_bits ?l"
    using pf [THEN conjunct2, THEN conjunct2, unfolded wd vl] unfolding stream_field [OF src] by simp_all
  have P: "T - extra_bits ?f - extra_bits ?m - extra_bits ?l = 0" and nd: "(T < extra_bits ?f + extra_bits ?m + extra_bits ?l + 0) = False" using T by simp_all
  note sel = seq_state_hist
  have "spec_sequence src dts True T (st\<lparr>ss_hist := hist\<rparr>)
      = Some ((lit_len q, ml_base q + 3, fst (seq_offset q hist)), 0, st\<lparr>ss_hist := snd (seq_offset q hist)\<rparr>)"
    unfolding spec_sequence_def e Let_def prod.case sel if_True fl fl [unfolded P] v(1-3) nd P if_False by (simp split: prod.split)
  then show ?thesis .
qed

section \<open>The whole stream\<close>

text \<open>The meaning of sequences: each is executed in turn, its offset taken from the history.\<close>

fun exec_seqs :: "(u8 list \<times> u8 list \<Rightarrow> nat \<times> nat \<times> nat \<Rightarrow> seq_error + (u8 list \<times> u8 list)) \<Rightarrow> seq list \<Rightarrow> nat list
    \<Rightarrow> u8 list \<times> u8 list \<Rightarrow> (nat list \<times> u8 list \<times> u8 list) option" where
  "exec_seqs ex [] hist s = Some (hist, s)"
| "exec_seqs ex (q # qs) hist s =
     (case ex s (lit_len q, ml_base q + 3, fst (seq_offset q hist)) of
        Inl e \<Rightarrow> None | Inr s' \<Rightarrow> exec_seqs ex qs (snd (seq_offset q hist)) s')"

text \<open>The writes \<open>ops\<close> decode to the sequences \<open>qs\<close> from the cells \<open>st\<close>, down to the last bit.\<close>

definition decodes :: "fse_entry list \<times> fse_entry list \<times> fse_entry list \<Rightarrow> seq list \<Rightarrow> seq_state \<Rightarrow> cs_op list \<Rightarrow> bool" where
  "decodes dts qs st ops \<longleftrightarrow>
     (\<forall>W T H src ex hist s. foldl push_bits (0, 0) ops = (W, T) \<and> le_nat src = W + 2 ^ T * H \<longrightarrow>
        map_option (\<lambda>(P, st, s). (P, ss_hist st, s)) (spec_sequences ex src dts (length qs) T (st\<lparr>ss_hist := hist\<rparr>) s)
          = map_option (Pair 0) (exec_seqs ex qs hist s))
     \<and> snd (foldl push_bits (0, 0) ops) + 26 \<le> (\<Sum>q\<leftarrow>qs. seq_bits q + 26)"

lemma decodes_last:
  assumes "cells_code dts st q" and "seq_codable S q"
  shows "decodes dts [q] st (first_ops q)"
proof -
  have "snd (foldl push_bits (0, 0) (first_ops q)) = seq_bits q" by (simp add: first_ops_def seq_bits_def)
  moreover have "map_option (\<lambda>(P, st, s). (P, ss_hist st, s)) (spec_sequences ex src dts (length [q]) T (st\<lparr>ss_hist := hist\<rparr>) s)
          = map_option (Pair 0) (exec_seqs ex [q] hist s)"
    if "foldl push_bits (0, 0) (first_ops q) = (W, T)" "le_nat src = W + 2 ^ T * H" for W T H src ex hist s
    using decode_last [OF assms that] by (simp split: sum.split)
  ultimately show ?thesis by (simp add: decodes_def)
qed

lemma decodes_step:
  assumes d: "decodes dts qs st ops" and ne: "qs \<noteq> []" and t: "back_to dts cts st st'" "cells_code dts st' q" and q: "seq_codable S q"
  shows "decodes dts (q # qs) st' (ops @ seq_ops dts cts st st' q)"
proof -
  obtain W T where w: "foldl push_bits (0, 0) ops = (W, T)" by fastforce
  obtain W' T' where w': "foldl push_bits (W, T) (seq_ops dts cts st st' q) = (W', T')" by fastforce
  have ww: "foldl push_bits (0, 0) (ops @ seq_ops dts cts st st' q) = (W', T')" using w w' by simp
  have b: "W < 2 ^ T" using pushes_bound [of "(0, 0)" ops] w by simp
  have run: "map_option (\<lambda>(P, st, s). (P, ss_hist st, s)) (spec_sequences ex src dts (length (q # qs)) T' (st'\<lparr>ss_hist := hist\<rparr>) s)
          = map_option (Pair 0) (exec_seqs ex (q # qs) hist s)" if src: "le_nat src = W' + 2 ^ T' * H" for H src ex hist s
  proof -
    note st = decode_step [OF t q w' b src]
    obtain H' where "le_nat src = W + 2 ^ T * H'" using st by blast
    then have "map_option (\<lambda>(P, st, s). (P, ss_hist st, s)) (spec_sequences ex src dts (length qs) T (st\<lparr>ss_hist := hist\<rparr>) s)
          = map_option (Pair 0) (exec_seqs ex qs hist s)" for hist s using d w unfolding decodes_def by blast
    then show ?thesis using st ne by (simp split: sum.split)
  qed
  have "T' = T + sum_list (op_widths (seq_ops dts cts st st' q))" using pushes_len [of W T "seq_ops dts cts st st' q"] w' by simp
  then have "T' + 26 \<le> (\<Sum>q\<leftarrow>q # qs. seq_bits q + 26)" using seq_ops_width [OF t(1), of q] d w by (simp add: decodes_def)
  then show ?thesis using ww run unfolding decodes_def by auto
qed

text \<open>The loop: everything written so far decodes to the sequences already encoded.\<close>

lemma encode_loop_ok:
  assumes t: "enc_tables cts dts S" and c: "\<forall>q \<in> set pre. seq_codable S q"
    and lls: "lls = map (\<lambda>q. ll_code (lit_len q)) pre" and ofs: "ofs = map (\<lambda>q. off_code (off_base q)) pre" and mls: "mls = map (\<lambda>q. ml_code (ml_base q)) pre"
    and bw0: "bit_pos bw0 = 0"
  shows "n \<le> length pre \<Longrightarrow> qs \<noteq> [] \<Longrightarrow> cells_in dts st \<Longrightarrow> cs_ok 0 ops \<Longrightarrow> cs_pos 0 ops < 8 \<Longrightarrow> decodes dts qs st ops \<Longrightarrow>
    \<exists>st' ops'. encode_loop n lls ofs mls pre (at_cells cts st) (foldl cs_apply bw0 ops) = Inr (at_cells cts st', foldl cs_apply bw0 ops')
      \<and> cells_in dts st' \<and> cs_ok 0 ops' \<and> cs_pos 0 ops' < 8 \<and> decodes dts (take n pre @ qs) st' ops'"
proof (induction n arbitrary: qs st ops)
  case 0
  then show ?case by auto
next
  case (Suc n)
  have n: "n < length pre" using Suc.prems(1) by simp
  let ?q = "pre ! n" and ?bw = "foldl cs_apply bw0 ops"
  have q: "seq_codable S ?q" using c n by simp
  have bp: "bit_pos ?bw = cs_pos 0 ops" by (simp add: bit_pos_run bw0)
  from encode_sequence_ok [OF t q Suc.prems(3), of ?bw] Suc.prems(5) bp obtain st1 where
    1: "encode_sequence (at_cells cts st) (ll_code (lit_len ?q)) (off_code (off_base ?q)) (ml_code (ml_base ?q)) ?q ?bw
      = Inr (at_cells cts st1, foldl cs_apply ?bw (seq_ops dts cts st st1 ?q))"
    "cs_ok (cs_pos 0 ops) (seq_ops dts cts st st1 ?q)" "cs_pos (cs_pos 0 ops) (seq_ops dts cts st st1 ?q) < 8"
    "cells_in dts st1" "cells_code dts st1 ?q" "back_to dts cts st st1" by auto
  let ?ops = "ops @ seq_ops dts cts st st1 ?q"
  have "cs_ok 0 ?ops" "cs_pos 0 ?ops < 8" using 1 Suc.prems(4) by (auto simp: cs_ok_append cs_pos_append)
  from Suc.IH [OF _ _ 1(4) this decodes_step [OF Suc.prems(6,2) 1(6,5) q]] n obtain st' ops' where
    "encode_loop n lls ofs mls pre (at_cells cts st1) (foldl cs_apply bw0 ?ops) = Inr (at_cells cts st', foldl cs_apply bw0 ops')"
    "cells_in dts st'" "cs_ok 0 ops'" "cs_pos 0 ops' < 8" "decodes dts (take n pre @ ?q # qs) st' ops'" by auto
  moreover have "take (Suc n) pre @ qs = take n pre @ ?q # qs" using n by (simp add: take_Suc_conv_app_nth)
  ultimately show ?case using 1(1) n lls ofs mls by auto
qed

definition flush_ops :: "fse_ctable \<times> fse_ctable \<times> fse_ctable \<Rightarrow> seq_state \<Rightarrow> cs_op list" where
  "flush_ops cts st =
     (let (ll_ct, of_ct, ml_ct) = cts in
      [AddBits (word_of_nat (cst_value (cst_at ml_ct (ss_ml st)))) (ct_log ml_ct), FlushBits,
       AddBits (word_of_nat (cst_value (cst_at of_ct (ss_of st)))) (ct_log of_ct), FlushBits,
       AddBits (word_of_nat (cst_value (cst_at ll_ct (ss_ll st)))) (ct_log ll_ct), FlushBits])"

lemma cst_value_mod: "x < 2 ^ ct_log ct \<Longrightarrow> cst_value (cst_at ct x) mod 2 ^ ct_log ct = x"
  by (auto simp: cst_at_def)

lemma enc_tables_logs:
  assumes "enc_tables (ll_ct, of_ct, ml_ct) (ll_dt, of_dt, ml_dt) S"
  shows "ct_log ll_ct \<le> 9" "ct_log of_ct \<le> 8" "ct_log ml_ct \<le> 9" "length ll_dt = 2 ^ ct_log ll_ct" "length of_dt = 2 ^ ct_log of_ct"
    "length ml_dt = 2 ^ ct_log ml_ct"
  using assms by (auto simp: enc_tables_def enc_pair_def split: prod.splits)

lemma flush_ops_ok:
  assumes t: "enc_tables cts dts S" and p: "p < 8"
  shows "cs_ok p (flush_ops cts st)" "cs_pos p (flush_ops cts st) < 8" "sum_list (op_widths (flush_ops cts st)) \<le> 26"
proof -
  obtain a b c a' b' c' where e: "cts = (a, b, c)" "dts = (a', b', c')" by (metis prod_cases3)
  note l = enc_tables_logs [OF t [unfolded e]]
  have m: "x mod 8 + n < 64" if "n \<le> 9" for x n :: nat using that mod_less_divisor [of 8 x] by linarith
  show "cs_ok p (flush_ops cts st)" "cs_pos p (flush_ops cts st) < 8" "sum_list (op_widths (flush_ops cts st)) \<le> 26"
    using l(1-3) p m by (simp_all add: flush_ops_def e)
qed

lemma encode_finish_ok:
  assumes t: "enc_tables cts dts S" and bw: "bit_pos bw < 8" and cl: "cs_close (foldl cs_apply bw (flush_ops cts st)) = (sz, region)" "0 < sz"
  shows "encode_finish (at_cells cts st) bw = Inr (sz, region)"
proof -
  obtain a b c a' b' c' where e: "cts = (a, b, c)" "dts = (a', b', c')" by (metis prod_cases3)
  note l = enc_tables_logs [OF t [unfolded e]]
  have ct: "cst_table (cst_at ct x) = ct" for ct x by (simp add: cst_at_def)
  show ?thesis using l(1-3) bw cl
    by (simp add: encode_finish_def at_cells_def e cst_flush_def flush_ops_def cs_close_checked_def ct)
qed

text \<open>The states the decoder reads first are the encoder's last.\<close>

lemma decode_states:
  assumes t: "enc_tables (ll_ct, of_ct, ml_ct) dts S" and st: "cells_in dts st"
    and w: "foldl push_bits (W, T) (flush_ops (ll_ct, of_ct, ml_ct) st) = (W', T')" "W < 2 ^ T" and src: "le_nat src = W' + 2 ^ T' * H"
  shows "stream_bits src (T' - ct_log ll_ct) (ct_log ll_ct) = ss_ll st"
    "stream_bits src (T' - ct_log ll_ct - ct_log of_ct) (ct_log of_ct) = ss_of st"
    "stream_bits src (T' - ct_log ll_ct - ct_log of_ct - ct_log ml_ct) (ct_log ml_ct) = ss_ml st"
    "T' = T + ct_log ml_ct + ct_log of_ct + ct_log ll_ct" "\<exists>H'. le_nat src = W + 2 ^ T * H'"
proof -
  obtain ll_dt of_dt ml_dt where e: "dts = (ll_dt, of_dt, ml_dt)" by (metis prod_cases3)
  note l = enc_tables_logs [OF t [unfolded e]]
  have x: "ss_ll st < 2 ^ ct_log ll_ct" "ss_of st < 2 ^ ct_log of_ct" "ss_ml st < 2 ^ ct_log ml_ct" using st l by (auto simp: cells_in_def e)
  have wd: "op_widths (flush_ops (ll_ct, of_ct, ml_ct) st) = [ct_log ml_ct, ct_log of_ct, ct_log ll_ct]" by (simp add: flush_ops_def)
  have vl: "op_values (flush_ops (ll_ct, of_ct, ml_ct) st) = [ss_ml st, ss_of st, ss_ll st]"
    using l(1-3) x by (simp add: flush_ops_def field_value cst_value_mod)
  note pf = pushes_fields [OF w, of H]
  show "T' = T + ct_log ml_ct + ct_log of_ct + ct_log ll_ct" using pf wd by simp
  show "\<exists>H'. le_nat src = W + 2 ^ T * H'" using pf src by auto
  show "stream_bits src (T' - ct_log ll_ct) (ct_log ll_ct) = ss_ll st"
    "stream_bits src (T' - ct_log ll_ct - ct_log of_ct) (ct_log of_ct) = ss_of st"
    "stream_bits src (T' - ct_log ll_ct - ct_log of_ct - ct_log ml_ct) (ct_log ml_ct) = ss_ml st"
    using pf [THEN conjunct2, THEN conjunct2, unfolded wd vl] unfolding stream_field [OF src] by simp_all
qed

text \<open>The writes of a whole stream.\<close>

lemma encode_stream_ok:
  assumes t: "enc_tables (ll_ct, of_ct, ml_ct) dts S" and c: "\<forall>q \<in> set qs. seq_codable S q" and ne: "qs \<noteq> []"
    and codes: "lls = map (\<lambda>q. ll_code (lit_len q)) qs" "ofs = map (\<lambda>q. off_code (off_base q)) qs" "mls = map (\<lambda>q. ml_code (ml_base q)) qs"
    and ex: "(\<Sum>q\<leftarrow>qs. seq_bits q) \<le> extra"
  shows "\<exists>src st ops W T. encode_sequences_body out ll_ct of_ct ml_ct lls ofs mls qs extra = Inr (out @ src, length src)
    \<and> cells_in dts st \<and> decodes dts qs st ops \<and> foldl push_bits (0, 0) (ops @ flush_ops (ll_ct, of_ct, ml_ct) st) = (W, T)
    \<and> le_nat src = W + 2 ^ T \<and> bit_length (le_nat src) = Suc T \<and> src \<noteq> [] \<and> last src \<noteq> 0"
proof -
  let ?cts = "(ll_ct, of_ct, ml_ct)" and ?n = "length qs"
  let ?max = "extra + ?n * (LL_FSE_LOG + OFF_FSE_LOG + ML_FSE_LOG) + 1"
  let ?b = "replicate (capacity_for ?max) 0 :: u8 list"
  have lst: "last qs = qs ! (?n - 1)" "qs = butlast qs @ [last qs]" using ne by (simp add: last_conv_nth) (simp add: ne)
  define pre where "pre = butlast qs"
  have pre: "take (?n - 1) qs = pre" "length pre = ?n - 1" "qs = pre @ [last qs]" using lst(2) by (simp_all add: pre_def butlast_conv_take)
  have q: "seq_codable S (last qs)" and cp: "\<forall>q \<in> set pre. seq_codable S q" using c ne by (auto simp: pre_def dest: in_set_butlastD)
  obtain bw where bw: "cs_new ?b = Inr bw" "bit_pos bw = 0" by (auto simp: cs_new_def capacity_for_def)
  from encode_first_ok [OF t q bw(2)] obtain st0 where
    1: "encode_first ll_ct of_ct ml_ct (ll_code (lit_len (last qs))) (off_code (off_base (last qs))) (ml_code (ml_base (last qs))) (last qs) bw
      = Inr (at_cells ?cts st0, foldl cs_apply bw (first_ops (last qs)))"
    "cs_ok 0 (first_ops (last qs))" "cs_pos 0 (first_ops (last qs)) < 8" "cells_in dts st0" "cells_code dts st0 (last qs)" by auto
  from encode_loop_ok [OF t cp refl refl refl bw(2) order_refl _ 1(4,2,3) decodes_last [OF 1(5) q]] obtain st ops where
    2: "encode_loop (length pre) (map (\<lambda>q. ll_code (lit_len q)) pre) (map (\<lambda>q. off_code (off_base q)) pre) (map (\<lambda>q. ml_code (ml_base q)) pre) pre
        (at_cells ?cts st0) (foldl cs_apply bw (first_ops (last qs))) = Inr (at_cells ?cts st, foldl cs_apply bw ops)"
    "cells_in dts st" "cs_ok 0 ops" "cs_pos 0 ops < 8" "decodes dts (pre @ [last qs]) st ops" by auto
  let ?ops = "ops @ flush_ops ?cts st"
  obtain W T where w: "foldl push_bits (0, 0) ?ops = (W, T)" by fastforce
  have v: "cs_valid 0 ?ops" using 2(3) flush_ops_ok(1,2) [OF t 2(4), of st] by (simp add: cs_valid_ok cs_ok_append cs_pos_append)
  have "T = snd (foldl push_bits (0, 0) ops) + sum_list (op_widths (flush_ops ?cts st))"
    using pushes_len [of 0 0 ?ops] pushes_len [of 0 0 ops] w by simp
  then have "T \<le> (\<Sum>q\<leftarrow>qs. seq_bits q + 26)"
    using flush_ops_ok(3) [OF t 2(4), of st] 2(5) by (simp add: decodes_def flip: pre(3))
  also have "\<dots> \<le> extra + ?n * 26" using ex by (simp add: sum_list_addf sum_list_triv mult.commute)
  finally have cap: "capacity_for (T + 1) \<le> length ?b" by (simp add: capacity_for_def div_le_mono)
  obtain sz region where cl: "cs_close (foldl cs_apply bw ?ops) = (sz, region)" by fastforce
  note cs = closed_stream [OF bw(1) v w cap cl]
  have fin: "encode_finish (at_cells ?cts st) (foldl cs_apply bw ops) = Inr (sz, region)"
    using cl cs(6) 2(4) bw(2) by (intro encode_finish_ok [OF t]) (simp_all add: bit_pos_run)
  have ln: "length lls = ?n" "length ofs = ?n" "length mls = ?n" "?n \<noteq> 0" using codes ne by simp_all
  have at: "lls ! (?n - 1) = ll_code (lit_len (last qs))" "ofs ! (?n - 1) = off_code (off_base (last qs))" "mls ! (?n - 1) = ml_code (ml_base (last qs))"
    using codes ne lst(1) by simp_all
  have tk: "take (?n - 1) lls = map (\<lambda>q. ll_code (lit_len q)) pre" "take (?n - 1) ofs = map (\<lambda>q. off_code (off_base q)) pre"
    "take (?n - 1) mls = map (\<lambda>q. ml_code (ml_base q)) pre" using codes pre(1) by (simp_all add: take_map)
  have "encode_sequences_body out ll_ct of_ct ml_ct lls ofs mls qs extra = Inr (out @ take sz region, sz)"
    using ln bw(1) 1(1) 2(1) fin at [folded pre(2)] tk [folded pre(2)] pre(1) [folded pre(2)] lst(1) [folded pre(2)]
    unfolding encode_sequences_body_def Let_def pre(2) [symmetric] by simp
  then show ?thesis using 2(2,5) w cs pre(3) by (intro exI [of _ "take sz region"] exI [of _ st] exI [of _ ops] exI [of _ W] exI [of _ T]) simp
qed

lemma encode_sequences_eq: "encode_sequences bmi2 = encode_sequences_body"
  by (intro ext) (simp add: encode_sequences_def encode_sequences_bmi2_def)

text \<open>C38: the sequences round trip.  Let the encoder's three tables and the decoder's belong together, for codes that include
  those of all sequences, and let the lengths be those of a block.  Then \<open>encode_sequences\<close> appends a stream to
  \<open>out\<close> without fault, with or without BMI2, in the region it sized by the extra bits, and decoding that stream (\<open>spec_block\<close>, which
  the decoder's \<open>execute_with\<close> implements) executes exactly the sequences given, in order, with their literal lengths,
  match lengths and offsets, using every bit of the stream: the outcome is that of executing the sequences
  themselves, whatever the executor, the history and the output limit.\<close>

theorem sequences_roundtrip:
  assumes "enc_tables (ll_ct, of_ct, ml_ct) (table_cells ll_t, table_cells of_t, table_cells ml_t) S"
    and "accuracy_log ll_t = ct_log ll_ct" and "accuracy_log of_t = ct_log of_ct" and "accuracy_log ml_t = ct_log ml_ct"
    and "sequences \<noteq> []" and "\<forall>q \<in> set sequences. seq_codable S q" and "(\<Sum>q\<leftarrow>sequences. seq_bits q) \<le> extra"
    and "seq_to_codes sequences codes = Inr (lls, ofs, mls)"
  shows "\<exists>src. encode_sequences bmi2 out ll_ct of_ct ml_ct lls ofs mls sequences extra = Inr (out @ src, length src)
    \<and> (\<forall>ex limit hist s. spec_block ex src (ll_t, of_t, ml_t) (length sequences) limit hist s
        = (case exec_seqs ex sequences hist s of
             None \<Rightarrow> None
           | Some (hist', o', lits) \<Rightarrow>
               if limit < length o' + length lits then None else Some (o' @ lits, map (\<lambda>h. h mod 2 ^ 32) hist')))"
proof -
  let ?cts = "(ll_ct, of_ct, ml_ct)" and ?dts = "(table_cells ll_t, table_cells of_t, table_cells ml_t)"
  have codes: "lls = map (\<lambda>q. ll_code (lit_len q)) sequences" "ofs = map (\<lambda>q. off_code (off_base q)) sequences"
    "mls = map (\<lambda>q. ml_code (ml_base q)) sequences" using assms(8) by (auto simp: seq_to_codes_def split: if_splits)
  from encode_stream_ok [OF assms(1,6,5) codes assms(7), of out] obtain src st ops W' T' where
    e: "encode_sequences_body out ll_ct of_ct ml_ct lls ofs mls sequences extra = Inr (out @ src, length src)"
    and st: "cells_in ?dts st" "decodes ?dts sequences st ops" "foldl push_bits (0, 0) (ops @ flush_ops ?cts st) = (W', T')"
    and src: "le_nat src = W' + 2 ^ T'" "bit_length (le_nat src) = Suc T'" "src \<noteq> []" "last src \<noteq> 0" by blast
  obtain W T where w: "foldl push_bits (0, 0) ops = (W, T)" by fastforce
  have w': "foldl push_bits (W, T) (flush_ops ?cts st) = (W', T')" using st(3) w by simp
  have b: "W < 2 ^ T" using pushes_bound [of "(0, 0)" ops] w by simp
  have N: "le_nat src = W' + 2 ^ T' * 1" using src(1) by simp
  note d = decode_states [OF assms(1) st(1) w' b N]
  obtain H where "le_nat src = W + 2 ^ T * H" using d(5) by blast
  then have run: "map_option (\<lambda>(P, st, s). (P, ss_hist st, s)) (spec_sequences ex src ?dts (length sequences) T (st\<lparr>ss_hist := hist\<rparr>) s)
      = map_option (Pair 0) (exec_seqs ex sequences hist s)" for ex hist s using st(2) w unfolding decodes_def by blast
  have P: "T' - ct_log ll_ct - ct_log of_ct - ct_log ml_ct = T" "\<not> T' < ct_log ll_ct + ct_log of_ct + ct_log ml_ct" using d(4) by simp_all
  have st0: "\<lparr>ss_ll = ss_ll st, ss_ml = ss_ml st, ss_of = ss_of st, ss_hist = hist\<rparr> = st\<lparr>ss_hist := hist\<rparr>" for hist by simp
  have "spec_block ex src (ll_t, of_t, ml_t) (length sequences) limit hist s
        = (case exec_seqs ex sequences hist s of
             None \<Rightarrow> None
           | Some (hist', o', lits) \<Rightarrow>
               if limit < length o' + length lits then None else Some (o' @ lits, map (\<lambda>h. h mod 2 ^ 32) hist'))" for ex limit hist s
  proof -
    have "spec_block ex src (ll_t, of_t, ml_t) (length sequences) limit hist s
        = (case spec_sequences ex src ?dts (length sequences) T (st\<lparr>ss_hist := hist\<rparr>) s of None \<Rightarrow> None
           | Some (P, st, o', lits) \<Rightarrow> if P \<noteq> 0 \<or> limit < length o' + length lits then None
               else Some (o' @ lits, map (\<lambda>h. h mod 2 ^ 32) (ss_hist st)))"
      using src P unfolding spec_block_def Let_def prod.case assms(2-4) src(2) diff_Suc_1 d(1-3) d(3) [unfolded P(1)] P(1) st0 by simp
    also have "\<dots> = (case map_option (\<lambda>(P, st, s). (P, ss_hist st, s)) (spec_sequences ex src ?dts (length sequences) T (st\<lparr>ss_hist := hist\<rparr>) s) of None \<Rightarrow> None
           | Some (P, h, o', lits) \<Rightarrow> if P \<noteq> 0 \<or> limit < length o' + length lits then None
               else Some (o' @ lits, map (\<lambda>h. h mod 2 ^ 32) h))" by (simp split: option.split prod.split)
    finally show ?thesis unfolding run by (simp split: option.split prod.split)
  qed
  then show ?thesis using e by (auto simp: encode_sequences_eq)
qed

text \<open>The default tables belong together.\<close>

definition default_table :: "nat \<Rightarrow> nat \<Rightarrow> int list \<Rightarrow> fse_table" where
  "default_table ms log norm = (fse_new ms)\<lparr>symbol_probabilities := norm, accuracy_log := log\<rparr>"

definition used_codes :: "int list \<Rightarrow> nat set" where
  "used_codes norm = {s. s < length norm \<and> norm ! s \<noteq> 0}"

lemma built_pair:
  assumes "fse_tiles log norm" "5 \<le> log" "log \<le> 9" "length norm = Suc ms" "ms \<le> 52" "codes_cover (Some (base, bits)) (Suc ms)"
  shows "\<exists>ct t. ct_build ctable_default norm ms log = Inr ct \<and> build_decoding_table (Some (base, bits)) (default_table ms log norm) = Inr t
    \<and> enc_pair base bits (used_codes norm) ct (table_cells t) \<and> accuracy_log t = ct_log ct \<and> ct_log ct = log"
proof -
  have tk: "take (Suc ms) norm = norm" using assms(4) by simp
  have t: "accuracy_log (default_table ms log norm) = log" "symbol_probabilities (default_table ms log norm) = norm" by (simp_all add: default_table_def)
  from ct_build_inverts [OF assms(1-5) tk ctable_default_wf assms(6) t] obtain ct t where
    r: "ct_build ctable_default norm ms log = Inr ct" "ct_log ct = log" "build_decoding_table (Some (base, bits)) (default_table ms log norm) = Inr t"
    "tsize t = 2 ^ log" "accuracy_log t = log" "enc_pair base bits (used_codes norm) ct (take (tsize t) (cells t))"
    unfolding used_codes_def by blast
  from r(2-6) show ?thesis by (intro exI [of _ ct] exI [of _ t] conjI r(1)) (simp_all add: table_cells_def)
qed

definition seqs_two :: "seq list" where
  "seqs_two = [\<lparr>lit_len = 3, off_base = 4, ml_base = 2\<rparr>, \<lparr>lit_len = 0, off_base = 1, ml_base = 7\<rparr>]"

definition exec_trace :: "u8 list \<times> u8 list \<Rightarrow> nat \<times> nat \<times> nat \<Rightarrow> seq_error + (u8 list \<times> u8 list)" where
  "exec_trace = (\<lambda>(out, lits) (ll, ml, off). Inr (out @ [word_of_nat ll, word_of_nat ml, word_of_nat off], lits))"

theorem sequences_roundtrip_witness:
  "\<exists>ll_ct of_ct ml_ct ll_t of_t ml_t src.
    ct_build ctable_default LL_DEFAULT_NORM 35 6 = Inr ll_ct \<and> ct_build ctable_default OF_DEFAULT_NORM 28 5 = Inr of_ct
    \<and> ct_build ctable_default ML_DEFAULT_NORM 52 6 = Inr ml_ct
    \<and> encode_sequences True [] ll_ct of_ct ml_ct [3, 0] [2, 0] [2, 7] seqs_two 2 = Inr (src, length src)
    \<and> spec_block exec_trace src (ll_t, of_t, ml_t) 2 100 [1, 4, 8] ([], []) = Some ([3, 5, 1, 0, 10, 1], [1, 1, 4])"
proof -
  have ll: "fse_tiles 6 LL_DEFAULT_NORM" "length LL_DEFAULT_NORM = Suc 35" "codes_cover (Some (LL_BASE, LL_BITS)) (Suc 35)"
    by (simp_all add: fse_tiles_def LL_DEFAULT_NORM_def cell_count_def codes_cover_def LL_BASE_def LL_BITS_def)
  have fo: "fse_tiles 5 OF_DEFAULT_NORM" "length OF_DEFAULT_NORM = Suc 28" "codes_cover (Some (OF_BASE, OF_BITS)) (Suc 28)"
    by (simp_all add: fse_tiles_def OF_DEFAULT_NORM_def cell_count_def codes_cover_def OF_BASE_def OF_BITS_def)
  have ml: "fse_tiles 6 ML_DEFAULT_NORM" "length ML_DEFAULT_NORM = Suc 52" "codes_cover (Some (ML_BASE, ML_BITS)) (Suc 52)"
    by (simp_all add: fse_tiles_def ML_DEFAULT_NORM_def cell_count_def codes_cover_def ML_BASE_def ML_BITS_def)
  obtain ll_ct ll_t where l: "ct_build ctable_default LL_DEFAULT_NORM 35 6 = Inr ll_ct" "accuracy_log ll_t = ct_log ll_ct"
    "enc_pair LL_BASE LL_BITS (used_codes LL_DEFAULT_NORM) ll_ct (table_cells ll_t)" using built_pair [OF ll(1) _ _ ll(2) _ ll(3)] by auto
  obtain of_ct of_t where f: "ct_build ctable_default OF_DEFAULT_NORM 28 5 = Inr of_ct" "accuracy_log of_t = ct_log of_ct" "ct_log of_ct = 5"
    "enc_pair OF_BASE OF_BITS (used_codes OF_DEFAULT_NORM) of_ct (table_cells of_t)" using built_pair [OF fo(1) _ _ fo(2) _ fo(3)] by auto
  obtain ml_ct ml_t where m: "ct_build ctable_default ML_DEFAULT_NORM 52 6 = Inr ml_ct" "accuracy_log ml_t = ct_log ml_ct"
    "enc_pair ML_BASE ML_BITS (used_codes ML_DEFAULT_NORM) ml_ct (table_cells ml_t)" using built_pair [OF ml(1) _ _ ml(2) _ ml(3)] by auto
  let ?S = "(used_codes LL_DEFAULT_NORM, used_codes OF_DEFAULT_NORM, used_codes ML_DEFAULT_NORM)"
  have t: "enc_tables (ll_ct, of_ct, ml_ct) (table_cells ll_t, table_cells of_t, table_cells ml_t) ?S" using l f m by (simp add: enc_tables_def)
  have c: "ll_code 3 = 3" "ll_code 0 = 0" "off_code 4 = 2" "off_code 1 = 0" "off_code (Suc 0) = 0" "ml_code 2 = 2" "ml_code 7 = 7" by code_simp+
  have s: "\<forall>q \<in> set seqs_two. seq_codable ?S q" "(\<Sum>q\<leftarrow>seqs_two. seq_bits q) \<le> 2"
    by (simp_all add: seqs_two_def seq_codable_def seq_bits_def c used_codes_def LL_DEFAULT_NORM_def OF_DEFAULT_NORM_def ML_DEFAULT_NORM_def LL_BITS_def ML_BITS_def)
  have k: "seq_to_codes seqs_two [0, 0, 0, 0, 0, 0] = Inr ([3, 0], [2, 0], [2, 7])" by (simp add: seq_to_codes_def seqs_two_def c)
  have ne: "seqs_two \<noteq> []" by (simp add: seqs_two_def)
  from sequences_roundtrip [OF t l(2) f(2) m(2) ne s k, of True "[]"] obtain src where
    r: "encode_sequences True [] ll_ct of_ct ml_ct [3, 0] [2, 0] [2, 7] seqs_two 2 = Inr ([] @ src, length src)"
    "spec_block exec_trace src (ll_t, of_t, ml_t) (length seqs_two) 100 [1, 4, 8] ([], [])
        = (case exec_seqs exec_trace seqs_two [1, 4, 8] ([], []) of None \<Rightarrow> None
           | Some (hist', o', lits) \<Rightarrow> if 100 < length o' + length lits then None else Some (o' @ lits, map (\<lambda>h. h mod 2 ^ 32) hist'))" by blast
  have "exec_seqs exec_trace seqs_two [1, 4, 8] ([], []) = Some ([1, 1, 4], [3, 5, 1, 0, 10, 1], [])" by (simp add: seqs_two_def exec_trace_def rfc_offset_def)
  moreover have "length seqs_two = 2" by (simp add: seqs_two_def)
  ultimately have "spec_block exec_trace src (ll_t, of_t, ml_t) 2 100 [1, 4, 8] ([], []) = Some ([3, 5, 1, 0, 10, 1], [1, 1, 4])"
    using r(2) by simp
  then show ?thesis using r(1) l(1) f(1) m(1) by auto
qed

end
