(* ===== verification/Ncount_Roundtrip.thy ===== *)
theory Ncount_Roundtrip
  imports Ncount_Write
begin

text \<open>
  The decoder's reader of table descriptions (\<open>Fse_Header\<close>) reads what \<open>write_ncount\<close> wrote
  (\<open>Ncount_Write\<close>).  The reader's clamped 32-bit window is related to the bit position it stands for, a run
  of zeros and a count are shown to be read as written, and one induction follows writer and reader together.
\<close>

section \<open>The reader at a bit position\<close>

definition nc_at :: "u8 list \<Rightarrow> nc_state \<Rightarrow> nat \<Rightarrow> bool" where
  "nc_at src st p \<longleftrightarrow> nc_window src st \<and> 8 * nc_ip st + bit_count st = p"

lemma le_nat_piece: "le_nat (take k (drop i src)) = take_bit (8 * k) (drop_bit (8 * i) (le_nat src))"
proof -
  have "le_nat src = le_nat (take i src) + 256 ^ length (take i src) * le_nat (drop i src)" by (metis append_take_drop_id le_nat_append)
  then have d: "drop_bit (8 * i) (le_nat src) = le_nat (drop i src)"
  proof (cases "i \<le> length src")
    case True
    then have "le_nat (take i src) < 2 ^ (8 * i)" using le_nat_bound [of "take i src"] by (simp add: power_256 min_absorb2)
    moreover have "le_nat src = le_nat (take i src) + 2 ^ (8 * i) * le_nat (drop i src)"
      using True by (metis append_take_drop_id le_nat_append length_take min.absorb2 power_256)
    ultimately show ?thesis by (simp add: drop_bit_eq_div)
  next
    case False
    have "le_nat src < 2 ^ (8 * length src)" using le_nat_bound [of src] by (simp add: power_256)
    also have "\<dots> \<le> 2 ^ (8 * i)" using False by (intro power_increasing) auto
    finally show ?thesis using False by (simp add: drop_bit_eq_div)
  qed
  have t: "le_nat (take k ys) = take_bit (8 * k) (le_nat ys)" for ys :: "u8 list"
  proof (cases "k \<le> length ys")
    case True
    then have "le_nat (take k ys) < 2 ^ (8 * k)" using le_nat_bound [of "take k ys"] by (simp add: power_256 min_absorb2)
    moreover have "le_nat ys = le_nat (take k ys) + 2 ^ (8 * k) * le_nat (drop k ys)"
      using True by (metis append_take_drop_id le_nat_append length_take min.absorb2 power_256)
    ultimately show ?thesis by (simp add: take_bit_eq_mod)
  next
    case False
    have "le_nat ys < 2 ^ (8 * length ys)" using le_nat_bound [of ys] by (simp add: power_256)
    also have "\<dots> \<le> 2 ^ (8 * k)" using False by (intro power_increasing) auto
    finally show ?thesis using False by (simp add: take_bit_nat_eq_self)
  qed
  show ?thesis unfolding t d by (rule refl)
qed

text \<open>The window shows at least 25 bits from the position on, or all that are left.\<close>

lemma nc_at_bits:
  assumes at: "nc_at src st p" and n: "n \<le> 25" and l: "8 \<le> length src"
  shows "take_bit n (unat (nc_bits st)) = take_bit n (drop_bit p (le_nat src))"
proof -
  let ?N = "le_nat src" and ?i = "nc_ip st" and ?b = "bit_count st"
  have w: "?i + 4 \<le> length src" "?b \<le> 31" "?b \<le> 7 \<or> ?i = length src - 4" "8 * ?i + ?b = p"
    and bs: "nc_bits st = drop_bit ?b (word_of_nat (le_nat (take 4 (drop ?i src))))" using at by (auto simp: nc_at_def nc_window_def)
  have lt: "le_nat (take 4 (drop ?i src)) < 2 ^ 32" using le_nat_bound [of "take 4 (drop ?i src)"] w(1) by (simp add: min_absorb2)
  have "unat (nc_bits st) = drop_bit ?b (le_nat (take 4 (drop ?i src)))"
    unfolding bs using lt by (simp add: unsigned_drop_bit_eq unat_of_nat take_bit_nat_eq_self)
  also have "\<dots> = take_bit (32 - ?b) (drop_bit p ?N)"
    unfolding le_nat_piece using w(4) by (simp add: drop_bit_take_bit add.commute)
  finally have u: "unat (nc_bits st) = take_bit (32 - ?b) (drop_bit p ?N)" .
  show ?thesis
  proof (cases "?b \<le> 7")
    case True
    then have "n \<le> 32 - ?b" using n by simp
    then show ?thesis by (simp add: u)
  next
    case False
    then have "8 * length src = p + (32 - ?b)" using w by simp
    then have "?N < 2 ^ (p + (32 - ?b))" using le_nat_bound [of src] by (simp add: power_256)
    then have "drop_bit p ?N < 2 ^ (32 - ?b)" by (simp add: drop_bit_eq_div power_add less_mult_imp_div_less mult.commute)
    then show ?thesis by (simp add: u take_bit_nat_eq_self)
  qed
qed

lemma nc_reload_at:
  assumes i: "nc_ip st + 4 \<le> length src" and p: "8 * nc_ip st + bit_count st = p" "p < 8 * length src" and l: "8 \<le> length src"
    and b: "bit_count st \<le> 31 \<or> nc_ip st = length src - 4"
  shows "\<exists>ip bc bs. nc_reload src st = Inr (st\<lparr>nc_ip := ip, bit_count := bc, nc_bits := bs\<rparr>)
    \<and> nc_at src (st\<lparr>nc_ip := ip, bit_count := bc, nc_bits := bs\<rparr>) p"
proof -
  obtain ip bc where a: "advance (length src) (nc_ip st) (bit_count st) = (ip, bc)" by fastforce
  have ok: "ip + 4 \<le> length src \<and> bc \<le> 31 \<and> (bc \<le> 7 \<or> ip = length src - 4)" by (rule advance_ok [OF l i b a])
  have pos: "8 * ip + bc = p"
  proof (cases "nc_ip st + 7 \<le> length src \<or> nc_ip st + bit_count st div 8 + 4 \<le> length src")
    case True
    then have "ip = nc_ip st + bit_count st div 8" "bc = bit_count st mod 8" using a by (auto simp: advance_def and_7)
    then show ?thesis using p(1) by simp
  next
    case False
    have e: "int (bit_count st) - 8 * int (length src - 4 - nc_ip st) = int (p - 8 * (length src - 4))"
      and lt: "p - 8 * (length src - 4) < 32" and ge: "8 * (length src - 4) \<le> p" using False p i l by auto
    have "nat ((int (bit_count st) - 8 * int (length src - 4 - nc_ip st)) mod 2 ^ 32) AND 31 = p - 8 * (length src - 4)"
      unfolding e and_31 using lt by simp
    then show ?thesis using a False ge by (auto simp: advance_def)
  qed
  let ?bs = "drop_bit bc (word_of_nat (le_nat (take 4 (drop ip src)))) :: u32"
  have "nc_reload src st = Inr (st\<lparr>nc_ip := ip, bit_count := bc, nc_bits := ?bs\<rparr>)"
    using a ok by (simp add: nc_reload_def read32_ok shr32_def)
  moreover have "nc_at src (st\<lparr>nc_ip := ip, bit_count := bc, nc_bits := ?bs\<rparr>) p"
    using ok pos by (simp add: nc_at_def nc_window_def)
  ultimately show ?thesis by blast
qed

section \<open>Runs of zeros\<close>

lemma takeWhile_upt_length:
  assumes "\<forall>i < n. P i" and "n \<le> m" and "n < m \<Longrightarrow> \<not> P n"
  shows "length (takeWhile P [0..<m]) = n"
proof -
  have u: "[0..<m] = [0..<n] @ [n..<m]" using assms(2) upt_add_eq_append [of 0 n "m - n"] by simp
  have "takeWhile P [0..<m] = [0..<n] @ takeWhile P [n..<m]" unfolding u using assms(1) by (subst takeWhile_append2) auto
  moreover have "takeWhile P [n..<m] = []" using assms(3) by (cases "n < m") (auto simp: upt_conv_Cons)
  ultimately show ?thesis by simp
qed

lemma takeWhile_upt_ge:
  assumes "\<forall>i < n. P i" and "n \<le> m"
  shows "n \<le> length (takeWhile P [0..<m])"
proof -
  have u: "[0..<m] = [0..<n] @ [n..<m]" using assms(2) upt_add_eq_append [of 0 n "m - n"] by simp
  have "takeWhile P [0..<m] = [0..<n] @ takeWhile P [n..<m]" unfolding u using assms(1) by (subst takeWhile_append2) auto
  then show ?thesis by simp
qed

lemma repeat_codes_ones: "repeat_codes bs = length (takeWhile (\<lambda>i. bit bs i \<and> i \<noteq> 31) [0..<32]) div 2"
proof -
  have "bit (0x80000000 :: u32) i \<longleftrightarrow> i = 31" for i
  proof -
    have "(0x80000000 :: u32) = 2 ^ 31" by simp
    then show ?thesis by (simp only: bit_exp_iff) auto
  qed
  then have iff: "(\<not> bit (NOT bs OR 0x80000000 :: u32) i) = (bit bs i \<and> i \<noteq> 31)" if "i < 32" for i
    using that by (auto simp: bit_or_iff bit_not_iff)
  have "takeWhile (\<lambda>i. \<not> bit (NOT bs OR 0x80000000 :: u32) i) [0..<32] = takeWhile (\<lambda>i. bit bs i \<and> i \<noteq> 31) [0..<32]"
    by (rule takeWhile_cong [OF refl]) (rule iff, simp)
  then show ?thesis by (simp add: repeat_codes_def trailing_zeros32_def)
qed

lemma bit_of_take: "take_bit n (unat bs) = x \<Longrightarrow> i < n \<Longrightarrow> bit bs i = bit x i"
  for bs :: u32
  by (auto simp: bit_take_bit_iff bit_unsigned_iff)

text \<open>\<open>2q\<close> ones and two bits that are not both one.\<close>

lemma run_bits:
  assumes "v < 3"
  shows "i < 2 * q \<Longrightarrow> bit ((4 ^ q - 1) + 4 ^ q * v :: nat) i" "\<not> (bit ((4 ^ q - 1) + 4 ^ q * v) (2 * q) \<and> bit ((4 ^ q - 1) + 4 ^ q * v) (Suc (2 * q)))"
proof -
  have p: "(4::nat) ^ q = 2 ^ (2 * q)" by (simp add: power_mult)
  let ?x = "(2 ^ (2 * q) - 1) + 2 ^ (2 * q) * v :: nat"
  obtain y :: nat where y: "2 ^ (2 * q) = Suc y" by (metis not0_implies_Suc power_not_zero zero_neq_numeral)
  have "?x mod 2 ^ (2 * q) = y" "?x div 2 ^ (2 * q) = v" unfolding y using mod_mult_self2 [of y "Suc y" v] div_mult_self2 [of "Suc y" y v] by (simp_all del: mult_Suc)
  then have t: "take_bit (2 * q) ?x = mask (2 * q)" and d: "drop_bit (2 * q) ?x = v"
    using y by (simp_all add: take_bit_eq_mod drop_bit_eq_div mask_eq_exp_minus_1)
  show "i < 2 * q \<Longrightarrow> bit ((4 ^ q - 1) + 4 ^ q * v :: nat) i" unfolding p using t by (metis bit_mask_iff bit_take_bit_iff possible_bit_nat)
  have "bit (drop_bit (2 * q) ?x) n = bit ?x (2 * q + n)" for n by (simp only: bit_drop_bit_eq comp_def)
  from this [of 0] this [of 1] have "bit ?x (2 * q) = bit v 0" "bit ?x (Suc (2 * q)) = bit v 1" unfolding d by simp_all
  moreover have "\<not> (bit v 0 \<and> bit v 1)" using assms by (auto simp: less_Suc_eq numeral_3_eq_3 bit_0 bit_Suc numeral_2_eq_2)
  ultimately show "\<not> (bit ((4 ^ q - 1) + 4 ^ q * v) (2 * q) \<and> bit ((4 ^ q - 1) + 4 ^ q * v) (Suc (2 * q)))" unfolding p by blast
qed

lemma repeat_codes_run:
  assumes "q < 12" and "v < 3" and "take_bit (2 * q + 2) (unat bs) = (4 ^ q - 1) + 4 ^ q * v"
  shows "repeat_codes bs = q"
proof -
  let ?P = "\<lambda>i. bit bs i \<and> i \<noteq> 31"
  note b = bit_of_take [OF assms(3)] and r = run_bits(1) [OF assms(2), where q = q] run_bits(2) [OF assms(2), where q = q]
  have lo: "\<forall>i < 2 * q. ?P i" using b r(1) assms(1) by auto
  show ?thesis
  proof (cases "bit bs (2 * q)")
    case False
    then have "length (takeWhile ?P [0..<32]) = 2 * q" using lo assms(1) by (intro takeWhile_upt_length) auto
    then show ?thesis by (simp add: repeat_codes_ones)
  next
    case True
    then have "\<not> bit bs (Suc (2 * q))" using b r(2) by simp
    moreover have "\<forall>i < Suc (2 * q). ?P i" using lo True assms(1) by (auto simp: less_Suc_eq)
    ultimately have "length (takeWhile ?P [0..<32]) = Suc (2 * q)" using assms(1) by (intro takeWhile_upt_length) auto
    then show ?thesis by (simp add: repeat_codes_ones)
  qed
qed

lemma repeat_codes_many:
  assumes "take_bit 24 (unat bs) = 2 ^ 24 - 1"
  shows "12 \<le> repeat_codes bs"
proof -
  let ?P = "\<lambda>i. bit bs i \<and> i \<noteq> 31"
  have "take_bit 24 (unat bs) = mask 24" unfolding assms by (simp add: mask_eq_exp_minus_1)
  then have "\<forall>i < 24. ?P i" using bit_of_take [of 24 bs "mask 24"] by (auto simp: bit_mask_iff)
  then have "24 \<le> length (takeWhile ?P [0..<32])" by (rule takeWhile_upt_ge) simp
  then show ?thesis unfolding repeat_codes_ones by linarith
qed

text \<open>The stream has \<open>2q\<close> ones and the two bits of \<open>v\<close> at \<open>p\<close>, with more bits after them.\<close>

definition run_at :: "u8 list \<Rightarrow> nat \<Rightarrow> nat \<Rightarrow> nat \<Rightarrow> bool" where
  "run_at src p q v \<longleftrightarrow> v < 3 \<and> p + 2 * q + 2 < 8 * length src \<and> take_bit (2 * q + 2) (drop_bit p (le_nat src)) = (4 ^ q - 1) + 4 ^ q * v"

lemma run_at_24:
  assumes "run_at src p q v" and "12 \<le> q"
  shows "take_bit 24 (drop_bit p (le_nat src)) = 2 ^ 24 - 1" "run_at src (p + 24) (q - 12) v"
proof -
  let ?D = "drop_bit p (le_nat src)" and ?x = "(4 ^ q - 1) + 4 ^ q * v :: nat"
  obtain r where r: "q = 12 + r" using assms(2) le_Suc_ex by blast
  obtain y :: nat where y: "4 ^ r = Suc y" by (metis not0_implies_Suc power_not_zero zero_neq_numeral)
  have "(4::nat) ^ q = 2 ^ 24 * Suc y" using y by (simp add: r power_add)
  then have x: "?x = (2 ^ 24 - 1) + 2 ^ 24 * (y + Suc y * v)" by (simp add: algebra_simps)
  have e: "take_bit (2 * q + 2) ?D = ?x" using assms(1) by (simp add: run_at_def)
  have "take_bit 24 ?D = take_bit 24 (take_bit (2 * q + 2) ?D)" using r by simp
  also have "\<dots> = 2 ^ 24 - 1" unfolding e unfolding x take_bit_eq_mod mod_mult_self2 by simp
  finally show "take_bit 24 ?D = 2 ^ 24 - 1" .
  have "take_bit (2 * r + 2) (drop_bit 24 ?D) = drop_bit 24 (take_bit (2 * q + 2) ?D)" by (simp add: drop_bit_take_bit r)
  also have "\<dots> = y + Suc y * v"
    unfolding e unfolding x drop_bit_eq_div using div_mult_self2 [of "2 ^ 24" "2 ^ 24 - 1 :: nat" "y + Suc y * v"] by simp
  finally show "run_at src (p + 24) (q - 12) v" using assms(1) y by (simp add: run_at_def r add.commute)
qed

lemma nc_repeats_run:
  assumes l: "8 \<le> length src"
  shows "nc_at src st p \<Longrightarrow> run_at src p q v \<Longrightarrow> q div 12 \<le> fuel \<Longrightarrow>
    \<exists>ip bc bs. nc_repeats fuel src st = Inr (st\<lparr>charnum := charnum st + 36 * (q div 12), nc_ip := ip, bit_count := bc, nc_bits := bs\<rparr>)
      \<and> nc_at src (st\<lparr>charnum := charnum st + 36 * (q div 12), nc_ip := ip, bit_count := bc, nc_bits := bs\<rparr>) (p + 24 * (q div 12))
      \<and> repeat_codes bs = q mod 12 \<and> run_at src (p + 24 * (q div 12)) (q mod 12) v"
proof (induction "q div 12" arbitrary: q p st fuel)
  case 0
  then have q: "q < 12" "q mod 12 = q" by (auto simp: div_eq_0_iff)
  have "take_bit (2 * q + 2) (unat (nc_bits st)) = (4 ^ q - 1) + 4 ^ q * v"
    using nc_at_bits [OF 0(2) _ l, of "2 * q + 2"] 0(3) q(1) by (simp add: run_at_def)
  then have "repeat_codes (nc_bits st) = q" using 0(3) q(1) by (intro repeat_codes_run) (auto simp: run_at_def)
  then show ?case using 0 q by (intro exI [of _ "nc_ip st"] exI [of _ "bit_count st"] exI [of _ "nc_bits st"]) (simp add: nc_repeats.simps)
next
  case (Suc k)
  have q: "12 \<le> q" and k: "k = (q - 12) div 12" using Suc.hyps(2) by (auto simp: le_div_geq div_eq_0_iff)
  note r24 = run_at_24 [OF Suc.prems(2) q]
  have many: "\<not> repeat_codes (nc_bits st) < 12"
    using repeat_codes_many [of "nc_bits st"] nc_at_bits [OF Suc.prems(1) _ l, of 24] r24(1) by simp
  let ?i = "nc_ip st" and ?b = "bit_count st" and ?n = "length src"
  have w: "?i + 4 \<le> ?n" "?b \<le> 31" "?b \<le> 7 \<or> ?i = ?n - 4" "8 * ?i + ?b = p" using Suc.prems(1) by (auto simp: nc_at_def nc_window_def)
  have pn: "p + 24 < 8 * ?n" using r24(2) by (simp add: run_at_def)
  define ip where "ip = (if ?i + 7 \<le> ?n then ?i + 3 else ?n - 4)"
  define bc where "bc = (if ?i + 7 \<le> ?n then ?b else p + 24 - 8 * (?n - 4))"
  have eq: "(if ?i + 7 \<le> ?n then (?i + 3, ?b)
        else let back = 8 * (int ?n - 7 - int ?i) in (?n - 4, nat ((int ?b - back) mod 2 ^ 32) AND 31)) = (ip, bc)"
  proof (cases "?i + 7 \<le> ?n")
    case False
    then have e: "int ?b - 8 * (int ?n - 7 - int ?i) = int (p + 24 - 8 * (?n - 4))" and lt: "p + 24 - 8 * (?n - 4) < 32"
      using w pn l by auto
    show ?thesis unfolding Let_def e and_31 ip_def bc_def using False lt by simp
  qed (simp add: ip_def bc_def)
  have pos: "8 * ip + bc = p + 24" and ipn: "ip + 4 \<le> ?n" and bcn: "bc \<le> 31" and near: "bc \<le> 7 \<or> ip = ?n - 4"
    using w pn l by (auto simp: ip_def bc_def)
  let ?bs = "drop_bit bc (word_of_nat (le_nat (take 4 (drop ip src)))) :: u32"
  define st1 where "st1 = st\<lparr>charnum := charnum st + 3 * 12, nc_ip := ip, bit_count := bc, nc_bits := ?bs\<rparr>"
  have at1: "nc_at src st1 (p + 24)" using ipn bcn near pos by (simp add: nc_at_def nc_window_def st1_def)
  obtain f where f: "fuel = Suc f" using Suc.prems(3) Suc.hyps(2) by (cases fuel) auto
  have step: "nc_repeats fuel src st = nc_repeats f src st1"
    unfolding f using many eq ipn bcn by (subst nc_repeats.simps) (simp add: read32_ok shr32_def st1_def Let_def)
  have d: "q div 12 = Suc ((q - 12) div 12)" "q mod 12 = (q - 12) mod 12" using Suc.hyps(2) k q by (simp_all add: le_mod_geq)
  have "(q - 12) div 12 \<le> f" using Suc.prems(3) f d(1) by simp
  from Suc.hyps(1) [OF k at1 r24(2) this] obtain ip2 bc2 bs2 where
    "nc_repeats f src st1 = Inr (st1\<lparr>charnum := charnum st1 + 36 * ((q - 12) div 12), nc_ip := ip2, bit_count := bc2, nc_bits := bs2\<rparr>)"
    "nc_at src (st1\<lparr>charnum := charnum st1 + 36 * ((q - 12) div 12), nc_ip := ip2, bit_count := bc2, nc_bits := bs2\<rparr>) (p + 24 + 24 * ((q - 12) div 12))"
    "repeat_codes bs2 = (q - 12) mod 12" "run_at src (p + 24 + 24 * ((q - 12) div 12)) ((q - 12) mod 12) v" by blast
  then show ?case unfolding step d by (intro exI [of _ ip2] exI [of _ bc2] exI [of _ bs2]) (simp add: st1_def add.assoc)
qed

lemma nc_zero_run_reads:
  assumes l: "8 \<le> length src" and at: "nc_at src st p" and pr: "previous0 st" and r: "run_at src p (r div 3) (r mod 3)" and m: "charnum st + r < m"
  shows "\<exists>ip bc bs. nc_zero_run src m st = Inr (False, st\<lparr>charnum := charnum st + r, nc_ip := ip, bit_count := bc, nc_bits := bs\<rparr>)
    \<and> nc_at src (st\<lparr>charnum := charnum st + r, nc_ip := ip, bit_count := bc, nc_bits := bs\<rparr>) (p + 2 * (r div 3) + 2)"
proof -
  let ?q = "r div 3" let ?j = "?q mod 12" and ?d = "?q div 12" and ?v = "r mod 3"
  have "?q \<le> 8 * length src" using r by (simp add: run_at_def)
  then have "?d \<le> length src + 8" by linarith
  from nc_repeats_run [OF l at r this] obtain ip bc bs where
    1: "nc_repeats (length src + 8) src st = Inr (st\<lparr>charnum := charnum st + 36 * ?d, nc_ip := ip, bit_count := bc, nc_bits := bs\<rparr>)"
    "nc_at src (st\<lparr>charnum := charnum st + 36 * ?d, nc_ip := ip, bit_count := bc, nc_bits := bs\<rparr>) (p + 24 * ?d)"
    "repeat_codes bs = ?j" "run_at src (p + 24 * ?d) ?j ?v" by blast
  have j: "?j < 12" "12 * ?d + ?j = ?q" by simp_all
  have "take_bit (2 * ?j + 2) (unat bs) = (4 ^ ?j - 1) + 4 ^ ?j * ?v"
    using nc_at_bits [OF 1(2) _ l, of "2 * ?j + 2"] 1(4) j by (simp add: run_at_def)
  then have "drop_bit (2 * ?j) (take_bit (2 * ?j + 2) (unat bs)) = drop_bit (2 * ?j) ((4 ^ ?j - 1) + 4 ^ ?j * ?v)" by (rule arg_cong)
  moreover have "drop_bit (2 * ?j) ((4 ^ ?j - 1) + 4 ^ ?j * ?v) = ?v"
    using div_mult_self2 [of "4 ^ ?j" "4 ^ ?j - 1 :: nat" ?v] by (simp add: drop_bit_eq_div power_mult)
  ultimately have "take_bit 2 (drop_bit (2 * ?j) (unat bs)) = ?v" by (simp add: drop_bit_take_bit)
  then have v: "unat (drop_bit (2 * ?j) bs AND 3) = ?v"
    using unat_and_mask [of 2 "drop_bit (2 * ?j) bs"] by (simp add: unsigned_drop_bit_eq take_bit_drop_bit)
  define st1 where "st1 = st\<lparr>nc_ip := ip, nc_bits := drop_bit (2 * ?j) bs, charnum := charnum st + r, bit_count := bc + 2 * ?j + 2\<rparr>"
  have cn: "charnum st + 36 * ?d + 3 * ?j + ?v = charnum st + r" using j(2) mult_div_mod_eq [of 3 r] by linarith
  have z: "nc_zero_run src m st = res_bind (nc_reload src st1) (\<lambda>st. Inr (False, st))"
    using pr 1(1,3) v m by (simp add: nc_zero_run_def Let_def st1_def cn)
  have w: "ip + 4 \<le> length src" "bc \<le> 7 \<or> ip = length src - 4" "8 * ip + bc = p + 24 * ?d" using 1(2) by (auto simp: nc_at_def nc_window_def)
  have pos: "8 * ip + (bc + 2 * ?j + 2) = p + 2 * ?q + 2" "p + 2 * ?q + 2 < 8 * length src" using w(3) j(2) r [unfolded run_at_def] by linarith+
  have b31: "bc + 2 * ?j + 2 \<le> 31 \<or> ip = length src - 4" using w(2) j(1) by linarith
  obtain ip2 bc2 bs2 where "nc_reload src st1 = Inr (st1\<lparr>nc_ip := ip2, bit_count := bc2, nc_bits := bs2\<rparr>)"
    "nc_at src (st1\<lparr>nc_ip := ip2, bit_count := bc2, nc_bits := bs2\<rparr>) (p + 2 * ?q + 2)"
    using nc_reload_at [of st1 src "p + 2 * ?q + 2"] w(1) pos l b31 by (auto simp: st1_def)
  with z show ?thesis by (intro exI [of _ ip2] exI [of _ bc2] exI [of _ bs2]) (simp add: st1_def)
qed

section \<open>Counts\<close>

lemma in_range_unique: "in_range j a \<Longrightarrow> in_range k a \<Longrightarrow> j = k"
proof -
  assume a: "in_range j a" "in_range k a"
  have *: False if "in_range j a" "in_range k a" "j < k" for j k
  proof -
    have "(2::int) ^ Suc j \<le> 2 ^ k" using that(3) by (intro power_increasing) auto
    with that(1,2) show False by (simp add: in_range_def)
  qed
  show "j = k" using * [OF a] * [OF a(2,1)] by (metis linorder_neqE_nat)
qed

lemma in_range_bit_length: "in_range k a \<Longrightarrow> bit_length (nat a) = Suc k"
  by (rule bit_length_eqI) (auto simp: in_range_def le_nat_iff nat_less_iff)

lemma nc_value_reads:
  assumes l: "8 \<le> length src" and at: "nc_at src st p" and t: "threshold st = 2 ^ k" "nb_bits st = Suc k" "k \<le> 12"
    and r: "in_range k rem" "2 \<le> rem" "remaining st = rem" and c: "-1 \<le> c" "\<bar>c\<bar> < rem"
    and f: "take_bit (count_width k rem c) (drop_bit p (le_nat src)) = nat (count_value k rem c)"
  shows "nc_value st = (c + 1, count_width k rem c)"
proof -
  let ?v = "count_value k rem c" and ?mx = "2 * 2 ^ k - 1 - rem :: int"
  note b = count_value_bounds [OF r(1,2) c]
  have k2: "2 * threshold st = 2 ^ Suc k" using t by simp
  have lowb: "int (unat (nc_bits st AND (word_of_int (threshold st) - 1))) = int (take_bit k (unat (nc_bits st)))"
    "int (unat (nc_bits st AND (word_of_int (2 * threshold st) - 1))) = int (take_bit (Suc k) (unat (nc_bits st)))"
    unfolding k2 unfolding t(1) using t(3) unat_and_mask [of k] unat_and_mask [of "Suc k"] by simp_all
  note bits = nc_at_bits [OF at _ l]
  have mx: "?mx < 2 ^ k" using r(1) by (simp add: in_range_def)
  show ?thesis
  proof (cases "?v < ?mx")
    case True
    then have w: "count_width k rem c = k" by (simp add: count_width_def)
    have "int (take_bit k (unat (nc_bits st))) = ?v" using f b(1) bits [of k] t(3) by (simp add: w)
    moreover have "?v = c + 1" using True c by (auto simp: count_value_def split: if_splits)
    ultimately show ?thesis using True unfolding nc_value_def Let_def lowb unfolding t r(3) w by simp
  next
    case False
    then have w: "count_width k rem c = Suc k" by (simp add: count_width_def)
    have hi: "int (take_bit (Suc k) (unat (nc_bits st))) = ?v" using f b(1) bits [of "Suc k"] t(3) by (simp add: w)
    have "take_bit k (unat (nc_bits st)) = take_bit k (take_bit (Suc k) (unat (nc_bits st)))" by simp
    then have lo: "int (take_bit k (unat (nc_bits st))) = ?v mod 2 ^ k" using hi by (simp add: take_bit_eq_mod zmod_int)
    have "\<not> ?v mod 2 ^ k < ?mx"
    proof (cases "2 ^ k \<le> c + 1")
      case True
      then have "?v = 2 ^ k + (c + 1 + ?mx - 2 ^ k)" by (simp add: count_value_def)
      moreover have "0 \<le> c + 1 + ?mx - 2 ^ k" "c + 1 + ?mx - 2 ^ k < 2 ^ k" using True c mx r(1) by (auto simp: in_range_def)
      ultimately have "?v mod 2 ^ k = c + 1 + ?mx - 2 ^ k" by (metis mod_add_self1 mod_pos_pos_trivial)
      then show ?thesis using True by simp
    next
      case F: False
      then have "?v mod 2 ^ k = ?v" using b(1) by (simp add: count_value_def)
      then show ?thesis using False by simp
    qed
    then show ?thesis using False r(1) [unfolded in_range_def] unfolding nc_value_def Let_def lowb hi lo unfolding t r(3) w
      by (auto simp: count_value_def)
  qed
qed

text \<open>The reader after a count: at the next position, with the next threshold, or done.\<close>

definition nc_ready :: "nat \<Rightarrow> nat \<Rightarrow> int \<Rightarrow> nc_state \<Rightarrow> bool" where
  "nc_ready k s rem st \<longleftrightarrow> charnum st = s \<and> remaining st = rem \<and> threshold st = 2 ^ k \<and> nb_bits st = Suc k \<and> in_range k rem"

lemma nc_count_reads:
  assumes l: "8 \<le> length src" and at: "nc_at src st p" and t: "nc_ready k s rem st" "k \<le> 12" "2 \<le> rem"
    and c: "-1 \<le> c" "\<bar>c\<bar> < rem"
    and f: "take_bit (count_width k rem c) (drop_bit p (le_nat src)) = nat (count_value k rem c)"
    and m: "length (counts st) = m" "s < m" and e: "p + count_width k rem c \<le> 8 * length src"
  shows "rem - \<bar>c\<bar> = 1 \<Longrightarrow> \<exists>st'. nc_count src m st = Inr (True, st') \<and> remaining st' = 1 \<and> charnum st' = Suc s \<and> counts st' = (counts st)[s := c]
      \<and> 8 * nc_ip st' + bit_count st' = p + count_width k rem c \<and> nc_ip st' + 4 \<le> length src \<and> bit_count st' \<le> 32"
    "2 \<le> rem - \<bar>c\<bar> \<Longrightarrow> Suc s < m \<Longrightarrow> p + count_width k rem c < 8 * length src \<Longrightarrow> in_range k' (rem - \<bar>c\<bar>) \<Longrightarrow>
      \<exists>st'. nc_count src m st = Inr (False, st') \<and> nc_ready k' (Suc s) (rem - \<bar>c\<bar>) st' \<and> counts st' = (counts st)[s := c]
      \<and> previous0 st' = (c = 0) \<and> nc_at src st' (p + count_width k rem c)"
proof -
  let ?w = "count_width k rem c" and ?rem = "rem - \<bar>c\<bar>"
  have st: "charnum st = s" "remaining st = rem" "threshold st = 2 ^ k" "nb_bits st = Suc k" and ir: "in_range k rem"
    using t(1) by (auto simp: nc_ready_def)
  note v = nc_value_reads [OF l at st(3,4) t(2) ir t(3) st(2) c f]
  have w: "nc_ip st + 4 \<le> length src" "bit_count st \<le> 31" "bit_count st \<le> 7 \<or> nc_ip st = length src - 4" "8 * nc_ip st + bit_count st = p"
    using at by (auto simp: nc_at_def nc_window_def)
  have w13: "?w \<le> 13" using t(2) by (simp add: count_width_def)
  have rm: "(if 0 \<le> c + 1 - 1 then rem - (c + 1 - 1) else rem + (c + 1 - 1)) = ?rem" by simp
  define st1 where "st1 = st\<lparr>bit_count := bit_count st + ?w, remaining := ?rem, counts := (counts st)[s := c], charnum := s + 1, previous0 := (c = 0)\<rparr>"
  have nc: "nc_count src m st = (if ?rem < 2 ^ k \<and> ?rem \<le> 1 then Inr (True, st1)
      else res_bind (if ?rem < 2 ^ k then res_bind (highest_bit_set (nat (?rem mod 2 ^ 32))) (\<lambda>nb. Inr (st1\<lparr>nb_bits := nb, threshold := 2 ^ (nb - 1)\<rparr>)) else Inr st1)
        (\<lambda>st. if m \<le> charnum st then Inr (True, st) else res_bind (nc_reload src st) (\<lambda>st. Inr (False, st))))"
    unfolding nc_count_def v Let_def prod.case st rm using m by (simp add: st1_def st)
  have k0: "(2::int) \<le> 2 ^ k"
  proof -
    have "k \<noteq> 0" using ir t(3) by (cases k) (auto simp: in_range_def)
    then show ?thesis using power_increasing [of 1 k "2::int"] by simp
  qed
  show "\<exists>st'. nc_count src m st = Inr (True, st') \<and> remaining st' = 1 \<and> charnum st' = Suc s \<and> counts st' = (counts st)[s := c]
      \<and> 8 * nc_ip st' + bit_count st' = p + ?w \<and> nc_ip st' + 4 \<le> length src \<and> bit_count st' \<le> 32" if r1: "?rem = 1"
    using k0 r1 w w13 e by (intro exI [of _ st1]) (auto simp: nc st1_def)
  assume r2: "2 \<le> ?rem" and sm: "Suc s < m" and e2: "p + ?w < 8 * length src" and ir': "in_range k' ?rem"
  let ?st2 = "st1\<lparr>nb_bits := Suc k', threshold := 2 ^ k'\<rparr>"
  have sh: "(if ?rem < 2 ^ k then res_bind (highest_bit_set (nat (?rem mod 2 ^ 32))) (\<lambda>nb. Inr (st1\<lparr>nb_bits := nb, threshold := 2 ^ (nb - 1)\<rparr>)) else Inr st1) = Inr ?st2"
  proof (cases "?rem < 2 ^ k")
    case True
    have "(2::int) ^ k \<le> 2 ^ 12" using t(2) by (intro power_increasing) auto
    then have "?rem mod 2 ^ 32 = ?rem" using True r2 by simp
    then show ?thesis using True in_range_bit_length [OF ir'] r2 by (simp add: highest_bit_set_def)
  next
    case False
    then have "in_range k ?rem" using ir by (auto simp: in_range_def)
    then have "k' = k" using in_range_unique ir' by blast
    then show ?thesis using False st by (simp add: st1_def)
  qed
  have nst: "(?rem < 2 ^ k \<and> ?rem \<le> 1) = False" using r2 by simp
  have z: "nc_count src m st = res_bind (nc_reload src ?st2) (\<lambda>st. Inr (False, st))"
    unfolding nc sh nst if_False res_bind_simps using sm by (simp add: st1_def)
  obtain ip bc bs where "nc_reload src ?st2 = Inr (?st2\<lparr>nc_ip := ip, bit_count := bc, nc_bits := bs\<rparr>)"
    "nc_at src (?st2\<lparr>nc_ip := ip, bit_count := bc, nc_bits := bs\<rparr>) (p + ?w)"
    using nc_reload_at [of ?st2 src "p + ?w"] w w13 e2 l by (auto simp: st1_def)
  with z ir' show "\<exists>st'. nc_count src m st = Inr (False, st') \<and> nc_ready k' (Suc s) ?rem st' \<and> counts st' = (counts st)[s := c]
      \<and> previous0 st' = (c = 0) \<and> nc_at src st' (p + ?w)" by (auto simp: nc_ready_def st1_def)
qed

section \<open>Writer and reader together\<close>

lemma field_of:
  fixes N W v :: nat
  assumes "take_bit (T + w) N = W + 2 ^ T * v" and "W < 2 ^ T"
  shows "take_bit w (drop_bit T N) = v" "take_bit T N = W"
proof -
  have "take_bit w (drop_bit T N) = drop_bit T (take_bit (T + w) N)" by (simp add: drop_bit_take_bit)
  also have "\<dots> = v" unfolding assms(1) using assms(2) by (simp add: drop_bit_eq_div)
  finally show "take_bit w (drop_bit T N) = v" .
  have "take_bit T N = take_bit T (take_bit (T + w) N)" by simp
  also have "\<dots> = W" unfolding assms(1) using assms(2) by (simp add: take_bit_eq_mod)
  finally show "take_bit T N = W" .
qed

lemma take_bit_push: "W < 2 ^ T \<Longrightarrow> take_bit T (W + 2 ^ T * v) = (W::nat)"
  by (simp add: take_bit_eq_mod)

lemma zero_step:
  assumes h: "nw_holds start st W T" and r: "nw_ready k s rem st" and a: "alphabet \<le> length norm"
    and s': "s \<le> s'" "s' < alphabet" "if nw_prev0 st then norm ! s' \<noteq> 0 \<and> (\<forall>i. s \<le> i \<and> i < s' \<longrightarrow> norm ! i = 0) else s' = s"
  shows "\<exists>st1 W1 T1. nw_zero_run norm alphabet st = Inr (False, st1) \<and> nw_ready k s' rem st1 \<and> nw_holds start st1 W1 T1
    \<and> T \<le> T1 \<and> take_bit T W1 = W \<and>
    (\<forall>src m rst. 8 \<le> length src \<and> s' < m \<and> T1 < 8 * length src \<and> take_bit T1 (le_nat src) = W1 \<and> nc_at src rst T \<and> nc_ready k s rem rst
       \<and> previous0 rst = nw_prev0 st \<longrightarrow>
       (\<exists>rst1. nc_zero_run src m rst = Inr (False, rst1) \<and> nc_at src rst1 T1 \<and> nc_ready k s' rem rst1 \<and> counts rst1 = counts rst))"
proof (cases "nw_prev0 st")
  case False
  have "nw_zero_run norm alphabet st = Inr (False, st)" using False by (simp add: nw_zero_run_def)
  moreover have "take_bit T W = W" using nw_holds_bound [OF h] by (simp add: take_bit_nat_eq_self)
  moreover have "nc_zero_run src m rst = Inr (False, rst)" if "\<not> previous0 rst" for src m rst using that by (simp add: nc_zero_run_def)
  ultimately show ?thesis using False h r s' by (intro exI [of _ st] exI [of _ W] exI [of _ T]) auto
next
  case True
  let ?r = "s' - s" let ?T = "T + 2 * (?r div 3) + 2"
  have sy: "nw_symbol st = s" "nw_fill st \<le> 16" using r by (auto simp: nw_ready_def)
  have z: "nw_symbol st \<le> s'" "\<forall>i. nw_symbol st \<le> i \<and> i < s' \<longrightarrow> norm ! i = 0" "norm ! s' \<noteq> 0" using s' True sy by auto
  from nw_zero_run_writes [OF h sy(2) True z(1) s'(2) a z(2,3)] obtain st1 where
    1: "nw_zero_run norm alphabet st = Inr (False, st1)" "nw_same (st\<lparr>nw_symbol := s'\<rparr>) st1" "nw_fill st1 \<le> 16"
    "nw_holds start st1 (W + 2 ^ T * run_value ?r) ?T" unfolding sy by blast
  have b: "W < 2 ^ T" by (rule nw_holds_bound [OF h])
  have rd: "\<exists>rst1. nc_zero_run src m rst = Inr (False, rst1) \<and> nc_at src rst1 ?T \<and> nc_ready k s' rem rst1 \<and> counts rst1 = counts rst"
    if c: "8 \<le> length src" "s' < m" "?T < 8 * length src" "take_bit ?T (le_nat src) = W + 2 ^ T * run_value ?r" "nc_at src rst T"
      "nc_ready k s rem rst" "previous0 rst" for src m rst
  proof -
    have "take_bit (2 * (?r div 3) + 2) (drop_bit T (le_nat src)) = run_value ?r"
      by (rule field_of(1) [OF _ b]) (use c(4) in \<open>simp add: add.assoc\<close>)
    then have ra: "run_at src T (?r div 3) (?r mod 3)" using c(3) by (simp add: run_at_def run_value_def)
    have m: "charnum rst + ?r < m" using c(2,6) s'(1) by (simp add: nc_ready_def)
    from nc_zero_run_reads [OF c(1,5,7) ra m] obtain ip bc bs where
      2: "nc_zero_run src m rst = Inr (False, rst\<lparr>charnum := charnum rst + ?r, nc_ip := ip, bit_count := bc, nc_bits := bs\<rparr>)"
      "nc_at src (rst\<lparr>charnum := charnum rst + ?r, nc_ip := ip, bit_count := bc, nc_bits := bs\<rparr>) ?T" by blast
    then show ?thesis using c(6) s'(1) by (auto simp: nc_ready_def)
  qed
  have "nw_ready k s' rem st1" using 1(2,3) r by (simp add: nw_ready_def nw_same_def)
  then show ?thesis using 1(1,4) rd take_bit_push [OF b] True
    by (intro exI [of _ st1] exI [of _ "W + 2 ^ T * run_value ?r"] exI [of _ ?T]) auto
qed

text \<open>What the reader reaches from where the writer stands.\<close>

definition reads_rest :: "int list \<Rightarrow> nat \<Rightarrow> nat \<Rightarrow> int \<Rightarrow> bool \<Rightarrow> nat \<Rightarrow> nat \<Rightarrow> nat \<Rightarrow> bool" where
  "reads_rest cs k s rem prev0 T W' T' \<longleftrightarrow>
     (\<forall>src m rst. 8 \<le> length src \<and> length cs \<le> m \<and> T' \<le> 8 * length src \<and> take_bit T' (le_nat src) = W' \<and> nc_at src rst T
        \<and> nc_ready k s rem rst \<and> previous0 rst = prev0 \<and> length (counts rst) = m \<and> (\<forall>i. s \<le> i \<and> i < m \<longrightarrow> counts rst ! i = 0) \<longrightarrow>
        (\<exists>rst'. nc_loop src m rst = Inr rst' \<and> remaining rst' = 1 \<and> charnum rst' \<le> length cs \<and> length (counts rst') = m
           \<and> (\<forall>i < m. counts rst' ! i = (if i < s then counts rst ! i else if i < length cs then cs ! i else 0))
           \<and> (\<forall>i. charnum rst' \<le> i \<and> i < length cs \<longrightarrow> cs ! i = 0)
           \<and> 8 * nc_ip rst' + bit_count rst' = T' \<and> nc_ip rst' + 4 \<le> length src \<and> bit_count rst' \<le> 32))"

definition reads_run :: "nat \<Rightarrow> nat \<Rightarrow> nat \<Rightarrow> int \<Rightarrow> bool \<Rightarrow> nat \<Rightarrow> nat \<Rightarrow> nat \<Rightarrow> bool" where
  "reads_run k s s' rem prev0 T W1 T1 \<longleftrightarrow>
    (\<forall>src m rst. 8 \<le> length src \<and> s' < m \<and> T1 < 8 * length src \<and> take_bit T1 (le_nat src) = W1 \<and> nc_at src rst T \<and> nc_ready k s rem rst
       \<and> previous0 rst = prev0 \<longrightarrow>
       (\<exists>rst1. nc_zero_run src m rst = Inr (False, rst1) \<and> nc_at src rst1 T1 \<and> nc_ready k s' rem rst1 \<and> counts rst1 = counts rst))"

lemma reads_stop:
  assumes z: "reads_run k s s' rem prev0 T W1 T1" and b: "W1 < 2 ^ T1" and k: "k \<le> 12" "2 \<le> rem" "0 < k"
    and s': "s \<le> s'" "s' < length cs" "\<forall>i. s \<le> i \<and> i < s' \<longrightarrow> cs ! i = 0" and c: "-1 \<le> cs ! s'" "\<bar>cs ! s'\<bar> < rem"
    and fin: "rem - \<bar>cs ! s'\<bar> = 1" "\<forall>i. s' < i \<and> i < length cs \<longrightarrow> cs ! i = 0"
  shows "reads_rest cs k s rem prev0 T (W1 + 2 ^ T1 * nat (count_value k rem (cs ! s'))) (T1 + count_width k rem (cs ! s'))"
  unfolding reads_rest_def
proof (intro allI impI, elim conjE)
  fix src m rst
  let ?c = "cs ! s'" let ?w = "count_width k rem ?c" and ?v = "nat (count_value k rem ?c)"
  assume A: "8 \<le> length src" "length cs \<le> m" "T1 + ?w \<le> 8 * length src" "take_bit (T1 + ?w) (le_nat src) = W1 + 2 ^ T1 * ?v"
    "nc_at src rst T" "nc_ready k s rem rst" "previous0 rst = prev0" "length (counts rst) = m" "\<forall>i. s \<le> i \<and> i < m \<longrightarrow> counts rst ! i = 0"
  note f = field_of [OF A(4) b]
  have w: "0 < ?w" using k(3) by (simp add: count_width_def)
  have s'm: "s' < m" using s'(2) A(2) by simp
  from z A(1,3,5-7) f(2) s'm w obtain rst1 where
    1: "nc_zero_run src m rst = Inr (False, rst1)" "nc_at src rst1 T1" "nc_ready k s' rem rst1" "counts rst1 = counts rst"
    unfolding reads_run_def by (metis add_less_cancel_left add_0_right less_le_trans)
  from nc_count_reads(1) [OF A(1) 1(2,3) k(1,2) c f(1) _ s'm A(3) fin(1)] 1(4) A(8) obtain rst2 where
    2: "nc_count src m rst1 = Inr (True, rst2)" "remaining rst2 = 1" "charnum rst2 = Suc s'" "counts rst2 = (counts rst)[s' := ?c]"
    "8 * nc_ip rst2 + bit_count rst2 = T1 + ?w" "nc_ip rst2 + 4 \<le> length src" "bit_count rst2 \<le> 32" by auto
  have "nc_loop src m rst = Inr rst2" using 1(1) 2(1) by (subst nc_loop.simps) simp
  moreover have "(counts rst)[s' := ?c] ! i = (if i < s then counts rst ! i else if i < length cs then cs ! i else 0)" if "i < m" for i
  proof -
    consider "i < s" | "s \<le> i \<and> i < s'" | "i = s'" | "s' < i" by linarith
    then show ?thesis by cases (use s' A(8,9) fin(2) s'm that in auto)
  qed
  ultimately show "\<exists>rst'. nc_loop src m rst = Inr rst' \<and> remaining rst' = 1 \<and> charnum rst' \<le> length cs \<and> length (counts rst') = m
           \<and> (\<forall>i < m. counts rst' ! i = (if i < s then counts rst ! i else if i < length cs then cs ! i else 0))
           \<and> (\<forall>i. charnum rst' \<le> i \<and> i < length cs \<longrightarrow> cs ! i = 0)
           \<and> 8 * nc_ip rst' + bit_count rst' = T1 + ?w \<and> nc_ip rst' + 4 \<le> length src \<and> bit_count rst' \<le> 32"
    using 2 s'(2) fin(2) A(8) by (intro exI [of _ rst2]) (simp add: Suc_le_eq)
qed

lemma reads_step:
  assumes z: "reads_run k s s' rem prev0 T W1 T1" and b: "W1 < 2 ^ T1" and k: "k \<le> 12" "2 \<le> rem" "0 < k"
    and s': "s \<le> s'" "Suc s' < length cs" "\<forall>i. s \<le> i \<and> i < s' \<longrightarrow> cs ! i = 0" and c: "-1 \<le> cs ! s'" "\<bar>cs ! s'\<bar> < rem"
    and nx: "2 \<le> rem - \<bar>cs ! s'\<bar>" "in_range k' (rem - \<bar>cs ! s'\<bar>)"
    and rest: "reads_rest cs k' (Suc s') (rem - \<bar>cs ! s'\<bar>) (cs ! s' = 0) (T1 + count_width k rem (cs ! s')) W' T'"
    and W': "take_bit (T1 + count_width k rem (cs ! s')) W' = W1 + 2 ^ T1 * nat (count_value k rem (cs ! s'))" "T1 + count_width k rem (cs ! s') < T'"
  shows "reads_rest cs k s rem prev0 T W' T'"
  unfolding reads_rest_def
proof (intro allI impI, elim conjE)
  fix src m rst
  let ?c = "cs ! s'" let ?w = "count_width k rem ?c" and ?v = "nat (count_value k rem ?c)"
  assume A: "8 \<le> length src" "length cs \<le> m" "T' \<le> 8 * length src" "take_bit T' (le_nat src) = W'"
    "nc_at src rst T" "nc_ready k s rem rst" "previous0 rst = prev0" "length (counts rst) = m" "\<forall>i. s \<le> i \<and> i < m \<longrightarrow> counts rst ! i = 0"
  have "take_bit (T1 + ?w) (le_nat src) = take_bit (T1 + ?w) W'" using W'(2) unfolding A(4) [symmetric] by simp
  then have N: "take_bit (T1 + ?w) (le_nat src) = W1 + 2 ^ T1 * ?v" using W'(1) by simp
  note f = field_of [OF N b]
  have s'm: "s' < m" "Suc s' < m" using s'(2) A(2) by simp_all
  have e: "T1 + ?w < 8 * length src" using W'(2) A(3) by simp
  then have e1: "T1 < 8 * length src" by simp
  from z A(1,5-7) f(2) s'm(1) e1 obtain rst1 where
    1: "nc_zero_run src m rst = Inr (False, rst1)" "nc_at src rst1 T1" "nc_ready k s' rem rst1" "counts rst1 = counts rst"
    unfolding reads_run_def by metis
  from nc_count_reads(2) [OF A(1) 1(2,3) k(1,2) c f(1) _ s'm(1) _ nx(1) s'm(2) e nx(2)] 1(4) A(8) e obtain rst2 where
    2: "nc_count src m rst1 = Inr (False, rst2)" "nc_ready k' (Suc s') (rem - \<bar>?c\<bar>) rst2" "counts rst2 = (counts rst)[s' := ?c]"
    "previous0 rst2 = (?c = 0)" "nc_at src rst2 (T1 + ?w)" by auto
  have "length (counts rst2) = m" "\<forall>i. Suc s' \<le> i \<and> i < m \<longrightarrow> counts rst2 ! i = 0" using 2(3) A(8,9) s'(1) by auto
  with rest A(1-4) 2 obtain rst' where
    3: "nc_loop src m rst2 = Inr rst'" "remaining rst' = 1" "charnum rst' \<le> length cs" "length (counts rst') = m"
    "\<forall>i < m. counts rst' ! i = (if i < Suc s' then counts rst2 ! i else if i < length cs then cs ! i else 0)"
    "\<forall>i. charnum rst' \<le> i \<and> i < length cs \<longrightarrow> cs ! i = 0" "8 * nc_ip rst' + bit_count rst' = T'" "nc_ip rst' + 4 \<le> length src" "bit_count rst' \<le> 32"
    unfolding reads_rest_def by blast
  have "nc_loop src m rst = Inr rst'" using 1(1) 2(1) 3(1) by (subst nc_loop.simps) simp
  moreover have "counts rst' ! i = (if i < s then counts rst ! i else if i < length cs then cs ! i else 0)" if "i < m" for i
  proof -
    consider "i < s" | "s \<le> i \<and> i < s'" | "i = s'" | "s' < i" by linarith
    then show ?thesis by cases (use s' A(8,9) 3(5) 2(3) s'm that in auto)
  qed
  ultimately show "\<exists>rst'. nc_loop src m rst = Inr rst' \<and> remaining rst' = 1 \<and> charnum rst' \<le> length cs \<and> length (counts rst') = m
           \<and> (\<forall>i < m. counts rst' ! i = (if i < s then counts rst ! i else if i < length cs then cs ! i else 0))
           \<and> (\<forall>i. charnum rst' \<le> i \<and> i < length cs \<longrightarrow> cs ! i = 0)
           \<and> 8 * nc_ip rst' + bit_count rst' = T' \<and> nc_ip rst' + 4 \<le> length src \<and> bit_count rst' \<le> 32"
    using 3 by blast
qed

lemma count_sum_zeros: "s \<le> s' \<Longrightarrow> s' \<le> length cs \<Longrightarrow> \<forall>i. s \<le> i \<and> i < s' \<longrightarrow> cs ! i = 0 \<Longrightarrow> count_sum cs s' = count_sum cs s"
proof (induction "s' - s" arbitrary: s)
  case (Suc n)
  then have "count_sum cs s' = count_sum cs (Suc s)" by (intro Suc.hyps(1)) auto
  moreover have "cs ! s = 0" "s < length cs" using Suc by auto
  ultimately show ?case by (simp add: count_sum_Suc cell_count_def)
qed simp

lemma next_nonzero:
  assumes "fse_tiles log cs" and "s \<le> length cs" and "count_sum cs s < 2 ^ log"
  shows "\<exists>s'. s \<le> s' \<and> s' < length cs \<and> cs ! s' \<noteq> 0 \<and> (\<forall>i. s \<le> i \<and> i < s' \<longrightarrow> cs ! i = 0)"
proof -
  have "\<exists>i. s \<le> i \<and> i < length cs \<and> cs ! i \<noteq> 0"
  proof (rule ccontr)
    assume "\<not> (\<exists>i. s \<le> i \<and> i < length cs \<and> cs ! i \<noteq> 0)"
    then have "count_sum cs (length cs) = count_sum cs s" using assms(2) by (intro count_sum_zeros) auto
    then show False using count_sum_all [OF assms(1) order_refl] assms(3) by simp
  qed
  then obtain s' where s': "s \<le> s' \<and> s' < length cs \<and> cs ! s' \<noteq> 0" "\<And>i. i < s' \<Longrightarrow> \<not> (s \<le> i \<and> i < length cs \<and> cs ! i \<noteq> 0)"
    using exists_least_iff [of "\<lambda>i. s \<le> i \<and> i < length cs \<and> cs ! i \<noteq> 0"] by blast
  then show ?thesis by (intro exI [of _ s']) auto
qed

lemma zeros_after:
  assumes "fse_tiles log cs" and "count_sum cs s = 2 ^ log" and "s \<le> i" and "i < length cs"
  shows "cs ! i = 0"
proof -
  have "count_sum cs (Suc i) \<le> 2 ^ log" by (rule count_sum_le [OF assms(1)])
  moreover have "2 ^ log \<le> count_sum cs i" using count_sum_mono [OF assms(3), of cs] assms(2) by simp
  ultimately show ?thesis using count_sum_Suc [OF assms(4)] by (simp add: cell_count_def)
qed

lemma ncount_loop:
  assumes tl: "fse_tiles log cs" "log \<le> 12" and nm: "take (length cs) norm = cs"
  shows "s \<le> length cs \<Longrightarrow> nw_holds start st W T \<Longrightarrow> nw_ready k s rem st \<Longrightarrow> k \<le> 12 \<Longrightarrow> 2 \<le> rem \<Longrightarrow>
    int (count_sum cs s) + rem = 2 ^ log + 1 \<Longrightarrow>
    \<exists>st' W' T'. nw_loop norm (length cs) st = Inr (Some st') \<and> nw_remaining st' = 1 \<and> nw_fill st' \<le> 16 \<and> nw_holds start st' W' T'
      \<and> T < T' \<and> take_bit T W' = W \<and> reads_rest cs k s rem (nw_prev0 st) T W' T'"
proof (induction "length cs - s" arbitrary: s st W T k rem rule: less_induct)
  case less
  note h = less.prems(2) and rd = less.prems(3) and k = less.prems(4,5) and sm = less.prems(6)
  have nn: "length cs \<le> length norm" using nm by (metis length_take min.cobounded2 min.commute nat_le_linear)
  have nth: "norm ! i = cs ! i" if "i < length cs" for i using nm that by (metis nth_take)
  have "int (count_sum cs s) < 2 ^ log" using sm k(2) by linarith
  then have "count_sum cs s < 2 ^ log" by simp
  from next_nonzero [OF tl(1) less.prems(1) this] obtain f where
    f: "s \<le> f" "f < length cs" "cs ! f \<noteq> 0" "\<forall>i. s \<le> i \<and> i < f \<longrightarrow> cs ! i = 0" by blast
  define s' where "s' = (if nw_prev0 st then f else s)"
  have s': "s \<le> s'" "s' < length cs" "\<forall>i. s \<le> i \<and> i < s' \<longrightarrow> cs ! i = 0" using f by (auto simp: s'_def)
  have zs: "if nw_prev0 st then norm ! s' \<noteq> 0 \<and> (\<forall>i. s \<le> i \<and> i < s' \<longrightarrow> norm ! i = 0) else s' = s" using f nth by (auto simp: s'_def)
  from zero_step [OF h rd nn s'(1,2) zs] obtain st1 W1 T1 where
    1: "nw_zero_run norm (length cs) st = Inr (False, st1)" "nw_ready k s' rem st1" "nw_holds start st1 W1 T1" "T \<le> T1" "take_bit T W1 = W"
    "reads_run k s s' rem (nw_prev0 st) T W1 T1" unfolding reads_run_def by blast
  let ?c = "cs ! s'" let ?w = "count_width k rem ?c" and ?v = "nat (count_value k rem ?c)" and ?rem = "rem - \<bar>?c\<bar>"
  have cs': "count_sum cs s' = count_sum cs s" using s' by (intro count_sum_zeros) auto
  have nx: "int (count_sum cs (Suc s')) + ?rem = 2 ^ log + 1" using sm cs' s'(2) by (simp add: count_sum_Suc cell_count_def)
  have "int (count_sum cs (Suc s')) \<le> 2 ^ log" using count_sum_le [OF tl(1), of "Suc s'"] by (simp flip: of_nat_le_iff)
  then have rem1: "1 \<le> ?rem" using nx by linarith
  have c: "-1 \<le> ?c" "\<bar>?c\<bar> < rem" using tl(1) s'(2) rem1 by (auto simp: fse_tiles_def)
  have c': "s' < length norm" "-1 \<le> norm ! s'" "\<bar>norm ! s'\<bar> < rem" using c nth [OF s'(2)] s'(2) nn by auto
  from nw_one_writes [OF 1(3,2) k(2,1) c'] nth [OF s'(2)] obtain st2 k' where
    2: "nw_one norm st1 = Inr (Some st2)" "nw_ready k' (Suc s') ?rem st2" "k' \<le> k" "nw_prev0 st2 = (?c = 0)"
    "nw_holds start st2 (W1 + 2 ^ T1 * ?v) (T1 + ?w)" by auto
  have sy: "nw_symbol st = s" "nw_remaining st = rem" and ir: "in_range k rem" using rd by (auto simp: nw_ready_def)
  have k0: "0 < k" using ir k(2) by (cases k) (auto simp: in_range_def)
  have w0: "0 < ?w" using k0 by (simp add: count_width_def)
  have b1: "W1 < 2 ^ T1" by (rule nw_holds_bound [OF 1(3)])
  have lp: "nw_loop norm (length cs) st = nw_loop norm (length cs) st2"
    using 1(1) 2(1) sy s' k(2) by (subst nw_loop.simps) simp
  have low: "take_bit T X = W" if "take_bit (T1 + ?w) X = W1 + 2 ^ T1 * ?v" for X
  proof -
    have "take_bit T X = take_bit T (take_bit T1 X)" using 1(4) by simp
    then show ?thesis using field_of(2) [OF that b1] 1(5) by simp
  qed
  show ?case
  proof (cases "?rem = 1")
    case True
    have "nw_loop norm (length cs) st2 = Inr (Some st2)" using True 2(2) by (subst nw_loop.simps) (simp add: nw_ready_def)
    moreover have "nw_remaining st2 = 1" "nw_fill st2 \<le> 16" using True 2(2) by (auto simp: nw_ready_def)
    moreover have "count_sum cs (Suc s') = 2 ^ log" using nx True by (simp flip: of_nat_eq_iff)
    then have "\<forall>i. s' < i \<and> i < length cs \<longrightarrow> cs ! i = 0" using zeros_after [OF tl(1)] by (auto simp: Suc_le_eq)
    then have "reads_rest cs k s rem (nw_prev0 st) T (W1 + 2 ^ T1 * ?v) (T1 + ?w)"
      by (rule reads_stop [OF 1(6) b1 k k0 s' c True])
    moreover have "take_bit T (W1 + 2 ^ T1 * ?v) = W"
      using nw_holds_bound [OF 2(5)] by (intro low) (simp add: take_bit_nat_eq_self)
    ultimately show ?thesis using lp 2(5) 1(4) w0
      by (intro exI [of _ st2] exI [of _ "W1 + 2 ^ T1 * ?v"] exI [of _ "T1 + ?w"]) simp
  next
    case False
    then have rem2: "2 \<le> ?rem" using rem1 by simp
    have ne: "Suc s' < length cs"
    proof (rule ccontr)
      assume "\<not> Suc s' < length cs"
      then have "count_sum cs (Suc s') = 2 ^ log" using count_sum_all [OF tl(1), of "Suc s'"] by simp
      then show False using nx rem2 by simp
    qed
    have "length cs - Suc s' < length cs - s" using s' by simp
    from less.hyps [OF this _ 2(5,2) _ rem2 nx] 2(3) k(1) ne obtain st' W' T' where
      3: "nw_loop norm (length cs) st2 = Inr (Some st')" "nw_remaining st' = 1" "nw_fill st' \<le> 16" "nw_holds start st' W' T'"
      "T1 + ?w < T'" "take_bit (T1 + ?w) W' = W1 + 2 ^ T1 * ?v" "reads_rest cs k' (Suc s') ?rem (nw_prev0 st2) (T1 + ?w) W' T'" by auto
    have "in_range k' ?rem" using 2(2) by (simp add: nw_ready_def)
    from reads_step [OF 1(6) b1 k k0 s'(1) ne s'(3) c rem2 this _ 3(6,5)] 3(7) 2(4)
    have "reads_rest cs k s rem (nw_prev0 st) T W' T'" by simp
    then show ?thesis using lp 3 low [OF 3(6)] 1(4) by (intro exI [of _ st'] exI [of _ W'] exI [of _ T']) simp
  qed
qed

section \<open>The round trip\<close>

lemma tail_bytes:
  fixes x f :: nat
  assumes "x < 2 ^ f" and "f \<le> 16"
  shows "\<exists>tail. slice [word_of_nat x, word_of_nat (x div 256)] 0 ((f + 7) div 8) = Inr tail \<and> le_nat tail = x \<and> length tail = (f + 7) div 8"
proof -
  have u: "unat (word_of_nat n :: u8) = n mod 256" for n by (simp add: unat_of_nat)
  consider "f = 0" | "0 < f \<and> f \<le> 8" | "8 < f" by linarith
  then show ?thesis
  proof cases
    case 2
    then have n: "(f + 7) div 8 = 1" by presburger
    have "(2::nat) ^ f \<le> 2 ^ 8" using 2 by (intro power_increasing) auto
    then show ?thesis using assms(1) u unfolding n by simp
  next
    case 3
    then have n: "(f + 7) div 8 = 2" using assms(2) by presburger
    have "(2::nat) ^ f \<le> 2 ^ 16" using assms(2) by (intro power_increasing) auto
    then have "x div 256 < 256" using assms(1) by (simp add: less_mult_imp_div_less)
    then show ?thesis using u unfolding n by (simp add: numeral_2_eq_2)
  qed (use assms in simp)
qed

lemma write_ncount_ok:
  assumes tl: "fse_tiles log cs" and lg: "5 \<le> log" "log \<le> 12" and m: "length cs = Suc max_sym" and nm: "take (Suc max_sym) norm = cs"
  shows "\<exists>bytes W' T'. write_ncount out norm max_sym log = Inr (Some (out @ bytes, length bytes))
    \<and> le_nat bytes = W' \<and> W' < 2 ^ T' \<and> length bytes = (T' + 7) div 8 \<and> 4 \<le> T' \<and> take_bit 4 W' = log - 5
    \<and> reads_rest cs log 0 (2 ^ log + 1) False 4 W' T'"
proof -
  define st0 where "st0 = \<lparr>nw_out = out, nw_stream = log - FSE_MIN_TABLELOG, nw_fill = 4, nw_remaining = 2 ^ log + 1,
         nw_threshold = 2 ^ log, nw_nb = int log + 1, nw_symbol = 0, nw_prev0 = False\<rparr>"
  have two: "(2::int) \<le> 2 ^ log" using lg power_increasing [of 1 log "2::int"] by simp
  have h0: "nw_holds out st0 (log - 5) 4" using lg by (simp add: nw_holds_def st0_def FSE_MIN_TABLELOG_def)
  have r0: "nw_ready log 0 (2 ^ log + 1) st0" using two by (simp add: nw_ready_def st0_def in_range_def)
  have nm': "take (length cs) norm = cs" using nm m by simp
  from ncount_loop [OF tl lg(2) nm' _ h0 r0 lg(2)] two obtain st W' T' where
    1: "nw_loop norm (length cs) st0 = Inr (Some st)" "nw_remaining st = 1" "nw_fill st \<le> 16" "nw_holds out st W' T'" "4 < T'"
    "take_bit 4 W' = log - 5" "reads_rest cs log 0 (2 ^ log + 1) (nw_prev0 st0) 4 W' T'" by (auto simp: count_sum_def)
  define ys where "ys = drop (length out) (nw_out st)"
  have h: "nw_out st = out @ ys" "nw_stream st < 2 ^ nw_fill st" "W' = le_nat ys + 2 ^ (8 * length ys) * nw_stream st" "T' = 8 * length ys + nw_fill st"
    using 1(4) by (auto simp: nw_holds_def ys_def) (metis append_take_drop_id)
  from tail_bytes [OF h(2) 1(3)] obtain tail where
    t: "slice [word_of_nat (nw_stream st), word_of_nat (nw_stream st div 256)] 0 ((nw_fill st + 7) div 8) = Inr tail"
    "le_nat tail = nw_stream st" "length tail = (nw_fill st + 7) div 8" by blast
  have al: "max_sym + 1 = length cs" using m by simp
  have "\<not> \<not> (FSE_MIN_TABLELOG \<le> log \<and> log \<le> FSE_MAX_TABLELOG)" using lg by (simp add: FSE_MIN_TABLELOG_def FSE_MAX_TABLELOG_def)
  then have w: "write_ncount out norm max_sym log = Inr (Some (out @ ys @ tail, length (ys @ tail)))"
    using 1(1,2) t(1) h(1) unfolding write_ncount_def al Let_def st0_def by simp
  have "le_nat (ys @ tail) = W'" using t(2) h(3) by (simp add: le_nat_append power_256)
  moreover have "length (ys @ tail) = (T' + 7) div 8" using t(3) h(4) by simp
  moreover have "W' < 2 ^ T'" by (rule nw_holds_bound [OF 1(4)])
  ultimately show ?thesis using w 1(5-7) by (intro exI [of _ "ys @ tail"] exI [of _ W'] exI [of _ T']) (simp add: st0_def)
qed

lemma read_ncount_written:
  assumes rd: "reads_rest cs log 0 (2 ^ log + 1) False 4 W' T'" and w: "take_bit 4 W' = log - 5" "W' < 2 ^ T'" "4 \<le> T'"
    and src: "8 \<le> length src" "T' \<le> 8 * length src" "take_bit T' (le_nat src) = W'"
    and lg: "5 \<le> log" "log \<le> max_log" and cs: "cs \<noteq> []" "last cs \<noteq> 0" "length cs \<le> max_symbol t + 1"
  shows "read_ncount_body t src max_log = Inr (t\<lparr>accuracy_log := log, symbol_probabilities := cs\<rparr>, (T' + 7) div 8)"
proof -
  define v where "v = (word_of_nat (le_nat (take 4 src)) :: u32)"
  let ?m = "max_symbol t + 1"
  define rst where "rst = \<lparr>nc_ip = 0, nc_bits = drop_bit 4 v, bit_count = 4, nb_bits = log + 1, remaining = 2 ^ log + 1, threshold = 2 ^ log,
     charnum = 0, counts = replicate ?m 0, previous0 = False\<rparr>"
  have two: "(2::int) \<le> 2 ^ log" using lg power_increasing [of 1 log "2::int"] by simp
  have "le_nat (take 4 src) = take_bit 32 (le_nat src)" using le_nat_piece [of 4 0 src] by simp
  then have "unat v = take_bit 32 (le_nat src)" by (simp add: v_def unat_of_nat take_bit_eq_mod)
  then have "take_bit 4 (unat v) = take_bit 4 (take_bit T' (le_nat src))" using w(3) by simp
  then have lo: "unat (v AND 0xF) = log - 5" using unat_and_mask [of 4 v] w(1) src(3) by simp
  have "nc_at src rst 4" using src(1) by (simp add: nc_at_def nc_window_def rst_def v_def)
  moreover have "nc_ready log 0 (2 ^ log + 1) rst" using two by (simp add: nc_ready_def rst_def in_range_def)
  moreover have "previous0 rst = False" "length (counts rst) = ?m" "\<forall>i. 0 \<le> i \<and> i < ?m \<longrightarrow> counts rst ! i = 0"
    by (simp_all add: rst_def del: replicate_Suc)
  ultimately obtain st where
    1: "nc_loop src ?m rst = Inr st" "remaining st = 1" "charnum st \<le> length cs" "length (counts st) = ?m"
    "\<forall>i < ?m. counts st ! i = (if i < 0 then counts rst ! i else if i < length cs then cs ! i else 0)" "\<forall>i. charnum st \<le> i \<and> i < length cs \<longrightarrow> cs ! i = 0"
    "8 * nc_ip st + bit_count st = T'" "bit_count st \<le> 32"
    using rd src cs(3) unfolding reads_rest_def by blast
  have "\<not> charnum st \<le> length cs - 1" using 1(6) cs(1,2) by (auto simp: last_conv_nth)
  then have cn: "charnum st = length cs" using 1(3) by simp
  have tk: "take (charnum st) (counts st) = cs" using 1(4,5) cs(3) by (intro nth_equalityI) (simp_all add: cn)
  have n: "nc_ip st + (bit_count st + 7) div 8 = (T' + 7) div 8" using 1(7) by presburger
  have lgv: "unat (v AND 0xF) + ACC_LOG_OFFSET = log" using lo lg by (simp add: ACC_LOG_OFFSET_def)
  have r: "read32 src 0 = Inr v" using src(1) by (simp add: read32_ok v_def)
  show ?thesis
    unfolding read_ncount_body_def Let_def r res_bind_simps lgv rst_def [symmetric] 1(1) using src(1) lg(2) 1 cs(3) n tk by (simp add: cn)
qed

lemma ncount_written_read:
  assumes tl: "fse_tiles log cs" and lg: "5 \<le> log" "log \<le> 12" "log \<le> max_log" and m: "length cs = Suc max_sym" "max_sym \<le> max_symbol t"
    and nm: "take (Suc max_sym) norm = cs" and ls: "last cs \<noteq> 0"
  shows "\<exists>bytes. write_ncount out norm max_sym log = Inr (Some (out @ bytes, length bytes))
    \<and> (\<forall>rest. read_probabilities t (bytes @ rest) max_log = Inr (t\<lparr>accuracy_log := log, symbol_probabilities := cs\<rparr>, length bytes))"
proof -
  from write_ncount_ok [OF tl lg(1,2) m(1) nm, of out] obtain bytes W' T' where
    1: "write_ncount out norm max_sym log = Inr (Some (out @ bytes, length bytes))" "le_nat bytes = W'" "W' < 2 ^ T'"
    "length bytes = (T' + 7) div 8" "4 \<le> T'" "take_bit 4 W' = log - 5" "reads_rest cs log 0 (2 ^ log + 1) False 4 W' T'" by blast
  have T: "T' \<le> 8 * length bytes" unfolding 1(4) by presburger
  have ne: "cs \<noteq> []" "length cs \<le> max_symbol t + 1" using m by auto
  have rd: "read_ncount_body t (bytes @ r) max_log = Inr (t\<lparr>accuracy_log := log, symbol_probabilities := cs\<rparr>, length bytes)" if "8 \<le> length (bytes @ r)" for r
  proof -
    have "le_nat (bytes @ r) = W' + 2 ^ (8 * length bytes) * le_nat r" by (simp add: le_nat_append 1(2) power_256)
    moreover have "(2::nat) ^ (8 * length bytes) = 2 ^ T' * 2 ^ (8 * length bytes - T')" using T by (simp flip: power_add)
    ultimately have "take_bit T' (le_nat (bytes @ r)) = W'" using 1(3) by (simp add: take_bit_eq_mod mult.assoc)
    moreover have "T' \<le> 8 * length (bytes @ r)" using T by simp
    ultimately show ?thesis
      using read_ncount_written [OF 1(7,6,3,5) that] lg ne ls 1(4) by simp
  qed
  have "read_probabilities t (bytes @ rest) max_log = Inr (t\<lparr>accuracy_log := log, symbol_probabilities := cs\<rparr>, length bytes)" for rest
  proof (cases "length (bytes @ rest) < 8")
    case True
    then show ?thesis using rd [of "rest @ replicate (8 - length (bytes @ rest)) 0"] by (simp add: read_probabilities_def)
  next
    case False
    then show ?thesis using rd [of rest] by (simp add: read_probabilities_def)
  qed
  then show ?thesis using 1(1) by blast
qed

text \<open>C39: the table description round trip.  For a distribution of log 5 to 12 whose counts are at least \<open>-1\<close>, add up to the
  table size and end in a nonzero count, \<open>write_ncount\<close> appends a description to \<open>out\<close> without fault, and the
  decoder's \<open>read_probabilities\<close>, whatever bytes follow it, accepts it, reads back exactly that log and those counts, and reports
  exactly the bytes written as consumed.\<close>

theorem ncount_roundtrip:
  assumes "fse_tiles log cs" and "5 \<le> log" and "log \<le> 12" and "log \<le> max_log" and "length cs = Suc max_sym" and "max_sym \<le> max_symbol t"
    and "take (Suc max_sym) norm = cs" and "last cs \<noteq> 0"
  shows "\<exists>bytes. write_ncount out norm max_sym log = Inr (Some (out @ bytes, length bytes))
    \<and> (\<forall>rest. read_probabilities t (bytes @ rest) max_log = Inr (t\<lparr>accuracy_log := log, symbol_probabilities := cs\<rparr>, length bytes))"
  by (rule ncount_written_read [OF assms])

theorem ncount_roundtrip_witness:
  "\<exists>bytes. write_ncount [7] LL_DEFAULT_NORM 35 6 = Inr (Some (7 # bytes, length bytes))
    \<and> read_probabilities (fse_new 35) (bytes @ [1, 2, 3]) 9 = Inr ((fse_new 35)\<lparr>accuracy_log := 6, symbol_probabilities := LL_DEFAULT_NORM\<rparr>, length bytes)"
proof -
  have "fse_tiles 6 LL_DEFAULT_NORM" "length LL_DEFAULT_NORM = Suc 35" "last LL_DEFAULT_NORM \<noteq> 0" "35 \<le> max_symbol (fse_new 35)"
    by (simp_all add: fse_tiles_def LL_DEFAULT_NORM_def cell_count_def fse_new_def)
  then show ?thesis using ncount_roundtrip [of 6 LL_DEFAULT_NORM 9 35 "fse_new 35" LL_DEFAULT_NORM "[7]"] by auto
qed

end
