(* ===== verification/Normalize.thy ===== *)
theory Normalize
  imports Fse_Encode Ncount_Write
begin

text \<open>
  The normalization of symbol counts of \<open>src/src/fse.rs\<close>: \<open>min_table_log\<close>, \<open>optimal_table_log\<close>,
  \<open>normalize_count\<close> and its fallback \<open>normalize_m2\<close>.  Unsigned values are natural numbers with the
  overflow checks and casts written out, \<open>i16\<close> and \<open>i32\<close> values are integers; \<open>Err(NormalizeError)\<close> is
  \<open>None\<close>.  The loops of the code are recursions over the list of symbols; the round robin of \<open>normalize_m2\<close> gets as
  fuel the number of symbols for every cell to give out, which is enough because some count is positive.  The theorem
  says when the normalization succeeds, and that its result tiles the table and is nonzero exactly on the symbols that
  occur.  The key step is that the pending symbols of the fallback keep enough of the table for a cell each
  (\<open>second_pass_enough\<close>).
\<close>

section \<open>Table logs\<close>

definition FSE_DEFAULT_TABLELOG :: nat where "FSE_DEFAULT_TABLELOG = 11"

definition min_table_log :: "nat \<Rightarrow> nat \<Rightarrow> nat" where
  "min_table_log src_size max_sym =
     (let min_bits_src = highest_bit (src_size mod 2 ^ 32) + 1; min_bits_symbols = highest_bit (max_sym mod 2 ^ 32) + 2 in
      min min_bits_src min_bits_symbols)"

definition optimal_table_log_internal :: "nat \<Rightarrow> nat \<Rightarrow> nat \<Rightarrow> nat \<Rightarrow> nat res" where
  "optimal_table_log_internal max_table_log src_size max_sym minus' =
     (if src_size \<le> 1 then Inl Panic
      else
      let max_bits_src = (highest_bit ((src_size - 1) mod 2 ^ 32) + 2 ^ 32 - minus') mod 2 ^ 32;
          min_bits = min_table_log src_size max_sym;
          table_log = (if max_table_log = 0 then FSE_DEFAULT_TABLELOG else max_table_log);
          table_log = (if max_bits_src < table_log then max_bits_src else table_log);
          table_log = (if table_log < min_bits then min_bits else table_log) in
      Inr (max FSE_MIN_TABLELOG (min table_log FSE_MAX_TABLELOG)))"

definition optimal_table_log :: "nat \<Rightarrow> nat \<Rightarrow> nat \<Rightarrow> nat res" where
  "optimal_table_log max_table_log src_size max_sym = optimal_table_log_internal max_table_log src_size max_sym 2"

section \<open>Normalization\<close>

text \<open>\<open>as i16\<close>, and \<open>i16\<close> addition with its overflow check.\<close>

definition as_i16 :: "int \<Rightarrow> int" where
  "as_i16 x = (x + 32768) mod 65536 - 32768"

definition add_i16 :: "int \<Rightarrow> int \<Rightarrow> int res" where
  "add_i16 a b = (if -32768 \<le> a + b \<and> a + b < 32768 then Inr (a + b) else Inl Panic)"

text \<open>\<open>u64\<close> and \<open>usize\<close> multiplication with its overflow check.\<close>

definition mul_u64 :: "nat \<Rightarrow> nat \<Rightarrow> nat res" where
  "mul_u64 a b = (if a * b < 2 ^ 64 then Inr (a * b) else Inl Panic)"

definition RTB_TABLE :: "nat list" where
  "RTB_TABLE = [0, 473195, 504333, 520860, 550000, 700000, 750000, 830000]"

text \<open>The share of a count above the low threshold, rounded by \<open>RTB_TABLE\<close> when small.\<close>

definition norm_proba :: "nat \<Rightarrow> nat \<Rightarrow> nat \<Rightarrow> nat \<Rightarrow> int res" where
  "norm_proba scale v_step step cnt =
     res_bind (mul_u64 cnt step) (\<lambda>scaled.
     let proba = as_i16 (int (scaled div 2 ^ scale)) in
     if proba < 8 then
       res_bind (index RTB_TABLE (nat (proba mod 2 ^ 64))) (\<lambda>rtb.
       res_bind (mul_u64 v_step rtb) (\<lambda>rest_to_beat.
       let base = nat (proba mod 2 ^ 64) * 2 ^ scale mod 2 ^ 64 in
       if scaled < base then Inl Panic
       else add_i16 proba (if rest_to_beat < scaled - base then 1 else 0)))
     else Inr proba)"

text \<open>The loop over the symbols; the flag says that one symbol has every count.\<close>

fun norm_loop :: "nat \<Rightarrow> nat list \<Rightarrow> nat \<Rightarrow> int \<Rightarrow> nat list \<Rightarrow> int list \<Rightarrow> int \<Rightarrow> nat \<Rightarrow> int
    \<Rightarrow> (bool \<times> int list \<times> int \<times> nat) res" where
  "norm_loop log cnts tot low_prob [] norm still largest largest_p = Inr (False, norm, still, largest)"
| "norm_loop log cnts tot low_prob (s # ss) norm still largest largest_p =
     res_bind (index cnts s) (\<lambda>cnt.
     if cnt = tot then Inr (True, norm, still, largest)
     else if cnt = 0 then
       res_bind (put_at norm s 0) (\<lambda>norm. norm_loop log cnts tot low_prob ss norm still largest largest_p)
     else if cnt \<le> tot div 2 ^ log mod 2 ^ 32 then
       res_bind (put_at norm s low_prob) (\<lambda>norm. norm_loop log cnts tot low_prob ss norm (still - 1) largest largest_p)
     else
       res_bind (norm_proba (62 - log) (2 ^ (62 - log - 20)) (2 ^ 62 div tot) cnt) (\<lambda>proba.
       res_bind (put_at norm s proba) (\<lambda>norm.
       norm_loop log cnts tot low_prob ss norm (still - proba)
         (if largest_p < proba then s else largest) (if largest_p < proba then proba else largest_p))))"

subsection \<open>The fallback\<close>

definition NOT_YET_ASSIGNED :: int where "NOT_YET_ASSIGNED = -2"

text \<open>The first pass: the rare symbols get one cell each.  The state is \<open>norm\<close>, \<open>distributed\<close>, \<open>total\<close>.\<close>

fun m2_first :: "nat \<Rightarrow> nat \<Rightarrow> nat list \<Rightarrow> int \<Rightarrow> nat list \<Rightarrow> int list \<Rightarrow> nat \<Rightarrow> nat \<Rightarrow> (int list \<times> nat \<times> nat) res" where
  "m2_first low_threshold low_one cnts low_prob [] norm dist tot = Inr (norm, dist, tot)"
| "m2_first low_threshold low_one cnts low_prob (s # ss) norm dist tot =
     res_bind (index cnts s) (\<lambda>cnt.
     if cnt = 0 then res_bind (put_at norm s 0) (\<lambda>norm. m2_first low_threshold low_one cnts low_prob ss norm dist tot)
     else if cnt \<le> low_threshold \<or> cnt \<le> low_one then
       res_bind (put_at norm s (if cnt \<le> low_threshold then low_prob else 1)) (\<lambda>norm.
       if tot < cnt then Inl Panic
       else m2_first low_threshold low_one cnts low_prob ss norm (dist + 1) (tot - cnt))
     else res_bind (put_at norm s NOT_YET_ASSIGNED) (\<lambda>norm. m2_first low_threshold low_one cnts low_prob ss norm dist tot))"

fun m2_second :: "nat \<Rightarrow> nat list \<Rightarrow> nat list \<Rightarrow> int list \<Rightarrow> nat \<Rightarrow> nat \<Rightarrow> (int list \<times> nat \<times> nat) res" where
  "m2_second low_one cnts [] norm dist tot = Inr (norm, dist, tot)"
| "m2_second low_one cnts (s # ss) norm dist tot =
     res_bind (index norm s) (\<lambda>n. res_bind (index cnts s) (\<lambda>cnt.
     if n = NOT_YET_ASSIGNED \<and> cnt \<le> low_one then
       if tot < cnt then Inl Panic
       else m2_second low_one cnts ss (norm[s := 1]) (dist + 1) (tot - cnt)
     else m2_second low_one cnts ss norm dist tot))"

text \<open>The symbol of the largest count.\<close>

fun m2_max :: "nat list \<Rightarrow> nat list \<Rightarrow> nat \<Rightarrow> nat \<Rightarrow> nat res" where
  "m2_max cnts [] max_v max_c = Inr max_v"
| "m2_max cnts (s # ss) max_v max_c =
     res_bind (index cnts s) (\<lambda>cnt. if max_c < cnt then m2_max cnts ss s cnt else m2_max cnts ss max_v max_c)"

text \<open>One cell more for each positive count in turn.  The fuel is the number of symbols for every cell.\<close>

fun m2_round :: "nat \<Rightarrow> nat \<Rightarrow> nat \<Rightarrow> nat \<Rightarrow> int list \<Rightarrow> int list res" where
  "m2_round fuel max_sym s to_distribute norm =
     (if to_distribute = 0 then Inr norm
      else case fuel of 0 \<Rightarrow> Inl Diverges
      | Suc fuel \<Rightarrow>
        res_bind (index norm s) (\<lambda>n.
        if 0 < n then
          res_bind (add_i16 n 1) (\<lambda>n. m2_round fuel max_sym ((s + 1) mod (max_sym + 1)) (to_distribute - 1) (norm[s := n]))
        else m2_round fuel max_sym ((s + 1) mod (max_sym + 1)) to_distribute norm))"

declare m2_round.simps [simp del]

text \<open>The symbols left share what remains in proportion; \<open>None\<close> when one would get nothing.\<close>

fun m2_share :: "nat \<Rightarrow> nat \<Rightarrow> nat list \<Rightarrow> nat list \<Rightarrow> nat \<Rightarrow> int list \<Rightarrow> int list option res" where
  "m2_share v_step_log r_step cnts [] tmp norm = Inr (Some norm)"
| "m2_share v_step_log r_step cnts (s # ss) tmp norm =
     res_bind (index norm s) (\<lambda>n. res_bind (index cnts s) (\<lambda>cnt.
     if n = NOT_YET_ASSIGNED then
       res_bind (mul_u64 cnt r_step) (\<lambda>x.
       if 2 ^ 64 \<le> tmp + x then Inl Panic
       else
       let e = tmp + x; s_start = tmp div 2 ^ v_step_log mod 2 ^ 32; s_end = e div 2 ^ v_step_log mod 2 ^ 32 in
       if s_end < s_start then Inl Panic
       else if s_end - s_start < 1 then Inr None
       else m2_share v_step_log r_step cnts ss e (norm[s := as_i16 (int (s_end - s_start))]))
     else m2_share v_step_log r_step cnts ss tmp norm))"

text \<open>What follows the two passes.\<close>

definition m2_finish :: "nat \<Rightarrow> nat list \<Rightarrow> nat \<Rightarrow> int list \<Rightarrow> nat \<Rightarrow> nat \<Rightarrow> nat \<Rightarrow> int list option res" where
  "m2_finish log cnts max_sym norm dist tot to_distribute =
     (let ss = [0..<max_sym + 1] in
      if dist = max_sym + 1 then
        res_bind (m2_max cnts ss 0 0) (\<lambda>max_v.
        res_bind (index norm max_v) (\<lambda>n.
        res_bind (add_i16 n (as_i16 (int to_distribute))) (\<lambda>n.
        Inr (Some (norm[max_v := n])))))
      else if tot = 0 then
        res_bind (m2_round ((max_sym + 1) * to_distribute) max_sym 0 to_distribute norm) (\<lambda>norm. Inr (Some norm))
      else
        let v_step_log = 62 - log; mid = 2 ^ (v_step_log - 1) - 1 in
        res_bind (mul_u64 (2 ^ v_step_log) to_distribute) (\<lambda>x.
        if 2 ^ 64 \<le> x + mid then Inl Panic
        else m2_share v_step_log ((x + mid) div tot) cnts ss mid norm))"

definition normalize_m2 :: "int list \<Rightarrow> nat \<Rightarrow> nat list \<Rightarrow> nat \<Rightarrow> nat \<Rightarrow> int \<Rightarrow> int list option res" where
  "normalize_m2 norm log cnts tot max_sym low_prob =
     (let ss = [0..<max_sym + 1]; low_threshold = tot div 2 ^ log mod 2 ^ 32 in
      res_bind (mul_u64 tot 3) (\<lambda>tot3.
      let low_one = tot3 div 2 ^ (log + 1) mod 2 ^ 32 in
      res_bind (m2_first low_threshold low_one cnts low_prob ss norm 0 tot) (\<lambda>(norm, dist, tot).
      if 2 ^ log < dist then Inl Panic
      else
      let to_distribute = 2 ^ log - dist in
      if to_distribute = 0 then Inr (Some norm)
      else if low_one < tot div to_distribute mod 2 ^ 32 then
        res_bind (mul_u64 tot 3) (\<lambda>tot3.
        res_bind (m2_second (tot3 div (to_distribute * 2) mod 2 ^ 32) cnts ss norm dist tot) (\<lambda>(norm, dist, tot).
        if 2 ^ log < dist then Inl Panic
        else m2_finish log cnts max_sym norm dist tot (2 ^ log - dist)))
      else m2_finish log cnts max_sym norm dist tot to_distribute)))"

definition log_used :: "nat \<Rightarrow> nat" where
  "log_used log = (if log = 0 then FSE_DEFAULT_TABLELOG else log)"

definition normalize_count :: "int list \<Rightarrow> nat \<Rightarrow> nat list \<Rightarrow> nat \<Rightarrow> nat \<Rightarrow> bool \<Rightarrow> (int list \<times> nat) option res" where
  "normalize_count norm log cnts tot max_sym use_low_prob_count =
     (let log = log_used log in
      if \<not> (FSE_MIN_TABLELOG \<le> log \<and> log \<le> FSE_MAX_TABLELOG) \<or> log < min_table_log tot max_sym then Inr None
      else
      let low_prob = (if use_low_prob_count then -1 else 1) in
      if tot = 0 then Inl Panic
      else
      res_bind (norm_loop log cnts tot low_prob [0..<max_sym + 1] norm (2 ^ log) 0 0) (\<lambda>(all, norm, still, largest).
      if all then Inr (Some (norm, 0))
      else
      res_bind (index norm largest) (\<lambda>n.
      if n div 2 \<le> - still then
        res_bind (normalize_m2 norm log cnts tot max_sym low_prob) (\<lambda>r. case r of None \<Rightarrow> Inr None | Some norm \<Rightarrow> Inr (Some (norm, log)))
      else
        res_bind (add_i16 n (as_i16 still)) (\<lambda>n. Inr (Some (norm[largest := n], log))))))"


section \<open>The share of a count\<close>

lemma as_i16_id: "-32768 \<le> x \<Longrightarrow> x < 32768 \<Longrightarrow> as_i16 x = x"
  by (simp add: as_i16_def)

lemma log_bounds:
  assumes "5 \<le> log" and "log \<le> 12"
  shows "(2::nat) ^ log \<le> 4096" "32 \<le> (2::nat) ^ log" "(2::nat) ^ (62 - log) * 2 ^ log = 2 ^ 62"
proof -
  have "(2::nat) ^ log \<le> 2 ^ 12" using assms(2) by (rule power_increasing) simp
  then show "(2::nat) ^ log \<le> 4096" by simp
  have "(2::nat) ^ 5 \<le> 2 ^ log" using assms(1) by (rule power_increasing) simp
  then show "32 \<le> (2::nat) ^ log" by simp
  show "(2::nat) ^ (62 - log) * 2 ^ log = 2 ^ 62" using assms by (simp flip: power_add)
qed

text \<open>A count above the low threshold has a share of at least one cell, and less than the table.\<close>

lemma scaled_bounds:
  fixes M S tot cnt step :: nat
  assumes SM: "S * M = 2 ^ 62" and tot: "0 < tot" "tot < 2 ^ 31" and st: "step = 2 ^ 62 div tot"
    and cnt: "tot div M < cnt" "cnt < tot"
  shows "S \<le> cnt * step" and "cnt * step < 2 ^ 62" and "cnt * step div S < M"
proof -
  have M: "0 < M" and S: "0 < S" using SM by (auto intro!: gr0I)
  have st1: "step * tot \<le> 2 ^ 62" unfolding st by simp
  have st2: "2 ^ 62 < step * tot + tot" unfolding st using mod_less_divisor [OF tot(1), of "2 ^ 62"] div_mult_mod_eq [of "2 ^ 62" tot] by linarith
  have "tot * tot \<le> 2 ^ 31 * 2 ^ 31" using tot(2) by (intro mult_le_mono) auto
  then have "tot * tot \<le> 2 ^ 62" by (simp flip: power_add)
  then have st3: "tot \<le> step" unfolding st less_eq_div_iff_mult_less_eq [OF tot(1)] .
  have "tot < (tot div M + 1) * M" unfolding add_mult_distrib using div_mult_mod_eq [of tot M] mod_less_divisor [OF M, of tot] by linarith
  also have "\<dots> \<le> cnt * M" using cnt(1) by (intro mult_right_mono) auto
  finally have c: "tot + 1 \<le> cnt * M" by simp
  have "S * M \<le> step * tot + step" using SM st2 st3 by simp
  also have "\<dots> = (tot + 1) * step" by simp
  also have "\<dots> \<le> cnt * M * step" using c by (rule mult_right_mono) simp
  finally have "S * M \<le> cnt * step * M" by (simp add: ac_simps)
  then show "S \<le> cnt * step" using M by simp
  have "cnt * step < tot * step" using cnt(2) st3 tot(1) by simp
  then show lt: "cnt * step < 2 ^ 62" using st1 by (metis less_le_trans mult.commute)
  show "cnt * step div S < M" using lt SM by (simp add: div_less_iff_less_mult S ac_simps)
qed

definition proba_of :: "nat \<Rightarrow> nat \<Rightarrow> nat \<Rightarrow> int" where
  "proba_of log tot cnt =
     (let scaled = cnt * (2 ^ 62 div tot); p = scaled div 2 ^ (62 - log) in
      int (if p < 8 \<and> 2 ^ (62 - log - 20) * RTB_TABLE ! p < scaled - p * 2 ^ (62 - log) then p + 1 else p))"

lemma RTB_bound: "p < 8 \<Longrightarrow> RTB_TABLE ! p < 2 ^ 20"
proof -
  have "\<forall>x \<in> set RTB_TABLE. x < 2 ^ 20" and "length RTB_TABLE = 8" by (simp_all add: RTB_TABLE_def)
  then show "p < 8 \<Longrightarrow> RTB_TABLE ! p < 2 ^ 20" by simp
qed

lemma norm_proba_eq:
  assumes lg: "5 \<le> log" "log \<le> 12" and tot: "0 < tot" "tot < 2 ^ 31" and cnt: "tot div 2 ^ log < cnt" "cnt < tot"
  shows "norm_proba (62 - log) (2 ^ (62 - log - 20)) (2 ^ 62 div tot) cnt = Inr (proba_of log tot cnt)"
    and "1 \<le> proba_of log tot cnt" and "proba_of log tot cnt \<le> 2 ^ log"
proof -
  define x where "x = cnt * (2 ^ 62 div tot)"
  define S where "S = (2::nat) ^ (62 - log)"
  note b = scaled_bounds [OF log_bounds(3) [OF lg] tot refl cnt, folded x_def S_def]
  have S0: "0 < S" by (simp add: S_def)
  have p1: "1 \<le> x div S" using b(1) S0 by (simp add: div_greater_zero_iff Suc_le_eq)
  have p2: "x div S < 4096" using b(3) log_bounds(1) [OF lg] by linarith
  have i: "as_i16 (int (x div S)) = int (x div S)" using p2 by (intro as_i16_id) auto
  have m: "x div S * S mod 2 ^ 64 = x div S * S"
    using le_less_trans [OF div_times_less_eq_dividend [of x S] b(2)] by simp
  have v: "2 ^ (62 - log - 20) * RTB_TABLE ! q < 2 ^ 64" if "q < 8" for q
  proof -
    have "(2::nat) ^ (62 - log - 20) \<le> 2 ^ 42" by (intro power_increasing) auto
    then have "2 ^ (62 - log - 20) * RTB_TABLE ! q \<le> 2 ^ 42 * 2 ^ 20" using RTB_bound [OF that] by (intro mult_le_mono) auto
    then show ?thesis by (rule le_less_trans) simp
  qed
  have l: "length RTB_TABLE = 8" by (simp add: RTB_TABLE_def)
  have n: "nat (int (x div S) mod 2 ^ 64) = x div S" using p2 by (simp add: nat_mod_distrib)
  have x64: "x < 2 ^ 64" using b(2) by (rule less_trans) simp
  have le: "\<not> x < x div S * S" by (simp add: not_less div_times_less_eq_dividend)
  define V where "V = (2::nat) ^ (62 - log - 20)"
  show "norm_proba (62 - log) (2 ^ (62 - log - 20)) (2 ^ 62 div tot) cnt = Inr (proba_of log tot cnt)"
  proof (cases "x div S < 8")
    case True
    show ?thesis
      unfolding norm_proba_def proba_of_def mul_u64_def Let_def x_def [symmetric] S_def [symmetric] V_def [symmetric] i n
        if_P [OF x64] res_bind_simps index_def l if_P [OF True] if_P [OF v [OF True, folded V_def]] m if_not_P [OF le]
      using True by (simp add: add_i16_def)
  next
    case False
    then show ?thesis
      unfolding norm_proba_def proba_of_def mul_u64_def Let_def x_def [symmetric] S_def [symmetric] V_def [symmetric] i n
        if_P [OF x64] res_bind_simps by simp
  qed
  show "1 \<le> proba_of log tot cnt" "proba_of log tot cnt \<le> 2 ^ log"
    unfolding proba_of_def Let_def x_def [symmetric] S_def [symmetric] V_def [symmetric]
    using p1 b(3) by simp_all
qed

section \<open>The loop\<close>

definition main_norm :: "nat \<Rightarrow> nat \<Rightarrow> int \<Rightarrow> nat \<Rightarrow> int" where
  "main_norm log tot low_prob cnt =
     (if cnt = 0 then 0 else if cnt \<le> tot div 2 ^ log then low_prob else proba_of log tot cnt)"

lemma cell_count_simps [simp]: "cell_count 0 = 0" "cell_count 1 = 1" "cell_count (-1) = 1"
  by (simp_all add: cell_count_def)

lemma int_cell_count: "1 \<le> c \<Longrightarrow> int (cell_count c) = c"
  by (simp add: cell_count_def)

lemma norm_loop_eq:
  assumes lg: "5 \<le> log" "log \<le> 12" and tot: "0 < tot" "tot < 2 ^ 31" and low: "low_prob = 1 \<or> low_prob = -1"
    and n: "n \<le> length cnts" "n \<le> length norm" and lt: "\<forall>i<n. cnts ! i < tot"
    and k: "k \<le> n"
    and lp: "largest_p = 0 \<or> largest < k \<and> 1 \<le> largest_p \<and> norm ! largest = largest_p"
  shows "\<exists>norm' largest'. norm_loop log cnts tot low_prob [k..<n] norm still largest largest_p
           = Inr (False, norm', still - (\<Sum>i=k..<n. int (cell_count (main_norm log tot low_prob (cnts ! i)))), largest')
       \<and> length norm' = length norm \<and> (\<forall>i<k. norm' ! i = norm ! i)
       \<and> (\<forall>i. k \<le> i \<longrightarrow> i < n \<longrightarrow> norm' ! i = main_norm log tot low_prob (cnts ! i))
       \<and> (0 < largest_p \<or> (\<exists>i. k \<le> i \<and> i < n \<and> tot div 2 ^ log < cnts ! i) \<longrightarrow> largest' < n \<and> 1 \<le> norm' ! largest')"
  using n(2) k lp
proof (induction "n - k" arbitrary: k norm still largest largest_p)
  case 0
  then show ?case by auto
next
  case (Suc m)
  then have kn: "k < n" by simp
  define c where "c = cnts ! k"
  define p where "p = main_norm log tot low_prob c"
  define hi where "hi \<longleftrightarrow> tot div 2 ^ log < c"
  define lg' where "lg' = (if hi \<and> largest_p < p then (k, p) else (largest, largest_p))"
  have "tot div 2 ^ log < 2 ^ 32" using tot(2) div_le_dividend [of tot "2 ^ log"] by (intro le_less_trans [OF div_le_dividend]) simp
  then have thr: "tot div 2 ^ log mod 2 ^ 32 = tot div 2 ^ log" by simp
  have c: "c < tot" using lt kn by (simp add: c_def)
  have hp: "norm_proba (62 - log) (2 ^ (62 - log - 20)) (2 ^ 62 div tot) c = Inr p" "1 \<le> p" if hi
    using norm_proba_eq [OF lg tot that [unfolded hi_def] c] that by (auto simp: p_def main_norm_def hi_def)
  have step: "norm_loop log cnts tot low_prob [k..<n] norm still largest largest_p
      = norm_loop log cnts tot low_prob [Suc k..<n] (norm[k := p]) (still - int (cell_count p)) (fst lg') (snd lg')"
    unfolding upt_conv_Cons [OF kn] norm_loop.simps thr
    using kn n(1) Suc.prems(1) c hp low
    by (auto simp: index_def c_def [symmetric] put_at_def lg'_def hi_def p_def main_norm_def int_cell_count)
  have inv: "snd lg' = 0 \<or> fst lg' < Suc k \<and> 1 \<le> snd lg' \<and> norm[k := p] ! fst lg' = snd lg'"
    using Suc.prems hp(2) kn by (auto simp: lg'_def)
  have pos: "0 < largest_p \<or> hi \<Longrightarrow> 0 < snd lg'" using hp(2) Suc.prems(3) by (auto simp: lg'_def)
  have m: "m = n - Suc k" and ln: "n \<le> length (norm[k := p])" using Suc.hyps(2) Suc.prems(1) by simp_all
  obtain norm' largest' where IH: "norm_loop log cnts tot low_prob [Suc k..<n] (norm[k := p]) (still - int (cell_count p)) (fst lg') (snd lg')
           = Inr (False, norm', still - int (cell_count p) - (\<Sum>i=Suc k..<n. int (cell_count (main_norm log tot low_prob (cnts ! i)))), largest')"
       "length norm' = length norm" "\<forall>i<Suc k. norm' ! i = norm[k := p] ! i"
       "\<forall>i. Suc k \<le> i \<longrightarrow> i < n \<longrightarrow> norm' ! i = main_norm log tot low_prob (cnts ! i)"
       "0 < snd lg' \<or> (\<exists>i. Suc k \<le> i \<and> i < n \<and> tot div 2 ^ log < cnts ! i) \<longrightarrow> largest' < n \<and> 1 \<le> norm' ! largest'"
    using Suc.hyps(1) [of "Suc k" "norm[k := p]" "snd lg'" "fst lg'" "still - int (cell_count p)", OF m ln Suc_leI [OF kn] inv]
    unfolding length_list_update by (elim exE conjE) (rule that)
  have "norm' ! i = main_norm log tot low_prob (cnts ! i)" if "k \<le> i" "i < n" for i
    using IH(3,4) that Suc.prems(1) by (cases "i = k") (auto simp: p_def c_def)
  moreover have "largest' < n \<and> 1 \<le> norm' ! largest'" if "0 < largest_p \<or> (\<exists>i. k \<le> i \<and> i < n \<and> tot div 2 ^ log < cnts ! i)"
    using IH(5) pos that by (metis Suc_leI c_def hi_def le_neq_implies_less)
  ultimately show ?case
    using step IH(1-3) by (intro exI [of _ norm'] exI [of _ largest']) (auto simp: sum.atLeast_Suc_lessThan [OF kn] p_def c_def)
qed

section \<open>The passes of the fallback\<close>

text \<open>What both passes do: the symbols of a set get a cell each, and their counts leave the total.\<close>

definition takes :: "(nat \<Rightarrow> bool) \<Rightarrow> nat \<Rightarrow> nat \<Rightarrow> nat" where
  "takes P k n = (\<Sum>i=k..<n. of_bool (P i))"

definition taken :: "(nat \<Rightarrow> bool) \<Rightarrow> nat list \<Rightarrow> nat \<Rightarrow> nat \<Rightarrow> nat" where
  "taken P cnts k n = (\<Sum>i=k..<n. if P i then cnts ! i else 0)"

lemma takes_Suc: "k < n \<Longrightarrow> takes P k n = of_bool (P k) + takes P (Suc k) n"
  unfolding takes_def by (rule sum.atLeast_Suc_lessThan)

lemma taken_Suc: "k < n \<Longrightarrow> taken P cnts k n = (if P k then cnts ! k else 0) + taken P cnts (Suc k) n"
  by (simp add: taken_def sum.atLeast_Suc_lessThan)

lemma takes_taken_self [simp]: "takes P n n = 0" "taken P cnts n n = 0"
  by (simp_all add: takes_def taken_def)

lemma takes_le: "takes P k n \<le> n - k"
  unfolding takes_def using sum_mono [of "{k..<n}" "\<lambda>i. of_bool (P i)" "\<lambda>i. 1::nat"] by (simp add: of_bool_def)

definition first_norm :: "nat \<Rightarrow> nat \<Rightarrow> int \<Rightarrow> nat \<Rightarrow> int" where
  "first_norm low_threshold low_one low_prob c =
     (if c = 0 then 0 else if c \<le> low_threshold then low_prob else if c \<le> low_one then 1 else NOT_YET_ASSIGNED)"

abbreviation rare :: "nat \<Rightarrow> nat \<Rightarrow> nat list \<Rightarrow> nat \<Rightarrow> bool" where
  "rare low_threshold low_one cnts i \<equiv> cnts ! i \<noteq> 0 \<and> (cnts ! i \<le> low_threshold \<or> cnts ! i \<le> low_one)"

lemma m2_first_eq:
  assumes "n \<le> length cnts" and "n \<le> length norm" and "k \<le> n" and "taken (rare L O' cnts) cnts k n \<le> tot"
  shows "\<exists>norm'. m2_first L O' cnts low_prob [k..<n] norm dist tot
           = Inr (norm', dist + takes (rare L O' cnts) k n, tot - taken (rare L O' cnts) cnts k n)
       \<and> length norm' = length norm \<and> (\<forall>i<k. norm' ! i = norm ! i)
       \<and> (\<forall>i. k \<le> i \<longrightarrow> i < n \<longrightarrow> norm' ! i = first_norm L O' low_prob (cnts ! i))"
  using assms
proof (induction "n - k" arbitrary: k norm dist tot)
  case 0
  then show ?case by auto
next
  case (Suc m)
  then have kn: "k < n" by simp
  let ?P = "rare L O' cnts" and ?f = "first_norm L O' low_prob (cnts ! k)"
  have t: "(if ?P k then cnts ! k else 0) + taken ?P cnts (Suc k) n \<le> tot" using Suc.prems(4) unfolding taken_Suc [OF kn] .
  have step: "m2_first L O' cnts low_prob [k..<n] norm dist tot
      = m2_first L O' cnts low_prob [Suc k..<n] (norm[k := ?f]) (dist + of_bool (?P k)) (tot - (if ?P k then cnts ! k else 0))"
    unfolding upt_conv_Cons [OF kn] m2_first.simps using kn Suc.prems t
    by (auto simp: index_def put_at_def first_norm_def)
  have "\<exists>norm'. m2_first L O' cnts low_prob [Suc k..<n] (norm[k := ?f]) (dist + of_bool (?P k)) (tot - (if ?P k then cnts ! k else 0))
           = Inr (norm', dist + of_bool (?P k) + takes ?P (Suc k) n, tot - (if ?P k then cnts ! k else 0) - taken ?P cnts (Suc k) n)
       \<and> length norm' = length (norm[k := ?f]) \<and> (\<forall>i<Suc k. norm' ! i = norm[k := ?f] ! i)
       \<and> (\<forall>i. Suc k \<le> i \<longrightarrow> i < n \<longrightarrow> norm' ! i = first_norm L O' low_prob (cnts ! i))"
    using Suc.hyps(2) Suc.prems kn t by (intro Suc.hyps(1)) (auto split: if_splits)
  then obtain norm' where IH: "m2_first L O' cnts low_prob [k..<n] norm dist tot
       = Inr (norm', dist + takes ?P k n, tot - taken ?P cnts k n)"
       "length norm' = length norm" "\<forall>i<Suc k. norm' ! i = norm[k := ?f] ! i"
       "\<forall>i. Suc k \<le> i \<longrightarrow> i < n \<longrightarrow> norm' ! i = first_norm L O' low_prob (cnts ! i)"
    unfolding step takes_Suc [OF kn] taken_Suc [OF kn] by (auto simp: add.assoc diff_diff_left)
  have "norm' ! i = first_norm L O' low_prob (cnts ! i)" if "k \<le> i" "i < n" for i
    using IH(3,4) that Suc.prems(2) by (cases "i = k") auto
  then show ?case using IH(1-3) by (intro exI [of _ norm']) auto
qed

abbreviation poor :: "nat \<Rightarrow> nat list \<Rightarrow> int list \<Rightarrow> nat \<Rightarrow> bool" where
  "poor low_one cnts norm i \<equiv> norm ! i = NOT_YET_ASSIGNED \<and> cnts ! i \<le> low_one"

lemma m2_second_eq:
  assumes "n \<le> length cnts" and "n \<le> length norm" and "k \<le> n" and "taken (poor O' cnts norm) cnts k n \<le> tot"
  shows "\<exists>norm'. m2_second O' cnts [k..<n] norm dist tot
           = Inr (norm', dist + takes (poor O' cnts norm) k n, tot - taken (poor O' cnts norm) cnts k n)
       \<and> length norm' = length norm \<and> (\<forall>i<k. norm' ! i = norm ! i)
       \<and> (\<forall>i. k \<le> i \<longrightarrow> i < n \<longrightarrow> norm' ! i = (if poor O' cnts norm i then 1 else norm ! i))"
  using assms
proof (induction "n - k" arbitrary: k norm dist tot)
  case 0
  then show ?case by auto
next
  case (Suc m)
  then have kn: "k < n" by simp
  let ?P = "poor O' cnts norm" and ?f = "if poor O' cnts norm k then 1 else norm ! k"
  let ?Q = "poor O' cnts (norm[k := ?f])"
  have t: "(if ?P k then cnts ! k else 0) + taken ?P cnts (Suc k) n \<le> tot" using Suc.prems(4) unfolding taken_Suc [OF kn] .
  have q: "takes ?Q (Suc k) n = takes ?P (Suc k) n" "taken ?Q cnts (Suc k) n = taken ?P cnts (Suc k) n"
    by (auto simp: takes_def taken_def intro!: sum.cong)
  have step: "m2_second O' cnts [k..<n] norm dist tot
      = m2_second O' cnts [Suc k..<n] (norm[k := ?f]) (dist + of_bool (?P k)) (tot - (if ?P k then cnts ! k else 0))"
    unfolding upt_conv_Cons [OF kn] m2_second.simps using kn Suc.prems t
    by (auto simp: index_def)
  have "\<exists>norm'. m2_second O' cnts [Suc k..<n] (norm[k := ?f]) (dist + of_bool (?P k)) (tot - (if ?P k then cnts ! k else 0))
           = Inr (norm', dist + of_bool (?P k) + takes ?Q (Suc k) n, tot - (if ?P k then cnts ! k else 0) - taken ?Q cnts (Suc k) n)
       \<and> length norm' = length (norm[k := ?f]) \<and> (\<forall>i<Suc k. norm' ! i = norm[k := ?f] ! i)
       \<and> (\<forall>i. Suc k \<le> i \<longrightarrow> i < n \<longrightarrow> norm' ! i = (if ?Q i then 1 else norm[k := ?f] ! i))"
    using Suc.hyps(2) Suc.prems kn t q(2) by (intro Suc.hyps(1)) (auto split: if_splits)
  then obtain norm' where IH: "m2_second O' cnts [k..<n] norm dist tot
       = Inr (norm', dist + takes ?P k n, tot - taken ?P cnts k n)"
       "length norm' = length norm" "\<forall>i<Suc k. norm' ! i = norm[k := ?f] ! i"
       "\<forall>i. Suc k \<le> i \<longrightarrow> i < n \<longrightarrow> norm' ! i = (if ?Q i then 1 else norm[k := ?f] ! i)"
    unfolding step takes_Suc [OF kn] taken_Suc [OF kn] q by (auto simp: add.assoc diff_diff_left)
  have "norm' ! i = (if ?P i then 1 else norm ! i)" if "k \<le> i" "i < n" for i
    using IH(3,4) that Suc.prems(2) by (cases "i = k") auto
  moreover have "norm' ! i = norm ! i" if "i < k" for i using IH(3) that by auto
  ultimately show ?case using IH(1,2) by (intro exI [of _ norm']) blast
qed

section \<open>What the fallback ends with\<close>

text \<open>\<open>m2_state\<close>: the symbols are assigned a cell or pending; \<open>dist\<close> counts the first, \<open>tot\<close> sums the counts
  of the others.\<close>

definition assigned :: "int list \<Rightarrow> nat \<Rightarrow> bool" where
  "assigned norm i \<longleftrightarrow> norm ! i \<noteq> 0 \<and> norm ! i \<noteq> NOT_YET_ASSIGNED"

definition m2_state :: "nat list \<Rightarrow> nat \<Rightarrow> nat \<Rightarrow> int list \<Rightarrow> nat \<Rightarrow> nat \<Rightarrow> bool" where
  "m2_state cnts n low_threshold norm dist tot \<longleftrightarrow> n \<le> length norm \<and> n \<le> length cnts
     \<and> (\<forall>i<n. (norm ! i = 0 \<longleftrightarrow> cnts ! i = 0) \<and> norm ! i \<in> {0, 1, -1, NOT_YET_ASSIGNED} \<and> (norm ! i = -1 \<longrightarrow> cnts ! i \<le> low_threshold))
     \<and> dist = takes (assigned norm) 0 n \<and> tot = taken (\<lambda>i. norm ! i = NOT_YET_ASSIGNED) cnts 0 n"

text \<open>The result: a distribution over the first \<open>n\<close> symbols that fills a table of \<open>size'\<close> cells.\<close>

definition fills :: "nat list \<Rightarrow> nat \<Rightarrow> nat \<Rightarrow> int list \<Rightarrow> bool" where
  "fills cnts n size' norm \<longleftrightarrow> n \<le> length norm \<and> (\<forall>i<n. -1 \<le> norm ! i \<and> (norm ! i = 0 \<longleftrightarrow> cnts ! i = 0))
     \<and> (\<Sum>i<n. cell_count (norm ! i)) = size'"

lemma fills_tiles:
  assumes "fills cnts n (2 ^ log) norm"
  shows "fse_tiles log (take n norm)"
proof -
  have "sum_list (map cell_count (take n norm)) = (\<Sum>i<n. cell_count (norm ! i))"
    using assms by (auto simp: fills_def sum_list_sum_nth atLeast0LessThan intro!: sum.cong)
  then show ?thesis using assms by (auto simp: fills_def fse_tiles_def in_set_conv_nth)
qed

lemma one_cell:
  assumes "finite A" and "x \<in> A" and "\<And>i. i \<in> A \<Longrightarrow> i \<noteq> x \<Longrightarrow> g i = (f i :: nat)"
  shows "sum g A + f x = sum f A + g x"
proof -
  have "sum g (A - {x}) = sum f (A - {x})" using assms(3) by (intro sum.cong) auto
  then show ?thesis using assms(1,2) by (simp add: sum.remove)
qed

lemma assigned_sum:
  assumes "m2_state cnts n L norm dist tot" and "\<forall>i<n. norm ! i \<noteq> NOT_YET_ASSIGNED"
  shows "(\<Sum>i<n. cell_count (norm ! i)) = dist"
proof -
  have "cell_count (norm ! i) = of_bool (assigned norm i)" if "i < n" for i
    using assms that by (fastforce simp: m2_state_def assigned_def)
  then have "(\<Sum>i<n. cell_count (norm ! i)) = (\<Sum>i<n. of_bool (assigned norm i))" by (intro sum.cong) auto
  then show ?thesis using assms(1) unfolding m2_state_def takes_def atLeast0LessThan by (elim conjE) (rule trans, assumption, rule sym)
qed

lemma cell_add: "1 \<le> c \<Longrightarrow> cell_count (c + int d) = cell_count c + d"
  by (simp add: cell_count_def nat_add_distrib)

text \<open>The first end: the most frequent symbol gets the rest.\<close>

lemma m2_max_eq:
  assumes "n \<le> length cnts" and "k \<le> n" and "\<forall>i<k. cnts ! i \<le> max_c" and "max_c = 0 \<or> max_v < k \<and> cnts ! max_v = max_c"
    and "\<exists>i<n. 0 < cnts ! i"
  shows "\<exists>m<n. m2_max cnts [k..<n] max_v max_c = Inr m \<and> (\<forall>i<n. cnts ! i \<le> cnts ! m)"
  using assms
proof (induction "n - k" arbitrary: k max_v max_c)
  case 0
  then show ?case by (auto simp: not_le)
next
  case (Suc m)
  then have kn: "k < n" by simp
  let ?b = "max_c < cnts ! k"
  have "\<exists>m<n. m2_max cnts [Suc k..<n] (if ?b then k else max_v) (if ?b then cnts ! k else max_c) = Inr m \<and> (\<forall>i<n. cnts ! i \<le> cnts ! m)"
    using Suc.hyps(2) Suc.prems kn by (intro Suc.hyps(1)) (auto simp: less_Suc_eq)
  then show ?case unfolding upt_conv_Cons [OF kn] m2_max.simps using Suc.prems(1) kn by (auto simp: index_def split: if_splits)
qed

lemma sum_all_one:
  assumes "takes P 0 n = n" and "i < n"
  shows "P i"
proof (rule ccontr)
  assume "\<not> P i"
  then have "(\<Sum>i=0..<n. of_bool (P i)) < (\<Sum>i=0..<n. 1::nat)" using assms(2) by (intro sum_strict_mono_ex1) auto
  then show False using assms(1) by (simp add: takes_def)
qed

lemma finish_max:
  assumes st: "m2_state cnts n L norm dist tot" and d: "dist = n" and rich: "\<exists>i<n. L < cnts ! i" and D: "D + dist \<le> 4096"
  shows "\<exists>m. m2_max cnts [0..<n] 0 0 = Inr m \<and> m < length norm \<and> add_i16 (norm ! m) (as_i16 (int D)) = Inr (norm ! m + int D)
     \<and> fills cnts n (dist + D) (norm[m := norm ! m + int D])"
proof -
  obtain m where m: "m < n" "m2_max cnts [0..<n] 0 0 = Inr m" "\<forall>i<n. cnts ! i \<le> cnts ! m"
    using m2_max_eq [of n cnts 0 0 0] st rich by (auto simp: m2_state_def) (metis gr_zeroI not_less0)
  have a: "\<forall>i<n. assigned norm i" using sum_all_one [of "assigned norm" n] st d by (auto simp: m2_state_def)
  have s: "(\<Sum>i<n. cell_count (norm ! i)) = dist" using assigned_sum [OF st] a by (auto simp: assigned_def)
  have "L < cnts ! m" using m(3) rich by (meson le_less_trans not_le)
  then have m1: "norm ! m = 1" using st m(1) a by (auto simp: m2_state_def assigned_def)
  have ln: "n \<le> length norm" using st by (simp add: m2_state_def)
  have "fills cnts n (dist + D) (norm[m := norm ! m + int D])"
    using st s m(1) ln a m1 one_cell [of "{..<n}" m "\<lambda>i. cell_count (norm[m := norm ! m + int D] ! i)" "\<lambda>i. cell_count (norm ! i)"]
      cell_add [of 1 D]
    by (auto simp: fills_def m2_state_def assigned_def nth_list_update NOT_YET_ASSIGNED_def)
  then show ?thesis using m ln D m1 by (intro exI [of _ m]) (simp add: add_i16_def as_i16_id)
qed

text \<open>The second end: the cells left go round the symbols with a positive count.\<close>

definition ahead :: "nat \<Rightarrow> nat \<Rightarrow> nat \<Rightarrow> nat" where
  "ahead n s p = (if s \<le> p then p - s else p + n - s)"

lemma ahead_next: "s < n \<Longrightarrow> p < n \<Longrightarrow> s \<noteq> p \<Longrightarrow> Suc (ahead n (Suc s mod n) p) = ahead n s p"
  by (cases "Suc s = n") (auto simp: ahead_def)

lemma ahead_less: "s < n \<Longrightarrow> p < n \<Longrightarrow> ahead n s p < n"
  by (auto simp: ahead_def)

lemma m2_round_eq:
  assumes "p < n" and "1 \<le> norm ! p" and "s < n" and "d = 0 \<or> (d - 1) * n + ahead n s p + 1 \<le> fuel"
    and "fills cnts n K norm" and "K + d \<le> 4096" and "n = max_sym + 1"
  shows "\<exists>norm'. m2_round fuel max_sym s d norm = Inr norm' \<and> length norm' = length norm \<and> fills cnts n (K + d) norm'"
  using assms
proof (induction fuel arbitrary: s d norm K)
  case 0
  then show ?case by (auto simp: m2_round.simps)
next
  case (Suc fuel)
  let ?s = "Suc s mod n"
  have s': "?s < n" using Suc.prems(1) by simp
  have ln: "s < length norm" using Suc.prems(3,5) by (simp add: fills_def)
  show ?case
  proof (cases "d = 0")
    case True
    then show ?thesis using Suc.prems by (auto simp: m2_round.simps)
  next
    case d: False
    show ?thesis
    proof (cases "0 < norm ! s")
      case True
      let ?m = "norm[s := norm ! s + 1]"
      have c: "cell_count (norm ! s + 1) = cell_count (norm ! s) + 1" using True cell_add [of "norm ! s" 1] by simp
      have "cell_count (norm ! s) \<le> K"
        using Suc.prems(3,5) member_le_sum [of s "{..<n}" "\<lambda>i. cell_count (norm ! i)"] by (auto simp: fills_def)
      then have "norm ! s < 4096" using True Suc.prems(6) d by (simp add: cell_count_def split: if_splits)
      then have i16: "add_i16 (norm ! s) 1 = Inr (norm ! s + 1)" using True by (simp add: add_i16_def)
      have f: "fills cnts n (K + 1) ?m"
        using Suc.prems(3,5) ln True c one_cell [of "{..<n}" s "\<lambda>i. cell_count (?m ! i)" "\<lambda>i. cell_count (norm ! i)"]
        by (auto simp: fills_def nth_list_update)
      have fu: "d - 1 = 0 \<or> (d - 1 - 1) * n + ahead n ?s p + 1 \<le> fuel"
      proof (cases "d - 1 = 0")
        case False
        then have "(d - 1) * n = (d - 1 - 1) * n + n" by (cases "d - 1") auto
        then show ?thesis using Suc.prems(4) d ahead_less [OF s' Suc.prems(1)] by simp
      qed simp
      have pp: "1 \<le> ?m ! p" using Suc.prems(2) ln True by (auto simp: nth_list_update)
      have "\<exists>norm'. m2_round fuel max_sym ?s (d - 1) ?m = Inr norm' \<and> length norm' = length ?m \<and> fills cnts n (K + 1 + (d - 1)) norm'"
        using Suc.prems(6) d by (intro Suc.IH Suc.prems(1,7) s' fu f pp) auto
      moreover have "m2_round (Suc fuel) max_sym s d norm = m2_round fuel max_sym ?s (d - 1) ?m"
        unfolding m2_round.simps [of "Suc fuel"] using d ln True i16 Suc.prems(7) by (simp add: index_def)
      ultimately show ?thesis using d by simp
    next
      case False
      then have sp: "s \<noteq> p" using Suc.prems(2) by auto
      have "\<exists>norm'. m2_round fuel max_sym ?s d norm = Inr norm' \<and> length norm' = length norm \<and> fills cnts n (K + d) norm'"
        using Suc.prems(4) d ahead_next [OF Suc.prems(3,1) sp]
        by (intro Suc.IH Suc.prems(1,2,5,6,7) s') auto
      moreover have "m2_round (Suc fuel) max_sym s d norm = m2_round fuel max_sym ?s d norm"
        unfolding m2_round.simps [of "Suc fuel"] using d ln False Suc.prems(7) by (simp add: index_def)
      ultimately show ?thesis by simp
    qed
  qed
qed

lemma finish_round:
  assumes st: "m2_state cnts n L norm dist 0" and rich: "\<exists>i<n. L < cnts ! i" and D: "D + dist \<le> 4096" and n: "n = max_sym + 1"
  shows "\<exists>norm'. m2_round (n * D) max_sym 0 D norm = Inr norm' \<and> length norm' = length norm \<and> fills cnts n (dist + D) norm'"
proof -
  have no: "norm ! i \<noteq> NOT_YET_ASSIGNED" if "i < n" for i
  proof
    assume a: "norm ! i = NOT_YET_ASSIGNED"
    have "taken (\<lambda>i. norm ! i = NOT_YET_ASSIGNED) cnts 0 n = 0" using st by (simp add: m2_state_def)
    then have "cnts ! i = 0" using a that by (simp add: taken_def split: if_splits)
    then show False using st a that by (auto simp: m2_state_def NOT_YET_ASSIGNED_def)
  qed
  then have f: "fills cnts n dist norm"
    using st assigned_sum [OF st] by (fastforce simp: fills_def m2_state_def)
  obtain p where p: "p < n" "L < cnts ! p" using rich by auto
  then have p1: "norm ! p = 1" using st no [OF p(1)] by (auto simp: m2_state_def)
  have "D = 0 \<or> (D - 1) * n + ahead n 0 p + 1 \<le> n * D" using p(1) by (cases D) (auto simp: ahead_def)
  then show ?thesis using p(1) p1 D by (intro m2_round_eq [OF p(1) _ _ _ f _ n]) auto
qed

text \<open>The third end: the pending symbols share the rest in proportion to their counts.\<close>

lemma m2_share_eq:
  fixes V r :: nat
  assumes "n \<le> length cnts" and "n \<le> length norm" and "k \<le> n"
    and "\<forall>i. k \<le> i \<longrightarrow> i < n \<longrightarrow> norm ! i = NOT_YET_ASSIGNED \<longrightarrow> 2 ^ V \<le> cnts ! i * r"
    and "tmp + taken (\<lambda>i. norm ! i = NOT_YET_ASSIGNED) cnts k n * r < 2 ^ 64"
    and "(tmp + taken (\<lambda>i. norm ! i = NOT_YET_ASSIGNED) cnts k n * r) div 2 ^ V < 4097"
  shows "\<exists>norm'. m2_share V r cnts [k..<n] tmp norm = Inr (Some norm') \<and> length norm' = length norm
     \<and> (\<forall>i. i < k \<or> norm ! i \<noteq> NOT_YET_ASSIGNED \<longrightarrow> norm' ! i = norm ! i)
     \<and> (\<forall>i. k \<le> i \<longrightarrow> i < n \<longrightarrow> norm ! i = NOT_YET_ASSIGNED \<longrightarrow> 1 \<le> norm' ! i)
     \<and> (\<Sum>i=k..<n. if norm ! i = NOT_YET_ASSIGNED then cell_count (norm' ! i) else 0) + tmp div 2 ^ V
       = (tmp + taken (\<lambda>i. norm ! i = NOT_YET_ASSIGNED) cnts k n * r) div 2 ^ V"
  using assms
proof (induction "n - k" arbitrary: k norm tmp)
  case 0
  then show ?case by auto
next
  case (Suc m)
  then have kn: "k < n" by simp
  have m: "m = n - Suc k" using Suc.hyps(2) by simp
  let ?N = "\<lambda>i. norm ! i = NOT_YET_ASSIGNED"
  have up: "m2_share V r cnts [k..<n] tmp norm = m2_share V r cnts (k # [Suc k..<n]) tmp norm" using kn by (simp add: upt_conv_Cons)
  show ?case
  proof (cases "?N k")
    case False
    have a: "\<forall>i. Suc k \<le> i \<longrightarrow> i < n \<longrightarrow> ?N i \<longrightarrow> 2 ^ V \<le> cnts ! i * r" using Suc.prems(4) by auto
    have t: "taken ?N cnts k n = taken ?N cnts (Suc k) n" using taken_Suc [OF kn, of ?N cnts] False by simp
    obtain norm' where IH: "m2_share V r cnts [Suc k..<n] tmp norm = Inr (Some norm')" "length norm' = length norm"
       "\<forall>i. i < Suc k \<or> norm ! i \<noteq> NOT_YET_ASSIGNED \<longrightarrow> norm' ! i = norm ! i"
       "\<forall>i. Suc k \<le> i \<longrightarrow> i < n \<longrightarrow> norm ! i = NOT_YET_ASSIGNED \<longrightarrow> 1 \<le> norm' ! i"
       "(\<Sum>i=Suc k..<n. if norm ! i = NOT_YET_ASSIGNED then cell_count (norm' ! i) else 0) + tmp div 2 ^ V
       = (tmp + taken ?N cnts (Suc k) n * r) div 2 ^ V"
      using Suc.hyps(1) [OF m Suc.prems(1,2) Suc_leI [OF kn] a Suc.prems(5,6) [unfolded t]] by (elim exE conjE) (rule that)
    have step: "m2_share V r cnts [k..<n] tmp norm = m2_share V r cnts [Suc k..<n] tmp norm"
      unfolding up m2_share.simps using False kn Suc.prems(1,2) by (simp add: index_def)
    have "(\<Sum>i=k..<n. if ?N i then cell_count (norm' ! i) else 0) + tmp div 2 ^ V = (tmp + taken ?N cnts k n * r) div 2 ^ V"
      unfolding sum.atLeast_Suc_lessThan [OF kn] t if_not_P [OF False] add_0 by (rule IH(5))
    moreover have "1 \<le> norm' ! i" if "k \<le> i" "i < n" "?N i" for i
      using IH(4) False that by (cases "i = k") auto
    ultimately show ?thesis using step IH(1-3) by (intro exI [of _ norm']) (simp add: less_SucI)
  next
    case True
    define e where "e = tmp + cnts ! k * r"
    define w where "w = e div 2 ^ V - tmp div 2 ^ V"
    let ?m = "norm[k := int w]"
    have tk: "tmp + taken ?N cnts k n * r = e + taken ?N cnts (Suc k) n * r"
      using True by (simp add: taken_Suc [OF kn] e_def algebra_simps)
    have ge: "2 ^ V \<le> cnts ! k * r" using Suc.prems(4) True kn by auto
    have e64: "e < 2 ^ 64" using Suc.prems(5) tk by linarith
    have d: "e div 2 ^ V < 4097" 
      using le_less_trans [OF div_le_mono [of e "e + taken ?N cnts (Suc k) n * r" "2 ^ V"] Suc.prems(6) [unfolded tk]] by simp
    have "(tmp + 2 ^ V) div 2 ^ V \<le> e div 2 ^ V" unfolding e_def using ge by (intro div_le_mono) simp
    then have w1: "tmp div 2 ^ V + 1 \<le> e div 2 ^ V" by (simp add: div_add_self2)
    have w: "w = e div 2 ^ V - tmp div 2 ^ V" "1 \<le> w" "w < 4097" using w1 d by (auto simp: w_def)
    have x64: "cnts ! k * r < 2 ^ 64" using e64 unfolding e_def by (rule le_less_trans [rotated]) simp
    have step: "m2_share V r cnts [k..<n] tmp norm = m2_share V r cnts [Suc k..<n] e ?m"
      unfolding up m2_share.simps using True kn Suc.prems(1,2) x64 e64 w w1 d as_i16_id [of "int w"]
      by (simp add: index_def mul_u64_def e_def [symmetric] Let_def) 
    have q: "taken (\<lambda>i. ?m ! i = NOT_YET_ASSIGNED) cnts (Suc k) n = taken ?N cnts (Suc k) n"
      by (auto simp: taken_def intro!: sum.cong)
    have ln: "n \<le> length ?m" using Suc.prems(2) by simp
    have a: "\<forall>i. Suc k \<le> i \<longrightarrow> i < n \<longrightarrow> ?m ! i = NOT_YET_ASSIGNED \<longrightarrow> 2 ^ V \<le> cnts ! i * r" using Suc.prems(4) by auto
    obtain norm' where IH: "m2_share V r cnts [Suc k..<n] e ?m = Inr (Some norm')" "length norm' = length norm"
       "\<forall>i. i < Suc k \<or> ?m ! i \<noteq> NOT_YET_ASSIGNED \<longrightarrow> norm' ! i = ?m ! i"
       "\<forall>i. Suc k \<le> i \<longrightarrow> i < n \<longrightarrow> ?m ! i = NOT_YET_ASSIGNED \<longrightarrow> 1 \<le> norm' ! i"
       "(\<Sum>i=Suc k..<n. if ?m ! i = NOT_YET_ASSIGNED then cell_count (norm' ! i) else 0) + e div 2 ^ V
       = (e + taken ?N cnts (Suc k) n * r) div 2 ^ V"
      using Suc.hyps(1) [OF m Suc.prems(1) ln Suc_leI [OF kn] a Suc.prems(5,6) [unfolded tk, folded q]]
      unfolding length_list_update q by (elim exE conjE) (rule that)
    have s: "(\<Sum>i=Suc k..<n. if ?m ! i = NOT_YET_ASSIGNED then cell_count (norm' ! i) else 0)
       = (\<Sum>i=Suc k..<n. if ?N i then cell_count (norm' ! i) else 0)" by (intro sum.cong) auto
    have nk: "norm' ! k = int w" using IH(3) kn Suc.prems(2) by simp
    have "(\<Sum>i=k..<n. if ?N i then cell_count (norm' ! i) else 0) + tmp div 2 ^ V = (tmp + taken ?N cnts k n * r) div 2 ^ V"
      using IH(5) w1 w(2) nk True unfolding s tk sum.atLeast_Suc_lessThan [OF kn] w(1) [symmetric]
      by (simp add: cell_count_def) (use w(1) w1 in linarith)
    moreover have "1 \<le> norm' ! i" if "k \<le> i" "i < n" "?N i" for i
      using IH(4) nk w(2) that by (cases "i = k") auto
    moreover have "norm' ! i = norm ! i" if "i < k \<or> \<not> ?N i" for i
    proof -
      have "i \<noteq> k" using that True by auto
      then show ?thesis using IH(3) that less_SucI [of i k] by (metis nth_list_update_neq)
    qed
    ultimately show ?thesis using step IH(1,2) by (intro exI [of _ norm']) simp
  qed
qed

lemma share_bounds:
  fixes S h D tot r :: nat
  assumes "S = 2 * h" and "0 < tot" "tot \<le> h" and "r = (S * D + (h - 1)) div tot"
  shows "tot \<le> c * D \<Longrightarrow> S \<le> c * r" and "(h - 1 + tot * r) div S = D" and "h - 1 + tot * r < S * (D + 1)"
proof -
  have u: "r * tot \<le> S * D + (h - 1)" unfolding assms(4) by (rule div_times_less_eq_dividend)
  have "S * D + (h - 1) < r * tot + tot"
    unfolding assms(4) using mod_less_divisor [OF assms(2), of "S * D + (h - 1)"] div_mult_mod_eq [of "S * D + (h - 1)" tot] by linarith
  then have l: "S * D \<le> r * tot" using assms(2,3) by linarith
  show "S \<le> c * r" if "tot \<le> c * D"
  proof -
    have "S * tot \<le> S * (c * D)" using that by (rule mult_left_mono) simp
    also have "\<dots> = c * (S * D)" by simp
    also have "\<dots> \<le> c * (r * tot)" using l by (rule mult_left_mono) simp
    finally have "S * tot \<le> c * r * tot" by (simp only: mult.assoc)
    then show ?thesis using assms(2) by (simp only: mult_le_cancel2)
  qed
  have "h - 1 + tot * r < S * D + S" using u assms(1-3) by (simp only: mult.commute [of tot])
  then show lt: "h - 1 + tot * r < S * (D + 1)" by simp
  have "S * D \<le> h - 1 + tot * r" using l by (simp only: mult.commute [of tot] trans_le_add2)
  then show "(h - 1 + tot * r) div S = D" using lt by (intro div_nat_eqI) (simp_all add: mult.commute)
qed

lemma finish_share:
  assumes st: "m2_state cnts n L norm dist tot" and t: "0 < tot" "tot < 2 ^ 31" and lg: "5 \<le> log" "log \<le> 12"
    and D: "D + dist = 2 ^ log"
    and pend: "\<forall>i<n. norm ! i = NOT_YET_ASSIGNED \<longrightarrow> tot \<le> cnts ! i * D"
    and V: "V = 62 - log" and mid: "mid = 2 ^ (V - 1) - 1" and r: "r = (2 ^ V * D + mid) div tot"
  shows "2 ^ V * D + mid < 2 ^ 63"
    and "\<exists>norm'. m2_share V r cnts [0..<n] mid norm = Inr (Some norm') \<and> length norm' = length norm \<and> fills cnts n (dist + D) norm'"
proof -
  let ?N = "\<lambda>i. norm ! i = NOT_YET_ASSIGNED"
  define h where "h = (2::nat) ^ (V - 1)"
  have "0 < V" using V lg by simp
  then have S: "(2::nat) ^ V = 2 * h" by (cases V) (simp_all add: h_def)
  have "(2::nat) ^ 31 \<le> h" unfolding h_def V using lg by (intro power_increasing) auto
  then have th: "tot \<le> h" using t(2) by linarith
  note b = share_bounds [OF S t(1) th r [unfolded mid, folded h_def]]
  have D': "D \<le> 2 ^ log" using D by simp
  have "2 ^ V * D \<le> 2 ^ V * 2 ^ log" using D' by (rule mult_left_mono) simp
  also have "\<dots> = 2 ^ 62" using log_bounds(3) [OF lg] V by simp
  finally have x: "2 ^ V * D \<le> 2 ^ 62" .
  have "(2::nat) ^ V \<le> 2 ^ 57" using V lg by (intro power_increasing) auto
  then have v: "2 * h \<le> 2 ^ 57" using S by simp
  show "2 ^ V * D + mid < 2 ^ 63" using x v unfolding mid h_def [symmetric] by simp
  have tk: "taken ?N cnts 0 n = tot" using st by (simp add: m2_state_def)
  have e64: "mid + taken ?N cnts 0 n * r < 2 ^ 64"
    using b(3) x v S unfolding mid h_def [symmetric] tk by (simp add: algebra_simps)
  have ed: "(mid + taken ?N cnts 0 n * r) div 2 ^ V = D" using b(2) S unfolding mid h_def [symmetric] tk by simp
  have d: "D < 4097" using log_bounds(1) [OF lg] D' by simp
  have len: "n \<le> length cnts" "n \<le> length norm" using st by (auto simp: m2_state_def)
  have ge: "\<forall>i. 0 \<le> i \<longrightarrow> i < n \<longrightarrow> ?N i \<longrightarrow> 2 ^ V \<le> cnts ! i * r" using b(1) pend S by simp
  obtain norm' where nm: "m2_share V r cnts [0..<n] mid norm = Inr (Some norm')" "length norm' = length norm"
      "\<forall>i. i < 0 \<or> \<not> ?N i \<longrightarrow> norm' ! i = norm ! i"
      "\<forall>i. 0 \<le> i \<longrightarrow> i < n \<longrightarrow> ?N i \<longrightarrow> 1 \<le> norm' ! i"
      "(\<Sum>i=0..<n. if ?N i then cell_count (norm' ! i) else 0) + mid div 2 ^ V = D"
    using m2_share_eq [OF len le0 ge e64 d [folded ed]] unfolding ed by (elim exE conjE) (rule that)
  have m0: "mid div 2 ^ V = 0" using S t th unfolding mid h_def [symmetric] by simp
  have "cell_count (norm' ! i) = (if ?N i then cell_count (norm' ! i) else 0) + of_bool (assigned norm i)" if "i < n" for i
    using nm(3) st that by (fastforce simp: m2_state_def assigned_def)
  then have "(\<Sum>i<n. cell_count (norm' ! i)) = (\<Sum>i=0..<n. if ?N i then cell_count (norm' ! i) else 0) + takes (assigned norm) 0 n"
    unfolding takes_def sum.distrib [symmetric] atLeast0LessThan by (intro sum.cong) auto
  also have "\<dots> = dist + D" using nm(5) m0 st by (simp add: m2_state_def)
  finally have "fills cnts n (dist + D) norm'"
    using nm(2,3,4) st by (fastforce simp: fills_def m2_state_def NOT_YET_ASSIGNED_def)
  then show "\<exists>norm'. m2_share V r cnts [0..<n] mid norm = Inr (Some norm') \<and> length norm' = length norm \<and> fills cnts n (dist + D) norm'"
    using nm(1,2) by blast
qed

lemma m2_finish_eq:
  assumes st: "m2_state cnts n L norm dist tot" and t: "tot < 2 ^ 31" and lg: "5 \<le> log" "log \<le> 12"
    and D: "D + dist = 2 ^ log" and rich: "\<exists>i<n. L < cnts ! i" and n: "n = max_sym + 1"
    and pend: "\<forall>i<n. norm ! i = NOT_YET_ASSIGNED \<longrightarrow> tot \<le> cnts ! i * D"
  shows "\<exists>norm'. m2_finish log cnts max_sym norm dist tot D = Inr (Some norm') \<and> length norm' = length norm \<and> fills cnts n (2 ^ log) norm'"
proof -
  have M: "D + dist \<le> 4096" using D log_bounds(1) [OF lg] by simp
  consider "dist = n" | "dist \<noteq> n" "tot = 0" | "dist \<noteq> n" "0 < tot" by auto
  then show ?thesis
  proof cases
    case 1
    obtain m where "m2_max cnts [0..<n] 0 0 = Inr m" "m < length norm"
        "add_i16 (norm ! m) (as_i16 (int D)) = Inr (norm ! m + int D)" "fills cnts n (dist + D) (norm[m := norm ! m + int D])"
      using finish_max [OF st 1 rich M] by (elim exE conjE) (rule that)
    then show ?thesis
      unfolding m2_finish_def Let_def n [symmetric] if_P [OF 1] using D by (simp add: index_def add.commute)
  next
    case 2
    obtain norm' where "m2_round (n * D) max_sym 0 D norm = Inr norm'" "length norm' = length norm" "fills cnts n (dist + D) norm'"
      using finish_round [OF st [unfolded 2(2)] rich M n] by (elim exE conjE) (rule that)
    then show ?thesis
      unfolding m2_finish_def Let_def n [symmetric] if_not_P [OF 2(1)] if_P [OF 2(2)] using D by (simp add: add.commute)
  next
    case 3
    note f = finish_share [OF st 3(2) t lg D pend refl refl refl]
    have "(2::nat) ^ (62 - log) * D < 2 ^ 64" "\<not> (2::nat) ^ 64 \<le> 2 ^ (62 - log) * D + (2 ^ (62 - log - 1) - 1)" using f(1) by simp_all
    then have "m2_finish log cnts max_sym norm dist tot D
       = m2_share (62 - log) ((2 ^ (62 - log) * D + (2 ^ (62 - log - 1) - 1)) div tot) cnts [0..<n] (2 ^ (62 - log - 1) - 1) norm"
      unfolding m2_finish_def mul_u64_def Let_def n [symmetric] using 3 by simp
    then show ?thesis using f(2) D by (simp add: add.commute)
  qed
qed

section \<open>The fallback\<close>

lemma taken_split:
  assumes "\<And>i. k \<le> i \<Longrightarrow> i < n \<Longrightarrow> cnts ! i \<noteq> 0 \<Longrightarrow> P i \<longleftrightarrow> \<not> Q i"
  shows "taken P cnts k n + taken Q cnts k n = (\<Sum>i=k..<n. cnts ! i)"
  unfolding taken_def sum.distrib [symmetric] using assms by (intro sum.cong) auto

lemma takes_le_taken:
  assumes "\<And>i. k \<le> i \<Longrightarrow> i < n \<Longrightarrow> P i \<Longrightarrow> b \<le> cnts ! i"
  shows "takes P k n * b \<le> taken P cnts k n"
  unfolding takes_def taken_def sum_distrib_right using assms by (intro sum_mono) auto

lemma takes_split:
  assumes "\<And>i. k \<le> i \<Longrightarrow> i < n \<Longrightarrow> R i \<longleftrightarrow> P i \<or> Q i" and "\<And>i. k \<le> i \<Longrightarrow> i < n \<Longrightarrow> \<not> (P i \<and> Q i)"
  shows "takes R k n = takes P k n + takes Q k n"
  unfolding takes_def sum.distrib [symmetric] using assms by (intro sum.cong) (auto simp: of_bool_def)

text \<open>Not every count can be below the low threshold.\<close>

definition few :: "nat \<Rightarrow> nat \<Rightarrow> nat \<Rightarrow> bool" where
  "few log n tot \<longleftrightarrow> 2 * n \<le> 2 ^ log \<or> tot < 2 ^ log"

lemma some_rich:
  assumes tot: "(\<Sum>i=0..<n. cnts ! i) = tot" "0 < tot" and few: "few log n tot"
  shows "\<exists>i<n. tot div 2 ^ log < cnts ! i"
proof (rule ccontr)
  assume "\<not> ?thesis"
  then have "cnts ! i \<le> tot div 2 ^ log" if "i < n" for i using that by (metis not_less)
  then have "(\<Sum>i=0..<n. cnts ! i) \<le> (\<Sum>i=0..<n. tot div 2 ^ log)" by (intro sum_mono) auto
  then have le: "tot \<le> n * (tot div 2 ^ log)" using tot(1) by simp
  show False
  proof (cases "tot < 2 ^ log")
    case True
    then show False using le tot(2) by simp
  next
    case False
    then have "2 * n * (tot div 2 ^ log) \<le> 2 ^ log * (tot div 2 ^ log)" using few by (intro mult_right_mono) (auto simp: few_def)
    also have "\<dots> \<le> tot" by simp
    finally show False using le tot(2) by simp
  qed
qed

text \<open>After the second pass the pending counts are still large enough for a cell each.\<close>

lemma second_pass_enough:
  fixes m d k D tot T O' c T' :: nat
  assumes d: "d + k \<le> m" and D: "D + d = 2 * m" and m: "0 < m" and T: "T \<le> tot"
    and O': "O' = tot * 3 div (4 * m)" and c: "T * 3 div (D * 2) < c" and T': "T' + k * (O' + 1) \<le> T"
  shows "T' \<le> c * (D - k)"
proof -
  have "tot * 3 < (O' + 1) * (4 * m)" unfolding O' using m div_mult_mod_eq [of "tot * 3" "4 * m"] mod_less_divisor [of "4 * m" "tot * 3"]
    unfolding add_mult_distrib by linarith
  then have o: "3 * tot \<le> 4 * m * (O' + 1)" by (simp only: mult.commute)
  have D0: "0 < D * 2" using d D m by linarith
  have "T * 3 < (T * 3 div (D * 2) + 1) * (D * 2)" using D0 div_mult_mod_eq [of "T * 3" "D * 2"] mod_less_divisor [OF D0, of "T * 3"]
    unfolding add_mult_distrib by linarith
  also have "\<dots> \<le> c * (D * 2)" using c by (intro mult_right_mono) auto
  finally have cc: "3 * T \<le> 2 * D * c" by (simp only: mult.commute)
  have kD: "k \<le> D" using d D by linarith
  define x where "x = int m" define u where "u = int d" define w where "w = int k"
  have i: "int D = 2 * x - u" "u + w \<le> x" "0 < x" "0 \<le> u" "0 \<le> w"
    using D d m by (auto simp: x_def u_def w_def)
  have "3 * int k * int T \<le> 3 * int k * int tot" using T by (intro mult_left_mono) auto
  also have "\<dots> = int k * (3 * int tot)" by simp
  also have "\<dots> \<le> int k * (4 * x * (int O' + 1))"
  proof (rule mult_left_mono)
    show "3 * int tot \<le> 4 * x * (int O' + 1)" using of_nat_mono [OF o, where 'a = int] by (simp add: x_def algebra_simps)
  qed simp
  finally have kk: "3 * w * int T \<le> 4 * x * (w * (int O' + 1))" by (simp add: w_def algebra_simps)
  have "int T' + w * (int O' + 1) \<le> int T" using T' unfolding w_def by (metis of_nat_1 of_nat_add of_nat_le_iff of_nat_mult)
  then have "4 * x * (int T' + w * (int O' + 1)) \<le> 4 * x * int T" using i(3) by (intro mult_left_mono) auto
  then have t: "4 * x * int T' \<le> (4 * x - 3 * w) * int T" using kk by (simp add: algebra_simps)
  define y where "y = int D"
  have y: "y = 2 * x - u" "0 < y" using i by (auto simp: y_def)
  have "0 \<le> (8 * x - 5 * u) ^ 2 + 23 * u ^ 2" by simp
  then have "3 * (x * u - u * u) \<le> 2 * x * y" unfolding y(1) by (simp add: power2_eq_square algebra_simps)
  moreover have "w * u \<le> (x - u) * u" using i by (intro mult_right_mono) auto
  ultimately have "3 * w * u \<le> 2 * x * y" by (simp add: algebra_simps)
  then have g: "y * (4 * x - 3 * w) \<le> 6 * x * (y - w)" unfolding y(1) by (simp add: algebra_simps)
  have yw: "0 \<le> y - w" using kD by (simp add: y_def w_def)
  have "4 * x * y * int T' \<le> y * ((4 * x - 3 * w) * int T)" using mult_left_mono [OF t, of y] y(2) by (simp add: ac_simps)
  also have "\<dots> \<le> 6 * x * (y - w) * int T" using mult_right_mono [OF g, of "int T"] by (simp add: ac_simps)
  also have "\<dots> = 2 * x * (y - w) * (3 * int T)" by simp
  also have "\<dots> \<le> 2 * x * (y - w) * (2 * y * int c)"
  proof (rule mult_left_mono)
    show "3 * int T \<le> 2 * y * int c" using of_nat_mono [OF cc, where 'a = int] by (simp add: y_def)
  qed (use i(3) yw in simp)
  finally have "4 * x * y * int T' \<le> 4 * x * y * (int c * (y - w))" by (simp add: ac_simps)
  then have "int T' \<le> int c * (y - w)" using i(3) y(2) by simp
  then show ?thesis using kD by (simp add: y_def w_def flip: of_nat_diff of_nat_mult)
qed

lemma first_state:
  assumes len: "n \<le> length cnts" "n \<le> length norm" and tot: "(\<Sum>i=0..<n. cnts ! i) = tot" and low: "low_prob = 1 \<or> low_prob = -1"
  shows "\<exists>norm'. m2_first L O' cnts low_prob [0..<n] norm 0 tot
           = Inr (norm', takes (rare L O' cnts) 0 n, tot - taken (rare L O' cnts) cnts 0 n)
       \<and> length norm' = length norm \<and> (\<forall>i<n. norm' ! i = NOT_YET_ASSIGNED \<longrightarrow> O' < cnts ! i)
       \<and> m2_state cnts n L norm' (takes (rare L O' cnts) 0 n) (tot - taken (rare L O' cnts) cnts 0 n)"
proof -
  let ?R = "rare L O' cnts"
  have "taken ?R cnts 0 n + taken (\<lambda>i. \<not> ?R i) cnts 0 n = tot" unfolding tot [symmetric] by (rule taken_split) simp
  then have le: "taken ?R cnts 0 n \<le> tot" by simp
  obtain norm' where nm: "m2_first L O' cnts low_prob [0..<n] norm 0 tot = Inr (norm', 0 + takes ?R 0 n, tot - taken ?R cnts 0 n)"
      "length norm' = length norm" "\<forall>i. 0 \<le> i \<longrightarrow> i < n \<longrightarrow> norm' ! i = first_norm L O' low_prob (cnts ! i)"
    using m2_first_eq [OF len le0 le, of low_prob 0] by (elim exE conjE) (rule that)
  have f: "norm' ! i = first_norm L O' low_prob (cnts ! i)" if "i < n" for i using nm(3) that by simp
  have a: "assigned norm' i \<longleftrightarrow> ?R i" and p: "norm' ! i = NOT_YET_ASSIGNED \<longleftrightarrow> cnts ! i \<noteq> 0 \<and> \<not> ?R i" if "i < n" for i
    using f [OF that] low by (auto simp: assigned_def first_norm_def NOT_YET_ASSIGNED_def)
  have "takes ?R 0 n = takes (assigned norm') 0 n" unfolding takes_def using a by (intro sum.cong) auto
  moreover have "taken ?R cnts 0 n + taken (\<lambda>i. norm' ! i = NOT_YET_ASSIGNED) cnts 0 n = tot"
    unfolding tot [symmetric] using p by (intro taken_split) auto
  ultimately have "m2_state cnts n L norm' (takes ?R 0 n) (tot - taken ?R cnts 0 n)"
    using len nm(2) f low by (auto simp: m2_state_def first_norm_def NOT_YET_ASSIGNED_def)
  then show ?thesis using nm(1,2) p by (intro exI [of _ norm']) auto
qed

lemma second_state:
  assumes st: "m2_state cnts n L norm dist tot"
  shows "\<exists>norm'. m2_second O' cnts [0..<n] norm dist tot
           = Inr (norm', dist + takes (poor O' cnts norm) 0 n, tot - taken (poor O' cnts norm) cnts 0 n)
       \<and> length norm' = length norm \<and> (\<forall>i<n. norm' ! i = NOT_YET_ASSIGNED \<longrightarrow> O' < cnts ! i)
       \<and> m2_state cnts n L norm' (dist + takes (poor O' cnts norm) 0 n) (tot - taken (poor O' cnts norm) cnts 0 n)
       \<and> taken (poor O' cnts norm) cnts 0 n \<le> tot"
proof -
  let ?P = "poor O' cnts norm" and ?N = "\<lambda>i. norm ! i = NOT_YET_ASSIGNED"
  have len: "n \<le> length cnts" "n \<le> length norm" and t: "tot = taken ?N cnts 0 n" and d: "dist = takes (assigned norm) 0 n"
    using st by (auto simp: m2_state_def)
  have le: "taken ?P cnts 0 n \<le> tot" unfolding t taken_def by (intro sum_mono) auto
  obtain norm' where nm: "m2_second O' cnts [0..<n] norm dist tot = Inr (norm', dist + takes ?P 0 n, tot - taken ?P cnts 0 n)"
      "length norm' = length norm" "\<forall>i. 0 \<le> i \<longrightarrow> i < n \<longrightarrow> norm' ! i = (if ?P i then 1 else norm ! i)"
    using m2_second_eq [OF len le0 le, of dist] by (elim exE conjE) (rule that)
  have f: "norm' ! i = (if ?P i then 1 else norm ! i)" if "i < n" for i using nm(3) that by simp
  have "takes (assigned norm') 0 n = takes (assigned norm) 0 n + takes ?P 0 n"
    using f by (intro takes_split) (auto simp: assigned_def NOT_YET_ASSIGNED_def)
  moreover have "taken (\<lambda>i. norm' ! i = NOT_YET_ASSIGNED) cnts 0 n + taken ?P cnts 0 n = tot"
    unfolding t taken_def sum.distrib [symmetric] using f by (intro sum.cong) (auto simp: NOT_YET_ASSIGNED_def)
  moreover have "\<forall>i<n. (norm' ! i = 0 \<longleftrightarrow> cnts ! i = 0) \<and> norm' ! i \<in> {0, 1, -1, NOT_YET_ASSIGNED} \<and> (norm' ! i = -1 \<longrightarrow> cnts ! i \<le> L)"
  proof (intro allI impI)
    fix i assume "i < n"
    then show "(norm' ! i = 0 \<longleftrightarrow> cnts ! i = 0) \<and> norm' ! i \<in> {0, 1, -1, NOT_YET_ASSIGNED} \<and> (norm' ! i = -1 \<longrightarrow> cnts ! i \<le> L)"
      using st f [of i] unfolding m2_state_def by (cases "?P i") (auto simp: NOT_YET_ASSIGNED_def)
  qed
  ultimately have "m2_state cnts n L norm' (dist + takes ?P 0 n) (tot - taken ?P cnts 0 n)"
    using len nm(2) d unfolding m2_state_def by (intro conjI) (assumption | simp)+
  then show ?thesis using nm(1,2) f le by (intro exI [of _ norm']) (auto simp: NOT_YET_ASSIGNED_def)
qed

lemma div_u32:
  fixes x y :: nat
  assumes "x < 2 ^ 33" and "2 \<le> y"
  shows "x div y mod 2 ^ 32 = x div y"
proof -
  have "x div y \<le> x div 2" using assms(2) by (intro div_le_mono2) auto
  then show ?thesis using assms(1) by simp
qed

lemma takes_le_pos:
  assumes "\<And>i. k \<le> i \<Longrightarrow> i < n \<Longrightarrow> P i \<Longrightarrow> cnts ! i \<noteq> 0"
  shows "takes P k n \<le> taken P cnts k n"
  using takes_le_taken [of k n P 1 cnts] assms by (simp add: Suc_le_eq)

lemma normalize_m2_eq:
  assumes lg: "5 \<le> log" "log \<le> 12" and len: "n \<le> length cnts" "n \<le> length norm" and n: "n = max_sym + 1"
    and tot: "(\<Sum>i=0..<n. cnts ! i) = tot" "0 < tot" "tot < 2 ^ 31" and few: "few log n tot" and low: "low_prob = 1 \<or> low_prob = -1"
  shows "\<exists>norm'. normalize_m2 norm log cnts tot max_sym low_prob = Inr (Some norm') \<and> length norm' = length norm \<and> fills cnts n (2 ^ log) norm'"
proof -
  define L where "L = tot div 2 ^ log"
  define O' where "O' = tot * 3 div 2 ^ (log + 1)"
  let ?R = "rare L O' cnts"
  define d where "d = takes ?R 0 n"
  define T where "T = tot - taken ?R cnts 0 n"
  have M: "(2::nat) \<le> 2 ^ log" "(2::nat) \<le> 2 ^ (log + 1)" using log_bounds(2) [OF lg] by simp_all
  have Lm: "tot div 2 ^ log mod 2 ^ 32 = L" and Om: "tot * 3 div 2 ^ (log + 1) mod 2 ^ 32 = O'"
    unfolding L_def O'_def using tot(3) M by (intro div_u32; simp)+
  have t3: "tot * 3 < 2 ^ 64" and T3: "T * 3 < 2 ^ 64" "T * 3 < 2 ^ 33" "T \<le> tot" using tot(3) by (auto simp: T_def)
  obtain norm1 where f1: "m2_first L O' cnts low_prob [0..<n] norm 0 tot = Inr (norm1, d, T)" "length norm1 = length norm"
      "\<forall>i<n. norm1 ! i = NOT_YET_ASSIGNED \<longrightarrow> O' < cnts ! i" "m2_state cnts n L norm1 d T"
    using first_state [OF len tot(1) low, of L O', folded d_def T_def] by (elim exE conjE) (rule that)
  have rich: "\<exists>i<n. L < cnts ! i" unfolding L_def by (rule some_rich [OF tot(1,2) few])
  have dT: "d + T \<le> tot" if "L = 0"
  proof -
    have "d \<le> taken ?R cnts 0 n" unfolding d_def by (rule takes_le_pos) auto
    moreover have "taken ?R cnts 0 n \<le> tot" unfolding tot(1) [symmetric] taken_def by (intro sum_mono) auto
    ultimately show ?thesis by (simp add: T_def)
  qed
  have half: "2 * n \<le> 2 ^ log \<or> tot < 2 ^ log \<and> L = 0" using few by (auto simp: few_def L_def)
  have dn: "d \<le> n" unfolding d_def using takes_le [of ?R 0 n] by simp
  have T1: "0 < T \<or> d < 2 ^ log" using tot(2) dT half dn M(1) by auto
  have dM: "d < 2 ^ log"
    using half dn dT tot M(1) n by auto
  define D where "D = 2 ^ log - d"
  have D: "D + d = 2 ^ log" "0 < D" using dM by (simp_all add: D_def)
  have TD: "T div D mod 2 ^ 32 = T div D" using T3 tot(3) le_less_trans [OF div_le_dividend [of T D], of "2 ^ 32"] by simp
  show ?thesis
  proof (cases "O' < T div D")
    case False
    have "T \<le> cnts ! i * D" if "i < n" "norm1 ! i = NOT_YET_ASSIGNED" for i
    proof -
      have "T < (T div D + 1) * D" using div_mult_mod_eq [of T D] mod_less_divisor [OF D(2), of T] unfolding add_mult_distrib by linarith
      also have "\<dots> \<le> cnts ! i * D" using f1(3) that False by (intro mult_right_mono) auto
      finally show ?thesis by simp
    qed
    then obtain norm' where "m2_finish log cnts max_sym norm1 d T D = Inr (Some norm')" "length norm' = length norm1" "fills cnts n (2 ^ log) norm'"
      using m2_finish_eq [OF f1(4) _ lg D(1) rich n] T3 tot(3) by (meson le_less_trans)
    then show ?thesis
      unfolding normalize_m2_def mul_u64_def Let_def n [symmetric] if_P [OF t3] res_bind_simps Lm Om f1(1) prod.case D_def [symmetric]
        TD if_not_P [OF False]
      using dM D f1(2) by simp
  next
    case True
    define O2 where "O2 = T * 3 div (D * 2)"
    let ?P = "poor O2 cnts norm1"
    define k where "k = takes ?P 0 n"
    define T' where "T' = T - taken ?P cnts 0 n"
    have O2m: "T * 3 div (D * 2) mod 2 ^ 32 = O2" unfolding O2_def using T3 D(2) by (intro div_u32) auto
    obtain norm2 where f2: "m2_second O2 cnts [0..<n] norm1 d T = Inr (norm2, d + k, T')" "length norm2 = length norm1"
        "\<forall>i<n. norm2 ! i = NOT_YET_ASSIGNED \<longrightarrow> O2 < cnts ! i" "m2_state cnts n L norm2 (d + k) T'" "taken ?P cnts 0 n \<le> T"
      using second_state [OF f1(4), of O2, folded k_def T'_def] by (elim exE conjE) (rule that)
    have h: "2 * n \<le> 2 ^ log"
    proof (rule ccontr)
      assume "\<not> ?thesis"
      then have "d + T < D + d" using half dT D(1) by auto
      then have "T div D = 0" by simp
      then show False using True by simp
    qed
    have dk: "d + k \<le> n" using f2(4) takes_le [of "assigned norm2" 0 n] by (simp add: m2_state_def)
    obtain m where m: "(2::nat) ^ log = 2 * m" using lg by (cases log) auto
    have "k * (O' + 1) \<le> taken ?P cnts 0 n"
      unfolding k_def using f1(3) by (intro takes_le_taken) (auto simp: Suc_le_eq)
    then have tk: "T' + k * (O' + 1) \<le> T" using f2(5) by (simp add: T'_def)
    have dm: "d + k \<le> m" and m0: "0 < m" and Dm: "D + d = 2 * m" and Om': "O' = tot * 3 div (4 * m)"
      using h dk m D(1) n by (auto simp: O'_def)
    have pend: "\<forall>i<n. norm2 ! i = NOT_YET_ASSIGNED \<longrightarrow> T' \<le> cnts ! i * (D - k)"
      using second_pass_enough [OF dm Dm m0 T3(3) Om' _ tk] f2(3) unfolding O2_def by blast
    have Dk: "D - k + (d + k) = 2 ^ log" and T'2: "T' < 2 ^ 31" and le: "\<not> 2 ^ log < d + k" "2 ^ log - (d + k) = D - k"
      using dm m D(1) T3(3) tot(3) by (auto simp: T'_def)
    obtain norm' where "m2_finish log cnts max_sym norm2 (d + k) T' (D - k) = Inr (Some norm')" "length norm' = length norm2" "fills cnts n (2 ^ log) norm'"
      using m2_finish_eq [OF f2(4) T'2 lg Dk rich n pend] by (elim exE conjE) (rule that)
    then show ?thesis
      unfolding normalize_m2_def mul_u64_def Let_def n [symmetric] if_P [OF t3] res_bind_simps Lm Om f1(1) prod.case D_def [symmetric]
        TD if_P [OF True] if_P [OF T3(1)] O2m f2(1) if_not_P [OF le(1)] le(2)
      using dM D f1(2) f2(2) by simp
  qed
qed

section \<open>The normalization\<close>

lemma below_highest_bit: "0 < x \<Longrightarrow> x < 2 ^ 32 \<Longrightarrow> x < 2 ^ (highest_bit x + 1)"
  using highest_bit_bounds [of x] by simp

lemma min_table_log_few:
  assumes "min_table_log tot max_sym \<le> log" and "0 < tot" "tot < 2 ^ 32" "max_sym < 2 ^ 32" and "5 \<le> log"
  shows "few log (max_sym + 1) tot"
proof (cases "highest_bit tot + 1 \<le> log")
  case True
  then have "(2::nat) ^ (highest_bit tot + 1) \<le> 2 ^ log" by (intro power_increasing) auto
  then show ?thesis using below_highest_bit [OF assms(2,3)] by (auto simp: few_def)
next
  case False
  then have h: "highest_bit max_sym + 2 \<le> log" using assms by (auto simp: min_table_log_def Let_def min_def split: if_splits)
  have "2 * (max_sym + 1) \<le> 2 ^ (highest_bit max_sym + 2) \<or> max_sym = 0" using below_highest_bit [of max_sym] assms(4) by auto
  moreover have "(2::nat) ^ (highest_bit max_sym + 2) \<le> 2 ^ log" using h by (intro power_increasing) auto
  moreover have "(2::nat) ^ 5 \<le> 2 ^ log" using assms(5) by (intro power_increasing) auto
  ultimately show ?thesis by (auto simp: few_def)
qed

lemma norm_loop_all:
  assumes "n \<le> length cnts" and "n \<le> length norm" and "k \<le> j" and "j < n" and "cnts ! j = tot" and "\<forall>i<j. cnts ! i = 0" and "0 < tot"
  shows "\<exists>norm' st. norm_loop log cnts tot low_prob [k..<n] norm still largest largest_p = Inr (True, norm', st)"
  using assms
proof (induction "n - k" arbitrary: k norm)
  case (Suc m)
  then have kn: "k < n" and m: "m = n - Suc k" by simp_all
  show ?case
  proof (cases "k = j")
    case True
    then show ?thesis using Suc.prems unfolding upt_conv_Cons [OF kn] norm_loop.simps by (auto simp: index_def)
  next
    case False
    then have "\<exists>norm' st. norm_loop log cnts tot low_prob [Suc k..<n] (norm[k := 0]) still largest largest_p = Inr (True, norm', st)"
      using Suc.prems by (intro Suc.hyps(1) m) auto
    then show ?thesis
      using False Suc.prems kn unfolding upt_conv_Cons [OF kn] norm_loop.simps by (simp add: index_def put_at_def)
  qed
qed simp

lemma main_norm_bounds:
  assumes "5 \<le> log" "log \<le> 12" and "0 < tot" "tot < 2 ^ 31" and "cnt < tot" and "low_prob = 1 \<or> low_prob = -1"
  shows "-1 \<le> main_norm log tot low_prob cnt" and "main_norm log tot low_prob cnt \<le> 2 ^ log"
    and "main_norm log tot low_prob cnt = 0 \<longleftrightarrow> cnt = 0"
proof -
  have p: "1 \<le> proba_of log tot cnt \<and> proba_of log tot cnt \<le> 2 ^ log" if "\<not> cnt \<le> tot div 2 ^ log"
    using norm_proba_eq(2,3) [OF assms(1-4) _ assms(5)] that by simp
  have o: "(1::int) \<le> 2 ^ log" and o': "(-1::int) \<le> 2 ^ log" using one_le_power [of "2::int" log] by linarith+
  show "-1 \<le> main_norm log tot low_prob cnt" and "main_norm log tot low_prob cnt = 0 \<longleftrightarrow> cnt = 0"
    using p assms(6) by (auto simp: main_norm_def)
  show "main_norm log tot low_prob cnt \<le> 2 ^ log" using p o o' assms(6) by (auto simp: main_norm_def)
qed

lemma normalize_main:
  fixes low_prob :: int
  assumes lg: "5 \<le> log" "log \<le> 12" and len: "n \<le> length cnts" "n \<le> length norm" and n: "n = max_sym + 1"
    and tot: "(\<Sum>i=0..<n. cnts ! i) = tot" "0 < tot" "tot < 2 ^ 31" and lt: "\<forall>i<n. cnts ! i < tot"
    and few: "few log n tot" and mt: "min_table_log tot max_sym \<le> log" and low: "low_prob = (if low then -1 else 1)"
  shows "\<exists>norm'. normalize_count norm log cnts tot max_sym low = Inr (Some (norm', log)) \<and> length norm' = length norm \<and> fills cnts n (2 ^ log) norm'"
proof -
  have lo: "low_prob = 1 \<or> low_prob = -1" using low by simp
  have rich: "\<exists>i<n. tot div 2 ^ log < cnts ! i" by (rule some_rich [OF tot(1,2) few])
  obtain norm1 largest where lp: "norm_loop log cnts tot low_prob [0..<n] norm (2 ^ log) 0 0
           = Inr (False, norm1, 2 ^ log - (\<Sum>i=0..<n. int (cell_count (main_norm log tot low_prob (cnts ! i)))), largest)"
       "length norm1 = length norm" "\<forall>i. 0 \<le> i \<longrightarrow> i < n \<longrightarrow> norm1 ! i = main_norm log tot low_prob (cnts ! i)"
       "0 < (0::int) \<or> (\<exists>i. 0 \<le> i \<and> i < n \<and> tot div 2 ^ log < cnts ! i) \<longrightarrow> largest < n \<and> 1 \<le> norm1 ! largest"
    using norm_loop_eq [OF lg tot(2,3) lo len lt le0 disjI1 [OF refl], of "2 ^ log" 0] by (elim exE conjE) (rule that)
  define st where "st = 2 ^ log - (\<Sum>i=0..<n. int (cell_count (main_norm log tot low_prob (cnts ! i))))"
  have nm: "norm1 ! i = main_norm log tot low_prob (cnts ! i)" if "i < n" for i using lp(3) that by simp
  have la: "largest < n" "1 \<le> norm1 ! largest" using lp(4) rich by auto
  have fm: "FSE_MIN_TABLELOG \<le> log \<and> log \<le> FSE_MAX_TABLELOG" using lg by (simp add: FSE_MIN_TABLELOG_def FSE_MAX_TABLELOG_def)
  have e: "normalize_count norm log cnts tot max_sym low =
      (if norm1 ! largest div 2 \<le> - st then
         res_bind (normalize_m2 norm1 log cnts tot max_sym low_prob) (\<lambda>r. case r of None \<Rightarrow> Inr None | Some norm \<Rightarrow> Inr (Some (norm, log)))
       else res_bind (add_i16 (norm1 ! largest) (as_i16 st)) (\<lambda>x. Inr (Some (norm1[largest := x], log))))"
    using lg fm mt tot(2) la(1) len(2) lp(2)
    unfolding normalize_count_def Let_def n [symmetric] low [symmetric]
    by (simp add: log_used_def lp(1) st_def [symmetric] index_def)
  show ?thesis
  proof (cases "norm1 ! largest div 2 \<le> - st")
    case True
    obtain norm2 where "normalize_m2 norm1 log cnts tot max_sym low_prob = Inr (Some norm2)" "length norm2 = length norm1" "fills cnts n (2 ^ log) norm2"
      using normalize_m2_eq [OF lg len(1) _ n tot few lo, of norm1] len(2) lp(2) by auto
    then show ?thesis unfolding e using True lp(2) by simp
  next
    case False
    have b: "norm1 ! largest \<le> 2 ^ log" "(2::int) ^ log \<le> 4096"
      using nm [OF la(1)] main_norm_bounds(2) [OF lg tot(2,3) _ lo] lt la(1) log_bounds(1) [OF lg] by (auto simp flip: of_nat_le_iff [where 'a = int])
    have "0 \<le> (\<Sum>i=0..<n. int (cell_count (main_norm log tot low_prob (cnts ! i))))" by (intro sum_nonneg) simp
    then have s: "- st < norm1 ! largest" "st \<le> 4096" "- 4096 \<le> st" using False b la(2) by (auto simp: st_def) 
    let ?m = "norm1[largest := norm1 ! largest + st]"
    have sm: "(\<Sum>i<n. int (cell_count (norm1 ! i))) = (\<Sum>i<n. int (cell_count (main_norm log tot low_prob (cnts ! i))))"
      using nm by (intro sum.cong) auto
    have "int (\<Sum>i<n. cell_count (?m ! i)) + int (cell_count (norm1 ! largest))
        = int (\<Sum>i<n. cell_count (norm1 ! i)) + int (cell_count (?m ! largest))"
      using one_cell [of "{..<n}" largest "\<lambda>i. cell_count (?m ! i)" "\<lambda>i. cell_count (norm1 ! i)"] la(1)
      unfolding of_nat_add [symmetric] by (intro arg_cong [of _ _ int]) simp
    moreover have "int (\<Sum>i<n. cell_count (norm1 ! i)) = 2 ^ log - st"
      unfolding st_def of_nat_sum atLeast0LessThan sm by simp
    moreover have "int (cell_count (norm1 ! largest)) = norm1 ! largest" "int (cell_count (?m ! largest)) = norm1 ! largest + st"
      using la s(1) len(2) lp(2) by (auto simp: int_cell_count)
    ultimately have "int (\<Sum>i<n. cell_count (?m ! i)) = 2 ^ log" by linarith
    then have sum: "(\<Sum>i<n. cell_count (?m ! i)) = 2 ^ log" by (metis of_nat_eq_iff of_nat_numeral of_nat_power)
    have "-1 \<le> ?m ! i \<and> (?m ! i = 0 \<longleftrightarrow> cnts ! i = 0)" if "i < n" for i
    proof -
      note mb = main_norm_bounds(1,3) [OF lg tot(2,3) lt [rule_format, OF that] lo] main_norm_bounds(3) [OF lg tot(2,3) lt [rule_format, OF la(1)] lo]
      show ?thesis
        using nm [OF that] nm [OF la(1)] mb la(2) s(1) that len(2) lp(2) by (cases "i = largest") auto
    qed
    then have "fills cnts n (2 ^ log) ?m" using len(2) lp(2) sum by (simp add: fills_def)
    then show ?thesis unfolding e using False s b la lp(2) by (simp add: as_i16_id add_i16_def)
  qed
qed

lemma all_counts:
  assumes "(\<Sum>i=0..<n. cnts ! i) = (tot::nat)" and "j < n" and "cnts ! j = tot" and "i < n" and "i \<noteq> j"
  shows "cnts ! i = 0"
proof -
  have "(\<Sum>i=0..<n. cnts ! i) = cnts ! j + (\<Sum>i\<in>{0..<n} - {j}. cnts ! i)" using assms(2) by (intro sum.remove) auto
  then have "(\<Sum>i\<in>{0..<n} - {j}. cnts ! i) = 0" using assms(1,3) by simp
  then show ?thesis using assms(4,5) by simp
qed

lemma normalize_all:
  assumes lg: "5 \<le> log" "log \<le> 12" and len: "n \<le> length cnts" "n \<le> length norm" and n: "n = max_sym + 1"
    and tot: "(\<Sum>i=0..<n. cnts ! i) = tot" "0 < tot" and j: "j < n" "cnts ! j = tot" and mt: "min_table_log tot max_sym \<le> log"
  shows "\<exists>norm'. normalize_count norm log cnts tot max_sym low = Inr (Some (norm', 0))"
proof -
  have z: "\<forall>i<j. cnts ! i = 0" using all_counts [OF tot(1) j] j(1) by simp
  show ?thesis
    using norm_loop_all [OF len le0 j z tot(2), of log "if low then -1 else 1" "2 ^ log" 0 0] lg mt tot(2)
    by (auto simp: normalize_count_def log_used_def FSE_MIN_TABLELOG_def FSE_MAX_TABLELOG_def n)
qed

lemma normalize_bad:
  assumes "log < FSE_MIN_TABLELOG \<or> FSE_MAX_TABLELOG < log \<or> log < min_table_log tot max_sym" and "log \<noteq> 0"
  shows "normalize_count norm log cnts tot max_sym low = Inr None"
  using assms by (auto simp: normalize_count_def log_used_def)

text \<open>\<open>optimal_table_log\<close> chooses a log that \<open>normalize_count\<close> accepts.\<close>

lemma optimal_table_log_accepted:
  assumes "1 < src_size" and "min_table_log src_size max_sym \<le> FSE_MAX_TABLELOG"
  shows "\<exists>log. optimal_table_log max_table_log src_size max_sym = Inr log
     \<and> FSE_MIN_TABLELOG \<le> log \<and> log \<le> FSE_MAX_TABLELOG \<and> min_table_log src_size max_sym \<le> log"
proof -
  have clamp: "FSE_MIN_TABLELOG \<le> max FSE_MIN_TABLELOG (min t FSE_MAX_TABLELOG) \<and> max FSE_MIN_TABLELOG (min t FSE_MAX_TABLELOG) \<le> FSE_MAX_TABLELOG
      \<and> m \<le> max FSE_MIN_TABLELOG (min t FSE_MAX_TABLELOG)" if "m \<le> t" "m \<le> FSE_MAX_TABLELOG" for m t
    using that by (auto simp: FSE_MIN_TABLELOG_def FSE_MAX_TABLELOG_def)
  have le: "m \<le> (if t < m then m else t)" for m t :: nat by simp
  show ?thesis
    unfolding optimal_table_log_def optimal_table_log_internal_def Let_def if_not_P [OF assms(1) [unfolded not_le [symmetric]]]
    by (rule exI, rule conjI [OF refl], rule clamp [OF le assms(2)])
qed

text \<open>C40: \<open>normalize_count\<close> is total and exact on the counts of a block.  With the log it uses (\<open>FSE_DEFAULT_TABLELOG\<close> for 0)
  it reports its error exactly when that log is outside 5 to 12 or below \<open>min_table_log\<close>; otherwise it returns the
  log 0 exactly when one symbol has every count; otherwise it returns the log with a distribution that fills the
  table, in which exactly the symbols that occur have a cell.  So neither the fallback nor its shares ever fail, and no
  operation overflows, for totals below 2 ^ 31.\<close>

theorem normalize_count_exact:
  assumes len: "max_sym < length cnts" "max_sym < length norm" and ms: "max_sym < 2 ^ 32"
    and tot: "sum_list (take (max_sym + 1) cnts) = tot" "0 < tot" "tot < 2 ^ 31"
  shows "if log_used log < FSE_MIN_TABLELOG \<or> FSE_MAX_TABLELOG < log_used log \<or> log_used log < min_table_log tot max_sym
         then normalize_count norm log cnts tot max_sym low = Inr None
         else if tot \<in> set (take (max_sym + 1) cnts)
         then \<exists>norm'. normalize_count norm log cnts tot max_sym low = Inr (Some (norm', 0))
         else \<exists>norm'. normalize_count norm log cnts tot max_sym low = Inr (Some (norm', log_used log)) \<and> length norm' = length norm
           \<and> fse_tiles (log_used log) (take (max_sym + 1) norm') \<and> (\<forall>i \<le> max_sym. norm' ! i = 0 \<longleftrightarrow> cnts ! i = 0)"
proof -
  define n where "n = max_sym + 1"
  define used where "used = log_used log"
  have S: "(\<Sum>i=0..<n. cnts ! i) = tot" 
  proof -
    have "length (take n cnts) = n" using len(1) by (simp add: n_def)
    then have "sum_list (take n cnts) = (\<Sum>i=0..<n. take n cnts ! i)" by (simp only: sum_list_sum_nth)
    also have "\<dots> = (\<Sum>i=0..<n. cnts ! i)" by (intro sum.cong) auto
    finally show ?thesis using tot(1) by (simp add: n_def)
  qed
  have u: "normalize_count norm log cnts tot max_sym low = normalize_count norm used cnts tot max_sym low"
    and u0: "used \<noteq> 0" by (simp_all add: normalize_count_def used_def log_used_def FSE_DEFAULT_TABLELOG_def)
  have lg: "5 \<le> used \<and> used \<le> 12 \<and> min_table_log tot max_sym \<le> used"
    if "\<not> (used < FSE_MIN_TABLELOG \<or> FSE_MAX_TABLELOG < used \<or> used < min_table_log tot max_sym)"
    using that by (auto simp: FSE_MIN_TABLELOG_def FSE_MAX_TABLELOG_def)
  have mem: "tot \<in> set (take n cnts) \<longleftrightarrow> (\<exists>j<n. cnts ! j = tot)" using len(1) by (auto simp: in_set_conv_nth n_def)
  have nl: "n \<le> length cnts" "n \<le> length norm" using len by (simp_all add: n_def)
  have main: "\<exists>norm'. normalize_count norm used cnts tot max_sym low = Inr (Some (norm', used)) \<and> length norm' = length norm
      \<and> fse_tiles used (take n norm') \<and> (\<forall>i \<le> max_sym. norm' ! i = 0 \<longleftrightarrow> cnts ! i = 0)"
    if u: "5 \<le> used" "used \<le> 12" "min_table_log tot max_sym \<le> used" and no: "\<not> (\<exists>j<n. cnts ! j = tot)"
  proof -
    have "cnts ! i < tot" if "i < n" for i
    proof -
      have "cnts ! i \<le> tot" unfolding S [symmetric] using that by (intro member_le_sum) auto
      then show ?thesis using no that by (auto simp: le_less)
    qed
    then obtain norm' where "normalize_count norm used cnts tot max_sym low = Inr (Some (norm', used))" "length norm' = length norm"
        "fills cnts n (2 ^ used) norm'"
      using normalize_main [OF u(1,2) nl n_def S tot(2,3) _ min_table_log_few [OF u(3) tot(2) _ ms u(1), folded n_def] u(3) refl, of low] tot(3) by auto
    then show ?thesis using fills_tiles [of cnts n used norm'] by (auto simp: fills_def n_def)
  qed
  show ?thesis
    unfolding u used_def [symmetric] n_def [symmetric] mem
    using normalize_bad [OF _ u0] normalize_all [OF _ _ nl n_def S tot(2), of used] main lg by auto
qed

theorem normalize_count_exact_witness:
  "\<exists>norm'. normalize_count [0, 0, 0, 0] 5 [5, 2, 0, 1] 8 3 True = Inr (Some (norm', 5))
     \<and> fse_tiles 5 (take 4 norm') \<and> (\<forall>i \<le> 3. norm' ! i = 0 \<longleftrightarrow> [5, 2, 0, 1::nat] ! i = 0)"
proof -
  have m: "min_table_log 8 3 = 3"
    by (simp add: min_table_log_def highest_bit_def bit_length_pos)
  show ?thesis
    using normalize_count_exact [of 3 "[5, 2, 0, 1]" "[0, 0, 0, 0]" 8 5 True]
    by (auto simp: m log_used_def FSE_MIN_TABLELOG_def FSE_MAX_TABLELOG_def)
qed

end
