(* ===== verification/Spec2Isabelle.thy ===== *)
theory Spec2Isabelle
  imports Prelude Xxhash Constants Bitstream Bit_Reader Fse_Header Header_Write Literals Frame_Decoder Sequence_Encode Ncount_Roundtrip Normalize
begin

text \<open>
  Verification of the rust-zstd codec, a Zstandard (RFC 8878) compressor and decompressor in Rust.

  \<^bold>\<open>The program.\<close>  A frame is a header, blocks and an optional XXH64 checksum.  A compressed block has a literals
  section (raw, one byte repeated, or Huffman streams) and a sequences section: FSE tables and one bit stream, read
  backwards, of (literals length, offset, match length) triples that an LZ77 execution turns into bytes.
  \<open>src/src/decode.rs\<close> and \<open>src/src/decode/\<close> hold the decoder, \<open>src/src/compress/\<close>, \<open>fse.rs\<close> and \<open>huf.rs\<close> the encoder,
  \<open>bitstream.rs\<close>, \<open>constants.rs\<close> and \<open>xxhash.rs\<close> what both share.  The one-shot decoder runs top down through
  \<open>decompress\<close>, \<open>decompress_frames\<close>, \<open>FrameDecoder::process\<close>, \<open>decode_block\<close>, \<open>decompress_block\<close>, then
  \<open>decode_literals\<close> and \<open>build_sequence_tables\<close> with \<open>execute_with\<close>.

  \<^bold>\<open>The theories\<close>, from the bottom, with the code that each models.

  \<^item> \<open>Prelude\<close>: machine integers, the error values of the decoder, the result type \<open>'a res\<close> with its faults, slices,
    little-endian numbers.
  \<^item> \<open>Xxhash\<close> (\<open>xxhash.rs\<close>): \<open>Xxh64\<close> as a record; the locale \<open>incremental_hash\<close> states what a streaming hash promises
    and is interpreted on it.  \<open>Constants\<close> (\<open>constants.rs\<close>): the code tables and the maps from lengths to codes.
  \<^item> \<open>Bitstream\<close> (\<open>bitstream.rs\<close>): \<open>BitWriter\<close> and \<open>BitCStream\<close>, whose contents are numbers.  \<open>Bit_Reader\<close>
    (\<open>decode.rs\<close>, \<open>BitDStream\<close>): the backward reader; every write is read back.
  \<^item> \<open>Fse_Table\<close>, \<open>Fse_Header\<close> (\<open>decode.rs\<close>, \<open>FSETable\<close>): the spread of the symbols over the cells, and the reader of
    normalized counts.
  \<^item> \<open>Headers\<close> (frame, block, literals and sequences headers of \<open>decode.rs\<close>) and \<open>Header_Write\<close> (their writers in
    \<open>compress/mod.rs\<close>, \<open>compress/block.rs\<close>, \<open>huf.rs\<close>, \<open>fse.rs\<close>).
  \<^item> \<open>Huffman_Weights\<close>, \<open>Huffman_Table\<close>, \<open>Huffman_X2\<close> (\<open>HuffmanTable\<close>): weights, statistics in packed lanes, the sort,
    the single- and the double-symbol table.  \<open>Huffman_Stream\<close>: one stream.  \<open>Huffman_Four\<close>, \<open>Huffman_Four_Correct\<close>,
    \<open>Huffman_Four_X2\<close>: four streams with the unsafe fast loops, their bounds and the hand-over to the careful loops.
    \<open>Literals\<close>: the choice of decoder and the literals section.
  \<^item> \<open>Wildcopy\<close>: the copies that write past their end, on memory (\<open>WildCopy\<close> and its four implementations; the vector
    code lane by lane).  \<open>Sequence_Exec\<close>: one sequence, with matches into the external history.  \<open>Sequence_Tables\<close>:
    the three tables of a block and where they come from.  \<open>Sequence_Decode\<close>: the sequences of a block.
  \<^item> \<open>Dictionary\<close> (\<open>decode/dict.rs\<close>): loading a dictionary.  \<open>Block_Decoder\<close>: \<open>DecoderScratch\<close>, blocks of every type and
    the output vector.  \<open>Frame_Decoder\<close>: the stages of \<open>FrameDecoder\<close>, the driver and the entry points.

  \<^item> \<open>Fse_Encode\<close> (\<open>fse.rs\<close>, \<open>FseCTable\<close>, \<open>FseCState\<close>): the encoding tables, which invert the decoding tables.
    \<open>Sequence_Encode\<close> (\<open>encode_sequences\<close>, \<open>seq_to_codes\<close>): the bit stream of a block's sequences.  \<open>Normalize\<close>
    (\<open>normalize_count\<close>, \<open>normalize_m2\<close>, \<open>optimal_table_log\<close>): from counts to a distribution.  \<open>Ncount_Write\<close> and
    \<open>Ncount_Roundtrip\<close> (\<open>write_ncount\<close>): the description of a distribution, and its reading back.

  \<^bold>\<open>How the code is modelled.\<close>  Structs are records and enums datatypes with the source's fields and cases.  Unsigned
  integers are \<open>nat\<close> with every cast, wrap-around and bounds check written out, bytes and hash words are words.  A
  fallible function returns \<open>'a res\<close>: \<open>Err\<close> carries the source's error, \<open>Panic\<close> is a failed check, an overflow or
  \<open>unreachable!\<close>, \<open>Undefined\<close> an unchecked access outside its allocation or an overlapping nonoverlapping copy,
  \<open>Diverges\<close> a loop that runs out of fuel.  Code on raw pointers runs on a memory of numbered allocations (\<open>mem\<close>); a
  pointer is an allocation and an index.  Fuel is the size of the table for the spread's skipping loop, the length
  of what is decoded for the Huffman loops, and symbols times cells for the round robin of the normalization; it is
  proved to be enough where it occurs, and all other loops are total.

  Where the model is coarser than the code: the bit positions of the readers are unbounded, since a block never brings
  them near 2 ^ 32; the unchecked store of \<open>flush_bits\<close> is a plain update of the region, and its writer's invariant keeps
  it inside; only accesses through a pointer are checked, not the pointer arithmetic before them; the two messages of
  \<open>reserve_frame\<close> are one error; and a decoder that has returned an error is not looked at again.

  \<^bold>\<open>What is shown.\<close>  Each component has its own specification and refines it: bit streams round trip; FSE tables give
  every symbol its count of cells, whose state intervals partition the states; the Huffman tables are complete prefix
  codes, the double-symbol table is two lookups, the four-stream fast loops decode symbol by symbol; the copies write
  exactly an LZ77 match; a block's sequences mean what RFC 8878 says (\<open>rfc_offset\<close>, \<open>spec_sequence\<close>, \<open>seq_result\<close>).
  Above them the reference decoder \<open>ref_frames\<close> has neither stages nor memory, and \<open>decompress\<close> equals it on every
  input: it accepts the same inputs, returns the same bytes, never panics, has no undefined behaviour and ends
  (\<open>Frame_Decoder.decompress_correct\<close>).  The state machine is also an inductive step relation with its invariant and
  progress.  The writers of headers are inverse to the parsers.

  On the side of the encoder, every table the builder makes is the inverse of the decoder's table for the same
  distribution, cell for cell; what \<open>encode_sequences\<close> writes is decoded to the same sequences; every distribution
  \<open>write_ncount\<close> describes is read back; and \<open>normalize_count\<close> makes a distribution of the counts of at least two
  symbols whenever the table log is at least \<open>min_table_log\<close>.

  The bound of 16 TiB on the input of \<open>decompress\<close> keeps the output vector below \<open>isize::MAX\<close>, since a block of three
  bytes may decode to 128 KiB; beyond it \<open>Vec::reserve\<close> may panic.  A failing allocator is not modelled.

  \<^bold>\<open>Not modelled.\<close>  The parallel decoder of \<open>decode.rs\<close> (rayon tasks: the model is the build without the
  crate's default feature \<open>parallel\<close>); the
  streaming \<open>Decompressor\<close> (\<open>decode/stream.rs\<close>); the encoder above its header writers and the FSE functions
  listed: \<open>compress_using_ctable\<close>, the choice of table types by cost and the writer of the sequences section, the Huffman
  encoder, match finders, optimal parser, block splitters, long-distance matching, parameters, streaming and multithreaded
  compression; CPU feature detection, tests and benchmarks.
\<close>

end
